(* ===== verification/Prelude.thy ===== *)
theory Prelude
  imports Main "HOL-Library.Word" "HOL-Library.AList" "HOL-Library.Code_Target_Numeral"
begin

section \<open>JavaScript values and shared lemmas\<close>

text \<open>
  What every component of the model shares: the JavaScript standard library operations
  the source calls on strings and numbers, the insertion-ordered Map and Set, the runner
  of step functions, and the contracts (locales) that several components satisfy.

  Strings. The transport hands the library Latin-1 strings, one code unit per byte, so a
  wire string is a HOL \<open>string\<close>: a list of 8-bit characters.

  Numbers. A JavaScript number that the protocol code handles is an integer or one of the
  special values. \<open>js_of_nat\<close> is the IEEE conversion of an integer literal: exact up to
  \<open>2 ^ 53\<close>, rounded to 53 significant bits (ties to even) above it, and infinite from
  \<open>2 ^ 1024\<close> on. The two zeros are identified.

  Map and Set. A JavaScript Map iterates in insertion order and overwrites in place; this
  is exactly \<open>AList.update\<close> on an association list with distinct keys. Map keys are
  compared with SameValueZero, for which NaN equals itself, so HOL equality is right for
  keys; the strict equality of the source is \<open>js_eq\<close>.
\<close>

subsection \<open>Characters and strings\<close>

abbreviation code_of :: "char \<Rightarrow> nat" where
  "code_of c \<equiv> of_char c"

definition is_digit :: "char \<Rightarrow> bool" where
  "is_digit c \<longleftrightarrow> 48 \<le> code_of c \<and> code_of c \<le> 57"

abbreviation CR :: char where "CR \<equiv> CHR 0x0D"
abbreviation LF :: char where "LF \<equiv> CHR 0x0A"
abbreviation SP :: char where "SP \<equiv> CHR 0x20"

text \<open>\<open>s.indexOf(c)\<close> for a one-character and for a longer needle; None is -1.\<close>

fun index_of :: "char \<Rightarrow> string \<Rightarrow> nat option" where
  "index_of d [] = None"
| "index_of d (c # s) = (if c = d then Some 0 else map_option Suc (index_of d s))"

fun index_of_str :: "string \<Rightarrow> string \<Rightarrow> nat option" where
  "index_of_str p [] = (if p = [] then Some 0 else None)"
| "index_of_str p (c # s) =
     (if take (length p) (c # s) = p then Some 0 else map_option Suc (index_of_str p s))"

text \<open>\<open>s.split(d)\<close> for a one-character separator: never empty.\<close>

fun split_on :: "char \<Rightarrow> string \<Rightarrow> string list" where
  "split_on d [] = [[]]"
| "split_on d (c # s) =
     (if c = d then [] # split_on d s
      else (case split_on d s of [] \<Rightarrow> [[c]] | p # ps \<Rightarrow> (c # p) # ps))"

fun join_with :: "string \<Rightarrow> string list \<Rightarrow> string" where
  "join_with d [] = []"
| "join_with d [s] = s"
| "join_with d (s # t # ss) = s @ d @ join_with d (t # ss)"

text \<open>\<open>s.padStart(n, c)\<close>.\<close>

definition pad_start :: "nat \<Rightarrow> char \<Rightarrow> string \<Rightarrow> string" where
  "pad_start n c s = replicate (n - length s) c @ s"

text \<open>The white space \<open>parseInt\<close>, \<open>Number\<close> and \<open>trim\<close> skip, within Latin-1.\<close>

definition js_space :: "char \<Rightarrow> bool" where
  "js_space c \<longleftrightarrow> code_of c \<in> {9, 10, 11, 12, 13, 32, 160}"

definition trim :: "string \<Rightarrow> string" where
  "trim s = rev (dropWhile js_space (rev (dropWhile js_space s)))"

lemma split_on_nonempty [simp]: "split_on d s \<noteq> []"
  by (induction s) (auto split: list.splits)

lemma split_on_single: "d \<notin> set s \<Longrightarrow> split_on d s = [s]"
  by (induction s) auto

lemma split_on_Cons_sep: "d \<notin> set a \<Longrightarrow> split_on d (a @ d # s) = a # split_on d s"
  by (induction a) auto

lemma index_of_None [simp]: "index_of d s = None \<longleftrightarrow> d \<notin> set s"
  by (induction s) auto

lemma index_of_absent [simp]: "d \<notin> set s \<Longrightarrow> index_of d s = None"
  by simp

lemma index_of_append: "d \<notin> set a \<Longrightarrow> index_of d (a @ d # s) = Some (length a)"
  by (induction a) auto

lemma index_of_Some:
  "index_of d s = Some i \<Longrightarrow> i < length s \<and> s ! i = d \<and> d \<notin> set (take i s)"
proof (induction s arbitrary: i)
  case Nil
  then show ?case by simp
next
  case (Cons c s)
  then show ?case
    by (auto split: if_splits)
qed

lemma index_of_split: "index_of d s = Some i \<Longrightarrow> take i s @ d # drop (Suc i) s = s"
  using index_of_Some [of d s i] by (metis id_take_nth_drop)

lemma index_of_str_append:
  assumes "p \<noteq> []" and "hd p \<notin> set a"
  shows "index_of_str p (a @ p @ s) = Some (length a)"
  using assms
proof (induction a)
  case Nil
  then show ?case by (cases p) auto
next
  case (Cons c a)
  then have "take (length p) (c # (a @ p @ s)) \<noteq> p"
    by (cases p) auto
  with Cons show ?case by simp
qed

lemma hd_split_on:
  "hd (split_on d s) = takeWhile (\<lambda>c. c \<noteq> d) s"
  by (induction s) (auto split: list.splits)

lemmas split_simps = split_on_single split_on_Cons_sep index_of_append

subsection \<open>Numbers\<close>

datatype jsnum = NaN | Infinity | NegInfinity | Num int

text \<open>Strict equality \<open>===\<close>: NaN differs from itself.\<close>

definition js_eq :: "jsnum \<Rightarrow> jsnum \<Rightarrow> bool" where
  "js_eq a b \<longleftrightarrow> a \<noteq> NaN \<and> a = b"

fun bit_len :: "nat \<Rightarrow> nat" where
  "bit_len n = (if n = 0 then 0 else Suc (bit_len (n div 2)))"

declare bit_len.simps [simp del]

definition js_of_nat :: "nat \<Rightarrow> jsnum" where
  "js_of_nat n =
     (if n \<le> 2 ^ 53 then Num (int n)
      else let e = bit_len n - 53; m = n div 2 ^ e; r = n mod 2 ^ e; h = 2 ^ (e - 1);
               m' = (if h < r \<or> (r = h \<and> odd m) then Suc m else m); v = m' * 2 ^ e
           in if 2 ^ 1024 \<le> v then Infinity else Num (int v))"

fun js_neg :: "jsnum \<Rightarrow> jsnum" where
  "js_neg NaN = NaN"
| "js_neg Infinity = NegInfinity"
| "js_neg NegInfinity = Infinity"
| "js_neg (Num n) = Num (- n)"

definition digits_val :: "string \<Rightarrow> nat" where
  "digits_val s = foldl (\<lambda>acc c. acc * 10 + (code_of c - 48)) 0 s"

text \<open>\<open>parseInt(s, 10)\<close>: leading white space, an optional sign, the longest digit run.\<close>

fun parse_sign :: "string \<Rightarrow> bool \<times> string" where
  "parse_sign [] = (False, [])"
| "parse_sign (c # s) =
     (if c = CHR ''-'' then (True, s) else if c = CHR ''+'' then (False, s) else (False, c # s))"

definition parse_int :: "string \<Rightarrow> jsnum" where
  "parse_int s =
     (let (neg, u) = parse_sign (dropWhile js_space s); ds = takeWhile is_digit u
      in if ds = [] then NaN
         else if neg then js_neg (js_of_nat (digits_val ds)) else js_of_nat (digits_val ds))"

text \<open>Decimal text of a number: \<open>String(n)\<close> for a safe integer.\<close>

fun nat_str :: "nat \<Rightarrow> string" where
  "nat_str n = (if n < 10 then [char_of (48 + n)] else nat_str (n div 10) @ [char_of (48 + n mod 10)])"

declare nat_str.simps [simp del]

definition int_str :: "int \<Rightarrow> string" where
  "int_str n = (if n < 0 then CHR ''-'' # nat_str (nat (- n)) else nat_str (nat n))"

fun num_str :: "jsnum \<Rightarrow> string" where
  "num_str NaN = ''NaN''"
| "num_str Infinity = ''Infinity''"
| "num_str NegInfinity = ''-Infinity''"
| "num_str (Num n) = int_str n"

definition safe_int :: "int \<Rightarrow> bool" where
  "safe_int n \<longleftrightarrow> \<bar>n\<bar> \<le> 2 ^ 53"

text \<open>A natural number the code carries exactly: the ids and counters tmux prints.\<close>

definition safe_id :: "jsnum \<Rightarrow> bool" where
  "safe_id v \<longleftrightarrow> (\<exists>n. v = Num n \<and> 0 \<le> n \<and> n \<le> 2 ^ 53)"

lemma is_digit_char_of [simp]: "n < (10::nat) \<Longrightarrow> is_digit (char_of (48 + n))"
  by (simp add: is_digit_def)

lemma nat_str_digits: "c \<in> set (nat_str n) \<Longrightarrow> is_digit c"
proof (induction n rule: nat_str.induct)
  case (1 n)
  then show ?case
    by (subst (asm) (2) nat_str.simps) (auto split: if_splits)
qed

lemma nat_str_nonempty [simp]: "nat_str n \<noteq> []"
  by (subst nat_str.simps) simp

lemma digits_val_nat_str [simp]: "digits_val (nat_str n) = n"
proof (induction n rule: nat_str.induct)
  case (1 n)
  show ?case
  proof (cases "n < 10")
    case True
    then show ?thesis by (subst nat_str.simps) (simp add: digits_val_def)
  next
    case False
    with "1.IH" show ?thesis
      by (subst nat_str.simps) (simp add: digits_val_def)
  qed
qed

lemma digit_not_space: "is_digit c \<Longrightarrow> \<not> js_space c"
  by (auto simp: is_digit_def js_space_def)

lemma js_of_nat_safe [simp]: "n \<le> 2 ^ 53 \<Longrightarrow> js_of_nat n = Num (int n)"
  by (simp add: js_of_nat_def)


lemma parse_sign_digit: "is_digit c \<Longrightarrow> parse_sign (c # s) = (False, c # s)"
  by (auto simp: is_digit_def)

lemma hd_nat_str: "is_digit (hd (nat_str n))"
  by (rule nat_str_digits) (rule hd_in_set, simp)

lemma takeWhile_digits:
  "(\<And>c. c \<in> set a \<Longrightarrow> is_digit c) \<Longrightarrow> (s = [] \<or> \<not> is_digit (hd s)) \<Longrightarrow>
   takeWhile is_digit (a @ s) = a"
  by (induction a) (cases s; auto)+

text \<open>The decimal text of a safe integer parses back, whatever non-digit follows it.\<close>

lemma parse_int_nat_str:
  assumes "s = [] \<or> \<not> is_digit (hd s)" and "n \<le> 2 ^ 53"
  shows "parse_int (nat_str n @ s) = Num (int n)"
proof -
  obtain c t where ct: "nat_str n = c # t" by (cases "nat_str n") auto
  have c: "is_digit c" using hd_nat_str [of n] ct by simp
  have "dropWhile js_space (nat_str n @ s) = nat_str n @ s"
    using ct c digit_not_space by simp
  moreover have "parse_sign (nat_str n @ s) = (False, nat_str n @ s)"
    using ct c by (metis append_Cons parse_sign_digit)
  moreover have "takeWhile is_digit (nat_str n @ s) = nat_str n"
    by (rule takeWhile_digits) (use nat_str_digits assms(1) in auto)
  ultimately show ?thesis using assms(2) by (simp add: parse_int_def)
qed

lemma parse_int_int_str:
  assumes "s = [] \<or> \<not> is_digit (hd s)" and "safe_int n"
  shows "parse_int (int_str n @ s) = Num n"
proof (cases "n < 0")
  case False
  have "nat n \<le> 2 ^ 53" using assms(2) False by (simp add: safe_int_def)
  then show ?thesis
    using False parse_int_nat_str [OF assms(1), of "nat n"] by (simp add: int_str_def)
next
  case True
  obtain c t where ct: "nat_str (nat (- n)) = c # t" by (cases "nat_str (nat (- n))") auto
  have m: "nat (- n) \<le> 2 ^ 53" using assms(2) True by (simp add: safe_int_def)
  have "takeWhile is_digit (nat_str (nat (- n)) @ s) = nat_str (nat (- n))"
    by (rule takeWhile_digits) (use nat_str_digits assms(1) in auto)
  moreover have "\<not> js_space (CHR ''-'')" by (simp add: js_space_def)
  ultimately show ?thesis using True m by (simp add: parse_int_def int_str_def)
qed

lemmas parse_int_str = parse_int_nat_str parse_int_int_str

lemma int_str_nonempty [simp]: "int_str n \<noteq> []"
  by (simp add: int_str_def)

lemma int_str_chars: "c \<in> set (int_str n) \<Longrightarrow> is_digit c \<or> c = CHR ''-''"
  by (auto simp: nat_str_digits int_str_def split: if_splits)


subsection \<open>Sets and maps in insertion order\<close>

text \<open>
  A JavaScript Set is the list of its elements in insertion order, without repetitions;
  adding a present element leaves its place, deleting and adding it again moves it last.
  A Map is an association list, \<open>m.get\<close> is \<open>map_of\<close>, \<open>m.set\<close> is \<open>AList.update\<close> and
  \<open>m.delete\<close> is \<open>AList.delete\<close>.
\<close>

definition set_add :: "'a \<Rightarrow> 'a list \<Rightarrow> 'a list" where
  "set_add x s = (if x \<in> set s then s else s @ [x])"

definition set_delete :: "'a \<Rightarrow> 'a list \<Rightarrow> 'a list" where
  "set_delete x s = filter (\<lambda>y. y \<noteq> x) s"

definition set_of_list :: "'a list \<Rightarrow> 'a list" where
  "set_of_list xs = foldl (\<lambda>s x. set_add x s) [] xs"

lemma set_set_add [simp]: "set (set_add x s) = insert x (set s)"
  by (auto simp: set_add_def)

lemma set_set_delete [simp]: "set (set_delete x s) = set s - {x}"
  by (auto simp: set_delete_def)

lemma distinct_set_add [simp]: "distinct (set_add x s) \<longleftrightarrow> distinct s"
  by (auto simp: set_add_def)

lemma distinct_set_delete [simp]: "distinct s \<Longrightarrow> distinct (set_delete x s)"
  by (simp add: set_delete_def)

lemma set_add_nonempty [simp]: "set_add x s \<noteq> []"
  by (auto simp: set_add_def)

lemma set_delete_empty [simp]: "set_delete x s = [] \<longleftrightarrow> set s \<subseteq> {x}"
  by (auto simp: set_delete_def filter_empty_conv)

lemma foldl_set_add:
  "set (foldl (\<lambda>s x. set_add x s) s xs) = set s \<union> set xs"
  "distinct (foldl (\<lambda>s x. set_add x s) s xs) \<longleftrightarrow> distinct s"
  by (induction xs arbitrary: s) auto

lemma set_set_of_list [simp]: "set (set_of_list xs) = set xs"
  by (simp add: set_of_list_def foldl_set_add)

lemma distinct_set_of_list [simp]: "distinct (set_of_list xs)"
  by (simp add: set_of_list_def foldl_set_add)

lemma set_of_list_empty [simp]: "set_of_list xs = [] \<longleftrightarrow> xs = []"
  using set_set_of_list [of xs] by (metis set_empty)

lemma map_of_update [simp]: "map_of (AList.update k v m) = (map_of m)(k \<mapsto> v)"
  by (rule update_conv')

lemma map_of_delete [simp]: "map_of (AList.delete k m) = (map_of m)(k := None)"
  by (rule delete_conv')

subsection \<open>Computations that may throw\<close>

text \<open>A throwing computation is a sum, \<open>Inl\<close> the error; \<open>and_then\<close> sequences two.\<close>

fun and_then :: "'e + 'a \<Rightarrow> ('a \<Rightarrow> 'e + 'b) \<Rightarrow> 'e + 'b" where
  "and_then (Inl e) f = Inl e"
| "and_then (Inr x) f = f x"

lemma and_then_cong [fundef_cong]:
  "m = m' \<Longrightarrow> (\<And>x. m' = Inr x \<Longrightarrow> f x = f' x) \<Longrightarrow> and_then m f = and_then m' f'"
  by (cases m') auto

lemma and_then_Inr: "and_then m f = Inr y \<longleftrightarrow> (\<exists>x. m = Inr x \<and> f x = Inr y)"
  by (cases m) auto

subsection \<open>Step functions and their runs\<close>

text \<open>
  A component whose operations return its next state and the effects they cause is a step
  function; a history of the component is a run of it over the list of its inputs.
\<close>

fun run_steps :: "('s \<Rightarrow> 'e \<Rightarrow> 's \<times> 'o list) \<Rightarrow> 's \<Rightarrow> 'e list \<Rightarrow> 's \<times> 'o list" where
  "run_steps f s [] = (s, [])"
| "run_steps f s (e # es) =
     (let (s1, o1) = f s e; (s2, o2) = run_steps f s1 es in (s2, o1 @ o2))"

lemma run_steps_append:
  "run_steps f s (xs @ ys) =
     (let (s1, o1) = run_steps f s xs; (s2, o2) = run_steps f s1 ys in (s2, o1 @ o2))"
  by (induction xs arbitrary: s) (auto simp: Let_def split: prod.splits)

lemma fst_run_Cons [simp]: "fst (run_steps f s (e # es)) = fst (run_steps f (fst (f s e)) es)"
  by (simp add: Let_def split: prod.splits)

lemma snd_run_Cons [simp]:
  "snd (run_steps f s (e # es)) = snd (f s e) @ snd (run_steps f (fst (f s e)) es)"
  by (simp add: Let_def split: prod.splits)

declare run_steps.simps(2) [simp del]

lemma fst_run_append [simp]:
  "fst (run_steps f s (xs @ ys)) = fst (run_steps f (fst (run_steps f s xs)) ys)"
  by (induction xs arbitrary: s) simp_all

lemma snd_run_append [simp]:
  "snd (run_steps f s (xs @ ys)) =
     snd (run_steps f s xs) @ snd (run_steps f (fst (run_steps f s xs)) ys)"
  by (induction xs arbitrary: s) simp_all

text \<open>The contract of a component with an invariant: every operation keeps it.\<close>

locale invariant_steps =
  fixes step :: "'s \<Rightarrow> 'e \<Rightarrow> 's \<times> 'o list"
    and inv :: "'s \<Rightarrow> bool"
  assumes step_keeps: "inv s \<Longrightarrow> inv (fst (step s e))"
begin

lemma run_keeps: "inv s \<Longrightarrow> inv (fst (run_steps step s es))"
  by (induction es arbitrary: s) (simp_all add: step_keeps)

lemma run_outputs:
  assumes "inv s" and "\<And>s e. inv s \<Longrightarrow> list_all P (snd (step s e))"
  shows "list_all P (snd (run_steps step s es))"
  using assms by (induction es arbitrary: s) (simp_all add: step_keeps)

end

text \<open>
  A component whose state ends: once \<open>ended\<close> holds, no operation leaves it.
\<close>

locale terminal_steps =
  fixes step :: "'s \<Rightarrow> 'e \<Rightarrow> 's \<times> 'o list"
    and ended :: "'s \<Rightarrow> bool"
  assumes step_ended: "ended s \<Longrightarrow> ended (fst (step s e))"

sublocale terminal_steps \<subseteq> invariant_steps step ended
  by unfold_locales (rule step_ended)

text \<open>
  The contract of a wire format: on its domain the decoder inverts the encoder, so no two
  values share an encoding.
\<close>

locale wire_codec =
  fixes enc :: "'a \<Rightarrow> 'w"
    and dec :: "'w \<Rightarrow> 'a option"
    and ok :: "'a \<Rightarrow> bool"
  assumes dec_enc: "ok x \<Longrightarrow> dec (enc x) = Some x"
begin

lemma enc_inj: "ok x \<Longrightarrow> ok y \<Longrightarrow> enc x = enc y \<Longrightarrow> x = y"
  by (metis dec_enc option.inject)

lemma dec_total: "ok x \<Longrightarrow> dec (enc x) \<noteq> None"
  by (simp add: dec_enc)

end

end
