(* ===== verification/Codec.thy ===== *)
theory Codec
  imports Prelude
begin

section \<open>Byte codecs\<close>

text \<open>
  \<open>src/protocol/decode.ts\<close>: the octal escapes of \<open>%output\<close> payloads, and
  \<open>src/protocol/byte-codec.ts\<close>: bytes as Latin-1 strings. A \<open>Uint8Array\<close> is a list of
  8-bit words, and storing a number into it keeps its low eight bits.
\<close>

type_synonym byte = "8 word"

abbreviation byte_of :: "nat \<Rightarrow> byte" where
  "byte_of n \<equiv> word_of_nat n"

lemma unat_byte: "unat (b :: byte) < 256"
  using unsigned_less [of b] by simp

subsection \<open>Octal escapes: decoding\<close>

text \<open>
  The inner loop over the three digits of an escape, on the input after the backslash. It
  returns the accumulated code and the input that is left: where a digit is missing the
  code is a question mark and the offending character stays in the input.
\<close>

definition octal_digit :: "char \<Rightarrow> bool" where
  "octal_digit c \<longleftrightarrow> 48 \<le> code_of c \<and> code_of c \<le> 55"

fun read_octal :: "nat \<Rightarrow> nat \<Rightarrow> string \<Rightarrow> nat \<times> string" where
  "read_octal 0 c s = (c, s)"
| "read_octal (Suc j) c s =
     (case dropWhile (\<lambda>x. x = CR) s of
        [] \<Rightarrow> (63, [])
      | d # t \<Rightarrow>
          if octal_digit d then read_octal j (c * 8 + (code_of d - 48)) t else (63, d # t))"

lemma read_octal_length: "length (snd (read_octal j c s)) \<le> length s"
proof (induction j c s rule: read_octal.induct)
  case (1 c s)
  then show ?case by simp
next
  case (2 j c s)
  have "length (dropWhile (\<lambda>x. x = CR) s) \<le> length s" by (rule length_dropWhile_le)
  with 2 show ?case by (force split: list.splits)
qed

function decode_octal :: "string \<Rightarrow> byte list" where
  "decode_octal [] = []"
| "decode_octal (c # s) =
     (if code_of c < 32 then decode_octal s
      else if code_of c = 92 then
        byte_of (fst (read_octal 3 0 s)) # decode_octal (snd (read_octal 3 0 s))
      else byte_of (code_of c) # decode_octal s)"
  by pat_completeness auto
termination decode_octal
  by (relation "measure length") (auto intro: le_imp_less_Suc read_octal_length)

text \<open>
  The result never outgrows the buffer the code allocates for it (the length of its
  input), so no write of the decoder is lost.
\<close>

lemma decode_octal_length: "length (decode_octal s) \<le> length s"
proof (induction s rule: decode_octal.induct)
  case (2 c s)
  then show ?case using read_octal_length [of 3 0 s] by auto
qed simp

subsection \<open>Octal escapes: encoding\<close>

fun octal_str :: "nat \<Rightarrow> string" where
  "octal_str n = (if n < 8 then [char_of (48 + n)] else octal_str (n div 8) @ [char_of (48 + n mod 8)])"

declare octal_str.simps [simp del]

definition encode_byte :: "byte \<Rightarrow> string" where
  "encode_byte b =
     (if unat b < 32 \<or> unat b = 92
      then CHR 0x5C # pad_start 3 (CHR ''0'') (octal_str (unat b))
      else [char_of (unat b)])"

definition encode_octal :: "byte list \<Rightarrow> string" where
  "encode_octal bs = concat (map encode_byte bs)"


lemma octal_str_small: "n < 8 \<Longrightarrow> octal_str n = [char_of (48 + n)]"
  by (subst octal_str.simps) simp

lemma octal_str_step: "8 \<le> n \<Longrightarrow> octal_str n = octal_str (n div 8) @ [char_of (48 + n mod 8)]"
  by (subst octal_str.simps) simp

text \<open>The padded octal text of a byte is its three octal digits.\<close>

lemma octal_three_digits:
  assumes "n < 256"
  shows "pad_start 3 (CHR ''0'') (octal_str n) =
     [char_of (48 + n div 64), char_of (48 + n div 8 mod 8), char_of (48 + n mod 8)]"
proof -
  have zero: "char_of (48::nat) = CHR ''0''"
    using char_of_char [of "CHR ''0''"] by simp
  consider "n < 8" | "8 \<le> n" "n < 64" | "64 \<le> n" by linarith
  then show ?thesis
  proof cases
    case 1
    then show ?thesis by (simp add: octal_str_small pad_start_def numeral_2_eq_2 zero)
  next
    case 2
    then have "n div 8 < 8" by linarith
    with 2 show ?thesis
      by (simp add: octal_str_step octal_str_small pad_start_def zero)
  next
    case 3
    then have "8 \<le> n" "8 \<le> n div 8" "n div 8 div 8 < 8" using assms by linarith+
    then show ?thesis
      by (simp add: octal_str_step octal_str_small pad_start_def div_mult2_eq [symmetric])
  qed
qed

lemma octal_digit_char_of [simp]: "n < (8::nat) \<Longrightarrow> octal_digit (char_of (48 + n))"
  by (simp add: octal_digit_def)

lemma octal_digit_not_CR: "octal_digit c \<Longrightarrow> c \<noteq> CR"
  by (auto simp: octal_digit_def)

lemma read_octal_digit:
  assumes "d < 8"
  shows "read_octal (Suc j) c (char_of (48 + d) # s) = read_octal j (c * 8 + d) s"
proof -
  have "char_of (48 + d) \<noteq> CR"
    by (rule octal_digit_not_CR, rule octal_digit_char_of, rule assms)
  with assms show ?thesis by simp
qed

lemma read_octal_three:
  assumes "a < 8" and "b < 8" and "c < 8"
  shows "read_octal 3 0 (char_of (48 + a) # char_of (48 + b) # char_of (48 + c) # s) =
    ((a * 8 + b) * 8 + c, s)"
  unfolding numeral_3_eq_3 by (simp only: read_octal_digit assms) simp

lemma decode_escape:
  "decode_octal (CHR 0x5C # t) = byte_of (fst (read_octal 3 0 t)) # decode_octal (snd (read_octal 3 0 t))"
  by (simp del: read_octal.simps)

lemma decode_encode_byte: "decode_octal (encode_byte b @ s) = b # decode_octal s"
proof (cases "unat b < 32 \<or> unat b = 92")
  case True
  define n where "n = unat b"
  have n: "n < 256" unfolding n_def by (rule unat_byte)
  have d: "n div 64 < 8" "n div 8 mod 8 < 8" "n mod 8 < 8" using n by linarith+
  have e: "encode_byte b = CHR 0x5C # [char_of (48 + n div 64),
      char_of (48 + n div 8 mod 8), char_of (48 + n mod 8)]"
    unfolding encode_byte_def n_def [symmetric] octal_three_digits [OF n]
    using True n_def by (simp only: if_True)
  have "n div 64 = n div 8 div 8" by (simp flip: div_mult2_eq)
  then have v: "(n div 64 * 8 + n div 8 mod 8) * 8 + n mod 8 = n"
    by (simp only: div_mult_mod_eq)
  have "byte_of n = b" by (simp add: n_def)
  then show ?thesis
    by (simp only: e append_Cons append_Nil decode_escape read_octal_three [OF d] v fst_conv snd_conv)
next
  case False
  have "unat b < 256" by (rule unat_byte)
  with False show ?thesis by (simp add: encode_byte_def)
qed

lemma decode_encode: "decode_octal (encode_octal bs) = bs"
  by (induction bs) (simp_all add: encode_octal_def decode_encode_byte)

interpretation octal: wire_codec encode_octal "\<lambda>s. Some (decode_octal s)" "\<lambda>_. True"
  by unfold_locales (simp add: decode_encode)

text \<open>The wire form is printable: no control byte, so no line break and no CR.\<close>

lemma encode_octal_printable: "c \<in> set (encode_octal bs) \<Longrightarrow> 32 \<le> code_of c"
proof -
  have "c \<in> set (encode_byte b) \<Longrightarrow> 32 \<le> code_of c" for b
  proof -
    have "unat b < 256" by (rule unat_byte)
    then show "c \<in> set (encode_byte b) \<Longrightarrow> 32 \<le> code_of c"
      by (auto simp: encode_byte_def octal_three_digits split: if_splits)
  qed
  then show "c \<in> set (encode_octal bs) \<Longrightarrow> 32 \<le> code_of c"
    by (auto simp: encode_octal_def)
qed


subsection \<open>Transport noise\<close>

text \<open>
  A carriage return that the line driver adds, anywhere (between escapes, inside one, at
  the end), never changes the decoded bytes, on any input, well formed or not.
\<close>

abbreviation strip_cr :: "string \<Rightarrow> string" where
  "strip_cr s \<equiv> filter (\<lambda>c. c \<noteq> CR) s"

lemma strip_cr_dropWhile: "strip_cr (dropWhile (\<lambda>x. x = CR) s) = strip_cr s"
  by (induction s) auto

lemma dropWhile_strip_cr: "dropWhile (\<lambda>x. x = CR) (strip_cr s) = strip_cr s"
  by (induction s) auto

lemma read_octal_strip_cr:
  "fst (read_octal j c (strip_cr s)) = fst (read_octal j c s) \<and>
   snd (read_octal j c (strip_cr s)) = strip_cr (snd (read_octal j c s))"
proof (induction j arbitrary: c s)
  case 0
  then show ?case by simp
next
  case (Suc j)
  show ?case
  proof (cases "dropWhile (\<lambda>x. x = CR) s")
    case Nil
    then have "strip_cr s = []" using strip_cr_dropWhile [of s] by simp
    with Nil show ?thesis by (simp only: read_octal.simps) simp
  next
    case (Cons d t)
    then have d: "d \<noteq> CR" using hd_dropWhile [of "\<lambda>x. x = CR" s] by simp
    have "strip_cr s = d # strip_cr t"
      using Cons d strip_cr_dropWhile [of s] by simp
    with Cons d Suc [of "c * 8 + (code_of d - 48)" t] show ?thesis by simp
  qed
qed

lemma decode_octal_strip_cr: "decode_octal (strip_cr s) = decode_octal s"
proof (induction s rule: decode_octal.induct)
  case 1
  then show ?case by simp
next
  case (2 c s)
  have "code_of CR = 13" by simp
  then show ?case
    using 2 read_octal_strip_cr [of 3 0 s] by auto
qed

subsection \<open>Bytes as Latin-1 strings\<close>

text \<open>
  A JavaScript string is a list of 16-bit code units. \<open>bytesToLatin1\<close> converts in chunks
  of 8192 bytes, so that the argument spread cannot overflow the call stack.
\<close>

type_synonym code_unit = "16 word"

definition latin1_chunk :: nat where
  "latin1_chunk = 8192"

function bytes_to_latin1 :: "byte list \<Rightarrow> code_unit list" where
  "bytes_to_latin1 bs =
     (if bs = [] then []
      else map ucast (take latin1_chunk bs) @ bytes_to_latin1 (drop latin1_chunk bs))"
  by pat_completeness auto
termination bytes_to_latin1
  by (relation "measure length") (auto simp: latin1_chunk_def)

declare bytes_to_latin1.simps [simp del]

definition latin1_to_bytes :: "code_unit list \<Rightarrow> byte list" where
  "latin1_to_bytes us = map (\<lambda>u. ucast (and u 255)) us"

text \<open>Chunking is invisible: the result is the plain byte-to-code-unit map.\<close>

lemma bytes_to_latin1_map: "bytes_to_latin1 bs = map ucast bs"
proof (induction bs rule: bytes_to_latin1.induct)
  case (1 bs)
  then show ?case
    by (subst bytes_to_latin1.simps) (simp flip: map_append)
qed



lemma low_byte_mask: "(255 :: code_unit) = mask 8"
  by (simp add: mask_eq_exp_minus_1)

lemma latin1_unit_byte: "ucast (and (ucast (b :: byte) :: code_unit) 255) = b"
  by (rule bit_word_eqI) (simp add: low_byte_mask bit_simps)

lemma latin1_byte_unit:
  assumes "unat (u :: code_unit) < 256"
  shows "ucast (ucast (and u 255) :: byte) = u"
proof -
  have "take_bit 8 (unat u) = unat u" using assms by (simp add: take_bit_nat_eq_self)
  then have "take_bit 8 u = u" by (metis unsigned_take_bit_eq word_unat_eq_iff)
  then have "bit u n \<longleftrightarrow> n < 8 \<and> bit u n" for n by (metis bit_take_bit_iff)
  then show ?thesis
    by (intro bit_word_eqI) (auto simp: low_byte_mask bit_simps)
qed

subsection \<open>Properties\<close>

text \<open>Pane output survives the wire: whatever carriage returns a line driver adds to
  the octal form of some bytes, the decoder gives back exactly those bytes.\<close>

theorem octal_noise_roundtrip:
  assumes "strip_cr s = encode_octal bs"
  shows "decode_octal s = bs"
  using assms decode_octal_strip_cr [of s] decode_encode [of bs] by simp

theorem octal_noise_roundtrip_witness:
  "decode_octal [CHR 0x5C, CR, CHR ''0'', CHR ''3'', CR, CR, CHR ''3'', CR, CHR ''A''] = [27, 65]"
  by (rule octal_noise_roundtrip) code_simp

text \<open>The decoder never writes past the buffer it allocates (one byte per input
  character), so no decoded byte is silently lost.\<close>

theorem decoder_within_buffer: "length (decode_octal s) \<le> length s"
  by (rule decode_octal_length)

text \<open>The byte codec is a bijection between byte arrays and Latin-1 strings: chunked
  encoding loses nothing, and every string of code units below 256 is the encoding of
  its own bytes.\<close>

theorem latin1_bijection:
  "latin1_to_bytes (bytes_to_latin1 bs) = bs \<and>
   ((\<forall>u\<in>set us. unat u < 256) \<longrightarrow> bytes_to_latin1 (latin1_to_bytes us) = us)"
  by (simp add: bytes_to_latin1_map latin1_to_bytes_def latin1_unit_byte latin1_byte_unit
      map_idI comp_def)

theorem latin1_bijection_witness:
  "bytes_to_latin1 (latin1_to_bytes [0x80, 0xFF]) = [0x80, 0xFF]"
  using latin1_bijection [of "[]" "[0x80, 0xFF]"] by simp

end
