(* ===== verification/Layout.thy ===== *)
theory Layout
  imports Prelude
begin

unbundle bit_operations_syntax

section \<open>Window layouts\<close>

text \<open>
  \<open>src/protocol/layout.ts\<close>: the checksum and the recursive-descent parser of tmux's
  window layout strings, with the result types of \<open>src/protocol/types.ts\<close>. A reader is
  the offset (for the error messages) and the input from there; a thrown
  \<open>LayoutSyntaxError\<close> is \<open>Inl\<close> of its message. The grammar of the file's header
  comment is the inductive relation \<open>cell_text\<close>, and the parser is proved to accept
  exactly it.
\<close>

record pane_geometry =
  geoPaneId :: jsnum
  geoWidth :: jsnum
  geoHeight :: jsnum
  geoX :: jsnum
  geoY :: jsnum

datatype window_layout = Parsed "pane_geometry list" | Malformed string

record window_layout_fields =
  windowLayout :: string
  windowVisibleLayout :: string
  windowFlags :: string
  layout :: window_layout
  visibleLayout :: window_layout

subsection \<open>Checksum\<close>

definition checksum_step :: "16 word \<Rightarrow> char \<Rightarrow> 16 word" where
  "checksum_step csum c = drop_bit 1 csum + push_bit 15 (csum AND 1) + word_of_nat (code_of c)"

definition layout_checksum :: "string \<Rightarrow> 16 word" where
  "layout_checksum body = foldl checksum_step 0 body"

subsection \<open>Reader\<close>

type_synonym reader = "nat \<times> string"

fun peek :: "reader \<Rightarrow> char option" where
  "peek (pos, []) = None"
| "peek (pos, c # s) = Some c"

definition at_end :: "reader \<Rightarrow> bool" where
  "at_end r \<longleftrightarrow> snd r = []"

definition describe_here :: "reader \<Rightarrow> string" where
  "describe_here r = (case peek r of None \<Rightarrow> ''end of input'' | Some c \<Rightarrow> [CHR 0x27, c, CHR 0x27])"

definition expect :: "char \<Rightarrow> reader \<Rightarrow> string + reader" where
  "expect ch r =
     (if peek r \<noteq> Some ch
      then Inl (''expected '' @ [CHR 0x27, ch, CHR 0x27] @ '' at offset '' @ nat_str (fst r) @
                '', found '' @ describe_here r)
      else Inr (Suc (fst r), tl (snd r)))"

definition read_uint :: "reader \<Rightarrow> string + (jsnum \<times> reader)" where
  "read_uint r =
     (let ds = takeWhile is_digit (snd r) in
      if ds = []
      then Inl (''expected a number at offset '' @ nat_str (fst r) @ '', found '' @ describe_here r)
      else Inr (parse_int ds, (fst r + length ds, dropWhile is_digit (snd r))))"

definition split_close :: "char option \<Rightarrow> char option" where
  "split_close c = (if c = Some (CHR 0x7B) then Some (CHR 0x7D)
     else if c = Some (CHR ''['') then Some (CHR '']'') else None)"

definition max_split_depth :: nat where
  "max_split_depth = 1000"

text \<open>The four numbers every cell starts with.\<close>

definition read_extent :: "reader \<Rightarrow> string + (jsnum \<times> jsnum \<times> jsnum \<times> jsnum \<times> reader)" where
  "read_extent r =
     and_then (read_uint r) (\<lambda>(w, r). and_then (expect (CHR ''x'') r) (\<lambda>r.
     and_then (read_uint r) (\<lambda>(h, r). and_then (expect (CHR '','') r) (\<lambda>r.
     and_then (read_uint r) (\<lambda>(x, r). and_then (expect (CHR '','') r) (\<lambda>r.
     and_then (read_uint r) (\<lambda>(y, r). Inr (w, h, x, y, r))))))))"

text \<open>
  One cell at nesting depth \<open>d\<close>, and the loop over its further children. Both return the
  panes they append, in layout order.
\<close>

function (sequential) read_cell :: "nat \<Rightarrow> reader \<Rightarrow> string + (pane_geometry list \<times> reader)"
  and read_rest :: "nat \<Rightarrow> reader \<Rightarrow> string + (pane_geometry list \<times> reader)" where
  "read_cell d r =
     (if max_split_depth < d
      then Inl (''splits nested deeper than '' @ nat_str max_split_depth)
      else and_then (read_extent r) (\<lambda>(w, h, x, y, r1).
        case split_close (peek r1) of
          None \<Rightarrow>
            and_then (expect (CHR '','') r1) (\<lambda>r2. and_then (read_uint r2) (\<lambda>(p, r3).
              Inr ([\<lparr>geoPaneId = p, geoWidth = w, geoHeight = h, geoX = x, geoY = y\<rparr>], r3)))
        | Some close \<Rightarrow>
            and_then (expect (the (peek r1)) r1) (\<lambda>r2.
            and_then (read_cell (Suc d) r2) (\<lambda>(ps, r3).
            and_then (read_rest (Suc d) r3) (\<lambda>(qs, r4).
            and_then (expect close r4) (\<lambda>r5. Inr (ps @ qs, r5)))))))"
| "read_rest d r =
     (if peek r = Some (CHR '','')
      then and_then (expect (CHR '','') r) (\<lambda>r1.
           and_then (read_cell d r1) (\<lambda>(ps, r2).
           and_then (read_rest d r2) (\<lambda>(qs, r3). Inr (ps @ qs, r3))))
      else Inr ([], r))"
  by pat_completeness auto

abbreviation rlen :: "reader \<Rightarrow> nat" where
  "rlen r \<equiv> length (snd r)"

lemma expect_Inr:
  "expect ch r = Inr r' \<longleftrightarrow> snd r = ch # snd r' \<and> fst r' = Suc (fst r)"
  by (cases r; cases "snd r"; cases r') (auto simp: expect_def)

lemma read_uint_Inr:
  "read_uint r = Inr (n, r') \<longleftrightarrow>
     (\<exists>ds. ds \<noteq> [] \<and> (\<forall>c\<in>set ds. is_digit c) \<and> n = parse_int ds \<and>
       snd r = ds @ snd r' \<and> (snd r' = [] \<or> \<not> is_digit (hd (snd r'))) \<and>
       fst r' = fst r + length ds)" (is "?L \<longleftrightarrow> ?R")
proof
  assume ?L
  then have "?R" if "ds = takeWhile is_digit (snd r)" for ds
    using that takeWhile_dropWhile_id [of is_digit "snd r"] hd_dropWhile [of is_digit "snd r"]
    by (intro exI [of _ ds]) (auto simp: read_uint_def Let_def dest: set_takeWhileD split: if_splits)
  then show ?R by blast
next
  assume ?R
  then obtain ds where ds: "ds \<noteq> []" "\<forall>c\<in>set ds. is_digit c" "n = parse_int ds"
    "snd r = ds @ snd r'" "snd r' = [] \<or> \<not> is_digit (hd (snd r'))" "fst r' = fst r + length ds"
    by blast
  have "takeWhile is_digit (snd r) = ds"
    unfolding ds(4) by (rule takeWhile_digits) (use ds in auto)
  moreover from this have "dropWhile is_digit (snd r) = snd r'"
    using takeWhile_dropWhile_id [of is_digit "snd r"] ds(4) by simp
  ultimately show ?L using ds by (simp add: read_uint_def prod_eq_iff)
qed

lemma read_extent_shorter: "read_extent r = Inr (w, h, x, y, r') \<Longrightarrow> rlen r' < rlen r"
  by (auto simp: read_extent_def and_then_Inr expect_Inr read_uint_Inr split: prod.splits)

text \<open>What a successful call did: the inversion of the two functions.\<close>

definition cell_steps :: "nat \<Rightarrow> reader \<Rightarrow> pane_geometry list \<Rightarrow> reader \<Rightarrow> bool" where
  "cell_steps d r ps r' \<longleftrightarrow> d \<le> max_split_depth \<and> (\<exists>w h x y r1.
     read_extent r = Inr (w, h, x, y, r1) \<and>
     ((\<exists>r2 p. split_close (peek r1) = None \<and> expect (CHR '','') r1 = Inr r2 \<and>
         read_uint r2 = Inr (p, r') \<and>
         ps = [\<lparr>geoPaneId = p, geoWidth = w, geoHeight = h, geoX = x, geoY = y\<rparr>]) \<or>
      (\<exists>close r2 ps1 r3 qs r4. split_close (peek r1) = Some close \<and>
         expect (the (peek r1)) r1 = Inr r2 \<and> read_cell (Suc d) r2 = Inr (ps1, r3) \<and>
         read_rest (Suc d) r3 = Inr (qs, r4) \<and> expect close r4 = Inr r' \<and> ps = ps1 @ qs)))"

definition rest_steps :: "nat \<Rightarrow> reader \<Rightarrow> pane_geometry list \<Rightarrow> reader \<Rightarrow> bool" where
  "rest_steps d r ps r' \<longleftrightarrow>
     (peek r \<noteq> Some (CHR '','') \<and> ps = [] \<and> r' = r) \<or>
     (\<exists>r1 ps1 r2 qs. peek r = Some (CHR '','') \<and> expect (CHR '','') r = Inr r1 \<and>
        read_cell d r1 = Inr (ps1, r2) \<and> read_rest d r2 = Inr (qs, r') \<and> ps = ps1 @ qs)"

lemma read_cell_steps_dom:
  assumes "read_cell_read_rest_dom (Inl (d, r))"
  shows "read_cell d r = Inr (ps, r') \<longleftrightarrow> cell_steps d r ps r'"
proof (cases "read_extent r")
  case (Inl e)
  then show ?thesis by (simp add: cell_steps_def read_cell.psimps [OF assms])
next
  case (Inr e)
  obtain w h x y r1 where e: "e = (w, h, x, y, r1)" by (cases e) auto
  then show ?thesis
    using Inr by (cases "max_split_depth < d"; cases "split_close (peek r1)"; cases r')
      (auto simp: cell_steps_def read_cell.psimps [OF assms] and_then_Inr)
qed

lemma read_rest_steps_dom:
  assumes "read_cell_read_rest_dom (Inr (d, r))"
  shows "read_rest d r = Inr (ps, r') \<longleftrightarrow> rest_steps d r ps r'"
  unfolding rest_steps_def read_rest.psimps [OF assms]
  by (cases "peek r = Some (CHR '','')"; cases r') (auto simp: and_then_Inr)

text \<open>Neither function returns more input than it was given, as far as it returns.\<close>

lemma read_cell_le_dom:
  shows "read_cell_read_rest_dom (Inl (d, r)) \<Longrightarrow> read_cell d r = Inr (ps, r') \<Longrightarrow> rlen r' \<le> rlen r"
    and "read_cell_read_rest_dom (Inr (d, r)) \<Longrightarrow> read_rest d r = Inr (ps, r') \<Longrightarrow> rlen r' \<le> rlen r"
proof (induction d r and d r arbitrary: ps r' and ps r' rule: read_cell_read_rest.pinduct)
  case (1 d r)
  from "1.prems" obtain w h x y r1 where nd: "\<not> max_split_depth < d"
    and ext: "read_extent r = Inr (w, h, x, y, r1)"
    and alt: "(\<exists>r2 p. split_close (peek r1) = None \<and> expect (CHR '','') r1 = Inr r2 \<and>
         read_uint r2 = Inr (p, r')) \<or>
      (\<exists>close r2 ps1 r3 qs r4. split_close (peek r1) = Some close \<and>
         expect (the (peek r1)) r1 = Inr r2 \<and> read_cell (Suc d) r2 = Inr (ps1, r3) \<and>
         read_rest (Suc d) r3 = Inr (qs, r4) \<and> expect close r4 = Inr r')"
    unfolding read_cell_steps_dom [OF "1.hyps"] cell_steps_def by fastforce
  have "rlen r1 < rlen r" using ext by (rule read_extent_shorter)
  moreover have "rlen r' \<le> rlen r1" using alt
  proof (elim disjE exE conjE)
    fix close r2 ps1 r3 qs r4
    assume st: "split_close (peek r1) = Some close" "expect (the (peek r1)) r1 = Inr r2"
      "read_cell (Suc d) r2 = Inr (ps1, r3)" "read_rest (Suc d) r3 = Inr (qs, r4)"
      "expect close r4 = Inr r'"
    have "rlen r3 \<le> rlen r2"
      by (rule "1.IH"(1) [OF nd ext refl refl refl refl st(1-3)])
    moreover have "rlen r4 \<le> rlen r3"
      by (rule "1.IH"(2) [OF nd ext refl refl refl refl st(1-3) refl st(4)])
    ultimately show ?thesis using st(2,5) by (auto simp: expect_Inr)
  qed (auto simp: expect_Inr read_uint_Inr)
  ultimately show ?case by simp
next
  case (2 d r)
  from "2.prems" consider "r' = r"
    | r1 ps1 r2 qs where "peek r = Some (CHR '','')" "expect (CHR '','') r = Inr r1"
        "read_cell d r1 = Inr (ps1, r2)" "read_rest d r2 = Inr (qs, r')"
    unfolding read_rest_steps_dom [OF "2.hyps"] rest_steps_def by blast
  then show ?case
  proof cases
    case 2
    have "rlen r2 \<le> rlen r1" by (rule "2.IH"(1) [OF 2(1-3)])
    moreover have "rlen r' \<le> rlen r2" by (rule "2.IH"(2) [OF 2(1-3) refl 2(4)])
    ultimately show ?thesis using 2(2) by (auto simp: expect_Inr)
  qed simp
qed

lemma read_cell_total: "\<forall>dr. read_cell_read_rest_dom dr"
proof (relation "measure (\<lambda>dr. case dr of Inl (d, r) \<Rightarrow> rlen r | Inr (d, r) \<Rightarrow> rlen r)",
    goal_cases)
  case 1
  show ?case by simp
next
  case 2
  then show ?case by (auto simp: expect_Inr dest!: read_extent_shorter)
next
  case 3
  then show ?case by (auto simp: expect_Inr dest!: read_extent_shorter read_cell_le_dom(1))
next
  case 4
  then show ?case by (auto simp: expect_Inr)
next
  case 5
  then show ?case by (auto simp: expect_Inr dest!: read_cell_le_dom(1))
qed


termination read_cell
  by (rule read_cell_total)

lemma read_cell_steps: "read_cell d r = Inr (ps, r') \<longleftrightarrow> cell_steps d r ps r'"
  by (rule read_cell_steps_dom) (simp add: read_cell_total)

lemma read_rest_steps: "read_rest d r = Inr (ps, r') \<longleftrightarrow> rest_steps d r ps r'"
  by (rule read_rest_steps_dom) (simp add: read_cell_total)

declare read_cell.simps [simp del] read_rest.simps [simp del]

lemmas read_cell_dest = read_cell_steps [THEN iffD1]
lemmas read_rest_dest = read_rest_steps [THEN iffD1]

lemma expect_Cons [simp]: "expect c (n, c # s) = Inr (Suc n, s)"
  by (simp add: expect_def)

lemma read_cell_leaf:
  assumes "d \<le> max_split_depth" and "read_extent r = Inr (w, h, x, y, r1)"
    and "split_close (peek r1) = None" and "expect (CHR '','') r1 = Inr r2"
    and "read_uint r2 = Inr (p, r')"
  shows "read_cell d r =
    Inr ([\<lparr>geoPaneId = p, geoWidth = w, geoHeight = h, geoX = x, geoY = y\<rparr>], r')"
  using assms by (simp add: read_cell.simps)

lemma read_cell_split:
  assumes "d \<le> max_split_depth" and "read_extent r = Inr (w, h, x, y, r1)"
    and "split_close (peek r1) = Some close" and "expect (the (peek r1)) r1 = Inr r2"
    and "read_cell (Suc d) r2 = Inr (ps, r3)" and "read_rest (Suc d) r3 = Inr (qs, r4)"
    and "expect close r4 = Inr r'"
  shows "read_cell d r = Inr (ps @ qs, r')"
  using assms by (simp add: read_cell.simps [of d r])

lemma read_rest_comma:
  assumes "read_cell d (Suc n, s) = Inr (ps, r2)" and "read_rest d r2 = Inr (qs, r')"
  shows "read_rest d (n, CHR '','' # s) = Inr (ps @ qs, r')"
  using assms by (simp add: read_rest.simps [of d "(n, CHR '','' # s)"])

subsection \<open>The parser\<close>

definition is_hex_digit :: "char \<Rightarrow> bool" where
  "is_hex_digit c \<longleftrightarrow> is_digit c \<or> (97 \<le> code_of c \<and> code_of c \<le> 102) \<or>
     (65 \<le> code_of c \<and> code_of c \<le> 70)"

definition hex_digit_val :: "char \<Rightarrow> nat" where
  "hex_digit_val c = (if is_digit c then code_of c - 48
     else if 97 \<le> code_of c then code_of c - 87 else code_of c - 55)"

definition hex_val :: "string \<Rightarrow> nat" where
  "hex_val s = foldl (\<lambda>acc c. acc * 16 + hex_digit_val c) 0 s"

fun hex_str :: "nat \<Rightarrow> string" where
  "hex_str n = (if n < 16 then [if n < 10 then char_of (48 + n) else char_of (87 + n)]
     else hex_str (n div 16) @ hex_str (n mod 16))"

declare hex_str.simps [simp del]

definition quoted :: "string \<Rightarrow> string" where
  "quoted s = [CHR 0x22] @ s @ [CHR 0x22]"

definition parse_window_layout :: "string \<Rightarrow> window_layout" where
  "parse_window_layout raw =
     (case index_of (CHR '','') raw of
        None \<Rightarrow> Malformed (''no layout checksum in '' @ quoted raw)
      | Some comma \<Rightarrow>
          let checksum = take comma raw; body = drop (Suc comma) raw in
          if \<not> (length checksum = 4 \<and> list_all is_hex_digit checksum)
          then Malformed (''no layout checksum in '' @ quoted raw)
          else if hex_val checksum \<noteq> unat (layout_checksum body)
          then Malformed (''checksum '' @ checksum @ '' does not match body (expected '' @
                 pad_start 4 (CHR ''0'') (hex_str (unat (layout_checksum body))) @ '') in '' @ quoted raw)
          else
            (case (if at_end (0, body) then Inr ([], (0, body)) else read_cell 0 (0, body)) of
               Inl err \<Rightarrow> Malformed (err @ '' in '' @ quoted raw)
             | Inr (panes, r) \<Rightarrow>
                 if at_end r then Parsed panes
                 else Malformed (''trailing input after the root cell in '' @ quoted raw)))"

definition window_layout_fields_of :: "string \<Rightarrow> string \<Rightarrow> string \<Rightarrow> window_layout_fields" where
  "window_layout_fields_of wl wvl flags =
     \<lparr>windowLayout = wl, windowVisibleLayout = wvl, windowFlags = flags,
      layout = parse_window_layout wl, visibleLayout = parse_window_layout wvl\<rparr>"

subsection \<open>The grammar\<close>

text \<open>The grammar of the file's header comment, with the nesting depth.\<close>

definition num_text :: "string \<Rightarrow> jsnum \<Rightarrow> bool" where
  "num_text t v \<longleftrightarrow> t \<noteq> [] \<and> (\<forall>c\<in>set t. is_digit c) \<and> v = parse_int t"

definition extent_text :: "string \<Rightarrow> jsnum \<Rightarrow> jsnum \<Rightarrow> jsnum \<Rightarrow> jsnum \<Rightarrow> bool" where
  "extent_text t w h x y \<longleftrightarrow>
     (\<exists>a b c d. num_text a w \<and> num_text b h \<and> num_text c x \<and> num_text d y \<and>
        t = a @ CHR ''x'' # b @ CHR '','' # c @ CHR '','' # d)"

inductive cell_text :: "nat \<Rightarrow> string \<Rightarrow> pane_geometry list \<Rightarrow> bool"
  and cells_text :: "nat \<Rightarrow> string \<Rightarrow> pane_geometry list \<Rightarrow> bool" where
  leaf: "d \<le> max_split_depth \<Longrightarrow> extent_text e w h x y \<Longrightarrow> num_text t p \<Longrightarrow>
    cell_text d (e @ CHR '','' # t)
      [\<lparr>geoPaneId = p, geoWidth = w, geoHeight = h, geoX = x, geoY = y\<rparr>]"
| split: "d \<le> max_split_depth \<Longrightarrow> extent_text e w h x y \<Longrightarrow> split_close (Some opn) = Some cls \<Longrightarrow>
    cells_text (Suc d) t ps \<Longrightarrow> cell_text d (e @ opn # t @ [cls]) ps"
| one: "cell_text d t ps \<Longrightarrow> cells_text d t ps"
| more: "cell_text d t ps \<Longrightarrow> cells_text d u qs \<Longrightarrow> cells_text d (t @ CHR '','' # u) (ps @ qs)"

definition no_digit :: "string \<Rightarrow> bool" where
  "no_digit s \<longleftrightarrow> s = [] \<or> \<not> is_digit (hd s)"

lemma read_uint_text:
  "num_text t v \<Longrightarrow> no_digit s \<Longrightarrow> read_uint (n, t @ s) = Inr (v, (n + length t, s))"
  by (subst read_uint_Inr) (auto simp: num_text_def no_digit_def)

lemma no_digit_punct [simp]:
  "no_digit (CHR ''x'' # s)" "no_digit (CHR '','' # s)" "no_digit (CHR 0x7B # s)"
  "no_digit (CHR 0x7D # s)" "no_digit (CHR ''['' # s)" "no_digit (CHR '']'' # s)" "no_digit []"
  by (simp_all add: no_digit_def is_digit_def)

lemma read_extent_text:
  assumes "extent_text t w h x y" and "no_digit s"
  shows "read_extent (n, t @ s) = Inr (w, h, x, y, (n + length t, s))"
proof -
  obtain a b c d where nums: "num_text a w" "num_text b h" "num_text c x" "num_text d y"
    and t: "t = a @ CHR ''x'' # b @ CHR '','' # c @ CHR '','' # d"
    using assms(1) by (auto simp: extent_text_def)
  then show ?thesis
    using assms(2) by (simp add: read_extent_def read_uint_text)
qed

lemma read_extent_sound:
  assumes "read_extent r = Inr (w, h, x, y, r')"
  shows "\<exists>t. extent_text t w h x y \<and> snd r = t @ snd r'"
proof -
  obtain a b c d where "num_text a w" "num_text b h" "num_text c x" "num_text d y"
    "snd r = (a @ CHR ''x'' # b @ CHR '','' # c @ CHR '','' # d) @ snd r'"
    using assms
    by (auto simp: read_extent_def and_then_Inr expect_Inr read_uint_Inr num_text_def
        split: prod.splits)
  then show ?thesis unfolding extent_text_def by blast
qed


text \<open>Soundness: what the parser consumes is a cell of the grammar.\<close>

definition rest_text :: "nat \<Rightarrow> string \<Rightarrow> pane_geometry list \<Rightarrow> bool" where
  "rest_text d t ps \<longleftrightarrow> (t = [] \<and> ps = []) \<or> (\<exists>u. t = CHR '','' # u \<and> cells_text d u ps)"

lemma rest_text_cells:
  "cell_text d t ps \<Longrightarrow> rest_text d u qs \<Longrightarrow> cells_text d (t @ u) (ps @ qs)"
  by (auto simp: rest_text_def intro: one more)

lemma peek_Some: "peek r = Some c \<longleftrightarrow> (\<exists>s. snd r = c # s)"
  by (cases r; cases "snd r") auto

lemma split_close_Some: "split_close o1 = Some c \<Longrightarrow> \<exists>opn. o1 = Some opn"
  by (auto simp: split_close_def split: if_splits)

lemma read_sound:
  shows "read_cell d r = Inr (ps, r') \<Longrightarrow> \<exists>t. snd r = t @ snd r' \<and> cell_text d t ps"
    and "read_rest d r = Inr (ps, r') \<Longrightarrow> \<exists>t. snd r = t @ snd r' \<and> rest_text d t ps"
proof (induction d r and d r arbitrary: ps r' and ps r' rule: read_cell_read_rest.induct)
  case (1 d r)
  from "1.prems" obtain w h x y r1 where d: "d \<le> max_split_depth"
    and ext: "read_extent r = Inr (w, h, x, y, r1)"
    and alt: "(\<exists>r2 p. split_close (peek r1) = None \<and> expect (CHR '','') r1 = Inr r2 \<and>
         read_uint r2 = Inr (p, r') \<and>
         ps = [\<lparr>geoPaneId = p, geoWidth = w, geoHeight = h, geoX = x, geoY = y\<rparr>]) \<or>
      (\<exists>close r2 ps1 r3 qs r4. split_close (peek r1) = Some close \<and>
         expect (the (peek r1)) r1 = Inr r2 \<and> read_cell (Suc d) r2 = Inr (ps1, r3) \<and>
         read_rest (Suc d) r3 = Inr (qs, r4) \<and> expect close r4 = Inr r' \<and> ps = ps1 @ qs)"
    using read_cell_dest unfolding cell_steps_def by meson
  obtain e where e: "extent_text e w h x y" "snd r = e @ snd r1"
    using read_extent_sound [OF ext] by blast
  have nd: "\<not> max_split_depth < d" using d by simp
  from alt show ?case
  proof (elim disjE exE conjE)
    fix r2 p assume "expect (CHR '','') r1 = Inr r2" "read_uint r2 = Inr (p, r')"
      and ps: "ps = [\<lparr>geoPaneId = p, geoWidth = w, geoHeight = h, geoX = x, geoY = y\<rparr>]"
    then obtain t where "num_text t p" "snd r1 = CHR '','' # t @ snd r'"
      by (auto simp: expect_Inr read_uint_Inr num_text_def)
    then show ?case using leaf [OF d e(1)] e(2) ps by fastforce
  next
    fix close r2 ps1 r3 qs r4
    assume st: "split_close (peek r1) = Some close" "expect (the (peek r1)) r1 = Inr r2"
      "read_cell (Suc d) r2 = Inr (ps1, r3)" "read_rest (Suc d) r3 = Inr (qs, r4)"
      "expect close r4 = Inr r'" and ps: "ps = ps1 @ qs"
    obtain opn where opn: "peek r1 = Some opn" using split_close_Some [OF st(1)] by blast
    obtain t where t: "snd r2 = t @ snd r3" "cell_text (Suc d) t ps1"
      using "1.IH"(1) [OF nd ext refl refl refl refl st(1-3)] by blast
    obtain u where u: "snd r3 = u @ snd r4" "rest_text (Suc d) u qs"
      using "1.IH"(2) [OF nd ext refl refl refl refl st(1-3) refl st(4)] by blast
    have "cell_text d (e @ opn # (t @ u) @ [close]) (ps1 @ qs)"
      using split [OF d e(1), of opn close "t @ u" "ps1 @ qs"] st(1) opn
        rest_text_cells [OF t(2) u(2)] by simp
    moreover have "snd r = (e @ opn # (t @ u) @ [close]) @ snd r'"
      using e(2) st(2,5) opn t(1) u(1) by (simp add: expect_Inr)
    ultimately show ?case using ps by blast
  qed
next
  case (2 d r)
  from "2.prems" consider "r' = r" "ps = []"
    | r1 ps1 r2 qs where "peek r = Some (CHR '','')" "expect (CHR '','') r = Inr r1"
        "read_cell d r1 = Inr (ps1, r2)" "read_rest d r2 = Inr (qs, r')" "ps = ps1 @ qs"
    using read_rest_dest unfolding rest_steps_def by meson
  then show ?case
  proof cases
    case 1
    then show ?thesis by (simp add: rest_text_def)
  next
    case 2
    obtain t where t: "snd r1 = t @ snd r2" "cell_text d t ps1"
      using "2.IH"(1) [OF 2(1-3)] by blast
    obtain u where u: "snd r2 = u @ snd r'" "rest_text d u qs"
      using "2.IH"(2) [OF 2(1-3) refl 2(4)] by blast
    have "rest_text d (CHR '','' # t @ u) (ps1 @ qs)"
      using rest_text_cells [OF t(2) u(2)] by (simp add: rest_text_def)
    moreover have "snd r = (CHR '','' # t @ u) @ snd r'"
      using 2(2) t(1) u(1) by (simp add: expect_Inr)
    ultimately show ?thesis using 2(5) by blast
  qed
qed

text \<open>Completeness: a cell of the grammar is parsed to its panes, whatever follows it.\<close>

lemma rest_end: "s = [] \<or> hd s \<noteq> CHR '','' \<Longrightarrow> read_rest d (n, s) = Inr ([], (n, s))"
  by (cases s) (auto simp: read_rest.simps [of d "(n, s)" for s])

lemma close_punct:
  assumes "split_close (Some opn) = Some cls"
  shows "no_digit (opn # s)" "no_digit (cls # s)" "cls \<noteq> CHR '',''"
  using assms by (auto simp: split_close_def split: if_splits)

lemma read_complete:
  shows "cell_text d t ps \<Longrightarrow> no_digit s \<Longrightarrow> read_cell d (n, t @ s) = Inr (ps, (n + length t, s))"
    and "cells_text d t ps \<Longrightarrow> no_digit s \<Longrightarrow> s = [] \<or> hd s \<noteq> CHR '','' \<Longrightarrow>
      \<exists>ps1 qs r. read_cell d (n, t @ s) = Inr (ps1, r) \<and>
        read_rest d r = Inr (qs, (n + length t, s)) \<and> ps = ps1 @ qs"
proof (induction arbitrary: s n and s n rule: cell_text_cells_text.inducts)
  case (leaf d e w h x y t p)
  then show ?case
    using read_cell_leaf [OF leaf(1) read_extent_text [OF leaf(2), of "CHR '','' # t @ s" n]]
    by (simp add: split_close_def read_uint_text)
next
  case (split d e w h x y opn cls t ps)
  have ext: "read_extent (n, e @ opn # t @ cls # s) = Inr (w, h, x, y, (n + length e, opn # t @ cls # s))"
    by (rule read_extent_text [OF split(2)]) (rule close_punct(1) [OF split(3)])
  obtain ps1 qs r where in_r: "read_cell (Suc d) (Suc (n + length e), t @ cls # s) = Inr (ps1, r)"
    "read_rest (Suc d) r = Inr (qs, (Suc (n + length e) + length t, cls # s))" "ps = ps1 @ qs"
    using split.IH [of "cls # s" "Suc (n + length e)"] close_punct [OF split(3)] by auto
  have "read_cell d (n, e @ opn # t @ cls # s) = Inr (ps1 @ qs, n + length (e @ opn # t @ [cls]), s)"
    using read_cell_split [OF split(1) ext _ _ in_r(1,2), of cls] split(3) by (simp add: add.assoc)
  then show ?case using in_r(3) by simp
next
  case (one d t ps)
  then show ?case using rest_end [OF one(4)] by auto
next
  case (more d t ps u qs)
  have c: "read_cell d (n, t @ CHR '','' # u @ s) = Inr (ps, (n + length t, CHR '','' # u @ s))"
    using more.IH(1) [of "CHR '','' # u @ s" n] by simp
  obtain qs1 qs2 r where r: "read_cell d (Suc (n + length t), u @ s) = Inr (qs1, r)"
    "read_rest d r = Inr (qs2, (Suc (n + length t) + length u, s))" "qs = qs1 @ qs2"
    using more.IH(2) [of s "Suc (n + length t)"] more.prems by blast
  have "read_rest d (n + length t, CHR '','' # u @ s) =
      Inr (qs, (n + length (t @ CHR '','' # u), s))"
    using read_rest_comma [OF r(1,2)] r(3) by simp
  with c show ?case by auto
qed


subsection \<open>The checksum catches a changed character\<close>

lemma unat_rotate:
  "unat (drop_bit 1 csum + push_bit 15 (csum AND 1) :: 16 word) =
     unat csum div 2 + unat csum mod 2 * 32768"
proof -
  have b: "unat csum < 65536" using unsigned_less [of csum] by simp
  have "unat (push_bit 15 (csum AND 1)) = unat csum mod 2 * 32768"
    by (simp add: and_one_eq push_bit_eq_mult unat_word_ariths unat_mod)
  moreover have "unat (drop_bit 1 csum) = unat csum div 2"
    by (simp add: unat_drop_bit_eq drop_bit_eq_div unat_div)
  ultimately show ?thesis using b by (simp add: unat_word_ariths)
qed

lemma rotate_inj:
  assumes "(drop_bit 1 x + push_bit 15 (x AND 1) :: 16 word) = drop_bit 1 y + push_bit 15 (y AND 1)"
  shows "x = y"
proof -
  have "unat x < 65536" "unat y < 65536" using unsigned_less [of x] unsigned_less [of y] by simp_all
  moreover have "unat x div 2 + unat x mod 2 * 32768 = unat y div 2 + unat y mod 2 * 32768"
    using assms by (simp flip: unat_rotate)
  moreover have "unat x mod 2 = 0 \<or> unat x mod 2 = 1" "unat y mod 2 = 0 \<or> unat y mod 2 = 1"
    by auto
  moreover have "unat x div 2 < 32768" "unat y div 2 < 32768" using calculation(1,2) by auto
  ultimately have "unat x div 2 = unat y div 2 \<and> unat x mod 2 = unat y mod 2"
    by (elim disjE) simp_all
  then have "unat x = unat y" by (metis div_mult_mod_eq)
  then show ?thesis by (simp add: word_unat_eq_iff)
qed

lemma checksum_step_inj: "checksum_step x c = checksum_step y c \<Longrightarrow> x = y"
  unfolding checksum_step_def by (rule rotate_inj) simp

lemma checksum_step_char:
  assumes "checksum_step x a = checksum_step x b"
  shows "a = b"
proof -
  have "unat (word_of_nat (code_of a) :: 16 word) = unat (word_of_nat (code_of b) :: 16 word)"
    using assms by (simp add: checksum_step_def)
  moreover have "unat (word_of_nat (code_of c) :: 16 word) = code_of c" for c
  proof -
    have "code_of c < (256::nat)" by simp
    then have "code_of c < (65536::nat)" by linarith
    then show ?thesis by (simp add: unat_of_nat)
  qed
  ultimately show ?thesis by simp
qed

lemma foldl_checksum_inj:
  "foldl checksum_step x s = foldl checksum_step y s \<Longrightarrow> x = y"
  by (induction s arbitrary: x y) (auto dest: checksum_step_inj)

lemma checksum_change:
  "layout_checksum (u @ a # v) = layout_checksum (u @ b # v) \<Longrightarrow> a = b"
  by (auto simp: layout_checksum_def dest!: foldl_checksum_inj checksum_step_char)

lemma parse_layout_Parsed:
  "parse_window_layout raw = Parsed panes \<longleftrightarrow>
     (\<exists>ck body. raw = ck @ CHR '','' # body \<and> length ck = 4 \<and> list_all is_hex_digit ck \<and>
        hex_val ck = unat (layout_checksum body) \<and>
        (if body = [] then panes = [] else cell_text 0 body panes))"
    (is "?L \<longleftrightarrow> ?R")

proof
  assume L: ?L
  then obtain comma where i: "index_of (CHR '','') raw = Some comma"
    by (auto simp: parse_window_layout_def split: option.splits)
  define ck where "ck = take comma raw"
  define body where "body = drop (Suc comma) raw"
  have raw: "raw = ck @ CHR '','' # body"
    using index_of_Some [OF i] id_take_nth_drop [of comma raw] by (auto simp: ck_def body_def)
  have ok: "length ck = 4" "list_all is_hex_digit ck" "hex_val ck = unat (layout_checksum body)"
    using L by (auto simp: parse_window_layout_def i Let_def ck_def body_def split: if_splits)
  have "(if at_end (0, body) then Inr ([], (0, body)) else read_cell 0 (0, body)) = Inr (panes, r)
      \<Longrightarrow> at_end r \<Longrightarrow> (if body = [] then panes = [] else cell_text 0 body panes)" for r
    using read_sound(1) [of 0 "(0, body)" panes r] by (auto simp: at_end_def split: if_splits)
  then have "if body = [] then panes = [] else cell_text 0 body panes"
    using L ok by (auto simp: parse_window_layout_def i Let_def simp flip: ck_def body_def
        split: sum.splits if_splits)
  with raw ok show ?R by blast
next
  assume ?R
  then obtain ck body where raw: "raw = ck @ CHR '','' # body" and len: "length ck = 4"
    and hex: "list_all is_hex_digit ck" "hex_val ck = unat (layout_checksum body)"
    and b: "if body = [] then panes = [] else cell_text 0 body panes" by blast
  have "\<not> is_hex_digit (CHR '','')" by (simp add: is_hex_digit_def is_digit_def)
  then have "CHR '','' \<notin> set ck" using hex(1) by (auto simp: list_all_iff)
  then have i: "index_of (CHR '','') raw = Some 4" using raw len index_of_append by metis
  have td: "take 4 raw = ck" "drop (Suc 4) raw = body" using raw len by simp_all
  have "read_cell 0 (0, body) = Inr (panes, (length body, []))" if "body \<noteq> []"
    using b that read_complete(1) [of 0 body panes "[]" 0] by simp
  then show ?L
    using b hex len td
    by (cases "body = []") (simp_all add: parse_window_layout_def i at_end_def del: take_drop drop_drop)
qed

subsection \<open>Properties\<close>

text \<open>C19. A layout string is accepted, with a given pane list, exactly when it is a four-digit
  hexadecimal checksum, a comma and a body whose tmux checksum it is, and the body is empty
  (no tiled pane) or a cell of the documented grammar, nested at most 1000 deep, that names
  exactly these panes in this order. No other string yields a pane list.\<close>

theorem layout_parse_exact:
  "parse_window_layout raw = Parsed panes \<longleftrightarrow>
     (\<exists>ck body. raw = ck @ CHR '','' # body \<and> length ck = 4 \<and> list_all is_hex_digit ck \<and>
        hex_val ck = unat (layout_checksum body) \<and>
        (if body = [] then panes = [] else cell_text 0 body panes))"
  by (rule parse_layout_Parsed)

text \<open>Changing one character anywhere in the body of an accepted layout always makes the
  parser report it as malformed: the checksum catches every single-character corruption.\<close>

theorem layout_corruption_detected:
  assumes "parse_window_layout (pre @ a # suf) = Parsed panes" and "5 \<le> length pre" and "a \<noteq> b"
  shows "\<exists>reason. parse_window_layout (pre @ b # suf) = Malformed reason"
proof (cases "parse_window_layout (pre @ b # suf)")
  case (Parsed ps)
  from assms(1) obtain ck body where 1: "pre @ a # suf = ck @ CHR '','' # body"
    "length ck = 4" "hex_val ck = unat (layout_checksum body)" unfolding parse_layout_Parsed by blast
  from Parsed obtain ck' body' where 2: "pre @ b # suf = ck' @ CHR '','' # body'"
    "length ck' = 4" "hex_val ck' = unat (layout_checksum body')" unfolding parse_layout_Parsed by blast
  define u where "u = drop 5 pre"
  have "ck = take 4 pre" "body = u @ a # suf"
    using 1(2) assms(2) arg_cong [OF 1(1), of "take 4"] arg_cong [OF 1(1), of "drop 5"]
    by (simp_all add: u_def)
  moreover have "ck' = take 4 pre" "body' = u @ b # suf"
    using 2(2) assms(2) arg_cong [OF 2(1), of "take 4"] arg_cong [OF 2(1), of "drop 5"]
    by (simp_all add: u_def)
  ultimately have "layout_checksum (u @ a # suf) = layout_checksum (u @ b # suf)"
    using 1(3) 2(3) by (simp add: word_unat_eq_iff)
  then show ?thesis using checksum_change assms(3) by blast
qed blast

theorem layout_corruption_detected_witness:
  "\<exists>reason. parse_window_layout (''b25d,80x24,0,0,'' @ CHR ''1'' # []) = Malformed reason"
  by (rule layout_corruption_detected
      [of _ "CHR ''0''" _ "[\<lparr>geoPaneId = Num 0, geoWidth = Num 80, geoHeight = Num 24, geoX = Num 0, geoY = Num 0\<rparr>]"])
    (code_simp, simp, simp)

end
