(* ===== verification/Messages.thy ===== *)
theory Messages
  imports Codec Layout
begin

section \<open>Server-to-client messages\<close>

text \<open>
  \<open>src/protocol/types.ts\<close>: the discriminated union of everything tmux sends, the command
  response, the pane actions and the discriminator predicates. Each union member is a
  constructor; the interfaces with several like-typed fields are records. A latin1-container
  string is a \<open>string\<close>, a \<open>Uint8Array\<close> a list of bytes.
\<close>

record guard =
  timestamp :: jsnum
  commandNumber :: jsnum
  flags :: jsnum

record subscription_changed =
  subName :: string
  subSessionId :: jsnum
  subWindowId :: jsnum
  subWindowIndex :: jsnum
  subPaneId :: jsnum
  subValue :: string

record pane_output =
  outPaneId :: jsnum
  outData :: "byte list"

datatype tmux_message =
    Begin guard
  | End guard
  | Error guard
  | Output pane_output
  | ExtendedOutput pane_output jsnum
  | Pause jsnum
  | Continue jsnum
  | PaneModeChanged jsnum
  | WindowAdd jsnum
  | WindowClose jsnum
  | WindowRenamed jsnum string
  | WindowPaneChanged jsnum jsnum
  | UnlinkedWindowAdd jsnum
  | UnlinkedWindowClose jsnum
  | UnlinkedWindowRenamed jsnum string
  | LayoutChange jsnum window_layout_fields
  | SessionChanged jsnum string
  | SessionRenamed jsnum string
  | SessionsChanged
  | SessionWindowChanged jsnum jsnum
  | ClientSessionChanged string jsnum string
  | ClientDetached string
  | PasteBufferChanged string
  | PasteBufferDeleted string
  | SubscriptionChanged subscription_changed
  | Message string
  | ConfigError string
  | Exit "string option"

text \<open>The discriminator: the \<open>type\<close> field of each interface.\<close>

primrec message_type :: "tmux_message \<Rightarrow> string" where
  "message_type (Begin g) = ''begin''"
| "message_type (End g) = ''end''"
| "message_type (Error g) = ''error''"
| "message_type (Output o1) = ''output''"
| "message_type (ExtendedOutput o1 age) = ''extended-output''"
| "message_type (Pause p) = ''pause''"
| "message_type (Continue p) = ''continue''"
| "message_type (PaneModeChanged p) = ''pane-mode-changed''"
| "message_type (WindowAdd w) = ''window-add''"
| "message_type (WindowClose w) = ''window-close''"
| "message_type (WindowRenamed w n) = ''window-renamed''"
| "message_type (WindowPaneChanged w p) = ''window-pane-changed''"
| "message_type (UnlinkedWindowAdd w) = ''unlinked-window-add''"
| "message_type (UnlinkedWindowClose w) = ''unlinked-window-close''"
| "message_type (UnlinkedWindowRenamed w n) = ''unlinked-window-renamed''"
| "message_type (LayoutChange w l) = ''layout-change''"
| "message_type (SessionChanged s n) = ''session-changed''"
| "message_type (SessionRenamed s n) = ''session-renamed''"
| "message_type SessionsChanged = ''sessions-changed''"
| "message_type (SessionWindowChanged s w) = ''session-window-changed''"
| "message_type (ClientSessionChanged c s n) = ''client-session-changed''"
| "message_type (ClientDetached c) = ''client-detached''"
| "message_type (PasteBufferChanged n) = ''paste-buffer-changed''"
| "message_type (PasteBufferDeleted n) = ''paste-buffer-deleted''"
| "message_type (SubscriptionChanged s) = ''subscription-changed''"
| "message_type (Message m) = ''message''"
| "message_type (ConfigError e) = ''config-error''"
| "message_type (Exit r) = ''exit''"

record command_response =
  respCommandNumber :: jsnum
  respTimestamp :: jsnum
  respOutput :: "string list"
  success :: bool

text \<open>The synthetic response of an operation that sends nothing; \<open>now\<close> is \<open>Date.now()\<close>.\<close>

definition empty_keys_response :: "jsnum \<Rightarrow> command_response" where
  "empty_keys_response now =
     \<lparr>respCommandNumber = Num (- 1), respTimestamp = now, respOutput = [], success = True\<rparr>"

datatype pane_action = ActionOn | ActionOff | ActionContinue | ActionPause

primrec pane_action_str :: "pane_action \<Rightarrow> string" where
  "pane_action_str ActionOn = ''on''"
| "pane_action_str ActionOff = ''off''"
| "pane_action_str ActionContinue = ''continue''"
| "pane_action_str ActionPause = ''pause''"

definition is_pane_output :: "tmux_message \<Rightarrow> bool" where
  "is_pane_output m \<longleftrightarrow> message_type m = ''output'' \<or> message_type m = ''extended-output''"

definition serialized_event_types :: "string list" where
  "serialized_event_types =
     [''begin'', ''end'', ''error'', ''pause'', ''continue'', ''pane-mode-changed'',
      ''window-add'', ''window-close'', ''window-renamed'', ''window-pane-changed'',
      ''unlinked-window-add'', ''unlinked-window-close'', ''unlinked-window-renamed'',
      ''layout-change'', ''session-changed'', ''session-renamed'', ''sessions-changed'',
      ''session-window-changed'', ''client-session-changed'', ''client-detached'',
      ''paste-buffer-changed'', ''paste-buffer-deleted'', ''subscription-changed'',
      ''message'', ''config-error'', ''exit'']"

lemma is_pane_output_simps [simp]:
  "is_pane_output m \<longleftrightarrow> (\<exists>o1. m = Output o1) \<or> (\<exists>o1 age. m = ExtendedOutput o1 age)"
  by (cases m) (simp_all add: is_pane_output_def)

end
