(* ===== verification/Encoder.thy ===== *)
theory Encoder
  imports Messages
begin

section \<open>Command strings\<close>

text \<open>
  \<open>src/protocol/encoder.ts\<close>: one builder per tmux command. Every function works character
  by character, so the 8-bit characters of the model stand for all code units, except
  \<open>sendKeys\<close>, whose keys are UTF-16 code units (\<open>nat\<close>) that go through
  \<open>TextEncoder\<close>, the standard UTF-8 encoder. What tmux makes of a command is specified by
  \<open>command_words\<close>, the documented quoting of its command line.
\<close>

abbreviation QUOTE :: char where "QUOTE \<equiv> CHR 0x27"
abbreviation BACKSLASH :: char where "BACKSLASH \<equiv> CHR 0x5C"
abbreviation TAB :: char where "TAB \<equiv> CHR 0x09"

record split_options =
  vertical :: "bool option"
  target :: "string option"

text \<open>\<open>s.replaceAll(c, r)\<close> for a one-character pattern.\<close>

definition replace_char :: "char \<Rightarrow> string \<Rightarrow> string \<Rightarrow> string" where
  "replace_char c r s = concat (map (\<lambda>d. if d = c then r else [d]) s)"

definition tmux_escape :: "string \<Rightarrow> string" where
  "tmux_escape arg = [QUOTE] @ replace_char QUOTE [QUOTE, BACKSLASH, QUOTE, QUOTE] arg @ [QUOTE]"

definition tmux_format_literal :: "string \<Rightarrow> string" where
  "tmux_format_literal arg = tmux_escape (replace_char (CHR ''#'') ''##'' arg)"

definition refresh_client_size :: "jsnum \<Rightarrow> jsnum \<Rightarrow> string" where
  "refresh_client_size width height =
     ''refresh-client -C '' @ num_str width @ ''x'' @ num_str height"

definition list_windows_command :: string where
  "list_windows_command =
     ''list-windows -a -F '' @ [QUOTE] @ ''#{session_id}'' @ [TAB] @ ''#{session_name}'' @ [TAB]
       @ ''#{window_id}'' @ [TAB] @ ''#{window_name}'' @ [TAB] @ ''#{window_width}'' @ [TAB]
       @ ''#{window_height}'' @ [QUOTE]"

definition escape_free_text_field :: "string \<Rightarrow> string" where
  "escape_free_text_field expr =
     (let backslashEscaped = ''#{s/'' @ [BACKSLASH] @ [BACKSLASH] @ ''/''
            @ replicate 4 BACKSLASH @ ''/:'' @ expr @ ''}''
      in ''#{s/'' @ [TAB] @ ''/'' @ [BACKSLASH] @ [BACKSLASH] @ ''t/:'' @ backslashEscaped @ ''}'')"

definition list_panes_command :: string where
  "list_panes_command =
     ''list-panes -a -F '' @ [QUOTE] @ ''#{session_id}'' @ [TAB] @ ''#{session_name}'' @ [TAB]
       @ ''#{window_id}'' @ [TAB] @ ''#{window_name}'' @ [TAB] @ ''#{pane_id}'' @ [TAB]
       @ escape_free_text_field ''#{pane_current_path}'' @ [TAB] @ ''#{pane_pid}'' @ [TAB]
       @ ''#{pane_start_command}'' @ [TAB] @ ''#{pane_current_command}'' @ [TAB]
       @ ''#{pane_width}'' @ [TAB] @ ''#{pane_height}'' @ [QUOTE]"

definition list_sessions_command :: string where
  "list_sessions_command =
     ''list-sessions -F '' @ [QUOTE] @ ''#{session_id}'' @ [TAB] @ ''#{session_name}'' @ [TAB]
       @ ''#{session_windows}'' @ [TAB] @ ''#{session_attached}'' @ [QUOTE]"

definition refresh_client_pane_action :: "jsnum \<Rightarrow> pane_action \<Rightarrow> string" where
  "refresh_client_pane_action paneId action =
     ''refresh-client -A '' @ tmux_escape (''%'' @ num_str paneId @ '':'' @ pane_action_str action)"

definition capture_pane :: "jsnum \<Rightarrow> string" where
  "capture_pane paneId = ''capture-pane -p -e -J -S - -t '' @ tmux_escape (''%'' @ num_str paneId)"

definition new_window :: "string \<Rightarrow> string \<Rightarrow> string option \<Rightarrow> string" where
  "new_window session cwd command =
     (let commandPart = (case command of None \<Rightarrow> [] | Some c \<Rightarrow> '' '' @ tmux_escape c)
      in ''new-window -d -t '' @ tmux_escape (''='' @ session @ '':'') @ '' -c ''
           @ tmux_format_literal cwd @ '' '' @ ''-P -F '' @ [QUOTE] @ ''#{window_id}'' @ [TAB]
           @ ''#{pane_id}'' @ [QUOTE] @ commandPart)"

definition refresh_client_subscribe :: "string \<Rightarrow> string \<Rightarrow> string \<Rightarrow> string" where
  "refresh_client_subscribe name what fmt =
     ''refresh-client -B '' @ tmux_escape name @ '':'' @ tmux_escape what @ '':'' @ tmux_escape fmt"

definition refresh_client_unsubscribe :: "string \<Rightarrow> string" where
  "refresh_client_unsubscribe name = ''refresh-client -B '' @ tmux_escape name"

text \<open>
  \<open>TextEncoder.encode\<close>: a surrogate pair is one code point, a lone surrogate U+FFFD.
\<close>

definition is_high :: "nat \<Rightarrow> bool" where
  "is_high u \<longleftrightarrow> 0xD800 \<le> u \<and> u < 0xDC00"

definition is_low :: "nat \<Rightarrow> bool" where
  "is_low u \<longleftrightarrow> 0xDC00 \<le> u \<and> u < 0xE000"

fun code_points :: "nat list \<Rightarrow> nat list" where
  "code_points [] = []"
| "code_points [u] = [if is_high u \<or> is_low u then 0xFFFD else u]"
| "code_points (u # v # us) =
     (if is_high u \<and> is_low v
      then (0x10000 + (u - 0xD800) * 0x400 + (v - 0xDC00)) # code_points us
      else (if is_high u \<or> is_low u then 0xFFFD else u) # code_points (v # us))"

definition utf8_point :: "nat \<Rightarrow> nat list" where
  "utf8_point c =
     (if c < 0x80 then [c]
      else if c < 0x800 then [0xC0 + c div 0x40, 0x80 + c mod 0x40]
      else if c < 0x10000 then [0xE0 + c div 0x1000, 0x80 + c div 0x40 mod 0x40, 0x80 + c mod 0x40]
      else [0xF0 + c div 0x40000, 0x80 + c div 0x1000 mod 0x40, 0x80 + c div 0x40 mod 0x40,
            0x80 + c mod 0x40])"

definition text_encode :: "nat list \<Rightarrow> nat list" where
  "text_encode keys = concat (map utf8_point (code_points keys))"

definition utf8_hex_bytes :: "nat list \<Rightarrow> string" where
  "utf8_hex_bytes s = join_with '' '' (map (\<lambda>b. pad_start 2 (CHR ''0'') (hex_str b)) (text_encode s))"

definition send_keys :: "string \<Rightarrow> nat list \<Rightarrow> string option" where
  "send_keys tgt keys =
     (if keys = [] then None
      else Some (''send-keys -H -t '' @ tmux_escape tgt @ '' '' @ utf8_hex_bytes keys))"

definition split_window :: "split_options \<Rightarrow> string" where
  "split_window options =
     (let dirFlag = (if vertical options = Some True then ''-v'' else ''-h'');
          targetPart = (case target options of None \<Rightarrow> [] | Some t \<Rightarrow> '' -t '' @ tmux_escape t)
      in ''split-window '' @ dirFlag @ targetPart)"

definition refresh_client_set_flags :: "string list \<Rightarrow> string" where
  "refresh_client_set_flags fs = ''refresh-client -f '' @ join_with '','' fs"

definition refresh_client_clear_flags :: "string list \<Rightarrow> string" where
  "refresh_client_clear_flags fs = refresh_client_set_flags (map (\<lambda>f. ''!'' @ f) fs)"

definition refresh_client_report :: "jsnum \<Rightarrow> string \<Rightarrow> string" where
  "refresh_client_report paneId report =
     ''refresh-client -r '' @ tmux_escape (''%'' @ num_str paneId @ '':'' @ report)"

definition refresh_client_query_clipboard :: string where
  "refresh_client_query_clipboard = ''refresh-client -l''"

definition display_message_version :: string where
  "display_message_version = ''display-message -p \"#{version}\"''"

definition display_message_pane_cwd :: "jsnum \<Rightarrow> string" where
  "display_message_pane_cwd paneId =
     ''display-message -p -t %'' @ num_str paneId @ '' \"#{pane_current_path}\"''"

definition display_message_own_client :: string where
  "display_message_own_client =
     ''display-message -p \"#{client_pid} #{client_flags} #{client_name}\"''"

definition detach_client :: string where
  "detach_client = [LF]"

subsection \<open>What tmux reads\<close>

text \<open>
  The word splitting of a tmux command line: words are separated by a space, a single-quoted
  stretch is taken literally, a backslash outside quotes takes the next character literally.
  \<open>None\<close> is an unterminated quote or escape.
\<close>

fun command_words :: "bool \<Rightarrow> string \<Rightarrow> string \<Rightarrow> string list option" where
  "command_words q w [] = (if q then None else Some [w])"
| "command_words q w (c # s) =
     (if c = QUOTE then command_words (\<not> q) w s
      else if q then command_words q (w @ [c]) s
      else if c = BACKSLASH then
        (case s of [] \<Rightarrow> None | d # t \<Rightarrow> command_words q (w @ [d]) t)
      else if c = SP then map_option ((#) w) (command_words q [] s)
      else command_words q (w @ [c]) s)"

definition argv :: "string \<Rightarrow> string list option" where
  "argv cmd = command_words False [] cmd"

text \<open>A format-expanded argument that stands for itself: every hash is doubled.\<close>

fun unformat :: "string \<Rightarrow> string option" where
  "unformat [] = Some []"
| "unformat (c # s) =
     (if c \<noteq> CHR ''#'' then map_option ((#) c) (unformat s)
      else (case s of
              [] \<Rightarrow> None
            | d # t \<Rightarrow> if d = CHR ''#'' then map_option ((#) c) (unformat t) else None))"

lemma replace_char_simps [simp]:
  "replace_char c r [] = []"
  "replace_char c r (d # s) = (if d = c then r else [d]) @ replace_char c r s"
  by (simp_all add: replace_char_def)

lemma words_escape_body:
  "command_words True w (replace_char QUOTE [QUOTE, BACKSLASH, QUOTE, QUOTE] s @ QUOTE # rest) =
     command_words False (w @ s) rest"
  by (induction s arbitrary: w) simp_all

lemma words_escape [simp]:
  "command_words False w (tmux_escape s @ rest) = command_words False (w @ s) rest"
  by (simp add: tmux_escape_def words_escape_body)

lemma words_escape_end [simp]: "command_words False w (tmux_escape s) = Some [w @ s]"
  using words_escape [of w s "[]"] by (simp del: words_escape)

lemma unformat_double [simp]: "unformat (replace_char (CHR ''#'') ''##'' s) = Some s"
  by (induction s) simp_all

text \<open>
  No argument can break out of its word: a quoted argument, whatever its characters,
  extends the current word by exactly itself and leaves the rest of the line as it was.
\<close>

theorem tmux_escape_one_word:
  "command_words False w (tmux_escape arg @ rest) = command_words False (w @ arg) rest"
  by (simp add: tmux_escape_def words_escape_body)

lemma plain_words:
  assumes "\<forall>c\<in>set t. c \<noteq> QUOTE \<and> c \<noteq> BACKSLASH \<and> c \<noteq> SP"
  shows "command_words False w (t @ rest) = command_words False (w @ t) rest"
  using assms by (induction t arbitrary: w) simp_all

text \<open>
  The argument vector tmux reads from each command that carries user text: the session
  is matched by exact name, the directory is the caller's path with its format characters
  taken literally, a subscription's three fields form one word, and nothing else appears.
\<close>

theorem command_argv:
  "argv (new_window session cwd command) =
     Some ([''new-window'', ''-d'', ''-t'', ''='' @ session @ '':'', ''-c'',
            replace_char (CHR ''#'') ''##'' cwd, ''-P'', ''-F'',
            ''#{window_id}'' @ [TAB] @ ''#{pane_id}''] @ (case command of None \<Rightarrow> [] | Some c \<Rightarrow> [c]))
   \<and> unformat (replace_char (CHR ''#'') ''##'' cwd) = Some cwd
   \<and> argv (refresh_client_subscribe name what fmt) =
       Some [''refresh-client'', ''-B'', name @ '':'' @ what @ '':'' @ fmt]
   \<and> argv (refresh_client_unsubscribe name) = Some [''refresh-client'', ''-B'', name]
   \<and> argv (refresh_client_pane_action p action) =
       Some [''refresh-client'', ''-A'', ''%'' @ num_str p @ '':'' @ pane_action_str action]
   \<and> argv (refresh_client_report p report) =
       Some [''refresh-client'', ''-r'', ''%'' @ num_str p @ '':'' @ report]
   \<and> argv (capture_pane p) =
       Some [''capture-pane'', ''-p'', ''-e'', ''-J'', ''-S'', ''-'', ''-t'', ''%'' @ num_str p]
   \<and> argv (split_window options) =
       Some ([''split-window'', if vertical options = Some True then ''-v'' else ''-h'']
             @ (case target options of None \<Rightarrow> [] | Some t \<Rightarrow> [''-t'', t]))"
proof -
  have new: "argv (new_window session cwd command) =
     Some ([''new-window'', ''-d'', ''-t'', ''='' @ session @ '':'', ''-c'',
            replace_char (CHR ''#'') ''##'' cwd, ''-P'', ''-F'',
            ''#{window_id}'' @ [TAB] @ ''#{pane_id}''] @ (case command of None \<Rightarrow> [] | Some c \<Rightarrow> [c]))"
    by (cases command) (simp_all add: argv_def new_window_def tmux_format_literal_def Let_def)
  have split: "argv (split_window options) =
       Some ([''split-window'', if vertical options = Some True then ''-v'' else ''-h'']
             @ (case target options of None \<Rightarrow> [] | Some t \<Rightarrow> [''-t'', t]))"
    by (cases "target options") (simp_all add: argv_def split_window_def Let_def)
  show ?thesis
    unfolding new split
    by (simp add: argv_def refresh_client_subscribe_def refresh_client_unsubscribe_def
        refresh_client_pane_action_def refresh_client_report_def capture_pane_def)
qed

subsection \<open>Keys\<close>

definition hex_digit :: "nat \<Rightarrow> char" where
  "hex_digit d = (if d < 10 then char_of (48 + d) else char_of (87 + d))"

definition hex_byte :: "nat \<Rightarrow> string" where
  "hex_byte b = pad_start 2 (CHR ''0'') (hex_str b)"

lemma hex_str_digit: "d < 16 \<Longrightarrow> hex_str d = [hex_digit d]"
  by (simp add: hex_str.simps hex_digit_def)

lemma hex_byte_digits:
  assumes "b < 256"
  shows "hex_byte b = [hex_digit (b div 16), hex_digit (b mod 16)]"
proof (cases "b < 16")
  case True
  moreover have "hex_digit 0 = CHR ''0''" by code_simp
  ultimately show ?thesis by (simp add: hex_byte_def pad_start_def hex_str_digit)
next
  case False
  have "b div 16 < 16" using assms by simp
  then have "hex_str b = [hex_digit (b div 16), hex_digit (b mod 16)]"
    using False by (subst hex_str.simps) (simp add: hex_str_digit)
  then show ?thesis by (simp add: hex_byte_def pad_start_def)
qed

lemma hex_digit_code: "d < 16 \<Longrightarrow> code_of (hex_digit d) = (if d < 10 then 48 + d else 87 + d)"
  by (simp add: hex_digit_def)

lemma hex_digit_plain:
  assumes "d < 16"
  shows "hex_digit d \<noteq> QUOTE" "hex_digit d \<noteq> BACKSLASH" "hex_digit d \<noteq> SP" "hex_digit d \<noteq> LF"
proof -
  have "c = hex_digit d \<Longrightarrow> 48 \<le> code_of c \<and> code_of c \<noteq> 92" for c
    using hex_digit_code [OF assms] assms by auto
  from this [of QUOTE] this [of BACKSLASH] this [of SP] this [of LF]
  show "hex_digit d \<noteq> QUOTE" "hex_digit d \<noteq> BACKSLASH" "hex_digit d \<noteq> SP" "hex_digit d \<noteq> LF"
    by auto
qed

lemma hex_digit_val_digit [simp]: "d < 16 \<Longrightarrow> hex_digit_val (hex_digit d) = d"
  by (simp add: hex_digit_val_def is_digit_def hex_digit_code)

lemma hex_byte_plain:
  assumes "b < 256"
  shows "\<forall>c\<in>set (hex_byte b). c \<noteq> QUOTE \<and> c \<noteq> BACKSLASH \<and> c \<noteq> SP"
proof -
  have "b div 16 < 16" using assms by simp
  then show ?thesis
    using hex_digit_plain [of "b div 16"] hex_digit_plain [of "b mod 16"] assms
    by (simp add: hex_byte_digits)
qed

lemma words_hex_bytes:
  assumes "\<forall>b\<in>set bs. b < 256" and "bs \<noteq> []"
  shows "command_words False [] (join_with '' '' (map hex_byte bs)) = Some (map hex_byte bs)"
  using assms
proof (induction bs)
  case Nil
  then show ?case by simp
next
  case (Cons b bs)
  have plain: "\<forall>c\<in>set (hex_byte b). c \<noteq> QUOTE \<and> c \<noteq> BACKSLASH \<and> c \<noteq> SP"
    by (rule hex_byte_plain) (use Cons.prems in simp)
  show ?case
  proof (cases bs)
    case Nil
    then show ?thesis using plain_words [OF plain, of "[]" "[]"] by simp
  next
    case (Cons b' bs')
    then show ?thesis
      using plain_words [OF plain, of "[]"] Cons.IH Cons.prems by simp
  qed
qed

lemma code_points_bound:
  "\<forall>u\<in>set us. u < 0x10000 \<Longrightarrow> c \<in> set (code_points us) \<Longrightarrow> c < 0x110000"
  by (induction us rule: code_points.induct) (auto simp: is_high_def is_low_def split: if_splits)

lemma utf8_point_bytes: "c < 0x110000 \<Longrightarrow> b \<in> set (utf8_point c) \<Longrightarrow> b < 256"
  by (auto simp: utf8_point_def split: if_splits)

lemma utf8_point_nonempty [simp]: "utf8_point c \<noteq> []"
  by (simp add: utf8_point_def)

lemma text_encode_bytes:
  "\<forall>u\<in>set us. u < 0x10000 \<Longrightarrow> \<forall>b\<in>set (text_encode us). b < 256"
  by (auto simp: text_encode_def intro: utf8_point_bytes [OF code_points_bound])

lemma text_encode_nonempty: "us \<noteq> [] \<Longrightarrow> text_encode us \<noteq> []"
  by (cases us rule: code_points.cases) (simp_all add: text_encode_def)

text \<open>
  Sent keys reach tmux as their UTF-8 bytes, whatever the keys are: the words after the
  target are two hexadecimal digits per byte, each reading back to its byte, and no key can
  end the line or the word. Empty keys are no command.
\<close>

theorem send_keys_bytes:
  assumes "\<forall>u\<in>set keys. u < 0x10000" and "send_keys tgt keys = Some cmd"
  shows "keys \<noteq> [] \<and>
    argv cmd = Some ([''send-keys'', ''-H'', ''-t'', tgt] @ map hex_byte (text_encode keys)) \<and>
    map (\<lambda>h. hex_digit_val (h ! 0) * 16 + hex_digit_val (h ! 1))
      (map hex_byte (text_encode keys)) = text_encode keys"
proof -
  have ne: "keys \<noteq> []"
    and cmd: "cmd = ''send-keys -H -t '' @ tmux_escape tgt @ '' '' @ utf8_hex_bytes keys"
    using assms(2) by (simp_all add: send_keys_def split: if_splits)
  have bytes: "\<forall>b\<in>set (text_encode keys). b < 256" by (rule text_encode_bytes [OF assms(1)])
  have hex: "utf8_hex_bytes keys = join_with '' '' (map hex_byte (text_encode keys))"
    by (simp add: utf8_hex_bytes_def hex_byte_def [abs_def])
  have "argv cmd = Some ([''send-keys'', ''-H'', ''-t'', tgt] @ map hex_byte (text_encode keys))"
    using words_hex_bytes [OF bytes text_encode_nonempty [OF ne]]
    by (simp add: cmd argv_def hex)
  moreover have "map (\<lambda>h. hex_digit_val (h ! 0) * 16 + hex_digit_val (h ! 1))
      (map hex_byte (text_encode keys)) = text_encode keys"
    using bytes by (auto simp: hex_byte_digits intro!: map_idI)
  ultimately show ?thesis using ne by blast
qed

theorem send_keys_bytes_witness:
  "argv (the (send_keys ''%1'' [10, 0xE9, 0xD83D, 0xDE00])) =
     Some [''send-keys'', ''-H'', ''-t'', ''%1'', ''0a'', ''c3'', ''a9'', ''f0'', ''9f'', ''98'', ''80'']"
proof -
  have e: "map hex_byte (text_encode [10, 0xE9, 0xD83D, 0xDE00]) =
      [''0a'', ''c3'', ''a9'', ''f0'', ''9f'', ''98'', ''80'']"
    by code_simp
  show ?thesis
    using send_keys_bytes [of "[10, 0xE9, 0xD83D, 0xDE00]" "''%1''"
        "the (send_keys ''%1'' [10, 0xE9, 0xD83D, 0xDE00])"]
    unfolding e by (simp add: send_keys_def)
qed

end
