(* ===== verification/Topology.thy ===== *)
theory Topology
  imports Messages
begin

section \<open>The pane topology table\<close>

text \<open>
  \<open>PaneTopologyManager\<close> of \<open>src/pane-output.ts\<close>. Ids are numbers as the parser produced
  them, so \<open>NaN\<close> included: Map keys find it, the strict comparisons of the code do not. The
  table maps a pane to where it is placed; the window index is the reverse map the code
  keeps for speed, and may lag behind the table.
\<close>

record placed_pane =
  pmSession :: jsnum
  pmWindow :: jsnum
  pmFloating :: bool

record pane_list_entry =
  pePane :: jsnum
  peWindow :: jsnum
  peSession :: jsnum
  peFloating :: bool

record contradiction =
  left :: "jsnum list"
  lostTrack :: bool

record topology =
  table :: "(jsnum \<times> placed_pane) list"
  windowIndex :: "(jsnum \<times> jsnum list) list"

definition new_topology :: topology where
  "new_topology = \<lparr>table = [], windowIndex = []\<rparr>"

definition topology_get :: "topology \<Rightarrow> jsnum \<Rightarrow> placed_pane option" where
  "topology_get t p = map_of (table t) p"

definition pane_ids :: "topology \<Rightarrow> jsnum list" where
  "pane_ids t = map fst (table t)"

definition place :: "pane_list_entry \<Rightarrow> jsnum \<Rightarrow> placed_pane" where
  "place e windowId =
     \<lparr>pmSession = peSession e, pmWindow = windowId, pmFloating = peFloating e\<rparr>"

fun seed_entry :: "topology \<Rightarrow> pane_list_entry \<Rightarrow> topology" where
  "seed_entry t e =
     (let s = (case map_of (windowIndex t) (peWindow e) of None \<Rightarrow> [] | Some s \<Rightarrow> s)
      in t\<lparr>table := AList.update (pePane e) (place e (peWindow e)) (table t),
           windowIndex := AList.update (peWindow e) (set_add (pePane e) s) (windowIndex t)\<rparr>)"

definition seed :: "topology \<Rightarrow> pane_list_entry list \<Rightarrow> topology" where
  "seed t entries = foldl seed_entry (t\<lparr>table := [], windowIndex := []\<rparr>) entries"

text \<open>
  The deleting loops: over a list of panes, the ones whose placement satisfies a condition
  are deleted from the table and folded into a result.
\<close>

fun unplace ::
    "(jsnum \<Rightarrow> placed_pane \<Rightarrow> bool) \<Rightarrow> (placed_pane \<Rightarrow> 'a \<Rightarrow> 'a) \<Rightarrow> jsnum list \<Rightarrow>
     (jsnum \<times> placed_pane) list \<Rightarrow> 'a \<Rightarrow> (jsnum \<times> placed_pane) list \<times> 'a" where
  "unplace cond note [] tbl acc = (tbl, acc)"
| "unplace cond note (p # ps) tbl acc =
     (case map_of tbl p of
        None \<Rightarrow> unplace cond note ps tbl acc
      | Some meta \<Rightarrow>
          if cond p meta then unplace cond note ps (AList.delete p tbl) (note meta acc)
          else unplace cond note ps tbl acc)"

definition update_window ::
    "topology \<Rightarrow> jsnum \<Rightarrow> pane_list_entry list \<Rightarrow> topology \<times> contradiction" where
  "update_window t windowId entries =
     (let prev = (case map_of (windowIndex t) windowId of None \<Rightarrow> [] | Some s \<Rightarrow> s);
          next = set_of_list (map pePane entries);
          (tbl, lost) = unplace (\<lambda>p meta. p \<notin> set next \<and> js_eq (pmWindow meta) windowId)
                          (\<lambda>meta lost. lost \<or> \<not> pmFloating meta) prev (table t) False;
          tbl' = foldl (\<lambda>tb e. AList.update (pePane e) (place e windowId) tb) tbl entries;
          index' = (if length next = 0 then AList.delete windowId (windowIndex t)
                    else AList.update windowId next (windowIndex t))
      in (t\<lparr>table := tbl', windowIndex := index'\<rparr>, \<lparr>left = [], lostTrack = lost\<rparr>))"

definition unplace_contradicted ::
    "topology \<Rightarrow> jsnum \<Rightarrow> jsnum list \<Rightarrow> topology \<times> contradiction" where
  "unplace_contradicted t windowId layoutPanes =
     (let listed = set_of_list layoutPanes;
          here = (case map_of (windowIndex t) windowId of None \<Rightarrow> [] | Some s \<Rightarrow> s);
          (tbl, lost) = unplace (\<lambda>p meta. p \<notin> set listed \<and> js_eq (pmWindow meta) windowId
                                    \<and> \<not> pmFloating meta)
                          (\<lambda>meta lost. True) here (table t) False;
          (tbl', lft) = unplace (\<lambda>p meta. \<not> js_eq (pmWindow meta) windowId)
                           (\<lambda>meta lft. set_add (pmWindow meta) lft) listed tbl []
      in (t\<lparr>table := tbl'\<rparr>, \<lparr>left = lft, lostTrack = lost\<rparr>))"

definition remove_window :: "topology \<Rightarrow> jsnum \<Rightarrow> topology" where
  "remove_window t windowId =
     (case map_of (windowIndex t) windowId of
        None \<Rightarrow> t
      | Some panes \<Rightarrow>
          let (tbl, _) = unplace (\<lambda>p meta. js_eq (pmWindow meta) windowId) (\<lambda>meta u. u)
                           panes (table t) ()
          in t\<lparr>table := tbl, windowIndex := AList.delete windowId (windowIndex t)\<rparr>)"

subsection \<open>Reading a pane listing\<close>

text \<open>
  The regular expression of \<open>parsePaneListLine\<close>: three sigil-prefixed numbers, an optional
  fourth field with an optional flag, a trailing run of carriage returns. The groups are
  greedy and each is followed by a character it cannot match, so matching never backtracks.
\<close>

fun read_sigil :: "char \<Rightarrow> string \<Rightarrow> (jsnum \<times> string) option" where
  "read_sigil sigil [] = None"
| "read_sigil sigil (c # s) =
     (let ds = takeWhile is_digit s in
      if c = sigil \<and> ds \<noteq> [] then Some (js_of_nat (digits_val ds), dropWhile is_digit s) else None)"

definition skip_space :: "string \<Rightarrow> string option" where
  "skip_space s = (case s of c # t \<Rightarrow> if c = SP then Some t else None | [] \<Rightarrow> None)"

definition all_cr :: "string \<Rightarrow> bool" where
  "all_cr s \<longleftrightarrow> list_all (\<lambda>c. c = CR) s"

definition read_floating :: "string \<Rightarrow> bool option" where
  "read_floating s =
     (if all_cr s then Some False
      else (case skip_space s of
              None \<Rightarrow> None
            | Some t \<Rightarrow>
                if all_cr t then Some False
                else if (hd t = CHR ''0'' \<or> hd t = CHR ''1'') \<and> all_cr (tl t)
                then Some (hd t = CHR ''1'') else None))"

definition parse_pane_list_line :: "string \<Rightarrow> pane_list_entry option" where
  "parse_pane_list_line line =
     Option.bind (read_sigil (CHR ''%'') line) (\<lambda>(pane, s1).
     Option.bind (skip_space s1) (\<lambda>s2.
     Option.bind (read_sigil (CHR ''@'') s2) (\<lambda>(window, s3).
     Option.bind (skip_space s3) (\<lambda>s4.
     Option.bind (read_sigil (CHR ''$'') s4) (\<lambda>(session, s5).
     Option.bind (read_floating s5) (\<lambda>floating.
       Some \<lparr>pePane = pane, peWindow = window, peSession = session, peFloating = floating\<rparr>))))))"

definition parse_pane_list :: "string list \<Rightarrow> pane_list_entry list" where
  "parse_pane_list lines = List.map_filter parse_pane_list_line lines"

subsection \<open>The table as a map\<close>

text \<open>
  What the manager promises: its table is a map from panes to places, and each operation is
  a simple change of that map in which the window index does not appear. The index must
  cover the table: a pane placed in a window is in that window's index set.
\<close>

definition places :: "topology \<Rightarrow> jsnum \<rightharpoonup> placed_pane" where
  "places t = map_of (table t)"

definition topology_ok :: "topology \<Rightarrow> bool" where
  "topology_ok t \<longleftrightarrow>
     (\<forall>p m. places t p = Some m \<and> pmWindow m \<noteq> NaN \<longrightarrow>
        (\<exists>s. map_of (windowIndex t) (pmWindow m) = Some s \<and> p \<in> set s))"

definition placed_in :: "jsnum \<Rightarrow> placed_pane \<Rightarrow> bool" where
  "placed_in w m \<longleftrightarrow> pmWindow m = w"

definition entries_map :: "pane_list_entry list \<Rightarrow> (jsnum \<rightharpoonup> placed_pane)" where
  "entries_map entries = map_of (rev (map (\<lambda>e. (pePane e, place e (peWindow e))) entries))"

definition window_map :: "jsnum \<Rightarrow> pane_list_entry list \<Rightarrow> (jsnum \<rightharpoonup> placed_pane)" where
  "window_map w entries = map_of (rev (map (\<lambda>e. (pePane e, place e w)) entries))"

text \<open>The map without the panes that satisfy a condition.\<close>

definition forget :: "(jsnum \<Rightarrow> placed_pane \<Rightarrow> bool) \<Rightarrow> (jsnum \<rightharpoonup> placed_pane) \<Rightarrow> (jsnum \<rightharpoonup> placed_pane)" where
  "forget cond m = (\<lambda>p. case m p of None \<Rightarrow> None | Some x \<Rightarrow> if cond p x then None else Some x)"

lemma forget_Some [simp]:
  "forget cond m p = Some x \<longleftrightarrow> m p = Some x \<and> \<not> cond p x"
  by (auto simp: forget_def split: option.splits)

lemma unplace_map:
  "map_of (fst (unplace cond note ps tbl acc)) = forget (\<lambda>p x. p \<in> set ps \<and> cond p x) (map_of tbl)"
proof (induction ps arbitrary: tbl acc)
  case Nil
  then show ?case by (auto simp: forget_def fun_eq_iff split: option.splits)
next
  case (Cons p ps)
  then show ?case
    by (auto simp: forget_def fun_eq_iff split: option.splits)
qed

lemma unplace_flag:
  "snd (unplace cond (\<lambda>m b. b \<or> r m) ps tbl b) \<longleftrightarrow>
     b \<or> (\<exists>p\<in>set ps. \<exists>m. map_of tbl p = Some m \<and> cond p m \<and> r m)"
proof (induction ps arbitrary: tbl b)
  case Nil
  then show ?case by simp
next
  case (Cons p ps)
  then show ?case
    by (auto split: option.splits) (metis option.inject)+
qed

lemma unplace_set:
  "set (snd (unplace cond (\<lambda>m s. set_add (pmWindow m) s) ps tbl s)) =
     set s \<union> {pmWindow m |p m. p \<in> set ps \<and> map_of tbl p = Some m \<and> cond p m}"
proof (induction ps arbitrary: tbl s)
  case Nil
  then show ?case by simp
next
  case (Cons p ps)
  show ?case
    by (auto simp: Cons.IH split: option.splits if_splits) (metis option.inject)+
qed

lemma foldl_update_map:
  "map_of (foldl (\<lambda>tb e. AList.update (k e) (v e) tb) tbl es) =
     map_of tbl ++ map_of (rev (map (\<lambda>e. (k e, v e)) es))"
  by (induction es arbitrary: tbl) (simp_all add: map_add_def fun_eq_iff split: option.splits)

subsection \<open>Refinement\<close>

text \<open>The abstract operations.\<close>

datatype topology_op =
    Seed "pane_list_entry list"
  | UpdateWindow jsnum "pane_list_entry list"
  | LayoutPanes jsnum "jsnum list"
  | RemoveWindow jsnum

fun places_op :: "(jsnum \<rightharpoonup> placed_pane) \<Rightarrow> topology_op \<Rightarrow> (jsnum \<rightharpoonup> placed_pane)" where
  "places_op m (Seed entries) = entries_map entries"
| "places_op m (UpdateWindow w entries) = forget (\<lambda>p. placed_in w) m ++ window_map w entries"
| "places_op m (LayoutPanes w ps) =
     forget (\<lambda>p x. if p \<in> set ps then \<not> placed_in w x else placed_in w x \<and> \<not> pmFloating x) m"
| "places_op m (RemoveWindow w) = forget (\<lambda>p. placed_in w) m"

text \<open>What each reply or layout contradicts: the windows moved-in panes left, and whether a
  tiled pane went somewhere unknown.\<close>

fun contradicts :: "(jsnum \<rightharpoonup> placed_pane) \<Rightarrow> topology_op \<Rightarrow> jsnum set \<times> bool" where
  "contradicts m (UpdateWindow w entries) =
     ({}, \<exists>p x. m p = Some x \<and> placed_in w x \<and> \<not> pmFloating x \<and> p \<notin> pePane ` set entries)"
| "contradicts m (LayoutPanes w ps) =
     ({pmWindow x |p x. p \<in> set ps \<and> m p = Some x \<and> \<not> placed_in w x},
      \<exists>p x. m p = Some x \<and> placed_in w x \<and> \<not> pmFloating x \<and> p \<notin> set ps)"
| "contradicts m op = ({}, False)"

fun topology_step :: "topology \<Rightarrow> topology_op \<Rightarrow> topology \<times> contradiction list" where
  "topology_step t (Seed entries) = (seed t entries, [])"
| "topology_step t (UpdateWindow w entries) =
     (let (t', c) = update_window t w entries in (t', [c]))"
| "topology_step t (LayoutPanes w ps) =
     (let (t', c) = unplace_contradicted t w ps in (t', [c]))"
| "topology_step t (RemoveWindow w) = (remove_window t w, [])"

fun op_window :: "topology_op \<Rightarrow> jsnum" where
  "op_window (Seed entries) = Num 0"
| "op_window (UpdateWindow w entries) = w"
| "op_window (LayoutPanes w ps) = w"
| "op_window (RemoveWindow w) = w"

lemma js_eq_window [simp]: "w \<noteq> NaN \<Longrightarrow> js_eq (pmWindow m) w \<longleftrightarrow> placed_in w m"
  by (auto simp: js_eq_def placed_in_def)

lemma index_covers:
  "topology_ok t \<Longrightarrow> places t p = Some m \<Longrightarrow> placed_in w m \<Longrightarrow> w \<noteq> NaN \<Longrightarrow>
   \<exists>s. map_of (windowIndex t) w = Some s \<and> p \<in> set s"
  by (auto simp: topology_ok_def placed_in_def)

lemma seed_entry_places:
  "places (seed_entry t e) = (places t)(pePane e \<mapsto> place e (peWindow e))"
  by (simp add: places_def Let_def)

lemma seed_entry_ok: "topology_ok t \<Longrightarrow> topology_ok (seed_entry t e)"
  by (force simp: topology_ok_def places_def Let_def place_def split: option.splits)

declare seed_entry.simps [simp del]

lemma seed_fold:
  "places (foldl seed_entry t entries) = places t ++ entries_map entries"
  "topology_ok t \<Longrightarrow> topology_ok (foldl seed_entry t entries)"
proof (induction entries arbitrary: t)
  case Nil
  { case 1 show ?case by (simp add: entries_map_def) }
  { case 2 then show ?case by simp }
next
  case (Cons e entries)
  { case 1
    show ?case
      by (simp add: Cons.IH(1) seed_entry_places entries_map_def map_add_def fun_eq_iff
          split: option.splits) }
  { case 2
    then show ?case by (simp add: Cons.IH(2) seed_entry_ok) }
qed

lemma seed_correct: "places (seed t entries) = entries_map entries" "topology_ok (seed t entries)"
  using seed_fold [of "t\<lparr>table := [], windowIndex := []\<rparr>" entries]
  by (simp_all add: seed_def places_def topology_ok_def map_add_def fun_eq_iff split: option.splits)

text \<open>The index set of a window, the empty set where it has none.\<close>

lemma indexed_panes:
  assumes "topology_ok t" and "w \<noteq> NaN" and "places t p = Some m" and "placed_in w m"
  shows "p \<in> set (case map_of (windowIndex t) w of None \<Rightarrow> [] | Some s \<Rightarrow> s)"
  using index_covers [OF assms(1,3,4,2)] by auto

lemma places_table [simp]: "places (t\<lparr>table := tb\<rparr>) = map_of tb"
  "places (t\<lparr>table := tb, windowIndex := ix\<rparr>) = map_of tb"
  by (simp_all add: places_def)

lemma table_places: "map_of (table t) = places t"
  by (simp add: places_def)

lemma update_window_correct:
  fixes entries :: "pane_list_entry list"
  assumes ok: "topology_ok t" and w: "w \<noteq> NaN"
  defines "t' \<equiv> fst (update_window t w entries)" and "c \<equiv> snd (update_window t w entries)"
  shows "places t' = forget (\<lambda>p. placed_in w) (places t) ++ window_map w entries"
    and "left c = []"
    and "lostTrack c \<longleftrightarrow> (\<exists>p m. places t p = Some m \<and> placed_in w m \<and> \<not> pmFloating m
           \<and> p \<notin> pePane ` set entries)"
    and "topology_ok t'"
proof -
  let ?prev = "case map_of (windowIndex t) w of None \<Rightarrow> [] | Some s \<Rightarrow> s"
  let ?next = "set_of_list (map pePane entries)"
  let ?cond = "\<lambda>p meta. p \<notin> set ?next \<and> js_eq (pmWindow meta) w"
  let ?un = "unplace ?cond (\<lambda>meta lost. lost \<or> \<not> pmFloating meta) ?prev (table t) False"
  have dom: "window_map w entries p \<noteq> None \<longleftrightarrow> p \<in> pePane ` set entries" for p
    by (auto simp: window_map_def map_of_eq_None_iff image_image)
  have t': "places t' = map_of (fst ?un) ++ window_map w entries"
    by (simp add: t'_def update_window_def Let_def split_beta foldl_update_map window_map_def)
  show pl: "places t' = forget (\<lambda>p. placed_in w) (places t) ++ window_map w entries"
  proof
    fix p
    show "places t' p = (forget (\<lambda>p. placed_in w) (places t) ++ window_map w entries) p"
    proof (cases "window_map w entries p")
      case (Some x)
      then show ?thesis by (simp add: t' map_add_def)
    next
      case None
      then have np: "p \<notin> pePane ` set entries" using dom by blast
      have "forget (\<lambda>p x. p \<in> set ?prev \<and> ?cond p x) (places t) p = forget (\<lambda>p. placed_in w) (places t) p"
        using indexed_panes [OF ok w, of p] np w by (auto simp: forget_def split: option.splits)
      then show ?thesis using None by (simp add: t' map_add_def unplace_map table_places)
    qed
  qed
  show "left c = []" by (simp add: c_def update_window_def Let_def split_beta)
  have "lostTrack c = snd ?un" by (simp add: c_def update_window_def Let_def split_beta)
  then show "lostTrack c \<longleftrightarrow> (\<exists>p m. places t p = Some m \<and> placed_in w m \<and> \<not> pmFloating m
           \<and> p \<notin> pePane ` set entries)"
    using indexed_panes [OF ok w] w by (auto simp: unplace_flag table_places) blast
  have index: "windowIndex t' = (if entries = [] then AList.delete w (windowIndex t)
       else AList.update w ?next (windowIndex t))"
    by (simp add: t'_def update_window_def Let_def split_beta)
  show "topology_ok t'"
    unfolding topology_ok_def
  proof (intro allI impI)
    fix p m
    assume a: "places t' p = Some m \<and> pmWindow m \<noteq> NaN"
    show "\<exists>s. map_of (windowIndex t') (pmWindow m) = Some s \<and> p \<in> set s"
    proof (cases "window_map w entries p")
      case (Some x)
      then have "p \<in> pePane ` set entries" and "pmWindow m = w"
        using a dom pl by (auto simp: map_add_def window_map_def place_def dest!: map_of_SomeD)
      then show ?thesis using index by (auto split: if_splits)
    next
      case None
      then have "places t p = Some m" and nw: "pmWindow m \<noteq> w"
        using a pl by (auto simp: map_add_def placed_in_def)
      then show ?thesis using ok a index by (auto simp: topology_ok_def)
    qed
  qed
qed

lemma unplace_contradicted_correct:
  fixes ps :: "jsnum list"
  assumes ok: "topology_ok t" and w: "w \<noteq> NaN"
  defines "t' \<equiv> fst (unplace_contradicted t w ps)" and "c \<equiv> snd (unplace_contradicted t w ps)"
  shows "places t' = forget (\<lambda>p x. if p \<in> set ps then \<not> placed_in w x
             else placed_in w x \<and> \<not> pmFloating x) (places t)"
    and "set (left c) = {pmWindow x |p x. p \<in> set ps \<and> places t p = Some x \<and> \<not> placed_in w x}"
    and "lostTrack c \<longleftrightarrow> (\<exists>p x. places t p = Some x \<and> placed_in w x \<and> \<not> pmFloating x \<and> p \<notin> set ps)"
    and "topology_ok t'"
proof -
  let ?here = "case map_of (windowIndex t) w of None \<Rightarrow> [] | Some s \<Rightarrow> s"
  let ?cond = "\<lambda>p meta. p \<notin> set ps \<and> js_eq (pmWindow meta) w \<and> \<not> pmFloating meta"
  let ?un = "unplace ?cond (\<lambda>meta lost. lost \<or> True) ?here (table t) False"
  let ?un2 = "unplace (\<lambda>p meta. \<not> js_eq (pmWindow meta) w)
      (\<lambda>meta lft. set_add (pmWindow meta) lft) (set_of_list ps) (fst ?un) []"
  have un: "unplace_contradicted t w ps =
      (t\<lparr>table := fst ?un2\<rparr>, \<lparr>left = snd ?un2, lostTrack = snd ?un\<rparr>)"
    by (simp add: unplace_contradicted_def Let_def split_beta)
  have mid: "map_of (fst ?un) = forget (\<lambda>p x. p \<notin> set ps \<and> placed_in w x \<and> \<not> pmFloating x) (places t)"
    using indexed_panes [OF ok w] w
    by (auto simp: unplace_map table_places forget_def fun_eq_iff split: option.splits)
  have "places t' = map_of (fst ?un2)" by (simp only: t'_def un fst_conv places_table)
  also have "\<dots> = forget (\<lambda>p x. p \<in> set (set_of_list ps) \<and> \<not> js_eq (pmWindow x) w) (map_of (fst ?un))"
    by (rule unplace_map)
  finally show pl: "places t' = forget (\<lambda>p x. if p \<in> set ps then \<not> placed_in w x
             else placed_in w x \<and> \<not> pmFloating x) (places t)"
    unfolding mid using w by (auto simp: forget_def fun_eq_iff split: option.splits)
  show "set (left c) = {pmWindow x |p x. p \<in> set ps \<and> places t p = Some x \<and> \<not> placed_in w x}"
    unfolding c_def un snd_conv contradiction.select_convs unplace_set mid using w by auto
  show "lostTrack c \<longleftrightarrow> (\<exists>p x. places t p = Some x \<and> placed_in w x \<and> \<not> pmFloating x \<and> p \<notin> set ps)"
    using indexed_panes [OF ok w] w unplace_flag [of ?cond "\<lambda>_. True" ?here "table t" False]
    by (auto simp: c_def un table_places) blast
  have "windowIndex t' = windowIndex t" by (simp add: t'_def un)
  then show "topology_ok t'" using ok by (auto simp: topology_ok_def pl)
qed

lemma remove_window_correct:
  assumes ok: "topology_ok t" and w: "w \<noteq> NaN"
  shows "places (remove_window t w) = forget (\<lambda>p. placed_in w) (places t)"
    and "topology_ok (remove_window t w)"
proof -
  show pl: "places (remove_window t w) = forget (\<lambda>p. placed_in w) (places t)"
    using index_covers [OF ok] w
    by (fastforce simp: remove_window_def places_def unplace_map forget_def fun_eq_iff split_beta Let_def
        split: option.splits)
  show "topology_ok (remove_window t w)"
    unfolding topology_ok_def pl
    using ok by (auto simp: topology_ok_def remove_window_def split_beta Let_def placed_in_def
        split: option.splits)
qed

lemma topology_step_correct:
  assumes "topology_ok t" and "op_window op \<noteq> NaN"
  shows "places (fst (topology_step t op)) = places_op (places t) op"
    and "topology_ok (fst (topology_step t op))"
    and "\<forall>c\<in>set (snd (topology_step t op)). (set (left c), lostTrack c) = contradicts (places t) op"
proof -
  have "places (fst (topology_step t op)) = places_op (places t) op \<and>
    topology_ok (fst (topology_step t op)) \<and>
    (\<forall>c\<in>set (snd (topology_step t op)). (set (left c), lostTrack c) = contradicts (places t) op)"
  proof (cases op)
    case (Seed entries)
    then show ?thesis by (simp add: seed_correct)
  next
    case (UpdateWindow w entries)
    then show ?thesis using update_window_correct [OF assms(1), of w entries] assms(2)
      by (simp add: split_beta)
  next
    case (LayoutPanes w ps)
    then show ?thesis using unplace_contradicted_correct [OF assms(1), of w ps] assms(2)
      by (simp add: split_beta)
  next
    case (RemoveWindow w)
    then show ?thesis using remove_window_correct [OF assms(1), of w] assms(2) by simp
  qed
  then show "places (fst (topology_step t op)) = places_op (places t) op"
    "topology_ok (fst (topology_step t op))"
    "\<forall>c\<in>set (snd (topology_step t op)). (set (left c), lostTrack c) = contradicts (places t) op"
    by blast+
qed

text \<open>The index keeps covering the table also for a window id that is not a number.\<close>

lemma unplace_subset:
  "map_of (fst (unplace cond note ps tbl acc)) p = Some m \<Longrightarrow> map_of tbl p = Some m"
  by (simp add: unplace_map)

lemma nan_window_ok:
  assumes ok: "topology_ok t"
  shows "topology_ok (fst (update_window t NaN entries))"
    and "topology_ok (fst (unplace_contradicted t NaN ps))"
    and "topology_ok (remove_window t NaN)"
proof -
  show "topology_ok (fst (update_window t NaN entries))"
    unfolding topology_ok_def
  proof (intro allI impI)
    fix p m
    let ?t = "fst (update_window t NaN entries)"
    assume a: "places ?t p = Some m \<and> pmWindow m \<noteq> NaN"
    have "pmWindow x = NaN" if "window_map NaN entries p = Some x" for x
      using that by (auto simp: window_map_def place_def dest!: map_of_SomeD)
    then have "places t p = Some m"
      using a by (auto simp: update_window_def Let_def split_beta foldl_update_map window_map_def
          map_add_Some_iff places_def dest: unplace_subset)
    then show "\<exists>s. map_of (windowIndex ?t) (pmWindow m) = Some s \<and> p \<in> set s"
      using ok a by (auto simp: topology_ok_def update_window_def Let_def split_beta)
  qed
  show "topology_ok (fst (unplace_contradicted t NaN ps))"
    using ok unfolding topology_ok_def
    by (auto simp: unplace_contradicted_def Let_def split_beta places_def
        dest!: unplace_subset)
  show "topology_ok (remove_window t NaN)"
    using ok unfolding topology_ok_def
    by (auto simp: remove_window_def Let_def split_beta places_def dest!: unplace_subset
        split: option.splits)
qed

lemma topology_step_ok: "topology_ok t \<Longrightarrow> topology_ok (fst (topology_step t op))"
proof (cases "op_window op = NaN")
  case True
  then show "topology_ok t \<Longrightarrow> ?thesis"
    using nan_window_ok [of t] by (cases op) (simp_all add: split_beta)
qed (simp add: topology_step_correct)

interpretation topology: invariant_steps topology_step topology_ok
  by unfold_locales (rule topology_step_ok)

lemma run_places:
  assumes "topology_ok t" and "\<forall>op\<in>set ops. op_window op \<noteq> NaN"
  shows "places (fst (run_steps topology_step t ops)) = foldl places_op (places t) ops
    \<and> topology_ok (fst (run_steps topology_step t ops))"
  using assms by (induction ops arbitrary: t) (simp_all add: topology_step_correct)

lemma new_topology_ok [simp]: "topology_ok new_topology"
  by (simp add: topology_ok_def places_def new_topology_def)

text \<open>
  C7. The topology table is the map its notifications describe. Over any history of
  listings, window refreshes, layouts and window removals, the table is the fold of the map
  operations (a refresh replaces exactly one window's panes, a layout unplaces exactly the
  panes it contradicts, a removal exactly one window's), although the code works through an
  index that lags behind; and the contradiction a further refresh or layout reports is exactly
  the set of windows its panes left and whether a tiled pane is lost.
\<close>

theorem topology_table_refines:
  assumes "\<forall>op\<in>set (ops @ [op]). op_window op \<noteq> NaN"
  shows "let t = fst (run_steps topology_step new_topology ops) in
    places t = foldl places_op Map.empty ops \<and>
    places (fst (topology_step t op)) = places_op (places t) op \<and>
    (\<forall>c\<in>set (snd (topology_step t op)). (set (left c), lostTrack c) = contradicts (places t) op)"
proof -
  define t where "t = fst (run_steps topology_step new_topology ops)"
  have "places new_topology = Map.empty" by (simp add: places_def new_topology_def fun_eq_iff)
  then have "places t = foldl places_op Map.empty ops" and ok: "topology_ok t"
    using run_places [OF new_topology_ok, of ops] assms by (simp_all add: t_def)
  then show ?thesis
    using topology_step_correct [OF ok, of op] assms by (simp add: t_def [symmetric] Let_def)
qed

theorem topology_table_refines_witness:
  "let t = fst (run_steps topology_step new_topology
        [Seed [\<lparr>pePane = Num 1, peWindow = Num 5, peSession = Num 0, peFloating = False\<rparr>,
               \<lparr>pePane = Num 2, peWindow = Num 6, peSession = Num 0, peFloating = False\<rparr>]])
   in map (\<lambda>c. (set (left c), lostTrack c)) (snd (topology_step t (LayoutPanes (Num 5) [Num 2])))
        = [({Num 6}, True)]"
proof -
  let ?ops = "[Seed [\<lparr>pePane = Num 1, peWindow = Num 5, peSession = Num 0, peFloating = False\<rparr>,
               \<lparr>pePane = Num 2, peWindow = Num 6, peSession = Num 0, peFloating = False\<rparr>]]"
  let ?t = "fst (run_steps topology_step new_topology ?ops)"
  have "\<forall>op\<in>set (?ops @ [LayoutPanes (Num 5) [Num 2]]). op_window op \<noteq> NaN" by simp
  note step = topology_table_refines [OF this, unfolded Let_def]
  note m = conjunct1 [OF step] and c = conjunct2 [OF conjunct2 [OF step]]
  have "places ?t = [Num 1 \<mapsto> \<lparr>pmSession = Num 0, pmWindow = Num 5, pmFloating = False\<rparr>,
      Num 2 \<mapsto> \<lparr>pmSession = Num 0, pmWindow = Num 6, pmFloating = False\<rparr>]"
    unfolding m by (simp add: entries_map_def place_def fun_eq_iff)
  then have "contradicts (places ?t) (LayoutPanes (Num 5) [Num 2]) = ({Num 6}, True)"
    by (auto simp: placed_in_def)
  moreover have "length (snd (topology_step ?t (LayoutPanes (Num 5) [Num 2]))) = 1" by code_simp
  ultimately show ?thesis
    using c by (auto simp: Let_def length_Suc_conv simp del: topology_step.simps fst_run_Cons)
qed

end
