(* ===== verification/Records.thy ===== *)
theory Records
  imports Encoder Topology
begin

section \<open>Listing records\<close>

text \<open>
  The reply parsers behind the typed commands (\<open>src/pane-output.ts\<close>, from \<open>decodeField\<close> on)
  and the records they build (\<open>src/protocol/types.ts\<close>). Of the standard library the source
  uses \<open>TextDecoder\<close>, the UTF-8 decoder with replacement, and \<open>Number\<close> on a string; both are
  written out. A decoded text is a list of UTF-16 code units.
\<close>

subsection \<open>\<open>TextDecoder\<close>\<close>

text \<open>
  The decoder's state is the code point so far, the continuation bytes still needed and the
  range allowed for the next one; None between characters.
\<close>

record utf8_state =
  cp :: nat
  needed :: nat
  lowest :: nat
  highest :: nat

definition utf8_start :: "nat \<Rightarrow> nat list \<times> utf8_state option" where
  "utf8_start b =
     (if b \<le> 0x7F then ([b], None)
      else if 0xC2 \<le> b \<and> b \<le> 0xDF then
        ([], Some \<lparr>cp = b mod 32, needed = 1, lowest = 0x80, highest = 0xBF\<rparr>)
      else if 0xE0 \<le> b \<and> b \<le> 0xEF then
        ([], Some \<lparr>cp = b mod 16, needed = 2, lowest = (if b = 0xE0 then 0xA0 else 0x80),
                   highest = (if b = 0xED then 0x9F else 0xBF)\<rparr>)
      else if 0xF0 \<le> b \<and> b \<le> 0xF4 then
        ([], Some \<lparr>cp = b mod 8, needed = 3, lowest = (if b = 0xF0 then 0x90 else 0x80),
                   highest = (if b = 0xF4 then 0x8F else 0xBF)\<rparr>)
      else ([0xFFFD], None))"

fun utf8_step :: "utf8_state option \<Rightarrow> nat \<Rightarrow> nat list \<times> utf8_state option" where
  "utf8_step None b = utf8_start b"
| "utf8_step (Some s) b =
     (if b < lowest s \<or> highest s < b then
        (let (out, s') = utf8_start b in (0xFFFD # out, s'))
      else let c = cp s * 64 + b mod 64 in
        if needed s = 1 then ([c], None)
        else ([], Some \<lparr>cp = c, needed = needed s - 1, lowest = 0x80, highest = 0xBF\<rparr>))"

fun utf8_points :: "utf8_state option \<Rightarrow> nat list \<Rightarrow> nat list" where
  "utf8_points None [] = []"
| "utf8_points (Some s) [] = [0xFFFD]"
| "utf8_points s (b # bs) = (let (out, s') = utf8_step s b in out @ utf8_points s' bs)"

definition utf16_units :: "nat \<Rightarrow> nat list" where
  "utf16_units c =
     (if c < 0x10000 then [c]
      else [0xD800 + (c - 0x10000) div 0x400, 0xDC00 + (c - 0x10000) mod 0x400])"

text \<open>A leading byte order mark is dropped.\<close>

definition text_decode :: "nat list \<Rightarrow> nat list" where
  "text_decode bytes =
     (let body = (if take 3 bytes = [0xEF, 0xBB, 0xBF] then drop 3 bytes else bytes)
      in concat (map utf16_units (utf8_points None body)))"

definition decode_field :: "string \<Rightarrow> nat list" where
  "decode_field latin1Field = text_decode (map code_of latin1Field)"

subsection \<open>\<open>Number\<close> on a string\<close>

text \<open>
  \<open>Whole\<close> carries an integer or special value; a literal with a fraction or an exponent is
  kept as its exact value, sign, mantissa and power of ten, of which the number is the nearest
  double.
\<close>

datatype js_numeric = Whole jsnum | Decimal bool nat int

definition hex_val :: "char \<Rightarrow> nat" where
  "hex_val c =
     (let n = code_of c in
      if 48 \<le> n \<and> n \<le> 57 then n - 48
      else if 97 \<le> n \<and> n \<le> 102 then n - 87
      else if 65 \<le> n \<and> n \<le> 70 then n - 55 else 16)"

definition read_radix :: "nat \<Rightarrow> string \<Rightarrow> jsnum" where
  "read_radix base s =
     (if s \<noteq> [] \<and> list_all (\<lambda>c. hex_val c < base) s
      then js_of_nat (foldl (\<lambda>acc c. acc * base + hex_val c) 0 s) else NaN)"

fun read_exponent :: "string \<Rightarrow> int option" where
  "read_exponent [] = Some 0"
| "read_exponent (c # s) =
     (let (neg, ds) = parse_sign s in
      if (c = CHR ''e'' \<or> c = CHR ''E'') \<and> ds \<noteq> [] \<and> list_all is_digit ds
      then Some (if neg then - int (digits_val ds) else int (digits_val ds)) else None)"

definition js_number :: "string \<Rightarrow> js_numeric" where
  "js_number s =
     (let t = trim s; prefix = take 2 t; body = drop 2 t in
      if t = [] then Whole (Num 0)
      else if prefix = ''0x'' \<or> prefix = ''0X'' then Whole (read_radix 16 body)
      else if prefix = ''0o'' \<or> prefix = ''0O'' then Whole (read_radix 8 body)
      else if prefix = ''0b'' \<or> prefix = ''0B'' then Whole (read_radix 2 body)
      else
        let (neg, u) = parse_sign t;
            ip = takeWhile is_digit u; r1 = dropWhile is_digit u;
            sign = (\<lambda>v. if neg then js_neg v else v) in
        if u = ''Infinity'' then Whole (sign Infinity)
        else if r1 = [] then Whole (if ip = [] then NaN else sign (js_of_nat (digits_val ip)))
        else
          let (fp, r2) = (if hd r1 = CHR ''.''
                          then (takeWhile is_digit (tl r1), dropWhile is_digit (tl r1)) else ([], r1)) in
          if ip = [] \<and> fp = [] then Whole NaN
          else (case read_exponent r2 of
                  None \<Rightarrow> Whole NaN
                | Some e \<Rightarrow> Decimal neg (digits_val (ip @ fp)) (e - int (length fp))))"

text \<open>\<open>n !== 0\<close>: a decimal is zero also where it rounds to zero, up to half the least double.\<close>

definition js_nonzero :: "js_numeric \<Rightarrow> bool" where
  "js_nonzero v =
     (case v of
        Whole n \<Rightarrow> n \<noteq> Num 0
      | Decimal neg m e \<Rightarrow>
          if 0 \<le> e then m \<noteq> 0 else 10 ^ nat (- e) < m * 2 ^ 1075)"

subsection \<open>The records\<close>

record window_record =
  wrSessionId :: js_numeric
  wrSessionName :: "nat list"
  wrWindowId :: js_numeric
  wrWindowName :: "nat list"
  wrWidth :: js_numeric
  wrHeight :: js_numeric

record pane_record =
  prSessionId :: js_numeric
  prSessionName :: "nat list"
  prWindowId :: js_numeric
  prWindowName :: "nat list"
  prPaneId :: js_numeric
  prCwd :: "nat list"
  prPid :: js_numeric
  prStartCommand :: "nat list"
  prCurrentCommand :: "nat list"
  prWidth :: js_numeric
  prHeight :: js_numeric

record session_record =
  srSessionId :: js_numeric
  srSessionName :: "nat list"
  srWindowCount :: js_numeric
  srAttached :: bool

record new_window_result =
  nwWindowId :: js_numeric
  nwPaneId :: js_numeric

subsection \<open>The parsers\<close>

definition parse_sigil_id :: "string \<Rightarrow> js_numeric" where
  "parse_sigil_id field = js_number (drop 1 field)"

fun unescape_free_text_field :: "string \<Rightarrow> string" where
  "unescape_free_text_field [] = []"
| "unescape_free_text_field [ch] = [ch]"
| "unescape_free_text_field (ch # nxt # s) =
     (if ch = BACKSLASH \<and> nxt = BACKSLASH then BACKSLASH # unescape_free_text_field s
      else if ch = BACKSLASH \<and> nxt = CHR ''t'' then TAB # unescape_free_text_field s
      else ch # unescape_free_text_field (nxt # s))"

definition parse_window_record_line :: "string \<Rightarrow> window_record option" where
  "parse_window_record_line line =
     (case split_on TAB line of
        [sessionId, sessionName, windowId, windowName, width, height] \<Rightarrow>
          Some \<lparr>wrSessionId = parse_sigil_id sessionId, wrSessionName = decode_field sessionName,
                wrWindowId = parse_sigil_id windowId, wrWindowName = decode_field windowName,
                wrWidth = js_number width, wrHeight = js_number height\<rparr>
      | _ \<Rightarrow> None)"

definition parse_pane_record_line :: "string \<Rightarrow> pane_record option" where
  "parse_pane_record_line line =
     (case split_on TAB line of
        [sessionId, sessionName, windowId, windowName, paneId, cwd, pid, startCommand,
         currentCommand, width, height] \<Rightarrow>
          Some \<lparr>prSessionId = parse_sigil_id sessionId, prSessionName = decode_field sessionName,
                prWindowId = parse_sigil_id windowId, prWindowName = decode_field windowName,
                prPaneId = parse_sigil_id paneId,
                prCwd = decode_field (unescape_free_text_field cwd), prPid = js_number pid,
                prStartCommand = decode_field startCommand,
                prCurrentCommand = decode_field currentCommand,
                prWidth = js_number width, prHeight = js_number height\<rparr>
      | _ \<Rightarrow> None)"

definition parse_session_record_line :: "string \<Rightarrow> session_record option" where
  "parse_session_record_line line =
     (case split_on TAB line of
        [sessionId, sessionName, windowCount, attached] \<Rightarrow>
          Some \<lparr>srSessionId = parse_sigil_id sessionId, srSessionName = decode_field sessionName,
                srWindowCount = js_number windowCount, srAttached = js_nonzero (js_number attached)\<rparr>
      | _ \<Rightarrow> None)"

text \<open>\<open>/^(@\d+)\t(%\d+)$/\<close>, each group an id.\<close>

definition sigil_digits :: "char \<Rightarrow> string \<Rightarrow> bool" where
  "sigil_digits sigil s \<longleftrightarrow> take 1 s = [sigil] \<and> drop 1 s \<noteq> [] \<and> list_all is_digit (drop 1 s)"

definition parse_new_window_reply :: "string list \<Rightarrow> new_window_result option" where
  "parse_new_window_reply ls =
     (case ls of
        [line] \<Rightarrow>
          (case split_on TAB line of
             [w, p] \<Rightarrow>
               if sigil_digits (CHR ''@'') w \<and> sigil_digits (CHR ''%'') p
               then Some \<lparr>nwWindowId = parse_sigil_id w, nwPaneId = parse_sigil_id p\<rparr> else None
           | _ \<Rightarrow> None)
      | _ \<Rightarrow> None)"

definition parse_pane_cwd_reply :: "string list \<Rightarrow> nat list option" where
  "parse_pane_cwd_reply ls =
     (case ls of
        [line] \<Rightarrow> Some (decode_field (rev (dropWhile (\<lambda>c. c = CR) (rev line))))
      | _ \<Rightarrow> None)"

subsection \<open>UTF-8 round trip\<close>

lemma utf8_points_Cons [simp]:
  "utf8_points None (b # bs) = fst (utf8_start b) @ utf8_points (snd (utf8_start b)) bs"
  by (simp add: split_beta)

declare utf8_points.simps(3) [simp del]

lemma utf8_continue:
  "lowest s \<le> b \<Longrightarrow> b \<le> highest s \<Longrightarrow>
   utf8_points (Some s) (b # bs) =
     (if needed s = 1 then (cp s * 64 + b mod 64) # utf8_points None bs
      else utf8_points (Some \<lparr>cp = cp s * 64 + b mod 64, needed = needed s - 1, lowest = 0x80, highest = 0xBF\<rparr>) bs)"
  by (simp add: utf8_points.simps Let_def split_beta)

lemma add_mod_small: "m dvd a \<Longrightarrow> q < m \<Longrightarrow> (a + q) mod m = (q :: nat)"
  by (metis mod_add_left_eq mod_less dvd_imp_mod_0 add_0)

lemma low_six: "0x80 + c mod 64 \<le> (0xBF :: nat)" "(0x80 + c mod 64) mod 64 = (c mod 64 :: nat)"
proof -
  show "0x80 + c mod 64 \<le> 0xBF" using mod_less_divisor [of 64 c] by linarith
  show "(0x80 + c mod 64) mod 64 = c mod 64" by (simp add: add_mod_small)
qed

lemma join_six: "c div (64 * k) * 64 + c div k mod 64 = c div (k :: nat)"
proof -
  have "c div (64 * k) = c div k div 64" by (simp add: div_mult2_eq mult.commute [of 64])
  then show ?thesis by simp
qed

lemma utf8_leads:
  "2 \<le> q \<Longrightarrow> q < 32 \<Longrightarrow> utf8_start (0xC0 + q) =
     ([], Some \<lparr>cp = q, needed = 1, lowest = 0x80, highest = 0xBF\<rparr>)"
  "q < 16 \<Longrightarrow> utf8_start (0xE0 + q) =
     ([], Some \<lparr>cp = q, needed = 2, lowest = (if q = 0 then 0xA0 else 0x80),
               highest = (if q = 0xD then 0x9F else 0xBF)\<rparr>)"
  "q < 5 \<Longrightarrow> utf8_start (0xF0 + q) =
     ([], Some \<lparr>cp = q, needed = 3, lowest = (if q = 0 then 0x90 else 0x80),
               highest = (if q = 4 then 0x8F else 0xBF)\<rparr>)"
  by (simp_all add: utf8_start_def add_mod_small)

lemma utf8_three:
  assumes "q < 16" "r < 64" "t < 64" "q = 0 \<longrightarrow> 32 \<le> r" "q = 13 \<longrightarrow> r < 32"
  shows "utf8_points None ((0xE0 + q) # (0x80 + r) # (0x80 + t) # bs) =
    ((q * 64 + r) * 64 + t) # utf8_points None bs"
proof -
  have "(if q = 0 then 0xA0 else 0x80) \<le> 0x80 + r" "0x80 + r \<le> (if q = 13 then 0x9F else 0xBF)"
    using assms(2,4,5) by auto
  then show ?thesis
    using assms(1-3) by (simp add: utf8_leads(2) utf8_continue add_mod_small del: One_nat_def)
qed

lemma utf8_four:
  assumes "p < 5" "q < 64" "r < 64" "t < 64" "p = 0 \<longrightarrow> 16 \<le> q" "p = 4 \<longrightarrow> q < 16"
  shows "utf8_points None ((0xF0 + p) # (0x80 + q) # (0x80 + r) # (0x80 + t) # bs) =
    (((p * 64 + q) * 64 + r) * 64 + t) # utf8_points None bs"
proof -
  have "(if p = 0 then 0x90 else 0x80) \<le> 0x80 + q" "0x80 + q \<le> (if p = 4 then 0x8F else 0xBF)"
    using assms(2,5,6) by auto
  then show ?thesis
    using assms(1-4) by (simp add: utf8_leads(3) utf8_continue add_mod_small del: One_nat_def)
qed

lemma utf8_point_roundtrip:
  assumes "c < 0x110000" and "\<not> (0xD800 \<le> c \<and> c < 0xE000)"
  shows "utf8_points None (utf8_point c @ bs) = c # utf8_points None bs"
proof -
  have joins: "c div 64 * 64 + c mod 64 = c" "c div 4096 * 64 + c div 64 mod 64 = c div 64"
    "c div 262144 * 64 + c div 4096 mod 64 = c div 4096"
    using join_six [of c 64] join_six [of c 4096] by simp_all
  consider "c < 0x80" | "0x80 \<le> c" "c < 0x800" | "0x800 \<le> c" "c < 0x10000" | "0x10000 \<le> c"
    by linarith
  then show ?thesis
  proof cases
    case 1
    then show ?thesis by (simp add: utf8_point_def utf8_start_def)
  next
    case 2
    then have "2 \<le> c div 64" "c div 64 < 32"
      by (simp_all add: less_mult_imp_div_less less_eq_div_iff_mult_less_eq)
    note s = utf8_leads(1) [OF this]
    then show ?thesis using 2 low_six joins by (simp add: utf8_point_def utf8_continue s)
  next
    case 3
    then have "c div 4096 < 16" by (simp add: less_mult_imp_div_less)
    have lo: "c div 4096 = 0 \<longrightarrow> 32 \<le> c div 64 mod 64" using 3 joins(2) div_le_mono [of 2048 c 64] by simp
    have hi: "c div 4096 = 13 \<longrightarrow> c div 64 mod 64 < 32" 
    proof
      assume q: "c div 4096 = 13"
      then have "c < 57344" using div_mult_mod_eq [of c 4096] mod_less_divisor [of 4096 c] by linarith
      then have "c \<le> 55295" using assms(2) by linarith
      then have "c div 64 \<le> 863" using div_le_mono [of c 55295 64] by simp
      then show "c div 64 mod 64 < 32" using q joins(2) by linarith
    qed
    show ?thesis
      using 3 utf8_three [OF \<open>c div 4096 < 16\<close> _ _ lo hi, of "c mod 64" bs] joins
      by (simp add: utf8_point_def del: utf8_points_Cons)
  next
    case 4
    have "c div 262144 < 5" using assms(1) by (simp add: less_mult_imp_div_less)
    have lo: "c div 262144 = 0 \<longrightarrow> 16 \<le> c div 4096 mod 64" using 4 joins(3) div_le_mono [of 65536 c 4096] by simp
    have hi: "c div 262144 = 4 \<longrightarrow> c div 4096 mod 64 < 16" using 4 assms(1) joins(3) div_le_mono [of c 1114111 4096] by simp
    show ?thesis
      using 4 utf8_four [OF \<open>c div 262144 < 5\<close> _ _ _ lo hi, of "c div 64 mod 64" "c mod 64" bs] joins
      by (simp add: utf8_point_def del: utf8_points_Cons)
  qed
qed

text \<open>Well-formed UTF-16: every surrogate is half of a pair.\<close>

fun utf16_ok :: "nat list \<Rightarrow> bool" where
  "utf16_ok [] \<longleftrightarrow> True"
| "utf16_ok [u] \<longleftrightarrow> u < 0x10000 \<and> \<not> is_high u \<and> \<not> is_low u"
| "utf16_ok (u # v # us) \<longleftrightarrow>
     (if is_high u \<and> is_low v then utf16_ok us
      else u < 0x10000 \<and> \<not> is_high u \<and> \<not> is_low u \<and> utf16_ok (v # us))"

lemma points_roundtrip:
  "utf16_ok us \<Longrightarrow> utf8_points None (text_encode us) = code_points us"
proof (induction us rule: utf16_ok.induct)
  case (3 u v us)
  show ?case
  proof (cases "is_high u \<and> is_low v")
    case True
    then have "0x10000 + (u - 0xD800) * 0x400 + (v - 0xDC00) < 0x110000"
      "0x10000 \<le> 0x10000 + (u - 0xD800) * 0x400 + (v - 0xDC00)"
      by (auto simp: is_high_def is_low_def)
    with utf8_point_roundtrip [OF this(1)] 3 True show ?thesis
      by (simp add: text_encode_def del: utf8_points_Cons)
  next
    case False
    then have u: "u < 0x10000" "\<not> is_high u" "\<not> is_low u" using "3.prems" by auto
    then have "\<not> (0xD800 \<le> u \<and> u < 0xE000)" "u < 0x110000" by (auto simp: is_high_def is_low_def)
    with utf8_point_roundtrip 3 False u show ?thesis
      by (simp add: text_encode_def del: utf8_points_Cons)
  qed
next
  case (2 u)
  then have "\<not> (0xD800 \<le> u \<and> u < 0xE000)" "u < 0x110000" by (auto simp: is_high_def is_low_def)
  with utf8_point_roundtrip [of u "[]"] 2 show ?case by (simp add: text_encode_def del: utf8_points_Cons)
qed (simp add: text_encode_def)

lemma utf16_roundtrip: "utf16_ok us \<Longrightarrow> concat (map utf16_units (code_points us)) = us"
proof (induction us rule: utf16_ok.induct)
  case (3 u v us)
  show ?case
  proof (cases "is_high u \<and> is_low v")
    case True
    then have "(v - 0xDC00) < 0x400" "0xD800 \<le> u" "0xDC00 \<le> v" by (auto simp: is_high_def is_low_def)
    moreover from this obtain i j where "u = 0xD800 + i" "v = 0xDC00 + j" "j < 0x400"
      by (metis add_less_cancel_left le_Suc_ex add_diff_cancel_left')
    ultimately show ?thesis using 3 True by (simp add: utf16_units_def)
  qed (use 3 in \<open>auto simp: utf16_units_def\<close>)
qed (auto simp: utf16_units_def)

text \<open>The byte order mark only comes from the character U+FEFF.\<close>

lemma bom_first:
  assumes "utf16_ok us" and "take 3 (text_encode us) = [0xEF, 0xBB, 0xBF]"
  shows "hd us = 0xFEFF"
proof -
  obtain rest where "text_encode us = [0xEF, 0xBB, 0xBF] @ rest"
    using assms(2) by (metis append_take_drop_id)
  then have "code_points us = 0xFEFF # utf8_points None rest"
    using points_roundtrip [OF assms(1)] by (simp add: utf8_start_def utf8_continue)
  then show ?thesis
    using assms(1) by (cases us rule: code_points.cases) (auto simp: is_high_def is_low_def split: if_splits)
qed

lemma text_roundtrip:
  assumes "utf16_ok us" and "us = [] \<or> hd us \<noteq> 0xFEFF"
  shows "text_decode (text_encode us) = us"
proof -
  have "take 3 (text_encode us) \<noteq> [0xEF, 0xBB, 0xBF]"
    using assms bom_first [OF assms(1)] by (auto simp: text_encode_def)
  then show ?thesis
    using assms(1) by (simp add: text_decode_def points_roundtrip utf16_roundtrip)
qed


subsection \<open>What tmux prints\<close>

text \<open>
  The line tmux prints for a listing format, as its documentation has it: each variable's
  bytes, and for the escaped field the two substitutions, backslash first.
\<close>

definition latin1_of :: "nat list \<Rightarrow> string" where
  "latin1_of us = map char_of (text_encode us)"

definition escaped_value :: "string \<Rightarrow> string" where
  "escaped_value s = replace_char TAB [BACKSLASH, CHR ''t''] (replace_char BACKSLASH [BACKSLASH, BACKSLASH] s)"

definition sigil_id :: "char \<Rightarrow> nat \<Rightarrow> string" where
  "sigil_id sigil n = sigil # nat_str n"

definition text_ok :: "nat list \<Rightarrow> bool" where
  "text_ok us \<longleftrightarrow> utf16_ok us \<and> (us = [] \<or> hd us \<noteq> 0xFEFF)"

lemma escaped_value_Cons:
  "escaped_value (c # s) =
     (if c = BACKSLASH then [BACKSLASH, BACKSLASH] else if c = TAB then [BACKSLASH, CHR ''t''] else [c])
     @ escaped_value s"
  by (simp add: escaped_value_def replace_char_def)

lemma unescape_plain: "c \<noteq> BACKSLASH \<Longrightarrow> unescape_free_text_field (c # s) = c # unescape_free_text_field s"
  by (cases s) auto

lemma unescape_escaped: "unescape_free_text_field (escaped_value s) = s"
  by (induction s) (simp_all add: escaped_value_Cons unescape_plain escaped_value_def replace_char_def)

lemma escaped_no_tab: "TAB \<notin> set (escaped_value s)"
  by (induction s) (auto simp: escaped_value_Cons escaped_value_def replace_char_def)

lemma split_join: "list_all (\<lambda>f. d \<notin> set f) fs \<Longrightarrow> fs \<noteq> [] \<Longrightarrow> split_on d (join_with [d] fs) = fs"
  by (induction "[d]" fs rule: join_with.induct) (simp_all add: split_on_single split_on_Cons_sep)

lemma utf8_point_low: "c < 0x110000 \<Longrightarrow> b \<in> set (utf8_point c) \<Longrightarrow> b < 256 \<and> (b < 0x80 \<longrightarrow> b = c)"
  by (auto simp: utf8_point_def less_mult_imp_div_less split: if_splits)

lemma text_encode_low:
  "utf16_ok us \<Longrightarrow> b \<in> set (text_encode us) \<Longrightarrow> b < 256 \<and> (b < 0x80 \<longrightarrow> b \<in> set us)"
proof (induction us rule: utf16_ok.induct)
  case (3 u v us)
  show ?case
  proof (cases "is_high u \<and> is_low v")
    case True
    let ?c = "0x10000 + (u - 0xD800) * 0x400 + (v - 0xDC00)"
    have c: "?c < 0x110000" "0x80 \<le> ?c" using True by (auto simp: is_high_def is_low_def)
    from True "3.prems" have "b \<in> set (utf8_point ?c) \<or> b \<in> set (text_encode us)"
      by (auto simp: text_encode_def)
    then show ?thesis using 3 True utf8_point_low [OF c(1), of b] c(2) by auto
  next
    case False
    then have "u < 0x110000" "b \<in> set (utf8_point u) \<or> b \<in> set (text_encode (v # us))"
      using "3.prems" by (auto simp: text_encode_def)
    then show ?thesis using 3 False utf8_point_low [of u b] by auto
  qed
next
  case (2 u)
  then show ?case using utf8_point_low [of u b] by (auto simp: text_encode_def)
qed (simp add: text_encode_def)

lemma decode_latin1:
  assumes "text_ok us"
  shows "decode_field (latin1_of us) = us"
proof -
  have "map (code_of \<circ> char_of) (text_encode us) = text_encode us"
    using text_encode_low [of us] assms by (intro map_idI) (auto simp: text_ok_def)
  then show ?thesis
    using text_roundtrip [of us] assms by (simp add: decode_field_def latin1_of_def text_ok_def)
qed

lemma latin1_no_tab: "text_ok us \<Longrightarrow> 9 \<notin> set us \<Longrightarrow> TAB \<notin> set (latin1_of us)"
proof
  assume ok: "text_ok us" "9 \<notin> set us" and "TAB \<in> set (latin1_of us)"
  then obtain b where b: "b \<in> set (text_encode us)" "TAB = char_of b"
    by (auto simp: latin1_of_def)
  then have "b < 256" using text_encode_low ok(1) by (auto simp: text_ok_def)
  then have "b = 9" using arg_cong [OF b(2), of "of_char :: char \<Rightarrow> nat"] by simp
  then show False using b(1) text_encode_low [of us 9] ok by (auto simp: text_ok_def)
qed


lemma trim_digits: "s = nat_str n @ replicate k CR \<Longrightarrow> trim s = nat_str n"
proof -
  assume s: "s = nat_str n @ replicate k CR"
  have d: "\<not> js_space c" if "c \<in> set (nat_str n)" for c
    using that nat_str_digits digit_not_space by blast
  have "dropWhile js_space (nat_str n @ t) = nat_str n @ t" for t
    using hd_nat_str [of n] digit_not_space by (cases "nat_str n") auto
  moreover have "dropWhile js_space (replicate k CR @ rev (nat_str n)) = rev (nat_str n)"
    using d by (subst dropWhile_append2) (simp_all add: js_space_def dropWhile_eq_self_iff rev_is_Nil_conv hd_rev last_in_set)
  ultimately show ?thesis by (simp add: s trim_def)
qed

lemma js_number_nat:
  assumes "n \<le> 2 ^ 53"
  shows "js_number (nat_str n @ replicate k CR) = Whole (Num (int n))"
proof -
  obtain c t where ct: "nat_str n = c # t" by (cases "nat_str n") auto
  have digits: "list_all is_digit (nat_str n)" using nat_str_digits by (auto simp: list_all_iff)
  then have c: "is_digit c" and "list_all is_digit t" by (simp_all add: ct)
  then have pre: "take 2 (nat_str n) \<noteq> [CHR ''0'', x]" if "\<not> is_digit x" for x
    using that by (cases t) (auto simp: ct)
  have tw: "takeWhile is_digit (nat_str n) = nat_str n" "dropWhile is_digit (nat_str n) = []"
    using digits by (auto simp: list_all_iff takeWhile_eq_all_conv)
  have letters: "\<not> is_digit (CHR ''x'')" "\<not> is_digit (CHR ''X'')" "\<not> is_digit (CHR ''o'')"
    "\<not> is_digit (CHR ''O'')" "\<not> is_digit (CHR ''b'')" "\<not> is_digit (CHR ''B'')"
    "\<not> is_digit (CHR ''I'')"
    by (simp_all add: is_digit_def)
  have "nat_str n \<noteq> ''Infinity''" using c letters by (auto simp: ct)
  then show ?thesis
    using pre [OF letters(1)] pre [OF letters(2)] pre [OF letters(3)] pre [OF letters(4)]
      pre [OF letters(5)] pre [OF letters(6)] tw assms parse_sign_digit [OF c, of t]
    unfolding js_number_def trim_digits [OF refl] Let_def
    by (simp add: ct [symmetric] del: takeWhile_eq_all_conv takeWhile_eq_Nil_iff)
qed


lemma js_number_plain: "n \<le> 2 ^ 53 \<Longrightarrow> js_number (nat_str n) = Whole (Num (int n))"
  using js_number_nat [of n 0] by simp

lemma sigil_id_value: "n \<le> 2 ^ 53 \<Longrightarrow> parse_sigil_id (sigil_id c n) = Whole (Num (int n))"
  by (simp add: parse_sigil_id_def sigil_id_def js_number_plain)

lemma digits_no_tab [simp]: "TAB \<notin> set (nat_str n)"
  using nat_str_digits [of TAB n] by (auto simp: is_digit_def)

lemma sigil_no_tab: "c \<noteq> TAB \<Longrightarrow> TAB \<notin> set (sigil_id c n)"
  by (simp add: sigil_id_def)

definition name_ok :: "nat list \<Rightarrow> bool" where
  "name_ok us \<longleftrightarrow> text_ok us \<and> 9 \<notin> set us"

lemma name_field: "name_ok us \<Longrightarrow> decode_field (latin1_of us) = us \<and> TAB \<notin> set (latin1_of us)"
  by (simp add: name_ok_def decode_latin1 latin1_no_tab)

text \<open>
  The listing commands give back what tmux has. The line tmux prints for each listing
  format - ids, names of any Unicode text without tabs, a working directory of any text at
  all, tabs and backslashes included - parses to exactly those values, also when a line
  driver appended carriage returns to it.
\<close>

theorem listing_roundtrip:
  assumes "list_all name_ok [sname, wname, started, running]" and "text_ok cwd"
    and "list_all (\<lambda>n. n \<le> 2 ^ 53) [s, w, p, pid, width, height, att]"
  shows "parse_pane_record_line (join_with [TAB]
       [sigil_id (CHR ''$'') s, latin1_of sname, sigil_id (CHR ''@'') w, latin1_of wname,
        sigil_id (CHR ''%'') p, escaped_value (latin1_of cwd), nat_str pid, latin1_of started,
        latin1_of running, nat_str width, nat_str height @ replicate k CR]) =
      Some \<lparr>prSessionId = Whole (Num (int s)), prSessionName = sname,
            prWindowId = Whole (Num (int w)), prWindowName = wname, prPaneId = Whole (Num (int p)),
            prCwd = cwd, prPid = Whole (Num (int pid)), prStartCommand = started,
            prCurrentCommand = running, prWidth = Whole (Num (int width)),
            prHeight = Whole (Num (int height))\<rparr>
    \<and> parse_window_record_line (join_with [TAB]
       [sigil_id (CHR ''$'') s, latin1_of sname, sigil_id (CHR ''@'') w, latin1_of wname,
        nat_str width, nat_str height @ replicate k CR]) =
      Some \<lparr>wrSessionId = Whole (Num (int s)), wrSessionName = sname,
            wrWindowId = Whole (Num (int w)), wrWindowName = wname,
            wrWidth = Whole (Num (int width)), wrHeight = Whole (Num (int height))\<rparr>
    \<and> parse_session_record_line (join_with [TAB]
       [sigil_id (CHR ''$'') s, latin1_of sname, nat_str width, nat_str att @ replicate k CR]) =
      Some \<lparr>srSessionId = Whole (Num (int s)), srSessionName = sname,
            srWindowCount = Whole (Num (int width)), srAttached = (0 < att)\<rparr>"
proof -
  have n: "decode_field (latin1_of us) = us" "TAB \<notin> set (latin1_of us)"
    if "us \<in> {sname, wname, started, running}" for us
    using that assms(1) name_field by auto
  have f: "split_on TAB (join_with [TAB] fs) = fs" if "list_all (\<lambda>f. TAB \<notin> set f) fs" "fs \<noteq> []" for fs
    using that by (rule split_join)
  note fields = f n sigil_no_tab escaped_no_tab unescape_escaped decode_latin1 [OF assms(2)]
  show ?thesis
    using assms(3)
    by (simp add: fields parse_pane_record_line_def parse_window_record_line_def
        parse_session_record_line_def sigil_id_value js_number_plain js_number_nat js_nonzero_def
        del: join_with.simps)
qed

theorem listing_roundtrip_witness:
  "parse_pane_record_line (''$1'' @ [TAB] @ ''main'' @ [TAB] @ ''@2'' @ [TAB] @ ''vim'' @ [TAB] @ ''%3''
     @ [TAB] @ ''/tmp/a'' @ [BACKSLASH, CHR ''t''] @ ''b'' @ [TAB] @ ''42'' @ [TAB] @ ''sh'' @ [TAB]
     @ ''vi'' @ [TAB] @ ''80'' @ [TAB] @ ''24'' @ [CR]) =
   Some \<lparr>prSessionId = Whole (Num 1), prSessionName = map code_of ''main'',
         prWindowId = Whole (Num 2), prWindowName = map code_of ''vim'', prPaneId = Whole (Num 3),
         prCwd = map code_of ''/tmp/a'' @ [9] @ map code_of ''b'', prPid = Whole (Num 42),
         prStartCommand = map code_of ''sh'', prCurrentCommand = map code_of ''vi'',
         prWidth = Whole (Num 80), prHeight = Whole (Num 24)\<rparr>"
proof -
  let ?m = "map code_of ''main''" and ?v = "map code_of ''vim''" and ?sh = "map code_of ''sh''"
    and ?vi = "map code_of ''vi''" and ?cwd = "map code_of ''/tmp/a'' @ [9] @ map code_of ''b''"
  have ok: "list_all name_ok [?m, ?v, ?sh, ?vi]" "text_ok ?cwd"
    "list_all (\<lambda>n. n \<le> 2 ^ 53) [1, 2, 3, 42, 80, 24, 0 :: nat]"
    by code_simp+
  have line: "join_with [TAB]
       [sigil_id (CHR ''$'') 1, latin1_of ?m, sigil_id (CHR ''@'') 2, latin1_of ?v,
        sigil_id (CHR ''%'') 3, escaped_value (latin1_of ?cwd), nat_str 42, latin1_of ?sh,
        latin1_of ?vi, nat_str 80, nat_str 24 @ replicate 1 CR] =
    ''$1'' @ [TAB] @ ''main'' @ [TAB] @ ''@2'' @ [TAB] @ ''vim'' @ [TAB] @ ''%3''
     @ [TAB] @ ''/tmp/a'' @ [BACKSLASH, CHR ''t''] @ ''b'' @ [TAB] @ ''42'' @ [TAB] @ ''sh'' @ [TAB]
     @ ''vi'' @ [TAB] @ ''80'' @ [TAB] @ ''24'' @ [CR]"
    by code_simp
  show ?thesis
    using conjunct1 [OF listing_roundtrip [OF ok, of 1]] unfolding line by simp
qed

end
