(* ===== verification/EscapeParse.thy ===== *)
theory EscapeParse
  imports Records Encoder
begin

section \<open>Escape sequences\<close>

text \<open>
  \<open>examples/web-multiplexer/web/escape-parse-engine.ts\<close>: escape notation typed by a person, and the
  classification of a byte run into terminal events. Typed text is a list of UTF-16 code units,
  a byte run a string, a decoded text again code units. The descriptions for display are left
  out; numbers print exactly, where the source rounds from \<open>2 ^ 53\<close> on.
\<close>

subsection \<open>Escape notation\<close>

fun named_escape :: "nat \<Rightarrow> nat option" where
  "named_escape u =
     (if u = 101 \<or> u = 69 then Some 0x1B
      else if u = 97 then Some 0x07 else if u = 98 then Some 0x08 else if u = 116 then Some 0x09
      else if u = 110 then Some 0x0A else if u = 118 then Some 0x0B else if u = 102 then Some 0x0C
      else if u = 114 then Some 0x0D else None)"

definition esc_octal_digit :: "nat \<Rightarrow> bool" where
  "esc_octal_digit u \<longleftrightarrow> 48 \<le> u \<and> u \<le> 55"

definition esc_hex_digit :: "nat \<Rightarrow> bool" where
  "esc_hex_digit u \<longleftrightarrow> (48 \<le> u \<and> u \<le> 57) \<or> (97 \<le> u \<and> u \<le> 102) \<or> (65 \<le> u \<and> u \<le> 70)"

definition digit_value :: "nat \<Rightarrow> nat" where
  "digit_value u = (if u \<le> 57 then u - 48 else if 97 \<le> u then u - 87 else u - 55)"

definition read_digits :: "nat \<Rightarrow> nat list \<Rightarrow> nat" where
  "read_digits base ds = foldl (\<lambda>acc d. acc * base + digit_value d) 0 ds"

abbreviation BSLASH :: nat where "BSLASH \<equiv> 92"

function (sequential) interpret_escapes :: "nat list \<Rightarrow> nat list" where
  "interpret_escapes [] = []"
| "interpret_escapes (ch # s) =
     (if ch \<noteq> BSLASH then ch # interpret_escapes s
      else (case s of
          [] \<Rightarrow> [BSLASH]
        | nxt # r \<Rightarrow>
            (case named_escape nxt of
               Some c \<Rightarrow> c # interpret_escapes r
             | None \<Rightarrow>
                 if nxt = BSLASH then BSLASH # interpret_escapes r
                 else if nxt = 120 then
                   (let hex = takeWhile esc_hex_digit (take 2 r) in
                    if hex \<noteq> [] then read_digits 16 hex # interpret_escapes (drop (length hex) r)
                    else BSLASH # interpret_escapes s)
                 else if nxt = 117 then
                   (let hex = takeWhile esc_hex_digit (take 4 r) in
                    if length hex = 4 then read_digits 16 hex # interpret_escapes (drop (length hex) r)
                    else BSLASH # interpret_escapes s)
                 else if esc_octal_digit nxt then
                   (let oct = takeWhile esc_octal_digit (take 3 s) in
                    read_digits 8 oct mod 256 # interpret_escapes (drop (length oct) s))
                 else BSLASH # interpret_escapes s)))"
  by pat_completeness auto
termination
  by (relation "measure length") (auto simp: less_Suc_eq_le)

subsection \<open>Colours\<close>

definition PALETTE_16 :: "string list" where
  "PALETTE_16 =
     [''#000000'', ''#cd0000'', ''#00cd00'', ''#cdcd00'', ''#0000ee'', ''#cd00cd'', ''#00cdcd'', ''#e5e5e5'',
      ''#7f7f7f'', ''#ff0000'', ''#00ff00'', ''#ffff00'', ''#5c5cff'', ''#ff00ff'', ''#00ffff'', ''#ffffff'']"

definition rgb :: "string \<Rightarrow> string \<Rightarrow> string \<Rightarrow> string" where
  "rgb r g b = ''rgb('' @ r @ '','' @ g @ '','' @ b @ '')''"

definition color_step :: "int \<Rightarrow> string" where
  "color_step x = int_str (if x = 0 then 0 else 55 + x * 40)"

definition css256 :: "jsnum \<Rightarrow> string" where
  "css256 n =
     (case n of
        Num k \<Rightarrow>
          if k < 16 then (if 0 \<le> k then PALETTE_16 ! nat k else ''#000000'')
          else if 232 \<le> k then (let v = int_str (8 + (k - 232) * 10) in rgb v v v)
          else let c = k - 16 in rgb (color_step (c div 36)) (color_step (c mod 36 div 6)) (color_step (c mod 6))
      | Infinity \<Rightarrow> rgb ''Infinity'' ''Infinity'' ''Infinity''
      | NegInfinity \<Rightarrow> ''#000000''
      | NaN \<Rightarrow> rgb ''NaN'' ''NaN'' ''NaN'')"

datatype color_plane = Fg | Bg

text \<open>A token is an attribute number, a colour of a plane, or a malformed extended colour.\<close>

datatype sgr_token = SgrSimple int | SgrColor color_plane string | SgrMalformed color_plane | SgrOther jsnum

definition SGR_SIMPLE :: "int list" where
  "SGR_SIMPLE = [0, 1, 2, 3, 4, 5, 7, 8, 9, 21, 22, 23, 24, 25, 27, 28, 29, 39, 49]"

definition palette_color :: "int \<Rightarrow> (color_plane \<times> string) option" where
  "palette_color n =
     (if 30 \<le> n \<and> n \<le> 37 then Some (Fg, PALETTE_16 ! nat (n - 30))
      else if 40 \<le> n \<and> n \<le> 47 then Some (Bg, PALETTE_16 ! nat (n - 40))
      else if 90 \<le> n \<and> n \<le> 97 then Some (Fg, PALETTE_16 ! nat (n - 90 + 8))
      else if 100 \<le> n \<and> n \<le> 107 then Some (Bg, PALETTE_16 ! nat (n - 100 + 8))
      else None)"

fun decode_sgr_list :: "jsnum list \<Rightarrow> sgr_token list" where
  "decode_sgr_list [] = []"
| "decode_sgr_list (n # ns) =
     (case n of
        NaN \<Rightarrow> decode_sgr_list ns
      | Num k \<Rightarrow>
          if k \<in> set SGR_SIMPLE then SgrSimple k # decode_sgr_list ns
          else (case palette_color k of
              Some (pl, c) \<Rightarrow> SgrColor pl c # decode_sgr_list ns
            | None \<Rightarrow>
                if k = 38 \<or> k = 48 then
                  (let plane = (if k = 38 then Fg else Bg) in
                   case ns of
                     m # x # rest \<Rightarrow>
                       if m = Num 5 then SgrColor plane (css256 x) # decode_sgr_list rest
                       else (case rest of
                           g # b # rest' \<Rightarrow>
                             if m = Num 2
                             then SgrColor plane (rgb (num_str x) (num_str g) (num_str b)) # decode_sgr_list rest'
                             else SgrMalformed plane # decode_sgr_list ns
                         | _ \<Rightarrow> SgrMalformed plane # decode_sgr_list ns)
                   | _ \<Rightarrow> SgrMalformed plane # decode_sgr_list ns)
                else SgrOther n # decode_sgr_list ns)
      | _ \<Rightarrow> SgrOther n # decode_sgr_list ns)"

definition decode_sgr :: "string \<Rightarrow> sgr_token list" where
  "decode_sgr params =
     decode_sgr_list
       (if params = [] then [Num 0]
        else map (\<lambda>p. if p = [] then Num 0 else parse_int p) (split_on (CHR '';'') params))"

subsection \<open>Events\<close>

datatype terminator = StTerminator | BelTerminator | NoTerminator

datatype string_type = DcsString | ApcString | PmString | SosString

datatype escape_event =
    TextEvent "nat list" nat
  | C0Event nat
  | CsiEvent string string char "sgr_token list option" nat
  | OscEvent string string terminator nat
  | EscEvent string char nat
  | StringEvent string_type string terminator nat
  | IncompleteEvent string nat

fun string_intro :: "nat \<Rightarrow> string_type option" where
  "string_intro b =
     (if b = 0x50 then Some DcsString else if b = 0x5F then Some ApcString
      else if b = 0x5E then Some PmString else if b = 0x58 then Some SosString else None)"

definition param_byte :: "char \<Rightarrow> bool" where
  "param_byte c \<longleftrightarrow> 0x30 \<le> code_of c \<and> code_of c \<le> 0x3F"

definition intermediate_byte :: "char \<Rightarrow> bool" where
  "intermediate_byte c \<longleftrightarrow> 0x20 \<le> code_of c \<and> code_of c \<le> 0x2F"

definition final_byte :: "char \<Rightarrow> bool" where
  "final_byte c \<longleftrightarrow> 0x40 \<le> code_of c \<and> code_of c \<le> 0x7E"

definition text_byte :: "char \<Rightarrow> bool" where
  "text_byte c \<longleftrightarrow> 0x20 \<le> code_of c \<and> code_of c \<noteq> 0x7F"

text \<open>The body, the terminator and what follows it.\<close>

fun scan_body :: "string \<Rightarrow> string \<times> terminator \<times> string" where
  "scan_body [] = ([], NoTerminator, [])"
| "scan_body (b # s) =
     (if code_of b = 0x07 then ([], BelTerminator, s)
      else if code_of b = 0x1B \<and> take 1 s = [CHR 0x5C] then ([], StTerminator, drop 1 s)
      else (let (body, term, rest) = scan_body s in (b # body, term, rest)))"

definition body_ps :: "string \<Rightarrow> string" where
  "body_ps raw = takeWhile (\<lambda>c. c \<noteq> CHR '';'') raw"

definition body_payload :: "string \<Rightarrow> string" where
  "body_payload raw = drop 1 (dropWhile (\<lambda>c. c \<noteq> CHR '';'') raw)"

text \<open>One event of a run that is not empty, and what is left; None where the scan breaks off.\<close>

definition csi_event :: "string \<Rightarrow> escape_event \<times> string option" where
  "csi_event s =
     (let params = takeWhile param_byte s; r1 = dropWhile param_byte s;
          inter = takeWhile intermediate_byte r1; r2 = dropWhile intermediate_byte r1;
          len = 2 + length params + length inter in
      case r2 of
        f # rest \<Rightarrow>
          if final_byte f
          then (CsiEvent params inter f (if f = CHR ''m'' then Some (decode_sgr params) else None) (len + 1), Some rest)
          else (IncompleteEvent (''ESC [ '' @ params @ inter) len, None)
      | [] \<Rightarrow> (IncompleteEvent (''ESC [ '' @ params @ inter) len, None))"

definition esc_event :: "string \<Rightarrow> escape_event \<times> string option" where
  "esc_event s =
     (let inter = takeWhile intermediate_byte s; r = dropWhile intermediate_byte s; len = 1 + length inter in
      case r of
        f # rest \<Rightarrow>
          if 0x30 \<le> code_of f \<and> code_of f \<le> 0x7E then (EscEvent inter f (len + 1), Some rest)
          else (IncompleteEvent (''ESC '' @ inter) len, None)
      | [] \<Rightarrow> (IncompleteEvent (''ESC '' @ inter) len, None))"

definition string_event :: "(string \<Rightarrow> terminator \<Rightarrow> nat \<Rightarrow> escape_event) \<Rightarrow> string \<Rightarrow> escape_event \<times> string option" where
  "string_event mk s =
     (let (body, term, rest) = scan_body s; len = 2 + (length s - length rest)
      in (mk body term len, if term = NoTerminator then None else Some rest))"

fun next_event :: "char \<Rightarrow> string \<Rightarrow> escape_event \<times> string option" where
  "next_event b s =
     (if code_of b = 0x1B then
        (case s of
           [] \<Rightarrow> (IncompleteEvent ''ESC'' 1, None)
         | c # r \<Rightarrow>
             if code_of c = 0x5B then csi_event r
             else if code_of c = 0x5D
             then string_event (\<lambda>raw term len. OscEvent (body_ps raw) (body_payload raw) term len) r
             else (case string_intro (code_of c) of
                 Some ty \<Rightarrow> string_event (\<lambda>raw term len. StringEvent ty (body_payload raw) term len) r
               | None \<Rightarrow> esc_event s))
      else if code_of b < 0x20 \<or> code_of b = 0x7F then (C0Event (code_of b), Some s)
      else
        let txt = b # takeWhile text_byte s
        in (TextEvent (text_decode (map code_of txt)) (length txt), Some (dropWhile text_byte s)))"

lemma scan_body_length: "scan_body s = (body, t, rest) \<Longrightarrow> length rest \<le> length s"
  by (induction s arbitrary: body t rest) (fastforce split: if_splits prod.splits)+

lemma next_event_shrinks: "next_event b s = (e, Some rest) \<Longrightarrow> length rest \<le> length s"
proof -
  have csi: "csi_event r = (e, Some rest) \<Longrightarrow> length rest \<le> length r" for r
    using length_dropWhile_le [of param_byte r] length_dropWhile_le [of intermediate_byte "dropWhile param_byte r"]
    by (auto simp: csi_event_def Let_def split: list.splits if_splits)
  have esc: "esc_event r = (e, Some rest) \<Longrightarrow> length rest \<le> length r" for r
    using length_dropWhile_le [of intermediate_byte r]
    by (auto simp: esc_event_def Let_def split: list.splits if_splits)
  have str: "string_event mk r = (e, Some rest) \<Longrightarrow> length rest \<le> length r" for mk r
    using scan_body_length [of r] by (auto simp: string_event_def Let_def split: prod.splits if_splits)
  assume n: "next_event b s = (e, Some rest)"
  show ?thesis
  proof (cases "code_of b = 0x1B")
    case True
    then show ?thesis
      using n csi esc str
      by (fastforce simp del: string_intro.simps split: list.splits if_splits option.splits)
  next
    case False
    then show ?thesis
      using n length_dropWhile_le [of text_byte s] by (auto simp: Let_def split: if_splits)
  qed
qed

function parse_escapes :: "string \<Rightarrow> escape_event list" where
  "parse_escapes bytes =
     (case bytes of
        [] \<Rightarrow> []
      | b # s \<Rightarrow>
          (case next_event b s of
             (e, None) \<Rightarrow> [e]
           | (e, Some rest) \<Rightarrow> e # parse_escapes rest))"
  by pat_completeness auto
termination
  by (relation "measure length") (auto simp: less_Suc_eq_le simp del: next_event.simps dest: next_event_shrinks [OF sym])

lemma parse_escapes_Nil: "parse_escapes [] = []"
  by simp

declare parse_escapes.simps [simp del] next_event.simps [simp del]

definition analyze :: "nat list \<Rightarrow> nat list \<times> string \<times> escape_event list" where
  "analyze txt =
     (let interpreted = interpret_escapes txt; bytes = map char_of (text_encode interpreted)
      in (interpreted, bytes, parse_escapes bytes))"

subsection \<open>Every string can be typed\<close>

definition hex_unit :: "nat \<Rightarrow> nat" where
  "hex_unit d = (if d < 10 then 48 + d else 87 + d)"

definition hex4 :: "nat \<Rightarrow> nat list" where
  "hex4 u = [hex_unit (u div 4096 mod 16), hex_unit (u div 256 mod 16), hex_unit (u div 16 mod 16), hex_unit (u mod 16)]"

text \<open>Printable characters stand for themselves, a backslash is doubled, the rest is \<open>\<backslash>uHHHH\<close>.\<close>

definition notate :: "nat \<Rightarrow> nat list" where
  "notate u =
     (if u = BSLASH then [BSLASH, BSLASH]
      else if 32 \<le> u \<and> u < 127 then [u]
      else [BSLASH, 117] @ hex4 u)"

lemma hex_unit_simps: "d < 16 \<Longrightarrow> esc_hex_digit (hex_unit d)" "d < 16 \<Longrightarrow> digit_value (hex_unit d) = d"
  by (auto simp: hex_unit_def esc_hex_digit_def digit_value_def)

lemma hex4_reads: "u < 65536 \<Longrightarrow> read_digits 16 (hex4 u) = u"
proof -
  assume u: "u < 65536"
  have step: "v div 16 * 16 + v mod 16 = v" for v :: nat by simp
  have "u div 4096 mod 16 = u div 4096" using u by simp
  moreover have "u div 4096 = u div 16 div 16 div 16" by (simp add: div_mult2_eq [symmetric])
  moreover have "u div 256 = u div 16 div 16" by (simp add: div_mult2_eq [symmetric])
  ultimately have "((u div 4096 mod 16 * 16 + u div 256 mod 16) * 16 + u div 16 mod 16) * 16 + u mod 16 = u"
    by (simp only: step)
  moreover have "read_digits 16 (hex4 u)
      = ((u div 4096 mod 16 * 16 + u div 256 mod 16) * 16 + u div 16 mod 16) * 16 + u mod 16"
    by (simp only: read_digits_def hex4_def foldl.simps) (simp add: hex_unit_simps)
  ultimately show ?thesis by (rule trans [rotated])
qed

lemma hex4_taken: "takeWhile esc_hex_digit (hex4 u) = hex4 u" "length (hex4 u) = 4"
  by (simp_all add: hex4_def hex_unit_simps)

lemma hex4_typed:
  assumes "u < 65536"
  shows "interpret_escapes ([BSLASH, 117] @ hex4 u @ s) = u # interpret_escapes s"
  by (simp add: hex4_taken hex4_reads [OF assms])

text \<open>
  Every string can be typed: the notation that spells printable characters as they are, doubles
  the backslash and writes everything else as a four-digit escape is read back as the string.
\<close>

theorem notation_roundtrip:
  assumes "\<forall>u\<in>set us. u < 65536"
  shows "interpret_escapes (concat (map notate us)) = us"
  using assms
proof (induction us)
  case (Cons u us)
  then have IH: "interpret_escapes (concat (map notate us)) = us" and u: "u < 65536" by simp_all
  consider "notate u = [BSLASH, BSLASH]" "u = BSLASH" | "notate u = [u]" "u \<noteq> BSLASH"
    | "notate u = [BSLASH, 117] @ hex4 u"
    by (cases "u = BSLASH"; cases "32 \<le> u \<and> u < 127") (auto simp: notate_def)
  then show ?case
    using hex4_typed [OF u] IH by cases simp_all
qed simp

lemma notation_roundtrip_witness:
  "interpret_escapes [92, 117, 48, 48, 49, 98, 91, 92, 92] = [0x1B, 91, 92]"
proof -
  have "concat (map notate [0x1B, 91, 92]) = [92, 117, 48, 48, 49, 98, 91, 92, 92]" by code_simp
  moreover have "\<forall>u\<in>set [0x1B, 91, 92::nat]. u < 65536" by simp
  ultimately show ?thesis using notation_roundtrip by metis
qed

subsection \<open>The events tile the run\<close>

fun event_byte_length :: "escape_event \<Rightarrow> nat" where
  "event_byte_length (TextEvent t n) = n"
| "event_byte_length (C0Event b) = 1"
| "event_byte_length (CsiEvent ps is f sgr n) = n"
| "event_byte_length (OscEvent ps pl t n) = n"
| "event_byte_length (EscEvent is f n) = n"
| "event_byte_length (StringEvent ty pl t n) = n"
| "event_byte_length (IncompleteEvent r n) = n"

definition breaks_off :: "escape_event \<Rightarrow> bool" where
  "breaks_off e = (case e of IncompleteEvent r n \<Rightarrow> True | _ \<Rightarrow> False)"

lemma take_drop_While: "length (takeWhile P s) + length (dropWhile P s) = length s"
  by (metis length_append takeWhile_dropWhile_id)

lemma scan_body_rest: "scan_body s = (body, NoTerminator, rest) \<Longrightarrow> rest = []"
  by (induction s arbitrary: body) (auto split: if_splits prod.splits)

lemma next_event_length:
  assumes "next_event b s = (e, r)"
  shows "0 < event_byte_length e \<and>
    (case r of Some rest \<Rightarrow> \<not> breaks_off e \<and> event_byte_length e + length rest = Suc (length s)
     | None \<Rightarrow> event_byte_length e \<le> Suc (length s) \<and> (breaks_off e \<or> event_byte_length e = Suc (length s)))"
proof -
  have csi: "csi_event u = (e, r) \<Longrightarrow> 0 < event_byte_length e \<and>
    (case r of Some rest \<Rightarrow> \<not> breaks_off e \<and> event_byte_length e + length rest = 2 + length u
     | None \<Rightarrow> event_byte_length e \<le> 2 + length u \<and> breaks_off e)" for u
    using take_drop_While [of param_byte u] take_drop_While [of intermediate_byte "dropWhile param_byte u"]
    by (auto simp: csi_event_def breaks_off_def Let_def split: list.splits if_splits)
  have esc: "esc_event u = (e, r) \<Longrightarrow> 0 < event_byte_length e \<and>
    (case r of Some rest \<Rightarrow> \<not> breaks_off e \<and> event_byte_length e + length rest = 1 + length u
     | None \<Rightarrow> event_byte_length e \<le> 1 + length u \<and> breaks_off e)" for u
    using take_drop_While [of intermediate_byte u]
    by (auto simp: esc_event_def breaks_off_def Let_def split: list.splits if_splits)
  have str: "string_event mk u = (e, r) \<Longrightarrow> (\<And>raw t n. event_byte_length (mk raw t n) = n \<and> \<not> breaks_off (mk raw t n)) \<Longrightarrow>
    0 < event_byte_length e \<and>
    (case r of Some rest \<Rightarrow> \<not> breaks_off e \<and> event_byte_length e + length rest = 2 + length u
     | None \<Rightarrow> event_byte_length e = 2 + length u)" for mk u
    using scan_body_length [of u] scan_body_rest [of u]
    by (cases "scan_body u") (auto simp: string_event_def Let_def split: if_splits)
  show ?thesis
  proof (cases "code_of b = 0x1B")
    case esc_byte: True
    show ?thesis
    proof (cases s)
      case Nil
      then show ?thesis using assms esc_byte by (auto simp: next_event.simps breaks_off_def)
    next
      case (Cons c u)
      consider "code_of c = 0x5B" | "code_of c = 0x5D" | ty where "code_of c \<noteq> 0x5B" "code_of c \<noteq> 0x5D" "string_intro (code_of c) = Some ty"
        | "code_of c \<noteq> 0x5B" "code_of c \<noteq> 0x5D" "string_intro (code_of c) = None"
        by (cases "string_intro (code_of c)") auto
      then show ?thesis
      proof cases
        case 1
        then have "csi_event u = (e, r)" using assms esc_byte Cons by (simp add: next_event.simps)
        from csi [OF this] Cons show ?thesis by (auto split: option.splits)
      next
        case 2
        then have "string_event (\<lambda>raw term len. OscEvent (body_ps raw) (body_payload raw) term len) u = (e, r)"
          using assms esc_byte Cons by (simp add: next_event.simps)
        from str [OF this] Cons show ?thesis by (auto simp: breaks_off_def split: option.splits)
      next
        case 3
        then have "string_event (\<lambda>raw term len. StringEvent ty (body_payload raw) term len) u = (e, r)"
          using assms esc_byte Cons by (simp add: next_event.simps)
        from str [OF this] Cons show ?thesis by (auto simp: breaks_off_def split: option.splits)
      next
        case 4
        then have "esc_event s = (e, r)" using assms esc_byte Cons by (simp add: next_event.simps del: string_intro.simps)
        from esc [OF this] show ?thesis by (auto split: option.splits)
      qed
    qed
  next
    case False
    then show ?thesis
      using assms take_drop_While [of text_byte s]
      by (auto simp: next_event.simps breaks_off_def Let_def split: if_splits)
  qed
qed

lemma events_tiling:
  "let es = parse_escapes bytes; total = sum_list (map event_byte_length es) in
     list_all (\<lambda>e. 0 < event_byte_length e) es \<and> total \<le> length bytes
     \<and> \<not> list_ex breaks_off (butlast es)
     \<and> (total = length bytes \<or> es \<noteq> [] \<and> breaks_off (last es))"
proof (induction bytes rule: parse_escapes.induct)
  case (1 bytes)
  show ?case
  proof (cases bytes)
    case Nil
    then show ?thesis by (simp add: parse_escapes.simps Let_def)
  next
    case (Cons b s)
    obtain e r where n: "next_event b s = (e, r)" by fastforce
    show ?thesis
    proof (cases r)
      case None
      then have "parse_escapes bytes = [e]" using n Cons by (subst parse_escapes.simps) simp
      then show ?thesis using next_event_length [OF n] None Cons by (auto simp: Let_def)
    next
      case (Some rest)
      then have p: "parse_escapes bytes = e # parse_escapes rest" using n Cons by (subst parse_escapes.simps) simp
      show ?thesis
        using "1.IH" [OF Cons n [symmetric] Some] next_event_length [OF n] Some Cons p
        by (auto simp: Let_def)
    qed
  qed
qed

text \<open>
  The events of a byte run tile it from its first byte: none is empty, their lengths never add
  up to more than the run, and add up to all of it unless the last event is one that broke off;
  only the last can.
\<close>

theorem events_tile:
  "let es = parse_escapes bytes; total = sum_list (map event_byte_length es) in
     list_all (\<lambda>e. 0 < event_byte_length e) es \<and> total \<le> length bytes
     \<and> \<not> list_ex breaks_off (butlast es)
     \<and> (total = length bytes \<or> es \<noteq> [] \<and> breaks_off (last es))"
  by (rule events_tiling)

lemma interrupted_parse:
  "parse_escapes ([CHR 0x1B, CHR 0x5B, CHR ''1'', CHR 0x07] @ rest) = [IncompleteEvent ''ESC [ 1'' 3]"
  by (subst parse_escapes.simps)
     (simp add: next_event.simps csi_event_def param_byte_def intermediate_byte_def final_byte_def Let_def)

text \<open>
  A control sequence that is interrupted ends the classification, wherever it stands: after
  \<open>ESC [ 1 BEL\<close>, which a terminal executes and goes on, nothing of the rest of the run, however
  long, is in any event.
\<close>

theorem interrupted_sequence_hides_rest:
  "parse_escapes ([CHR 0x1B, CHR 0x5B, CHR ''1'', CHR 0x07] @ rest) = [IncompleteEvent ''ESC [ 1'' 3]"
  by (rule interrupted_parse)

text \<open>
  The payload of a device control string, an application command, a privacy message or a
  string is cut like an OSC: all of it up to its first semicolon is lost, and without one the
  payload is empty.
\<close>

theorem string_payload_cut:
  assumes "list_all (\<lambda>c. code_of c \<notin> {0x07, 0x1B, 0x3B}) body"
  shows "parse_escapes ([CHR 0x1B, CHR ''P''] @ body @ [CHR 0x07]) = [StringEvent DcsString [] BelTerminator (length body + 3)]"
proof -
  have scan: "scan_body (body @ [CHR 0x07]) = (body, BelTerminator, [])"
    using assms by (induction body) auto
  have "CHR '';'' \<notin> set body" using assms by (auto simp: list_all_iff)
  then have payload: "body_payload body = []" by (induction body) (auto simp: body_payload_def)
  have "next_event (CHR 0x1B) ([CHR ''P''] @ body @ [CHR 0x07])
      = (StringEvent DcsString [] BelTerminator (length body + 3), Some [])"
    using scan payload by (simp add: next_event.simps string_event_def Let_def)
  then show ?thesis
    by (subst parse_escapes.simps) (simp add: parse_escapes_Nil)
qed

lemma string_payload_cut_witness:
  "parse_escapes [CHR 0x1B, CHR ''P'', CHR ''q'', CHR ''!'', CHR 0x07] = [StringEvent DcsString [] BelTerminator 5]"
  using string_payload_cut [of "''q!''"] by simp

end
