(* ===== verification/Recordings.thy ===== *)
theory Recordings
  imports Complex_Main Prelude "HOL-Library.Multiset"
begin

section \<open>Recordings\<close>

text \<open>
  The history engines of \<open>examples/web-multiplexer/web/\<close>: the byte log of a capture session
  (\<open>session-recording-engine.ts\<close>), the unified axis of scrollback and recorded time
  (\<open>scrollback-engine.ts\<close>) and playback in lockstep (\<open>sync-engine.ts\<close>). Bytes are a string, times and
  fractions exact rationals, a Map of seeds a list in insertion order.
\<close>

subsection \<open>The byte log\<close>

record recorded_geometry =
  geoCols :: nat
  geoRows :: nat

record recorded_chunk =
  chunkPane :: nat
  chunkMs :: rat
  chunkBytes :: string

record recorded_pane =
  recPane :: nat
  byteCount :: nat
  chunkCount :: nat
  recGeometry :: "recorded_geometry option"

record recording =
  recChunks :: "recorded_chunk list"
  durationMs :: rat
  recPanes :: "recorded_pane list"

definition EMPTY_RECORDING :: recording where
  "EMPTY_RECORDING = \<lparr>recChunks = [], durationMs = 0, recPanes = []\<rparr>"

record recording_pass =
  passDuration :: rat
  passOrder :: "nat list"
  passBytes :: "(nat \<times> nat) list"
  passChunks :: "(nat \<times> nat) list"

definition count_of :: "(nat \<times> nat) list \<Rightarrow> nat \<Rightarrow> nat" where
  "count_of m k = (case map_of m k of None \<Rightarrow> 0 | Some n \<Rightarrow> n)"

definition record_chunk :: "recording_pass \<Rightarrow> recorded_chunk \<Rightarrow> recording_pass" where
  "record_chunk r c =
     (let p = chunkPane c;
          r1 = (if passDuration r < chunkMs c then r\<lparr>passDuration := chunkMs c\<rparr> else r);
          r2 = (if map_of (passBytes r1) p = None
                then r1\<lparr>passOrder := passOrder r1 @ [p], passBytes := AList.update p 0 (passBytes r1),
                        passChunks := AList.update p 0 (passChunks r1)\<rparr>
                else r1)
      in r2\<lparr>passBytes := AList.update p (count_of (passBytes r2) p + length (chunkBytes c)) (passBytes r2),
            passChunks := AList.update p (count_of (passChunks r2) p + 1) (passChunks r2)\<rparr>)"

definition build_recording :: "recorded_chunk list \<Rightarrow> (nat \<times> recorded_geometry) list \<Rightarrow> recording" where
  "build_recording chunks geometry =
     (let r = foldl record_chunk \<lparr>passDuration = 0, passOrder = [], passBytes = [], passChunks = []\<rparr> chunks in
      \<lparr>recChunks = chunks, durationMs = passDuration r,
       recPanes = map (\<lambda>p. \<lparr>recPane = p, byteCount = count_of (passBytes r) p, chunkCount = count_of (passChunks r) p,
                           recGeometry = map_of geometry p\<rparr>) (passOrder r)\<rparr>)"

definition bytes_where :: "(recorded_chunk \<Rightarrow> bool) \<Rightarrow> recording \<Rightarrow> string" where
  "bytes_where P rec = concat (map chunkBytes (filter P (recChunks rec)))"

definition bytes_up_to :: "recording \<Rightarrow> nat \<Rightarrow> rat \<Rightarrow> string" where
  "bytes_up_to rec p toMs = bytes_where (\<lambda>c. chunkPane c = p \<and> chunkMs c \<le> toMs) rec"

definition bytes_between :: "recording \<Rightarrow> nat \<Rightarrow> rat \<Rightarrow> rat \<Rightarrow> string" where
  "bytes_between rec p fromMs toMs =
     bytes_where (\<lambda>c. chunkPane c = p \<and> fromMs < chunkMs c \<and> chunkMs c \<le> toMs) rec"

definition pane_stream_bytes :: "recording \<Rightarrow> nat \<Rightarrow> string" where
  "pane_stream_bytes rec p = bytes_where (\<lambda>c. chunkPane c = p) rec"

record stream_location =
  locChunk :: nat
  locMs :: rat
  locOffset :: nat

fun locate_from :: "recorded_chunk list \<Rightarrow> nat \<Rightarrow> nat \<Rightarrow> nat \<Rightarrow> nat \<Rightarrow> stream_location option" where
  "locate_from [] p byteOffset consumed i = None"
| "locate_from (c # cs) p byteOffset consumed i =
     (if chunkPane c \<noteq> p then locate_from cs p byteOffset consumed i
      else if byteOffset < consumed + length (chunkBytes c)
      then Some \<lparr>locChunk = i, locMs = chunkMs c, locOffset = byteOffset - consumed\<rparr>
      else locate_from cs p byteOffset (consumed + length (chunkBytes c)) (i + 1))"

definition locate_offset :: "recording \<Rightarrow> nat \<Rightarrow> int \<Rightarrow> stream_location option" where
  "locate_offset rec p byteOffset =
     (if byteOffset < 0 then None else locate_from (recChunks rec) p (nat byteOffset) 0 0)"

text \<open>The bin of a chunk; the right edge falls in the last one.\<close>

definition bin_of :: "recording \<Rightarrow> nat \<Rightarrow> recorded_chunk \<Rightarrow> nat" where
  "bin_of rec n c = nat (min (int n - 1) \<lfloor>chunkMs c / durationMs rec * of_nat n\<rfloor>)"

definition activity_histogram :: "recording \<Rightarrow> nat \<Rightarrow> int \<Rightarrow> nat list" where
  "activity_histogram rec p bucketCount =
     (if bucketCount \<le> 0 then []
      else
        let n = nat bucketCount; bins = replicate n 0 in
        if durationMs rec \<le> 0 then bins
        else foldl (\<lambda>bs c. let i = bin_of rec n c in bs[i := bs ! i + length (chunkBytes c)]) bins
               (filter (\<lambda>c. chunkPane c = p) (recChunks rec)))"

fun busiest_from :: "recorded_pane option \<Rightarrow> recorded_pane list \<Rightarrow> recorded_pane option" where
  "busiest_from best [] = best"
| "busiest_from best (p # ps) =
     busiest_from (case best of None \<Rightarrow> Some p | Some b \<Rightarrow> if byteCount b < byteCount p then Some p else best) ps"

definition busiest_pane :: "recording \<Rightarrow> nat option" where
  "busiest_pane rec = map_option recPane (busiest_from None (recPanes rec))"

subsection \<open>Scrollback and recorded time\<close>

record scrollback_snapshot =
  snapPane :: nat
  snapGeometry :: recorded_geometry
  snapLines :: "string list"

datatype moment = HistoryMoment nat | LiveMoment rat

record timeline =
  tlSnapshot :: scrollback_snapshot
  tlRecording :: recording
  tlPane :: nat
  tlDuration :: rat

definition parse_capture_reply :: "string list \<Rightarrow> recorded_geometry \<Rightarrow> nat \<Rightarrow> scrollback_snapshot" where
  "parse_capture_reply replyLines geometry p = \<lparr>snapPane = p, snapGeometry = geometry, snapLines = replyLines\<rparr>"

definition CLEAR :: string where
  "CLEAR = [CHR 0x1B] @ ''[0m'' @ [CHR 0x1B] @ ''[H'' @ [CHR 0x1B] @ ''[2J''"

definition ROW_END :: string where
  "ROW_END = [CHR 0x0D, CHR 0x0A]"

definition history_depth :: "scrollback_snapshot \<Rightarrow> nat" where
  "history_depth snap = length (snapLines snap) - geoRows (snapGeometry snap)"

definition split_fraction :: "timeline \<Rightarrow> rat" where
  "split_fraction line =
     (let hasHistory = 0 < history_depth (tlSnapshot line); hasLive = 0 < tlDuration line in
      if hasHistory \<and> hasLive then 1 / 2 else if hasHistory then 1 else 0)"

text \<open>\<open>Math.round\<close>: halves go up.\<close>

definition js_round :: "rat \<Rightarrow> int" where
  "js_round x = \<lfloor>x + 1 / 2\<rfloor>"

definition resolve_moment :: "rat \<Rightarrow> timeline \<Rightarrow> moment" where
  "resolve_moment fr line =
     (let f = max 0 (min 1 fr); split = split_fraction line; depth = history_depth (tlSnapshot line) in
      if 0 < split \<and> f \<le> split then HistoryMoment (nat (js_round (f / split * of_nat depth)))
      else
        let span = 1 - split; localFrac = (if span \<le> 0 then 1 else (f - split) / span)
        in LiveMoment (localFrac * tlDuration line))"

definition seed_bytes :: "scrollback_snapshot \<Rightarrow> string" where
  "seed_bytes snap = join_with ROW_END (drop (history_depth snap) (snapLines snap))"

definition seeded_paint :: "scrollback_snapshot \<Rightarrow> string \<Rightarrow> string" where
  "seeded_paint snap forward = CLEAR @ seed_bytes snap @ forward"

fun moment_bytes :: "moment \<Rightarrow> timeline \<Rightarrow> string" where
  "moment_bytes (HistoryMoment topLine) line =
     CLEAR @ join_with ROW_END (take (geoRows (snapGeometry (tlSnapshot line))) (drop topLine (snapLines (tlSnapshot line))))"
| "moment_bytes (LiveMoment t) line = seeded_paint (tlSnapshot line) (bytes_up_to (tlRecording line) (tlPane line) t)"

subsection \<open>Lockstep\<close>

record sync_group =
  syncRecording :: recording
  syncSnapshots :: "(nat \<times> scrollback_snapshot) list"
  syncLinked :: "nat list"

definition group_duration :: "sync_group \<Rightarrow> rat" where
  "group_duration g = durationMs (syncRecording g)"

definition build_timeline :: "sync_group \<Rightarrow> nat \<Rightarrow> scrollback_snapshot \<Rightarrow> timeline" where
  "build_timeline g p snap =
     \<lparr>tlSnapshot = snap, tlRecording = syncRecording g, tlPane = p, tlDuration = durationMs (syncRecording g)\<rparr>"

definition timeline_for :: "sync_group \<Rightarrow> nat \<Rightarrow> timeline option" where
  "timeline_for g p = map_option (build_timeline g p) (map_of (syncSnapshots g) p)"

definition linkable_panes :: "sync_group \<Rightarrow> nat list" where
  "linkable_panes g = map fst (syncSnapshots g)"

definition linked_timelines :: "sync_group \<Rightarrow> timeline list" where
  "linked_timelines g =
     map (\<lambda>(p, snap). build_timeline g p snap) (filter (\<lambda>(p, snap). p \<in> set (syncLinked g)) (syncSnapshots g))"

definition cursor_ms :: "rat \<Rightarrow> rat \<Rightarrow> rat" where
  "cursor_ms fr duration = max 0 (min 1 fr) * max 0 duration"

definition cursor_frac :: "rat \<Rightarrow> rat \<Rightarrow> rat" where
  "cursor_frac t duration = (if duration \<le> 0 then 0 else max 0 (min 1 (t / duration)))"

definition paint_at :: "timeline \<Rightarrow> rat \<Rightarrow> string" where
  "paint_at line t = moment_bytes (LiveMoment t) line"

definition forward_delta :: "timeline \<Rightarrow> rat \<Rightarrow> rat \<Rightarrow> string" where
  "forward_delta line fromMs toMs = bytes_between (tlRecording line) (tlPane line) fromMs toMs"

datatype paint_op = Advance string | Repaint string

definition paint_op_for :: "timeline \<Rightarrow> rat option \<Rightarrow> rat \<Rightarrow> paint_op" where
  "paint_op_for line renderedMs cursorMs =
     (case renderedMs of
        None \<Rightarrow> Repaint (paint_at line cursorMs)
      | Some r \<Rightarrow> if r \<le> cursorMs then Advance (forward_delta line r cursorMs) else Repaint (paint_at line cursorMs))"

definition sync_frame :: "sync_group \<Rightarrow> rat \<Rightarrow> (nat \<times> string) list" where
  "sync_frame g t = map (\<lambda>line. (tlPane line, paint_at line t)) (linked_timelines g)"

definition add_bins :: "nat list \<Rightarrow> nat list \<Rightarrow> nat list" where
  "add_bins bins h = map2 (+) bins (take (length bins) (h @ replicate (length bins) 0))"

definition linked_activity :: "sync_group \<Rightarrow> int \<Rightarrow> nat list" where
  "linked_activity g bucketCount =
     (if bucketCount \<le> 0 then []
      else foldl (\<lambda>bins p. add_bins bins (activity_histogram (syncRecording g) p bucketCount))
             (replicate (nat bucketCount) 0) (syncLinked g))"

subsection \<open>Playback\<close>

lemma sorted_cut:
  assumes "sorted (map f cs)" and "(a::rat) \<le> b"
  shows "filter (\<lambda>c. f c \<le> a) cs @ filter (\<lambda>c. a < f c \<and> f c \<le> b) cs = filter (\<lambda>c. f c \<le> b) cs"
  using assms(1)
proof (induction cs)
  case (Cons c cs)
  show ?case
  proof (cases "f c \<le> a")
    case True
    then show ?thesis using Cons assms(2) by auto
  next
    case False
    then have "\<forall>x\<in>set cs. a < f x" using Cons.prems by auto
    then have "filter (\<lambda>c. f c \<le> a) cs = []" by (auto simp: filter_empty_conv)
    then show ?thesis using Cons False by auto
  qed
qed simp

text \<open>One clock stamps the chunks of a pane.\<close>

definition in_order :: "recording \<Rightarrow> nat \<Rightarrow> bool" where
  "in_order rec p \<longleftrightarrow> sorted (map chunkMs (filter (\<lambda>c. chunkPane c = p) (recChunks rec)))"

lemma bytes_split:
  assumes "in_order rec p" and "a \<le> b"
  shows "bytes_up_to rec p a @ bytes_between rec p a b = bytes_up_to rec p b"
proof -
  let ?cs = "filter (\<lambda>c. chunkPane c = p) (recChunks rec)"
  have f: "bytes_where (\<lambda>c. chunkPane c = p \<and> Q c) rec = concat (map chunkBytes (filter Q ?cs))" for Q
    by (simp add: bytes_where_def conj_commute)
  have cut: "filter (\<lambda>c. chunkMs c \<le> a) ?cs @ filter (\<lambda>c. a < chunkMs c \<and> chunkMs c \<le> b) ?cs =
      filter (\<lambda>c. chunkMs c \<le> b) ?cs"
    using assms by (intro sorted_cut) (simp_all add: in_order_def)
  show ?thesis
    unfolding bytes_up_to_def bytes_between_def f
    by (simp only: concat_append [symmetric] map_append [symmetric] cut)
qed

text \<open>A surface that applies the paint operations: an advance writes on, a repaint clears and writes.\<close>

definition apply_paint :: "string \<Rightarrow> paint_op \<Rightarrow> string" where
  "apply_paint screen op = (case op of Advance bs \<Rightarrow> screen @ bs | Repaint bs \<Rightarrow> bs)"

definition move_cursor :: "timeline \<Rightarrow> rat option \<times> string \<Rightarrow> rat \<Rightarrow> rat option \<times> string" where
  "move_cursor line surface t = (Some t, apply_paint (snd surface) (paint_op_for line (fst surface) t))"

lemma move_shows:
  assumes "in_order (tlRecording line) (tlPane line)"
    and "fst surface = None \<or> (\<exists>r. surface = (Some r, paint_at line r))"
  shows "move_cursor line surface t = (Some t, paint_at line t)"
proof -
  have "paint_at line r @ forward_delta line r t = paint_at line t" if "r \<le> t" for r
    using bytes_split [OF assms(1) that] by (simp add: paint_at_def forward_delta_def seeded_paint_def)
  then show ?thesis
    using assms(2) by (auto simp: move_cursor_def paint_op_for_def apply_paint_def split: option.splits)
qed

text \<open>
  C39. Scrubbing is faithful: however the shared cursor moves, forwards and back, every surface in
  lockstep holds after each move exactly the bytes of a fresh reconstruction of its pane at
  that instant, and together they are the synchronized frame of that instant.
\<close>

theorem scrubbing_is_faithful:
  assumes "\<forall>p\<in>set (syncLinked g). in_order (syncRecording g) p"
  shows "map (\<lambda>line. (tlPane line, foldl (move_cursor line) (None, []) (ts @ [t]))) (linked_timelines g) =
    map (\<lambda>(p, bytes). (p, (Some t, bytes))) (sync_frame g t)"
proof -
  have "foldl (move_cursor line) (None, []) (ts @ [t]) = (Some t, paint_at line t)"
    if "line \<in> set (linked_timelines g)" for line
  proof -
    have o: "in_order (tlRecording line) (tlPane line)"
      using that assms by (auto simp: linked_timelines_def build_timeline_def)
    have "foldl (move_cursor line) (None, []) ts = (None, []) \<or>
        (\<exists>r. foldl (move_cursor line) (None, []) ts = (Some r, paint_at line r))"
      by (induction ts rule: rev_induct) (auto simp: move_shows [OF o])
    then show ?thesis using move_shows [OF o] by auto
  qed
  then show ?thesis by (simp add: sync_frame_def)
qed

definition two_chunks :: recording where
  "two_chunks = build_recording [\<lparr>chunkPane = 7, chunkMs = 1, chunkBytes = ''a''\<rparr>, \<lparr>chunkPane = 7, chunkMs = 3, chunkBytes = ''b''\<rparr>] []"

lemma scrubbing_is_faithful_witness:
  "let g = \<lparr>syncRecording = two_chunks,
            syncSnapshots = [(7, \<lparr>snapPane = 7, snapGeometry = \<lparr>geoCols = 2, geoRows = 1\<rparr>, snapLines = [''$'']\<rparr>)],
            syncLinked = [7]\<rparr> in
   map (\<lambda>line. (tlPane line, foldl (move_cursor line) (None, []) ([1, 4] @ [2]))) (linked_timelines g) =
   map (\<lambda>(p, bytes). (p, (Some 2, bytes))) (sync_frame g 2)"
proof -
  let ?g = "\<lparr>syncRecording = two_chunks,
            syncSnapshots = [(7, \<lparr>snapPane = 7, snapGeometry = \<lparr>geoCols = 2, geoRows = 1\<rparr>, snapLines = [''$'']\<rparr>)],
            syncLinked = [7]\<rparr>"
  have "\<forall>p\<in>set (syncLinked ?g). in_order (syncRecording ?g) p"
    by (simp add: two_chunks_def build_recording_def record_chunk_def in_order_def Let_def)
  from scrubbing_is_faithful [OF this, of "[1, 4]" 2] show ?thesis by (simp add: Let_def)
qed

subsection \<open>Aggregates\<close>

lemma count_of_update [simp]: "count_of (AList.update k v m) j = (if j = k then v else count_of m j)"
  by (simp add: count_of_def)

definition pass_of :: "recorded_chunk list \<Rightarrow> recording_pass \<Rightarrow> bool" where
  "pass_of cs r \<longleftrightarrow>
     passOrder r = set_of_list (map chunkPane cs)
     \<and> (\<forall>p. map_of (passBytes r) p = None \<longleftrightarrow> p \<notin> set (passOrder r))
     \<and> (\<forall>p. count_of (passBytes r) p = length (concat (map chunkBytes (filter (\<lambda>c. chunkPane c = p) cs))))
     \<and> (\<forall>p. count_of (passChunks r) p = length (filter (\<lambda>c. chunkPane c = p) cs))
     \<and> 0 \<le> passDuration r \<and> (\<forall>c\<in>set cs. chunkMs c \<le> passDuration r)
     \<and> (passDuration r = 0 \<or> passDuration r \<in> chunkMs ` set cs)"

lemma set_of_list_snoc: "set_of_list (xs @ [x]) = set_add x (set_of_list xs)"
  by (simp add: set_of_list_def)

lemma pass_step:
  assumes "pass_of cs r"
  shows "pass_of (cs @ [c]) (record_chunk r c)"
proof -
  let ?p = "chunkPane c"
  have new: "count_of (passBytes r) ?p = 0" "count_of (passChunks r) ?p = 0" if "map_of (passBytes r) ?p = None"
  proof -
    have "?p \<notin> set (passOrder r)" using that assms by (simp add: pass_of_def)
    then have "?p \<notin> chunkPane ` set cs" using assms by (simp add: pass_of_def)
    then have "filter (\<lambda>c. chunkPane c = ?p) cs = []" by (auto simp: filter_empty_conv image_iff)
    then show "count_of (passBytes r) ?p = 0" "count_of (passChunks r) ?p = 0" using assms by (simp_all add: pass_of_def)
  qed
  have n: "map_of (passBytes r) ?p = None \<longleftrightarrow> ?p \<notin> set (passOrder r)" using assms by (simp add: pass_of_def)
  show ?thesis
  proof (cases "map_of (passBytes r) ?p")
    case None
    then show ?thesis
      using assms n new [OF None]
      by (auto simp: pass_of_def record_chunk_def Let_def set_of_list_snoc set_add_def)
  next
    case (Some k)
    then have "?p \<in> set (passOrder r)" using n by simp
    then show ?thesis
      using assms Some
      by (auto simp: pass_of_def record_chunk_def Let_def set_of_list_snoc set_add_def)
  qed
qed

lemma pass_run: "pass_of cs (foldl record_chunk \<lparr>passDuration = 0, passOrder = [], passBytes = [], passChunks = []\<rparr> cs)"
proof (induction cs rule: rev_induct)
  case Nil
  show ?case by (simp add: pass_of_def count_of_def set_of_list_def)
next
  case (snoc c cs)
  then show ?case using pass_step by simp
qed

text \<open>
  The aggregates of a recording are those of its chunk log: the panes in order of first
  appearance, each once, with the length of its byte stream and the number of its chunks, and a
  duration no chunk exceeds and the last one reaches.
\<close>

theorem aggregates_exact:
  "let rec = build_recording chunks geometry in
     map recPane (recPanes rec) = set_of_list (map chunkPane chunks)
     \<and> map byteCount (recPanes rec) = map (\<lambda>p. length (pane_stream_bytes rec p)) (map recPane (recPanes rec))
     \<and> map chunkCount (recPanes rec) = map (\<lambda>p. length (filter (\<lambda>c. chunkPane c = p) chunks)) (map recPane (recPanes rec))
     \<and> durationMs rec = Max (insert 0 (chunkMs ` set chunks))"
proof -
  let ?r = "foldl record_chunk \<lparr>passDuration = 0, passOrder = [], passBytes = [], passChunks = []\<rparr> chunks"
  have p: "pass_of chunks ?r" by (rule pass_run)
  then have "passDuration ?r = Max (insert 0 (chunkMs ` set chunks))"
    by (intro Max_eqI [symmetric]) (auto simp: pass_of_def)
  then show ?thesis
    using p by (simp add: build_recording_def pass_of_def pane_stream_bytes_def bytes_where_def comp_def Let_def)
qed

lemma locate_from_spec:
  assumes "locate_from cs p n consumed i = Some loc" and "consumed \<le> n"
  shows "\<exists>j. locChunk loc = i + j \<and> j < length (filter (\<lambda>c. chunkPane c = p) cs)
    \<and> locMs loc = chunkMs (filter (\<lambda>c. chunkPane c = p) cs ! j)
    \<and> locOffset loc < length (chunkBytes (filter (\<lambda>c. chunkPane c = p) cs ! j))
    \<and> n = consumed + length (concat (map chunkBytes (take j (filter (\<lambda>c. chunkPane c = p) cs)))) + locOffset loc"
  using assms
proof (induction cs arbitrary: consumed i)
  case (Cons c cs)
  show ?case
  proof (cases "chunkPane c = p \<and> consumed + length (chunkBytes c) \<le> n")
    case True
    from Cons.IH [of "consumed + length (chunkBytes c)" "i + 1"] Cons.prems True
    obtain j where "locChunk loc = i + 1 + j \<and> j < length (filter (\<lambda>c. chunkPane c = p) cs)
      \<and> locMs loc = chunkMs (filter (\<lambda>c. chunkPane c = p) cs ! j)
      \<and> locOffset loc < length (chunkBytes (filter (\<lambda>c. chunkPane c = p) cs ! j))
      \<and> n = consumed + length (chunkBytes c) + length (concat (map chunkBytes (take j (filter (\<lambda>c. chunkPane c = p) cs))))
            + locOffset loc"
      by auto
    then show ?thesis using True by (intro exI [of _ "Suc j"]) simp
  next
    case False
    show ?thesis
    proof (cases "chunkPane c = p")
      case True
      then show ?thesis using Cons.prems False by (intro exI [of _ 0]) auto
    next
      case False
      then show ?thesis using Cons by simp
    qed
  qed
qed simp

lemma locate_from_None:
  "locate_from cs p n consumed i = None \<Longrightarrow> consumed \<le> n \<Longrightarrow>
     consumed + length (concat (map chunkBytes (filter (\<lambda>c. chunkPane c = p) cs))) \<le> n"
proof (induction cs arbitrary: consumed i)
  case (Cons c cs)
  then show ?case by (fastforce split: if_splits)
qed simp

text \<open>
  Every byte of a pane's stream is found, and nothing else is: an offset outside the stream
  has no location, and one inside has the chunk, its time and the place in it that hold exactly
  the byte the stream has there.
\<close>

theorem located_byte_exact:
  "case locate_offset rec p n of
     None \<Rightarrow> n < 0 \<or> int (length (pane_stream_bytes rec p)) \<le> n
   | Some loc \<Rightarrow>
       0 \<le> n \<and> n < int (length (pane_stream_bytes rec p))
       \<and> (let c = filter (\<lambda>c. chunkPane c = p) (recChunks rec) ! locChunk loc in
            locMs loc = chunkMs c \<and> locOffset loc < length (chunkBytes c)
            \<and> pane_stream_bytes rec p ! nat n = chunkBytes c ! locOffset loc)"
proof (cases "locate_offset rec p n")
  case None
  then show ?thesis
    using locate_from_None [of "recChunks rec" p "nat n" 0 0]
    by (auto simp: locate_offset_def pane_stream_bytes_def bytes_where_def split: if_splits)
next
  case (Some loc)
  let ?cs = "filter (\<lambda>c. chunkPane c = p) (recChunks rec)"
  have n: "0 \<le> n" and l: "locate_from (recChunks rec) p (nat n) 0 0 = Some loc"
    using Some by (simp_all add: locate_offset_def split: if_splits)
  let ?j = "locChunk loc"
  have j: "?j < length ?cs" "locMs loc = chunkMs (?cs ! ?j)" "locOffset loc < length (chunkBytes (?cs ! ?j))"
    "nat n = length (concat (map chunkBytes (take ?j ?cs))) + locOffset loc"
    using locate_from_spec [OF l] by auto
  have "pane_stream_bytes rec p =
      concat (map chunkBytes (take ?j ?cs)) @ chunkBytes (?cs ! ?j) @ concat (map chunkBytes (drop (Suc ?j) ?cs))"
    unfolding pane_stream_bytes_def bytes_where_def by (subst id_take_nth_drop [OF j(1)]) simp
  then show ?thesis using Some n j by (simp add: nth_append Let_def)
qed

subsection \<open>Activity\<close>

lemma sum_list_update_nat: "i < length bs \<Longrightarrow> sum_list (bs[i := bs ! i + k]) = sum_list bs + (k :: nat)"
  by (induction bs arbitrary: i) (auto split: nat.splits)

lemma bin_in_range: "0 < n \<Longrightarrow> bin_of rec n c < n"
  by (auto simp: bin_of_def)

lemma fill_bins:
  assumes "0 < n" and "length bs = n"
  shows "length (foldl (\<lambda>bs c. let i = bin_of rec n c in bs[i := bs ! i + length (chunkBytes c)]) bs cs) = n"
    and "sum_list (foldl (\<lambda>bs c. let i = bin_of rec n c in bs[i := bs ! i + length (chunkBytes c)]) bs cs) =
      sum_list bs + length (concat (map chunkBytes cs))"
proof -
  have "length (foldl (\<lambda>bs c. let i = bin_of rec n c in bs[i := bs ! i + length (chunkBytes c)]) bs cs) = n \<and>
      sum_list (foldl (\<lambda>bs c. let i = bin_of rec n c in bs[i := bs ! i + length (chunkBytes c)]) bs cs) =
      sum_list bs + length (concat (map chunkBytes cs))"
    using assms(2)
    by (induction cs arbitrary: bs) (simp_all add: Let_def sum_list_update_nat bin_in_range assms(1))
  then show "length (foldl (\<lambda>bs c. let i = bin_of rec n c in bs[i := bs ! i + length (chunkBytes c)]) bs cs) = n"
    "sum_list (foldl (\<lambda>bs c. let i = bin_of rec n c in bs[i := bs ! i + length (chunkBytes c)]) bs cs) =
      sum_list bs + length (concat (map chunkBytes cs))"
    by simp_all
qed

lemma histogram_length: "length (activity_histogram rec p n) = nat n"
  using fill_bins(1) [of "nat n"] by (simp add: activity_histogram_def Let_def)

lemma histogram_total:
  "0 < n \<Longrightarrow> 0 < durationMs rec \<Longrightarrow> sum_list (activity_histogram rec p n) = length (pane_stream_bytes rec p)"
  using fill_bins(2) [of "nat n" "replicate (nat n) 0"]
  by (simp add: activity_histogram_def Let_def pane_stream_bytes_def bytes_where_def sum_list_replicate)

lemma add_bins_total: "length h = length bins \<Longrightarrow> sum_list (add_bins bins h) = sum_list bins + sum_list h \<and> length (add_bins bins h) = length bins"
proof -
  assume "length h = length bins"
  then show ?thesis unfolding add_bins_def by (induction h bins rule: list_induct2) auto
qed

text \<open>
  No activity is lost: with a positive number of bins and a recording that lasts, the bins of
  the linked panes together hold every byte those panes printed.
\<close>

theorem activity_complete:
  assumes "0 < n" and "0 < durationMs (syncRecording g)"
  shows "sum_list (linked_activity g n) = (\<Sum>p\<leftarrow>syncLinked g. length (pane_stream_bytes (syncRecording g) p))"
proof -
  have "sum_list (foldl (\<lambda>bins p. add_bins bins (activity_histogram (syncRecording g) p n)) bs ps) =
      sum_list bs + (\<Sum>p\<leftarrow>ps. length (pane_stream_bytes (syncRecording g) p))" if "length bs = nat n" for bs ps
    using that
    by (induction ps arbitrary: bs) (simp_all add: add_bins_total histogram_length histogram_total assms)
  from this [of "replicate (nat n) 0" "syncLinked g"] show ?thesis
    using assms(1) by (simp add: linked_activity_def sum_list_replicate)
qed

lemma activity_complete_witness:
  "sum_list (linked_activity \<lparr>syncRecording = two_chunks, syncSnapshots = [], syncLinked = [7]\<rparr> 4) = 2"
proof -
  have "durationMs two_chunks = 3" "pane_stream_bytes two_chunks 7 = ''ab''" by code_simp+
  then show ?thesis
    using activity_complete [of 4 "\<lparr>syncRecording = two_chunks, syncSnapshots = [], syncLinked = [7]\<rparr>"] by simp
qed

subsection \<open>The seam of history and time\<close>

lemma split_values: "split_fraction line = 0 \<or> split_fraction line = 1 / 2 \<or> split_fraction line = 1"
  by (simp add: split_fraction_def Let_def)

lemma rounded_row: "0 \<le> x \<Longrightarrow> x \<le> 1 \<Longrightarrow> nat (js_round (x * of_nat d)) \<le> d"
proof -
  assume x: "0 \<le> x" "x \<le> 1"
  then have "x * of_nat d \<le> 1 * (of_nat d :: rat)" by (intro mult_right_mono) simp_all
  then have "x * of_nat d + 1 / 2 < of_int (int d + 1)" by simp
  then have "\<lfloor>x * of_nat d + 1 / 2\<rfloor> \<le> int d" unfolding floor_le_iff by simp
  then show ?thesis by (simp add: js_round_def)
qed

lemma live_share:
  assumes "s < (1::rat)" and "s \<le> f" and "f \<le> 1" and "0 \<le> d"
  shows "0 \<le> (f - s) / (1 - s) * d" and "(f - s) / (1 - s) * d \<le> d"
proof -
  have q: "0 \<le> (f - s) / (1 - s)" "(f - s) / (1 - s) \<le> 1" using assms(1-3) by simp_all
  show "0 \<le> (f - s) / (1 - s) * d" using q(1) assms(4) by (rule mult_nonneg_nonneg)
  show "(f - s) / (1 - s) * d \<le> d" using mult_right_mono [OF q(2) assms(4)] by simp
qed

text \<open>
  The two regimes meet: the scrollback rows an axis position selects are always within the
  capture, and at its lower end, where history becomes recorded time, the window of rows is the
  screen the recording starts from, so nothing jumps.
\<close>

theorem regimes_meet:
  "(case resolve_moment fr line of
      HistoryMoment row \<Rightarrow> row \<le> history_depth (tlSnapshot line)
    | LiveMoment t \<Rightarrow> 0 \<le> tlDuration line \<longrightarrow> 0 \<le> t \<and> t \<le> tlDuration line)
   \<and> (0 < split_fraction line \<longrightarrow>
        resolve_moment (split_fraction line) line = HistoryMoment (history_depth (tlSnapshot line)))
   \<and> moment_bytes (HistoryMoment (history_depth (tlSnapshot line))) line = seeded_paint (tlSnapshot line) []"
proof (intro conjI)
  let ?f = "max 0 (min 1 fr)" and ?s = "split_fraction line"
  show "case resolve_moment fr line of
      HistoryMoment row \<Rightarrow> row \<le> history_depth (tlSnapshot line)
    | LiveMoment t \<Rightarrow> 0 \<le> tlDuration line \<longrightarrow> 0 \<le> t \<and> t \<le> tlDuration line"
  proof (cases "0 < ?s \<and> ?f \<le> ?s")
    case True
    then have "0 \<le> ?f / ?s" "?f / ?s \<le> 1" by simp_all
    from rounded_row [OF this, of "history_depth (tlSnapshot line)"] show ?thesis
      using True by (simp add: resolve_moment_def Let_def del: times_divide_eq_left)
  next
    case False
    then have sf: "?s < 1" "?s \<le> ?f" using split_values [of line] by auto
    moreover have "resolve_moment fr line = LiveMoment ((?f - ?s) / (1 - ?s) * tlDuration line)"
      using False sf by (simp only: resolve_moment_def Let_def if_False) simp
    ultimately show ?thesis using sf live_share [of ?s ?f "tlDuration line"] by simp
  qed
  show "0 < ?s \<longrightarrow> resolve_moment ?s line = HistoryMoment (history_depth (tlSnapshot line))"
  proof -
    have "\<lfloor>(1::rat) / 2\<rfloor> = 0" by (simp add: floor_eq_iff)
    then show ?thesis using split_values [of line] by (auto simp: resolve_moment_def js_round_def Let_def)
  qed
  show "moment_bytes (HistoryMoment (history_depth (tlSnapshot line))) line = seeded_paint (tlSnapshot line) []"
    by (simp add: seeded_paint_def seed_bytes_def history_depth_def)
qed

end
