(* ===== verification/Emulator.thy ===== *)
theory Emulator
  imports Complex_Main EscapeParse Recordings "HOL-Library.Extended_Nat"
begin

section \<open>The attributing emulator\<close>

text \<open>
  \<open>examples/web-multiplexer/web/byte-attribution-engine.ts\<close>: a terminal emulator that records for
  every cell the byte that wrote it. The engine is a record, one byte a function on it; the
  cells are in row-major order as in the source, a grapheme is its code point. A parameter of a
  control sequence has no sign, so a count is a natural number or infinite.
\<close>

subsection \<open>State\<close>

record source_chunk =
  srcId :: nat
  srcMs :: rat
  srcBase :: nat
  srcBytes :: string

record origin =
  orgChunk :: nat
  orgMs :: rat
  orgOffset :: nat
  orgStream :: nat

record pen =
  penFg :: "string option"
  penBg :: "string option"
  penBold :: bool

definition DEFAULT_PEN :: pen where
  "DEFAULT_PEN = \<lparr>penFg = None, penBg = None, penBold = False\<rparr>"

record attributed_cell =
  cellChar :: nat
  cellOrigin :: origin
  cellPen :: pen

record attribution_grid =
  gridCols :: nat
  gridRows :: nat
  cursorRow :: nat
  cursorCol :: nat
  gridCells :: "attributed_cell option list"

datatype emu_mode = MGround | MEsc | MEscInter | MCsi | MString | MStringEsc

record attribution_engine =
  engCols :: nat
  engRows :: nat
  engCells :: "attributed_cell option list"
  engRow :: nat
  engCol :: nat
  wrapPending :: bool
  regionTop :: nat
  regionBottom :: nat
  engPen :: pen
  savedCursor :: "(nat \<times> nat \<times> pen) option"
  engMode :: emu_mode
  csiParams :: string
  csiInter :: string
  utf8Need :: nat
  utf8Cp :: nat
  glyphOrigin :: "origin option"

definition new_engine :: "nat \<Rightarrow> nat \<Rightarrow> attribution_engine" where
  "new_engine cols rows =
     \<lparr>engCols = max 1 cols, engRows = max 1 rows, engCells = replicate (max 1 cols * max 1 rows) None,
      engRow = 0, engCol = 0, wrapPending = False, regionTop = 0, regionBottom = max 1 rows - 1,
      engPen = DEFAULT_PEN, savedCursor = None, engMode = MGround, csiParams = [], csiInter = [],
      utf8Need = 0, utf8Cp = 0, glyphOrigin = None\<rparr>"

definition emu_snapshot :: "attribution_engine \<Rightarrow> attribution_grid" where
  "emu_snapshot e =
     \<lparr>gridCols = engCols e, gridRows = engRows e, cursorRow = engRow e, cursorCol = engCol e, gridCells = engCells e\<rparr>"

subsection \<open>Grid operations\<close>

text \<open>A cell; \<open>undefined\<close> outside the array.\<close>

definition cell_at :: "attribution_engine \<Rightarrow> nat \<Rightarrow> nat \<Rightarrow> attributed_cell option" where
  "cell_at e r c = (let k = r * engCols e + c in if k < length (engCells e) then engCells e ! k else None)"

text \<open>Every cell afresh from its row and column. The loops of the source never read a cell they have written.\<close>

definition redraw :: "(nat \<Rightarrow> nat \<Rightarrow> attributed_cell option) \<Rightarrow> attribution_engine \<Rightarrow> attribution_engine" where
  "redraw g e =
     e\<lparr>engCells := map (\<lambda>k. g (k div engCols e) (k mod engCols e)) [0..<length (engCells e)]\<rparr>"

definition erase_where :: "(nat \<Rightarrow> nat \<Rightarrow> bool) \<Rightarrow> attribution_engine \<Rightarrow> attribution_engine" where
  "erase_where P e = redraw (\<lambda>r c. if P r c then None else cell_at e r c) e"

definition scroll_up :: "attribution_engine \<Rightarrow> attribution_engine" where
  "scroll_up e =
     redraw (\<lambda>r c.
       if regionTop e \<le> r \<and> r < regionBottom e then cell_at e (r + 1) c
       else if r = regionBottom e then None else cell_at e r c) e"

definition scroll_down :: "attribution_engine \<Rightarrow> attribution_engine" where
  "scroll_down e =
     redraw (\<lambda>r c.
       if regionTop e < r \<and> r \<le> regionBottom e then cell_at e (r - 1) c
       else if r = regionTop e then None else cell_at e r c) e"

definition line_feed :: "attribution_engine \<Rightarrow> attribution_engine" where
  "line_feed e =
     (let e1 = e\<lparr>wrapPending := False\<rparr> in
      if engRow e = regionBottom e then scroll_up e1
      else if engRow e < engRows e - 1 then e1\<lparr>engRow := engRow e + 1\<rparr> else e1)"

definition reverse_index :: "attribution_engine \<Rightarrow> attribution_engine" where
  "reverse_index e =
     (let e1 = e\<lparr>wrapPending := False\<rparr> in
      if engRow e = regionTop e then scroll_down e1
      else if 0 < engRow e then e1\<lparr>engRow := engRow e - 1\<rparr> else e1)"

definition reset_screen :: "attribution_engine \<Rightarrow> attribution_engine" where
  "reset_screen e =
     (redraw (\<lambda>r c. None) e)\<lparr>engRow := 0, engCol := 0, wrapPending := False, regionTop := 0,
       regionBottom := engRows e - 1, engPen := DEFAULT_PEN, savedCursor := None\<rparr>"

definition put_glyph :: "nat \<Rightarrow> origin \<Rightarrow> attribution_engine \<Rightarrow> attribution_engine" where
  "put_glyph ch o' e =
     (let e1 = e\<lparr>engCells := (engCells e)[engRow e * engCols e + engCol e :=
                 Some \<lparr>cellChar = ch, cellOrigin = o', cellPen = engPen e\<rparr>]\<rparr>
      in if engCols e \<le> engCol e + 1 then e1\<lparr>wrapPending := True\<rparr> else e1\<lparr>engCol := engCol e + 1\<rparr>)"

definition write_glyph :: "nat \<Rightarrow> origin \<Rightarrow> attribution_engine \<Rightarrow> attribution_engine" where
  "write_glyph ch o' e =
     put_glyph ch o' (if wrapPending e then (line_feed (e\<lparr>engCol := 0\<rparr>))\<lparr>wrapPending := False\<rparr> else e)"

definition move_to :: "nat \<Rightarrow> nat \<Rightarrow> attribution_engine \<Rightarrow> attribution_engine" where
  "move_to r c e = e\<lparr>engRow := r, engCol := c, wrapPending := False\<rparr>"

definition handle_c0 :: "nat \<Rightarrow> attribution_engine \<Rightarrow> attribution_engine" where
  "handle_c0 b e =
     (if b = 0x08 then move_to (engRow e) (engCol e - 1) e
      else if b = 0x09 then move_to (engRow e) (min (engCols e - 1) ((engCol e div 8 + 1) * 8)) e
      else if b = 0x0A \<or> b = 0x0B \<or> b = 0x0C then line_feed e
      else if b = 0x0D then move_to (engRow e) 0 e
      else e)"

subsection \<open>Control sequences\<close>

text \<open>\<open>n1\<close> and \<open>n0\<close>: a parameter as a count, 1 by default and for 0, and as a selector, 0 by default.\<close>

definition param_of :: "nat \<Rightarrow> jsnum list \<Rightarrow> nat \<Rightarrow> enat" where
  "param_of d nums i =
     (if i < length nums
      then (case nums ! i of NaN \<Rightarrow> enat d | Num k \<Rightarrow> enat (if k = 0 then d else nat k) | Infinity \<Rightarrow> \<infinity> | NegInfinity \<Rightarrow> 0)
      else enat d)"

text \<open>Addition bounded above, and subtraction bounded below by 0.\<close>

definition plus_upto :: "nat \<Rightarrow> nat \<Rightarrow> enat \<Rightarrow> nat" where
  "plus_upto m x n = (case n of enat k \<Rightarrow> min m (x + k) | \<infinity> \<Rightarrow> m)"

definition minus_count :: "nat \<Rightarrow> enat \<Rightarrow> nat" where
  "minus_count x n = (case n of enat k \<Rightarrow> x - k | \<infinity> \<Rightarrow> 0)"

definition position_of :: "nat \<Rightarrow> enat \<Rightarrow> nat" where
  "position_of m n = (case n of enat k \<Rightarrow> min (m - 1) (k - 1) | \<infinity> \<Rightarrow> m - 1)"

text \<open>The cell a distance to the left or right, above or below, if that is within the bound.\<close>

definition erase_display :: "enat \<Rightarrow> attribution_engine \<Rightarrow> attribution_engine" where
  "erase_display n e =
     (let cur = engRow e * engCols e + engCol e in
      if n = 0 then erase_where (\<lambda>r c. cur \<le> r * engCols e + c) e
      else if n = 1 then erase_where (\<lambda>r c. r * engCols e + c \<le> cur) e
      else erase_where (\<lambda>r c. True) e)"

definition erase_line :: "enat \<Rightarrow> attribution_engine \<Rightarrow> attribution_engine" where
  "erase_line n e =
     erase_where (\<lambda>r c. r = engRow e \<and> (if n = 0 then engCol e \<le> c else if n = 1 then c \<le> engCol e else True)) e"

definition erase_chars :: "enat \<Rightarrow> attribution_engine \<Rightarrow> attribution_engine" where
  "erase_chars n e =
     erase_where (\<lambda>r c. r = engRow e \<and> engCol e \<le> c \<and> enat c < enat (engCol e) + n) e"

definition insert_chars :: "enat \<Rightarrow> attribution_engine \<Rightarrow> attribution_engine" where
  "insert_chars n e =
     redraw (\<lambda>r c.
       if r = engRow e \<and> engCol e \<le> c
       then (if enat (engCol e) + n \<le> enat c then cell_at e r (minus_count c n) else None)
       else cell_at e r c) e"

definition delete_chars :: "enat \<Rightarrow> attribution_engine \<Rightarrow> attribution_engine" where
  "delete_chars n e =
     redraw (\<lambda>r c.
       if r = engRow e \<and> engCol e \<le> c
       then (if enat c + n < enat (engCols e) then cell_at e r (plus_upto (engCols e) c n) else None)
       else cell_at e r c) e"

definition in_region :: "attribution_engine \<Rightarrow> bool" where
  "in_region e \<longleftrightarrow> regionTop e \<le> engRow e \<and> engRow e \<le> regionBottom e"

definition insert_lines :: "enat \<Rightarrow> attribution_engine \<Rightarrow> attribution_engine" where
  "insert_lines n e =
     (if \<not> in_region e then e
      else redraw (\<lambda>r c.
        if engRow e \<le> r \<and> r \<le> regionBottom e
        then (if enat (engRow e) + n \<le> enat r then cell_at e (minus_count r n) c else None)
        else cell_at e r c) e)"

definition delete_lines :: "enat \<Rightarrow> attribution_engine \<Rightarrow> attribution_engine" where
  "delete_lines n e =
     (if \<not> in_region e then e
      else redraw (\<lambda>r c.
        if engRow e \<le> r \<and> r \<le> regionBottom e
        then (if enat r + n \<le> enat (regionBottom e) then cell_at e (plus_upto (regionBottom e) r n) c else None)
        else cell_at e r c) e)"

definition set_scroll_region :: "enat \<Rightarrow> enat \<Rightarrow> attribution_engine \<Rightarrow> attribution_engine" where
  "set_scroll_region topParam bottomParam e =
     (let t = position_of (engRows e) topParam; b = position_of (engRows e) bottomParam;
          e1 = (if t < b then e\<lparr>regionTop := t, regionBottom := b\<rparr>
                else e\<lparr>regionTop := 0, regionBottom := engRows e - 1\<rparr>)
      in move_to (regionTop e1) 0 e1)"

definition set_plane :: "color_plane \<Rightarrow> string \<Rightarrow> pen \<Rightarrow> pen" where
  "set_plane pl c p = (case pl of Fg \<Rightarrow> p\<lparr>penFg := Some c\<rparr> | Bg \<Rightarrow> p\<lparr>penBg := Some c\<rparr>)"

fun apply_sgr :: "jsnum list \<Rightarrow> pen \<Rightarrow> pen" where
  "apply_sgr [] p = p"
| "apply_sgr (n # ns) p =
     (case n of
        NaN \<Rightarrow> apply_sgr ns DEFAULT_PEN
      | Num k \<Rightarrow>
          if k = 0 then apply_sgr ns DEFAULT_PEN
          else if k = 1 then apply_sgr ns (p\<lparr>penBold := True\<rparr>)
          else if k = 22 then apply_sgr ns (p\<lparr>penBold := False\<rparr>)
          else if k = 39 then apply_sgr ns (p\<lparr>penFg := None\<rparr>)
          else if k = 49 then apply_sgr ns (p\<lparr>penBg := None\<rparr>)
          else (case palette_color k of
              Some (pl, c) \<Rightarrow> apply_sgr ns (set_plane pl c p)
            | None \<Rightarrow>
                if k = 38 \<or> k = 48 then
                  (let plane = (if k = 38 then Fg else Bg) in
                   case ns of
                     m # x # rest \<Rightarrow>
                       if m = Num 5 then apply_sgr rest (set_plane plane (css256 x) p)
                       else (case rest of
                           g # b # rest' \<Rightarrow>
                             if m = Num 2
                             then apply_sgr rest' (set_plane plane (rgb (num_str x) (num_str g) (num_str b)) p)
                             else apply_sgr ns p
                         | _ \<Rightarrow> apply_sgr ns p)
                   | _ \<Rightarrow> apply_sgr ns p)
                else apply_sgr ns p)
      | _ \<Rightarrow> apply_sgr ns p)"

definition apply_private_mode :: "string \<Rightarrow> char \<Rightarrow> attribution_engine \<Rightarrow> attribution_engine" where
  "apply_private_mode params final e =
     (if final \<noteq> CHR ''h'' \<and> final \<noteq> CHR ''l'' then e
      else if drop 1 params \<in> {''1049'', ''1047'', ''47''} then move_to 0 0 (redraw (\<lambda>r c. None) e)
      else e)"

definition csi_nums :: "string \<Rightarrow> jsnum list" where
  "csi_nums params = (if params = [] then [] else map parse_int (split_on (CHR '';'') params))"

definition apply_csi :: "string \<Rightarrow> char \<Rightarrow> attribution_engine \<Rightarrow> attribution_engine" where
  "apply_csi params final e =
     (if take 1 params = ''?'' then apply_private_mode params final e
      else
        let nums = csi_nums params; n1 = param_of 1 nums; n0 = param_of 0 nums;
            up = max (regionTop e) (minus_count (engRow e) (n1 0));
            down = plus_upto (regionBottom e) (engRow e) (n1 0)
        in if final = CHR ''A'' then move_to up (engCol e) e
           else if final = CHR ''B'' then move_to down (engCol e) e
           else if final = CHR ''C'' then move_to (engRow e) (plus_upto (engCols e - 1) (engCol e) (n1 0)) e
           else if final = CHR ''D'' then move_to (engRow e) (min (engCols e - 1) (minus_count (engCol e) (n1 0))) e
           else if final = CHR ''E'' then move_to down 0 e
           else if final = CHR ''F'' then move_to up 0 e
           else if final = CHR ''G'' then move_to (engRow e) (position_of (engCols e) (n1 0)) e
           else if final = CHR ''d'' then move_to (position_of (engRows e) (n1 0)) (engCol e) e
           else if final = CHR ''H'' \<or> final = CHR ''f''
           then move_to (position_of (engRows e) (n1 0)) (position_of (engCols e) (n1 1)) e
           else if final = CHR ''J'' then erase_display (n0 0) e
           else if final = CHR ''K'' then erase_line (n0 0) e
           else if final = CHR ''X'' then erase_chars (n1 0) e
           else if final = CHR ''@'' then insert_chars (n1 0) e
           else if final = CHR ''P'' then delete_chars (n1 0) e
           else if final = CHR ''L'' then insert_lines (n1 0) e
           else if final = CHR ''M'' then delete_lines (n1 0) e
           else if final = CHR ''r''
           then set_scroll_region (n1 0) (if length nums \<le> 1 then enat (engRows e) else n1 1) e
           else if final = CHR ''m'' then e\<lparr>engPen := apply_sgr (if nums = [] then [Num 0] else nums) (engPen e)\<rparr>
           else if final = CHR ''s'' then e\<lparr>savedCursor := Some (engRow e, engCol e, engPen e)\<rparr>
           else if final = CHR ''u''
           then (case savedCursor e of
               None \<Rightarrow> e
             | Some (r, c, p) \<Rightarrow> (move_to r c e)\<lparr>engPen := p\<rparr>)
           else e)"

subsection \<open>Bytes\<close>

definition apply_esc_final :: "nat \<Rightarrow> attribution_engine \<Rightarrow> attribution_engine" where
  "apply_esc_final b e =
     (if b = 0x44 then line_feed e
      else if b = 0x45 then line_feed (e\<lparr>engCol := 0, wrapPending := False\<rparr>)
      else if b = 0x4D then reverse_index e
      else if b = 0x63 then reset_screen e
      else e)"

definition step_esc :: "nat \<Rightarrow> attribution_engine \<Rightarrow> attribution_engine" where
  "step_esc b e =
     (if b = 0x5B then e\<lparr>engMode := MCsi, csiParams := [], csiInter := []\<rparr>
      else if b \<in> {0x5D, 0x50, 0x5F, 0x5E, 0x58} then e\<lparr>engMode := MString\<rparr>
      else if 0x20 \<le> b \<and> b \<le> 0x2F then e\<lparr>engMode := MEscInter\<rparr>
      else (apply_esc_final b e)\<lparr>engMode := MGround\<rparr>)"

definition step_csi :: "nat \<Rightarrow> attribution_engine \<Rightarrow> attribution_engine" where
  "step_csi b e =
     (if 0x30 \<le> b \<and> b \<le> 0x3F \<and> csiInter e = [] then e\<lparr>csiParams := csiParams e @ [char_of b]\<rparr>
      else if 0x20 \<le> b \<and> b \<le> 0x2F then e\<lparr>csiInter := csiInter e @ [char_of b]\<rparr>
      else if 0x40 \<le> b \<and> b \<le> 0x7E then (apply_csi (csiParams e) (char_of b) e)\<lparr>engMode := MGround\<rparr>
      else e\<lparr>engMode := MGround\<rparr>)"

definition flush_utf8 :: "attribution_engine \<Rightarrow> attribution_engine" where
  "flush_utf8 e =
     (let e1 = e\<lparr>glyphOrigin := None\<rparr>; ch = (if utf8Cp e \<le> 0x10FFFF then utf8Cp e else 0xFFFD) in
      case glyphOrigin e of None \<Rightarrow> e1 | Some o' \<Rightarrow> write_glyph ch o' e1)"

definition fresh_byte :: "nat \<Rightarrow> origin \<Rightarrow> attribution_engine \<Rightarrow> attribution_engine" where
  "fresh_byte b o' e =
     (if b = 0x1B then e\<lparr>engMode := MEsc\<rparr>
      else if b = 0x7F then e
      else if b < 0x20 then handle_c0 b e
      else if b < 0x80 then write_glyph b o' e
      else
        let e1 = e\<lparr>glyphOrigin := Some o'\<rparr> in
        if 0xF0 \<le> b then e1\<lparr>utf8Need := 3, utf8Cp := b mod 8\<rparr>
        else if 0xE0 \<le> b then e1\<lparr>utf8Need := 2, utf8Cp := b mod 16\<rparr>
        else if 0xC0 \<le> b then e1\<lparr>utf8Need := 1, utf8Cp := b mod 32\<rparr>
        else write_glyph 0xFFFD o' e1)"

definition step_ground :: "nat \<Rightarrow> origin \<Rightarrow> attribution_engine \<Rightarrow> attribution_engine" where
  "step_ground b o' e =
     (if 0 < utf8Need e \<and> 0x80 \<le> b \<and> b \<le> 0xBF then
        (let e1 = e\<lparr>utf8Cp := utf8Cp e * 64 + b mod 64, utf8Need := utf8Need e - 1\<rparr>
         in if utf8Need e1 = 0 then flush_utf8 e1 else e1)
      else fresh_byte b o' (if 0 < utf8Need e then e\<lparr>utf8Need := 0, glyphOrigin := None\<rparr> else e))"

text \<open>One step, and whether the byte is consumed by it.\<close>

definition emu_step :: "nat \<Rightarrow> origin \<Rightarrow> attribution_engine \<Rightarrow> attribution_engine \<times> bool" where
  "emu_step b o' e =
     (case engMode e of
        MGround \<Rightarrow> (step_ground b o' e, True)
      | MEsc \<Rightarrow> (step_esc b e, True)
      | MEscInter \<Rightarrow> (if 0x20 \<le> b \<and> b \<le> 0x2F then e else e\<lparr>engMode := MGround\<rparr>, True)
      | MCsi \<Rightarrow> (step_csi b e, True)
      | MString \<Rightarrow> (if b = 0x07 then e\<lparr>engMode := MGround\<rparr> else if b = 0x1B then e\<lparr>engMode := MStringEsc\<rparr> else e, True)
      | MStringEsc \<Rightarrow> if b = 0x5C then (e\<lparr>engMode := MGround\<rparr>, True) else (e\<lparr>engMode := MEsc\<rparr>, False))"

text \<open>A step that does not consume leads to one that does.\<close>

lemma emu_step_consumes: "emu_step b o' e = (e1, False) \<Longrightarrow> snd (emu_step b o' e1)"
  by (auto simp: emu_step_def split: emu_mode.splits if_splits)

definition emu_byte :: "nat \<Rightarrow> origin \<Rightarrow> attribution_engine \<Rightarrow> attribution_engine" where
  "emu_byte b o' e = (case emu_step b o' e of (e1, consumed) \<Rightarrow> if consumed then e1 else fst (emu_step b o' e1))"

definition origin_of :: "source_chunk \<Rightarrow> nat \<Rightarrow> origin" where
  "origin_of ch i = \<lparr>orgChunk = srcId ch, orgMs = srcMs ch, orgOffset = i, orgStream = srcBase ch + i\<rparr>"

definition push_bytes :: "attribution_engine \<Rightarrow> source_chunk \<Rightarrow> attribution_engine" where
  "push_bytes e ch =
     foldl (\<lambda>e i. emu_byte (code_of (srcBytes ch ! i)) (origin_of ch i) e) e [0..<length (srcBytes ch)]"

definition emulate :: "source_chunk list \<Rightarrow> nat \<Rightarrow> nat \<Rightarrow> attribution_grid" where
  "emulate chunks cols rows = emu_snapshot (foldl push_bytes (new_engine cols rows) chunks)"

subsection \<open>The screen stays well formed\<close>

definition saved_ok :: "nat \<Rightarrow> nat \<Rightarrow> (nat \<times> nat \<times> pen) option \<Rightarrow> bool" where
  "saved_ok rows cols s = (case s of None \<Rightarrow> True | Some (r, c, p) \<Rightarrow> r < rows \<and> c < cols)"

lemma saved_ok_simps [simp]: "saved_ok rows cols None" "saved_ok rows cols (Some (r, c, p)) \<longleftrightarrow> r < rows \<and> c < cols"
  by (simp_all add: saved_ok_def)

definition emu_ok :: "attribution_engine \<Rightarrow> bool" where
  "emu_ok e \<longleftrightarrow>
     0 < engRows e \<and> 0 < engCols e \<and> length (engCells e) = engCols e * engRows e
     \<and> engRow e < engRows e \<and> engCol e < engCols e
     \<and> regionTop e \<le> regionBottom e \<and> regionBottom e < engRows e
     \<and> saved_ok (engRows e) (engCols e) (savedCursor e)
     \<and> (0 < utf8Need e \<longrightarrow> glyphOrigin e \<noteq> None)"

lemma redraw_simps [simp]:
  "engCols (redraw g e) = engCols e" "engRows (redraw g e) = engRows e" "engRow (redraw g e) = engRow e"
  "engCol (redraw g e) = engCol e" "wrapPending (redraw g e) = wrapPending e" "regionTop (redraw g e) = regionTop e"
  "regionBottom (redraw g e) = regionBottom e" "engPen (redraw g e) = engPen e" "savedCursor (redraw g e) = savedCursor e"
  "engMode (redraw g e) = engMode e" "utf8Need (redraw g e) = utf8Need e" "glyphOrigin (redraw g e) = glyphOrigin e"
  "utf8Cp (redraw g e) = utf8Cp e" "csiParams (redraw g e) = csiParams e" "csiInter (redraw g e) = csiInter e"
  "length (engCells (redraw g e)) = length (engCells e)"
  by (simp_all add: redraw_def)

named_theorems emu_defs

lemmas [emu_defs] = erase_where_def scroll_up_def scroll_down_def line_feed_def reverse_index_def move_to_def
  erase_display_def erase_line_def erase_chars_def insert_chars_def delete_chars_def insert_lines_def delete_lines_def Let_def

lemma bounded_counts:
  "plus_upto m x n \<le> m" "minus_count x n \<le> x" "0 < m \<Longrightarrow> position_of m n < m"
  by (auto simp: plus_upto_def minus_count_def position_of_def split: enat.splits)

lemma line_feed_ok: "emu_ok e \<Longrightarrow> emu_ok (line_feed e)"
  by (auto simp: emu_ok_def emu_defs)

lemma reverse_index_ok: "emu_ok e \<Longrightarrow> emu_ok (reverse_index e)"
  by (auto simp: emu_ok_def emu_defs)

lemma redraw_ok: "emu_ok e \<Longrightarrow> emu_ok (redraw g e)"
  by (simp add: emu_ok_def)

lemma move_to_ok: "emu_ok e \<Longrightarrow> r < engRows e \<Longrightarrow> c < engCols e \<Longrightarrow> emu_ok (move_to r c e)"
  by (simp add: emu_ok_def move_to_def)

lemma put_glyph_ok: "emu_ok e \<Longrightarrow> emu_ok (put_glyph ch o' e)"
  by (simp add: put_glyph_def emu_ok_def Let_def)

lemma write_glyph_ok: "emu_ok e \<Longrightarrow> emu_ok (write_glyph ch o' e)"
proof -
  assume e: "emu_ok e"
  have "emu_ok (e\<lparr>engCol := 0\<rparr>)" using e by (simp add: emu_ok_def)
  from line_feed_ok [OF this] have "emu_ok ((line_feed (e\<lparr>engCol := 0\<rparr>))\<lparr>wrapPending := False\<rparr>)" by (simp add: emu_ok_def)
  then show ?thesis using e by (simp add: write_glyph_def put_glyph_ok)
qed

lemma handle_c0_ok: "emu_ok e \<Longrightarrow> emu_ok (handle_c0 b e)"
proof -
  assume e: "emu_ok e"
  then have "engRow e < engRows e" "engCol e < engCols e" "0 < engCols e" by (simp_all add: emu_ok_def)
  then show ?thesis
    using e by (auto simp: handle_c0_def line_feed_ok intro!: move_to_ok)
qed

lemma cursor_in: "emu_ok e \<Longrightarrow> engRow e < engRows e \<and> engCol e < engCols e \<and> regionTop e < engRows e \<and> regionBottom e < engRows e"
  by (auto simp: emu_ok_def)

lemma drawing_ok:
  assumes "emu_ok e"
  shows "emu_ok (erase_display n e)" "emu_ok (erase_line n e)" "emu_ok (erase_chars n e)" "emu_ok (insert_chars n e)"
    "emu_ok (delete_chars n e)" "emu_ok (insert_lines n e)" "emu_ok (delete_lines n e)"
  using assms redraw_ok [OF assms]
  by (simp_all add: erase_display_def erase_line_def erase_chars_def insert_chars_def delete_chars_def insert_lines_def
      delete_lines_def erase_where_def Let_def)

lemma set_scroll_region_ok: "emu_ok e \<Longrightarrow> emu_ok (set_scroll_region t b e)"
  using bounded_counts(3) [of "engRows e" t] bounded_counts(3) [of "engRows e" b]
  by (auto simp: set_scroll_region_def emu_ok_def move_to_def Let_def)

lemma reset_screen_ok: "emu_ok e \<Longrightarrow> emu_ok (reset_screen e)"
  by (simp add: reset_screen_def emu_ok_def)

lemma apply_csi_ok: "emu_ok e \<Longrightarrow> emu_ok (apply_csi params final e)"
proof -
  assume e: "emu_ok e"
  note c = cursor_in [OF e]
  have up: "max (regionTop e) (minus_count (engRow e) n) < engRows e" for n
    using c bounded_counts(2) [of "engRow e" n] by auto
  have down: "plus_upto (regionBottom e) (engRow e) n < engRows e" for n
    using c bounded_counts(1) [of "regionBottom e" "engRow e" n] by auto
  have right: "plus_upto (engCols e - 1) (engCol e) n < engCols e" for n
    using c bounded_counts(1) [of "engCols e - 1" "engCol e" n] by linarith
  have left: "min (engCols e - 1) (minus_count (engCol e) n) < engCols e" for n
    using c by linarith
  have pos: "position_of (engRows e) n < engRows e" "position_of (engCols e) n < engCols e" for n
    using c by (auto intro!: bounded_counts(3))
  have priv: "emu_ok (apply_private_mode params final e)"
    using e c by (auto simp: apply_private_mode_def intro!: move_to_ok redraw_ok)
  have pen: "emu_ok (e\<lparr>engPen := p\<rparr>)" "emu_ok (e\<lparr>savedCursor := Some (engRow e, engCol e, p)\<rparr>)" for p
    using e by (auto simp: emu_ok_def)
  have restore: "emu_ok (case savedCursor e of None \<Rightarrow> e | Some (r, c, p) \<Rightarrow> (move_to r c e)\<lparr>engPen := p\<rparr>)"
    using e by (auto simp: emu_ok_def move_to_def split: option.splits)
  show ?thesis
    unfolding apply_csi_def Let_def
    using e c up down right left pos priv pen restore
    by (simp add: move_to_ok drawing_ok set_scroll_region_ok)
qed

lemma mode_ok: "emu_ok (e\<lparr>engMode := m\<rparr>) = emu_ok e" "emu_ok (e\<lparr>csiParams := a\<rparr>) = emu_ok e" "emu_ok (e\<lparr>csiInter := a\<rparr>) = emu_ok e"
  by (simp_all add: emu_ok_def)

lemma fresh_byte_ok: "emu_ok e \<Longrightarrow> emu_ok (fresh_byte b o' e)"
  using write_glyph_ok [of "e\<lparr>glyphOrigin := Some o'\<rparr>"] write_glyph_ok [of e]
  by (auto simp: fresh_byte_def Let_def mode_ok handle_c0_ok) (auto simp: emu_ok_def)

lemma flush_utf8_ok: "emu_ok e \<Longrightarrow> utf8Need e = 0 \<Longrightarrow> emu_ok (flush_utf8 e)"
  using write_glyph_ok [of "e\<lparr>glyphOrigin := None\<rparr>"]
  by (auto simp: flush_utf8_def Let_def emu_ok_def split: option.splits)

lemma step_ground_ok: "emu_ok e \<Longrightarrow> emu_ok (step_ground b o' e)"
proof -
  assume e: "emu_ok e"
  have "emu_ok (e\<lparr>utf8Cp := utf8Cp e * 64 + b mod 64, utf8Need := utf8Need e - 1\<rparr>)"
    "emu_ok (e\<lparr>utf8Need := 0, glyphOrigin := None\<rparr>)"
    using e by (auto simp: emu_ok_def)
  then show ?thesis
    using e by (auto simp: step_ground_def Let_def intro!: fresh_byte_ok flush_utf8_ok)
qed

lemma step_esc_ok: "emu_ok e \<Longrightarrow> emu_ok (step_esc b e)"
proof -
  assume e: "emu_ok e"
  then have "emu_ok (e\<lparr>engCol := 0, wrapPending := False\<rparr>)" by (auto simp: emu_ok_def)
  then show ?thesis
    using e by (simp add: step_esc_def apply_esc_final_def mode_ok line_feed_ok reverse_index_ok reset_screen_ok)
qed

lemma emu_step_ok: "emu_ok e \<Longrightarrow> emu_ok (fst (emu_step b o' e))"
  by (auto simp: emu_step_def step_csi_def mode_ok step_ground_ok step_esc_ok apply_csi_ok split: emu_mode.split)

lemma emu_byte_ok: "emu_ok e \<Longrightarrow> emu_ok (emu_byte b o' e)"
  using emu_step_ok [of e b o'] emu_step_ok [of "fst (emu_step b o' e)" b o'] by (simp add: emu_byte_def case_prod_beta)

lemma new_engine_ok: "emu_ok (new_engine cols rows)"
  by (auto simp: emu_ok_def new_engine_def max_def)

lemma push_bytes_ok: "emu_ok e \<Longrightarrow> emu_ok (push_bytes e ch)"
proof -
  have "emu_ok e \<Longrightarrow> emu_ok (foldl (\<lambda>e i. emu_byte (code_of (srcBytes ch ! i)) (origin_of ch i) e) e is)" for "is"
    by (induction "is" arbitrary: e) (simp_all add: emu_byte_ok)
  then show "emu_ok e \<Longrightarrow> ?thesis" by (simp add: push_bytes_def)
qed

lemma engine_run_ok: "emu_ok e \<Longrightarrow> emu_ok (foldl push_bytes e chunks)"
  by (induction chunks arbitrary: e) (simp_all add: push_bytes_ok)

subsection \<open>Origins are only carried\<close>

definition move_origin :: "(origin \<Rightarrow> origin) \<Rightarrow> attributed_cell option \<Rightarrow> attributed_cell option" where
  "move_origin f = map_option (\<lambda>x. x\<lparr>cellOrigin := f (cellOrigin x)\<rparr>)"

definition map_engine :: "(origin \<Rightarrow> origin) \<Rightarrow> attribution_engine \<Rightarrow> attribution_engine" where
  "map_engine f e = e\<lparr>engCells := map (move_origin f) (engCells e), glyphOrigin := map_option f (glyphOrigin e)\<rparr>"

lemma move_origin_simps [simp]:
  "move_origin f None = None" "move_origin f (if P then x else y) = (if P then move_origin f x else move_origin f y)"
  by (simp_all add: move_origin_def)

lemma map_engine_fields [simp]:
  "engCols (map_engine f e) = engCols e" "engRows (map_engine f e) = engRows e" "engRow (map_engine f e) = engRow e"
  "engCol (map_engine f e) = engCol e" "wrapPending (map_engine f e) = wrapPending e" "regionTop (map_engine f e) = regionTop e"
  "regionBottom (map_engine f e) = regionBottom e" "engPen (map_engine f e) = engPen e" "savedCursor (map_engine f e) = savedCursor e"
  "engMode (map_engine f e) = engMode e" "utf8Need (map_engine f e) = utf8Need e" "utf8Cp (map_engine f e) = utf8Cp e"
  "csiParams (map_engine f e) = csiParams e" "csiInter (map_engine f e) = csiInter e"
  "glyphOrigin (map_engine f e) = map_option f (glyphOrigin e)"
  "engCells (map_engine f e) = map (move_origin f) (engCells e)"
  by (simp_all add: map_engine_def)

lemma map_engine_updates [simp]:
  "map_engine f (e\<lparr>engRow := r\<rparr>) = (map_engine f e)\<lparr>engRow := r\<rparr>"
  "map_engine f (e\<lparr>engCol := r\<rparr>) = (map_engine f e)\<lparr>engCol := r\<rparr>"
  "map_engine f (e\<lparr>wrapPending := w\<rparr>) = (map_engine f e)\<lparr>wrapPending := w\<rparr>"
  "map_engine f (e\<lparr>regionTop := r\<rparr>) = (map_engine f e)\<lparr>regionTop := r\<rparr>"
  "map_engine f (e\<lparr>regionBottom := r\<rparr>) = (map_engine f e)\<lparr>regionBottom := r\<rparr>"
  "map_engine f (e\<lparr>engPen := p\<rparr>) = (map_engine f e)\<lparr>engPen := p\<rparr>"
  "map_engine f (e\<lparr>savedCursor := s\<rparr>) = (map_engine f e)\<lparr>savedCursor := s\<rparr>"
  "map_engine f (e\<lparr>engMode := m\<rparr>) = (map_engine f e)\<lparr>engMode := m\<rparr>"
  "map_engine f (e\<lparr>csiParams := a\<rparr>) = (map_engine f e)\<lparr>csiParams := a\<rparr>"
  "map_engine f (e\<lparr>csiInter := a\<rparr>) = (map_engine f e)\<lparr>csiInter := a\<rparr>"
  "map_engine f (e\<lparr>utf8Need := n\<rparr>) = (map_engine f e)\<lparr>utf8Need := n\<rparr>"
  "map_engine f (e\<lparr>utf8Cp := n\<rparr>) = (map_engine f e)\<lparr>utf8Cp := n\<rparr>"
  "map_engine f (e\<lparr>glyphOrigin := g\<rparr>) = (map_engine f e)\<lparr>glyphOrigin := map_option f g\<rparr>"
  "map_engine f (e\<lparr>engCells := cs\<rparr>) = (map_engine f e)\<lparr>engCells := map (move_origin f) cs\<rparr>"
  by (simp_all add: map_engine_def)

lemma map_engine_redraw [simp]:
  "map_engine f (redraw g e) = redraw (\<lambda>r c. move_origin f (g r c)) (map_engine f e)"
  by (simp add: redraw_def)

lemma map_engine_cell [simp]: "cell_at (map_engine f e) r c = move_origin f (cell_at e r c)"
  by (simp add: cell_at_def Let_def)

lemma cell_at_updates [simp]:
  "cell_at (e\<lparr>engRow := r'\<rparr>) r c = cell_at e r c" "cell_at (e\<lparr>engCol := r'\<rparr>) r c = cell_at e r c"
  "cell_at (e\<lparr>wrapPending := w\<rparr>) r c = cell_at e r c"
  by (simp_all add: cell_at_def Let_def)

lemma map_engine_if [simp]: "map_engine f (if P then e else e') = (if P then map_engine f e else map_engine f e')"
  by simp

lemma carried_grid [simp]:
  "map_engine f (line_feed e) = line_feed (map_engine f e)"
  "map_engine f (reverse_index e) = reverse_index (map_engine f e)"
  "map_engine f (reset_screen e) = reset_screen (map_engine f e)"
  "map_engine f (move_to r c e) = move_to r c (map_engine f e)"
  "map_engine f (erase_display n e) = erase_display n (map_engine f e)"
  "map_engine f (erase_line n e) = erase_line n (map_engine f e)"
  "map_engine f (erase_chars n e) = erase_chars n (map_engine f e)"
  "map_engine f (insert_chars n e) = insert_chars n (map_engine f e)"
  "map_engine f (delete_chars n e) = delete_chars n (map_engine f e)"
  "map_engine f (insert_lines n e) = insert_lines n (map_engine f e)"
  "map_engine f (delete_lines n e) = delete_lines n (map_engine f e)"
  "map_engine f (set_scroll_region a b e) = set_scroll_region a b (map_engine f e)"
  by (simp_all add: emu_defs reset_screen_def set_scroll_region_def in_region_def cong: if_cong)

lemma carried_put [simp]: "map_engine f (put_glyph ch o' e) = put_glyph ch (f o') (map_engine f e)"
  by (simp add: put_glyph_def Let_def map_update move_origin_def)

lemma carried_glyph [simp]: "map_engine f (write_glyph ch o' e) = write_glyph ch (f o') (map_engine f e)"
  by (simp add: write_glyph_def)

lemma carried_csi [simp]: "map_engine f (apply_csi params final e) = apply_csi params final (map_engine f e)"
proof -
  have "map_engine f (apply_private_mode params final e) = apply_private_mode params final (map_engine f e)"
    by (simp add: apply_private_mode_def)
  moreover have "map_engine f (case savedCursor e of None \<Rightarrow> e | Some (r, c, p) \<Rightarrow> (move_to r c e)\<lparr>engPen := p\<rparr>) =
      (case savedCursor e of None \<Rightarrow> map_engine f e | Some (r, c, p) \<Rightarrow> (move_to r c (map_engine f e))\<lparr>engPen := p\<rparr>)"
    by (simp split: option.split)
  ultimately show ?thesis unfolding apply_csi_def Let_def by (simp del: map_engine_if add: if_distrib [of "map_engine f"] cong: if_cong)
qed

lemma carried_c0 [simp]: "map_engine f (handle_c0 b e) = handle_c0 b (map_engine f e)"
  by (simp add: handle_c0_def)

lemma carried_fresh [simp]: "map_engine f (fresh_byte b o' e) = fresh_byte b (f o') (map_engine f e)"
  by (simp add: fresh_byte_def Let_def)

lemma carried_flush [simp]: "map_engine f (flush_utf8 e) = flush_utf8 (map_engine f e)"
  by (simp add: flush_utf8_def Let_def split: option.split)

lemma carried_ground [simp]: "map_engine f (step_ground b o' e) = step_ground b (f o') (map_engine f e)"
  by (simp add: step_ground_def Let_def)

lemma carried_esc [simp]: "map_engine f (step_esc b e) = step_esc b (map_engine f e)"
  by (simp add: step_esc_def apply_esc_final_def)

lemma carried_csi_byte [simp]: "map_engine f (step_csi b e) = step_csi b (map_engine f e)"
  by (simp add: step_csi_def)

lemma carried_step:
  "emu_step b (f o') (map_engine f e) = map_prod (map_engine f) id (emu_step b o' e)"
  by (cases "engMode e") (simp_all add: emu_step_def)

lemma carried_byte: "emu_byte b (f o') (map_engine f e) = map_engine f (emu_byte b o' e)"
  by (simp add: emu_byte_def carried_step case_prod_beta)

definition plain_origin :: "nat \<Rightarrow> origin" where
  "plain_origin n = \<lparr>orgChunk = 0, orgMs = 0, orgOffset = 0, orgStream = n\<rparr>"

fun feed_plain :: "attribution_engine \<Rightarrow> nat \<Rightarrow> string \<Rightarrow> attribution_engine" where
  "feed_plain e n [] = e"
| "feed_plain e n (b # bs) = feed_plain (emu_byte (code_of b) (plain_origin n) e) (n + 1) bs"

lemma feed_plain_append: "feed_plain e n (bs @ cs) = feed_plain (feed_plain e n bs) (n + length bs) cs"
  by (induction bs arbitrary: e n) simp_all

lemma indexed_fold:
  "foldl (\<lambda>e i. F (bs ! i) (n + i) e) e [0..<length bs] = fold (\<lambda>(b, k) e. F b k e) (zip bs [n..<n + length bs]) e"
proof (induction bs arbitrary: e n)
  case (Cons b bs)
  have "[0..<length (b # bs)] = 0 # map Suc [0..<length bs]"
    by (simp del: upt_Suc add: upt_conv_Cons map_Suc_upt)
  moreover have "[n..<n + length (b # bs)] = n # [n + 1..<n + 1 + length bs]"
    by (simp del: upt_Suc add: upt_conv_Cons)
  ultimately show ?case using Cons.IH [of "n + 1" "F b n e"] by (simp add: foldl_map)
qed simp

abbreviation forget_chunk :: "attribution_engine \<Rightarrow> attribution_engine" where
  "forget_chunk \<equiv> map_engine (\<lambda>o'. plain_origin (orgStream o'))"

lemma push_forgets:
  "forget_chunk (push_bytes e ch) = feed_plain (forget_chunk e) (srcBase ch) (srcBytes ch)"
proof -
  have plain: "fold (\<lambda>(b, k) e. emu_byte (code_of b) (plain_origin k) e) (zip bs [n..<n + length bs]) e = feed_plain e n bs" for bs n e
  proof (induction bs arbitrary: e n)
    case (Cons b bs)
    have "[n..<n + length (b # bs)] = n # [n + 1..<n + 1 + length bs]"
      by (simp del: upt_Suc add: upt_conv_Cons)
    then show ?case using Cons.IH [of "n + 1" "emu_byte (code_of b) (plain_origin n) e"] by (simp del: upt_Suc)
  qed simp
  have step: "forget_chunk (emu_byte b (origin_of ch i) e) = emu_byte b (plain_origin (srcBase ch + i)) (forget_chunk e)" for b i e
    using carried_byte [of b "\<lambda>o'. plain_origin (orgStream o')" "origin_of ch i" e] by (simp add: origin_of_def)
  have "forget_chunk (foldl (\<lambda>e i. emu_byte (code_of (srcBytes ch ! i)) (origin_of ch i) e) e is) =
      foldl (\<lambda>e i. emu_byte (code_of (srcBytes ch ! i)) (plain_origin (srcBase ch + i)) e) (forget_chunk e) is" for "is"
    by (induction "is" arbitrary: e) (simp_all add: step)
  then show ?thesis
    by (simp only: push_bytes_def indexed_fold [of "\<lambda>b k. emu_byte (code_of b) (plain_origin k)"] plain)
qed

fun contiguous :: "nat \<Rightarrow> source_chunk list \<Rightarrow> bool" where
  "contiguous n [] \<longleftrightarrow> True"
| "contiguous n (ch # chs) \<longleftrightarrow> srcBase ch = n \<and> contiguous (n + length (srcBytes ch)) chs"

lemma run_forgets:
  "contiguous n chunks \<Longrightarrow>
     forget_chunk (foldl push_bytes e chunks) = feed_plain (forget_chunk e) n (concat (map srcBytes chunks))"
  by (induction chunks arbitrary: n e) (simp_all add: push_forgets feed_plain_append)

text \<open>What is seen of a grid: its size, its cursor, and of every cell the grapheme, the pen and the place in the stream.\<close>

definition grid_view :: "attribution_grid \<Rightarrow> (nat \<times> nat \<times> nat \<times> nat) \<times> (nat \<times> pen \<times> nat) option list" where
  "grid_view g =
     ((gridCols g, gridRows g, cursorRow g, cursorCol g),
      map (map_option (\<lambda>x. (cellChar x, cellPen x, orgStream (cellOrigin x)))) (gridCells g))"

lemma grid_view_forgets: "grid_view (emu_snapshot (forget_chunk e)) = grid_view (emu_snapshot e)"
  by (simp add: grid_view_def emu_snapshot_def move_origin_def option.map_comp comp_def plain_origin_def)

text \<open>
  C36. The screen does not depend on how the stream was cut: chunks that follow one another give
  the same cells, pens, stream offsets and cursor as the whole stream in one chunk, also where a
  cut falls inside a control sequence or a grapheme.
\<close>

theorem screen_ignores_chunking:
  assumes "contiguous n chunks"
  shows "grid_view (emulate chunks cols rows) =
    grid_view (emulate [\<lparr>srcId = 0, srcMs = 0, srcBase = n, srcBytes = concat (map srcBytes chunks)\<rparr>] cols rows)"
proof -
  let ?whole = "[\<lparr>srcId = 0, srcMs = 0, srcBase = n, srcBytes = concat (map srcBytes chunks)\<rparr>]"
  have "grid_view (emulate chs cols rows) = grid_view (emu_snapshot (forget_chunk (foldl push_bytes (new_engine cols rows) chs)))" for chs
    by (simp only: emulate_def grid_view_forgets)
  moreover have "contiguous n ?whole" by simp
  ultimately show ?thesis
    using run_forgets [OF assms] run_forgets [of n ?whole "new_engine cols rows"] by simp
qed

lemma screen_ignores_chunking_witness:
  "grid_view (emulate [\<lparr>srcId = 1, srcMs = 0, srcBase = 0, srcBytes = ''a'' @ [CHR 0x1B]\<rparr>, \<lparr>srcId = 2, srcMs = 5, srcBase = 2, srcBytes = ''[1mb''\<rparr>] 3 1)
   = ((3, 1, 0, 2), [Some (97, DEFAULT_PEN, 0), Some (98, DEFAULT_PEN\<lparr>penBold := True\<rparr>, 5), None])"
proof -
  have "grid_view (emulate [\<lparr>srcId = 0, srcMs = 0, srcBase = 0, srcBytes = ''a'' @ [CHR 0x1B] @ ''[1mb''\<rparr>] 3 1)
      = ((3, 1, 0, 2), [Some (97, DEFAULT_PEN, 0), Some (98, DEFAULT_PEN\<lparr>penBold := True\<rparr>, 5), None])"
    by code_simp
  then show ?thesis
    using screen_ignores_chunking
      [of 0 "[\<lparr>srcId = 1, srcMs = 0, srcBase = 0, srcBytes = ''a'' @ [CHR 0x1B]\<rparr>, \<lparr>srcId = 2, srcMs = 5, srcBase = 2, srcBytes = ''[1mb''\<rparr>]" 3 1]
    by simp
qed

subsection \<open>Every cell names the byte that wrote it\<close>

definition cells_in :: "(attributed_cell \<Rightarrow> bool) \<Rightarrow> attribution_engine \<Rightarrow> bool" where
  "cells_in Q e \<longleftrightarrow> (\<forall>x. Some x \<in> set (engCells e) \<longrightarrow> Q x)"

lemma cells_in_updates [simp]:
  "cells_in Q (e\<lparr>engRow := r\<rparr>) = cells_in Q e" "cells_in Q (e\<lparr>engCol := r\<rparr>) = cells_in Q e"
  "cells_in Q (e\<lparr>wrapPending := w\<rparr>) = cells_in Q e" "cells_in Q (e\<lparr>regionTop := r\<rparr>) = cells_in Q e"
  "cells_in Q (e\<lparr>regionBottom := r\<rparr>) = cells_in Q e" "cells_in Q (e\<lparr>engPen := p\<rparr>) = cells_in Q e"
  "cells_in Q (e\<lparr>savedCursor := s\<rparr>) = cells_in Q e" "cells_in Q (e\<lparr>engMode := m\<rparr>) = cells_in Q e"
  "cells_in Q (e\<lparr>csiParams := a\<rparr>) = cells_in Q e" "cells_in Q (e\<lparr>csiInter := a\<rparr>) = cells_in Q e"
  "cells_in Q (e\<lparr>utf8Need := n\<rparr>) = cells_in Q e" "cells_in Q (e\<lparr>utf8Cp := n\<rparr>) = cells_in Q e"
  "cells_in Q (e\<lparr>glyphOrigin := g\<rparr>) = cells_in Q e"
  by (simp_all add: cells_in_def)

lemma cell_at_in: "cells_in Q e \<Longrightarrow> cell_at e r c = Some x \<Longrightarrow> Q x"
  by (fastforce simp: cells_in_def cell_at_def Let_def split: if_splits dest: nth_mem [of _ "engCells e"])

lemma redraw_in: "(\<And>r c x. g r c = Some x \<Longrightarrow> Q x) \<Longrightarrow> cells_in Q (redraw g e)"
  by (fastforce simp: cells_in_def redraw_def dest: sym)

lemma drawing_in:
  assumes "cells_in Q e"
  shows "cells_in Q (redraw (\<lambda>r c. None) e)" "cells_in Q (line_feed e)" "cells_in Q (reverse_index e)" "cells_in Q (erase_display n e)"
    "cells_in Q (erase_line n e)" "cells_in Q (erase_chars n e)" "cells_in Q (insert_chars n e)" "cells_in Q (delete_chars n e)"
    "cells_in Q (insert_lines n e)" "cells_in Q (delete_lines n e)" "cells_in Q (reset_screen e)" "cells_in Q (move_to r c e)"
    "cells_in Q (set_scroll_region a b e)"
  using assms
  by (auto simp: emu_defs reset_screen_def set_scroll_region_def split: if_splits intro!: redraw_in dest: cell_at_in)

lemma csi_in: "cells_in Q e \<Longrightarrow> cells_in Q (apply_csi params final e)"
  by (simp add: apply_csi_def apply_private_mode_def drawing_in Let_def split: option.split)

lemma glyph_in:
  assumes "cells_in Q e" and "\<And>p. Q \<lparr>cellChar = ch, cellOrigin = o', cellPen = p\<rparr>"
  shows "cells_in Q (write_glyph ch o' e)"
proof -
  have "cells_in Q e1 \<Longrightarrow> cells_in Q (put_glyph ch o' e1)" for e1
    using assms(2) set_update_subset_insert [of "engCells e1"]
    by (fastforce simp: put_glyph_def Let_def cells_in_def)
  then show ?thesis using assms(1) drawing_in(2) [of Q "e\<lparr>engCol := 0\<rparr>"] by (simp add: write_glyph_def)
qed

text \<open>The bytes that follow the first of a grapheme, and what the first contributes.\<close>

definition tail_length :: "nat \<Rightarrow> nat" where
  "tail_length b = (if 0xF0 \<le> b then 3 else if 0xE0 \<le> b then 2 else 1)"

definition lead_bits :: "nat \<Rightarrow> nat" where
  "lead_bits b = (if 0xF0 \<le> b then b mod 8 else if 0xE0 \<le> b then b mod 16 else b mod 32)"

definition begins_glyph :: "nat \<Rightarrow> nat \<Rightarrow> bool" where
  "begins_glyph b ch \<longleftrightarrow>
     (if b < 0x80 then 0x20 \<le> b \<and> b \<noteq> 0x7F \<and> ch = b
      else if b < 0xC0 then ch = 0xFFFD
      else ch div 64 ^ tail_length b = lead_bits b \<or> 0xF0 \<le> b \<and> ch = 0xFFFD)"

definition written_at :: "source_chunk list \<Rightarrow> origin \<Rightarrow> nat \<Rightarrow> bool" where
  "written_at chunks o' b \<longleftrightarrow>
     (\<exists>ch\<in>set chunks. orgOffset o' < length (srcBytes ch) \<and> o' = origin_of ch (orgOffset o')
        \<and> b = code_of (srcBytes ch ! orgOffset o'))"

definition attributed :: "source_chunk list \<Rightarrow> attributed_cell \<Rightarrow> bool" where
  "attributed chunks x \<longleftrightarrow> (\<exists>b. written_at chunks (cellOrigin x) b \<and> begins_glyph b (cellChar x))"

definition partial_ok :: "source_chunk list \<Rightarrow> attribution_engine \<Rightarrow> bool" where
  "partial_ok chunks e \<longleftrightarrow>
     0 < utf8Need e \<longrightarrow>
     (\<exists>o' b. glyphOrigin e = Some o' \<and> written_at chunks o' b \<and> 0xC0 \<le> b \<and> b < 256 \<and> utf8Need e \<le> tail_length b
        \<and> utf8Cp e div 64 ^ (tail_length b - utf8Need e) = lead_bits b)"

definition prov_ok :: "source_chunk list \<Rightarrow> attribution_engine \<Rightarrow> bool" where
  "prov_ok chunks e \<longleftrightarrow> cells_in (attributed chunks) e \<and> partial_ok chunks e"

lemma parser_kept [simp]:
  "utf8Need (line_feed e) = utf8Need e" "utf8Need (reverse_index e) = utf8Need e" "utf8Need (reset_screen e) = utf8Need e"
  "utf8Need (move_to r c e) = utf8Need e" "utf8Need (put_glyph ch o' e) = utf8Need e" "utf8Need (write_glyph ch o' e) = utf8Need e"
  "utf8Need (apply_csi ps f e) = utf8Need e" "utf8Need (handle_c0 b e) = utf8Need e"
  "utf8Cp (line_feed e) = utf8Cp e" "utf8Cp (reverse_index e) = utf8Cp e" "utf8Cp (reset_screen e) = utf8Cp e"
  "utf8Cp (move_to r c e) = utf8Cp e" "utf8Cp (apply_csi ps f e) = utf8Cp e" "utf8Cp (handle_c0 b e) = utf8Cp e"
  "glyphOrigin (line_feed e) = glyphOrigin e" "glyphOrigin (reverse_index e) = glyphOrigin e" "glyphOrigin (reset_screen e) = glyphOrigin e"
  "glyphOrigin (move_to r c e) = glyphOrigin e" "glyphOrigin (apply_csi ps f e) = glyphOrigin e" "glyphOrigin (handle_c0 b e) = glyphOrigin e"
  by (simp_all add: emu_defs reset_screen_def put_glyph_def write_glyph_def handle_c0_def apply_csi_def apply_private_mode_def
      set_scroll_region_def split: option.split)

lemma size_grid [simp]:
  "engCols (line_feed e) = engCols e" "engCols (reverse_index e) = engCols e" "engCols (reset_screen e) = engCols e"
  "engCols (put_glyph ch o' e) = engCols e" "engCols (handle_c0 b e) = engCols e" "engCols (move_to r c e) = engCols e"
  "engRows (line_feed e) = engRows e" "engRows (reverse_index e) = engRows e" "engRows (reset_screen e) = engRows e"
  "engRows (put_glyph ch o' e) = engRows e" "engRows (handle_c0 b e) = engRows e" "engRows (move_to r c e) = engRows e"
  by (simp_all add: emu_defs reset_screen_def put_glyph_def handle_c0_def)

lemma size_csi [simp]: "engCols (apply_csi ps f e) = engCols e" "engRows (apply_csi ps f e) = engRows e"
  by (simp_all add: apply_csi_def apply_private_mode_def set_scroll_region_def emu_defs split: option.split)

lemma size_bytes [simp]:
  "engCols (write_glyph ch o' e) = engCols e" "engRows (write_glyph ch o' e) = engRows e"
  "engCols (step_esc b e) = engCols e" "engRows (step_esc b e) = engRows e"
  "engCols (step_csi b e) = engCols e" "engRows (step_csi b e) = engRows e"
  by (simp_all add: write_glyph_def step_esc_def apply_esc_final_def step_csi_def)

lemma size_fresh [simp]:
  "engCols (fresh_byte b o' e) = engCols e" "engRows (fresh_byte b o' e) = engRows e"
  "engCols (flush_utf8 e) = engCols e" "engRows (flush_utf8 e) = engRows e"
  by (simp_all add: fresh_byte_def flush_utf8_def Let_def split: option.split)

lemma size_ground [simp]: "engCols (step_ground b o' e) = engCols e" "engRows (step_ground b o' e) = engRows e"
  by (simp_all add: step_ground_def Let_def)

lemma size_step [simp]: "engCols (fst (emu_step b o' e)) = engCols e" "engRows (fst (emu_step b o' e)) = engRows e"
  by (cases "engMode e"; simp add: emu_step_def)+

lemma size_kept [simp]: "engCols (emu_byte b o' e) = engCols e" "engRows (emu_byte b o' e) = engRows e"
  by (simp_all add: emu_byte_def case_prod_beta)

lemma more_bits: "x < 64 \<Longrightarrow> 0 < m \<Longrightarrow> (w * 64 + x) div 64 ^ m = w div (64 :: nat) ^ (m - 1)"
  by (cases m) (simp_all add: div_mult2_eq)

lemma flush_need [simp]: "utf8Need (flush_utf8 e) = utf8Need e"
  by (simp add: flush_utf8_def Let_def split: option.split)

lemma continuation_prov:
  assumes "prov_ok chunks e" and "0 < utf8Need e"
  shows "prov_ok chunks (let e1 = e\<lparr>utf8Cp := utf8Cp e * 64 + b mod 64, utf8Need := utf8Need e - 1\<rparr>
           in if utf8Need e1 = 0 then flush_utf8 e1 else e1)"
proof -
  obtain o' l where o': "glyphOrigin e = Some o'" "written_at chunks o' l" "0xC0 \<le> l" "l < 256" "utf8Need e \<le> tail_length l"
    "utf8Cp e div 64 ^ (tail_length l - utf8Need e) = lead_bits l"
    using assms by (auto simp: prov_ok_def partial_ok_def)
  let ?cp = "utf8Cp e * 64 + b mod 64"
  have bits: "?cp div 64 ^ (tail_length l - (utf8Need e - 1)) = lead_bits l"
  proof -
    have "tail_length l - (utf8Need e - 1) = Suc (tail_length l - utf8Need e)" using o'(5) assms(2) by linarith
    then show ?thesis
      using o'(6) more_bits [of "b mod 64" "Suc (tail_length l - utf8Need e)" "utf8Cp e"] by (simp del: power_Suc)
  qed
  have c: "cells_in (attributed chunks) e" using assms(1) by (simp add: prov_ok_def)
  show ?thesis
  proof (cases "utf8Need e = 1")
    case False
    then have "1 < utf8Need e" using assms(2) by simp
    then show ?thesis using o' bits c by (auto simp: prov_ok_def partial_ok_def Let_def)
  next
    case True
    have top: "?cp \<le> 0x10FFFF \<or> 0xF0 \<le> l"
    proof -
      have "?cp < (lead_bits l + 1) * 64 ^ tail_length l"
      proof -
        have "?cp div 64 ^ tail_length l < lead_bits l + 1" using bits True by simp
        then show ?thesis by (simp add: div_less_iff_less_mult)
      qed
      moreover have "lead_bits l + 1 \<le> (if tail_length l = 2 then 16 else 32)" if "l < 0xF0"
        using that by (auto simp: lead_bits_def tail_length_def intro: Suc_leI)
      ultimately show ?thesis by (auto simp: tail_length_def split: if_splits)
    qed
    have "begins_glyph l (if ?cp \<le> 0x10FFFF then ?cp else 0xFFFD)"
      using o'(3) bits True top by (auto simp: begins_glyph_def)
    then have "cells_in (attributed chunks) (flush_utf8 (e\<lparr>utf8Cp := ?cp, utf8Need := 0\<rparr>))"
      using o'(1,2) c by (auto simp: flush_utf8_def attributed_def Let_def intro!: glyph_in)
    then show ?thesis using True by (simp add: prov_ok_def partial_ok_def)
  qed
qed

lemma fresh_prov:
  assumes "prov_ok chunks e" and "utf8Need e = 0" and "written_at chunks o' b" and "b < 256"
  shows "prov_ok chunks (fresh_byte b o' e)"
proof -
  have c: "cells_in (attributed chunks) e" using assms(1) by (simp add: prov_ok_def)
  have "cells_in (attributed chunks) (write_glyph ch o' e1)" if "cells_in (attributed chunks) e1" "begins_glyph b ch" for ch e1
    using that assms(3) by (auto simp: attributed_def intro!: glyph_in)
  then have w: "prov_ok chunks (write_glyph ch o' (e\<lparr>glyphOrigin := g\<rparr>))" if "begins_glyph b ch" for ch g
    using that c assms(2) by (simp add: prov_ok_def partial_ok_def)
  have plain: "prov_ok chunks (e\<lparr>engMode := MEsc\<rparr>)" "prov_ok chunks (handle_c0 b e)"
    using c assms(2) by (simp_all add: prov_ok_def partial_ok_def handle_c0_def drawing_in)
  have lead: "prov_ok chunks (e\<lparr>glyphOrigin := Some o', utf8Need := tail_length b, utf8Cp := lead_bits b\<rparr>)" if "0xC0 \<le> b"
    using that c assms(3,4) by (auto simp: prov_ok_def partial_ok_def intro!: exI [of _ b])
  consider "b < 0x80" | "0x80 \<le> b" "b < 0xC0" | "0xC0 \<le> b" "b < 0xE0" | "0xE0 \<le> b" "b < 0xF0" | "0xF0 \<le> b" by linarith
  then show ?thesis
  proof cases
    case 1
    then have "begins_glyph b b" if "0x20 \<le> b" "b \<noteq> 0x7F" using that by (simp add: begins_glyph_def)
    then show ?thesis using 1 assms(1) plain w [of b "glyphOrigin e"] by (simp add: fresh_byte_def)
  next
    case 2
    then show ?thesis using w [of "0xFFFD" "Some o'"] by (simp add: fresh_byte_def begins_glyph_def)
  qed (use lead in \<open>simp_all add: fresh_byte_def tail_length_def lead_bits_def\<close>)
qed

lemma prov_kept:
  assumes "prov_ok chunks e" and "cells_in (attributed chunks) e'" and "utf8Need e' = utf8Need e"
    and "utf8Cp e' = utf8Cp e" and "glyphOrigin e' = glyphOrigin e"
  shows "prov_ok chunks e'"
  using assms by (simp add: prov_ok_def partial_ok_def)

lemma step_prov:
  assumes "prov_ok chunks e" and "written_at chunks o' b" and "b < 256"
  shows "prov_ok chunks (fst (emu_step b o' e))"
proof (cases "engMode e")
  case MGround
  have "prov_ok chunks (e\<lparr>utf8Need := 0, glyphOrigin := None\<rparr>)" using assms(1) by (simp add: prov_ok_def partial_ok_def)
  then show ?thesis
    using MGround assms continuation_prov [OF assms(1)] by (simp add: emu_step_def step_ground_def fresh_prov)
next
  case MEsc
  have "cells_in (attributed chunks) (step_esc b e)"
    using assms(1) by (simp add: prov_ok_def step_esc_def apply_esc_final_def drawing_in)
  then show ?thesis
    using MEsc by (intro prov_kept [OF assms(1)]) (simp_all add: emu_step_def step_esc_def apply_esc_final_def)
next
  case MCsi
  have "cells_in (attributed chunks) (step_csi b e)"
    using assms(1) by (simp add: prov_ok_def step_csi_def csi_in)
  then show ?thesis
    using MCsi by (intro prov_kept [OF assms(1)]) (simp_all add: emu_step_def step_csi_def)
qed (use assms(1) in \<open>auto simp: emu_step_def prov_ok_def partial_ok_def\<close>)

lemma byte_prov: "prov_ok chunks e \<Longrightarrow> written_at chunks o' b \<Longrightarrow> b < 256 \<Longrightarrow> prov_ok chunks (emu_byte b o' e)"
  using step_prov [of chunks e o' b] step_prov [of chunks "fst (emu_step b o' e)" o' b]
  by (simp add: emu_byte_def case_prod_beta)

lemma push_prov: "prov_ok chunks e \<Longrightarrow> ch \<in> set chunks \<Longrightarrow> prov_ok chunks (push_bytes e ch)"
proof -
  assume "ch \<in> set chunks"
  then have w: "written_at chunks (origin_of ch i) (code_of (srcBytes ch ! i))" if "i < length (srcBytes ch)" for i
    using that by (auto simp: written_at_def origin_of_def)
  have "prov_ok chunks e \<Longrightarrow> set is \<subseteq> {..<length (srcBytes ch)} \<Longrightarrow>
      prov_ok chunks (foldl (\<lambda>e i. emu_byte (code_of (srcBytes ch ! i)) (origin_of ch i) e) e is)" for "is"
    by (induction "is" arbitrary: e) (simp_all add: byte_prov w)
  then show "prov_ok chunks e \<Longrightarrow> ?thesis" by (simp add: push_bytes_def lessThan_atLeast0)
qed

lemma run_prov: "set chs \<subseteq> set chunks \<Longrightarrow> prov_ok chunks e \<Longrightarrow> prov_ok chunks (foldl push_bytes e chs)"
  by (induction chs arbitrary: e) (simp_all add: push_prov)

lemma size_push [simp]: "engCols (push_bytes e ch) = engCols e" "engRows (push_bytes e ch) = engRows e"
proof -
  have "engCols (foldl (\<lambda>e i. emu_byte (code_of (srcBytes ch ! i)) (origin_of ch i) e) e is) = engCols e
      \<and> engRows (foldl (\<lambda>e i. emu_byte (code_of (srcBytes ch ! i)) (origin_of ch i) e) e is) = engRows e" for "is"
    by (induction "is" arbitrary: e) simp_all
  then show "engCols (push_bytes e ch) = engCols e" "engRows (push_bytes e ch) = engRows e" by (simp_all add: push_bytes_def)
qed

lemma size_run [simp]: "engCols (foldl push_bytes e chs) = engCols e" "engRows (foldl push_bytes e chs) = engRows e"
  by (induction chs arbitrary: e) simp_all

lemma grid_shape:
  "gridCols (emulate chunks cols rows) = max 1 cols" "gridRows (emulate chunks cols rows) = max 1 rows"
  "length (gridCells (emulate chunks cols rows)) = max 1 cols * max 1 rows"
proof -
  let ?e = "foldl push_bytes (new_engine cols rows) chunks"
  have size: "engCols ?e = max 1 cols" "engRows ?e = max 1 rows" by (simp_all add: new_engine_def)
  have "length (engCells ?e) = engCols ?e * engRows ?e"
    using engine_run_ok [OF new_engine_ok, of cols rows chunks] by (simp only: emu_ok_def)
  with size show "gridCols (emulate chunks cols rows) = max 1 cols" "gridRows (emulate chunks cols rows) = max 1 rows"
    "length (gridCells (emulate chunks cols rows)) = max 1 cols * max 1 rows"
    by (simp_all only: emulate_def emu_snapshot_def attribution_grid.simps)
qed

text \<open>
  C24. The screen is well formed whatever the bytes were, and every written cell names the byte
  that wrote it: a byte of one of the chunks, at the offset and the time recorded, from which the
  grapheme shown begins.
\<close>

theorem screen_attributed:
  "let g = emulate chunks cols rows in
     gridCols g = max 1 cols \<and> gridRows g = max 1 rows \<and> length (gridCells g) = gridCols g * gridRows g
     \<and> cursorRow g < gridRows g \<and> cursorCol g < gridCols g
     \<and> list_all (\<lambda>x. case x of None \<Rightarrow> True | Some x \<Rightarrow> attributed chunks x) (gridCells g)"
proof -
  let ?e = "foldl push_bytes (new_engine cols rows) chunks"
  have ok: "emu_ok ?e" by (rule engine_run_ok [OF new_engine_ok])
  have size: "engCols ?e = max 1 cols" "engRows ?e = max 1 rows" by (simp_all add: new_engine_def)
  have "prov_ok chunks (new_engine cols rows)"
    by (simp add: prov_ok_def partial_ok_def cells_in_def new_engine_def)
  then have "cells_in (attributed chunks) ?e" using run_prov [of chunks chunks] by (simp add: prov_ok_def)
  then have "list_all (\<lambda>x. case x of None \<Rightarrow> True | Some x \<Rightarrow> attributed chunks x) (engCells ?e)"
    unfolding cells_in_def list_all_iff by (metis option.case_eq_if option.collapse)
  then show ?thesis
    using ok unfolding emulate_def emu_snapshot_def emu_ok_def size [symmetric] Let_def by simp
qed

subsection \<open>Printing\<close>

definition printed_cell :: "source_chunk \<Rightarrow> nat \<Rightarrow> attributed_cell option" where
  "printed_cell ch i = Some \<lparr>cellChar = code_of (srcBytes ch ! i), cellOrigin = origin_of ch i, cellPen = DEFAULT_PEN\<rparr>"

definition after_printing :: "source_chunk \<Rightarrow> nat \<Rightarrow> nat \<Rightarrow> nat \<Rightarrow> attribution_engine" where
  "after_printing ch cols rows n =
     (new_engine cols rows)\<lparr>engCells := map (printed_cell ch) [0..<n] @ replicate (max 1 cols * max 1 rows - n) None,
       engCol := min n (max 1 cols - 1), wrapPending := (n = max 1 cols)\<rparr>"

lemma print_one:
  assumes "n < max 1 cols" and "n < length (srcBytes ch)" and "0x20 \<le> code_of (srcBytes ch ! n)" and "code_of (srcBytes ch ! n) < 0x7F"
  shows "emu_byte (code_of (srcBytes ch ! n)) (origin_of ch n) (after_printing ch cols rows n) = after_printing ch cols rows (Suc n)"
proof -
  have room: "n < max 1 cols * max 1 rows"
    using assms(1) by (metis One_nat_def less_le_trans max.cobounded1 mult.right_neutral mult_le_mono2)
  have "(map (printed_cell ch) [0..<n] @ replicate (max 1 cols * max 1 rows - n) None)[n := printed_cell ch n]
      = map (printed_cell ch) [0..<Suc n] @ replicate (max 1 cols * max 1 rows - Suc n) None"
    using room by (simp add: list_update_append Suc_diff_Suc [symmetric] del: upt_Suc) (simp add: Suc_diff_Suc [symmetric])
  moreover have "cols \<le> Suc n \<Longrightarrow> n = max (Suc 0) cols - Suc 0 \<and> Suc n = max (Suc 0) cols"
    using assms(1) by (auto simp: max_def)
  ultimately show ?thesis
    using assms
    by (simp add: emu_byte_def emu_step_def step_ground_def fresh_byte_def write_glyph_def put_glyph_def after_printing_def
        new_engine_def printed_cell_def Let_def)
qed

text \<open>
  What is printed is what is shown: a line of printable characters that fits the width stands
  in the first row of a fresh screen, character by character, with the rest blank and the
  cursor behind it, or on the last column when the line is full.
\<close>

theorem text_printed:
  assumes "list_all (\<lambda>c. 0x20 \<le> code_of c \<and> code_of c < 0x7F) (srcBytes ch)" and "length (srcBytes ch) \<le> max 1 cols"
  shows "let g = emulate [ch] cols rows in
    gridCells g = map (printed_cell ch) [0..<length (srcBytes ch)] @ replicate (max 1 cols * max 1 rows - length (srcBytes ch)) None
    \<and> cursorRow g = 0 \<and> cursorCol g = min (length (srcBytes ch)) (max 1 cols - 1)"
proof -
  have "foldl (\<lambda>e i. emu_byte (code_of (srcBytes ch ! i)) (origin_of ch i) e) (new_engine cols rows) [0..<n]
      = after_printing ch cols rows n" if "n \<le> length (srcBytes ch)" for n
    using that
  proof (induction n)
    case 0
    then show ?case by (simp add: after_printing_def new_engine_def)
  next
    case (Suc n)
    then have "n < max 1 cols" "n < length (srcBytes ch)" using assms(2) by simp_all
    then show ?case using Suc print_one [of n cols ch rows] assms(1) by (simp add: list_all_length)
  qed
  then have "push_bytes (new_engine cols rows) ch = after_printing ch cols rows (length (srcBytes ch))"
    by (simp add: push_bytes_def)
  then show ?thesis by (simp add: emulate_def emu_snapshot_def after_printing_def new_engine_def Let_def)
qed

lemma text_printed_witness:
  "cursorCol (emulate [\<lparr>srcId = 3, srcMs = 0, srcBase = 9, srcBytes = ''hi''\<rparr>] 4 2) = 2"
  using text_printed [of "\<lparr>srcId = 3, srcMs = 0, srcBase = 9, srcBytes = ''hi''\<rparr>" 4 2] by (simp add: Let_def)

subsection \<open>Where the screen departs from a terminal\<close>

abbreviation screen_of :: "string \<Rightarrow> nat \<Rightarrow> nat \<Rightarrow> attribution_grid" where
  "screen_of bytes \<equiv> emulate [\<lparr>srcId = 0, srcMs = 0, srcBase = 0, srcBytes = bytes\<rparr>]"

abbreviation CSI :: string where "CSI \<equiv> [CHR 0x1B, CHR ''['']"

text \<open>
  Outside the scroll region the vertical motions go the wrong way: a cursor above the region
  that moves up, or below it that moves down, lands on the edge of the region.
\<close>

theorem margin_moves_backwards:
  assumes "engRow e < regionTop e \<or> regionBottom e < engRow e"
  shows "if engRow e < regionTop e then engRow (apply_csi [] (CHR ''A'') e) = regionTop e
    else engRow (apply_csi [] (CHR ''B'') e) = regionBottom e"
  using assms by (auto simp: apply_csi_def param_of_def csi_nums_def minus_count_def plus_upto_def move_to_def Let_def)

lemma margin_moves_backwards_witness:
  "let e = (new_engine 4 6)\<lparr>regionTop := 2, regionBottom := 4\<rparr> in engRow e = 0 \<and> engRow (apply_csi [] (CHR ''A'') e) = 2"
  using margin_moves_backwards [of "(new_engine 4 6)\<lparr>regionTop := 2, regionBottom := 4\<rparr>"] by (simp add: new_engine_def Let_def)

text \<open>
  A setting of the keyboard protocol, \<open>CSI > 4 ; 1 m\<close>, is taken for attributes: it makes the text
  after it bold.
\<close>

theorem keyboard_setting_sets_bold:
  "map (map_option (penBold \<circ> cellPen)) (gridCells (screen_of (''a'' @ CSI @ ''>4;1mb'') 2 1)) = [Some False, Some True]"
  by code_simp

text \<open>
  A control sequence interrupted by an escape swallows the escape, so what follows is printed:
  a terminal gives up the first sequence and obeys the second.
\<close>

theorem interrupted_sequence_is_printed:
  "map (map_option cellChar) (gridCells (screen_of (CSI @ ''31'' @ CSI @ ''0mX'') 4 1)) = [Some 91, Some 48, Some 109, Some 88]"
  by code_simp

text \<open>
  \<open>ESC 7\<close> and \<open>ESC 8\<close> save and restore nothing: whatever the state, they only end the sequence.
\<close>

theorem saved_cursor_escapes_ignored:
  assumes "b \<in> {0x37, 0x38}"
  shows "emu_byte b o' (e\<lparr>engMode := MEsc\<rparr>) = e\<lparr>engMode := MGround\<rparr>"
proof -
  have "step_esc b (e\<lparr>engMode := MEsc\<rparr>) = e\<lparr>engMode := MGround\<rparr>"
    using assms by (elim insertE emptyE) (simp_all add: step_esc_def apply_esc_final_def)
  then show ?thesis by (simp add: emu_byte_def emu_step_def)
qed

lemma saved_cursor_escapes_ignored_witness:
  "emu_byte 0x37 (plain_origin 0) ((new_engine 4 2)\<lparr>engMode := MEsc\<rparr>) = new_engine 4 2"
proof -
  have "(new_engine 4 2)\<lparr>engMode := MGround\<rparr> = new_engine 4 2" by (simp add: new_engine_def)
  then show ?thesis using saved_cursor_escapes_ignored [of "0x37" "plain_origin 0" "new_engine 4 2"] by simp
qed

end
