(* ===== verification/Bisect.thy ===== *)
theory Bisect
  imports Emulator
begin

section \<open>Comparing and searching screens\<close>

text \<open>
  Two engines of \<open>examples/web-multiplexer/web/\<close> over recordings and the emulator: the difference of
  two moments (\<open>moment-diff-engine.ts\<close>) and the binary search for the byte that broke a screen
  (\<open>bisect-engine.ts\<close>). The oracle of a search is an argument.
\<close>

subsection \<open>The difference of two moments\<close>

datatype cell_change =
    is_same: CellSame "attributed_cell option"
  | is_added: CellAdded attributed_cell
  | is_removed: CellRemoved attributed_cell
  | is_changed: CellChanged attributed_cell attributed_cell

record cursor_diff =
  cursorBefore :: "nat \<times> nat"
  cursorAfter :: "nat \<times> nat"
  cursorMoved :: bool

record diff_summary =
  sameCells :: nat
  addedCells :: nat
  removedCells :: nat
  changedCells :: nat

record moment_diff =
  diffCols :: nat
  diffRows :: nat
  diffCells :: "cell_change list"
  diffCursor :: cursor_diff
  diffSummary :: diff_summary

definition appears_equal :: "attributed_cell \<Rightarrow> attributed_cell \<Rightarrow> bool" where
  "appears_equal a b \<longleftrightarrow>
     cellChar a = cellChar b \<and> penFg (cellPen a) = penFg (cellPen b) \<and> penBg (cellPen a) = penBg (cellPen b)
     \<and> penBold (cellPen a) = penBold (cellPen b)"

definition cell_change_of :: "attributed_cell option \<Rightarrow> attributed_cell option \<Rightarrow> cell_change" where
  "cell_change_of before after =
     (case before of
        None \<Rightarrow> (case after of None \<Rightarrow> CellSame None | Some a \<Rightarrow> CellAdded a)
      | Some b \<Rightarrow>
          (case after of
             None \<Rightarrow> CellRemoved b
           | Some a \<Rightarrow> if appears_equal b a then CellSame (Some a) else CellChanged b a))"

definition grid_at_moment :: "timeline \<Rightarrow> rat \<Rightarrow> attribution_grid" where
  "grid_at_moment line t =
     emulate [\<lparr>srcId = 0, srcMs = t, srcBase = 0, srcBytes = moment_bytes (LiveMoment t) line\<rparr>]
       (geoCols (snapGeometry (tlSnapshot line))) (geoRows (snapGeometry (tlSnapshot line)))"

definition count_change :: "diff_summary \<Rightarrow> cell_change \<Rightarrow> diff_summary" where
  "count_change s ch =
     (case ch of
        CellSame c \<Rightarrow> s\<lparr>sameCells := sameCells s + 1\<rparr>
      | CellAdded a \<Rightarrow> s\<lparr>addedCells := addedCells s + 1\<rparr>
      | CellRemoved b \<Rightarrow> s\<lparr>removedCells := removedCells s + 1\<rparr>
      | CellChanged b a \<Rightarrow> s\<lparr>changedCells := changedCells s + 1\<rparr>)"

definition diff_grids :: "attribution_grid \<Rightarrow> attribution_grid \<Rightarrow> moment_diff" where
  "diff_grids before after =
     (let cells = map (\<lambda>i. cell_change_of (gridCells before ! i) (gridCells after ! i)) [0..<gridCols before * gridRows before];
          at_before = (cursorRow before, cursorCol before); at_after = (cursorRow after, cursorCol after)
      in \<lparr>diffCols = gridCols before, diffRows = gridRows before, diffCells = cells,
          diffCursor = \<lparr>cursorBefore = at_before, cursorAfter = at_after,
            cursorMoved = (cursorRow before \<noteq> cursorRow after \<or> cursorCol before \<noteq> cursorCol after)\<rparr>,
          diffSummary = foldl count_change \<lparr>sameCells = 0, addedCells = 0, removedCells = 0, changedCells = 0\<rparr> cells\<rparr>)"

definition diff_moments :: "timeline \<Rightarrow> rat \<Rightarrow> rat \<Rightarrow> moment_diff" where
  "diff_moments line beforeMs afterMs = diff_grids (grid_at_moment line beforeMs) (grid_at_moment line afterMs)"

subsection \<open>The search\<close>

datatype verdict = Present | Absent

record bisect_state =
  bisLo :: int
  bisHi :: int

record culprit_byte =
  goodOffset :: int
  badOffset :: int
  culpritOffset :: int

record offending_sequence =
  seqEvent :: escape_event
  seqStart :: nat
  seqEnd :: nat
  seqRaw :: string

definition grid_from_stream :: "scrollback_snapshot \<Rightarrow> recorded_geometry \<Rightarrow> string \<Rightarrow> rat \<Rightarrow> attribution_grid" where
  "grid_from_stream snap geometry stream byteOffset =
     (let n = nat (max 0 (min (int (length stream)) (js_round byteOffset)));
          bytes = seeded_paint snap (take n stream)
      in emulate [\<lparr>srcId = 0, srcMs = 0, srcBase = 0, srcBytes = bytes\<rparr>] (geoCols geometry) (geoRows geometry))"

definition grid_at_offset :: "timeline \<Rightarrow> rat \<Rightarrow> attribution_grid" where
  "grid_at_offset line byteOffset =
     grid_from_stream (tlSnapshot line) (snapGeometry (tlSnapshot line)) (pane_stream_bytes (tlRecording line) (tlPane line)) byteOffset"

definition start_bisect :: "rat \<Rightarrow> bisect_state" where
  "start_bisect streamLength = \<lparr>bisLo = 0, bisHi = max 0 (js_round streamLength)\<rparr>"

definition is_converged :: "bisect_state \<Rightarrow> bool" where
  "is_converged s \<longleftrightarrow> bisHi s - bisLo s \<le> 1"

definition probe_offset :: "bisect_state \<Rightarrow> int" where
  "probe_offset s = bisLo s + (bisHi s - bisLo s) div 2"

definition record_verdict :: "bisect_state \<Rightarrow> verdict \<Rightarrow> bisect_state" where
  "record_verdict s v =
     (if is_converged s then s
      else (case v of Absent \<Rightarrow> s\<lparr>bisLo := probe_offset s\<rparr> | Present \<Rightarrow> s\<lparr>bisHi := probe_offset s\<rparr>))"

definition culprit :: "bisect_state \<Rightarrow> culprit_byte option" where
  "culprit s =
     (if bisHi s - bisLo s \<noteq> 1 then None
      else Some \<lparr>goodOffset = bisLo s, badOffset = bisHi s, culpritOffset = bisLo s\<rparr>)"

text \<open>The loop of \<open>autoBisect\<close>: the probes with their verdicts, and the state it ends in.\<close>

function auto_loop :: "(int \<Rightarrow> bool) \<Rightarrow> bisect_state \<Rightarrow> (int \<times> verdict) list \<times> bisect_state" where
  "auto_loop present s =
     (if is_converged s then ([], s)
      else
        let offset = probe_offset s; v = (if present offset then Present else Absent);
            (steps, s') = auto_loop present (record_verdict s v)
        in ((offset, v) # steps, s'))"
  by pat_completeness auto
termination
proof (relation "measure (\<lambda>(present, s). nat (bisHi s - bisLo s))", goal_cases)
  case (2 present s x xa)
  then have "1 < bisHi s - bisLo s" by (simp add: is_converged_def)
  then have "0 < (bisHi s - bisLo s) div 2" "(bisHi s - bisLo s) div 2 < bisHi s - bisLo s" by linarith+
  then show ?case using 2 by (auto simp: record_verdict_def probe_offset_def)
qed simp

declare auto_loop.simps [simp del]

definition auto_bisect :: "timeline \<Rightarrow> (attribution_grid \<Rightarrow> bool) \<Rightarrow> culprit_byte option \<times> (int \<times> verdict) list" where
  "auto_bisect line predicate =
     (let stream = pane_stream_bytes (tlRecording line) (tlPane line); snap = tlSnapshot line;
          present = (\<lambda>offset. predicate (grid_from_stream snap (snapGeometry snap) stream (of_int offset)));
          (steps, s) = auto_loop present (start_bisect (of_nat (length stream)))
      in (culprit s, steps))"

fun find_event :: "escape_event list \<Rightarrow> nat \<Rightarrow> nat \<Rightarrow> string \<Rightarrow> offending_sequence option" where
  "find_event [] byteOffset offset stream = None"
| "find_event (e # es) byteOffset offset stream =
     (let stop = offset + event_byte_length e in
      if byteOffset < stop
      then Some \<lparr>seqEvent = e, seqStart = offset, seqEnd = stop, seqRaw = take (stop - offset) (drop offset stream)\<rparr>
      else find_event es byteOffset stop stream)"

definition culprit_sequence :: "string \<Rightarrow> int \<Rightarrow> offending_sequence option" where
  "culprit_sequence stream byteOffset =
     (if byteOffset < 0 \<or> int (length stream) \<le> byteOffset then None
      else find_event (parse_escapes stream) (nat byteOffset) 0 stream)"

subsection \<open>A difference is exact\<close>

definition apply_change :: "cell_change \<Rightarrow> attributed_cell option" where
  "apply_change ch =
     (case ch of CellSame c \<Rightarrow> c | CellAdded a \<Rightarrow> Some a | CellRemoved b \<Rightarrow> None | CellChanged b a \<Rightarrow> Some a)"

definition count_kind :: "(cell_change \<Rightarrow> bool) \<Rightarrow> cell_change list \<Rightarrow> nat" where
  "count_kind P chs = length (filter P chs)"

definition appearance :: "attributed_cell option \<Rightarrow> (nat \<times> pen) option" where
  "appearance c = map_option (\<lambda>x. (cellChar x, cellPen x)) c"

lemma appears_equal_iff: "appears_equal a b \<longleftrightarrow> appearance (Some a) = appearance (Some b)"
  by (auto simp: appears_equal_def appearance_def)

lemma change_cases:
  "apply_change (cell_change_of b a) = a"
  "(\<exists>c. cell_change_of b a = CellSame c) \<longleftrightarrow> appearance b = appearance a"
  by (auto simp: apply_change_def cell_change_of_def appears_equal_iff appearance_def split: option.splits)

lemma summary_counts:
  "foldl count_change s chs =
     \<lparr>sameCells = sameCells s + count_kind is_same chs, addedCells = addedCells s + count_kind is_added chs,
      removedCells = removedCells s + count_kind is_removed chs, changedCells = changedCells s + count_kind is_changed chs\<rparr>"
  by (induction chs arbitrary: s) (simp_all add: count_kind_def count_change_def split: cell_change.split)

lemma moment_grid_size:
  "length (gridCells (grid_at_moment line t)) = gridCols (grid_at_moment line t) * gridRows (grid_at_moment line t)"
  "gridCols (grid_at_moment line t) = max 1 (geoCols (snapGeometry (tlSnapshot line)))"
  "gridRows (grid_at_moment line t) = max 1 (geoRows (snapGeometry (tlSnapshot line)))"
  using grid_shape by (simp_all add: grid_at_moment_def)

text \<open>
  A difference of two moments is exact: applied to the earlier screen it gives the later one
  cell by cell, a cell is reported as the same just if it looks the same, the four counts are
  those of the cells and make up the screen, and the cursor has moved just if it is elsewhere.
\<close>

theorem moment_diff_exact:
  "let b = grid_at_moment line t1; a = grid_at_moment line t2; d = diff_moments line t1 t2; s = diffSummary d in
     map apply_change (diffCells d) = gridCells a
     \<and> map is_same (diffCells d) = map2 (\<lambda>x y. appearance x = appearance y) (gridCells b) (gridCells a)
     \<and> sameCells s = count_kind is_same (diffCells d) \<and> addedCells s = count_kind is_added (diffCells d)
     \<and> removedCells s = count_kind is_removed (diffCells d) \<and> changedCells s = count_kind is_changed (diffCells d)
     \<and> sameCells s + addedCells s + removedCells s + changedCells s = diffCols d * diffRows d
     \<and> (cursorMoved (diffCursor d) \<longleftrightarrow> (cursorRow b, cursorCol b) \<noteq> (cursorRow a, cursorCol a))"
proof -
  let ?b = "grid_at_moment line t1" and ?a = "grid_at_moment line t2"
  let ?d = "diff_moments line t1 t2"
  note size = moment_grid_size [of line]
  have cells: "diffCells ?d = map2 cell_change_of (gridCells ?b) (gridCells ?a)"
    by (rule nth_equalityI) (simp_all add: diff_moments_def diff_grids_def size Let_def)
  have all: "count_kind is_same chs + count_kind is_added chs + count_kind is_removed chs + count_kind is_changed chs = length chs" for chs
  proof (induction chs)
    case (Cons ch chs)
    then show ?case by (cases ch) (simp_all add: count_kind_def)
  qed (simp add: count_kind_def)
  have "map apply_change (diffCells ?d) = gridCells ?a"
    unfolding cells by (rule nth_equalityI) (simp_all add: size change_cases)
  moreover have "map is_same (diffCells ?d) = map2 (\<lambda>x y. appearance x = appearance y) (gridCells ?b) (gridCells ?a)"
    unfolding cells by (simp add: comp_def case_prod_beta is_same_def change_cases)
  moreover have "length (diffCells ?d) = diffCols ?d * diffRows ?d" "diffSummary ?d = foldl count_change \<lparr>sameCells = 0, addedCells = 0, removedCells = 0, changedCells = 0\<rparr> (diffCells ?d)"
    by (simp_all add: diff_moments_def diff_grids_def Let_def)
  moreover have "cursorMoved (diffCursor ?d) \<longleftrightarrow> (cursorRow ?b, cursorCol ?b) \<noteq> (cursorRow ?a, cursorCol ?a)"
    by (simp add: diff_moments_def diff_grids_def Let_def)
  ultimately show ?thesis using all [of "diffCells ?d"] by (simp add: summary_counts Let_def)
qed

subsection \<open>The search ends at the break\<close>

lemma verdict_step:
  assumes "\<not> is_converged s" and "v = (if present (probe_offset s) then Present else Absent)"
  shows "bisLo s \<le> bisLo (record_verdict s v)" "bisHi (record_verdict s v) \<le> bisHi s"
    "bisLo (record_verdict s v) < bisHi (record_verdict s v)"
    "bisLo (record_verdict s v) = bisLo s \<or> \<not> present (bisLo (record_verdict s v))"
    "bisHi (record_verdict s v) = bisHi s \<or> present (bisHi (record_verdict s v))"
    "2 * (bisHi (record_verdict s v) - bisLo (record_verdict s v)) \<le> bisHi s - bisLo s + 1"
  using assms by (auto simp: record_verdict_def probe_offset_def is_converged_def)

lemma auto_loop_spec:
  assumes "auto_loop present s = (steps, s')" and "bisLo s < bisHi s"
  shows "bisHi s' = bisLo s' + 1 \<and> bisLo s \<le> bisLo s' \<and> bisLo s' + 1 \<le> bisHi s
    \<and> (bisLo s' = bisLo s \<or> \<not> present (bisLo s')) \<and> (bisLo s' + 1 = bisHi s \<or> present (bisLo s' + 1))
    \<and> list_all (\<lambda>(offset, v). bisLo s < offset \<and> offset < bisHi s \<and> v = (if present offset then Present else Absent)) steps
    \<and> (\<forall>k. bisHi s - bisLo s \<le> 2 ^ k \<longrightarrow> length steps \<le> k)"
  using assms
proof (induction present s arbitrary: steps s' rule: auto_loop.induct)
  case (1 present s)
  show ?case
  proof (cases "is_converged s")
    case True
    then show ?thesis using 1 by (auto simp: auto_loop.simps is_converged_def)
  next
    case False
    let ?v = "if present (probe_offset s) then Present else Absent"
    let ?s = "record_verdict s ?v"
    obtain steps1 where l: "auto_loop present ?s = (steps1, s')" and st: "steps = (probe_offset s, ?v) # steps1"
      using "1.prems"(1) False by (subst (asm) auto_loop.simps) (auto simp: Let_def split: prod.splits)
    note step = verdict_step [OF False refl, of present]
    note IH = "1.IH" [OF False refl refl l step(3)]
    have probe: "bisLo s < probe_offset s" "probe_offset s < bisHi s"
      using False by (auto simp: probe_offset_def is_converged_def)
    have few: "length steps \<le> k" if le: "bisHi s - bisLo s \<le> 2 ^ k" for k
    proof -
      have "1 < bisHi s - bisLo s" using False by (simp add: is_converged_def)
      then obtain k' where k: "k = Suc k'" using le by (cases k) auto
      have "bisHi ?s - bisLo ?s \<le> 2 ^ k'" using step(6) le k by simp
      then show ?thesis using IH st k by simp
    qed
    have "list_all (\<lambda>(offset, v). bisLo s < offset \<and> offset < bisHi s \<and> v = (if present offset then Present else Absent)) steps"
      using IH step(1,2) probe st by (auto simp: list_all_iff)
    moreover from IH have "bisHi s' = bisLo s' + 1" "bisLo ?s \<le> bisLo s'" "bisLo s' + 1 \<le> bisHi ?s"
      "bisLo s' = bisLo ?s \<or> \<not> present (bisLo s')" "bisLo s' + 1 = bisHi ?s \<or> present (bisLo s' + 1)"
      by blast+
    moreover from this have "bisLo s \<le> bisLo s'" "bisLo s' + 1 \<le> bisHi s"
      "bisLo s' = bisLo s \<or> \<not> present (bisLo s')" "bisLo s' + 1 = bisHi s \<or> present (bisLo s' + 1)"
      using step by auto
    ultimately show ?thesis using few by simp
  qed
qed

text \<open>The verdict of the oracle after a number of bytes of the stream.\<close>

definition broken_at :: "timeline \<Rightarrow> (attribution_grid \<Rightarrow> bool) \<Rightarrow> int \<Rightarrow> bool" where
  "broken_at line predicate n \<longleftrightarrow> predicate (grid_at_offset line (of_int n))"

lemma js_round_int: "js_round (of_int n) = n"
  by (simp add: js_round_def floor_eq_iff)

lemma auto_bisect_runs:
  "auto_bisect line predicate =
     (let stream = pane_stream_bytes (tlRecording line) (tlPane line);
          (steps, s) = auto_loop (broken_at line predicate) \<lparr>bisLo = 0, bisHi = int (length stream)\<rparr>
      in (culprit s, steps))"
proof -
  have "start_bisect (of_nat n) = \<lparr>bisLo = 0, bisHi = int n\<rparr>" for n
    using js_round_int [of "int n"] by (simp add: start_bisect_def)
  moreover have "(\<lambda>offset. predicate (grid_from_stream (tlSnapshot line) (snapGeometry (tlSnapshot line))
      (pane_stream_bytes (tlRecording line) (tlPane line)) (of_int offset))) = broken_at line predicate"
    by (simp add: broken_at_def grid_at_offset_def fun_eq_iff)
  ultimately show ?thesis unfolding auto_bisect_def Let_def by simp
qed

text \<open>
  C23. A search always ends at a break: for a stream of at most \<open>2 ^ k\<close> bytes it makes at most \<open>k\<close>
  probes, each strictly inside the stream with the oracle's verdict on the screen there, and
  names one byte, before which the screen is good or the seed, and with which it is bad or final.
\<close>

theorem bisect_finds_break:
  assumes "stream = pane_stream_bytes (tlRecording line) (tlPane line)" and "0 < length stream" and "length stream \<le> 2 ^ k"
  shows "case auto_bisect line predicate of (found, steps) \<Rightarrow>
    length steps \<le> k
    \<and> list_all (\<lambda>(n, v). 0 < n \<and> n < int (length stream) \<and> v = (if broken_at line predicate n then Present else Absent)) steps
    \<and> (case found of None \<Rightarrow> False
       | Some c \<Rightarrow>
           0 \<le> goodOffset c \<and> goodOffset c < int (length stream) \<and> badOffset c = goodOffset c + 1 \<and> culpritOffset c = goodOffset c
           \<and> (goodOffset c = 0 \<or> \<not> broken_at line predicate (goodOffset c))
           \<and> (badOffset c = int (length stream) \<or> broken_at line predicate (badOffset c)))"
proof -
  obtain steps s where l: "auto_loop (broken_at line predicate) \<lparr>bisLo = 0, bisHi = int (length stream)\<rparr> = (steps, s)" by fastforce
  have "int (length stream) \<le> 2 ^ k"
    using assms(3) by (metis of_nat_le_iff of_nat_numeral of_nat_power)
  with auto_loop_spec [OF l] assms(2) have "bisHi s = bisLo s + 1 \<and> 0 \<le> bisLo s \<and> bisLo s + 1 \<le> int (length stream)
    \<and> (bisLo s = 0 \<or> \<not> broken_at line predicate (bisLo s))
    \<and> (bisLo s + 1 = int (length stream) \<or> broken_at line predicate (bisLo s + 1))
    \<and> list_all (\<lambda>(n, v). 0 < n \<and> n < int (length stream) \<and> v = (if broken_at line predicate n then Present else Absent)) steps
    \<and> length steps \<le> k"
    by simp
  then have e: "bisHi s = bisLo s + 1" "0 \<le> bisLo s" "bisLo s + 1 \<le> int (length stream)"
    "bisLo s = 0 \<or> \<not> broken_at line predicate (bisLo s)"
    "bisLo s + 1 = int (length stream) \<or> broken_at line predicate (bisLo s + 1)"
    "list_all (\<lambda>(n, v). 0 < n \<and> n < int (length stream) \<and> v = (if broken_at line predicate n then Present else Absent)) steps"
    "length steps \<le> k"
    by auto
  have "auto_bisect line predicate = (Some \<lparr>goodOffset = bisLo s, badOffset = bisLo s + 1, culpritOffset = bisLo s\<rparr>, steps)"
    using l e(1) assms(1) by (simp add: auto_bisect_runs culprit_def Let_def)
  then show ?thesis using e by simp
qed

text \<open>
  When the bug stays once it has appeared, the byte found is the one that brings it: no
  shorter prefix of the stream shows it and every longer one does.
\<close>

theorem bisect_exact_when_monotone:
  assumes "\<forall>m n. 0 \<le> m \<longrightarrow> m \<le> n \<longrightarrow> broken_at line predicate m \<longrightarrow> broken_at line predicate n"
    and "\<not> broken_at line predicate 0"
    and "broken_at line predicate (int (length (pane_stream_bytes (tlRecording line) (tlPane line))))"
  shows "\<exists>c. fst (auto_bisect line predicate) = Some c \<and> (\<forall>n\<ge>0. broken_at line predicate n \<longleftrightarrow> culpritOffset c < n)"
proof -
  let ?stream = "pane_stream_bytes (tlRecording line) (tlPane line)"
  have len: "0 < length ?stream" using assms(2,3) by (cases ?stream) auto
  obtain steps s where l: "auto_loop (broken_at line predicate) \<lparr>bisLo = 0, bisHi = int (length ?stream)\<rparr> = (steps, s)" by fastforce
  have s: "bisHi s = bisLo s + 1" "0 \<le> bisLo s" "\<not> broken_at line predicate (bisLo s)" "broken_at line predicate (bisLo s + 1)"
    using auto_loop_spec [OF l] len assms(2,3) by auto
  have "broken_at line predicate n \<longleftrightarrow> bisLo s < n" if "0 \<le> n" for n
  proof
    assume "broken_at line predicate n"
    then show "bisLo s < n" using s(3) assms(1) that by (meson not_less)
  next
    assume "bisLo s < n"
    then show "broken_at line predicate n" using s assms(1) by (metis add_increasing2 zero_le_one zless_imp_add1_zle)
  qed
  then show ?thesis using l s(1) by (simp add: auto_bisect_runs culprit_def Let_def)
qed

definition two_letters :: timeline where
  "two_letters =
     \<lparr>tlSnapshot = \<lparr>snapPane = 0, snapGeometry = \<lparr>geoCols = 3, geoRows = 1\<rparr>, snapLines = []\<rparr>,
      tlRecording = build_recording [\<lparr>chunkPane = 0, chunkMs = 1, chunkBytes = ''ab''\<rparr>] [],
      tlPane = 0, tlDuration = 1\<rparr>"

definition second_written :: "attribution_grid \<Rightarrow> bool" where
  "second_written g \<longleftrightarrow> gridCells g ! 1 \<noteq> None"

lemma two_letters_stream: "pane_stream_bytes (tlRecording two_letters) (tlPane two_letters) = ''ab''"
  by code_simp

lemma two_letters_broken: "0 \<le> n \<Longrightarrow> broken_at two_letters second_written n \<longleftrightarrow> 2 \<le> n"
proof -
  assume n: "0 \<le> n"
  let ?screen = "\<lambda>k. emulate [\<lparr>srcId = 0, srcMs = 0, srcBase = 0, srcBytes = seeded_paint (tlSnapshot two_letters) (take k ''ab'')\<rparr>] 3 1"
  have "broken_at two_letters second_written n \<longleftrightarrow> second_written (?screen (nat (max 0 (min 2 n))))"
    by (simp only: broken_at_def grid_at_offset_def two_letters_stream grid_from_stream_def js_round_int Let_def)
       (simp add: two_letters_def)
  moreover have w: "\<not> second_written (?screen 0)" "\<not> second_written (?screen 1)" "second_written (?screen 2)" by code_simp+
  moreover have "n = 0 \<and> nat (max 0 (min 2 n)) = 0 \<or> n = 1 \<and> nat (max 0 (min 2 n)) = 1 \<or> 2 \<le> n \<and> nat (max 0 (min 2 n)) = 2"
    using n by auto
  ultimately show ?thesis by (elim disjE conjE) (simp_all only:, simp_all)
qed

lemma bisect_finds_break_witness:
  "case auto_bisect two_letters second_written of (found, steps) \<Rightarrow> length steps \<le> 1 \<and> found \<noteq> None"
  using bisect_finds_break [of "''ab''" two_letters 1 second_written]
  by (auto simp: two_letters_stream split: prod.splits option.splits)

lemma bisect_exact_when_monotone_witness:
  "\<exists>c. fst (auto_bisect two_letters second_written) = Some c \<and> culpritOffset c < 2 \<and> \<not> culpritOffset c < 1"
proof -
  have "\<exists>c. fst (auto_bisect two_letters second_written) = Some c \<and>
      (\<forall>n\<ge>0. broken_at two_letters second_written n \<longleftrightarrow> culpritOffset c < n)"
    by (rule bisect_exact_when_monotone) (simp_all add: two_letters_broken two_letters_stream)
  then show ?thesis using two_letters_broken [of 1] two_letters_broken [of 2] by auto
qed

subsection \<open>Naming the sequence\<close>

lemma find_event_spec:
  "offset \<le> byteOffset \<Longrightarrow>
     (case find_event es byteOffset offset stream of
        None \<Rightarrow> offset + sum_list (map event_byte_length es) \<le> byteOffset
      | Some q \<Rightarrow>
          seqStart q \<le> byteOffset \<and> byteOffset < seqEnd q \<and> seqEnd q \<le> offset + sum_list (map event_byte_length es)
          \<and> seqEvent q \<in> set es \<and> seqEnd q = seqStart q + event_byte_length (seqEvent q)
          \<and> seqRaw q = take (event_byte_length (seqEvent q)) (drop (seqStart q) stream))"
proof (induction es arbitrary: offset)
  case (Cons e es)
  show ?case
  proof (cases "byteOffset < offset + event_byte_length e")
    case True
    then show ?thesis using Cons.prems by (simp add: Let_def)
  next
    case False
    then show ?thesis using Cons.IH [of "offset + event_byte_length e"] by (auto simp: Let_def split: option.splits)
  qed
qed simp

text \<open>
  The sequence named for a byte is the event it lies in: its bounds enclose the byte and stay
  within the stream, and its bytes are those of the stream between them. A byte of the stream has
  no name only behind an event that broke off.
\<close>

theorem culprit_named:
  "case culprit_sequence stream n of
     None \<Rightarrow>
       n < 0 \<or> int (length stream) \<le> n
       \<or> parse_escapes stream \<noteq> [] \<and> breaks_off (last (parse_escapes stream))
         \<and> int (sum_list (map event_byte_length (parse_escapes stream))) \<le> n
   | Some q \<Rightarrow>
       int (seqStart q) \<le> n \<and> n < int (seqEnd q) \<and> seqEnd q \<le> length stream
       \<and> seqEvent q \<in> set (parse_escapes stream)
       \<and> length (seqRaw q) = event_byte_length (seqEvent q) \<and> seqRaw q = take (seqEnd q - seqStart q) (drop (seqStart q) stream)"
proof (cases "n < 0 \<or> int (length stream) \<le> n")
  case True
  then show ?thesis by (auto simp: culprit_sequence_def)
next
  case False
  have tile: "sum_list (map event_byte_length (parse_escapes stream)) \<le> length stream"
    "sum_list (map event_byte_length (parse_escapes stream)) = length stream
      \<or> parse_escapes stream \<noteq> [] \<and> breaks_off (last (parse_escapes stream))"
    using events_tiling [of stream] by (simp_all add: Let_def)
  show ?thesis
  proof (cases "find_event (parse_escapes stream) (nat n) 0 stream")
    case None
    then show ?thesis using False tile find_event_spec [of 0 "nat n" "parse_escapes stream" stream]
      by (auto simp: culprit_sequence_def)
  next
    case (Some q)
    then show ?thesis using False tile find_event_spec [of 0 "nat n" "parse_escapes stream" stream]
      by (auto simp: culprit_sequence_def)
  qed
qed

text \<open>
  Behind an interrupted control sequence no byte has a name, wherever the search converged.
\<close>

theorem culprit_unnamed:
  assumes "3 \<le> n"
  shows "culprit_sequence ([CHR 0x1B, CHR 0x5B, CHR ''1'', CHR 0x07] @ rest) n = None"
proof -
  have "find_event [IncompleteEvent ''ESC [ 1'' 3] (nat n) 0 s = None" for s
    using assms by (simp add: Let_def)
  then show ?thesis unfolding culprit_sequence_def interrupted_parse by simp
qed

lemma culprit_unnamed_witness:
  "culprit_sequence ([CHR 0x1B, CHR 0x5B, CHR ''1'', CHR 0x07] @ ''rm -rf'') 5 = None"
  by (rule culprit_unnamed) simp

end
