(* ===== verification/Broadcast.thy ===== *)
theory Broadcast
  imports Prelude
begin

section \<open>Broadcast templates\<close>

text \<open>
  \<open>examples/web-multiplexer/web/broadcast-engine.ts\<close>: a template typed once and resolved for every
  pane it is sent to. Text is a list of UTF-16 code units, a record of bindings a list of pairs.
\<close>

subsection \<open>The template language\<close>

datatype template_token = Literal "nat list" | Variable "nat list"

abbreviation DOLLAR :: nat where "DOLLAR \<equiv> 36"
abbreviation OPEN_BRACE :: nat where "OPEN_BRACE \<equiv> 123"
abbreviation CLOSE_BRACE :: nat where "CLOSE_BRACE \<equiv> 125"

definition var_start :: "nat \<Rightarrow> bool" where
  "var_start u \<longleftrightarrow> (65 \<le> u \<and> u \<le> 90) \<or> (97 \<le> u \<and> u \<le> 122) \<or> u = 95"

definition var_char :: "nat \<Rightarrow> bool" where
  "var_char u \<longleftrightarrow> var_start u \<or> (48 \<le> u \<and> u \<le> 57)"

definition flush_literal :: "nat list \<Rightarrow> template_token list" where
  "flush_literal literal = (if literal = [] then [] else [Literal literal])"

function (sequential) parse_tokens :: "nat list \<Rightarrow> nat list \<Rightarrow> template_token list" where
  "parse_tokens literal [] = flush_literal literal"
| "parse_tokens literal (c # s) =
     (if c \<noteq> DOLLAR then parse_tokens (literal @ [c]) s
      else (case s of
          [] \<Rightarrow> parse_tokens (literal @ [DOLLAR]) s
        | nxt # r \<Rightarrow>
            if nxt = DOLLAR then parse_tokens (literal @ [DOLLAR]) r
            else if nxt = OPEN_BRACE then
              (let name = takeWhile (\<lambda>u. u \<noteq> CLOSE_BRACE) r; close = dropWhile (\<lambda>u. u \<noteq> CLOSE_BRACE) r in
               if close \<noteq> [] \<and> name \<noteq> [] \<and> list_all var_char name
               then flush_literal literal @ Variable name # parse_tokens [] (drop 1 close)
               else parse_tokens (literal @ [DOLLAR]) s)
            else if var_start nxt
            then flush_literal literal @ Variable (takeWhile var_char s) # parse_tokens [] (dropWhile var_char s)
            else parse_tokens (literal @ [DOLLAR]) s))"
  by pat_completeness auto
termination
  by (relation "measure (\<lambda>(literal, s). length s)") (auto simp: less_Suc_eq_le intro: le_trans [OF diff_le_self] le_SucI length_dropWhile_le)

definition parse_template :: "nat list \<Rightarrow> template_token list" where
  "parse_template template = parse_tokens [] template"

fun vars_from :: "nat list list \<Rightarrow> template_token list \<Rightarrow> nat list list" where
  "vars_from order [] = order"
| "vars_from order (t # ts) =
     vars_from (case t of Literal x \<Rightarrow> order | Variable name \<Rightarrow> if name \<in> set order then order else order @ [name]) ts"

definition template_vars :: "nat list \<Rightarrow> nat list list" where
  "template_vars template = vars_from [] (parse_template template)"

subsection \<open>Bindings\<close>

record pane_facts =
  factPaneId :: int
  factPaneIndex :: int
  factTitle :: "nat list"
  factWidth :: int
  factHeight :: int
  factWindowName :: "nat list"
  factWindowIndex :: int
  factSessionName :: "nat list"

definition units :: "string \<Rightarrow> nat list" where
  "units s = map code_of s"

definition BUILTIN_VARS :: "nat list list" where
  "BUILTIN_VARS = map units [''pane'', ''index'', ''title'', ''width'', ''height'', ''window'', ''windowindex'', ''session'']"

definition builtin_bindings :: "pane_facts \<Rightarrow> (nat list \<times> nat list) list" where
  "builtin_bindings f =
     [(units ''pane'', units (int_str (factPaneId f))), (units ''index'', units (int_str (factPaneIndex f))),
      (units ''title'', factTitle f), (units ''width'', units (int_str (factWidth f))),
      (units ''height'', units (int_str (factHeight f))), (units ''window'', factWindowName f),
      (units ''windowindex'', units (int_str (factWindowIndex f))), (units ''session'', factSessionName f)]"

subsection \<open>Resolution\<close>

record pane_bindings =
  targetPane :: nat
  targetBindings :: "(nat list \<times> nat list) list"

datatype pane_resolution = Resolved nat "nat list" | Unresolved nat "nat list list"

definition ENTER :: "nat list" where
  "ENTER = [13]"

fun resolve_tokens :: "(nat list \<times> nat list) list \<Rightarrow> template_token list \<Rightarrow> nat list \<times> nat list list \<Rightarrow> nat list \<times> nat list list" where
  "resolve_tokens bs [] acc = acc"
| "resolve_tokens bs (t # ts) (txt, missing) =
     resolve_tokens bs ts
       (case t of
          Literal x \<Rightarrow> (txt @ x, missing)
        | Variable name \<Rightarrow>
            (case map_of bs name of
               Some v \<Rightarrow> (txt @ v, missing)
             | None \<Rightarrow> (txt, if name \<in> set missing then missing else missing @ [name])))"

definition resolve_one :: "template_token list \<Rightarrow> pane_bindings \<Rightarrow> nat list \<Rightarrow> pane_resolution" where
  "resolve_one tokens t suffix =
     (let (txt, missing) = resolve_tokens (targetBindings t) tokens ([], []) in
      if missing \<noteq> [] then Unresolved (targetPane t) missing else Resolved (targetPane t) (txt @ suffix))"

definition resolve_broadcast :: "nat list \<Rightarrow> pane_bindings list \<Rightarrow> bool \<Rightarrow> pane_resolution list" where
  "resolve_broadcast template targets appendEnter =
     (let tokens = parse_template template; suffix = (if appendEnter then ENTER else [])
      in map (\<lambda>t. resolve_one tokens t suffix) targets)"

fun sendable_panes :: "pane_resolution list \<Rightarrow> (nat \<times> nat list) list" where
  "sendable_panes [] = []"
| "sendable_panes (r # rs) =
     (case r of Resolved p txt \<Rightarrow> (p, txt) # sendable_panes rs | Unresolved p missing \<Rightarrow> sendable_panes rs)"

subsection \<open>Templates can be written\<close>

text \<open>The text of a token: dollars doubled, names in braces.\<close>

definition spell_token :: "template_token \<Rightarrow> nat list" where
  "spell_token t =
     (case t of
        Literal x \<Rightarrow> concat (map (\<lambda>u. if u = DOLLAR then [DOLLAR, DOLLAR] else [u]) x)
      | Variable name \<Rightarrow> [DOLLAR, OPEN_BRACE] @ name @ [CLOSE_BRACE])"

text \<open>Tokens as the parser makes them: no empty literal, no two in a row, every name well formed.\<close>

fun tokens_ok :: "template_token list \<Rightarrow> bool" where
  "tokens_ok [] \<longleftrightarrow> True"
| "tokens_ok (t # ts) \<longleftrightarrow>
     (case t of
        Literal x \<Rightarrow> x \<noteq> [] \<and> (case ts of Literal y # us \<Rightarrow> False | _ \<Rightarrow> True)
      | Variable name \<Rightarrow> name \<noteq> [] \<and> list_all var_char name)
     \<and> tokens_ok ts"

lemma var_char_not_close: "list_all var_char name \<Longrightarrow> u \<in> set name \<Longrightarrow> u \<noteq> CLOSE_BRACE"
  by (auto simp: list_all_iff var_char_def var_start_def)

lemma parse_spelled_literal:
  "parse_tokens literal (spell_token (Literal x) @ s) = parse_tokens (literal @ x) s"
  by (induction x arbitrary: literal) (simp_all add: spell_token_def)

lemma parse_spelled_variable:
  assumes "name \<noteq> []" and "list_all var_char name"
  shows "parse_tokens literal (spell_token (Variable name) @ s) = flush_literal literal @ Variable name # parse_tokens [] s"
proof -
  have "takeWhile (\<lambda>u. u \<noteq> CLOSE_BRACE) (name @ CLOSE_BRACE # s) = name"
    "dropWhile (\<lambda>u. u \<noteq> CLOSE_BRACE) (name @ CLOSE_BRACE # s) = CLOSE_BRACE # s"
    using var_char_not_close [OF assms(2)] by (simp_all add: takeWhile_append2 dropWhile_append2)
  then show ?thesis using assms by (simp add: spell_token_def Let_def)
qed

lemma parse_spelled:
  "tokens_ok ts \<Longrightarrow> (literal = [] \<or> (case ts of Literal y # us \<Rightarrow> False | _ \<Rightarrow> True)) \<Longrightarrow>
     parse_tokens literal (concat (map spell_token ts)) = flush_literal literal @ ts"
proof (induction ts arbitrary: literal)
  case (Cons t ts)
  show ?case
  proof (cases t)
    case (Literal x)
    then have "literal = []" "x \<noteq> []" "tokens_ok ts" "case ts of Literal y # us \<Rightarrow> False | _ \<Rightarrow> True"
      using Cons.prems by auto
    then show ?thesis
      using Cons.IH [of x] Literal by (simp add: parse_spelled_literal flush_literal_def del: parse_tokens.simps)
  next
    case (Variable name)
    then show ?thesis
      using Cons.prems Cons.IH [of "[]"] by (simp add: parse_spelled_variable flush_literal_def del: parse_tokens.simps)
  qed
qed simp

lemma parse_normal: "tokens_ok ts \<Longrightarrow> parse_template (concat (map spell_token ts)) = ts"
  by (simp add: parse_template_def parse_spelled flush_literal_def del: parse_tokens.simps)

text \<open>
  Every template can be written: dollars doubled and names in braces, a list of tokens is read
  back as it is, so no literal text is ever taken for a variable.
\<close>

theorem template_roundtrip:
  assumes "tokens_ok ts"
  shows "parse_template (concat (map spell_token ts)) = ts"
  using assms by (rule parse_normal)

lemma template_roundtrip_witness:
  "parse_template (units ''echo $$5 ${host}.local'') = [Literal (units ''echo $5 ''), Variable (units ''host''), Literal (units ''.local'')]"
proof -
  let ?ts = "[Literal (units ''echo $5 ''), Variable (units ''host''), Literal (units ''.local'')]"
  have "tokens_ok ?ts" "concat (map spell_token ?ts) = units ''echo $$5 ${host}.local''" by code_simp+
  then show ?thesis using template_roundtrip [of ?ts] by simp
qed

subsection \<open>Resolution is exact\<close>

definition token_value :: "(nat list \<times> nat list) list \<Rightarrow> template_token \<Rightarrow> nat list" where
  "token_value bs t = (case t of Literal x \<Rightarrow> x | Variable name \<Rightarrow> (case map_of bs name of Some v \<Rightarrow> v | None \<Rightarrow> []))"

definition unbound :: "(nat list \<times> nat list) list \<Rightarrow> nat list \<Rightarrow> bool" where
  "unbound bs name \<longleftrightarrow> map_of bs name = None"

lemma vars_from_grows: "\<exists>new. vars_from order ts = order @ new \<and> distinct new \<and> set new \<inter> set order = {}"
proof (induction ts arbitrary: order)
  case (Cons t ts)
  show ?case
  proof (cases "\<exists>name. t = Variable name \<and> name \<notin> set order")
    case True
    then obtain name where t: "t = Variable name" "name \<notin> set order" by blast
    obtain new where "vars_from (order @ [name]) ts = (order @ [name]) @ new" "distinct new" "set new \<inter> set (order @ [name]) = {}"
      using Cons.IH [of "order @ [name]"] by blast
    then show ?thesis using t by (intro exI [of _ "name # new"]) auto
  next
    case False
    then have "vars_from order (t # ts) = vars_from order ts" by (cases t) auto
    then show ?thesis using Cons.IH [of order] by simp
  qed
qed simp

lemma resolve_tokens_spec:
  "missing = filter (unbound bs) order \<Longrightarrow>
     resolve_tokens bs ts (txt, missing) = (txt @ concat (map (token_value bs) ts), filter (unbound bs) (vars_from order ts))"
proof (induction ts arbitrary: "txt" missing order)
  case (Cons t ts)
  show ?case
  proof (cases t)
    case (Literal x)
    then show ?thesis using Cons.IH [OF Cons.prems, of "txt @ x"] by (simp add: token_value_def)
  next
    case (Variable name)
    show ?thesis
    proof (cases "map_of bs name")
      case None
      then have "unbound bs name" by (simp add: unbound_def)
      then have "(if name \<in> set missing then missing else missing @ [name])
          = filter (unbound bs) (if name \<in> set order then order else order @ [name])"
        using Cons.prems by auto
      from Cons.IH [OF this, of "txt"] show ?thesis using Variable None by (simp add: token_value_def)
    next
      case (Some v)
      then have "\<not> unbound bs name" by (simp add: unbound_def)
      then have "missing = filter (unbound bs) (if name \<in> set order then order else order @ [name])"
        using Cons.prems by simp
      from Cons.IH [OF this, of "txt @ v"] show ?thesis using Variable Some by (simp add: token_value_def)
    qed
  qed
qed simp

lemma resolve_one_spec:
  "resolve_one (parse_template template) t suffix =
     (let missing = filter (unbound (targetBindings t)) (template_vars template) in
      if missing = [] then Resolved (targetPane t) (concat (map (token_value (targetBindings t)) (parse_template template)) @ suffix)
      else Unresolved (targetPane t) missing)"
  using resolve_tokens_spec [of "[]" "targetBindings t" "[]" "parse_template template" "[]"]
  by (simp add: resolve_one_def template_vars_def Let_def)

text \<open>
  C33. A broadcast sends nothing half-formed: the panes sent to are just those that bind every
  variable of the template, in order, each with the literal text and its own values, inserted as
  they are, and Enter if asked; every other pane names the variables it lacks, each once, in
  order of appearance.
\<close>

theorem broadcast_exact:
  "sendable_panes (resolve_broadcast template targets enter) =
     map (\<lambda>t. (targetPane t, concat (map (token_value (targetBindings t)) (parse_template template)) @ (if enter then ENTER else [])))
       (filter (\<lambda>t. \<not> list_ex (unbound (targetBindings t)) (template_vars template)) targets)
   \<and> filter (\<lambda>r. case r of Unresolved p missing \<Rightarrow> True | Resolved p txt \<Rightarrow> False) (resolve_broadcast template targets enter) =
     map (\<lambda>t. Unresolved (targetPane t) (filter (unbound (targetBindings t)) (template_vars template)))
       (filter (\<lambda>t. list_ex (unbound (targetBindings t)) (template_vars template)) targets)
   \<and> distinct (template_vars template)"
proof -
  have none: "(filter P xs = []) = (\<not> list_ex P xs)" for P and xs :: "nat list list"
    by (auto simp: filter_empty_conv list_ex_iff)
  have "distinct (template_vars template)"
    using vars_from_grows [of "[]" "parse_template template"] by (auto simp: template_vars_def)
  moreover have "sendable_panes (map (\<lambda>t. resolve_one (parse_template template) t suffix) targets) =
     map (\<lambda>t. (targetPane t, concat (map (token_value (targetBindings t)) (parse_template template)) @ suffix))
       (filter (\<lambda>t. \<not> list_ex (unbound (targetBindings t)) (template_vars template)) targets)" for suffix
    by (induction targets) (simp_all add: resolve_one_spec none Let_def)
  moreover have "filter (\<lambda>r. case r of Unresolved p missing \<Rightarrow> True | Resolved p txt \<Rightarrow> False)
       (map (\<lambda>t. resolve_one (parse_template template) t suffix) targets) =
     map (\<lambda>t. Unresolved (targetPane t) (filter (unbound (targetBindings t)) (template_vars template)))
       (filter (\<lambda>t. list_ex (unbound (targetBindings t)) (template_vars template)) targets)" for suffix
    by (induction targets) (simp_all add: resolve_one_spec none Let_def)
  ultimately show ?thesis by (simp add: resolve_broadcast_def Let_def)
qed

end
