(* ===== verification/SessionTree.thy ===== *)
theory SessionTree
  imports Prelude Records
begin

section \<open>The session tree\<close>

text \<open>
  \<open>examples/web-multiplexer/web/snapshot-codec.ts\<close>: the strings of three format subscriptions and the
  tree of sessions, windows and panes assembled from them. Rows are separated by the two
  characters backslash and n, fields by a bar; a row is the list of its fields.
\<close>

subsection \<open>Rows\<close>

record pane_info =
  piId :: jsnum
  piIndex :: int
  piActive :: bool
  piTitle :: string
  piWidth :: int
  piHeight :: int

record window_info =
  wiId :: jsnum
  wiIndex :: int
  wiName :: string
  wiActive :: bool
  wiZoomed :: bool
  wiPanes :: "pane_info list"

record session_info =
  siId :: jsnum
  siName :: string
  siAttached :: bool
  siWindows :: "window_info list"

definition ROW_SEP :: string where
  "ROW_SEP = [CHR 0x5C, CHR ''n'']"

definition BAR :: char where
  "BAR = CHR ''|''"

fun split_rows :: "string \<Rightarrow> string list" where
  "split_rows [] = [[]]"
| "split_rows (c # s) =
     (if c = CHR 0x5C \<and> take 1 s = ''n'' then [] # split_rows (drop 1 s)
      else (case split_rows s of [] \<Rightarrow> [[c]] | p # ps \<Rightarrow> (c # p) # ps))"

definition rows_of :: "string \<Rightarrow> string list" where
  "rows_of v = filter (\<lambda>l. l \<noteq> []) (split_rows v)"

definition strip_prefix :: "string \<Rightarrow> jsnum" where
  "strip_prefix raw =
     parse_int (case raw of [] \<Rightarrow> [] | c # s \<Rightarrow> if c = CHR ''$'' \<or> c = CHR ''@'' \<or> c = CHR ''%'' then s else raw)"

definition num_or :: "string \<Rightarrow> int \<Rightarrow> int" where
  "num_or raw fallback = (case parse_int raw of Num n \<Rightarrow> n | _ \<Rightarrow> fallback)"

definition field_of :: "string list \<Rightarrow> nat \<Rightarrow> string" where
  "field_of parts i = (if i < length parts then parts ! i else [])"

definition parse_records :: "string \<Rightarrow> nat \<Rightarrow> string list list" where
  "parse_records v keys = map (\<lambda>line. map (field_of (split_on BAR line)) [0..<keys]) (rows_of v)"

definition encode_snapshot_lines :: "string list \<Rightarrow> string" where
  "encode_snapshot_lines lines = join_with ROW_SEP lines"

definition merge_session_rows :: "string \<Rightarrow> int \<Rightarrow> string list \<Rightarrow> nat \<Rightarrow> string" where
  "merge_session_rows existing sessionId freshRows sidFieldIndex =
     encode_snapshot_lines
       (filter (\<lambda>l. \<not> (sidFieldIndex < length (split_on BAR l) \<and> split_on BAR l ! sidFieldIndex = ''$'' @ int_str sessionId))
          (rows_of existing) @ freshRows)"

definition merge_pane_rows_by_window :: "string \<Rightarrow> string list \<Rightarrow> string list \<Rightarrow> string" where
  "merge_pane_rows_by_window existing freshWindowIds freshRows =
     encode_snapshot_lines (filter (\<lambda>l. hd (split_on BAR l) \<notin> set freshWindowIds) (rows_of existing) @ freshRows)"

subsection \<open>Assembly\<close>

definition push_under :: "string \<Rightarrow> 'a \<Rightarrow> (string \<times> 'a list) list \<Rightarrow> (string \<times> 'a list) list" where
  "push_under k x m = AList.update k ((case map_of m k of None \<Rightarrow> [] | Some xs \<Rightarrow> xs) @ [x]) m"

definition list_under :: "(string \<times> 'a list) list \<Rightarrow> string \<Rightarrow> 'a list" where
  "list_under m k = (case map_of m k of None \<Rightarrow> [] | Some xs \<Rightarrow> xs)"

definition pane_of_row :: "string list \<Rightarrow> pane_info" where
  "pane_of_row p =
     \<lparr>piId = strip_prefix (p ! 1), piIndex = num_or (p ! 2) 0, piActive = (p ! 3 = ''1''), piTitle = p ! 6,
      piWidth = num_or (p ! 4) 80, piHeight = num_or (p ! 5) 24\<rparr>"

definition window_of_row :: "(string \<times> pane_info list) list \<Rightarrow> string list \<Rightarrow> window_info" where
  "window_of_row panesByWindow w =
     \<lparr>wiId = strip_prefix (w ! 1), wiIndex = num_or (w ! 2) 0, wiName = w ! 3, wiActive = (w ! 4 = ''1''),
      wiZoomed = (w ! 5 = ''1''), wiPanes = sort_key piIndex (list_under panesByWindow (w ! 1))\<rparr>"

definition session_of_row :: "(string \<times> window_info list) list \<Rightarrow> string list \<Rightarrow> session_info" where
  "session_of_row windowsBySession s =
     \<lparr>siId = strip_prefix (s ! 0), siName = s ! 1, siAttached = (s ! 2 \<noteq> ''0'' \<and> s ! 2 \<noteq> []),
      siWindows = sort_key wiIndex (list_under windowsBySession (s ! 0))\<rparr>"

definition build_session_tree :: "string \<Rightarrow> string \<Rightarrow> string \<Rightarrow> session_info list" where
  "build_session_tree sessionsValue windowsValue panesValue =
     (let panesByWindow = foldl (\<lambda>m p. push_under (p ! 0) (pane_of_row p) m) [] (parse_records panesValue 7);
          windowsBySession = foldl (\<lambda>m w. push_under (w ! 0) (window_of_row panesByWindow w) m) [] (parse_records windowsValue 6)
      in map (session_of_row windowsBySession) (parse_records sessionsValue 3))"

subsection \<open>Rows are read back\<close>

text \<open>A row that can be sent: it is not empty and the separator does not occur in it.\<close>

definition row_ok :: "string \<Rightarrow> bool" where
  "row_ok l \<longleftrightarrow> l \<noteq> [] \<and> split_rows l = [l]"

lemma split_rows_nonempty [simp]: "split_rows s \<noteq> []"
  by (induction s rule: split_rows.induct) (auto split: list.splits)

lemma split_rows_append: "split_rows l = [l] \<Longrightarrow> split_rows (l @ ROW_SEP @ s) = l # split_rows s"
proof (induction l)
  case (Cons c l)
  have c: "\<not> (c = CHR 0x5C \<and> take 1 l = ''n'')" using Cons.prems by auto
  then have "split_rows l = [l]" using Cons.prems by (cases "split_rows l") (auto split: if_splits)
  then have "split_rows (l @ ROW_SEP @ s) = l # split_rows s" by (rule Cons.IH)
  moreover have "\<not> (c = CHR 0x5C \<and> take 1 (l @ ROW_SEP @ s) = ''n'')" using c by (cases l) (auto simp: ROW_SEP_def)
  ultimately show ?case by simp
qed (simp add: ROW_SEP_def)

lemma split_rows_head: "split_rows s = p # ps \<Longrightarrow> take 1 p = [] \<or> take 1 p = take 1 s"
  by (cases s) (auto split: if_splits list.splits)

lemma split_rows_clean: "r \<in> set (split_rows v) \<Longrightarrow> split_rows r = [r]"
proof (induction v arbitrary: r rule: split_rows.induct)
  case (2 c s)
  show ?case
  proof (cases "c = CHR 0x5C \<and> take 1 s = ''n''")
    case True
    then show ?thesis using 2 by auto
  next
    case False
    obtain p ps where p: "split_rows s = p # ps" by (cases "split_rows s") simp_all
    then have "split_rows p = [p]" using "2.IH"(2) [OF False, of p] by simp
    moreover have "\<not> (c = CHR 0x5C \<and> take 1 p = ''n'')" using False split_rows_head [OF p] by auto
    ultimately have "split_rows (c # p) = [c # p]" by simp
    moreover have "r = c # p \<or> r \<in> set ps" using "2.prems" False p by (simp split: if_splits)
    ultimately show ?thesis using "2.IH"(2) [OF False, of r] p by auto
  qed
qed simp

lemma rows_ok: "list_all row_ok (rows_of v)"
  using split_rows_clean [of _ v] by (auto simp: list_all_iff rows_of_def row_ok_def)

lemma rows_of_encoded: "list_all row_ok lines \<Longrightarrow> rows_of (encode_snapshot_lines lines) = lines"
proof (induction lines)
  case Nil
  then show ?case by (simp add: rows_of_def encode_snapshot_lines_def)
next
  case (Cons l lines)
  show ?case
  proof (cases lines)
    case Nil
    then show ?thesis using Cons.prems by (simp add: rows_of_def encode_snapshot_lines_def row_ok_def)
  next
    case (Cons l' lines')
    then have "rows_of (encode_snapshot_lines lines) = lines" using Cons.IH Cons.prems by simp
    then show ?thesis
      using Cons Cons.prems split_rows_append [of l "join_with ROW_SEP lines"]
      by (simp add: rows_of_def encode_snapshot_lines_def row_ok_def)
  qed
qed

definition of_session :: "nat \<Rightarrow> int \<Rightarrow> string \<Rightarrow> bool" where
  "of_session i sid l \<longleftrightarrow> i < length (split_on BAR l) \<and> split_on BAR l ! i = ''$'' @ int_str sid"

text \<open>
  A fast refresh replaces just what it refreshed: whatever the snapshot was, after a merge it
  holds, in order, its rows of the other sessions (or windows) and then the fresh rows, and rows
  that hold no separator are read back as they were sent.
\<close>

theorem merge_exact:
  assumes "list_all row_ok freshRows"
  shows "rows_of (encode_snapshot_lines freshRows) = freshRows
    \<and> rows_of (merge_session_rows existing sid freshRows i) = filter (\<lambda>l. \<not> of_session i sid l) (rows_of existing) @ freshRows
    \<and> rows_of (merge_pane_rows_by_window existing wids freshRows) =
       filter (\<lambda>l. hd (split_on BAR l) \<notin> set wids) (rows_of existing) @ freshRows"
proof -
  have "list_all row_ok (filter P (rows_of existing) @ freshRows)" for P
    using assms rows_ok [of existing] by (auto simp: list_all_iff)
  then show ?thesis
    using rows_of_encoded [OF assms]
    by (simp only: merge_session_rows_def merge_pane_rows_by_window_def of_session_def rows_of_encoded)
qed

lemma merge_exact_witness:
  "rows_of (merge_session_rows ([CHR ''$''] @ ''1|a'' @ ROW_SEP @ [CHR ''$''] @ ''2|b'') 1 [[CHR ''$''] @ ''1|c''] 0) = [''$2|b'', ''$1|c'']"
proof -
  have "list_all row_ok [''$1|c'']" by code_simp
  moreover have "filter (\<lambda>l. \<not> of_session 0 1 l) (rows_of (''$1|a'' @ ROW_SEP @ ''$2|b'')) = [''$2|b'']" by code_simp
  ultimately show ?thesis using merge_exact [of "[''$1|c'']" "''$1|a'' @ ROW_SEP @ ''$2|b''" 1 0] by simp
qed

subsection \<open>The tree holds every row once\<close>

lemma list_under_push: "list_under (push_under k x m) j = (if j = k then list_under m k @ [x] else list_under m j)"
  by (simp add: list_under_def push_under_def)

lemma list_under_fold:
  "list_under (foldl (\<lambda>m r. push_under (key r) (f r) m) m rows) k =
     list_under m k @ map f (filter (\<lambda>r. key r = k) rows)"
  by (induction rows arbitrary: m) (simp_all add: list_under_push)

lemma list_under_all:
  "list_under (foldl (\<lambda>m r. push_under (key r) (f r) m) [] rows) k = map f (filter (\<lambda>r. key r = k) rows)"
  by (simp add: list_under_fold) (simp add: list_under_def)

lemma sort_key_map: "sort_key f (map g xs) = map g (sort_key (f \<circ> g) xs)"
proof -
  have "insort_key f (g x) (map g ys) = map g (insort_key (f \<circ> g) x ys)" for x ys
    by (induction ys) simp_all
  then show ?thesis by (induction xs) simp_all
qed

definition panes_in :: "string \<Rightarrow> string \<Rightarrow> pane_info list" where
  "panes_in panesValue wid = sort_key piIndex (map pane_of_row (filter (\<lambda>p. p ! 0 = wid) (parse_records panesValue 7)))"

text \<open>
  The tree is that of the rows: the sessions in the order delivered, under each its window rows
  by index and under each of those its pane rows by index, rows of equal index in the order
  delivered, and nothing else.
\<close>

theorem tree_exact:
  "map siName (build_session_tree ss ws ps) = map (\<lambda>s. s ! 1) (parse_records ss 3)
   \<and> map (map (\<lambda>w. (wiId w, wiName w, wiPanes w)) \<circ> siWindows) (build_session_tree ss ws ps) =
     map (\<lambda>s. map (\<lambda>w. (strip_prefix (w ! 1), w ! 3, panes_in ps (w ! 1)))
               (sort_key (\<lambda>w. num_or (w ! 2) 0) (filter (\<lambda>w. w ! 0 = s ! 0) (parse_records ws 6)))) (parse_records ss 3)"
proof -
  define pm where "pm = foldl (\<lambda>m p. push_under (p ! 0) (pane_of_row p) m) [] (parse_records ps 7)"
  define wm where "wm = foldl (\<lambda>m w. push_under (w ! 0) (window_of_row pm w) m) [] (parse_records ws 6)"
  have tree: "build_session_tree ss ws ps = map (session_of_row wm) (parse_records ss 3)"
    by (simp add: build_session_tree_def pm_def wm_def Let_def)
  have w: "map (\<lambda>w. (wiId w, wiName w, wiPanes w)) (siWindows (session_of_row wm s)) =
      map (\<lambda>w. (strip_prefix (w ! 1), w ! 3, panes_in ps (w ! 1)))
        (sort_key (\<lambda>w. num_or (w ! 2) 0) (filter (\<lambda>w. w ! 0 = s ! 0) (parse_records ws 6)))" for s
  proof -
    have "siWindows (session_of_row wm s) = sort_key wiIndex (map (window_of_row pm) (filter (\<lambda>w. w ! 0 = s ! 0) (parse_records ws 6)))"
      by (simp add: session_of_row_def wm_def list_under_all)
    also have "\<dots> = map (window_of_row pm) (sort_key (wiIndex \<circ> window_of_row pm) (filter (\<lambda>w. w ! 0 = s ! 0) (parse_records ws 6)))"
      by (rule sort_key_map)
    finally show ?thesis
      by (simp add: comp_def window_of_row_def panes_in_def pm_def list_under_all)
  qed
  have "siName (session_of_row wm s) = s ! 1" for s by (simp add: session_of_row_def)
  then show ?thesis unfolding tree by (simp add: w comp_def)
qed

text \<open>
  A window linked to two sessions has its panes listed under both, and the tree then shows
  every one of them twice in each.
\<close>

theorem linked_window_panes_doubled:
  "map (\<lambda>s. map (\<lambda>w. length (wiPanes w)) (siWindows s))
     (build_session_tree (''$0|a|1'' @ ROW_SEP @ ''$1|b|1'' @ ROW_SEP)
        (''$0|@4|0|w|1|0'' @ ROW_SEP @ ''$1|@4|0|w|1|0'' @ ROW_SEP)
        (''@4|%7|0|1|80|24|t'' @ ROW_SEP @ ''@4|%7|0|1|80|24|t'' @ ROW_SEP)) = [[2], [2]]"
  by code_simp

end
