(* ===== verification/Emitter.thy ===== *)
theory Emitter
  imports Messages
begin

section \<open>Connection state and the event emitter\<close>

text \<open>
  \<open>src/connection-state.ts\<close> and \<open>src/emitter.ts\<close>. An \<open>Error\<close> object carried by a state or
  an event is its identity, a number. A handler is the function object a consumer passed,
  of a type of its own. \<open>emit\<close> returns the handlers it calls, in call order; a handler that
  changes the subscriptions while it runs is an operation after the emission.
\<close>

type_synonym error_ref = nat

datatype close_reason = ReasonExit | ReasonTransportError | ReasonDisposed

datatype connection_state =
    Connecting
  | Ready
  | Reconnecting jsnum "error_ref option"
  | Closed close_reason

primrec status :: "connection_state \<Rightarrow> string" where
  "status Connecting = ''connecting''"
| "status Ready = ''ready''"
| "status (Reconnecting n e) = ''reconnecting''"
| "status (Closed r) = ''closed''"

definition same_connection_state :: "connection_state \<Rightarrow> connection_state \<Rightarrow> bool" where
  "same_connection_state a b =
     (if status a \<noteq> status b then False
      else (case (a, b) of
              (Reconnecting m e, Reconnecting n f) \<Rightarrow> js_eq m n \<and> e = f
            | (Closed r, Closed q) \<Rightarrow> r = q
            | _ \<Rightarrow> True))"

text \<open>
  Everything the emitter carries: the wire messages and the synthetic events. A
  cross-session-layout event is its type and an opaque payload.
\<close>

datatype emitter_message =
    Wire tmux_message
  | ConnectionStateMessage connection_state
  | Reconnected
  | ProtocolErrorMessage jsnum string
  | TopologyError error_ref
  | CrossSessionLayout string error_ref

primrec event_type :: "emitter_message \<Rightarrow> string" where
  "event_type (Wire m) = message_type m"
| "event_type (ConnectionStateMessage s) = ''connection-state''"
| "event_type Reconnected = ''reconnected''"
| "event_type (ProtocolErrorMessage n l) = ''protocol-error''"
| "event_type (TopologyError e) = ''topology-error''"
| "event_type (CrossSessionLayout t e) = t"

definition SYNTHETIC_MESSAGE_TYPES :: "string list" where
  "SYNTHETIC_MESSAGE_TYPES =
     [''connection-state'', ''reconnected'', ''protocol-error'', ''topology-error'',
      ''cross-session-layout-change'', ''cross-session-layout-decode-error'',
      ''cross-session-layout-overrun'', ''cross-session-layout-fetch-failed'',
      ''cross-session-layout-hook-restored'', ''cross-session-layout-repair-failed'',
      ''cross-session-layout-uncovered'']"

definition is_tmux_message :: "emitter_message \<Rightarrow> bool" where
  "is_tmux_message ev \<longleftrightarrow> event_type ev \<notin> set SYNTHETIC_MESSAGE_TYPES"

record 'h emitter =
  handlers :: "(string \<times> 'h list) list"
  wildcardHandlers :: "'h list"

definition new_emitter :: "'h emitter" where
  "new_emitter = \<lparr>handlers = [], wildcardHandlers = []\<rparr>"

definition emitter_on :: "string \<Rightarrow> 'h \<Rightarrow> 'h emitter \<Rightarrow> 'h emitter" where
  "emitter_on event h em =
     (if event = ''*'' then em\<lparr>wildcardHandlers := set_add h (wildcardHandlers em)\<rparr>
      else let s = (case map_of (handlers em) event of None \<Rightarrow> [] | Some s \<Rightarrow> s)
           in em\<lparr>handlers := AList.update event (set_add h s) (handlers em)\<rparr>)"

definition emitter_off :: "string \<Rightarrow> 'h \<Rightarrow> 'h emitter \<Rightarrow> 'h emitter" where
  "emitter_off event h em =
     (if event = ''*'' then em\<lparr>wildcardHandlers := set_delete h (wildcardHandlers em)\<rparr>
      else (case map_of (handlers em) event of
              None \<Rightarrow> em
            | Some s \<Rightarrow>
                let s' = set_delete h s in
                if s' = [] then em\<lparr>handlers := AList.delete event (handlers em)\<rparr>
                else em\<lparr>handlers := AList.update event s' (handlers em)\<rparr>))"

definition emit :: "emitter_message \<Rightarrow> 'h emitter \<Rightarrow> 'h list" where
  "emit ev em =
     (case map_of (handlers em) (event_type ev) of None \<Rightarrow> [] | Some s \<Rightarrow> s) @ wildcardHandlers em"

lemma same_connection_state_iff:
  "same_connection_state a b \<longleftrightarrow> a = b \<and> (\<forall>e. a \<noteq> Reconnecting NaN e)"
  by (cases a; cases b) (auto simp: same_connection_state_def js_eq_def)

subsection \<open>The subscription table refines a set of subscriptions\<close>

datatype 'h emitter_op = On string 'h | Off string 'h

fun emitter_step :: "'h emitter \<Rightarrow> 'h emitter_op \<Rightarrow> 'h emitter \<times> unit list" where
  "emitter_step em (On ev h) = (emitter_on ev h em, [])"
| "emitter_step em (Off ev h) = (emitter_off ev h em, [])"

text \<open>The abstract state: who listens to what.\<close>

definition listeners :: "'h emitter \<Rightarrow> string \<Rightarrow> 'h set" where
  "listeners em ev =
     (if ev = ''*'' then set (wildcardHandlers em)
      else (case map_of (handlers em) ev of None \<Rightarrow> {} | Some s \<Rightarrow> set s))"

fun listen :: "(string \<Rightarrow> 'h set) \<Rightarrow> 'h emitter_op \<Rightarrow> (string \<Rightarrow> 'h set)" where
  "listen L (On ev h) = L(ev := insert h (L ev))"
| "listen L (Off ev h) = L(ev := L ev - {h})"

text \<open>The invariant: no handler twice, no empty set kept, the wildcard apart.\<close>

definition emitter_ok :: "'h emitter \<Rightarrow> bool" where
  "emitter_ok em \<longleftrightarrow>
     distinct (map fst (handlers em)) \<and> map_of (handlers em) ''*'' = None
     \<and> (\<forall>ev s. map_of (handlers em) ev = Some s \<longrightarrow> s \<noteq> [] \<and> distinct s)
     \<and> distinct (wildcardHandlers em)"

lemma emitter_step_ok: "emitter_ok em \<Longrightarrow> emitter_ok (fst (emitter_step em op))"
  by (cases op)
    (auto simp: emitter_ok_def emitter_on_def emitter_off_def Let_def distinct_update
      distinct_removeAll delete_keys
      simp del: map_of_eq_Some_iff map_of_eq_None_iff split: option.splits if_splits)

lemma emitter_step_listeners:
  "listeners (fst (emitter_step em op)) = listen (listeners em) op"
  by (cases op)
    (auto simp: listeners_def emitter_on_def emitter_off_def Let_def fun_eq_iff
      split: option.splits if_splits)

interpretation emitter: invariant_steps emitter_step emitter_ok
  by unfold_locales (rule emitter_step_ok)

lemma run_listeners:
  "listeners (fst (run_steps emitter_step em ops)) = foldl listen (listeners em) ops"
  by (induction ops arbitrary: em) (simp_all add: emitter_step_listeners)

lemma emit_set:
  assumes "event_type ev \<noteq> ''*''"
  shows "set (emit ev em) = listeners em (event_type ev) \<union> listeners em ''*''"
  using assms by (auto simp: emit_def listeners_def split: option.splits)

text \<open>
  Delivery: after any history of subscriptions, an event reaches exactly the handlers
  whose last operation on its type, or on the wildcard, was \<open>on\<close>; each of the two groups
  calls a handler once, however often it was subscribed.
\<close>

theorem emitter_delivery:
  fixes ops :: "'h emitter_op list"
  assumes "event_type ev \<noteq> ''*''"
  shows "let em = fst (run_steps emitter_step new_emitter ops) in
    set (emit ev em) =
      foldl listen (\<lambda>_. {}) ops (event_type ev) \<union> foldl listen (\<lambda>_. {}) ops ''*'' \<and>
    (\<exists>own. emit ev em = own @ wildcardHandlers em \<and> distinct own) \<and>
    distinct (wildcardHandlers em)"
proof -
  define em where "em = fst (run_steps emitter_step new_emitter ops)"
  have "emitter_ok (new_emitter :: 'h emitter)" by (simp add: emitter_ok_def new_emitter_def)
  then have ok: "emitter_ok em" unfolding em_def by (rule emitter.run_keeps)
  have "listeners (new_emitter :: 'h emitter) = (\<lambda>_. {})"
    by (simp add: listeners_def new_emitter_def fun_eq_iff)
  then have L: "listeners em = foldl listen (\<lambda>_. {}) ops"
    by (simp add: em_def run_listeners)
  have "\<exists>own. emit ev em = own @ wildcardHandlers em \<and> distinct own"
    using ok by (auto simp: emit_def emitter_ok_def simp del: map_of_eq_Some_iff split: option.splits)
  then show ?thesis
    using emit_set [OF assms, of em] ok by (simp add: em_def [symmetric] L emitter_ok_def)
qed

theorem emitter_delivery_witness:
  "set (emit (Wire SessionsChanged)
     (fst (run_steps emitter_step new_emitter
       [On ''sessions-changed'' 1, On ''*'' (2::nat), On ''sessions-changed'' 3,
        Off ''sessions-changed'' 1]))) = {3, 2}"
  by (rule trans [OF conjunct1 [OF emitter_delivery [unfolded Let_def]]]) auto

end
