(* ===== verification/Parser.thy ===== *)
theory Parser
  imports Messages
begin

section \<open>The streaming parser\<close>

text \<open>
  \<open>src/protocol/parser.ts\<close>: one parser per wire type, the dispatch table, and
  \<open>TmuxParser\<close>. The parser's state is its line buffer and the number of the open
  response block (-1 for none); its callbacks (\<open>onMessage\<close>, \<open>onOutputLine\<close>,
  \<open>onProtocolError\<close>) are the events a call returns, in call order.
\<close>

subsection \<open>Ids\<close>

definition parse_pane_id :: "string \<Rightarrow> jsnum" where
  "parse_pane_id raw = parse_int (drop 1 raw)"

definition parse_window_id :: "string \<Rightarrow> jsnum" where
  "parse_window_id raw = parse_int (drop 1 raw)"

definition parse_session_id :: "string \<Rightarrow> jsnum" where
  "parse_session_id raw = parse_int (drop 1 raw)"

definition parse_optional_id :: "string \<Rightarrow> (string \<Rightarrow> jsnum) \<Rightarrow> jsnum" where
  "parse_optional_id raw parse = (if raw = ''-'' then Num (- 1) else parse raw)"

definition parse_optional_int :: "string \<Rightarrow> jsnum" where
  "parse_optional_int raw = (if raw = ''-'' then Num (- 1) else parse_int raw)"

subsection \<open>Line parsers\<close>

definition parse_guard :: "(guard \<Rightarrow> tmux_message) \<Rightarrow> string \<Rightarrow> tmux_message option" where
  "parse_guard mk args =
     (let parts = split_on SP args in
      if length parts < 3 then None
      else Some (mk \<lparr>timestamp = parse_int (parts ! 0), commandNumber = parse_int (parts ! 1),
                     flags = parse_int (parts ! 2)\<rparr>))"

definition parse_output :: "string \<Rightarrow> tmux_message option" where
  "parse_output args =
     (case index_of SP args of
        None \<Rightarrow> None
      | Some i \<Rightarrow> Some (Output \<lparr>outPaneId = parse_pane_id (take i args),
                                outData = decode_octal (drop (Suc i) args)\<rparr>))"

definition parse_extended_output :: "string \<Rightarrow> tmux_message option" where
  "parse_extended_output args =
     (case index_of_str '' : '' args of
        None \<Rightarrow> None
      | Some i \<Rightarrow>
          let parts = split_on SP (take i args) in
          if length parts < 2 then None
          else Some (ExtendedOutput \<lparr>outPaneId = parse_pane_id (parts ! 0),
                                     outData = decode_octal (drop (i + 3) args)\<rparr>
                       (parse_int (parts ! 1))))"

definition parse_pane_id_only :: "(jsnum \<Rightarrow> tmux_message) \<Rightarrow> string \<Rightarrow> tmux_message option" where
  "parse_pane_id_only mk args =
     (let paneRaw = hd (split_on SP args) in
      if paneRaw = [] then None else Some (mk (parse_pane_id paneRaw)))"

definition parse_window_id_only :: "(jsnum \<Rightarrow> tmux_message) \<Rightarrow> string \<Rightarrow> tmux_message option" where
  "parse_window_id_only mk args =
     (let winRaw = hd (split_on SP args) in
      if winRaw = [] then None else Some (mk (parse_window_id winRaw)))"

definition parse_window_renamed ::
    "(jsnum \<Rightarrow> string \<Rightarrow> tmux_message) \<Rightarrow> string \<Rightarrow> tmux_message option" where
  "parse_window_renamed mk args =
     (case index_of SP args of
        None \<Rightarrow> None
      | Some i \<Rightarrow> Some (mk (parse_window_id (take i args)) (drop (Suc i) args)))"

definition parse_window_pane_changed :: "string \<Rightarrow> tmux_message option" where
  "parse_window_pane_changed args =
     (let parts = split_on SP args in
      if length parts < 2 then None
      else Some (WindowPaneChanged (parse_window_id (parts ! 0)) (parse_pane_id (parts ! 1))))"

definition parse_layout_change :: "string \<Rightarrow> tmux_message option" where
  "parse_layout_change args =
     (let parts = split_on SP args in
      if length parts < 4 then None
      else Some (LayoutChange (parse_window_id (parts ! 0))
                   (window_layout_fields_of (parts ! 1) (parts ! 2) (parts ! 3))))"

definition parse_session_with_name ::
    "(jsnum \<Rightarrow> string \<Rightarrow> tmux_message) \<Rightarrow> string \<Rightarrow> tmux_message option" where
  "parse_session_with_name mk args =
     (case index_of SP args of
        None \<Rightarrow> None
      | Some i \<Rightarrow> Some (mk (parse_session_id (take i args)) (drop (Suc i) args)))"

definition parse_sessions_changed :: "string \<Rightarrow> tmux_message option" where
  "parse_sessions_changed args = Some SessionsChanged"

definition parse_session_window_changed :: "string \<Rightarrow> tmux_message option" where
  "parse_session_window_changed args =
     (let parts = split_on SP args in
      if length parts < 2 then None
      else Some (SessionWindowChanged (parse_session_id (parts ! 0)) (parse_window_id (parts ! 1))))"

definition parse_client_session_changed :: "string \<Rightarrow> tmux_message option" where
  "parse_client_session_changed args =
     (case index_of SP args of
        None \<Rightarrow> None
      | Some i \<Rightarrow>
          let rest = drop (Suc i) args in
          (case index_of SP rest of
             None \<Rightarrow> None
           | Some j \<Rightarrow> Some (ClientSessionChanged (take i args)
                              (parse_session_id (take j rest)) (drop (Suc j) rest))))"

definition parse_client_detached :: "string \<Rightarrow> tmux_message option" where
  "parse_client_detached args =
     (let clientName = hd (split_on SP args) in
      if clientName = [] then None else Some (ClientDetached clientName))"

definition parse_name_only :: "(string \<Rightarrow> tmux_message) \<Rightarrow> string \<Rightarrow> tmux_message option" where
  "parse_name_only mk args =
     (let name = hd (split_on SP args) in if name = [] then None else Some (mk name))"

definition parse_subscription_changed :: "string \<Rightarrow> tmux_message option" where
  "parse_subscription_changed args =
     (case index_of_str '' : '' args of
        None \<Rightarrow> None
      | Some i \<Rightarrow>
          let parts = split_on SP (take i args) in
          if length parts < 5 then None
          else Some (SubscriptionChanged
            \<lparr>subName = parts ! 0,
             subSessionId = parse_optional_id (parts ! 1) parse_session_id,
             subWindowId = parse_optional_id (parts ! 2) parse_window_id,
             subWindowIndex = parse_optional_int (parts ! 3),
             subPaneId = parse_optional_id (parts ! 4) parse_pane_id,
             subValue = drop (i + 3) args\<rparr>))"

definition parse_message_msg :: "string \<Rightarrow> tmux_message option" where
  "parse_message_msg args = Some (Message args)"

definition parse_config_error :: "string \<Rightarrow> tmux_message option" where
  "parse_config_error args = Some (ConfigError args)"

definition parse_exit :: "string \<Rightarrow> tmux_message option" where
  "parse_exit args = Some (Exit (if 0 < length args then Some args else None))"

subsection \<open>Dispatch table\<close>

definition PARSERS :: "(string \<times> (string \<Rightarrow> tmux_message option)) list" where
  "PARSERS =
     [(''begin'', parse_guard Begin),
      (''end'', parse_guard End),
      (''error'', parse_guard Error),
      (''output'', parse_output),
      (''extended-output'', parse_extended_output),
      (''pause'', parse_pane_id_only Pause),
      (''continue'', parse_pane_id_only Continue),
      (''pane-mode-changed'', parse_pane_id_only PaneModeChanged),
      (''window-add'', parse_window_id_only WindowAdd),
      (''window-close'', parse_window_id_only WindowClose),
      (''window-renamed'', parse_window_renamed WindowRenamed),
      (''window-pane-changed'', parse_window_pane_changed),
      (''unlinked-window-add'', parse_window_id_only UnlinkedWindowAdd),
      (''unlinked-window-close'', parse_window_id_only UnlinkedWindowClose),
      (''unlinked-window-renamed'', parse_window_renamed UnlinkedWindowRenamed),
      (''layout-change'', parse_layout_change),
      (''session-changed'', parse_session_with_name SessionChanged),
      (''session-renamed'', parse_session_with_name SessionRenamed),
      (''sessions-changed'', parse_sessions_changed),
      (''session-window-changed'', parse_session_window_changed),
      (''client-session-changed'', parse_client_session_changed),
      (''client-detached'', parse_client_detached),
      (''paste-buffer-changed'', parse_name_only PasteBufferChanged),
      (''paste-buffer-deleted'', parse_name_only PasteBufferDeleted),
      (''subscription-changed'', parse_subscription_changed),
      (''message'', parse_message_msg),
      (''config-error'', parse_config_error),
      (''exit'', parse_exit)]"

definition wire_message_types :: "string list" where
  "wire_message_types = map fst PARSERS"

subsection \<open>TmuxParser\<close>

record parser_state =
  buffer :: string
  activeCommandNumber :: jsnum

datatype parser_event =
    Emit tmux_message
  | OutputLine jsnum string
  | ProtocolError jsnum string

definition new_parser :: parser_state where
  "new_parser = \<lparr>buffer = [], activeCommandNumber = Num (- 1)\<rparr>"

text \<open>The line without its trailing run of carriage returns: what classification reads.\<close>

definition clean_line :: "string \<Rightarrow> string" where
  "clean_line line = rev (dropWhile (\<lambda>c. c = CR) (rev line))"

text \<open>\<open>isNotification\<close>, \<open>typeStr\<close> and \<open>argsStr\<close> of a clean line.\<close>

definition line_parts :: "string \<Rightarrow> bool \<times> string \<times> string" where
  "line_parts cleanLine =
     (if cleanLine \<noteq> [] \<and> hd cleanLine = CHR ''%'' then
        (case index_of SP (drop 1 cleanLine) of
           None \<Rightarrow> (True, drop 1 cleanLine, [])
         | Some i \<Rightarrow> (True, take i (drop 1 cleanLine), drop (Suc i) (drop 1 cleanLine)))
      else (False, [], []))"

definition is_block_terminator :: "string \<Rightarrow> bool" where
  "is_block_terminator typeStr \<longleftrightarrow> typeStr = ''end'' \<or> typeStr = ''error''"

text \<open>The response-block tracking of an emitted message.\<close>

fun track_block :: "jsnum \<Rightarrow> tmux_message \<Rightarrow> jsnum" where
  "track_block active (Begin g) = commandNumber g"
| "track_block active (End g) = Num (- 1)"
| "track_block active (Error g) = Num (- 1)"
| "track_block active m = active"

text \<open>
  \<open>processLine\<close>. The method reads and writes \<open>activeCommandNumber\<close> only, so it is a step
  function on that field.
\<close>

definition process_line :: "jsnum \<Rightarrow> string \<Rightarrow> jsnum \<times> parser_event list" where
  "process_line active line =
     (let inResponseBlock = (active \<noteq> Num (- 1));
          (isNotification, typeStr, argsStr) = line_parts (clean_line line);
          isBlockTerminator = is_block_terminator typeStr;
          treatAsOutput = (inResponseBlock \<and> \<not> isBlockTerminator)
      in if treatAsOutput then (active, [OutputLine active line])
         else if \<not> isNotification then (active, [])
         else (case map_of PARSERS typeStr of
                 None \<Rightarrow> (active, [])
               | Some parser \<Rightarrow>
                   (case parser argsStr of
                      None \<Rightarrow>
                        if inResponseBlock \<and> isBlockTerminator
                        then (Num (- 1), [ProtocolError active line])
                        else (active, [])
                    | Some msg \<Rightarrow> (track_block active msg, [Emit msg]))))"

text \<open>The loop of \<open>feed\<close>: one line per iteration, until the buffer holds no line feed.\<close>

function drain_lines :: "jsnum \<Rightarrow> string \<Rightarrow> (jsnum \<times> string) \<times> parser_event list" where
  "drain_lines active buf =
     (case index_of LF buf of
        None \<Rightarrow> ((active, buf), [])
      | Some newlineIdx \<Rightarrow>
          let (active', evs) = process_line active (take newlineIdx buf);
              (st, evs') = drain_lines active' (drop (Suc newlineIdx) buf)
          in (st, evs @ evs'))"
  by pat_completeness auto

termination
  by (relation "measure (\<lambda>(active, buf). length buf)") (auto dest: index_of_Some)

declare drain_lines.simps [simp del]

definition feed :: "parser_state \<Rightarrow> string \<Rightarrow> parser_state \<times> parser_event list" where
  "feed p chunk =
     (let ((active, buf), evs) = drain_lines (activeCommandNumber p) (buffer p @ chunk)
      in (p\<lparr>buffer := buf, activeCommandNumber := active\<rparr>, evs))"

definition reset :: "parser_state \<Rightarrow> parser_state" where
  "reset p = p\<lparr>buffer := [], activeCommandNumber := Num (- 1)\<rparr>"

subsection \<open>The line semantics\<close>

text \<open>
  What the parser promises: it is \<open>process_line\<close> run over the lines of the whole stream,
  the text after the last line feed waiting in the buffer, however the stream is cut.
\<close>

lemma drain_lines_None: "LF \<notin> set buf \<Longrightarrow> drain_lines a buf = ((a, buf), [])"
  by (simp add: drain_lines.simps)

lemma drain_lines_line:
  assumes "LF \<notin> set line"
  shows "drain_lines a (line @ LF # rest) =
    (let (a1, evs) = process_line a line; (st, evs') = drain_lines a1 rest in (st, evs @ evs'))"
  by (subst drain_lines.simps) (simp add: index_of_append [OF assms])

lemma drain_lines_run:
  "drain_lines a buf =
     (let (a1, evs) = run_steps process_line a (butlast (split_on LF buf))
      in ((a1, last (split_on LF buf)), evs))"
proof (induction a buf rule: drain_lines.induct)
  case (1 a buf)
  show ?case
  proof (cases "index_of LF buf")
    case None
    then show ?thesis by (simp add: drain_lines_None split_on_single)
  next
    case (Some i)
    define line rest where "line = take i buf" and "rest = drop (Suc i) buf"
    have buf: "buf = line @ LF # rest" and nl: "LF \<notin> set line"
      using index_of_Some [OF Some] index_of_split [OF Some] by (simp_all add: line_def rest_def)
    have "drain_lines (fst (process_line a line)) rest =
      (let (a1, evs) = run_steps process_line (fst (process_line a line))
                         (butlast (split_on LF rest))
       in ((a1, last (split_on LF rest)), evs))"
      using 1 [OF Some, of "process_line a line"] by (simp add: line_def rest_def prod_eq_iff)
    then show ?thesis
      unfolding buf drain_lines_line [OF nl] split_on_Cons_sep [OF nl]
      by (simp add: run_steps.simps(2) split_beta)
  qed
qed

lemma last_split_no_sep: "d \<notin> set (last (split_on d s))"
  by (induction s) (auto split: list.splits if_splits)

lemma split_on_append:
  "split_on d (a @ b) = butlast (split_on d a) @ split_on d (last (split_on d a) @ b)"
proof (induction a)
  case Nil
  then show ?case by simp
next
  case (Cons c a)
  obtain p ps where p: "split_on d a = p # ps" by (cases "split_on d a") auto
  show ?case
  proof (cases "c = d")
    case True
    then show ?thesis using Cons p by simp
  next
    case False
    show ?thesis
    proof (cases ps)
      case Nil
      then show ?thesis using Cons p False by (simp split: list.splits)
    next
      case (Cons q qs)
      then show ?thesis using Cons.IH p False by (simp split: list.splits)
    qed
  qed
qed

lemma feed_lines:
  "feed p chunk =
     (let lines = split_on LF (buffer p @ chunk);
          (a, evs) = run_steps process_line (activeCommandNumber p) (butlast lines)
      in (p\<lparr>buffer := last lines, activeCommandNumber := a\<rparr>, evs))"
  by (simp add: feed_def drain_lines_run split_beta Let_def)

lemma run_feed_lines:
  assumes "LF \<notin> set (buffer p)"
  shows "run_steps feed p chunks =
     (let lines = split_on LF (buffer p @ concat chunks);
          (a, evs) = run_steps process_line (activeCommandNumber p) (butlast lines)
      in (p\<lparr>buffer := last lines, activeCommandNumber := a\<rparr>, evs))"
  using assms
proof (induction chunks arbitrary: p)
  case Nil
  then show ?case by (simp add: split_on_single)
next
  case (Cons c cs)
  define l1 where "l1 = split_on LF (buffer p @ c)"
  define p1 where "p1 = fst (feed p c)"
  have b1: "buffer p1 = last l1"
    and a1: "activeCommandNumber p1 =
       fst (run_steps process_line (activeCommandNumber p) (butlast l1))"
    by (simp_all add: p1_def l1_def feed_lines split_beta Let_def)
  have "LF \<notin> set (buffer p1)" unfolding b1 l1_def by (rule last_split_no_sep)
  from Cons.IH [OF this]
  have IH: "run_steps feed p1 cs =
     (let lines = split_on LF (last l1 @ concat cs);
          (a, evs) = run_steps process_line (activeCommandNumber p1) (butlast lines)
      in (p1\<lparr>buffer := last lines, activeCommandNumber := a\<rparr>, evs))"
    by (simp only: b1)
  have lines: "split_on LF (buffer p @ concat (c # cs)) =
      butlast l1 @ split_on LF (last l1 @ concat cs)"
    unfolding l1_def by (simp add: split_on_append [of _ "buffer p @ c" "concat cs", simplified])
  have p1: "p1 = p\<lparr>buffer := last l1, activeCommandNumber := activeCommandNumber p1\<rparr>"
    by (simp add: p1_def feed_lines l1_def split_beta Let_def)
  have "feed p c = (p1, snd (run_steps process_line (activeCommandNumber p) (butlast l1)))"
    by (simp add: p1_def feed_lines l1_def split_beta Let_def)
  then have "run_steps feed p (c # cs) =
      (let (s2, o2) = run_steps feed p1 cs
       in (s2, snd (run_steps process_line (activeCommandNumber p) (butlast l1)) @ o2))"
    by (simp add: run_steps.simps(2))
  also have "\<dots> = (let (a, evs) = run_steps process_line (activeCommandNumber p)
        (butlast l1 @ butlast (split_on LF (last l1 @ concat cs)))
      in (p1\<lparr>buffer := last (split_on LF (last l1 @ concat cs)), activeCommandNumber := a\<rparr>, evs))"
    by (simp add: IH a1 Let_def split_beta)
  finally have run: "run_steps feed p (c # cs) = \<dots>" .
  have "p1\<lparr>buffer := b, activeCommandNumber := a\<rparr> = p\<lparr>buffer := b, activeCommandNumber := a\<rparr>"
    for a b by (subst p1) simp
  then show ?case
    unfolding lines run by (simp add: butlast_append Let_def split_beta)
qed

text \<open>C2. However the transport cuts the stream into chunks, the parser's events are those of
  \<open>processLine\<close> run over the stream's lines in order, and its buffer holds exactly the text
  after the last line feed: chunk boundaries are invisible.\<close>

theorem feed_stream_semantics:
  "run_steps feed new_parser chunks =
     (let lines = split_on LF (concat chunks);
          (active, evs) = run_steps process_line (Num (- 1)) (butlast lines)
      in (\<lparr>buffer = last lines, activeCommandNumber = active\<rparr>, evs))"
  by (simp add: run_feed_lines new_parser_def Let_def split_beta)

subsection \<open>Response blocks\<close>

text \<open>
  The protocol of the event stream, as an automaton on the number of the open block, which reads
  nothing of the parser's own bookkeeping: a \<open>%begin\<close> only while no block is open, and it
  opens the block of its command number; a notification only while none is open, and it leaves
  none open; an output line only while one is, and then under its number; a terminator or a
  recovered one closes it.
\<close>

fun block_event :: "jsnum \<Rightarrow> parser_event \<Rightarrow> jsnum option" where
  "block_event a (Emit m) =
     (case m of
        Begin g \<Rightarrow> if a = Num (- 1) then Some (commandNumber g) else None
      | End g \<Rightarrow> Some (Num (- 1))
      | Error g \<Rightarrow> Some (Num (- 1))
      | _ \<Rightarrow> if a = Num (- 1) then Some (Num (- 1)) else None)"
| "block_event a (OutputLine n line) = (if a \<noteq> Num (- 1) \<and> n = a then Some a else None)"
| "block_event a (ProtocolError n line) =
     (if a \<noteq> Num (- 1) \<and> n = a then Some (Num (- 1)) else None)"

fun block_trace :: "jsnum \<Rightarrow> parser_event list \<Rightarrow> jsnum option" where
  "block_trace a [] = Some a"
| "block_trace a (e # es) =
     (case block_event a e of None \<Rightarrow> None | Some a' \<Rightarrow> block_trace a' es)"

lemma block_trace_append:
  "block_trace a (xs @ ys) = (case block_trace a xs of None \<Rightarrow> None | Some b \<Rightarrow> block_trace b ys)"
  by (induction xs arbitrary: a) (auto split: option.splits)

text \<open>A terminator's parser yields a terminator: what the dispatch table promises.\<close>

lemma terminator_parser:
  assumes "is_block_terminator t" and "map_of PARSERS t = Some parser" and "parser args = Some m"
  shows "(\<exists>g. m = End g) \<or> (\<exists>g. m = Error g)"
  using assms by (auto simp: is_block_terminator_def PARSERS_def parse_guard_def Let_def
      split: if_splits)

lemma process_line_trace:
  "block_trace a (snd (process_line a line)) = Some (fst (process_line a line))"
proof -
  obtain n t args where parts: "line_parts (clean_line line) = (n, t, args)"
    by (cases "line_parts (clean_line line)") auto
  show ?thesis
  proof (cases "map_of PARSERS t")
    case None
    then show ?thesis by (simp add: process_line_def parts Let_def)
  next
    case (Some parser)
    show ?thesis
    proof (cases "parser args")
      case None
      then show ?thesis using Some by (simp add: process_line_def parts Let_def)
    next
      case (Some m)
      with \<open>map_of PARSERS t = Some parser\<close> terminator_parser [of t parser args m]
      show ?thesis
        by (auto simp: process_line_def parts Let_def split: tmux_message.splits)
    qed
  qed
qed

lemma run_process_line_trace:
  "block_trace a (snd (run_steps process_line a lines)) =
     Some (fst (run_steps process_line a lines))"
  by (induction lines arbitrary: a) (simp_all add: block_trace_append process_line_trace)

text \<open>C3. Block purity: from every parser state, the events of a \<open>feed\<close> are a run of the
  block automaton from the open block before it to the open block after it. No notification
  is emitted inside a response block, every output line carries the number of the block it
  stands in, and every block is closed by exactly one terminator or recovered terminator.\<close>

theorem feed_block_purity:
  "block_trace (activeCommandNumber p) (snd (feed p chunk)) =
     Some (activeCommandNumber (fst (feed p chunk)))"
  by (simp add: feed_lines Let_def split_beta run_process_line_trace)

lemma process_line_output:
  assumes "a \<noteq> Num (- 1)"
    and "\<not> is_block_terminator (fst (snd (line_parts (clean_line line))))"
  shows "process_line a line = (a, [OutputLine a line])"
  using assms by (simp add: process_line_def Let_def split_beta)

lemma line_parts_blank: "\<not> fst (line_parts s) \<Longrightarrow> fst (snd (line_parts s)) = []"
  by (auto simp: line_parts_def split: if_splits option.splits)

text \<open>Inside a block, a line whose type is \<open>end\<close> or \<open>error\<close>, however malformed its
  arguments and however many carriage returns the transport left on it, closes the block with
  exactly one event: the terminator message itself, or a protocol error that carries the open
  block's number and the raw line. The block can never wedge open.\<close>

theorem terminator_closes_block:
  assumes "a \<noteq> Num (- 1)"
    and "is_block_terminator (fst (snd (line_parts (clean_line line))))"
  shows "fst (process_line a line) = Num (- 1) \<and>
    ((\<exists>g. snd (process_line a line) = [Emit (End g)] \<or> snd (process_line a line) = [Emit (Error g)])
     \<or> snd (process_line a line) = [ProtocolError a line])"
proof -
  obtain t args where parts: "line_parts (clean_line line) = (True, t, args)"
    using assms(2) line_parts_blank [of "clean_line line"]
    by (cases "line_parts (clean_line line)") (auto simp: is_block_terminator_def)
  then have t: "is_block_terminator t" using assms(2) by simp
  then obtain parser where p: "map_of PARSERS t = Some parser"
    by (auto simp: is_block_terminator_def PARSERS_def)
  show ?thesis
  proof (cases "parser args")
    case None
    then show ?thesis using assms(1) t p by (simp add: process_line_def parts Let_def)
  next
    case (Some m)
    from terminator_parser [OF t p this] show ?thesis
      using t p Some by (auto simp: process_line_def parts Let_def)
  qed
qed

theorem terminator_closes_block_witness:
  "fst (process_line (Num 7) (''%end'' @ [CR, CR])) = Num (- 1) \<and>
   snd (process_line (Num 7) (''%end'' @ [CR, CR])) = [ProtocolError (Num 7) (''%end'' @ [CR, CR])]"
proof -
  have "is_block_terminator (fst (snd (line_parts (clean_line (''%end'' @ [CR, CR])))))"
    by code_simp
  with terminator_closes_block [of "Num 7" "''%end'' @ [CR, CR]"]
  have "fst (process_line (Num 7) (''%end'' @ [CR, CR])) = Num (- 1)" by simp
  moreover have "snd (process_line (Num 7) (''%end'' @ [CR, CR])) =
      [ProtocolError (Num 7) (''%end'' @ [CR, CR])]"
    by code_simp
  ultimately show ?thesis ..
qed

lemma clean_line_CRs [simp]: "clean_line (line @ replicate k CR) = clean_line line"
  by (simp add: clean_line_def dropWhile_append)

text \<open>CRLF tolerance: outside a response block a trailing run of carriage returns changes
  neither the events of a line nor the block state; inside one, a well-formed terminator is
  recognised with or without it, and any other line is forwarded with its bytes untouched.\<close>

theorem crlf_tolerance:
  "process_line (Num (- 1)) (line @ replicate k CR) = process_line (Num (- 1)) line \<and>
   fst (process_line a (line @ replicate k CR)) = fst (process_line a line) \<and>
   snd (process_line a (line @ replicate k CR)) =
     (case snd (process_line a line) of
        [OutputLine n raw] \<Rightarrow> [OutputLine n (line @ replicate k CR)]
      | [ProtocolError n raw] \<Rightarrow> [ProtocolError n (line @ replicate k CR)]
      | evs \<Rightarrow> evs)"
proof -
  obtain n t args where parts: "line_parts (clean_line line) = (n, t, args)"
    by (cases "line_parts (clean_line line)") auto
  show ?thesis
    by (auto simp: process_line_def parts Let_def split: option.splits)
qed

end
