(* ===== verification/Serializer.thy ===== *)
theory Serializer
  imports Parser
begin

section \<open>The serializer, and the wire round trip\<close>

text \<open>
  \<open>src/protocol/serializer.ts\<close>: a message back to its wire line. Numbers are interpolated
  with \<open>String(n)\<close>, modelled by \<open>num_str\<close>, which is exact for the special values and for
  integers up to \<open>2 ^ 53\<close> in magnitude; the round trip is stated there.
\<close>

definition optional_id :: "jsnum \<Rightarrow> string \<Rightarrow> string" where
  "optional_id n pre = (if n = Num (- 1) then ''-'' else pre @ num_str n)"

definition optional_int :: "jsnum \<Rightarrow> string" where
  "optional_int n = (if n = Num (- 1) then ''-'' else num_str n)"

definition serialize_guard :: "string \<Rightarrow> guard \<Rightarrow> string" where
  "serialize_guard t g =
     ''%'' @ t @ '' '' @ num_str (timestamp g) @ '' '' @ num_str (commandNumber g) @ '' ''
       @ num_str (flags g)"

primrec serialize_message :: "tmux_message \<Rightarrow> string" where
  "serialize_message (Begin g) = serialize_guard ''begin'' g"
| "serialize_message (End g) = serialize_guard ''end'' g"
| "serialize_message (Error g) = serialize_guard ''error'' g"
| "serialize_message (Output out) =
     ''%output %'' @ num_str (outPaneId out) @ '' '' @ encode_octal (outData out)"
| "serialize_message (ExtendedOutput out age) =
     ''%extended-output %'' @ num_str (outPaneId out) @ '' '' @ num_str age @ '' : ''
       @ encode_octal (outData out)"
| "serialize_message (Pause p) = ''%pause %'' @ num_str p"
| "serialize_message (Continue p) = ''%continue %'' @ num_str p"
| "serialize_message (PaneModeChanged p) = ''%pane-mode-changed %'' @ num_str p"
| "serialize_message (WindowAdd w) = ''%window-add @'' @ num_str w"
| "serialize_message (WindowClose w) = ''%window-close @'' @ num_str w"
| "serialize_message (UnlinkedWindowAdd w) = ''%unlinked-window-add @'' @ num_str w"
| "serialize_message (UnlinkedWindowClose w) = ''%unlinked-window-close @'' @ num_str w"
| "serialize_message (WindowRenamed w name) =
     ''%window-renamed @'' @ num_str w @ '' '' @ name"
| "serialize_message (UnlinkedWindowRenamed w name) =
     ''%unlinked-window-renamed @'' @ num_str w @ '' '' @ name"
| "serialize_message (WindowPaneChanged w p) =
     ''%window-pane-changed @'' @ num_str w @ '' %'' @ num_str p"
| "serialize_message (LayoutChange w l) =
     ''%layout-change @'' @ num_str w @ '' '' @ windowLayout l @ '' ''
       @ windowVisibleLayout l @ '' '' @ windowFlags l"
| "serialize_message (SessionChanged s name) =
     ''%session-changed $'' @ num_str s @ '' '' @ name"
| "serialize_message (SessionRenamed s name) =
     ''%session-renamed $'' @ num_str s @ '' '' @ name"
| "serialize_message SessionsChanged = ''%sessions-changed''"
| "serialize_message (SessionWindowChanged s w) =
     ''%session-window-changed $'' @ num_str s @ '' @'' @ num_str w"
| "serialize_message (ClientSessionChanged c s name) =
     ''%client-session-changed '' @ c @ '' $'' @ num_str s @ '' '' @ name"
| "serialize_message (ClientDetached c) = ''%client-detached '' @ c"
| "serialize_message (PasteBufferChanged name) = ''%paste-buffer-changed '' @ name"
| "serialize_message (PasteBufferDeleted name) = ''%paste-buffer-deleted '' @ name"
| "serialize_message (SubscriptionChanged s) =
     ''%subscription-changed '' @ subName s @ '' '' @ optional_id (subSessionId s) ''$'' @ '' ''
       @ optional_id (subWindowId s) ''@'' @ '' '' @ optional_int (subWindowIndex s) @ '' ''
       @ optional_id (subPaneId s) ''%'' @ '' : '' @ subValue s"
| "serialize_message (Message m) = ''%message '' @ m"
| "serialize_message (ConfigError e) = ''%config-error '' @ e"
| "serialize_message (Exit reason) =
     (case reason of None \<Rightarrow> ''%exit'' | Some r \<Rightarrow> ''%exit '' @ r)"

subsection \<open>The round-trip domain\<close>

text \<open>
  A number whose decimal text parses back; free text (one line, not ending in the carriage
  returns the parser strips); a token (free of the separator).
\<close>

definition num_ok :: "jsnum \<Rightarrow> bool" where
  "num_ok v \<longleftrightarrow> (case v of NaN \<Rightarrow> True | Num n \<Rightarrow> safe_int n | _ \<Rightarrow> False)"

definition text_ok :: "string \<Rightarrow> bool" where
  "text_ok s \<longleftrightarrow> LF \<notin> set s \<and> (s = [] \<or> last s \<noteq> CR)"

definition token_ok :: "string \<Rightarrow> bool" where
  "token_ok s \<longleftrightarrow> SP \<notin> set s \<and> LF \<notin> set s"

definition guard_ok :: "guard \<Rightarrow> bool" where
  "guard_ok g \<longleftrightarrow> num_ok (timestamp g) \<and> num_ok (commandNumber g) \<and> num_ok (flags g)"

fun wire_ok :: "tmux_message \<Rightarrow> bool" where
  "wire_ok (Begin g) \<longleftrightarrow> guard_ok g"
| "wire_ok (End g) \<longleftrightarrow> guard_ok g"
| "wire_ok (Error g) \<longleftrightarrow> guard_ok g"
| "wire_ok (Output out) \<longleftrightarrow> num_ok (outPaneId out)"
| "wire_ok (ExtendedOutput out age) \<longleftrightarrow> num_ok (outPaneId out) \<and> num_ok age"
| "wire_ok (Pause p) \<longleftrightarrow> num_ok p"
| "wire_ok (Continue p) \<longleftrightarrow> num_ok p"
| "wire_ok (PaneModeChanged p) \<longleftrightarrow> num_ok p"
| "wire_ok (WindowAdd w) \<longleftrightarrow> num_ok w"
| "wire_ok (WindowClose w) \<longleftrightarrow> num_ok w"
| "wire_ok (UnlinkedWindowAdd w) \<longleftrightarrow> num_ok w"
| "wire_ok (UnlinkedWindowClose w) \<longleftrightarrow> num_ok w"
| "wire_ok (WindowRenamed w name) \<longleftrightarrow> num_ok w \<and> text_ok name"
| "wire_ok (UnlinkedWindowRenamed w name) \<longleftrightarrow> num_ok w \<and> text_ok name"
| "wire_ok (WindowPaneChanged w p) \<longleftrightarrow> num_ok w \<and> num_ok p"
| "wire_ok (LayoutChange w l) \<longleftrightarrow>
     num_ok w \<and> token_ok (windowLayout l) \<and> token_ok (windowVisibleLayout l)
     \<and> token_ok (windowFlags l) \<and> text_ok (windowFlags l)
     \<and> l = window_layout_fields_of (windowLayout l) (windowVisibleLayout l) (windowFlags l)"
| "wire_ok (SessionChanged s name) \<longleftrightarrow> num_ok s \<and> text_ok name"
| "wire_ok (SessionRenamed s name) \<longleftrightarrow> num_ok s \<and> text_ok name"
| "wire_ok SessionsChanged \<longleftrightarrow> True"
| "wire_ok (SessionWindowChanged s w) \<longleftrightarrow> num_ok s \<and> num_ok w"
| "wire_ok (ClientSessionChanged c s name) \<longleftrightarrow> token_ok c \<and> num_ok s \<and> text_ok name"
| "wire_ok (ClientDetached c) \<longleftrightarrow> c \<noteq> [] \<and> token_ok c \<and> text_ok c"
| "wire_ok (PasteBufferChanged name) \<longleftrightarrow> name \<noteq> [] \<and> token_ok name \<and> text_ok name"
| "wire_ok (PasteBufferDeleted name) \<longleftrightarrow> name \<noteq> [] \<and> token_ok name \<and> text_ok name"
| "wire_ok (SubscriptionChanged s) \<longleftrightarrow>
     token_ok (subName s) \<and> num_ok (subSessionId s) \<and> num_ok (subWindowId s)
     \<and> num_ok (subWindowIndex s) \<and> num_ok (subPaneId s) \<and> text_ok (subValue s)"
| "wire_ok (Message m) \<longleftrightarrow> text_ok m"
| "wire_ok (ConfigError e) \<longleftrightarrow> text_ok e"
| "wire_ok (Exit reason) \<longleftrightarrow> (case reason of None \<Rightarrow> True | Some r \<Rightarrow> r \<noteq> [] \<and> text_ok r)"

lemma num_ok_cases [consumes 1, case_names NaN Num]:
  assumes "num_ok v"
  obtains "v = NaN" | n where "v = Num n" and "safe_int n"
  using assms by (cases v) (auto simp: num_ok_def)

lemma num_str_chars:
  assumes "num_ok v" and "c \<in> set (num_str v)"
  shows "c \<noteq> SP \<and> c \<noteq> LF \<and> c \<noteq> CR \<and> c \<noteq> CHR '':''"
  using assms(1)
proof (cases rule: num_ok_cases)
  case NaN
  then show ?thesis using assms(2) by auto
next
  case (Num n)
  then have "is_digit c \<or> c = CHR ''-''" using assms(2) int_str_chars by simp
  then show ?thesis by (auto simp: is_digit_def)
qed

lemma num_str_nonempty [simp]: "num_str v \<noteq> []"
  by (cases v) simp_all

lemma num_str_free [simp]:
  "num_ok v \<Longrightarrow> SP \<notin> set (num_str v)"
  "num_ok v \<Longrightarrow> LF \<notin> set (num_str v)"
  "num_ok v \<Longrightarrow> CR \<notin> set (num_str v)"
  "num_ok v \<Longrightarrow> CHR '':'' \<notin> set (num_str v)"
  using num_str_chars by blast+

lemma parse_num_str:
  assumes "num_ok v" and "s = [] \<or> \<not> is_digit (hd s)"
  shows "parse_int (num_str v @ s) = v"
  using assms(1)
proof (cases rule: num_ok_cases)
  case NaN
  then show ?thesis by (simp add: parse_int_def js_space_def is_digit_def)
next
  case (Num n)
  then show ?thesis using assms(2) by (simp add: parse_int_int_str)
qed

lemma parse_num [simp]: "num_ok v \<Longrightarrow> parse_int (num_str v) = v"
  using parse_num_str [of v "[]"] by simp

lemma parse_id [simp]:
  "num_ok v \<Longrightarrow> parse_pane_id (c # num_str v) = v"
  "num_ok v \<Longrightarrow> parse_window_id (c # num_str v) = v"
  "num_ok v \<Longrightarrow> parse_session_id (c # num_str v) = v"
  by (simp_all add: parse_pane_id_def parse_window_id_def parse_session_id_def)

lemma num_str_not_dash: "num_ok v \<Longrightarrow> num_str v \<noteq> ''-''"
proof
  assume "num_ok v" and d: "num_str v = ''-''"
  from parse_num [OF this(1)] have "v = parse_int ''-''" by (simp only: d)
  also have "\<dots> = NaN" by code_simp
  finally show False using d by simp
qed

lemma parse_optional [simp]:
  "num_ok v \<Longrightarrow> c \<noteq> CHR ''-'' \<Longrightarrow> parse_optional_id (optional_id v [c]) parse_pane_id = v"
  "num_ok v \<Longrightarrow> c \<noteq> CHR ''-'' \<Longrightarrow> parse_optional_id (optional_id v [c]) parse_window_id = v"
  "num_ok v \<Longrightarrow> c \<noteq> CHR ''-'' \<Longrightarrow> parse_optional_id (optional_id v [c]) parse_session_id = v"
  "num_ok v \<Longrightarrow> parse_optional_int (optional_int v) = v"
  by (simp_all add: parse_optional_id_def optional_id_def parse_optional_int_def optional_int_def
      num_str_not_dash)

lemma optional_chars:
  "num_ok v \<Longrightarrow> d \<in> set (optional_id v [c]) \<Longrightarrow>
     d = c \<or> d \<noteq> SP \<and> d \<noteq> LF \<and> d \<noteq> CR \<and> d \<noteq> CHR '':''"
  "num_ok v \<Longrightarrow> d \<in> set (optional_int v) \<Longrightarrow>
     d \<noteq> SP \<and> d \<noteq> LF \<and> d \<noteq> CR \<and> d \<noteq> CHR '':''"
  by (auto simp: optional_id_def optional_int_def dest: num_str_chars split: if_splits)

lemma optional_free [simp]:
  "num_ok v \<Longrightarrow> d \<noteq> c \<Longrightarrow> d \<in> {SP, LF, CR, CHR '':''} \<Longrightarrow> d \<notin> set (optional_id v [c])"
  "num_ok v \<Longrightarrow> d \<in> {SP, LF, CR, CHR '':''} \<Longrightarrow> d \<notin> set (optional_int v)"
  using optional_chars by blast+

text \<open>The first \<open> : \<close> of a line whose head has no colon after its first token.\<close>

lemma index_of_colon:
  "CHR '':'' \<notin> set a \<Longrightarrow> index_of_str '' : '' (a @ '' : '' @ s) = Some (length a)"
proof (induction a)
  case Nil
  then show ?case by simp
next
  case (Cons c a)
  then show ?case by (cases a) auto
qed

lemma index_of_colon_token:
  "SP \<notin> set name \<Longrightarrow>
   index_of_str '' : '' (name @ t) = map_option ((+) (length name)) (index_of_str '' : '' t)"
  by (induction name; cases "index_of_str '' : '' t") auto

lemma index_of_name_colon:
  assumes "SP \<notin> set name" and "CHR '':'' \<notin> set a"
  shows "index_of_str '' : '' (name @ a @ '' : '' @ s) = Some (length name + length a)"
  using index_of_colon_token [OF assms(1), of "a @ '' : '' @ s"] index_of_colon [OF assms(2), of s]
  by simp

lemma map_of_message_type:
  "map_of PARSERS (message_type m) \<noteq> None" "SP \<notin> set (message_type m)"
  by (cases m; simp add: PARSERS_def)+

lemma clean_text [simp]: "s = [] \<or> last s \<noteq> CR \<Longrightarrow> clean_line s = s"
  by (cases s rule: rev_cases) (auto simp: clean_line_def)

lemma line_parts_args [simp]:
  "SP \<notin> set t \<Longrightarrow> line_parts (CHR ''%'' # t @ SP # args) = (True, t, args)"
  by (simp add: line_parts_def index_of_append)

lemma line_parts_no_args [simp]:
  "SP \<notin> set t \<Longrightarrow> line_parts (CHR ''%'' # t) = (True, t, [])"
  by (simp add: line_parts_def)

text \<open>The shape of a serialized message: its type, then arguments its parser inverts.\<close>

definition serialized_as :: "tmux_message \<Rightarrow> string \<Rightarrow> bool" where
  "serialized_as m args \<longleftrightarrow>
     (serialize_message m = CHR ''%'' # message_type m @ SP # args
       \<or> serialize_message m = CHR ''%'' # message_type m \<and> args = []
           \<and> (message_type m = ''exit'' \<or> message_type m = ''sessions-changed''))
     \<and> text_ok args \<and> the (map_of PARSERS (message_type m)) args = Some m"

lemma text_ok_append:
  "text_ok (a @ b) \<longleftrightarrow> LF \<notin> set a \<and> (if b = [] then text_ok a else text_ok b)"
  by (auto simp: text_ok_def)

lemma text_ok_Cons:
  "text_ok (c # s) \<longleftrightarrow> c \<noteq> LF \<and> text_ok s \<and> (s = [] \<longrightarrow> c \<noteq> CR)"
  by (auto simp: text_ok_def)

lemma text_okI: "(\<And>c. c \<in> set s \<Longrightarrow> c \<noteq> LF \<and> c \<noteq> CR) \<Longrightarrow> text_ok s"
  using last_in_set [of s] by (auto simp: text_ok_def)

lemma text_ok_num [simp]: "num_ok v \<Longrightarrow> text_ok (num_str v)"
  using num_str_chars by (intro text_okI) blast

lemma text_ok_octal [simp]: "text_ok (encode_octal bs)"
  by (rule text_okI) (auto dest: encode_octal_printable)

lemmas text_simps = text_ok_append text_ok_Cons serialized_as_def PARSERS_def
  split_on_single split_on_Cons_sep

lemma serialized_guards:
  "guard_ok g \<Longrightarrow> \<exists>args. serialized_as (Begin g) args"
  "guard_ok g \<Longrightarrow> \<exists>args. serialized_as (End g) args"
  "guard_ok g \<Longrightarrow> \<exists>args. serialized_as (Error g) args"
  by (rule exI [of _ "num_str (timestamp g) @ SP # num_str (commandNumber g) @ SP # num_str (flags g)"],
      simp add: text_simps guard_ok_def serialize_guard_def parse_guard_def)+

lemma num_ok_no_dash: "num_ok v \<Longrightarrow> parse_int (num_str v @ SP # s) = v"
  by (rule parse_num_str) (simp_all add: is_digit_def)

lemma serialized_outputs:
  "num_ok (outPaneId out) \<Longrightarrow> serialized_as (Output out)
     (CHR ''%'' # num_str (outPaneId out) @ SP # encode_octal (outData out))"
  "num_ok (outPaneId out) \<Longrightarrow> num_ok age \<Longrightarrow> serialized_as (ExtendedOutput out age)
     (CHR ''%'' # num_str (outPaneId out) @ SP # num_str age @ '' : '' @ encode_octal (outData out))"
proof -
  assume p: "num_ok (outPaneId out)"
  have "index_of SP (CHR ''%'' # num_str (outPaneId out) @ SP # encode_octal (outData out))
      = Some (length (CHR ''%'' # num_str (outPaneId out)))"
    using index_of_append [of SP "CHR ''%'' # num_str (outPaneId out)"] p by simp
  with p show "serialized_as (Output out)
     (CHR ''%'' # num_str (outPaneId out) @ SP # encode_octal (outData out))"
    by (simp add: text_simps parse_output_def decode_encode)
next
  assume p: "num_ok (outPaneId out)" and a: "num_ok age"
  have "index_of_str '' : '' ((CHR ''%'' # num_str (outPaneId out) @ SP # num_str age)
        @ '' : '' @ encode_octal (outData out))
      = Some (length (CHR ''%'' # num_str (outPaneId out) @ SP # num_str age))"
    using p a by (intro index_of_colon) simp
  moreover have "split_on SP (CHR ''%'' # num_str (outPaneId out) @ SP # num_str age)
      = [CHR ''%'' # num_str (outPaneId out), num_str age]"
    using split_on_Cons_sep [of SP "CHR ''%'' # num_str (outPaneId out)"] p a
    by (simp add: split_on_single)
  ultimately show "serialized_as (ExtendedOutput out age)
     (CHR ''%'' # num_str (outPaneId out) @ SP # num_str age @ '' : '' @ encode_octal (outData out))"
    using p a by (simp add: text_simps parse_extended_output_def decode_encode numeral_eq_Suc)
qed

text \<open>Sigil-prefixed ids as tokens of an argument list.\<close>

lemma sigil_token:
  assumes "num_ok v" and "c \<noteq> SP"
  shows "split_on SP (c # num_str v) = [c # num_str v]"
    and "split_on SP (c # num_str v @ SP # s) = (c # num_str v) # split_on SP s"
    and "index_of SP (c # num_str v @ SP # s) = Some (Suc (length (num_str v)))"
  using assms split_on_single [of SP "c # num_str v"] split_on_Cons_sep [of SP "c # num_str v" s]
    index_of_append [of SP "c # num_str v" s]
  by simp_all

lemma serialized_ids:
  assumes "num_ok v"
  shows "serialized_as (Pause v) (CHR ''%'' # num_str v)"
    and "serialized_as (Continue v) (CHR ''%'' # num_str v)"
    and "serialized_as (PaneModeChanged v) (CHR ''%'' # num_str v)"
    and "serialized_as (WindowAdd v) (CHR ''@'' # num_str v)"
    and "serialized_as (WindowClose v) (CHR ''@'' # num_str v)"
    and "serialized_as (UnlinkedWindowAdd v) (CHR ''@'' # num_str v)"
    and "serialized_as (UnlinkedWindowClose v) (CHR ''@'' # num_str v)"
    and "num_ok w \<Longrightarrow> serialized_as (WindowPaneChanged v w)
           (CHR ''@'' # num_str v @ SP # CHR ''%'' # num_str w)"
    and "num_ok w \<Longrightarrow> serialized_as (SessionWindowChanged v w)
           (CHR ''$'' # num_str v @ SP # CHR ''@'' # num_str w)"
  using assms
  by (simp_all add: text_simps sigil_token parse_pane_id_only_def parse_window_id_only_def
      parse_window_pane_changed_def parse_session_window_changed_def)

lemma serialized_names:
  assumes "num_ok v" and "text_ok name"
  shows "serialized_as (WindowRenamed v name) (CHR ''@'' # num_str v @ SP # name)"
    and "serialized_as (UnlinkedWindowRenamed v name) (CHR ''@'' # num_str v @ SP # name)"
    and "serialized_as (SessionChanged v name) (CHR ''$'' # num_str v @ SP # name)"
    and "serialized_as (SessionRenamed v name) (CHR ''$'' # num_str v @ SP # name)"
    and "token_ok c \<Longrightarrow> serialized_as (ClientSessionChanged c v name)
           (c @ SP # CHR ''$'' # num_str v @ SP # name)"
  using assms
  by (auto simp: text_simps sigil_token parse_window_renamed_def parse_session_with_name_def
      parse_client_session_changed_def index_of_append token_ok_def text_ok_def)

lemma serialized_texts:
  "c \<noteq> [] \<Longrightarrow> token_ok c \<Longrightarrow> text_ok c \<Longrightarrow> serialized_as (ClientDetached c) c"
  "c \<noteq> [] \<Longrightarrow> token_ok c \<Longrightarrow> text_ok c \<Longrightarrow> serialized_as (PasteBufferChanged c) c"
  "c \<noteq> [] \<Longrightarrow> token_ok c \<Longrightarrow> text_ok c \<Longrightarrow> serialized_as (PasteBufferDeleted c) c"
  "text_ok s \<Longrightarrow> serialized_as (Message s) s"
  "text_ok s \<Longrightarrow> serialized_as (ConfigError s) s"
  "s \<noteq> [] \<Longrightarrow> text_ok s \<Longrightarrow> serialized_as (Exit (Some s)) s"
  "serialized_as (Exit None) []"
  "serialized_as SessionsChanged []"
  by (simp_all add: text_simps parse_client_detached_def parse_name_only_def token_ok_def
      parse_message_msg_def parse_config_error_def parse_exit_def parse_sessions_changed_def
      text_ok_def)

lemma serialized_layout:
  assumes "wire_ok (LayoutChange w l)"
  shows "serialized_as (LayoutChange w l)
    (CHR ''@'' # num_str w @ SP # windowLayout l @ SP # windowVisibleLayout l @ SP # windowFlags l)"
  using assms
  by (auto simp: text_simps sigil_token parse_layout_change_def token_ok_def text_ok_def)

lemma serialized_subscription:
  assumes "wire_ok (SubscriptionChanged s)"
  shows "serialized_as (SubscriptionChanged s)
    (subName s @ SP # optional_id (subSessionId s) ''$'' @ SP # optional_id (subWindowId s) ''@''
       @ SP # optional_int (subWindowIndex s) @ SP # optional_id (subPaneId s) ''%''
       @ '' : '' @ subValue s)"
proof -
  define mid where "mid = SP # optional_id (subSessionId s) ''$'' @ SP #
    optional_id (subWindowId s) ''@'' @ SP # optional_int (subWindowIndex s) @ SP #
    optional_id (subPaneId s) ''%''"
  have ok: "SP \<notin> set (subName s)" "LF \<notin> set (subName s)" "text_ok (subValue s)"
    "num_ok (subSessionId s)" "num_ok (subWindowId s)" "num_ok (subWindowIndex s)"
    "num_ok (subPaneId s)"
    using assms by (auto simp: token_ok_def)
  have "CHR '':'' \<notin> set mid" using ok by (simp add: mid_def)
  then have "index_of_str '' : '' (subName s @ mid @ '' : '' @ subValue s)
      = Some (length (subName s) + length mid)"
    by (rule index_of_name_colon [OF ok(1)])
  moreover have "split_on SP (subName s @ mid) = [subName s, optional_id (subSessionId s) ''$'',
      optional_id (subWindowId s) ''@'', optional_int (subWindowIndex s),
      optional_id (subPaneId s) ''%'']"
    using ok by (simp add: mid_def split_on_Cons_sep split_on_single)
  ultimately have "parse_subscription_changed (subName s @ mid @ '' : '' @ subValue s)
      = Some (SubscriptionChanged s)"
    using ok by (simp add: parse_subscription_changed_def)
  moreover have "text_ok (subName s @ mid @ '' : '' @ subValue s)"
    using ok by (simp add: mid_def text_ok_append text_ok_Cons)
  ultimately show ?thesis
    by (simp add: serialized_as_def PARSERS_def mid_def)
qed

lemma serializedI: "serialized_as m args \<Longrightarrow> \<exists>args. serialized_as m args"
  by (rule exI)

lemmas serialized_intros = serialized_guards serialized_outputs [THEN serializedI]
  serialized_ids [THEN serializedI] serialized_names [THEN serializedI]
  serialized_texts [THEN serializedI] serialized_layout [THEN serializedI]
  serialized_subscription [THEN serializedI]

lemma serialized_args:
  assumes "wire_ok m"
  shows "\<exists>args. serialized_as m args"
proof (cases m)
  case (LayoutChange w l)
  then show ?thesis using assms by (simp only: serialized_intros)
next
  case (SubscriptionChanged s)
  then show ?thesis using assms by (simp only: serialized_intros)
next
  case (Exit r)
  then show ?thesis using assms by (cases r) (simp_all add: serialized_intros)
qed (use assms in \<open>simp_all add: serialized_intros\<close>)

lemma process_serialized:
  assumes "serialized_as m args"
    and "a = Num (- 1) \<or> is_block_terminator (message_type m)"
  shows "process_line a (serialize_message m @ replicate k CR) = (track_block a m, [Emit m])"
proof -
  define t where "t = message_type m"
  have sp: "SP \<notin> set t" by (simp add: t_def map_of_message_type)
  obtain parser where p: "map_of PARSERS t = Some parser"
    using map_of_message_type(1) [of m] by (auto simp: t_def)
  have m: "parser args = Some m" and ok: "text_ok args"
    using assms(1) p by (simp_all add: serialized_as_def t_def)
  have "clean_line (serialize_message m) = serialize_message m"
  proof (rule clean_text)
    have "message_type m \<noteq> []" "last (message_type m) \<noteq> CR" by (cases m; simp)+
    then show "serialize_message m = [] \<or> last (serialize_message m) \<noteq> CR"
      using assms(1) by (auto simp: serialized_as_def text_ok_def split: if_splits)
  qed
  moreover have "line_parts (serialize_message m) = (True, t, args)"
    using assms(1) sp by (auto simp: serialized_as_def t_def)
  ultimately have parts: "line_parts (clean_line (serialize_message m)) = (True, t, args)"
    by simp
  show ?thesis
    using assms(2) by (auto simp: process_line_def parts p [unfolded t_def] m t_def Let_def)
qed

lemma serialized_no_LF: "serialized_as m args \<Longrightarrow> LF \<notin> set (serialize_message m)"
proof -
  have "LF \<notin> set (message_type m)" by (cases m) simp_all
  then show "serialized_as m args \<Longrightarrow> LF \<notin> set (serialize_message m)"
    by (auto simp: serialized_as_def text_ok_def)
qed

subsection \<open>The round trip\<close>

definition wire_bytes :: "string list \<Rightarrow> string" where
  "wire_bytes lines = concat (map (\<lambda>l. l @ [LF]) lines)"

lemma split_wire_bytes:
  assumes "\<forall>l\<in>set lines. LF \<notin> set l"
  shows "split_on LF (wire_bytes lines) = lines @ [[]]"
  using assms by (induction lines) (simp_all add: wire_bytes_def split_on_Cons_sep)

lemma feed_wire_bytes:
  assumes "concat chunks = wire_bytes lines" and "\<forall>l\<in>set lines. LF \<notin> set l"
  shows "run_steps feed new_parser chunks =
    (let (a, evs) = run_steps process_line (Num (- 1)) lines
     in (\<lparr>buffer = [], activeCommandNumber = a\<rparr>, evs))"
  using assms by (simp add: run_feed_lines new_parser_def split_wire_bytes)

text \<open>
  C18. The serializer is the parser run backwards: the wire line of every message in the
  round-trip domain, with any run of carriage returns the transport adds before its line
  feed, and cut into any chunks, parses to exactly that message.
\<close>

theorem serialize_roundtrip:
  assumes "wire_ok m" and "concat chunks = serialize_message m @ replicate k CR @ [LF]"
  shows "run_steps feed new_parser chunks =
    (\<lparr>buffer = [], activeCommandNumber = track_block (Num (- 1)) m\<rparr>, [Emit m])"
proof -
  obtain args where s: "serialized_as m args" using serialized_args [OF assms(1)] by blast
  have "concat chunks = wire_bytes [serialize_message m @ replicate k CR]"
    using assms(2) by (simp add: wire_bytes_def)
  then show ?thesis
    using serialized_no_LF [OF s] process_serialized [OF s, of "Num (- 1)" k]
    by (simp add: feed_wire_bytes run_steps.simps(2))
qed

theorem serialize_roundtrip_witness:
  "run_steps feed new_parser [''%window-ren'', ''amed @3 a b'' @ [CR], [LF]] =
    (\<lparr>buffer = [], activeCommandNumber = Num (- 1)\<rparr>, [Emit (WindowRenamed (Num 3) ''a b'')])"
proof -
  have "wire_ok (WindowRenamed (Num 3) ''a b'')" by code_simp
  moreover have "concat [''%window-ren'', ''amed @3 a b'' @ [CR], [LF]] =
      serialize_message (WindowRenamed (Num 3) ''a b'') @ replicate 1 CR @ [LF]"
    by code_simp
  ultimately show ?thesis
    using serialize_roundtrip [of "WindowRenamed (Num 3) ''a b''" _ 1] by simp
qed

text \<open>A whole transcript: messages and output lines as the parser would report them.\<close>

fun event_line :: "parser_event \<Rightarrow> string" where
  "event_line (Emit m) = serialize_message m"
| "event_line (OutputLine n line) = line"
| "event_line (ProtocolError n line) = line"

fun event_ok :: "parser_event \<Rightarrow> bool" where
  "event_ok (Emit m) \<longleftrightarrow> wire_ok m"
| "event_ok (OutputLine n line) \<longleftrightarrow>
     LF \<notin> set line \<and> \<not> is_block_terminator (fst (snd (line_parts (clean_line line))))"
| "event_ok (ProtocolError n line) \<longleftrightarrow> False"

lemma process_event_line:
  assumes "event_ok e" and "block_event a e = Some a'"
  shows "process_line a (event_line e) = (a', [e])"
proof (cases e)
  case (Emit m)
  then obtain args where s: "serialized_as m args" using serialized_args assms(1) by auto
  have "a = Num (- 1) \<or> is_block_terminator (message_type m)" and "a' = track_block a m"
    using assms(2) Emit by (auto simp: is_block_terminator_def split: tmux_message.splits if_splits)
  then show ?thesis using process_serialized [OF s, of a 0] Emit by simp
qed (use assms in \<open>auto simp: process_line_output split: if_splits\<close>)

lemma event_line_no_LF: "event_ok e \<Longrightarrow> LF \<notin> set (event_line e)"
  by (cases e) (use serialized_args serialized_no_LF in auto)

lemma run_event_lines:
  assumes "\<forall>e\<in>set evs. event_ok e" and "block_trace a evs = Some a'"
  shows "run_steps process_line a (map event_line evs) = (a', evs)"
  using assms
proof (induction evs arbitrary: a)
  case Nil
  then show ?case by simp
next
  case (Cons e evs)
  then obtain b where "block_event a e = Some b" and "block_trace b evs = Some a'"
    by (auto split: option.splits)
  with Cons show ?case by (simp add: run_steps.simps(2) process_event_line)
qed

text \<open>
  C6. Replay: a transcript that obeys the block protocol, its messages serialized and its
  command output written as it is, one per line, is reported back event for event, whatever
  chunks it arrives in. With \<open>feed_block_purity\<close> this characterises the traces: the block protocol is what the
  parser guarantees and all that a transcript needs.
\<close>

theorem transcript_roundtrip:
  assumes "\<forall>e\<in>set evs. event_ok e" and "block_trace (Num (- 1)) evs = Some a"
    and "concat chunks = wire_bytes (map event_line evs)"
  shows "run_steps feed new_parser chunks = (\<lparr>buffer = [], activeCommandNumber = a\<rparr>, evs)"
  using assms event_line_no_LF
  by (simp add: feed_wire_bytes run_event_lines)

theorem transcript_roundtrip_witness:
  "run_steps feed new_parser [''%begin 1 7 0'' @ [LF] @ ''%5'', LF # ''%en'', ''d 1 7 0'' @ [LF] @ ''%exit'', [LF]] =
    (\<lparr>buffer = [], activeCommandNumber = Num (- 1)\<rparr>,
     [Emit (Begin \<lparr>timestamp = Num 1, commandNumber = Num 7, flags = Num 0\<rparr>),
      OutputLine (Num 7) ''%5'',
      Emit (End \<lparr>timestamp = Num 1, commandNumber = Num 7, flags = Num 0\<rparr>),
      Emit (Exit None)])"
proof (rule transcript_roundtrip)
  show "\<forall>e\<in>set [Emit (Begin \<lparr>timestamp = Num 1, commandNumber = Num 7, flags = Num 0\<rparr>),
      OutputLine (Num 7) ''%5'',
      Emit (End \<lparr>timestamp = Num 1, commandNumber = Num 7, flags = Num 0\<rparr>),
      Emit (Exit None)]. event_ok e"
    by code_simp
qed code_simp+

interpretation wire: wire_codec "\<lambda>m. serialize_message m @ [LF]"
  "\<lambda>s. case snd (feed new_parser s) of [Emit m] \<Rightarrow> Some m | _ \<Rightarrow> None" wire_ok
proof
  fix m
  assume "wire_ok m"
  then obtain args where s: "serialized_as m args" using serialized_args by blast
  have "wire_bytes [serialize_message m] = serialize_message m @ [LF]"
    by (simp add: wire_bytes_def)
  with feed_wire_bytes [of "[serialize_message m @ [LF]]" "[serialize_message m]"]
  have "snd (feed new_parser (serialize_message m @ [LF])) = [Emit m]"
    using serialized_no_LF [OF s] process_serialized [OF s, of "Num (- 1)" 0]
    by (simp add: run_steps.simps(2) split_beta Let_def)
  then show "(case snd (feed new_parser (serialize_message m @ [LF])) of
      [Emit m] \<Rightarrow> Some m | _ \<Rightarrow> None) = Some m" by simp
qed

text \<open>
  No two messages of the round-trip domain share a wire line.
\<close>

theorem serialize_injective:
  assumes "wire_ok m" and "wire_ok m'" and "serialize_message m = serialize_message m'"
  shows "m = m'"
  by (rule wire.enc_inj) (use assms in simp_all)

theorem serialize_injective_witness:
  "serialize_message (Exit None) = serialize_message (Exit None) \<and> Exit None = Exit None"
  using serialize_injective [of "Exit None" "Exit None"] by simp

text \<open>
  The round trip needs its domain: the parser also produces messages outside it. A name
  that ends in a carriage return, with a discarded field after it on the wire, loses it when
  it becomes the last field of the serialized line.
\<close>

theorem roundtrip_domain_strict:
  "snd (feed new_parser (''%paste-buffer-changed a'' @ [CR] @ '' b'' @ [LF])) =
     [Emit (PasteBufferChanged (''a'' @ [CR]))] \<and>
   snd (feed new_parser (serialize_message (PasteBufferChanged (''a'' @ [CR])) @ [LF])) =
     [Emit (PasteBufferChanged ''a'')]"
  by (rule conjI; code_simp)

end
