(* ===== verification/Client.thy ===== *)
theory Client
  imports Emitter Serializer Encoder
begin

section \<open>The client: correlation and lifecycle\<close>

text \<open>
  \<open>src/client.ts\<close> and the error taxonomy of \<open>src/errors.ts\<close>. A promise is its number, in
  the order of the \<open>execute\<close> calls; the entry of the FIFO is the promise it settles. Every
  call the client makes on its collaborators is an effect of the step, in call order:
  settling a promise, emitting an event, handing a message to the router, using the
  transport. A collaborator's own calls back into the client are operations of their own,
  except the transport's, which may deliver synchronously inside \<open>send\<close>: an \<open>Execute\<close>
  carries what it delivers and what it returns.
\<close>

subsection \<open>Errors\<close>

datatype client_error =
    TmuxCommandError command_response
  | TmuxProtocolError jsnum string "string list"
  | TransportSendError string
  | TransportClosedError "string option"
  | TmuxInvalidCommandError string
  | Thrown error_ref

text \<open>The message of a \<open>TmuxCommandError\<close>: the first output line that is not blank.\<close>

definition headline :: "command_response \<Rightarrow> string" where
  "headline resp =
     (case find (\<lambda>l. 0 < length l) (map clean_line (respOutput resp)) of
        None \<Rightarrow> ''tmux command failed (%error)''
      | Some l \<Rightarrow> l)"

definition invalid_command :: "string \<Rightarrow> client_error option" where
  "invalid_command command =
     (let trimmed = trim command in
      if trimmed = [] \<or> take 1 trimmed = ''#'' \<or> LF \<in> set command
      then Some (TmuxInvalidCommandError command) else None)"

definition is_connection_gone :: "client_error \<Rightarrow> bool" where
  "is_connection_gone err =
     (case err of TransportClosedError r \<Rightarrow> True | TransportSendError r \<Rightarrow> True | _ \<Rightarrow> False)"

subsection \<open>State\<close>

record inflight_entry =
  entryId :: nat
  entryCommandNumber :: jsnum
  entryTimestamp :: jsnum
  entryOutput :: "string list"

record client =
  parser :: parser_state
  pending :: "nat list"
  inflight :: "inflight_entry option"
  connState :: connection_state
  userClosed :: bool
  awaitingGreeting :: bool
  exitAlreadyEmitted :: bool
  nextPromise :: nat

datatype client_effect =
    Resolve nat command_response
  | Reject nat client_error
  | EmitEvent emitter_message
  | RouterBytes jsnum "byte list"
  | RouterNotification tmux_message
  | RouterReady
  | RouterClose
  | TransportSend string
  | TransportClose

datatype send_outcome = Sent | Refused string | SendThrew error_ref

datatype transport_event = Data string | Closing "string option"

datatype client_op =
    Execute string "transport_event list" send_outcome
  | Transport transport_event
  | Close
  | Detach

definition new_client :: client where
  "new_client =
     \<lparr>parser = new_parser, pending = [], inflight = None, connState = Connecting,
      userClosed = False, awaitingGreeting = True, exitAlreadyEmitted = False, nextPromise = 0\<rparr>"

definition is_closed :: "client \<Rightarrow> bool" where
  "is_closed c \<longleftrightarrow> status (connState c) = ''closed''"

subsection \<open>Operations\<close>

definition set_connection_state :: "connection_state \<Rightarrow> client \<Rightarrow> client \<times> client_effect list" where
  "set_connection_state next c =
     (if is_closed c then (c, [])
      else if same_connection_state (connState c) next then (c, [])
      else (c\<lparr>connState := next\<rparr>,
            EmitEvent (ConnectionStateMessage next) #
            (if status next = ''ready'' then [RouterReady] else [])))"

definition response_of :: "inflight_entry \<Rightarrow> bool \<Rightarrow> command_response" where
  "response_of entry ok =
     \<lparr>respCommandNumber = entryCommandNumber entry, respTimestamp = entryTimestamp entry,
      respOutput = entryOutput entry, success = ok\<rparr>"

text \<open>
  The type-directed first half of \<open>handleMessage\<close>; the flag is its early return.
\<close>

definition correlate :: "client \<Rightarrow> tmux_message \<Rightarrow> client \<times> client_effect list \<times> bool" where
  "correlate c msg =
     (case msg of
        Begin g \<Rightarrow>
          if awaitingGreeting c then (c, [], False)
          else (case pending c of
                  [] \<Rightarrow> (c, [], False)
                | entry # rest \<Rightarrow>
                    (c\<lparr>pending := rest,
                       inflight := Some \<lparr>entryId = entry, entryCommandNumber = commandNumber g,
                                         entryTimestamp = timestamp g, entryOutput = []\<rparr>\<rparr>,
                     [], False))
      | End g \<Rightarrow>
          if awaitingGreeting c then
            (let (c', effs) = set_connection_state Ready (c\<lparr>awaitingGreeting := False\<rparr>)
             in (c', effs, False))
          else (c\<lparr>inflight := None\<rparr>,
                (case inflight c of None \<Rightarrow> []
                 | Some entry \<Rightarrow> [Resolve (entryId entry) (response_of entry True)]), False)
      | Error g \<Rightarrow>
          if awaitingGreeting c then
            (let (c', effs) = set_connection_state Ready (c\<lparr>awaitingGreeting := False\<rparr>)
             in (c', effs, False))
          else (c\<lparr>inflight := None\<rparr>,
                (case inflight c of None \<Rightarrow> []
                 | Some entry \<Rightarrow>
                     [Reject (entryId entry) (TmuxCommandError (response_of entry False))]), False)
      | Exit reason \<Rightarrow>
          if exitAlreadyEmitted c then (c, [], True)
          else (c\<lparr>exitAlreadyEmitted := True\<rparr>, [], False)
      | _ \<Rightarrow> (c, [], False))"

definition handle_message :: "client \<Rightarrow> tmux_message \<Rightarrow> client \<times> client_effect list" where
  "handle_message c msg =
     (if is_closed c then (c, [])
      else
        let (c', effs, stop) = correlate c msg in
        if stop then (c', effs)
        else (case msg of
                Output out \<Rightarrow> (c', effs @ [RouterBytes (outPaneId out) (outData out)])
              | ExtendedOutput out age \<Rightarrow> (c', effs @ [RouterBytes (outPaneId out) (outData out)])
              | _ \<Rightarrow> (c', effs @ [RouterNotification msg, EmitEvent (Wire msg)])))"

definition handle_protocol_error :: "client \<Rightarrow> jsnum \<Rightarrow> string \<Rightarrow> client \<times> client_effect list" where
  "handle_protocol_error c n line =
     (if is_closed c then (c, [])
      else
        let (c', effs) =
          (if awaitingGreeting c then set_connection_state Ready (c\<lparr>awaitingGreeting := False\<rparr>)
           else (c\<lparr>inflight := None\<rparr>,
                 (case inflight c of None \<Rightarrow> []
                  | Some entry \<Rightarrow>
                      [Reject (entryId entry) (TmuxProtocolError n line (entryOutput entry))])))
        in (c', effs @ [EmitEvent (ProtocolErrorMessage n line)]))"

definition handle_output_line :: "client \<Rightarrow> string \<Rightarrow> client" where
  "handle_output_line c line =
     c\<lparr>inflight := map_option (\<lambda>e. e\<lparr>entryOutput := entryOutput e @ [line]\<rparr>) (inflight c)\<rparr>"

text \<open>The three parser callbacks.\<close>

fun handle_event :: "client \<Rightarrow> parser_event \<Rightarrow> client \<times> client_effect list" where
  "handle_event c (Emit msg) = handle_message c msg"
| "handle_event c (OutputLine n line) = (handle_output_line c line, [])"
| "handle_event c (ProtocolError n line) = handle_protocol_error c n line"

definition on_data :: "client \<Rightarrow> string \<Rightarrow> client \<times> client_effect list" where
  "on_data c chunk =
     (let (p, evs) = feed (parser c) chunk in run_steps handle_event (c\<lparr>parser := p\<rparr>) evs)"

definition settle_pending_on_close ::
    "string option \<Rightarrow> client \<Rightarrow> client \<times> client_effect list" where
  "settle_pending_on_close reason c =
     (c\<lparr>inflight := None, pending := []\<rparr>,
      (case inflight c of None \<Rightarrow> []
       | Some entry \<Rightarrow> [Reject (entryId entry) (TransportClosedError reason)])
      @ map (\<lambda>entry. Reject entry (TransportClosedError reason)) (pending c))"

definition on_close :: "client \<Rightarrow> string option \<Rightarrow> client \<times> client_effect list" where
  "on_close c reason =
     (let (c1, settled) = settle_pending_on_close reason c;
          (c2, exit) = (if exitAlreadyEmitted c1 then (c1, [])
                        else (c1\<lparr>exitAlreadyEmitted := True\<rparr>, [EmitEvent (Wire (Exit reason))]));
          (c3, state) = set_connection_state
             (Closed (if userClosed c2 then ReasonDisposed
                      else if reason = None then ReasonExit else ReasonTransportError)) c2
      in (c3, [RouterClose] @ settled @ exit @ state))"

fun on_transport :: "client \<Rightarrow> transport_event \<Rightarrow> client \<times> client_effect list" where
  "on_transport c (Data chunk) = on_data c chunk"
| "on_transport c (Closing reason) = on_close c reason"

definition drop_pending :: "nat \<Rightarrow> client \<Rightarrow> client" where
  "drop_pending entry c =
     (if pending c \<noteq> [] \<and> last (pending c) = entry then c\<lparr>pending := butlast (pending c)\<rparr> else c)"

definition execute ::
    "client \<Rightarrow> string \<Rightarrow> transport_event list \<Rightarrow> send_outcome \<Rightarrow> client \<times> client_effect list" where
  "execute c command deliveries outcome =
     (let p = nextPromise c; c0 = c\<lparr>nextPromise := Suc p\<rparr> in
      if is_closed c0 then (c0, [Reject p (TransportSendError ''transport closed'')])
      else (case invalid_command command of
              Some invalid \<Rightarrow> (c0, [Reject p invalid])
            | None \<Rightarrow>
                let (c1, effs) = run_steps on_transport (c0\<lparr>pending := pending c0 @ [p]\<rparr>) deliveries;
                    sent = TransportSend (command @ [LF]) # effs
                in (case outcome of
                      Sent \<Rightarrow> (c1, sent)
                    | Refused reason \<Rightarrow>
                        (drop_pending p c1, sent @ [Reject p (TransportSendError reason)])
                    | SendThrew err \<Rightarrow> (drop_pending p c1, sent @ [Reject p (Thrown err)]))))"

fun client_step :: "client \<Rightarrow> client_op \<Rightarrow> client \<times> client_effect list" where
  "client_step c (Execute command deliveries outcome) = execute c command deliveries outcome"
| "client_step c (Transport ev) = on_transport c ev"
| "client_step c Close = (c\<lparr>userClosed := True\<rparr>, [TransportClose])"
| "client_step c Detach = (c, [TransportSend [LF]])"

subsection \<open>The ledger of promises\<close>

text \<open>
  What a history of effects settled: the answers, by tmux or by the transport's death, and
  the refusals of commands that were never sent.
\<close>

fun answer_of :: "client_effect \<Rightarrow> nat option" where
  "answer_of (Resolve p r) = Some p"
| "answer_of (Reject p err) =
     (case err of
        TmuxCommandError r \<Rightarrow> Some p
      | TmuxProtocolError n l out \<Rightarrow> Some p
      | TransportClosedError r \<Rightarrow> Some p
      | _ \<Rightarrow> None)"
| "answer_of _ = None"

fun refusal_of :: "client_effect \<Rightarrow> nat option" where
  "refusal_of (Reject p err) =
     (case err of
        TransportSendError r \<Rightarrow> Some p
      | TmuxInvalidCommandError s \<Rightarrow> Some p
      | Thrown e \<Rightarrow> Some p
      | _ \<Rightarrow> None)"
| "refusal_of _ = None"

definition answered :: "client_effect list \<Rightarrow> nat list" where
  "answered effs = List.map_filter answer_of effs"

definition refused :: "client_effect list \<Rightarrow> nat list" where
  "refused effs = List.map_filter refusal_of effs"

definition outstanding :: "client \<Rightarrow> nat list" where
  "outstanding c = (case inflight c of None \<Rightarrow> [] | Some e \<Rightarrow> [entryId e]) @ pending c"

lemma answered_simps [simp]:
  "answered [] = []"
  "answered (e # es) = (case answer_of e of None \<Rightarrow> [] | Some p \<Rightarrow> [p]) @ answered es"
  "answered (xs @ ys) = answered xs @ answered ys"
  by (simp_all add: answered_def map_filter_simps map_filter_def split: option.splits)

lemma refused_simps [simp]:
  "refused [] = []"
  "refused (e # es) = (case refusal_of e of None \<Rightarrow> [] | Some p \<Rightarrow> [p]) @ refused es"
  "refused (xs @ ys) = refused xs @ refused ys"
  by (simp_all add: refused_def map_filter_simps map_filter_def split: option.splits)

text \<open>
  The FIFO law of a step: the answers, followed by what is still outstanding, are what was
  outstanding, followed by the promises issued since that were not refused.
\<close>

definition fifo :: "client \<Rightarrow> client_effect list \<Rightarrow> client \<Rightarrow> bool" where
  "fifo c effs c' \<longleftrightarrow>
     nextPromise c \<le> nextPromise c' \<and> set (refused effs) \<subseteq> {nextPromise c..<nextPromise c'}
     \<and> answered effs @ outstanding c' =
         outstanding c @ filter (\<lambda>p. p \<notin> set (refused effs)) [nextPromise c..<nextPromise c']"

lemma fifo_refl: "fifo c [] c"
  by (simp add: fifo_def)

lemma fifo_trans:
  assumes "fifo c effs1 c1" and "fifo c1 effs2 c2"
  shows "fifo c (effs1 @ effs2) c2"
proof -
  let ?n = "nextPromise c" and ?n1 = "nextPromise c1" and ?n2 = "nextPromise c2"
  have le: "?n \<le> ?n1" "?n1 \<le> ?n2"
    and r1: "set (refused effs1) \<subseteq> {?n..<?n1}" and r2: "set (refused effs2) \<subseteq> {?n1..<?n2}"
    using assms by (simp_all add: fifo_def)
  have "filter (\<lambda>p. p \<notin> set (refused (effs1 @ effs2))) [?n..<?n1] =
      filter (\<lambda>p. p \<notin> set (refused effs1)) [?n..<?n1]"
    using r2 by (intro filter_cong) auto
  moreover have "filter (\<lambda>p. p \<notin> set (refused (effs1 @ effs2))) [?n1..<?n2] =
      filter (\<lambda>p. p \<notin> set (refused effs2)) [?n1..<?n2]"
    using r1 by (intro filter_cong) auto
  moreover have "[?n..<?n2] = [?n..<?n1] @ [?n1..<?n2]"
    using le upt_add_eq_append [of ?n ?n1 "?n2 - ?n1"] by simp
  ultimately have new: "filter (\<lambda>p. p \<notin> set (refused (effs1 @ effs2))) [?n..<?n2] =
      filter (\<lambda>p. p \<notin> set (refused effs1)) [?n..<?n1]
        @ filter (\<lambda>p. p \<notin> set (refused effs2)) [?n1..<?n2]"
    by (simp only: filter_append)
  have "answered (effs1 @ effs2) @ outstanding c2 =
      answered effs1 @ outstanding c1 @ filter (\<lambda>p. p \<notin> set (refused effs2)) [?n1..<?n2]"
    using assms(2) by (simp add: fifo_def)
  also have "\<dots> = outstanding c @ filter (\<lambda>p. p \<notin> set (refused effs1)) [?n..<?n1]
        @ filter (\<lambda>p. p \<notin> set (refused effs2)) [?n1..<?n2]"
    using assms(1) unfolding fifo_def append_assoc [symmetric] by simp
  finally show ?thesis
    using le r1 r2 new by (auto simp: fifo_def)
qed

text \<open>No promise number is used for a block's own end: the sentinel of the parser.\<close>

definition no_sentinel :: "client_effect list \<Rightarrow> bool" where
  "no_sentinel effs \<longleftrightarrow> (\<forall>g. EmitEvent (Wire (Begin g)) \<in> set effs \<longrightarrow> commandNumber g \<noteq> Num (- 1))"

text \<open>
  What a client state promises, relative to the number of the open block: an inflight entry
  only inside a block and after the greeting, none once closed.
\<close>

definition client_ok :: "jsnum \<Rightarrow> client \<Rightarrow> bool" where
  "client_ok a c \<longleftrightarrow>
     (inflight c \<noteq> None \<longrightarrow> a \<noteq> Num (- 1) \<and> \<not> awaitingGreeting c \<and> \<not> is_closed c)
     \<and> (is_closed c \<longrightarrow> pending c = [] \<and> exitAlreadyEmitted c)
     \<and> (awaitingGreeting c \<longrightarrow> connState c \<noteq> Ready)
     \<and> (\<not> awaitingGreeting c \<longrightarrow> connState c \<noteq> Connecting)"

lemma status_simps [simp]:
  "status s = ''closed'' \<longleftrightarrow> (\<exists>r. s = Closed r)"
  "status s = ''ready'' \<longleftrightarrow> s = Ready"
  by (cases s; simp)+

lemma is_closed_iff: "is_closed c \<longleftrightarrow> (\<exists>r. connState c = Closed r)"
  by (simp add: is_closed_def)

text \<open>The fields a connection-state transition touches.\<close>

lemma set_connection_state_frame [simp]:
  "pending (fst (set_connection_state s c)) = pending c"
  "inflight (fst (set_connection_state s c)) = inflight c"
  "nextPromise (fst (set_connection_state s c)) = nextPromise c"
  "awaitingGreeting (fst (set_connection_state s c)) = awaitingGreeting c"
  "exitAlreadyEmitted (fst (set_connection_state s c)) = exitAlreadyEmitted c"
  "userClosed (fst (set_connection_state s c)) = userClosed c"
  "parser (fst (set_connection_state s c)) = parser c"
  "answered (snd (set_connection_state s c)) = []"
  "refused (snd (set_connection_state s c)) = []"
  by (simp_all add: set_connection_state_def)

lemma set_connection_state_closed [simp]:
  "is_closed (fst (set_connection_state (Closed r) c))"
  by (auto simp: set_connection_state_def is_closed_iff same_connection_state_iff)

lemma set_connection_state_ready:
  "\<not> is_closed c \<Longrightarrow> connState (fst (set_connection_state Ready c)) = Ready"
  by (auto simp: set_connection_state_def same_connection_state_iff)

lemma outstanding_set_state [simp]:
  "outstanding (fst (set_connection_state s c)) = outstanding c"
  by (simp add: outstanding_def)

lemmas correlate_simps = correlate_def handle_message_def handle_protocol_error_def
  handle_output_line_def response_of_def split_beta Let_def

lemma no_sentinel_simps [simp]:
  "no_sentinel []"
  "no_sentinel (xs @ ys) \<longleftrightarrow> no_sentinel xs \<and> no_sentinel ys"
  "no_sentinel (e # es) \<longleftrightarrow>
     (\<forall>g. e = EmitEvent (Wire (Begin g)) \<longrightarrow> commandNumber g \<noteq> Num (- 1)) \<and> no_sentinel es"
  by (auto simp: no_sentinel_def)

lemma handle_closed: "is_closed c \<Longrightarrow> inflight c = None \<Longrightarrow> handle_event c e = (c, [])"
  by (cases e) (simp_all add: handle_message_def handle_protocol_error_def handle_output_line_def)

lemma greeting_ends:
  assumes "\<not> is_closed c" and "inflight c = None"
  shows "client_ok a (fst (set_connection_state Ready (c\<lparr>awaitingGreeting := False\<rparr>)))"
  using assms set_connection_state_ready [of "c\<lparr>awaitingGreeting := False\<rparr>"]
  by (simp add: client_ok_def is_closed_iff)

lemma block_event_terminator:
  "block_event a (Emit (End g)) = Some (Num (- 1))"
  "block_event a (Emit (Error g)) = Some (Num (- 1))"
  by simp_all

lemma handle_message_open:
  assumes "\<not> is_closed c" and "client_ok a c" and "block_event a (Emit msg) = Some a'"
    and "no_sentinel (snd (handle_message c msg))"
  shows "answered (snd (handle_message c msg)) @ outstanding (fst (handle_message c msg))
           = outstanding c \<and>
    refused (snd (handle_message c msg)) = [] \<and>
    nextPromise (fst (handle_message c msg)) = nextPromise c \<and>
    client_ok a' (fst (handle_message c msg))"
proof (cases msg)
  case (Begin g)
  then have "a = Num (- 1)" "a' = commandNumber g" using assms(3) by (auto split: if_splits)
  moreover have "commandNumber g \<noteq> Num (- 1)"
    using assms(1,4) Begin
    by (auto simp: correlate_simps split: if_splits list.splits)
  ultimately show ?thesis
    using assms(1,2) Begin
    by (auto simp: correlate_simps client_ok_def outstanding_def is_closed_iff
        split: list.splits option.splits)
next
  case (End g)
  then show ?thesis
    using assms greeting_ends [OF assms(1)]
    by (auto simp: correlate_simps client_ok_def outstanding_def is_closed_iff
        split: option.splits)
next
  case (Error g)
  then show ?thesis
    using assms greeting_ends [OF assms(1)]
    by (auto simp: correlate_simps client_ok_def outstanding_def is_closed_iff
        split: option.splits)
next
  case (Exit r)
  then show ?thesis
    using assms
    by (auto simp: correlate_simps client_ok_def outstanding_def is_closed_iff
        split: option.splits if_splits)
qed (use assms in \<open>auto simp: correlate_simps client_ok_def split: if_splits\<close>)

lemma client_ok_closed:
  "is_closed c \<Longrightarrow> client_ok a c \<Longrightarrow> client_ok a' c"
  by (auto simp: client_ok_def)

lemma handle_event_fifo:
  assumes ok: "client_ok a c" and b: "block_event a e = Some a'"
    and s: "no_sentinel (snd (handle_event c e))"
  shows "fifo c (snd (handle_event c e)) (fst (handle_event c e))
    \<and> client_ok a' (fst (handle_event c e))"
proof (cases "is_closed c")
  case True
  then have "inflight c = None" using ok by (auto simp: client_ok_def)
  with True show ?thesis
    using client_ok_closed [OF True ok] by (simp add: handle_closed fifo_refl)
next
  case False
  show ?thesis
  proof (cases e)
    case (Emit msg)
    then show ?thesis using handle_message_open [OF False ok, of msg a'] b s
      by (simp add: fifo_def)
  next
    case (OutputLine n line)
    then show ?thesis using ok b
      by (auto simp: correlate_simps fifo_def client_ok_def outstanding_def is_closed_iff
          split: if_splits option.splits)
  next
    case (ProtocolError n line)
    then have "a \<noteq> Num (- 1)" "a' = Num (- 1)" using b by (auto split: if_splits)
    with ProtocolError False ok greeting_ends [OF False] show ?thesis
      by (auto simp: correlate_simps fifo_def client_ok_def outstanding_def is_closed_iff
          split: option.splits)
  qed
qed

lemma run_events_fifo:
  assumes "client_ok a c" and "block_trace a evs = Some a'"
    and "no_sentinel (snd (run_steps handle_event c evs))"
  shows "fifo c (snd (run_steps handle_event c evs)) (fst (run_steps handle_event c evs))
    \<and> client_ok a' (fst (run_steps handle_event c evs))"
  using assms
proof (induction evs arbitrary: a c)
  case Nil
  then show ?case by (simp add: fifo_refl)
next
  case (Cons e evs)
  then obtain b where b: "block_event a e = Some b" and t: "block_trace b evs = Some a'"
    by (auto split: option.splits)
  have e: "fifo c (snd (handle_event c e)) (fst (handle_event c e))"
      "client_ok b (fst (handle_event c e))"
    using handle_event_fifo [OF Cons.prems(1) b] Cons.prems(3) by simp_all
  then show ?case
    using Cons.IH [OF e(2) t] Cons.prems(3) fifo_trans by fastforce
qed

lemma handle_event_parser [simp]: "parser (fst (handle_event c e)) = parser c"
  by (cases e)
    (auto simp: correlate_simps split: tmux_message.splits option.splits list.splits)

lemma run_events_parser [simp]: "parser (fst (run_steps handle_event c evs)) = parser c"
  by (induction evs arbitrary: c) simp_all

lemma fifo_parser [simp]: "fifo (c\<lparr>parser := p\<rparr>) effs c' \<longleftrightarrow> fifo c effs c'"
  by (simp add: fifo_def outstanding_def)

lemma client_ok_parser [simp]: "client_ok a (c\<lparr>parser := p\<rparr>) \<longleftrightarrow> client_ok a c"
  by (simp add: client_ok_def is_closed_iff)

text \<open>The invariant of the client with its own parser.\<close>

definition client_inv :: "client \<Rightarrow> bool" where
  "client_inv c \<longleftrightarrow> client_ok (activeCommandNumber (parser c)) c"

lemma on_data_fifo:
  assumes "client_inv c" and "no_sentinel (snd (on_data c chunk))"
  shows "fifo c (snd (on_data c chunk)) (fst (on_data c chunk)) \<and> client_inv (fst (on_data c chunk))"
proof -
  obtain p evs where f: "feed (parser c) chunk = (p, evs)" by (cases "feed (parser c) chunk") auto
  have t: "block_trace (activeCommandNumber (parser c)) evs = Some (activeCommandNumber p)"
    using feed_lines [of "parser c" chunk] f run_process_line_trace
    by (auto simp: Let_def split_beta)
  have d: "on_data c chunk = run_steps handle_event (c\<lparr>parser := p\<rparr>) evs"
    by (simp add: on_data_def f)
  have "client_ok (activeCommandNumber (parser c)) (c\<lparr>parser := p\<rparr>)"
    using assms(1) by (simp add: client_inv_def)
  from run_events_fifo [OF this t] show ?thesis
    using assms(2) by (simp add: d client_inv_def)
qed

lemma answered_closed [simp]:
  "answered (map (\<lambda>p. Reject p (TransportClosedError r)) ps) = ps"
  "refused (map (\<lambda>p. Reject p (TransportClosedError r)) ps) = []"
  by (induction ps) simp_all

lemma on_close_state:
  "pending (fst (on_close c r)) = []" "inflight (fst (on_close c r)) = None"
  "nextPromise (fst (on_close c r)) = nextPromise c"
  "parser (fst (on_close c r)) = parser c"
  "is_closed (fst (on_close c r))" "exitAlreadyEmitted (fst (on_close c r))"
  "answered (snd (on_close c r)) = outstanding c" "refused (snd (on_close c r)) = []"
  by (auto simp: on_close_def settle_pending_on_close_def outstanding_def split_beta Let_def
      split: option.splits)

lemma on_close_fifo:
  "client_inv c \<Longrightarrow> fifo c (snd (on_close c r)) (fst (on_close c r)) \<and> client_inv (fst (on_close c r))"
  using on_close_state [of c r]
  by (auto simp: fifo_def outstanding_def [of "fst (on_close c r)"] client_inv_def client_ok_def
      is_closed_iff)

lemma run_transport_fifo:
  assumes "client_inv c" and "no_sentinel (snd (run_steps on_transport c evs))"
  shows "fifo c (snd (run_steps on_transport c evs)) (fst (run_steps on_transport c evs))
    \<and> client_inv (fst (run_steps on_transport c evs))"
  using assms
proof (induction evs arbitrary: c)
  case Nil
  then show ?case by (simp add: fifo_refl)
next
  case (Cons e evs)
  have "fifo c (snd (on_transport c e)) (fst (on_transport c e)) \<and> client_inv (fst (on_transport c e))"
    using Cons.prems on_data_fifo on_close_fifo by (cases e) auto
  with Cons show ?case by (auto intro: fifo_trans)
qed

text \<open>A transport that refuses a command, or throws, has delivered nothing for it.\<close>

fun op_ok :: "client_op \<Rightarrow> bool" where
  "op_ok (Execute command deliveries outcome) \<longleftrightarrow> outcome = Sent \<or> deliveries = []"
| "op_ok _ \<longleftrightarrow> True"

lemma fifo_refusal:
  "refusal_of e = Some (nextPromise c) \<Longrightarrow> answer_of e = None \<Longrightarrow>
   fifo c [TransportSend s, e] (c\<lparr>nextPromise := Suc (nextPromise c)\<rparr>)
   \<and> fifo c [e] (c\<lparr>nextPromise := Suc (nextPromise c)\<rparr>)"
  by (simp add: fifo_def outstanding_def)

lemma client_inv_next [simp]: "client_inv (c\<lparr>nextPromise := n\<rparr>) \<longleftrightarrow> client_inv c"
  by (simp add: client_inv_def client_ok_def is_closed_iff)

lemma client_inv_push:
  "client_inv c \<Longrightarrow> \<not> is_closed c \<Longrightarrow> client_inv (c\<lparr>nextPromise := n, pending := ps\<rparr>)"
  by (simp add: client_inv_def client_ok_def is_closed_iff)

lemma fifo_push:
  "fifo c [TransportSend s]
     (c\<lparr>nextPromise := Suc (nextPromise c), pending := pending c @ [nextPromise c]\<rparr>)"
  by (simp add: fifo_def outstanding_def)

lemma invalid_command_error:
  "invalid_command command = Some err \<Longrightarrow> err = TmuxInvalidCommandError command"
  by (simp add: invalid_command_def Let_def split: if_splits)

text \<open>The four outcomes of \<open>execute\<close>.\<close>

lemma is_closed_next [simp]: "is_closed (c\<lparr>nextPromise := n\<rparr>) = is_closed c"
  by (simp add: is_closed_def)

lemma execute_closed:
  "is_closed c \<Longrightarrow> execute c command ds outcome =
     (c\<lparr>nextPromise := Suc (nextPromise c)\<rparr>,
      [Reject (nextPromise c) (TransportSendError ''transport closed'')])"
  by (simp add: execute_def Let_def)

lemma execute_invalid:
  "\<not> is_closed c \<Longrightarrow> invalid_command command = Some err \<Longrightarrow> execute c command ds outcome =
     (c\<lparr>nextPromise := Suc (nextPromise c)\<rparr>, [Reject (nextPromise c) err])"
  by (simp add: execute_def Let_def)

lemma execute_sent:
  assumes "\<not> is_closed c" and "invalid_command command = None"
  shows "execute c command ds Sent =
     (let (c1, effs) = run_steps on_transport
        (c\<lparr>nextPromise := Suc (nextPromise c), pending := pending c @ [nextPromise c]\<rparr>) ds
      in (c1, [TransportSend (command @ [LF])] @ effs))"
  using assms by (simp add: execute_def Let_def split_beta)

lemma execute_failed:
  assumes "\<not> is_closed c" and "invalid_command command = None" and "outcome \<noteq> Sent"
  shows "execute c command [] outcome =
     (c\<lparr>nextPromise := Suc (nextPromise c)\<rparr>,
      [TransportSend (command @ [LF]),
       Reject (nextPromise c)
         (case outcome of Refused r \<Rightarrow> TransportSendError r | SendThrew e \<Rightarrow> Thrown e)])"
  using assms by (cases outcome) (simp_all add: execute_def Let_def drop_pending_def)

lemma execute_fifo:
  assumes inv: "client_inv c" and ok: "op_ok (Execute command ds outcome)"
    and s: "no_sentinel (snd (execute c command ds outcome))"
  shows "fifo c (snd (execute c command ds outcome)) (fst (execute c command ds outcome))
    \<and> client_inv (fst (execute c command ds outcome))"
proof (cases "is_closed c \<or> invalid_command command \<noteq> None")
  case True
  then obtain e where "execute c command ds outcome = (c\<lparr>nextPromise := Suc (nextPromise c)\<rparr>, [e])"
    and "refusal_of e = Some (nextPromise c)" and "answer_of e = None"
    using execute_closed [of c command ds outcome] execute_invalid [of c command _ ds outcome]
      invalid_command_error [of command]
    by (cases "is_closed c") auto
  then show ?thesis using fifo_refusal [of e c] inv by simp
next
  case False
  then have nc: "\<not> is_closed c" and val: "invalid_command command = None" by simp_all
  define c1 where "c1 = c\<lparr>nextPromise := Suc (nextPromise c), pending := pending c @ [nextPromise c]\<rparr>"
  have inv1: "client_inv c1" using client_inv_push [OF inv nc] by (simp add: c1_def)
  show ?thesis
  proof (cases "outcome = Sent")
    case True
    have ex: "execute c command ds outcome = (fst (run_steps on_transport c1 ds),
        [TransportSend (command @ [LF])] @ snd (run_steps on_transport c1 ds))"
      using execute_sent [OF nc val] True by (simp add: c1_def split_beta Let_def)
    then have "no_sentinel (snd (run_steps on_transport c1 ds))" using s by simp
    from run_transport_fifo [OF inv1 this] show ?thesis
      unfolding ex fst_conv snd_conv
      using fifo_trans [OF fifo_push [of c "command @ [LF]", folded c1_def]] by blast
  next
    case False
    then have "ds = []" using ok by simp
    then obtain e where "execute c command ds outcome =
        (c\<lparr>nextPromise := Suc (nextPromise c)\<rparr>, [TransportSend (command @ [LF]), e])"
      and "refusal_of e = Some (nextPromise c)" and "answer_of e = None"
      using execute_failed [OF nc val False] False by (cases outcome) auto
    then show ?thesis using fifo_refusal [of e c] inv by simp
  qed
qed

lemma client_step_fifo:
  assumes "client_inv c" and "op_ok op" and "no_sentinel (snd (client_step c op))"
  shows "fifo c (snd (client_step c op)) (fst (client_step c op))
    \<and> client_inv (fst (client_step c op))"
proof (cases op)
  case (Execute command ds outcome)
  then show ?thesis using execute_fifo assms by simp
next
  case (Transport ev)
  then show ?thesis using run_transport_fifo [of c "[ev]"] assms by simp
qed (use assms in \<open>simp_all add: fifo_def outstanding_def client_inv_def client_ok_def is_closed_iff\<close>)

lemma run_client_fifo:
  assumes "client_inv c" and "\<forall>op\<in>set ops. op_ok op"
    and "no_sentinel (snd (run_steps client_step c ops))"
  shows "fifo c (snd (run_steps client_step c ops)) (fst (run_steps client_step c ops))
    \<and> client_inv (fst (run_steps client_step c ops))"
  using assms
proof (induction ops arbitrary: c)
  case Nil
  then show ?case by (simp add: fifo_refl)
next
  case (Cons op ops)
  have "fifo c (snd (client_step c op)) (fst (client_step c op)) \<and> client_inv (fst (client_step c op))"
    using Cons.prems client_step_fifo by simp
  with Cons show ?case by (auto intro: fifo_trans)
qed

lemma new_client_inv: "client_inv new_client"
  by (simp add: client_inv_def client_ok_def new_client_def new_parser_def is_closed_iff)

text \<open>
  C1. Correlation is a FIFO that loses nothing: after any history of the client, the answered
  promises in the order they were answered, followed by those still outstanding, are exactly
  the promises issued and not refused, in the order they were issued. So every command is
  answered at most once and in order, no answer reaches another command's promise, and no
  promise is dropped. It needs what the protocol gives: no response block is numbered -1, and
  a send that refuses a command has not delivered its answer.
\<close>

theorem correlation_fifo:
  assumes "run_steps client_step new_client ops = (c, effs)"
    and "\<forall>op\<in>set ops. op_ok op" and "no_sentinel effs"
  shows "answered effs @ outstanding c =
    filter (\<lambda>p. p \<notin> set (refused effs)) [0..<nextPromise c]"
proof -
  have "fifo new_client effs c"
    using run_client_fifo [OF new_client_inv assms(2)] assms(1,3) by simp
  then show ?thesis by (simp add: fifo_def new_client_def outstanding_def)
qed

theorem correlation_fifo_witness:
  "let (c, effs) = run_steps client_step new_client
     [Transport (Data (''%begin 1 1 0'' @ [LF] @ ''%end 1 1 0'' @ [LF])),
      Execute ''list-windows'' [] Sent, Execute ''ls'' [] Sent, Execute ''# no'' [] Sent,
      Execute ''x'' [] (Refused ''full''),
      Transport (Data (''%begin 2 2 1'' @ [LF] @ ''@7'' @ [LF] @ ''%end 2 2 1'' @ [LF]))]
   in answered effs @ outstanding c = [0, 1]"
proof -
  let ?ops = "[Transport (Data (''%begin 1 1 0'' @ [LF] @ ''%end 1 1 0'' @ [LF])),
      Execute ''list-windows'' [] Sent, Execute ''ls'' [] Sent, Execute ''# no'' [] Sent,
      Execute ''x'' [] (Refused ''full''),
      Transport (Data (''%begin 2 2 1'' @ [LF] @ ''@7'' @ [LF] @ ''%end 2 2 1'' @ [LF]))]"
  obtain c effs where r: "run_steps client_step new_client ?ops = (c, effs)"
    by (cases "run_steps client_step new_client ?ops")
  have "list_all (\<lambda>e. case e of EmitEvent (Wire (Begin g)) \<Rightarrow> commandNumber g \<noteq> Num (- 1) | _ \<Rightarrow> True)
      (snd (run_steps client_step new_client ?ops))"
    by code_simp
  then have "no_sentinel effs"
    unfolding r by (auto simp: no_sentinel_def list_all_iff)
  then have "answered effs @ outstanding c =
      filter (\<lambda>p. p \<notin> set (refused effs)) [0..<nextPromise c]"
    by (intro correlation_fifo [OF r]) simp_all
  moreover have "refused (snd (run_steps client_step new_client ?ops)) = [2, 3]
      \<and> nextPromise (fst (run_steps client_step new_client ?ops)) = 4"
    by code_simp
  then have "refused effs = [2, 3]" and "nextPromise c = 4" unfolding r by simp_all
  moreover have "[0..<4] = [0, 1, 2, 3::nat]" by code_simp
  ultimately show ?thesis unfolding r by simp
qed

subsection \<open>The end of a connection\<close>

lemma is_closed_frame [simp]:
  "is_closed (c\<lparr>parser := p\<rparr>) = is_closed c"
  "is_closed (c\<lparr>pending := ps\<rparr>) = is_closed c"
  "is_closed (c\<lparr>inflight := i\<rparr>) = is_closed c"
  "is_closed (c\<lparr>awaitingGreeting := b\<rparr>) = is_closed c"
  "is_closed (c\<lparr>exitAlreadyEmitted := b\<rparr>) = is_closed c"
  "is_closed (c\<lparr>userClosed := b\<rparr>) = is_closed c"
  by (simp_all add: is_closed_def)

lemma drop_pending_frame [simp]:
  "is_closed (drop_pending p c) = is_closed c"
  "exitAlreadyEmitted (drop_pending p c) = exitAlreadyEmitted c"
  by (simp_all add: drop_pending_def is_closed_def)

lemma handle_event_is_closed [simp]: "is_closed (fst (handle_event c e)) = is_closed c"
proof -
  have "is_closed (fst (set_connection_state Ready c)) = is_closed c" for c
    by (auto simp: set_connection_state_def is_closed_iff)
  then show ?thesis
    by (cases e)
      (auto simp: correlate_simps split: tmux_message.splits option.splits list.splits)
qed

lemma on_transport_closed: "is_closed c \<Longrightarrow> is_closed (fst (on_transport c ev))"
proof (cases ev)
  case (Data chunk)
  have "is_closed (fst (run_steps handle_event c evs)) = is_closed c" for c evs
    by (induction evs arbitrary: c) simp_all
  then show "is_closed c \<Longrightarrow> is_closed (fst (on_transport c ev))"
    using Data by (simp add: on_data_def split_beta is_closed_def)
qed (simp add: on_close_state)

interpretation transport_end: terminal_steps on_transport is_closed
  by unfold_locales (rule on_transport_closed)

lemma client_step_closed: "is_closed c \<Longrightarrow> is_closed (fst (client_step c op))"
proof (cases op)
  case (Execute command ds outcome)
  then show "is_closed c \<Longrightarrow> ?thesis" by (simp add: execute_closed)
next
  case (Transport ev)
  then show "is_closed c \<Longrightarrow> ?thesis" by (simp add: on_transport_closed)
qed (simp_all add: is_closed_def)

interpretation client_end: terminal_steps client_step is_closed
  by unfold_locales (rule client_step_closed)

lemma run_handle_closed:
  "is_closed c \<Longrightarrow> inflight c = None \<Longrightarrow> run_steps handle_event c evs = (c, [])"
  by (induction evs) (simp_all add: run_steps.simps(2) handle_closed)

text \<open>A client that is closed for good: nothing outstanding and its exit announced.\<close>

definition client_over :: "client \<Rightarrow> bool" where
  "client_over c \<longleftrightarrow> is_closed c \<and> outstanding c = [] \<and> exitAlreadyEmitted c"

fun quiet :: "client_effect \<Rightarrow> bool" where
  "quiet (Reject p err) \<longleftrightarrow> err = TransportSendError ''transport closed''"
| "quiet (TransportSend s) \<longleftrightarrow> s = detach_client"
| "quiet TransportClose \<longleftrightarrow> True"
| "quiet RouterClose \<longleftrightarrow> True"
| "quiet _ \<longleftrightarrow> False"

lemma client_over_step:
  assumes "client_over c"
  shows "client_over (fst (client_step c op)) \<and> list_all quiet (snd (client_step c op))"
proof -
  have c: "is_closed c" "inflight c = None" "pending c = []" "exitAlreadyEmitted c"
    using assms by (auto simp: client_over_def outstanding_def split: option.splits)
  have f: "set_connection_state s c = (c, [])" for s
    using c by (simp add: set_connection_state_def)
  have over_next: "client_over (c\<lparr>nextPromise := n\<rparr>)" for n
    using assms by (simp add: client_over_def outstanding_def)
  show ?thesis
  proof (cases op)
    case (Execute command ds outcome)
    then show ?thesis using execute_closed [OF c(1)] over_next by simp
  next
    case (Transport ev)
    show ?thesis
    proof (cases ev)
      case (Data chunk)
      have "client_over (c\<lparr>parser := p\<rparr>)"
        and "run_steps handle_event (c\<lparr>parser := p\<rparr>) evs = (c\<lparr>parser := p\<rparr>, [])" for p evs
        using assms c run_handle_closed [of "c\<lparr>parser := p\<rparr>"]
        by (simp_all add: client_over_def outstanding_def is_closed_def)
      then show ?thesis using Transport Data by (simp add: on_data_def split_beta)
    next
      case (Closing r)
      have same: "c\<lparr>inflight := None, pending := []\<rparr> = c" using c by simp
      have "on_close c r = (c, [RouterClose])"
        by (simp add: on_close_def settle_pending_on_close_def Let_def same f c)
      then show ?thesis using Transport Closing assms by simp
    qed
  next
    case Close
    then show ?thesis using assms by (simp add: client_over_def outstanding_def is_closed_def)
  next
    case Detach
    then show ?thesis using assms by (simp add: detach_client_def)
  qed
qed

interpretation client_over: terminal_steps client_step client_over
  by unfold_locales (use client_over_step in blast)

text \<open>
  C5. The end of a connection settles everything and is final. When the transport closes,
  every outstanding promise is rejected with the close reason, the inflight one first and then
  the queue in order; \<open>exit\<close> is announced unless tmux already did, then the closed state with
  the reason's classification. Afterwards, whatever is called or delivered, no event is
  emitted, no byte is routed and no command is sent: an \<open>execute\<close> is rejected on the spot.
\<close>

theorem close_is_final:
  assumes "\<not> is_closed c"
  shows "snd (on_close c reason) =
      [RouterClose] @ map (\<lambda>p. Reject p (TransportClosedError reason)) (outstanding c)
      @ (if exitAlreadyEmitted c then [] else [EmitEvent (Wire (Exit reason))])
      @ [EmitEvent (ConnectionStateMessage (Closed
           (if userClosed c then ReasonDisposed
            else if reason = None then ReasonExit else ReasonTransportError)))]
    \<and> outstanding (fst (on_close c reason)) = []
    \<and> list_all quiet (snd (run_steps client_step (fst (on_close c reason)) ops))"
proof -
  have "client_over (fst (on_close c reason))"
    by (simp add: client_over_def on_close_state outstanding_def)
  then have "list_all quiet (snd (run_steps client_step (fst (on_close c reason)) ops))"
    by (rule client_over.run_outputs) (simp add: client_over_step)
  then show ?thesis
    using assms
    by (auto simp: on_close_def settle_pending_on_close_def outstanding_def split_beta Let_def
        set_connection_state_def is_closed_def same_connection_state_def split: option.splits)
qed

theorem close_is_final_witness:
  "snd (on_close (fst (run_steps client_step new_client [Execute ''ls'' [] Sent])) (Some ''EPIPE'')) =
     [RouterClose, Reject 0 (TransportClosedError (Some ''EPIPE'')),
      EmitEvent (Wire (Exit (Some ''EPIPE''))),
      EmitEvent (ConnectionStateMessage (Closed ReasonTransportError))]"
proof -
  let ?c = "fst (run_steps client_step new_client [Execute ''ls'' [] Sent])"
  have "\<not> is_closed ?c" by code_simp
  note conjunct1 [OF close_is_final [OF this, of "Some ''EPIPE''"]]
  moreover have "outstanding ?c = [0] \<and> \<not> exitAlreadyEmitted ?c \<and> \<not> userClosed ?c" by code_simp
  ultimately show ?thesis by (simp del: run_steps.simps client_step.simps fst_run_Cons)
qed

text \<open>
  A flag of the client that counts an effect: each transition of the flag is one effect, and
  no other operation has it.
\<close>

locale client_counter =
  fixes counted :: "client_effect \<Rightarrow> bool" and flag :: "client \<Rightarrow> bool" and inv :: "client \<Rightarrow> bool"
  assumes event_counts: "inv c \<Longrightarrow>
      length (filter counted (snd (handle_event c e))) + of_bool (flag c)
        = of_bool (flag (fst (handle_event c e))) \<and> inv (fst (handle_event c e))"
    and close_counts: "inv c \<Longrightarrow>
      length (filter counted (snd (on_close c r))) + of_bool (flag c)
        = of_bool (flag (fst (on_close c r))) \<and> inv (fst (on_close c r))"
    and frame: "inv (c\<lparr>parser := p\<rparr>) = inv c" "flag (c\<lparr>parser := p\<rparr>) = flag c"
      "inv (c\<lparr>pending := ps\<rparr>) = inv c" "flag (c\<lparr>pending := ps\<rparr>) = flag c"
      "inv (c\<lparr>nextPromise := n\<rparr>) = inv c" "flag (c\<lparr>nextPromise := n\<rparr>) = flag c"
      "inv (c\<lparr>userClosed := b\<rparr>) = inv c" "flag (c\<lparr>userClosed := b\<rparr>) = flag c"
    and others: "\<not> counted (Reject i err)" "\<not> counted (TransportSend s)" "\<not> counted TransportClose"
begin

definition counts :: "client \<Rightarrow> client \<times> client_effect list \<Rightarrow> bool" where
  "counts c r \<longleftrightarrow>
     length (filter counted (snd r)) + of_bool (flag c) = of_bool (flag (fst r)) \<and> inv (fst r)"

lemma counts_run:
  assumes "\<And>c e. inv c \<Longrightarrow> counts c (step c e)" and "inv c"
  shows "counts c (run_steps step c es)"
  using assms(2)
proof (induction es arbitrary: c)
  case Nil
  then show ?case by (simp add: counts_def)
next
  case (Cons e es)
  have "counts c (step c e)" by (rule assms(1)) (rule Cons.prems)
  then have s: "length (filter counted (snd (step c e))) + of_bool (flag c)
      = of_bool (flag (fst (step c e)))" and i: "inv (fst (step c e))"
    by (simp_all add: counts_def)
  from Cons.IH [OF i] s show ?case
    by (simp add: counts_def)
qed

lemma counts_transport: "inv c \<Longrightarrow> counts c (on_transport c ev)"
proof (cases ev)
  case (Data chunk)
  moreover have "inv c \<Longrightarrow> counts (c\<lparr>parser := p\<rparr>) (run_steps handle_event (c\<lparr>parser := p\<rparr>) evs)" for p evs
    by (rule counts_run) (simp_all add: counts_def event_counts frame)
  ultimately show "inv c \<Longrightarrow> ?thesis"
    by (simp add: counts_def on_data_def split_beta frame)
next
  case (Closing r)
  then show "inv c \<Longrightarrow> ?thesis" using close_counts [of c r] by (simp add: counts_def)
qed

lemma drop_frame: "inv (drop_pending p c) = inv c" "flag (drop_pending p c) = flag c"
  by (simp_all add: drop_pending_def frame)

lemma counts_execute:
  assumes "inv c"
  shows "counts c (execute c command ds outcome)"
proof -
  obtain c1 effs where run: "run_steps on_transport
      (c\<lparr>nextPromise := Suc (nextPromise c), pending := pending c @ [nextPromise c]\<rparr>) ds = (c1, effs)"
    (is "run_steps _ ?c0 _ = _")
    by fastforce
  have "counts ?c0 (run_steps on_transport ?c0 ds)"
    by (rule counts_run) (simp_all add: counts_transport frame assms)
  then have "counts c (c1, effs)" unfolding run by (simp add: counts_def frame)
  then show ?thesis
    using assms run
    by (cases "flag c"; cases "flag c1")
      (auto simp: execute_def Let_def frame drop_frame counts_def others
        split: option.splits send_outcome.splits)
qed

lemma counts_step: "inv c \<Longrightarrow> counts c (client_step c op)"
  by (cases op) (simp_all add: counts_execute counts_transport, simp_all add: counts_def frame others)

lemma run_counts:
  assumes "inv c" and "run_steps client_step c ops = (c', effs)"
  shows "length (filter counted effs) + of_bool (flag c) = of_bool (flag c')" and "inv c'"
  using counts_run [where step = client_step and es = ops, OF counts_step assms(1)] assms(2) by (simp_all add: counts_def)

end

fun is_exit_event :: "client_effect \<Rightarrow> bool" where
  "is_exit_event (EmitEvent (Wire (Exit r))) \<longleftrightarrow> True"
| "is_exit_event _ \<longleftrightarrow> False"

lemma set_state_counts [simp]:
  "filter is_exit_event (snd (set_connection_state s c)) = []"
  by (simp add: set_connection_state_def)

lemma handle_message_exits:
  "length (filter is_exit_event (snd (handle_message c msg))) + of_bool (exitAlreadyEmitted c)
     = of_bool (exitAlreadyEmitted (fst (handle_message c msg)))"
  by (cases msg; simp add: correlate_simps split: option.splits list.splits)

interpretation exits: client_counter is_exit_event exitAlreadyEmitted "\<lambda>c. True"
proof
  fix c e
  show "length (filter is_exit_event (snd (handle_event c e))) + of_bool (exitAlreadyEmitted c)
      = of_bool (exitAlreadyEmitted (fst (handle_event c e))) \<and> True"
    using handle_message_exits
    by (cases e) (simp_all add: handle_protocol_error_def handle_output_line_def split_beta
        Let_def split: option.splits)
next
  fix c r
  have "filter is_exit_event (map (\<lambda>p. Reject p err) ps) = []" for err ps
    by (induction ps) simp_all
  then show "length (filter is_exit_event (snd (on_close c r))) + of_bool (exitAlreadyEmitted c)
      = of_bool (exitAlreadyEmitted (fst (on_close c r))) \<and> True"
    by (auto simp: on_close_def settle_pending_on_close_def Let_def split_beta split: option.splits)
qed simp_all

text \<open>Before the greeting ends the client is connecting or closed.\<close>

definition greeting_inv :: "client \<Rightarrow> bool" where
  "greeting_inv c \<longleftrightarrow> (awaitingGreeting c \<longrightarrow> connState c = Connecting \<or> is_closed c)"

definition greeted :: "client \<Rightarrow> bool" where
  "greeted c \<longleftrightarrow> \<not> awaitingGreeting c"

lemma ready_transition:
  "set_connection_state Ready (c\<lparr>awaitingGreeting := False\<rparr>) =
     (if is_closed c then (c\<lparr>awaitingGreeting := False\<rparr>, [])
      else if connState c = Ready then (c\<lparr>awaitingGreeting := False\<rparr>, [])
      else (c\<lparr>awaitingGreeting := False, connState := Ready\<rparr>,
            [EmitEvent (ConnectionStateMessage Ready), RouterReady]))"
  by (cases "connState c")
    (auto simp: set_connection_state_def is_closed_def same_connection_state_def)

lemma handle_message_ready:
  assumes "\<not> is_closed c" and "greeting_inv c"
  shows "length (filter (\<lambda>e. e = RouterReady) (snd (handle_message c msg))) + of_bool (greeted c)
      = of_bool (greeted (fst (handle_message c msg))) \<and> greeting_inv (fst (handle_message c msg))"
  using assms
  by (cases msg; simp add: correlate_simps ready_transition greeted_def greeting_inv_def
      split: option.splits list.splits)

lemma handle_error_ready:
  assumes "\<not> is_closed c" and "greeting_inv c"
  shows "length (filter (\<lambda>e. e = RouterReady) (snd (handle_protocol_error c n l)))
      + of_bool (greeted c) = of_bool (greeted (fst (handle_protocol_error c n l)))
    \<and> greeting_inv (fst (handle_protocol_error c n l))"
  using assms
  by (simp add: correlate_simps ready_transition greeted_def greeting_inv_def split: option.splits)

interpretation ready: client_counter "\<lambda>e. e = RouterReady" greeted greeting_inv
proof
  fix c e
  assume i: "greeting_inv c"
  show "length (filter (\<lambda>e. e = RouterReady) (snd (handle_event c e))) + of_bool (greeted c)
      = of_bool (greeted (fst (handle_event c e))) \<and> greeting_inv (fst (handle_event c e))"
  proof (cases "is_closed c")
    case True
    then show ?thesis using i
      by (cases e) (simp_all add: handle_message_def handle_protocol_error_def
          handle_output_line_def greeted_def greeting_inv_def)
  next
    case False
    then show ?thesis using i handle_message_ready handle_error_ready
      by (cases e) (simp_all add: handle_output_line_def greeted_def greeting_inv_def)
  qed
next
  fix c r
  assume "greeting_inv c"
  have "filter (\<lambda>e. e = RouterReady) (map (\<lambda>p. Reject p err) ps) = []" for err ps
    by (induction ps) simp_all
  moreover have "filter (\<lambda>e. e = RouterReady) (snd (set_connection_state (Closed q) c)) = []" for q c
    by (simp add: set_connection_state_def)
  ultimately show "length (filter (\<lambda>e. e = RouterReady) (snd (on_close c r))) + of_bool (greeted c)
      = of_bool (greeted (fst (on_close c r))) \<and> greeting_inv (fst (on_close c r))"
    by (auto simp: on_close_def settle_pending_on_close_def Let_def split_beta greeted_def
        greeting_inv_def split: option.splits)
qed (auto simp: greeted_def greeting_inv_def is_closed_def)

text \<open>
  Lifecycle events happen once: over any history, \<open>exit\<close> is announced exactly once if tmux
  said it or the transport closed and not at all before, and the router is told the connection
  is ready exactly when the greeting's block has closed, once.
\<close>

theorem lifecycle_once:
  "let (c, effs) = run_steps client_step new_client ops in
     length (filter is_exit_event effs) = of_bool (exitAlreadyEmitted c) \<and>
     length (filter (\<lambda>e. e = RouterReady) effs) = of_bool (\<not> awaitingGreeting c)"
proof -
  obtain c effs where r: "run_steps client_step new_client ops = (c, effs)" by fastforce
  have "greeting_inv new_client" and "\<not> greeted new_client" and "\<not> exitAlreadyEmitted new_client"
    by (simp_all add: greeting_inv_def greeted_def new_client_def)
  then show ?thesis
    using exits.run_counts(1) [OF TrueI r] ready.run_counts(1) [OF _ r]
    by (simp add: r greeted_def)
qed

subsection \<open>Answers\<close>

text \<open>A reply as tmux sends it: the opening guard, the output lines, the closing guard.\<close>

record reply =
  replyBegin :: guard
  replyLines :: "string list"
  replyOk :: bool
  replyEnd :: guard

definition reply_events :: "reply \<Rightarrow> parser_event list" where
  "reply_events r =
     Emit (Begin (replyBegin r)) # map (OutputLine (commandNumber (replyBegin r))) (replyLines r)
     @ [Emit (if replyOk r then End (replyEnd r) else Error (replyEnd r))]"

definition reply_wf :: "reply \<Rightarrow> bool" where
  "reply_wf r \<longleftrightarrow>
     guard_ok (replyBegin r) \<and> guard_ok (replyEnd r) \<and> commandNumber (replyBegin r) \<noteq> Num (- 1)
     \<and> (\<forall>l\<in>set (replyLines r). LF \<notin> set l
          \<and> \<not> is_block_terminator (fst (snd (line_parts (clean_line l)))))"

text \<open>The settlement of a promise by a reply.\<close>

definition settlement :: "nat \<Rightarrow> reply \<Rightarrow> client_effect" where
  "settlement p r =
     (let resp = \<lparr>respCommandNumber = commandNumber (replyBegin r),
                  respTimestamp = timestamp (replyBegin r), respOutput = replyLines r,
                  success = replyOk r\<rparr>
      in if replyOk r then Resolve p resp else Reject p (TmuxCommandError resp))"

definition settlements :: "client_effect list \<Rightarrow> client_effect list" where
  "settlements effs = filter (\<lambda>e. answer_of e \<noteq> None \<or> refusal_of e \<noteq> None) effs"

lemma settlements_simps [simp]:
  "settlements [] = []"
  "settlements (xs @ ys) = settlements xs @ settlements ys"
  "settlements (e # es) =
     (if answer_of e \<noteq> None \<or> refusal_of e \<noteq> None then [e] else []) @ settlements es"
  by (simp_all add: settlements_def)

lemma run_output_lines:
  "run_steps handle_event c (map (OutputLine n) ls) =
     (c\<lparr>inflight := map_option (\<lambda>e. e\<lparr>entryOutput := entryOutput e @ ls\<rparr>) (inflight c)\<rparr>, [])"
proof (induction ls arbitrary: c)
  case Nil
  then show ?case by (simp add: option.map_ident)
next
  case (Cons l ls)
  then show ?case
    by (simp add: run_steps.simps(2) handle_output_line_def option.map_comp comp_def)
qed

lemma run_reply:
  assumes "\<not> is_closed c" and "\<not> awaitingGreeting c" and "inflight c = None"
    and "pending c = p # ps"
  shows "fst (run_steps handle_event c (reply_events r)) = c\<lparr>pending := ps\<rparr> \<and>
    settlements (snd (run_steps handle_event c (reply_events r))) = [settlement p r]"
proof -
  define c1 where "c1 = c\<lparr>pending := ps, inflight := Some \<lparr>entryId = p,
      entryCommandNumber = commandNumber (replyBegin r),
      entryTimestamp = timestamp (replyBegin r), entryOutput = []\<rparr>\<rparr>"
  have b: "handle_message c (Begin (replyBegin r)) =
      (c1, [RouterNotification (Begin (replyBegin r)), EmitEvent (Wire (Begin (replyBegin r)))])"
    using assms by (simp add: handle_message_def correlate_def c1_def)
  define c2 where "c2 = c1\<lparr>inflight := Some \<lparr>entryId = p,
      entryCommandNumber = commandNumber (replyBegin r),
      entryTimestamp = timestamp (replyBegin r), entryOutput = replyLines r\<rparr>\<rparr>"
  have o: "run_steps handle_event c1 (map (OutputLine (commandNumber (replyBegin r))) (replyLines r))
      = (c2, [])"
    by (simp add: run_output_lines c1_def c2_def)
  have c2: "\<not> is_closed c2" "\<not> awaitingGreeting c2"
    using assms by (simp_all add: c2_def c1_def)
  have e: "c2\<lparr>inflight := None\<rparr> = c\<lparr>pending := ps\<rparr>"
    using assms(3) by (simp add: c2_def c1_def)
  define msg where "msg = (if replyOk r then End (replyEnd r) else Error (replyEnd r))"
  have t: "handle_message c2 msg = (c\<lparr>pending := ps\<rparr>,
      [settlement p r, RouterNotification msg, EmitEvent (Wire msg)])"
    unfolding e [symmetric] msg_def using c2
    by (simp add: handle_message_def correlate_def settlement_def response_of_def c2_def)
  have "run_steps handle_event c1 (map (OutputLine (commandNumber (replyBegin r))) (replyLines r)
        @ [Emit msg]) = (c\<lparr>pending := ps\<rparr>,
      [settlement p r, RouterNotification msg, EmitEvent (Wire msg)])"
    by (simp add: prod_eq_iff o t)
  then have "run_steps handle_event c (reply_events r) = (c\<lparr>pending := ps\<rparr>,
      [RouterNotification (Begin (replyBegin r)), EmitEvent (Wire (Begin (replyBegin r))),
       settlement p r, RouterNotification msg, EmitEvent (Wire msg)])"
    unfolding reply_events_def msg_def [symmetric]
    by (simp add: run_steps.simps(2) b)
  moreover have "answer_of (settlement p r) = Some p" by (simp add: settlement_def Let_def)
  ultimately show ?thesis by simp
qed

lemma run_replies:
  assumes "\<not> is_closed c" and "\<not> awaitingGreeting c" and "inflight c = None"
    and "pending c = ps @ rest" and "length ps = length rs"
  shows "fst (run_steps handle_event c (concat (map reply_events rs))) = c\<lparr>pending := rest\<rparr> \<and>
    settlements (snd (run_steps handle_event c (concat (map reply_events rs))))
      = map2 settlement ps rs"
  using assms
proof (induction rs arbitrary: c ps)
  case Nil
  then show ?case by simp
next
  case (Cons r rs)
  then obtain p ps' where ps: "ps = p # ps'" by (cases ps) auto
  let ?c = "c\<lparr>pending := ps' @ rest\<rparr>"
  have one: "fst (run_steps handle_event c (reply_events r)) = ?c"
      "settlements (snd (run_steps handle_event c (reply_events r))) = [settlement p r]"
    using run_reply [OF Cons.prems(1-3), of p "ps' @ rest" r] Cons.prems(4) ps by simp_all
  have "fst (run_steps handle_event ?c (concat (map reply_events rs))) = ?c\<lparr>pending := rest\<rparr> \<and>
      settlements (snd (run_steps handle_event ?c (concat (map reply_events rs))))
        = map2 settlement ps' rs"
    by (rule Cons.IH) (use Cons.prems ps in simp_all)
  then show ?case by (simp add: one ps)
qed

lemma handle_event_frame:
  "handle_event (c\<lparr>parser := p\<rparr>) e =
     ((fst (handle_event c e))\<lparr>parser := p\<rparr>, snd (handle_event c e))"
proof -
  have r: "set_connection_state Ready (c\<lparr>parser := p, awaitingGreeting := False\<rparr>) =
      ((fst (set_connection_state Ready (c\<lparr>awaitingGreeting := False\<rparr>)))\<lparr>parser := p\<rparr>,
       snd (set_connection_state Ready (c\<lparr>awaitingGreeting := False\<rparr>)))" for c
    by (simp add: set_connection_state_def)
  have "handle_message (c\<lparr>parser := p\<rparr>) msg =
      ((fst (handle_message c msg))\<lparr>parser := p\<rparr>, snd (handle_message c msg))" for msg
    by (cases msg; simp add: correlate_simps r split: option.splits list.splits)
  then show ?thesis
    by (cases e) (simp_all add: correlate_simps r split: option.splits)
qed

lemma run_events_frame:
  "run_steps handle_event (c\<lparr>parser := p\<rparr>) evs =
     ((fst (run_steps handle_event c evs))\<lparr>parser := p\<rparr>, snd (run_steps handle_event c evs))"
proof (induction evs arbitrary: c)
  case Nil
  then show ?case by simp
next
  case (Cons e evs)
  then show ?case by (simp add: run_steps.simps(2) handle_event_frame split_beta)
qed

text \<open>The client over a chunked stream is the client over the stream's parser events.\<close>

lemma run_data:
  "run_steps client_step c (map (\<lambda>ch. Transport (Data ch)) chunks) =
     (let (p, evs) = run_steps feed (parser c) chunks
      in ((fst (run_steps handle_event c evs))\<lparr>parser := p\<rparr>, snd (run_steps handle_event c evs)))"
proof (induction chunks arbitrary: c)
  case Nil
  then show ?case by simp
next
  case (Cons ch chunks)
  obtain p1 e1 where f1: "feed (parser c) ch = (p1, e1)" by (cases "feed (parser c) ch") auto
  obtain p2 e2 where f2: "run_steps feed p1 chunks = (p2, e2)"
    by (cases "run_steps feed p1 chunks") auto
  define c1 where "c1 = fst (run_steps handle_event c e1)"
  have d: "on_data c ch = (c1\<lparr>parser := p1\<rparr>, snd (run_steps handle_event c e1))"
    by (simp add: on_data_def f1 run_events_frame c1_def)
  have "run_steps client_step (c1\<lparr>parser := p1\<rparr>) (map (\<lambda>ch. Transport (Data ch)) chunks) =
      ((fst (run_steps handle_event c1 e2))\<lparr>parser := p2\<rparr>, snd (run_steps handle_event c1 e2))"
    using Cons.IH [of "c1\<lparr>parser := p1\<rparr>"] by (simp add: f2 run_events_frame)
  then show ?case
    by (simp add: run_steps.simps(2) [of client_step] run_steps.simps(2) [of feed] d f1 f2
        prod_eq_iff c1_def split_beta)
qed

lemma reply_trace:
  "reply_wf r \<Longrightarrow> block_trace (Num (- 1)) (reply_events r) = Some (Num (- 1))"
proof -
  assume "reply_wf r"
  then have n: "commandNumber (replyBegin r) \<noteq> Num (- 1)" by (simp add: reply_wf_def)
  have "block_trace n (map (OutputLine n) ls) = Some n" if "n \<noteq> Num (- 1)" for n ls
    using that by (induction ls) simp_all
  with n show ?thesis by (simp add: reply_events_def block_trace_append)
qed

lemma replies_trace:
  "\<forall>r\<in>set rs. reply_wf r \<Longrightarrow>
   block_trace (Num (- 1)) (concat (map reply_events rs)) = Some (Num (- 1))"
  by (induction rs) (simp_all add: block_trace_append reply_trace)

lemma reply_events_ok: "reply_wf r \<Longrightarrow> e \<in> set (reply_events r) \<Longrightarrow> event_ok e"
  by (auto simp: reply_events_def reply_wf_def split: if_splits)

text \<open>
  C4. Every command gets its own answer, byte for byte: when the client is ready and idle and
  the promises \<open>ps\<close> head its queue, the wire text of as many replies, in any chunks, settles
  exactly those promises, in order, each with its own reply's number, time, verdict and output
  lines, unchanged even where a line looks like a notification; and the client is idle again.
\<close>

theorem replies_correlate:
  assumes "\<not> is_closed c" and "\<not> awaitingGreeting c" and "inflight c = None"
    and "parser c = new_parser" and "pending c = ps @ rest" and "length ps = length rs"
    and "\<forall>r\<in>set rs. reply_wf r"
    and "concat chunks = wire_bytes (map event_line (concat (map reply_events rs)))"
  shows "let (c', effs) = run_steps client_step c (map (\<lambda>ch. Transport (Data ch)) chunks) in
    settlements effs = map2 settlement ps rs \<and> c' = c\<lparr>pending := rest\<rparr>"
proof -
  let ?evs = "concat (map reply_events rs)"
  have ok: "\<forall>e\<in>set ?evs. event_ok e" using assms(7) reply_events_ok by auto
  have "run_steps feed new_parser chunks = (new_parser, ?evs)"
    using feed_wire_bytes [OF assms(8)] event_line_no_LF ok
      run_event_lines [OF ok replies_trace [OF assms(7)]]
    by (simp add: new_parser_def)
  then show ?thesis
    using run_replies [OF assms(1-3,5,6)] assms(4)
    by (simp add: run_data)
qed

theorem replies_correlate_witness:
  "let (c', effs) = run_steps client_step
        (new_client\<lparr>awaitingGreeting := False, connState := Ready, pending := [0, 1]\<rparr>)
        [Transport (Data (''%begin 5 9 1'' @ [LF] @ ''%5'' @ [LF] @ ''%en'')),
         Transport (Data (''d 5 9 1'' @ [LF]))]
   in settlements effs =
        [Resolve 0 \<lparr>respCommandNumber = Num 9, respTimestamp = Num 5, respOutput = [''%5''],
                    success = True\<rparr>]
      \<and> pending c' = [1]"
proof -
  let ?g = "\<lparr>timestamp = Num 5, commandNumber = Num 9, flags = Num 1\<rparr>"
  let ?r = "\<lparr>replyBegin = ?g, replyLines = [''%5''], replyOk = True, replyEnd = ?g\<rparr>"
  let ?c = "new_client\<lparr>awaitingGreeting := False, connState := Ready, pending := [0, 1]\<rparr>"
  let ?chunks = "[''%begin 5 9 1'' @ [LF] @ ''%5'' @ [LF] @ ''%en'', ''d 5 9 1'' @ [LF]]"
  have wf: "\<forall>r\<in>set [?r]. reply_wf r" by code_simp
  have wire: "concat ?chunks = wire_bytes (map event_line (concat (map reply_events [?r])))"
    by code_simp
  have "let (c', effs) = run_steps client_step ?c (map (\<lambda>ch. Transport (Data ch)) ?chunks) in
      settlements effs = map2 settlement [0] [?r] \<and> c' = ?c\<lparr>pending := [1]\<rparr>"
    by (rule replies_correlate [OF _ _ _ _ _ _ wf wire]) (simp_all add: new_client_def is_closed_def)
  then show ?thesis by (auto simp: Let_def settlement_def simp del: client_step.simps)
qed

text \<open>
  Why \<open>correlation_fifo\<close> excludes blocks numbered -1: the parser's mark for "no open block" is the number
  -1, so a \<open>%begin\<close> that carries it opens a block the parser does not see. The next
  \<open>%begin\<close> then takes the inflight slot of a command that was never answered: here promise 0
  is neither answered nor outstanding any more.
\<close>

theorem sentinel_block_loses_promise:
  "let (c, effs) = run_steps client_step new_client
     [Transport (Data (''%begin 1 1 0'' @ [LF] @ ''%end 1 1 0'' @ [LF])),
      Execute ''ls'' [] Sent, Execute ''list-windows'' [] Sent,
      Transport (Data (''%begin 2 -1 1'' @ [LF] @ ''%begin 3 3 1'' @ [LF] @ ''%end 3 3 1'' @ [LF]))]
   in answered effs = [1] \<and> refused effs = [] \<and> outstanding c = [] \<and> nextPromise c = 2"
  by code_simp

end
