(* ===== verification/SeedBuilder.thy ===== *)
theory SeedBuilder
  imports Records
begin

section \<open>The seed of a pane\<close>

text \<open>
  \<open>stream/seed-builder.ts\<close> of the package \<open>pane-terminal\<close>: from the reply of
  \<open>capture-pane\<close> and the reply of \<open>display-message\<close> the bytes that repaint a pane. A
  fractional row count, which tmux never prints, counts as unreported.
\<close>

subsection \<open>Integers among the numbers\<close>

text \<open>
  \<open>Number.isInteger\<close>, and the integer: a decimal is rounded to the nearest double first.
\<close>

definition round_div :: "nat \<Rightarrow> nat \<Rightarrow> nat" where
  "round_div a b =
     (let q = a div b; r = a mod b in if b < 2 * r \<or> (2 * r = b \<and> odd q) then q + 1 else q)"

fun whole_number :: "jsnum \<Rightarrow> nat option" where
  "whole_number (Num n) = Some (nat n)"
| "whole_number n = None"

fun decimal_integer :: "nat \<Rightarrow> int \<Rightarrow> nat option" where
  "decimal_integer m e =
     (if 0 \<le> e then whole_number (js_of_nat (m * 10 ^ nat e))
      else
        let k = 10 ^ nat (- e); b = bit_len (m div k) in
        if 53 \<le> b then
          (let v = round_div m (k * 2 ^ (b - 53)) * 2 ^ (b - 53) in if 2 ^ 1024 \<le> v then None else Some v)
        else
          let r = round_div (m * 2 ^ (53 - b)) k in
          if r mod 2 ^ (53 - b) = 0 \<and> (0 < r \<or> m * 2 ^ 1075 \<le> k) then Some (r div 2 ^ (53 - b)) else None)"

fun js_integer :: "js_numeric \<Rightarrow> int option" where
  "js_integer (Whole (Num n)) = Some n"
| "js_integer (Whole n) = None"
| "js_integer (Decimal neg m e) = map_option (\<lambda>v. if neg then - int v else int v) (decimal_integer m e)"

subsection \<open>Parsing the state line\<close>

record seed_cursor =
  cursorCol :: int
  cursorRow :: int

record pane_seed =
  seedBytes :: string
  seedCursor :: "seed_cursor option"

record seed_state =
  stateCursor :: "seed_cursor option"
  gridHeight :: "int option"
  historySize :: "int option"
  preamble :: string
  epilogue :: string

abbreviation ESC :: char where "ESC \<equiv> CHR 0x1B"

definition mode_escape :: "string option \<Rightarrow> string \<Rightarrow> string \<Rightarrow> string" where
  "mode_escape flag onSeq offSeq =
     (case flag of None \<Rightarrow> [] | Some f \<Rightarrow> if f = [] then [] else if f = ''1'' then onSeq else offSeq)"

definition field_at :: "string list \<Rightarrow> nat \<Rightarrow> string option" where
  "field_at f i = (if i < length f then Some (f ! i) else None)"

definition number_field :: "string option \<Rightarrow> int option" where
  "number_field field =
     (case field of None \<Rightarrow> None | Some s \<Rightarrow> if s = [] then None else js_integer (js_number s))"

definition parse_seed_state :: "string \<Rightarrow> seed_state" where
  "parse_seed_state line =
     (let f = split_on (CHR '';'') line in
      \<lparr>stateCursor = (case number_field (field_at f 0) of
           None \<Rightarrow> None
         | Some cx \<Rightarrow> (case number_field (field_at f 1) of
               None \<Rightarrow> None | Some cy \<Rightarrow> Some \<lparr>cursorCol = cx, cursorRow = cy\<rparr>)),
       gridHeight = number_field (field_at f 8),
       historySize = number_field (field_at f 9),
       preamble =
         mode_escape (field_at f 2) ([ESC] @ ''[?1049h'' @ [ESC] @ ''[H'') ([ESC] @ ''[?1049l'' @ [ESC] @ ''[H'')
         @ mode_escape (field_at f 7) ([ESC] @ ''[?7h'') ([ESC] @ ''[?7l''),
       epilogue =
         mode_escape (field_at f 3) ([ESC] @ ''[?25h'') ([ESC] @ ''[?25l'')
         @ mode_escape (field_at f 4) ([ESC] @ ''[4h'') ([ESC] @ ''[4l'')
         @ mode_escape (field_at f 5) ([ESC] @ ''[?1h'') ([ESC] @ ''[?1l'')
         @ mode_escape (field_at f 6) ([ESC] @ ''='') ([ESC] @ ''>'')\<rparr>)"

subsection \<open>The builder\<close>

text \<open>\<open>new Array(n)\<close> throws a RangeError from \<open>2 ^ 32\<close> on: no result.\<close>

definition strip_artifact :: "string list \<Rightarrow> string list" where
  "strip_artifact captureOutput =
     (if captureOutput \<noteq> [] \<and> last captureOutput = [] then butlast captureOutput else captureOutput)"

definition target_rows :: "seed_state \<Rightarrow> int \<Rightarrow> int" where
  "target_rows st historyLines =
     (case gridHeight st of
        None \<Rightarrow> 0
      | Some h \<Rightarrow> (case historySize st of None \<Rightarrow> 0 | Some n \<Rightarrow> min historyLines n) + h)"

definition build_seed :: "string list \<Rightarrow> string \<Rightarrow> int \<Rightarrow> pane_seed option" where
  "build_seed captureOutput stateLine historyLines =
     (let st = parse_seed_state stateLine;
          stripped = strip_artifact captureOutput;
          missing = target_rows st historyLines - int (length stripped) in
      if 2 ^ 32 \<le> missing then None
      else
        let lines = (if 0 < missing then stripped @ replicate (nat missing) [] else stripped);
            screen = join_with [CHR 0x0D, CHR 0x0A] lines in
        Some \<lparr>seedBytes = preamble st @ screen @ epilogue st, seedCursor = stateCursor st\<rparr>)"

subsection \<open>The grid comes back\<close>

text \<open>The state line tmux prints for a pane.\<close>

record grid_state =
  cursorX :: nat
  cursorY :: nat
  modeFlags :: "bool list"
  paneHeight :: nat
  historyCount :: nat

definition state_line :: "grid_state \<Rightarrow> string" where
  "state_line g =
     join_with '';'' ([nat_str (cursorX g), nat_str (cursorY g)]
       @ map (\<lambda>b. if b then ''1'' else ''0'') (modeFlags g) @ [nat_str (paneHeight g), nat_str (historyCount g)])"

definition grid_ok :: "grid_state \<Rightarrow> int \<Rightarrow> string list \<Rightarrow> bool" where
  "grid_ok g historyLines grid \<longleftrightarrow>
     length (modeFlags g) = 6 \<and> cursorX g \<le> 2 ^ 53 \<and> cursorY g \<le> 2 ^ 53 \<and> paneHeight g \<le> 2 ^ 53
     \<and> historyCount g \<le> 2 ^ 53 \<and> length grid < 2 ^ 32
     \<and> int (length grid) = min historyLines (int (historyCount g)) + int (paneHeight g)"

definition modes_before :: "bool list \<Rightarrow> string" where
  "modes_before f =
     (if f ! 0 then [ESC] @ ''[?1049h'' @ [ESC] @ ''[H'' else [ESC] @ ''[?1049l'' @ [ESC] @ ''[H'')
     @ (if f ! 5 then [ESC] @ ''[?7h'' else [ESC] @ ''[?7l'')"

definition modes_after :: "bool list \<Rightarrow> string" where
  "modes_after f =
     (if f ! 1 then [ESC] @ ''[?25h'' else [ESC] @ ''[?25l'')
     @ (if f ! 2 then [ESC] @ ''[4h'' else [ESC] @ ''[4l'')
     @ (if f ! 3 then [ESC] @ ''[?1h'' else [ESC] @ ''[?1l'')
     @ (if f ! 4 then [ESC] @ ''='' else [ESC] @ ''>'')"

lemma six_flags: "length xs = 6 \<Longrightarrow> \<exists>a b c d e f. xs = [a, b, c, d, e, f]"
  by (auto simp: length_Suc_conv numeral_eq_Suc)

lemma semicolon_free: "CHR '';'' \<notin> set (nat_str n)"
  using nat_str_digits [of "CHR '';''" n] by (auto simp: is_digit_def)

lemma number_field_nat: "n \<le> 2 ^ 53 \<Longrightarrow> number_field (Some (nat_str n)) = Some (int n)"
  by (simp add: number_field_def js_number_plain)

lemma parse_state_line:
  assumes "grid_ok g historyLines grid"
  shows "parse_seed_state (state_line g) =
    \<lparr>stateCursor = Some \<lparr>cursorCol = int (cursorX g), cursorRow = int (cursorY g)\<rparr>,
     gridHeight = Some (int (paneHeight g)), historySize = Some (int (historyCount g)),
     preamble = modes_before (modeFlags g), epilogue = modes_after (modeFlags g)\<rparr>"
proof -
  let ?flag = "\<lambda>b. if b then ''1'' else ''0''"
  obtain a b c d e f where fl: "modeFlags g = [a, b, c, d, e, f]"
    using assms six_flags [of "modeFlags g"] unfolding grid_ok_def by blast
  have "split_on (CHR '';'') (state_line g) =
      [nat_str (cursorX g), nat_str (cursorY g), ?flag a, ?flag b, ?flag c, ?flag d, ?flag e, ?flag f,
       nat_str (paneHeight g), nat_str (historyCount g)]"
    unfolding state_line_def fl by (subst split_join) (simp_all add: semicolon_free)
  then show ?thesis using assms
    by (simp add: parse_seed_state_def Let_def field_at_def number_field_nat grid_ok_def mode_escape_def
        modes_before_def modes_after_def fl)
qed

text \<open>
  C25. The seed of a pane is exactly its grid: whatever blank rows tmux left out at the bottom of
  the capture, and with or without an empty line after the last row, the seed is the mode
  escapes, the rows of the grid joined by line breaks, as many as the requested history and the
  height of the pane, the mode escapes that follow, and the cursor where tmux has it.
\<close>

theorem seed_restores_grid:
  assumes "grid_ok g historyLines (kept @ replicate k [])"
    and "out = kept \<or> out = kept @ [[]]"
  shows "build_seed out (state_line g) historyLines =
    Some \<lparr>seedBytes = modes_before (modeFlags g)
            @ join_with [CHR 0x0D, CHR 0x0A] (kept @ replicate k []) @ modes_after (modeFlags g),
          seedCursor = Some \<lparr>cursorCol = int (cursorX g), cursorRow = int (cursorY g)\<rparr>\<rparr>"
proof -
  let ?s = "strip_artifact out" and ?n = "length kept + k"
  have len: "int ?n = target_rows (parse_seed_state (state_line g)) historyLines" "?n < 2 ^ 32"
    using assms(1) by (simp_all add: target_rows_def parse_state_line [OF assms(1)] grid_ok_def)
  obtain j where j: "kept = ?s @ replicate j []"
  proof -
    have "\<exists>j. kept = ?s @ replicate j []"
      using assms(2)
    proof
      assume "out = kept @ [[]]"
      then have "kept = ?s @ replicate 0 []" by (simp add: strip_artifact_def)
      then show ?thesis by blast
    next
      assume o: "out = kept"
      show ?thesis
      proof (cases "kept \<noteq> [] \<and> last kept = []")
        case True
        then have "kept = butlast kept @ replicate 1 []" using append_butlast_last_id [of kept] by simp
        then have "kept = ?s @ replicate 1 []" using o True by (simp add: strip_artifact_def)
        then show ?thesis by blast
      next
        case False
        then have "kept = ?s @ replicate 0 []" using o by (auto simp: strip_artifact_def)
        then show ?thesis by blast
      qed
    qed
    then show thesis using that by blast
  qed
  have grid: "kept @ replicate k [] = ?s @ replicate (j + k) []"
    using j by (metis append_assoc replicate_add)
  have n: "?n = length ?s + (j + k)" using arg_cong [OF grid, of length] by simp
  then have miss: "target_rows (parse_seed_state (state_line g)) historyLines - int (length ?s) = int (j + k)"
    using len(1) by simp
  then have lines: "(if (0::int) < int (j + k) then ?s @ replicate (nat (int (j + k))) [] else ?s) =
      kept @ replicate k []"
    using grid by (cases "j + k = 0") (simp_all only: nat_int of_nat_0_less_iff neq0_conv [symmetric] if_True
        not_False_eq_True of_nat_0 less_irrefl if_False replicate_0 append_Nil2)
  have "\<not> 2 ^ 32 \<le> int (j + k)" using n len(2) by simp
  then show ?thesis
    unfolding build_seed_def Let_def miss lines
    by (simp only: if_False parse_state_line [OF assms(1)] seed_state.simps)
qed

theorem seed_restores_grid_witness:
  "build_seed [''hi'', '''', ''$''] (state_line \<lparr>cursorX = 1, cursorY = 1, modeFlags = replicate 6 False,
      paneHeight = 3, historyCount = 1\<rparr>) 2000 =
    Some \<lparr>seedBytes = modes_before (replicate 6 False)
            @ join_with [CHR 0x0D, CHR 0x0A] [''hi'', '''', ''$'', ''''] @ modes_after (replicate 6 False),
          seedCursor = Some \<lparr>cursorCol = 1, cursorRow = 1\<rparr>\<rparr>"
proof -
  let ?g = "\<lparr>cursorX = 1, cursorY = 1, modeFlags = replicate 6 False, paneHeight = 3, historyCount = 1\<rparr>"
  have "grid_ok ?g 2000 ([''hi'', '''', ''$''] @ replicate 1 [])" by (simp add: grid_ok_def)
  from seed_restores_grid [OF this, of "[''hi'', '''', ''$'']"] show ?thesis by simp
qed

end
