(* ===== verification/PaneStream.thy ===== *)
theory PaneStream
  imports Client Encoder SeedBuilder
begin

section \<open>The stream of a pane\<close>

text \<open>
  \<open>stream/pane-stream.ts\<close> of the package \<open>pane-terminal\<close>: one pane, the sink attached to it,
  the capture that seeds the sink and the live output behind it. Streams, sinks and listeners
  are numbers. The two commands of a capture settle together, as \<open>Promise.all\<close> does, and the
  reset in \<open>finally\<close>, the next microtask, belongs to the same step. What a listener or a sink
  calls in turn comes after the step that told it.
\<close>

datatype pane_stream_state = StreamIdle | StreamSeeding | StreamLive | StreamDetached | StreamDisposed

datatype error_phase = SubscribePhase | SeedPhase

datatype seed_cycle = CycleIdle | Capturing nat bool

datatype stream_event = StateChanged | ActivityChanged | StreamReconnected | StreamErrors

record pane_stream =
  streamPane :: jsnum
  historyLines :: int
  streamState :: pane_stream_state
  streamSink :: "nat option"
  streamBuffer :: "string list"
  cachedSeed :: "pane_seed option"
  seedCycle :: seed_cycle
  awaitingRuns :: "nat list"
  nextRun :: nat
  lastByteAt :: jsnum
  bytesSinceAttach :: nat
  flushTimer :: bool
  streamListeners :: "(stream_event \<times> nat) list"
  seamErrors :: "(error_phase \<times> client_error) list"
  subscribing :: bool
  streamWired :: bool

datatype stream_effect =
    AttachPaneSink jsnum
  | DetachPaneSink
  | ListenToClient
  | UnlistenToClient
  | SubscribeSize string
  | UnsubscribeSize string
  | RegisterTarget
  | UnregisterTarget
  | TakeSink nat
  | IssueCapture nat string string
  | SinkSeed nat pane_seed "string list"
  | SinkWrite nat string
  | SinkResize nat jsnum jsnum
  | TellState nat pane_stream_state
  | TellActivity nat jsnum nat
  | TellReconnected nat
  | TellError nat error_phase client_error
  | ArmFlush
  | ClearFlush
  | SendKeysCommand string
  | ResolveNoKeys
  | SeedThrows

subsection \<open>Parts\<close>

definition listeners_of :: "stream_event \<Rightarrow> pane_stream \<Rightarrow> nat list" where
  "listeners_of e s = map snd (filter (\<lambda>l. fst l = e) (streamListeners s))"

definition set_state :: "pane_stream_state \<Rightarrow> pane_stream \<Rightarrow> pane_stream \<times> stream_effect list" where
  "set_state nxt s =
     (if streamState s = nxt then (s, [])
      else (s\<lparr>streamState := nxt\<rparr>, map (\<lambda>h. TellState h nxt) (listeners_of StateChanged s)))"

definition report_error :: "error_phase \<Rightarrow> client_error \<Rightarrow> pane_stream \<Rightarrow> pane_stream \<times> stream_effect list" where
  "report_error phase cause s =
     (if streamState s = StreamDisposed \<or> is_connection_gone cause then (s, [])
      else
        (s\<lparr>seamErrors := AList.delete phase (seamErrors s) @ [(phase, cause)]\<rparr>,
         map (\<lambda>h. TellError h phase cause) (listeners_of StreamErrors s)))"

definition clear_error :: "error_phase \<Rightarrow> pane_stream \<Rightarrow> pane_stream" where
  "clear_error phase s = s\<lparr>seamErrors := AList.delete phase (seamErrors s)\<rparr>"

definition last_error :: "pane_stream \<Rightarrow> (error_phase \<times> client_error) option" where
  "last_error s = (if seamErrors s = [] then None else Some (last (seamErrors s)))"

definition mark_seed_stale :: "pane_stream \<Rightarrow> pane_stream" where
  "mark_seed_stale s =
     (case seedCycle s of CycleIdle \<Rightarrow> s | Capturing run stale \<Rightarrow> s\<lparr>seedCycle := Capturing run True\<rparr>)"

definition pane_target :: "pane_stream \<Rightarrow> string" where
  "pane_target s = ''%'' @ num_str (streamPane s)"

definition subscription_name :: "pane_stream \<Rightarrow> string" where
  "subscription_name s = ''pane-terminal-size-'' @ num_str (streamPane s)"

definition capture_command :: "pane_stream \<Rightarrow> string" where
  "capture_command s =
     (if 0 < historyLines s
      then ''capture-pane -peqN -S -'' @ int_str (historyLines s) @ '' -t '' @ pane_target s
      else ''capture-pane -peqN -t '' @ pane_target s)"

definition state_command :: "pane_stream \<Rightarrow> string" where
  "state_command s =
     ''display-message -p -t '' @ pane_target s @ '' '' @ [CHR 0x27]
     @ ''#{cursor_x};#{cursor_y};#{alternate_on};#{cursor_flag};#{insert_flag};#{keypad_cursor_flag};''
     @ ''#{keypad_flag};#{wrap_flag};#{pane_height};#{history_size}'' @ [CHR 0x27]"

text \<open>\<open>seed\<close> up to its \<open>await\<close>, within \<open>startSeedCycle\<close>.\<close>

definition start_seed_cycle :: "pane_stream \<Rightarrow> pane_stream \<times> stream_effect list" where
  "start_seed_cycle s =
     (let run = nextRun s in
      (s\<lparr>seedCycle := Capturing run False, awaitingRuns := awaitingRuns s @ [run], nextRun := run + 1\<rparr>,
       [IssueCapture run (capture_command s) (state_command s)]))"

definition finish_cycle :: "nat \<Rightarrow> pane_stream \<Rightarrow> pane_stream" where
  "finish_cycle run s =
     (case seedCycle s of
        Capturing r stale \<Rightarrow> if r = run then s\<lparr>seedCycle := CycleIdle\<rparr> else s
      | CycleIdle \<Rightarrow> s)"

definition is_stale :: "pane_stream \<Rightarrow> bool" where
  "is_stale s = (case seedCycle s of Capturing run stale \<Rightarrow> stale | CycleIdle \<Rightarrow> False)"

text \<open>The rest of \<open>seed\<close>, once the commands have settled.\<close>

definition after_capture ::
    "bool \<Rightarrow> string list \<Rightarrow> string \<Rightarrow> pane_stream \<Rightarrow> pane_stream \<times> stream_effect list" where
  "after_capture succeeded captureOutput stateLine s =
     (if streamState s = StreamDisposed then (s, [])
      else if is_stale s then
        (if streamSink s = None then (s, []) else start_seed_cycle (s\<lparr>streamBuffer := []\<rparr>))
      else (case build_seed captureOutput stateLine (historyLines s) of
          None \<Rightarrow> (s, [SeedThrows])
        | Some sd \<Rightarrow>
            let s1 = (if succeeded then clear_error SeedPhase (s\<lparr>cachedSeed := Some sd\<rparr>) else s) in
            (case streamSink s1 of
               None \<Rightarrow> (s1, [])
             | Some k \<Rightarrow>
                 let (s2, e) = set_state StreamLive (s1\<lparr>streamBuffer := []\<rparr>)
                 in (s2, SinkSeed k sd (streamBuffer s1) # e))))"

definition seed_settled ::
    "nat \<Rightarrow> client_error + (string list \<times> string list) \<Rightarrow> pane_stream \<Rightarrow> pane_stream \<times> stream_effect list" where
  "seed_settled run outcome s =
     (if run \<notin> set (awaitingRuns s) then (s, [])
      else
        let s0 = s\<lparr>awaitingRuns := filter (\<lambda>r. r \<noteq> run) (awaitingRuns s)\<rparr>;
            (s1, e1) = (case outcome of
                Inl err \<Rightarrow> report_error SeedPhase err s0
              | Inr replies \<Rightarrow> (s0, []));
            (s2, e2) = (case outcome of
                Inl err \<Rightarrow> after_capture False [] [] s1
              | Inr (captured, stateLines) \<Rightarrow>
                  after_capture True captured (case stateLines of [] \<Rightarrow> [] | l # ls \<Rightarrow> l) s1)
        in (finish_cycle run s2, e1 @ e2))"

subsection \<open>Operations\<close>

definition new_pane_stream :: "jsnum \<Rightarrow> int \<Rightarrow> pane_stream" where
  "new_pane_stream p hist =
     \<lparr>streamPane = p, historyLines = hist, streamState = StreamIdle, streamSink = None, streamBuffer = [],
      cachedSeed = None, seedCycle = CycleIdle, awaitingRuns = [], nextRun = 0, lastByteAt = Num 0,
      bytesSinceAttach = 0, flushTimer = False, streamListeners = [], seamErrors = [], subscribing = True,
      streamWired = True\<rparr>"

definition construct_effects :: "pane_stream \<Rightarrow> stream_effect list" where
  "construct_effects s =
     [AttachPaneSink (streamPane s), ListenToClient,
      SubscribeSize (refresh_client_subscribe (subscription_name s) (pane_target s) ''#{pane_width};#{pane_height}''),
      RegisterTarget]"

definition stream_attach :: "nat \<Rightarrow> pane_stream \<Rightarrow> pane_stream \<times> stream_effect list" where
  "stream_attach k s =
     (if streamState s = StreamDisposed \<or> streamSink s \<noteq> None then (s, [])
      else
        let s1 = s\<lparr>streamSink := Some k, bytesSinceAttach := 0\<rparr> in
        (case cachedSeed s1 of
           Some sd \<Rightarrow> let (s2, e) = set_state StreamLive s1 in (s2, TakeSink k # SinkSeed k sd [] # e)
         | None \<Rightarrow>
             if seedCycle s1 \<noteq> CycleIdle then
               let (s2, e) = set_state StreamSeeding s1 in (s2, TakeSink k # e)
             else
               let (s2, e) = set_state StreamSeeding s1; (s3, e') = start_seed_cycle s2
               in (s3, TakeSink k # e @ e')))"

definition stream_detach :: "pane_stream \<Rightarrow> pane_stream \<times> stream_effect list" where
  "stream_detach s =
     (if streamState s = StreamDisposed \<or> (streamSink s = None \<and> streamState s = StreamDetached) then (s, [])
      else set_state StreamDetached (s\<lparr>streamSink := None, streamBuffer := []\<rparr>))"

definition stream_reseed :: "pane_stream \<Rightarrow> pane_stream \<times> stream_effect list" where
  "stream_reseed s =
     (if streamState s = StreamDisposed \<or> streamSink s = None \<or> seedCycle s \<noteq> CycleIdle then (s, [])
      else let (s1, e1) = set_state StreamSeeding s; (s2, e2) = start_seed_cycle s1 in (s2, e1 @ e2))"

definition stream_priority :: "nat set \<Rightarrow> pane_stream \<Rightarrow> nat" where
  "stream_priority visible s =
     (if streamState s = StreamDisposed then 2
      else (case streamSink s of None \<Rightarrow> 2 | Some k \<Rightarrow> if k \<in> visible then 0 else 1))"

definition handle_pane_bytes :: "jsnum \<Rightarrow> string \<Rightarrow> pane_stream \<Rightarrow> pane_stream \<times> stream_effect list" where
  "handle_pane_bytes now data s =
     (if \<not> streamWired s \<or> streamState s = StreamDisposed then (s, [])
      else
        let s1 = s\<lparr>lastByteAt := now, bytesSinceAttach := bytesSinceAttach s + length data\<rparr>;
            (s2, e) = (case streamState s1 of
                StreamLive \<Rightarrow> (s1, case streamSink s1 of None \<Rightarrow> [] | Some k \<Rightarrow> [SinkWrite k data])
              | StreamSeeding \<Rightarrow> (s1\<lparr>streamBuffer := streamBuffer s1 @ [data]\<rparr>, [])
              | StreamDetached \<Rightarrow> (mark_seed_stale (s1\<lparr>cachedSeed := None\<rparr>), [])
              | _ \<Rightarrow> (s1, []))
        in if flushTimer s2 then (s2, e) else (s2\<lparr>flushTimer := True\<rparr>, e @ [ArmFlush]))"

definition flush_activity :: "pane_stream \<Rightarrow> pane_stream \<times> stream_effect list" where
  "flush_activity s =
     (if \<not> flushTimer s then (s, [])
      else
        let s1 = s\<lparr>flushTimer := False\<rparr> in
        (s1, if streamState s1 = StreamDisposed then []
             else map (\<lambda>h. TellActivity h (lastByteAt s1) (bytesSinceAttach s1)) (listeners_of ActivityChanged s1)))"

definition stream_on_reconnected :: "pane_stream \<Rightarrow> pane_stream \<times> stream_effect list" where
  "stream_on_reconnected s =
     (if \<not> streamWired s then (s, [])
      else (mark_seed_stale (s\<lparr>cachedSeed := None\<rparr>), map TellReconnected (listeners_of StreamReconnected s)))"

definition positive :: "jsnum \<Rightarrow> bool" where
  "positive v = (case v of Num n \<Rightarrow> 0 < n | Infinity \<Rightarrow> True | _ \<Rightarrow> False)"

definition parse_dimensions :: "string \<Rightarrow> (jsnum \<times> jsnum) option" where
  "parse_dimensions val =
     (let ws = takeWhile is_digit val; r = dropWhile is_digit val; hs = drop 1 r in
      if ws = [] \<or> take 1 r \<noteq> '';'' \<or> hs = [] \<or> \<not> list_all is_digit hs then None
      else
        let w = js_of_nat (digits_val ws); h = js_of_nat (digits_val hs) in
        if positive w \<and> positive h then Some (w, h) else None)"

definition handle_subscription_changed :: "subscription_changed \<Rightarrow> pane_stream \<Rightarrow> pane_stream \<times> stream_effect list" where
  "handle_subscription_changed ev s =
     (if \<not> streamWired s \<or> subName ev \<noteq> subscription_name s \<or> \<not> js_eq (subPaneId ev) (streamPane s)
         \<or> streamState s = StreamDisposed then (s, [])
      else (case streamSink s of
          None \<Rightarrow> (s, [])
        | Some k \<Rightarrow> (case parse_dimensions (subValue ev) of
              None \<Rightarrow> (s, [])
            | Some (c, r) \<Rightarrow> (clear_error SubscribePhase s, [SinkResize k c r]))))"

definition subscribe_settled :: "client_error option \<Rightarrow> pane_stream \<Rightarrow> pane_stream \<times> stream_effect list" where
  "subscribe_settled outcome s =
     (if \<not> subscribing s then (s, [])
      else
        let s1 = s\<lparr>subscribing := False\<rparr> in
        (case outcome of None \<Rightarrow> (s1, []) | Some err \<Rightarrow> report_error SubscribePhase err s1))"

definition stream_send_keys :: "nat list \<Rightarrow> pane_stream \<Rightarrow> stream_effect list" where
  "stream_send_keys keys s =
     (case send_keys (pane_target s) keys of None \<Rightarrow> [ResolveNoKeys] | Some wire \<Rightarrow> [SendKeysCommand wire])"

definition stream_dispose :: "pane_stream \<Rightarrow> pane_stream \<times> stream_effect list" where
  "stream_dispose s =
     (if streamState s = StreamDisposed then (s, [])
      else
        let (s1, e) = set_state StreamDisposed s in
        (s1\<lparr>streamWired := False, flushTimer := False, streamBuffer := [], streamSink := None,
            streamListeners := [], seamErrors := []\<rparr>,
         e @ [DetachPaneSink, UnlistenToClient, UnsubscribeSize (refresh_client_unsubscribe (subscription_name s))]
         @ (if flushTimer s1 then [ClearFlush] else []) @ [UnregisterTarget]))"

datatype stream_op =
    StreamAttach nat
  | StreamDetach
  | StreamReseed
  | StreamDispose
  | PaneBytes jsnum string
  | FlushTimer
  | Reconnect
  | SizeChanged subscription_changed
  | SeedSettled nat "client_error + (string list \<times> string list)"
  | SubscribeSettled "client_error option"
  | SendKeys "nat list"
  | AddListener stream_event nat
  | RemoveListener stream_event nat

fun stream_step :: "pane_stream \<Rightarrow> stream_op \<Rightarrow> pane_stream \<times> stream_effect list" where
  "stream_step s (StreamAttach k) = stream_attach k s"
| "stream_step s StreamDetach = stream_detach s"
| "stream_step s StreamReseed = stream_reseed s"
| "stream_step s StreamDispose = stream_dispose s"
| "stream_step s (PaneBytes now data) = handle_pane_bytes now data s"
| "stream_step s FlushTimer = flush_activity s"
| "stream_step s Reconnect = stream_on_reconnected s"
| "stream_step s (SizeChanged ev) = handle_subscription_changed ev s"
| "stream_step s (SeedSettled run outcome) = seed_settled run outcome s"
| "stream_step s (SubscribeSettled outcome) = subscribe_settled outcome s"
| "stream_step s (SendKeys keys) = (s, stream_send_keys keys s)"
| "stream_step s (AddListener e h) = (s\<lparr>streamListeners := set_add (e, h) (streamListeners s)\<rparr>, [])"
| "stream_step s (RemoveListener e h) = (s\<lparr>streamListeners := set_delete (e, h) (streamListeners s)\<rparr>, [])"

subsection \<open>One capture in flight\<close>

definition cycle_ok :: "pane_stream \<Rightarrow> bool" where
  "cycle_ok s \<longleftrightarrow>
     (case seedCycle s of CycleIdle \<Rightarrow> awaitingRuns s = [] | Capturing run stale \<Rightarrow> awaitingRuns s = [run] \<and> run < nextRun s)
     \<and> (streamState s = StreamSeeding \<longrightarrow> seedCycle s \<noteq> CycleIdle)
     \<and> (streamSink s \<noteq> None \<longleftrightarrow> streamState s \<in> {StreamSeeding, StreamLive})
     \<and> (streamBuffer s \<noteq> [] \<longrightarrow> streamState s = StreamSeeding)
     \<and> (\<not> streamWired s \<longleftrightarrow> streamState s = StreamDisposed)"

lemma set_state_parts [simp]:
  "fst (set_state nxt s) = s\<lparr>streamState := nxt\<rparr>"
  "snd (set_state nxt s) = (if streamState s = nxt then [] else map (\<lambda>h. TellState h nxt) (listeners_of StateChanged s))"
  by (simp_all add: set_state_def)

lemma report_error_parts [simp]:
  "streamPane (fst (report_error ph err s)) = streamPane s"
  "historyLines (fst (report_error ph err s)) = historyLines s"
  "streamState (fst (report_error ph err s)) = streamState s" "streamSink (fst (report_error ph err s)) = streamSink s"
  "streamBuffer (fst (report_error ph err s)) = streamBuffer s" "seedCycle (fst (report_error ph err s)) = seedCycle s"
  "cachedSeed (fst (report_error ph err s)) = cachedSeed s"
  "awaitingRuns (fst (report_error ph err s)) = awaitingRuns s" "nextRun (fst (report_error ph err s)) = nextRun s"
  "streamWired (fst (report_error ph err s)) = streamWired s"
  by (simp_all add: report_error_def)

lemma clear_error_parts [simp]:
  "streamState (clear_error ph s) = streamState s" "streamSink (clear_error ph s) = streamSink s"
  "streamBuffer (clear_error ph s) = streamBuffer s" "seedCycle (clear_error ph s) = seedCycle s"
  "cachedSeed (clear_error ph s) = cachedSeed s"
  "awaitingRuns (clear_error ph s) = awaitingRuns s" "nextRun (clear_error ph s) = nextRun s"
  "streamWired (clear_error ph s) = streamWired s"
  by (simp_all add: clear_error_def)

lemma mark_stale_parts [simp]:
  "streamState (mark_seed_stale s) = streamState s" "streamSink (mark_seed_stale s) = streamSink s"
  "streamBuffer (mark_seed_stale s) = streamBuffer s" "awaitingRuns (mark_seed_stale s) = awaitingRuns s"
  "nextRun (mark_seed_stale s) = nextRun s" "streamWired (mark_seed_stale s) = streamWired s"
  "cachedSeed (mark_seed_stale s) = cachedSeed s"
  "flushTimer (mark_seed_stale s) = flushTimer s"
  "seedCycle (mark_seed_stale s) = (case seedCycle s of CycleIdle \<Rightarrow> CycleIdle | Capturing r st \<Rightarrow> Capturing r True)"
  by (simp_all add: mark_seed_stale_def split: seed_cycle.splits)

definition builds :: "pane_stream \<Rightarrow> stream_op \<Rightarrow> bool" where
  "builds s e \<longleftrightarrow> SeedThrows \<notin> set (snd (stream_step s e))"

text \<open>After the settled commands have been taken off, before the cycle is closed.\<close>

lemma after_capture_cases:
  assumes "SeedThrows \<notin> set (snd (after_capture ok c l s))"
  obtains (disposed) "streamState s = StreamDisposed" "after_capture ok c l s = (s, [])"
  | (dropped) "streamSink s = None" "streamState s \<noteq> StreamDisposed" "is_stale s" "after_capture ok c l s = (s, [])"
  | (again) "streamSink s \<noteq> None" "streamState s \<noteq> StreamDisposed" "is_stale s"
      "after_capture ok c l s = start_seed_cycle (s\<lparr>streamBuffer := []\<rparr>)"
  | (built) sd where "streamState s \<noteq> StreamDisposed" "\<not> is_stale s" "build_seed c l (historyLines s) = Some sd"
      "after_capture ok c l s =
        (let s1 = (if ok then clear_error SeedPhase (s\<lparr>cachedSeed := Some sd\<rparr>) else s) in
         case streamSink s1 of
           None \<Rightarrow> (s1, [])
         | Some k \<Rightarrow> let (s2, e) = set_state StreamLive (s1\<lparr>streamBuffer := []\<rparr>) in (s2, SinkSeed k sd (streamBuffer s1) # e))"
proof (cases "streamState s = StreamDisposed")
  case True
  then show ?thesis using disposed by (simp add: after_capture_def)
next
  case nd: False
  show ?thesis
  proof (cases "is_stale s")
    case True
    then show ?thesis using nd dropped again by (cases "streamSink s") (simp_all add: after_capture_def)
  next
    case False
    then obtain sd where "build_seed c l (historyLines s) = Some sd"
      using nd assms by (cases "build_seed c l (historyLines s)") (auto simp: after_capture_def)
    then show ?thesis using nd False built by (simp add: after_capture_def)
  qed
qed

lemma finish_cycle_parts [simp]:
  "streamState (finish_cycle run s) = streamState s" "streamSink (finish_cycle run s) = streamSink s"
  "streamBuffer (finish_cycle run s) = streamBuffer s" "awaitingRuns (finish_cycle run s) = awaitingRuns s"
  "nextRun (finish_cycle run s) = nextRun s" "streamWired (finish_cycle run s) = streamWired s"
  "cachedSeed (finish_cycle run s) = cachedSeed s"
  "seedCycle (finish_cycle run s) =
     (case seedCycle s of CycleIdle \<Rightarrow> CycleIdle | Capturing r st \<Rightarrow> if r = run then CycleIdle else Capturing r st)"
  by (simp_all add: finish_cycle_def split: seed_cycle.splits)

lemma seed_settled_ok:
  assumes "cycle_ok s" and "builds s (SeedSettled run outcome)"
  shows "cycle_ok (fst (seed_settled run outcome s))"
proof (cases "run \<in> set (awaitingRuns s)")
  case False
  then show ?thesis using assms by (simp add: seed_settled_def)
next
  case True
  then obtain stale where c: "seedCycle s = Capturing run stale" "awaitingRuns s = [run]" "run < nextRun s"
    using assms(1) by (auto simp: cycle_ok_def split: seed_cycle.splits)
  let ?s0 = "s\<lparr>awaitingRuns := []\<rparr>"
  let ?s1 = "case outcome of Inl err \<Rightarrow> fst (report_error SeedPhase err ?s0) | Inr r \<Rightarrow> ?s0"
  let ?ok = "case outcome of Inl err \<Rightarrow> False | Inr r \<Rightarrow> True"
  let ?c = "case outcome of Inl err \<Rightarrow> [] | Inr (cap, sl) \<Rightarrow> cap"
  let ?l = "case outcome of Inl err \<Rightarrow> [] | Inr (cap, sl) \<Rightarrow> (case sl of [] \<Rightarrow> [] | l # ls \<Rightarrow> l)"
  have e: "fst (seed_settled run outcome s) = finish_cycle run (fst (after_capture ?ok ?c ?l ?s1))"
    and t: "SeedThrows \<notin> set (snd (after_capture ?ok ?c ?l ?s1))"
    using True c assms(2)
    by (auto simp: seed_settled_def builds_def Let_def case_prod_beta split: sum.splits prod.splits)
  have s1: "awaitingRuns ?s1 = []" "seedCycle ?s1 = seedCycle s" "nextRun ?s1 = nextRun s"
    "streamState ?s1 = streamState s" "streamSink ?s1 = streamSink s" "streamBuffer ?s1 = streamBuffer s"
    "streamWired ?s1 = streamWired s"
    by (simp_all split: sum.splits)
  from t show ?thesis
    unfolding e
    by (cases rule: after_capture_cases)
       (use assms(1) c s1 in \<open>auto simp: cycle_ok_def start_seed_cycle_def Let_def case_prod_beta
          split: option.splits if_splits\<close>)
qed

lemma stream_step_ok: "cycle_ok s \<Longrightarrow> builds s e \<Longrightarrow> cycle_ok (fst (stream_step s e))"
proof (cases e)
  case (SeedSettled run outcome)
  then show "cycle_ok s \<Longrightarrow> builds s e \<Longrightarrow> cycle_ok (fst (stream_step s e))" by (simp add: seed_settled_ok)
next
  case (PaneBytes now data)
  then show "cycle_ok s \<Longrightarrow> builds s e \<Longrightarrow> cycle_ok (fst (stream_step s e))"
    by (auto simp: cycle_ok_def handle_pane_bytes_def Let_def case_prod_beta
        split: pane_stream_state.splits seed_cycle.splits)
next
  case (SubscribeSettled outcome)
  then show "cycle_ok s \<Longrightarrow> builds s e \<Longrightarrow> cycle_ok (fst (stream_step s e))"
    by (auto simp: cycle_ok_def subscribe_settled_def Let_def split: option.splits seed_cycle.splits)
next
  case (SizeChanged ev)
  then show "cycle_ok s \<Longrightarrow> builds s e \<Longrightarrow> cycle_ok (fst (stream_step s e))"
    by (auto simp: cycle_ok_def handle_subscription_changed_def split: option.splits seed_cycle.splits)
qed (auto simp: cycle_ok_def stream_attach_def stream_detach_def stream_reseed_def stream_dispose_def
    flush_activity_def stream_on_reconnected_def start_seed_cycle_def Let_def case_prod_beta
    split: option.splits seed_cycle.splits)

lemma new_stream_ok: "cycle_ok (new_pane_stream p hist)"
  by (simp add: cycle_ok_def new_pane_stream_def)

fun all_build :: "pane_stream \<Rightarrow> stream_op list \<Rightarrow> bool" where
  "all_build s [] = True"
| "all_build s (e # es) \<longleftrightarrow> builds s e \<and> all_build (fst (stream_step s e)) es"

lemma stream_run_ok: "cycle_ok s \<Longrightarrow> all_build s es \<Longrightarrow> cycle_ok (fst (run_steps stream_step s es))"
  by (induction es arbitrary: s) (simp_all add: stream_step_ok)

lemma settle_seeding:
  assumes "cycle_ok s" and "streamState s = StreamSeeding" and "seedCycle s = Capturing run stale"
    and "builds s (SeedSettled run outcome)"
  shows "let s' = fst (stream_step s (SeedSettled run outcome)) in
    if stale then streamState s' = StreamSeeding \<and> seedCycle s' = Capturing (nextRun s) False
                  \<and> awaitingRuns s' = [nextRun s] \<and> streamBuffer s' = []
    else streamState s' = StreamLive \<and> awaitingRuns s' = [] \<and> seedCycle s' = CycleIdle"
proof -
  have c: "awaitingRuns s = [run]" "run < nextRun s" "\<exists>k. streamSink s = Some k"
    using assms(1-3) by (auto simp: cycle_ok_def)
  let ?s0 = "s\<lparr>awaitingRuns := []\<rparr>"
  let ?s1 = "case outcome of Inl err \<Rightarrow> fst (report_error SeedPhase err ?s0) | Inr r \<Rightarrow> ?s0"
  let ?ok = "case outcome of Inl err \<Rightarrow> False | Inr r \<Rightarrow> True"
  let ?c = "case outcome of Inl err \<Rightarrow> [] | Inr (cap, sl) \<Rightarrow> cap"
  let ?l = "case outcome of Inl err \<Rightarrow> [] | Inr (cap, sl) \<Rightarrow> (case sl of [] \<Rightarrow> [] | l # ls \<Rightarrow> l)"
  have e: "fst (stream_step s (SeedSettled run outcome)) = finish_cycle run (fst (after_capture ?ok ?c ?l ?s1))"
    and t: "SeedThrows \<notin> set (snd (after_capture ?ok ?c ?l ?s1))"
    using c assms(4)
    by (auto simp: seed_settled_def builds_def Let_def case_prod_beta split: sum.splits prod.splits)
  have s1: "awaitingRuns ?s1 = []" "seedCycle ?s1 = seedCycle s" "nextRun ?s1 = nextRun s"
    "streamState ?s1 = streamState s" "streamSink ?s1 = streamSink s"
    by (simp_all split: sum.splits)
  from t show ?thesis
    unfolding e
    by (cases rule: after_capture_cases)
       (use assms(2,3) c s1 in \<open>auto simp: is_stale_def start_seed_cycle_def Let_def case_prod_beta\<close>)
qed

text \<open>
  C34. A stream never has two captures in flight, however attaches, detaches, reseeds,
  reconnects and replies interleave, and never waits for a seed that is not coming: while it
  seeds one capture is outstanding, and when that settles, with an answer or an error, the
  stream goes live, or, if the capture had become stale, seeds from one fresh capture.
\<close>

theorem one_capture_in_flight:
  assumes "all_build (new_pane_stream p hist) es"
  defines "s \<equiv> fst (run_steps stream_step (new_pane_stream p hist) es)"
  shows "length (awaitingRuns s) \<le> 1 \<and>
    (streamState s = StreamSeeding \<longrightarrow>
       (\<exists>run stale. awaitingRuns s = [run] \<and> (\<forall>outcome. builds s (SeedSettled run outcome) \<longrightarrow>
          (let s' = fst (stream_step s (SeedSettled run outcome)) in
           if stale then streamState s' = StreamSeeding \<and> seedCycle s' = Capturing (nextRun s) False
                         \<and> awaitingRuns s' = [nextRun s] \<and> streamBuffer s' = []
           else streamState s' = StreamLive \<and> awaitingRuns s' = [] \<and> seedCycle s' = CycleIdle))))"
proof -
  have ok: "cycle_ok s" unfolding s_def by (rule stream_run_ok [OF new_stream_ok assms(1)])
  then have one: "length (awaitingRuns s) \<le> 1" by (auto simp: cycle_ok_def split: seed_cycle.splits)
  show ?thesis
  proof (intro conjI impI)
    assume seeding: "streamState s = StreamSeeding"
    then obtain run stale where c: "seedCycle s = Capturing run stale" "awaitingRuns s = [run]"
      using ok by (cases "seedCycle s") (auto simp: cycle_ok_def)
    then show "\<exists>run stale. awaitingRuns s = [run] \<and> (\<forall>outcome. builds s (SeedSettled run outcome) \<longrightarrow>
          (let s' = fst (stream_step s (SeedSettled run outcome)) in
           if stale then streamState s' = StreamSeeding \<and> seedCycle s' = Capturing (nextRun s) False
                         \<and> awaitingRuns s' = [nextRun s] \<and> streamBuffer s' = []
           else streamState s' = StreamLive \<and> awaitingRuns s' = [] \<and> seedCycle s' = CycleIdle))"
      using settle_seeding [OF ok seeding c(1)] by blast
  qed (rule one)
qed

lemma one_capture_in_flight_witness:
  "length (awaitingRuns (fst (run_steps stream_step (new_pane_stream (Num 1) 0)
     [StreamAttach 0, StreamDetach, StreamAttach 0, Reconnect, StreamReseed]))) \<le> 1"
proof -
  have "all_build (new_pane_stream (Num 1) 0) [StreamAttach 0, StreamDetach, StreamAttach 0, Reconnect, StreamReseed]"
    by code_simp
  from one_capture_in_flight [OF this] show ?thesis by blast
qed

subsection \<open>What the sink shows\<close>

text \<open>
  The output that arrived since the sink was taken or the last capture was issued, whichever is
  later, and the output a sink was given since it was taken and last seeded.
\<close>

record pane_view =
  owedOutput :: "string list"
  shownOutput :: "string list option"

fun view_effect :: "pane_view \<Rightarrow> stream_effect \<Rightarrow> pane_view" where
  "view_effect v (TakeSink k) = \<lparr>owedOutput = [], shownOutput = None\<rparr>"
| "view_effect v (IssueCapture run c st) = v\<lparr>owedOutput := []\<rparr>"
| "view_effect v (SinkSeed k sd trailing) = v\<lparr>shownOutput := Some trailing\<rparr>"
| "view_effect v (SinkWrite k data) = v\<lparr>shownOutput := map_option (\<lambda>ds. ds @ [data]) (shownOutput v)\<rparr>"
| "view_effect v _ = v"

definition view_step :: "pane_view \<Rightarrow> stream_op \<Rightarrow> stream_effect list \<Rightarrow> pane_view" where
  "view_step v e effs =
     foldl view_effect (case e of PaneBytes now data \<Rightarrow> v\<lparr>owedOutput := owedOutput v @ [data]\<rparr> | _ \<Rightarrow> v) effs"

fun view_run :: "pane_view \<Rightarrow> pane_stream \<Rightarrow> stream_op list \<Rightarrow> pane_view" where
  "view_run v s [] = v"
| "view_run v s (e # es) = view_run (view_step v e (snd (stream_step s e))) (fst (stream_step s e)) es"

text \<open>No reseed while an older seed is still cached.\<close>

fun reseeds_uncached :: "pane_stream \<Rightarrow> stream_op list \<Rightarrow> bool" where
  "reseeds_uncached s [] = True"
| "reseeds_uncached s (e # es) \<longleftrightarrow>
     (e = StreamReseed \<longrightarrow> cachedSeed s = None) \<and> reseeds_uncached (fst (stream_step s e)) es"

definition view_ok :: "pane_stream \<Rightarrow> pane_view \<Rightarrow> bool" where
  "view_ok s v \<longleftrightarrow>
     (streamState s = StreamLive \<longrightarrow> shownOutput v = Some (owedOutput v) \<and> seedCycle s = CycleIdle)
     \<and> (streamState s = StreamSeeding \<longrightarrow> owedOutput v = streamBuffer s)
     \<and> (seedCycle s \<noteq> CycleIdle \<longrightarrow> cachedSeed s = None)"

lemma view_told [simp]: "foldl view_effect v (map (\<lambda>h. TellState h st) hs) = v"
  "foldl view_effect v (map (\<lambda>h. TellError h ph err) hs) = v"
  "foldl view_effect v (map TellReconnected hs) = v" "foldl view_effect v (map (\<lambda>h. TellActivity h n m) hs) = v"
  by (induction hs) simp_all

lemma view_set_state: "foldl view_effect v (if b then [] else map (\<lambda>h. TellState h st) hs) = v"
  by simp

lemma view_report [simp]: "foldl view_effect v (snd (report_error ph err s)) = v"
  by (simp add: report_error_def)

lemma seed_settled_view:
  assumes "cycle_ok s" and "builds s (SeedSettled run outcome)" and "view_ok s v"
  shows "view_ok (fst (seed_settled run outcome s)) (foldl view_effect v (snd (seed_settled run outcome s)))"
proof (cases "run \<in> set (awaitingRuns s)")
  case False
  then show ?thesis using assms by (simp add: seed_settled_def)
next
  case True
  then obtain stale where c: "seedCycle s = Capturing run stale" "awaitingRuns s = [run]" "run < nextRun s"
    using assms(1) by (auto simp: cycle_ok_def split: seed_cycle.splits)
  let ?s0 = "s\<lparr>awaitingRuns := []\<rparr>"
  let ?s1 = "case outcome of Inl err \<Rightarrow> fst (report_error SeedPhase err ?s0) | Inr r \<Rightarrow> ?s0"
  let ?ok = "case outcome of Inl err \<Rightarrow> False | Inr r \<Rightarrow> True"
  let ?c = "case outcome of Inl err \<Rightarrow> [] | Inr (cap, sl) \<Rightarrow> cap"
  let ?l = "case outcome of Inl err \<Rightarrow> [] | Inr (cap, sl) \<Rightarrow> (case sl of [] \<Rightarrow> [] | l # ls \<Rightarrow> l)"
  have e: "fst (seed_settled run outcome s) = finish_cycle run (fst (after_capture ?ok ?c ?l ?s1))"
    "foldl view_effect v (snd (seed_settled run outcome s)) = foldl view_effect v (snd (after_capture ?ok ?c ?l ?s1))"
    and t: "SeedThrows \<notin> set (snd (after_capture ?ok ?c ?l ?s1))"
    using True c assms(2)
    by (auto simp: seed_settled_def builds_def Let_def case_prod_beta split: sum.splits prod.splits)
  have s1: "awaitingRuns ?s1 = []" "seedCycle ?s1 = seedCycle s" "nextRun ?s1 = nextRun s"
    "streamState ?s1 = streamState s" "streamSink ?s1 = streamSink s" "streamBuffer ?s1 = streamBuffer s"
    "cachedSeed ?s1 = cachedSeed s"
    by (simp_all split: sum.splits)
  have live: "streamState s \<noteq> StreamLive" using assms(3) c by (auto simp: view_ok_def)
  from t show ?thesis
    unfolding e
    by (cases rule: after_capture_cases)
       (use assms(1,3) live c s1 in \<open>auto simp: view_ok_def cycle_ok_def start_seed_cycle_def Let_def case_prod_beta
          split: option.splits if_splits\<close>)
qed

lemma step_view:
  assumes "cycle_ok s" and "builds s e" and "view_ok s v" and "e = StreamReseed \<longrightarrow> cachedSeed s = None"
  shows "view_ok (fst (stream_step s e)) (view_step v e (snd (stream_step s e)))"
proof (cases e)
  case (SeedSettled run outcome)
  then show ?thesis using assms by (simp add: seed_settled_view view_step_def)
next
  case (PaneBytes now data)
  then show ?thesis using assms
    by (auto simp: cycle_ok_def view_ok_def view_step_def handle_pane_bytes_def Let_def case_prod_beta
        split: pane_stream_state.splits seed_cycle.splits option.splits)
next
  case (SubscribeSettled outcome)
  then show ?thesis using assms
    by (auto simp: view_ok_def view_step_def subscribe_settled_def Let_def split: option.splits)
next
  case (SizeChanged ev)
  then show ?thesis using assms
    by (auto simp: view_ok_def view_step_def handle_subscription_changed_def split: option.splits)
next
  case (StreamAttach k)
  show ?thesis
  proof (cases "streamState s = StreamDisposed \<or> streamSink s \<noteq> None")
    case True
    then show ?thesis using StreamAttach assms(3) by (auto simp: view_step_def stream_attach_def)
  next
    case False
    then have b: "streamBuffer s = []" using assms(1) by (auto simp: cycle_ok_def)
    show ?thesis
      using False StreamAttach assms(3) b
      by (cases "cachedSeed s"; cases "seedCycle s")
         (simp_all add: view_ok_def view_step_def stream_attach_def start_seed_cycle_def Let_def case_prod_beta view_set_state)
  qed
next
  case Reconnect
  then show ?thesis using assms
    by (auto simp: view_ok_def view_step_def stream_on_reconnected_def split: seed_cycle.splits)
next
  case (SendKeys keys)
  then show ?thesis using assms
    by (auto simp: view_ok_def view_step_def stream_send_keys_def split: option.splits)
next
  case StreamDetach
  then show ?thesis using assms(3)
    by (simp add: view_ok_def view_step_def stream_detach_def view_set_state)
next
  case StreamReseed
  then show ?thesis using assms
    by (auto simp add: cycle_ok_def view_ok_def view_step_def stream_reseed_def start_seed_cycle_def Let_def case_prod_beta
        view_set_state)
next
  case StreamDispose
  then show ?thesis using assms(3)
    by (simp add: view_ok_def view_step_def stream_dispose_def Let_def case_prod_beta view_set_state)
next
  case FlushTimer
  then show ?thesis using assms(3)
    by (simp add: view_ok_def view_step_def flush_activity_def Let_def)
qed (use assms in \<open>simp_all add: view_ok_def view_step_def\<close>)

lemma view_run_ok:
  "\<lbrakk>cycle_ok s; all_build s es; reseeds_uncached s es; view_ok s v\<rbrakk> \<Longrightarrow>
     view_ok (fst (run_steps stream_step s es)) (view_run v s es)"
  by (induction es arbitrary: s v) (simp_all add: stream_step_ok step_view)

text \<open>
  C35. A live sink shows what its pane printed: the output it was given behind its seed is, chunk
  for chunk, in order and without repetition, what arrived since it was attached or the capture
  of its seed was issued; while the stream seeds, the same output waits in the buffer that is
  handed over with the seed. This holds for every interleaving of attaches, detaches,
  reconnects, output and replies in which no reseed is asked for while a seed is still cached.
\<close>

theorem sink_shows_output:
  assumes "all_build (new_pane_stream p hist) es" and "reseeds_uncached (new_pane_stream p hist) es"
  defines "s \<equiv> fst (run_steps stream_step (new_pane_stream p hist) es)"
    and "v \<equiv> view_run \<lparr>owedOutput = [], shownOutput = None\<rparr> (new_pane_stream p hist) es"
  shows "(streamState s = StreamLive \<longrightarrow> shownOutput v = Some (owedOutput v))
    \<and> (streamState s = StreamSeeding \<longrightarrow> streamBuffer s = owedOutput v)"
proof -
  have "view_ok (new_pane_stream p hist) \<lparr>owedOutput = [], shownOutput = None\<rparr>"
    by (simp add: view_ok_def new_pane_stream_def)
  then show ?thesis
    using view_run_ok [OF new_stream_ok assms(1,2)] unfolding s_def v_def by (simp add: view_ok_def)
qed

lemma sink_shows_output_witness:
  "shownOutput (view_run \<lparr>owedOutput = [], shownOutput = None\<rparr> (new_pane_stream (Num 1) 0)
     [StreamAttach 0, PaneBytes (Num 0) ''a'', SeedSettled 0 (Inr ([''$''], [])), PaneBytes (Num 1) ''b'']) =
   Some [''a'', ''b'']"
proof -
  let ?es = "[StreamAttach 0, PaneBytes (Num 0) ''a'', SeedSettled 0 (Inr ([''$''], [])), PaneBytes (Num 1) ''b'']"
  have "all_build (new_pane_stream (Num 1) 0) ?es" "reseeds_uncached (new_pane_stream (Num 1) 0) ?es"
    "streamState (fst (run_steps stream_step (new_pane_stream (Num 1) 0) ?es)) = StreamLive"
    "owedOutput (view_run \<lparr>owedOutput = [], shownOutput = None\<rparr> (new_pane_stream (Num 1) 0) ?es) = [''a'', ''b'']"
    by code_simp+
  then show ?thesis using sink_shows_output [of "Num 1" 0 ?es] by simp
qed

subsection \<open>Output that is lost\<close>

fun sink_calls :: "stream_effect list \<Rightarrow> stream_effect list" where
  "sink_calls [] = []"
| "sink_calls (TakeSink k # es) = TakeSink k # sink_calls es"
| "sink_calls (SinkSeed k sd tr # es) = SinkSeed k sd tr # sink_calls es"
| "sink_calls (SinkWrite k d # es) = SinkWrite k d # sink_calls es"
| "sink_calls (_ # es) = sink_calls es"

lemma sink_calls_append [simp]: "sink_calls (xs @ ys) = sink_calls xs @ sink_calls ys"
  by (induction xs rule: sink_calls.induct) simp_all

lemma sink_calls_told [simp]: "sink_calls (map (\<lambda>h. TellState h st) hs) = []"
  by (induction hs) simp_all

lemma sink_calls_state [simp]: "sink_calls (snd (set_state st s)) = []"
  by (simp add: set_state_def del: set_state_parts)

text \<open>Output that arrives while the stream seeds waits in the buffer, and nothing else changes.\<close>

definition awaits_seed :: "nat \<Rightarrow> int \<Rightarrow> nat \<Rightarrow> string list \<Rightarrow> pane_stream \<Rightarrow> bool" where
  "awaits_seed run hist k waiting s \<longleftrightarrow>
     streamWired s \<and> streamState s = StreamSeeding \<and> streamSink s = Some k \<and> streamBuffer s = waiting
     \<and> seedCycle s = Capturing run False \<and> awaitingRuns s = [run] \<and> historyLines s = hist"

lemma bytes_await:
  assumes "awaits_seed run hist k waiting s"
  shows "awaits_seed run hist k (waiting @ [d]) (fst (stream_step s (PaneBytes n d)))"
    "sink_calls (snd (stream_step s (PaneBytes n d))) = []"
  using assms by (auto simp: awaits_seed_def handle_pane_bytes_def Let_def)

lemma all_bytes_await:
  assumes "awaits_seed run hist k waiting s"
  shows "awaits_seed run hist k (waiting @ map snd ds) (fst (run_steps stream_step s (map (\<lambda>(n, d). PaneBytes n d) ds)))"
    "sink_calls (snd (run_steps stream_step s (map (\<lambda>(n, d). PaneBytes n d) ds))) = []"
  using assms
proof (induction ds arbitrary: s waiting)
  case (Cons x ds)
  obtain n d where x: "x = (n, d)" by (cases x)
  { case 1 show ?case using Cons.IH(1) [OF bytes_await(1) [OF 1, of d n]] x by simp }
  { case 2 show ?case using Cons.IH(2) [OF bytes_await(1) [OF 2, of d n]] bytes_await(2) [OF 2, of n d] x by simp }
qed simp_all

lemma reply_seeds:
  assumes "awaits_seed run hist k waiting s" and "build_seed captured line hist = Some sd"
  shows "sink_calls (snd (stream_step s (SeedSettled run (Inr (captured, [line]))))) = [SinkSeed k sd waiting]"
  using assms by (simp add: awaits_seed_def seed_settled_def after_capture_def is_stale_def Let_def case_prod_beta)

text \<open>A detached stream whose capture is in flight, with the buffer empty and the capture still good.\<close>

definition detached_capture :: "nat \<Rightarrow> int \<Rightarrow> pane_stream \<Rightarrow> bool" where
  "detached_capture run hist s \<longleftrightarrow>
     streamWired s \<and> streamState s = StreamDetached \<and> streamSink s = None \<and> streamBuffer s = []
     \<and> cachedSeed s = None \<and> seedCycle s = Capturing run False \<and> awaitingRuns s = [run] \<and> historyLines s = hist"

lemma attach_awaits:
  assumes "detached_capture run hist s"
  shows "awaits_seed run hist k [] (fst (stream_step s (StreamAttach k)))"
    "sink_calls (snd (stream_step s (StreamAttach k))) = [TakeSink k]"
  using assms
  by (simp_all add: detached_capture_def awaits_seed_def stream_attach_def Let_def case_prod_beta)

lemma reply_cached:
  assumes "detached_capture run hist s" and "build_seed captured line hist = Some sd"
  defines "r \<equiv> stream_step s (SeedSettled run (Inr (captured, [line])))"
  shows "sink_calls (snd r) = []" "sink_calls (snd (stream_step (fst r) (StreamAttach k))) = [TakeSink k, SinkSeed k sd []]"
proof -
  have r: "snd r = []" "streamState (fst r) = StreamDetached" "streamSink (fst r) = None" "cachedSeed (fst r) = Some sd"
    using assms(1,2) unfolding r_def
    by (simp_all add: detached_capture_def seed_settled_def after_capture_def is_stale_def Let_def)
  then show "sink_calls (snd r) = []" "sink_calls (snd (stream_step (fst r) (StreamAttach k))) = [TakeSink k, SinkSeed k sd []]"
    by (simp_all add: stream_attach_def Let_def case_prod_beta)
qed

text \<open>
  C40. A detach while a capture is in flight throws the output that waits behind the seed away for
  good, without invalidating the capture. Nothing a stream does after the detach, whatever comes
  next, depends on what the buffer held; and when the sink comes back before the reply, with any
  output in between, or after it, it is given the snapshot of that capture and behind it only
  what arrived since it came back.
\<close>

theorem detach_drops_buffered_output:
  assumes "streamWired s" and "streamState s = StreamSeeding" and "streamSink s = Some k" and "cachedSeed s = None"
    and "seedCycle s = Capturing run False" and "awaitingRuns s = [run]"
    and "build_seed captured line (historyLines s) = Some sd"
  shows "run_steps stream_step (s\<lparr>streamBuffer := lost\<rparr>) (StreamDetach # es) = run_steps stream_step s (StreamDetach # es)
    \<and> sink_calls (snd (run_steps stream_step s ([StreamDetach, StreamAttach k'] @ map (\<lambda>(n, d). PaneBytes n d) ds
         @ [SeedSettled run (Inr (captured, [line]))]))) =
        [TakeSink k', SinkSeed k' sd (map snd ds)]
    \<and> sink_calls (snd (run_steps stream_step s
         [StreamDetach, SeedSettled run (Inr (captured, [line])), StreamAttach k'])) =
        [TakeSink k', SinkSeed k' sd []]"
proof -
  let ?d = "fst (stream_step s StreamDetach)" and ?bytes = "map (\<lambda>(n, d). PaneBytes n d) ds"
  let ?a = "fst (stream_step ?d (StreamAttach k'))"
  have d: "detached_capture run (historyLines s) ?d" "sink_calls (snd (stream_step s StreamDetach)) = []"
    using assms(1-6) by (simp_all add: detached_capture_def stream_detach_def)
  have "stream_step (s\<lparr>streamBuffer := lost\<rparr>) StreamDetach = stream_step s StreamDetach"
    using assms(2) by (simp add: stream_detach_def)
  then have "run_steps stream_step (s\<lparr>streamBuffer := lost\<rparr>) (StreamDetach # es) = run_steps stream_step s (StreamDetach # es)"
    by (simp only: run_steps.simps)
  moreover have "sink_calls (snd (run_steps stream_step s ([StreamDetach, StreamAttach k'] @ ?bytes
      @ [SeedSettled run (Inr (captured, [line]))]))) = [TakeSink k', SinkSeed k' sd (map snd ds)]"
    using d(2) attach_awaits [OF d(1), of k'] all_bytes_await [OF attach_awaits(1) [OF d(1), of k'], of ds]
      reply_seeds [OF all_bytes_await(1) [OF attach_awaits(1) [OF d(1), of k'], of ds] assms(7)]
    by (simp add: run_steps_append case_prod_beta del: stream_step.simps)
  moreover have "sink_calls (snd (run_steps stream_step s
      [StreamDetach, SeedSettled run (Inr (captured, [line])), StreamAttach k'])) = [TakeSink k', SinkSeed k' sd []]"
    using d(2) reply_cached(1) [OF d(1) assms(7)] reply_cached(2) [OF d(1) assms(7), of k'] by (simp del: stream_step.simps)
  ultimately show ?thesis by blast
qed

lemma detach_drops_buffered_output_witness:
  "let s = fst (run_steps stream_step (new_pane_stream (Num 1) 0)
        [StreamAttach 0, PaneBytes (Num 5) ''lost'', PaneBytes (Num 6) ''gone'']) in
    streamBuffer s = [''lost'', ''gone'']
    \<and> sink_calls (snd (run_steps stream_step s
         [StreamDetach, StreamAttach 0, PaneBytes (Num 7) ''kept'', SeedSettled 0 (Inr ([''$''], [[]]))])) =
        [TakeSink 0, SinkSeed 0 \<lparr>seedBytes = ''$'', seedCursor = None\<rparr> [''kept'']]"
proof -
  let ?s = "fst (run_steps stream_step (new_pane_stream (Num 1) 0)
        [StreamAttach 0, PaneBytes (Num 5) ''lost'', PaneBytes (Num 6) ''gone''])"
  have s: "streamWired ?s" "streamState ?s = StreamSeeding" "streamSink ?s = Some 0" "cachedSeed ?s = None"
    "seedCycle ?s = Capturing 0 False" "awaitingRuns ?s = [0]"
    "build_seed [''$''] [] (historyLines ?s) = Some \<lparr>seedBytes = ''$'', seedCursor = None\<rparr>"
    by code_simp+
  have "streamBuffer ?s = [''lost'', ''gone'']" by code_simp
  then show ?thesis
    using detach_drops_buffered_output [OF s, where lost="[]" and es="[]" and k'=0 and ds="[(Num 7, ''kept'')]"] unfolding Let_def by simp
qed


text \<open>
  A reseed that finds a seed still cached leaves the cache in place: a sink that comes back
  while the new capture is in flight is seeded from the cache and live at once, and the output
  it then shows is overwritten by the older snapshot when the capture settles.
\<close>

theorem cached_reseed_overwrites_output:
  assumes "build_seed captured line hist = Some sd" and "build_seed captured' line' hist = Some sd'"
  shows "sink_calls (snd (run_steps stream_step (new_pane_stream p hist)
      [StreamAttach k, SeedSettled 0 (Inr (captured, [line])), StreamReseed, StreamDetach, StreamAttach k',
       PaneBytes n d, SeedSettled 1 (Inr (captured', [line']))])) =
    [TakeSink k, SinkSeed k sd [], TakeSink k', SinkSeed k' sd [], SinkWrite k' d, SinkSeed k' sd' []]"
  using assms
  by (simp add: new_pane_stream_def stream_attach_def start_seed_cycle_def listeners_of_def handle_pane_bytes_def
      stream_detach_def stream_reseed_def seed_settled_def after_capture_def is_stale_def clear_error_def
      finish_cycle_def Let_def set_state_def del: set_state_parts)

lemma cached_reseed_overwrites_output_witness:
  "sink_calls (snd (run_steps stream_step (new_pane_stream (Num 1) 0)
      [StreamAttach 0, SeedSettled 0 (Inr ([''$''], [[]])), StreamReseed, StreamDetach, StreamAttach 0,
       PaneBytes (Num 5) ''new'', SeedSettled 1 (Inr ([''$''], [[]]))])) =
    [TakeSink 0, SinkSeed 0 \<lparr>seedBytes = ''$'', seedCursor = None\<rparr> [], TakeSink 0,
     SinkSeed 0 \<lparr>seedBytes = ''$'', seedCursor = None\<rparr> [], SinkWrite 0 ''new'',
     SinkSeed 0 \<lparr>seedBytes = ''$'', seedCursor = None\<rparr> []]"
proof -
  have "build_seed [''$''] [] 0 = Some \<lparr>seedBytes = ''$'', seedCursor = None\<rparr>" by code_simp
  from cached_reseed_overwrites_output [OF this this] show ?thesis by blast
qed

subsection \<open>The end\<close>

definition only_keys :: "stream_effect \<Rightarrow> bool" where
  "only_keys e = (case e of SendKeysCommand w \<Rightarrow> True | ResolveNoKeys \<Rightarrow> True | _ \<Rightarrow> False)"

definition gone :: "pane_stream \<Rightarrow> bool" where
  "gone s \<longleftrightarrow> streamState s = StreamDisposed \<and> \<not> streamWired s \<and> streamSink s = None \<and> streamBuffer s = []
     \<and> seamErrors s = [] \<and> \<not> flushTimer s"

lemma gone_step:
  assumes "gone s"
  shows "gone (fst (stream_step s e)) \<and> list_all only_keys (snd (stream_step s e))"
proof (cases e)
  case (SeedSettled run outcome)
  then show ?thesis using assms
    by (auto simp: gone_def seed_settled_def after_capture_def report_error_def finish_cycle_def Let_def
        split: sum.splits seed_cycle.splits prod.splits)
next
  case (SendKeys keys)
  then show ?thesis using assms by (auto simp: stream_send_keys_def only_keys_def split: option.splits)
next
  case (SubscribeSettled outcome)
  then show ?thesis using assms
    by (auto simp: gone_def subscribe_settled_def report_error_def Let_def split: option.splits)
qed (use assms in \<open>auto simp: gone_def stream_attach_def stream_detach_def stream_reseed_def stream_dispose_def
    handle_pane_bytes_def flush_activity_def stream_on_reconnected_def handle_subscription_changed_def\<close>)

lemma gone_run: "gone s \<Longrightarrow> list_all only_keys (snd (run_steps stream_step s es)) \<and> gone (fst (run_steps stream_step s es))"
  by (induction es arbitrary: s) (simp_all add: gone_step)

text \<open>
  Disposing a stream releases what it holds, once: its byte sink, its client listeners, its
  subscription, its timer and its place with the scheduler. Nothing that settles or arrives
  afterwards reaches a sink or a listener or sends a command; only keys a caller still sends
  go out.
\<close>

theorem disposed_stream_is_silent:
  assumes "streamState s \<noteq> StreamDisposed"
  shows "let (s1, effs) = stream_dispose s in
    filter (\<lambda>e. e \<in> {DetachPaneSink, UnlistenToClient, ClearFlush, UnregisterTarget}) effs =
      [DetachPaneSink, UnlistenToClient] @ (if flushTimer s then [ClearFlush] else []) @ [UnregisterTarget]
    \<and> UnsubscribeSize (refresh_client_unsubscribe (subscription_name s)) \<in> set effs
    \<and> list_all only_keys (snd (run_steps stream_step s1 es))
    \<and> streamSink (fst (run_steps stream_step s1 es)) = None \<and> last_error (fst (run_steps stream_step s1 es)) = None"
proof -
  let ?s = "fst (stream_dispose s)"
  have "gone ?s" using assms by (simp add: gone_def stream_dispose_def Let_def case_prod_beta)
  from gone_run [OF this, of es] show ?thesis
    using assms by (auto simp: stream_dispose_def Let_def case_prod_beta gone_def last_error_def filter_empty_conv)
qed

lemma disposed_stream_is_silent_witness:
  "list_all only_keys (snd (run_steps stream_step (fst (stream_dispose (new_pane_stream (Num 1) 0)))
     [StreamAttach 0, PaneBytes (Num 1) ''x'', Reconnect, SendKeys [97]]))"
  using disposed_stream_is_silent [of "new_pane_stream (Num 1) 0" "[StreamAttach 0, PaneBytes (Num 1) ''x'', Reconnect, SendKeys [97]]"]
  by (simp add: new_pane_stream_def case_prod_beta)

end
