(* ===== verification/ReseedScheduler.thy ===== *)
theory ReseedScheduler
  imports PaneStream
begin

section \<open>The reseed scheduler\<close>

text \<open>
  \<open>stream/reseed-scheduler.ts\<close> of the package \<open>pane-terminal\<close>: one sweep at a time over the
  streams of a client, after a reconnect, the visible ones first, each awaited before the next.
  The world is the streams of one client with their scheduler. The fan-out of the client's
  \<open>reconnected\<close> event and the microtask it defers the sweep to are one step; which sinks are
  visible is an argument of the steps that read it.
\<close>

record reseed_sweep =
  sweepTodo :: "nat list"
  sweepAwaits :: "(nat \<times> nat) option"

record reseed_world =
  worldIds :: "nat list"
  worldStream :: "nat \<Rightarrow> pane_stream"
  registeredTargets :: "nat list"
  currentSweep :: "reseed_sweep option"

definition new_world :: reseed_world where
  "new_world =
     \<lparr>worldIds = [], worldStream = (\<lambda>t. new_pane_stream NaN 0), registeredTargets = [], currentSweep = None\<rparr>"

definition on_stream ::
    "nat \<Rightarrow> (pane_stream \<Rightarrow> pane_stream \<times> stream_effect list) \<Rightarrow> reseed_world \<Rightarrow> reseed_world \<times> (nat \<times> stream_effect) list" where
  "on_stream t f w =
     (let (s, e) = f (worldStream w t) in (w\<lparr>worldStream := (worldStream w)(t := s)\<rparr>, map (Pair t) e))"

text \<open>\<open>t.reseed()\<close>, and the run its promise waits for.\<close>

definition reseed_target :: "nat \<Rightarrow> reseed_world \<Rightarrow> reseed_world \<times> (nat \<times> stream_effect) list" where
  "reseed_target t w = on_stream t stream_reseed w"

definition reseed_promise :: "nat \<Rightarrow> reseed_world \<Rightarrow> (nat \<times> nat) option" where
  "reseed_promise t w =
     (let s = worldStream w t in
      if snd (stream_reseed s) = [] then None else Some (t, nextRun s))"

text \<open>The loop of \<open>dispatch\<close>, up to its next \<open>await\<close>.\<close>

fun dispatch_targets :: "nat set \<Rightarrow> nat list \<Rightarrow> reseed_world \<Rightarrow> reseed_world \<times> (nat \<times> stream_effect) list" where
  "dispatch_targets visible [] w = (w\<lparr>currentSweep := None\<rparr>, [])"
| "dispatch_targets visible (t # ts) w =
     (if t \<notin> set (registeredTargets w) then dispatch_targets visible ts w
      else if 2 \<le> stream_priority visible (worldStream w t) then dispatch_targets visible ts w
      else
        let (w1, e) = reseed_target t w
        in (w1\<lparr>currentSweep := Some \<lparr>sweepTodo = ts, sweepAwaits = reseed_promise t w\<rparr>\<rparr>, e))"

definition run_reseed :: "nat set \<Rightarrow> reseed_world \<Rightarrow> reseed_world \<times> (nat \<times> stream_effect) list" where
  "run_reseed visible w =
     (if currentSweep w \<noteq> None then (w, [])
      else
        dispatch_targets visible (sort_key (\<lambda>t. stream_priority visible (worldStream w t)) (registeredTargets w)) w)"

definition resume_sweep :: "nat set \<Rightarrow> reseed_world \<Rightarrow> reseed_world \<times> (nat \<times> stream_effect) list" where
  "resume_sweep visible w =
     (case currentSweep w of
        None \<Rightarrow> (w, [])
      | Some sw \<Rightarrow>
          (case sweepAwaits sw of
             None \<Rightarrow> dispatch_targets visible (sweepTodo sw) w
           | Some (t, run) \<Rightarrow>
               if run \<in> set (awaitingRuns (worldStream w t)) then (w, [])
               else dispatch_targets visible (sweepTodo sw) w))"

definition world_reconnected :: "reseed_world \<Rightarrow> reseed_world \<times> (nat \<times> stream_effect) list" where
  "world_reconnected w = run_steps (\<lambda>w t. on_stream t stream_on_reconnected w) w (worldIds w)"

datatype world_op =
    CreateStream nat jsnum int
  | OnStream nat stream_op
  | ClientReconnected "nat set"
  | SweepResumes "nat set"

fun world_step :: "reseed_world \<Rightarrow> world_op \<Rightarrow> reseed_world \<times> (nat \<times> stream_effect) list" where
  "world_step w (CreateStream t p hist) =
     (if t \<in> set (worldIds w) then (w, [])
      else
        let s = new_pane_stream p hist in
        (w\<lparr>worldIds := worldIds w @ [t], worldStream := (worldStream w)(t := s),
           registeredTargets := set_add t (registeredTargets w)\<rparr>, map (Pair t) (construct_effects s)))"
| "world_step w (OnStream t e) =
     (if t \<notin> set (worldIds w) then (w, [])
      else
        let (w1, effs) = on_stream t (\<lambda>s. stream_step s e) w in
        (if (t, UnregisterTarget) \<in> set effs
         then w1\<lparr>registeredTargets := set_delete t (registeredTargets w1)\<rparr> else w1, effs))"
| "world_step w (ClientReconnected visible) =
     (let (w1, e1) = world_reconnected w; (w2, e2) = run_reseed visible w1 in (w2, e1 @ e2))"
| "world_step w (SweepResumes visible) = resume_sweep visible w"

subsection \<open>Outdated streams\<close>

text \<open>
  The streams that show a picture from before the last reconnect and have not asked for a new
  one: attached, with no capture in flight, when it came, and no capture since.
\<close>

definition attached_idle :: "reseed_world \<Rightarrow> nat set" where
  "attached_idle w = {t \<in> set (worldIds w). streamSink (worldStream w t) \<noteq> None \<and> seedCycle (worldStream w t) = CycleIdle}"

fun is_capture :: "stream_effect \<Rightarrow> bool" where
  "is_capture (IssueCapture run c st) = True"
| "is_capture _ = False"

definition captured_streams :: "(nat \<times> stream_effect) list \<Rightarrow> nat set" where
  "captured_streams es = fst ` {e \<in> set es. is_capture (snd e)}"

definition next_outdated :: "nat set \<Rightarrow> reseed_world \<Rightarrow> world_op \<Rightarrow> nat set" where
  "next_outdated G w e =
     {t \<in> (case e of ClientReconnected visible \<Rightarrow> attached_idle w | _ \<Rightarrow> G) - captured_streams (snd (world_step w e)).
        streamSink (worldStream (fst (world_step w e)) t) \<noteq> None}"

fun outdated_after :: "nat set \<Rightarrow> reseed_world \<Rightarrow> world_op list \<Rightarrow> nat set" where
  "outdated_after G w [] = G"
| "outdated_after G w (e # es) = outdated_after (next_outdated G w e) (fst (world_step w e)) es"

text \<open>No reconnect comes while a sweep is under way.\<close>

fun reconnects_apart :: "reseed_world \<Rightarrow> world_op list \<Rightarrow> bool" where
  "reconnects_apart w [] = True"
| "reconnects_apart w (e # es) \<longleftrightarrow>
     (case e of ClientReconnected visible \<Rightarrow> currentSweep w = None | _ \<Rightarrow> True)
     \<and> reconnects_apart (fst (world_step w e)) es"

subsection \<open>Every stream reseeds\<close>

definition world_ok :: "reseed_world \<Rightarrow> bool" where
  "world_ok w \<longleftrightarrow>
     (\<forall>t\<in>set (worldIds w). (streamState (worldStream w t) = StreamDisposed \<longrightarrow> streamSink (worldStream w t) = None)
        \<and> (streamState (worldStream w t) \<noteq> StreamDisposed \<longrightarrow> t \<in> set (registeredTargets w)))"

definition outdated_ok :: "nat set \<Rightarrow> reseed_world \<Rightarrow> bool" where
  "outdated_ok G w \<longleftrightarrow>
     G \<subseteq> attached_idle w \<inter> (case currentSweep w of None \<Rightarrow> {} | Some sw \<Rightarrow> set (sweepTodo sw))"

lemma captured_simps [simp]:
  "captured_streams [] = {}" "captured_streams (xs @ ys) = captured_streams xs \<union> captured_streams ys"
  "captured_streams (x # xs) = (if is_capture (snd x) then {fst x} else {}) \<union> captured_streams xs"
  by (auto simp: captured_streams_def)

lemma captured_pair: "captured_streams (map (Pair t) es) = (if \<exists>e\<in>set es. is_capture e then {t} else {})"
  by (induction es) auto

text \<open>A step of a stream that leaves it with a capture in flight issued one.\<close>

lemma set_state_quiet [simp]: "\<not> (\<exists>e\<in>set (snd (set_state n s)). is_capture e)"
  "UnregisterTarget \<notin> set (snd (set_state n s))"
  by auto

lemma report_quiet [simp]: "\<not> (\<exists>e\<in>set (snd (report_error ph err s)). is_capture e)"
  "UnregisterTarget \<notin> set (snd (report_error ph err s))"
  by (auto simp: report_error_def)

lemma after_capture_idle:
  assumes "seedCycle s = CycleIdle"
  shows "seedCycle (fst (after_capture ok c l s)) = CycleIdle"
  using assms by (simp add: after_capture_def is_stale_def Let_def case_prod_beta split: option.splits)

lemma stays_idle:
  assumes "seedCycle s = CycleIdle" and "\<not> (\<exists>e'\<in>set (snd (stream_step s e)). is_capture e')"
  shows "seedCycle (fst (stream_step s e)) = CycleIdle"
proof (cases e)
  case (SeedSettled run outcome)
  then show ?thesis using assms(1)
    by (simp add: seed_settled_def finish_cycle_def Let_def case_prod_beta after_capture_idle split: sum.splits)
next
  case (PaneBytes now data)
  then show ?thesis using assms(1)
    by (auto simp: handle_pane_bytes_def Let_def case_prod_beta split: pane_stream_state.splits)
next
  case (SubscribeSettled outcome)
  then show ?thesis using assms(1) by (auto simp: subscribe_settled_def Let_def split: option.splits)
next
  case (SizeChanged ev)
  then show ?thesis using assms(1) by (auto simp: handle_subscription_changed_def split: option.splits)
qed (use assms in \<open>auto simp: stream_attach_def stream_detach_def stream_reseed_def stream_dispose_def
    flush_activity_def stream_on_reconnected_def start_seed_cycle_def Let_def case_prod_beta split: option.splits if_splits\<close>)

definition sinkless_end :: "pane_stream \<Rightarrow> bool" where
  "sinkless_end s \<longleftrightarrow> (streamState s = StreamDisposed \<longrightarrow> streamSink s = None)"

text \<open>Only a disposal unregisters, and it is final.\<close>

definition ends_well :: "pane_stream \<Rightarrow> pane_stream \<times> stream_effect list \<Rightarrow> bool" where
  "ends_well s r \<longleftrightarrow>
     (sinkless_end s \<longrightarrow> sinkless_end (fst r))
     \<and> (streamState s = StreamDisposed \<longrightarrow> streamState (fst r) = StreamDisposed)
     \<and> (UnregisterTarget \<in> set (snd r) \<longrightarrow> streamState (fst r) = StreamDisposed)"

lemma ends_well_quiet: "UnregisterTarget \<notin> set es \<Longrightarrow> streamState s' = streamState s \<Longrightarrow> streamSink s' = streamSink s \<Longrightarrow>
    ends_well s (s', es)"
  by (simp add: ends_well_def sinkless_end_def)

lemma after_capture_ends: "ends_well s (after_capture ok c l s)"
  by (auto simp: ends_well_def sinkless_end_def after_capture_def start_seed_cycle_def Let_def case_prod_beta
      split: option.splits)

lemma seed_settled_ends: "ends_well s (seed_settled run outcome s)"
proof -
  let ?s0 = "s\<lparr>awaitingRuns := filter (\<lambda>r. r \<noteq> run) (awaitingRuns s)\<rparr>"
  have "ends_well ?s0 (after_capture True c l ?s0)" for c l by (rule after_capture_ends)
  moreover have "ends_well (fst (report_error SeedPhase err ?s0)) (after_capture False c l (fst (report_error SeedPhase err ?s0)))"
    for err c l by (rule after_capture_ends)
  ultimately show ?thesis
    by (auto simp: seed_settled_def ends_well_def sinkless_end_def Let_def case_prod_beta split: sum.splits)
qed

lemma stream_step_ends: "ends_well s (stream_step s e)"
proof (cases e)
  case (SeedSettled run outcome)
  then show ?thesis by (simp add: seed_settled_ends)
next
  case (PaneBytes now data)
  then show ?thesis
    by (auto simp: ends_well_def sinkless_end_def handle_pane_bytes_def Let_def case_prod_beta
        split: pane_stream_state.splits option.splits)
next
  case (SubscribeSettled outcome)
  then show ?thesis
    by (auto simp: ends_well_def sinkless_end_def subscribe_settled_def Let_def split: option.splits)
next
  case (SizeChanged ev)
  then show ?thesis
    by (auto simp: ends_well_def sinkless_end_def handle_subscription_changed_def split: option.splits)
next
  case (SendKeys keys)
  then show ?thesis by (auto simp: ends_well_def stream_send_keys_def split: option.splits)
next
  case (StreamAttach k)
  then show ?thesis
    by (auto simp: ends_well_def sinkless_end_def stream_attach_def start_seed_cycle_def Let_def case_prod_beta
        split: option.splits)
qed (auto simp: ends_well_def sinkless_end_def stream_detach_def stream_reseed_def stream_dispose_def
    flush_activity_def stream_on_reconnected_def start_seed_cycle_def Let_def case_prod_beta)

lemma world_ok_sinkless: "world_ok w \<Longrightarrow> t \<in> set (worldIds w) \<Longrightarrow> sinkless_end (worldStream w t)"
  by (simp add: world_ok_def sinkless_end_def)

lemma on_stream_parts [simp]:
  "worldIds (fst (on_stream t f w)) = worldIds w" "registeredTargets (fst (on_stream t f w)) = registeredTargets w"
  "currentSweep (fst (on_stream t f w)) = currentSweep w"
  "worldStream (fst (on_stream t f w)) = (worldStream w)(t := fst (f (worldStream w t)))"
  "snd (on_stream t f w) = map (Pair t) (snd (f (worldStream w t)))"
  by (simp_all add: on_stream_def Let_def case_prod_beta)

subsection \<open>The sweep\<close>

lemma reseed_target_ok: "world_ok w \<Longrightarrow> world_ok (fst (reseed_target t w))"
  by (auto simp: world_ok_def reseed_target_def stream_reseed_def start_seed_cycle_def Let_def case_prod_beta)

lemma dispatch_ok: "world_ok w \<Longrightarrow> world_ok (fst (dispatch_targets vis ts w))"
proof (induction ts arbitrary: w)
  case (Cons t ts)
  then show ?case using reseed_target_ok [of w t]
    by (auto simp: Let_def case_prod_beta world_ok_def)
qed (simp add: world_ok_def)

lemma dispatch_ids [simp]: "worldIds (fst (dispatch_targets vis ts w)) = worldIds w"
  by (induction ts arbitrary: w) (simp_all add: reseed_target_def Let_def case_prod_beta)

lemma priority_attached: "2 \<le> stream_priority vis s \<longleftrightarrow> streamState s = StreamDisposed \<or> streamSink s = None"
  by (simp add: stream_priority_def split: option.splits)

lemma attached_registered:
  assumes "world_ok w" and "t \<in> attached_idle w"
  shows "t \<in> set (registeredTargets w)" "\<not> 2 \<le> stream_priority vis (worldStream w t)"
proof -
  have t: "t \<in> set (worldIds w)" "streamSink (worldStream w t) \<noteq> None" using assms(2) by (simp_all add: attached_idle_def)
  have w: "(streamState (worldStream w t) = StreamDisposed \<longrightarrow> streamSink (worldStream w t) = None)
      \<and> (streamState (worldStream w t) \<noteq> StreamDisposed \<longrightarrow> t \<in> set (registeredTargets w))"
    using assms(1) t(1) unfolding world_ok_def by (rule bspec)
  show "t \<in> set (registeredTargets w)" "\<not> 2 \<le> stream_priority vis (worldStream w t)"
    using t(2) w by (auto simp: priority_attached)
qed

text \<open>The loop leaves no outdated stream behind it.\<close>

lemma dispatch_outdated:
  assumes "world_ok w" and "G \<subseteq> attached_idle w \<inter> set ts"
  shows "outdated_ok (G - captured_streams (snd (dispatch_targets vis ts w))) (fst (dispatch_targets vis ts w))"
  using assms
proof (induction ts arbitrary: w)
  case Nil
  then show ?case by (simp add: outdated_ok_def)
next
  case (Cons t ts)
  let ?s = "worldStream w t"
  have skip: "t \<notin> G" if "t \<notin> set (registeredTargets w) \<or> 2 \<le> stream_priority vis ?s"
  proof
    assume "t \<in> G"
    then have "t \<in> attached_idle w" using Cons.prems(2) by blast
    then show False using that attached_registered [OF Cons.prems(1)] by blast
  qed
  show ?case
  proof (cases "t \<notin> set (registeredTargets w) \<or> 2 \<le> stream_priority vis ?s")
    case True
    then have "G \<subseteq> attached_idle w \<inter> set ts" using skip Cons.prems(2) by auto
    from Cons.IH [OF Cons.prems(1) this] show ?thesis using True by auto
  next
    case False
    then have live: "streamState ?s \<noteq> StreamDisposed" "streamSink ?s \<noteq> None" by (auto simp: priority_attached)
    have "t \<notin> G - captured_streams (snd (reseed_target t w))"
      using live Cons.prems(2)
      by (auto simp: reseed_target_def captured_pair stream_reseed_def start_seed_cycle_def Let_def case_prod_beta
          attached_idle_def)
    then show ?thesis
      using False Cons.prems(2)
      by (auto simp: outdated_ok_def Let_def case_prod_beta reseed_target_def attached_idle_def)
  qed
qed

lemma reconnected_parts:
  "worldIds (fst (run_steps (\<lambda>w t. on_stream t stream_on_reconnected w) w ts)) = worldIds w"
  "registeredTargets (fst (run_steps (\<lambda>w t. on_stream t stream_on_reconnected w) w ts)) = registeredTargets w"
  "currentSweep (fst (run_steps (\<lambda>w t. on_stream t stream_on_reconnected w) w ts)) = currentSweep w"
  "captured_streams (snd (run_steps (\<lambda>w t. on_stream t stream_on_reconnected w) w ts)) = {}"
  by (induction ts arbitrary: w) (auto simp: captured_pair stream_on_reconnected_def)

lemma reconnected_streams:
  fixes f :: "pane_stream \<Rightarrow> 'a"
  assumes "\<And>s. f (fst (stream_on_reconnected s)) = f s"
  shows "f (worldStream (fst (run_steps (\<lambda>w t. on_stream t stream_on_reconnected w) w ts)) t') = f (worldStream w t')"
  by (induction ts arbitrary: w) (simp_all add: assms)

lemma reconnected_fields:
  "streamState (fst (stream_on_reconnected s)) = streamState s" "streamSink (fst (stream_on_reconnected s)) = streamSink s"
  "(seedCycle (fst (stream_on_reconnected s)) = CycleIdle) = (seedCycle s = CycleIdle)"
  by (simp_all add: stream_on_reconnected_def split: seed_cycle.splits)

lemma world_reconnected_keeps:
  "worldIds (fst (world_reconnected w)) = worldIds w" "currentSweep (fst (world_reconnected w)) = currentSweep w"
  "registeredTargets (fst (world_reconnected w)) = registeredTargets w"
  "captured_streams (snd (world_reconnected w)) = {}"
  "attached_idle (fst (world_reconnected w)) = attached_idle w"
  "world_ok (fst (world_reconnected w)) = world_ok w"
  using reconnected_streams [of streamState, OF reconnected_fields(1)]
    reconnected_streams [of streamSink, OF reconnected_fields(2)]
    reconnected_streams [of "\<lambda>s. seedCycle s = CycleIdle", OF reconnected_fields(3)]
  by (simp_all add: world_reconnected_def reconnected_parts attached_idle_def world_ok_def)

lemma resume_ok: "world_ok w \<Longrightarrow> world_ok (fst (resume_sweep vis w))"
  by (simp add: resume_sweep_def dispatch_ok split: option.splits)

lemma run_reseed_ok: "world_ok w \<Longrightarrow> world_ok (fst (run_reseed vis w))"
  by (simp add: run_reseed_def dispatch_ok)

lemma on_stream_step_ok:
  assumes "world_ok w"
  shows "world_ok (fst (world_step w (OnStream t e)))"
proof (cases "t \<in> set (worldIds w)")
  case True
  let ?r = "stream_step (worldStream w t) e"
  have "ends_well (worldStream w t) ?r" by (rule stream_step_ends)
  then have "sinkless_end (fst ?r)" "UnregisterTarget \<in> set (snd ?r) \<Longrightarrow> streamState (fst ?r) = StreamDisposed"
    "streamState (fst ?r) \<noteq> StreamDisposed \<Longrightarrow> t \<in> set (registeredTargets w)"
    using world_ok_sinkless [OF assms True] assms True by (auto simp: ends_well_def world_ok_def)
  then show ?thesis
    using assms True by (auto simp: world_ok_def sinkless_end_def Let_def case_prod_beta)
qed (use assms in simp)

lemma world_step_ok: "world_ok w \<Longrightarrow> world_ok (fst (world_step w e))"
proof (cases e)
  case (CreateStream t p hist)
  then show "world_ok w \<Longrightarrow> world_ok (fst (world_step w e))"
    by (auto simp: world_ok_def new_pane_stream_def Let_def)
next
  case (OnStream t ev)
  then show "world_ok w \<Longrightarrow> world_ok (fst (world_step w e))" by (simp only: on_stream_step_ok)
qed (simp_all add: resume_ok run_reseed_ok world_reconnected_keeps Let_def case_prod_beta)

lemma on_stream_outdated:
  assumes "outdated_ok G w"
  shows "outdated_ok (next_outdated G w (OnStream t e)) (fst (world_step w (OnStream t e)))"
proof (cases "t \<in> set (worldIds w)")
  case True
  let ?s = "worldStream w t"
  have idle: "seedCycle (fst (stream_step ?s e)) = CycleIdle"
    if "t \<in> G" "\<not> (\<exists>e'\<in>set (snd (stream_step ?s e)). is_capture e')"
    using that assms stays_idle [of ?s e] by (auto simp: outdated_ok_def attached_idle_def)
  have sweep: "currentSweep (fst (world_step w (OnStream t e))) = currentSweep w"
    "worldStream (fst (world_step w (OnStream t e))) = (worldStream w)(t := fst (stream_step ?s e))"
    "worldIds (fst (world_step w (OnStream t e))) = worldIds w"
    "snd (world_step w (OnStream t e)) = map (Pair t) (snd (stream_step ?s e))"
    using True by (simp_all add: Let_def case_prod_beta)
  show ?thesis
    using assms idle unfolding outdated_ok_def next_outdated_def sweep attached_idle_def captured_pair
    by (auto split: if_splits)
next
  case False
  then show ?thesis using assms by (auto simp: outdated_ok_def next_outdated_def)
qed

lemma outdated_mono: "outdated_ok G w \<Longrightarrow> H \<subseteq> G \<Longrightarrow> outdated_ok H w"
  by (auto simp: outdated_ok_def)

lemma world_step_outdated:
  assumes "world_ok w" and "outdated_ok G w"
    and "case e of ClientReconnected visible \<Rightarrow> currentSweep w = None | _ \<Rightarrow> True"
  shows "outdated_ok (next_outdated G w e) (fst (world_step w e))"
proof (cases e)
  case (OnStream t ev)
  then show ?thesis using assms(2) by (simp only: on_stream_outdated)
next
  case (CreateStream t p hist)
  then show ?thesis using assms(2)
    by (auto simp: outdated_ok_def next_outdated_def attached_idle_def Let_def)
next
  case (ClientReconnected visible)
  let ?w = "fst (world_reconnected w)"
  let ?ts = "sort_key (\<lambda>t. stream_priority visible (worldStream ?w t)) (registeredTargets w)"
  have "attached_idle ?w \<subseteq> attached_idle ?w \<inter> set ?ts"
    using attached_registered(1) [OF assms(1)] by (auto simp: world_reconnected_keeps)
  from dispatch_outdated [OF _ this, of visible]
  have "outdated_ok (attached_idle w - captured_streams (snd (dispatch_targets visible ?ts ?w))) (fst (dispatch_targets visible ?ts ?w))"
    using assms(1) by (simp add: world_reconnected_keeps)
  then show ?thesis
    using ClientReconnected assms(3)
    by (auto simp: next_outdated_def run_reseed_def world_reconnected_keeps Let_def case_prod_beta intro: outdated_mono)
next
  case (SweepResumes visible)
  have "outdated_ok (G - captured_streams (snd (resume_sweep visible w))) (fst (resume_sweep visible w))"
  proof (cases "currentSweep w")
    case None
    then show ?thesis using assms(2) by (simp add: resume_sweep_def outdated_ok_def)
  next
    case (Some sw)
    then have "G \<subseteq> attached_idle w \<inter> set (sweepTodo sw)" using assms(2) by (simp add: outdated_ok_def)
    from dispatch_outdated [OF assms(1) this] show ?thesis
      using Some assms(2) by (auto simp: resume_sweep_def split: option.splits intro: outdated_mono)
  qed
  then show ?thesis using SweepResumes by (auto simp: next_outdated_def intro: outdated_mono)
qed

lemma world_run_outdated:
  "\<lbrakk>world_ok w; outdated_ok G w; reconnects_apart w es\<rbrakk> \<Longrightarrow>
     outdated_ok (outdated_after G w es) (fst (run_steps world_step w es))"
  by (induction es arbitrary: w G) (simp_all add: world_step_ok world_step_outdated)

text \<open>
  C37. After a reconnect every stream is brought up to date: when the sweep that it started has
  ended, each stream that was attached when it came, and still is, has asked tmux for a fresh
  capture since, or had one under way that the reconnect made stale, whatever attached,
  detached, was disposed or created in between; this needs that no other reconnect comes while
  the sweep is under way.
\<close>

theorem sweep_reseeds_everyone:
  assumes "reconnects_apart new_world es"
    and "currentSweep (fst (run_steps world_step new_world es)) = None"
  shows "outdated_after {} new_world es = {}"
proof -
  have "outdated_ok (outdated_after {} new_world es) (fst (run_steps world_step new_world es))"
    by (rule world_run_outdated [OF _ _ assms(1)]) (simp_all add: world_ok_def new_world_def outdated_ok_def)
  then show ?thesis using assms(2) by (simp add: outdated_ok_def)
qed

lemma sweep_reseeds_everyone_witness:
  "outdated_after {} new_world
     [CreateStream 0 (Num 0) 0, OnStream 0 (StreamAttach 0), OnStream 0 (SeedSettled 0 (Inr ([], []))),
      ClientReconnected {}, OnStream 0 (SeedSettled 1 (Inr ([], []))), SweepResumes {}] = {}"
proof -
  let ?es = "[CreateStream 0 (Num 0) 0, OnStream 0 (StreamAttach 0), OnStream 0 (SeedSettled 0 (Inr ([], []))),
      ClientReconnected {}, OnStream 0 (SeedSettled 1 (Inr ([], []))), SweepResumes {}]"
  have "reconnects_apart new_world ?es" "currentSweep (fst (run_steps world_step new_world ?es)) = None"
    by code_simp+
  then show ?thesis by (rule sweep_reseeds_everyone)
qed

subsection \<open>A reconnect during a sweep\<close>

text \<open>
  Nobody recaptures the stream on its own account: it is neither detached, reseeded by hand nor
  disposed of, and no reconnect starts a new sweep.
\<close>

fun left_alone :: "nat \<Rightarrow> reseed_world \<Rightarrow> world_op list \<Rightarrow> bool" where
  "left_alone t w [] = True"
| "left_alone t w (e # es) \<longleftrightarrow>
     (case e of
        ClientReconnected visible \<Rightarrow> currentSweep w \<noteq> None
      | OnStream u op \<Rightarrow> u \<noteq> t \<or> op \<notin> {StreamDetach, StreamReseed, StreamDispose}
      | _ \<Rightarrow> True)
     \<and> left_alone t (fst (world_step w e)) es"

text \<open>A stream that the sweep under way, if there is one, has passed or never saw.\<close>

definition passed :: "nat \<Rightarrow> reseed_world \<Rightarrow> bool" where
  "passed t w \<longleftrightarrow>
     t \<in> attached_idle w \<and> (case currentSweep w of None \<Rightarrow> True | Some sw \<Rightarrow> t \<notin> set (sweepTodo sw))"

lemma dispatch_others:
  assumes "t \<notin> set ts"
  shows "worldStream (fst (dispatch_targets vis ts w)) t = worldStream w t"
    "t \<notin> captured_streams (snd (dispatch_targets vis ts w))"
    "currentSweep (fst (dispatch_targets vis ts w)) = Some sw \<Longrightarrow> set (sweepTodo sw) \<subseteq> set ts"
  using assms
proof (induction ts arbitrary: w)
  case (Cons u us)
  { case 1 then show ?case using Cons.IH(1) by (simp add: Let_def case_prod_beta reseed_target_def) }
  { case 2 then show ?case using Cons.IH(2) by (simp add: Let_def case_prod_beta reseed_target_def captured_pair) }
  { case 3 then show ?case using Cons.IH(3) [of w] by (auto simp: Let_def case_prod_beta split: if_splits) }
qed simp_all

lemma dispatch_passed:
  assumes "t \<in> attached_idle w" and "t \<notin> set ts"
  shows "passed t (fst (dispatch_targets vis ts w)) \<and> t \<notin> captured_streams (snd (dispatch_targets vis ts w))"
  using assms dispatch_others [OF assms(2), of vis w]
  by (auto simp: passed_def attached_idle_def split: option.split)

lemma report_no_capture: "e \<in> set (snd (report_error ph err s)) \<Longrightarrow> \<not> is_capture e"
  using report_quiet(1) by blast

text \<open>An attached stream with no capture in flight starts one only when it is told to.\<close>

lemma untold_stays:
  assumes "streamSink s \<noteq> None" and "seedCycle s = CycleIdle" and "op \<notin> {StreamDetach, StreamReseed, StreamDispose}"
  shows "\<not> (\<exists>e\<in>set (snd (stream_step s op)). is_capture e)" "streamSink (fst (stream_step s op)) \<noteq> None"
proof -
  have "\<not> (\<exists>e\<in>set (snd (stream_step s op)). is_capture e) \<and> streamSink (fst (stream_step s op)) \<noteq> None"
  proof (cases op)
    case (SeedSettled run outcome)
    have a: "x \<in> set (snd (after_capture ok c l s)) \<Longrightarrow> seedCycle s = CycleIdle \<Longrightarrow> \<not> is_capture x"
      "streamSink (fst (after_capture ok c l s)) = streamSink s" for x s ok c l
      by (auto simp: after_capture_def is_stale_def Let_def case_prod_beta start_seed_cycle_def split: option.splits if_splits)
    show ?thesis
      using assms(1,2) SeedSettled
      by (auto simp: seed_settled_def a(2) Let_def case_prod_beta split: sum.splits dest: a(1) report_no_capture)
  next
    case (PaneBytes now data)
    then show ?thesis using assms(1)
      by (auto simp: handle_pane_bytes_def Let_def case_prod_beta split: pane_stream_state.splits)
  next
    case (SubscribeSettled outcome)
    then show ?thesis using assms(1)
      by (auto simp: subscribe_settled_def Let_def split: option.splits dest: report_no_capture)
  next
    case (SizeChanged ev)
    then show ?thesis using assms(1) by (auto simp: handle_subscription_changed_def split: option.splits)
  next
    case (SendKeys keys)
    then show ?thesis using assms(1) by (auto simp: stream_send_keys_def split: option.splits)
  qed (use assms in \<open>auto simp: stream_attach_def flush_activity_def stream_on_reconnected_def Let_def\<close>)
  then show "\<not> (\<exists>e\<in>set (snd (stream_step s op)). is_capture e)" "streamSink (fst (stream_step s op)) \<noteq> None"
    by simp_all
qed

lemma step_passed:
  assumes "passed t w" and "left_alone t w [e]"
  shows "passed t (fst (world_step w e)) \<and> t \<notin> captured_streams (snd (world_step w e))"
proof (cases e)
  case (CreateStream u p hist)
  then show ?thesis
    using assms(1)
    by (auto simp: passed_def attached_idle_def captured_pair construct_effects_def Let_def split: option.splits)
next
  case (OnStream u op)
  show ?thesis
  proof (cases "u = t \<and> u \<in> set (worldIds w)")
    case True
    let ?s = "worldStream w t"
    have s: "streamSink ?s \<noteq> None" "seedCycle ?s = CycleIdle" "op \<notin> {StreamDetach, StreamReseed, StreamDispose}"
      using assms True OnStream by (auto simp: passed_def attached_idle_def)
    have "seedCycle (fst (stream_step ?s op)) = CycleIdle" by (rule stays_idle [OF s(2) untold_stays(1) [OF s]])
    then show ?thesis
      using True OnStream assms(1) untold_stays [OF s]
      by (auto simp: passed_def attached_idle_def captured_pair Let_def case_prod_beta)
  next
    case False
    then show ?thesis
      using OnStream assms(1)
      by (auto simp: passed_def attached_idle_def captured_pair Let_def case_prod_beta)
  qed
next
  case (ClientReconnected visible)
  then have "currentSweep w \<noteq> None" using assms(2) by simp
  then show ?thesis
    using ClientReconnected assms(1)
    by (auto simp: passed_def run_reseed_def world_reconnected_keeps Let_def case_prod_beta)
next
  case (SweepResumes visible)
  show ?thesis
  proof (cases "currentSweep w")
    case None
    then show ?thesis using SweepResumes assms(1) by (simp add: resume_sweep_def)
  next
    case (Some sw)
    then have "t \<in> attached_idle w" "t \<notin> set (sweepTodo sw)" using assms(1) by (simp_all add: passed_def)
    from dispatch_passed [OF this, of visible] show ?thesis
      using SweepResumes Some assms(1) by (auto simp: resume_sweep_def split: option.splits)
  qed
qed

lemma run_passed:
  "passed t w \<Longrightarrow> left_alone t w es \<Longrightarrow> t \<in> G \<Longrightarrow>
     t \<in> outdated_after G w es \<and> t \<notin> captured_streams (snd (run_steps world_step w es))"
proof (induction es arbitrary: w G)
  case (Cons e es)
  have p: "passed t (fst (world_step w e))" "t \<notin> captured_streams (snd (world_step w e))"
    using step_passed [of t w e] Cons.prems by simp_all
  then have "t \<in> next_outdated G w e"
    using Cons.prems(1,3) by (auto simp: next_outdated_def passed_def attached_idle_def split: world_op.split)
  then show ?case using Cons.IH [OF p(1)] Cons.prems(2) p(2) by simp
qed simp

text \<open>
  C21. A reconnect that comes while a sweep is under way is lost on every stream the sweep is past:
  whatever the state of the streams and of the sweep, a stream that is attached, has no capture in
  flight and is not among those the sweep still has to visit is not captured by that reconnect,
  by the rest of the sweep nor by anything after it, and stays among the outdated streams, until
  it is detached, reseeded by hand or disposed of, or a later reconnect finds no sweep under way.
\<close>

theorem overlapping_reconnect_missed:
  assumes "currentSweep w = Some sw" and "t \<notin> set (sweepTodo sw)"
    and "t \<in> set (worldIds w)" and "streamSink (worldStream w t) \<noteq> None" and "seedCycle (worldStream w t) = CycleIdle"
    and "left_alone t (fst (world_step w (ClientReconnected visible))) es"
  shows "t \<in> outdated_after G w (ClientReconnected visible # es)
    \<and> t \<notin> captured_streams (snd (run_steps world_step w (ClientReconnected visible # es)))"
proof -
  have t: "passed t w" using assms(1-5) by (simp add: passed_def attached_idle_def)
  have alone: "left_alone t w [ClientReconnected visible]" using assms(1) by simp
  have p: "passed t (fst (world_step w (ClientReconnected visible)))"
    "t \<notin> captured_streams (snd (world_step w (ClientReconnected visible)))"
    using step_passed [OF t alone] by simp_all
  have "t \<in> next_outdated G w (ClientReconnected visible)"
    using t p by (simp add: next_outdated_def passed_def attached_idle_def)
  from run_passed [OF p(1) assms(6) this] p(2) show ?thesis
    by (simp only: outdated_after.simps run_steps.simps(2) Let_def case_prod_beta snd_conv captured_simps) simp
qed

text \<open>
  Two panes, and a second reconnect while the second pane's capture is in flight: when the sweep
  has ended, the first pane is live on the picture from before that reconnect.
\<close>

lemma overlapping_reconnect_missed_witness:
  "let es = [CreateStream 0 (Num 0) 0, CreateStream 1 (Num 1) 0, OnStream 0 (StreamAttach 0), OnStream 1 (StreamAttach 1),
             OnStream 0 (SeedSettled 0 (Inr ([], []))), OnStream 1 (SeedSettled 0 (Inr ([], []))),
             ClientReconnected {}, OnStream 0 (SeedSettled 1 (Inr ([], []))), SweepResumes {}];
       rest = [ClientReconnected {}, OnStream 1 (SeedSettled 1 (Inr ([], []))), OnStream 1 (SeedSettled 2 (Inr ([], []))),
             SweepResumes {}];
       w = fst (run_steps world_step new_world es); w' = fst (run_steps world_step w rest) in
     0 \<in> outdated_after {} w rest \<and> 0 \<notin> captured_streams (snd (run_steps world_step w rest))
     \<and> currentSweep w' = None \<and> streamState (worldStream w' 0) = StreamLive \<and> cachedSeed (worldStream w' 0) = None"
proof -
  let ?es = "[CreateStream 0 (Num 0) 0, CreateStream 1 (Num 1) 0, OnStream 0 (StreamAttach 0), OnStream 1 (StreamAttach 1),
             OnStream 0 (SeedSettled 0 (Inr ([], []))), OnStream 1 (SeedSettled 0 (Inr ([], []))),
             ClientReconnected {}, OnStream 0 (SeedSettled 1 (Inr ([], []))), SweepResumes {}]"
  let ?rest = "[OnStream 1 (SeedSettled 1 (Inr ([], []))), OnStream 1 (SeedSettled 2 (Inr ([], []))), SweepResumes {}]"
  let ?w = "fst (run_steps world_step new_world ?es)"
  let ?v = "fst (run_steps world_step ?w (ClientReconnected {} # ?rest))"
  have w: "currentSweep ?w = Some \<lparr>sweepTodo = [], sweepAwaits = Some (1, 1)\<rparr>" "0 \<in> set (worldIds ?w)"
    "streamSink (worldStream ?w 0) \<noteq> None" "seedCycle (worldStream ?w 0) = CycleIdle"
    "left_alone 0 (fst (world_step ?w (ClientReconnected {}))) ?rest"
    by code_simp+
  have v: "currentSweep ?v = None" "streamState (worldStream ?v 0) = StreamLive" "cachedSeed (worldStream ?v 0) = None"
    by code_simp+
  have "0 \<notin> set (sweepTodo \<lparr>sweepTodo = [], sweepAwaits = Some (1 :: nat, 1 :: nat)\<rparr>)" by simp
  from overlapping_reconnect_missed [OF w(1) this w(2-5), of "{}"] v show ?thesis
    unfolding Let_def by blast
qed

end
