(* ===== verification/XtermSink.thy ===== *)
theory XtermSink
  imports Complex_Main "HOL-Library.Sublist" SeedBuilder
begin

section \<open>The terminal sink\<close>

text \<open>
  \<open>xterm-sink/\<close> of the package \<open>pane-terminal\<close>: the renderer of a pane on a third-party
  terminal, whose calls are effects; the gate that holds content until the first resize; the
  visibility of the container; the font fit. The browser's callbacks, animation frames and
  observers, are operations. Lengths and font sizes are exact rationals.
\<close>

subsection \<open>The gate\<close>

record drain_batch =
  batchSeed :: "pane_seed option"
  batchWrites :: "string list"

record first_resize_gate =
  gateBuffering :: bool
  pendingSeed :: "pane_seed option"
  pendingWrites :: "string list"
  pendingWritesBytes :: nat
  capBytes :: nat

definition DEFAULT_PENDING_WRITES_CAP_BYTES :: nat where
  "DEFAULT_PENDING_WRITES_CAP_BYTES = 4 * 1024 * 1024"

definition new_resize_gate :: "nat \<Rightarrow> first_resize_gate" where
  "new_resize_gate cap =
     \<lparr>gateBuffering = True, pendingSeed = None, pendingWrites = [], pendingWritesBytes = 0, capBytes = cap\<rparr>"

definition gate_drain :: "first_resize_gate \<Rightarrow> first_resize_gate \<times> drain_batch" where
  "gate_drain g =
     (g\<lparr>gateBuffering := False, pendingSeed := None, pendingWrites := [], pendingWritesBytes := 0\<rparr>,
      \<lparr>batchSeed = pendingSeed g, batchWrites = pendingWrites g\<rparr>)"

text \<open>Buffering into an open gate throws.\<close>

definition buffer_seed :: "pane_seed \<Rightarrow> first_resize_gate \<Rightarrow> first_resize_gate option" where
  "buffer_seed content g = (if gateBuffering g then Some (g\<lparr>pendingSeed := Some content\<rparr>) else None)"

definition buffer_write :: "string \<Rightarrow> first_resize_gate \<Rightarrow> (first_resize_gate \<times> drain_batch option) option" where
  "buffer_write data g =
     (if \<not> gateBuffering g then None
      else
        let g1 = g\<lparr>pendingWrites := pendingWrites g @ [data],
                   pendingWritesBytes := pendingWritesBytes g + length data\<rparr> in
        if capBytes g1 < pendingWritesBytes g1
        then let (g2, batch) = gate_drain g1 in Some (g2, Some batch)
        else Some (g1, None))"

definition gate_release :: "first_resize_gate \<Rightarrow> first_resize_gate \<times> drain_batch" where
  "gate_release g = gate_drain g"

definition gate_dispose :: "first_resize_gate \<Rightarrow> first_resize_gate" where
  "gate_dispose g = g\<lparr>gateBuffering := False, pendingSeed := None, pendingWrites := [], pendingWritesBytes := 0\<rparr>"

subsection \<open>Fonts\<close>

record font_metrics =
  charW :: rat
  charH :: rat

record font_cache =
  metricsCache :: "(string \<times> font_metrics) list"
  inflightLoads :: "string list"

definition PROBE_FONT_SIZE :: rat where
  "PROBE_FONT_SIZE = 12"

definition key_for :: "string \<Rightarrow> string \<Rightarrow> string" where
  "key_for family weight = family @ ''|'' @ weight"

text \<open>What the page measures is an argument; without a layout the defaults stand in.\<close>

definition measured_metrics :: "rat \<times> rat \<Rightarrow> font_metrics" where
  "measured_metrics rect =
     (let (w, h) = rect; cw = w / 100 in
      if cw \<le> 0 \<or> h \<le> 0 then \<lparr>charW = 72 / 10, charH = 144 / 10\<rparr> else \<lparr>charW = cw, charH = h\<rparr>)"

datatype font_effect = LoadFont string

definition get_metrics ::
    "rat \<times> rat \<Rightarrow> bool \<Rightarrow> string \<Rightarrow> string \<Rightarrow> font_cache \<Rightarrow> (font_cache \<times> font_effect list) \<times> font_metrics" where
  "get_metrics rect canLoad family weight c =
     (let k = key_for family weight in
      case map_of (metricsCache c) k of
        Some hit \<Rightarrow> ((c, []), hit)
      | None \<Rightarrow>
          let measured = measured_metrics rect; c1 = c\<lparr>metricsCache := AList.update k measured (metricsCache c)\<rparr> in
          if k \<notin> set (inflightLoads c1) \<and> canLoad
          then ((c1\<lparr>inflightLoads := inflightLoads c1 @ [k]\<rparr>, [LoadFont k]), measured)
          else ((c1, []), measured))"

definition font_loaded :: "string \<Rightarrow> rat \<times> rat \<Rightarrow> font_cache \<Rightarrow> font_cache" where
  "font_loaded k rect c = c\<lparr>metricsCache := AList.update k (measured_metrics rect) (metricsCache c)\<rparr>"

record fit_inputs =
  fitCols :: int
  fitRows :: int
  containerW :: rat
  containerH :: rat
  fontMin :: int
  fontMax :: int

definition fit_font :: "font_metrics \<Rightarrow> fit_inputs \<Rightarrow> int" where
  "fit_font m i =
     (if fitCols i \<le> 0 \<or> fitRows i \<le> 0 \<or> containerW i \<le> 0 \<or> containerH i \<le> 0 then fontMin i
      else
        let maxByWidth = (containerW i / of_int (fitCols i)) * (PROBE_FONT_SIZE / charW m);
            maxByHeight = (containerH i / of_int (fitRows i)) * (PROBE_FONT_SIZE / charH m);
            ideal = \<lfloor>min maxByWidth maxByHeight\<rfloor> in
        if ideal < fontMin i then fontMin i else if fontMax i < ideal then fontMax i else ideal)"

subsection \<open>Visibility\<close>

record visibility_tracker =
  intersecting :: bool
  docVisible :: bool

definition new_visibility :: "bool \<Rightarrow> visibility_tracker" where
  "new_visibility hidden = \<lparr>intersecting = True, docVisible = \<not> hidden\<rparr>"

definition tracker_visible :: "visibility_tracker \<Rightarrow> bool" where
  "tracker_visible v \<longleftrightarrow> intersecting v \<and> docVisible v"

subsection \<open>The sink\<close>

record xterm_theme =
  themeBackground :: "string option"
  themeForeground :: "string option"

record xterm_sink =
  sinkCols :: int
  sinkRows :: int
  boxW :: rat
  boxH :: rat
  sinkDisposed :: bool
  firstResizeDone :: bool
  rafFirstResize :: bool
  rafResize :: bool
  sinkGate :: first_resize_gate
  sinkVisibility :: visibility_tracker
  sinkObserving :: bool
  minFont :: int
  maxFont :: int
  termFont :: int
  termTheme :: xterm_theme
  scrollsOwed :: nat

datatype frame_kind = FirstResizeFrame | FitFrame

datatype term_effect =
    TermWrite string
  | TermWriteThenScroll string
  | TermScrollToBottom
  | TermResize int int
  | TermClear
  | TermFocus
  | TermFont int
  | TermTheme xterm_theme
  | TermDispose
  | RequestFrame frame_kind
  | CancelFrame frame_kind
  | DisconnectObservers
  | GateThrows

definition theme_for :: "xterm_theme \<Rightarrow> xterm_theme \<Rightarrow> xterm_theme" where
  "theme_for old t =
     \<lparr>themeBackground = (case themeBackground t of None \<Rightarrow> themeBackground old | b \<Rightarrow> b),
      themeForeground = (case themeForeground t of None \<Rightarrow> themeForeground old | f \<Rightarrow> f)\<rparr>"

definition new_xterm_sink :: "int \<Rightarrow> int \<Rightarrow> int \<Rightarrow> xterm_theme \<Rightarrow> bool \<Rightarrow> xterm_sink" where
  "new_xterm_sink minF maxF px t hidden =
     \<lparr>sinkCols = 0, sinkRows = 0, boxW = 0, boxH = 0, sinkDisposed = False, firstResizeDone = False,
      rafFirstResize = False, rafResize = False, sinkGate = new_resize_gate DEFAULT_PENDING_WRITES_CAP_BYTES,
      sinkVisibility = new_visibility hidden, sinkObserving = True, minFont = minF, maxFont = maxF,
      termFont = px, termTheme = t, scrollsOwed = 0\<rparr>"

text \<open>The cursor position is a control sequence counted from one; the scroll follows the parsed write.\<close>

definition cup :: "seed_cursor \<Rightarrow> string" where
  "cup c = [ESC] @ ''['' @ int_str (cursorRow c + 1) @ '';'' @ int_str (cursorCol c + 1) @ ''H''"

definition apply_seed :: "pane_seed \<Rightarrow> xterm_sink \<Rightarrow> xterm_sink \<times> term_effect list" where
  "apply_seed sd s =
     (s\<lparr>scrollsOwed := scrollsOwed s + 1\<rparr>,
      case seedCursor sd of
        Some c \<Rightarrow> [TermWrite (seedBytes sd), TermWriteThenScroll (cup c)]
      | None \<Rightarrow> [TermWriteThenScroll (seedBytes sd)])"

definition perform_drain :: "drain_batch \<Rightarrow> xterm_sink \<Rightarrow> xterm_sink \<times> term_effect list" where
  "perform_drain batch s =
     (if sinkDisposed s then (s, [])
      else
        let (s1, e1) = (case batchSeed batch of None \<Rightarrow> (s, []) | Some sd \<Rightarrow> apply_seed sd s)
        in (s1, e1 @ map TermWrite (batchWrites batch)))"

definition sink_write :: "xterm_sink \<Rightarrow> string \<Rightarrow> xterm_sink \<times> term_effect list" where
  "sink_write s data =
     (if sinkDisposed s then (s, [])
      else if gateBuffering (sinkGate s) then
        (case buffer_write data (sinkGate s) of
           None \<Rightarrow> (s, [GateThrows])
         | Some (g, None) \<Rightarrow> (s\<lparr>sinkGate := g\<rparr>, [])
         | Some (g, Some batch) \<Rightarrow> perform_drain batch (s\<lparr>sinkGate := g\<rparr>))
      else (s, [TermWrite data]))"

definition sink_seed :: "pane_seed \<Rightarrow> string list \<Rightarrow> xterm_sink \<Rightarrow> xterm_sink \<times> term_effect list" where
  "sink_seed sd trailing s =
     (if sinkDisposed s then (s, [])
      else
        let (s1, e1) =
              (if gateBuffering (sinkGate s) then
                 (case buffer_seed sd (sinkGate s) of
                    None \<Rightarrow> (s, [GateThrows])
                  | Some g \<Rightarrow> (s\<lparr>sinkGate := g\<rparr>, []))
               else apply_seed sd s);
            (s2, e2) = run_steps sink_write s1 trailing
        in (s2, e1 @ e2))"

definition sink_resize :: "int \<Rightarrow> int \<Rightarrow> xterm_sink \<Rightarrow> xterm_sink \<times> term_effect list" where
  "sink_resize c r s =
     (if sinkDisposed s \<or> c \<le> 0 \<or> r \<le> 0 then (s, [])
      else
        let s1 = s\<lparr>sinkCols := c, sinkRows := r\<rparr> in
        if firstResizeDone s1 then (s1, [TermResize c r])
        else if rafFirstResize s1 then (s1, [])
        else (s1\<lparr>rafFirstResize := True\<rparr>, [RequestFrame FirstResizeFrame]))"

definition first_resize_frame :: "xterm_sink \<Rightarrow> xterm_sink \<times> term_effect list" where
  "first_resize_frame s =
     (if \<not> rafFirstResize s then (s, [])
      else
        let s1 = s\<lparr>rafFirstResize := False\<rparr> in
        if sinkDisposed s1 \<or> sinkCols s1 \<le> 0 \<or> sinkRows s1 \<le> 0 then (s1, [])
        else
          let (g, batch) = gate_release (sinkGate s1);
              (s2, e) = perform_drain batch (s1\<lparr>firstResizeDone := True, sinkGate := g\<rparr>)
          in (s2, TermResize (sinkCols s1) (sinkRows s1) # e))"

definition container_resized :: "rat \<Rightarrow> rat \<Rightarrow> xterm_sink \<Rightarrow> xterm_sink \<times> term_effect list" where
  "container_resized w h s =
     (if sinkDisposed s then (s, [])
      else
        let s1 = s\<lparr>boxW := w, boxH := h\<rparr> in
        if rafResize s1 then (s1, []) else (s1\<lparr>rafResize := True\<rparr>, [RequestFrame FitFrame]))"

definition set_font_size :: "int \<Rightarrow> xterm_sink \<Rightarrow> xterm_sink \<times> term_effect list" where
  "set_font_size px s =
     (if sinkDisposed s \<or> termFont s = px then (s, []) else (s\<lparr>termFont := px\<rparr>, [TermFont px]))"

definition flush_raf_resize :: "font_metrics \<Rightarrow> xterm_sink \<Rightarrow> xterm_sink \<times> term_effect list" where
  "flush_raf_resize m s =
     (if \<not> rafResize s then (s, [])
      else
        let s1 = s\<lparr>rafResize := False\<rparr> in
        if sinkDisposed s1 \<or> boxW s1 \<le> 0 \<or> boxH s1 \<le> 0 \<or> sinkCols s1 \<le> 0 \<or> sinkRows s1 \<le> 0 then (s1, [])
        else
          set_font_size
            (fit_font m \<lparr>fitCols = sinkCols s1, fitRows = sinkRows s1, containerW = boxW s1, containerH = boxH s1,
                         fontMin = minFont s1, fontMax = maxFont s1\<rparr>) s1)"

definition sink_visible :: "xterm_sink \<Rightarrow> bool" where
  "sink_visible s \<longleftrightarrow> \<not> sinkDisposed s \<and> tracker_visible (sinkVisibility s)"

definition sink_dispose :: "xterm_sink \<Rightarrow> xterm_sink \<times> term_effect list" where
  "sink_dispose s =
     (if sinkDisposed s then (s, [])
      else
        (s\<lparr>sinkDisposed := True, sinkGate := gate_dispose (sinkGate s), sinkObserving := False,
           rafResize := False, rafFirstResize := False\<rparr>,
         DisconnectObservers # (if rafResize s then [CancelFrame FitFrame] else [])
           @ (if rafFirstResize s then [CancelFrame FirstResizeFrame] else []) @ [TermDispose]))"

datatype sink_op =
    SinkSeeds pane_seed "string list"
  | SinkWrites string
  | SinkResizes int int
  | FirstFrame
  | ContainerBox rat rat
  | FitFrames font_metrics
  | SinkClears
  | SinkFocuses
  | SinkFont int
  | SinkTheme xterm_theme
  | WriteParsed
  | Intersects bool
  | DocVisibility bool
  | SinkDisposes

fun sink_step :: "xterm_sink \<Rightarrow> sink_op \<Rightarrow> xterm_sink \<times> term_effect list" where
  "sink_step s (SinkSeeds sd trailing) = sink_seed sd trailing s"
| "sink_step s (SinkWrites data) = sink_write s data"
| "sink_step s (SinkResizes c r) = sink_resize c r s"
| "sink_step s FirstFrame = first_resize_frame s"
| "sink_step s (ContainerBox w h) = container_resized w h s"
| "sink_step s (FitFrames m) = flush_raf_resize m s"
| "sink_step s SinkClears = (s, if sinkDisposed s then [] else [TermClear])"
| "sink_step s SinkFocuses = (s, if sinkDisposed s then [] else [TermFocus])"
| "sink_step s (SinkFont px) = set_font_size px s"
| "sink_step s (SinkTheme t) =
     (if sinkDisposed s then (s, [])
      else (s\<lparr>termTheme := theme_for (termTheme s) t\<rparr>, [TermTheme (theme_for (termTheme s) t)]))"
| "sink_step s WriteParsed =
     (if scrollsOwed s = 0 then (s, [])
      else (s\<lparr>scrollsOwed := scrollsOwed s - 1\<rparr>, if sinkDisposed s then [] else [TermScrollToBottom]))"
| "sink_step s (Intersects b) =
     (if sinkObserving s then (s\<lparr>sinkVisibility := (sinkVisibility s)\<lparr>intersecting := b\<rparr>\<rparr>, []) else (s, []))"
| "sink_step s (DocVisibility b) =
     (if sinkObserving s then (s\<lparr>sinkVisibility := (sinkVisibility s)\<lparr>docVisible := b\<rparr>\<rparr>, []) else (s, []))"
| "sink_step s SinkDisposes = sink_dispose s"

subsection \<open>The gate is bounded\<close>

definition gate_ok :: "first_resize_gate \<Rightarrow> bool" where
  "gate_ok g \<longleftrightarrow>
     pendingWritesBytes g = sum_list (map length (pendingWrites g)) \<and> pendingWritesBytes g \<le> capBytes g
     \<and> (gateBuffering g \<or> (pendingSeed g = None \<and> pendingWrites g = []))"

definition keeps_gate :: "xterm_sink \<Rightarrow> xterm_sink \<times> term_effect list \<Rightarrow> bool" where
  "keeps_gate s r \<longleftrightarrow>
     GateThrows \<notin> set (snd r) \<and> (gate_ok (sinkGate s) \<longrightarrow> gate_ok (sinkGate (fst r)))
     \<and> capBytes (sinkGate (fst r)) = capBytes (sinkGate s)"

lemma apply_seed_parts [simp]:
  "sinkGate (fst (apply_seed sd s)) = sinkGate s" "sinkDisposed (fst (apply_seed sd s)) = sinkDisposed s"
  "GateThrows \<notin> set (snd (apply_seed sd s))"
  by (simp_all add: apply_seed_def split: option.splits)

lemma perform_drain_parts [simp]:
  "sinkGate (fst (perform_drain b s)) = sinkGate s" "sinkDisposed (fst (perform_drain b s)) = sinkDisposed s"
  "GateThrows \<notin> set (snd (perform_drain b s))"
  by (auto simp: perform_drain_def Let_def case_prod_beta split: option.splits)

lemma gate_drain_parts [simp]:
  "gate_ok (fst (gate_drain g))" "capBytes (fst (gate_drain g)) = capBytes g"
  "\<not> gateBuffering (fst (gate_drain g))"
  by (simp_all add: gate_drain_def gate_ok_def)

lemma sink_write_keeps: "keeps_gate s (sink_write s data)"
  by (auto simp: sink_write_def keeps_gate_def buffer_write_def gate_drain_def gate_ok_def Let_def)

lemma sink_writes_keep: "keeps_gate s (run_steps sink_write s ds)"
proof (induction ds arbitrary: s)
  case (Cons d ds)
  then show ?case using sink_write_keeps [of s d] by (auto simp: keeps_gate_def)
qed (simp add: keeps_gate_def)

lemma sink_seed_keeps: "keeps_gate s (sink_seed sd trailing s)"
proof -
  let ?s = "if gateBuffering (sinkGate s) then s\<lparr>sinkGate := (sinkGate s)\<lparr>pendingSeed := Some sd\<rparr>\<rparr>
            else fst (apply_seed sd s)"
  have "gate_ok (sinkGate s) \<longrightarrow> gate_ok (sinkGate ?s)" "capBytes (sinkGate ?s) = capBytes (sinkGate s)"
    by (simp_all add: gate_ok_def)
  moreover have "keeps_gate ?s (run_steps sink_write ?s trailing)" by (rule sink_writes_keep)
  ultimately show ?thesis
    by (auto simp: sink_seed_def keeps_gate_def buffer_seed_def Let_def case_prod_beta split: if_splits)
qed

lemma sink_step_keeps: "keeps_gate s (sink_step s e)"
proof (cases e)
  case FirstFrame
  then show ?thesis
    by (simp add: keeps_gate_def first_resize_frame_def gate_release_def Let_def case_prod_beta)
next
  case (SinkSeeds sd trailing)
  then show ?thesis by (simp add: sink_seed_keeps)
next
  case (SinkWrites d)
  then show ?thesis by (simp add: sink_write_keeps)
qed (simp_all add: keeps_gate_def sink_resize_def container_resized_def
    flush_raf_resize_def set_font_size_def sink_dispose_def gate_dispose_def gate_ok_def Let_def)

lemma sink_run_keeps: "keeps_gate s (run_steps sink_step s es)"
proof (induction es arbitrary: s)
  case (Cons e es)
  then show ?case using sink_step_keeps [of s e] by (auto simp: keeps_gate_def)
qed (simp add: keeps_gate_def)

text \<open>
  C27. Whatever arrives before the first resize, and whether it ever comes, the sink never calls
  into an open gate, so nothing it buffers throws, what the gate holds is never more than four
  mebibytes of output and its counter is exact; once open it holds nothing.
\<close>

theorem gate_bounded:
  "let (s, es) = run_steps sink_step (new_xterm_sink minF maxF px t hidden) ops; g = sinkGate s in
     GateThrows \<notin> set es
     \<and> pendingWritesBytes g = sum_list (map length (pendingWrites g))
     \<and> sum_list (map length (pendingWrites g)) \<le> 4 * 1024 * 1024
     \<and> (gateBuffering g \<or> (pendingSeed g = None \<and> pendingWrites g = []))"
proof -
  let ?s = "new_xterm_sink minF maxF px t hidden"
  have "gate_ok (sinkGate ?s)" "capBytes (sinkGate ?s) = 4 * 1024 * 1024"
    by (simp_all add: new_xterm_sink_def new_resize_gate_def gate_ok_def DEFAULT_PENDING_WRITES_CAP_BYTES_def)
  then show ?thesis
    using sink_run_keeps [of ?s ops] by (auto simp: keeps_gate_def gate_ok_def case_prod_beta Let_def)
qed

subsection \<open>The order of the content\<close>

text \<open>What reaches the terminal, what the gate holds back, and what the producer handed over.\<close>

fun term_text :: "term_effect list \<Rightarrow> string" where
  "term_text [] = []"
| "term_text (TermWrite d # es) = d @ term_text es"
| "term_text (TermWriteThenScroll d # es) = d @ term_text es"
| "term_text (_ # es) = term_text es"

definition seed_text :: "pane_seed \<Rightarrow> string" where
  "seed_text sd = seedBytes sd @ (case seedCursor sd of None \<Rightarrow> [] | Some c \<Rightarrow> cup c)"

definition gate_text :: "first_resize_gate \<Rightarrow> string" where
  "gate_text g = (case pendingSeed g of None \<Rightarrow> [] | Some sd \<Rightarrow> seed_text sd) @ concat (pendingWrites g)"

text \<open>
  What the terminal ought to be given in the end: a snapshot that was held back and the content
  behind it. A snapshot that arrives while the gate holds replaces the one held, and the output
  that waits stays behind it; one that arrives later is content like any other. A disposed sink
  takes nothing.
\<close>

definition taken :: "xterm_sink \<Rightarrow> sink_op \<Rightarrow> string \<times> string \<Rightarrow> string \<times> string" where
  "taken s e content =
     (let (snap, out) = content in
      if sinkDisposed s then content
      else case e of
        SinkWrites d \<Rightarrow> (snap, out @ d)
      | SinkSeeds sd trailing \<Rightarrow>
          if gateBuffering (sinkGate s) then (seed_text sd, out @ concat trailing)
          else (snap, out @ seed_text sd @ concat trailing)
      | _ \<Rightarrow> content)"

fun intended :: "xterm_sink \<Rightarrow> string \<times> string \<Rightarrow> sink_op list \<Rightarrow> string \<times> string" where
  "intended s content [] = content"
| "intended s content (e # es) = intended (fst (sink_step s e)) (taken s e content) es"

definition passes :: "xterm_sink \<Rightarrow> string \<Rightarrow> xterm_sink \<times> term_effect list \<Rightarrow> bool" where
  "passes s d r \<longleftrightarrow>
     (\<not> sinkDisposed s \<and> gate_ok (sinkGate s) \<longrightarrow>
        \<not> sinkDisposed (fst r) \<and> gate_ok (sinkGate (fst r))
        \<and> gate_text (sinkGate s) @ d = term_text (snd r) @ gate_text (sinkGate (fst r)))"

lemma term_text_append [simp]: "term_text (xs @ ys) = term_text xs @ term_text ys"
  by (induction xs rule: term_text.induct) simp_all

lemma term_text_map [simp]: "term_text (map TermWrite ds) = concat ds"
  by (induction ds) simp_all

lemma term_text_seed [simp]: "term_text (snd (apply_seed sd s)) = seed_text sd"
  by (simp add: apply_seed_def seed_text_def split: option.splits)

lemma term_text_drain:
  "\<not> sinkDisposed s \<Longrightarrow> term_text (snd (perform_drain (snd (gate_drain g)) s)) = gate_text g"
  by (auto simp: perform_drain_def gate_drain_def gate_text_def Let_def case_prod_beta split: option.splits)

lemma gate_text_drained [simp]: "gate_text (fst (gate_drain g)) = []"
  by (simp add: gate_text_def gate_drain_def)

lemma passes_trans:
  "passes s d r \<Longrightarrow> passes (fst r) d' r' \<Longrightarrow> passes s (d @ d') (fst r', snd r @ snd r')"
  by (auto simp: passes_def) (metis append_assoc)

lemma gate_ok_open: "gate_ok g \<Longrightarrow> \<not> gateBuffering g \<Longrightarrow> gate_text g = []"
  by (auto simp: gate_ok_def gate_text_def)

lemma sink_write_passes: "passes s data (sink_write s data)"
proof -
  let ?g = "(sinkGate s)\<lparr>pendingWrites := pendingWrites (sinkGate s) @ [data],
                   pendingWritesBytes := pendingWritesBytes (sinkGate s) + length data\<rparr>"
  have t: "gate_text ?g = gate_text (sinkGate s) @ data" by (simp add: gate_text_def)
  show ?thesis
  proof (cases "sinkDisposed s \<or> \<not> gateBuffering (sinkGate s)")
    case True
    then show ?thesis by (auto simp: passes_def sink_write_def gate_ok_open)
  next
    case False
    then show ?thesis
      using t sink_write_keeps [of s data] term_text_drain [of "s\<lparr>sinkGate := fst (gate_drain ?g)\<rparr>" ?g]
      by (auto simp: passes_def keeps_gate_def sink_write_def buffer_write_def Let_def case_prod_beta)
  qed
qed

lemma sink_writes_pass: "passes s (concat ds) (run_steps sink_write s ds)"
proof (induction ds arbitrary: s)
  case (Cons d ds)
  then show ?case using passes_trans [OF sink_write_passes Cons.IH] by (simp add: passes_def)
qed (simp add: passes_def)

text \<open>The gate that still holds has let nothing through.\<close>

definition held_text :: "first_resize_gate \<Rightarrow> string" where
  "held_text g = (case pendingSeed g of None \<Rightarrow> [] | Some sd \<Rightarrow> seed_text sd)"

definition delivers :: "string \<times> string \<Rightarrow> string \<Rightarrow> xterm_sink \<Rightarrow> bool" where
  "delivers content shown s \<longleftrightarrow>
     gate_ok (sinkGate s) \<and> (firstResizeDone s \<or> sinkDisposed s \<longrightarrow> \<not> gateBuffering (sinkGate s))
     \<and> (if sinkDisposed s then \<exists>dropped. shown @ dropped = fst content @ snd content
        else shown @ gate_text (sinkGate s) = fst content @ snd content)
     \<and> (gateBuffering (sinkGate s) \<longrightarrow> shown = [] \<and> fst content = held_text (sinkGate s))"

lemma gate_text_held: "gate_text g = held_text g @ concat (pendingWrites g)"
  by (simp add: gate_text_def held_text_def)

lemma sink_write_holds:
  "gateBuffering (sinkGate (fst (sink_write s d))) \<Longrightarrow>
     gateBuffering (sinkGate s) \<and> (sinkDisposed s \<or> term_text (snd (sink_write s d)) = [])
     \<and> held_text (sinkGate (fst (sink_write s d))) = held_text (sinkGate s)"
  by (auto simp: sink_write_def buffer_write_def held_text_def Let_def gate_drain_def split: if_splits)

lemma sink_write_flags [simp]:
  "sinkDisposed (fst (sink_write s d)) = sinkDisposed s" "firstResizeDone (fst (sink_write s d)) = firstResizeDone s"
  by (auto simp: sink_write_def buffer_write_def perform_drain_def apply_seed_def Let_def case_prod_beta split: option.splits)

lemma sink_write_disposed [simp]: "sinkDisposed s \<Longrightarrow> sink_write s d = (s, [])"
  by (simp add: sink_write_def)

lemma delivers_write:
  assumes "delivers (snap, out) shown s" and "\<not> sinkDisposed s"
  shows "delivers (snap, out @ d) (shown @ term_text (snd (sink_write s d))) (fst (sink_write s d))"
  using assms sink_write_passes [of s d] sink_write_holds [of s d]
  by (auto simp: delivers_def passes_def) (metis append_assoc)+

lemma delivers_writes:
  assumes "delivers (snap, out) shown s" and "\<not> sinkDisposed s"
  shows "delivers (snap, out @ concat ds) (shown @ term_text (snd (run_steps sink_write s ds))) (fst (run_steps sink_write s ds))"
  using assms
proof (induction ds arbitrary: s out shown)
  case (Cons d ds)
  from Cons.IH [OF delivers_write [OF Cons.prems], of d] show ?case using Cons.prems(2) by simp
qed simp

lemma delivers_seed:
  assumes "delivers (snap, out) shown s" and "\<not> sinkDisposed s"
  shows "delivers (taken s (SinkSeeds sd trailing) (snap, out)) (shown @ term_text (snd (sink_seed sd trailing s)))
    (fst (sink_seed sd trailing s))"
proof (cases "gateBuffering (sinkGate s)")
  case True
  let ?s = "s\<lparr>sinkGate := (sinkGate s)\<lparr>pendingSeed := Some sd\<rparr>\<rparr>"
  have "delivers (seed_text sd, out) shown ?s"
    using assms True by (auto simp: delivers_def gate_ok_def gate_text_held held_text_def)
  from delivers_writes [OF this, of trailing] show ?thesis
    using assms(2) True by (simp add: sink_seed_def buffer_seed_def taken_def Let_def case_prod_beta)
next
  case False
  have "firstResizeDone (fst (apply_seed sd s)) = firstResizeDone s" by (simp add: apply_seed_def)
  then have "delivers (snap, out @ seed_text sd) (shown @ seed_text sd) (fst (apply_seed sd s))"
    using assms False by (auto simp: delivers_def gate_ok_open)
  from delivers_writes [OF this, of trailing] show ?thesis
    using assms(2) False by (simp add: sink_seed_def taken_def Let_def case_prod_beta)
qed

lemma delivers_same:
  assumes "delivers content shown s" and "sinkGate s' = sinkGate s" and "sinkDisposed s' = sinkDisposed s"
    and "firstResizeDone s' = firstResizeDone s" and "term_text es = []"
  shows "delivers content (shown @ term_text es) s'"
  using assms by (simp add: delivers_def)

lemma delivers_frame:
  assumes "delivers content shown s"
  shows "delivers content (shown @ term_text (snd (first_resize_frame s))) (fst (first_resize_frame s))"
proof -
  let ?s = "s\<lparr>rafFirstResize := False\<rparr>"
  have flags: "firstResizeDone (fst (perform_drain b s)) = firstResizeDone s" for b s
    by (auto simp: perform_drain_def apply_seed_def Let_def case_prod_beta split: option.split)
  show ?thesis
    using assms
    by (auto simp: first_resize_frame_def gate_release_def delivers_def flags term_text_drain gate_ok_open Let_def case_prod_beta)
qed

lemma step_delivers:
  assumes "delivers content shown s"
  shows "delivers (taken s e content) (shown @ term_text (snd (sink_step s e))) (fst (sink_step s e))"
proof (cases "sinkDisposed s")
  case True
  have "snd (sink_step s e) \<in> {[]} \<union> {[x] | x. term_text [x] = []} \<and> sinkGate (fst (sink_step s e)) = sinkGate s
      \<and> sinkDisposed (fst (sink_step s e)) \<and> firstResizeDone (fst (sink_step s e)) = firstResizeDone s"
    using True by (cases e) (auto simp: sink_seed_def sink_resize_def first_resize_frame_def container_resized_def
        flush_raf_resize_def set_font_size_def sink_dispose_def Let_def)
  then show ?thesis using True assms delivers_same [OF assms, of "fst (sink_step s e)" "snd (sink_step s e)"]
    by (auto simp: taken_def case_prod_beta)
next
  case False
  obtain snap out where c: "content = (snap, out)" by (cases content)
  note same = delivers_same [OF assms]
  show ?thesis
  proof (cases e)
    case (SinkSeeds sd trailing)
    then show ?thesis using delivers_seed [OF assms [unfolded c] False, of sd trailing] by (simp add: c)
  next
    case (SinkWrites d)
    then show ?thesis using delivers_write [OF assms [unfolded c] False, of d] False by (simp add: c taken_def)
  next
    case FirstFrame
    then show ?thesis using delivers_frame [OF assms] False by (simp add: c taken_def)
  next
    case SinkDisposes
    then show ?thesis
      using assms False by (auto simp: c taken_def delivers_def sink_dispose_def gate_dispose_def gate_ok_def)
  qed (use False same [of "fst (sink_step s e)" "snd (sink_step s e)"] in \<open>simp_all add: c taken_def sink_resize_def container_resized_def flush_raf_resize_def
      set_font_size_def Let_def\<close>)
qed

lemma run_delivers:
  "delivers content shown s \<Longrightarrow>
     delivers (intended s content es) (shown @ term_text (snd (run_steps sink_step s es))) (fst (run_steps sink_step s es))"
proof (induction es arbitrary: s content shown)
  case (Cons e es)
  from Cons.IH [OF step_delivers [OF Cons.prems, of e]] show ?case by simp
qed simp

text \<open>
  C28. The first resize delays the content and nothing else, over every history of seeds, output,
  resizes, frames and disposal: what a live sink's terminal was given, followed by what the gate
  still holds, is the snapshot held back and then all that was handed over behind it, in the
  order it came; a snapshot that arrives while the gate holds takes the place of the one held,
  ahead of the output that already waits, and every later one stands where it came. After the first resize nothing is
  held, and a disposed sink's terminal was given a prefix of it.
\<close>

theorem content_in_order:
  "let (s, es) = run_steps sink_step (new_xterm_sink minF maxF px t hidden) ops;
       (snap, out) = intended (new_xterm_sink minF maxF px t hidden) ([], []) ops in
     (if sinkDisposed s then prefix (term_text es) (snap @ out)
      else term_text es @ gate_text (sinkGate s) = snap @ out)
     \<and> \<not> (firstResizeDone s \<and> gate_text (sinkGate s) \<noteq> [])"
proof -
  let ?s = "new_xterm_sink minF maxF px t hidden"
  have "delivers ([], []) [] ?s"
    by (simp add: delivers_def new_xterm_sink_def new_resize_gate_def gate_ok_def gate_text_def held_text_def)
  from run_delivers [OF this, of ops] show ?thesis
    by (auto simp: delivers_def case_prod_beta gate_ok_open intro: prefixI [OF sym])
qed

text \<open>
  A second snapshot that arrives before the first resize, as after a reconnect, replaces
  the first one but not the output behind it: the terminal is given the new snapshot and then
  the older output, which the snapshot already shows.
\<close>

theorem late_seed_replays_older_output:
  "snd (run_steps sink_step (new_xterm_sink minF maxF px t hidden)
      [SinkSeeds old [], SinkWrites [ch], SinkSeeds new [], SinkResizes 80 24, FirstFrame]) =
    [RequestFrame FirstResizeFrame, TermResize 80 24]
      @ snd (apply_seed new (new_xterm_sink minF maxF px t hidden)) @ [TermWrite [ch]]"
  by (simp add: new_xterm_sink_def new_resize_gate_def sink_seed_def buffer_seed_def sink_write_def buffer_write_def
      DEFAULT_PENDING_WRITES_CAP_BYTES_def sink_resize_def first_resize_frame_def gate_release_def gate_drain_def
      perform_drain_def apply_seed_def Let_def run_steps.simps(2) split: option.splits)

subsection \<open>The font that fits\<close>

text \<open>
  The fitted font size is the largest in its range at which the grid fits the container:
  above the minimum the grid fits, and below the maximum one pixel more would not.
\<close>

theorem fitted_font_is_largest:
  assumes "0 < charW m" and "0 < charH m" and "0 < fitCols i" and "0 < fitRows i"
    and "0 < containerW i" and "0 < containerH i" and "fontMin i \<le> fontMax i"
  shows "let f = fit_font m i;
             fits = (\<lambda>px. of_int (fitCols i) * (charW m * of_int px / 12) \<le> containerW i
                         \<and> of_int (fitRows i) * (charH m * of_int px / 12) \<le> containerH i) in
    fontMin i \<le> f \<and> f \<le> fontMax i \<and> (fontMin i < f \<longrightarrow> fits f) \<and> (f < fontMax i \<longrightarrow> \<not> fits (f + 1))"
proof -
  let ?w = "(containerW i / of_int (fitCols i)) * (PROBE_FONT_SIZE / charW m)"
  let ?h = "(containerH i / of_int (fitRows i)) * (PROBE_FONT_SIZE / charH m)"
  let ?fits = "\<lambda>px. of_int (fitCols i) * (charW m * of_int px / 12) \<le> containerW i
                     \<and> of_int (fitRows i) * (charH m * of_int px / 12) \<le> containerH i"
  have cell: "of_int px \<le> (box / of_int n) * (PROBE_FONT_SIZE / c) \<longleftrightarrow> of_int n * (c * of_int px / 12) \<le> box"
    if "0 < n" "0 < c" for px n :: int and box c :: rat
    using that by (simp add: PROBE_FONT_SIZE_def field_simps)
  have fits: "?fits px \<longleftrightarrow> px \<le> \<lfloor>min ?w ?h\<rfloor>" for px
    using cell [OF assms(3,1)] cell [OF assms(4,2)] by (simp add: le_floor_iff)
  show ?thesis
    unfolding Let_def fits using assms by (auto simp: fit_font_def Let_def)
qed

lemma fitted_font_is_largest_witness:
  "fit_font \<lparr>charW = 6, charH = 12\<rparr>
     \<lparr>fitCols = 80, fitRows = 24, containerW = 600, containerH = 600, fontMin = 6, fontMax = 16\<rparr> = 15"
  using fitted_font_is_largest [of "\<lparr>charW = 6, charH = 12\<rparr>"
     "\<lparr>fitCols = 80, fitRows = 24, containerW = 600, containerH = 600, fontMin = 6, fontMax = 16\<rparr>"]
  by (simp add: fit_font_def PROBE_FONT_SIZE_def floor_eq_iff)

end
