(* ===== verification/Sinks.thy ===== *)
theory Sinks
  imports Topology "HOL-Library.Multiset"
begin

section \<open>Sinks: scopes, buckets and dispatch\<close>

text \<open>
  \<open>SinkRegistry\<close> of \<open>src/pane-output.ts\<close>. An attachment is its sequence number and the
  sink object, a number; a bucket is the Set of its attachments in attach order. A disposer
  is the pair of its attachment and scope: the bucket object it closes over is the scope's
  current bucket as long as it holds the attachment, since a bucket leaves its map only when
  it is empty. The calls on sinks are effects. A sink that attaches or disposes while it is
  written is an operation after the dispatch, which works on snapshots.
\<close>

record chunk =
  chunkPane :: jsnum
  chunkData :: "byte list"

datatype pane_scope = ServerScope | SessionScope jsnum | WindowScope jsnum | PaneScope jsnum

record attachment =
  seq :: nat
  sink :: nat

record registry =
  serverAttachments :: "attachment list"
  sessionAttachments :: "(jsnum \<times> attachment list) list"
  windowAttachments :: "(jsnum \<times> attachment list) list"
  paneAttachments :: "(jsnum \<times> attachment list) list"
  lastSeq :: nat

datatype admission = Live | Replay nat

datatype sink_effect = SinkWrite attachment chunk | SinkEnd attachment

definition new_registry :: registry where
  "new_registry =
     \<lparr>serverAttachments = [], sessionAttachments = [], windowAttachments = [],
      paneAttachments = [], lastSeq = 0\<rparr>"

definition bucket_at :: "jsnum \<Rightarrow> (jsnum \<times> attachment list) list \<Rightarrow> attachment list" where
  "bucket_at k m = (case map_of m k of None \<Rightarrow> [] | Some b \<Rightarrow> b)"

primrec get_bucket :: "pane_scope \<Rightarrow> registry \<Rightarrow> attachment list" where
  "get_bucket ServerScope r = serverAttachments r"
| "get_bucket (SessionScope k) r = bucket_at k (sessionAttachments r)"
| "get_bucket (WindowScope k) r = bucket_at k (windowAttachments r)"
| "get_bucket (PaneScope k) r = bucket_at k (paneAttachments r)"

primrec put_bucket :: "pane_scope \<Rightarrow> attachment list \<Rightarrow> registry \<Rightarrow> registry" where
  "put_bucket ServerScope b r = r\<lparr>serverAttachments := b\<rparr>"
| "put_bucket (SessionScope k) b r =
     r\<lparr>sessionAttachments := AList.update k b (sessionAttachments r)\<rparr>"
| "put_bucket (WindowScope k) b r =
     r\<lparr>windowAttachments := AList.update k b (windowAttachments r)\<rparr>"
| "put_bucket (PaneScope k) b r = r\<lparr>paneAttachments := AList.update k b (paneAttachments r)\<rparr>"

primrec prune_empty_bucket :: "pane_scope \<Rightarrow> registry \<Rightarrow> registry" where
  "prune_empty_bucket ServerScope r = r"
| "prune_empty_bucket (SessionScope k) r =
     r\<lparr>sessionAttachments := AList.delete k (sessionAttachments r)\<rparr>"
| "prune_empty_bucket (WindowScope k) r =
     r\<lparr>windowAttachments := AList.delete k (windowAttachments r)\<rparr>"
| "prune_empty_bucket (PaneScope k) r = r\<lparr>paneAttachments := AList.delete k (paneAttachments r)\<rparr>"

definition attach :: "nat \<Rightarrow> pane_scope \<Rightarrow> registry \<Rightarrow> registry \<times> attachment" where
  "attach s scope r =
     (let n = Suc (lastSeq r); a = \<lparr>seq = n, sink = s\<rparr>
      in (put_bucket scope (set_add a (get_bucket scope r)) (r\<lparr>lastSeq := n\<rparr>), a))"

definition dispose :: "attachment \<Rightarrow> pane_scope \<Rightarrow> registry \<Rightarrow> registry \<times> sink_effect list" where
  "dispose a scope r =
     (let b = get_bucket scope r in
      if a \<notin> set b then (r, [])
      else let b' = set_delete a b; r' = put_bucket scope b' r
           in (if b' = [] then prune_empty_bucket scope r' else r', [SinkEnd a]))"

definition has_topology_dependent_sinks :: "registry \<Rightarrow> bool" where
  "has_topology_dependent_sinks r \<longleftrightarrow>
     0 < length (sessionAttachments r) \<or> 0 < length (windowAttachments r)"

definition server_attachment_count :: "registry \<Rightarrow> nat" where
  "server_attachment_count r = length (serverAttachments r)"

definition session_attachment_count :: "jsnum \<Rightarrow> registry \<Rightarrow> nat" where
  "session_attachment_count k r = length (bucket_at k (sessionAttachments r))"

definition window_attachment_count :: "jsnum \<Rightarrow> registry \<Rightarrow> nat" where
  "window_attachment_count k r = length (bucket_at k (windowAttachments r))"

definition pane_attachment_count :: "jsnum \<Rightarrow> registry \<Rightarrow> nat" where
  "pane_attachment_count k r = length (bucket_at k (paneAttachments r))"

definition pane_scoped_pane_ids :: "registry \<Rightarrow> jsnum list" where
  "pane_scoped_pane_ids r = map fst (paneAttachments r)"

definition write_snapshot :: "attachment list \<Rightarrow> chunk \<Rightarrow> admission \<Rightarrow> sink_effect list" where
  "write_snapshot snap msg adm =
     map (\<lambda>a. SinkWrite a msg)
       (filter (\<lambda>a. case adm of Live \<Rightarrow> True | Replay by \<Rightarrow> seq a \<le> by) snap)"

definition dispatch ::
    "chunk \<Rightarrow> placed_pane option \<Rightarrow> admission \<Rightarrow> registry \<Rightarrow> sink_effect list" where
  "dispatch msg meta adm r =
     (let everyScope = (adm = Live);
          paneSnap = (if everyScope then bucket_at (chunkPane msg) (paneAttachments r) else []);
          windowSnap = (case meta of None \<Rightarrow> []
                        | Some m \<Rightarrow> bucket_at (pmWindow m) (windowAttachments r));
          sessionSnap = (case meta of None \<Rightarrow> []
                         | Some m \<Rightarrow> bucket_at (pmSession m) (sessionAttachments r));
          serverSnap = (if everyScope then serverAttachments r else [])
      in write_snapshot paneSnap msg adm @ write_snapshot windowSnap msg adm
         @ write_snapshot sessionSnap msg adm @ write_snapshot serverSnap msg adm)"

definition attach_seq :: "registry \<Rightarrow> nat" where
  "attach_seq r = lastSeq r"

definition end_all :: "registry \<Rightarrow> registry \<times> sink_effect list" where
  "end_all r =
     (let innerBuckets = map snd (sessionAttachments r) @ map snd (windowAttachments r)
            @ map snd (paneAttachments r);
          allSinks = serverAttachments r @ concat innerBuckets
      in (r\<lparr>serverAttachments := [], sessionAttachments := [], windowAttachments := [],
            paneAttachments := []\<rparr>, map SinkEnd allSinks))"

subsection \<open>The life of an attachment\<close>

datatype registry_op =
    Attach nat pane_scope
  | Dispose attachment pane_scope
  | Dispatch chunk "placed_pane option" admission
  | EndAll

fun registry_step :: "registry \<Rightarrow> registry_op \<Rightarrow> registry \<times> sink_effect list" where
  "registry_step r (Attach s scope) = (fst (attach s scope r), [])"
| "registry_step r (Dispose a scope) = dispose a scope r"
| "registry_step r (Dispatch msg meta adm) = (r, dispatch msg meta adm r)"
| "registry_step r EndAll = end_all r"

text \<open>The attachments alive in a registry, as a multiset.\<close>

definition buckets :: "(jsnum \<times> attachment list) list \<Rightarrow> attachment multiset" where
  "buckets m = mset (concat (map snd m))"

definition live :: "registry \<Rightarrow> attachment multiset" where
  "live r = mset (serverAttachments r) + buckets (sessionAttachments r)
     + buckets (windowAttachments r) + buckets (paneAttachments r)"

definition keys_ok :: "(jsnum \<times> attachment list) list \<Rightarrow> bool" where
  "keys_ok m \<longleftrightarrow> distinct (map fst m) \<and> (\<forall>k. map_of m k \<noteq> Some [])"

text \<open>
  The invariant: one bucket per key, no empty bucket kept, every attachment alive once and
  numbered within the sequence.
\<close>

definition registry_ok :: "registry \<Rightarrow> bool" where
  "registry_ok r \<longleftrightarrow>
     keys_ok (sessionAttachments r) \<and> keys_ok (windowAttachments r) \<and> keys_ok (paneAttachments r)
     \<and> (\<forall>a. count (live r) a \<le> 1) \<and> (\<forall>a\<in>#live r. 0 < seq a \<and> seq a \<le> lastSeq r)"

lemma bucket_split:
  assumes "distinct (map fst m)"
  shows "buckets m = buckets (AList.delete k m) + mset (bucket_at k m)"
  using assms
proof (induction m)
  case Nil
  then show ?case by (simp add: buckets_def bucket_at_def)
next
  case (Cons x m)
  obtain j b where x: "x = (j, b)" by (cases x)
  show ?case
  proof (cases "j = k")
    case True
    then have "AList.delete k m = m" using Cons.prems x by simp
    then show ?thesis using True by (simp add: x buckets_def bucket_at_def)
  next
    case False
    then have "bucket_at k (x # m) = bucket_at k m" by (simp add: x bucket_at_def)
    then show ?thesis using Cons False by (simp add: x buckets_def)
  qed
qed

lemma bucket_update:
  assumes "distinct (map fst m)"
  shows "buckets (AList.update k b m) = buckets (AList.delete k m) + mset b"
proof -
  have "distinct (map fst (AList.update k b m))" by (rule distinct_update [OF assms])
  from bucket_split [OF this, of k] show ?thesis
    by (simp add: bucket_at_def delete_update_same)
qed

lemma keys_ok_update [simp]: "keys_ok m \<Longrightarrow> b \<noteq> [] \<Longrightarrow> keys_ok (AList.update k b m)"
  by (simp add: keys_ok_def distinct_update)

lemma keys_ok_delete [simp]: "keys_ok m \<Longrightarrow> keys_ok (AList.delete k m)"
  by (simp add: keys_ok_def distinct_delete del: map_of_eq_Some_iff)

text \<open>The live attachments outside one scope's bucket.\<close>

primrec elsewhere :: "pane_scope \<Rightarrow> registry \<Rightarrow> attachment multiset" where
  "elsewhere ServerScope r =
     buckets (sessionAttachments r) + buckets (windowAttachments r) + buckets (paneAttachments r)"
| "elsewhere (SessionScope k) r =
     mset (serverAttachments r) + buckets (AList.delete k (sessionAttachments r))
     + buckets (windowAttachments r) + buckets (paneAttachments r)"
| "elsewhere (WindowScope k) r =
     mset (serverAttachments r) + buckets (sessionAttachments r)
     + buckets (AList.delete k (windowAttachments r)) + buckets (paneAttachments r)"
| "elsewhere (PaneScope k) r =
     mset (serverAttachments r) + buckets (sessionAttachments r)
     + buckets (windowAttachments r) + buckets (AList.delete k (paneAttachments r))"

definition registry_keys :: "registry \<Rightarrow> bool" where
  "registry_keys r \<longleftrightarrow>
     keys_ok (sessionAttachments r) \<and> keys_ok (windowAttachments r) \<and> keys_ok (paneAttachments r)"

lemma live_split:
  "registry_keys r \<Longrightarrow> live r = elsewhere scope r + mset (get_bucket scope r)"
  using bucket_split
  by (cases scope) (simp_all add: live_def registry_keys_def keys_ok_def ac_simps)

lemma live_put:
  "registry_keys r \<Longrightarrow> live (put_bucket scope b r) = elsewhere scope r + mset b"
  by (cases scope) (simp_all add: live_def registry_keys_def keys_ok_def bucket_update)

lemma live_prune:
  "live (prune_empty_bucket scope (put_bucket scope [] r)) = elsewhere scope r"
  by (cases scope) (simp_all add: live_def AList.delete_update_same)

lemma registry_keys_put: "registry_keys r \<Longrightarrow> b \<noteq> [] \<Longrightarrow> registry_keys (put_bucket scope b r)"
  by (cases scope) (simp_all add: registry_keys_def)

lemma registry_keys_prune:
  "registry_keys r \<Longrightarrow> registry_keys (prune_empty_bucket scope (put_bucket scope b r))"
  by (cases scope) (simp_all add: registry_keys_def AList.delete_update_same)

lemma lastSeq_simps [simp]:
  "lastSeq (put_bucket scope b r) = lastSeq r"
  "lastSeq (prune_empty_bucket scope r) = lastSeq r"
  by (cases scope; simp)+

lemma seq_update [simp]:
  "registry_keys (r\<lparr>lastSeq := n\<rparr>) = registry_keys r"
  "elsewhere scope (r\<lparr>lastSeq := n\<rparr>) = elsewhere scope r"
  "live (r\<lparr>lastSeq := n\<rparr>) = live r"
  by (simp_all add: registry_keys_def live_def) (cases scope; simp)

lemma attach_live:
  assumes "registry_ok r"
  shows "live (fst (attach s scope r)) = add_mset (snd (attach s scope r)) (live r)"
    and "registry_keys (fst (attach s scope r))"
    and "seq (snd (attach s scope r)) = Suc (lastSeq r)"
    and "lastSeq (fst (attach s scope r)) = Suc (lastSeq r)"
proof -
  define a where "a = \<lparr>seq = Suc (lastSeq r), sink = s\<rparr>"
  have k: "registry_keys r" using assms by (simp add: registry_ok_def registry_keys_def)
  have "a \<notin># live r" using assms by (auto simp: registry_ok_def a_def)
  then have "set_add a (get_bucket scope r) = get_bucket scope r @ [a]"
    using live_split [OF k, of scope] by (simp add: set_add_def)
  then have f: "attach s scope r =
      (put_bucket scope (get_bucket scope r @ [a]) (r\<lparr>lastSeq := Suc (lastSeq r)\<rparr>), a)"
    by (simp add: attach_def Let_def a_def)
  show "live (fst (attach s scope r)) = add_mset (snd (attach s scope r)) (live r)"
    using live_put [of "r\<lparr>lastSeq := Suc (lastSeq r)\<rparr>"] live_split [OF k, of scope] k
    by (simp add: f)
  show "registry_keys (fst (attach s scope r))" using k by (simp add: f registry_keys_put)
  show "seq (snd (attach s scope r)) = Suc (lastSeq r)"
    "lastSeq (fst (attach s scope r)) = Suc (lastSeq r)"
    by (simp_all add: f a_def)
qed

lemma mset_set_delete: "count (mset b) a \<le> 1 \<Longrightarrow> a \<in> set b \<Longrightarrow> mset (set_delete a b) = mset b - {#a#}"
  by (rule multiset_eqI) (auto simp: set_delete_def count_mset count_eq_zero_iff
      simp flip: count_mset intro: le_antisym)

lemma dispose_live:
  assumes "registry_ok r" and "a \<in> set (get_bucket scope r)"
  shows "live r = add_mset a (live (fst (dispose a scope r)))"
    and "registry_keys (fst (dispose a scope r))"
    and "snd (dispose a scope r) = [SinkEnd a]"
    and "lastSeq (fst (dispose a scope r)) = lastSeq r"
proof -
  let ?b = "get_bucket scope r"
  have k: "registry_keys r" using assms(1) by (simp add: registry_ok_def registry_keys_def)
  have "count (live r) a \<le> 1" using assms(1) by (simp add: registry_ok_def)
  then have "count (mset ?b) a \<le> 1" using live_split [OF k, of scope] by simp
  then have d: "mset ?b = add_mset a (mset (set_delete a ?b))"
    using assms(2) by (simp add: mset_set_delete)
  have l: "live (fst (dispose a scope r)) = elsewhere scope r + mset (set_delete a ?b)"
    using assms(2) live_put [OF k] live_prune [of scope r]
    by (simp add: dispose_def Let_def del: set_delete_empty)
  show "live r = add_mset a (live (fst (dispose a scope r)))"
    using live_split [OF k, of scope] d l by simp
  show "registry_keys (fst (dispose a scope r))"
    using assms(2) k registry_keys_prune registry_keys_put
    by (simp add: dispose_def Let_def del: set_delete_empty)
  show "snd (dispose a scope r) = [SinkEnd a]" "lastSeq (fst (dispose a scope r)) = lastSeq r"
    using assms(2) by (simp_all add: dispose_def Let_def)
qed

fun end_of :: "sink_effect \<Rightarrow> attachment option" where
  "end_of (SinkEnd a) = Some a"
| "end_of (SinkWrite a msg) = None"

fun target_of :: "sink_effect \<Rightarrow> attachment" where
  "target_of (SinkEnd a) = a"
| "target_of (SinkWrite a msg) = a"

definition ended :: "sink_effect list \<Rightarrow> attachment list" where
  "ended effs = List.map_filter end_of effs"

lemma ended_simps [simp]:
  "ended [] = []"
  "ended (e # es) = (case end_of e of None \<Rightarrow> [] | Some a \<Rightarrow> [a]) @ ended es"
  "ended (xs @ ys) = ended xs @ ended ys"
  by (simp_all add: ended_def map_filter_simps map_filter_def split: option.splits)

lemma ended_map [simp]: "ended (map SinkEnd xs) = xs" "ended (write_snapshot xs msg adm) = []"
proof -
  show "ended (map SinkEnd xs) = xs" by (induction xs) simp_all
  have "ended (map (\<lambda>a. SinkWrite a msg) ys) = []" for ys by (induction ys) simp_all
  then show "ended (write_snapshot xs msg adm) = []" by (simp add: write_snapshot_def)
qed

lemma ended_dispatch [simp]: "ended (dispatch msg meta adm r) = []"
  by (simp add: dispatch_def Let_def)

lemma write_snapshot_Nil [simp]: "write_snapshot [] msg adm = []"
  by (simp add: write_snapshot_def)

lemma bucket_live: "registry_keys r \<Longrightarrow> a \<in> set (get_bucket scope r) \<Longrightarrow> a \<in># live r"
  using live_split by (metis set_mset_mset union_iff)

lemma dispatch_live:
  assumes "registry_keys r" and "e \<in> set (dispatch msg meta adm r)"
  shows "target_of e \<in># live r"
proof -
  have w: "e \<in> set (write_snapshot snap msg adm) \<Longrightarrow> target_of e \<in> set snap" for snap adm
    by (auto simp: write_snapshot_def)
  obtain scope where "target_of e \<in> set (get_bucket scope r)"
  proof (cases meta)
    case None
    then have "target_of e \<in> set (get_bucket (PaneScope (chunkPane msg)) r) \<or>
        target_of e \<in> set (get_bucket ServerScope r)"
      using assms(2) w by (auto simp: dispatch_def Let_def split: if_splits)
    then show ?thesis using that by blast
  next
    case (Some m)
    then have "target_of e \<in> set (get_bucket (PaneScope (chunkPane msg)) r) \<or>
        target_of e \<in> set (get_bucket (WindowScope (pmWindow m)) r) \<or>
        target_of e \<in> set (get_bucket (SessionScope (pmSession m)) r) \<or>
        target_of e \<in> set (get_bucket ServerScope r)"
      using assms(2) w by (auto simp: dispatch_def Let_def split: if_splits)
    then show ?thesis using that by blast
  qed
  then show ?thesis by (rule bucket_live [OF assms(1)])
qed

text \<open>The law of a step: what ended and what is alive is what was alive and what was attached.\<close>

definition life_law :: "registry \<Rightarrow> sink_effect list \<Rightarrow> registry \<Rightarrow> bool" where
  "life_law r effs r' \<longleftrightarrow>
     lastSeq r \<le> lastSeq r' \<and>
     image_mset seq (mset (ended effs)) + image_mset seq (live r') =
       image_mset seq (live r) + mset [Suc (lastSeq r)..<Suc (lastSeq r')]"

lemma end_all_live:
  "live (fst (end_all r)) = {#}" "mset (ended (snd (end_all r))) = live r"
  "lastSeq (fst (end_all r)) = lastSeq r" "registry_keys (fst (end_all r))"
  by (simp_all add: end_all_def Let_def live_def buckets_def registry_keys_def keys_ok_def ac_simps)

lemma registry_step_law:
  assumes ok: "registry_ok r"
  shows "life_law r (snd (registry_step r op)) (fst (registry_step r op)) \<and>
    registry_ok (fst (registry_step r op))"
proof -
  have k: "registry_keys r" using ok by (simp add: registry_ok_def registry_keys_def)
  show ?thesis
  proof (cases op)
    case (Attach s scope)
    have "count (live r) (snd (attach s scope r)) = 0"
      using ok attach_live(3) [OF ok, of s scope]
      by (auto simp: registry_ok_def count_eq_zero_iff)
    then show ?thesis
      using Attach attach_live [OF ok, of s scope] ok
      by (auto simp: life_law_def registry_ok_def registry_keys_def)
  next
    case (Dispose a scope)
    show ?thesis
    proof (cases "a \<in> set (get_bucket scope r)")
      case True
      note d = dispose_live [OF ok True]
      have "count (live (fst (dispose a scope r))) b \<le> 1" for b
        using ok d(1) unfolding registry_ok_def by (metis count_add_mset le_SucI not_less_eq_eq order_trans)
      then show ?thesis
        using Dispose d ok by (auto simp: life_law_def registry_ok_def registry_keys_def)
    next
      case False
      then show ?thesis using Dispose ok by (simp add: dispose_def life_law_def Let_def)
    qed
  next
    case (Dispatch msg meta adm)
    then show ?thesis using ok by (simp add: life_law_def)
  next
    case EndAll
    then show ?thesis using end_all_live [of r] k
      by (simp add: life_law_def registry_ok_def registry_keys_def)
  qed
qed

interpretation registry: invariant_steps registry_step registry_ok
  by unfold_locales (use registry_step_law in blast)

lemma run_life_law:
  assumes "registry_ok r"
  shows "life_law r (snd (run_steps registry_step r ops)) (fst (run_steps registry_step r ops))"
  using assms
proof (induction ops arbitrary: r)
  case Nil
  then show ?case by (simp add: life_law_def)
next
  case (Cons op ops)
  define r1 where "r1 = fst (registry_step r op)"
  define r2 where "r2 = fst (run_steps registry_step r1 ops)"
  have s: "life_law r (snd (registry_step r op)) r1" and ok: "registry_ok r1"
    using registry_step_law [OF Cons.prems, of op] by (simp_all add: r1_def)
  have t: "life_law r1 (snd (run_steps registry_step r1 ops)) r2"
    using Cons.IH [OF ok] by (simp add: r2_def)
  have le: "lastSeq r \<le> lastSeq r1" "lastSeq r1 \<le> lastSeq r2" using s t by (simp_all add: life_law_def)
  have up: "mset [Suc (lastSeq r)..<Suc (lastSeq r2)] =
      mset [Suc (lastSeq r)..<Suc (lastSeq r1)] + mset [Suc (lastSeq r1)..<Suc (lastSeq r2)]"
    using le upt_add_eq_append [of "Suc (lastSeq r)" "Suc (lastSeq r1)" "lastSeq r2 - lastSeq r1"]
    by (simp flip: mset_append)
  have "image_mset seq (mset (ended (snd (run_steps registry_step r1 ops)))) + image_mset seq (live r2)
      = image_mset seq (live r1) + mset [Suc (lastSeq r1)..<Suc (lastSeq r2)]"
    using t by (simp add: life_law_def)
  moreover have "image_mset seq (mset (ended (snd (registry_step r op)))) + image_mset seq (live r1)
      = image_mset seq (live r) + mset [Suc (lastSeq r)..<Suc (lastSeq r1)]"
    using s by (simp add: life_law_def)
  ultimately have "image_mset seq (mset (ended (snd (registry_step r op)))) +
        image_mset seq (mset (ended (snd (run_steps registry_step r1 ops)))) + image_mset seq (live r2)
      = image_mset seq (live r) + mset [Suc (lastSeq r)..<Suc (lastSeq r2)]"
    unfolding up by (metis add.assoc)
  then show ?case
    using le unfolding life_law_def r1_def r2_def by simp
qed

lemma new_registry_ok: "registry_ok new_registry"
  by (simp add: registry_ok_def new_registry_def keys_ok_def live_def buckets_def)

text \<open>
  \<open>end\<close> is called exactly once per attachment: after any history of attaching, disposing
  (repeatedly, and after the sweep), dispatching and sweeping, the attachments that were ended
  and those still alive are together each attachment ever made, once. Right after the sweep
  of a closing transport none is alive.
\<close>

theorem sinks_end_once:
  "let (r, effs) = run_steps registry_step new_registry ops in
     mset (map seq (ended effs)) + image_mset seq (live r) = mset [1..<Suc (lastSeq r)]
     \<and> live (fst (end_all r)) = {#}
     \<and> mset (ended (snd (end_all r))) = live r"
proof -
  obtain r effs where run: "run_steps registry_step new_registry ops = (r, effs)" by fastforce
  have "life_law new_registry effs r"
    using run_life_law [OF new_registry_ok, of ops] by (simp add: run)
  moreover have "live new_registry = {#}" "lastSeq new_registry = 0"
    by (simp_all add: new_registry_def live_def buckets_def)
  ultimately show ?thesis
    using end_all_live(1,2) [of r] by (simp add: run life_law_def)
qed

text \<open>Which panes a scope admits, given where topology places the pane.\<close>

fun scope_admits :: "pane_scope \<Rightarrow> jsnum \<Rightarrow> placed_pane option \<Rightarrow> bool" where
  "scope_admits ServerScope p meta \<longleftrightarrow> True"
| "scope_admits (PaneScope q) p meta \<longleftrightarrow> q = p"
| "scope_admits (WindowScope w) p meta \<longleftrightarrow> (\<exists>m. meta = Some m \<and> pmWindow m = w)"
| "scope_admits (SessionScope s) p meta \<longleftrightarrow> (\<exists>m. meta = Some m \<and> pmSession m = s)"

text \<open>A replay admits only the topology scopes, and attachments older than the chunk.\<close>

fun admitted :: "admission \<Rightarrow> pane_scope \<Rightarrow> attachment \<Rightarrow> bool" where
  "admitted Live scope a \<longleftrightarrow> True"
| "admitted (Replay by) scope a \<longleftrightarrow>
     (\<exists>w. scope = WindowScope w \<or> scope = SessionScope w) \<and> seq a \<le> by"

lemma dispatch_iff:
  "SinkWrite a m \<in> set (dispatch msg meta adm r) \<longleftrightarrow>
     m = msg \<and> (\<exists>scope. a \<in> set (get_bucket scope r) \<and> scope_admits scope (chunkPane msg) meta
                 \<and> admitted adm scope a)"
proof -
  have ex: "(\<exists>scope. P scope) \<longleftrightarrow> P ServerScope \<or> (\<exists>k. P (SessionScope k)) \<or> (\<exists>k. P (WindowScope k))
      \<or> (\<exists>k. P (PaneScope k))" for P
    by (metis pane_scope.exhaust)
  show ?thesis
    unfolding ex
    by (cases adm; cases meta) (auto simp: dispatch_def Let_def write_snapshot_def)
qed

lemma dispatch_count:
  assumes "registry_ok r"
  shows "count (mset (map target_of (dispatch msg meta adm r))) a \<le> 1"
proof -
  have snap: "count (mset (map target_of (write_snapshot b m adm))) a \<le> count (mset b) a" for b m
  proof -
    have "mset (map target_of (write_snapshot b m adm)) \<subseteq># mset b"
      by (simp add: write_snapshot_def comp_def multiset_filter_subset)
    then show ?thesis by (simp add: mset_subset_eq_count)
  qed
  have at: "count (mset (bucket_at k m)) a \<le> count (buckets m) a" if "keys_ok m" for k m
    using that bucket_split [of m k] by (simp add: keys_ok_def)
  let ?f = "\<lambda>b. count (mset (map target_of (write_snapshot b msg adm))) a"
  have keys: "keys_ok (paneAttachments r)" "keys_ok (windowAttachments r)"
      "keys_ok (sessionAttachments r)"
    using assms by (simp_all add: registry_ok_def)
  have p: "?f (if adm = Live then bucket_at (chunkPane msg) (paneAttachments r) else [])
      \<le> count (buckets (paneAttachments r)) a"
    using order_trans [OF snap at [OF keys(1)]] by auto
  have w: "?f (case meta of None \<Rightarrow> [] | Some m \<Rightarrow> bucket_at (pmWindow m) (windowAttachments r))
      \<le> count (buckets (windowAttachments r)) a"
    using order_trans [OF snap at [OF keys(2)]] by (simp split: option.splits)
  have s: "?f (case meta of None \<Rightarrow> [] | Some m \<Rightarrow> bucket_at (pmSession m) (sessionAttachments r))
      \<le> count (buckets (sessionAttachments r)) a"
    using order_trans [OF snap at [OF keys(3)]] by (simp split: option.splits)
  have v: "?f (if adm = Live then serverAttachments r else []) \<le> count (mset (serverAttachments r)) a"
    using snap by auto
  have "count (mset (map target_of (dispatch msg meta adm r))) a \<le> count (live r) a"
    using p w s v
    by (simp only: dispatch_def Let_def live_def map_append mset_append count_union)
  also have "\<dots> \<le> 1" using assms by (simp add: registry_ok_def)
  finally show ?thesis .
qed

text \<open>
  A chunk is written exactly to the attachments alive whose scope admits the pane where
  topology places it now, once each; a replay reaches only window and session attachments
  that existed when the chunk arrived; and an attachment that has ended is not written.
\<close>

theorem dispatch_exact:
  "let r = fst (run_steps registry_step new_registry ops) in
     (SinkWrite a m \<in> set (dispatch msg meta adm r) \<longleftrightarrow>
        m = msg \<and> (\<exists>scope. a \<in> set (get_bucket scope r) \<and> scope_admits scope (chunkPane msg) meta
                    \<and> admitted adm scope a))
     \<and> count (mset (map target_of (dispatch msg meta adm r))) a \<le> of_bool (a \<in># live r)"
proof -
  define r where "r = fst (run_steps registry_step new_registry ops)"
  have ok: "registry_ok r" unfolding r_def by (rule registry.run_keeps [OF new_registry_ok])
  then have "registry_keys r" by (simp add: registry_ok_def registry_keys_def)
  then have "a \<notin># live r \<Longrightarrow> a \<notin> target_of ` set (dispatch msg meta adm r)"
    using dispatch_live by blast
  then have "count (mset (map target_of (dispatch msg meta adm r))) a \<le> of_bool (a \<in># live r)"
    using dispatch_count [OF ok, of msg meta adm a]
    by (cases "a \<in># live r") (simp_all add: count_eq_zero_iff)
  then show ?thesis by (simp add: r_def [symmetric] dispatch_iff)
qed

end
