(* ===== verification/LineSink.thy ===== *)
theory LineSink
  imports Records Sinks
begin

section \<open>Line sinks\<close>

text \<open>
  \<open>src/line-sink.ts\<close>: consumers of decoded lines of pane output. The consumers of one client
  share, per pane, one streaming \<open>TextDecoder\<close> and one buffer for the partial line; a chunk
  dispatched to several of them is decoded once, recognised by its identity, a number here.
  Text is a list of UTF-16 code units. A handler's own calls back into the registry come
  after the step that ran it.
\<close>

subsection \<open>The streaming decoder\<close>

record line_decoder =
  partialChar :: "utf8_state option"
  bomSeen :: bool

fun utf8_run :: "utf8_state option \<Rightarrow> nat list \<Rightarrow> nat list \<times> utf8_state option" where
  "utf8_run s [] = ([], s)"
| "utf8_run s (b # bs) = (let (ps, s1) = utf8_step s b; (qs, s2) = utf8_run s1 bs in (ps @ qs, s2))"

text \<open>\<open>decode(data, {stream: true})\<close> and the flush \<open>decode()\<close>.\<close>

definition stream_decode :: "nat list \<Rightarrow> line_decoder \<Rightarrow> nat list \<times> line_decoder" where
  "stream_decode bytes d =
     (let (ps, s) = utf8_run (partialChar d) bytes;
          qs = (if bomSeen d \<or> ps = [] \<or> hd ps \<noteq> 0xFEFF then ps else tl ps)
      in (concat (map utf16_units qs), \<lparr>partialChar = s, bomSeen = bomSeen d \<or> ps \<noteq> []\<rparr>))"

definition stream_flush :: "line_decoder \<Rightarrow> nat list" where
  "stream_flush d = (if partialChar d = None then [] else [0xFFFD])"

definition new_decoder :: line_decoder where
  "new_decoder = \<lparr>partialChar = None, bomSeen = False\<rparr>"

subsection \<open>The registry\<close>

record pane_lines =
  lineDecoder :: line_decoder
  lineBuffer :: "nat list"
  lastMsg :: "nat option"
  readyLines :: "nat list list"
  admittingConsumers :: "nat list"

definition new_pane_lines :: pane_lines where
  "new_pane_lines =
     \<lparr>lineDecoder = new_decoder, lineBuffer = [], lastMsg = None, readyLines = [], admittingConsumers = []\<rparr>"

record line_registry =
  perPane :: "(jsnum \<times> pane_lines) list"
  nextMsg :: nat

datatype line_event = Line nat jsnum "nat list"

text \<open>\<open>split("\<backslash>n")\<close>, and \<open>stripTrailingCR\<close>.\<close>

fun split_lines :: "nat list \<Rightarrow> nat list list" where
  "split_lines [] = [[]]"
| "split_lines (c # s) =
     (if c = 10 then [] # split_lines s
      else (case split_lines s of [] \<Rightarrow> [[c]] | p # ps \<Rightarrow> (c # p) # ps))"

definition strip_trailing_cr :: "nat list \<Rightarrow> nat list" where
  "strip_trailing_cr s = (if s \<noteq> [] \<and> last s = 13 then butlast s else s)"

definition decode_chunk :: "nat \<Rightarrow> nat list \<Rightarrow> pane_lines \<Rightarrow> pane_lines" where
  "decode_chunk msg data st =
     (if lastMsg st = Some msg then st
      else
        let (txt, d) = stream_decode data (lineDecoder st); parts = split_lines (lineBuffer st @ txt) in
        st\<lparr>lastMsg := Some msg, lineDecoder := d, lineBuffer := last parts,
           readyLines := map strip_trailing_cr (butlast parts)\<rparr>)"

definition line_write :: "nat \<Rightarrow> nat list \<Rightarrow> jsnum \<Rightarrow> line_registry \<Rightarrow> nat \<Rightarrow> line_registry \<times> line_event list" where
  "line_write msg data p r consumer =
     (let st = (case map_of (perPane r) p of None \<Rightarrow> new_pane_lines | Some st \<Rightarrow> st);
          st1 = decode_chunk msg data st;
          st2 = st1\<lparr>admittingConsumers := set_add consumer (admittingConsumers st1)\<rparr>
      in (r\<lparr>perPane := AList.update p st2 (perPane r)\<rparr>, map (Line consumer p) (readyLines st2)))"

definition line_end_pane :: "nat \<Rightarrow> line_registry \<Rightarrow> jsnum \<times> pane_lines \<Rightarrow> line_registry \<times> line_event list" where
  "line_end_pane consumer r entry =
     (let (p, st) = entry in
      if consumer \<notin> set (admittingConsumers st) then (r, [])
      else
        let rest = set_delete consumer (admittingConsumers st) in
        if rest \<noteq> [] then (r\<lparr>perPane := AList.update p (st\<lparr>admittingConsumers := rest\<rparr>) (perPane r)\<rparr>, [])
        else
          let final = strip_trailing_cr (lineBuffer st @ stream_flush (lineDecoder st)) in
          (r\<lparr>perPane := AList.delete p (perPane r)\<rparr>, if final \<noteq> [] then [Line consumer p final] else []))"

definition line_end :: "nat \<Rightarrow> line_registry \<Rightarrow> line_registry \<times> line_event list" where
  "line_end consumer r = run_steps (line_end_pane consumer) r (perPane r)"

text \<open>A chunk dispatched to the consumers that admit its pane, in order, is one message object.\<close>

datatype line_op = LineChunk jsnum "nat list" "nat list" | LineEnd nat

fun line_step :: "line_registry \<Rightarrow> line_op \<Rightarrow> line_registry \<times> line_event list" where
  "line_step r (LineChunk p data cs) =
     run_steps (line_write (nextMsg r) data p) (r\<lparr>nextMsg := nextMsg r + 1\<rparr>) cs"
| "line_step r (LineEnd c) = line_end c r"

definition new_line_registry :: line_registry where
  "new_line_registry = \<lparr>perPane = [], nextMsg = 0\<rparr>"

subsection \<open>Decoding and splitting by pieces\<close>

lemma utf8_run_append:
  "utf8_run s (a @ b) = (let (ps, s1) = utf8_run s a; (qs, s2) = utf8_run s1 b in (ps @ qs, s2))"
  by (induction a arbitrary: s) (simp_all add: Let_def case_prod_beta)

lemma stream_decode_append:
  "stream_decode (a @ b) d =
     (let (t, d1) = stream_decode a d; (u, d2) = stream_decode b d1 in (t @ u, d2))"
  by (auto simp: stream_decode_def utf8_run_append Let_def case_prod_beta hd_append)

lemma stream_decode_Nil [simp]: "stream_decode [] d = ([], d)"
  by (simp add: stream_decode_def)

lemma split_lines_nonempty [simp]: "split_lines s \<noteq> []"
  by (induction s) (auto split: list.splits)

lemma split_lines_append:
  "split_lines (s @ t) = butlast (split_lines s) @ split_lines (last (split_lines s) @ t)"
proof (induction s)
  case (Cons c s)
  obtain p ps where ps: "split_lines s = p # ps" by (cases "split_lines s") auto
  show ?case
  proof (cases "c = 10")
    case True
    then show ?thesis using Cons by simp
  next
    case False
    then show ?thesis using Cons ps by (cases "ps = []") (auto split: list.splits)
  qed
qed simp

lemma split_lines_rest: "split_lines (last (split_lines s)) = [last (split_lines s)]"
proof (induction s)
  case (Cons c s)
  obtain p ps where ps: "split_lines s = p # ps" by (cases "split_lines s") auto
  then show ?case using Cons by (cases "ps = []") auto
qed simp

subsection \<open>Chunks\<close>

text \<open>What one chunk makes of a pane's state, and the lines \<open>c\<close> is handed for a pane.\<close>

definition lines_of :: "nat \<Rightarrow> jsnum \<Rightarrow> line_event list \<Rightarrow> nat list list" where
  "lines_of c p evs = concat (map (\<lambda>e. case e of Line c' p' l \<Rightarrow> if c' = c \<and> p' = p then [l] else []) evs)"

definition pane_state :: "jsnum \<Rightarrow> line_registry \<Rightarrow> pane_lines" where
  "pane_state p r = (case map_of (perPane r) p of None \<Rightarrow> new_pane_lines | Some st \<Rightarrow> st)"

lemma lines_of_simps [simp]:
  "lines_of c p [] = []" "lines_of c p (xs @ ys) = lines_of c p xs @ lines_of c p ys"
  "lines_of c p (Line c' p' l # es) = (if c' = c \<and> p' = p then [l] else []) @ lines_of c p es"
  by (simp_all add: lines_of_def)

lemma lines_of_map [simp]:
  "lines_of c p (map (Line c' p') ls) = (if c' = c \<and> p' = p then ls else [])"
  by (induction ls) auto

lemma decode_again: "lastMsg st = Some m \<Longrightarrow> decode_chunk m data st = st"
  by (simp add: decode_chunk_def)

lemma lastMsg_decode [simp]: "lastMsg (decode_chunk m data st) = Some m"
  by (simp add: decode_chunk_def Let_def case_prod_beta)

lemma admitting_decode [simp]: "admittingConsumers (decode_chunk m data st) = admittingConsumers st"
  by (simp add: decode_chunk_def Let_def case_prod_beta)

lemma decode_admit [simp]:
  "decode_chunk m data (st\<lparr>admittingConsumers := a\<rparr>) = (decode_chunk m data st)\<lparr>admittingConsumers := a\<rparr>"
  by (simp add: decode_chunk_def Let_def case_prod_beta)

lemma line_write_eq:
  "line_write m data p r c =
     (let st = decode_chunk m data (pane_state p r) in
      (r\<lparr>perPane := AList.update p (st\<lparr>admittingConsumers := set_add c (admittingConsumers st)\<rparr>) (perPane r)\<rparr>,
       map (Line c p) (readyLines st)))"
  by (simp add: line_write_def pane_state_def Let_def)

lemma pane_state_put [simp]: "pane_state p (r\<lparr>perPane := AList.update p st m\<rparr>) = st"
  by (simp add: pane_state_def)

lemma writes_decode_once:
  assumes "cs \<noteq> []"
  shows "map_of (perPane (fst (run_steps (line_write m data p) r cs))) =
      (map_of (perPane r))(p \<mapsto> (decode_chunk m data (pane_state p r))
        \<lparr>admittingConsumers := foldl (\<lambda>a c. set_add c a) (admittingConsumers (pane_state p r)) cs\<rparr>)"
    (is ?state)
    and "snd (run_steps (line_write m data p) r cs) =
      concat (map (\<lambda>c. map (Line c p) (readyLines (decode_chunk m data (pane_state p r)))) cs)" (is ?lines)
proof -
  have "?state \<and> ?lines"
    using assms
  proof (induction cs arbitrary: r)
    case (Cons c cs)
    let ?st = "decode_chunk m data (pane_state p r)"
    let ?r = "fst (line_write m data p r c)"
    show ?case
      using Cons.IH [of ?r]
      by (cases "cs = []") (simp_all add: line_write_eq Let_def decode_again fun_eq_iff)
  qed simp
  then show ?state ?lines by simp_all
qed

subsection \<open>Ends\<close>

definition final_lines :: "pane_lines \<Rightarrow> nat list list" where
  "final_lines st =
     (let f = strip_trailing_cr (lineBuffer st @ stream_flush (lineDecoder st)) in if f \<noteq> [] then [f] else [])"

definition ended_pane :: "nat \<Rightarrow> pane_lines \<Rightarrow> pane_lines option" where
  "ended_pane c st =
     (if c \<notin> set (admittingConsumers st) then Some st
      else if set (admittingConsumers st) \<subseteq> {c} then None
      else Some (st\<lparr>admittingConsumers := set_delete c (admittingConsumers st)\<rparr>))"

lemma line_end_pane_elsewhere:
  "p \<noteq> q \<Longrightarrow> map_of (perPane (fst (line_end_pane c r (q, st)))) p = map_of (perPane r) p"
  "p \<noteq> q \<Longrightarrow> lines_of d p (snd (line_end_pane c r (q, st))) = []"
  by (simp_all add: line_end_pane_def Let_def)

lemma line_end_pane_here:
  "map_of (perPane r) p = Some st \<Longrightarrow> map_of (perPane (fst (line_end_pane c r (p, st)))) p = ended_pane c st"
  "lines_of d p (snd (line_end_pane c r (p, st))) = (if d = c \<and> ended_pane c st = None then final_lines st else [])"
  by (auto simp: line_end_pane_def ended_pane_def final_lines_def Let_def)

lemma line_end_pane_keys:
  "distinct (map fst (perPane r)) \<Longrightarrow> distinct (map fst (perPane (fst (line_end_pane c r e))))"
  by (cases e) (simp add: line_end_pane_def Let_def distinct_update distinct_delete)

lemma line_end_pane_nextMsg [simp]: "nextMsg (fst (line_end_pane c r e)) = nextMsg r"
  by (cases e) (simp add: line_end_pane_def Let_def)

lemma run_line_end_pane:
  "\<lbrakk>distinct (map fst es); \<forall>p \<in> fst ` set es. map_of es p = map_of (perPane r) p\<rbrakk> \<Longrightarrow>
     map_of (perPane (fst (run_steps (line_end_pane c) r es))) p =
       (if p \<in> fst ` set es then Option.bind (map_of (perPane r) p) (ended_pane c) else map_of (perPane r) p) \<and>
     lines_of d p (snd (run_steps (line_end_pane c) r es)) =
       (case map_of es p of None \<Rightarrow> [] | Some st \<Rightarrow> if d = c \<and> ended_pane c st = None then final_lines st else [])"
proof (induction es arbitrary: r)
  case (Cons e es)
  obtain q st where e: "e = (q, st)" by force
  have q: "map_of (perPane r) q = Some st" "q \<notin> fst ` set es" and d: "distinct (map fst es)"
    using Cons.prems e by auto
  have es: "\<forall>p \<in> fst ` set es. map_of es p = map_of (perPane (fst (line_end_pane c r e))) p"
  proof
    fix p assume p: "p \<in> fst ` set es"
    then have "p \<noteq> q" "p \<in> fst ` set (e # es)" using q(2) by auto
    then show "map_of es p = map_of (perPane (fst (line_end_pane c r e))) p"
      using bspec [OF Cons.prems(2), of p] e by (simp add: line_end_pane_elsewhere)
  qed
  have none: "map_of es q = None" using q(2) by (simp add: map_of_eq_None_iff)
  show ?case
    using Cons.IH [OF d es] q none e
    by (cases "p = q") (auto simp: line_end_pane_elsewhere line_end_pane_here)
qed simp

lemma line_end_exact:
  assumes "distinct (map fst (perPane r))"
  shows "map_of (perPane (fst (line_end c r))) p = Option.bind (map_of (perPane r) p) (ended_pane c)"
    and "lines_of d p (snd (line_end c r)) =
      (case map_of (perPane r) p of None \<Rightarrow> [] | Some st \<Rightarrow> if d = c \<and> ended_pane c st = None then final_lines st else [])"
proof -
  have "p \<notin> fst ` set (perPane r) \<Longrightarrow> map_of (perPane r) p = None"
    by (simp add: map_of_eq_None_iff)
  then show "map_of (perPane (fst (line_end c r))) p = Option.bind (map_of (perPane r) p) (ended_pane c)"
    using run_line_end_pane [OF assms, of r c p] by (auto simp: line_end_def)
  show "lines_of d p (snd (line_end c r)) =
      (case map_of (perPane r) p of None \<Rightarrow> [] | Some st \<Rightarrow> if d = c \<and> ended_pane c st = None then final_lines st else [])"
    using run_line_end_pane [OF assms, of r c p d] by (simp add: line_end_def)
qed

lemma line_write_keys:
  "distinct (map fst (perPane r)) \<Longrightarrow> distinct (map fst (perPane (fst (line_write m data p r c))))"
  "nextMsg (fst (line_write m data p r c)) = nextMsg r"
  by (simp_all add: line_write_eq Let_def distinct_update)

lemma line_writes_keys:
  "distinct (map fst (perPane r)) \<Longrightarrow> distinct (map fst (perPane (fst (run_steps (line_write m data p) r cs))))"
  "nextMsg (fst (run_steps (line_write m data p) r cs)) = nextMsg r"
  by (induction cs arbitrary: r) (simp_all add: line_write_keys)

lemma line_ends_keys:
  "distinct (map fst (perPane r)) \<Longrightarrow> distinct (map fst (perPane (fst (run_steps (line_end_pane c) r es))))"
  "nextMsg (fst (run_steps (line_end_pane c) r es)) = nextMsg r"
  by (induction es arbitrary: r) (simp_all add: line_end_pane_keys)

lemma line_step_keys:
  "distinct (map fst (perPane r)) \<Longrightarrow> distinct (map fst (perPane (fst (line_step r e))))"
  "nextMsg r \<le> nextMsg (fst (line_step r e))"
  by (cases e; simp add: line_writes_keys line_ends_keys line_end_def)+

lemma writes_elsewhere:
  "p \<noteq> q \<Longrightarrow> map_of (perPane (fst (run_steps (line_write m data q) r cs))) p = map_of (perPane r) p"
  "p \<noteq> q \<Longrightarrow> lines_of c p (snd (run_steps (line_write m data q) r cs)) = []"
  by (induction cs arbitrary: r) (simp_all add: line_write_eq Let_def)

subsection \<open>One decoder or many chunks\<close>

definition pane_text :: "nat list \<Rightarrow> nat list" where
  "pane_text bytes = fst (stream_decode bytes new_decoder)"

lemma utf8_points_run: "utf8_points s bs = fst (utf8_run s bs) @ (if snd (utf8_run s bs) = None then [] else [0xFFFD])"
proof (induction bs arbitrary: s)
  case Nil
  then show ?case by (cases s) simp_all
next
  case (Cons b bs)
  then show ?case by (simp add: utf8_points.simps(3) Let_def case_prod_beta)
qed

lemma last_digit: "c * 64 + z = (n::nat) \<Longrightarrow> z < 64 \<Longrightarrow> c = n div 64 \<and> z = n mod 64"
  by auto

lemma mark_bytes: "k * 2 ^ n \<le> b \<Longrightarrow> b < (k + 1) * 2 ^ n \<Longrightarrow> b mod 2 ^ n = b - k * 2 ^ n" for b :: nat
  using mod_less [of "b - k * 2 ^ n" "2 ^ n"] mod_mult_self1 [of "b - k * 2 ^ n" k "2 ^ n"]
  by (simp only: add_mult_distrib le_add_diff_inverse2)

lemma fst_utf8_start: "fst (utf8_start b) = x # xs \<Longrightarrow> x \<noteq> 0xFEFF"
  by (auto simp: utf8_start_def split: if_splits)

lemma utf8_run_mark:
  "fst (utf8_run (Some s) bs) = 0xFEFF # qs \<Longrightarrow>
     \<exists>b bs'. bs = b # bs' \<and> lowest s \<le> b \<and> b \<le> highest s \<and>
       (if needed s = 1 then cp s * 64 + b mod 64 = 0xFEFF
        else fst (utf8_run (Some \<lparr>cp = cp s * 64 + b mod 64, needed = needed s - 1, lowest = 0x80, highest = 0xBF\<rparr>) bs')
               = 0xFEFF # qs)"
  by (cases bs) (auto simp: Let_def case_prod_beta split: if_splits)

text \<open>The first code point is a byte order mark when its three bytes come first, and only then.\<close>

lemma first_point_mark:
  assumes "fst (utf8_run None bytes) = 0xFEFF # qs"
  shows "take 3 bytes = [0xEF, 0xBB, 0xBF]"
proof -
  obtain b bs where bytes: "bytes = b # bs" using assms by (cases bytes) auto
  have r: "fst (utf8_start b) @ fst (utf8_run (snd (utf8_start b)) bs) = 0xFEFF # qs"
    using assms bytes by (simp add: Let_def case_prod_beta)
  have e: "fst (utf8_start b) = []" using r fst_utf8_start by (cases "fst (utf8_start b)") auto
  consider (two) "snd (utf8_start b) = Some \<lparr>cp = b mod 32, needed = 1, lowest = 0x80, highest = 0xBF\<rparr>"
    | (three) "snd (utf8_start b) = Some \<lparr>cp = b mod 16, needed = 2, lowest = (if b = 0xE0 then 0xA0 else 0x80),
                   highest = (if b = 0xED then 0x9F else 0xBF)\<rparr>" "0xE0 \<le> b" "b \<le> 0xEF"
    | (four) "snd (utf8_start b) = Some \<lparr>cp = b mod 8, needed = 3, lowest = (if b = 0xF0 then 0x90 else 0x80),
                   highest = (if b = 0xF4 then 0x8F else 0xBF)\<rparr>" "0xF0 \<le> b" "b \<le> 0xF4"
    using e by (auto simp: utf8_start_def split: if_splits)
  then show ?thesis
  proof cases
    case two
    have "fst (utf8_run (Some \<lparr>cp = b mod 32, needed = 1, lowest = 0x80, highest = 0xBF\<rparr>) bs) = 0xFEFF # qs"
      using r e two by simp
    then obtain b1 where "b mod 32 * 64 + b1 mod 64 = 0xFEFF" using utf8_run_mark by fastforce
    moreover have "b mod 32 < 32" "b1 mod 64 < 64" by simp_all
    ultimately show ?thesis by linarith
  next
    case three
    let ?s = "\<lparr>cp = b mod 16, needed = 2, lowest = (if b = 0xE0 then 0xA0 else 0x80),
                   highest = (if b = 0xED then 0x9F else 0xBF)\<rparr>"
    have "fst (utf8_run (Some ?s) bs) = 0xFEFF # qs" using r e three by simp
    from utf8_run_mark [OF this] obtain b1 bs1 where b1: "bs = b1 # bs1" "lowest ?s \<le> b1" "b1 \<le> highest ?s"
      "fst (utf8_run (Some \<lparr>cp = b mod 16 * 64 + b1 mod 64, needed = 1, lowest = 0x80, highest = 0xBF\<rparr>) bs1) =
        0xFEFF # qs"
      by auto
    from utf8_run_mark [OF b1(4)] obtain b2 bs2 where b2: "bs1 = b2 # bs2" "0x80 \<le> b2" "b2 \<le> 0xBF"
      "(b mod 16 * 64 + b1 mod 64) * 64 + b2 mod 64 = 0xFEFF"
      by auto
    have "128 \<le> b1" "b1 \<le> 191" using b1 by (simp_all split: if_splits)
    then have m: "b1 mod 64 = b1 - 128" "b2 mod 64 = b2 - 128" "b mod 16 = b - 224"
      using mark_bytes [of 2 6 b1] mark_bytes [of 2 6 b2] mark_bytes [of 14 4 b] three(2,3) b2(2,3) by simp_all
    have "b mod 16 * 64 + b1 mod 64 = 1019 \<and> b2 mod 64 = 63" using last_digit [OF b2(4)] by simp
    moreover from this have "b mod 16 = 15 \<and> b1 mod 64 = 59" using last_digit [of "b mod 16" "b1 mod 64"] by simp
    ultimately have "b = 0xEF" "b1 = 0xBB" "b2 = 0xBF" using m three(2,3) b2(2,3) \<open>128 \<le> b1\<close> by linarith+
    then show ?thesis using bytes b1(1) b2(1) by simp
  next
    case four
    let ?s = "\<lparr>cp = b mod 8, needed = 3, lowest = (if b = 0xF0 then 0x90 else 0x80),
                   highest = (if b = 0xF4 then 0x8F else 0xBF)\<rparr>"
    have "fst (utf8_run (Some ?s) bs) = 0xFEFF # qs" using r e four by simp
    from utf8_run_mark [OF this] obtain b1 bs1 where b1: "lowest ?s \<le> b1" "b1 \<le> highest ?s"
      "fst (utf8_run (Some \<lparr>cp = b mod 8 * 64 + b1 mod 64, needed = 2, lowest = 0x80, highest = 0xBF\<rparr>) bs1) =
        0xFEFF # qs"
      by auto
    from utf8_run_mark [OF b1(3)] obtain b2 bs2 where
      "fst (utf8_run (Some \<lparr>cp = (b mod 8 * 64 + b1 mod 64) * 64 + b2 mod 64, needed = 1,
          lowest = 0x80, highest = 0xBF\<rparr>) bs2) = 0xFEFF # qs"
      by auto
    from utf8_run_mark [OF this] obtain b3 where
      "((b mod 8 * 64 + b1 mod 64) * 64 + b2 mod 64) * 64 + b3 mod 64 = 0xFEFF"
      by auto
    then have "(b mod 8 * 64 + b1 mod 64) * 64 + b2 mod 64 = 1019" using last_digit by fastforce
    then have "b mod 8 * 64 + b1 mod 64 = 15" using last_digit by fastforce
    then have z: "b mod 8 = 0 \<and> b1 mod 64 = 15" using last_digit by fastforce
    then have "b = 0xF0" using mark_bytes [of 30 3 b] four(2,3) by simp
    then have "144 \<le> b1" "b1 \<le> 191" using b1(1,2) by simp_all
    then show ?thesis using mark_bytes [of 2 6 b1] z by simp
  qed
qed

lemma bom_run: "take 3 bytes = [0xEF, 0xBB, 0xBF] \<Longrightarrow>
    utf8_run None bytes = (0xFEFF # fst (utf8_run None (drop 3 bytes)), snd (utf8_run None (drop 3 bytes)))"
proof -
  assume "take 3 bytes = [0xEF, 0xBB, 0xBF]"
  then have "bytes = [0xEF, 0xBB, 0xBF] @ drop 3 bytes" using append_take_drop_id [of 3 bytes] by simp
  then obtain bs where "bytes = [0xEF, 0xBB, 0xBF] @ bs" by blast
  then show ?thesis by (simp add: utf8_start_def Let_def case_prod_beta)
qed

text \<open>Decoding in pieces and flushing is decoding at once.\<close>

lemma pane_text_is_decode:
  "pane_text bytes @ stream_flush (snd (stream_decode bytes new_decoder)) = text_decode bytes"
proof (cases "take 3 bytes = [0xEF, 0xBB, 0xBF]")
  case True
  then show ?thesis
    by (simp add: pane_text_def stream_flush_def stream_decode_def new_decoder_def text_decode_def
        bom_run utf8_points_run Let_def case_prod_beta utf16_units_def)
next
  case False
  then have "fst (utf8_run None bytes) = [] \<or> hd (fst (utf8_run None bytes)) \<noteq> 0xFEFF"
    using first_point_mark by (cases "fst (utf8_run None bytes)") auto
  then show ?thesis using False
    by (auto simp: pane_text_def stream_flush_def stream_decode_def new_decoder_def text_decode_def
        utf8_points_run Let_def case_prod_beta utf16_units_def)
qed

subsection \<open>Properties\<close>

text \<open>
  A consumer follows a pane when every chunk of it is dispatched to it, once, and it does not
  end; the pane's text is what one \<open>TextDecoder\<close> makes of all its bytes at once.
\<close>

fun follows :: "nat \<Rightarrow> jsnum \<Rightarrow> line_op \<Rightarrow> bool" where
  "follows c p (LineChunk q data cs) \<longleftrightarrow> distinct cs \<and> (q = p \<longrightarrow> c \<in> set cs)"
| "follows c p (LineEnd d) \<longleftrightarrow> d \<noteq> c"

fun pane_data :: "jsnum \<Rightarrow> line_op list \<Rightarrow> nat list" where
  "pane_data p [] = []"
| "pane_data p (LineChunk q data cs # es) = (if q = p then data else []) @ pane_data p es"
| "pane_data p (LineEnd c # es) = pane_data p es"

definition follows_at :: "nat \<Rightarrow> jsnum \<Rightarrow> nat list \<Rightarrow> line_registry \<Rightarrow> bool" where
  "follows_at c p bytes r \<longleftrightarrow>
     distinct (map fst (perPane r)) \<and>
     lineDecoder (pane_state p r) = snd (stream_decode bytes new_decoder) \<and>
     lineBuffer (pane_state p r) = last (split_lines (pane_text bytes)) \<and>
     lastMsg (pane_state p r) \<notin> Some ` {nextMsg r..} \<and>
     (map_of (perPane r) p = None \<or> c \<in> set (admittingConsumers (pane_state p r)))"

lemma decode_chunk_fields:
  assumes "lastMsg st \<noteq> Some m"
  shows "lineDecoder (decode_chunk m data st) = snd (stream_decode data (lineDecoder st))"
    and "lineBuffer (decode_chunk m data st) =
      last (split_lines (lineBuffer st @ fst (stream_decode data (lineDecoder st))))"
    and "readyLines (decode_chunk m data st) =
      map strip_trailing_cr (butlast (split_lines (lineBuffer st @ fst (stream_decode data (lineDecoder st)))))"
  using assms by (simp_all add: decode_chunk_def Let_def case_prod_beta)

lemma split_lines_pieces:
  "butlast (split_lines (s @ t)) = butlast (split_lines s) @ butlast (split_lines (last (split_lines s) @ t))"
  "last (split_lines (s @ t)) = last (split_lines (last (split_lines s) @ t))"
  by (simp_all only: split_lines_append [of s t] butlast_append last_append split_lines_nonempty if_False)

lemma pane_text_append:
  "pane_text (a @ b) = pane_text a @ fst (stream_decode b (snd (stream_decode a new_decoder)))"
  "snd (stream_decode (a @ b) d) = snd (stream_decode b (snd (stream_decode a d)))"
  by (simp_all add: pane_text_def stream_decode_append Let_def case_prod_beta)

lemma lines_of_writes:
  "distinct cs \<Longrightarrow> lines_of c p (concat (map (\<lambda>c. map (Line c p) ls) cs)) = (if c \<in> set cs then ls else [])"
  by (induction cs) auto

definition whole_lines :: "nat list \<Rightarrow> nat list list" where
  "whole_lines bytes = map strip_trailing_cr (butlast (split_lines (pane_text bytes)))"

declare map_of_eq_Some_iff [simp del] Some_eq_map_of_iff [simp del]

lemma follow_step:
  assumes "follows c p e" and "follows_at c p bytes r"
  shows "follows_at c p (bytes @ pane_data p [e]) (fst (line_step r e))" (is ?inv)
    and "whole_lines (bytes @ pane_data p [e]) = whole_lines bytes @ lines_of c p (snd (line_step r e))" (is ?out)
proof -
  have keys: "distinct (map fst (perPane (fst (line_step r e))))" "nextMsg r \<le> nextMsg (fst (line_step r e))"
    using assms(2) line_step_keys by (simp_all add: follows_at_def)
  have "?inv \<and> ?out"
  proof (cases e)
    case (LineEnd d)
    let ?r = "fst (line_end d r)"
    have kd: "distinct (map fst (perPane r))" using assms(2) by (simp add: follows_at_def)
    have m: "map_of (perPane ?r) p = Option.bind (map_of (perPane r) p) (ended_pane d)"
      by (rule line_end_exact(1) [OF kd])
    have out: "lines_of c p (snd (line_end d r)) = []"
      using assms(1) LineEnd by (auto simp: line_end_exact(2) [OF kd] split: option.splits)
    have "lineDecoder (pane_state p ?r) = lineDecoder (pane_state p r)"
      "lineBuffer (pane_state p ?r) = lineBuffer (pane_state p r)"
      "lastMsg (pane_state p ?r) = lastMsg (pane_state p r)"
      "map_of (perPane ?r) p = None \<or> c \<in> set (admittingConsumers (pane_state p ?r))"
      using m assms LineEnd
      by (cases "map_of (perPane r) p"; auto simp: pane_state_def follows_at_def ended_pane_def split: if_splits)+
    then show ?thesis
      using assms(2) keys LineEnd out by (auto simp: follows_at_def)
  next
    case (LineChunk q data cs)
    let ?r = "r\<lparr>nextMsg := nextMsg r + 1\<rparr>"
    let ?w = "run_steps (line_write (nextMsg r) data q) ?r cs"
    show ?thesis
    proof (cases "q = p")
      case False
      then have "map_of (perPane (fst ?w)) p = map_of (perPane r) p" "lines_of c p (snd ?w) = []"
        by (simp_all add: writes_elsewhere)
      then show ?thesis
        using assms(2) keys LineChunk False
        by (auto simp: follows_at_def pane_state_def line_writes_keys split: option.splits)
    next
      case True
      let ?d = "decode_chunk (nextMsg r) data (pane_state p r)"
      have cs: "c \<in> set cs" "cs \<noteq> []" "distinct cs" using assms(1) LineChunk True by auto
      have st: "pane_state p ?r = pane_state p r" by (simp add: pane_state_def)
      have fresh: "lastMsg (pane_state p r) \<noteq> Some (nextMsg r)" using assms(2) by (auto simp: follows_at_def)
      have s: "pane_state p (fst ?w) =
          ?d\<lparr>admittingConsumers := foldl (\<lambda>a c. set_add c a) (admittingConsumers (pane_state p r)) cs\<rparr>"
        using writes_decode_once(1) [OF cs(2), of "nextMsg r" data p ?r] True st
        by (simp add: pane_state_def)
      have o: "lines_of c p (snd ?w) = readyLines ?d"
        using writes_decode_once(2) [OF cs(2), of "nextMsg r" data p ?r] True st cs
        by (simp add: lines_of_writes)
      show ?thesis
        using assms(2) keys LineChunk True s o cs(1)
        by (simp add: follows_at_def decode_chunk_fields [OF fresh] whole_lines_def pane_text_append
            split_lines_pieces [of "pane_text bytes"] line_writes_keys foldl_set_add image_iff)
    qed
  qed
  then show ?inv ?out by simp_all
qed

lemma follow_run:
  assumes "list_all (follows c p) es" and "follows_at c p bytes r"
  shows "follows_at c p (bytes @ pane_data p es) (fst (run_steps line_step r es)) \<and>
    whole_lines (bytes @ pane_data p es) = whole_lines bytes @ lines_of c p (snd (run_steps line_step r es))"
  using assms
proof (induction es arbitrary: r bytes)
  case (Cons e es)
  have e: "follows c p e" "list_all (follows c p) es" using Cons.prems(1) by simp_all
  have d: "pane_data p (e # es) = pane_data p [e] @ pane_data p es" by (cases e) simp_all
  show ?case
    using Cons.IH [OF e(2) follow_step(1) [OF e(1) Cons.prems(2)]] follow_step(2) [OF e(1) Cons.prems(2)]
    by (simp add: d del: pane_data.simps)
qed simp

lemma follows_at_start: "follows_at c p [] new_line_registry"
  by (simp add: follows_at_def pane_state_def new_line_registry_def new_pane_lines_def pane_text_def)

definition rest_line :: "nat list \<Rightarrow> nat list list" where
  "rest_line bytes =
     (let f = strip_trailing_cr (last (split_lines (pane_text bytes)) @
                stream_flush (snd (stream_decode bytes new_decoder))) in if f \<noteq> [] then [f] else [])"

lemma whole_lines_Nil: "whole_lines [] = []" "rest_line [] = []"
  by (simp_all add: whole_lines_def rest_line_def pane_text_def stream_flush_def new_decoder_def strip_trailing_cr_def)

lemma split_lines_single: "10 \<notin> set s \<Longrightarrow> split_lines s = [s]"
  by (induction s) auto

lemma last_line_no_lf: "10 \<notin> set (last (split_lines s))"
proof (induction s)
  case (Cons c s)
  then show ?case by (cases "split_lines s" rule: list.exhaust) (auto split: if_splits)
qed simp

text \<open>In terms of the decoded text alone.\<close>

definition text_lines :: "nat list \<Rightarrow> nat list list" where
  "text_lines txt = map strip_trailing_cr (butlast (split_lines txt))"

definition text_rest :: "nat list \<Rightarrow> nat list list" where
  "text_rest txt = filter (\<lambda>f. f \<noteq> []) [strip_trailing_cr (last (split_lines txt))]"

lemma text_lines_of_decode:
  "whole_lines bytes = text_lines (text_decode bytes)" "rest_line bytes = text_rest (text_decode bytes)"
proof -
  let ?t = "stream_flush (snd (stream_decode bytes new_decoder))" and ?l = "last (split_lines (pane_text bytes))"
  have "10 \<notin> set (?l @ ?t)" using last_line_no_lf by (simp add: stream_flush_def)
  then have "split_lines (text_decode bytes) = butlast (split_lines (pane_text bytes)) @ [?l @ ?t]"
    using split_lines_append [of "pane_text bytes" ?t] by (simp add: pane_text_is_decode split_lines_single)
  then show "whole_lines bytes = text_lines (text_decode bytes)" "rest_line bytes = text_rest (text_decode bytes)"
    by (simp_all add: whole_lines_def text_lines_def rest_line_def text_rest_def Let_def)
qed

definition other_consumers :: "nat \<Rightarrow> jsnum \<Rightarrow> line_registry \<Rightarrow> nat set" where
  "other_consumers c p r = set (admittingConsumers (pane_state p r)) - {c}"

text \<open>
  C22. A line consumer that follows a pane receives exactly the lines of the pane's text: what one
  decoder makes of all its bytes at once, cut at the line feeds, each line without its trailing
  carriage return. This holds however the bytes were cut into chunks, whichever other consumers
  were handed the same chunks, came or ended, and whatever other panes printed in between. When
  it ends as the last consumer of the pane it also receives the text after the last line feed, if
  there is any, and otherwise nothing.
\<close>

theorem lines_ignore_chunking:
  assumes "list_all (follows c p) es"
  shows "lines_of c p (snd (run_steps line_step new_line_registry (es @ [LineEnd c]))) =
    text_lines (text_decode (pane_data p es)) @
      (if other_consumers c p (fst (run_steps line_step new_line_registry es)) = {}
       then text_rest (text_decode (pane_data p es)) else [])"
proof -
  let ?r = "fst (run_steps line_step new_line_registry es)"
  have f: "follows_at c p (pane_data p es) ?r"
    and w: "whole_lines (pane_data p es) = lines_of c p (snd (run_steps line_step new_line_registry es))"
    using follow_run [OF assms follows_at_start] by (simp_all add: whole_lines_Nil)
  have l: "final_lines (pane_state p ?r) = rest_line (pane_data p es)"
    using f by (simp add: follows_at_def final_lines_def rest_line_def)
  have d: "distinct (map fst (perPane ?r))" using f by (simp add: follows_at_def)
  have "lines_of c p (snd (line_end c ?r)) =
      (if other_consumers c p ?r = {} then rest_line (pane_data p es) else [])"
  proof (cases "map_of (perPane ?r) p")
    case None
    then have "final_lines (pane_state p ?r) = []"
      using whole_lines_Nil(2)
      by (simp add: pane_state_def final_lines_def new_pane_lines_def stream_flush_def new_decoder_def
          strip_trailing_cr_def)
    then show ?thesis using None l by (simp add: line_end_exact(2) [OF d])
  next
    case (Some st)
    then have st: "pane_state p ?r = st" "c \<in> set (admittingConsumers st)"
      using f by (auto simp: pane_state_def follows_at_def)
    show ?thesis
      using Some l st by (auto simp: line_end_exact(2) [OF d] ended_pane_def other_consumers_def)
  qed
  then show ?thesis using w by (simp add: text_lines_of_decode)
qed

lemma lines_ignore_chunking_witness:
  "lines_of 1 (Num 0) (snd (run_steps line_step new_line_registry
     ([LineChunk (Num 0) [104, 195] [1, 2], LineEnd 2, LineChunk (Num 0) [169, 13, 10, 120] [1]] @ [LineEnd 1])))
   = [[104, 233], [120]]"
proof -
  let ?es = "[LineChunk (Num 0) [104, 195] [1, 2], LineEnd 2, LineChunk (Num 0) [169, 13, 10, 120] [1]]"
  have "list_all (follows 1 (Num 0)) ?es" by simp
  from lines_ignore_chunking [OF this] show ?thesis by code_simp
qed

end
