(* ===== verification/Chaos.thy ===== *)
theory Chaos
  imports Complex_Main Client "HOL-Library.Multiset"
begin

section \<open>The chaos harness\<close>

text \<open>
  \<open>src/chaos/rng.ts\<close>, \<open>corrupt.ts\<close> and \<open>transport.ts\<close>: the seeded generator, the corruptions it
  drives, and the transport decorator with its hand-advanced clock. A draw of the generator is
  the numerator of \<open>random()\<close> over \<open>2 ^ 32\<close>; the products the code takes of it are exact in
  floating point for ranges up to \<open>2 ^ 21\<close>, which covers the chunks of a transport. A
  generator handed in by the caller is a function of its own state. Rates are rationals and
  latencies whole milliseconds. What a delivered chunk makes its consumers schedule is a
  parameter of the clock.
\<close>

subsection \<open>The generator\<close>

definition mulberry32 :: "32 word \<Rightarrow> nat \<times> 32 word" where
  "mulberry32 s =
     (let a = s + 0x6d2b79f5;
          t = xor a (drop_bit 15 a) * or 1 a;
          u = xor (t + xor t (drop_bit 7 t) * or 61 t) t
      in (unat (xor u (drop_bit 14 u)), a))"

type_synonym 'g generator = "'g \<Rightarrow> nat \<times> 'g"

definition random_int :: "'g generator \<Rightarrow> nat \<Rightarrow> nat \<Rightarrow> 'g \<Rightarrow> nat \<times> 'g" where
  "random_int random lo hi g =
     (if hi \<le> lo then (lo, g) else (let (k, g1) = random g in (lo + k * (hi - lo) div 2 ^ 32, g1)))"

subsection \<open>Corruptions\<close>

datatype corruption_kind = Truncate | FlipOctal | FlipByte | DropNewline | InjectBytes

definition ALL_CORRUPTIONS :: "corruption_kind list" where
  "ALL_CORRUPTIONS = [Truncate, FlipOctal, FlipByte, DropNewline, InjectBytes]"

definition NOISE_ALPHABET :: string where
  "NOISE_ALPHABET = ''0123456789abcdefghijklmnopqrstuvwxyz %@$'' @ [CHR 0x5C, CR, CHR 0x07]"

definition is_octal_digit :: "char \<Rightarrow> bool" where
  "is_octal_digit c \<longleftrightarrow> 48 \<le> code_of c \<and> code_of c \<le> 55"

text \<open>The index of the first match of \<open>/\<backslash>\<backslash>[0-7]/\<close>.\<close>

fun octal_escape :: "string \<Rightarrow> nat option" where
  "octal_escape (c # d # s) =
     (if c = CHR 0x5C \<and> is_octal_digit d then Some 0 else map_option Suc (octal_escape (d # s)))"
| "octal_escape s = None"

fun corruption_applies :: "corruption_kind \<Rightarrow> string \<Rightarrow> bool" where
  "corruption_applies FlipOctal chunk \<longleftrightarrow> octal_escape chunk \<noteq> None"
| "corruption_applies DropNewline chunk \<longleftrightarrow> chunk \<noteq> [] \<and> last chunk = LF"
| "corruption_applies k chunk \<longleftrightarrow> length chunk > 0"

definition flip_octal_digit :: "'g generator \<Rightarrow> string \<Rightarrow> 'g \<Rightarrow> string \<times> 'g" where
  "flip_octal_digit random chunk g =
     (let pos = (case octal_escape chunk of None \<Rightarrow> 0 | Some i \<Rightarrow> i + 1); (k, g1) = random g in
      (chunk[pos := if k < 2 ^ 31 then CHR ''8'' else CHR ''9''], g1))"

text \<open>\<open>while (replacement === original)\<close>; a generator that keeps drawing it never returns.\<close>

partial_function (option) draw_other :: "'g generator \<Rightarrow> char \<Rightarrow> 'g \<Rightarrow> (char \<times> 'g) option" where
  "draw_other random original g =
     (let (i, g1) = random_int random 0 (length NOISE_ALPHABET) g; c = NOISE_ALPHABET ! i in
      if c = original then draw_other random original g1 else Some (c, g1))"

definition flip_one_byte :: "'g generator \<Rightarrow> string \<Rightarrow> 'g \<Rightarrow> (string \<times> 'g) option" where
  "flip_one_byte random chunk g =
     (let (pos, g1) = random_int random 0 (length chunk) g in
      map_option (\<lambda>(c, g2). (chunk[pos := c], g2)) (draw_other random (chunk ! pos) g1))"

fun draw_noise :: "'g generator \<Rightarrow> nat \<Rightarrow> 'g \<Rightarrow> string \<times> 'g" where
  "draw_noise random 0 g = ([], g)"
| "draw_noise random (Suc n) g =
     (let (i, g1) = random_int random 0 (length NOISE_ALPHABET) g; (s, g2) = draw_noise random n g1
      in (NOISE_ALPHABET ! i # s, g2))"

definition inject_noise :: "'g generator \<Rightarrow> string \<Rightarrow> 'g \<Rightarrow> string \<times> 'g" where
  "inject_noise random chunk g =
     (let (pos, g1) = random_int random 0 (length chunk + 1) g; (n, g2) = random_int random 1 4 g1;
          (noise, g3) = draw_noise random n g2
      in (take pos chunk @ noise @ drop pos chunk, g3))"

fun apply_corruption :: "corruption_kind \<Rightarrow> 'g generator \<Rightarrow> string \<Rightarrow> 'g \<Rightarrow> (string \<times> 'g) option" where
  "apply_corruption Truncate random chunk g =
     (let (n, g1) = random_int random 0 (length chunk) g in Some (take n chunk, g1))"
| "apply_corruption DropNewline random chunk g = Some (butlast chunk, g)"
| "apply_corruption FlipOctal random chunk g = Some (flip_octal_digit random chunk g)"
| "apply_corruption FlipByte random chunk g = flip_one_byte random chunk g"
| "apply_corruption InjectBytes random chunk g = Some (inject_noise random chunk g)"

definition corrupt_chunk ::
    "'g generator \<Rightarrow> corruption_kind list \<Rightarrow> string \<Rightarrow> 'g \<Rightarrow> (string \<times> 'g) option" where
  "corrupt_chunk random kinds chunk g =
     (if chunk = [] then Some (chunk, g)
      else
        let applicable = filter (\<lambda>k. corruption_applies k chunk) kinds in
        if applicable = [] then apply_corruption FlipByte random chunk g
        else (let (i, g1) = random_int random 0 (length applicable) g
              in apply_corruption (applicable ! i) random chunk g1))"

subsection \<open>The decision for a chunk\<close>

record latency_window =
  latencyMin :: int
  latencyMax :: int

datatype chaos_plan = DropChunk | DeliverChunk string int

record plan_params =
  dropRate :: rat
  corruptRate :: rat
  latencyMs :: latency_window
  corruptions :: "corruption_kind list"

definition below_rate :: "nat \<Rightarrow> rat \<Rightarrow> bool" where
  "below_rate k rate \<longleftrightarrow> of_nat k < rate * 2 ^ 32"

text \<open>\<open>Math.round\<close> rounds halves up.\<close>

definition sample_latency :: "'g generator \<Rightarrow> latency_window \<Rightarrow> 'g \<Rightarrow> int \<times> 'g" where
  "sample_latency random w g =
     (if latencyMax w \<le> latencyMin w then (latencyMin w, g)
      else (let (k, g1) = random g in
            (latencyMin w + (int k * (latencyMax w - latencyMin w) * 2 + 2 ^ 32) div 2 ^ 33, g1)))"

definition plan_chunk :: "'g generator \<Rightarrow> plan_params \<Rightarrow> string \<Rightarrow> 'g \<Rightarrow> (chaos_plan \<times> 'g) option" where
  "plan_chunk random p chunk g =
     (let (k, g1) = random g in
      if below_rate k (dropRate p) then Some (DropChunk, g1)
      else
        let (k2, g2) = random g1 in
        Option.bind (if below_rate k2 (corruptRate p) then corrupt_chunk random (corruptions p) chunk g2 else Some (chunk, g2))
          (\<lambda>(payload, g3). let (d, g4) = sample_latency random (latencyMs p) g3 in Some (DeliverChunk payload d, g4)))"

definition DEFAULT_SEED :: "32 word" where
  "DEFAULT_SEED = 0x9e3779b9"

subsection \<open>The hand-advanced clock\<close>

record 'a scheduled =
  dueAt :: int
  schedSeq :: nat
  callback :: 'a

record 'a manual_clock =
  clockNow :: int
  clockSeq :: nat
  clockQueue :: "'a scheduled list"

definition new_clock :: "'a manual_clock" where
  "new_clock = \<lparr>clockNow = 0, clockSeq = 0, clockQueue = []\<rparr>"

definition clock_schedule :: "'a manual_clock \<Rightarrow> 'a \<times> int \<Rightarrow> 'a manual_clock" where
  "clock_schedule c fd =
     (let (fn, delayMs) = fd in
      c\<lparr>clockQueue := clockQueue c @ [\<lparr>dueAt = clockNow c + max 0 delayMs, schedSeq = clockSeq c, callback = fn\<rparr>],
        clockSeq := clockSeq c + 1\<rparr>)"

definition pending_callbacks :: "'a manual_clock \<Rightarrow> nat" where
  "pending_callbacks c = length (clockQueue c)"

definition due_before :: "'a scheduled \<Rightarrow> 'a scheduled \<Rightarrow> bool" where
  "due_before x y \<longleftrightarrow> dueAt x < dueAt y \<or> (dueAt x = dueAt y \<and> schedSeq x < schedSeq y)"

text \<open>A limit of None is \<open>Infinity\<close>.\<close>

definition earliest_due :: "int option \<Rightarrow> 'a manual_clock \<Rightarrow> 'a scheduled option" where
  "earliest_due limit c =
     foldl (\<lambda>best item.
         if (case limit of None \<Rightarrow> False | Some t \<Rightarrow> dueAt item > t) then best
         else case best of
           None \<Rightarrow> Some item
         | Some b \<Rightarrow> if due_before item b then Some item else best)
       None (clockQueue c)"

fun remove_seq :: "nat \<Rightarrow> 'a scheduled list \<Rightarrow> 'a scheduled list" where
  "remove_seq n [] = []"
| "remove_seq n (x # xs) = (if schedSeq x = n then xs else x # remove_seq n xs)"

text \<open>
  The loop shared by \<open>advance\<close> and \<open>runAll\<close>: the callbacks fired, in order. Firing one makes
  it schedule what \<open>reacts\<close> says.
\<close>

partial_function (option) fire_due ::
    "('a \<Rightarrow> ('a \<times> int) list) \<Rightarrow> int option \<Rightarrow> 'a manual_clock \<Rightarrow> ('a manual_clock \<times> 'a scheduled list) option" where
  "fire_due reacts limit c =
     (case earliest_due limit c of
        None \<Rightarrow> Some (c, [])
      | Some nxt \<Rightarrow>
          Option.bind
            (fire_due reacts limit
              (foldl clock_schedule
                (c\<lparr>clockNow := max (clockNow c) (dueAt nxt), clockQueue := remove_seq (schedSeq nxt) (clockQueue c)\<rparr>)
                (reacts (callback nxt))))
            (\<lambda>(c2, fired). Some (c2, nxt # fired)))"

definition advance_clock ::
    "('a \<Rightarrow> ('a \<times> int) list) \<Rightarrow> int \<Rightarrow> 'a manual_clock \<Rightarrow> ('a manual_clock \<times> 'a scheduled list) option" where
  "advance_clock reacts ms c =
     (let limit = clockNow c + ms in
      map_option (\<lambda>(c2, fired). (c2\<lparr>clockNow := max (clockNow c2) limit\<rparr>, fired)) (fire_due reacts (Some limit) c))"

definition run_all ::
    "('a \<Rightarrow> ('a \<times> int) list) \<Rightarrow> 'a manual_clock \<Rightarrow> ('a manual_clock \<times> 'a scheduled list) option" where
  "run_all reacts c = fire_due reacts None c"

subsection \<open>The decorator\<close>

datatype chaos_error = RateOutOfRange | LatencyOutOfRange

definition validate_rate :: "rat \<Rightarrow> chaos_error + rat" where
  "validate_rate rate = (if \<not> (rate \<ge> 0 \<and> rate \<le> 1) then Inl RateOutOfRange else Inr rate)"

definition validate_latency :: "latency_window \<Rightarrow> chaos_error + latency_window" where
  "validate_latency w =
     (if \<not> latencyMin w \<ge> 0 \<or> \<not> latencyMax w \<ge> latencyMin w then Inl LatencyOutOfRange else Inr w)"

record 'g chaos_transport =
  planParams :: plan_params
  chaosRandom :: 'g
  consumers :: "nat list"

datatype chaos_effect =
    ToConsumer nat string
  | ScheduleDelivery string int
  | InnerSend string
  | InnerClose

definition with_chaos ::
    "rat option \<Rightarrow> rat option \<Rightarrow> latency_window option \<Rightarrow> corruption_kind list option \<Rightarrow> 'g \<Rightarrow> chaos_error + 'g chaos_transport" where
  "with_chaos dropping corrupt latency kinds g =
     and_then (validate_rate (case dropping of None \<Rightarrow> 0 | Some r \<Rightarrow> r)) (\<lambda>dr.
     and_then (validate_rate (case corrupt of None \<Rightarrow> 0 | Some r \<Rightarrow> r)) (\<lambda>cr.
     and_then (validate_latency (case latency of None \<Rightarrow> \<lparr>latencyMin = 0, latencyMax = 0\<rparr> | Some w \<Rightarrow> w)) (\<lambda>w.
       Inr \<lparr>planParams = \<lparr>dropRate = dr, corruptRate = cr, latencyMs = w,
                corruptions = (case kinds of None \<Rightarrow> ALL_CORRUPTIONS | Some ks \<Rightarrow> ks)\<rparr>,
            chaosRandom = g, consumers = []\<rparr>)))"

definition deliver :: "string \<Rightarrow> 'g chaos_transport \<Rightarrow> chaos_effect list" where
  "deliver payload t = map (\<lambda>cb. ToConsumer cb payload) (consumers t)"

definition on_inner_data :: "'g generator \<Rightarrow> string \<Rightarrow> 'g chaos_transport \<Rightarrow> ('g chaos_transport \<times> chaos_effect list) option" where
  "on_inner_data random chunk t =
     map_option
       (\<lambda>(plan, g).
          (t\<lparr>chaosRandom := g\<rparr>,
           case plan of
             DropChunk \<Rightarrow> []
           | DeliverChunk payload d \<Rightarrow> if d > 0 then [ScheduleDelivery payload d] else deliver payload t))
       (plan_chunk random (planParams t) chunk (chaosRandom t))"

definition chaos_on_data :: "nat \<Rightarrow> 'g chaos_transport \<Rightarrow> 'g chaos_transport" where
  "chaos_on_data cb t = t\<lparr>consumers := consumers t @ [cb]\<rparr>"

subsection \<open>Corruption always changes a chunk\<close>

lemma draw_other_differs: "draw_other random c g = Some (d, h) \<Longrightarrow> d \<noteq> c"
  using draw_other.raw_induct [of "\<lambda>random c g r. fst r \<noteq> c"]
  by (force simp: Let_def case_prod_beta split: if_splits)

lemma random_int_less:
  assumes "\<And>g. fst (random g) < 2 ^ 32" and "lo < hi"
  shows "lo \<le> fst (random_int random lo hi g)" and "fst (random_int random lo hi g) < hi"
proof -
  obtain k g1 where k: "random g = (k, g1)" by (cases "random g")
  then have "k < 2 ^ 32" using assms(1) [of g] by simp
  then have "k * (hi - lo) < 2 ^ 32 * (hi - lo)" using assms(2) by simp
  then have "k * (hi - lo) div 2 ^ 32 < hi - lo" by (simp add: less_mult_imp_div_less mult.commute)
  then show "lo \<le> fst (random_int random lo hi g)" "fst (random_int random lo hi g) < hi"
    using assms(2) k by (simp_all add: random_int_def)
qed

text \<open>
  The built-in generator steps through every 32-bit state, since its increment is odd; two
  states draw different noise characters, so the loop that avoids one of them ends.
\<close>

lemma mulberry_range: "fst (mulberry32 s) < 2 ^ 32"
proof -
  have "unat w < 2 ^ 32" for w :: "32 word" using unsigned_less [of w] by simp
  then show ?thesis by (simp add: mulberry32_def Let_def)
qed

lemma mulberry_state: "snd (mulberry32 s) = s + 0x6d2b79f5"
  by (simp add: mulberry32_def Let_def)

lemma increment_inverse: "(0x6d2b79f5 :: 32 word) * 0xdc58aa5d = 1"
  by simp

lemma every_state_reached: "\<exists>n. s + of_nat n * 0x6d2b79f5 = (x :: 32 word)"
proof
  have "(0xdc58aa5d :: 32 word) * 0x6d2b79f5 = 1" by simp
  then have "(x - s) * (0xdc58aa5d * 0x6d2b79f5) = x - s" by (simp only: mult_1_right)
  then show "s + of_nat (unat ((x - s) * 0xdc58aa5d)) * 0x6d2b79f5 = x"
    by (simp add: mult.assoc)
qed

definition noise_at :: "32 word \<Rightarrow> char" where
  "noise_at s = NOISE_ALPHABET ! fst (random_int mulberry32 0 (length NOISE_ALPHABET) s)"

lemma noise_varies: "noise_at 0 \<noteq> noise_at 1"
  by code_simp

lemma draw_other_step:
  "draw_other mulberry32 c s =
     (if noise_at s = c then draw_other mulberry32 c (s + 0x6d2b79f5) else Some (noise_at s, s + 0x6d2b79f5))"
proof -
  have "length NOISE_ALPHABET > 0" by (simp add: NOISE_ALPHABET_def)
  then have "snd (random_int mulberry32 0 (length NOISE_ALPHABET) s) = s + 0x6d2b79f5"
    using mulberry_state [of s] by (simp add: random_int_def case_prod_beta)
  then show ?thesis
    by (subst draw_other.simps) (simp add: noise_at_def case_prod_beta Let_def)
qed

lemma draw_other_returns: "noise_at (s + of_nat n * 0x6d2b79f5) \<noteq> c \<Longrightarrow> draw_other mulberry32 c s \<noteq> None"
proof (induction n arbitrary: s)
  case 0
  then show ?case by (subst draw_other_step) simp
next
  case (Suc n)
  then have "noise_at ((s + 0x6d2b79f5) + of_nat n * 0x6d2b79f5) \<noteq> c" by (simp add: algebra_simps)
  then show ?case using Suc.IH [of "s + 0x6d2b79f5"] by (subst draw_other_step) simp
qed

lemma draw_other_total: "\<exists>d h. draw_other mulberry32 c s = Some (d, h) \<and> d \<noteq> c"
proof -
  obtain x where "noise_at x \<noteq> c" using noise_varies by metis
  moreover obtain n where "s + of_nat n * 0x6d2b79f5 = x" using every_state_reached by metis
  ultimately have "draw_other mulberry32 c s \<noteq> None" using draw_other_returns by blast
  then obtain d h where dh: "draw_other mulberry32 c s = Some (d, h)" by auto
  from dh draw_other_differs [OF dh] show ?thesis by simp
qed

lemma octal_escape_at:
  "octal_escape s = Some i \<Longrightarrow> i + 1 < length s \<and> is_octal_digit (s ! (i + 1))"
proof (induction s arbitrary: i rule: octal_escape.induct)
  case (1 c d s)
  then show ?case by (auto split: if_splits)
qed simp_all

lemma draw_noise_length: "length (fst (draw_noise random n g)) = n"
  by (induction n arbitrary: g) (simp_all add: case_prod_beta)

definition changes :: "string \<Rightarrow> (string \<times> 'g) option \<Rightarrow> bool" where
  "changes chunk r = (case r of None \<Rightarrow> False | Some (s, g) \<Rightarrow> s \<noteq> chunk)"

lemma list_update_changes: "i < length s \<Longrightarrow> c \<noteq> s ! i \<Longrightarrow> s[i := c] \<noteq> s"
  by (metis nth_list_update_eq)

lemma applied_changes:
  assumes "chunk \<noteq> []" and "corruption_applies kind chunk"
  shows "changes chunk (apply_corruption kind mulberry32 chunk g)"
proof (cases kind)
  case Truncate
  obtain n g1 where n: "random_int mulberry32 0 (length chunk) g = (n, g1)" by fastforce
  then have "n < length chunk"
    using random_int_less(2) [of mulberry32 0 "length chunk" g] mulberry_range assms(1) by simp
  then have "length (take n chunk) < length chunk" by simp
  then have "take n chunk \<noteq> chunk" by force
  then show ?thesis using Truncate n by (simp add: changes_def)
next
  case DropNewline
  have "length (butlast chunk) < length chunk" using assms(1) by simp
  then have "butlast chunk \<noteq> chunk" by force
  then show ?thesis using DropNewline by (simp add: changes_def)
next
  case FlipOctal
  then obtain i where i: "octal_escape chunk = Some i" using assms(2) by auto
  obtain k g1 where k: "mulberry32 g = (k, g1)" by fastforce
  have "\<not> is_octal_digit (CHR ''8'')" "\<not> is_octal_digit (CHR ''9'')" by (simp_all add: is_octal_digit_def)
  then have d: "CHR ''8'' \<noteq> chunk ! (i + 1)" "CHR ''9'' \<noteq> chunk ! (i + 1)" using octal_escape_at [OF i] by metis+
  have "i + 1 < length chunk" using octal_escape_at [OF i] by simp
  note list_update_changes [OF this d(1)] list_update_changes [OF this d(2)]
  then show ?thesis using FlipOctal i k by (simp add: changes_def flip_octal_digit_def)
next
  case FlipByte
  obtain n g1 where n: "random_int mulberry32 0 (length chunk) g = (n, g1)" by fastforce
  then have "n < length chunk"
    using random_int_less(2) [of mulberry32 0 "length chunk" g] mulberry_range assms(1) by simp
  moreover obtain d h where "draw_other mulberry32 (chunk ! n) g1 = Some (d, h)" "d \<noteq> chunk ! n"
    using draw_other_total by blast
  ultimately show ?thesis using FlipByte n list_update_changes by (simp add: changes_def flip_one_byte_def)
next
  case InjectBytes
  obtain p g1 where p: "random_int mulberry32 0 (length chunk + 1) g = (p, g1)" by fastforce
  obtain n g2 where n: "random_int mulberry32 1 4 g1 = (n, g2)" by fastforce
  then have "n \<ge> 1" using random_int_less(1) [of mulberry32 1 4 g1] mulberry_range by simp
  obtain noise g3 where noise: "draw_noise mulberry32 n g2 = (noise, g3)" by fastforce
  then have "length noise = n" using draw_noise_length [of mulberry32 n g2] by simp
  then have "length (take p chunk @ noise @ drop p chunk) > length chunk" using \<open>n \<ge> 1\<close> by simp
  then have "take p chunk @ noise @ drop p chunk \<noteq> chunk" by force
  then show ?thesis using InjectBytes p n noise by (simp add: changes_def inject_noise_def)
qed

text \<open>
  Corruption with the built-in generator always returns and always changes a chunk. For every
  seed, every list of kinds and every non-empty chunk, whichever corruption is drawn, the
  result exists and differs from the chunk; an empty chunk comes back as it is.
\<close>

theorem corruption_always_changes:
  "case corrupt_chunk mulberry32 kinds chunk g of
     None \<Rightarrow> False
   | Some (s, h) \<Rightarrow> (s = chunk) = (chunk = [])"
proof (cases "chunk = []")
  case False
  let ?ok = "filter (\<lambda>k. corruption_applies k chunk) kinds"
  have "changes chunk (corrupt_chunk mulberry32 kinds chunk g)"
  proof (cases "?ok = []")
    case True
    then show ?thesis using False applied_changes [of chunk FlipByte] by (simp add: corrupt_chunk_def Let_def)
  next
    case ok: False
    obtain i g1 where i: "random_int mulberry32 0 (length ?ok) g = (i, g1)" by fastforce
    then have "i < length ?ok"
      using random_int_less(2) [of mulberry32 0 "length ?ok" g] mulberry_range ok by simp
    then have "?ok ! i \<in> set ?ok" by (rule nth_mem)
    then show ?thesis using False ok i applied_changes [of chunk "?ok ! i" g1]
      by (simp add: corrupt_chunk_def Let_def)
  qed
  then show ?thesis using False by (auto simp: changes_def split: option.splits)
qed (simp add: corrupt_chunk_def)

subsection \<open>The clock fires everything once, in order\<close>

definition no_reaction :: "'a \<Rightarrow> ('a \<times> int) list" where
  "no_reaction fn = []"

text \<open>Nothing waits from before now, and what is scheduled later has a greater number.\<close>

definition clock_ok :: "'a manual_clock \<Rightarrow> bool" where
  "clock_ok c \<longleftrightarrow> (\<forall>x \<in> set (clockQueue c). clockNow c \<le> dueAt x \<and> schedSeq x < clockSeq c)
     \<and> distinct (map schedSeq (clockQueue c))"

definition is_due :: "int option \<Rightarrow> 'a scheduled \<Rightarrow> bool" where
  "is_due limit x = (case limit of None \<Rightarrow> True | Some t \<Rightarrow> dueAt x \<le> t)"

lemma due_before_trans: "due_before x y \<Longrightarrow> due_before y z \<Longrightarrow> due_before x z"
  by (auto simp: due_before_def)

lemma due_before_linear: "schedSeq x \<noteq> schedSeq y \<Longrightarrow> due_before x y \<or> due_before y x"
  by (auto simp: due_before_def)

definition earlier :: "int option \<Rightarrow> 'a scheduled option \<Rightarrow> 'a scheduled \<Rightarrow> 'a scheduled option" where
  "earlier limit best item =
     (if \<not> is_due limit item then best
      else case best of None \<Rightarrow> Some item | Some b \<Rightarrow> if due_before item b then Some item else Some b)"

lemma earliest_due_fold: "earliest_due limit c = foldl (earlier limit) None (clockQueue c)"
proof -
  have "(if (case limit of None \<Rightarrow> False | Some t \<Rightarrow> t < dueAt item) then best
         else case best of None \<Rightarrow> Some item | Some b \<Rightarrow> if due_before item b then Some item else best)
      = earlier limit best item" for best :: "'a scheduled option" and item
    by (auto simp: earlier_def is_due_def split: option.split)
  then show ?thesis unfolding earliest_due_def by (simp add: fun_eq_iff)
qed

lemma earlier_fold:
  assumes "distinct (map schedSeq (ys @ xs))" and "set ys \<supseteq> set_option best"
    and "\<forall>y \<in> set ys. is_due limit y \<longrightarrow> (\<exists>b. best = Some b \<and> is_due limit b \<and> (y = b \<or> due_before b y))"
    and "best = None \<or> (\<exists>b. best = Some b \<and> is_due limit b)"
  shows "case foldl (earlier limit) best xs of
     None \<Rightarrow> \<forall>x \<in> set (ys @ xs). \<not> is_due limit x
   | Some b \<Rightarrow> b \<in> set (ys @ xs) \<and> is_due limit b \<and> (\<forall>x \<in> set (ys @ xs). is_due limit x \<longrightarrow> x = b \<or> due_before b x)"
  using assms
proof (induction xs arbitrary: ys best)
  case Nil
  then show ?case by (cases best) auto
next
  case (Cons x xs)
  have step: "set_option (earlier limit best x) \<subseteq> set (ys @ [x])" using Cons.prems(2) by (auto simp: earlier_def split: option.splits)
  have due: "earlier limit best x = None \<or> (\<exists>b. earlier limit best x = Some b \<and> is_due limit b)"
    using Cons.prems(4) by (auto simp: earlier_def split: option.splits)
  have all: "\<forall>y \<in> set (ys @ [x]). is_due limit y \<longrightarrow>
      (\<exists>b. earlier limit best x = Some b \<and> is_due limit b \<and> (y = b \<or> due_before b y))"
  proof (cases best)
    case None
    then show ?thesis using Cons.prems(3) by (auto simp: earlier_def)
  next
    case (Some b)
    then have "b \<in> set ys" "is_due limit b" using Cons.prems(2,4) by auto
    moreover from this have "schedSeq b \<in> schedSeq ` set ys" by simp
    then have "schedSeq b \<noteq> schedSeq x" using Cons.prems(1) by (metis distinct_append disjoint_iff list.set_intros(1) list.set_map list.simps(9) map_append)
    ultimately show ?thesis
      using Cons.prems(3) Some due_before_linear [of b x] due_before_trans
      by (auto simp: earlier_def)
  qed
  show ?case using Cons.IH [OF _ step all due] Cons.prems(1) unfolding append_assoc append_Cons append_Nil by simp
qed

lemma earliest_due_spec:
  assumes "distinct (map schedSeq (clockQueue c))"
  shows "case earliest_due limit c of
     None \<Rightarrow> \<forall>x \<in> set (clockQueue c). \<not> is_due limit x
   | Some b \<Rightarrow> b \<in> set (clockQueue c) \<and> is_due limit b \<and> (\<forall>x \<in> set (clockQueue c). is_due limit x \<longrightarrow> x = b \<or> due_before b x)"
  using earlier_fold [of "[]" "clockQueue c" None limit] assms unfolding earliest_due_fold append_Nil by simp

lemma remove_seq_mset: "x \<in> set q \<Longrightarrow> distinct (map schedSeq q) \<Longrightarrow> mset q = add_mset x (mset (remove_seq (schedSeq x) q))"
  by (induction q) (auto simp: image_iff)

lemma remove_seq_distinct: "distinct (map schedSeq q) \<Longrightarrow> distinct (map schedSeq (remove_seq n q))"
proof (induction q)
  case (Cons a q)
  have "set (remove_seq n q) \<subseteq> set q" by (induction q) auto
  then show ?case using Cons by auto
qed simp

text \<open>What firing all that is due leaves and produces, when the callbacks schedule nothing.\<close>

definition fires_due :: "int option \<Rightarrow> 'a manual_clock \<Rightarrow> ('a manual_clock \<times> 'a scheduled list) option \<Rightarrow> bool" where
  "fires_due limit c r =
     (case r of
        None \<Rightarrow> False
      | Some (c', fired) \<Rightarrow>
          clock_ok c' \<and> clockSeq c' = clockSeq c \<and> clockNow c \<le> clockNow c'
          \<and> mset fired + mset (clockQueue c') = mset (clockQueue c)
          \<and> sorted_wrt due_before fired \<and> (\<forall>x \<in> set fired. is_due limit x \<and> dueAt x \<le> clockNow c')
          \<and> (\<forall>x \<in> set (clockQueue c'). \<not> is_due limit x))"

lemma fire_due_spec: "clock_ok c \<Longrightarrow> fires_due limit c (fire_due no_reaction limit c)"
proof (induction "length (clockQueue c)" arbitrary: c rule: less_induct)
  case less
  show ?case
  proof (cases "earliest_due limit c")
    case None
    then show ?thesis
      using less.prems earliest_due_spec [of c limit]
      by (subst fire_due.simps) (simp add: fires_due_def clock_ok_def)
  next
    case (Some b)
    have b: "b \<in> set (clockQueue c)" "is_due limit b"
      "\<And>x. x \<in> set (clockQueue c) \<Longrightarrow> is_due limit x \<Longrightarrow> x = b \<or> due_before b x"
      using earliest_due_spec [of c limit] less.prems Some by (auto simp: clock_ok_def)
    have d: "distinct (map schedSeq (clockQueue c))" using less.prems by (simp add: clock_ok_def)
    let ?c1 = "c\<lparr>clockNow := max (clockNow c) (dueAt b), clockQueue := remove_seq (schedSeq b) (clockQueue c)\<rparr>"
    have m: "mset (clockQueue c) = add_mset b (mset (clockQueue ?c1))" using remove_seq_mset [OF b(1) d] by simp
    then have sub: "set (clockQueue c) = insert b (set (clockQueue ?c1))"
      by (metis set_mset_add_mset_insert set_mset_mset)
    have "length (clockQueue ?c1) < length (clockQueue c)"
      using m by (metis size_mset size_add_mset lessI)
    moreover have "dueAt b \<le> dueAt x" if "x \<in> set (clockQueue ?c1)" for x
    proof (cases "is_due limit x")
      case True
      then have "x = b \<or> due_before b x" using b(3) that sub by blast
      then show ?thesis by (auto simp: due_before_def)
    qed (use b(2) in \<open>auto simp: is_due_def split: option.splits\<close>)
    then have ok1: "clock_ok ?c1"
      using less.prems sub remove_seq_distinct [OF d] by (auto simp: clock_ok_def)
    ultimately have "fires_due limit ?c1 (fire_due no_reaction limit ?c1)" by (rule less.hyps)
    then obtain c' fired where r: "fire_due no_reaction limit ?c1 = Some (c', fired)"
      and spec: "clock_ok c'" "clockSeq c' = clockSeq c" "clockNow ?c1 \<le> clockNow c'"
        "mset fired + mset (clockQueue c') = mset (clockQueue ?c1)" "sorted_wrt due_before fired"
        "\<forall>x \<in> set fired. is_due limit x \<and> dueAt x \<le> clockNow c'" "\<forall>x \<in> set (clockQueue c'). \<not> is_due limit x"
      by (auto simp: fires_due_def split: option.splits)
    have f: "fire_due no_reaction limit c = Some (c', b # fired)"
      using Some r by (subst fire_due.simps) (simp add: no_reaction_def)
    have "set fired \<subseteq> set (clockQueue ?c1)" using spec(4) by (metis mset_subset_eq_add_left set_mset_mono set_mset_mset)
    moreover have "b \<notin> set (clockQueue ?c1)"
    proof -
      have "distinct (clockQueue c)" using d by (simp add: distinct_map)
      then have "count (mset (clockQueue c)) b = 1" using b(1) by (simp add: distinct_count_atmost_1)
      then have "count (mset (clockQueue ?c1)) b = 0" using m by simp
      then show ?thesis by (metis count_eq_zero_iff set_mset_mset)
    qed
    ultimately have "\<forall>x \<in> set fired. due_before b x" using b(3) sub spec(6) by blast
    then show ?thesis using f spec b(2) m unfolding fires_due_def by simp
  qed
qed

datatype 'a clock_op = Schedule 'a int | Advance int | RunAll

fun clock_step :: "'a clock_op \<Rightarrow> 'a manual_clock \<Rightarrow> ('a manual_clock \<times> 'a scheduled list) option" where
  "clock_step (Schedule fn d) c = Some (clock_schedule c (fn, d), [])"
| "clock_step (Advance ms) c = advance_clock no_reaction ms c"
| "clock_step RunAll c = run_all no_reaction c"

fun clock_run :: "'a clock_op list \<Rightarrow> 'a manual_clock \<Rightarrow> ('a manual_clock \<times> 'a scheduled list) option" where
  "clock_run [] c = Some (c, [])"
| "clock_run (op # ops) c =
     Option.bind (clock_step op c) (\<lambda>(c1, f1). Option.bind (clock_run ops c1) (\<lambda>(c2, f2). Some (c2, f1 @ f2)))"

text \<open>
  What has fired so far is in order and comes before everything that waits or will be scheduled.
\<close>

definition clock_history :: "'a scheduled list \<Rightarrow> 'a manual_clock \<Rightarrow> bool" where
  "clock_history fired c \<longleftrightarrow> clock_ok c \<and> sorted_wrt due_before fired
     \<and> distinct (map schedSeq (fired @ clockQueue c))
     \<and> set (map schedSeq (fired @ clockQueue c)) = {..<clockSeq c}
     \<and> (\<forall>x \<in> set fired. dueAt x \<le> clockNow c \<and> (\<forall>y \<in> set (clockQueue c). due_before x y))"

lemma history_fires:
  assumes "clock_history fired c" and "fires_due limit c (Some (c', fs))"
  shows "clock_history (fired @ fs) c'"
proof -
  have s: "clock_ok c'" "clockSeq c' = clockSeq c" "clockNow c \<le> clockNow c'"
    "mset fs + mset (clockQueue c') = mset (clockQueue c)" "sorted_wrt due_before fs"
    "\<forall>x \<in> set fs. is_due limit x \<and> dueAt x \<le> clockNow c'" "\<forall>x \<in> set (clockQueue c'). \<not> is_due limit x"
    using assms(2) by (auto simp: fires_due_def)
  have sets: "set (clockQueue c) = set fs \<union> set (clockQueue c')"
    using s(4) by (metis set_mset_mset set_mset_union)
  have "mset (map schedSeq (fired @ fs @ clockQueue c')) = mset (map schedSeq (fired @ clockQueue c))"
    using s(4) by (metis image_mset_union map_append mset_append mset_map)
  then have "distinct (map schedSeq (fired @ fs @ clockQueue c'))"
    "set (map schedSeq (fired @ fs @ clockQueue c')) = {..<clockSeq c'}"
    using assms(1) s(2) unfolding clock_history_def by (metis mset_eq_imp_distinct_iff, metis mset_eq_setD)
  moreover have "due_before x y" if "x \<in> set fs" "y \<in> set (clockQueue c')" for x y
    using that s(6,7) by (auto simp: is_due_def due_before_def split: option.splits) (meson order_trans not_le)+
  ultimately show ?thesis
    using assms(1) s(1,3,5,6) sets unfolding clock_history_def
    by (auto simp: sorted_wrt_append intro: order_trans)
qed

lemma history_waits:
  assumes "clock_history fired c" and "clockNow c \<le> t" and "\<forall>x \<in> set (clockQueue c). t \<le> dueAt x"
  shows "clock_history fired (c\<lparr>clockNow := t\<rparr>)"
  using assms unfolding clock_history_def clock_ok_def by auto

lemma history_step:
  assumes "clock_history fired c"
  shows "\<exists>c' fs. clock_step op c = Some (c', fs) \<and> clock_history (fired @ fs) c'"
proof (cases op)
  case (Schedule fn d)
  let ?x = "\<lparr>dueAt = clockNow c + max 0 d, schedSeq = clockSeq c, callback = fn\<rparr>"
  have c: "clock_schedule c (fn, d) = c\<lparr>clockQueue := clockQueue c @ [?x], clockSeq := clockSeq c + 1\<rparr>"
    by (simp add: clock_schedule_def)
  have fresh: "schedSeq x \<noteq> clockSeq c" "schedSeq x < clockSeq c" if "x \<in> set fired \<union> set (clockQueue c)" for x
  proof -
    have "schedSeq x \<in> set (map schedSeq (fired @ clockQueue c))" using that by auto
    then show "schedSeq x < clockSeq c" using assms unfolding clock_history_def by (metis lessThan_iff)
    then show "schedSeq x \<noteq> clockSeq c" by simp
  qed
  have "clock_history fired (clock_schedule c (fn, d))"
    using assms fresh unfolding clock_history_def clock_ok_def c
    by (auto simp: due_before_def lessThan_Suc intro: less_SucI)
  then show ?thesis using Schedule by simp
next
  case (Advance ms)
  obtain c' fs where f: "fire_due no_reaction (Some (clockNow c + ms)) c = Some (c', fs)"
    "fires_due (Some (clockNow c + ms)) c (Some (c', fs))"
    using fire_due_spec [of c "Some (clockNow c + ms)"] assms
    by (cases "fire_due no_reaction (Some (clockNow c + ms)) c") (auto simp: clock_history_def fires_due_def)
  have h: "clock_history (fired @ fs) c'" by (rule history_fires [OF assms f(2)])
  have "clock_history (fired @ fs) (c'\<lparr>clockNow := max (clockNow c') (clockNow c + ms)\<rparr>)"
    by (rule history_waits [OF h]) (use h f(2) in \<open>auto simp: clock_history_def clock_ok_def fires_due_def is_due_def\<close>)
  then show ?thesis using Advance f(1) by (simp add: advance_clock_def Let_def)
next
  case RunAll
  obtain c' fs where f: "fire_due no_reaction None c = Some (c', fs)" "fires_due None c (Some (c', fs))"
    using fire_due_spec [of c None] assms
    by (cases "fire_due no_reaction None c") (auto simp: clock_history_def fires_due_def)
  then show ?thesis using RunAll history_fires [OF assms f(2)] by (simp add: run_all_def)
qed

lemma history_run:
  "clock_history fired c \<Longrightarrow> \<exists>c' fs. clock_run ops c = Some (c', fs) \<and> clock_history (fired @ fs) c'"
proof (induction ops arbitrary: fired c)
  case (Cons op ops)
  obtain c1 f1 where a: "clock_step op c = Some (c1, f1)" "clock_history (fired @ f1) c1"
    using history_step [OF Cons.prems] by blast
  then obtain c2 f2 where "clock_run ops c1 = Some (c2, f2)" "clock_history ((fired @ f1) @ f2) c2"
    using Cons.IH by blast
  then show ?case using a by simp
qed simp

text \<open>
  The hand-advanced clock delivers everything once and in order. Over any history of
  schedules, advances and drains whose callbacks schedule nothing themselves, firing ends;
  the callbacks fired come in the order of their due times, ties in the order they were
  scheduled; every callback has either fired, once, or still waits; and none that waits was
  due before one that has fired.
\<close>

theorem clock_fires_in_order:
  "case clock_run ops new_clock of
     None \<Rightarrow> False
   | Some (c, fired) \<Rightarrow>
       sorted_wrt due_before fired
       \<and> distinct (map schedSeq (fired @ clockQueue c))
       \<and> set (map schedSeq (fired @ clockQueue c)) = {..<clockSeq c}
       \<and> list_all (\<lambda>x. list_all (due_before x) (clockQueue c)) fired"
proof -
  have "clock_history [] (new_clock :: 'a manual_clock)"
    by (simp add: clock_history_def clock_ok_def new_clock_def)
  from history_run [OF this, of ops] show ?thesis
    by (auto simp: clock_history_def list_all_iff)
qed

subsection \<open>No chaos, no change\<close>

text \<open>
  With its default rates and latency the decorator is a pass-through for every generator: each
  chunk reaches every consumer at once and unchanged.
\<close>

theorem chaos_off_is_transparent:
  "case with_chaos None None None kinds g of
     Inl e \<Rightarrow> False
   | Inr t \<Rightarrow>
       (case on_inner_data random chunk (t\<lparr>consumers := cs\<rparr>) of
          None \<Rightarrow> False
        | Some (t', effs) \<Rightarrow> effs = map (\<lambda>cb. ToConsumer cb chunk) cs \<and> consumers t' = cs)"
proof -
  have "\<not> below_rate k 0" for k by (simp add: below_rate_def)
  then show ?thesis
    by (simp add: with_chaos_def validate_rate_def validate_latency_def on_inner_data_def plan_chunk_def
        sample_latency_def deliver_def case_prod_beta Let_def)
qed

end
