(* ===== verification/Commands.thy ===== *)
theory Commands
  imports Records Client
begin

section \<open>Typed commands and version gates\<close>

text \<open>
  \<open>src/commands/index.ts\<close>, \<open>src/tmux-compat.ts\<close> and \<open>src/watch-server.ts\<close>. A command
  function is asynchronous over any connection: it returns, throws, or executes one command
  and goes on with the response. That is a tree, a \<open>program\<close>; a rejected \<open>execute\<close> rejects the
  whole call, since no command function catches. A program can be run against the outcomes a
  connection gives.
\<close>

subsection \<open>Versions\<close>

record tmux_version =
  major :: jsnum
  minor :: jsnum

definition version :: "int \<Rightarrow> int \<Rightarrow> tmux_version" where
  "version a b = \<lparr>major = Num a, minor = Num b\<rparr>"

definition min_tmux_version :: tmux_version where "min_tmux_version = version 3 2"
definition query_clipboard_min_version :: tmux_version where "query_clipboard_min_version = version 3 3"
definition paste_buffer_notify_min_version :: tmux_version where
  "paste_buffer_notify_min_version = version 3 4"
definition message_notify_min_version :: tmux_version where "message_notify_min_version = version 3 4"
definition request_report_min_version :: tmux_version where "request_report_min_version = version 3 5"
definition no_detach_on_destroy_min_version :: tmux_version where
  "no_detach_on_destroy_min_version = version 3 6"
definition pane_cwd_min_version :: tmux_version where "pane_cwd_min_version = version 3 7"

lemmas min_versions = min_tmux_version_def query_clipboard_min_version_def
  request_report_min_version_def pane_cwd_min_version_def version_def

definition missing_cwd_fallback :: "tmux_version \<Rightarrow> string" where
  "missing_cwd_fallback v = (if major v = Num 3 \<and> minor v = Num 3 then ''server-cwd'' else ''home'')"

text \<open>\<open>TMUX_VERSION_VALUE\<close>; each group is followed by a character it cannot match.\<close>

definition parse_tmux_version_value :: "string \<Rightarrow> tmux_version option" where
  "parse_tmux_version_value value =
     (let t = trim value;
          u = (if take 5 t = ''next-'' then drop 5 t else t);
          m1 = takeWhile is_digit u; r1 = dropWhile is_digit u;
          m2 = takeWhile is_digit (drop 1 r1); r2 = dropWhile is_digit (drop 1 r1);
          r3 = (if r2 \<noteq> [] \<and> 97 \<le> code_of (hd r2) \<and> code_of (hd r2) \<le> 122 then tl r2 else r2)
      in if m1 = [] \<or> take 1 r1 \<noteq> ''.'' \<or> m2 = [] then None
         else if r3 = [] \<or> (take 3 r3 = ''-rc'' \<and> list_all is_digit (drop 3 r3))
         then Some \<lparr>major = parse_int m1, minor = parse_int m2\<rparr> else None)"

text \<open>\<open>TMUX_V_BANNER\<close>: a word, a space, a word.\<close>

definition parse_tmux_version :: "string \<Rightarrow> tmux_version option" where
  "parse_tmux_version versionString =
     (let t = trim versionString;
          word = takeWhile (\<lambda>c. \<not> js_space c) t; rest = dropWhile (\<lambda>c. \<not> js_space c) t
      in if word \<noteq> [] \<and> take 1 rest = [SP] \<and> drop 1 rest \<noteq> []
            \<and> list_all (\<lambda>c. \<not> js_space c) (drop 1 rest)
         then parse_tmux_version_value (drop 1 rest) else parse_tmux_version_value t)"

text \<open>The comparisons of the source on numbers; NaN compares false.\<close>

fun js_less :: "jsnum \<Rightarrow> jsnum \<Rightarrow> bool" where
  "js_less (Num a) (Num b) \<longleftrightarrow> a < b"
| "js_less (Num a) Infinity \<longleftrightarrow> True"
| "js_less NegInfinity (Num b) \<longleftrightarrow> True"
| "js_less NegInfinity Infinity \<longleftrightarrow> True"
| "js_less a b \<longleftrightarrow> False"

definition meets_tmux_version :: "tmux_version \<Rightarrow> tmux_version \<Rightarrow> bool" where
  "meets_tmux_version have need =
     (if \<not> js_eq (major have) (major need) then js_less (major need) (major have)
      else js_less (minor need) (minor have) \<or> js_eq (minor have) (minor need))"

definition watch_client_flags :: string where
  "watch_client_flags = ''ignore-size,no-detach-on-destroy''"

definition watch_server_args :: "string \<Rightarrow> string list" where
  "watch_server_args targetSession =
     [''attach-session'', ''-t'', ''='' @ targetSession, ''-f'', watch_client_flags]"

subsection \<open>Programs\<close>

datatype command_error =
    Rejected client_error
  | RangeError string
  | TmuxReplyFormatError string "string list"
  | UnsupportedTmuxVersionError string tmux_version tmux_version
  | UnrecognizedTmuxVersionError "string list"
  | PaneCwdUnavailableError jsnum

datatype 'a program =
    Return 'a
  | Throw command_error
  | Await string "command_response \<Rightarrow> 'a program"

primrec program_bind :: "'a program \<Rightarrow> ('a \<Rightarrow> 'b program) \<Rightarrow> 'b program" where
  "program_bind (Return x) f = f x"
| "program_bind (Throw e) f = Throw e"
| "program_bind (Await cmd k) f = Await cmd (\<lambda>r. program_bind (k r) f)"

definition execute_command :: "string \<Rightarrow> command_response program" where
  "execute_command cmd = Await cmd Return"

text \<open>
  A run against a connection's outcomes: the commands sent, and how the call ended; None
  while it waits for a reply that has not come.
\<close>

primrec run_program ::
    "'a program \<Rightarrow> (client_error + command_response) list \<Rightarrow> string list \<times> (command_error + 'a) option" where
  "run_program (Return x) = (\<lambda>outcomes. ([], Some (Inr x)))"
| "run_program (Throw e) = (\<lambda>outcomes. ([], Some (Inl e)))"
| "run_program (Await cmd k) = (\<lambda>outcomes.
     (case outcomes of
        [] \<Rightarrow> ([cmd], None)
      | Inl err # rest \<Rightarrow> ([cmd], Some (Inl (Rejected err)))
      | Inr r # rest \<Rightarrow> (let (cmds, res) = run_program (k r) rest in (cmd # cmds, res))))"

subsection \<open>The commands\<close>

definition list_windows :: "window_record list program" where
  "list_windows =
     Await list_windows_command (\<lambda>r. Return (List.map_filter parse_window_record_line (respOutput r)))"

definition list_panes :: "pane_record list program" where
  "list_panes =
     Await list_panes_command (\<lambda>r. Return (List.map_filter parse_pane_record_line (respOutput r)))"

definition list_sessions :: "session_record list program" where
  "list_sessions =
     Await list_sessions_command (\<lambda>r. Return (List.map_filter parse_session_record_line (respOutput r)))"

text \<open>
  \<open>bytes.set(source, offset)\<close> throws when the source does not fit; \<open>bytes[i] = b\<close> out of range
  is ignored.
\<close>

definition bytes_set :: "nat list \<Rightarrow> nat \<Rightarrow> nat list \<Rightarrow> nat list option" where
  "bytes_set source offset buf =
     (if offset + length source \<le> length buf
      then Some (take offset buf @ source @ drop (offset + length source) buf) else None)"

fun capture_fill :: "nat \<Rightarrow> nat list list \<Rightarrow> nat \<Rightarrow> nat list \<Rightarrow> nat list option" where
  "capture_fill i [] offset buf = Some buf"
| "capture_fill i (l # ls) offset buf =
     (let (buf', offset') = (if 0 < i then (buf[offset := 10], Suc offset) else (buf, offset)) in
      Option.bind (bytes_set l offset' buf') (\<lambda>buf''. capture_fill (Suc i) ls (offset' + length l) buf''))"

record pane_capture =
  captureBytes :: "nat list"
  lineCount :: nat

definition capture_pane_bytes :: "string list \<Rightarrow> pane_capture option" where
  "capture_pane_bytes out =
     (let ls = map (map code_of) out;
          separatorCount = (if 0 < length ls then length ls - 1 else 0);
          size = foldl (\<lambda>total l. total + length l) separatorCount ls
      in map_option (\<lambda>b. \<lparr>captureBytes = b, lineCount = length out\<rparr>)
           (capture_fill 0 ls 0 (replicate size 0)))"

definition capture_pane_command :: "jsnum \<Rightarrow> pane_capture option program" where
  "capture_pane_command paneId = Await (capture_pane paneId) (\<lambda>r. Return (capture_pane_bytes (respOutput r)))"

text \<open>\<open>newWindow\<close>: the guards of its fields, in the order of the loop.\<close>

definition bad_field :: "string option \<Rightarrow> bool" where
  "bad_field value = (case value of None \<Rightarrow> False | Some v \<Rightarrow> v = [] \<or> LF \<in> set v)"

definition new_window_command ::
    "string \<Rightarrow> string \<Rightarrow> string option \<Rightarrow> new_window_result program" where
  "new_window_command session cwd command =
     (if bad_field (Some session) then Throw (RangeError ''session'')
      else if bad_field (Some cwd) then Throw (RangeError ''cwd'')
      else if bad_field command then Throw (RangeError ''command'')
      else if take 1 cwd \<noteq> ''/'' then Throw (RangeError ''cwd'')
      else
        let cmd = new_window session cwd command in
        Await cmd (\<lambda>r. case parse_new_window_reply (respOutput r) of
                          None \<Rightarrow> Throw (TmuxReplyFormatError cmd (respOutput r))
                        | Some result \<Rightarrow> Return result))"

definition query_tmux_version :: "tmux_version program" where
  "query_tmux_version =
     Await display_message_version (\<lambda>r.
       case respOutput r of
         [line] \<Rightarrow>
           (case parse_tmux_version_value line of
              None \<Rightarrow> Throw (UnrecognizedTmuxVersionError (respOutput r))
            | Some v \<Rightarrow> Return v)
       | _ \<Rightarrow> Throw (TmuxReplyFormatError display_message_version (respOutput r)))"

definition require_tmux_version :: "string \<Rightarrow> tmux_version \<Rightarrow> unit program" where
  "require_tmux_version feature required =
     program_bind query_tmux_version (\<lambda>v.
       if \<not> meets_tmux_version v required then Throw (UnsupportedTmuxVersionError feature required v)
       else Return ())"

definition pane_cwd :: "jsnum \<Rightarrow> nat list program" where
  "pane_cwd paneId =
     program_bind (require_tmux_version ''paneCwd (#{pane_current_path} after spawn)'' pane_cwd_min_version)
       (\<lambda>u. let cmd = display_message_pane_cwd paneId in
        Await cmd (\<lambda>r.
          case parse_pane_cwd_reply (respOutput r) of
            None \<Rightarrow> Throw (TmuxReplyFormatError cmd (respOutput r))
          | Some cwd \<Rightarrow> if cwd = [] then Throw (PaneCwdUnavailableError paneId) else Return cwd))"

definition send_keys_command :: "jsnum \<Rightarrow> string \<Rightarrow> nat list \<Rightarrow> command_response program" where
  "send_keys_command now tgt keys =
     (case send_keys tgt keys of
        None \<Rightarrow> Return (empty_keys_response now)
      | Some cmd \<Rightarrow> execute_command cmd)"

definition split_window_command :: "split_options \<Rightarrow> command_response program" where
  "split_window_command options = execute_command (split_window options)"

definition set_size :: "jsnum \<Rightarrow> jsnum \<Rightarrow> command_response program" where
  "set_size width height = execute_command (refresh_client_size width height)"

definition set_pane_action :: "jsnum \<Rightarrow> pane_action \<Rightarrow> command_response program" where
  "set_pane_action paneId action = execute_command (refresh_client_pane_action paneId action)"

definition subscribe_raw :: "string \<Rightarrow> string \<Rightarrow> string \<Rightarrow> command_response program" where
  "subscribe_raw name what fmt = execute_command (refresh_client_subscribe name what fmt)"

definition unsubscribe :: "string \<Rightarrow> command_response program" where
  "unsubscribe name = execute_command (refresh_client_unsubscribe name)"

definition set_flags :: "string list \<Rightarrow> command_response program" where
  "set_flags fs = execute_command (refresh_client_set_flags fs)"

definition clear_flags :: "string list \<Rightarrow> command_response program" where
  "clear_flags fs = execute_command (refresh_client_clear_flags fs)"

record own_client =
  ownName :: string
  ownPid :: js_numeric
  ownFlags :: "string list"

text \<open>\<open>OWN_CLIENT_LINE\<close>: digits, a word, and the rest of the line, which has no line break.\<close>

definition parse_own_client_line :: "string list \<Rightarrow> command_error + own_client" where
  "parse_own_client_line ls =
     (let malformed = Inl (TmuxReplyFormatError display_message_own_client ls) in
      case ls of
        [line] \<Rightarrow>
          let m1 = takeWhile is_digit line; r1 = dropWhile is_digit line;
              m2 = takeWhile (\<lambda>c. \<not> js_space c) (drop 1 r1);
              r2 = dropWhile (\<lambda>c. \<not> js_space c) (drop 1 r1); m3 = drop 1 r2
          in if m1 \<noteq> [] \<and> take 1 r1 = [SP] \<and> m2 \<noteq> [] \<and> take 1 r2 = [SP] \<and> m3 \<noteq> []
                \<and> list_all (\<lambda>c. c \<noteq> LF \<and> c \<noteq> CR) m3
             then Inr \<lparr>ownName = m3, ownPid = js_number m1, ownFlags = split_on (CHR '','') m2\<rparr>
             else malformed
      | _ \<Rightarrow> malformed)"

definition get_own_client :: "own_client program" where
  "get_own_client =
     Await display_message_own_client (\<lambda>r.
       case parse_own_client_line (respOutput r) of Inl e \<Rightarrow> Throw e | Inr c \<Rightarrow> Return c)"

definition request_report :: "jsnum \<Rightarrow> string \<Rightarrow> command_response program" where
  "request_report paneId report =
     program_bind (require_tmux_version ''requestReport (refresh-client -r)'' request_report_min_version)
       (\<lambda>u. execute_command (refresh_client_report paneId report))"

definition query_clipboard :: "command_response program" where
  "query_clipboard =
     program_bind (require_tmux_version ''queryClipboard (refresh-client -l)'' query_clipboard_min_version)
       (\<lambda>u. execute_command refresh_client_query_clipboard)"

subsection \<open>Version gates\<close>

text \<open>The version a connection's first reply reports.\<close>

definition reported :: "(client_error + command_response) list \<Rightarrow> tmux_version option" where
  "reported outcomes =
     (case outcomes of
        Inr r # rest \<Rightarrow> (case respOutput r of [line] \<Rightarrow> parse_tmux_version_value line | _ \<Rightarrow> None)
      | _ \<Rightarrow> None)"

definition admitted_version :: "tmux_version \<Rightarrow> (client_error + command_response) list \<Rightarrow> bool" where
  "admitted_version required outcomes =
     (case reported outcomes of None \<Rightarrow> False | Some v \<Rightarrow> meets_tmux_version v required)"

lemma program_bind_simps [simp]:
  "program_bind (program_bind p f) g = program_bind p (\<lambda>x. program_bind (f x) g)"
  by (induction p) simp_all

lemma run_gate:
  "run_program (program_bind (require_tmux_version feature required) k) outcomes =
     (if admitted_version required outcomes
      then (let (cmds, res) = run_program (k ()) (tl outcomes) in (display_message_version # cmds, res))
      else ([display_message_version],
        case outcomes of
          [] \<Rightarrow> None
        | Inl err # rest \<Rightarrow> Some (Inl (Rejected err))
        | Inr r # rest \<Rightarrow> Some (Inl
            (case reported outcomes of
               Some v \<Rightarrow> UnsupportedTmuxVersionError feature required v
             | None \<Rightarrow> if length (respOutput r) = 1 then UnrecognizedTmuxVersionError (respOutput r)
                       else TmuxReplyFormatError display_message_version (respOutput r)))))"
proof (cases outcomes)
  case Nil
  then show ?thesis
    by (simp add: require_tmux_version_def query_tmux_version_def admitted_version_def reported_def)
next
  case (Cons x rest)
  show ?thesis
  proof (cases x)
    case (Inl err)
    then show ?thesis using Cons
      by (simp add: require_tmux_version_def query_tmux_version_def admitted_version_def reported_def)
  next
    case (Inr r)
    consider "respOutput r = []" | l where "respOutput r = [l]" | l m ls where "respOutput r = l # m # ls"
      by (metis neq_Nil_conv)
    then show ?thesis using Cons Inr
      by cases (simp_all add: require_tmux_version_def query_tmux_version_def admitted_version_def
          reported_def split: option.splits)
  qed
qed

text \<open>
  No gated command reaches a tmux that does not have it. \<open>requestReport\<close>,
  \<open>queryClipboard\<close> and \<open>paneCwd\<close> probe the running version first, and send their command
  exactly when the one-line reply is a version at or above the command's floor in the order
  of major, then minor; whatever the connection answers, nothing else is ever sent.
\<close>

theorem version_gate:
  "(\<forall>outcomes.
      fst (run_program (request_report p report) outcomes) = display_message_version #
        (if admitted_version (version 3 5) outcomes then [refresh_client_report p report] else [])
    \<and> fst (run_program query_clipboard outcomes) = display_message_version #
        (if admitted_version (version 3 3) outcomes then [refresh_client_query_clipboard] else [])
    \<and> fst (run_program (pane_cwd p) outcomes) = display_message_version #
        (if admitted_version (version 3 7) outcomes then [display_message_pane_cwd p] else []))
   \<and> (meets_tmux_version (version a b) (version c d) \<longleftrightarrow> c < a \<or> (c = a \<and> d \<le> b))"
proof -
  have one: "fst (run_program (Await cmd k) outcomes) = [cmd]"
    if "\<And>r. (\<exists>x. k r = Return x) \<or> (\<exists>e. k r = Throw e)" for cmd outcomes and k :: "command_response \<Rightarrow> 'b program"
    using that by (auto split: list.splits sum.splits simp: split_beta) (metis fst_conv run_program.simps(1,2))
  have "fst (run_program (execute_command cmd) outcomes) = [cmd]" for cmd outcomes
    unfolding execute_command_def by (rule one) simp
  moreover have "fst (run_program (let cmd = display_message_pane_cwd p in
        Await cmd (\<lambda>r.
          case parse_pane_cwd_reply (respOutput r) of
            None \<Rightarrow> Throw (TmuxReplyFormatError cmd (respOutput r))
          | Some cwd \<Rightarrow> if cwd = [] then Throw (PaneCwdUnavailableError p) else Return cwd)) outcomes) =
      [display_message_pane_cwd p]" for outcomes
    unfolding Let_def by (rule one) (simp split: option.splits)
  ultimately have "fst (run_program (request_report p report) outcomes) = display_message_version #
        (if admitted_version (version 3 5) outcomes then [refresh_client_report p report] else [])"
    "fst (run_program query_clipboard outcomes) = display_message_version #
        (if admitted_version (version 3 3) outcomes then [refresh_client_query_clipboard] else [])"
    "fst (run_program (pane_cwd p) outcomes) = display_message_version #
        (if admitted_version (version 3 7) outcomes then [display_message_pane_cwd p] else [])" for outcomes
    by (simp_all add: request_report_def query_clipboard_def pane_cwd_def run_gate split_beta Let_def
        request_report_min_version_def query_clipboard_min_version_def pane_cwd_min_version_def
        del: run_program.simps)
  moreover have "meets_tmux_version (version a b) (version c d) \<longleftrightarrow> c < a \<or> (c = a \<and> d \<le> b)"
    by (auto simp: meets_tmux_version_def version_def js_eq_def)
  ultimately show ?thesis by blast
qed

subsection \<open>\<open>newWindow\<close>\<close>

lemma trim_head:
  assumes "\<not> js_space c"
  shows "\<exists>s'. trim (c # s) = c # s'"
proof -
  have "dropWhile js_space (rev (c # s)) = dropWhile js_space (rev s @ [c])" by simp
  also have "\<exists>t. \<dots> = t @ [c]"
    using assms by (metis append_Cons append_Nil dropWhile.simps dropWhile_append1 dropWhile_append2)
  finally show ?thesis using assms by (auto simp: trim_def) (metis rev_rev_ident)
qed

lemma valid_command:
  assumes "\<not> js_space c" and "c \<noteq> CHR ''#''" and "LF \<notin> set (c # s)"
  shows "invalid_command (c # s) = None"
  using trim_head [OF assms(1), of s] assms(2,3) by (auto simp: invalid_command_def Let_def)

lemma replace_char_set: "x \<in> set (replace_char c r s) \<Longrightarrow> x \<in> set r \<or> x \<in> set s"
  by (auto simp: replace_char_def split: if_splits)

lemma escape_no_newline [simp]:
  "LF \<in> set (tmux_escape s) \<longleftrightarrow> LF \<in> set s"
  "LF \<in> set (tmux_format_literal s) \<longleftrightarrow> LF \<in> set s"
proof -
  have r: "LF \<in> set (replace_char c r s) \<longleftrightarrow> LF \<in> set s" if "LF \<notin> set r" "c \<noteq> LF" for c r s
    using that by (auto simp: replace_char_def)
  show "LF \<in> set (tmux_escape s) \<longleftrightarrow> LF \<in> set s" for s by (simp add: tmux_escape_def r)
  then show "LF \<in> set (tmux_format_literal s) \<longleftrightarrow> LF \<in> set s" by (simp add: tmux_format_literal_def r)
qed


text \<open>The calls \<open>newWindow\<close> must refuse.\<close>

definition new_window_refused :: "string \<Rightarrow> string \<Rightarrow> string option \<Rightarrow> bool" where
  "new_window_refused session cwd command \<longleftrightarrow>
     session = [] \<or> LF \<in> set session \<or> cwd = [] \<or> LF \<in> set cwd
     \<or> (\<exists>c. command = Some c \<and> (c = [] \<or> LF \<in> set c)) \<or> take 1 cwd \<noteq> ''/''"

lemma new_window_newline:
  "LF \<in> set (new_window s c cmd) \<longleftrightarrow>
     LF \<in> set s \<or> LF \<in> set c \<or> (\<exists>x. cmd = Some x \<and> LF \<in> set x)"
  by (cases cmd) (auto simp: new_window_def Let_def)

lemma new_window_valid:
  assumes "LF \<notin> set (new_window s c cmd)"
  shows "invalid_command (new_window s c cmd) = None"
proof -
  obtain t where "new_window s c cmd = CHR ''n'' # t"
    by (cases cmd) (simp_all add: new_window_def Let_def)
  then show ?thesis using assms valid_command [of "CHR ''n''" t] by (simp add: js_space_def)
qed

text \<open>
  \<open>newWindow\<close> sends either nothing or one command that is a valid line. The call is
  refused, before anything is sent, exactly when a field is empty or holds a newline or the
  directory is not absolute; otherwise exactly the encoded command goes out, which
  \<open>execute\<close> accepts, and a reply that is not one pair of ids is an error, never invented ids.
\<close>

theorem new_window_guarded:
  "let (cmds, res) = run_program (new_window_command session cwd command) outcomes;
       refused = new_window_refused session cwd command in
     cmds = (if refused then [] else [new_window session cwd command])
     \<and> list_all (\<lambda>c. invalid_command c = None) cmds
     \<and> (refused \<longleftrightarrow> (\<exists>field. res = Some (Inl (RangeError field))))
     \<and> ((\<exists>w. res = Some (Inr w)) \<longleftrightarrow>
          cmds \<noteq> [] \<and> (\<exists>r rest w. outcomes = Inr r # rest \<and> parse_new_window_reply (respOutput r) = Some w
             \<and> res = Some (Inr w)))"
proof -
  let ?refused = "new_window_refused session cwd command"
  let ?cmd = "new_window session cwd command"
  let ?k = "\<lambda>r. case parse_new_window_reply (respOutput r) of
      None \<Rightarrow> Throw (TmuxReplyFormatError ?cmd (respOutput r)) | Some result \<Rightarrow> Return result"
  show ?thesis
  proof (cases ?refused)
    case True
    then have "bad_field (Some session) \<or> bad_field (Some cwd) \<or> bad_field command \<or> take 1 cwd \<noteq> ''/''"
      by (auto simp: bad_field_def new_window_refused_def)
    then obtain field where "new_window_command session cwd command = Throw (RangeError field)"
      unfolding new_window_command_def
      by (cases "bad_field (Some session)"; cases "bad_field (Some cwd)"; cases "bad_field command") simp_all
    then show ?thesis using True by simp
  next
    case False
    then have "new_window_command session cwd command = Await ?cmd ?k"
      by (auto simp: new_window_refused_def new_window_command_def bad_field_def Let_def split: option.splits)
    moreover have "invalid_command ?cmd = None"
      using False by (intro new_window_valid) (auto simp: new_window_newline new_window_refused_def)
    moreover have "run_program (Await ?cmd ?k) outcomes =
        ([?cmd], case outcomes of [] \<Rightarrow> None | Inl err # rest \<Rightarrow> Some (Inl (Rejected err))
          | Inr r # rest \<Rightarrow> (case parse_new_window_reply (respOutput r) of
              None \<Rightarrow> Some (Inl (TmuxReplyFormatError ?cmd (respOutput r))) | Some w \<Rightarrow> Some (Inr w)))"
      by (simp split: list.splits sum.splits option.splits)
    ultimately show ?thesis
      using False by (simp split: list.splits sum.splits option.splits)
  qed
qed

text \<open>
  A carriage return that a CRLF transport leaves on the last line of a reply, which the
  listing parsers tolerate, makes \<open>newWindow\<close> reject after the window was made and
  \<open>getOwnClient\<close> reject always.
\<close>

theorem crlf_reply_refused:
  "let ids = sigil_id (CHR ''@'') w @ [TAB] @ sigil_id (CHR ''%'') p;
       own = nat_str pid @ '' attached client-1'' in
     parse_new_window_reply [ids] \<noteq> None \<and> parse_new_window_reply [ids @ [CR]] = None
     \<and> parse_own_client_line [own] = Inr \<lparr>ownName = ''client-1'', ownPid = js_number (nat_str pid),
                                           ownFlags = [''attached'']\<rparr>
     \<and> parse_own_client_line [own @ [CR]] =
         Inl (TmuxReplyFormatError display_message_own_client [own @ [CR]])"
proof -
  have d: "list_all is_digit (nat_str n)" for n using nat_str_digits by (auto simp: list_all_iff)
  have split: "split_on TAB (sigil_id (CHR ''@'') w @ [TAB] @ sigil_id (CHR ''%'') p @ replicate k CR) =
      [sigil_id (CHR ''@'') w, sigil_id (CHR ''%'') p @ replicate k CR]" for k
    using split_on_Cons_sep [of TAB "sigil_id (CHR ''@'') w" "sigil_id (CHR ''%'') p @ replicate k CR"]
      split_on_single [of TAB "sigil_id (CHR ''%'') p @ replicate k CR"]
    by (simp add: sigil_no_tab)
  have "\<not> is_digit CR" by (simp add: is_digit_def)
  then have new: "parse_new_window_reply [sigil_id (CHR ''@'') w @ [TAB] @ sigil_id (CHR ''%'') p] \<noteq> None"
    "parse_new_window_reply [sigil_id (CHR ''@'') w @ [TAB] @ sigil_id (CHR ''%'') p @ [CR]] = None"
    using split [of 0] split [of 1] d
    by (simp_all add: parse_new_window_reply_def sigil_digits_def sigil_id_def)
  have sp: "\<not> is_digit SP" by (simp add: is_digit_def)
  have tw: "takeWhile is_digit (nat_str pid @ SP # t) = nat_str pid"
    "dropWhile is_digit (nat_str pid @ SP # t) = SP # t" for t
    using d [of pid] sp by (simp_all add: list_all_iff takeWhile_append2 dropWhile_append2)
  have "parse_own_client_line [nat_str pid @ '' attached client-1''] =
      Inr \<lparr>ownName = ''client-1'', ownPid = js_number (nat_str pid), ownFlags = [''attached'']\<rparr>"
    "parse_own_client_line [nat_str pid @ '' attached client-1'' @ [CR]] =
      Inl (TmuxReplyFormatError display_message_own_client [nat_str pid @ '' attached client-1'' @ [CR]])"
    by (simp_all add: parse_own_client_line_def tw js_space_def)
  then show ?thesis using new by (simp add: Let_def)
qed

subsection \<open>\<open>capturePane\<close>\<close>

lemma bytes_set_at:
  "length old = n \<Longrightarrow> length source \<le> length rest \<Longrightarrow>
   bytes_set source n (old @ rest) = Some (old @ source @ drop (length source) rest)"
  by (simp add: bytes_set_def)


text \<open>The bytes still to write after the first line: a separator before each.\<close>

definition separated :: "nat list list \<Rightarrow> nat list" where
  "separated ls = concat (map (\<lambda>l. 10 # l) ls)"

lemma capture_fill_rest:
  "0 < i \<Longrightarrow> length old = n \<Longrightarrow> length rest = length (separated ls) \<Longrightarrow>
   capture_fill i ls n (old @ rest) = Some (old @ separated ls)"
proof (induction ls arbitrary: i n old rest)
  case Nil
  then show ?case by (simp add: separated_def)
next
  case (Cons l ls)
  obtain x rest' where rest: "rest = x # rest'" using Cons.prems(3) by (cases rest) (auto simp: separated_def)
  have len: "length rest' = length l + length (separated ls)"
    using Cons.prems(3) by (simp add: rest separated_def)
  have w: "(old @ rest)[n := 10] = (old @ [10]) @ rest'" using Cons.prems(2) by (simp add: rest list_update_append)
  have "bytes_set l (Suc n) ((old @ [10]) @ rest') = Some ((old @ [10]) @ l @ drop (length l) rest')"
    using Cons.prems(2) len by (intro bytes_set_at) simp_all
  moreover have "capture_fill (Suc i) ls (Suc n + length l) ((old @ [10] @ l) @ drop (length l) rest') =
      Some ((old @ [10] @ l) @ separated ls)"
    using Cons.prems(2) len by (intro Cons.IH) simp_all
  ultimately show ?case using Cons.prems(1) w by (simp add: separated_def)
qed

lemma foldl_total: "foldl (\<lambda>total l. total + length l) n ls = n + length (concat ls)"
  by (induction ls arbitrary: n) simp_all

lemma length_separated: "length (separated ls) = length ls + length (concat ls)"
  by (induction ls) (simp_all add: separated_def)

lemma join_separated: "join_with [LF] (l # ls) = l @ concat (map (\<lambda>x. LF # x) ls)"
  by (induction ls arbitrary: l) simp_all

text \<open>
  \<open>capturePane\<close> returns the captured lines joined by newlines, for every reply: the one
  preallocated buffer is exactly long enough, no write is out of its range, and the line count
  is the reply's.
\<close>

theorem capture_exact:
  "capture_pane_bytes out =
     Some \<lparr>captureBytes = map code_of (join_with [LF] out), lineCount = length out\<rparr>"
proof (cases out)
  case Nil
  then show ?thesis by (simp add: capture_pane_bytes_def)
next
  case (Cons l ls)
  let ?l = "map code_of l" and ?ls = "map (map code_of) ls"
  let ?size = "length ?l + length (separated ?ls)"
  have size: "foldl (\<lambda>total l. total + length l) (length ls) (?l # ?ls) = ?size"
    by (simp add: foldl_total length_separated)
  have "bytes_set ?l 0 ([] @ replicate ?size 0) = Some ([] @ ?l @ drop (length ?l) (replicate ?size 0))"
    by (rule bytes_set_at) simp_all
  moreover have "capture_fill 1 ?ls (length ?l) (?l @ drop (length ?l) (replicate ?size 0)) =
      Some (?l @ separated ?ls)"
    by (rule capture_fill_rest) simp_all
  moreover have "?l @ separated ?ls = map code_of (join_with [LF] out)"
    unfolding Cons join_separated by (simp add: separated_def map_concat comp_def)
  ultimately show ?thesis
    using size by (simp add: capture_pane_bytes_def Cons Let_def)
qed

end
