(* ===== verification/Backpressure.thy ===== *)
theory Backpressure
  imports Client
begin

section \<open>The bridge's backpressure ledger\<close>

text \<open>
  \<open>src/connectors/backpressure-ledger.ts\<close> and the error codes of \<open>src/connectors/errors.ts\<close>.
  A peer is its identity, a number. A byte count is an integer. The identity of a \<open>PaneFlow\<close>
  object is a token; a Continue in flight is the pane and token its callbacks captured, and
  its settling is an operation of its own. The Pause and the final flush swallow their
  outcome, so nothing is kept of those. The message texts of a reported failure are not
  modelled: the report carries the code and the cause.
\<close>

datatype bridge_error_code =
    TMUX_ERROR | BRIDGE_PROTOCOL_ERROR | BRIDGE_INVALID_REQUEST | BRIDGE_INVALID_ARG
  | BRIDGE_UNKNOWN_METHOD | BRIDGE_TIMEOUT | BRIDGE_CLOSED | BRIDGE_ABORTED | BRIDGE_INTERNAL
  | BRIDGE_AUTH_DENIED | BRIDGE_COMMAND_DENIED | BRIDGE_RATE_LIMITED | BRIDGE_ALREADY_REGISTERED
  | BRIDGE_UNKNOWN_SUBSCRIPTION | BRIDGE_SUBSCRIPTION_FORMAT_CONFLICT

type_synonym peer = nat

record pane_flow =
  flowToken :: nat
  resuming :: bool

record backpressure =
  outstandingBytes :: "(peer \<times> (jsnum \<times> int) list) list"
  pausedPanes :: "(jsnum \<times> pane_flow) list"
  high :: int
  low :: int
  nextFlow :: nat
  continues :: "(jsnum \<times> nat) list"

datatype flow_effect =
    SendAction jsnum pane_action
  | ReportResumeFailure jsnum bridge_error_code client_error

definition default_output_high_watermark :: int where "default_output_high_watermark = 2 ^ 20"
definition default_output_low_watermark :: int where "default_output_low_watermark = 2 ^ 18"

definition new_backpressure :: "int option \<Rightarrow> int option \<Rightarrow> bridge_error_code + backpressure" where
  "new_backpressure outputHigh outputLow =
     (let h = (case outputHigh of None \<Rightarrow> default_output_high_watermark | Some h \<Rightarrow> h);
          l = (case outputLow of None \<Rightarrow> default_output_low_watermark | Some l \<Rightarrow> l)
      in if \<not> (h > l \<and> l \<ge> 0) then Inl BRIDGE_INVALID_ARG
         else Inr \<lparr>outstandingBytes = [], pausedPanes = [], high = h, low = l, nextFlow = 0, continues = []\<rparr>)"

definition resume_failure_code :: "client_error \<Rightarrow> bridge_error_code" where
  "resume_failure_code err =
     (case err of
        TmuxCommandError resp \<Rightarrow> TMUX_ERROR
      | TmuxProtocolError n line out \<Rightarrow> BRIDGE_PROTOCOL_ERROR
      | _ \<Rightarrow> BRIDGE_INTERNAL)"

definition register_peer :: "peer \<Rightarrow> backpressure \<Rightarrow> bridge_error_code + backpressure" where
  "register_peer q l =
     (if map_of (outstandingBytes l) q \<noteq> None then Inl BRIDGE_INTERNAL
      else Inr (l\<lparr>outstandingBytes := AList.update q [] (outstandingBytes l)\<rparr>))"

definition pane_bytes :: "jsnum \<Rightarrow> (jsnum \<times> int) list \<Rightarrow> int" where
  "pane_bytes p m = (case map_of m p of None \<Rightarrow> 0 | Some n \<Rightarrow> n)"

definition total_outstanding :: "jsnum \<Rightarrow> backpressure \<Rightarrow> int" where
  "total_outstanding p l = foldl (\<lambda>sum m. sum + pane_bytes p m) 0 (map snd (outstandingBytes l))"

definition maybe_pause :: "jsnum \<Rightarrow> backpressure \<Rightarrow> backpressure \<times> flow_effect list" where
  "maybe_pause p l =
     (if map_of (pausedPanes l) p \<noteq> None then (l, [])
      else if total_outstanding p l < high l then (l, [])
      else (l\<lparr>pausedPanes := AList.update p \<lparr>flowToken = nextFlow l, resuming = False\<rparr> (pausedPanes l),
              nextFlow := Suc (nextFlow l)\<rparr>, [SendAction p ActionPause]))"

definition maybe_resume :: "backpressure \<Rightarrow> jsnum \<Rightarrow> backpressure \<times> flow_effect list" where
  "maybe_resume l p =
     (case map_of (pausedPanes l) p of
        None \<Rightarrow> (l, [])
      | Some flow \<Rightarrow>
          if total_outstanding p l > low l then (l, [])
          else if resuming flow then (l, [])
          else (l\<lparr>pausedPanes := AList.update p (flow\<lparr>resuming := True\<rparr>) (pausedPanes l),
                  continues := continues l @ [(p, flowToken flow)]\<rparr>, [SendAction p ActionContinue]))"

text \<open>The two callbacks of the Continue.\<close>

definition is_flow :: "backpressure \<Rightarrow> jsnum \<Rightarrow> nat \<Rightarrow> bool" where
  "is_flow l p token \<longleftrightarrow>
     (case map_of (pausedPanes l) p of None \<Rightarrow> False | Some flow \<Rightarrow> flowToken flow = token)"

definition continue_done :: "jsnum \<Rightarrow> nat \<Rightarrow> backpressure \<Rightarrow> backpressure" where
  "continue_done p token l =
     (if is_flow l p token then l\<lparr>pausedPanes := AList.delete p (pausedPanes l)\<rparr> else l)"

definition continue_failed ::
    "jsnum \<Rightarrow> nat \<Rightarrow> client_error \<Rightarrow> backpressure \<Rightarrow> backpressure \<times> flow_effect list" where
  "continue_failed p token err l =
     (if \<not> is_flow l p token then (l, [])
      else if is_connection_gone err then (l\<lparr>pausedPanes := AList.delete p (pausedPanes l)\<rparr>, [])
      else (l\<lparr>pausedPanes := AList.update p \<lparr>flowToken = token, resuming = False\<rparr> (pausedPanes l)\<rparr>,
            [ReportResumeFailure p (resume_failure_code err) err]))"

definition account :: "peer \<Rightarrow> jsnum \<Rightarrow> int \<Rightarrow> backpressure \<Rightarrow> backpressure \<times> flow_effect list" where
  "account q p bytes l =
     (case map_of (outstandingBytes l) q of
        None \<Rightarrow> (l, [])
      | Some m \<Rightarrow>
          if bytes \<le> 0 then (l, [])
          else maybe_pause p
            (l\<lparr>outstandingBytes := AList.update q (AList.update p (pane_bytes p m + bytes) m) (outstandingBytes l)\<rparr>))"

definition ack :: "peer \<Rightarrow> jsnum \<Rightarrow> int \<Rightarrow> backpressure \<Rightarrow> backpressure \<times> flow_effect list" where
  "ack q p bytes l =
     (case map_of (outstandingBytes l) q of
        None \<Rightarrow> (l, [])
      | Some m \<Rightarrow>
          if bytes \<le> 0 then (l, [])
          else
            let nxt = max 0 (pane_bytes p m - bytes);
                m' = (if nxt = 0 then AList.delete p m else AList.update p nxt m)
            in maybe_resume (l\<lparr>outstandingBytes := AList.update q m' (outstandingBytes l)\<rparr>) p)"

definition clear_peer :: "peer \<Rightarrow> backpressure \<Rightarrow> backpressure \<times> flow_effect list" where
  "clear_peer q l =
     (case map_of (outstandingBytes l) q of
        None \<Rightarrow> (l, [])
      | Some m \<Rightarrow>
          run_steps maybe_resume (l\<lparr>outstandingBytes := AList.update q [] (outstandingBytes l)\<rparr>) (map fst m))"

definition release_peer :: "backpressure \<Rightarrow> peer \<Rightarrow> backpressure \<times> flow_effect list" where
  "release_peer l q =
     (case map_of (outstandingBytes l) q of
        None \<Rightarrow> (l, [])
      | Some m \<Rightarrow>
          run_steps maybe_resume (l\<lparr>outstandingBytes := AList.delete q (outstandingBytes l)\<rparr>) (map fst m))"

definition flush_paused_panes :: "backpressure \<Rightarrow> backpressure \<times> flow_effect list" where
  "flush_paused_panes l =
     (l\<lparr>pausedPanes := []\<rparr>,
      map (\<lambda>(p, flow). SendAction p ActionContinue) (filter (\<lambda>(p, flow). \<not> resuming flow) (pausedPanes l)))"

definition dispose_ledger :: "backpressure \<Rightarrow> backpressure \<times> flow_effect list" where
  "dispose_ledger l =
     (let (l1, e1) = run_steps release_peer l (map fst (outstandingBytes l));
          (l2, e2) = flush_paused_panes l1
      in (l2, e1 @ e2))"

datatype flow_op =
    RegisterPeer peer
  | Account peer jsnum int
  | Ack peer jsnum int
  | ClearPeer peer
  | ReleasePeer peer
  | DisposeLedger
  | ContinueDone jsnum nat
  | ContinueFailed jsnum nat client_error

fun flow_step :: "backpressure \<Rightarrow> flow_op \<Rightarrow> backpressure \<times> flow_effect list" where
  "flow_step l (RegisterPeer q) = (case register_peer q l of Inl e \<Rightarrow> (l, []) | Inr l' \<Rightarrow> (l', []))"
| "flow_step l (Account q p n) = account q p n l"
| "flow_step l (Ack q p n) = ack q p n l"
| "flow_step l (ClearPeer q) = clear_peer q l"
| "flow_step l (ReleasePeer q) = release_peer l q"
| "flow_step l DisposeLedger = dispose_ledger l"
| "flow_step l (ContinueDone p token) =
     (if (p, token) \<in> set (continues l)
      then (continue_done p token (l\<lparr>continues := remove1 (p, token) (continues l)\<rparr>), []) else (l, []))"
| "flow_step l (ContinueFailed p token err) =
     (if (p, token) \<in> set (continues l)
      then continue_failed p token err (l\<lparr>continues := remove1 (p, token) (continues l)\<rparr>) else (l, []))"

subsection \<open>No pane is left stranded\<close>

definition pane_total :: "jsnum \<Rightarrow> (peer \<times> (jsnum \<times> int) list) list \<Rightarrow> int" where
  "pane_total p out = sum_list (map (\<lambda>x. pane_bytes p (snd x)) out)"

lemma total_outstanding_total [simp]: "total_outstanding p l = pane_total p (outstandingBytes l)"
proof -
  have "foldl (\<lambda>sum m. sum + pane_bytes p m) s ms = s + sum_list (map (pane_bytes p) ms)" for s ms
    by (induction ms arbitrary: s) simp_all
  then show ?thesis by (simp add: total_outstanding_def pane_total_def comp_def)
qed

text \<open>The bytes a peer holds are positive; keys are unique.\<close>

definition counts_ok :: "(peer \<times> (jsnum \<times> int) list) list \<Rightarrow> bool" where
  "counts_ok out \<longleftrightarrow> distinct (map fst out) \<and>
     (\<forall>q m. map_of out q = Some m \<longrightarrow> distinct (map fst m) \<and> (\<forall>p n. map_of m p = Some n \<longrightarrow> 0 < n))"

text \<open>
  A Continue in flight belongs to the flow that waits for it, and no pane but those excused
  is paused without one while its bytes are at or below the low watermark.
\<close>

definition flows_ok :: "backpressure \<Rightarrow> bool" where
  "flows_ok l \<longleftrightarrow>
     0 \<le> low l \<and> low l < high l \<and> distinct (map fst (pausedPanes l)) \<and> distinct (continues l) \<and>
     (\<forall>p flow. map_of (pausedPanes l) p = Some flow \<longrightarrow>
        flowToken flow < nextFlow l \<and> (resuming flow \<longleftrightarrow> (p, flowToken flow) \<in> set (continues l))) \<and>
     (\<forall>(p, token)\<in>set (continues l). token < nextFlow l)"

definition waiting_for_drain :: "jsnum set \<Rightarrow> backpressure \<Rightarrow> bool" where
  "waiting_for_drain except l \<longleftrightarrow>
     (\<forall>p flow. map_of (pausedPanes l) p = Some flow \<and> \<not> resuming flow \<and> p \<notin> except \<longrightarrow>
        low l < pane_total p (outstandingBytes l))"

lemma total_split:
  "distinct (map fst out) \<Longrightarrow>
   pane_total p out = pane_total p (AList.delete q out) + (case map_of out q of None \<Rightarrow> 0 | Some m \<Rightarrow> pane_bytes p m)"
proof (induction out)
  case Nil
  then show ?case by (simp add: pane_total_def)
next
  case (Cons x out)
  obtain r m where x: "x = (r, m)" by (cases x)
  show ?case
  proof (cases "r = q")
    case True
    then have "AList.delete q out = out" using Cons.prems x by simp
    then show ?thesis by (simp add: x True pane_total_def)
  next
    case False
    then show ?thesis using Cons x by (simp add: pane_total_def)
  qed
qed

lemma total_update:
  assumes "distinct (map fst out)"
  shows "pane_total p (AList.update q m out) = pane_total p (AList.delete q out) + pane_bytes p m"
proof -
  have "distinct (map fst (AList.update q m out))" by (rule distinct_update [OF assms])
  from total_split [OF this, of p q] show ?thesis by (simp add: delete_update_same)
qed


lemma flows_ok_outstanding [simp]: "flows_ok (l\<lparr>outstandingBytes := x\<rparr>) = flows_ok l"
  by (simp add: flows_ok_def)

lemma maybe_pause_ok:
  assumes "flows_ok l" and "waiting_for_drain E l"
  shows "flows_ok (fst (maybe_pause p l))" "waiting_for_drain E (fst (maybe_pause p l))"
  using assms
  by (auto simp: maybe_pause_def flows_ok_def waiting_for_drain_def distinct_update less_Suc_eq
      simp del: map_of_eq_Some_iff)

lemma maybe_pause_same [simp]: "outstandingBytes (fst (maybe_pause p l)) = outstandingBytes l"
  by (simp add: maybe_pause_def)

lemma maybe_resume_same [simp]:
  "outstandingBytes (fst (maybe_resume l p)) = outstandingBytes l"
  by (simp add: maybe_resume_def split: option.splits)

lemma maybe_resume_ok:
  assumes "flows_ok l"
  shows "flows_ok (fst (maybe_resume l p))"
  using assms
  by (auto simp: maybe_resume_def flows_ok_def distinct_update split: option.splits
      simp del: map_of_eq_Some_iff)

lemma maybe_resume_drain:
  assumes "waiting_for_drain E l"
  shows "waiting_for_drain (E - {p}) (fst (maybe_resume l p))"
  using assms
  by (auto simp: maybe_resume_def waiting_for_drain_def split: option.splits
      simp del: map_of_eq_Some_iff)

lemma resume_run:
  assumes "flows_ok l"
  shows "flows_ok (fst (run_steps maybe_resume l ps))"
    "waiting_for_drain E l \<Longrightarrow> waiting_for_drain (E - set ps) (fst (run_steps maybe_resume l ps))"
    "outstandingBytes (fst (run_steps maybe_resume l ps)) = outstandingBytes l"
  using assms
proof (induction ps arbitrary: l E)
  case (Cons p ps)
  { case 1 then show ?case using Cons.IH(1) maybe_resume_ok by simp }
  { case 2
    have "E - set (p # ps) = (E - {p}) - set ps" by auto
    then show ?case using Cons.IH(2) [OF maybe_resume_drain maybe_resume_ok] 2 by simp }
  { case 3 then show ?case using Cons.IH(3) maybe_resume_ok by simp }
qed simp_all

lemma counts_update:
  "counts_ok out \<Longrightarrow> distinct (map fst m) \<Longrightarrow> (\<forall>p n. map_of m p = Some n \<longrightarrow> 0 < n) \<Longrightarrow>
   counts_ok (AList.update q m out)"
  by (auto simp: counts_ok_def distinct_update simp del: map_of_eq_Some_iff)

lemma counts_delete: "counts_ok out \<Longrightarrow> counts_ok (AList.delete q out)"
  by (auto simp: counts_ok_def distinct_delete simp del: map_of_eq_Some_iff split: if_splits)

text \<open>Emptying one peer's slot lowers only the panes it held.\<close>

lemma slot_total:
  assumes "counts_ok out" and "map_of out q = Some m" and "p \<notin> set (map fst m)"
  shows "pane_total p (AList.update q [] out) = pane_total p out" "pane_total p (AList.delete q out) = pane_total p out"
proof -
  have "pane_bytes p m = 0" "pane_bytes p [] = 0"
    using assms(3) map_of_eq_None_iff [of m p] by (simp_all add: pane_bytes_def)
  then show "pane_total p (AList.update q [] out) = pane_total p out" "pane_total p (AList.delete q out) = pane_total p out"
    using total_split [of out p q] total_update [of out p q] assms(1,2) by (simp_all add: counts_ok_def)
qed

lemma account_ok:
  assumes "flows_ok l" "waiting_for_drain E l" "counts_ok (outstandingBytes l)"
  shows "flows_ok (fst (account q p n l))" "waiting_for_drain E (fst (account q p n l))"
    "counts_ok (outstandingBytes (fst (account q p n l)))"
proof -
  show "flows_ok (fst (account q p n l))"
    using assms(1) maybe_pause_ok(1) [of _ "UNIV"]
    by (auto simp: account_def waiting_for_drain_def split: option.splits)
  show "waiting_for_drain E (fst (account q p n l))"
  proof (cases "map_of (outstandingBytes l) q")
    case None
    then show ?thesis using assms by (simp add: account_def)
  next
    case (Some m)
    have "pane_total r (AList.update q (AList.update p (pane_bytes p m + n) m) (outstandingBytes l))
        \<ge> pane_total r (outstandingBytes l)" if "0 < n" for r
      using that assms(3) Some total_split [of "outstandingBytes l" r q]
        total_update [of "outstandingBytes l" r q]
      by (cases "r = p") (simp_all add: counts_ok_def pane_bytes_def)
    then have "waiting_for_drain E (l\<lparr>outstandingBytes :=
        AList.update q (AList.update p (pane_bytes p m + n) m) (outstandingBytes l)\<rparr>)" if "0 < n"
      using that assms(2) order_less_le_trans by (fastforce simp: waiting_for_drain_def simp del: map_of_eq_Some_iff)
    then show ?thesis
      using assms Some maybe_pause_ok(2) by (simp add: account_def)
  qed
  show "counts_ok (outstandingBytes (fst (account q p n l)))"
  proof (cases "map_of (outstandingBytes l) q")
    case (Some m)
    then have "distinct (map fst m)" "\<forall>p n. map_of m p = Some n \<longrightarrow> 0 < n"
      using assms(3) by (auto simp: counts_ok_def simp del: map_of_eq_Some_iff)
    then have "counts_ok (AList.update q (AList.update p (pane_bytes p m + n) m) (outstandingBytes l))" if "0 < n"
      using that assms(3)
      by (intro counts_update) (auto simp: distinct_update pane_bytes_def simp del: map_of_eq_Some_iff
          split: option.splits intro: add_pos_pos)
    then show ?thesis using Some assms(3) by (simp add: account_def)
  qed (use assms in \<open>simp add: account_def\<close>)
qed


definition ledger_ok :: "backpressure \<Rightarrow> bool" where
  "ledger_ok l \<longleftrightarrow> flows_ok l \<and> waiting_for_drain {} l \<and> counts_ok (outstandingBytes l)"

lemma drain_except:
  assumes "waiting_for_drain {} l" and "\<And>r. r \<notin> E \<Longrightarrow> pane_total r out = pane_total r (outstandingBytes l)"
  shows "waiting_for_drain E (l\<lparr>outstandingBytes := out\<rparr>)"
  using assms by (auto simp: waiting_for_drain_def simp del: map_of_eq_Some_iff)

lemma ack_ok: "ledger_ok l \<Longrightarrow> ledger_ok (fst (ack q p n l))"
proof -
  assume ok: "ledger_ok l"
  show ?thesis
  proof (cases "map_of (outstandingBytes l) q")
    case None
    then show ?thesis using ok by (simp add: ack_def)
  next
    case (Some m)
    define nxt where "nxt = max 0 (pane_bytes p m - n)"
    define m' where "m' = (if nxt = 0 then AList.delete p m else AList.update p nxt m)"
    let ?l = "l\<lparr>outstandingBytes := AList.update q m' (outstandingBytes l)\<rparr>"
    have m: "distinct (map fst m)" "\<forall>p n. map_of m p = Some n \<longrightarrow> 0 < n"
      and d: "distinct (map fst (outstandingBytes l))"
      using ok Some by (auto simp: ledger_ok_def counts_ok_def simp del: map_of_eq_Some_iff)
    have "counts_ok (outstandingBytes ?l)"
      using ok m by (auto simp: m'_def nxt_def ledger_ok_def distinct_update distinct_delete
          simp del: map_of_eq_Some_iff intro!: counts_update split: if_splits)
    moreover have "pane_bytes r m' = pane_bytes r m" if "r \<noteq> p" for r
      using that by (simp add: m'_def pane_bytes_def)
    then have "waiting_for_drain {p} ?l"
      using ok total_split [OF d, of _ q] total_update [OF d, of _ q m'] Some
      by (intro drain_except) (simp_all add: ledger_ok_def)
    ultimately have "ledger_ok (fst (maybe_resume ?l p))"
      using ok maybe_resume_ok [of ?l p] maybe_resume_drain [of "{p}" ?l p] by (simp add: ledger_ok_def)
    then show ?thesis
      using ok Some unfolding ack_def Let_def m'_def nxt_def by simp
  qed
qed

lemma emptied_ok:
  assumes ok: "ledger_ok l" and m: "map_of (outstandingBytes l) q = Some m"
    and out: "out = AList.update q [] (outstandingBytes l) \<or> out = AList.delete q (outstandingBytes l)"
  shows "ledger_ok (fst (run_steps maybe_resume (l\<lparr>outstandingBytes := out\<rparr>) (map fst m)))"
proof -
  have c: "counts_ok (outstandingBytes l)" using ok by (simp add: ledger_ok_def)
  have "counts_ok out" using out counts_update [OF c, of "[]" q] counts_delete [OF c, of q] by auto
  moreover have "waiting_for_drain (set (map fst m)) (l\<lparr>outstandingBytes := out\<rparr>)"
    using ok out slot_total [OF c m] by (intro drain_except) (auto simp: ledger_ok_def)
  ultimately show ?thesis
    using ok resume_run(1,3) [of "l\<lparr>outstandingBytes := out\<rparr>" "map fst m"]
      resume_run(2) [of "l\<lparr>outstandingBytes := out\<rparr>" "set (map fst m)" "map fst m"]
    by (simp add: ledger_ok_def)
qed

lemma clear_peer_ok: "ledger_ok l \<Longrightarrow> ledger_ok (fst (clear_peer q l))"
  using emptied_ok by (simp add: clear_peer_def split: option.splits)

lemma release_peer_ok: "ledger_ok l \<Longrightarrow> ledger_ok (fst (release_peer l q))"
  using emptied_ok by (simp add: release_peer_def split: option.splits)

interpretation releases: invariant_steps release_peer ledger_ok
  by unfold_locales (rule release_peer_ok)

lemma dispose_ledger_ok: "ledger_ok l \<Longrightarrow> ledger_ok (fst (dispose_ledger l))"
  using releases.run_keeps [of l]
  by (simp add: dispose_ledger_def flush_paused_panes_def split_beta ledger_ok_def flows_ok_def
      waiting_for_drain_def)

lemma register_peer_ok: "ledger_ok l \<Longrightarrow> register_peer q l = Inr l' \<Longrightarrow> ledger_ok l'"
proof -
  assume ok: "ledger_ok l" and r: "register_peer q l = Inr l'"
  then have none: "map_of (outstandingBytes l) q = None"
    and l': "l' = l\<lparr>outstandingBytes := AList.update q [] (outstandingBytes l)\<rparr>"
    by (auto simp: register_peer_def split: if_splits)
  have c: "counts_ok (outstandingBytes l)" using ok by (simp add: ledger_ok_def)
  then have "pane_total r (AList.update q [] (outstandingBytes l)) = pane_total r (outstandingBytes l)" for r
    using total_split [of "outstandingBytes l" r q] total_update [of "outstandingBytes l" r q "[]"] none
    by (simp add: counts_ok_def pane_bytes_def)
  then show ?thesis
    using ok l' c counts_update [OF c, of "[]" q] drain_except [of l "{}"] by (simp add: ledger_ok_def)
qed

text \<open>Losing an entry or settling a Continue frees the pane.\<close>

lemma continue_done_ok:
  "ledger_ok l \<Longrightarrow> (p, token) \<in> set (continues l) \<Longrightarrow>
   ledger_ok (continue_done p token (l\<lparr>continues := remove1 (p, token) (continues l)\<rparr>))"
  unfolding ledger_ok_def flows_ok_def waiting_for_drain_def continue_done_def is_flow_def
  by (auto simp: distinct_delete simp del: map_of_eq_Some_iff split: option.splits if_splits)

definition live_failure :: "flow_op \<Rightarrow> bool" where
  "live_failure op = (case op of ContinueFailed p token err \<Rightarrow> \<not> is_connection_gone err | _ \<Rightarrow> False)"

lemma flow_step_ok: "ledger_ok l \<Longrightarrow> \<not> live_failure op \<Longrightarrow> ledger_ok (fst (flow_step l op))"
proof (cases op)
  case (RegisterPeer q)
  assume "ledger_ok l"
  then show ?thesis using RegisterPeer register_peer_ok by (simp split: sum.splits)
next
  case (Account q p n)
  assume "ledger_ok l"
  then show ?thesis using Account account_ok [of l "{}"] by (simp add: ledger_ok_def)
next
  case (ContinueFailed p token err)
  assume ok: "ledger_ok l" and "\<not> live_failure op"
  then have "is_connection_gone err" using ContinueFailed by (simp add: live_failure_def)
  then have "fst (continue_failed p token err l') = continue_done p token l'" for l'
    by (simp add: continue_failed_def continue_done_def)
  then show ?thesis using ContinueFailed ok continue_done_ok by simp
qed (simp_all add: ack_ok clear_peer_ok release_peer_ok dispose_ledger_ok continue_done_ok)


lemma flow_run_ok:
  "ledger_ok l \<Longrightarrow> ledger_ok (fst (run_steps flow_step l (filter (\<lambda>op. \<not> live_failure op) ops)))"
  using flow_step_ok by (induction ops arbitrary: l) simp_all

lemma new_backpressure_ok: "new_backpressure h w = Inr l \<Longrightarrow> ledger_ok l"
  by (auto simp: new_backpressure_def Let_def ledger_ok_def flows_ok_def waiting_for_drain_def
      counts_ok_def split: if_splits)

text \<open>
  C9. No pane is left stranded. After any history of peers registering, sending, acking,
  draining, leaving and resumes settling in any order - short of a Continue that a live tmux
  refused, which is reported - every paused pane either has its one Continue in flight or
  still has more bytes outstanding than the low watermark, so an ack to come resumes it; and a
  pane is marked resuming exactly while its own Continue is in flight.
\<close>

theorem no_pane_stranded:
  "case new_backpressure h w of
     Inl e \<Rightarrow> e = BRIDGE_INVALID_ARG
   | Inr l0 \<Rightarrow>
       (let l = fst (run_steps flow_step l0 (filter (\<lambda>op. \<not> live_failure op) ops)) in
          list_all (\<lambda>(p, flow). resuming flow \<or> low l < total_outstanding p l) (pausedPanes l)
          \<and> list_all (\<lambda>(p, flow). resuming flow \<longleftrightarrow> (p, flowToken flow) \<in> set (continues l)) (pausedPanes l)
          \<and> distinct (map fst (pausedPanes l)) \<and> distinct (continues l))"
proof (cases "new_backpressure h w")
  case (Inl e)
  then show ?thesis by (auto simp: new_backpressure_def Let_def split: if_splits)
next
  case (Inr l0)
  define l where "l = fst (run_steps flow_step l0 (filter (\<lambda>op. \<not> live_failure op) ops))"
  have "ledger_ok l" unfolding l_def by (rule flow_run_ok [OF new_backpressure_ok [OF Inr]])
  then have flows: "flows_ok l" and drain: "waiting_for_drain {} l" by (simp_all add: ledger_ok_def)
  then have entry: "map_of (pausedPanes l) p = Some flow" if "(p, flow) \<in> set (pausedPanes l)" for p flow
    using that by (simp add: flows_ok_def)
  have "resuming flow \<or> low l < pane_total p (outstandingBytes l)"
    "resuming flow \<longleftrightarrow> (p, flowToken flow) \<in> set (continues l)"
    if "(p, flow) \<in> set (pausedPanes l)" for p flow
    using entry [OF that] flows drain unfolding flows_ok_def waiting_for_drain_def by blast+
  then have "list_all (\<lambda>(p, flow). resuming flow \<or> low l < pane_total p (outstandingBytes l)) (pausedPanes l)"
    "list_all (\<lambda>(p, flow). resuming flow \<longleftrightarrow> (p, flowToken flow) \<in> set (continues l)) (pausedPanes l)"
    unfolding list_all_iff by blast+
  then show ?thesis
    using flows by (simp add: Inr Let_def l_def [symmetric] flows_ok_def)
qed

lemma clear_peer_bytes:
  "flows_ok l \<Longrightarrow> map_of (outstandingBytes (fst (clear_peer q l))) =
     (\<lambda>r. if r = q \<and> map_of (outstandingBytes l) q \<noteq> None then Some [] else map_of (outstandingBytes l) r)"
  by (auto simp: clear_peer_def resume_run(3) fun_eq_iff simp del: map_of_eq_Some_iff split: option.splits)

lemma clear_run:
  assumes "ledger_ok l"
  shows "ledger_ok (fst (run_steps flow_step l (map ClearPeer qs)))"
    and "map_of (outstandingBytes (fst (run_steps flow_step l (map ClearPeer qs)))) = (\<lambda>r. if r \<in> set qs \<and> map_of (outstandingBytes l) r \<noteq> None
           then Some [] else map_of (outstandingBytes l) r)"
  using assms
proof (induction qs arbitrary: l)
  case Nil
  { case 1 then show ?case by simp }
  { case 2 show ?case by simp }
next
  case (Cons q qs)
  { case 1 then show ?case using Cons.IH(1) clear_peer_ok by simp }
  { case 2
    then have "flows_ok l" by (simp add: ledger_ok_def)
    from clear_peer_bytes [OF this, of q] show ?case
      using Cons.IH(2) [OF clear_peer_ok [OF 2, of q]] by (auto simp: fun_eq_iff) }
qed

lemma settle_run:
  "distinct (map fst (pausedPanes l)) \<Longrightarrow> continues l = ts \<Longrightarrow>
   (\<And>p flow. map_of (pausedPanes l) p = Some flow \<Longrightarrow> (p, flowToken flow) \<in> set ts) \<Longrightarrow>
   pausedPanes (fst (run_steps flow_step l (map (\<lambda>(p, token). ContinueDone p token) ts))) = []"
proof (induction ts arbitrary: l)
  case Nil
  have False if "pausedPanes l = (p, flow) # rest" for p flow rest
    using Nil(3) [of p flow] that by simp
  then show ?case by (cases "pausedPanes l") auto
next
  case (Cons t ts)
  obtain p token where t: "t = (p, token)" by (cases t)
  define l1 where "l1 = continue_done p token (l\<lparr>continues := ts\<rparr>)"
  have "fst (flow_step l (ContinueDone p token)) = l1"
    using Cons.prems(2) by (simp add: t l1_def)
  moreover have "pausedPanes (fst (run_steps flow_step l1 (map (\<lambda>(p, token). ContinueDone p token) ts))) = []"
  proof (rule Cons.IH)
    show "distinct (map fst (pausedPanes l1))"
      using Cons.prems(1) by (simp add: l1_def continue_done_def distinct_delete)
    show "continues l1 = ts" by (simp add: l1_def continue_done_def)
    fix r flow
    assume r: "map_of (pausedPanes l1) r = Some flow"
    then have "map_of (pausedPanes l) r = Some flow" and "r = p \<longrightarrow> flowToken flow \<noteq> token"
      by (auto simp: l1_def continue_done_def is_flow_def simp del: map_of_eq_Some_iff
          split: if_splits option.splits)
    then show "(r, flowToken flow) \<in> set ts" using Cons.prems(3) [of r flow] by (auto simp: t)
  qed
  ultimately show ?case by (simp add: t del: flow_step.simps)
qed

text \<open>
  Draining frees every pane. From any state such a history reaches, once every peer's
  transport has drained, a Continue is in flight for every paused pane, and when those have
  been answered no pane is paused.
\<close>

theorem drained_panes_flow:
  "case new_backpressure h w of
     Inl e \<Rightarrow> e = BRIDGE_INVALID_ARG
   | Inr l0 \<Rightarrow>
       (let l = fst (run_steps flow_step l0 (filter (\<lambda>op. \<not> live_failure op) ops));
            drained = fst (run_steps flow_step l (map (\<lambda>(q, m). ClearPeer q) (outstandingBytes l)));
            answered = fst (run_steps flow_step drained
              (map (\<lambda>(p, token). ContinueDone p token) (continues drained)))
        in list_all (\<lambda>(p, flow). (p, flowToken flow) \<in> set (continues drained)) (pausedPanes drained)
           \<and> pausedPanes answered = [])"
proof (cases "new_backpressure h w")
  case (Inl e)
  then show ?thesis by (auto simp: new_backpressure_def Let_def split: if_splits)
next
  case (Inr l0)
  define l where "l = fst (run_steps flow_step l0 (filter (\<lambda>op. \<not> live_failure op) ops))"
  define dr where "dr = fst (run_steps flow_step l (map ClearPeer (map fst (outstandingBytes l))))"
  have l: "ledger_ok l" unfolding l_def by (rule flow_run_ok [OF new_backpressure_ok [OF Inr]])
  have ok: "ledger_ok dr" unfolding dr_def by (rule clear_run(1) [OF l])
  have "m = []" if "map_of (outstandingBytes dr) q = Some m" for q m
    using that clear_run(2) [OF l, of "map fst (outstandingBytes l)"]
    by (cases "q \<in> set (map fst (outstandingBytes l))")
      (auto simp: dr_def map_of_eq_None_iff [symmetric] split: if_splits)
  then have "snd x = []" if "x \<in> set (outstandingBytes dr)" for x
    using that ok by (cases x) (simp add: ledger_ok_def counts_ok_def)
  then have zeros: "map (\<lambda>x. pane_bytes p (snd x)) (outstandingBytes dr) = map (\<lambda>x. 0) (outstandingBytes dr)" for p
    by (intro map_cong) (simp_all add: pane_bytes_def)
  have "pane_total p (outstandingBytes dr) = 0" for p
    unfolding pane_total_def zeros by (simp add: map_replicate_const sum_list_replicate)
  then have all: "(p, flowToken flow) \<in> set (continues dr)" if "map_of (pausedPanes dr) p = Some flow" for p flow
    using ok that by (force simp: ledger_ok_def flows_ok_def waiting_for_drain_def)
  then have "pausedPanes (fst (run_steps flow_step dr (map (\<lambda>(p, token). ContinueDone p token) (continues dr)))) = []"
    using ok by (intro settle_run) (auto simp: ledger_ok_def flows_ok_def)
  moreover have "list_all (\<lambda>(p, flow). (p, flowToken flow) \<in> set (continues dr)) (pausedPanes dr)"
    using all ok by (auto simp: list_all_iff ledger_ok_def flows_ok_def)
  moreover have "map (\<lambda>(q, m). ClearPeer q) (outstandingBytes l) = map ClearPeer (map fst (outstandingBytes l))"
    by (simp add: split_beta comp_def)
  ultimately show ?thesis
    by (simp add: Inr Let_def l_def [symmetric] dr_def [symmetric] del: map_map)
qed


text \<open>
  A Continue confirmed after the bytes crossed the high watermark again leaves the pane
  flowing above it: while the Continue is in flight the pane still counts as paused, so the
  output that follows pauses nothing, and the confirmation then drops the entry. Only the next
  output of that pane pauses it.
\<close>

theorem resume_race_overshoots:
  "case new_backpressure (Some 10) (Some 5) of
     Inl e \<Rightarrow> False
   | Inr l0 \<Rightarrow>
       (let (l, effs) = run_steps flow_step l0
              [RegisterPeer 1, Account 1 p 10, Ack 1 p 10, Account 1 p 20, ContinueDone p 0];
            (l', more) = flow_step l (Account 1 p 1)
        in effs = [SendAction p ActionPause, SendAction p ActionContinue]
           \<and> total_outstanding p l = 20 \<and> pausedPanes l = []
           \<and> more = [SendAction p ActionPause])"
  by (simp add: new_backpressure_def run_steps.simps register_peer_def account_def ack_def
      maybe_pause_def maybe_resume_def continue_done_def is_flow_def pane_total_def pane_bytes_def Let_def
      split_beta)

end
