(* ===== verification/Rpc.thy ===== *)
theory Rpc
  imports Commands Backpressure Complex_Main
begin

section \<open>Remote calls: validation, dispatch and error classes\<close>

text \<open>
  \<open>src/connectors/rpc.ts\<close>, \<open>rpc-dispatch.ts\<close>, \<open>bridge-dispatch.ts\<close> and \<open>errors.ts\<close>: the one
  place where a request of an untrusted peer is checked, the call it then becomes, and the
  classification of how that call ended. An untrusted payload is a JSON value as
  \<open>JSON.parse\<close> or the structured clone of IPC delivers it; the keys of an object are
  distinct. Message texts of errors are not modelled, their codes are.
\<close>

subsection \<open>JSON values\<close>

datatype json =
    JNull
  | JBool bool
  | JNum rat
  | JInfinite bool
  | JNaN
  | JStr string
  | JArr "json list"
  | JObj "(string \<times> json) list"

text \<open>\<open>o.name\<close> on a value; an absent property, and any property of another value, is None.\<close>

fun property :: "string \<Rightarrow> json \<Rightarrow> json option" where
  "property name (JObj fs) = map_of fs name"
| "property name v = None"

text \<open>\<open>args[index]\<close>; None is \<open>undefined\<close>.\<close>

definition element :: "json list \<Rightarrow> nat \<Rightarrow> json option" where
  "element args index = (if index < length args then Some (args ! index) else None)"

subsection \<open>Requests\<close>

datatype rpc_error_code = INVALID_REQUEST | UNKNOWN_METHOD | INVALID_ARG

primrec map_rpc_code :: "rpc_error_code \<Rightarrow> bridge_error_code" where
  "map_rpc_code UNKNOWN_METHOD = BRIDGE_UNKNOWN_METHOD"
| "map_rpc_code INVALID_REQUEST = BRIDGE_INVALID_REQUEST"
| "map_rpc_code INVALID_ARG = BRIDGE_INVALID_ARG"

datatype rpc_request =
    RpcExecute string
  | RpcListWindows
  | RpcListPanes
  | RpcListSessions
  | RpcSendKeys string string
  | RpcSplitWindow "split_options option"
  | RpcSetSize jsnum jsnum
  | RpcSetPaneAction jsnum pane_action
  | RpcSubscribeRaw string string string
  | RpcUnsubscribe string
  | RpcSetFlags "string list"
  | RpcClearFlags "string list"
  | RpcRequestReport jsnum string
  | RpcQueryClipboard
  | RpcEnableCoverage
  | RpcDisableCoverage

primrec rpc_method :: "rpc_request \<Rightarrow> string" where
  "rpc_method (RpcExecute c) = ''execute''"
| "rpc_method RpcListWindows = ''listWindows''"
| "rpc_method RpcListPanes = ''listPanes''"
| "rpc_method RpcListSessions = ''listSessions''"
| "rpc_method (RpcSendKeys t k) = ''sendKeys''"
| "rpc_method (RpcSplitWindow opts) = ''splitWindow''"
| "rpc_method (RpcSetSize w h) = ''setSize''"
| "rpc_method (RpcSetPaneAction p a) = ''setPaneAction''"
| "rpc_method (RpcSubscribeRaw n w f) = ''subscribeRaw''"
| "rpc_method (RpcUnsubscribe n) = ''unsubscribe''"
| "rpc_method (RpcSetFlags fs) = ''setFlags''"
| "rpc_method (RpcClearFlags fs) = ''clearFlags''"
| "rpc_method (RpcRequestReport p r) = ''requestReport''"
| "rpc_method RpcQueryClipboard = ''queryClipboard''"
| "rpc_method RpcEnableCoverage = ''enableCrossSessionLayoutChange''"
| "rpc_method RpcDisableCoverage = ''disableCrossSessionLayoutChange''"

definition NULL_RESPONSE :: "string list" where
  "NULL_RESPONSE = [''enableCrossSessionLayoutChange'', ''disableCrossSessionLayoutChange'']"

definition answers_null :: "string \<Rightarrow> bool" where
  "answers_null rpcMethod \<longleftrightarrow> rpcMethod \<in> set NULL_RESPONSE"

definition CROSS_SESSION_LAYOUT_SUBSCRIPTION_NAME :: string where
  "CROSS_SESSION_LAYOUT_SUBSCRIPTION_NAME = ''ttcmjs-cross-session-layout''"

subsection \<open>Validators\<close>

definition require_no_args :: "json list \<Rightarrow> rpc_error_code + unit" where
  "require_no_args args = (if length args \<noteq> 0 then Inl INVALID_ARG else Inr ())"

definition require_arity_at_most :: "json list \<Rightarrow> nat \<Rightarrow> rpc_error_code + unit" where
  "require_arity_at_most args maxArity = (if length args > maxArity then Inl INVALID_ARG else Inr ())"

definition require_string :: "json list \<Rightarrow> nat \<Rightarrow> rpc_error_code + string" where
  "require_string args index =
     (case element args index of Some (JStr s) \<Rightarrow> Inr s | _ \<Rightarrow> Inl INVALID_ARG)"

definition require_finite_number :: "json list \<Rightarrow> nat \<Rightarrow> rpc_error_code + rat" where
  "require_finite_number args index =
     (case element args index of Some (JNum q) \<Rightarrow> Inr q | _ \<Rightarrow> Inl INVALID_ARG)"

definition require_non_negative_integer :: "json list \<Rightarrow> nat \<Rightarrow> rpc_error_code + jsnum" where
  "require_non_negative_integer args index =
     and_then (require_finite_number args index) (\<lambda>v.
       if v < 0 \<or> of_int \<lfloor>v\<rfloor> \<noteq> v then Inl INVALID_ARG else Inr (Num \<lfloor>v\<rfloor>))"

definition require_non_empty_string :: "json list \<Rightarrow> nat \<Rightarrow> rpc_error_code + string" where
  "require_non_empty_string args index =
     and_then (require_string args index) (\<lambda>v. if length v = 0 then Inl INVALID_ARG else Inr v)"

definition require_subscription_name :: "json list \<Rightarrow> nat \<Rightarrow> rpc_error_code + string" where
  "require_subscription_name args index =
     and_then (require_non_empty_string args index) (\<lambda>v.
       if v = CROSS_SESSION_LAYOUT_SUBSCRIPTION_NAME then Inl INVALID_ARG else Inr v)"

fun all_strings :: "json list \<Rightarrow> string list option" where
  "all_strings [] = Some []"
| "all_strings (JStr s # vs) = map_option ((#) s) (all_strings vs)"
| "all_strings (v # vs) = None"

definition require_string_array :: "json list \<Rightarrow> nat \<Rightarrow> rpc_error_code + string list" where
  "require_string_array args index =
     (case element args index of
        Some (JArr vs) \<Rightarrow> (case all_strings vs of Some ss \<Rightarrow> Inr ss | None \<Rightarrow> Inl INVALID_ARG)
      | _ \<Rightarrow> Inl INVALID_ARG)"

definition PANE_ACTIONS :: "(string \<times> pane_action) list" where
  "PANE_ACTIONS = map (\<lambda>a. (pane_action_str a, a)) [ActionOn, ActionOff, ActionContinue, ActionPause]"

definition require_pane_action :: "json list \<Rightarrow> nat \<Rightarrow> rpc_error_code + pane_action" where
  "require_pane_action args index =
     (case element args index of
        Some (JStr s) \<Rightarrow> (case map_of PANE_ACTIONS s of Some a \<Rightarrow> Inr a | None \<Rightarrow> Inl INVALID_ARG)
      | _ \<Rightarrow> Inl INVALID_ARG)"

definition KNOWN_SPLIT_OPTIONS :: "string list" where
  "KNOWN_SPLIT_OPTIONS = [''vertical'', ''target'']"

definition validate_split_options :: "json list \<Rightarrow> rpc_error_code + split_options option" where
  "validate_split_options args =
     and_then (require_arity_at_most args 1) (\<lambda>u.
       case element args 0 of
         None \<Rightarrow> Inr None
       | Some (JObj fs) \<Rightarrow>
           if (case map_of fs ''vertical'' of None \<Rightarrow> False | Some (JBool b) \<Rightarrow> False | _ \<Rightarrow> True)
           then Inl INVALID_ARG
           else if (case map_of fs ''target'' of None \<Rightarrow> False | Some (JStr s) \<Rightarrow> False | _ \<Rightarrow> True)
           then Inl INVALID_ARG
           else if list_ex (\<lambda>k. k \<notin> set KNOWN_SPLIT_OPTIONS) (map fst fs) then Inl INVALID_ARG
           else Inr (Some
             \<lparr>vertical = (case map_of fs ''vertical'' of Some (JBool b) \<Rightarrow> Some b | _ \<Rightarrow> None),
              target = (case map_of fs ''target'' of Some (JStr s) \<Rightarrow> Some s | _ \<Rightarrow> None)\<rparr>)
       | Some v \<Rightarrow> Inl INVALID_ARG)"

text \<open>The validator table, in its order.\<close>

definition VALIDATORS :: "(string \<times> (json list \<Rightarrow> rpc_error_code + rpc_request)) list" where
  "VALIDATORS =
     [(''execute'', \<lambda>args. and_then (require_string args 0) (\<lambda>c. Inr (RpcExecute c))),
      (''listWindows'', \<lambda>args. and_then (require_no_args args) (\<lambda>u. Inr RpcListWindows)),
      (''listPanes'', \<lambda>args. and_then (require_no_args args) (\<lambda>u. Inr RpcListPanes)),
      (''listSessions'', \<lambda>args. and_then (require_no_args args) (\<lambda>u. Inr RpcListSessions)),
      (''sendKeys'', \<lambda>args. and_then (require_string args 0) (\<lambda>t.
         and_then (require_string args 1) (\<lambda>k. Inr (RpcSendKeys t k)))),
      (''splitWindow'', \<lambda>args. and_then (validate_split_options args) (\<lambda>opts. Inr (RpcSplitWindow opts))),
      (''setSize'', \<lambda>args. and_then (require_non_negative_integer args 0) (\<lambda>w.
         and_then (require_non_negative_integer args 1) (\<lambda>h. Inr (RpcSetSize w h)))),
      (''setPaneAction'', \<lambda>args. and_then (require_non_negative_integer args 0) (\<lambda>p.
         and_then (require_pane_action args 1) (\<lambda>a. Inr (RpcSetPaneAction p a)))),
      (''subscribeRaw'', \<lambda>args. and_then (require_subscription_name args 0) (\<lambda>n.
         and_then (require_string args 1) (\<lambda>w.
         and_then (require_string args 2) (\<lambda>f. Inr (RpcSubscribeRaw n w f))))),
      (''unsubscribe'', \<lambda>args. and_then (require_subscription_name args 0) (\<lambda>n. Inr (RpcUnsubscribe n))),
      (''setFlags'', \<lambda>args. and_then (require_string_array args 0) (\<lambda>fs. Inr (RpcSetFlags fs))),
      (''clearFlags'', \<lambda>args. and_then (require_string_array args 0) (\<lambda>fs. Inr (RpcClearFlags fs))),
      (''requestReport'', \<lambda>args. and_then (require_non_negative_integer args 0) (\<lambda>p.
         and_then (require_string args 1) (\<lambda>r. Inr (RpcRequestReport p r)))),
      (''queryClipboard'', \<lambda>args. and_then (require_no_args args) (\<lambda>u. Inr RpcQueryClipboard)),
      (''enableCrossSessionLayoutChange'', \<lambda>args. and_then (require_no_args args) (\<lambda>u. Inr RpcEnableCoverage)),
      (''disableCrossSessionLayoutChange'', \<lambda>args. and_then (require_no_args args) (\<lambda>u. Inr RpcDisableCoverage))]"

definition RPC_METHOD_NAMES :: "string list" where
  "RPC_METHOD_NAMES = map fst VALIDATORS"

definition parse_rpc_request :: "json \<Rightarrow> rpc_error_code + rpc_request" where
  "parse_rpc_request raw =
     (case raw of
        JObj fs \<Rightarrow>
          (case map_of fs ''method'' of
             Some (JStr m) \<Rightarrow>
               if m \<notin> set RPC_METHOD_NAMES then Inl UNKNOWN_METHOD
               else (case map_of fs ''args'' of
                       Some (JArr args) \<Rightarrow>
                         (case map_of VALIDATORS m of Some validator \<Rightarrow> validator args | None \<Rightarrow> Inl UNKNOWN_METHOD)
                     | _ \<Rightarrow> Inl INVALID_REQUEST)
           | _ \<Rightarrow> Inl INVALID_REQUEST)
      | _ \<Rightarrow> Inl INVALID_REQUEST)"

subsection \<open>Dispatch\<close>

text \<open>What a call answers: a tmux reply, a list of records, or \<open>null\<close>.\<close>

datatype rpc_response =
    CommandReply command_response
  | WindowsReply "window_record list"
  | PanesReply "pane_record list"
  | SessionsReply "session_record list"
  | NullReply

fun dispatch_rpc_request :: "jsnum \<Rightarrow> rpc_request \<Rightarrow> rpc_response program option" where
  "dispatch_rpc_request now (RpcExecute cmd) =
     Some (program_bind (execute_command cmd) (\<lambda>r. Return (CommandReply r)))"
| "dispatch_rpc_request now RpcListWindows = Some (program_bind list_windows (\<lambda>r. Return (WindowsReply r)))"
| "dispatch_rpc_request now RpcListPanes = Some (program_bind list_panes (\<lambda>r. Return (PanesReply r)))"
| "dispatch_rpc_request now RpcListSessions =
     Some (program_bind list_sessions (\<lambda>r. Return (SessionsReply r)))"
| "dispatch_rpc_request now (RpcSendKeys t k) =
     Some (program_bind (send_keys_command now t (map code_of k)) (\<lambda>r. Return (CommandReply r)))"
| "dispatch_rpc_request now (RpcSplitWindow opts) =
     Some (program_bind (split_window_command
        (case opts of None \<Rightarrow> \<lparr>vertical = None, target = None\<rparr> | Some os \<Rightarrow> os))
       (\<lambda>r. Return (CommandReply r)))"
| "dispatch_rpc_request now (RpcSetSize w h) =
     Some (program_bind (set_size w h) (\<lambda>r. Return (CommandReply r)))"
| "dispatch_rpc_request now (RpcSetPaneAction p a) =
     Some (program_bind (set_pane_action p a) (\<lambda>r. Return (CommandReply r)))"
| "dispatch_rpc_request now (RpcSubscribeRaw n w f) =
     Some (program_bind (subscribe_raw n w f) (\<lambda>r. Return (CommandReply r)))"
| "dispatch_rpc_request now (RpcUnsubscribe n) =
     Some (program_bind (unsubscribe n) (\<lambda>r. Return (CommandReply r)))"
| "dispatch_rpc_request now (RpcSetFlags fs) =
     Some (program_bind (set_flags fs) (\<lambda>r. Return (CommandReply r)))"
| "dispatch_rpc_request now (RpcClearFlags fs) =
     Some (program_bind (clear_flags fs) (\<lambda>r. Return (CommandReply r)))"
| "dispatch_rpc_request now (RpcRequestReport p rep) =
     Some (program_bind (request_report p rep) (\<lambda>r. Return (CommandReply r)))"
| "dispatch_rpc_request now RpcQueryClipboard =
     Some (program_bind query_clipboard (\<lambda>r. Return (CommandReply r)))"
| "dispatch_rpc_request now RpcEnableCoverage = None"
| "dispatch_rpc_request now RpcDisableCoverage = None"

text \<open>
  The bridge answers four methods from its ledgers; every other one runs on the client.
  \<open>ToClient\<close> carries the program, which exists for exactly those methods.
\<close>

datatype bridge_call =
    ToSubscribe string string string
  | ToUnsubscribe string
  | ToEnableCoverage
  | ToDisableCoverage
  | ToClient "rpc_response program option"

fun run_bridge_dispatch :: "jsnum \<Rightarrow> rpc_request \<Rightarrow> bridge_call" where
  "run_bridge_dispatch now (RpcSubscribeRaw n w f) = ToSubscribe n w f"
| "run_bridge_dispatch now (RpcUnsubscribe n) = ToUnsubscribe n"
| "run_bridge_dispatch now RpcEnableCoverage = ToEnableCoverage"
| "run_bridge_dispatch now RpcDisableCoverage = ToDisableCoverage"
| "run_bridge_dispatch now req = ToClient (dispatch_rpc_request now req)"

datatype dispatch_error = CommandFailed command_error | BridgeFailed bridge_error_code

datatype bridge_outcome =
    OutcomeOk rpc_response
  | OutcomeTmuxError command_response
  | OutcomeBridgeError bridge_error_code

fun classify_dispatch_error :: "dispatch_error \<Rightarrow> bridge_outcome" where
  "classify_dispatch_error (CommandFailed (Rejected (TmuxCommandError resp))) = OutcomeTmuxError resp"
| "classify_dispatch_error (BridgeFailed code) = OutcomeBridgeError code"
| "classify_dispatch_error (CommandFailed (Rejected (TransportSendError r))) = OutcomeBridgeError BRIDGE_CLOSED"
| "classify_dispatch_error (CommandFailed (Rejected (TransportClosedError r))) = OutcomeBridgeError BRIDGE_CLOSED"
| "classify_dispatch_error (CommandFailed (Rejected (TmuxInvalidCommandError c))) = OutcomeBridgeError BRIDGE_INVALID_ARG"
| "classify_dispatch_error (CommandFailed e) = OutcomeBridgeError BRIDGE_INTERNAL"

definition dispatch_bridge_request :: "dispatch_error + rpc_response \<Rightarrow> bridge_outcome" where
  "dispatch_bridge_request settled =
     (case settled of Inr response \<Rightarrow> OutcomeOk response | Inl err \<Rightarrow> classify_dispatch_error err)"


subsection \<open>What crosses the trust boundary\<close>

text \<open>
  The envelope a typed proxy sends for a request, and the requests a proxy can make: numbers
  are counts, and the reserved subscription name is not used.
\<close>

definition count_ok :: "jsnum \<Rightarrow> bool" where
  "count_ok v = (case v of Num n \<Rightarrow> 0 \<le> n | _ \<Rightarrow> False)"

definition name_ok :: "string \<Rightarrow> bool" where
  "name_ok n \<longleftrightarrow> n \<noteq> [] \<and> n \<noteq> CROSS_SESSION_LAYOUT_SUBSCRIPTION_NAME"

fun rpc_ok :: "rpc_request \<Rightarrow> bool" where
  "rpc_ok (RpcSetSize w h) \<longleftrightarrow> count_ok w \<and> count_ok h"
| "rpc_ok (RpcSetPaneAction p a) \<longleftrightarrow> count_ok p"
| "rpc_ok (RpcRequestReport p r) \<longleftrightarrow> count_ok p"
| "rpc_ok (RpcSubscribeRaw n w f) \<longleftrightarrow> name_ok n"
| "rpc_ok (RpcUnsubscribe n) \<longleftrightarrow> name_ok n"
| "rpc_ok req \<longleftrightarrow> True"

fun json_number :: "jsnum \<Rightarrow> json" where
  "json_number (Num n) = JNum (of_int n)"
| "json_number Infinity = JInfinite True"
| "json_number NegInfinity = JInfinite False"
| "json_number NaN = JNaN"

definition json_split_options :: "split_options \<Rightarrow> json" where
  "json_split_options opts =
     JObj ((case vertical opts of None \<Rightarrow> [] | Some b \<Rightarrow> [(''vertical'', JBool b)]) @
           (case target opts of None \<Rightarrow> [] | Some t \<Rightarrow> [(''target'', JStr t)]))"

primrec rpc_args :: "rpc_request \<Rightarrow> json list" where
  "rpc_args (RpcExecute c) = [JStr c]"
| "rpc_args RpcListWindows = []"
| "rpc_args RpcListPanes = []"
| "rpc_args RpcListSessions = []"
| "rpc_args (RpcSendKeys t k) = [JStr t, JStr k]"
| "rpc_args (RpcSplitWindow opts) = (case opts of None \<Rightarrow> [] | Some os \<Rightarrow> [json_split_options os])"
| "rpc_args (RpcSetSize w h) = [json_number w, json_number h]"
| "rpc_args (RpcSetPaneAction p a) = [json_number p, JStr (pane_action_str a)]"
| "rpc_args (RpcSubscribeRaw n w f) = [JStr n, JStr w, JStr f]"
| "rpc_args (RpcUnsubscribe n) = [JStr n]"
| "rpc_args (RpcSetFlags fs) = [JArr (map JStr fs)]"
| "rpc_args (RpcClearFlags fs) = [JArr (map JStr fs)]"
| "rpc_args (RpcRequestReport p r) = [json_number p, JStr r]"
| "rpc_args RpcQueryClipboard = []"
| "rpc_args RpcEnableCoverage = []"
| "rpc_args RpcDisableCoverage = []"

definition rpc_envelope :: "rpc_request \<Rightarrow> json" where
  "rpc_envelope req = JObj [(''method'', JStr (rpc_method req)), (''args'', JArr (rpc_args req))]"

definition parse_rpc :: "json \<Rightarrow> rpc_request option" where
  "parse_rpc raw = (case parse_rpc_request raw of Inl c \<Rightarrow> None | Inr r \<Rightarrow> Some r)"

lemmas require_defs = require_no_args_def require_arity_at_most_def require_string_def
  require_finite_number_def require_non_negative_integer_def require_non_empty_string_def
  require_subscription_name_def require_string_array_def require_pane_action_def element_def

lemma all_strings_map [simp]: "all_strings (map JStr ss) = Some ss"
  by (induction ss) simp_all

lemma pane_actions_str [simp]: "map_of PANE_ACTIONS (pane_action_str a) = Some a"
  by (cases a) (simp_all add: PANE_ACTIONS_def)

lemma split_options_roundtrip [simp]:
  "validate_split_options [json_split_options opts] = Inr (Some opts)"
  by (cases opts) (auto simp: validate_split_options_def json_split_options_def require_defs
      KNOWN_SPLIT_OPTIONS_def split: option.splits)

lemma rpc_roundtrip:
  assumes "rpc_ok r"
  shows "parse_rpc_request (rpc_envelope r) = Inr r"
proof -
  have len: "\<And>xs ys :: json list. xs # [] = ys \<Longrightarrow> length ys = 1" by auto
  show ?thesis
    using assms
    by (cases r) (auto simp: parse_rpc_request_def rpc_envelope_def RPC_METHOD_NAMES_def VALIDATORS_def
        require_defs count_ok_def name_ok_def validate_split_options_def [of "[]"] split: jsnum.splits option.splits)
qed


text \<open>Every entry of the table gives a request of its own method, with checked arguments.\<close>

lemma validator_ok:
  "(m, v) \<in> set VALIDATORS \<Longrightarrow> v args = Inr r \<Longrightarrow> rpc_ok r \<and> rpc_method r = m"
  by (auto simp: VALIDATORS_def require_defs and_then_Inr count_ok_def name_ok_def
      split: option.splits json.splits if_splits)

lemma parse_rpc_ok: "parse_rpc_request raw = Inr r \<Longrightarrow> rpc_ok r"
  by (auto simp: parse_rpc_request_def dest!: map_of_SomeD dest: validator_ok
      split: json.splits option.splits if_splits)

interpretation rpc: wire_codec rpc_envelope parse_rpc rpc_ok
  by unfold_locales (simp add: parse_rpc_def rpc_roundtrip)

text \<open>
  The trust boundary of remote calls. Whatever value a peer sends, a request that passes
  validation has counts for its numbers and names no subscription reserved for the relay, is
  one of the sixteen bridged methods, and is exactly the request a typed proxy would have
  sent; every request of a typed proxy passes, and no two of them look alike on the wire.
\<close>

theorem rpc_boundary:
  "(case parse_rpc_request raw of
      Inl code \<Rightarrow> True
    | Inr r \<Rightarrow> rpc_ok r \<and> rpc_method r \<in> set RPC_METHOD_NAMES \<and> parse_rpc_request (rpc_envelope r) = Inr r)
   \<and> inj_on rpc_envelope (Collect rpc_ok)"
proof
  have "rpc_method r \<in> set RPC_METHOD_NAMES" for r
    by (cases r) (simp_all add: RPC_METHOD_NAMES_def VALIDATORS_def)
  then show "case parse_rpc_request raw of
      Inl code \<Rightarrow> True
    | Inr r \<Rightarrow> rpc_ok r \<and> rpc_method r \<in> set RPC_METHOD_NAMES \<and> parse_rpc_request (rpc_envelope r) = Inr r"
    using parse_rpc_ok [of raw] rpc_roundtrip by (auto split: sum.splits)
  show "inj_on rpc_envelope (Collect rpc_ok)"
    by (rule inj_onI) (use rpc.enc_inj in blast)
qed

text \<open>Errors reach the peer with a code of their own; only a tmux refusal keeps its reply.\<close>

lemma classify_total:
  "dispatch_bridge_request settled = OutcomeTmuxError resp \<longleftrightarrow>
     settled = Inl (CommandFailed (Rejected (TmuxCommandError resp)))"
  by (cases settled; simp add: dispatch_bridge_request_def; rename_tac e;
      case_tac e rule: classify_dispatch_error.cases; simp)

end
