(* ===== verification/Reconnect.thy ===== *)
theory Reconnect
  imports Complex_Main Backpressure
begin

section \<open>Stamped limits, reconnect backoff and heartbeat\<close>

text \<open>
  \<open>src/connectors/websocket/limits.ts\<close>, \<open>reconnect-controller.ts\<close>, \<open>heartbeat.ts\<close>,
  \<open>rate-limiter.ts\<close>. An option value is any JavaScript value: a number, finite ones as
  rationals, or something else. Delays are computed in exact arithmetic. A timer is its
  deadline state; the clock and the random draw are inputs of the operations. An error is its
  code and the option it names.
\<close>

subsection \<open>Limits\<close>

datatype option_value = Finite rat | PosInfinity | MinusInfinity | NotANumber | NotNumber

datatype option_error = InvalidArg string

definition duration_max_ms :: int where "duration_max_ms = 2147483647"

definition is_integer :: "option_value \<Rightarrow> bool" where
  "is_integer v = (case v of Finite x \<Rightarrow> of_int \<lfloor>x\<rfloor> = x | _ \<Rightarrow> False)"

definition int_of :: "option_value \<Rightarrow> int" where
  "int_of v = (case v of Finite x \<Rightarrow> \<lfloor>x\<rfloor> | _ \<Rightarrow> 0)"

definition is_duration_ms :: "option_value \<Rightarrow> bool" where
  "is_duration_ms v \<longleftrightarrow> is_integer v \<and> int_of v \<ge> 1 \<and> int_of v \<le> duration_max_ms"

definition is_zero_or_duration_ms :: "option_value \<Rightarrow> bool" where
  "is_zero_or_duration_ms v \<longleftrightarrow> v = Finite 0 \<or> is_duration_ms v"

definition is_positive_int :: "option_value \<Rightarrow> bool" where
  "is_positive_int v \<longleftrightarrow> is_integer v \<and> int_of v \<ge> 1"

definition option_parser :: "(option_value \<Rightarrow> bool) \<Rightarrow> string \<Rightarrow> option_value \<Rightarrow> option_error + option_value" where
  "option_parser accept name v = (if \<not> accept v then Inl (InvalidArg name) else Inr v)"

definition parse_duration_ms :: "string \<Rightarrow> option_value \<Rightarrow> option_error + int" where
  "parse_duration_ms name v = and_then (option_parser is_duration_ms name v) (\<lambda>v. Inr (int_of v))"

definition parse_heartbeat_interval :: "string \<Rightarrow> option_value \<Rightarrow> option_error + int" where
  "parse_heartbeat_interval name v = and_then (option_parser is_zero_or_duration_ms name v) (\<lambda>v. Inr (int_of v))"

definition parse_positive_int :: "string \<Rightarrow> option_value \<Rightarrow> option_error + int" where
  "parse_positive_int name v = and_then (option_parser is_positive_int name v) (\<lambda>v. Inr (int_of v))"

definition min_duration_ms :: "int \<Rightarrow> int \<Rightarrow> int" where
  "min_duration_ms a b = (if a \<le> b then a else b)"

subsection \<open>The reconnect policy\<close>

datatype max_attempts = Budget nat | Unlimited

record backoff_schedule =
  maxAttempts :: max_attempts
  initialDelayMs :: int
  maxDelayMs :: int
  growth :: rat
  jitterMs :: int

record reconnect_policy =
  policyMaxAttempts :: option_value
  policyInitialDelayMs :: "option_value option"
  policyMaxDelayMs :: "option_value option"
  policyFactor :: "option_value option"
  policyJitterMs :: "option_value option"

definition parse_max_attempts :: "option_value \<Rightarrow> option_error + max_attempts" where
  "parse_max_attempts v =
     and_then (option_parser (\<lambda>v. v = PosInfinity \<or> (is_integer v \<and> int_of v \<ge> 0)) ''reconnect.maxAttempts'' v)
       (\<lambda>v. Inr (if v = PosInfinity then Unlimited else Budget (nat (int_of v))))"

definition parse_backoff_factor :: "option_value \<Rightarrow> option_error + rat" where
  "parse_backoff_factor v =
     (case v of
        Finite x \<Rightarrow> if x \<ge> 1 then Inr x else Inl (InvalidArg ''reconnect.factor'')
      | _ \<Rightarrow> Inl (InvalidArg ''reconnect.factor''))"

definition or_default :: "option_value option \<Rightarrow> rat \<Rightarrow> option_value" where
  "or_default v d = (case v of None \<Rightarrow> Finite d | Some v \<Rightarrow> v)"

definition resolve_schedule :: "reconnect_policy option \<Rightarrow> option_error + backoff_schedule" where
  "resolve_schedule policy =
     (let p = (case policy of
                 None \<Rightarrow> \<lparr>policyMaxAttempts = Finite 0, policyInitialDelayMs = None, policyMaxDelayMs = None,
                          policyFactor = None, policyJitterMs = None\<rparr>
               | Some p \<Rightarrow> p) in
      and_then (parse_max_attempts (policyMaxAttempts p)) (\<lambda>attempts.
      and_then (parse_duration_ms ''reconnect.initialDelayMs'' (or_default (policyInitialDelayMs p) 250)) (\<lambda>initial.
      and_then (parse_duration_ms ''reconnect.maxDelayMs'' (or_default (policyMaxDelayMs p) 10000)) (\<lambda>largest.
      and_then (parse_backoff_factor (or_default (policyFactor p) 2)) (\<lambda>factor.
      and_then (parse_heartbeat_interval ''reconnect.jitterMs'' (or_default (policyJitterMs p) 250)) (\<lambda>jitter.
        if largest + jitter > duration_max_ms
        then Inl (InvalidArg ''reconnect.maxDelayMs + reconnect.jitterMs'')
        else Inr \<lparr>maxAttempts = attempts, initialDelayMs = initial, maxDelayMs = largest,
                  growth = factor, jitterMs = jitter\<rparr>))))))"

subsection \<open>The controller\<close>

record reconnect =
  backoff :: backoff_schedule
  attempts :: nat
  retryTimer :: "rat option"

datatype decision = Scheduled nat | Exhausted nat | Disabled

datatype reconnect_effect = Decided decision | ArmTimer rat | Retry

definition new_reconnect :: "backoff_schedule \<Rightarrow> reconnect" where
  "new_reconnect s = \<lparr>backoff = s, attempts = 0, retryTimer = None\<rparr>"

definition is_pending :: "reconnect \<Rightarrow> bool" where
  "is_pending c \<longleftrightarrow> retryTimer c \<noteq> None"

definition cancel_retry :: "reconnect \<Rightarrow> reconnect" where
  "cancel_retry c = c\<lparr>retryTimer := None\<rparr>"

definition reset_episode :: "reconnect \<Rightarrow> reconnect" where
  "reset_episode c = cancel_retry (c\<lparr>attempts := 0\<rparr>)"

definition backoff_delay :: "rat \<Rightarrow> reconnect \<Rightarrow> rat" where
  "backoff_delay draw c =
     (let s = backoff c;
          base = min (of_int (initialDelayMs s) * growth s ^ (attempts c - 1)) (of_int (maxDelayMs s))
      in base + draw * of_int (jitterMs s))"

definition schedule :: "rat \<Rightarrow> reconnect \<Rightarrow> reconnect \<times> reconnect_effect list" where
  "schedule draw c =
     (case maxAttempts (backoff c) of
        Budget n \<Rightarrow>
          if n = 0 then (c, [Decided Disabled])
          else if retryTimer c \<noteq> None then (c, [Decided (Scheduled (attempts c))])
          else if attempts c \<ge> n then (c, [Decided (Exhausted n)])
          else
            let c1 = c\<lparr>attempts := Suc (attempts c)\<rparr>; d = backoff_delay draw c1
            in (c1\<lparr>retryTimer := Some d\<rparr>, [ArmTimer d, Decided (Scheduled (attempts c1))])
      | Unlimited \<Rightarrow>
          if retryTimer c \<noteq> None then (c, [Decided (Scheduled (attempts c))])
          else
            let c1 = c\<lparr>attempts := Suc (attempts c)\<rparr>; d = backoff_delay draw c1
            in (c1\<lparr>retryTimer := Some d\<rparr>, [ArmTimer d, Decided (Scheduled (attempts c1))]))"

definition timer_fires :: "reconnect \<Rightarrow> reconnect \<times> reconnect_effect list" where
  "timer_fires c = (if retryTimer c = None then (c, []) else (c\<lparr>retryTimer := None\<rparr>, [Retry]))"

datatype reconnect_op = Schedule rat | TimerFires | Cancel | ResetEpisode

fun reconnect_step :: "reconnect \<Rightarrow> reconnect_op \<Rightarrow> reconnect \<times> reconnect_effect list" where
  "reconnect_step c (Schedule draw) = schedule draw c"
| "reconnect_step c TimerFires = timer_fires c"
| "reconnect_step c Cancel = (cancel_retry c, [])"
| "reconnect_step c ResetEpisode = (reset_episode c, [])"

subsection \<open>The schedule's types\<close>

text \<open>What the stamped types of the source say of a schedule.\<close>

definition duration_ok :: "int \<Rightarrow> bool" where
  "duration_ok d \<longleftrightarrow> 1 \<le> d \<and> d \<le> duration_max_ms"

definition schedule_ok :: "backoff_schedule \<Rightarrow> bool" where
  "schedule_ok s \<longleftrightarrow> duration_ok (initialDelayMs s) \<and> duration_ok (maxDelayMs s) \<and> 1 \<le> growth s
     \<and> 0 \<le> jitterMs s \<and> maxDelayMs s + jitterMs s \<le> duration_max_ms"

lemma parse_duration_ok: "parse_duration_ms name v = Inr d \<longleftrightarrow> is_duration_ms v \<and> d = int_of v"
  by (auto simp: parse_duration_ms_def option_parser_def)

lemma parse_zero_or_ok:
  "parse_heartbeat_interval name v = Inr d \<Longrightarrow> 0 \<le> d \<and> (d = 0 \<or> duration_ok d)"
  by (auto simp: parse_heartbeat_interval_def option_parser_def is_zero_or_duration_ms_def is_duration_ms_def
      duration_ok_def int_of_def split: if_splits)

lemma resolve_ok: "resolve_schedule policy = Inr s \<Longrightarrow> schedule_ok s"
  unfolding resolve_schedule_def Let_def and_then_Inr
  by (auto simp: parse_duration_ok is_duration_ms_def duration_ok_def schedule_ok_def parse_backoff_factor_def
      dest!: parse_zero_or_ok split: if_splits option_value.splits)

text \<open>The base delay is capped, and at least one millisecond.\<close>

lemma backoff_delay_range:
  assumes "schedule_ok (backoff c)" and "0 \<le> draw" "draw < 1"
  shows "1 \<le> backoff_delay draw c" "backoff_delay draw c \<le> of_int duration_max_ms"
proof -
  let ?s = "backoff c"
  let ?base = "min (of_int (initialDelayMs ?s) * growth ?s ^ (attempts c - 1)) (of_int (maxDelayMs ?s) :: rat)"
  have i: "(1 :: rat) \<le> of_int (initialDelayMs ?s)" and m: "(1 :: rat) \<le> of_int (maxDelayMs ?s)"
    and j: "(0 :: rat) \<le> of_int (jitterMs ?s)" and g: "1 \<le> growth ?s"
    using assms(1) by (simp_all add: schedule_ok_def duration_ok_def)
  have "1 \<le> growth ?s ^ (attempts c - 1)" using g by simp
  then have "1 \<le> of_int (initialDelayMs ?s) * growth ?s ^ (attempts c - 1)"
    using i mult_mono [of 1 "of_int (initialDelayMs ?s)" 1 "growth ?s ^ (attempts c - 1)"] by simp
  then have base: "1 \<le> ?base" using m by simp
  have "0 \<le> draw * of_int (jitterMs ?s)" using assms(2) j by simp
  then show "1 \<le> backoff_delay draw c" unfolding backoff_delay_def Let_def using base by linarith
  have "draw * of_int (jitterMs ?s) \<le> of_int (jitterMs ?s)"
    using assms(2,3) j mult_right_mono [of draw 1 "of_int (jitterMs ?s)"] by simp
  then have "backoff_delay draw c \<le> of_int (maxDelayMs ?s) + of_int (jitterMs ?s)"
    by (simp add: backoff_delay_def Let_def add_mono)
  also have "\<dots> \<le> of_int duration_max_ms"
    using assms(1) unfolding schedule_ok_def by (metis of_int_add of_int_le_iff)
  finally show "backoff_delay draw c \<le> of_int duration_max_ms" .
qed


definition fair_draw :: "reconnect_op \<Rightarrow> bool" where
  "fair_draw op = (case op of Schedule draw \<Rightarrow> 0 \<le> draw \<and> draw < 1 | _ \<Rightarrow> True)"

definition timer_honors :: "reconnect_effect \<Rightarrow> bool" where
  "timer_honors e = (case e of ArmTimer d \<Rightarrow> 1 \<le> d \<and> d \<le> of_int duration_max_ms | _ \<Rightarrow> True)"

lemma schedule_backoff [simp]:
  "backoff (fst (schedule draw c)) = backoff c" "backoff (fst (reconnect_step c op)) = backoff c"
proof -
  show "backoff (fst (schedule draw c)) = backoff c" for draw
    by (simp add: schedule_def Let_def split: max_attempts.splits)
  then show "backoff (fst (reconnect_step c op)) = backoff c"
    by (cases op) (simp_all add: timer_fires_def cancel_retry_def reset_episode_def)
qed

interpretation stamped: invariant_steps reconnect_step "\<lambda>c. schedule_ok (backoff c)"
  by unfold_locales simp

text \<open>
  C38. A stamped policy stays within its types. A policy that is accepted gives durations a
  timer honors, a growth of at least one and a largest delay with jitter within the timer's
  range; and over any history of the controller every delay it arms, whatever the draw and
  however often the base grew, is at least one millisecond and at most the timer's maximum.
\<close>

theorem schedule_well_typed:
  "case resolve_schedule policy of
     Inl (InvalidArg name) \<Rightarrow> take 10 name = ''reconnect.''
   | Inr s \<Rightarrow> schedule_ok s
       \<and> list_all timer_honors (snd (run_steps reconnect_step (new_reconnect s) (filter fair_draw ops)))"
proof (cases "resolve_schedule policy")
  case (Inl e)
  then show ?thesis
    by (cases e) (auto simp: resolve_schedule_def Let_def parse_max_attempts_def parse_duration_ms_def
        parse_backoff_factor_def parse_heartbeat_interval_def option_parser_def
        split: if_splits option_value.splits sum.splits)
next
  case (Inr s)
  have honors: "list_all timer_honors (snd (reconnect_step c op))"
    if "schedule_ok (backoff c)" "fair_draw op" for c op
    using that backoff_delay_range [of "c\<lparr>attempts := Suc (attempts c)\<rparr>"]
    by (cases op) (auto simp: schedule_def timer_fires_def timer_honors_def fair_draw_def Let_def
        split: max_attempts.splits)
  have "schedule_ok (backoff c) \<Longrightarrow>
      list_all timer_honors (snd (run_steps reconnect_step c (filter fair_draw ops)))" for c
    using honors by (induction ops arbitrary: c) simp_all
  then show ?thesis
    using Inr resolve_ok [OF Inr] by (simp add: new_reconnect_def)
qed

text \<open>Within an episode each armed timer is one attempt of the budget.\<close>

definition is_arm :: "reconnect_effect \<Rightarrow> bool" where
  "is_arm e = (case e of ArmTimer d \<Rightarrow> True | _ \<Rightarrow> False)"

lemma episode_budget:
  "maxAttempts (backoff c) = Budget n \<Longrightarrow> attempts c \<le> n \<Longrightarrow>
   attempts c + length (filter is_arm (snd (run_steps reconnect_step c (filter (\<lambda>op. op \<noteq> ResetEpisode) ops)))) \<le> n"
proof (induction ops arbitrary: c)
  case (Cons op ops)
  have "attempts (fst (reconnect_step c op)) = attempts c + length (filter is_arm (snd (reconnect_step c op)))
      \<and> attempts (fst (reconnect_step c op)) \<le> n" if "op \<noteq> ResetEpisode"
    using that Cons.prems
    by (cases op) (auto simp: schedule_def timer_fires_def cancel_retry_def is_arm_def Let_def)
  then show ?case
    using Cons.IH [of "fst (reconnect_step c op)"] Cons.IH [of c] Cons.prems by auto
qed simp

definition rounds :: "rat list \<Rightarrow> reconnect_op list" where
  "rounds draws = concat (map (\<lambda>u. [Schedule u, TimerFires]) draws)"

lemma rounds_run:
  "maxAttempts (backoff c) = Budget n \<Longrightarrow> 0 < n \<Longrightarrow> retryTimer c = None \<Longrightarrow> attempts c \<le> n \<Longrightarrow>
   length (filter (\<lambda>e. e = Retry) (snd (run_steps reconnect_step c (rounds us)))) =
     min (length us) (n - attempts c) \<and>
   length (filter (\<lambda>e. e = Decided (Exhausted n)) (snd (run_steps reconnect_step c (rounds us)))) =
     length us - (n - attempts c)"
proof (induction us arbitrary: c)
  case Nil
  then show ?case by (simp add: rounds_def)
next
  case (Cons u us)
  show ?case
  proof (cases "attempts c < n")
    case True
    let ?c = "c\<lparr>attempts := Suc (attempts c), retryTimer := None\<rparr>"
    have "length (filter (\<lambda>e. e = Retry) (snd (run_steps reconnect_step ?c (rounds us)))) =
        min (length us) (n - attempts ?c) \<and>
      length (filter (\<lambda>e. e = Decided (Exhausted n)) (snd (run_steps reconnect_step ?c (rounds us)))) =
        length us - (n - attempts ?c)"
      using Cons.prems True by (intro Cons.IH) simp_all
    then show ?thesis
      using Cons.prems True by (simp add: rounds_def schedule_def timer_fires_def Let_def)
  next
    case False
    then show ?thesis
      using Cons.IH [OF Cons.prems] Cons.prems by (simp add: rounds_def schedule_def timer_fires_def)
  qed
qed

text \<open>
  Reconnecting ends. With a finite budget an episode arms at most that many retries,
  whatever fires or is cancelled in between; and when every attempt fails and is rescheduled,
  exactly the budget of retries runs and every schedule after that reports exhaustion.
\<close>

theorem reconnect_terminates:
  "let c = new_reconnect (s\<lparr>maxAttempts := Budget (Suc n)\<rparr>);
       effs = snd (run_steps reconnect_step c (rounds draws)) in
     length (filter is_arm (snd (run_steps reconnect_step c (filter (\<lambda>op. op \<noteq> ResetEpisode) ops)))) \<le> Suc n
     \<and> length (filter (\<lambda>e. e = Retry) effs) = min (length draws) (Suc n)
     \<and> length (filter (\<lambda>e. e = Decided (Exhausted (Suc n))) effs) = length draws - Suc n"
  using episode_budget [of "new_reconnect (s\<lparr>maxAttempts := Budget (Suc n)\<rparr>)" "Suc n" ops]
    rounds_run [of "new_reconnect (s\<lparr>maxAttempts := Budget (Suc n)\<rparr>)" "Suc n" draws]
  by (simp add: new_reconnect_def Let_def)


subsection \<open>Heartbeat\<close>

text \<open>
  One probe: the interval runs or not, and at most one ping is outstanding, with the token it
  was sent with, or None when the transport refused it. \<open>Tick\<close> carries what \<open>ping\<close> did.
\<close>

record 'a heartbeat =
  intervalMs :: int
  running :: bool
  pingInflight :: "'a option option"

datatype heartbeat_effect = TickHook | PingSent | DeadlineArmed | ProbeTimeout

definition new_heartbeat :: "int \<Rightarrow> 'a heartbeat" where
  "new_heartbeat interval = \<lparr>intervalMs = interval, running = False, pingInflight = None\<rparr>"

definition heartbeat_start :: "'a heartbeat \<Rightarrow> 'a heartbeat" where
  "heartbeat_start h =
     (if running h then h else if intervalMs h = 0 then h else h\<lparr>running := True\<rparr>)"

definition heartbeat_tick :: "'a option \<Rightarrow> 'a heartbeat \<Rightarrow> 'a heartbeat \<times> heartbeat_effect list" where
  "heartbeat_tick sent h =
     (if \<not> running h then (h, [])
      else if pingInflight h \<noteq> None then (h, [TickHook])
      else (h\<lparr>pingInflight := Some sent\<rparr>, [TickHook, PingSent, DeadlineArmed]))"

definition heartbeat_deadline :: "'a heartbeat \<Rightarrow> 'a heartbeat \<times> heartbeat_effect list" where
  "heartbeat_deadline h =
     (if pingInflight h = None then (h, []) else (h\<lparr>pingInflight := None\<rparr>, [ProbeTimeout]))"

definition on_pong :: "'a \<Rightarrow> 'a heartbeat \<Rightarrow> 'a heartbeat" where
  "on_pong token h = (if pingInflight h = Some (Some token) then h\<lparr>pingInflight := None\<rparr> else h)"

definition heartbeat_stop :: "'a heartbeat \<Rightarrow> 'a heartbeat" where
  "heartbeat_stop h = h\<lparr>running := False, pingInflight := None\<rparr>"

datatype 'a heartbeat_op = Start | Tick "'a option" | Deadline | Pong 'a | Stop

fun heartbeat_step :: "'a heartbeat \<Rightarrow> 'a heartbeat_op \<Rightarrow> 'a heartbeat \<times> heartbeat_effect list" where
  "heartbeat_step h Start = (heartbeat_start h, [])"
| "heartbeat_step h (Tick sent) = heartbeat_tick sent h"
| "heartbeat_step h Deadline = heartbeat_deadline h"
| "heartbeat_step h (Pong token) = (on_pong token h, [])"
| "heartbeat_step h Stop = (heartbeat_stop h, [])"

text \<open>Nothing is outstanding on a stopped probe, and a probe that is off never runs.\<close>

definition heartbeat_ok :: "'a heartbeat \<Rightarrow> bool" where
  "heartbeat_ok h \<longleftrightarrow> (running h \<longrightarrow> intervalMs h \<noteq> 0) \<and> (pingInflight h \<noteq> None \<longrightarrow> running h)"

interpretation heartbeat: invariant_steps heartbeat_step heartbeat_ok
proof unfold_locales
  fix h :: "'a heartbeat" and op
  assume "heartbeat_ok h"
  then show "heartbeat_ok (fst (heartbeat_step h op))"
    by (cases op) (auto simp: heartbeat_ok_def heartbeat_start_def heartbeat_tick_def
        heartbeat_deadline_def on_pong_def heartbeat_stop_def)
qed

subsection \<open>Rate limiter\<close>

record rate_limit =
  maxCalls :: nat
  windowMs :: int

fun expire :: "int \<Rightarrow> int list \<Rightarrow> int list" where
  "expire cutoff [] = []"
| "expire cutoff (t # ts) = (if t < cutoff then expire cutoff ts else t # ts)"

definition rate_check :: "rate_limit option \<Rightarrow> int list \<Rightarrow> int \<Rightarrow> int list \<times> bool list" where
  "rate_check cfg window now =
     (case cfg of
        None \<Rightarrow> (window, [True])
      | Some c \<Rightarrow>
          let w = expire (now - windowMs c) window in
          if length w \<ge> maxCalls c then (w, [False]) else (w @ [now], [True]))"

lemma expire_filter: "sorted ts \<Longrightarrow> expire cutoff ts = filter (\<lambda>t. cutoff \<le> t) ts"
  by (induction ts) (auto simp: filter_id_conv [THEN iffD2] intro!: filter_True [symmetric] intro: order_trans)

text \<open>
  Over calls at rising times, the window is the admitted calls of the last \<open>windowMs\<close>, and
  never more than the limit.
\<close>

definition rate_ok :: "rate_limit \<Rightarrow> int list \<Rightarrow> int \<Rightarrow> bool" where
  "rate_ok c window now \<longleftrightarrow> sorted window \<and> length window \<le> maxCalls c \<and> (\<forall>t\<in>set window. t \<le> now)"

lemma rate_check_ok:
  assumes "rate_ok c window before" and "before \<le> now"
  shows "rate_ok c (fst (rate_check (Some c) window now)) now"
    and "fst (rate_check (Some c) window now) =
      filter (\<lambda>t. now - windowMs c \<le> t) window @ (if snd (rate_check (Some c) window now) = [True] then [now] else [])"
proof -
  have e: "expire cutoff window = filter (\<lambda>t. cutoff \<le> t) window" for cutoff
    using assms(1) expire_filter by (simp add: rate_ok_def)
  have "length (filter (\<lambda>t. now - windowMs c \<le> t) window) \<le> maxCalls c"
    using assms(1) length_filter_le [of "\<lambda>t. now - windowMs c \<le> t" window] unfolding rate_ok_def by linarith
  then show "rate_ok c (fst (rate_check (Some c) window now)) now"
    using assms by (auto simp: rate_check_def e Let_def rate_ok_def sorted_append sorted_wrt_filter
        intro: order_trans)
  show "fst (rate_check (Some c) window now) =
      filter (\<lambda>t. now - windowMs c \<le> t) window @ (if snd (rate_check (Some c) window now) = [True] then [now] else [])"
    by (simp add: rate_check_def e Let_def)
qed

end
