(* ===== verification/Frames.thy ===== *)
theory Frames
  imports Rpc Sinks Reconnect
begin

section \<open>The WebSocket bridge's wire protocol\<close>

text \<open>
  \<open>src/connectors/websocket/protocol.ts\<close> and \<open>src/cross-session-layout-messages.ts\<close>: the
  binary frame of pane output and the JSON frames of both directions with their parsers. The
  text of a JSON frame is not modelled: a parser starts at the value \<open>JSON.parse\<close> gives, None
  when it throws, and an encoder is the value \<open>JSON.stringify\<close> writes. A protocol error is its
  message, cut at the first part that depends on the peer.
\<close>

subsection \<open>Binary pane output\<close>

definition PANE_OUTPUT_MAGIC :: byte where "PANE_OUTPUT_MAGIC = 0x7f"
definition FLAG_EXTENDED :: byte where "FLAG_EXTENDED = 0x01"
definition HEADER_BASE :: nat where "HEADER_BASE = 6"
definition HEADER_EXTENDED :: nat where "HEADER_EXTENDED = 10"

text \<open>\<open>DataView.setUint32\<close> and \<open>getUint32\<close>, big endian; a number outside the range wraps.\<close>

fun to_uint32 :: "jsnum \<Rightarrow> 32 word" where
  "to_uint32 (Num n) = word_of_int n"
| "to_uint32 v = 0"

definition uint32_bytes :: "32 word \<Rightarrow> byte list" where
  "uint32_bytes w = [ucast (drop_bit 24 w), ucast (drop_bit 16 w), ucast (drop_bit 8 w), ucast w]"

definition get_uint32 :: "nat \<Rightarrow> byte list \<Rightarrow> jsnum" where
  "get_uint32 i buf =
     Num (((uint (buf ! i) * 256 + uint (buf ! (i + 1))) * 256 + uint (buf ! (i + 2))) * 256 + uint (buf ! (i + 3)))"

definition is_pane_output_frame :: "byte list \<Rightarrow> bool" where
  "is_pane_output_frame buf \<longleftrightarrow> length buf > 0 \<and> buf ! 0 = PANE_OUTPUT_MAGIC"

definition encode_pane_output :: "chunk \<Rightarrow> byte list" where
  "encode_pane_output msg = [PANE_OUTPUT_MAGIC, 0] @ uint32_bytes (to_uint32 (chunkPane msg)) @ chunkData msg"

unbundle bit_operations_syntax

definition decode_pane_output :: "byte list \<Rightarrow> string + tmux_message" where
  "decode_pane_output buf =
     (if length buf < HEADER_BASE then Inl ''pane-output frame truncated''
      else if buf ! 0 \<noteq> PANE_OUTPUT_MAGIC then Inl ''pane-output frame has wrong magic byte''
      else
        let flags = buf ! 1 in
        if flags AND NOT FLAG_EXTENDED \<noteq> 0 then Inl ''pane-output frame has unknown flag bits set''
        else
          let paneId = get_uint32 2 buf; extended = flags AND FLAG_EXTENDED \<noteq> 0 in
          if \<not> extended then Inr (Output \<lparr>outPaneId = paneId, outData = drop HEADER_BASE buf\<rparr>)
          else if length buf < HEADER_EXTENDED then Inl ''extended pane-output frame truncated''
          else Inr (ExtendedOutput \<lparr>outPaneId = paneId, outData = drop HEADER_EXTENDED buf\<rparr> (get_uint32 6 buf)))"

subsection \<open>Frames\<close>

datatype client_frame =
    HelloFrame
  | CallFrame string string "json list"
  | PingFrame string
  | ByeFrame

record welcome_limits =
  limitRequestTimeoutMs :: int
  limitHeartbeatIntervalMs :: int
  limitMaxInflight :: int

text \<open>The payload of a bridge error on the wire: any code string and a message.\<close>

record error_payload =
  payloadCode :: string
  payloadMessage :: string

datatype result_frame =
    ResultOk string json
  | ResultTmuxError string json
  | ResultError string error_payload

text \<open>An event is its type, its fields and, for a layout event, the layout derived from them.\<close>

record event_message =
  eventType :: string
  eventFields :: "(string \<times> json) list"
  eventLayout :: "window_layout_fields option"

datatype server_frame =
    WelcomeFrame welcome_limits
  | EventFrame event_message
  | ResultFrame result_frame
  | PongFrame string
  | DrainingFrame json
  | FatalFrame error_payload

subsection \<open>Parsing\<close>

text \<open>
  \<open>parsers[k]\<close> turns \<open>k\<close> into a property key; an array of one string is that string. None
  stands for a key that no frame kind has, and for a value that has none.
\<close>

fun property_key :: "json \<Rightarrow> string option" where
  "property_key (JStr s) = Some s"
| "property_key (JArr [JNull]) = None"
| "property_key (JArr [v]) = property_key v"
| "property_key v = None"

definition non_empty_string :: "string \<Rightarrow> json option \<Rightarrow> string + string" where
  "non_empty_string what v =
     (case v of
        Some (JStr s) \<Rightarrow> if length s = 0 then Inl (what @ '' must be a non-empty string'') else Inr s
      | _ \<Rightarrow> Inl (what @ '' must be a non-empty string''))"

definition parse_hello :: "json \<Rightarrow> string + client_frame" where
  "parse_hello x = Inr HelloFrame"

definition parse_call :: "json \<Rightarrow> string + client_frame" where
  "parse_call x =
     and_then (non_empty_string ''call.id'' (property ''id'' x)) (\<lambda>callId.
       case property ''method'' x of
         Some (JStr m) \<Rightarrow>
           (case property ''args'' x of
              Some (JArr args) \<Rightarrow> Inr (CallFrame callId m args)
            | _ \<Rightarrow> Inl ''call.args must be an array'')
       | _ \<Rightarrow> Inl ''call.method must be a string'')"

definition parse_ping :: "json \<Rightarrow> string + client_frame" where
  "parse_ping x = and_then (non_empty_string ''ping.id'' (property ''id'' x)) (\<lambda>pingId. Inr (PingFrame pingId))"

definition CLIENT_FRAME_PARSERS :: "(string \<times> (json \<Rightarrow> string + client_frame)) list" where
  "CLIENT_FRAME_PARSERS =
     [(''hello'', parse_hello), (''call'', parse_call), (''ping'', parse_ping),
      (''bye'', \<lambda>x. Inr ByeFrame)]"

fun option_of_json :: "json option \<Rightarrow> option_value" where
  "option_of_json (Some (JNum q)) = Finite q"
| "option_of_json (Some (JInfinite positive)) = (if positive then PosInfinity else MinusInfinity)"
| "option_of_json (Some JNaN) = NotANumber"
| "option_of_json v = NotNumber"

fun wire_limit :: "option_error + int \<Rightarrow> string + int" where
  "wire_limit (Inl (InvalidArg name)) = Inl name"
| "wire_limit (Inr d) = Inr d"

definition parse_welcome :: "json \<Rightarrow> string + server_frame" where
  "parse_welcome x =
     (case property ''limits'' x of
        None \<Rightarrow> Inl ''welcome.limits missing or malformed''
      | Some l \<Rightarrow>
          if \<not> (case l of JObj fs \<Rightarrow> True | JArr vs \<Rightarrow> True | _ \<Rightarrow> False)
          then Inl ''welcome.limits missing or malformed''
          else
            and_then (wire_limit (parse_duration_ms ''welcome.limits.requestTimeoutMs''
              (option_of_json (property ''requestTimeoutMs'' l)))) (\<lambda>timeout.
            and_then (wire_limit (parse_heartbeat_interval ''welcome.limits.heartbeatIntervalMs''
              (option_of_json (property ''heartbeatIntervalMs'' l)))) (\<lambda>interval.
            and_then (wire_limit (parse_positive_int ''welcome.limits.maxInflight''
              (option_of_json (property ''maxInflight'' l)))) (\<lambda>maxCalls.
            Inr (WelcomeFrame \<lparr>limitRequestTimeoutMs = timeout, limitHeartbeatIntervalMs = interval,
                   limitMaxInflight = maxCalls\<rparr>)))))"

datatype field_kind = NumberKind | NumberArrayKind | StringKind

definition CROSS_SESSION_LAYOUT_FIELDS :: "(string \<times> (string \<times> field_kind) list) list" where
  "CROSS_SESSION_LAYOUT_FIELDS =
     [(''cross-session-layout-change'', [(''sessionId'', NumberKind), (''windowId'', NumberKind)]),
      (''cross-session-layout-decode-error'', [(''skippedBytes'', NumberKind)]),
      (''cross-session-layout-overrun'', [(''lostEntries'', NumberKind)]),
      (''cross-session-layout-fetch-failed'', [(''windowId'', NumberKind), (''reason'', StringKind)]),
      (''cross-session-layout-hook-restored'', []),
      (''cross-session-layout-repair-failed'', [(''reason'', StringKind)]),
      (''cross-session-layout-uncovered'', [(''windowIds'', NumberArrayKind)])]"

definition CROSS_SESSION_LAYOUT_MESSAGE_TYPES :: "string list" where
  "CROSS_SESSION_LAYOUT_MESSAGE_TYPES =
     [''cross-session-layout-change'', ''cross-session-layout-decode-error'',
      ''cross-session-layout-overrun'', ''cross-session-layout-fetch-failed'',
      ''cross-session-layout-hook-restored'', ''cross-session-layout-repair-failed'',
      ''cross-session-layout-uncovered'']"

definition is_cross_session_layout_message :: "string \<Rightarrow> bool" where
  "is_cross_session_layout_message ty \<longleftrightarrow> ty \<in> set CROSS_SESSION_LAYOUT_MESSAGE_TYPES"

fun is_number :: "json \<Rightarrow> bool" where
  "is_number (JNum q) = True"
| "is_number (JInfinite b) = True"
| "is_number JNaN = True"
| "is_number v = False"

fun kind_check :: "field_kind \<Rightarrow> json option \<Rightarrow> bool" where
  "kind_check NumberKind (Some v) = is_number v"
| "kind_check StringKind (Some (JStr s)) = True"
| "kind_check NumberArrayKind (Some (JArr vs)) = list_all is_number vs"
| "kind_check kind v = False"

fun check_fields :: "(string \<times> field_kind) list \<Rightarrow> (string \<times> json) list \<Rightarrow> string + unit" where
  "check_fields [] msg = Inr ()"
| "check_fields ((field, kind) # fs) msg =
     (if \<not> kind_check kind (map_of msg field) then Inl (''event.msg.'' @ field) else check_fields fs msg)"

definition check_cross_session_layout_fields :: "(string \<times> json) list \<Rightarrow> string \<Rightarrow> string + unit" where
  "check_cross_session_layout_fields msg ty =
     (case map_of CROSS_SESSION_LAYOUT_FIELDS ty of None \<Rightarrow> Inr () | Some fs \<Rightarrow> check_fields fs msg)"

definition LAYOUT_EVENT_TYPES :: "string list" where
  "LAYOUT_EVENT_TYPES = [''layout-change'', ''cross-session-layout-change'']"

definition raw_layout_field :: "(string \<times> json) list \<Rightarrow> string \<Rightarrow> string + string" where
  "raw_layout_field msg field =
     (case map_of msg field of Some (JStr s) \<Rightarrow> Inr s | _ \<Rightarrow> Inl (''event.msg.'' @ field))"

definition with_derived_layout :: "(string \<times> json) list \<Rightarrow> string \<Rightarrow> string + event_message" where
  "with_derived_layout msg ty =
     (if ty \<notin> set LAYOUT_EVENT_TYPES then Inr \<lparr>eventType = ty, eventFields = msg, eventLayout = None\<rparr>
      else
        and_then (raw_layout_field msg ''windowLayout'') (\<lambda>wl.
        and_then (raw_layout_field msg ''windowVisibleLayout'') (\<lambda>wvl.
        and_then (raw_layout_field msg ''windowFlags'') (\<lambda>flags.
        Inr \<lparr>eventType = ty, eventFields = msg,
             eventLayout = Some (window_layout_fields_of wl wvl flags)\<rparr>))))"

definition unknown_event_type :: string where
  "unknown_event_type = ''event.msg.type must be a known TmuxMessage discriminator''"

definition parse_event :: "json \<Rightarrow> string + server_frame" where
  "parse_event x =
     (case property ''msg'' x of
        Some (JArr vs) \<Rightarrow> Inl unknown_event_type
      | Some (JObj msg) \<Rightarrow>
          (case map_of msg ''type'' of
             Some (JStr ty) \<Rightarrow>
               and_then
                 (if is_cross_session_layout_message ty then check_cross_session_layout_fields msg ty
                  else if ty \<notin> set serialized_event_types then Inl unknown_event_type
                  else Inr ())
                 (\<lambda>u. and_then (with_derived_layout msg ty) (\<lambda>ev. Inr (EventFrame ev)))
           | _ \<Rightarrow> Inl unknown_event_type)
      | _ \<Rightarrow> Inl ''event.msg must be an object'')"

definition parse_error_payload :: "json option \<Rightarrow> string + error_payload" where
  "parse_error_payload x =
     (case x of
        None \<Rightarrow> Inl ''error payload must be an object''
      | Some v \<Rightarrow>
          if \<not> (case v of JObj fs \<Rightarrow> True | JArr vs \<Rightarrow> True | _ \<Rightarrow> False)
          then Inl ''error payload must be an object''
          else (case property ''code'' v of
                  Some (JStr c) \<Rightarrow>
                    (case property ''message'' v of
                       Some (JStr m) \<Rightarrow> Inr \<lparr>payloadCode = c, payloadMessage = m\<rparr>
                     | _ \<Rightarrow> Inl ''error.message must be a string'')
                | _ \<Rightarrow> Inl ''error.code must be a string''))"

fun is_object_or_null :: "json \<Rightarrow> bool" where
  "is_object_or_null JNull = True"
| "is_object_or_null (JArr vs) = True"
| "is_object_or_null (JObj fs) = True"
| "is_object_or_null v = False"

definition parse_result :: "json \<Rightarrow> string + server_frame" where
  "parse_result x =
     and_then (non_empty_string ''result.id'' (property ''id'' x)) (\<lambda>callId.
       case property ''ok'' x of
         Some (JBool True) \<Rightarrow>
           (case property ''response'' x of
              Some v \<Rightarrow>
                if is_object_or_null v then Inr (ResultFrame (ResultOk callId v))
                else Inl ''result.response must be an object or null''
            | None \<Rightarrow> Inl ''result.response must be an object or null'')
       | Some (JBool False) \<Rightarrow>
           (case property ''tmuxError'' x of
              Some v \<Rightarrow>
                if is_object_or_null v \<and> v \<noteq> JNull then Inr (ResultFrame (ResultTmuxError callId v))
                else Inl ''result.tmuxError must be an object''
            | None \<Rightarrow>
                and_then (parse_error_payload (property ''error'' x)) (\<lambda>e.
                  Inr (ResultFrame (ResultError callId e))))
       | _ \<Rightarrow> Inl ''result.ok must be a boolean'')"

definition parse_pong :: "json \<Rightarrow> string + server_frame" where
  "parse_pong x = and_then (non_empty_string ''pong.id'' (property ''id'' x)) (\<lambda>pingId. Inr (PongFrame pingId))"

definition parse_draining :: "json \<Rightarrow> string + server_frame" where
  "parse_draining x =
     (case property ''deadlineMs'' x of
        Some v \<Rightarrow> if is_number v then Inr (DrainingFrame v) else Inl ''draining.deadlineMs must be a number''
      | None \<Rightarrow> Inl ''draining.deadlineMs must be a number'')"

definition parse_fatal :: "json \<Rightarrow> string + server_frame" where
  "parse_fatal x =
     (if property ''fatal'' x \<noteq> Some (JBool True) then Inl ''error.fatal must be true''
      else and_then (parse_error_payload (property ''error'' x)) (\<lambda>e. Inr (FatalFrame e)))"

definition SERVER_FRAME_PARSERS :: "(string \<times> (json \<Rightarrow> string + server_frame)) list" where
  "SERVER_FRAME_PARSERS =
     [(''welcome'', parse_welcome), (''event'', parse_event), (''result'', parse_result),
      (''pong'', parse_pong), (''draining'', parse_draining), (''error'', parse_fatal)]"

definition parse_frame ::
    "(string \<times> (json \<Rightarrow> string + 'f)) list \<Rightarrow> string \<Rightarrow> json option \<Rightarrow> string + 'f" where
  "parse_frame parsers side parsed =
     (case parsed of
        None \<Rightarrow> Inl ''invalid JSON frame''
      | Some (JObj fs) \<Rightarrow>
          (case Option.bind (Option.bind (map_of fs ''k'') property_key) (map_of parsers) of
             None \<Rightarrow> Inl (''unknown '' @ side @ '' frame kind'')
           | Some fn \<Rightarrow> fn (JObj fs))
      | Some v \<Rightarrow> Inl ''frame must be a JSON object'')"

definition parse_client_frame :: "json option \<Rightarrow> string + client_frame" where
  "parse_client_frame raw = parse_frame CLIENT_FRAME_PARSERS ''client'' raw"

definition parse_server_frame :: "json option \<Rightarrow> string + server_frame" where
  "parse_server_frame raw = parse_frame SERVER_FRAME_PARSERS ''server'' raw"


subsection \<open>Encoding\<close>

text \<open>\<open>JSON.stringify\<close> followed by \<open>JSON.parse\<close>: a number JSON cannot write becomes null.\<close>

fun through_text :: "json \<Rightarrow> json" where
  "through_text (JInfinite b) = JNull"
| "through_text JNaN = JNull"
| "through_text (JArr vs) = JArr (map through_text vs)"
| "through_text (JObj fs) = JObj (map (\<lambda>(k, v). (k, through_text v)) fs)"
| "through_text v = v"

fun encode_client_frame :: "client_frame \<Rightarrow> json" where
  "encode_client_frame HelloFrame = JObj [(''k'', JStr ''hello'')]"
| "encode_client_frame (CallFrame callId m args) =
     through_text (JObj [(''k'', JStr ''call''), (''id'', JStr callId), (''method'', JStr m), (''args'', JArr args)])"
| "encode_client_frame (PingFrame pingId) = JObj [(''k'', JStr ''ping''), (''id'', JStr pingId)]"
| "encode_client_frame ByeFrame = JObj [(''k'', JStr ''bye'')]"

definition payload_json :: "error_payload \<Rightarrow> json" where
  "payload_json e = JObj [(''code'', JStr (payloadCode e)), (''message'', JStr (payloadMessage e))]"

fun encode_result :: "result_frame \<Rightarrow> json" where
  "encode_result (ResultOk callId v) =
     JObj [(''k'', JStr ''result''), (''id'', JStr callId), (''ok'', JBool True), (''response'', v)]"
| "encode_result (ResultTmuxError callId v) =
     JObj [(''k'', JStr ''result''), (''id'', JStr callId), (''ok'', JBool False), (''tmuxError'', v)]"
| "encode_result (ResultError callId e) =
     JObj [(''k'', JStr ''result''), (''id'', JStr callId), (''ok'', JBool False), (''error'', payload_json e)]"

definition limits_json :: "welcome_limits \<Rightarrow> json" where
  "limits_json l =
     JObj [(''requestTimeoutMs'', JNum (of_int (limitRequestTimeoutMs l))),
           (''heartbeatIntervalMs'', JNum (of_int (limitHeartbeatIntervalMs l))),
           (''maxInflight'', JNum (of_int (limitMaxInflight l)))]"

fun encode_server_frame :: "server_frame \<Rightarrow> json" where
  "encode_server_frame (WelcomeFrame l) = through_text (JObj [(''k'', JStr ''welcome''), (''limits'', limits_json l)])"
| "encode_server_frame (EventFrame ev) =
     through_text (JObj [(''k'', JStr ''event''), (''msg'', JObj (eventFields ev))])"
| "encode_server_frame (ResultFrame r) = through_text (encode_result r)"
| "encode_server_frame (PongFrame pingId) = JObj [(''k'', JStr ''pong''), (''id'', JStr pingId)]"
| "encode_server_frame (DrainingFrame v) =
     through_text (JObj [(''k'', JStr ''draining''), (''deadlineMs'', v)])"
| "encode_server_frame (FatalFrame e) =
     JObj [(''k'', JStr ''error''), (''fatal'', JBool True), (''error'', payload_json e)]"

subsection \<open>Round trips\<close>

lemma get_uint32_bytes:
  "length pre = i \<Longrightarrow> get_uint32 i (pre @ uint32_bytes w @ post) = Num (uint w)"
proof -
  assume i: "length pre = i"
  have "((uint (ucast (drop_bit 24 w) :: byte) * 256 + uint (ucast (drop_bit 16 w) :: byte)) * 256 +
      uint (ucast (drop_bit 8 w) :: byte)) * 256 + uint (ucast w :: byte) = uint w"
  proof -
    let ?n = "uint w"
    have n: "0 \<le> ?n" "?n < 2 ^ 32" using uint_lt2p [of w] by simp_all
    have b: "uint (ucast (drop_bit k w) :: byte) = (?n div 2 ^ k) mod 256" for k
      using n by (simp only: unsigned_ucast_eq unsigned_drop_bit_eq) (simp add: take_bit_eq_mod drop_bit_eq_div)
    have b0: "uint (ucast w :: byte) = ?n mod 256"
      using b [of 0] by simp
    have d: "?n div 2 ^ 16 = ?n div 256 div 256" "?n div 2 ^ 24 = ?n div 256 div 256 div 256"
      "?n div 2 ^ 8 = ?n div 256"
      by (simp_all add: div_mult2_eq [symmetric])
    have "?n div 256 div 256 div 256 < 256" using n by (simp add: div_mult2_eq [symmetric])
    moreover have "0 \<le> ?n div 256 div 256 div 256" using n by (intro div_int_pos_iff [THEN iffD2]) (simp add: pos_imp_zdiv_nonneg_iff)
    ultimately have top: "?n div 256 div 256 div 256 mod 256 = ?n div 256 div 256 div 256" by simp
    have s: "m div 256 * 256 + m mod 256 = m" for m :: int by simp
    show ?thesis unfolding b b0 d top by (simp only: s)
  qed
  then show ?thesis
    using i by (simp add: get_uint32_def uint32_bytes_def nth_append)
qed


text \<open>
  A pane id crosses the binary frame modulo \<open>2 ^ 32\<close>, the data unchanged.
\<close>

fun wrapped :: "jsnum \<Rightarrow> jsnum" where
  "wrapped (Num n) = Num (n mod 2 ^ 32)"
| "wrapped v = Num 0"

lemma to_uint32_wrapped: "Num (uint (to_uint32 v)) = wrapped v"
  by (cases v) (simp_all add: uint_word_of_int)

text \<open>
  Pane bytes survive the bridge. Every encoded chunk is recognised as pane output and
  decodes to an output message with exactly its bytes and its pane id modulo \<open>2 ^ 32\<close>; and
  the decoder accepts a buffer exactly when it has the magic byte, no unknown flag and the
  whole header its flags ask for, whatever follows.
\<close>

theorem pane_frame_exact:
  "is_pane_output_frame (encode_pane_output c)
   \<and> decode_pane_output (encode_pane_output c) = Inr (Output \<lparr>outPaneId = wrapped (chunkPane c), outData = chunkData c\<rparr>)
   \<and> ((\<exists>m. decode_pane_output buf = Inr m) \<longleftrightarrow>
        (take 2 buf = [PANE_OUTPUT_MAGIC, 0] \<and> 6 \<le> length buf)
        \<or> (take 2 buf = [PANE_OUTPUT_MAGIC, FLAG_EXTENDED] \<and> 10 \<le> length buf))"
proof (intro conjI)
  have h: "get_uint32 2 ([PANE_OUTPUT_MAGIC, 0] @ uint32_bytes w @ chunkData c) = Num (uint w)" for w
    by (rule get_uint32_bytes) simp
  show "is_pane_output_frame (encode_pane_output c)"
    by (simp add: is_pane_output_frame_def encode_pane_output_def)
  show "decode_pane_output (encode_pane_output c) = Inr (Output \<lparr>outPaneId = wrapped (chunkPane c), outData = chunkData c\<rparr>)"
    using h [of "to_uint32 (chunkPane c)"] to_uint32_wrapped [of "chunkPane c"]
    by (simp add: decode_pane_output_def encode_pane_output_def uint32_bytes_def HEADER_BASE_def Let_def)
  have flags: "f AND NOT FLAG_EXTENDED = 0 \<longleftrightarrow> f = 0 \<or> f = FLAG_EXTENDED" for f :: byte
  proof
    assume a: "f AND NOT FLAG_EXTENDED = 0"
    have "f = (f AND 1) OR (f AND NOT 1)"
      by (simp add: bit.conj_disj_distrib [symmetric])
    then have "f = of_bool (odd f)" using a by (simp add: FLAG_EXTENDED_def and_one_eq mod_2_eq_odd)
    then show "f = 0 \<or> f = FLAG_EXTENDED" by (cases "odd f") (simp_all add: FLAG_EXTENDED_def)
  qed (auto simp: FLAG_EXTENDED_def)
  show "(\<exists>m. decode_pane_output buf = Inr m) \<longleftrightarrow>
        (take 2 buf = [PANE_OUTPUT_MAGIC, 0] \<and> 6 \<le> length buf)
        \<or> (take 2 buf = [PANE_OUTPUT_MAGIC, FLAG_EXTENDED] \<and> 10 \<le> length buf)"
  proof (cases "6 \<le> length buf")
    case True
    then obtain m f rest where "buf = m # f # rest" by (cases buf; cases "tl buf") auto
    with True show ?thesis
      using flags [of f] by (auto simp: decode_pane_output_def HEADER_BASE_def HEADER_EXTENDED_def Let_def FLAG_EXTENDED_def)
  qed (auto simp: decode_pane_output_def HEADER_BASE_def)
qed


text \<open>The values that JSON text carries unchanged.\<close>

fun textual :: "json \<Rightarrow> bool" where
  "textual (JInfinite b) = False"
| "textual JNaN = False"
| "textual (JArr vs) = list_all textual vs"
| "textual (JObj fs) = list_all (\<lambda>(k, v). textual v) fs"
| "textual v = True"

lemma through_text_id: "textual v \<Longrightarrow> through_text v = v"
  by (induction v) (fastforce simp: list_all_iff intro!: map_idI)+

text \<open>The frames each side can send.\<close>

fun client_frame_ok :: "client_frame \<Rightarrow> bool" where
  "client_frame_ok (CallFrame callId m args) \<longleftrightarrow> callId \<noteq> [] \<and> list_all textual args"
| "client_frame_ok (PingFrame pingId) \<longleftrightarrow> pingId \<noteq> []"
| "client_frame_ok f \<longleftrightarrow> True"

definition limits_ok :: "welcome_limits \<Rightarrow> bool" where
  "limits_ok l \<longleftrightarrow> duration_ok (limitRequestTimeoutMs l)
     \<and> (limitHeartbeatIntervalMs l = 0 \<or> duration_ok (limitHeartbeatIntervalMs l))
     \<and> 1 \<le> limitMaxInflight l"

fun result_ok :: "result_frame \<Rightarrow> bool" where
  "result_ok (ResultOk callId v) \<longleftrightarrow> callId \<noteq> [] \<and> textual v \<and> is_object_or_null v"
| "result_ok (ResultTmuxError callId v) \<longleftrightarrow> callId \<noteq> [] \<and> textual v \<and> is_object_or_null v \<and> v \<noteq> JNull"
| "result_ok (ResultError callId e) \<longleftrightarrow> callId \<noteq> []"

definition event_ok :: "event_message \<Rightarrow> bool" where
  "event_ok ev \<longleftrightarrow>
     list_all (\<lambda>(k, v). textual v) (eventFields ev)
     \<and> map_of (eventFields ev) ''type'' = Some (JStr (eventType ev))
     \<and> (if is_cross_session_layout_message (eventType ev)
        then check_cross_session_layout_fields (eventFields ev) (eventType ev) = Inr ()
        else eventType ev \<in> set serialized_event_types)
     \<and> with_derived_layout (eventFields ev) (eventType ev) = Inr ev"

fun server_frame_ok :: "server_frame \<Rightarrow> bool" where
  "server_frame_ok (WelcomeFrame l) \<longleftrightarrow> limits_ok l"
| "server_frame_ok (EventFrame ev) \<longleftrightarrow> event_ok ev"
| "server_frame_ok (ResultFrame r) \<longleftrightarrow> result_ok r"
| "server_frame_ok (PongFrame pingId) \<longleftrightarrow> pingId \<noteq> []"
| "server_frame_ok (DrainingFrame v) \<longleftrightarrow> is_number v \<and> textual v"
| "server_frame_ok (FatalFrame e) \<longleftrightarrow> True"

definition receive :: "(json option \<Rightarrow> string + 'f) \<Rightarrow> json \<Rightarrow> 'f option" where
  "receive parse v = (case parse (Some v) of Inl e \<Rightarrow> None | Inr f \<Rightarrow> Some f)"

lemma parse_frame_kind [simp]:
  "map_of parsers kind = Some fn \<Longrightarrow>
   parse_frame parsers side (Some (JObj ((''k'', JStr kind) # fs))) = fn (JObj ((''k'', JStr kind) # fs))"
  by (simp add: parse_frame_def)

lemma non_empty_string_ok [simp]: "s \<noteq> [] \<Longrightarrow> non_empty_string what (Some (JStr s)) = Inr s"
  by (simp add: non_empty_string_def)

lemma map_textual [simp]:
  "list_all textual vs \<Longrightarrow> map through_text vs = vs"
  "list_all (\<lambda>(k, v). textual v) fs \<Longrightarrow> map (\<lambda>(k, v). (k, through_text v)) fs = fs"
  by (auto simp: list_all_iff through_text_id intro!: map_idI)

interpretation client_wire: wire_codec encode_client_frame "receive parse_client_frame" client_frame_ok
proof unfold_locales
  fix f :: client_frame
  assume "client_frame_ok f"
  then show "receive parse_client_frame (encode_client_frame f) = Some f"
    by (cases f) (simp_all add: receive_def parse_client_frame_def CLIENT_FRAME_PARSERS_def
        parse_hello_def parse_call_def parse_ping_def)
qed

lemma payload_roundtrip [simp]:
  "through_text (payload_json e) = payload_json e" "parse_error_payload (Some (payload_json e)) = Inr e"
  by (simp_all add: payload_json_def parse_error_payload_def)

lemma limits_roundtrip:
  "limits_ok l \<Longrightarrow> parse_welcome (JObj [(''k'', JStr ''welcome''), (''limits'', limits_json l)]) = Inr (WelcomeFrame l)"
  by (auto simp: parse_welcome_def limits_json_def limits_ok_def parse_duration_ms_def parse_heartbeat_interval_def
      parse_positive_int_def option_parser_def is_duration_ms_def is_zero_or_duration_ms_def is_positive_int_def
      is_integer_def int_of_def duration_ok_def)

lemma result_roundtrip:
  assumes "result_ok r"
  shows "parse_server_frame (Some (encode_server_frame (ResultFrame r))) = Inr (ResultFrame r)"
proof (cases r)
  case (ResultOk callId v)
  with assms show ?thesis
    by (simp add: parse_server_frame_def SERVER_FRAME_PARSERS_def parse_result_def through_text_id)
next
  case (ResultTmuxError callId v)
  with assms show ?thesis
    by (simp add: parse_server_frame_def SERVER_FRAME_PARSERS_def parse_result_def through_text_id)
next
  case (ResultError callId e)
  with assms show ?thesis
    by (simp add: parse_server_frame_def SERVER_FRAME_PARSERS_def parse_result_def)
qed

lemma event_roundtrip:
  assumes "event_ok ev"
  shows "parse_server_frame (Some (encode_server_frame (EventFrame ev))) = Inr (EventFrame ev)"
  using assms
  by (simp add: parse_server_frame_def SERVER_FRAME_PARSERS_def parse_event_def event_ok_def split: if_splits)

interpretation server_wire: wire_codec encode_server_frame "receive parse_server_frame" server_frame_ok
proof unfold_locales
  fix f :: server_frame
  assume ok: "server_frame_ok f"
  show "receive parse_server_frame (encode_server_frame f) = Some f"
  proof (cases f)
    case (WelcomeFrame l)
    then show ?thesis
      using ok limits_roundtrip [of l]
      by (simp add: receive_def parse_server_frame_def SERVER_FRAME_PARSERS_def limits_json_def)
  next
    case (EventFrame ev)
    then show ?thesis using ok event_roundtrip by (simp add: receive_def)
  next
    case (ResultFrame r)
    then show ?thesis using ok result_roundtrip by (simp add: receive_def)
  next
    case (DrainingFrame v)
    then show ?thesis using ok
      by (simp add: receive_def parse_server_frame_def SERVER_FRAME_PARSERS_def parse_draining_def through_text_id)
  qed (use ok in \<open>simp_all add: receive_def parse_server_frame_def SERVER_FRAME_PARSERS_def parse_pong_def
        parse_fatal_def payload_json_def parse_error_payload_def\<close>)
qed


text \<open>What a parsed server frame can be relied on for.\<close>

fun frame_id :: "result_frame \<Rightarrow> string" where
  "frame_id (ResultOk callId v) = callId"
| "frame_id (ResultTmuxError callId v) = callId"
| "frame_id (ResultError callId e) = callId"

fun server_frame_safe :: "server_frame \<Rightarrow> bool" where
  "server_frame_safe (WelcomeFrame l) \<longleftrightarrow> limits_ok l"
| "server_frame_safe (EventFrame ev) \<longleftrightarrow>
     (if is_cross_session_layout_message (eventType ev)
      then check_cross_session_layout_fields (eventFields ev) (eventType ev) = Inr ()
      else eventType ev \<in> set serialized_event_types)
     \<and> (eventLayout ev = None) = (eventType ev \<notin> set LAYOUT_EVENT_TYPES)"
| "server_frame_safe (ResultFrame r) \<longleftrightarrow> frame_id r \<noteq> []"
| "server_frame_safe (PongFrame pingId) \<longleftrightarrow> pingId \<noteq> []"
| "server_frame_safe (DrainingFrame v) \<longleftrightarrow> is_number v"
| "server_frame_safe (FatalFrame e) \<longleftrightarrow> True"

lemma non_empty_string_Inr: "non_empty_string what v = Inr s \<Longrightarrow> s \<noteq> []"
  by (auto simp: non_empty_string_def split: option.splits json.splits if_splits)

lemma wire_limit_Inr: "wire_limit r = Inr d \<longleftrightarrow> r = Inr d"
  by (cases r rule: wire_limit.cases) auto

lemma parse_event_safe: "parse_event x = Inr f \<Longrightarrow> server_frame_safe f"
  by (auto simp: parse_event_def and_then_Inr with_derived_layout_def LAYOUT_EVENT_TYPES_def
      split: option.splits json.splits if_splits)

lemma parse_welcome_safe: "parse_welcome x = Inr f \<Longrightarrow> server_frame_safe f"
  by (auto simp: parse_welcome_def and_then_Inr wire_limit_Inr limits_ok_def parse_duration_ok duration_ok_def
      is_duration_ms_def parse_positive_int_def option_parser_def is_positive_int_def
      dest!: parse_zero_or_ok split: option.splits if_splits)

lemma parse_result_safe:
  assumes "parse_result x = Inr f"
  shows "server_frame_safe f"
proof -
  obtain callId where i: "callId \<noteq> []" and f: "parse_result x = Inr f"
    "non_empty_string ''result.id'' (property ''id'' x) = Inr callId"
    using assms unfolding parse_result_def and_then_Inr by (blast dest: non_empty_string_Inr)
  obtain ok where "property ''ok'' x = Some (JBool ok)"
    using f by (cases "property ''ok'' x"; cases "the (property ''ok'' x)") (simp_all add: parse_result_def)
  then show ?thesis
    using i f by (cases ok) (auto simp: parse_result_def and_then_Inr split: option.splits if_splits)
qed

lemma server_parsers_safe:
  "(k, fn) \<in> set SERVER_FRAME_PARSERS \<Longrightarrow> fn x = Inr f \<Longrightarrow> server_frame_safe f"
  by (auto simp: SERVER_FRAME_PARSERS_def parse_welcome_safe parse_event_safe parse_result_safe
      parse_pong_def parse_draining_def parse_fatal_def and_then_Inr dest!: non_empty_string_Inr
      split: option.splits if_splits)

lemma parse_server_safe: "parse_server_frame raw = Inr f \<Longrightarrow> server_frame_safe f"
  by (auto simp: parse_server_frame_def parse_frame_def bind_eq_Some_conv
      dest!: map_of_SomeD dest: server_parsers_safe split: option.splits json.splits)

text \<open>
  C20. The JSON frames of the bridge. Every frame a side can send is read by the other side as
  itself, so no two frames share an encoding; and whatever value arrives, a frame the client
  accepts has limits its timers honor, an event of a known type with its checked fields and
  exactly then a derived layout when the type has one, and no empty correlation id.
\<close>

theorem frames_exact:
  assumes "client_frame_ok cf" and "server_frame_ok sf"
  shows "parse_client_frame (Some (encode_client_frame cf)) = Inr cf
    \<and> parse_server_frame (Some (encode_server_frame sf)) = Inr sf
    \<and> (case parse_server_frame raw of Inl e \<Rightarrow> True | Inr f \<Rightarrow> server_frame_safe f)"
  using client_wire.dec_enc [OF assms(1)] server_wire.dec_enc [OF assms(2)] parse_server_safe [of raw]
  by (auto simp: receive_def split: sum.splits)

theorem frames_exact_witness:
  "let cf = CallFrame ''r1'' ''execute'' [JStr ''ls'']; sf = WelcomeFrame
       \<lparr>limitRequestTimeoutMs = 30000, limitHeartbeatIntervalMs = 0, limitMaxInflight = 64\<rparr> in
     parse_client_frame (Some (encode_client_frame cf)) = Inr cf
     \<and> parse_server_frame (Some (encode_server_frame sf)) = Inr sf"
proof -
  have s: "server_frame_ok (WelcomeFrame
       \<lparr>limitRequestTimeoutMs = 30000, limitHeartbeatIntervalMs = 0, limitMaxInflight = 64\<rparr>)"
    by (simp add: limits_ok_def duration_ok_def duration_max_ms_def)
  have c: "client_frame_ok (CallFrame ''r1'' ''execute'' [JStr ''ls''])" by simp
  show ?thesis
    unfolding Let_def using frames_exact [OF c s, of None] by (simp only: simp_thms)
qed

end
