(* ===== verification/LayoutRelay.thy ===== *)
theory LayoutRelay
  imports Frames
begin

section \<open>The cross-session layout relay\<close>

text \<open>
  \<open>src/cross-session-layout.ts\<close> and the messages of \<open>src/cross-session-layout-messages.ts\<close>.
  A hook on the server appends \<open>seq:@window,\<close> to a server-wide option; each relay reads the
  option through a subscription, decodes what is newer than the last entry it handled and
  fetches the layouts. The promise chain of the relay is the list of the steps that wait and
  the step whose client call is outstanding; the fetches of a delivery are outstanding calls
  of their own, by number. Listeners of the relay run after its step.
\<close>

subsection \<open>Commands\<close>

abbreviation DQUOTE :: char where "DQUOTE \<equiv> CHR 0x22"
abbreviation TAB :: char where "TAB \<equiv> CHR 0x09"

definition RESERVED_HOOK_INDEX :: nat where
  "RESERVED_HOOK_INDEX = 9001"

definition HOOK :: string where
  "HOOK = ''window-layout-changed['' @ nat_str RESERVED_HOOK_INDEX @ '']''"

definition OPTION_NAME :: string where
  "OPTION_NAME = ''@ttcmjs-cross-session-layout''"

definition SEQ_OPTION_NAME :: string where
  "SEQ_OPTION_NAME = ''@ttcmjs-cross-session-layout-seq''"

definition EPOCH_OPTION_NAME :: string where
  "EPOCH_OPTION_NAME = ''@ttcmjs-cross-session-layout-epoch''"

definition CAP :: nat where
  "CAP = 4096"

definition hook_command :: string where
  "hook_command =
     ''set-option -gF '' @ SEQ_OPTION_NAME @ '' '' @ [DQUOTE] @ ''#{e|+:#{'' @ SEQ_OPTION_NAME @ ''},1}'' @ [DQUOTE]
     @ '' ; set-option -gF '' @ OPTION_NAME @ '' '' @ [DQUOTE] @ ''#{=-'' @ nat_str CAP @ '':#{'' @ OPTION_NAME
     @ ''}#{'' @ SEQ_OPTION_NAME @ ''}:#{window_id},}'' @ [DQUOTE]"

definition install_hook_command :: string where
  "install_hook_command = ''set-hook -g '' @ HOOK @ '' '' @ tmux_escape hook_command"

definition SHOW_HOOK_COMMAND :: string where
  "SHOW_HOOK_COMMAND = ''show-hooks -g '' @ HOOK"

definition EPOCH_FORMAT :: string where
  "EPOCH_FORMAT = ''#{e|+:#{'' @ EPOCH_OPTION_NAME @ ''},0}''"

definition BUMP_EPOCH_COMMAND :: string where
  "BUMP_EPOCH_COMMAND =
     ''set-option -gF '' @ EPOCH_OPTION_NAME @ '' '' @ [DQUOTE] @ ''#{e|+:'' @ EPOCH_FORMAT @ '',1}'' @ [DQUOTE]"

definition install_and_bump_command :: string where
  "install_and_bump_command = install_hook_command @ '' ; '' @ BUMP_EPOCH_COMMAND"

definition UNCOVERED_FORMAT :: string where
  "UNCOVERED_FORMAT = ''#{S:#{W:#{?#{'' @ HOOK @ ''},,#{window_id}#,}}}''"

definition SUBSCRIPTION_FORMAT :: string where
  "SUBSCRIPTION_FORMAT = EPOCH_FORMAT @ ''|'' @ UNCOVERED_FORMAT @ ''|#{'' @ OPTION_NAME @ ''}''"

definition read_baseline_command :: string where
  "read_baseline_command =
     ''display-message -p '' @ tmux_escape (''#{'' @ SEQ_OPTION_NAME @ ''}|'' @ EPOCH_FORMAT)"

definition fetch_layout_command :: "jsnum \<Rightarrow> string" where
  "fetch_layout_command wid =
     ''display-message -p -t @'' @ num_str wid @ '' ''
     @ tmux_escape (''#{session_id}'' @ [TAB] @ ''#{window_layout}'' @ [TAB]
                    @ ''#{window_visible_layout}'' @ [TAB] @ ''#{window_flags}'')"

subsection \<open>Decoding a delivery\<close>

text \<open>Floating-point subtraction, the exact difference rounded.\<close>

fun js_sub :: "jsnum \<Rightarrow> jsnum \<Rightarrow> jsnum" where
  "js_sub (Num a) (Num b) =
     (if a < b then js_neg (js_of_nat (nat (b - a))) else js_of_nat (nat (a - b)))"
| "js_sub NaN b = NaN"
| "js_sub a NaN = NaN"
| "js_sub Infinity Infinity = NaN"
| "js_sub NegInfinity NegInfinity = NaN"
| "js_sub Infinity b = Infinity"
| "js_sub NegInfinity b = NegInfinity"
| "js_sub (Num a) Infinity = NegInfinity"
| "js_sub (Num a) NegInfinity = Infinity"

text \<open>\<open>Number(ds)\<close> of a run of digits; the empty string is 0.\<close>

definition digits_num :: "string \<Rightarrow> jsnum" where
  "digits_num ds = js_of_nat (digits_val ds)"

text \<open>A greedy \<open>\<backslash>d*\<close>, and an \<open>@\<backslash>d+,\<close>.\<close>

definition span_digits :: "string \<Rightarrow> string \<times> string" where
  "span_digits s = (takeWhile is_digit s, dropWhile is_digit s)"

definition window_ref :: "string \<Rightarrow> (jsnum \<times> string) option" where
  "window_ref s =
     (case s of [] \<Rightarrow> None
      | c # t \<Rightarrow>
          (let (ds, u) = span_digits t in
           if c = CHR ''@'' \<and> ds \<noteq> [] \<and> u \<noteq> [] \<and> hd u = CHR '','' then Some (digits_num ds, tl u) else None))"

lemma window_ref_shorter: "window_ref s = Some (w, u) \<Longrightarrow> length u < length s"
proof -
  assume "window_ref s = Some (w, u)"
  then obtain c t where s: "s = c # t" and u: "u = tl (dropWhile is_digit t)"
    by (auto simp: window_ref_def span_digits_def Let_def split: list.splits if_splits)
  have "length (dropWhile is_digit t) \<le> length t" by (rule length_dropWhile_le)
  then show ?thesis using s u by simp
qed

record decoded_entry =
  entrySeq :: jsnum
  entryWindow :: jsnum

definition match_entry :: "string \<Rightarrow> (decoded_entry \<times> string) option" where
  "match_entry s =
     (let (ds, t) = span_digits s in
      if ds \<noteq> [] \<and> t \<noteq> [] \<and> hd t = CHR '':'' then
        (case window_ref (tl t) of
           None \<Rightarrow> None
         | Some (w, u) \<Rightarrow> Some (\<lparr>entrySeq = digits_num ds, entryWindow = w\<rparr>, u))
      else None)"

lemma match_entry_shorter: "match_entry s = Some (e, u) \<Longrightarrow> length u < length s"
proof -
  assume m: "match_entry s = Some (e, u)"
  then obtain w where "window_ref (tl (dropWhile is_digit s)) = Some (w, u)"
    by (auto simp: match_entry_def span_digits_def Let_def split: option.splits if_splits)
  from window_ref_shorter [OF this] have "length u < length (dropWhile is_digit s)" by simp
  then show ?thesis using length_dropWhile_le [of is_digit s] by simp
qed

function decode_loop :: "string \<Rightarrow> decoded_entry list \<times> nat list" where
  "decode_loop s =
     (if s = [] then ([], [])
      else (case match_entry s of
              Some (e, u) \<Rightarrow> (let (es, ks) = decode_loop u in (e # es, ks))
            | None \<Rightarrow>
                (case index_of (CHR '','') s of
                   None \<Rightarrow> ([], [])
                 | Some i \<Rightarrow> (let (es, ks) = decode_loop (drop (i + 1) s) in (es, (i + 1) # ks)))))"
  by pat_completeness auto

termination
  by (relation "measure length") (auto simp: match_entry_shorter)

declare decode_loop.simps [simp del]

definition decode_entries :: "string \<Rightarrow> decoded_entry list \<times> nat list" where
  "decode_entries value =
     decode_loop
       (if length value \<ge> CAP then (case index_of (CHR '','') value of None \<Rightarrow> [] | Some i \<Rightarrow> drop (i + 1) value)
        else value)"

record relay_coverage =
  epochText :: string
  uncoveredWindows :: "jsnum list"

text \<open>\<open>/^(?:@\<backslash>d+,)*$/\<close> and its ids.\<close>

function window_refs :: "string \<Rightarrow> jsnum list option" where
  "window_refs s =
     (if s = [] then Some []
      else (case window_ref s of None \<Rightarrow> None | Some (w, u) \<Rightarrow> map_option ((#) w) (window_refs u)))"
  by pat_completeness auto

termination
  by (relation "measure length") (auto simp: window_ref_shorter)

declare window_refs.simps [simp del]

fun insert_num :: "jsnum \<Rightarrow> jsnum list \<Rightarrow> jsnum list" where
  "insert_num x [] = [x]"
| "insert_num x (y # ys) = (if js_less x y then x # y # ys else y # insert_num x ys)"

definition sort_nums :: "jsnum list \<Rightarrow> jsnum list" where
  "sort_nums xs = foldl (\<lambda>ys x. insert_num x ys) [] xs"

definition decode_delivery :: "string \<Rightarrow> relay_coverage option \<times> string" where
  "decode_delivery value =
     (let (epoch, t) = span_digits value;
          ws = takeWhile (\<lambda>c. c \<noteq> CHR ''|'') (tl t); u = dropWhile (\<lambda>c. c \<noteq> CHR ''|'') (tl t);
          ids = (if t \<noteq> [] \<and> hd t = CHR ''|'' \<and> u \<noteq> [] then window_refs ws else None)
      in case ids of
           None \<Rightarrow>
             (None, if CHR ''|'' \<in> set value then rev (takeWhile (\<lambda>c. c \<noteq> CHR ''|'') (rev value)) else [])
         | Some is \<Rightarrow> (Some \<lparr>epochText = epoch, uncoveredWindows = sort_nums (set_of_list is)\<rparr>, tl u))"

record delivery_plan =
  planWindows :: "jsnum list"
  lostEntries :: jsnum
  planSeq :: jsnum

definition js_min :: "jsnum list \<Rightarrow> jsnum" where
  "js_min xs = foldl (\<lambda>m x. if js_less x m then x else m) Infinity xs"

definition js_max :: "jsnum list \<Rightarrow> jsnum" where
  "js_max xs = foldl (\<lambda>m x. if js_less m x then x else m) NegInfinity xs"

definition plan_delivery :: "decoded_entry list \<Rightarrow> jsnum \<Rightarrow> delivery_plan" where
  "plan_delivery entries handled =
     (let fresh = filter (\<lambda>e. js_less handled (entrySeq e)) entries; seqs = map entrySeq fresh in
      if fresh = [] then \<lparr>planWindows = [], lostEntries = Num 0, planSeq = handled\<rparr>
      else \<lparr>planWindows = set_of_list (map entryWindow fresh),
            lostEntries = js_sub (js_sub (js_min seqs) handled) (Num 1),
            planSeq = js_max seqs\<rparr>)"

subsection \<open>The relay\<close>

datatype hook_mode = Replace | IfMissing

text \<open>Why a fetch or a repair failed: tmux's error output, another error, an unexpected reply.\<close>

datatype failure_reason =
    TmuxRefused string
  | OtherError client_error
  | UnexpectedReply string

datatype layout_message =
    CrossSessionLayoutChange jsnum jsnum window_layout_fields
  | CrossSessionLayoutDecodeError nat
  | CrossSessionLayoutOverrun jsnum
  | CrossSessionLayoutFetchFailed jsnum failure_reason
  | CrossSessionLayoutHookRestored
  | CrossSessionLayoutRepairFailed failure_reason
  | CrossSessionLayoutUncovered "jsnum list"

definition layout_failure_reason :: "client_error \<Rightarrow> failure_reason" where
  "layout_failure_reason err =
     (case err of TmuxCommandError r \<Rightarrow> TmuxRefused (join_with [LF] (respOutput r)) | _ \<Rightarrow> OtherError err)"

datatype relay_error = RelayClientError client_error | NotAnIntegerPair string

datatype relay_task = RelayEnable nat | RelayDisable nat | RelayRepair nat | RelayTurn nat

datatype relay_call = ShowingHook hook_mode | InstallingHook hook_mode | ReadingBaseline | Subscribing | Unsubscribing

record relay_fetch =
  fetchId :: nat
  fetchGeneration :: nat
  fetchWindow :: jsnum

record relay =
  refCount :: int
  relaySubscribed :: bool
  lastSeq :: jsnum
  generation :: nat
  relayEpoch :: string
  reportedUncovered :: "jsnum list option"
  repairQueued :: bool
  listening :: bool
  relaySteps :: "relay_task list"
  relayRunning :: "(relay_task \<times> bool \<times> relay_call) option"
  relayFetches :: "relay_fetch list"
  nextFetch :: nat

datatype relay_effect =
    RelayExecute string
  | RelayFetch nat string
  | RelayEmit layout_message
  | RelayResolved nat
  | RelayRejected nat relay_error

definition new_relay :: relay where
  "new_relay =
     \<lparr>refCount = 0, relaySubscribed = False, lastSeq = Num 0, generation = 0, relayEpoch = [],
      reportedUncovered = None, repairQueued = False, listening = False, relaySteps = [],
      relayRunning = None, relayFetches = [], nextFetch = 0\<rparr>"

definition relay_serialize :: "relay_task \<Rightarrow> relay \<Rightarrow> relay" where
  "relay_serialize s r = r\<lparr>relaySteps := relaySteps r @ [s]\<rparr>"

definition relay_enable :: "nat \<Rightarrow> relay \<Rightarrow> relay" where
  "relay_enable promise r = relay_serialize (RelayEnable promise) (r\<lparr>refCount := refCount r + 1\<rparr>)"

definition relay_disable :: "nat \<Rightarrow> relay \<Rightarrow> relay" where
  "relay_disable promise r =
     (if refCount r = 0 then relay_serialize (RelayTurn promise) r
      else relay_serialize (RelayDisable promise) (r\<lparr>refCount := refCount r - 1\<rparr>))"

text \<open>The end of a step, with its success or its error; \<open>joined\<close> is what an enable read first.\<close>

fun step_done :: "relay_task \<Rightarrow> bool \<Rightarrow> relay \<Rightarrow> relay_effect list" where
  "step_done (RelayEnable promise) joined r =
     (case reportedUncovered r of
        Some ids \<Rightarrow> if joined then [RelayEmit (CrossSessionLayoutUncovered ids)] else []
      | None \<Rightarrow> []) @ [RelayResolved promise]"
| "step_done (RelayDisable promise) joined r = [RelayResolved promise]"
| "step_done (RelayRepair g) joined r = []"
| "step_done (RelayTurn promise) joined r = [RelayResolved promise]"

fun step_thrown :: "relay_task \<Rightarrow> relay_error \<Rightarrow> relay \<Rightarrow> relay \<times> relay_effect list" where
  "step_thrown (RelayEnable promise) err r = (r\<lparr>refCount := refCount r - 1\<rparr>, [RelayRejected promise err])"
| "step_thrown (RelayDisable promise) err r = (r, [RelayRejected promise err])"
| "step_thrown (RelayRepair g) err r =
     (case err of
        RelayClientError e \<Rightarrow>
          (r, if is_connection_gone e then [] else [RelayEmit (CrossSessionLayoutRepairFailed (layout_failure_reason e))])
      | NotAnIntegerPair line \<Rightarrow> (r, []))"
| "step_thrown (RelayTurn promise) err r = (r, [RelayRejected promise err])"

definition await :: "relay_task \<Rightarrow> bool \<Rightarrow> relay_call \<Rightarrow> string \<Rightarrow> relay \<Rightarrow> relay \<times> relay_effect list" where
  "await s joined call command r = (r\<lparr>relayRunning := Some (s, joined, call)\<rparr>, [RelayExecute command])"

text \<open>\<open>reconcile\<close> up to its first client call.\<close>

definition relay_reconcile :: "relay_task \<Rightarrow> bool \<Rightarrow> relay \<Rightarrow> relay \<times> relay_effect list" where
  "relay_reconcile s joined r =
     (let wanted = refCount r > 0 in
      if wanted \<and> \<not> relaySubscribed r then await s joined (ShowingHook Replace) SHOW_HOOK_COMMAND r
      else if \<not> wanted \<and> relaySubscribed r then
        await s joined Unsubscribing (refresh_client_unsubscribe CROSS_SESSION_LAYOUT_SUBSCRIPTION_NAME)
          (r\<lparr>relaySubscribed := False, generation := generation r + 1, listening := False\<rparr>)
      else (r, step_done s joined r))"

fun start_step :: "relay_task \<Rightarrow> relay \<Rightarrow> relay \<times> relay_effect list" where
  "start_step (RelayEnable promise) r = relay_reconcile (RelayEnable promise) (relaySubscribed r) r"
| "start_step (RelayDisable promise) r = relay_reconcile (RelayDisable promise) False r"
| "start_step (RelayRepair g) r =
     (let r1 = r\<lparr>repairQueued := False\<rparr> in
      if g \<noteq> generation r1 then (r1, [])
      else await (RelayRepair g) False (ShowingHook IfMissing) SHOW_HOOK_COMMAND r1)"
| "start_step (RelayTurn promise) r = (r, [RelayResolved promise])"

definition relay_advance :: "relay \<Rightarrow> relay \<times> relay_effect list" where
  "relay_advance r =
     (case (relayRunning r, relaySteps r) of
        (None, s # ss) \<Rightarrow> start_step s (r\<lparr>relaySteps := ss\<rparr>)
      | _ \<Rightarrow> (r, []))"

text \<open>\<open>response.output[0] ?? ""\<close>, and whether it shows the hook with a command.\<close>

definition first_line :: "command_response \<Rightarrow> string" where
  "first_line resp = (case respOutput resp of [] \<Rightarrow> [] | l # ls \<Rightarrow> l)"

definition hook_present :: "string \<Rightarrow> bool" where
  "hook_present line \<longleftrightarrow> take (length HOOK) line = HOOK \<and> trim (drop (length HOOK) line) \<noteq> []"

definition match_baseline :: "string \<Rightarrow> (jsnum \<times> string) option" where
  "match_baseline line =
     (let (sn, t) = span_digits line; (epoch, u) = span_digits (tl t) in
      if t \<noteq> [] \<and> hd t = CHR ''|'' \<and> u = [] then Some (digits_num sn, epoch) else None)"

text \<open>A step goes on when its outstanding client call settles.\<close>

fun relay_continue :: "relay_task \<Rightarrow> bool \<Rightarrow> relay_call \<Rightarrow> client_error + command_response \<Rightarrow> relay \<Rightarrow> relay \<times> relay_effect list" where
  "relay_continue s joined (ShowingHook mode) (Inr resp) r =
     (if \<not> hook_present (first_line resp) then await s joined (InstallingHook mode) install_and_bump_command r
      else if mode = Replace then await s joined (InstallingHook mode) install_hook_command r
      else (r, step_done s joined r))"
| "relay_continue s joined (InstallingHook mode) (Inr resp) r =
     (if mode = Replace then await s joined ReadingBaseline read_baseline_command r
      else (r, step_done s joined r))"
| "relay_continue s joined ReadingBaseline (Inr resp) r =
     (case match_baseline (first_line resp) of
        None \<Rightarrow> step_thrown s (NotAnIntegerPair (first_line resp)) r
      | Some (sn, epoch) \<Rightarrow>
          await s joined Subscribing
            (refresh_client_subscribe CROSS_SESSION_LAYOUT_SUBSCRIPTION_NAME [] SUBSCRIPTION_FORMAT)
            (r\<lparr>lastSeq := sn, relayEpoch := epoch, reportedUncovered := None, listening := True\<rparr>))"
| "relay_continue s joined Subscribing (Inr resp) r =
     (let r1 = r\<lparr>relaySubscribed := True\<rparr> in (r1, step_done s joined r1))"
| "relay_continue s joined Unsubscribing (Inr resp) r = (r, step_done s joined r)"
| "relay_continue s joined Subscribing (Inl err) r = step_thrown s (RelayClientError err) (r\<lparr>listening := False\<rparr>)"
| "relay_continue s joined call (Inl err) r = step_thrown s (RelayClientError err) r"

definition relay_settled :: "client_error + command_response \<Rightarrow> relay \<Rightarrow> relay \<times> relay_effect list" where
  "relay_settled outcome r =
     (case relayRunning r of
        None \<Rightarrow> (r, [])
      | Some (s, joined, call) \<Rightarrow> relay_continue s joined call outcome (r\<lparr>relayRunning := None\<rparr>))"

subsection \<open>Deliveries\<close>

definition emit_all :: "layout_message list \<Rightarrow> relay_effect list" where
  "emit_all ms = map RelayEmit ms"

definition report_coverage :: "relay_coverage \<Rightarrow> relay \<Rightarrow> relay \<times> relay_effect list" where
  "report_coverage cov r =
     (let (r1, e1) =
            (if epochText cov \<noteq> relayEpoch r
             then (r\<lparr>relayEpoch := epochText cov\<rparr>, [RelayEmit CrossSessionLayoutHookRestored]) else (r, []));
          (r2, e2) =
            (if reportedUncovered r1 \<noteq> Some (uncoveredWindows cov)
             then (r1\<lparr>reportedUncovered := Some (uncoveredWindows cov)\<rparr>,
                   [RelayEmit (CrossSessionLayoutUncovered (uncoveredWindows cov))])
             else (r1, []));
          r3 = (if uncoveredWindows cov = [] \<or> repairQueued r2 then r2
                else relay_serialize (RelayRepair (generation r2)) (r2\<lparr>repairQueued := True\<rparr>))
      in (r3, e1 @ e2))"

definition issue_fetch :: "relay \<times> relay_effect list \<Rightarrow> jsnum \<Rightarrow> relay \<times> relay_effect list" where
  "issue_fetch re w =
     (let (r, effs) = re in
      (r\<lparr>relayFetches := relayFetches r @
            [\<lparr>fetchId = nextFetch r, fetchGeneration = generation r, fetchWindow = w\<rparr>],
         nextFetch := nextFetch r + 1\<rparr>,
       effs @ [RelayFetch (nextFetch r) (fetch_layout_command w)]))"

definition handle_delivery :: "string \<Rightarrow> relay \<Rightarrow> relay \<times> relay_effect list" where
  "handle_delivery value r =
     (let (cov, buffer) = decode_delivery value;
          (r1, e1) =
            (case cov of
               None \<Rightarrow> (r, [RelayEmit (CrossSessionLayoutDecodeError (length value - length buffer))])
             | Some c \<Rightarrow> report_coverage c r);
          (entries, skips) = decode_entries buffer;
          plan = plan_delivery entries (lastSeq r1);
          r2 = r1\<lparr>lastSeq := planSeq plan\<rparr>;
          e2 = emit_all (map CrossSessionLayoutDecodeError skips);
          e3 = (if js_less (Num 0) (lostEntries plan) then [RelayEmit (CrossSessionLayoutOverrun (lostEntries plan))] else []);
          (r3, e4) = foldl issue_fetch (r2, []) (planWindows plan)
      in (r3, e1 @ e2 @ e3 @ e4))"

definition on_subscription_changed :: "string \<Rightarrow> string \<Rightarrow> relay \<Rightarrow> relay \<times> relay_effect list" where
  "on_subscription_changed name value r =
     (if \<not> listening r \<or> name \<noteq> CROSS_SESSION_LAYOUT_SUBSCRIPTION_NAME then (r, []) else handle_delivery value r)"

text \<open>What \<open>fetch\<close> makes of the reply; None when the connection is gone.\<close>

definition match_session :: "string \<Rightarrow> jsnum option" where
  "match_session s =
     (case s of [] \<Rightarrow> None
      | c # ds \<Rightarrow> if c = CHR ''$'' \<and> ds \<noteq> [] \<and> list_all is_digit ds then Some (digits_num ds) else None)"

definition fetch_message :: "jsnum \<Rightarrow> client_error + command_response \<Rightarrow> layout_message option" where
  "fetch_message w outcome =
     (case outcome of
        Inl err \<Rightarrow>
          if is_connection_gone err then None
          else Some (CrossSessionLayoutFetchFailed w (layout_failure_reason err))
      | Inr resp \<Rightarrow>
          (let line = first_line resp in
           case split_on TAB line of
             [sid, wl, wvl, wfl] \<Rightarrow>
               (case match_session sid of
                  Some i \<Rightarrow>
                    if wl = [] then Some (CrossSessionLayoutFetchFailed w (UnexpectedReply line))
                    else Some (CrossSessionLayoutChange i w (window_layout_fields_of wl wvl wfl))
                | None \<Rightarrow> Some (CrossSessionLayoutFetchFailed w (UnexpectedReply line)))
           | _ \<Rightarrow> Some (CrossSessionLayoutFetchFailed w (UnexpectedReply line))))"

definition fetch_settled :: "nat \<Rightarrow> client_error + command_response \<Rightarrow> relay \<Rightarrow> relay \<times> relay_effect list" where
  "fetch_settled i outcome r =
     (case find (\<lambda>f. fetchId f = i) (relayFetches r) of
        None \<Rightarrow> (r, [])
      | Some f \<Rightarrow>
          (r\<lparr>relayFetches := filter (\<lambda>g. fetchId g \<noteq> i) (relayFetches r)\<rparr>,
           case fetch_message (fetchWindow f) outcome of
             Some m \<Rightarrow> if fetchGeneration f = generation r then [RelayEmit m] else []
           | None \<Rightarrow> []))"

datatype relay_op =
    EnableRelay nat
  | DisableRelay nat
  | AdvanceRelay
  | RelayCallSettled "client_error + command_response"
  | SubscriptionDelivers string string
  | FetchSettled nat "client_error + command_response"

fun relay_step :: "relay \<Rightarrow> relay_op \<Rightarrow> relay \<times> relay_effect list" where
  "relay_step r (EnableRelay promise) = (relay_enable promise r, [])"
| "relay_step r (DisableRelay promise) = (relay_disable promise r, [])"
| "relay_step r AdvanceRelay = relay_advance r"
| "relay_step r (RelayCallSettled outcome) = relay_settled outcome r"
| "relay_step r (SubscriptionDelivers name value) = on_subscription_changed name value r"
| "relay_step r (FetchSettled i outcome) = fetch_settled i outcome r"

subsection \<open>The relay's invariant\<close>

fun is_relay_enable :: "relay_task \<Rightarrow> bool" where
  "is_relay_enable (RelayEnable promise) = True"
| "is_relay_enable s = False"

fun relay_reconciles :: "relay_task \<Rightarrow> bool" where
  "relay_reconciles (RelayEnable promise) = True"
| "relay_reconciles (RelayDisable promise) = True"
| "relay_reconciles s = False"

definition pending_enables :: "relay \<Rightarrow> int" where
  "pending_enables r = int (length (filter is_relay_enable (relaySteps r))) +
     (case relayRunning r of Some (s, j, call) \<Rightarrow> if is_relay_enable s then 1 else 0 | None \<Rightarrow> 0)"

text \<open>The step whose call is outstanding is of the kind that makes such a call.\<close>

fun fits :: "relay_task \<Rightarrow> relay_call \<Rightarrow> relay \<Rightarrow> bool" where
  "fits s (ShowingHook Replace) r \<longleftrightarrow> relay_reconciles s \<and> \<not> relaySubscribed r \<and> \<not> listening r"
| "fits s (InstallingHook Replace) r \<longleftrightarrow> relay_reconciles s \<and> \<not> relaySubscribed r \<and> \<not> listening r"
| "fits s (ShowingHook IfMissing) r \<longleftrightarrow> s = RelayRepair (generation r) \<and> listening r = relaySubscribed r"
| "fits s (InstallingHook IfMissing) r \<longleftrightarrow> s = RelayRepair (generation r) \<and> listening r = relaySubscribed r"
| "fits s ReadingBaseline r \<longleftrightarrow> relay_reconciles s \<and> \<not> relaySubscribed r \<and> \<not> listening r"
| "fits s Subscribing r \<longleftrightarrow> relay_reconciles s \<and> \<not> relaySubscribed r \<and> listening r"
| "fits s Unsubscribing r \<longleftrightarrow> relay_reconciles s \<and> \<not> relaySubscribed r \<and> \<not> listening r
     \<and> refCount r \<le> int (length (filter is_relay_enable (relaySteps r)))"

fun subscribes :: "relay_call \<Rightarrow> bool" where
  "subscribes (ShowingHook m) \<longleftrightarrow> m = Replace"
| "subscribes (InstallingHook m) \<longleftrightarrow> m = Replace"
| "subscribes Unsubscribing \<longleftrightarrow> False"
| "subscribes c \<longleftrightarrow> True"

definition relay_subscribing :: "relay \<Rightarrow> bool" where
  "relay_subscribing r = (case relayRunning r of Some (s, j, call) \<Rightarrow> subscribes call | None \<Rightarrow> False)"

definition relay_inv :: "relay \<Rightarrow> bool" where
  "relay_inv r \<longleftrightarrow>
     (\<not> relaySubscribed r \<longrightarrow> refCount r \<le> pending_enables r)
     \<and> (refCount r \<le> 0 \<and> (relaySubscribed r \<or> relay_subscribing r) \<longrightarrow> list_ex relay_reconciles (relaySteps r))
     \<and> (case relayRunning r of None \<Rightarrow> listening r = relaySubscribed r | Some (s, j, call) \<Rightarrow> fits s call r)"

lemma deliver_frame [simp]:
  "refCount (fst (foldl issue_fetch (r, effs) ws)) = refCount r"
  "relaySubscribed (fst (foldl issue_fetch (r, effs) ws)) = relaySubscribed r"
  "listening (fst (foldl issue_fetch (r, effs) ws)) = listening r"
  "generation (fst (foldl issue_fetch (r, effs) ws)) = generation r"
  "relaySteps (fst (foldl issue_fetch (r, effs) ws)) = relaySteps r"
  "relayRunning (fst (foldl issue_fetch (r, effs) ws)) = relayRunning r"
  by (induction ws arbitrary: r effs) (simp_all add: issue_fetch_def)

lemma fits_serialize:
  "fits s call r \<Longrightarrow> refCount r' \<le> refCount r + int (length (filter is_relay_enable ss)) \<Longrightarrow>
   relaySteps r' = relaySteps r @ ss \<Longrightarrow> relaySubscribed r' = relaySubscribed r \<Longrightarrow>
   listening r' = listening r \<Longrightarrow> generation r' = generation r \<Longrightarrow> fits s call r'"
  by (induction s call r rule: fits.induct) auto

text \<open>Steps joining the queue keep the invariant when they account for the count they change.\<close>

lemma enqueue_inv:
  assumes "relay_inv r" and "relayRunning r' = relayRunning r" and "relaySteps r' = relaySteps r @ ss"
    and "relaySubscribed r' = relaySubscribed r" and "listening r' = listening r" and "generation r' = generation r"
    and "refCount r' \<le> refCount r + int (length (filter is_relay_enable ss))"
    and "refCount r' < refCount r \<Longrightarrow> list_ex relay_reconciles ss"
  shows "relay_inv r'"
proof -
  have "pending_enables r' = pending_enables r + int (length (filter is_relay_enable ss))"
    using assms(2,3) by (simp add: pending_enables_def)
  moreover have "relay_subscribing r' = relay_subscribing r" using assms(2) by (simp add: relay_subscribing_def)
  moreover have "case relayRunning r' of None \<Rightarrow> listening r' = relaySubscribed r' | Some (s, j, call) \<Rightarrow> fits s call r'"
    using assms(1,2,4,5) fits_serialize [OF _ assms(7,3,4,5,6)] by (auto simp: relay_inv_def split: option.splits)
  ultimately show ?thesis
    using assms unfolding relay_inv_def by (cases "refCount r' < refCount r") auto
qed

lemma report_coverage_frame:
  "relayRunning (fst (report_coverage cov r)) = relayRunning r"
  "relaySubscribed (fst (report_coverage cov r)) = relaySubscribed r"
  "listening (fst (report_coverage cov r)) = listening r"
  "generation (fst (report_coverage cov r)) = generation r"
  "refCount (fst (report_coverage cov r)) = refCount r"
  "\<exists>ss. relaySteps (fst (report_coverage cov r)) = relaySteps r @ ss \<and> filter is_relay_enable ss = []"
  by (auto simp: report_coverage_def relay_serialize_def Let_def)

lemma delivery_frame:
  "relayRunning (fst (handle_delivery v r)) = relayRunning r"
  "relaySubscribed (fst (handle_delivery v r)) = relaySubscribed r"
  "listening (fst (handle_delivery v r)) = listening r"
  "generation (fst (handle_delivery v r)) = generation r"
  "refCount (fst (handle_delivery v r)) = refCount r"
  "\<exists>ss. relaySteps (fst (handle_delivery v r)) = relaySteps r @ ss \<and> filter is_relay_enable ss = []"
  using report_coverage_frame(6)
  by (auto simp: handle_delivery_def Let_def case_prod_beta report_coverage_frame split: option.split)

lemma settle_fetch_frame:
  "relayRunning (fst (fetch_settled i v r)) = relayRunning r"
  "relaySubscribed (fst (fetch_settled i v r)) = relaySubscribed r"
  "listening (fst (fetch_settled i v r)) = listening r"
  "generation (fst (fetch_settled i v r)) = generation r"
  "refCount (fst (fetch_settled i v r)) = refCount r"
  "relaySteps (fst (fetch_settled i v r)) = relaySteps r"
  by (simp_all add: fetch_settled_def split: option.split)

lemmas relay_inv_simps = relay_inv_def pending_enables_def relay_subscribing_def await_def Let_def

lemma start_step_inv:
  assumes "relay_inv r" and "relayRunning r = None" and "relaySteps r = s # ss"
  shows "relay_inv (fst (start_step s (r\<lparr>relaySteps := ss\<rparr>)))"
  using assms by (cases s) (auto simp: relay_inv_simps relay_reconcile_def)

lemma relay_advance_inv: "relay_inv r \<Longrightarrow> relay_inv (fst (relay_advance r))"
  using start_step_inv by (auto simp: relay_advance_def split: option.split list.split)

lemma relay_settled_inv:
  assumes "relay_inv r"
  shows "relay_inv (fst (relay_settled v r))"
proof (cases "relayRunning r")
  case (Some a)
  obtain s j call where a: "relayRunning r = Some (s, j, call)" using Some by (cases a) auto
  then have "fits s call r" using assms by (simp add: relay_inv_def)
  then show ?thesis
    using assms a
    by (cases s; cases v; induct s call r rule: fits.induct)
      (auto simp: relay_inv_simps relay_settled_def split: option.split relay_error.split)
qed (simp add: relay_settled_def assms)

interpretation relay: invariant_steps relay_step relay_inv
proof unfold_locales
  fix r op
  assume inv: "relay_inv r"
  show "relay_inv (fst (relay_step r op))"
  proof (cases op)
    case (EnableRelay promise)
    have "relay_inv (relay_enable promise r)"
      by (rule enqueue_inv [OF inv, where ss = "[RelayEnable promise]"])
        (simp_all add: relay_enable_def relay_serialize_def)
    then show ?thesis using EnableRelay by simp
  next
    case (DisableRelay promise)
    have "relay_inv (relay_disable promise r)"
      by (rule enqueue_inv [OF inv, where ss = "[if refCount r = 0 then RelayTurn promise else RelayDisable promise]"])
        (auto simp: relay_disable_def relay_serialize_def)
    then show ?thesis using DisableRelay by simp
  next
    case AdvanceRelay
    then show ?thesis using inv relay_advance_inv by simp
  next
    case (RelayCallSettled outcome)
    then show ?thesis using inv relay_settled_inv by simp
  next
    case (SubscriptionDelivers name v)
    obtain ss where ss: "relaySteps (fst (handle_delivery v r)) = relaySteps r @ ss" "filter is_relay_enable ss = []"
      using delivery_frame(6) [of v r] by blast
    have "relay_inv (fst (handle_delivery v r))"
      by (rule enqueue_inv [OF inv, where ss = ss]) (simp_all add: delivery_frame(1-5) ss)
    then show ?thesis using SubscriptionDelivers inv by (simp add: on_subscription_changed_def)
  next
    case (FetchSettled i outcome)
    have "relay_inv (fst (fetch_settled i outcome r))"
      by (rule enqueue_inv [OF inv, where ss = "[]"]) (simp_all add: settle_fetch_frame)
    then show ?thesis using FetchSettled by simp
  qed
qed

definition relay_idle :: "relay \<Rightarrow> bool" where
  "relay_idle r \<longleftrightarrow> relayRunning r = None \<and> relaySteps r = []"

definition covers_what_is_wanted :: "relay \<Rightarrow> bool" where
  "covers_what_is_wanted r \<longleftrightarrow>
     (relay_idle r \<longrightarrow> relaySubscribed r = (refCount r > 0) \<and> listening r = relaySubscribed r)"

lemma relay_inv_converged: "relay_inv r \<Longrightarrow> covers_what_is_wanted r"
  by (auto simp: covers_what_is_wanted_def relay_idle_def relay_inv_simps)

lemma new_relay_inv [simp]: "relay_inv new_relay"
  by (simp add: relay_inv_simps new_relay_def)

text \<open>
  The relay settles on what its users ask for. Over any history of enables, disables,
  deliveries, started steps, and client calls and fetches that succeed or fail: once its steps
  have all run, it is subscribed, and listens to the subscription, exactly when its count of
  users is positive.
\<close>

theorem relay_converges:
  "covers_what_is_wanted (fst (run_steps relay_step new_relay ops))"
  by (rule relay_inv_converged [OF relay.run_keeps [OF new_relay_inv]])

text \<open>
  A failed enable can cost a later one its subscription. The undo of a rejected enable
  lowers the count without looking at it: when a disable has consumed that enable while its
  first command was under way, the count goes to -1, and the next enable, however much
  later, resolves with the relay counting no user, unsubscribed and not a command sent.
\<close>

theorem failed_enable_loses_coverage:
  "let r = run_steps relay_step new_relay
       [EnableRelay 1, AdvanceRelay, DisableRelay 2, RelayCallSettled (Inl (Thrown 0)), AdvanceRelay,
        EnableRelay 3, AdvanceRelay] in
     snd r = [RelayExecute SHOW_HOOK_COMMAND, RelayRejected 1 (RelayClientError (Thrown 0)),
              RelayResolved 2, RelayResolved 3]
     \<and> refCount (fst r) = 0 \<and> \<not> relaySubscribed (fst r) \<and> relay_idle (fst r)"
  by code_simp

subsection \<open>What the hook writes is what a delivery recovers\<close>

text \<open>
  The buffer after the hook has run for each window of a list: the entries, numbered from 1,
  cut to the last \<open>CAP\<close> bytes at every append.
\<close>

definition hook_entry :: "nat \<Rightarrow> nat \<Rightarrow> string" where
  "hook_entry n w = nat_str n @ '':@'' @ nat_str w @ '',''"

definition last_bytes :: "nat \<Rightarrow> string \<Rightarrow> string" where
  "last_bytes c s = drop (length s - c) s"

definition hook_runs :: "string \<times> nat \<Rightarrow> nat \<Rightarrow> string \<times> nat" where
  "hook_runs b w = (last_bytes CAP (fst b @ hook_entry (Suc (snd b)) w), Suc (snd b))"

definition hook_buffer :: "nat list \<Rightarrow> string" where
  "hook_buffer ws = fst (foldl hook_runs ([], 0) ws)"

fun entries_from :: "nat \<Rightarrow> nat list \<Rightarrow> string list" where
  "entries_from n [] = []"
| "entries_from n (w # ws) = hook_entry n w # entries_from (Suc n) ws"

fun decoded_from :: "nat \<Rightarrow> nat list \<Rightarrow> decoded_entry list" where
  "decoded_from n [] = []"
| "decoded_from n (w # ws) = \<lparr>entrySeq = Num (int n), entryWindow = Num (int w)\<rparr> # decoded_from (Suc n) ws"

lemma last_bytes_append [simp]: "last_bytes c (last_bytes c s @ t) = last_bytes c (s @ t)"
  by (cases "c \<le> length s") (simp_all add: last_bytes_def add.commute)

lemma entries_from_snoc: "entries_from n (ws @ [w]) = entries_from n ws @ [hook_entry (n + length ws) w]"
  by (induction ws arbitrary: n) simp_all

lemma drop_entries_from: "drop i (entries_from n ws) = entries_from (n + i) (drop i ws)"
proof (induction ws arbitrary: i n)
  case (Cons w ws)
  then show ?case by (cases i) simp_all
qed simp

lemma length_entries_from [simp]: "length (entries_from n ws) = length ws"
  by (induction ws arbitrary: n) simp_all

lemma hook_buffer_eq: "foldl hook_runs ([], 0) ws = (last_bytes CAP (concat (entries_from 1 ws)), length ws)"
proof (induction ws rule: rev_induct)
  case Nil
  then show ?case by (simp add: last_bytes_def)
next
  case (snoc w ws)
  then show ?case by (simp add: hook_runs_def entries_from_snoc)
qed

text \<open>The decoder reads back what the hook wrote.\<close>

lemma span_nat_str: "s = [] \<or> \<not> is_digit (hd s) \<Longrightarrow> span_digits (nat_str n @ s) = (nat_str n, s)"
proof -
  assume s: "s = [] \<or> \<not> is_digit (hd s)"
  then have t: "takeWhile is_digit (nat_str n @ s) = nat_str n"
    by (intro takeWhile_digits) (auto dest: nat_str_digits)
  moreover have "dropWhile is_digit (nat_str n @ s) = s"
    using t by (metis append_same_eq takeWhile_dropWhile_id same_append_eq)
  ultimately show ?thesis by (simp add: span_digits_def)
qed

lemma window_ref_entry:
  "w \<le> 2 ^ 53 \<Longrightarrow> window_ref (CHR ''@'' # nat_str w @ CHR '','' # s) = Some (Num (int w), s)"
  by (simp add: window_ref_def span_nat_str digits_num_def is_digit_def)

lemma match_hook_entry:
  "n \<le> 2 ^ 53 \<Longrightarrow> w \<le> 2 ^ 53 \<Longrightarrow>
   match_entry (hook_entry n w @ s) = Some (\<lparr>entrySeq = Num (int n), entryWindow = Num (int w)\<rparr>, s)"
  by (simp add: match_entry_def hook_entry_def span_nat_str window_ref_entry digits_num_def is_digit_def)

lemma hook_entry_nonempty [simp]: "hook_entry n w @ s \<noteq> []" "hook_entry n w \<noteq> []"
  by (simp_all add: hook_entry_def)

lemma decode_entries_from:
  "n + length ws \<le> 2 ^ 53 + 1 \<Longrightarrow> list_all (\<lambda>w. w \<le> 2 ^ 53) ws \<Longrightarrow>
   decode_loop (concat (entries_from n ws)) = (decoded_from n ws, [])"
proof (induction ws arbitrary: n)
  case Nil
  then show ?case by (simp add: decode_loop.simps)
next
  case (Cons w ws)
  then show ?case by (subst decode_loop.simps) (simp add: match_hook_entry)
qed

lemma nat_str_length: "n < 10 ^ k \<Longrightarrow> 0 < k \<Longrightarrow> length (nat_str n) \<le> k"
proof (induction k arbitrary: n)
  case (Suc k)
  show ?case
  proof (cases "n < 10")
    case True
    then show ?thesis by (subst nat_str.simps) simp
  next
    case False
    then have "k \<noteq> 0" using Suc.prems by (cases k) auto
    moreover have "n div 10 < 10 ^ k" using Suc.prems by (simp add: less_mult_imp_div_less mult.commute)
    ultimately show ?thesis using False Suc.IH [of "n div 10"] by (subst nat_str.simps) simp
  qed
qed simp

lemma hook_entry_length: "n \<le> 2 ^ 53 \<Longrightarrow> w \<le> 2 ^ 53 \<Longrightarrow> length (hook_entry n w) \<le> 35"
  using nat_str_length [of n 16] nat_str_length [of w 16] by (simp add: hook_entry_def)

lemma entries_length:
  "n + length ws \<le> 2 ^ 53 + 1 \<Longrightarrow> list_all (\<lambda>w. w \<le> 2 ^ 53) ws \<Longrightarrow>
   length (concat (entries_from n ws)) \<le> 35 * length ws"
proof (induction ws arbitrary: n)
  case (Cons w ws)
  then have "length (concat (entries_from (Suc n) ws)) \<le> 35 * length ws" by (intro Cons.IH) simp_all
  then show ?case using hook_entry_length [of n w] Cons.prems by simp
qed simp

text \<open>What the decoder drops of a full buffer: everything through the first comma.\<close>

definition after_comma :: "string \<Rightarrow> string" where
  "after_comma s = (case index_of (CHR '','') s of None \<Rightarrow> [] | Some i \<Rightarrow> drop (i + 1) s)"

lemma after_comma_append: "CHR '','' \<notin> set a \<Longrightarrow> after_comma (a @ CHR '','' # s) = s"
  by (simp add: after_comma_def index_of_append)

definition hook_line :: "string \<Rightarrow> bool" where
  "hook_line l \<longleftrightarrow> l \<noteq> [] \<and> last l = CHR '','' \<and> CHR '','' \<notin> set (butlast l)"

lemma hook_entry_line [simp]: "hook_line (hook_entry n w)"
proof -
  have "CHR '','' \<notin> set (nat_str m)" for m using nat_str_digits [of "CHR '',''" m] by (auto simp: is_digit_def)
  then show ?thesis by (simp add: hook_line_def hook_entry_def butlast_append)
qed

lemma entries_from_lines: "list_all hook_line (entries_from n ws)"
  by (induction ws arbitrary: n) simp_all

lemma drop_line:
  assumes "hook_line l" and "p < length l"
  shows "after_comma (drop p l @ s) = s"
proof -
  obtain a where a: "l = a @ [CHR '','']" "CHR '','' \<notin> set a"
    using assms(1) by (metis append_butlast_last_id hook_line_def)
  then have "drop p l = drop p a @ [CHR '','']" using assms(2) by simp
  moreover have "CHR '','' \<notin> set (drop p a)" using a(2) in_set_dropD by fast
  ultimately show ?thesis by (simp add: after_comma_append)
qed

text \<open>A buffer cut anywhere loses the entry the cut falls in or before, and only that one.\<close>

lemma cut_entries:
  "list_all hook_line ls \<Longrightarrow> p < length (concat ls) \<Longrightarrow>
   \<exists>i < length ls. after_comma (drop p (concat ls)) = concat (drop (Suc i) ls)
     \<and> length (concat ls) \<le> p + length (concat (drop i ls))"
proof (induction ls arbitrary: p)
  case Nil
  then show ?case by simp
next
  case (Cons l ls)
  show ?case
  proof (cases "p < length l")
    case True
    then show ?thesis
      using Cons.prems drop_line [of l p "concat ls"] by (intro exI [of _ 0]) simp
  next
    case False
    have "list_all hook_line ls" "p - length l < length (concat ls)" using False Cons.prems by auto
    from Cons.IH [OF this]
    obtain i where "i < length ls" "after_comma (drop (p - length l) (concat ls)) = concat (drop (Suc i) ls)"
      "length (concat ls) \<le> p - length l + length (concat (drop i ls))"
      by blast
    then show ?thesis using False by (intro exI [of _ "Suc i"]) auto
  qed
qed

lemma decode_hook_buffer:
  assumes "length ws \<le> 2 ^ 53" and "list_all (\<lambda>w. w \<le> 2 ^ 53) ws"
  shows "\<exists>d. d \<le> length ws \<and> (d \<noteq> 0 \<longrightarrow> 117 \<le> length ws - d + 1) \<and>
    decode_entries (hook_buffer ws) = (decoded_from (Suc d) (drop d ws), [])"
proof (cases "length (concat (entries_from 1 ws)) < CAP")
  case True
  then show ?thesis
    using assms decode_entries_from [of 1 ws]
    by (intro exI [of _ 0]) (simp add: decode_entries_def hook_buffer_def hook_buffer_eq last_bytes_def)
next
  case False
  define E where "E = entries_from 1 ws"
  define p where "p = length (concat E) - CAP"
  have hb: "hook_buffer ws = drop p (concat E)"
    by (simp add: hook_buffer_def hook_buffer_eq last_bytes_def E_def p_def)
  have cap: "CAP = 4096" "length (concat E) \<ge> CAP" using False by (simp_all add: CAP_def E_def)
  then have "p < length (concat E)" by (simp add: p_def CAP_def)
  from cut_entries [OF entries_from_lines [of 1 ws, folded E_def] this]
  obtain i where i: "i < length E" "after_comma (drop p (concat E)) = concat (drop (Suc i) E)"
    "length (concat E) \<le> p + length (concat (drop i E))"
    by blast
  have safe: "list_all (\<lambda>w. w \<le> 2 ^ 53) (drop i ws)" for i
    using assms(2) by (metis append_take_drop_id list_all_append)
  have "CAP \<le> length (concat (drop i E))" using i(3) cap by (simp add: p_def)
  also have "\<dots> \<le> 35 * length (drop i ws)"
    using entries_length [of "Suc i" "drop i ws"] assms(1) safe i(1) by (simp add: E_def drop_entries_from)
  finally have m: "117 < length ws - i + 1" using cap by simp
  have "decode_loop (concat (drop (Suc i) E)) = (decoded_from (Suc (Suc i)) (drop (Suc i) ws), [])"
    using decode_entries_from [of "Suc (Suc i)" "drop (Suc i) ws"] assms(1) safe i(1)
    by (simp add: E_def drop_entries_from)
  moreover have "decode_entries (hook_buffer ws) = decode_loop (after_comma (drop p (concat E)))"
    using hb cap by (simp add: decode_entries_def after_comma_def p_def)
  ultimately show ?thesis using i m by (intro exI [of _ "Suc i"]) (simp add: E_def)
qed

lemma fresh_decoded:
  "filter (\<lambda>e. js_less (Num (int k)) (entrySeq e)) (decoded_from n ws) =
   decoded_from (max n (Suc k)) (drop (Suc k - n) ws)"
proof (induction ws arbitrary: n)
  case (Cons w ws)
  show ?case
  proof (cases "k < n")
    case True
    then show ?thesis using Cons.IH [of "Suc n"] by (cases "n = Suc k") (simp_all add: max_def)
  next
    case False
    then show ?thesis using Cons.IH [of "Suc n"] by (simp add: Suc_diff_le max_def)
  qed
qed simp

lemma decoded_from_Nil [simp]: "decoded_from n ws = [] \<longleftrightarrow> ws = []"
  by (cases ws) simp_all

lemma windows_decoded: "map entryWindow (decoded_from n ws) = map (\<lambda>w. Num (int w)) ws"
  by (induction ws arbitrary: n) simp_all

lemma fold_min_decoded:
  "m \<le> n \<Longrightarrow> foldl (\<lambda>m x. if js_less x m then x else m) (Num (int m)) (map entrySeq (decoded_from n ws)) = Num (int m)"
  by (induction ws arbitrary: n) simp_all

lemma fold_max_decoded:
  "m < n \<Longrightarrow> foldl (\<lambda>m x. if js_less m x then x else m) (Num (int m)) (map entrySeq (decoded_from n ws)) =
     Num (int (if ws = [] then m else n + length ws - 1))"
  by (induction ws arbitrary: m n) simp_all

lemma extremes_decoded:
  assumes "ws \<noteq> []"
  shows "js_min (map entrySeq (decoded_from n ws)) = Num (int n)"
    and "js_max (map entrySeq (decoded_from n ws)) = Num (int (n + length ws - 1))"
  using assms fold_min_decoded [of n "Suc n"] fold_max_decoded [of n "Suc n"]
  by (cases ws; simp add: js_min_def js_max_def)+

lemma plan_decoded:
  assumes "d \<le> length ws" and "k < length ws" and "length ws \<le> 2 ^ 53" and "d < length ws"
  shows "plan_delivery (decoded_from (Suc d) (drop d ws)) (Num (int k)) =
    \<lparr>planWindows = set_of_list (map (\<lambda>w. Num (int w)) (drop (max k d) ws)),
     lostEntries = Num (int (d - k)), planSeq = Num (int (length ws))\<rparr>"
proof -
  have "Suc k - Suc d + d = max k d" by (auto simp: max_def)
  then have fresh: "filter (\<lambda>e. js_less (Num (int k)) (entrySeq e)) (decoded_from (Suc d) (drop d ws)) =
      decoded_from (Suc (max k d)) (drop (max k d) ws)"
    by (subst fresh_decoded) (simp add: drop_drop max.commute max_def)
  moreover have "drop (max k d) ws \<noteq> []" using assms by auto
  moreover have "js_sub (js_sub (Num (int (Suc (max k d)))) (Num (int k))) (Num 1) = Num (int (d - k))"
    using assms by (auto simp: max_def)
  ultimately show ?thesis
    using extremes_decoded [of "drop (max k d) ws" "Suc (max k d)"] assms
    unfolding plan_delivery_def by (simp add: windows_decoded Let_def)
qed

lemma plan_seen:
  "length ws \<le> k \<Longrightarrow> d \<le> length ws \<Longrightarrow> plan_delivery (decoded_from (Suc d) (drop d ws)) (Num (int k)) =
     \<lparr>planWindows = [], lostEntries = Num 0, planSeq = Num (int k)\<rparr>"
  unfolding plan_delivery_def fresh_decoded by (simp add: Let_def)

text \<open>The value the subscription format expands to.\<close>

definition window_text :: "nat \<Rightarrow> string" where
  "window_text w = CHR ''@'' # nat_str w @ '',''"

definition delivery_text :: "string \<Rightarrow> nat list \<Rightarrow> string \<Rightarrow> string" where
  "delivery_text ep us buf = ep @ ''|'' @ concat (map window_text us) @ ''|'' @ buf"

lemma window_refs_text:
  "list_all (\<lambda>w. w \<le> 2 ^ 53) us \<Longrightarrow>
   window_refs (concat (map window_text us)) = Some (map (\<lambda>w. Num (int w)) us)"
proof (induction us)
  case Nil
  then show ?case by (simp add: window_refs.simps)
next
  case (Cons u us)
  have "window_ref (window_text u @ t) = Some (Num (int u), t)" for t
    using Cons.prems window_ref_entry [of u t] by (simp add: window_text_def)
  moreover have "window_text u \<noteq> []" by (simp add: window_text_def)
  ultimately show ?case using Cons by (subst window_refs.simps) simp
qed

lemma window_text_no_bar: "CHR ''|'' \<notin> set (concat (map window_text us))"
proof -
  have "CHR ''|'' \<notin> set (nat_str m)" for m using nat_str_digits [of "CHR ''|''" m] by (auto simp: is_digit_def)
  then show ?thesis by (simp add: window_text_def)
qed

lemma span_until:
  assumes "\<forall>c \<in> set a. P c" and "\<not> P d"
  shows "takeWhile P (a @ d # s) = a" and "dropWhile P (a @ d # s) = d # s"
  using assms by (induction a) simp_all

lemma decode_delivery_text:
  assumes "list_all is_digit ep" and "list_all (\<lambda>w. w \<le> 2 ^ 53) us"
  shows "decode_delivery (delivery_text ep us buf) =
    (Some \<lparr>epochText = ep, uncoveredWindows = sort_nums (set_of_list (map (\<lambda>w. Num (int w)) us))\<rparr>, buf)"
proof -
  let ?ws = "concat (map window_text us)"
  have d: "\<forall>c \<in> set ep. is_digit c" "\<not> is_digit (CHR ''|'')" using assms(1) by (simp_all add: list_all_iff is_digit_def)
  have n: "\<forall>c \<in> set ?ws. c \<noteq> CHR ''|''" "\<not> CHR ''|'' \<noteq> CHR ''|''" using window_text_no_bar by fastforce+
  show ?thesis
    by (simp add: decode_delivery_def delivery_text_def span_digits_def span_until [OF d] span_until [OF n] window_refs_text [OF assms(2)] Let_def)
qed

text \<open>What a step sends and says, read off its effects.\<close>

definition fetch_commands :: "relay_effect list \<Rightarrow> string list" where
  "fetch_commands effs = concat (map (\<lambda>e. case e of RelayFetch i c \<Rightarrow> [c] | _ \<Rightarrow> []) effs)"

definition losses :: "relay_effect list \<Rightarrow> jsnum list" where
  "losses effs = concat (map (\<lambda>e. case e of RelayEmit (CrossSessionLayoutOverrun n) \<Rightarrow> [n] | _ \<Rightarrow> []) effs)"

definition decode_errors :: "relay_effect list \<Rightarrow> nat list" where
  "decode_errors effs = concat (map (\<lambda>e. case e of RelayEmit (CrossSessionLayoutDecodeError n) \<Rightarrow> [n] | _ \<Rightarrow> []) effs)"

lemmas effect_views = fetch_commands_def losses_def decode_errors_def

lemma effect_views_append [simp]:
  "fetch_commands (a @ b) = fetch_commands a @ fetch_commands b"
  "losses (a @ b) = losses a @ losses b"
  "decode_errors (a @ b) = decode_errors a @ decode_errors b"
  by (simp_all add: effect_views)

lemma issue_views:
  "fetch_commands (snd (foldl issue_fetch (r, effs) ws)) = fetch_commands effs @ map fetch_layout_command ws"
  "losses (snd (foldl issue_fetch (r, effs) ws)) = losses effs"
  "decode_errors (snd (foldl issue_fetch (r, effs) ws)) = decode_errors effs"
  "lastSeq (fst (foldl issue_fetch (r, effs) ws)) = lastSeq r"
  by (induction ws arbitrary: r effs) (simp_all add: issue_fetch_def effect_views)

lemma report_views:
  "fetch_commands (snd (report_coverage c r)) = []"
  "losses (snd (report_coverage c r)) = []"
  "decode_errors (snd (report_coverage c r)) = []"
  "lastSeq (fst (report_coverage c r)) = lastSeq r"
  by (simp_all add: report_coverage_def relay_serialize_def effect_views Let_def)

text \<open>A delivery whose changes past \<open>k\<close> are all in the effects, fetched or counted as lost.\<close>

definition accounted :: "nat list \<Rightarrow> nat \<Rightarrow> relay \<times> relay_effect list \<Rightarrow> bool" where
  "accounted ws k re \<longleftrightarrow>
     decode_errors (snd re) = [] \<and> lastSeq (fst re) = Num (int (length ws))
     \<and> (\<exists>lost \<le> length ws - k.
          \<not> (lost > 0 \<and> length ws - k - lost < 116)
          \<and> losses (snd re) = (if lost = 0 then [] else [Num (int lost)])
          \<and> fetch_commands (snd re) =
              map fetch_layout_command (set_of_list (map (\<lambda>w. Num (int w)) (drop (k + lost) ws))))"

lemma effect_views_emit [simp]:
  "fetch_commands (RelayEmit m # es) = fetch_commands es"
  "losses (RelayEmit (CrossSessionLayoutOverrun n) # es) = n # losses es"
  "decode_errors (RelayEmit (CrossSessionLayoutOverrun n) # es) = decode_errors es"
  "fetch_commands [] = []" "losses [] = []" "decode_errors [] = []"
  by (simp_all add: effect_views)

text \<open>
  C29. Every layout change is fetched or counted as lost. Let the hook have run for the windows
  of a list and the relay have handled the first k of them, whatever else it holds. On the next
  delivery of the subscription it asks tmux for the layout of each window changed since, once
  each and in order of first change; the changes the buffer no longer shows are announced by
  their exact number, and there are none unless more than 116 changes have landed; the entry
  sheared by the truncation is never misread; and the relay has then handled all of them.
\<close>

theorem every_change_accounted:
  assumes "length ws \<le> 2 ^ 53" and "list_all (\<lambda>w. w \<le> 2 ^ 53) ws"
    and "k \<le> length ws" and "lastSeq r = Num (int k)"
    and "list_all is_digit ep" and "list_all (\<lambda>w. w \<le> 2 ^ 53) us" and "listening r"
  shows "accounted ws k
    (relay_step r (SubscriptionDelivers CROSS_SESSION_LAYOUT_SUBSCRIPTION_NAME (delivery_text ep us (hook_buffer ws))))"
proof -
  obtain d where d: "d \<le> length ws" "d \<noteq> 0 \<longrightarrow> 117 \<le> length ws - d + 1"
    "decode_entries (hook_buffer ws) = (decoded_from (Suc d) (drop d ws), [])"
    using decode_hook_buffer [OF assms(1,2)] by blast
  define lost where "lost = (if k < length ws then d - k else 0)"
  have "plan_delivery (decoded_from (Suc d) (drop d ws)) (Num (int k)) =
      \<lparr>planWindows = set_of_list (map (\<lambda>w. Num (int w)) (drop (k + lost) ws)),
       lostEntries = Num (int lost), planSeq = Num (int (length ws))\<rparr>"
  proof (cases "k < length ws")
    case True
    then have "d < length ws" "k + (d - k) = max k d" using d by auto
    then show ?thesis using True plan_decoded [OF d(1) True assms(1)] by (simp add: lost_def)
  next
    case False
    then show ?thesis using plan_seen [of ws k d] d(1) assms(3) by (simp add: lost_def set_of_list_def)
  qed
  moreover have "lost \<le> length ws - k \<and> \<not> (lost > 0 \<and> length ws - k - lost < 116)"
    using d(1,2) by (auto simp: lost_def)
  ultimately show ?thesis
    using assms(4,7) d(3) decode_delivery_text [OF assms(5,6)]
    unfolding accounted_def
    by (simp add: on_subscription_changed_def handle_delivery_def report_views issue_views emit_all_def
        case_prod_beta Let_def) blast
qed

theorem every_change_accounted_witness:
  "accounted [3, 5, 3] 1
    (relay_step (new_relay\<lparr>listening := True, lastSeq := Num 1\<rparr>)
      (SubscriptionDelivers CROSS_SESSION_LAYOUT_SUBSCRIPTION_NAME (delivery_text ''2'' [7] (hook_buffer [3, 5, 3]))))"
  by (rule every_change_accounted) (simp_all add: is_digit_def new_relay_def)

end
