(* ===== verification/Subscriptions.thy ===== *)
theory Subscriptions
  imports Backpressure
begin

section \<open>The bridge's subscription ledger\<close>

text \<open>
  \<open>src/connectors/subscription-ledger.ts\<close>. Its functions are asynchronous and share mutable
  objects, so the model has the objects: a subscription record and a peer's set of owned names
  live in stores, by identity, since a call keeps hold of them while it waits. The in-flight
  promise of a record is that of the command that created it. A call that waits for it is
  queued, in the order of the \<open>await\<close>s; when the promise settles the waiters become microtasks,
  run first in, first out, one \<open>RunTask\<close> each; other operations may come between two
  microtasks. A call's own promise is its number.
\<close>

record sub_record =
  recWhat :: string
  recFormat :: string
  recOwners :: "peer list"
  recInflight :: bool

datatype sub_result =
    Synthesized
  | TmuxReply command_response
  | BridgeRefused bridge_error_code
  | CallRejected client_error

datatype sub_effect =
    SubscribeSent nat string string string
  | UnsubscribeSent string "nat option"
  | CallSettled nat sub_result

datatype sub_task =
    Creator nat string nat
  | Joiner nat peer nat string string string nat
  | Leaver nat peer nat string
  | LeaverYielded nat peer nat string

record sub_ledger =
  subscriptions :: "(string \<times> nat) list"
  records :: "(nat \<times> sub_record) list"
  ownedByPeer :: "(peer \<times> nat) list"
  ownedSets :: "(nat \<times> string list) list"
  settledSubs :: "(nat \<times> (client_error + command_response)) list"
  waiters :: "(nat \<times> sub_task) list"
  tasks :: "(sub_task \<times> (client_error + command_response)) list"
  nextRecord :: nat
  nextSet :: nat
  nextCall :: nat

definition new_sub_ledger :: sub_ledger where
  "new_sub_ledger =
     \<lparr>subscriptions = [], records = [], ownedByPeer = [], ownedSets = [], settledSubs = [],
      waiters = [], tasks = [], nextRecord = 0, nextSet = 0, nextCall = 0\<rparr>"

definition names_of :: "nat \<Rightarrow> sub_ledger \<Rightarrow> string list" where
  "names_of s l = (case map_of (ownedSets l) s of None \<Rightarrow> [] | Some ns \<Rightarrow> ns)"

definition put_names :: "nat \<Rightarrow> string list \<Rightarrow> sub_ledger \<Rightarrow> sub_ledger" where
  "put_names s ns l = l\<lparr>ownedSets := AList.update s ns (ownedSets l)\<rparr>"

definition put_record :: "nat \<Rightarrow> sub_record \<Rightarrow> sub_ledger \<Rightarrow> sub_ledger" where
  "put_record r rc l = l\<lparr>records := AList.update r rc (records l)\<rparr>"

definition register_subscriber :: "peer \<Rightarrow> sub_ledger \<Rightarrow> bridge_error_code + sub_ledger" where
  "register_subscriber q l =
     (if map_of (ownedByPeer l) q \<noteq> None then Inl BRIDGE_INTERNAL
      else Inr (put_names (nextSet l) []
             (l\<lparr>ownedByPeer := AList.update q (nextSet l) (ownedByPeer l), nextSet := Suc (nextSet l)\<rparr>)))"

definition release_name :: "string \<Rightarrow> peer \<Rightarrow> sub_ledger \<Rightarrow> sub_ledger \<times> bool" where
  "release_name name q l =
     (case map_of (subscriptions l) name of
        None \<Rightarrow> (l, False)
      | Some r \<Rightarrow>
          (case map_of (records l) r of
             None \<Rightarrow> (l, False)
           | Some rc \<Rightarrow>
               let owners' = set_delete q (recOwners rc);
                   l' = put_record r (rc\<lparr>recOwners := owners'\<rparr>) l
               in if length owners' = 0
                  then (l'\<lparr>subscriptions := AList.delete name (subscriptions l')\<rparr>, True) else (l', False)))"

text \<open>Awaiting the promise of a record, which may have settled already.\<close>

definition await_record :: "nat \<Rightarrow> sub_task \<Rightarrow> sub_ledger \<Rightarrow> sub_ledger" where
  "await_record r t l =
     (case map_of (settledSubs l) r of
        None \<Rightarrow> l\<lparr>waiters := waiters l @ [(r, t)]\<rparr>
      | Some outcome \<Rightarrow> l\<lparr>tasks := tasks l @ [(t, outcome)]\<rparr>)"

definition claim ::
    "nat \<Rightarrow> peer \<Rightarrow> nat \<Rightarrow> string \<Rightarrow> nat \<Rightarrow> sub_ledger \<Rightarrow> sub_ledger \<times> sub_effect list" where
  "claim call q owned name r l =
     ((if name \<notin> set (names_of owned l)
       then (case map_of (records l) r of
               None \<Rightarrow> l
             | Some rc \<Rightarrow> put_record r (rc\<lparr>recOwners := set_add q (recOwners rc)\<rparr>)
                           (put_names owned (set_add name (names_of owned l)) l))
       else l), [CallSettled call Synthesized])"

definition subscribe ::
    "nat \<Rightarrow> peer \<Rightarrow> string \<Rightarrow> string \<Rightarrow> string \<Rightarrow> sub_ledger \<Rightarrow> sub_ledger \<times> sub_effect list" where
  "subscribe call q name what fmt l =
     (case map_of (ownedByPeer l) q of
        None \<Rightarrow> (l, [CallSettled call (BridgeRefused BRIDGE_INTERNAL)])
      | Some owned \<Rightarrow>
          (case map_of (subscriptions l) name of
             Some r \<Rightarrow>
               (case map_of (records l) r of
                  None \<Rightarrow> (l, [])
                | Some rc \<Rightarrow>
                    if recWhat rc \<noteq> what \<or> recFormat rc \<noteq> fmt
                    then (l, [CallSettled call (BridgeRefused BRIDGE_SUBSCRIPTION_FORMAT_CONFLICT)])
                    else if recInflight rc then (await_record r (Joiner call q owned name what fmt r) l, [])
                    else claim call q owned name r l)
           | None \<Rightarrow>
               let r = nextRecord l;
                   rc = \<lparr>recWhat = what, recFormat = fmt, recOwners = [q], recInflight = True\<rparr>;
                   l1 = put_record r rc (l\<lparr>subscriptions := AList.update name r (subscriptions l),
                                           nextRecord := Suc r\<rparr>);
                   l2 = put_names owned (set_add name (names_of owned l)) l1
               in (await_record r (Creator call name r) l2, [SubscribeSent r name what fmt])))"

text \<open>The end of \<open>unsubscribe\<close>, after any waiting.\<close>

definition leave ::
    "nat \<Rightarrow> peer \<Rightarrow> nat \<Rightarrow> string \<Rightarrow> sub_ledger \<Rightarrow> sub_ledger \<times> sub_effect list" where
  "leave call q owned name l =
     (if name \<notin> set (names_of owned l) then (l, [CallSettled call Synthesized])
      else
        let (l', lastOwner) = release_name name q (put_names owned (set_delete name (names_of owned l)) l)
        in (l', if lastOwner then [UnsubscribeSent name (Some call)] else [CallSettled call Synthesized]))"

definition unsubscribe_name ::
    "nat \<Rightarrow> peer \<Rightarrow> string \<Rightarrow> sub_ledger \<Rightarrow> sub_ledger \<times> sub_effect list" where
  "unsubscribe_name call q name l =
     (case map_of (ownedByPeer l) q of
        None \<Rightarrow> (l, [CallSettled call (BridgeRefused BRIDGE_INTERNAL)])
      | Some owned \<Rightarrow>
          if name \<notin> set (names_of owned l)
          then (l, [CallSettled call (BridgeRefused BRIDGE_UNKNOWN_SUBSCRIPTION)])
          else
            (case map_of (subscriptions l) name of
               None \<Rightarrow> leave call q owned name l
             | Some r \<Rightarrow>
                 (case map_of (records l) r of
                    None \<Rightarrow> leave call q owned name l
                  | Some rc \<Rightarrow>
                      if recInflight rc then (await_record r (Leaver call q owned name) l, [])
                      else leave call q owned name l)))"

text \<open>The two ends of the creating call: the reply, and the rollback.\<close>

definition settle_creator ::
    "nat \<Rightarrow> string \<Rightarrow> nat \<Rightarrow> client_error + command_response \<Rightarrow> sub_ledger \<Rightarrow>
     sub_ledger \<times> sub_effect list" where
  "settle_creator call name r outcome l =
     (case map_of (records l) r of
        None \<Rightarrow> (l, [])
      | Some rc \<Rightarrow>
          (case outcome of
             Inr reply \<Rightarrow> (put_record r (rc\<lparr>recInflight := False\<rparr>) l, [CallSettled call (TmuxReply reply)])
           | Inl err \<Rightarrow>
               let l1 = foldl (\<lambda>l q. case map_of (ownedByPeer l) q of
                                       None \<Rightarrow> l
                                     | Some owned \<Rightarrow> put_names owned (set_delete name (names_of owned l)) l)
                          l (recOwners rc);
                   l2 = put_record r (rc\<lparr>recOwners := [], recInflight := False\<rparr>) l1
               in (l2\<lparr>subscriptions := AList.delete name (subscriptions l2)\<rparr>,
                   [CallSettled call (CallRejected err)])))"

fun run_task ::
    "sub_task \<Rightarrow> client_error + command_response \<Rightarrow> sub_ledger \<Rightarrow> sub_ledger \<times> sub_effect list" where
  "run_task (Creator call name r) outcome l = settle_creator call name r outcome l"
| "run_task (Joiner call q owned name what fmt r) outcome l =
     (case outcome of
        Inl err \<Rightarrow> (l, [CallSettled call (CallRejected err)])
      | Inr reply \<Rightarrow>
          if map_of (subscriptions l) name \<noteq> Some r then subscribe call q name what fmt l
          else claim call q owned name r l)"
| "run_task (Leaver call q owned name) outcome l =
     (l\<lparr>tasks := tasks l @ [(LeaverYielded call q owned name, outcome)]\<rparr>, [])"
| "run_task (LeaverYielded call q owned name) outcome l = leave call q owned name l"

definition release_one_name :: "peer \<Rightarrow> sub_ledger \<Rightarrow> string \<Rightarrow> sub_ledger \<times> sub_effect list" where
  "release_one_name q l name =
     (let (l', lastOwner) = release_name name q l
      in (l', if lastOwner then [UnsubscribeSent name None] else []))"

definition release_subscriber :: "sub_ledger \<Rightarrow> peer \<Rightarrow> sub_ledger \<times> sub_effect list" where
  "release_subscriber l q =
     (case map_of (ownedByPeer l) q of
        None \<Rightarrow> (l, [])
      | Some owned \<Rightarrow>
          run_steps (release_one_name q) (l\<lparr>ownedByPeer := AList.delete q (ownedByPeer l)\<rparr>) (names_of owned l))"

definition dispose_subscriptions :: "sub_ledger \<Rightarrow> sub_ledger \<times> sub_effect list" where
  "dispose_subscriptions l = run_steps release_subscriber l (map fst (ownedByPeer l))"

datatype sub_op =
    RegisterSubscriber peer
  | Subscribe peer string string string
  | Unsubscribe peer string
  | ReleaseSubscriber peer
  | DisposeSubscriptions
  | SubscribeAnswered nat "client_error + command_response"
  | RunTask

fun sub_step :: "sub_ledger \<Rightarrow> sub_op \<Rightarrow> sub_ledger \<times> sub_effect list" where
  "sub_step l (RegisterSubscriber q) = (case register_subscriber q l of Inl e \<Rightarrow> (l, []) | Inr l' \<Rightarrow> (l', []))"
| "sub_step l (Subscribe q name what fmt) =
     subscribe (nextCall l) q name what fmt (l\<lparr>nextCall := Suc (nextCall l)\<rparr>)"
| "sub_step l (Unsubscribe q name) =
     unsubscribe_name (nextCall l) q name (l\<lparr>nextCall := Suc (nextCall l)\<rparr>)"
| "sub_step l (ReleaseSubscriber q) = release_subscriber l q"
| "sub_step l DisposeSubscriptions = dispose_subscriptions l"
| "sub_step l (SubscribeAnswered r outcome) =
     (if r < nextRecord l \<and> map_of (settledSubs l) r = None
      then (l\<lparr>settledSubs := AList.update r outcome (settledSubs l),
              tasks := tasks l @ map (\<lambda>(s, t). (t, outcome)) (filter (\<lambda>(s, t). s = r) (waiters l)),
              waiters := filter (\<lambda>(s, t). s \<noteq> r) (waiters l)\<rparr>, [])
      else (l, []))"
| "sub_step l RunTask =
     (case tasks l of
        [] \<Rightarrow> (l, [])
      | (t, outcome) # rest \<Rightarrow> run_task t outcome (l\<lparr>tasks := rest\<rparr>))"

subsection \<open>What tmux was told\<close>

text \<open>The last command about a name.\<close>

fun about :: "string \<Rightarrow> sub_effect \<Rightarrow> bool" where
  "about n (SubscribeSent r m what fmt) \<longleftrightarrow> m = n"
| "about n (UnsubscribeSent m call) \<longleftrightarrow> m = n"
| "about n (CallSettled call res) \<longleftrightarrow> False"

definition last_command :: "string \<Rightarrow> sub_effect list \<Rightarrow> sub_effect option" where
  "last_command n effs = (let cs = filter (about n) effs in if cs = [] then None else Some (last cs))"

lemma last_command_append:
  "last_command n (xs @ ys) = (case last_command n ys of None \<Rightarrow> last_command n xs | Some c \<Rightarrow> Some c)"
  by (simp add: last_command_def Let_def)

lemma last_command_simps [simp]:
  "last_command n [] = None"
  "last_command n [e] = (if about n e then Some e else None)"
  by (simp_all add: last_command_def)

text \<open>The creating calls that have yet to see their reply.\<close>

definition creators :: "sub_ledger \<Rightarrow> (string \<times> nat) set" where
  "creators l = {(n, r). (\<exists>call s. (s, Creator call n r) \<in> set (waiters l))
     \<or> (\<exists>call outcome. (Creator call n r, outcome) \<in> set (tasks l))}"

text \<open>
  A record in force was made by the last command sent about its name, has an owner, and is in
  force under that name only; a creating call still waiting knows its record's name.
\<close>

definition in_force :: "sub_effect list \<Rightarrow> sub_ledger \<Rightarrow> string \<Rightarrow> nat \<Rightarrow> bool" where
  "in_force effs l n r \<longleftrightarrow>
     r < nextRecord l \<and> (\<exists>rc. map_of (records l) r = Some rc \<and> recOwners rc \<noteq> []
       \<and> last_command n effs = Some (SubscribeSent r n (recWhat rc) (recFormat rc)))"

definition sub_inv :: "sub_effect list \<Rightarrow> sub_ledger \<Rightarrow> bool" where
  "sub_inv effs l \<longleftrightarrow>
     (\<forall>n r. map_of (subscriptions l) n = Some r \<longrightarrow> in_force effs l n r)
     \<and> (\<forall>n m r. map_of (subscriptions l) n = Some r \<and> map_of (subscriptions l) m = Some r \<longrightarrow> n = m)
     \<and> (\<forall>n r. (n, r) \<in> creators l \<longrightarrow>
           r < nextRecord l \<and> (\<forall>m. map_of (subscriptions l) m = Some r \<longrightarrow> m = n))"

lemma sub_invI:
  assumes "\<And>n r. map_of (subscriptions l) n = Some r \<Longrightarrow> in_force effs l n r"
    and "\<And>n m r. map_of (subscriptions l) n = Some r \<Longrightarrow> map_of (subscriptions l) m = Some r \<Longrightarrow> n = m"
    and "\<And>n r. (n, r) \<in> creators l \<Longrightarrow> r < nextRecord l"
    and "\<And>n r m. (n, r) \<in> creators l \<Longrightarrow> map_of (subscriptions l) m = Some r \<Longrightarrow> m = n"
  shows "sub_inv effs l"
  unfolding sub_inv_def using assms by blast

lemma sub_invD:
  assumes "sub_inv effs l"
  shows "map_of (subscriptions l) n = Some r \<Longrightarrow> in_force effs l n r"
    and "map_of (subscriptions l) n = Some r \<Longrightarrow> map_of (subscriptions l) m = Some r \<Longrightarrow> n = m"
    and "(n, r) \<in> creators l \<Longrightarrow> r < nextRecord l"
    and "(n, r) \<in> creators l \<Longrightarrow> map_of (subscriptions l) m = Some r \<Longrightarrow> m = n"
  using assms unfolding sub_inv_def by blast+

text \<open>Changes that touch neither the records in force nor the creators.\<close>

lemma sub_inv_cong:
  assumes inv: "sub_inv effs l" and same: "subscriptions l' = subscriptions l" "records l' = records l"
    "nextRecord l' = nextRecord l" and cr: "creators l' \<subseteq> creators l"
    and quiet: "\<forall>n. last_command n cmds = None"
  shows "sub_inv (effs @ cmds) l'"
proof (rule sub_invI)
  show "in_force (effs @ cmds) l' n r" if "map_of (subscriptions l') n = Some r" for n r
    using sub_invD(1) [OF inv, of n r] that quiet by (simp add: in_force_def same last_command_append)
qed (use sub_invD [OF inv] cr same in auto)

lemma put_names_simps [simp]:
  "subscriptions (put_names s ns l) = subscriptions l" "records (put_names s ns l) = records l"
  "nextRecord (put_names s ns l) = nextRecord l" "creators (put_names s ns l) = creators l"
  "ownedByPeer (put_names s ns l) = ownedByPeer l"
  by (simp_all add: put_names_def creators_def)

lemma put_record_simps [simp]:
  "subscriptions (put_record r rc l) = subscriptions l" "nextRecord (put_record r rc l) = nextRecord l"
  "map_of (records (put_record r rc l)) = (map_of (records l))(r \<mapsto> rc)"
  "creators (put_record r rc l) = creators l"
  by (simp_all add: put_record_def creators_def)

lemma names_of_simps [simp]:
  "names_of s (put_record r rc l) = names_of s l"
  "names_of s (l\<lparr>subscriptions := x, nextRecord := y\<rparr>) = names_of s l"
  by (simp_all add: names_of_def put_record_def)

lemma creators_subscriptions [simp]:
  "creators (l\<lparr>subscriptions := x\<rparr>) = creators l"
  "creators (l\<lparr>subscriptions := x, nextRecord := y\<rparr>) = creators l"
  "creators (l\<lparr>nextCall := z\<rparr>) = creators l"
  by (simp_all add: creators_def)

text \<open>A record may change its owners and its promise while it keeps an owner.\<close>

lemma sub_inv_put:
  assumes inv: "sub_inv effs l" and r: "map_of (records l) r = Some rc"
    and rc': "recWhat rc' = recWhat rc" "recFormat rc' = recFormat rc" "recOwners rc' \<noteq> []"
  shows "sub_inv effs (put_record r rc' l)"
proof (rule sub_invI)
  show "in_force effs (put_record r rc' l) n s"
    if "map_of (subscriptions (put_record r rc' l)) n = Some s" for n s
    using sub_invD(1) [OF inv, of n s] that r rc'
    by (cases "s = r") (auto simp: in_force_def simp del: map_of_eq_Some_iff)
qed (use sub_invD [OF inv] in \<open>simp_all del: map_of_eq_Some_iff\<close>)

text \<open>Dropping a name, and possibly emptying the record it was in force under.\<close>

lemma sub_inv_drop:
  assumes inv: "sub_inv effs l" and quiet: "\<And>n. n \<noteq> name \<Longrightarrow> last_command n cmds = None"
  shows "sub_inv (effs @ cmds) (l\<lparr>subscriptions := AList.delete name (subscriptions l)\<rparr>)"
    (is "sub_inv _ ?l")
proof (rule sub_invI)
  have sub: "map_of (subscriptions ?l) n = Some r \<Longrightarrow> n \<noteq> name \<and> map_of (subscriptions l) n = Some r" for n r
    by (simp del: map_of_eq_Some_iff split: if_splits)
  show "in_force (effs @ cmds) ?l n r" if "map_of (subscriptions ?l) n = Some r" for n r
    using sub [OF that] sub_invD(1) [OF inv, of n r] quiet [of n]
    by (simp add: in_force_def last_command_append)
  show "n = m" if "map_of (subscriptions ?l) n = Some r" "map_of (subscriptions ?l) m = Some r" for n m r
    using sub [OF that(1)] sub [OF that(2)] sub_invD(2) [OF inv] by blast
  show "r < nextRecord ?l" if "(n, r) \<in> creators ?l" for n r
    using that sub_invD(3) [OF inv] by simp
  show "m = n" if "(n, r) \<in> creators ?l" "map_of (subscriptions ?l) m = Some r" for n r m
    using that(1) sub [OF that(2)] sub_invD(4) [OF inv] by simp
qed

lemma sub_inv_unused:
  assumes inv: "sub_inv effs l" and unused: "\<And>m. map_of (subscriptions l) m \<noteq> Some r"
  shows "sub_inv effs (put_record r rc l)"
proof (rule sub_invI)
  show "in_force effs (put_record r rc l) n s"
    if "map_of (subscriptions (put_record r rc l)) n = Some s" for n s
    using sub_invD(1) [OF inv, of n s] that unused [of n]
    by (auto simp: in_force_def simp del: map_of_eq_Some_iff)
qed (use sub_invD [OF inv] in \<open>simp_all del: map_of_eq_Some_iff\<close>)

lemma sub_inv_empty:
  assumes "sub_inv effs l" and "\<And>m. map_of (subscriptions l) m = Some r \<Longrightarrow> m = name"
    and "\<And>n. n \<noteq> name \<Longrightarrow> last_command n cmds = None"
  shows "sub_inv (effs @ cmds)
    (put_record r rc (l\<lparr>subscriptions := AList.delete name (subscriptions l)\<rparr>))"
proof (rule sub_inv_unused)
  show "sub_inv (effs @ cmds) (l\<lparr>subscriptions := AList.delete name (subscriptions l)\<rparr>)"
    using assms(1,3) by (rule sub_inv_drop)
  show "map_of (subscriptions (l\<lparr>subscriptions := AList.delete name (subscriptions l)\<rparr>)) m \<noteq> Some r" for m
    using assms(2) [of m] by (auto simp del: map_of_eq_Some_iff)
qed

lemma put_record_drop:
  "(put_record r rc l)\<lparr>subscriptions := x\<rparr> = put_record r rc (l\<lparr>subscriptions := x\<rparr>)"
  by (simp add: put_record_def)

lemma release_name_inv:
  assumes "sub_inv effs l"
  shows "sub_inv (effs @ (if snd (release_name name q l) then [UnsubscribeSent name call] else []))
    (fst (release_name name q l))"
proof (cases "map_of (subscriptions l) name")
  case None
  then show ?thesis using assms by (simp add: release_name_def)
next
  case (Some r)
  then obtain rc where rc: "map_of (records l) r = Some rc"
    using sub_invD(1) [OF assms] by (auto simp: in_force_def simp del: map_of_eq_Some_iff)
  have unique: "\<And>m. map_of (subscriptions l) m = Some r \<Longrightarrow> m = name"
    using sub_invD(2) [OF assms] Some by blast
  show ?thesis
  proof (cases "set_delete q (recOwners rc) = []")
    case True
    have "sub_inv (effs @ [UnsubscribeSent name call]) (put_record r (rc\<lparr>recOwners := []\<rparr>)
        (l\<lparr>subscriptions := AList.delete name (subscriptions l)\<rparr>))"
      by (rule sub_inv_empty [OF assms unique]) simp_all
    then show ?thesis
      using Some rc True by (simp add: release_name_def Let_def put_record_drop del: set_delete_empty)
  next
    case False
    then show ?thesis
      using Some rc sub_inv_put [OF assms rc, of "rc\<lparr>recOwners := set_delete q (recOwners rc)\<rparr>"]
      by (simp add: release_name_def Let_def del: set_delete_empty)
  qed
qed


fun creator_of :: "sub_task \<Rightarrow> (string \<times> nat) set" where
  "creator_of (Creator call n r) = {(n, r)}"
| "creator_of t = {}"

lemma await_record_simps [simp]:
  "subscriptions (await_record r t l) = subscriptions l" "records (await_record r t l) = records l"
  "nextRecord (await_record r t l) = nextRecord l"
  "creators (await_record r t l) = creators l \<union> creator_of t"
proof -
  show "subscriptions (await_record r t l) = subscriptions l" "records (await_record r t l) = records l"
    "nextRecord (await_record r t l) = nextRecord l"
    by (simp_all add: await_record_def split: option.splits)
  show "creators (await_record r t l) = creators l \<union> creator_of t"
    by (cases t) (auto simp: await_record_def creators_def split: option.splits)
qed

text \<open>A step of the ledger: its effects extend what tmux was told.\<close>

abbreviation keeps_sub_inv :: "sub_effect list \<Rightarrow> sub_ledger \<times> sub_effect list \<Rightarrow> bool" where
  "keeps_sub_inv effs res \<equiv> sub_inv (effs @ snd res) (fst res)"

lemma sub_inv_same:
  "sub_inv effs l \<Longrightarrow> \<forall>n. last_command n cmds = None \<Longrightarrow> sub_inv (effs @ cmds) l"
  using sub_inv_cong [of effs l l cmds] by simp

lemma claim_inv:
  assumes "sub_inv effs l"
  shows "keeps_sub_inv effs (claim call q owned name r l)"
proof -
  have c: "sub_inv (effs @ [CallSettled call Synthesized]) l" using assms by (intro sub_inv_same) simp_all
  let ?l = "put_names owned (set_add name (names_of owned l)) l"
  have "sub_inv ((effs @ [CallSettled call Synthesized]) @ []) ?l" by (rule sub_inv_cong [OF c]) simp_all
  then have l: "sub_inv (effs @ [CallSettled call Synthesized]) ?l" by simp
  show ?thesis
  proof (cases "map_of (records l) r")
    case None
    then show ?thesis using c by (simp add: claim_def)
  next
    case (Some rc)
    have "sub_inv (effs @ [CallSettled call Synthesized])
        (put_record r (rc\<lparr>recOwners := set_add q (recOwners rc)\<rparr>) ?l)"
      by (rule sub_inv_put [OF l]) (use Some in simp_all)
    then show ?thesis using c Some by (simp add: claim_def)
  qed
qed

lemma subscribe_inv:
  assumes inv: "sub_inv effs l"
  shows "keeps_sub_inv effs (subscribe call q name what fmt l)"
proof (cases "map_of (ownedByPeer l) q")
  case None
  then show ?thesis using sub_inv_same [OF inv] by (simp add: subscribe_def)
next
  case (Some owned)
  note own = Some
  show ?thesis
  proof (cases "map_of (subscriptions l) name")
    case (Some r)
    have "sub_inv (effs @ []) (await_record r (Joiner call q owned name what fmt r) l)"
      by (rule sub_inv_cong [OF inv]) simp_all
    then show ?thesis
      using own Some inv claim_inv [OF inv, of call q owned name r] sub_inv_same [OF inv]
      by (simp add: subscribe_def split: option.splits)
  next
    case None
    let ?r = "nextRecord l"
    let ?rc = "\<lparr>recWhat = what, recFormat = fmt, recOwners = [q], recInflight = True\<rparr>"
    let ?l = "await_record ?r (Creator call name ?r) (put_names owned (set_add name
        (names_of owned (put_record ?r ?rc (l\<lparr>subscriptions := AList.update name ?r (subscriptions l),
           nextRecord := Suc ?r\<rparr>)))) (put_record ?r ?rc
        (l\<lparr>subscriptions := AList.update name ?r (subscriptions l), nextRecord := Suc ?r\<rparr>)))"
    have subs: "map_of (subscriptions ?l) = (map_of (subscriptions l))(name \<mapsto> ?r)" by simp
    have recs: "map_of (records ?l) = (map_of (records l))(?r \<mapsto> ?rc)" by simp
    have next_record: "nextRecord ?l = Suc ?r" by simp
    have cr: "creators ?l = creators l \<union> {(name, ?r)}" by simp
    have old: "r < ?r" if "map_of (subscriptions l) n = Some r" for n r
      using sub_invD(1) [OF inv that] by (simp add: in_force_def)
    have "sub_inv (effs @ [SubscribeSent ?r name what fmt]) ?l"
    proof (rule sub_invI)
      fix n r assume n: "map_of (subscriptions ?l) n = Some r"
      show "in_force (effs @ [SubscribeSent ?r name what fmt]) ?l n r"
      proof (cases "n = name")
        case True
        then show ?thesis using n unfolding subs in_force_def recs next_record
          by (simp add: last_command_append)
      next
        case False
        then have "map_of (subscriptions l) n = Some r" using n unfolding subs by simp
        then show ?thesis
          using sub_invD(1) [OF inv, of n r] old [of n r] False unfolding in_force_def recs next_record
          by (auto simp: last_command_append simp del: map_of_eq_Some_iff)
      qed
    next
      fix n m r assume "map_of (subscriptions ?l) n = Some r" "map_of (subscriptions ?l) m = Some r"
      then show "n = m"
        unfolding subs using old [of n ?r] old [of m ?r] sub_invD(2) [OF inv, of n r m]
        by (auto simp del: map_of_eq_Some_iff split: if_splits)
    next
      fix n r assume "(n, r) \<in> creators ?l"
      then show "r < nextRecord ?l"
        unfolding cr next_record using sub_invD(3) [OF inv, of n r] by auto
    next
      fix n r m assume "(n, r) \<in> creators ?l" "map_of (subscriptions ?l) m = Some r"
      then show "m = n"
        unfolding cr subs using sub_invD(3) [OF inv, of n r] sub_invD(4) [OF inv, of n r m] old [of m ?r]
        by (auto simp del: map_of_eq_Some_iff split: if_splits)
    qed
    then show ?thesis using own None by (simp add: subscribe_def Let_def)
  qed
qed

lemma leave_inv:
  assumes "sub_inv effs l"
  shows "keeps_sub_inv effs (leave call q owned name l)"
proof -
  let ?l = "put_names owned (set_delete name (names_of owned l)) l"
  have "sub_inv (effs @ []) ?l" by (rule sub_inv_cong [OF assms]) simp_all
  then have "sub_inv (effs @ (if snd (release_name name q ?l) then [UnsubscribeSent name (Some call)] else []))
      (fst (release_name name q ?l))" by (intro release_name_inv) simp
  then show ?thesis
    using sub_inv_same [OF assms] sub_inv_same [of effs "fst (release_name name q ?l)"]
    by (auto simp: leave_def Let_def split_beta)
qed

lemma unsubscribe_name_inv:
  assumes "sub_inv effs l"
  shows "keeps_sub_inv effs (unsubscribe_name call q name l)"
proof -
  have "sub_inv (effs @ []) (await_record r (Leaver call q owned name) l)" for r owned
    by (rule sub_inv_cong [OF assms]) simp_all
  then show ?thesis
    using leave_inv [OF assms] sub_inv_same [OF assms]
    by (simp add: unsubscribe_name_def split: option.splits)
qed

lemma rollback_names:
  "subscriptions (foldl (\<lambda>l q. case map_of (ownedByPeer l) q of None \<Rightarrow> l
      | Some owned \<Rightarrow> put_names owned (set_delete name (names_of owned l)) l) l qs) = subscriptions l"
  "records (foldl (\<lambda>l q. case map_of (ownedByPeer l) q of None \<Rightarrow> l
      | Some owned \<Rightarrow> put_names owned (set_delete name (names_of owned l)) l) l qs) = records l"
  "nextRecord (foldl (\<lambda>l q. case map_of (ownedByPeer l) q of None \<Rightarrow> l
      | Some owned \<Rightarrow> put_names owned (set_delete name (names_of owned l)) l) l qs) = nextRecord l"
  "creators (foldl (\<lambda>l q. case map_of (ownedByPeer l) q of None \<Rightarrow> l
      | Some owned \<Rightarrow> put_names owned (set_delete name (names_of owned l)) l) l qs) = creators l"
  by (induction qs arbitrary: l) (simp_all split: option.splits)


lemma settle_creator_inv:
  assumes inv: "sub_inv effs l" and unique: "\<And>m. map_of (subscriptions l) m = Some r \<Longrightarrow> m = name"
  shows "keeps_sub_inv effs (settle_creator call name r outcome l)"
proof (cases "map_of (records l) r")
  case None
  then show ?thesis using inv by (simp add: settle_creator_def)
next
  case (Some rc)
  show ?thesis
  proof (cases outcome)
    case (Inr reply)
    have c: "sub_inv (effs @ [CallSettled call (TmuxReply reply)]) l" using inv by (intro sub_inv_same) simp_all
    show ?thesis
    proof (cases "recOwners rc = []")
      case True
      have "map_of (subscriptions l) m \<noteq> Some r" for m
        using sub_invD(1) [OF inv, of m r] Some True by (auto simp: in_force_def)
      then show ?thesis
        using sub_inv_unused [OF c] Some Inr by (simp add: settle_creator_def del: map_of_eq_Some_iff)
    next
      case False
      then show ?thesis
        using sub_inv_put [OF c Some, of "rc\<lparr>recInflight := False\<rparr>"] Some Inr
        by (simp add: settle_creator_def)
    qed
  next
    case (Inl err)
    let ?l = "foldl (\<lambda>l q. case map_of (ownedByPeer l) q of None \<Rightarrow> l
      | Some owned \<Rightarrow> put_names owned (set_delete name (names_of owned l)) l) l (recOwners rc)"
    have "sub_inv (effs @ []) ?l"
      by (rule sub_inv_cong [OF inv]) (simp_all add: rollback_names)
    then have "sub_inv ((effs @ []) @ [CallSettled call (CallRejected err)])
        (put_record r (rc\<lparr>recOwners := [], recInflight := False\<rparr>)
          (?l\<lparr>subscriptions := AList.delete name (subscriptions ?l)\<rparr>))"
      using unique by (intro sub_inv_empty) (simp_all only: rollback_names, simp)
    then show ?thesis
      using Some Inl by (simp add: settle_creator_def Let_def put_record_drop)
  qed
qed

lemma run_task_inv:
  assumes "sub_inv effs l" and "tasks l = (t, outcome) # rest"
  shows "keeps_sub_inv effs (run_task t outcome (l\<lparr>tasks := rest\<rparr>))"
proof -
  let ?l = "l\<lparr>tasks := rest\<rparr>"
  have "creators ?l \<subseteq> creators l" using assms(2) by (auto simp: creators_def)
  then have "sub_inv (effs @ []) ?l" by (intro sub_inv_cong [OF assms(1)]) simp_all
  then have inv: "sub_inv effs ?l" by simp
  show ?thesis
  proof (cases t)
    case (Creator call name r)
    then have "(name, r) \<in> creators l" using assms(2) by (auto simp: creators_def)
    then show ?thesis
      using settle_creator_inv [OF inv, of r name] sub_invD(4) [OF assms(1)] Creator by simp
  next
    case (Joiner call q owned name what fmt r)
    then show ?thesis
      using claim_inv [OF inv] subscribe_inv [OF inv] sub_inv_same [OF inv] by (simp split: sum.splits)
  next
    case (Leaver call q owned name)
    have "sub_inv (effs @ []) (?l\<lparr>tasks := rest @ [(LeaverYielded call q owned name, outcome)]\<rparr>)"
      by (rule sub_inv_cong [OF inv]) (auto simp: creators_def)
    then show ?thesis using Leaver by simp
  next
    case (LeaverYielded call q owned name)
    then show ?thesis using leave_inv [OF inv] by simp
  qed
qed

lemma release_subscriber_inv:
  assumes "sub_inv effs l"
  shows "keeps_sub_inv effs (release_subscriber l q)"
proof -
  have run: "sub_inv effs l \<Longrightarrow> keeps_sub_inv effs (run_steps (release_one_name q) l ns)" for effs l ns
  proof (induction ns arbitrary: effs l)
    case (Cons n ns)
    have "keeps_sub_inv effs (release_one_name q l n)"
      using release_name_inv [OF Cons.prems, of n q None] by (simp add: release_one_name_def split_beta)
    from Cons.IH [OF this] show ?case by simp
  qed simp
  have "sub_inv (effs @ []) (l\<lparr>ownedByPeer := AList.delete q (ownedByPeer l)\<rparr>)"
    by (rule sub_inv_cong [OF assms]) (simp_all add: creators_def)
  then show ?thesis
    using assms run by (simp add: release_subscriber_def split: option.splits)
qed

lemma sub_step_inv:
  assumes "sub_inv effs l"
  shows "keeps_sub_inv effs (sub_step l op)"
proof (cases op)
  case (RegisterSubscriber q)
  have "sub_inv (effs @ []) (put_names (nextSet l) []
      (l\<lparr>ownedByPeer := AList.update q (nextSet l) (ownedByPeer l), nextSet := Suc (nextSet l)\<rparr>))"
    by (rule sub_inv_cong [OF assms]) (simp_all add: creators_def put_names_def)
  then show ?thesis using assms RegisterSubscriber by (simp add: register_subscriber_def split: sum.splits)
next
  case (Subscribe q name what fmt)
  have "sub_inv (effs @ []) (l\<lparr>nextCall := Suc (nextCall l)\<rparr>)"
    by (rule sub_inv_cong [OF assms]) simp_all
  then show ?thesis using Subscribe subscribe_inv by simp
next
  case (Unsubscribe q name)
  have "sub_inv (effs @ []) (l\<lparr>nextCall := Suc (nextCall l)\<rparr>)"
    by (rule sub_inv_cong [OF assms]) simp_all
  then show ?thesis using Unsubscribe unsubscribe_name_inv by simp
next
  case (ReleaseSubscriber q)
  then show ?thesis using release_subscriber_inv [OF assms] by simp
next
  case DisposeSubscriptions
  have "sub_inv effs l \<Longrightarrow> keeps_sub_inv effs (run_steps release_subscriber l qs)" for effs l qs
  proof (induction qs arbitrary: effs l)
    case (Cons q qs)
    from Cons.IH [OF release_subscriber_inv [OF Cons.prems, of q]] show ?case by simp
  qed simp
  then show ?thesis using DisposeSubscriptions assms by (simp add: dispose_subscriptions_def)
next
  case (SubscribeAnswered r outcome)
  have "sub_inv (effs @ []) (l\<lparr>settledSubs := AList.update r outcome (settledSubs l),
      tasks := tasks l @ map (\<lambda>(s, t). (t, outcome)) (filter (\<lambda>(s, t). s = r) (waiters l)),
      waiters := filter (\<lambda>(s, t). s \<noteq> r) (waiters l)\<rparr>)"
    by (rule sub_inv_cong [OF assms]) (auto simp: creators_def)
  then show ?thesis using assms SubscribeAnswered by simp
next
  case RunTask
  then show ?thesis using assms run_task_inv [OF assms] by (auto split: list.splits)
qed

text \<open>
  C10. tmux holds every subscription the bridge holds. After any history of peers joining,
  subscribing, unsubscribing and leaving, with replies arriving and waiting calls resuming at
  any points in between, every record in force has an owner, and the last command sent about
  its name is the very subscribe that made it, with its target and format: no unsubscribe and
  no other binding was sent after it.
\<close>

theorem held_subscriptions_live:
  "let (l, effs) = run_steps sub_step new_sub_ledger ops in
     list_all (\<lambda>(n, r). case map_of (records l) r of
         None \<Rightarrow> False
       | Some rc \<Rightarrow> recOwners rc \<noteq> []
           \<and> last_command n effs = Some (SubscribeSent r n (recWhat rc) (recFormat rc)))
       (AList.clearjunk (subscriptions l))"
proof -
  have run: "sub_inv effs l \<Longrightarrow> keeps_sub_inv effs (run_steps sub_step l ops)" for effs l
  proof (induction ops arbitrary: effs l)
    case (Cons op ops)
    from Cons.IH [OF sub_step_inv [OF Cons.prems, of op]] show ?case by simp
  qed simp
  have "sub_inv [] new_sub_ledger"
    by (rule sub_invI) (simp_all add: new_sub_ledger_def creators_def)
  from run [OF this] obtain l effs where
    res: "run_steps sub_step new_sub_ledger ops = (l, effs)" and inv: "sub_inv effs l"
    by (cases "run_steps sub_step new_sub_ledger ops") simp
  have "map_of (subscriptions l) n = Some r" if "(n, r) \<in> set (AList.clearjunk (subscriptions l))" for n r
    using that by (metis distinct_clearjunk map_of_clearjunk map_of_is_SomeI)
  then show ?thesis
    using sub_invD(1) [OF inv] unfolding res by (fastforce simp: list_all_iff in_force_def)
qed


subsection \<open>Two leaks\<close>

text \<open>
  A peer that leaves while its subscribe waits for another peer's still joins, and the
  subscription is never given back: the record stays owned by a peer that no longer exists,
  so after the last peer unsubscribed tmux is not told, and a new binding of the name is
  refused for ever. And when the creating peer leaves and its subscribe then fails, the
  rollback drops the record a later subscriber made meanwhile: that peer was told it is
  subscribed, and its unsubscribe reaches no one.
\<close>

theorem subscription_leaks:
  "let ok = Inr \<lparr>respCommandNumber = Num 1, respTimestamp = Num 0, respOutput = [], success = True\<rparr>;
       sub = (\<lambda>q. Subscribe q ''s'' ''%0'' ''#{pane_id}'');
       (l, effs) = run_steps sub_step new_sub_ledger
         [RegisterSubscriber 1, RegisterSubscriber 2, sub 1, sub 2, ReleaseSubscriber 2,
          SubscribeAnswered 0 ok, RunTask, RunTask, Unsubscribe 1 ''s'', RegisterSubscriber 3,
          Subscribe 3 ''s'' ''%0'' ''#{pane_pid}''];
       (l', effs') = run_steps sub_step new_sub_ledger
         [RegisterSubscriber 1, RegisterSubscriber 2, sub 1, ReleaseSubscriber 1, sub 2,
          SubscribeAnswered 0 (Inl (TmuxProtocolError (Num 1) ''%end'' [])), RunTask,
          SubscribeAnswered 1 ok, RunTask, Unsubscribe 2 ''s'']
   in map_of (ownedByPeer l) 2 = None
      \<and> map (\<lambda>(r, rc). recOwners rc) (records l) = [[2]] \<and> map fst (subscriptions l) = [''s'']
      \<and> list_all (\<lambda>e. \<forall>c. e \<noteq> UnsubscribeSent ''s'' c) effs
      \<and> last effs = CallSettled 3 (BridgeRefused BRIDGE_SUBSCRIPTION_FORMAT_CONFLICT)
      \<and> subscriptions l' = [] \<and> last effs' = CallSettled 2 Synthesized
      \<and> last_command ''s'' effs' = Some (SubscribeSent 1 ''s'' ''%0'' ''#{pane_id}'')"
  by (simp add: run_steps.simps new_sub_ledger_def register_subscriber_def subscribe_def
      unsubscribe_name_def leave_def release_subscriber_def release_one_name_def release_name_def
      claim_def await_record_def settle_creator_def names_of_def put_names_def put_record_def
      last_command_def set_add_def set_delete_def Let_def)

end
