(* ===== verification/Coverage.thy ===== *)
theory Coverage
  imports Backpressure
begin

section \<open>The bridge's cross-session layout coverage\<close>

text \<open>
  \<open>src/connectors/cross-session-layout-ledger.ts\<close>. A \<open>Coverage\<close> object outlives its peer's
  registration while its queue drains, so objects have a number and the peers' map points to
  it. The promise chain of an object is the list of the steps that wait and the step whose
  client call is outstanding. \<open>advance\<close> is the microtask that starts the next step,
  \<open>settled\<close> the settling of the outstanding call, with the error it rejected with. A
  \<open>disable\<close> of a peer with no enable outstanding waits for its turn and does nothing.
\<close>

datatype cov_step = EnableStep nat | DisableStep nat | ReleaseStep | WaitStep nat

datatype cov_call = CallingEnable | CallingDisable

record coverage =
  covCount :: nat
  covHeld :: bool
  covSteps :: "cov_step list"
  covRunning :: "(cov_step \<times> cov_call) option"

record cov_ledger =
  covPeers :: "(peer \<times> nat) list"
  coverages :: "(nat \<times> coverage) list"
  nextCoverage :: nat

datatype cov_effect =
    CallClient nat cov_call
  | CovResolved nat
  | CovRejected nat client_error
  | CovUnregistered nat
  | ReportReleaseFailure bridge_error_code client_error

definition new_cov_ledger :: cov_ledger where
  "new_cov_ledger = \<lparr>covPeers = [], coverages = [], nextCoverage = 0\<rparr>"

definition put_coverage :: "nat \<Rightarrow> coverage \<Rightarrow> cov_ledger \<Rightarrow> cov_ledger" where
  "put_coverage i c l = l\<lparr>coverages := AList.update i c (coverages l)\<rparr>"

definition coverage_of :: "peer \<Rightarrow> cov_ledger \<Rightarrow> (nat \<times> coverage) option" where
  "coverage_of q l =
     (case map_of (covPeers l) q of
        None \<Rightarrow> None
      | Some i \<Rightarrow> map_option (Pair i) (map_of (coverages l) i))"

definition register_coverage :: "peer \<Rightarrow> cov_ledger \<Rightarrow> bridge_error_code + cov_ledger" where
  "register_coverage q l =
     (if map_of (covPeers l) q \<noteq> None then Inl BRIDGE_INTERNAL
      else Inr (l\<lparr>covPeers := AList.update q (nextCoverage l) (covPeers l),
                  coverages := AList.update (nextCoverage l)
                    \<lparr>covCount = 0, covHeld = False, covSteps = [], covRunning = None\<rparr> (coverages l),
                  nextCoverage := Suc (nextCoverage l)\<rparr>))"

definition is_coverage_enabled :: "peer \<Rightarrow> cov_ledger \<Rightarrow> bool" where
  "is_coverage_enabled q l \<longleftrightarrow>
     (case coverage_of q l of None \<Rightarrow> 0 | Some (i, c) \<Rightarrow> covCount c) > 0"

definition serialize_step :: "cov_step \<Rightarrow> coverage \<Rightarrow> coverage" where
  "serialize_step s c = c\<lparr>covSteps := covSteps c @ [s]\<rparr>"

definition enable_coverage :: "peer \<Rightarrow> nat \<Rightarrow> cov_ledger \<Rightarrow> cov_ledger \<times> cov_effect list" where
  "enable_coverage q promise l =
     (case coverage_of q l of
        None \<Rightarrow> (l, [CovUnregistered promise])
      | Some (i, c) \<Rightarrow>
          (put_coverage i (serialize_step (EnableStep promise) (c\<lparr>covCount := covCount c + 1\<rparr>)) l, []))"

definition disable_coverage :: "peer \<Rightarrow> nat \<Rightarrow> cov_ledger \<Rightarrow> cov_ledger \<times> cov_effect list" where
  "disable_coverage q promise l =
     (case coverage_of q l of
        None \<Rightarrow> (l, [CovUnregistered promise])
      | Some (i, c) \<Rightarrow>
          if covCount c = 0 then (put_coverage i (serialize_step (WaitStep promise) c) l, [])
          else (put_coverage i (serialize_step (DisableStep promise) (c\<lparr>covCount := covCount c - 1\<rparr>)) l, []))"

definition release_coverage :: "cov_ledger \<Rightarrow> peer \<Rightarrow> cov_ledger" where
  "release_coverage l q =
     (case coverage_of q l of
        None \<Rightarrow> l
      | Some (i, c) \<Rightarrow>
          put_coverage i (serialize_step ReleaseStep (c\<lparr>covCount := 0\<rparr>))
            (l\<lparr>covPeers := AList.delete q (covPeers l)\<rparr>))"

definition dispose_coverage :: "cov_ledger \<Rightarrow> cov_ledger" where
  "dispose_coverage l = foldl release_coverage l (map fst (covPeers l))"

fun step_ok :: "cov_step \<Rightarrow> cov_effect list" where
  "step_ok (EnableStep promise) = [CovResolved promise]"
| "step_ok (DisableStep promise) = [CovResolved promise]"
| "step_ok ReleaseStep = []"
| "step_ok (WaitStep promise) = [CovResolved promise]"

definition release_failure_code :: "client_error \<Rightarrow> bridge_error_code" where
  "release_failure_code err = (case err of TmuxCommandError r \<Rightarrow> TMUX_ERROR | _ \<Rightarrow> BRIDGE_INTERNAL)"

fun step_failed :: "cov_step \<Rightarrow> client_error \<Rightarrow> cov_effect list" where
  "step_failed (EnableStep promise) err = [CovRejected promise err]"
| "step_failed (DisableStep promise) err = [CovRejected promise err]"
| "step_failed ReleaseStep err =
     (if \<not> is_connection_gone err then [ReportReleaseFailure (release_failure_code err) err] else [])"
| "step_failed (WaitStep promise) err = [CovRejected promise err]"

text \<open>\<open>reconcile\<close>, up to its client call.\<close>

definition reconcile :: "nat \<Rightarrow> cov_step \<Rightarrow> coverage \<Rightarrow> coverage \<times> cov_effect list" where
  "reconcile i s c =
     (let want = covCount c > 0 in
      if want \<and> \<not> covHeld c then
        (c\<lparr>covRunning := Some (s, CallingEnable)\<rparr>, [CallClient i CallingEnable])
      else if \<not> want \<and> covHeld c then
        (c\<lparr>covHeld := False, covRunning := Some (s, CallingDisable)\<rparr>, [CallClient i CallingDisable])
      else (c, step_ok s))"

definition advance :: "nat \<Rightarrow> coverage \<Rightarrow> coverage \<times> cov_effect list" where
  "advance i c =
     (case (covRunning c, covSteps c) of
        (None, s # ss) \<Rightarrow>
          (case s of
             WaitStep promise \<Rightarrow> (c\<lparr>covSteps := ss\<rparr>, step_ok s)
           | _ \<Rightarrow> reconcile i s (c\<lparr>covSteps := ss\<rparr>))
      | _ \<Rightarrow> (c, []))"

definition client_settled :: "client_error option \<Rightarrow> coverage \<Rightarrow> coverage \<times> cov_effect list" where
  "client_settled outcome c =
     (case covRunning c of
        None \<Rightarrow> (c, [])
      | Some (s, call) \<Rightarrow>
          let c1 = c\<lparr>covRunning := None\<rparr> in
          (case outcome of
             None \<Rightarrow> (if call = CallingEnable then c1\<lparr>covHeld := True\<rparr> else c1, step_ok s)
           | Some err \<Rightarrow>
               ((case s of
                   EnableStep promise \<Rightarrow>
                     if covCount c1 > 0 then c1\<lparr>covCount := covCount c1 - 1\<rparr> else c1
                 | _ \<Rightarrow> c1), step_failed s err)))"

datatype cov_op =
    CovRegister peer
  | CovEnable peer nat
  | CovDisable peer nat
  | CovRelease peer
  | CovDispose
  | CovAdvance nat
  | CovSettled nat "client_error option"

definition on_coverage ::
    "nat \<Rightarrow> (coverage \<Rightarrow> coverage \<times> cov_effect list) \<Rightarrow> cov_ledger \<Rightarrow> cov_ledger \<times> cov_effect list" where
  "on_coverage i f l =
     (case map_of (coverages l) i of
        None \<Rightarrow> (l, [])
      | Some c \<Rightarrow> (let (c', effs) = f c in (put_coverage i c' l, effs)))"

fun cov_step_fn :: "cov_ledger \<Rightarrow> cov_op \<Rightarrow> cov_ledger \<times> cov_effect list" where
  "cov_step_fn l (CovRegister q) = (case register_coverage q l of Inl e \<Rightarrow> (l, []) | Inr l' \<Rightarrow> (l', []))"
| "cov_step_fn l (CovEnable q promise) = enable_coverage q promise l"
| "cov_step_fn l (CovDisable q promise) = disable_coverage q promise l"
| "cov_step_fn l (CovRelease q) = (release_coverage l q, [])"
| "cov_step_fn l CovDispose = (dispose_coverage l, [])"
| "cov_step_fn l (CovAdvance i) = on_coverage i (advance i) l"
| "cov_step_fn l (CovSettled i outcome) = on_coverage i (client_settled outcome) l"

subsection \<open>The invariant of one coverage\<close>

fun is_enable :: "cov_step \<Rightarrow> bool" where
  "is_enable (EnableStep promise) = True"
| "is_enable s = False"

fun reconciles :: "cov_step \<Rightarrow> bool" where
  "reconciles (WaitStep promise) = False"
| "reconciles s = True"

definition enabling :: "coverage \<Rightarrow> bool" where
  "enabling c = (case covRunning c of Some (s, CallingEnable) \<Rightarrow> True | _ \<Rightarrow> False)"

definition waiting_enables :: "coverage \<Rightarrow> nat" where
  "waiting_enables c = length (filter is_enable (covSteps c)) +
     (case covRunning c of Some (s, call) \<Rightarrow> if is_enable s then 1 else 0 | None \<Rightarrow> 0)"

text \<open>
  An unmet wish has an enable of its own still to run, and a reference nobody wants has a
  step to come that gives it back.
\<close>

definition coverage_inv :: "coverage \<Rightarrow> bool" where
  "coverage_inv c \<longleftrightarrow>
     (\<not> covHeld c \<longrightarrow> covCount c \<le> waiting_enables c)
     \<and> (covCount c = 0 \<and> (covHeld c \<or> enabling c) \<longrightarrow> list_ex reconciles (covSteps c))
     \<and> (case covRunning c of
          None \<Rightarrow> True
        | Some (s, call) \<Rightarrow> \<not> covHeld c \<and> reconciles s
            \<and> (call = CallingDisable \<longrightarrow> covCount c \<le> length (filter is_enable (covSteps c))))"

lemma not_disabling [simp]: "call \<noteq> CallingDisable \<longleftrightarrow> call = CallingEnable"
  by (cases call) simp_all

lemma serialize_inv:
  "coverage_inv c \<Longrightarrow> coverage_inv (serialize_step (EnableStep promise) (c\<lparr>covCount := covCount c + 1\<rparr>))"
  "coverage_inv c \<Longrightarrow> coverage_inv (serialize_step (DisableStep promise) (c\<lparr>covCount := covCount c - 1\<rparr>))"
  "coverage_inv c \<Longrightarrow> coverage_inv (serialize_step (WaitStep promise) c)"
  "coverage_inv c \<Longrightarrow> coverage_inv (serialize_step ReleaseStep (c\<lparr>covCount := 0\<rparr>))"
  by (auto simp: coverage_inv_def serialize_step_def waiting_enables_def enabling_def split: option.splits)

lemma advance_inv: "coverage_inv c \<Longrightarrow> coverage_inv (fst (advance i c))"
  by (auto simp: coverage_inv_def advance_def reconcile_def waiting_enables_def enabling_def Let_def
      split: option.splits list.splits cov_step.splits if_splits)

lemma settled_inv: "coverage_inv c \<Longrightarrow> coverage_inv (fst (client_settled outcome c))"
  by (auto simp: coverage_inv_def client_settled_def waiting_enables_def enabling_def Let_def
      split: option.splits cov_step.splits cov_call.splits if_splits)

subsection \<open>The ledger\<close>

definition cov_inv :: "cov_ledger \<Rightarrow> bool" where
  "cov_inv l \<longleftrightarrow>
     (\<forall>i c. map_of (coverages l) i = Some c \<longrightarrow>
        coverage_inv c \<and> (i \<notin> ran (map_of (covPeers l)) \<longrightarrow> covCount c = 0))
     \<and> (\<forall>q i. map_of (covPeers l) q = Some i \<longrightarrow> map_of (coverages l) i \<noteq> None \<and> i < nextCoverage l)
     \<and> (\<forall>q r i. map_of (covPeers l) q = Some i \<and> map_of (covPeers l) r = Some i \<longrightarrow> q = r)"

lemma coverage_of_Some:
  "coverage_of q l = Some (i, c) \<longleftrightarrow> map_of (covPeers l) q = Some i \<and> map_of (coverages l) i = Some c"
  by (auto simp: coverage_of_def split: option.splits)

lemma fresh_coverage_inv [simp]:
  "coverage_inv \<lparr>covCount = 0, covHeld = False, covSteps = [], covRunning = None\<rparr>"
  by (simp add: coverage_inv_def enabling_def)

lemma put_inv:
  assumes "cov_inv l" and "coverage_inv c" and "i \<notin> ran (map_of (covPeers l)) \<Longrightarrow> covCount c = 0"
  shows "cov_inv (put_coverage i c l)"
  using assms by (auto simp: cov_inv_def put_coverage_def)

lemma put_peer_inv:
  assumes "cov_inv l" and "map_of (covPeers l) q = Some i" and "coverage_inv c"
  shows "cov_inv (put_coverage i c l)"
  using assms by (intro put_inv) (auto simp: ran_def)

lemma register_inv:
  assumes "cov_inv l" and "register_coverage q l = Inr l'"
  shows "cov_inv l'"
proof -
  have "map_of (covPeers l) q = None" using assms(2) by (auto simp: register_coverage_def split: if_splits)
  moreover have "map_of (covPeers l) p \<noteq> Some (nextCoverage l)" for p
    using assms(1) unfolding cov_inv_def by (metis less_irrefl)
  ultimately show ?thesis
    using assms unfolding cov_inv_def register_coverage_def
    by (auto simp: ran_map_upd less_Suc_eq split: if_splits)
qed

lemma release_inv:
  assumes "cov_inv l"
  shows "cov_inv (release_coverage l q)"
proof (cases "coverage_of q l")
  case None
  then show ?thesis using assms by (simp add: release_coverage_def)
next
  case (Some x)
  obtain i c where x: "x = (i, c)" by (cases x)
  have p: "map_of (covPeers l) q = Some i" "map_of (coverages l) i = Some c"
    using Some x by (simp_all add: coverage_of_Some)
  have c: "coverage_inv (serialize_step ReleaseStep (c\<lparr>covCount := 0\<rparr>))" "covCount (serialize_step ReleaseStep (c\<lparr>covCount := 0\<rparr>)) = 0"
    using assms p(2) serialize_inv(4) by (auto simp: cov_inv_def serialize_step_def)
  have out: "j \<in> ran (map_of (covPeers l)) \<Longrightarrow> j \<noteq> i \<Longrightarrow> j \<in> ran ((map_of (covPeers l))(q := None))" for j
    using p(1) unfolding ran_def by (auto) (metis option.inject)
  show ?thesis
    using assms p c out Some x
    unfolding cov_inv_def release_coverage_def put_coverage_def
    by (auto split: if_splits)
qed

interpretation coverage: invariant_steps cov_step_fn cov_inv
proof unfold_locales
  fix l op
  assume inv: "cov_inv l"
  have at: "coverage_inv c" "map_of (covPeers l) q = Some i" if "coverage_of q l = Some (i, c)" for q i c
    using that inv by (auto simp: cov_inv_def coverage_of_Some)
  have on: "cov_inv (fst (on_coverage i f l))"
    if "\<And>c. coverage_inv c \<Longrightarrow> coverage_inv (fst (f c))" "\<And>c. covCount c = 0 \<Longrightarrow> covCount (fst (f c)) = 0" for i f
  proof (cases "map_of (coverages l) i")
    case (Some c)
    have "cov_inv (put_coverage i (fst (f c)) l)"
      by (rule put_inv) (use inv Some that in \<open>auto simp: cov_inv_def\<close>)
    then show ?thesis using Some by (simp add: on_coverage_def case_prod_beta)
  qed (simp add: on_coverage_def inv)
  show "cov_inv (fst (cov_step_fn l op))"
  proof (cases op)
    case (CovRegister q)
    then show ?thesis using inv register_inv by (simp split: sum.splits)
  next
    case (CovEnable q promise)
    show ?thesis
    proof (cases "coverage_of q l")
      case (Some x)
      then obtain i c where x: "coverage_of q l = Some (i, c)" by (cases x) auto
      show ?thesis
        using put_peer_inv [OF inv at(2) [OF x] serialize_inv(1) [OF at(1) [OF x], of promise]] CovEnable x
        by (simp add: enable_coverage_def)
    qed (simp add: CovEnable enable_coverage_def inv)
  next
    case (CovDisable q promise)
    show ?thesis
    proof (cases "coverage_of q l")
      case (Some x)
      then obtain i c where x: "coverage_of q l = Some (i, c)" by (cases x) auto
      show ?thesis
        using put_peer_inv [OF inv at(2) [OF x] serialize_inv(2) [OF at(1) [OF x], of promise]]
          put_peer_inv [OF inv at(2) [OF x] serialize_inv(3) [OF at(1) [OF x], of promise]] CovDisable x
        by (simp add: disable_coverage_def)
    qed (simp add: CovDisable disable_coverage_def inv)
  next
    case (CovRelease q)
    then show ?thesis using inv release_inv by simp
  next
    case CovDispose
    have "cov_inv (foldl release_coverage k qs)" if "cov_inv k" for k qs
      using that by (induction qs arbitrary: k) (simp_all add: release_inv)
    then show ?thesis using inv CovDispose by (simp add: dispose_coverage_def)
  next
    case (CovAdvance i)
    have "covCount (fst (advance i c)) = covCount c" for c
      by (simp add: advance_def reconcile_def Let_def split: option.split list.split cov_step.split)
    then show ?thesis using CovAdvance on [of "advance i" i] advance_inv by simp
  next
    case (CovSettled i outcome)
    have "covCount c = 0 \<Longrightarrow> covCount (fst (client_settled outcome c)) = 0" for c
      by (simp add: client_settled_def Let_def split: option.split cov_step.split prod.split)
    then show ?thesis using CovSettled on [of "client_settled outcome" i] settled_inv by simp
  qed
qed


definition idle :: "coverage \<Rightarrow> bool" where
  "idle c \<longleftrightarrow> covRunning c = None \<and> covSteps c = []"

text \<open>
  The client's side of one coverage, from the calls it gets and how they settle and from nothing
  the ledger keeps: an \<open>enableCrossSessionLayoutChange\<close> that resolves takes a reference, one
  that rejects takes none, and \<open>disableCrossSessionLayoutChange\<close> gives one back when it is
  called, however it settles. A call that comes while another is outstanding ends the view.
\<close>

record client_view =
  viewRefs :: int
  viewCall :: "cov_call option"

definition no_refs :: client_view where
  "no_refs = \<lparr>viewRefs = 0, viewCall = None\<rparr>"

fun ref_op :: "nat \<Rightarrow> cov_op \<Rightarrow> client_view \<Rightarrow> client_view" where
  "ref_op i (CovSettled j outcome) v =
     (if j = i
      then v\<lparr>viewRefs := viewRefs v + (if viewCall v = Some CallingEnable \<and> outcome = None then 1 else 0),
             viewCall := None\<rparr>
      else v)"
| "ref_op i e v = v"

fun ref_effect :: "nat \<Rightarrow> client_view option \<Rightarrow> cov_effect \<Rightarrow> client_view option" where
  "ref_effect i (Some v) (CallClient j call) =
     (if j \<noteq> i then Some v
      else if viewCall v \<noteq> None then None
      else Some (v\<lparr>viewRefs := viewRefs v - (if call = CallingDisable then 1 else 0), viewCall := Some call\<rparr>))"
| "ref_effect i v e = v"

fun client_sees :: "nat \<Rightarrow> client_view option \<Rightarrow> cov_ledger \<Rightarrow> cov_op list \<Rightarrow> client_view option" where
  "client_sees i v l [] = v"
| "client_sees i v l (e # es) =
     client_sees i (foldl (ref_effect i) (map_option (ref_op i e) v) (snd (cov_step_fn l e)))
       (fst (cov_step_fn l e)) es"

definition in_step :: "cov_ledger \<Rightarrow> nat \<Rightarrow> coverage \<Rightarrow> client_view \<Rightarrow> bool" where
  "in_step l i c v \<longleftrightarrow>
     viewRefs v = (if covHeld c then 1 else 0) \<and> viewCall v = map_option snd (covRunning c)
     \<and> (idle c \<longrightarrow> viewRefs v = (if covCount c > 0 then 1 else 0)
          \<and> (i \<notin> ran (map_of (covPeers l)) \<longrightarrow> viewRefs v = 0))"

lemma new_cov_inv [simp]: "cov_inv new_cov_ledger"
  by (simp add: cov_inv_def new_cov_ledger_def)

text \<open>The ledger's flag and its running step follow the client's view.\<close>

definition follows :: "nat \<Rightarrow> cov_ledger \<Rightarrow> client_view \<Rightarrow> bool" where
  "follows i l v \<longleftrightarrow>
     v = (case map_of (coverages l) i of
            None \<Rightarrow> no_refs
          | Some c \<Rightarrow> \<lparr>viewRefs = (if covHeld c then 1 else 0), viewCall = map_option snd (covRunning c)\<rparr>)"

definition numbered :: "cov_ledger \<Rightarrow> bool" where
  "numbered l \<longleftrightarrow> (\<forall>i. map_of (coverages l) i \<noteq> None \<longrightarrow> i < nextCoverage l)"

lemma numbered_fresh: "numbered l \<Longrightarrow> map_of (coverages l) (nextCoverage l) = None"
  unfolding numbered_def by (metis less_irrefl)

lemma put_coverages [simp]: "map_of (coverages (put_coverage j c l)) = (map_of (coverages l))(j \<mapsto> c)"
  "nextCoverage (put_coverage j c l) = nextCoverage l"
  by (simp_all add: put_coverage_def)

lemma put_numbered: "numbered l \<Longrightarrow> map_of (coverages l) j = Some c \<Longrightarrow> numbered (put_coverage j c' l)"
  by (auto simp: numbered_def)

lemma put_follows:
  "follows i l v \<Longrightarrow> map_of (coverages l) j = Some c \<Longrightarrow> covRunning c' = covRunning c \<Longrightarrow> covHeld c' = covHeld c \<Longrightarrow>
     follows i (put_coverage j c' l) v"
  by (auto simp: follows_def)

lemma serialize_fields [simp]:
  "covRunning (serialize_step s c) = covRunning c" "covHeld (serialize_step s c) = covHeld c"
  by (simp_all add: serialize_step_def)

lemma release_follows:
  assumes "follows i l v" and "numbered l"
  shows "follows i (release_coverage l q) v \<and> numbered (release_coverage l q)"
proof (cases "coverage_of q l")
  case (Some x)
  obtain j c where x: "x = (j, c)" by (cases x)
  let ?l = "l\<lparr>covPeers := AList.delete q (covPeers l)\<rparr>"
  have "map_of (coverages ?l) j = Some c" using Some x by (simp add: coverage_of_Some)
  moreover have "follows i ?l v" "numbered ?l" using assms by (simp_all add: follows_def numbered_def)
  ultimately show ?thesis
    using put_follows [of i ?l v j c] put_numbered [of ?l j c] Some x by (simp add: release_coverage_def)
qed (simp add: release_coverage_def assms)

lemma ref_quiet [simp]:
  "foldl (ref_effect i) v (step_ok s) = v" "foldl (ref_effect i) v (step_failed s err) = v"
  by (cases s; cases v; simp)+

lemma advance_follows:
  assumes "v = \<lparr>viewRefs = (if covHeld c then 1 else 0), viewCall = map_option snd (covRunning c)\<rparr>"
  shows "foldl (ref_effect i) (Some v) (snd (advance i c)) =
      Some \<lparr>viewRefs = (if covHeld (fst (advance i c)) then 1 else 0),
            viewCall = map_option snd (covRunning (fst (advance i c)))\<rparr>"
  using assms by (auto simp: advance_def reconcile_def Let_def split: option.split list.split cov_step.split)

lemma settled_follows:
  assumes "v = \<lparr>viewRefs = (if covHeld c then 1 else 0), viewCall = map_option snd (covRunning c)\<rparr>" and "coverage_inv c"
  shows "foldl (ref_effect i) (Some (ref_op i (CovSettled i outcome) v)) (snd (client_settled outcome c)) =
      Some \<lparr>viewRefs = (if covHeld (fst (client_settled outcome c)) then 1 else 0),
            viewCall = map_option snd (covRunning (fst (client_settled outcome c)))\<rparr>"
  using assms by (auto simp: client_settled_def coverage_inv_def Let_def split: option.split cov_step.split prod.split)

text \<open>The calls of another coverage leave the view alone.\<close>

lemma ref_others:
  "j \<noteq> i \<Longrightarrow> foldl (ref_effect i) v (snd (advance j c)) = v"
  "foldl (ref_effect i) v (snd (client_settled outcome c)) = v"
proof -
  have e: "j \<noteq> i \<Longrightarrow> ref_effect i v (CallClient j call) = v" for call by (cases v) simp_all
  then show "j \<noteq> i \<Longrightarrow> foldl (ref_effect i) v (snd (advance j c)) = v"
    by (auto simp: advance_def reconcile_def Let_def split: option.split list.split cov_step.split)
  show "foldl (ref_effect i) v (snd (client_settled outcome c)) = v"
    by (auto simp: client_settled_def Let_def split: option.split)
qed

lemma step_follows:
  assumes inv: "cov_inv l" and "numbered l" and "follows i l v"
  shows "\<exists>v'. foldl (ref_effect i) (Some (ref_op i e v)) (snd (cov_step_fn l e)) = Some v'
    \<and> follows i (fst (cov_step_fn l e)) v' \<and> numbered (fst (cov_step_fn l e))"
proof (cases e)
  case (CovRegister q)
  show ?thesis
    using assms(2,3) numbered_fresh [OF assms(2)] CovRegister
    by (auto simp: register_coverage_def follows_def no_refs_def numbered_def less_Suc_eq)
next
  case (CovEnable q promise)
  show ?thesis
  proof (cases "coverage_of q l")
    case (Some x)
    then obtain j c where x: "coverage_of q l = Some (j, c)" by (cases x) auto
    then have "map_of (coverages l) j = Some c" by (simp add: coverage_of_Some)
    then show ?thesis
      using put_follows [OF assms(3), of j c] put_numbered [OF assms(2), of j c] CovEnable x
      by (simp add: enable_coverage_def)
  qed (use assms CovEnable in \<open>simp add: enable_coverage_def\<close>)
next
  case (CovDisable q promise)
  show ?thesis
  proof (cases "coverage_of q l")
    case (Some x)
    then obtain j c where x: "coverage_of q l = Some (j, c)" by (cases x) auto
    then have "map_of (coverages l) j = Some c" by (simp add: coverage_of_Some)
    then show ?thesis
      using put_follows [OF assms(3), of j c] put_numbered [OF assms(2), of j c] CovDisable x
      by (simp add: disable_coverage_def)
  qed (use assms CovDisable in \<open>simp add: disable_coverage_def\<close>)
next
  case (CovRelease q)
  then show ?thesis using release_follows [OF assms(3,2)] by simp
next
  case CovDispose
  have "follows i k v \<and> numbered k \<Longrightarrow>
      follows i (foldl release_coverage k qs) v \<and> numbered (foldl release_coverage k qs)" for k qs
  proof (induction qs arbitrary: k)
    case (Cons q qs)
    then show ?case using Cons.IH [OF release_follows] by simp
  qed simp
  then show ?thesis using CovDispose assms by (simp add: dispose_coverage_def)
next
  case (CovAdvance j)
  show ?thesis
  proof (cases "map_of (coverages l) j")
    case (Some c)
    then show ?thesis
      using assms(3) put_numbered [OF assms(2) Some] advance_follows [of v c i] ref_others(1) [of j i "Some v" c]
      by (cases "j = i") (simp_all add: CovAdvance on_coverage_def case_prod_beta follows_def)
  qed (use assms CovAdvance in \<open>simp add: on_coverage_def\<close>)
next
  case (CovSettled j outcome)
  show ?thesis
  proof (cases "map_of (coverages l) j")
    case (Some c)
    moreover have "coverage_inv c" using inv Some by (auto simp: cov_inv_def)
    ultimately show ?thesis
      using assms(3) put_numbered [OF assms(2) Some] settled_follows [of v c i outcome]
        ref_others(2) [of i "Some v" outcome c]
      by (cases "j = i") (simp_all add: CovSettled on_coverage_def case_prod_beta follows_def del: ref_op.simps,
          simp_all add: follows_def)
  next
    case None
    then show ?thesis
      using assms CovSettled by (cases "j = i") (simp_all add: on_coverage_def follows_def no_refs_def)
  qed
qed

lemma run_follows:
  assumes "cov_inv l" and "numbered l" and "follows i l v"
  shows "\<exists>v'. client_sees i (Some v) l es = Some v' \<and> follows i (fst (run_steps cov_step_fn l es)) v'"
  using assms
proof (induction es arbitrary: l v)
  case (Cons e es)
  from step_follows [OF Cons.prems, of e] obtain v' where
    "foldl (ref_effect i) (Some (ref_op i e v)) (snd (cov_step_fn l e)) = Some v'"
    "follows i (fst (cov_step_fn l e)) v'" "numbered (fst (cov_step_fn l e))" by blast
  then show ?case using Cons.IH [OF coverage.step_keeps [OF Cons.prems(1)]] by simp
qed simp

lemma inv_in_step:
  assumes "cov_inv l" and "map_of (coverages l) i = Some c" and "follows i l v"
  shows "in_step l i c v"
proof -
  have c: "coverage_inv c" "i \<notin> ran (map_of (covPeers l)) \<Longrightarrow> covCount c = 0"
    using assms by (auto simp: cov_inv_def)
  then have "idle c \<Longrightarrow> covHeld c = (covCount c > 0)"
    by (auto simp: idle_def coverage_inv_def waiting_enables_def)
  with c(2) show ?thesis using assms(2,3) by (auto simp: in_step_def follows_def)
qed

text \<open>
  C16. The ledger keeps its one reference on the shared client in step with what the peers ask
  for. Over any history of registrations, enables, disables, departures, started steps and
  settled or failed client calls, its calls for one coverage never overlap, and the references
  these calls have left the client with are none or one, as the ledger's flag says; once the
  steps of a coverage have all run they are one exactly when the count that delivery reads is
  positive, and none once the peer has departed. The references are those of the client's
  contract: what the relay behind the client makes of them, and whether tmux then holds the
  subscription, is the relay's matter and can go wrong there.
\<close>

theorem coverage_converges:
  "let l = fst (run_steps cov_step_fn new_cov_ledger ops) in
     case map_of (coverages l) i of
       None \<Rightarrow> True
     | Some c \<Rightarrow>
         (case client_sees i (Some no_refs) new_cov_ledger ops of None \<Rightarrow> False | Some v \<Rightarrow> in_step l i c v)"
proof -
  have "numbered new_cov_ledger" "follows i new_cov_ledger no_refs"
    by (simp_all add: numbered_def follows_def new_cov_ledger_def)
  from run_follows [OF new_cov_inv this, of ops] obtain v where
    "client_sees i (Some no_refs) new_cov_ledger ops = Some v"
    "follows i (fst (run_steps cov_step_fn new_cov_ledger ops)) v" by blast
  then show ?thesis
    using inv_in_step [OF coverage.run_keeps [OF new_cov_inv], of ops i _ v]
    by (simp add: Let_def split: option.split)
qed

text \<open>
  A failed enable can undo another one. The undo of a rejected enable lowers the peer's
  count whether or not a disable has consumed that enable since: after enable, disable,
  enable with the first client call failing, the last enable resolves while the peer counts
  as disabled and the shared client holds no reference.
\<close>

theorem failed_enable_undoes_another:
  "let r = run_steps cov_step_fn new_cov_ledger
       [CovRegister 1, CovEnable 1 10, CovAdvance 0, CovDisable 1 11, CovEnable 1 12,
        CovSettled 0 (Some (Thrown 0)), CovAdvance 0, CovAdvance 0] in
     CovResolved 12 \<in> set (snd r) \<and> \<not> is_coverage_enabled 1 (fst r)
     \<and> CallClient 0 CallingEnable \<notin> set (drop 1 (snd r))"
  by code_simp

end
