(* ===== verification/Bridge.thy ===== *)
theory Bridge
  imports Frames Subscriptions Coverage
begin

section \<open>The bridge connection\<close>

text \<open>
  \<open>src/connectors/bridge-connection.ts\<close>: the facade over the three ledgers. It keeps only the
  counter of peer tokens; each peer operation is handed to the ledger that owns it, and the
  ledgers' effects come out tagged. The replies of tmux, the microtasks of the ledgers and the
  settling of their client calls are operations of the environment, on the ledger they
  concern. The promise a caller gets from the coverage ledger is a number it passes in.
\<close>

record bridge =
  flowLedger :: backpressure
  subLedger :: sub_ledger
  layoutLedger :: cov_ledger
  nextPeerId :: peer
  forwardsLifecycle :: bool

datatype bridge_effect = FlowEffect flow_effect | SubEffect sub_effect | CovEffect cov_effect

definition create_bridge :: "int option \<Rightarrow> int option \<Rightarrow> bool \<Rightarrow> bridge_error_code + bridge" where
  "create_bridge outputHigh outputLow forwards =
     and_then (new_backpressure outputHigh outputLow) (\<lambda>flow.
       Inr \<lparr>flowLedger = flow, subLedger = new_sub_ledger, layoutLedger = new_cov_ledger,
            nextPeerId = 1, forwardsLifecycle = forwards\<rparr>)"

definition bridge_register_peer :: "bridge \<Rightarrow> bridge_error_code + bridge \<times> peer" where
  "bridge_register_peer b =
     (let q = nextPeerId b in
      and_then (register_subscriber q (subLedger b)) (\<lambda>subs.
      and_then (register_peer q (flowLedger b)) (\<lambda>flow.
      and_then (register_coverage q (layoutLedger b)) (\<lambda>cov.
        Inr (b\<lparr>subLedger := subs, flowLedger := flow, layoutLedger := cov, nextPeerId := q + 1\<rparr>, q)))))"

text \<open>Handing an operation to a ledger.\<close>

definition on_flow :: "(backpressure \<Rightarrow> backpressure \<times> flow_effect list) \<Rightarrow> bridge \<Rightarrow> bridge \<times> bridge_effect list" where
  "on_flow f b = (let (l, effs) = f (flowLedger b) in (b\<lparr>flowLedger := l\<rparr>, map FlowEffect effs))"

definition on_subs :: "(sub_ledger \<Rightarrow> sub_ledger \<times> sub_effect list) \<Rightarrow> bridge \<Rightarrow> bridge \<times> bridge_effect list" where
  "on_subs f b = (let (l, effs) = f (subLedger b) in (b\<lparr>subLedger := l\<rparr>, map SubEffect effs))"

definition on_layout :: "(cov_ledger \<Rightarrow> cov_ledger \<times> cov_effect list) \<Rightarrow> bridge \<Rightarrow> bridge \<times> bridge_effect list" where
  "on_layout f b = (let (l, effs) = f (layoutLedger b) in (b\<lparr>layoutLedger := l\<rparr>, map CovEffect effs))"

text \<open>One operation after another, with the effects of both.\<close>

definition before ::
    "('s \<Rightarrow> 's \<times> 'o list) \<Rightarrow> ('s \<Rightarrow> 's \<times> 'o list) \<Rightarrow> 's \<Rightarrow> 's \<times> 'o list" where
  "before f g s = (let (s1, e1) = f s; (s2, e2) = g s1 in (s2, e1 @ e2))"

definition bridge_remove_peer :: "peer \<Rightarrow> bridge \<Rightarrow> bridge \<times> bridge_effect list" where
  "bridge_remove_peer q =
     before (on_flow (\<lambda>l. release_peer l q))
       (before (on_subs (\<lambda>l. release_subscriber l q)) (on_layout (\<lambda>l. (release_coverage l q, []))))"

definition bridge_subscribe :: "peer \<Rightarrow> string \<Rightarrow> string \<Rightarrow> string \<Rightarrow> bridge \<Rightarrow> bridge \<times> bridge_effect list" where
  "bridge_subscribe q name what fmt = on_subs (\<lambda>l. sub_step l (Subscribe q name what fmt))"

definition bridge_unsubscribe :: "peer \<Rightarrow> string \<Rightarrow> bridge \<Rightarrow> bridge \<times> bridge_effect list" where
  "bridge_unsubscribe q name = on_subs (\<lambda>l. sub_step l (Unsubscribe q name))"

definition bridge_enable_layout :: "peer \<Rightarrow> nat \<Rightarrow> bridge \<Rightarrow> bridge \<times> bridge_effect list" where
  "bridge_enable_layout q promise = on_layout (enable_coverage q promise)"

definition bridge_disable_layout :: "peer \<Rightarrow> nat \<Rightarrow> bridge \<Rightarrow> bridge \<times> bridge_effect list" where
  "bridge_disable_layout q promise = on_layout (disable_coverage q promise)"

definition account_output :: "peer \<Rightarrow> jsnum \<Rightarrow> int \<Rightarrow> bridge \<Rightarrow> bridge \<times> bridge_effect list" where
  "account_output q p bytes = on_flow (account q p bytes)"

definition ack_output :: "peer \<Rightarrow> jsnum \<Rightarrow> int \<Rightarrow> bridge \<Rightarrow> bridge \<times> bridge_effect list" where
  "ack_output q p bytes = on_flow (ack q p bytes)"

definition clear_peer_outstanding :: "peer \<Rightarrow> bridge \<Rightarrow> bridge \<times> bridge_effect list" where
  "clear_peer_outstanding q = on_flow (clear_peer q)"

definition bridge_dispose :: "bridge \<Rightarrow> bridge \<times> bridge_effect list" where
  "bridge_dispose =
     before (on_flow dispose_ledger)
       (before (on_subs dispose_subscriptions) (on_layout (\<lambda>l. (dispose_coverage l, []))))"

text \<open>Who an event crosses the bridge to.\<close>

datatype event_route =
    NoRoute
  | TmuxRoute emitter_message
  | CrossSessionRoute emitter_message
  | LifecycleRoute emitter_message

fun is_cross_session_layout_relay_frame :: "emitter_message \<Rightarrow> bool" where
  "is_cross_session_layout_relay_frame (Wire (SubscriptionChanged s)) \<longleftrightarrow>
     subName s = CROSS_SESSION_LAYOUT_SUBSCRIPTION_NAME"
| "is_cross_session_layout_relay_frame ev \<longleftrightarrow> False"

definition route_event :: "emitter_message \<Rightarrow> event_route" where
  "route_event ev =
     (if is_cross_session_layout_relay_frame ev then NoRoute
      else if is_cross_session_layout_message (event_type ev) then CrossSessionRoute ev
      else if is_tmux_message ev then TmuxRoute ev
      else if event_type ev = ''topology-error'' then NoRoute
      else LifecycleRoute ev)"

definition delivers_to :: "peer \<Rightarrow> event_route \<Rightarrow> bridge \<Rightarrow> bool" where
  "delivers_to q route b =
     (case route of
        NoRoute \<Rightarrow> False
      | TmuxRoute ev \<Rightarrow> True
      | CrossSessionRoute ev \<Rightarrow> is_coverage_enabled q (layoutLedger b)
      | LifecycleRoute ev \<Rightarrow> forwardsLifecycle b)"

datatype bridge_op =
    BridgeRegister
  | BridgeRemove peer
  | BridgeSubscribe peer string string string
  | BridgeUnsubscribe peer string
  | BridgeEnable peer nat
  | BridgeDisable peer nat
  | BridgeAccount peer jsnum int
  | BridgeAck peer jsnum int
  | BridgeClear peer
  | BridgeDispose
  | FlowAnswered jsnum nat "client_error option"
  | SubReply nat "client_error + command_response"
  | SubTask
  | LayoutTask nat
  | LayoutAnswered nat "client_error option"

text \<open>The environment acts on the bridge only by answering it.\<close>

fun answers_bridge :: "bridge_op \<Rightarrow> bool" where
  "answers_bridge (FlowAnswered p token outcome) = True"
| "answers_bridge (SubReply r outcome) = True"
| "answers_bridge SubTask = True"
| "answers_bridge (LayoutTask i) = True"
| "answers_bridge (LayoutAnswered i outcome) = True"
| "answers_bridge op = False"

fun bridge_step :: "bridge \<Rightarrow> bridge_op \<Rightarrow> bridge \<times> bridge_effect list" where
  "bridge_step b BridgeRegister = (case bridge_register_peer b of Inl e \<Rightarrow> (b, []) | Inr (b', q) \<Rightarrow> (b', []))"
| "bridge_step b (BridgeRemove q) = bridge_remove_peer q b"
| "bridge_step b (BridgeSubscribe q name what fmt) = bridge_subscribe q name what fmt b"
| "bridge_step b (BridgeUnsubscribe q name) = bridge_unsubscribe q name b"
| "bridge_step b (BridgeEnable q promise) = bridge_enable_layout q promise b"
| "bridge_step b (BridgeDisable q promise) = bridge_disable_layout q promise b"
| "bridge_step b (BridgeAccount q p bytes) = account_output q p bytes b"
| "bridge_step b (BridgeAck q p bytes) = ack_output q p bytes b"
| "bridge_step b (BridgeClear q) = clear_peer_outstanding q b"
| "bridge_step b BridgeDispose = bridge_dispose b"
| "bridge_step b (FlowAnswered p token outcome) =
     on_flow (\<lambda>l. flow_step l (case outcome of None \<Rightarrow> ContinueDone p token | Some err \<Rightarrow> ContinueFailed p token err)) b"
| "bridge_step b (SubReply r outcome) = on_subs (\<lambda>l. sub_step l (SubscribeAnswered r outcome)) b"
| "bridge_step b SubTask = on_subs (\<lambda>l. sub_step l RunTask) b"
| "bridge_step b (LayoutTask i) = on_layout (\<lambda>l. cov_step_fn l (CovAdvance i)) b"
| "bridge_step b (LayoutAnswered i outcome) = on_layout (\<lambda>l. cov_step_fn l (CovSettled i outcome)) b"

subsection \<open>What the facade relies on\<close>

text \<open>
  The contract of a ledger of peers, as the facade uses it: a peer it does not hold can be
  registered, registration adds exactly it and release removes exactly it.
\<close>

locale peer_ledger =
  fixes register :: "peer \<Rightarrow> 's \<Rightarrow> bridge_error_code + 's"
    and release :: "'s \<Rightarrow> peer \<Rightarrow> 's"
    and roster :: "'s \<Rightarrow> peer set"
    and sound :: "'s \<Rightarrow> bool"
  assumes register_fresh:
      "sound l \<Longrightarrow> q \<notin> roster l \<Longrightarrow> \<exists>l'. register q l = Inr l' \<and> sound l' \<and> roster l' = insert q (roster l)"
    and release_sound: "sound l \<Longrightarrow> sound (release l q)"
    and release_roster: "sound l \<Longrightarrow> roster (release l q) = roster l - {q}"
begin

lemma release_all:
  "sound l \<Longrightarrow> sound (foldl release l qs) \<and> roster (foldl release l qs) = roster l - set qs"
  by (induction qs arbitrary: l) (auto simp: release_sound release_roster)

lemma register_release:
  "sound l \<Longrightarrow> q \<notin> roster l \<Longrightarrow> register q l = Inr l' \<Longrightarrow> roster (release l' q) = roster l"
  using register_fresh [of l q] release_roster [of l' q] by auto

end

text \<open>The backpressure ledger.\<close>

definition flow_roster :: "backpressure \<Rightarrow> peer set" where
  "flow_roster l = dom (map_of (outstandingBytes l))"

lemma resume_run_same [simp]: "outstandingBytes (fst (run_steps maybe_resume l ps)) = outstandingBytes l"
  by (induction ps arbitrary: l) simp_all

lemma release_peer_roster [simp]: "flow_roster (fst (release_peer l q)) = flow_roster l - {q}"
  by (auto simp: flow_roster_def release_peer_def domIff split: option.splits if_splits simp del: map_of_eq_Some_iff)

interpretation flow_peers: peer_ledger register_peer "\<lambda>l q. fst (release_peer l q)" flow_roster "\<lambda>l. True"
  by unfold_locales (auto simp: register_peer_def, auto simp: flow_roster_def)

lemma flow_roster_simps [simp]:
  "flow_roster (fst (account q p n l)) = flow_roster l"
  "flow_roster (fst (ack q p n l)) = flow_roster l"
  "flow_roster (fst (clear_peer q l)) = flow_roster l"
  by (auto simp: flow_roster_def account_def ack_def clear_peer_def Let_def insert_absorb domIff split: option.splits)

lemma fst_run_foldl: "fst (run_steps f l es) = foldl (\<lambda>l e. fst (f l e)) l es"
  by (induction es arbitrary: l) simp_all

lemma dispose_ledger_roster [simp]: "flow_roster (fst (dispose_ledger l)) = {}"
proof -
  have "flow_roster (l\<lparr>pausedPanes := x\<rparr>) = flow_roster l" for l x by (simp add: flow_roster_def)
  then show ?thesis
    using flow_peers.release_all [of l "map fst (outstandingBytes l)"]
    by (simp add: dispose_ledger_def flush_paused_panes_def case_prod_beta fst_run_foldl)
       (simp add: flow_roster_def dom_map_of_conv_image_fst)
qed

lemma flow_answer_roster [simp]:
  "flow_roster (fst (flow_step l (ContinueDone p t))) = flow_roster l"
  "flow_roster (fst (flow_step l (ContinueFailed p t err))) = flow_roster l"
  by (simp_all add: flow_roster_def continue_done_def continue_failed_def)

text \<open>The subscription ledger.\<close>

definition sub_roster :: "sub_ledger \<Rightarrow> peer set" where
  "sub_roster l = dom (map_of (ownedByPeer l))"

lemma release_name_owned [simp]: "ownedByPeer (fst (release_name name q l)) = ownedByPeer l"
  by (simp add: release_name_def put_record_def Let_def split: option.split)

lemma put_owned [simp]:
  "ownedByPeer (put_record r rc l) = ownedByPeer l"
  "ownedByPeer (await_record r t l) = ownedByPeer l"
  by (simp_all add: put_record_def await_record_def split: option.split)

lemma release_names_owned [simp]: "ownedByPeer (fst (run_steps (release_one_name q) l ns)) = ownedByPeer l"
  by (induction ns arbitrary: l) (simp_all add: release_one_name_def case_prod_beta)

lemma release_subscriber_roster [simp]: "sub_roster (fst (release_subscriber l q)) = sub_roster l - {q}"
  by (auto simp: sub_roster_def release_subscriber_def domIff split: option.splits if_splits simp del: map_of_eq_Some_iff)

interpretation sub_peers: peer_ledger register_subscriber "\<lambda>l q. fst (release_subscriber l q)" sub_roster "\<lambda>l. True"
  by unfold_locales (auto simp: register_subscriber_def, auto simp: sub_roster_def)

lemma dispose_subscriptions_roster [simp]: "sub_roster (fst (dispose_subscriptions l)) = {}"
  using sub_peers.release_all [of l "map fst (ownedByPeer l)"]
  by (simp add: dispose_subscriptions_def fst_run_foldl) (simp add: sub_roster_def dom_map_of_conv_image_fst)

lemma claim_owned [simp]: "ownedByPeer (fst (claim call q owned name r l)) = ownedByPeer l"
  by (simp add: claim_def split: option.split)

lemma subscribe_owned [simp]: "ownedByPeer (fst (subscribe call q name what fmt l)) = ownedByPeer l"
  by (simp add: subscribe_def Let_def split: option.split)

lemma leave_owned [simp]: "ownedByPeer (fst (leave call q owned name l)) = ownedByPeer l"
  by (simp add: leave_def Let_def case_prod_beta)

lemma unsubscribe_owned [simp]: "ownedByPeer (fst (unsubscribe_name call q name l)) = ownedByPeer l"
  by (simp add: unsubscribe_name_def split: option.split)

lemma rollback_owned [simp]:
  "ownedByPeer (foldl (\<lambda>l q. case map_of (ownedByPeer l) q of None \<Rightarrow> l
      | Some owned \<Rightarrow> put_names owned (set_delete name (names_of owned l)) l) l qs) = ownedByPeer l"
  by (induction qs arbitrary: l) (simp_all split: option.splits)

lemma run_task_owned [simp]: "ownedByPeer (fst (run_task t outcome l)) = ownedByPeer l"
  by (cases t) (simp_all add: settle_creator_def Let_def split: option.split sum.split)

lemma sub_step_roster [simp]:
  "sub_roster (fst (sub_step l (Subscribe q name what fmt))) = sub_roster l"
  "sub_roster (fst (sub_step l (Unsubscribe q name))) = sub_roster l"
  "sub_roster (fst (sub_step l (SubscribeAnswered r outcome))) = sub_roster l"
  "sub_roster (fst (sub_step l RunTask)) = sub_roster l"
  by (simp_all add: sub_roster_def split: list.split prod.split)

text \<open>The coverage ledger.\<close>

definition layout_roster :: "cov_ledger \<Rightarrow> peer set" where
  "layout_roster l = dom (map_of (covPeers l))"

lemma put_coverage_peers [simp]: "covPeers (put_coverage i c l) = covPeers l"
  by (simp add: put_coverage_def)

interpretation layout_peers: peer_ledger register_coverage release_coverage layout_roster cov_inv
proof unfold_locales
  fix l q
  assume inv: "cov_inv l"
  show "cov_inv (release_coverage l q)" by (rule release_inv [OF inv])
  have "coverage_of q l = None \<longleftrightarrow> map_of (covPeers l) q = None"
    using inv by (auto simp: cov_inv_def coverage_of_def split: option.splits)
  then show "layout_roster (release_coverage l q) = layout_roster l - {q}"
    by (auto simp: layout_roster_def release_coverage_def domIff split: option.splits if_splits
        simp del: map_of_eq_Some_iff)
  assume "q \<notin> layout_roster l"
  then have free: "map_of (covPeers l) q = None" by (auto simp: layout_roster_def)
  obtain l' where r: "register_coverage q l = Inr l'" "layout_roster l' = insert q (layout_roster l)"
    by (auto simp: layout_roster_def register_coverage_def free)
  then show "\<exists>l'. register_coverage q l = Inr l' \<and> cov_inv l' \<and> layout_roster l' = insert q (layout_roster l)"
    using register_inv [OF inv] by blast
qed

lemma dispose_coverage_roster [simp]: "cov_inv l \<Longrightarrow> layout_roster (dispose_coverage l) = {}"
  using layout_peers.release_all [of l "map fst (covPeers l)"]
  by (simp add: dispose_coverage_def) (simp add: layout_roster_def dom_map_of_conv_image_fst)

lemma on_coverage_peers [simp]: "covPeers (fst (on_coverage i f l)) = covPeers l"
  by (simp add: on_coverage_def case_prod_beta split: option.split)

lemma layout_roster_simps [simp]:
  "layout_roster (fst (enable_coverage q promise l)) = layout_roster l"
  "layout_roster (fst (disable_coverage q promise l)) = layout_roster l"
  "layout_roster (fst (cov_step_fn l (CovAdvance i))) = layout_roster l"
  "layout_roster (fst (cov_step_fn l (CovSettled i outcome))) = layout_roster l"
  by (simp_all add: layout_roster_def enable_coverage_def disable_coverage_def split: option.split)

subsection \<open>The rosters agree\<close>

definition bridge_ok :: "bridge \<Rightarrow> bool" where
  "bridge_ok b \<longleftrightarrow> cov_inv (layoutLedger b)
     \<and> flow_roster (flowLedger b) = sub_roster (subLedger b)
     \<and> layout_roster (layoutLedger b) = sub_roster (subLedger b)
     \<and> (\<forall>q\<in>sub_roster (subLedger b). q < nextPeerId b)"

definition peers_of :: "bridge \<Rightarrow> peer set" where
  "peers_of b = sub_roster (subLedger b)"

lemma fst_on [simp]:
  "fst (on_flow f b) = b\<lparr>flowLedger := fst (f (flowLedger b))\<rparr>"
  "fst (on_subs g b) = b\<lparr>subLedger := fst (g (subLedger b))\<rparr>"
  "fst (on_layout h b) = b\<lparr>layoutLedger := fst (h (layoutLedger b))\<rparr>"
  by (simp_all add: on_flow_def on_subs_def on_layout_def case_prod_beta)

lemma before_simps [simp]:
  "fst (before f g s) = fst (g (fst (f s)))"
  "snd (before f g s) = snd (f s) @ snd (g (fst (f s)))"
  by (simp_all add: before_def case_prod_beta)

lemma bridge_okI:
  assumes "bridge_ok b" and "cov_inv (layoutLedger b')" and "nextPeerId b' = nextPeerId b"
    and "flow_roster (flowLedger b') = sub_roster (subLedger b')"
    and "layout_roster (layoutLedger b') = sub_roster (subLedger b')"
    and "sub_roster (subLedger b') \<subseteq> sub_roster (subLedger b)"
  shows "bridge_ok b'"
  using assms unfolding bridge_ok_def by auto

lemma cov_step_inv [simp]: "cov_inv l \<Longrightarrow> cov_inv (fst (cov_step_fn l op))"
  by (rule coverage.step_keeps)

lemma cov_ops_inv [simp]:
  "cov_inv l \<Longrightarrow> cov_inv (fst (enable_coverage q promise l))"
  "cov_inv l \<Longrightarrow> cov_inv (fst (disable_coverage q promise l))"
  "cov_inv l \<Longrightarrow> cov_inv (dispose_coverage l)"
  using coverage.step_keeps [of l "CovEnable q promise"] coverage.step_keeps [of l "CovDisable q promise"]
    coverage.step_keeps [of l CovDispose] by simp_all

lemma bridge_register_ok:
  assumes "bridge_ok b"
  obtains b' where "bridge_register_peer b = Inr (b', nextPeerId b)" and "bridge_ok b'"
    and "peers_of b' = insert (nextPeerId b) (peers_of b)" and "nextPeerId b \<notin> peers_of b"
proof -
  let ?q = "nextPeerId b"
  have q: "?q \<notin> sub_roster (subLedger b)" "?q \<notin> flow_roster (flowLedger b)" "?q \<notin> layout_roster (layoutLedger b)"
    using assms by (auto simp: bridge_ok_def)
  obtain subs where s: "register_subscriber ?q (subLedger b) = Inr subs" "sub_roster subs = insert ?q (sub_roster (subLedger b))"
    using sub_peers.register_fresh q(1) by blast
  obtain flow where f: "register_peer ?q (flowLedger b) = Inr flow" "flow_roster flow = insert ?q (flow_roster (flowLedger b))"
    using flow_peers.register_fresh q(2) by blast
  obtain cov where c: "register_coverage ?q (layoutLedger b) = Inr cov" "cov_inv cov"
      "layout_roster cov = insert ?q (layout_roster (layoutLedger b))"
    using layout_peers.register_fresh [OF _ q(3)] assms by (auto simp: bridge_ok_def)
  show ?thesis
    by (rule that [of "b\<lparr>subLedger := subs, flowLedger := flow, layoutLedger := cov, nextPeerId := ?q + 1\<rparr>"])
      (use assms s f c q in \<open>auto simp: bridge_register_peer_def Let_def bridge_ok_def peers_of_def less_Suc_eq\<close>)
qed

lemma bridge_remove_ok:
  assumes "bridge_ok b"
  shows "bridge_ok (fst (bridge_remove_peer q b))" "peers_of (fst (bridge_remove_peer q b)) = peers_of b - {q}"
  using assms layout_peers.release_roster [of "layoutLedger b" q] release_inv [of "layoutLedger b" q]
  by (auto simp: bridge_ok_def bridge_remove_peer_def peers_of_def)

lemma bridge_dispose_ok:
  assumes "bridge_ok b"
  shows "bridge_ok (fst (bridge_dispose b))" "peers_of (fst (bridge_dispose b)) = {}"
  using assms by (auto simp: bridge_ok_def bridge_dispose_def peers_of_def)

lemma bridge_step_ok: "bridge_ok b \<Longrightarrow> bridge_ok (fst (bridge_step b op))"
proof (cases op)
  case BridgeRegister
  assume "bridge_ok b"
  then show ?thesis by (rule bridge_register_ok) (simp add: BridgeRegister)
next
  case (BridgeRemove q)
  assume "bridge_ok b"
  then show ?thesis by (simp add: BridgeRemove bridge_remove_ok)
next
  case BridgeDispose
  assume "bridge_ok b"
  then show ?thesis by (simp add: BridgeDispose bridge_dispose_ok)
qed (auto simp: bridge_ok_def bridge_subscribe_def bridge_unsubscribe_def bridge_enable_layout_def
    bridge_disable_layout_def account_output_def ack_output_def clear_peer_outstanding_def
    simp del: sub_step.simps flow_step.simps cov_step_fn.simps split: option.split)

interpretation bridge: invariant_steps bridge_step bridge_ok
  by unfold_locales (rule bridge_step_ok)

lemma create_bridge_ok: "create_bridge h w fw = Inr b \<Longrightarrow> bridge_ok b \<and> peers_of b = {}"
  by (auto simp: create_bridge_def and_then_Inr bridge_ok_def peers_of_def sub_roster_def new_sub_ledger_def
      layout_roster_def new_cov_ledger_def flow_roster_def new_backpressure_def Let_def cov_inv_def split: if_splits)

lemma stranger_inert:
  assumes "bridge_ok b" and "q \<notin> peers_of b"
  shows "account_output q p n b = (b, [])" "ack_output q p n b = (b, [])" "clear_peer_outstanding q b = (b, [])"
    "bridge_remove_peer q b = (b, [])"
    "snd (bridge_subscribe q name what fmt b) =
       [SubEffect (CallSettled (nextCall (subLedger b)) (BridgeRefused BRIDGE_INTERNAL))]"
    "snd (bridge_unsubscribe q name b) =
       [SubEffect (CallSettled (nextCall (subLedger b)) (BridgeRefused BRIDGE_INTERNAL))]"
    "bridge_enable_layout q promise b = (b, [CovEffect (CovUnregistered promise)])"
    "bridge_disable_layout q promise b = (b, [CovEffect (CovUnregistered promise)])"
    "\<not> is_coverage_enabled q (layoutLedger b)"
proof -
  have none: "map_of (outstandingBytes (flowLedger b)) q = None" "map_of (ownedByPeer (subLedger b)) q = None"
    "map_of (covPeers (layoutLedger b)) q = None"
    using assms by (auto simp: bridge_ok_def peers_of_def flow_roster_def sub_roster_def layout_roster_def)
  then have c: "coverage_of q (layoutLedger b) = None" by (simp add: coverage_of_def)
  note laws = none c account_def ack_def clear_peer_def release_peer_def release_subscriber_def
    release_coverage_def subscribe_def unsubscribe_name_def enable_coverage_def disable_coverage_def
    is_coverage_enabled_def on_flow_def on_subs_def on_layout_def before_def
  show "account_output q p n b = (b, [])" "ack_output q p n b = (b, [])" "clear_peer_outstanding q b = (b, [])"
    "bridge_remove_peer q b = (b, [])" "\<not> is_coverage_enabled q (layoutLedger b)"
    "bridge_enable_layout q promise b = (b, [CovEffect (CovUnregistered promise)])"
    "bridge_disable_layout q promise b = (b, [CovEffect (CovUnregistered promise)])"
    by (simp_all add: laws account_output_def ack_output_def clear_peer_outstanding_def bridge_remove_peer_def
        bridge_enable_layout_def bridge_disable_layout_def)
  show "snd (bridge_subscribe q name what fmt b) =
       [SubEffect (CallSettled (nextCall (subLedger b)) (BridgeRefused BRIDGE_INTERNAL))]"
    "snd (bridge_unsubscribe q name b) =
       [SubEffect (CallSettled (nextCall (subLedger b)) (BridgeRefused BRIDGE_INTERNAL))]"
    by (simp_all add: laws bridge_subscribe_def bridge_unsubscribe_def)
qed

text \<open>
  The three ledgers keep one roster, and a departed peer leaves nothing behind. After any
  history of joining, leaving, subscribing, output, acknowledgements, replies and microtasks,
  the ledgers hold the same peers; a new peer always registers, under a token no live peer
  has; a removed peer is gone from all three, and whatever is asked in its name afterwards
  changes nothing, sends tmux nothing and is answered with a refusal; and disposal leaves no
  peer at all.
\<close>

theorem peers_fully_released:
  "case create_bridge outputHigh outputLow forwards of Inl e \<Rightarrow> True | Inr b0 \<Rightarrow>
     let b = fst (run_steps bridge_step b0 ops); gone = fst (bridge_remove_peer q b) in
     flow_roster (flowLedger b) = peers_of b \<and> layout_roster (layoutLedger b) = peers_of b
     \<and> (\<exists>b'. bridge_register_peer b = Inr (b', nextPeerId b) \<and> peers_of b' = insert (nextPeerId b) (peers_of b))
     \<and> nextPeerId b \<notin> peers_of b
     \<and> peers_of gone = peers_of b - {q}
     \<and> bridge_remove_peer q gone = (gone, [])
     \<and> account_output q p n gone = (gone, []) \<and> ack_output q p n gone = (gone, [])
     \<and> clear_peer_outstanding q gone = (gone, [])
     \<and> snd (bridge_subscribe q name what fmt gone) =
         [SubEffect (CallSettled (nextCall (subLedger gone)) (BridgeRefused BRIDGE_INTERNAL))]
     \<and> bridge_enable_layout q promise gone = (gone, [CovEffect (CovUnregistered promise)])
     \<and> \<not> delivers_to q (CrossSessionRoute ev) gone
     \<and> peers_of (fst (bridge_dispose b)) = {}"
proof (cases "create_bridge outputHigh outputLow forwards")
  case (Inr b0)
  let ?b = "fst (run_steps bridge_step b0 ops)"
  have b: "bridge_ok ?b" by (rule bridge.run_keeps) (use Inr create_bridge_ok in blast)
  then obtain b' where "bridge_register_peer ?b = Inr (b', nextPeerId ?b)"
      "peers_of b' = insert (nextPeerId ?b) (peers_of ?b)" "nextPeerId ?b \<notin> peers_of ?b"
    by (rule bridge_register_ok) blast
  moreover have "flow_roster (flowLedger ?b) = peers_of ?b" "layout_roster (layoutLedger ?b) = peers_of ?b"
    using b by (simp_all add: bridge_ok_def peers_of_def)
  moreover have "bridge_ok (fst (bridge_remove_peer q ?b))" "q \<notin> peers_of (fst (bridge_remove_peer q ?b))"
    using bridge_remove_ok [OF b] by simp_all
  note stranger_inert [OF this]
  ultimately show ?thesis
    using Inr bridge_remove_ok(2) [OF b] bridge_dispose_ok(2) [OF b] by (simp add: Let_def delivers_to_def)
qed simp

text \<open>
  Who an event reaches. The relay's own raw notification and a topology error reach
  nobody; every other event of tmux reaches every peer; a decoded layout event reaches exactly
  the peers with an enable outstanding; and the remaining synthetic events reach peers exactly
  on a transport that forwards them.
\<close>

theorem event_routing:
  "delivers_to q (route_event ev) b \<longleftrightarrow>
     (case ev of
        Wire (SubscriptionChanged s) \<Rightarrow> subName s \<noteq> CROSS_SESSION_LAYOUT_SUBSCRIPTION_NAME
      | Wire m \<Rightarrow> True
      | TopologyError e \<Rightarrow> False
      | CrossSessionLayout t e \<Rightarrow>
          if t \<in> set CROSS_SESSION_LAYOUT_MESSAGE_TYPES then is_coverage_enabled q (layoutLedger b)
          else if t \<in> set SYNTHETIC_MESSAGE_TYPES then t \<noteq> ''topology-error'' \<and> forwardsLifecycle b else True
      | _ \<Rightarrow> forwardsLifecycle b)"
proof -
  have wire: "message_type m \<notin> set SYNTHETIC_MESSAGE_TYPES" "message_type m \<notin> set CROSS_SESSION_LAYOUT_MESSAGE_TYPES" for m
    by (cases m; simp add: SYNTHETIC_MESSAGE_TYPES_def CROSS_SESSION_LAYOUT_MESSAGE_TYPES_def)+
  have synthetic: "event_type (ConnectionStateMessage s) \<in> set SYNTHETIC_MESSAGE_TYPES" "event_type Reconnected \<in> set SYNTHETIC_MESSAGE_TYPES"
    "event_type (ProtocolErrorMessage n l) \<in> set SYNTHETIC_MESSAGE_TYPES" "event_type (TopologyError e) \<in> set SYNTHETIC_MESSAGE_TYPES" for s n l e
    by (simp_all add: SYNTHETIC_MESSAGE_TYPES_def)
  have layout: "''connection-state'' \<notin> set CROSS_SESSION_LAYOUT_MESSAGE_TYPES" "''reconnected'' \<notin> set CROSS_SESSION_LAYOUT_MESSAGE_TYPES"
    "''protocol-error'' \<notin> set CROSS_SESSION_LAYOUT_MESSAGE_TYPES" "''topology-error'' \<notin> set CROSS_SESSION_LAYOUT_MESSAGE_TYPES"
    by (simp_all add: CROSS_SESSION_LAYOUT_MESSAGE_TYPES_def)
  show ?thesis
  proof (cases ev)
    case (Wire m)
    then show ?thesis
      using wire [of m]
      by (cases m; simp add: delivers_to_def route_event_def is_cross_session_layout_message_def is_tmux_message_def)
  qed (use synthetic layout in \<open>auto simp: delivers_to_def route_event_def is_cross_session_layout_message_def
      is_tmux_message_def simp del: status_simps\<close>)
qed

end
