(* ===== verification/Calls.thy ===== *)
theory Calls
  imports Frames
begin

section \<open>Calls in flight: the client's outbox, the server's pump, the close gate\<close>

text \<open>
  \<open>src/connectors/websocket/outbox.ts\<close>, \<open>call-pump.ts\<close>, \<open>handshake.ts\<close>, and
  \<open>src/transport/close-gate.ts\<close>, \<open>line-termination.ts\<close>. A promise, a callback and a timer
  are identities; settling a promise or running a callback is an effect. The one timer of an
  outbox entry carries the identity of its promise. Whether the socket accepts a frame is a
  function of the frame for the length of one operation.
\<close>

subsection \<open>The outbox\<close>

datatype call_error = CodeError bridge_error_code | WireError error_payload | TmuxError json

record 'p pending_call =
  callMethod :: string
  callFrame :: client_frame
  callPromise :: 'p
  transmitted :: bool

record 'p outbox =
  pendingCalls :: "(string \<times> 'p pending_call) list"
  callTimers :: "('p \<times> string) list"

datatype 'p outbox_effect =
    Transmit client_frame
  | ArmTimeout 'p int
  | ResolveCall 'p json
  | RejectCall 'p call_error

definition new_outbox :: "'p outbox" where
  "new_outbox = \<lparr>pendingCalls = [], callTimers = []\<rparr>"

definition transmit ::
    "(client_frame \<Rightarrow> bool) \<Rightarrow> 'p pending_call \<Rightarrow> 'p pending_call \<times> 'p outbox_effect list" where
  "transmit send p =
     (if transmitted p then (p, [])
      else if send (callFrame p) then (p\<lparr>transmitted := True\<rparr>, [Transmit (callFrame p)])
      else (p, []))"

definition enqueue ::
    "(client_frame \<Rightarrow> bool) \<Rightarrow> string \<Rightarrow> string \<Rightarrow> client_frame \<Rightarrow> int \<Rightarrow> 'p \<Rightarrow> 'p outbox \<Rightarrow>
     'p outbox \<times> 'p outbox_effect list" where
  "enqueue send callId m frame timeoutMs promise ob =
     (let (entry, effs) = transmit send
            \<lparr>callMethod = m, callFrame = frame, callPromise = promise, transmitted = False\<rparr>
      in (ob\<lparr>pendingCalls := AList.update callId entry (pendingCalls ob),
             callTimers := callTimers ob @ [(promise, callId)]\<rparr>,
          ArmTimeout promise timeoutMs # effs))"

definition clear_call_timer :: "'p pending_call \<Rightarrow> 'p outbox \<Rightarrow> 'p outbox" where
  "clear_call_timer p ob = ob\<lparr>callTimers := filter (\<lambda>t. fst t \<noteq> callPromise p) (callTimers ob)\<rparr>"

definition call_timeout :: "'p \<Rightarrow> 'p outbox \<Rightarrow> 'p outbox \<times> 'p outbox_effect list" where
  "call_timeout promise ob =
     (case map_of (callTimers ob) promise of
        None \<Rightarrow> (ob, [])
      | Some callId \<Rightarrow>
          let ob1 = ob\<lparr>callTimers := filter (\<lambda>t. fst t \<noteq> promise) (callTimers ob)\<rparr> in
          (case map_of (pendingCalls ob1) callId of
             None \<Rightarrow> (ob1, [])
           | Some p \<Rightarrow> (ob1\<lparr>pendingCalls := AList.delete callId (pendingCalls ob1)\<rparr>,
                        [RejectCall promise (CodeError BRIDGE_TIMEOUT)])))"

definition settle_call ::
    "result_frame \<Rightarrow> 'p outbox \<Rightarrow> 'p outbox \<times> 'p outbox_effect list \<times> call_error option" where
  "settle_call frame ob =
     (case map_of (pendingCalls ob) (frame_id frame) of
        None \<Rightarrow> (ob, [], None)
      | Some p \<Rightarrow>
          let ob1 = clear_call_timer p (ob\<lparr>pendingCalls := AList.delete (frame_id frame) (pendingCalls ob)\<rparr>) in
          (case frame of
             ResultOk callId response \<Rightarrow>
               if (response = JNull) \<noteq> answers_null (callMethod p)
               then (let violation = CodeError BRIDGE_PROTOCOL_ERROR in
                     (ob1, [RejectCall (callPromise p) violation], Some violation))
               else (ob1, [ResolveCall (callPromise p) response], None)
           | ResultTmuxError callId e \<Rightarrow> (ob1, [RejectCall (callPromise p) (TmuxError e)], None)
           | ResultError callId e \<Rightarrow> (ob1, [RejectCall (callPromise p) (WireError e)], None)))"

fun flush_calls ::
    "(client_frame \<Rightarrow> bool) \<Rightarrow> (string \<times> 'p pending_call) list \<Rightarrow>
     (string \<times> 'p pending_call) list \<times> 'p outbox_effect list" where
  "flush_calls send [] = ([], [])"
| "flush_calls send ((callId, p) # ps) =
     (let (p', effs) = transmit send p in
      if \<not> transmitted p' then ((callId, p') # ps, effs)
      else let (ps', effs') = flush_calls send ps in ((callId, p') # ps', effs @ effs'))"

definition flush_outbox :: "(client_frame \<Rightarrow> bool) \<Rightarrow> 'p outbox \<Rightarrow> 'p outbox \<times> 'p outbox_effect list" where
  "flush_outbox send ob =
     (let (ps, effs) = flush_calls send (pendingCalls ob) in (ob\<lparr>pendingCalls := ps\<rparr>, effs))"

definition drain_outbox :: "call_error \<Rightarrow> 'p outbox \<Rightarrow> 'p outbox \<times> 'p outbox_effect list" where
  "drain_outbox err ob =
     (foldl (\<lambda>ob (callId, p). clear_call_timer p (ob\<lparr>pendingCalls := AList.delete callId (pendingCalls ob)\<rparr>))
        ob (pendingCalls ob),
      map (\<lambda>(callId, p). RejectCall (callPromise p) err) (pendingCalls ob))"

datatype 'p outbox_op =
    Enqueue "client_frame \<Rightarrow> bool" string string client_frame int 'p
  | CallTimeout 'p
  | SettleCall result_frame
  | FlushCalls "client_frame \<Rightarrow> bool"
  | DrainCalls call_error

fun outbox_step :: "'p outbox \<Rightarrow> 'p outbox_op \<Rightarrow> 'p outbox \<times> 'p outbox_effect list" where
  "outbox_step ob (Enqueue send callId m frame timeoutMs promise) =
     enqueue send callId m frame timeoutMs promise ob"
| "outbox_step ob (CallTimeout promise) = call_timeout promise ob"
| "outbox_step ob (SettleCall frame) = (let (ob', effs, violation) = settle_call frame ob in (ob', effs))"
| "outbox_step ob (FlushCalls send) = flush_outbox send ob"
| "outbox_step ob (DrainCalls err) = drain_outbox err ob"

subsection \<open>The server's call pump\<close>

record call_pump =
  pumpInflight :: "(string \<times> (nat \<times> int)) list"
  pumpTimers :: "(nat \<times> string \<times> int) list"
  pumpNextTimer :: nat

datatype pump_effect = PumpTimeout string int | PumpCompleted string int | PumpRejected string

definition new_pump :: call_pump where
  "new_pump = \<lparr>pumpInflight = [], pumpTimers = [], pumpNextTimer = 0\<rparr>"

definition pump_full :: "nat \<Rightarrow> call_pump \<Rightarrow> bool" where
  "pump_full maxInflight p \<longleftrightarrow> length (pumpInflight p) \<ge> maxInflight"

definition pump_track :: "string \<Rightarrow> int \<Rightarrow> call_pump \<Rightarrow> call_pump" where
  "pump_track callId now p =
     (let timer = pumpNextTimer p in
      p\<lparr>pumpInflight := AList.update callId (timer, now) (pumpInflight p),
        pumpTimers := pumpTimers p @ [(timer, callId, now)], pumpNextTimer := Suc timer\<rparr>)"

definition pump_timer_fires :: "nat \<Rightarrow> call_pump \<Rightarrow> call_pump \<times> pump_effect list" where
  "pump_timer_fires timer p =
     (case map_of (pumpTimers p) timer of
        None \<Rightarrow> (p, [])
      | Some (callId, startedAt) \<Rightarrow>
          let p1 = p\<lparr>pumpTimers := AList.delete timer (pumpTimers p)\<rparr> in
          if map_of (pumpInflight p1) callId = None then (p1, [])
          else (p1\<lparr>pumpInflight := AList.delete callId (pumpInflight p1)\<rparr>, [PumpTimeout callId startedAt]))"

definition pump_complete :: "string \<Rightarrow> call_pump \<Rightarrow> call_pump \<times> pump_effect list" where
  "pump_complete callId p =
     (case map_of (pumpInflight p) callId of
        None \<Rightarrow> (p, [])
      | Some (timer, startedAt) \<Rightarrow>
          (p\<lparr>pumpInflight := AList.delete callId (pumpInflight p),
             pumpTimers := AList.delete timer (pumpTimers p)\<rparr>,
           [PumpCompleted callId startedAt]))"

definition pump_drain :: "call_pump \<Rightarrow> call_pump \<times> pump_effect list" where
  "pump_drain p =
     (p\<lparr>pumpInflight := [],
        pumpTimers := filter (\<lambda>t. fst t \<notin> (fst \<circ> snd) ` set (pumpInflight p)) (pumpTimers p)\<rparr>,
      map (\<lambda>(callId, e). PumpRejected callId) (pumpInflight p))"

datatype pump_op = PumpTrack string int | PumpTimer nat | PumpComplete string | PumpDrain

fun pump_step :: "call_pump \<Rightarrow> pump_op \<Rightarrow> call_pump \<times> pump_effect list" where
  "pump_step p (PumpTrack callId now) = (pump_track callId now p, [])"
| "pump_step p (PumpTimer timer) = pump_timer_fires timer p"
| "pump_step p (PumpComplete callId) = pump_complete callId p"
| "pump_step p PumpDrain = pump_drain p"

subsection \<open>The close gate\<close>

datatype close_state = GateOpen | GateClosed "string option"

record close_gate =
  gateState :: close_state
  gateCallbacks :: "nat list"

datatype gate_effect = RunCallback nat "string option"

definition new_gate :: close_gate where
  "new_gate = \<lparr>gateState = GateOpen, gateCallbacks = []\<rparr>"

definition gate_dispatch :: "string option \<Rightarrow> close_gate \<Rightarrow> close_gate \<times> gate_effect list" where
  "gate_dispatch reason g =
     (if gateState g \<noteq> GateOpen then (g, [])
      else (g\<lparr>gateState := GateClosed reason\<rparr>, map (\<lambda>cb. RunCallback cb reason) (gateCallbacks g)))"

definition gate_on_close :: "nat \<Rightarrow> close_gate \<Rightarrow> close_gate \<times> gate_effect list" where
  "gate_on_close cb g =
     (case gateState g of
        GateClosed reason \<Rightarrow> (g, [RunCallback cb reason])
      | GateOpen \<Rightarrow> (g\<lparr>gateCallbacks := gateCallbacks g @ [cb]\<rparr>, []))"

text \<open>None is the exception of the source.\<close>

definition denied_send_reason :: "close_gate \<Rightarrow> string option" where
  "denied_send_reason g =
     (case gateState g of
        GateOpen \<Rightarrow> None
      | GateClosed None \<Rightarrow> Some ''transport closed''
      | GateClosed (Some r) \<Rightarrow> Some (''transport closed: '' @ r))"

datatype gate_op = GateDispatch "string option" | GateOnClose nat

fun gate_step :: "close_gate \<Rightarrow> gate_op \<Rightarrow> close_gate \<times> gate_effect list" where
  "gate_step g (GateDispatch reason) = gate_dispatch reason g"
| "gate_step g (GateOnClose cb) = gate_on_close cb g"

definition terminate_line :: "string \<Rightarrow> string" where
  "terminate_line command = (if drop (length command - 1) command = [LF] then command else command @ [LF])"

subsection \<open>Every call is settled exactly once\<close>

definition promises :: "'p outbox \<Rightarrow> 'p list" where
  "promises ob = map (callPromise \<circ> snd) (pendingCalls ob)"

definition unsent :: "'p outbox \<Rightarrow> client_frame list" where
  "unsent ob = map (callFrame \<circ> snd) (filter (\<lambda>e. \<not> transmitted (snd e)) (pendingCalls ob))"

fun settled_promise :: "'p outbox_effect \<Rightarrow> 'p option" where
  "settled_promise (ResolveCall q v) = Some q"
| "settled_promise (RejectCall q e) = Some q"
| "settled_promise e = None"

fun sent_frame :: "'p outbox_effect \<Rightarrow> client_frame option" where
  "sent_frame (Transmit f) = Some f"
| "sent_frame e = None"

fun enqueued :: "'p outbox_op \<Rightarrow> (string \<times> 'p \<times> client_frame) option" where
  "enqueued (Enqueue send callId m frame t q) = Some (callId, q, frame)"
| "enqueued op = None"

abbreviation settled :: "'p outbox_effect list \<Rightarrow> 'p list" where
  "settled effs \<equiv> List.map_filter settled_promise effs"

abbreviation sent :: "'p outbox_effect list \<Rightarrow> client_frame list" where
  "sent effs \<equiv> List.map_filter sent_frame effs"

definition outbox_inv :: "'p outbox \<Rightarrow> bool" where
  "outbox_inv ob \<longleftrightarrow> distinct (map fst (pendingCalls ob)) \<and> distinct (promises ob)
     \<and> callTimers ob = map (\<lambda>(callId, p). (callPromise p, callId)) (pendingCalls ob)"

definition fresh_op :: "'p outbox \<Rightarrow> 'p outbox_op \<Rightarrow> bool" where
  "fresh_op ob op = (case enqueued op of
      None \<Rightarrow> True
    | Some (callId, q, f) \<Rightarrow> callId \<notin> fst ` set (pendingCalls ob) \<and> q \<notin> set (promises ob))"


lemma map_filter_simps2 [simp]:
  "List.map_filter f [] = []"
  "List.map_filter f (x # xs) = (case f x of None \<Rightarrow> List.map_filter f xs | Some y \<Rightarrow> y # List.map_filter f xs)"
  "List.map_filter f (xs @ ys) = List.map_filter f xs @ List.map_filter f ys"
  by (simp_all add: List.map_filter_def split: option.splits)

definition added :: "('q \<Rightarrow> 'r) \<Rightarrow> 'q option \<Rightarrow> 'r list" where
  "added f q = (case q of None \<Rightarrow> [] | Some x \<Rightarrow> [f x])"

text \<open>One operation: the calls it takes in are those it settles and those it leaves.\<close>

definition balanced :: "'p outbox \<Rightarrow> 'p outbox_op \<Rightarrow> 'p outbox \<times> 'p outbox_effect list \<Rightarrow> bool" where
  "balanced ob op r \<longleftrightarrow>
     outbox_inv (fst r)
     \<and> mset (promises ob) + mset (added (fst \<circ> snd) (enqueued op)) = mset (settled (snd r)) + mset (promises (fst r))
     \<and> mset (sent (snd r)) + mset (unsent (fst r)) \<subseteq># mset (unsent ob) + mset (added (snd \<circ> snd) (enqueued op))
     \<and> fst ` set (pendingCalls (fst r)) \<subseteq> fst ` set (pendingCalls ob) \<union> set (added fst (enqueued op))"

lemma update_fresh: "k \<notin> fst ` set m \<Longrightarrow> AList.update k v m = m @ [(k, v)]"
  by (induction m) auto

lemma filter_key_split:
  "distinct (map fst m) \<Longrightarrow> map_of m k = Some v \<Longrightarrow>
   \<exists>a b. m = a @ (k, v) # b \<and> AList.delete k m = a @ b \<and> k \<notin> fst ` set (a @ b)"
proof (induction m)
  case (Cons e m)
  show ?case
  proof (cases "fst e = k")
    case True
    then have "k \<notin> fst ` set m" using Cons.prems by auto
    then have "AList.delete k m = m" by (simp add: delete_id)
    then show ?thesis using True Cons.prems \<open>k \<notin> fst ` set m\<close>
      by (intro exI [of _ "[]"] exI [of _ m]) (cases e; simp)
  next
    case False
    then obtain a b where "m = a @ (k, v) # b" "AList.delete k m = a @ b" "k \<notin> fst ` set (a @ b)"
      using Cons.IH Cons.prems by (cases e) auto
    then show ?thesis using False
      by (intro exI [of _ "e # a"] exI [of _ b]) (cases e; simp)
  qed
qed simp

lemma outbox_split:
  assumes "outbox_inv ob" and "map_of (pendingCalls ob) callId = Some p"
  obtains a b where "pendingCalls ob = a @ (callId, p) # b" "AList.delete callId (pendingCalls ob) = a @ b"
    "filter (\<lambda>t. fst t \<noteq> callPromise p) (callTimers ob) = map (\<lambda>(callId, p). (callPromise p, callId)) (a @ b)"
proof -
  obtain a b where ab: "pendingCalls ob = a @ (callId, p) # b" "AList.delete callId (pendingCalls ob) = a @ b"
    using filter_key_split [of "pendingCalls ob" callId p] assms by (auto simp: outbox_inv_def)
  let ?g = "\<lambda>(callId, p). (callPromise p, callId)"
  have "callPromise p \<notin> set (map (callPromise \<circ> snd) (a @ b))"
    using assms(1) ab(1) by (simp add: outbox_inv_def promises_def)
  then have notin: "callPromise p \<notin> (callPromise \<circ> snd) ` set (a @ b)"
    by (simp only: set_map simp_thms)
  have other: "callPromise (snd e) \<noteq> callPromise p" if "e \<in> set (a @ b)" for e
  proof
    assume "callPromise (snd e) = callPromise p"
    then have "callPromise p = (callPromise \<circ> snd) e" by simp
    with that notin show False by blast
  qed
  have "filter (\<lambda>t. fst t \<noteq> callPromise p) (map ?g xs) = map ?g xs" if "set xs \<subseteq> set (a @ b)" for xs
  proof (rule filter_True, rule ballI)
    fix t
    assume "t \<in> set (map ?g xs)"
    then obtain e where "e \<in> set xs" "fst t = callPromise (snd e)" by auto
    then show "fst t \<noteq> callPromise p" using other that by (metis subsetD)
  qed
  then have "filter (\<lambda>t. fst t \<noteq> callPromise p) (callTimers ob) = map ?g (a @ b)"
    using assms(1) ab(1) by (simp add: outbox_inv_def)
  then show ?thesis using that ab by blast
qed

text \<open>Taking one entry out and settling its promise keeps the balance.\<close>

lemma balanced_remove:
  assumes "outbox_inv ob" and "map_of (pendingCalls ob) callId = Some p"
    and "settled effs = [callPromise p]" and "sent effs = []" and "enqueued op = None"
  shows "balanced ob op
     (clear_call_timer p (ob\<lparr>pendingCalls := AList.delete callId (pendingCalls ob)\<rparr>), effs)"
proof -
  obtain a b where ab: "pendingCalls ob = a @ (callId, p) # b" "AList.delete callId (pendingCalls ob) = a @ b"
    "filter (\<lambda>t. fst t \<noteq> callPromise p) (callTimers ob) = map (\<lambda>(callId, p). (callPromise p, callId)) (a @ b)"
    using outbox_split [OF assms(1,2)] .
  have "outbox_inv (clear_call_timer p (ob\<lparr>pendingCalls := AList.delete callId (pendingCalls ob)\<rparr>))"
    using assms(1) ab by (simp add: outbox_inv_def clear_call_timer_def promises_def)
  then show ?thesis
    using ab assms(3-) by (auto simp: balanced_def clear_call_timer_def promises_def unsent_def added_def)
qed

lemma flush_calls_keep:
  "flush_calls send ps = (ps', effs) \<Longrightarrow>
     map fst ps' = map fst ps \<and> map (callPromise \<circ> snd) ps' = map (callPromise \<circ> snd) ps
     \<and> settled effs = []
     \<and> sent effs @ map (callFrame \<circ> snd) (filter (\<lambda>e. \<not> transmitted (snd e)) ps') =
       map (callFrame \<circ> snd) (filter (\<lambda>e. \<not> transmitted (snd e)) ps)"
proof (induction send ps arbitrary: ps' effs rule: flush_calls.induct)
  case (2 send callId p ps)
  show ?case
  proof (cases "flush_calls send ps")
    case (Pair qs effs')
    then show ?thesis using 2 by (auto simp: transmit_def Let_def split: if_splits)
  qed
qed simp


lemma drain_empties:
  assumes "outbox_inv ob"
  shows "fst (drain_outbox err ob) = new_outbox"
proof -
  have "foldl (\<lambda>ob (callId, p). clear_call_timer p (ob\<lparr>pendingCalls := AList.delete callId (pendingCalls ob)\<rparr>))
      ob ps = new_outbox" if "pendingCalls ob = ps" "outbox_inv ob" for ps
    using that
  proof (induction ps arbitrary: ob)
    case Nil
    then show ?case by (simp add: outbox_inv_def new_outbox_def)
  next
    case (Cons e ps)
    obtain callId p where e: "e = (callId, p)" by (cases e)
    let ?ob = "clear_call_timer p (ob\<lparr>pendingCalls := AList.delete callId (pendingCalls ob)\<rparr>)"
    have m: "map_of (pendingCalls ob) callId = Some p" using Cons.prems e by simp
    have "callId \<notin> fst ` set ps" using Cons.prems e by (auto simp: outbox_inv_def)
    then have del: "AList.delete callId (pendingCalls ob) = ps"
      using Cons.prems(1) e by (simp add: delete_id)
    have "outbox_inv ?ob"
      using balanced_remove [OF Cons.prems(2) m, of "[RejectCall (callPromise p) err]" "DrainCalls err"]
      by (simp add: balanced_def)
    then show ?case
      using Cons.IH [of ?ob] del e by (simp add: clear_call_timer_def)
  qed
  then show ?thesis using assms by (simp add: drain_outbox_def)
qed

lemma settled_drain [simp]:
  "settled (map (\<lambda>(callId, p). RejectCall (callPromise p) err) ps) = map (callPromise \<circ> snd) ps"
  "sent (map (\<lambda>(callId, p). RejectCall (callPromise p) err) ps) = []"
  by (induction ps) auto

lemma balanced_refl: "outbox_inv ob \<Longrightarrow> enqueued op = None \<Longrightarrow> balanced ob op (ob, [])"
  by (simp add: balanced_def added_def)

lemma map_of_timers:
  "outbox_inv ob \<Longrightarrow> map_of (callTimers ob) q = Some callId \<Longrightarrow>
   \<exists>p. map_of (pendingCalls ob) callId = Some p \<and> callPromise p = q"
  by (force simp: outbox_inv_def dest!: map_of_SomeD intro: map_of_is_SomeI)

lemma enqueue_balanced:
  assumes "outbox_inv ob" and "callId \<notin> fst ` set (pendingCalls ob)" and "q \<notin> set (promises ob)"
  shows "balanced ob (Enqueue send callId m f t q) (enqueue send callId m f t q ob)"
proof -
  obtain entry effs where tr:
      "transmit send \<lparr>callMethod = m, callFrame = f, callPromise = q, transmitted = False\<rparr> = (entry, effs)"
    by (cases "transmit send \<lparr>callMethod = m, callFrame = f, callPromise = q, transmitted = False\<rparr>")
  then have entry: "callPromise entry = q" "callFrame entry = f" "settled effs = []"
    "sent effs @ (if transmitted entry then [] else [f]) = [f]"
    by (auto simp: transmit_def split: if_splits)
  have "AList.update callId entry (pendingCalls ob) = pendingCalls ob @ [(callId, entry)]"
    using assms(2) by (rule update_fresh)
  then have e: "enqueue send callId m f t q ob =
      (ob\<lparr>pendingCalls := pendingCalls ob @ [(callId, entry)], callTimers := callTimers ob @ [(q, callId)]\<rparr>,
       ArmTimeout q t # effs)"
    using tr by (simp add: enqueue_def)
  show ?thesis
    unfolding e using assms entry
    by (cases "transmitted entry") (auto simp: balanced_def outbox_inv_def promises_def unsent_def added_def)
qed

lemma outbox_step_balanced:
  assumes "outbox_inv ob" and "fresh_op ob op"
  shows "balanced ob op (outbox_step ob op)"
proof (cases op)
  case (Enqueue send callId m f t q)
  with assms show ?thesis by (simp add: fresh_op_def enqueue_balanced)
next
  case (CallTimeout q)
  show ?thesis
  proof (cases "map_of (callTimers ob) q")
    case None
    then show ?thesis using CallTimeout assms by (simp add: call_timeout_def balanced_refl)
  next
    case (Some callId)
    obtain p where p: "map_of (pendingCalls ob) callId = Some p" "callPromise p = q"
      using map_of_timers [OF assms(1) Some] by (elim exE conjE)
    have "outbox_step ob op =
        (clear_call_timer p (ob\<lparr>pendingCalls := AList.delete callId (pendingCalls ob)\<rparr>),
         [RejectCall q (CodeError BRIDGE_TIMEOUT)])"
      using CallTimeout Some p by (simp add: call_timeout_def clear_call_timer_def)
    moreover have "balanced ob op (clear_call_timer p (ob\<lparr>pendingCalls := AList.delete callId (pendingCalls ob)\<rparr>),
         [RejectCall q (CodeError BRIDGE_TIMEOUT)])"
      by (rule balanced_remove [OF assms(1) p(1)]) (simp_all add: p(2) CallTimeout)
    ultimately show ?thesis by simp
  qed
next
  case (SettleCall frame)
  show ?thesis
  proof (cases "map_of (pendingCalls ob) (frame_id frame)")
    case None
    then show ?thesis using SettleCall assms by (simp add: settle_call_def balanced_refl)
  next
    case (Some p)
    let ?ob = "clear_call_timer p (ob\<lparr>pendingCalls := AList.delete (frame_id frame) (pendingCalls ob)\<rparr>)"
    have "\<exists>effs. outbox_step ob op = (?ob, effs) \<and> settled effs = [callPromise p] \<and> sent effs = []"
      using SettleCall Some by (cases frame) (simp_all add: settle_call_def Let_def)
    then obtain effs where r: "outbox_step ob op = (?ob, effs)" "settled effs = [callPromise p]" "sent effs = []"
      by (elim exE conjE)
    show ?thesis
      unfolding r(1) by (rule balanced_remove [OF assms(1) Some r(2,3)]) (simp add: SettleCall)
  qed
next
  case (FlushCalls send)
  obtain ps effs where fl: "flush_calls send (pendingCalls ob) = (ps, effs)"
    by (cases "flush_calls send (pendingCalls ob)")
  note keep = flush_calls_keep [OF fl]
  have timers: "map (\<lambda>(callId, p). (callPromise p, callId)) ps = map (\<lambda>(callId, p). (callPromise p, callId)) (pendingCalls ob)"
  proof -
    have "map (\<lambda>(callId, p). (callPromise p, callId)) xs = zip (map (callPromise \<circ> snd) xs) (map fst xs)"
      for xs :: "(string \<times> 'a pending_call) list"
      by (induction xs) auto
    then show ?thesis using keep by metis
  qed
  have keys: "fst ` set ps = fst ` set (pendingCalls ob)"
    using keep by (metis set_map)
  have sub: "mset (sent effs) + mset (unsent (ob\<lparr>pendingCalls := ps\<rparr>)) = mset (unsent ob)"
  proof -
    have "sent effs @ unsent (ob\<lparr>pendingCalls := ps\<rparr>) = unsent ob" using keep by (simp add: unsent_def)
    then show ?thesis by (metis mset_append)
  qed
  have "outbox_inv (ob\<lparr>pendingCalls := ps\<rparr>)" "promises (ob\<lparr>pendingCalls := ps\<rparr>) = promises ob"
    using keep timers assms(1) by (simp_all add: outbox_inv_def promises_def)
  then show ?thesis
    using FlushCalls fl keep keys sub by (simp add: flush_outbox_def balanced_def added_def)
next
  case (DrainCalls err)
  then show ?thesis
    using drain_empties [OF assms(1), of err]
    by (simp add: balanced_def drain_outbox_def outbox_inv_def promises_def unsent_def added_def new_outbox_def)
qed


lemma map_filter_Cons: "List.map_filter f (x # xs) = added id (f x) @ List.map_filter f xs"
  by (cases "f x") (simp_all add: added_def)

lemma added_id: "map f (added id e) = added f e"
  by (cases e) (simp_all add: added_def)

lemma mset_chain:
  fixes a :: "'a multiset"
  shows "a + b = c + d \<Longrightarrow> d + e = f + g \<Longrightarrow> a + (b + e) = (c + f) + g"
  by (metis add.assoc)

lemma outbox_run:
  assumes "outbox_inv ob"
    and "distinct (map fst (pendingCalls ob) @ map fst (List.map_filter enqueued ops))"
    and "distinct (promises ob @ map (fst \<circ> snd) (List.map_filter enqueued ops))"
  shows "let (ob', effs) = run_steps outbox_step ob ops; es = List.map_filter enqueued ops in
     outbox_inv ob'
     \<and> mset (promises ob) + mset (map (fst \<circ> snd) es) = mset (settled effs) + mset (promises ob')
     \<and> mset (sent effs) + mset (unsent ob') \<subseteq># mset (unsent ob) + mset (map (snd \<circ> snd) es)"
  using assms
proof (induction ops arbitrary: ob)
  case Nil
  then show ?case by simp
next
  case (Cons op ops)
  let ?ob = "fst (outbox_step ob op)" and ?o = "snd (outbox_step ob op)"
  have ks: "distinct (map fst (pendingCalls ob) @ added fst (enqueued op) @ map fst (List.map_filter enqueued ops))"
    and ps: "distinct (promises ob @ added (fst \<circ> snd) (enqueued op) @ map (fst \<circ> snd) (List.map_filter enqueued ops))"
    using Cons.prems(2,3) by (simp_all only: map_filter_Cons map_append added_id)
  have fresh: "fresh_op ob op"
    using ks ps by (cases "enqueued op") (simp_all add: fresh_op_def added_def split_beta)
  note b = outbox_step_balanced [OF Cons.prems(1) fresh, unfolded balanced_def]
  have keys: "set (map fst (pendingCalls ?ob)) \<subseteq> set (map fst (pendingCalls ob)) \<union> set (added fst (enqueued op))"
    using b by (simp only: set_map)
  have proms: "set (promises ?ob) \<subseteq> set (promises ob) \<union> set (added (fst \<circ> snd) (enqueued op))"
  proof -
    have "set_mset (mset (promises ob) + mset (added (fst \<circ> snd) (enqueued op))) =
        set_mset (mset (settled ?o) + mset (promises ?ob))"
      using b by simp
    then show ?thesis by (simp only: set_mset_union set_mset_mset) blast
  qed
  have d: "distinct (map fst (pendingCalls ?ob))" "distinct (promises ?ob)"
    using b by (simp_all add: outbox_inv_def)
  have dk: "distinct (map fst (pendingCalls ?ob) @ map fst (List.map_filter enqueued ops))"
    using ks keys d by (simp only: distinct_append set_append) blast
  have dp: "distinct (promises ?ob @ map (fst \<circ> snd) (List.map_filter enqueued ops))"
    using ps proms d by (simp only: distinct_append set_append) blast
  have "let (ob', effs) = run_steps outbox_step ?ob ops; es = List.map_filter enqueued ops in
     outbox_inv ob'
     \<and> mset (promises ?ob) + mset (map (fst \<circ> snd) es) = mset (settled effs) + mset (promises ob')
     \<and> mset (sent effs) + mset (unsent ob') \<subseteq># mset (unsent ?ob) + mset (map (snd \<circ> snd) es)"
    by (rule Cons.IH [OF conjunct1 [OF b] dk dp])
  then obtain ob' effs where r: "run_steps outbox_step ?ob ops = (ob', effs)" "outbox_inv ob'"
    "mset (promises ?ob) + mset (map (fst \<circ> snd) (List.map_filter enqueued ops)) = mset (settled effs) + mset (promises ob')"
    "mset (sent effs) + mset (unsent ob') \<subseteq># mset (unsent ?ob) + mset (map (snd \<circ> snd) (List.map_filter enqueued ops))"
    by (cases "run_steps outbox_step ?ob ops") (simp add: Let_def)
  have run: "run_steps outbox_step ob (op # ops) = (ob', ?o @ effs)"
    using r(1) by (simp add: prod_eq_iff)
  have p: "mset (promises ob) + mset (map (fst \<circ> snd) (List.map_filter enqueued (op # ops))) =
      mset (settled (?o @ effs)) + mset (promises ob')"
    unfolding map_filter_Cons [of enqueued] map_filter_simps2(3) map_append added_id mset_append
    by (rule mset_chain [OF _ r(3)]) (use b in blast)
  have "mset (sent ?o) + mset (sent effs) + mset (unsent ob') \<subseteq>#
      mset (sent ?o) + (mset (unsent ?ob) + mset (map (snd \<circ> snd) (List.map_filter enqueued ops)))"
    using r(4) by (simp add: ac_simps)
  also have "\<dots> \<subseteq># mset (unsent ob) + mset (added (snd \<circ> snd) (enqueued op)) + mset (map (snd \<circ> snd) (List.map_filter enqueued ops))"
    using b by (simp add: ac_simps subset_mset.add_mono)
  finally have "mset (sent (?o @ effs)) + mset (unsent ob') \<subseteq>#
      mset (unsent ob) + mset (map (snd \<circ> snd) (List.map_filter enqueued (op # ops)))"
    by (simp only: map_filter_Cons map_filter_simps2(3) map_append added_id mset_append ac_simps)
  with run p r(2) show ?case by (simp only: Let_def prod.case)
qed


definition calls_of :: "'p outbox_op list \<Rightarrow> (string \<times> 'p \<times> client_frame) list" where
  "calls_of ops = List.map_filter enqueued ops"

text \<open>
  C15. Every remote call is settled exactly once. Over any history of calls with ids and
  promises of their own, of results, timeouts, flushes and drains, in any order and whatever
  the socket accepts: each call is either settled, once, or still pending with its one timer
  armed; no frame goes out twice, not even across a reconnect; a result, a timeout or a drain
  for a call that is gone does nothing; and after a drain nothing is pending.
\<close>

theorem outbox_settles_once:
  assumes "distinct (map fst (calls_of ops))" and "distinct (map (fst \<circ> snd) (calls_of ops))"
  shows "let (ob, effs) = run_steps outbox_step new_outbox ops in
     mset (map (fst \<circ> snd) (calls_of ops)) = mset (settled effs @ promises ob)
     \<and> distinct (settled effs @ promises ob)
     \<and> map fst (callTimers ob) = promises ob
     \<and> mset (sent effs @ unsent ob) \<subseteq># mset (map (snd \<circ> snd) (calls_of ops))
     \<and> fst (drain_outbox err ob) = new_outbox"
proof -
  have i: "outbox_inv new_outbox" "promises new_outbox = []" "unsent new_outbox = []"
    "pendingCalls new_outbox = []"
    by (simp_all add: outbox_inv_def new_outbox_def promises_def unsent_def)
  obtain ob effs where r: "run_steps outbox_step new_outbox ops = (ob, effs)" by fastforce
  have "outbox_inv ob \<and> mset (map (fst \<circ> snd) (calls_of ops)) = mset (settled effs) + mset (promises ob)
     \<and> mset (sent effs) + mset (unsent ob) \<subseteq># mset (map (snd \<circ> snd) (calls_of ops))"
    using outbox_run [OF i(1), of ops] assms r unfolding calls_of_def i(2-4) Let_def
    by simp
  then have f: "outbox_inv ob" "mset (map (fst \<circ> snd) (calls_of ops)) = mset (settled effs @ promises ob)"
    "mset (sent effs @ unsent ob) \<subseteq># mset (map (snd \<circ> snd) (calls_of ops))"
    by (simp_all del: mset_map)
  have "distinct (settled effs @ promises ob)"
    using f(2) assms(2) by (metis distinct_count_atmost_1 mset_eq_setD)
  moreover have "map fst (callTimers ob) = promises ob"
    using f(1) by (simp add: outbox_inv_def promises_def comp_def case_prod_beta)
  ultimately show ?thesis
    using f r drain_empties by (simp only: Let_def prod.case simp_thms)
qed

theorem outbox_settles_once_witness:
  "let ops = [Enqueue (\<lambda>f. False) ''r1'' ''execute'' (CallFrame ''r1'' ''execute'' []) 10 (1 :: nat),
       Enqueue (\<lambda>f. True) ''r2'' ''execute'' (CallFrame ''r2'' ''execute'' []) 10 2,
       FlushCalls (\<lambda>f. True), CallTimeout 1, SettleCall (ResultOk ''r1'' (JObj []))] in
     distinct (settled (snd (run_steps outbox_step new_outbox ops)) @ promises (fst (run_steps outbox_step new_outbox ops)))"
proof -
  let ?ops = "[Enqueue (\<lambda>f. False) ''r1'' ''execute'' (CallFrame ''r1'' ''execute'' []) 10 (1 :: nat),
       Enqueue (\<lambda>f. True) ''r2'' ''execute'' (CallFrame ''r2'' ''execute'' []) 10 2,
       FlushCalls (\<lambda>f. True), CallTimeout 1, SettleCall (ResultOk ''r1'' (JObj []))]"
  have "distinct (map fst (calls_of ?ops))" "distinct (map (fst \<circ> snd) (calls_of ?ops))"
    by (simp_all add: calls_of_def)
  from outbox_settles_once [OF this, of "CodeError BRIDGE_CLOSED"] show ?thesis
    by (simp only: Let_def case_prod_beta)
qed


subsection \<open>The gate and the pump\<close>

fun first_reason :: "gate_op list \<Rightarrow> string option option" where
  "first_reason [] = None"
| "first_reason (GateDispatch r # ops) = Some r"
| "first_reason (op # ops) = first_reason ops"

fun registered :: "gate_op list \<Rightarrow> nat list" where
  "registered [] = []"
| "registered (GateOnClose cb # ops) = cb # registered ops"
| "registered (op # ops) = registered ops"

interpretation gate: terminal_steps gate_step "\<lambda>g. gateState g = GateClosed r"
proof unfold_locales
  fix g :: close_gate and op
  assume "gateState g = GateClosed r"
  then show "gateState (fst (gate_step g op)) = GateClosed r"
    by (cases op) (simp_all add: gate_dispatch_def gate_on_close_def)
qed

lemma gate_closed_run:
  "gateState g = GateClosed r \<Longrightarrow> snd (run_steps gate_step g ops) = map (\<lambda>cb. RunCallback cb r) (registered ops)"
proof (induction ops arbitrary: g)
  case (Cons op ops)
  then show ?case
    using gate.step_ended [of g r op]
    by (cases op) (simp_all add: gate_dispatch_def gate_on_close_def)
qed simp

text \<open>
  A close gate runs each callback exactly once, in the order of registration, with the reason
  of the first dispatch, whether the callback came before or after it.
\<close>

lemma gate_runs_once:
  "gateState g = GateOpen \<Longrightarrow>
   snd (run_steps gate_step g ops) =
     (case first_reason ops of
        None \<Rightarrow> []
      | Some r \<Rightarrow> map (\<lambda>cb. RunCallback cb r) (gateCallbacks g @ registered ops))"
proof (induction ops arbitrary: g)
  case (Cons op ops)
  then show ?case
    by (cases op) (simp_all add: gate_dispatch_def gate_on_close_def gate_closed_run split: option.splits)
qed simp

text \<open>No tracked call is stranded: whatever its id, a timer that will answer it is armed.\<close>

definition pump_ok :: "call_pump \<Rightarrow> bool" where
  "pump_ok p \<longleftrightarrow>
     (\<forall>callId timer since. map_of (pumpInflight p) callId = Some (timer, since) \<longrightarrow>
        map_of (pumpTimers p) timer = Some (callId, since))
     \<and> (\<forall>timer. map_of (pumpTimers p) timer \<noteq> None \<longrightarrow> timer < pumpNextTimer p)"

lemma map_of_filter_None: "map_of m k = None \<Longrightarrow> map_of (filter P m) k = None"
  by (induction m) (auto split: if_splits)

interpretation pump: invariant_steps pump_step pump_ok
proof unfold_locales
  fix p op
  assume ok: "pump_ok p"
  show "pump_ok (fst (pump_step p op))"
  proof (cases op)
    case (PumpTrack callId now)
    have "map_of (pumpTimers p) (pumpNextTimer p) = None"
      using ok unfolding pump_ok_def by (metis less_irrefl)
    then show ?thesis
      using ok PumpTrack by (auto simp: pump_ok_def pump_track_def Let_def map_of_append map_add_def
          less_Suc_eq split: option.splits if_splits)
  next
    case (PumpTimer timer)
    then show ?thesis
      using ok by (auto simp: pump_ok_def pump_timer_fires_def Let_def split: option.splits if_splits)
  next
    case (PumpComplete callId)
    then show ?thesis
      using ok by (auto simp: pump_ok_def pump_complete_def split: option.splits if_splits)
        (metis Pair_inject option.inject)
  next
    case PumpDrain
    have "map_of (filter P (pumpTimers p)) timer \<noteq> None \<Longrightarrow> timer < pumpNextTimer p" for P timer
      using ok map_of_filter_None [of "pumpTimers p" timer P] unfolding pump_ok_def by metis
    with PumpDrain show ?thesis by (simp add: pump_ok_def pump_drain_def)
  qed
qed

text \<open>
  The timers that are armed, and those no entry points to: a call whose id is used again while
  it is in flight leaves its timer behind.
\<close>

definition live_timers :: "call_pump \<Rightarrow> nat set" where
  "live_timers p = fst ` set (pumpTimers p)"

definition entry_timers :: "call_pump \<Rightarrow> nat set" where
  "entry_timers p = (fst \<circ> snd) ` set (pumpInflight p)"

definition stray_timers :: "call_pump \<Rightarrow> nat set" where
  "stray_timers p = live_timers p - entry_timers p"

definition pump_keyed :: "call_pump \<Rightarrow> bool" where
  "pump_keyed p \<longleftrightarrow> pump_ok p \<and> distinct (map fst (pumpInflight p))"

lemma finite_timers [simp]: "finite (live_timers p)" "finite (stray_timers p)" "finite (entry_timers p)"
  by (simp_all add: live_timers_def stray_timers_def entry_timers_def)

lemma new_pump_timers [simp]: "pump_keyed new_pump" "live_timers new_pump = {}" "stray_timers new_pump = {}"
  by (simp_all add: pump_keyed_def pump_ok_def new_pump_def live_timers_def stray_timers_def)

lemma card_live: "card (live_timers p) \<le> card (stray_timers p) + length (pumpInflight p)"
proof -
  have "card (live_timers p) \<le> card (stray_timers p \<union> entry_timers p)"
    by (rule card_mono) (auto simp: stray_timers_def)
  also have "\<dots> \<le> card (stray_timers p) + card (entry_timers p)" by (rule card_Un_le)
  also have "card (entry_timers p) \<le> length (pumpInflight p)"
    unfolding entry_timers_def by (metis List.finite_set card_image_le card_length le_trans)
  finally show ?thesis by simp
qed

lemma keyed_step: "pump_keyed p \<Longrightarrow> pump_keyed (fst (pump_step p op))"
  using pump.step_keeps [of p op]
  by (cases op) (auto simp: pump_keyed_def pump_track_def pump_timer_fires_def pump_complete_def pump_drain_def Let_def
      AList.distinct_update AList.distinct_delete split: option.split)

lemmas keyed_ops =
  keyed_step [where op = "PumpTrack callId now" for callId now, simplified]
  keyed_step [where op = "PumpTimer timer" for timer, simplified]
  keyed_step [where op = "PumpComplete callId" for callId, simplified]
  keyed_step [where op = PumpDrain, simplified]

lemma drained_timers [simp]:
  "pumpInflight (fst (pump_drain p)) = []" "stray_timers (fst (pump_drain p)) = stray_timers p"
  by (auto simp: pump_drain_def stray_timers_def live_timers_def entry_timers_def)

lemma entry_of: "distinct (map fst al) \<Longrightarrow> (k, v) \<in> set al \<longleftrightarrow> map_of al k = Some v"
  by (auto dest: map_of_is_SomeI map_of_SomeD)

lemma entries_without:
  assumes "map_of al k = Some (t, s)" and "distinct (map fst al)"
  shows "(fst \<circ> snd) ` set al \<subseteq> insert t ((fst \<circ> snd) ` set (AList.delete k al))"
    "(fst \<circ> snd) ` set al \<subseteq> insert t ((fst \<circ> snd) ` set (AList.update k v al))"
  using assms by (induction al) (auto simp: AList.delete_id split: if_splits)

lemma card_stray_le: "X \<subseteq> stray_timers p \<Longrightarrow> card X \<le> card (stray_timers p)"
  by (rule card_mono) simp_all

lemma track_timers:
  assumes "pump_keyed p"
  shows "length (pumpInflight (pump_track i now p)) + (if map_of (pumpInflight p) i = None then 0 else 1) =
      length (pumpInflight p) + 1"
    "card (stray_timers (pump_track i now p)) \<le>
      card (stray_timers p) + (if map_of (pumpInflight p) i = None then 0 else 1)"
proof -
  let ?n = "pumpNextTimer p" and ?q = "pump_track i now p"
  have live: "live_timers ?q = insert ?n (live_timers p)"
    by (auto simp: pump_track_def live_timers_def Let_def)
  have new: "?n \<in> entry_timers ?q"
    using entry_of [OF AList.distinct_update, of "pumpInflight p" i "(?n, now)" i "(?n, now)"] assms
    by (force simp: pump_track_def entry_timers_def Let_def pump_keyed_def)
  have len: "length (AList.update k v al) = (if map_of al k = None then Suc (length al) else length al)"
    for k v and al :: "(string \<times> nat \<times> int) list"
    by (induction al) auto
  show "length (pumpInflight ?q) + (if map_of (pumpInflight p) i = None then 0 else 1) = length (pumpInflight p) + 1"
    by (simp add: pump_track_def Let_def len)
  show "card (stray_timers ?q) \<le> card (stray_timers p) + (if map_of (pumpInflight p) i = None then 0 else 1)"
  proof (cases "map_of (pumpInflight p) i")
    case None
    then have "entry_timers ?q = insert ?n (entry_timers p)"
      by (simp add: pump_track_def entry_timers_def Let_def update_fresh map_of_eq_None_iff)
    then show ?thesis using None live by (auto simp: stray_timers_def intro: card_stray_le [unfolded stray_timers_def])
  next
    case (Some e)
    obtain t s where e: "e = (t, s)" by (cases e)
    have "entry_timers p \<subseteq> insert t (entry_timers ?q)"
      using entries_without(2) [OF Some [unfolded e]] assms
      by (simp add: pump_track_def entry_timers_def Let_def pump_keyed_def)
    then have "stray_timers ?q \<subseteq> insert t (stray_timers p)" using live new by (auto simp: stray_timers_def)
    then have "card (stray_timers ?q) \<le> card (insert t (stray_timers p))" by (simp add: card_mono)
    then show ?thesis using Some card_insert_le_m1 [of "Suc (card (stray_timers p))" "stray_timers p" t]
      by (simp add: card_insert_if split: if_splits)
  qed
qed

lemma complete_timers:
  assumes "pump_keyed p"
  shows "length (pumpInflight (fst (pump_complete i p))) \<le> length (pumpInflight p)"
    "card (stray_timers (fst (pump_complete i p))) \<le> card (stray_timers p)"
proof -
  show "length (pumpInflight (fst (pump_complete i p))) \<le> length (pumpInflight p)"
    by (simp add: pump_complete_def length_delete_le split: option.split)
  show "card (stray_timers (fst (pump_complete i p))) \<le> card (stray_timers p)"
  proof (cases "map_of (pumpInflight p) i")
    case (Some e)
    obtain t s where e: "e = (t, s)" by (cases e)
    have "entry_timers p \<subseteq> insert t (entry_timers (fst (pump_complete i p)))"
      using entries_without(1) [OF Some [unfolded e]] assms Some e
      by (simp add: pump_complete_def entry_timers_def pump_keyed_def)
    moreover have "live_timers (fst (pump_complete i p)) = live_timers p - {t}"
      using Some e by (auto simp: pump_complete_def live_timers_def AList.delete_eq)
    ultimately show ?thesis by (intro card_stray_le) (auto simp: stray_timers_def)
  qed (simp add: pump_complete_def)
qed

lemma fires_timers:
  assumes "pump_keyed p"
  shows "length (pumpInflight (fst (pump_timer_fires t p))) \<le> length (pumpInflight p)"
    "card (stray_timers (fst (pump_timer_fires t p))) \<le> card (stray_timers p)"
proof -
  let ?q = "fst (pump_timer_fires t p)"
  show "length (pumpInflight ?q) \<le> length (pumpInflight p)"
    by (simp add: pump_timer_fires_def Let_def length_delete_le split: option.split)
  show "card (stray_timers ?q) \<le> card (stray_timers p)"
  proof (cases "map_of (pumpTimers p) t")
    case timer: (Some f)
    obtain i since where f: "f = (i, since)" by (cases f)
    have live: "live_timers ?q = live_timers p - {t}"
      using timer f by (auto simp: pump_timer_fires_def Let_def live_timers_def AList.delete_eq)
    show ?thesis
    proof (cases "map_of (pumpInflight p) i")
      case None
      then have "entry_timers ?q = entry_timers p"
        using timer f by (simp add: pump_timer_fires_def Let_def entry_timers_def)
      with live show ?thesis by (intro card_stray_le) (auto simp: stray_timers_def)
    next
      case (Some e)
      obtain u s where e: "e = (u, s)" by (cases e)
      have ids: "entry_timers p \<subseteq> insert u (entry_timers ?q)"
        using entries_without(1) [OF Some [unfolded e]] assms timer f Some e
        by (simp add: pump_timer_fires_def Let_def entry_timers_def pump_keyed_def)
      show ?thesis
      proof (cases "u = t")
        case True
        with ids live show ?thesis by (intro card_stray_le) (auto simp: stray_timers_def)
      next
        case False
        have "t \<notin> entry_timers p"
        proof
          assume "t \<in> entry_timers p"
          then obtain j s' where "(j, t, s') \<in> set (pumpInflight p)" by (auto simp: entry_timers_def)
          then have j: "map_of (pumpInflight p) j = Some (t, s')"
            using assms by (simp add: pump_keyed_def)
          then have "map_of (pumpTimers p) t = Some (j, s')"
            using assms unfolding pump_keyed_def pump_ok_def by blast
          then have "j = i" using timer f by (metis Pair_inject option.inject)
          then show False using j Some e False by (metis Pair_inject option.inject)
        qed
        moreover have "t \<in> live_timers p"
          unfolding live_timers_def using map_of_SomeD [OF timer] by (rule rev_image_eqI) simp
        ultimately have t: "t \<in> stray_timers p" by (simp add: stray_timers_def)
        have "stray_timers ?q \<subseteq> insert u (stray_timers p - {t})"
          using ids live by (auto simp: stray_timers_def)
        then have "card (stray_timers ?q) \<le> card (insert u (stray_timers p - {t}))" by (simp add: card_mono)
        also have "\<dots> \<le> Suc (card (stray_timers p - {t}))" by (simp add: card_insert_if)
        also have "\<dots> = card (stray_timers p)" using t card_Suc_Diff1 [of "stray_timers p" t] by simp
        finally show ?thesis .
      qed
    qed
  qed (simp add: pump_timer_fires_def)
qed

text \<open>
  A call id that is used again while it is in flight: the older call's timer stays armed, no
  cleanup clears it, and when it fires it times out the newer call, with the older one's start.
\<close>

theorem reused_id_times_out_early:
  assumes "pump_keyed p" and "map_of (pumpInflight p) i = Some (timer, since)"
  shows "snd (pump_timer_fires timer (pump_track i now p)) = [PumpTimeout i since]"
    and "timer \<in> live_timers (fst (pump_drain (pump_track i now p)))"
proof -
  have t: "map_of (pumpTimers p) timer = Some (i, since)" "timer < pumpNextTimer p"
    using assms unfolding pump_keyed_def pump_ok_def by blast+
  let ?q = "pump_track i now p"
  have "map_of (pumpTimers ?q) timer = Some (i, since)" "map_of (pumpInflight ?q) i = Some (pumpNextTimer p, now)"
    using t by (simp_all add: pump_track_def Let_def map_of_append map_add_Some_iff AList.update_conv')
  then show "snd (pump_timer_fires timer ?q) = [PumpTimeout i since]"
    by (simp add: pump_timer_fires_def Let_def)
  have "timer \<notin> entry_timers ?q"
  proof
    assume "timer \<in> entry_timers ?q"
    then obtain j s where "(j, timer, s) \<in> set (pumpInflight ?q)" by (auto simp: entry_timers_def)
    then have j: "map_of (pumpInflight ?q) j = Some (timer, s)"
      using keyed_ops(1) [OF assms(1), of i now] by (simp add: pump_keyed_def)
    then have "j \<noteq> i" using t(2) \<open>map_of (pumpInflight ?q) i = _\<close> by auto
    then have "map_of (pumpInflight p) j = Some (timer, s)"
      using j by (simp add: pump_track_def Let_def AList.update_conv')
    then have "map_of (pumpTimers p) timer = Some (j, s)" using assms(1) unfolding pump_keyed_def pump_ok_def by blast
    then show False using t(1) \<open>j \<noteq> i\<close> by simp
  qed
  moreover have "timer \<in> live_timers ?q"
    unfolding live_timers_def using map_of_SomeD [OF \<open>map_of (pumpTimers ?q) timer = _\<close>] by (rule rev_image_eqI) simp
  ultimately have "timer \<in> stray_timers ?q" by (simp add: stray_timers_def)
  then have "timer \<in> stray_timers (fst (pump_drain ?q))" by simp
  then show "timer \<in> live_timers (fst (pump_drain ?q))" by (simp add: stray_timers_def)
qed

end
