(* ===== verification/ElectronMain.thy ===== *)
theory ElectronMain
  imports Bridge Calls
begin

section \<open>The Electron main process\<close>

text \<open>
  \<open>src/connectors/electron/main.ts\<close>, \<open>sender-registry.ts\<close>, \<open>invoke-pipeline.ts\<close> and
  \<open>sink.ts\<close>: one bridge over the tmux client that every renderer shares. A WebContents is a
  number, a call of \<open>ipcMain.handle\<close> is the number of its promise. Of a WebContents the model
  keeps what the code reads, \<open>isDestroyed()\<close>, and the \<open>destroyed\<close> listeners the code hung on
  it; of the client, the byte sinks attached to it. The ledgers count whole bytes: an
  acknowledgement of a fraction of a byte, which no renderer of the library sends, counts as
  its whole part. The promises of calls that finish without waiting are settled at once.
\<close>

subsection \<open>Messages\<close>

datatype ipc_message = IpcEvent emitter_message | IpcOutput jsnum "byte list"

datatype invoke_envelope =
    EnvelopeOk rpc_response
  | EnvelopeTmuxError command_response
  | EnvelopeBridgeError bridge_error_code

text \<open>\<open>parseAckMessage\<close> of \<open>types.ts\<close>.\<close>

definition parse_ack_message :: "json \<Rightarrow> bridge_error_code + jsnum \<times> rat" where
  "parse_ack_message raw =
     (case raw of
        JObj fs \<Rightarrow>
          (case (property ''paneId'' raw, property ''bytes'' raw) of
             (Some (JNum p), Some (JNum n)) \<Rightarrow>
               if p < 0 \<or> p \<notin> \<int> then Inl BRIDGE_INVALID_ARG
               else if n < 0 then Inl BRIDGE_INVALID_ARG
               else Inr (Num \<lfloor>p\<rfloor>, n)
           | _ \<Rightarrow> Inl BRIDGE_INVALID_ARG)
      | _ \<Rightarrow> Inl BRIDGE_INVALID_ARG)"

definition encode_envelope :: "bridge_outcome \<Rightarrow> invoke_envelope" where
  "encode_envelope outcome =
     (case outcome of
        OutcomeOk resp \<Rightarrow> EnvelopeOk resp
      | OutcomeTmuxError resp \<Rightarrow> EnvelopeTmuxError resp
      | OutcomeBridgeError code \<Rightarrow> EnvelopeBridgeError code)"

definition rpc_error_envelope :: "rpc_error_code \<Rightarrow> invoke_envelope" where
  "rpc_error_envelope code = EnvelopeBridgeError (map_rpc_code code)"

definition aborted_envelope :: invoke_envelope where
  "aborted_envelope = EnvelopeBridgeError BRIDGE_ABORTED"

subsection \<open>State\<close>

record sender =
  senderPeer :: peer
  isSubscribed :: bool
  pendingDispatches :: "nat list"
  detachBytes :: bool

record main_bridge =
  mainBridge :: bridge
  senders :: "(nat \<times> sender) list"
  destroyedContents :: "nat list"
  destroyedListeners :: "(nat \<times> peer) list"
  attachedSinks :: "(nat \<times> peer) list"
  forwardingEvents :: bool
  handlersInstalled :: bool
  abortedDispatches :: "nat list"
  handlerCalls :: "(nat \<times> nat) list"
  drains :: "(nat \<times> bool \<times> nat list) list"
  nextInvoke :: nat

datatype main_effect =
    SendIpc nat ipc_message
  | FromMainBridge bridge_effect
  | AttachBytes nat
  | DetachBytes nat
  | RunInvoke nat "rpc_response program option"
  | AnswerInvoke nat invoke_envelope
  | DrainResolved nat

definition wc_destroyed :: "nat \<Rightarrow> main_bridge \<Rightarrow> bool" where
  "wc_destroyed wc m \<longleftrightarrow> wc \<in> set (destroyedContents m)"

definition put_sender :: "nat \<Rightarrow> sender \<Rightarrow> main_bridge \<Rightarrow> main_bridge" where
  "put_sender wc s m = m\<lparr>senders := AList.update wc s (senders m)\<rparr>"

definition on_main_bridge :: "(bridge \<Rightarrow> bridge \<times> bridge_effect list) \<Rightarrow> main_bridge \<Rightarrow> main_bridge \<times> main_effect list" where
  "on_main_bridge f m = (let (b, effs) = f (mainBridge m) in (m\<lparr>mainBridge := b\<rparr>, map FromMainBridge effs))"

definition main_emit :: "main_effect list \<Rightarrow> main_bridge \<Rightarrow> main_bridge \<times> main_effect list" where
  "main_emit effs m = (m, effs)"

text \<open>
  \<open>claimed\<close> is whether the process's ipcMain already has a bridge. A refused configuration
  leaves it free for another try.
\<close>

definition create_main_bridge :: "bool \<Rightarrow> int option \<Rightarrow> int option \<Rightarrow> bool \<times> (bridge_error_code + main_bridge)" where
  "create_main_bridge claimed outputHigh outputLow =
     (if claimed then (True, Inl BRIDGE_ALREADY_REGISTERED)
      else case create_bridge outputHigh outputLow True of
        Inl e \<Rightarrow> (False, Inl e)
      | Inr b \<Rightarrow>
          (True, Inr \<lparr>mainBridge = b, senders = [], destroyedContents = [], destroyedListeners = [],
                      attachedSinks = [], forwardingEvents = True, handlersInstalled = True,
                      abortedDispatches = [], handlerCalls = [], drains = [], nextInvoke = 0\<rparr>))"

subsection \<open>The sender registry\<close>

definition get_or_create :: "nat \<Rightarrow> main_bridge \<Rightarrow> main_bridge \<times> sender option" where
  "get_or_create wc m =
     (case map_of (senders m) wc of
        Some s \<Rightarrow> (m, Some s)
      | None \<Rightarrow>
          if wc_destroyed wc m then (m, None)
          else case bridge_register_peer (mainBridge m) of
            Inl e \<Rightarrow> (m, None)
          | Inr (b, q) \<Rightarrow>
              let s = \<lparr>senderPeer = q, isSubscribed = False, pendingDispatches = [], detachBytes = False\<rparr> in
              (put_sender wc s (m\<lparr>mainBridge := b, destroyedListeners := destroyedListeners m @ [(wc, q)]\<rparr>), Some s))"

text \<open>\<open>register\<close>; \<open>st\<close> is the client's connection state, which the snapshot carries.\<close>

definition register_sender :: "nat \<Rightarrow> connection_state \<Rightarrow> main_bridge \<Rightarrow> main_bridge \<times> main_effect list" where
  "register_sender wc st m =
     (case get_or_create wc m of
        (m1, None) \<Rightarrow> (m1, [])
      | (m1, Some s) \<Rightarrow>
          let m2 = put_sender wc (s\<lparr>isSubscribed := True, detachBytes := True\<rparr>) m1;
              (m3, e) = (if detachBytes s then (m2, [])
                         else (m2\<lparr>attachedSinks := attachedSinks m2 @ [(wc, senderPeer s)]\<rparr>, [AttachBytes wc]))
          in (m3, e @ (if wc_destroyed wc m3 then [] else [SendIpc wc (IpcEvent (ConnectionStateMessage st))])))"

definition ack_sender :: "nat \<Rightarrow> json \<Rightarrow> main_bridge \<Rightarrow> main_bridge \<times> main_effect list" where
  "ack_sender wc arg m =
     (case map_of (senders m) wc of
        None \<Rightarrow> (m, [])
      | Some s \<Rightarrow>
          (case parse_ack_message arg of
             Inl e \<Rightarrow> (m, [])
           | Inr (p, n) \<Rightarrow> on_main_bridge (ack_output (senderPeer s) p \<lfloor>n\<rfloor>) m))"

definition teardown :: "nat \<Rightarrow> main_bridge \<Rightarrow> main_bridge \<times> main_effect list" where
  "teardown wc m =
     (case map_of (senders m) wc of
        None \<Rightarrow> (m, [])
      | Some s \<Rightarrow>
          before
            (\<lambda>m. (m\<lparr>senders := AList.delete wc (senders m),
                    destroyedListeners := filter (\<lambda>d. d \<noteq> (wc, senderPeer s)) (destroyedListeners m),
                    abortedDispatches := abortedDispatches m @ pendingDispatches s,
                    attachedSinks := (if detachBytes s then filter (\<lambda>d. d \<noteq> (wc, senderPeer s)) (attachedSinks m)
                                      else attachedSinks m)\<rparr>,
                  if detachBytes s then [DetachBytes wc] else []))
            (on_main_bridge (bridge_remove_peer (senderPeer s))) m)"

definition teardown_all :: "main_bridge \<Rightarrow> main_bridge \<times> main_effect list" where
  "teardown_all m = run_steps (\<lambda>m wc. teardown wc m) m (map fst (senders m))"

text \<open>The fan-out of an event to one renderer of the snapshot.\<close>

definition broadcast_to :: "emitter_message \<Rightarrow> main_bridge \<Rightarrow> nat \<times> sender \<Rightarrow> main_bridge \<times> main_effect list" where
  "broadcast_to ev m snapshot =
     (let (wc, s0) = snapshot; s = (case map_of (senders m) wc of Some s \<Rightarrow> s | None \<Rightarrow> s0) in
      if wc_destroyed wc m then teardown wc m
      else if \<not> isSubscribed s then (m, [])
      else if \<not> delivers_to (senderPeer s) (route_event ev) (mainBridge m) then (m, [])
      else (m, [SendIpc wc (IpcEvent ev)]))"

definition broadcast :: "emitter_message \<Rightarrow> main_bridge \<Rightarrow> main_bridge \<times> main_effect list" where
  "broadcast ev m =
     (if route_event ev = NoRoute then (m, []) else run_steps (broadcast_to ev) m (senders m))"

text \<open>\<open>WebContentsSink.write\<close>, and the sink each renderer attaches around it.\<close>

definition web_contents_write :: "nat \<Rightarrow> chunk \<Rightarrow> main_bridge \<Rightarrow> main_bridge \<times> main_effect list" where
  "web_contents_write wc msg m =
     (if wc_destroyed wc m then (m, []) else (m, [SendIpc wc (IpcOutput (chunkPane msg) (chunkData msg))]))"

definition renderer_sink_write :: "chunk \<Rightarrow> main_bridge \<Rightarrow> nat \<times> peer \<Rightarrow> main_bridge \<times> main_effect list" where
  "renderer_sink_write msg m wq =
     (let (wc, q) = wq in
      if wc_destroyed wc m then (m, [])
      else before (on_main_bridge (account_output q (chunkPane msg) (int (length (chunkData msg)))))
             (web_contents_write wc msg) m)"

definition dispatch_chunk :: "chunk \<Rightarrow> main_bridge \<Rightarrow> main_bridge \<times> main_effect list" where
  "dispatch_chunk msg m = run_steps (renderer_sink_write msg) m (attachedSinks m)"

subsection \<open>The invoke pipeline\<close>

text \<open>A call settles: it is answered, and a drain that waited for it alone resolves.\<close>

definition forget_call :: "nat \<Rightarrow> main_bridge \<Rightarrow> main_bridge \<times> main_effect list" where
  "forget_call task m =
     (let waiting = map (\<lambda>(d, timed, ts). (d, timed, filter (\<lambda>t. t \<noteq> task) ts)) (drains m) in
      (m\<lparr>handlerCalls := AList.delete task (handlerCalls m),
         drains := filter (\<lambda>(d, timed, ts). ts \<noteq> []) waiting\<rparr>,
       map (\<lambda>(d, timed, ts). DrainResolved d) (filter (\<lambda>(d, timed, ts). ts = []) waiting)))"

fun dispatch_invoke :: "nat \<Rightarrow> peer \<Rightarrow> bridge_call \<Rightarrow> main_bridge \<Rightarrow> main_bridge \<times> main_effect list" where
  "dispatch_invoke task q (ToSubscribe name what fmt) = on_main_bridge (bridge_subscribe q name what fmt)"
| "dispatch_invoke task q (ToUnsubscribe name) = on_main_bridge (bridge_unsubscribe q name)"
| "dispatch_invoke task q ToEnableCoverage = on_main_bridge (bridge_enable_layout q task)"
| "dispatch_invoke task q ToDisableCoverage = on_main_bridge (bridge_disable_layout q task)"
| "dispatch_invoke task q (ToClient prog) = main_emit [RunInvoke task prog]"

definition invoke_run :: "nat \<Rightarrow> int \<Rightarrow> json \<Rightarrow> main_bridge \<Rightarrow> main_bridge \<times> main_effect list" where
  "invoke_run wc now arg m0 =
     (let task = nextInvoke m0; m = m0\<lparr>nextInvoke := task + 1\<rparr> in
      case get_or_create wc m of
        (m1, None) \<Rightarrow> (m1, [AnswerInvoke task aborted_envelope])
      | (m1, Some s) \<Rightarrow>
          (case parse_rpc_request arg of
             Inl code \<Rightarrow> (m1, [AnswerInvoke task (rpc_error_envelope code)])
           | Inr req \<Rightarrow>
               dispatch_invoke task (senderPeer s) (run_bridge_dispatch (Num now) req)
                 (put_sender wc (s\<lparr>pendingDispatches := pendingDispatches s @ [task]\<rparr>)
                   (m1\<lparr>handlerCalls := handlerCalls m1 @ [(task, wc)]\<rparr>))))"

definition invoke_settled :: "nat \<Rightarrow> dispatch_error + rpc_response \<Rightarrow> main_bridge \<Rightarrow> main_bridge \<times> main_effect list" where
  "invoke_settled task answer m =
     (case map_of (handlerCalls m) task of
        None \<Rightarrow> (m, [])
      | Some wc \<Rightarrow>
          before
            (\<lambda>m. (case map_of (senders m) wc of
                    None \<Rightarrow> m
                  | Some s \<Rightarrow> put_sender wc (s\<lparr>pendingDispatches := filter (\<lambda>t. t \<noteq> task) (pendingDispatches s)\<rparr>) m,
                  [AnswerInvoke task
                     (if task \<in> set (abortedDispatches m) then aborted_envelope
                      else encode_envelope (dispatch_bridge_request answer))]))
            (forget_call task) m)"

definition drain_calls :: "nat \<Rightarrow> bool \<Rightarrow> main_bridge \<Rightarrow> main_bridge \<times> main_effect list" where
  "drain_calls d timed m =
     (if handlerCalls m = [] then (m, [DrainResolved d])
      else (m\<lparr>drains := drains m @ [(d, timed, map fst (handlerCalls m))]\<rparr>, []))"

definition drain_timeout :: "nat \<Rightarrow> main_bridge \<Rightarrow> main_bridge \<times> main_effect list" where
  "drain_timeout d m =
     (if (\<exists>(e, timed, ts) \<in> set (drains m). e = d \<and> timed)
      then (m\<lparr>drains := filter (\<lambda>(e, timed, ts). e \<noteq> d) (drains m)\<rparr>, [DrainResolved d]) else (m, []))"

subsection \<open>The handle and the process's events\<close>

definition dispose_main :: "main_bridge \<Rightarrow> main_bridge \<times> main_effect list" where
  "dispose_main =
     before (\<lambda>m. (m\<lparr>forwardingEvents := False, handlersInstalled := False\<rparr>, []))
       (before teardown_all (on_main_bridge bridge_dispose))"

datatype main_op =
    IpcRegister nat connection_state
  | IpcUnregister nat
  | IpcAck nat json
  | IpcInvoke nat int json
  | ContentsDies nat
  | ContentsDestroyed nat
  | ClientEmits emitter_message
  | ChunkArrives chunk
  | SinksEnded
  | InvokeSettled nat "dispatch_error + rpc_response"
  | BridgeAnswers bridge_op
  | Drain nat bool
  | DrainTimeout nat
  | DisposeMain

fun main_step :: "main_bridge \<Rightarrow> main_op \<Rightarrow> main_bridge \<times> main_effect list" where
  "main_step m (IpcRegister wc st) = (if handlersInstalled m then register_sender wc st m else (m, []))"
| "main_step m (IpcUnregister wc) = (if handlersInstalled m then teardown wc m else (m, []))"
| "main_step m (IpcAck wc arg) = (if handlersInstalled m then ack_sender wc arg m else (m, []))"
| "main_step m (IpcInvoke wc now arg) = (if handlersInstalled m then invoke_run wc now arg m else (m, []))"
| "main_step m (ContentsDies wc) = (m\<lparr>destroyedContents := set_add wc (destroyedContents m)\<rparr>, [])"
| "main_step m (ContentsDestroyed wc) =
     (let m1 = m\<lparr>destroyedContents := set_add wc (destroyedContents m),
                 destroyedListeners := filter (\<lambda>d. fst d \<noteq> wc) (destroyedListeners m)\<rparr> in
      if (\<exists>d \<in> set (destroyedListeners m). fst d = wc) then teardown wc m1 else (m1, []))"
| "main_step m (ClientEmits ev) = (if forwardingEvents m then broadcast ev m else (m, []))"
| "main_step m (ChunkArrives msg) = dispatch_chunk msg m"
| "main_step m SinksEnded = (m\<lparr>attachedSinks := []\<rparr>, [])"
| "main_step m (InvokeSettled task answer) = invoke_settled task answer m"
| "main_step m (BridgeAnswers op) =
     (if answers_bridge op then on_main_bridge (\<lambda>b. bridge_step b op) m else (m, []))"
| "main_step m (Drain d timed) = drain_calls d timed m"
| "main_step m (DrainTimeout d) = drain_timeout d m"
| "main_step m DisposeMain = dispose_main m"

subsection \<open>Every sender holds exactly what its teardown releases\<close>

declare map_of_eq_Some_iff [simp del] Some_eq_map_of_iff [simp del]

definition tokens_of :: "(sender \<Rightarrow> bool) \<Rightarrow> (nat \<Rightarrow> sender option) \<Rightarrow> (nat \<times> peer) set" where
  "tokens_of P M = {(wc, senderPeer s) | wc s. M wc = Some s \<and> P s}"

definition sender_tokens :: "main_bridge \<Rightarrow> (nat \<times> peer) set" where
  "sender_tokens m = tokens_of (\<lambda>s. True) (map_of (senders m))"

definition sink_tokens :: "main_bridge \<Rightarrow> (nat \<times> peer) set" where
  "sink_tokens m = tokens_of detachBytes (map_of (senders m))"

lemma tokens_mem: "(wc, q) \<in> tokens_of P M \<longleftrightarrow> (\<exists>s. M wc = Some s \<and> P s \<and> q = senderPeer s)"
  by (auto simp: tokens_of_def)

lemma tokens_del: "tokens_of P (M(wc := None)) = {x \<in> tokens_of P M. fst x \<noteq> wc}"
  by (auto simp: tokens_of_def)

lemma tokens_upd:
  "tokens_of P (M(wc \<mapsto> s)) = {x \<in> tokens_of P M. fst x \<noteq> wc} \<union> (if P s then {(wc, senderPeer s)} else {})"
  by (auto simp: tokens_of_def)

lemma tokens_absent: "M wc = None \<Longrightarrow> {x \<in> tokens_of P M. fst x \<noteq> wc} = tokens_of P M"
  by (auto simp: tokens_mem)

lemma tokens_present: "M wc = Some s \<Longrightarrow> {x \<in> tokens_of P M. fst x \<noteq> wc} = tokens_of P M - {(wc, senderPeer s)}"
  by (auto simp: tokens_mem)

lemmas token_defs = sender_tokens_def sink_tokens_def

definition senders_ok :: "main_bridge \<Rightarrow> bool" where
  "senders_ok m \<longleftrightarrow>
     bridge_ok (mainBridge m)
     \<and> distinct (map fst (senders m))
     \<and> peers_of (mainBridge m) = snd ` sender_tokens m
     \<and> inj_on snd (sender_tokens m)
     \<and> set (destroyedListeners m) = sender_tokens m \<and> distinct (destroyedListeners m)
     \<and> distinct (attachedSinks m) \<and> set (attachedSinks m) \<subseteq> sink_tokens m"

text \<open>The operations that leave the roster of the bridge alone.\<close>

fun keeps_roster :: "bridge_op \<Rightarrow> bool" where
  "keeps_roster BridgeRegister = False"
| "keeps_roster (BridgeRemove q) = False"
| "keeps_roster BridgeDispose = False"
| "keeps_roster op = True"

lemma bridge_roster_kept: "bridge_ok b \<Longrightarrow> keeps_roster op \<Longrightarrow> peers_of (fst (bridge_step b op)) = peers_of b"
  by (cases op) (auto simp: bridge_ok_def peers_of_def bridge_subscribe_def bridge_unsubscribe_def bridge_enable_layout_def
    bridge_disable_layout_def account_output_def ack_output_def clear_peer_outstanding_def
    simp del: sub_step.simps flow_step.simps cov_step_fn.simps split: option.split)

lemma answers_keep_roster: "answers_bridge op \<Longrightarrow> keeps_roster op"
  by (cases op) simp_all

lemma fst_on_main [simp]: "fst (on_main_bridge f m) = m\<lparr>mainBridge := fst (f (mainBridge m))\<rparr>"
  by (simp add: on_main_bridge_def case_prod_beta)

lemma on_roster_ok:
  assumes "senders_ok m" and "keeps_roster op"
  shows "senders_ok (fst (on_main_bridge (\<lambda>b. bridge_step b op) m))"
proof -
  have "bridge_ok (fst (bridge_step (mainBridge m) op))"
    "peers_of (fst (bridge_step (mainBridge m) op)) = peers_of (mainBridge m)"
    using assms bridge_step_ok bridge_roster_kept unfolding senders_ok_def by blast+
  moreover have "sender_tokens (m\<lparr>mainBridge := b\<rparr>) = sender_tokens m" "sink_tokens (m\<lparr>mainBridge := b\<rparr>) = sink_tokens m" for b
    by (simp_all add: token_defs)
  ultimately show ?thesis using assms(1) by (simp add: senders_ok_def del: bridge_step.simps)
qed

lemma ledger_calls_ok:
  assumes "senders_ok m"
  shows "senders_ok (fst (on_main_bridge (ack_output q p n) m))"
    "senders_ok (fst (on_main_bridge (account_output q p n) m))"
    "senders_ok (fst (dispatch_invoke task q call m))"
proof -
  note on = on_roster_ok [OF assms]
  show "senders_ok (fst (on_main_bridge (ack_output q p n) m))"
    using on [of "BridgeAck q p n"] by simp
  show "senders_ok (fst (on_main_bridge (account_output q p n) m))"
    using on [of "BridgeAccount q p n"] by simp
  show "senders_ok (fst (dispatch_invoke task q call m))"
    using assms on [of "BridgeEnable q task"] on [of "BridgeDisable q task"]
      on [of "BridgeSubscribe q a b c" for a b c] on [of "BridgeUnsubscribe q a" for a]
    by (cases call) (simp_all add: main_emit_def)
qed

text \<open>Changes to a sender that keep its token, and its sink.\<close>

lemma put_sender_ok:
  assumes "senders_ok m" and "map_of (senders m) wc = Some s" and "senderPeer s' = senderPeer s"
    and "detachBytes s \<Longrightarrow> detachBytes s'"
  shows "senders_ok (put_sender wc s' m)" and "sender_tokens (put_sender wc s' m) = sender_tokens m"
proof -
  show t: "sender_tokens (put_sender wc s' m) = sender_tokens m"
    using assms(2,3) by (auto simp: token_defs put_sender_def tokens_upd tokens_present tokens_mem)
  have "sink_tokens m \<subseteq> sink_tokens (put_sender wc s' m)"
    using assms(2-4) by (auto simp: token_defs put_sender_def tokens_upd tokens_mem)
  moreover have "mainBridge (put_sender wc s' m) = mainBridge m" "attachedSinks (put_sender wc s' m) = attachedSinks m"
    "destroyedListeners (put_sender wc s' m) = destroyedListeners m"
    "distinct (map fst (senders m)) \<Longrightarrow> distinct (map fst (senders (put_sender wc s' m)))"
    by (simp_all add: put_sender_def distinct_update)
  ultimately show "senders_ok (put_sender wc s' m)"
    using assms(1) t unfolding senders_ok_def by auto
qed

lemma fresh_sender:
  assumes "senders_ok m" and "map_of (senders m) wc = None" and "\<not> wc_destroyed wc m"
  obtains b where "bridge_ok b" and "peers_of b = insert (nextPeerId (mainBridge m)) (peers_of (mainBridge m))"
    and "nextPeerId (mainBridge m) \<notin> peers_of (mainBridge m)"
    and "get_or_create wc m =
      (let s = \<lparr>senderPeer = nextPeerId (mainBridge m), isSubscribed = False, pendingDispatches = [], detachBytes = False\<rparr> in
       (put_sender wc s (m\<lparr>mainBridge := b, destroyedListeners := destroyedListeners m @ [(wc, nextPeerId (mainBridge m))]\<rparr>), Some s))"
proof -
  have "bridge_ok (mainBridge m)" using assms(1) by (simp add: senders_ok_def)
  then obtain b where "bridge_register_peer (mainBridge m) = Inr (b, nextPeerId (mainBridge m))" "bridge_ok b"
    "peers_of b = insert (nextPeerId (mainBridge m)) (peers_of (mainBridge m))" "nextPeerId (mainBridge m) \<notin> peers_of (mainBridge m)"
    by (rule bridge_register_ok)
  then show ?thesis using assms(2,3) by (intro that [of b]) (simp_all add: get_or_create_def)
qed

lemma get_or_create_ok:
  assumes "senders_ok m"
  shows "senders_ok (fst (get_or_create wc m))"
    and "snd (get_or_create wc m) = Some s \<Longrightarrow> map_of (senders (fst (get_or_create wc m))) wc = Some s"
proof -
  consider "map_of (senders m) wc = None" "\<not> wc_destroyed wc m" | s where "map_of (senders m) wc = Some s"
    | "map_of (senders m) wc = None" "wc_destroyed wc m" by (cases "map_of (senders m) wc") auto
  then have "senders_ok (fst (get_or_create wc m)) \<and>
    (snd (get_or_create wc m) = Some s \<longrightarrow> map_of (senders (fst (get_or_create wc m))) wc = Some s)"
  proof cases
    case 1
    let ?q = "nextPeerId (mainBridge m)" and ?m = "fst (get_or_create wc m)"
    obtain b where b: "bridge_ok b" "peers_of b = insert ?q (peers_of (mainBridge m))" "?q \<notin> peers_of (mainBridge m)"
      "get_or_create wc m =
        (let s = \<lparr>senderPeer = ?q, isSubscribed = False, pendingDispatches = [], detachBytes = False\<rparr> in
         (put_sender wc s (m\<lparr>mainBridge := b, destroyedListeners := destroyedListeners m @ [(wc, ?q)]\<rparr>), Some s))"
      using fresh_sender [OF assms 1] by blast
    have t: "sender_tokens ?m = insert (wc, ?q) (sender_tokens m)" "sink_tokens ?m = sink_tokens m"
      using 1(1) b(4) by (simp_all add: token_defs put_sender_def Let_def tokens_upd tokens_absent)
    have fresh: "(w, ?q) \<notin> sender_tokens m" for w
      using assms b(3) unfolding senders_ok_def by (metis imageI snd_conv)
    have "mainBridge ?m = b" "attachedSinks ?m = attachedSinks m" "destroyedListeners ?m = destroyedListeners m @ [(wc, ?q)]"
      "distinct (map fst (senders m)) \<Longrightarrow> distinct (map fst (senders ?m))"
      using b(4) by (simp_all add: put_sender_def Let_def distinct_update)
    then have "senders_ok ?m" using assms b(1,2) t fresh unfolding senders_ok_def by auto
    then show ?thesis using b(4) by (auto simp: put_sender_def Let_def)
  qed (use assms in \<open>simp_all add: get_or_create_def\<close>)
  then show "senders_ok (fst (get_or_create wc m))"
    "snd (get_or_create wc m) = Some s \<Longrightarrow> map_of (senders (fst (get_or_create wc m))) wc = Some s" by blast+
qed

lemma teardown_parts:
  assumes "senders_ok m" and "map_of (senders m) wc = Some s"
  shows "mainBridge (fst (teardown wc m)) = fst (bridge_remove_peer (senderPeer s) (mainBridge m))"
    and "senders (fst (teardown wc m)) = AList.delete wc (senders m)"
    and "sender_tokens (fst (teardown wc m)) = sender_tokens m - {(wc, senderPeer s)}"
    and "sink_tokens (fst (teardown wc m)) = sink_tokens m - {(wc, senderPeer s)}"
    and "set (destroyedListeners (fst (teardown wc m))) = set (destroyedListeners m) - {(wc, senderPeer s)}"
    and "set (attachedSinks (fst (teardown wc m))) = set (attachedSinks m) - {(wc, senderPeer s)}"
proof -
  have t: "fst (teardown wc m) = m\<lparr>senders := AList.delete wc (senders m),
      destroyedListeners := filter (\<lambda>d. d \<noteq> (wc, senderPeer s)) (destroyedListeners m),
      abortedDispatches := abortedDispatches m @ pendingDispatches s,
      attachedSinks := (if detachBytes s then filter (\<lambda>d. d \<noteq> (wc, senderPeer s)) (attachedSinks m) else attachedSinks m),
      mainBridge := fst (bridge_remove_peer (senderPeer s) (mainBridge m))\<rparr>"
    using assms(2) by (simp add: teardown_def)
  have "\<not> detachBytes s \<Longrightarrow> (wc, senderPeer s) \<notin> set (attachedSinks m)"
    using assms by (auto simp: senders_ok_def token_defs tokens_mem)
  then show "set (attachedSinks (fst (teardown wc m))) = set (attachedSinks m) - {(wc, senderPeer s)}"
    by (auto simp: t)
  show "mainBridge (fst (teardown wc m)) = fst (bridge_remove_peer (senderPeer s) (mainBridge m))"
    "senders (fst (teardown wc m)) = AList.delete wc (senders m)"
    "sender_tokens (fst (teardown wc m)) = sender_tokens m - {(wc, senderPeer s)}"
    "sink_tokens (fst (teardown wc m)) = sink_tokens m - {(wc, senderPeer s)}"
    "set (destroyedListeners (fst (teardown wc m))) = set (destroyedListeners m) - {(wc, senderPeer s)}"
    by (auto simp: t token_defs tokens_del tokens_present [where M = "map_of (senders m)", OF assms(2)])
qed

lemma teardown_ok:
  assumes "senders_ok m"
  shows "senders_ok (fst (teardown wc m))"
proof (cases "map_of (senders m) wc")
  case (Some s)
  have "(wc, senderPeer s) \<in> sender_tokens m" using Some by (auto simp: token_defs tokens_mem)
  moreover have inj: "inj_on snd (sender_tokens m)" using assms by (simp add: senders_ok_def)
  ultimately have "snd ` (sender_tokens m - {(wc, senderPeer s)}) = snd ` sender_tokens m - {senderPeer s}"
    using inj_on_image_set_diff [of snd "sender_tokens m" "sender_tokens m" "{(wc, senderPeer s)}"] by simp
  moreover have "inj_on snd (sender_tokens m - {(wc, senderPeer s)})"
    using inj by (rule inj_on_subset) blast
  moreover have "distinct (destroyedListeners (fst (teardown wc m)))" "distinct (attachedSinks (fst (teardown wc m)))"
    using assms Some by (simp_all add: teardown_def senders_ok_def)
  ultimately show ?thesis
    using assms teardown_parts [OF assms Some] bridge_remove_ok [of "mainBridge m" "senderPeer s"]
    unfolding senders_ok_def by (auto simp: distinct_delete)
qed (simp add: teardown_def assms)

lemma senders_ok_frame:
  assumes "senders_ok m" and "mainBridge m' = mainBridge m" and "senders m' = senders m"
    and "destroyedListeners m' = destroyedListeners m" and "set (attachedSinks m') \<subseteq> set (attachedSinks m)"
    and "distinct (attachedSinks m')"
  shows "senders_ok m'"
  using assms by (auto simp: senders_ok_def token_defs)

lemma senders_ok_other [simp]:
  "senders_ok (m\<lparr>destroyedContents := x\<rparr>) = senders_ok m"
  "senders_ok (m\<lparr>forwardingEvents := b\<rparr>) = senders_ok m"
  "senders_ok (m\<lparr>handlersInstalled := b\<rparr>) = senders_ok m"
  "senders_ok (m\<lparr>handlerCalls := c\<rparr>) = senders_ok m"
  "senders_ok (m\<lparr>drains := d\<rparr>) = senders_ok m"
  "senders_ok (m\<lparr>nextInvoke := n\<rparr>) = senders_ok m"
  by (simp_all add: senders_ok_def token_defs)

lemma fst_before_ok:
  "senders_ok (fst (f m)) \<Longrightarrow> (\<And>m. senders_ok m \<Longrightarrow> senders_ok (fst (g m))) \<Longrightarrow> senders_ok (fst (before f g m))"
  by simp

lemma register_sender_ok:
  assumes "senders_ok m"
  shows "senders_ok (fst (register_sender wc st m))"
proof -
  obtain m1 r where g: "get_or_create wc m = (m1, r)" by (cases "get_or_create wc m")
  have m1: "senders_ok m1" using get_or_create_ok(1) [OF assms, of wc] g by simp
  show ?thesis
  proof (cases r)
    case (Some s)
    have s: "map_of (senders m1) wc = Some s"
      using get_or_create_ok(2) [OF assms, of wc s] g Some by simp
    let ?s = "s\<lparr>isSubscribed := True, detachBytes := True\<rparr>"
    have m2: "senders_ok (put_sender wc ?s m1)" by (rule put_sender_ok(1) [OF m1 s]) simp_all
    have "senders_ok ((put_sender wc ?s m1)\<lparr>attachedSinks := attachedSinks m1 @ [(wc, senderPeer s)]\<rparr>)"
      if "\<not> detachBytes s"
    proof -
      have "(wc, senderPeer s) \<notin> set (attachedSinks m1)"
        using m1 s that by (auto simp: senders_ok_def token_defs tokens_mem)
      moreover have "(wc, senderPeer s) \<in> sink_tokens (put_sender wc ?s m1)"
        by (simp add: token_defs tokens_mem put_sender_def)
      moreover have "attachedSinks (put_sender wc ?s m1) = attachedSinks m1" by (simp add: put_sender_def)
      ultimately show ?thesis using m2 unfolding senders_ok_def by (simp add: token_defs)
    qed
    moreover have "attachedSinks (put_sender wc ?s m1) = attachedSinks m1" by (simp add: put_sender_def)
    ultimately show ?thesis using m2 g Some by (simp add: register_sender_def Let_def)
  qed (use g m1 in \<open>simp add: register_sender_def\<close>)
qed

interpretation fanout: invariant_steps "broadcast_to ev" senders_ok
  by unfold_locales (simp add: broadcast_to_def Let_def case_prod_beta teardown_ok)

interpretation rendering: invariant_steps "renderer_sink_write msg" senders_ok
  by unfold_locales (use ledger_calls_ok(2) in \<open>simp add: renderer_sink_write_def web_contents_write_def Let_def case_prod_beta\<close>)

interpretation clearing: invariant_steps "\<lambda>m wc. teardown wc m" senders_ok
  by unfold_locales (rule teardown_ok)

lemma invoke_run_ok:
  assumes "senders_ok m"
  shows "senders_ok (fst (invoke_run wc now arg m))"
proof -
  let ?m = "m\<lparr>nextInvoke := nextInvoke m + 1\<rparr>"
  obtain m1 r where g: "get_or_create wc ?m = (m1, r)" by (cases "get_or_create wc ?m")
  have m1: "senders_ok m1" using get_or_create_ok(1) [of ?m wc] assms g by simp
  have "senders_ok (put_sender wc (s\<lparr>pendingDispatches := p\<rparr>) (m1\<lparr>handlerCalls := h\<rparr>))" if "r = Some s" for s p h
    using get_or_create_ok(2) [of ?m wc s] assms g m1 that
    by (intro put_sender_ok(1) [where s = s]) simp_all
  then show ?thesis
    using g m1 ledger_calls_ok(3)
    by (simp add: invoke_run_def Let_def split: option.split sum.split)
qed

lemma invoke_settled_ok: "senders_ok m \<Longrightarrow> senders_ok (fst (invoke_settled task ans m))"
  using put_sender_ok(1)
  by (auto simp: invoke_settled_def forget_call_def Let_def split: option.split)

lemma teardown_all_senders:
  "senders (fst (run_steps (\<lambda>m wc. teardown wc m) m wcs)) = filter (\<lambda>p. fst p \<notin> set wcs) (senders m)"
proof (induction wcs arbitrary: m)
  case (Cons wc wcs)
  have "senders (fst (teardown wc m)) = AList.delete wc (senders m)"
  proof (cases "map_of (senders m) wc")
    case None
    then have "wc \<notin> fst ` set (senders m)" by (metis map_of_eq_None_iff)
    with None show ?thesis by (simp add: teardown_def delete_id)
  qed (simp add: teardown_def)
  then show ?case by (auto simp: Cons.IH AList.delete_eq case_prod_beta intro!: filter_cong)
qed simp

lemma dispose_main_ok:
  assumes "senders_ok m"
  shows "senders_ok (fst (dispose_main m))" and "senders (fst (dispose_main m)) = []"
    and "peers_of (mainBridge (fst (dispose_main m))) = {}"
proof -
  define m1 where "m1 = fst (run_steps (\<lambda>m wc. teardown wc m) (m\<lparr>forwardingEvents := False, handlersInstalled := False\<rparr>)
    (map fst (senders m)))"
  have m1: "senders_ok m1" unfolding m1_def by (rule clearing.run_keeps) (simp add: assms)
  have s: "senders m1 = []" by (simp add: m1_def teardown_all_senders filter_empty_conv)
  have d: "fst (dispose_main m) = m1\<lparr>mainBridge := fst (bridge_dispose (mainBridge m1))\<rparr>"
    by (simp add: dispose_main_def teardown_all_def m1_def)
  show "senders (fst (dispose_main m)) = []" using s by (simp add: d)
  have b: "bridge_ok (fst (bridge_dispose (mainBridge m1)))" "peers_of (fst (bridge_dispose (mainBridge m1))) = {}"
    using bridge_dispose_ok m1 by (simp_all add: senders_ok_def)
  then show "peers_of (mainBridge (fst (dispose_main m))) = {}" by (simp add: d)
  show "senders_ok (fst (dispose_main m))"
    using m1 s b by (simp add: d senders_ok_def token_defs tokens_of_def)
qed

interpretation main: invariant_steps main_step senders_ok
proof unfold_locales
  fix m op
  assume ok: "senders_ok m"
  show "senders_ok (fst (main_step m op))"
  proof (cases op)
    case (IpcRegister wc st)
    then show ?thesis using ok register_sender_ok by simp
  next
    case (IpcUnregister wc)
    then show ?thesis using ok teardown_ok by simp
  next
    case (IpcAck wc arg)
    then show ?thesis
      using ok ledger_calls_ok(1) by (simp add: ack_sender_def split: option.split sum.split)
  next
    case (IpcInvoke wc now arg)
    then show ?thesis using ok invoke_run_ok by simp
  next
    case (ContentsDies wc)
    then show ?thesis using ok by simp
  next
    case (ContentsDestroyed wc)
    let ?m1 = "m\<lparr>destroyedContents := set_add wc (destroyedContents m),
                 destroyedListeners := filter (\<lambda>d. fst d \<noteq> wc) (destroyedListeners m)\<rparr>"
    show ?thesis
    proof (cases "map_of (senders m) wc")
      case None
      then have "filter (\<lambda>d. fst d \<noteq> wc) (destroyedListeners m) = destroyedListeners m" "teardown wc ?m1 = (?m1, [])"
        using ok by (auto simp: filter_id_conv senders_ok_def token_defs tokens_mem teardown_def)
      then show ?thesis using ContentsDestroyed ok by (simp add: Let_def)
    next
      case (Some s)
      have mem: "d \<in> set (destroyedListeners m) \<Longrightarrow> (fst d \<noteq> wc) = (d \<noteq> (wc, senderPeer s))" for d
        using ok Some by (cases d) (auto simp: senders_ok_def token_defs tokens_mem)
      have "\<exists>d \<in> set (destroyedListeners m). fst d = wc"
        using ok Some by (auto simp: senders_ok_def token_defs intro!: bexI [of _ "(wc, senderPeer s)"]) (simp add: tokens_mem)
      then have "fst (main_step m op) = (fst (teardown wc m))\<lparr>destroyedContents := set_add wc (destroyedContents m)\<rparr>"
        using ContentsDestroyed Some mem by (simp add: teardown_def Let_def cong: filter_cong)
      then show ?thesis using teardown_ok [OF ok] by simp
    qed
  next
    case (ClientEmits ev)
    then show ?thesis using ok fanout.run_keeps by (simp add: broadcast_def)
  next
    case (ChunkArrives msg)
    then show ?thesis using ok rendering.run_keeps by (simp add: dispatch_chunk_def)
  next
    case SinksEnded
    then show ?thesis using senders_ok_frame [OF ok] by simp
  next
    case (InvokeSettled task ans)
    then show ?thesis using ok invoke_settled_ok by simp
  next
    case (BridgeAnswers bop)
    then show ?thesis using ok on_roster_ok answers_keep_roster by (simp del: fst_on_main bridge_step.simps)
  next
    case (Drain d timed)
    then show ?thesis using ok by (simp add: drain_calls_def)
  next
    case (DrainTimeout d)
    then show ?thesis using ok by (simp add: drain_timeout_def)
  next
    case DisposeMain
    then show ?thesis using ok dispose_main_ok by simp
  qed
qed

lemma create_main_ok: "snd (create_main_bridge claimed h l) = Inr m \<Longrightarrow> senders_ok m \<and> handlerCalls m = [] \<and> nextInvoke m = 0"
  using create_bridge_ok
  by (auto simp: create_main_bridge_def senders_ok_def token_defs tokens_of_def split: if_splits sum.splits)

text \<open>
  C30. A renderer leaves nothing behind. Over any history of registrations, invocations,
  acknowledgements, events, chunks and destroyed contents: the bridge's peers are exactly the
  known renderers, each with one \<open>destroyed\<close> listener and at most one byte sink; once a
  renderer is torn down none of these is left and tearing it down again does nothing; and
  disposal leaves no renderer, listener, sink or peer.
\<close>

theorem renderers_fully_released:
  "case snd (create_main_bridge claimed outputHigh outputLow) of Inl e \<Rightarrow> True | Inr m0 \<Rightarrow>
     let m = fst (run_steps main_step m0 ops); gone = fst (teardown wc m); shut = fst (dispose_main m) in
     set (destroyedListeners m) = sender_tokens m \<and> distinct (destroyedListeners m)
     \<and> peers_of (mainBridge m) = snd ` sender_tokens m \<and> inj_on snd (sender_tokens m)
     \<and> set (attachedSinks m) \<subseteq> sink_tokens m \<and> distinct (attachedSinks m)
     \<and> map_of (senders gone) wc = None
     \<and> wc \<notin> fst ` set (destroyedListeners gone) \<and> wc \<notin> fst ` set (attachedSinks gone)
     \<and> teardown wc gone = (gone, [])
     \<and> senders shut = [] \<and> destroyedListeners shut = [] \<and> attachedSinks shut = []
     \<and> peers_of (mainBridge shut) = {}"
proof (cases "snd (create_main_bridge claimed outputHigh outputLow)")
  case (Inr m0)
  define m where "m = fst (run_steps main_step m0 ops)"
  have m: "senders_ok m" unfolding m_def by (rule main.run_keeps) (use Inr create_main_ok in blast)
  have gone: "senders_ok (fst (teardown wc m))" by (rule teardown_ok [OF m])
  have none: "map_of (senders (fst (teardown wc m))) wc = None"
    by (cases "map_of (senders m) wc") (simp_all add: teardown_def)
  have absent: "wc \<notin> fst ` sender_tokens (fst (teardown wc m))" "wc \<notin> fst ` sink_tokens (fst (teardown wc m))"
    using none by (auto simp: token_defs tokens_of_def)
  have shut: "senders_ok (fst (dispose_main m))" "senders (fst (dispose_main m)) = []"
    "peers_of (mainBridge (fst (dispose_main m))) = {}"
    using dispose_main_ok [OF m] by auto
  then have "destroyedListeners (fst (dispose_main m)) = []" "attachedSinks (fst (dispose_main m)) = []"
    by (simp_all add: senders_ok_def token_defs tokens_of_def)
  moreover have "teardown wc (fst (teardown wc m)) = (fst (teardown wc m), [])"
    using none by (simp add: teardown_def [of wc "fst (teardown wc m)"])
  moreover have "wc \<notin> fst ` set (destroyedListeners (fst (teardown wc m)))" "wc \<notin> fst ` set (attachedSinks (fst (teardown wc m)))"
    using gone absent unfolding senders_ok_def by auto
  ultimately show ?thesis
    using Inr m none shut by (simp add: Let_def m_def [symmetric] senders_ok_def)
qed simp

subsection \<open>Every invocation is answered once, and a departed renderer's with an abort\<close>

definition answered_calls :: "main_effect list \<Rightarrow> nat list" where
  "answered_calls effs = concat (map (\<lambda>e. case e of AnswerInvoke t r \<Rightarrow> [t] | _ \<Rightarrow> []) effs)"

text \<open>
  A step that answers nothing, sends to no destroyed contents and keeps the calls in flight
  owned: each is pending at its sender or flagged as aborted.
\<close>

definition owned :: "main_bridge \<Rightarrow> bool" where
  "owned m \<longleftrightarrow> (\<forall>(t, wc) \<in> set (handlerCalls m).
     t \<in> set (abortedDispatches m) \<or> (\<exists>s. map_of (senders m) wc = Some s \<and> t \<in> set (pendingDispatches s)))"

definition sent_alive :: "main_bridge \<Rightarrow> main_effect \<Rightarrow> bool" where
  "sent_alive m e = (case e of SendIpc wc msg \<Rightarrow> \<not> wc_destroyed wc m | _ \<Rightarrow> True)"

definition undisturbed :: "main_bridge \<Rightarrow> main_bridge \<times> main_effect list \<Rightarrow> bool" where
  "undisturbed m re \<longleftrightarrow> answered_calls (snd re) = [] \<and> list_all (sent_alive m) (snd re)
     \<and> handlerCalls (fst re) = handlerCalls m \<and> nextInvoke (fst re) = nextInvoke m
     \<and> destroyedContents (fst re) = destroyedContents m \<and> (owned m \<longrightarrow> owned (fst re))"

lemma answered_append [simp]: "answered_calls (a @ b) = answered_calls a @ answered_calls b"
  by (simp add: answered_calls_def)

lemma undisturbed_same [simp]: "undisturbed m (m, [])"
  by (simp add: undisturbed_def answered_calls_def)

lemma sent_alive_cong: "destroyedContents m' = destroyedContents m \<Longrightarrow> sent_alive m' = sent_alive m"
  by (simp add: sent_alive_def wc_destroyed_def fun_eq_iff split: main_effect.split)

lemma undisturbed_trans: "undisturbed m re \<Longrightarrow> undisturbed (fst re) re' \<Longrightarrow> undisturbed m (fst re', snd re @ snd re')"
  using sent_alive_cong [of "fst re" m] by (simp add: undisturbed_def)

lemma undisturbed_before: "undisturbed m (f m) \<Longrightarrow> (\<And>m. undisturbed m (g m)) \<Longrightarrow> undisturbed m (before f g m)"
  using undisturbed_trans [of m "f m" "g (fst (f m))"] by (simp add: before_def case_prod_beta)

lemma undisturbed_run: "(\<And>m x. undisturbed m (f m x)) \<Longrightarrow> undisturbed m (run_steps f m xs)"
proof (induction xs arbitrary: m)
  case (Cons x xs)
  have "undisturbed m (fst (run_steps f m (x # xs)), snd (run_steps f m (x # xs)))"
    using undisturbed_trans [OF Cons.prems Cons.IH [OF Cons.prems]] by simp
  then show ?case by (metis prod.collapse)
qed simp

lemma answered_bridge [simp]: "answered_calls (map FromMainBridge effs) = []"
  by (simp add: answered_calls_def)

lemma alive_bridge [simp]: "list_all (sent_alive m) (map FromMainBridge effs)"
  by (simp add: list_all_iff sent_alive_def)

lemma undisturbed_on_bridge [simp]: "undisturbed m (on_main_bridge f m)"
  by (simp add: undisturbed_def on_main_bridge_def case_prod_beta owned_def)

lemma undisturbed_teardown: "undisturbed m (teardown wc m)"
proof (cases "map_of (senders m) wc")
  case (Some s)
  let ?first = "\<lambda>m. (m\<lparr>senders := AList.delete wc (senders m),
                    destroyedListeners := filter (\<lambda>d. d \<noteq> (wc, senderPeer s)) (destroyedListeners m),
                    abortedDispatches := abortedDispatches m @ pendingDispatches s,
                    attachedSinks := (if detachBytes s then filter (\<lambda>d. d \<noteq> (wc, senderPeer s)) (attachedSinks m)
                                      else attachedSinks m)\<rparr>,
                  if detachBytes s then [DetachBytes wc] else [])"
  have "t \<in> set (abortedDispatches m @ pendingDispatches s) \<or>
      (\<exists>r. ((map_of (senders m))(wc := None)) w = Some r \<and> t \<in> set (pendingDispatches r))"
    if "owned m" "(t, w) \<in> set (handlerCalls m)" for t w
    using that Some by (cases "w = wc") (auto simp: owned_def)
  then have "owned m \<Longrightarrow> owned (fst (?first m))"
    by (subst owned_def) (simp add: case_prod_beta)
  then have "undisturbed m (?first m)" by (simp add: undisturbed_def answered_calls_def sent_alive_def)
  then have "undisturbed m (before ?first (on_main_bridge (bridge_remove_peer (senderPeer s))) m)"
    by (rule undisturbed_before) simp
  then show ?thesis using Some by (simp add: teardown_def)
qed (simp add: teardown_def)

lemma undisturbed_get_or_create: "undisturbed m (fst (get_or_create wc m), [])"
proof -
  have "undisturbed m (put_sender wc s (m\<lparr>mainBridge := b, destroyedListeners := d\<rparr>), [])"
    if "map_of (senders m) wc = None" for s b d
    using that by (force simp: undisturbed_def answered_calls_def owned_def put_sender_def)
  then show ?thesis
    by (auto simp: get_or_create_def Let_def split: option.split sum.split)
qed

lemma undisturbed_put:
  assumes "map_of (senders m) wc = Some s" and "pendingDispatches s' = pendingDispatches s"
  shows "undisturbed m (put_sender wc s' m, [])"
  using assms by (force simp: undisturbed_def answered_calls_def owned_def put_sender_def)

lemma created_some: "get_or_create wc m = (m1, Some s) \<Longrightarrow> map_of (senders m1) wc = Some s"
  by (auto simp: get_or_create_def put_sender_def Let_def split: option.splits if_splits sum.splits)

lemma undisturbed_register: "undisturbed m (register_sender wc st m)"
proof -
  obtain m1 r where g: "get_or_create wc m = (m1, r)" by (cases "get_or_create wc m")
  have q1: "undisturbed m (m1, [])" using undisturbed_get_or_create [of m wc] g by simp
  show ?thesis
  proof (cases r)
    case (Some s)
    let ?m2 = "put_sender wc (s\<lparr>isSubscribed := True, detachBytes := True\<rparr>) m1"
    have q2: "undisturbed m1 (?m2, [])" using created_some g Some by (intro undisturbed_put) auto
    have "undisturbed ?m2 (?m2\<lparr>attachedSinks := a\<rparr>, [])" for a
      by (simp add: undisturbed_def answered_calls_def owned_def)
    then have q3: "undisturbed m (?m2, [])" "undisturbed m (?m2\<lparr>attachedSinks := a\<rparr>, [])" for a
      using undisturbed_trans [OF q1, of "(?m2, [])"] undisturbed_trans [OF undisturbed_trans [OF q1, of "(?m2, [])"], of "(?m2\<lparr>attachedSinks := a\<rparr>, [])"] q2
      by simp_all
    have "destroyedContents ?m2 = destroyedContents m" using q3(1) by (simp add: undisturbed_def)
    then have dead: "wc_destroyed wc ?m2 = wc_destroyed wc m" "wc_destroyed wc (?m2\<lparr>attachedSinks := a\<rparr>) = wc_destroyed wc m" for a
      by (simp_all add: wc_destroyed_def)
    have "register_sender wc st m =
        ((if detachBytes s then ?m2 else ?m2\<lparr>attachedSinks := attachedSinks ?m2 @ [(wc, senderPeer s)]\<rparr>),
         (if detachBytes s then [] else [AttachBytes wc]) @
         (if wc_destroyed wc m then [] else [SendIpc wc (IpcEvent (ConnectionStateMessage st))]))"
      using g Some dead by (simp add: register_sender_def Let_def)
    moreover have "undisturbed m (if detachBytes s then ?m2 else ?m2\<lparr>attachedSinks := a\<rparr>, [])" for a
      using q3 by simp
    moreover have "undisturbed m (m', (if detachBytes s then [] else [AttachBytes wc]) @
        (if wc_destroyed wc m then [] else [SendIpc wc msg]))" if "undisturbed m (m', [])" for m' msg
      using that by (auto simp: undisturbed_def answered_calls_def sent_alive_def)
    ultimately show ?thesis by presburger
  qed (use g q1 in \<open>simp add: register_sender_def\<close>)
qed

lemma undisturbed_fanout: "undisturbed m (broadcast_to ev m x)"
proof -
  obtain wc s0 where x: "x = (wc, s0)" by (cases x)
  show ?thesis
    by (simp add: x broadcast_to_def Let_def undisturbed_teardown)
      (simp add: undisturbed_def answered_calls_def sent_alive_def)
qed

lemma undisturbed_render: "undisturbed m (renderer_sink_write msg m x)"
proof -
  obtain wc q where x: "x = (wc, q)" by (cases x)
  have "undisturbed m (web_contents_write wc msg m)" for m
    by (simp add: web_contents_write_def undisturbed_def answered_calls_def sent_alive_def)
  then show ?thesis by (simp add: x renderer_sink_write_def undisturbed_before)
qed

lemma undisturbed_dispatch: "undisturbed m (dispatch_invoke task q call m)"
proof (cases call)
  case (ToClient prog)
  then show ?thesis by (simp add: main_emit_def undisturbed_def answered_calls_def sent_alive_def)
qed simp_all

lemma undisturbed_step:
  assumes "\<And>wc now arg. op \<noteq> IpcInvoke wc now arg" and "\<And>t ans. op \<noteq> InvokeSettled t ans"
    and "\<And>wc. op \<noteq> ContentsDies wc" and "\<And>wc. op \<noteq> ContentsDestroyed wc"
  shows "undisturbed m (main_step m op)"
proof (cases op)
  case (IpcAck wc arg)
  then show ?thesis by (simp add: ack_sender_def split: option.split sum.split)
next
  case DisposeMain
  have "undisturbed m (m\<lparr>forwardingEvents := False, handlersInstalled := False\<rparr>, [])" for m
    by (simp add: undisturbed_def answered_calls_def owned_def)
  moreover have "undisturbed m (before teardown_all (on_main_bridge bridge_dispose) m)" for m
    by (rule undisturbed_before) (simp_all add: teardown_all_def undisturbed_run undisturbed_teardown)
  ultimately show ?thesis using DisposeMain by (simp add: dispose_main_def undisturbed_before)
qed (use assms in \<open>simp_all add: undisturbed_register undisturbed_teardown broadcast_def undisturbed_run undisturbed_fanout
    dispatch_chunk_def undisturbed_render drain_calls_def drain_timeout_def\<close>,
    simp_all add: undisturbed_def answered_calls_def sent_alive_def owned_def)

text \<open>The ledger of calls: each one made so far is answered or in flight, once.\<close>

definition calls_accounted :: "nat list \<Rightarrow> main_bridge \<Rightarrow> bool" where
  "calls_accounted replies m \<longleftrightarrow> owned m \<and> distinct (replies @ map fst (handlerCalls m))
     \<and> set (replies @ map fst (handlerCalls m)) = {..<nextInvoke m}"

lemma calls_accounted_other [simp]:
  "calls_accounted replies (m\<lparr>destroyedContents := x\<rparr>) = calls_accounted replies m"
  "calls_accounted replies (m\<lparr>destroyedListeners := y\<rparr>) = calls_accounted replies m"
  by (simp_all add: calls_accounted_def owned_def)

lemma answered_Nil [simp]: "answered_calls [] = []"
  by (simp add: answered_calls_def)

lemma accounted_undisturbed:
  "calls_accounted replies m \<Longrightarrow> undisturbed m re \<Longrightarrow> calls_accounted (replies @ answered_calls (snd re)) (fst re)"
  by (simp add: calls_accounted_def undisturbed_def)

lemma accounted_invoke:
  assumes "calls_accounted replies m"
  shows "calls_accounted (replies @ answered_calls (snd (invoke_run wc now arg m))) (fst (invoke_run wc now arg m))"
proof -
  let ?m = "m\<lparr>nextInvoke := nextInvoke m + 1\<rparr>"
  obtain m1 r where g: "get_or_create wc ?m = (m1, r)" by (cases "get_or_create wc ?m")
  have q: "handlerCalls m1 = handlerCalls m" "nextInvoke m1 = nextInvoke m + 1" "owned m \<longrightarrow> owned m1"
    using undisturbed_get_or_create [of ?m wc] g by (simp_all add: undisturbed_def owned_def)
  have fresh: "nextInvoke m \<notin> set replies" "nextInvoke m \<notin> fst ` set (handlerCalls m)"
    using assms by (auto simp: calls_accounted_def)
  have now: "calls_accounted (replies @ [nextInvoke m]) m1"
    using assms q fresh by (auto simp: calls_accounted_def lessThan_Suc)
  have later: "calls_accounted replies (put_sender wc (s\<lparr>pendingDispatches := pendingDispatches s @ [nextInvoke m]\<rparr>)
      (m1\<lparr>handlerCalls := handlerCalls m1 @ [(nextInvoke m, wc)]\<rparr>))" if "r = Some s" for s
  proof -
    have s: "map_of (senders m1) wc = Some s" using created_some g that by simp
    have o: "owned m1" using assms q(3) by (simp add: calls_accounted_def)
    have "u \<in> set (abortedDispatches m1) \<or>
        (\<exists>r. ((map_of (senders m1))(wc \<mapsto> s\<lparr>pendingDispatches := pendingDispatches s @ [nextInvoke m]\<rparr>)) w = Some r
             \<and> u \<in> set (pendingDispatches r))"
      if "(u, w) \<in> set (handlerCalls m1 @ [(nextInvoke m, wc)])" for u w
      using that s o by (cases "w = wc") (auto simp: owned_def)
    then have "owned (put_sender wc (s\<lparr>pendingDispatches := pendingDispatches s @ [nextInvoke m]\<rparr>)
        (m1\<lparr>handlerCalls := handlerCalls m1 @ [(nextInvoke m, wc)]\<rparr>))"
      by (subst owned_def) (simp add: put_sender_def case_prod_beta)
    then show ?thesis using assms q fresh by (auto simp: calls_accounted_def lessThan_Suc put_sender_def)
  qed
  show ?thesis
  proof (cases r)
    case None
    then show ?thesis using g now by (simp add: invoke_run_def Let_def answered_calls_def)
  next
    case (Some s)
    then show ?thesis
      using g now accounted_undisturbed [OF later [OF Some] undisturbed_dispatch]
      by (simp add: invoke_run_def Let_def answered_calls_def split: sum.split)
  qed
qed

lemma settle_shape:
  assumes "map_of (handlerCalls m) t = Some wc"
  shows "answered_calls (snd (invoke_settled t ans m)) = [t]"
    and "handlerCalls (fst (invoke_settled t ans m)) = AList.delete t (handlerCalls m)"
    and "nextInvoke (fst (invoke_settled t ans m)) = nextInvoke m"
    and "abortedDispatches (fst (invoke_settled t ans m)) = abortedDispatches m"
  using assms
  by (auto simp: invoke_settled_def forget_call_def Let_def put_sender_def answered_calls_def before_def case_prod_beta comp_def
      split: option.split)

lemma settle_senders:
  assumes "map_of (handlerCalls m) t = Some wc"
  shows "map_of (senders (fst (invoke_settled t ans m))) w =
    map_option (\<lambda>s. if w = wc then s\<lparr>pendingDispatches := filter (\<lambda>u. u \<noteq> t) (pendingDispatches s)\<rparr> else s)
      (map_of (senders m) w)"
  using assms by (cases "w = wc"; cases "map_of (senders m) w")
    (auto simp: invoke_settled_def forget_call_def put_sender_def Let_def split: option.split)

lemma accounted_settled:
  assumes "calls_accounted replies m"
  shows "calls_accounted (replies @ answered_calls (snd (invoke_settled t ans m))) (fst (invoke_settled t ans m))"
proof (cases "map_of (handlerCalls m) t")
  case None
  then show ?thesis using assms by (simp add: invoke_settled_def answered_calls_def)
next
  case (Some wc)
  have d: "distinct (map fst (handlerCalls m))" "t \<in> fst ` set (handlerCalls m)"
    using assms Some map_of_SomeD [OF Some] by (auto simp: calls_accounted_def intro: rev_image_eqI)
  have keys: "map fst (AList.delete t (handlerCalls m)) = removeAll t (map fst (handlerCalls m))"
    by (rule AList.delete_keys)
  have own: "(u, w) \<in> set (AList.delete t (handlerCalls m)) \<Longrightarrow> u \<noteq> t \<and> (u, w) \<in> set (handlerCalls m)" for u w
    by (auto simp: AList.delete_eq)
  have "owned (fst (invoke_settled t ans m))"
    unfolding owned_def settle_shape(2-4) [OF Some]
  proof clarify
    fix u w
    assume uw: "(u, w) \<in> set (AList.delete t (handlerCalls m))" "\<nexists>s. map_of (senders (fst (invoke_settled t ans m))) w = Some s \<and> u \<in> set (pendingDispatches s)"
    then have "u \<in> set (abortedDispatches m) \<or> (\<exists>s. map_of (senders m) w = Some s \<and> u \<in> set (pendingDispatches s))"
      using own [OF uw(1)] assms unfolding calls_accounted_def owned_def by blast
    then show "u \<in> set (abortedDispatches m)"
      using uw own settle_senders [OF Some, of ans w] by (auto split: if_splits)
  qed
  then show ?thesis
    using assms d settle_shape(1-3) [OF Some] keys distinct_removeAll [OF d(1), of t] by (auto simp: calls_accounted_def)
qed

lemma accounted_step:
  assumes "calls_accounted replies m"
  shows "calls_accounted (replies @ answered_calls (snd (main_step m op))) (fst (main_step m op))"
proof (cases op)
  case (ContentsDestroyed wc)
  let ?m1 = "m\<lparr>destroyedContents := set_add wc (destroyedContents m),
      destroyedListeners := filter (\<lambda>d. fst d \<noteq> wc) (destroyedListeners m)\<rparr>"
  have m1: "calls_accounted replies ?m1" using assms by (simp add: calls_accounted_def owned_def)
  show ?thesis
    using ContentsDestroyed m1 accounted_undisturbed [OF m1 undisturbed_teardown [of ?m1 wc]] accounted_undisturbed [OF m1 undisturbed_same]
    by (simp add: Let_def)
next
  case (IpcInvoke wc now arg)
  then show ?thesis using assms accounted_invoke by (simp add: answered_calls_def)
next
  case (InvokeSettled t ans)
  then show ?thesis using assms accounted_settled by simp
next
  case (ContentsDies wc)
  then show ?thesis using assms by (simp add: calls_accounted_def owned_def answered_calls_def)
qed (use accounted_undisturbed [OF assms undisturbed_step [of op m]] in simp_all)

lemma accounted_run:
  "calls_accounted replies m \<Longrightarrow>
   calls_accounted (replies @ answered_calls (snd (run_steps main_step m ops))) (fst (run_steps main_step m ops))"
proof (induction ops arbitrary: m replies)
  case (Cons op ops)
  show ?case using Cons.IH [OF accounted_step [OF Cons.prems, of op]] by simp
qed (simp add: answered_calls_def)

text \<open>What the calls of a renderer that has gone are answered, whatever their outcome.\<close>

definition answers_aborted :: "nat \<Rightarrow> dispatch_error + rpc_response \<Rightarrow> main_bridge \<Rightarrow> bool" where
  "answers_aborted wc ans m \<longleftrightarrow>
     list_all (\<lambda>(t, w). w = wc \<longrightarrow> AnswerInvoke t aborted_envelope \<in> set (snd (invoke_settled t ans m))) (handlerCalls m)"

lemma gone_answers_aborted:
  assumes "owned m" and "distinct (map fst (handlerCalls m))" and "map_of (senders m) wc = None"
  shows "answers_aborted wc ans m"
proof -
  have "AnswerInvoke t aborted_envelope \<in> set (snd (invoke_settled t ans m))" if t: "(t, wc) \<in> set (handlerCalls m)" for t
  proof -
    have "t \<in> set (abortedDispatches m)" using assms(1,3) t by (auto simp: owned_def)
    moreover have "map_of (handlerCalls m) t = Some wc" using assms(2) t by (simp add: map_of_is_SomeI)
    ultimately show ?thesis using assms(3) by (simp add: invoke_settled_def before_def forget_call_def Let_def)
  qed
  then show ?thesis by (auto simp: answers_aborted_def list_all_iff)
qed

text \<open>
  C31. Every invocation of a renderer is answered exactly once, and moot ones are aborted. Over
  any history, the invocations made so far are those answered, each once, and those still in
  flight; and as soon as a renderer is torn down, or destroyed contents are seen, every call of
  it still in flight will be answered with the abort error whatever its outcome.
\<close>

theorem invocations_answered_once:
  "case snd (create_main_bridge claimed outputHigh outputLow) of Inl e \<Rightarrow> True | Inr m0 \<Rightarrow>
     let r = run_steps main_step m0 ops; m = fst r in
     distinct (answered_calls (snd r) @ map fst (handlerCalls m))
     \<and> set (answered_calls (snd r) @ map fst (handlerCalls m)) = {..<nextInvoke m}
     \<and> answers_aborted wc ans (fst (teardown wc m))"
proof (cases "snd (create_main_bridge claimed outputHigh outputLow)")
  case (Inr m0)
  define m where "m = fst (run_steps main_step m0 ops)"
  have "calls_accounted [] m0"
    using create_main_ok [OF Inr] by (simp add: calls_accounted_def owned_def)
  then have c: "calls_accounted (answered_calls (snd (run_steps main_step m0 ops))) m"
    using accounted_run [of "[]" m0 ops] by (simp add: m_def)
  have "map_of (senders (fst (teardown wc m))) wc = None"
    by (cases "map_of (senders m) wc") (simp_all add: teardown_def)
  moreover have "owned (fst (teardown wc m))" "handlerCalls (fst (teardown wc m)) = handlerCalls m"
    using undisturbed_teardown [of m wc] c by (simp_all add: undisturbed_def calls_accounted_def)
  ultimately show ?thesis
    using Inr c gone_answers_aborted [of "fst (teardown wc m)" wc ans] by (simp add: Let_def m_def [symmetric] calls_accounted_def)
qed simp

text \<open>Nothing is ever sent to contents that are destroyed, in any state.\<close>

theorem nothing_sent_to_the_dead:
  "list_all (sent_alive m) (snd (main_step m op))"
proof (cases op)
  case (ContentsDestroyed wc)
  have "SendIpc w msg \<notin> set (snd (teardown v k))" for w v k msg
    by (auto simp: teardown_def on_main_bridge_def case_prod_beta split: option.split)
  then show ?thesis
    using ContentsDestroyed by (auto simp: Let_def list_all_iff sent_alive_def split: main_effect.split)
next
  case (IpcInvoke wc now arg)
  have "SendIpc w msg \<notin> set (snd (dispatch_invoke t q c k))" for w msg t q c k
    by (cases c) (auto simp: main_emit_def on_main_bridge_def case_prod_beta)
  then have "SendIpc w msg \<notin> set (snd (invoke_run wc now arg m))" for w msg
    by (simp add: invoke_run_def Let_def split: prod.split option.split sum.split)
  then show ?thesis using IpcInvoke by (auto simp: list_all_iff sent_alive_def split: main_effect.split)
next
  case (InvokeSettled t ans)
  then show ?thesis
    by (auto simp: invoke_settled_def forget_call_def Let_def list_all_iff sent_alive_def split: option.split)
next
  case (ContentsDies wc)
  then show ?thesis by simp
qed (use undisturbed_step [of op m] in \<open>simp_all add: undisturbed_def\<close>)

end
