(* ===== verification/ElectronRenderer.thy ===== *)
theory ElectronRenderer
  imports ElectronMain
begin

section \<open>The Electron renderer\<close>

text \<open>
  \<open>src/connectors/electron/renderer.ts\<close>: the proxy of the tmux client in a renderer. A call is
  the number of its promise; of one that is outstanding the model keeps whether its timer is
  armed and which of the router's command runners made it. The topology router and the
  emitter behind the proxy are the components of these names: what it hands them is an effect.
\<close>

datatype proxy_error =
    ProxyTmuxError command_response
  | ProxyBridgeError bridge_error_code
  | ProxyInvalidCommand string
  | ProxyIpcFailed error_ref

record proxy_call =
  callRunner :: "nat option"
  callTimed :: bool

record renderer_proxy =
  pendingAck :: "(jsnum \<times> int) list"
  proxyClosed :: bool
  proxyListening :: bool
  proxyState :: connection_state
  ackBatchBytes :: int
  invokeTimeoutMs :: int
  proxyCalls :: "(nat \<times> proxy_call) list"
  nextProxyCall :: nat
  nextRunner :: nat

datatype proxy_effect =
    IpcSendRegister
  | IpcSendUnregister
  | IpcSendAck jsnum int
  | IpcInvokes nat rpc_request
  | ArmInvokeTimer nat
  | ClearInvokeTimer nat
  | RouterIsReady nat
  | RouterLosesTransport nat
  | RouterCloses
  | RouterBytes jsnum "byte list"
  | RouterNotified emitter_message
  | ProxyEmits emitter_message
  | ProxyResolved nat rpc_response
  | ProxyRejected nat proxy_error

definition DEFAULT_ACK_BATCH_BYTES :: int where
  "DEFAULT_ACK_BATCH_BYTES = 2 ^ 16"

definition new_renderer_proxy :: "int option \<Rightarrow> int option \<Rightarrow> renderer_proxy \<times> proxy_effect list" where
  "new_renderer_proxy batch timeout =
     (\<lparr>pendingAck = [], proxyClosed = False, proxyListening = True, proxyState = Connecting,
       ackBatchBytes = (case batch of None \<Rightarrow> DEFAULT_ACK_BATCH_BYTES | Some n \<Rightarrow> n),
       invokeTimeoutMs = (case timeout of None \<Rightarrow> 0 | Some n \<Rightarrow> n),
       proxyCalls = [], nextProxyCall = 0, nextRunner = 0\<rparr>,
      [IpcSendRegister])"

definition proxy_account :: "jsnum \<Rightarrow> int \<Rightarrow> renderer_proxy \<Rightarrow> renderer_proxy \<times> proxy_effect list" where
  "proxy_account p n r =
     (let total = (case map_of (pendingAck r) p of None \<Rightarrow> 0 | Some k \<Rightarrow> k) + n in
      if total < ackBatchBytes r then (r\<lparr>pendingAck := AList.update p total (pendingAck r)\<rparr>, [])
      else (r\<lparr>pendingAck := AList.delete p (pendingAck r)\<rparr>, [IpcSendAck p total]))"

subsection \<open>Calls\<close>

definition proxy_invoke :: "nat option \<Rightarrow> rpc_request \<Rightarrow> renderer_proxy \<Rightarrow> renderer_proxy \<times> proxy_effect list" where
  "proxy_invoke runner req r =
     (let i = nextProxyCall r; timed = invokeTimeoutMs r > 0 in
      (r\<lparr>proxyCalls := proxyCalls r @ [(i, \<lparr>callRunner = runner, callTimed = timed\<rparr>)], nextProxyCall := i + 1\<rparr>,
       IpcInvokes i req # (if timed then [ArmInvokeTimer i] else [])))"

text \<open>A failed call of the router's runner retires the transport when the bridge was closed.\<close>

definition proxy_fails :: "nat \<Rightarrow> proxy_call \<Rightarrow> proxy_error \<Rightarrow> proxy_effect list" where
  "proxy_fails i c err =
     (case callRunner c of
        Some k \<Rightarrow> if err = ProxyBridgeError BRIDGE_CLOSED then [RouterLosesTransport k] else []
      | None \<Rightarrow> []) @ [ProxyRejected i err]"

definition proxy_execute :: "nat option \<Rightarrow> string \<Rightarrow> renderer_proxy \<Rightarrow> renderer_proxy \<times> proxy_effect list" where
  "proxy_execute runner command r =
     (case invalid_command command of
        Some err \<Rightarrow>
          (r\<lparr>nextProxyCall := nextProxyCall r + 1\<rparr>,
           proxy_fails (nextProxyCall r) \<lparr>callRunner = runner, callTimed = False\<rparr> (ProxyInvalidCommand command))
      | None \<Rightarrow> proxy_invoke runner (RpcExecute command) r)"

definition proxy_method :: "rpc_request \<Rightarrow> renderer_proxy \<Rightarrow> renderer_proxy \<times> proxy_effect list" where
  "proxy_method req =
     (case req of RpcExecute command \<Rightarrow> proxy_execute None command | _ \<Rightarrow> proxy_invoke None req)"

definition call_ends :: "nat \<Rightarrow> proxy_call \<Rightarrow> proxy_effect list" where
  "call_ends i c = (if callTimed c then [ClearInvokeTimer i] else [])"

definition invoke_replied :: "nat \<Rightarrow> error_ref + invoke_envelope \<Rightarrow> renderer_proxy \<Rightarrow> renderer_proxy \<times> proxy_effect list" where
  "invoke_replied i reply r =
     (case map_of (proxyCalls r) i of
        None \<Rightarrow> (r, [])
      | Some c \<Rightarrow>
          (r\<lparr>proxyCalls := AList.delete i (proxyCalls r)\<rparr>,
           call_ends i c @
           (case reply of
              Inl e \<Rightarrow> proxy_fails i c (ProxyIpcFailed e)
            | Inr (EnvelopeOk resp) \<Rightarrow> [ProxyResolved i resp]
            | Inr (EnvelopeTmuxError resp) \<Rightarrow> proxy_fails i c (ProxyTmuxError resp)
            | Inr (EnvelopeBridgeError code) \<Rightarrow> proxy_fails i c (ProxyBridgeError code))))"

definition invoke_timeout :: "nat \<Rightarrow> renderer_proxy \<Rightarrow> renderer_proxy \<times> proxy_effect list" where
  "invoke_timeout i r =
     (case map_of (proxyCalls r) i of
        None \<Rightarrow> (r, [])
      | Some c \<Rightarrow>
          if callTimed c
          then (r\<lparr>proxyCalls := AList.delete i (proxyCalls r)\<rparr>, proxy_fails i c (ProxyBridgeError BRIDGE_TIMEOUT))
          else (r, []))"

subsection \<open>Events\<close>

definition on_ipc_event :: "ipc_message \<Rightarrow> renderer_proxy \<Rightarrow> renderer_proxy \<times> proxy_effect list" where
  "on_ipc_event msg r =
     (if \<not> proxyListening r then (r, [])
      else case msg of
        IpcOutput p data \<Rightarrow> before (proxy_account p (int (length data))) (\<lambda>r. (r, [RouterBytes p data])) r
      | IpcEvent ev \<Rightarrow>
          (case ev of
             ConnectionStateMessage st \<Rightarrow>
               (let r1 = r\<lparr>proxyState := st\<rparr> in
                case st of
                  Ready \<Rightarrow> (r1\<lparr>nextRunner := nextRunner r1 + 1\<rparr>, [RouterIsReady (nextRunner r1), ProxyEmits ev])
                | Closed reason \<Rightarrow> (r1, [RouterCloses, ProxyEmits ev])
                | _ \<Rightarrow> (r1, [ProxyEmits ev]))
           | _ \<Rightarrow> (r, (if is_tmux_message ev then [RouterNotified ev] else []) @ [ProxyEmits ev])))"

definition proxy_close :: "renderer_proxy \<Rightarrow> renderer_proxy \<times> proxy_effect list" where
  "proxy_close r =
     (if proxyClosed r then (r, [])
      else
        let r1 = r\<lparr>proxyClosed := True, proxyListening := False, pendingAck := []\<rparr> in
        if proxyState r1 = Closed ReasonDisposed then (r1, [IpcSendUnregister, RouterCloses])
        else (r1\<lparr>proxyState := Closed ReasonDisposed\<rparr>,
              [IpcSendUnregister, RouterCloses, ProxyEmits (ConnectionStateMessage (Closed ReasonDisposed))]))"

datatype proxy_op =
    ProxyMethod rpc_request
  | RunnerExecutes nat string
  | IpcEventArrives ipc_message
  | InvokeReplied nat "error_ref + invoke_envelope"
  | InvokeTimeout nat
  | ProxyClose

fun proxy_step :: "renderer_proxy \<Rightarrow> proxy_op \<Rightarrow> renderer_proxy \<times> proxy_effect list" where
  "proxy_step r (ProxyMethod req) = proxy_method req r"
| "proxy_step r (RunnerExecutes k command) = proxy_execute (Some k) command r"
| "proxy_step r (IpcEventArrives msg) = on_ipc_event msg r"
| "proxy_step r (InvokeReplied i reply) = invoke_replied i reply r"
| "proxy_step r (InvokeTimeout i) = invoke_timeout i r"
| "proxy_step r ProxyClose = proxy_close r"

subsection \<open>Credit is never lost\<close>

definition pending_credit :: "jsnum \<Rightarrow> renderer_proxy \<Rightarrow> int" where
  "pending_credit p r = (case map_of (pendingAck r) p of None \<Rightarrow> 0 | Some n \<Rightarrow> n)"

definition delivered_bytes :: "jsnum \<Rightarrow> proxy_effect list \<Rightarrow> int" where
  "delivered_bytes p effs =
     sum_list (map (\<lambda>e. case e of RouterBytes q data \<Rightarrow> if q = p then int (length data) else 0 | _ \<Rightarrow> 0) effs)"

definition acked_bytes :: "jsnum \<Rightarrow> proxy_effect list \<Rightarrow> int" where
  "acked_bytes p effs = sum_list (map (\<lambda>e. case e of IpcSendAck q n \<Rightarrow> if q = p then n else 0 | _ \<Rightarrow> 0) effs)"

lemmas credit_defs = delivered_bytes_def acked_bytes_def

lemma credit_append [simp]:
  "delivered_bytes p (a @ b) = delivered_bytes p a + delivered_bytes p b"
  "acked_bytes p (a @ b) = acked_bytes p a + acked_bytes p b"
  by (simp_all add: credit_defs)

text \<open>A step owes what it delivers and has not acknowledged, and keeps every batch below its size.\<close>

definition settles_credit :: "renderer_proxy \<Rightarrow> renderer_proxy \<times> proxy_effect list \<Rightarrow> bool" where
  "settles_credit r re \<longleftrightarrow>
     ackBatchBytes (fst re) = ackBatchBytes r \<and> (proxyClosed r \<longrightarrow> proxyClosed (fst re))
     \<and> (proxyClosed (fst re) \<or>
        (\<forall>p. delivered_bytes p (snd re) + pending_credit p r = acked_bytes p (snd re) + pending_credit p (fst re)))
     \<and> ((\<forall>n \<in> ran (map_of (pendingAck r)). n < ackBatchBytes r) \<longrightarrow>
        (\<forall>n \<in> ran (map_of (pendingAck (fst re))). n < ackBatchBytes r))"

lemma settles_same: "pendingAck r' = pendingAck r \<Longrightarrow> proxyClosed r' = proxyClosed r \<Longrightarrow> ackBatchBytes r' = ackBatchBytes r \<Longrightarrow>
  (\<And>p. delivered_bytes p effs = 0) \<Longrightarrow> (\<And>p. acked_bytes p effs = 0) \<Longrightarrow> settles_credit r (r', effs)"
  by (simp add: settles_credit_def pending_credit_def)

lemma settles_account: "settles_credit r (before (proxy_account p (int (length data))) (\<lambda>r. (r, [RouterBytes p data])) r)"
proof -
  let ?total = "(case map_of (pendingAck r) p of None \<Rightarrow> 0 | Some k \<Rightarrow> k) + int (length data)"
  show ?thesis
  proof (cases "?total < ackBatchBytes r")
    case True
    then show ?thesis
      by (auto simp: settles_credit_def proxy_account_def pending_credit_def credit_defs ran_def Let_def)
  next
    case False
    then show ?thesis
      by (auto simp: settles_credit_def proxy_account_def pending_credit_def credit_defs ran_def Let_def)
  qed
qed

lemma fails_credit [simp]: "delivered_bytes p (proxy_fails i c e) = 0" "acked_bytes p (proxy_fails i c e) = 0"
  by (simp_all add: proxy_fails_def credit_defs split: option.split)

lemma step_settles: "settles_credit r (proxy_step r op)"
proof (cases op)
  case (IpcEventArrives msg)
  show ?thesis
  proof (cases msg)
    case (IpcOutput p data)
    then show ?thesis using IpcEventArrives settles_account settles_same [of r r "[]"]
      by (simp add: on_ipc_event_def credit_defs)
  next
    case (IpcEvent ev)
    then show ?thesis using IpcEventArrives
      by (auto simp: on_ipc_event_def credit_defs Let_def intro!: settles_same
          split: emitter_message.split connection_state.split)
  qed
next
  case ProxyClose
  then show ?thesis
    by (auto simp: proxy_close_def settles_credit_def Let_def ran_def credit_defs)
next
  case (InvokeReplied i reply)
  then show ?thesis
    by (auto simp: invoke_replied_def call_ends_def credit_defs intro!: settles_same
        split: option.split sum.split invoke_envelope.split) (simp_all add: credit_defs [symmetric])
next
  case (InvokeTimeout i)
  then show ?thesis
    by (auto simp: invoke_timeout_def credit_defs [of _ "[]"] intro!: settles_same split: option.split)
qed (auto simp: proxy_method_def proxy_execute_def proxy_invoke_def Let_def credit_defs intro!: settles_same
    split: option.split rpc_request.split, simp_all add: credit_defs [symmetric])

lemma settles_run:
  "settles_credit r (run_steps proxy_step r ops)"
proof (induction ops arbitrary: r)
  case Nil
  then show ?case by (simp add: settles_credit_def credit_defs)
next
  case (Cons op ops)
  let ?r1 = "fst (proxy_step r op)"
  have a: "settles_credit r (proxy_step r op)" and b: "settles_credit ?r1 (run_steps proxy_step ?r1 ops)"
    by (rule step_settles) (rule Cons.IH)
  have "delivered_bytes p (snd (proxy_step r op) @ snd (run_steps proxy_step ?r1 ops)) + pending_credit p r =
      acked_bytes p (snd (proxy_step r op) @ snd (run_steps proxy_step ?r1 ops)) + pending_credit p (fst (run_steps proxy_step ?r1 ops))"
    if "\<not> proxyClosed (fst (run_steps proxy_step ?r1 ops))" for p
  proof -
    have "\<not> proxyClosed ?r1" using that b by (auto simp: settles_credit_def)
    then have "delivered_bytes p (snd (proxy_step r op)) + pending_credit p r = acked_bytes p (snd (proxy_step r op)) + pending_credit p ?r1"
      "delivered_bytes p (snd (run_steps proxy_step ?r1 ops)) + pending_credit p ?r1 =
       acked_bytes p (snd (run_steps proxy_step ?r1 ops)) + pending_credit p (fst (run_steps proxy_step ?r1 ops))"
      using that a b by (auto simp: settles_credit_def)
    then show ?thesis by simp
  qed
  then show ?case using a b by (auto simp: settles_credit_def)
qed

text \<open>
  C32. The renderer's credit is conserved. Over any history of a proxy that is not closed, for
  every pane the bytes handed to its router are the bytes acknowledged to the main process plus
  those withheld for the next batch, and what is withheld is less than a batch.
\<close>

theorem credit_conserved:
  "let (r0, e0) = new_renderer_proxy batch timeout; re = run_steps proxy_step r0 ops in
     proxyClosed (fst re)
     \<or> delivered_bytes p (snd re) = acked_bytes p (snd re) + pending_credit p (fst re)
       \<and> pending_credit p (fst re) \<le> max 0 (ackBatchBytes r0 - 1)"
proof -
  obtain r0 e0 where r0: "new_renderer_proxy batch timeout = (r0, e0)" by (cases "new_renderer_proxy batch timeout")
  let ?re = "run_steps proxy_step r0 ops"
  have start: "pendingAck r0 = []" using r0 by (auto simp: new_renderer_proxy_def)
  have s: "settles_credit r0 ?re" by (rule settles_run)
  then have "n < ackBatchBytes r0" if "map_of (pendingAck (fst ?re)) p = Some n" for n
    using that start by (auto simp: settles_credit_def ran_def)
  then have "pending_credit p (fst ?re) \<le> max 0 (ackBatchBytes r0 - 1)"
    by (auto simp: pending_credit_def split: option.split)
  then show ?thesis
    using s start r0 by (auto simp: settles_credit_def pending_credit_def)
qed

subsection \<open>Calls settle once\<close>

definition settled_calls :: "proxy_effect list \<Rightarrow> nat list" where
  "settled_calls effs =
     concat (map (\<lambda>e. case e of ProxyResolved i v \<Rightarrow> [i] | ProxyRejected i err \<Rightarrow> [i] | _ \<Rightarrow> []) effs)"

lemma settled_append [simp]: "settled_calls (a @ b) = settled_calls a @ settled_calls b"
  by (simp add: settled_calls_def)

lemma settled_Cons: "settled_calls (e # es) = settled_calls [e] @ settled_calls es"
  by (simp add: settled_calls_def)

lemma settled_simps [simp]:
  "settled_calls [] = []" "settled_calls (proxy_fails i c err) = [i]" "settled_calls [ProxyResolved i v] = [i]"
  "settled_calls (call_ends i c) = []"
  by (auto simp: settled_calls_def proxy_fails_def call_ends_def split: option.split)

definition proxy_accounted :: "nat list \<Rightarrow> renderer_proxy \<Rightarrow> bool" where
  "proxy_accounted s r \<longleftrightarrow> distinct (s @ map fst (proxyCalls r))
     \<and> set (s @ map fst (proxyCalls r)) = {..<nextProxyCall r}"

lemma proxy_quiet:
  "proxy_accounted s r \<Longrightarrow> proxyCalls r' = proxyCalls r \<Longrightarrow> nextProxyCall r' = nextProxyCall r \<Longrightarrow>
   settled_calls effs = [] \<Longrightarrow> proxy_accounted (s @ settled_calls effs) r'"
  by (simp add: proxy_accounted_def)

lemma proxy_finish:
  assumes "proxy_accounted s r" and "map_of (proxyCalls r) i = Some c"
  shows "proxy_accounted (s @ [i]) (r\<lparr>proxyCalls := AList.delete i (proxyCalls r)\<rparr>)"
proof -
  have "i \<in> fst ` set (proxyCalls r)" using map_of_SomeD [OF assms(2)] by force
  then show ?thesis
    using assms(1) distinct_removeAll [of "map fst (proxyCalls r)" i]
    by (auto simp: proxy_accounted_def AList.delete_keys)
qed

lemma proxy_new:
  assumes "proxy_accounted s r"
  shows "proxy_accounted (s @ settled_calls (snd (proxy_invoke k req r))) (fst (proxy_invoke k req r))"
    and "proxy_accounted (s @ settled_calls (snd (proxy_execute k cmd r))) (fst (proxy_execute k cmd r))"
proof -
  have fresh: "nextProxyCall r \<notin> set s" "nextProxyCall r \<notin> fst ` set (proxyCalls r)"
    using assms by (auto simp: proxy_accounted_def)
  show inv: "proxy_accounted (s @ settled_calls (snd (proxy_invoke k req r))) (fst (proxy_invoke k req r))" for req
    using assms fresh by (auto simp: proxy_accounted_def proxy_invoke_def Let_def settled_calls_def lessThan_Suc)
  have "proxy_accounted (s @ [nextProxyCall r]) (r\<lparr>nextProxyCall := nextProxyCall r + 1\<rparr>)"
    using assms fresh by (auto simp: proxy_accounted_def lessThan_Suc)
  then show "proxy_accounted (s @ settled_calls (snd (proxy_execute k cmd r))) (fst (proxy_execute k cmd r))"
    using inv by (simp add: proxy_execute_def split: option.split)
qed

lemma proxy_step_accounted:
  assumes "proxy_accounted s r"
  shows "proxy_accounted (s @ settled_calls (snd (proxy_step r op))) (fst (proxy_step r op))"
proof (cases op)
  case (ProxyMethod req)
  then show ?thesis using proxy_new [OF assms] by (cases req) (simp_all add: proxy_method_def)
next
  case (RunnerExecutes k command)
  then show ?thesis using proxy_new(2) [OF assms] by simp
next
  case (IpcEventArrives msg)
  have "proxyCalls (fst (on_ipc_event msg r)) = proxyCalls r" "nextProxyCall (fst (on_ipc_event msg r)) = nextProxyCall r"
    "settled_calls (snd (on_ipc_event msg r)) = []"
    by (simp_all add: on_ipc_event_def proxy_account_def settled_calls_def Let_def before_def case_prod_beta
        split: ipc_message.split emitter_message.split connection_state.split)
  then show ?thesis using IpcEventArrives proxy_quiet [OF assms] by simp
next
  case (InvokeReplied i reply)
  then show ?thesis using assms proxy_finish [OF assms]
    by (auto simp: invoke_replied_def split: option.split sum.split invoke_envelope.split)
next
  case (InvokeTimeout i)
  then show ?thesis using assms proxy_finish [OF assms]
    by (auto simp: invoke_timeout_def split: option.split)
next
  case ProxyClose
  then show ?thesis using assms by (simp add: proxy_close_def proxy_accounted_def settled_calls_def Let_def)
qed

lemma proxy_run_accounted:
  "proxy_accounted s r \<Longrightarrow>
   proxy_accounted (s @ settled_calls (snd (run_steps proxy_step r ops))) (fst (run_steps proxy_step r ops))"
proof (induction ops arbitrary: r s)
  case (Cons op ops)
  show ?case using Cons.IH [OF proxy_step_accounted [OF Cons.prems, of op]] by simp
qed simp

text \<open>
  Every call made through the proxy or by its router is settled exactly once or still
  outstanding, whatever replies, timeouts and closing do; a reply after the timeout is
  ignored.
\<close>

theorem proxy_calls_settle_once:
  "let re = run_steps proxy_step (fst (new_renderer_proxy batch timeout)) ops in
     distinct (settled_calls (snd re) @ map fst (proxyCalls (fst re)))
     \<and> set (settled_calls (snd re) @ map fst (proxyCalls (fst re))) = {..<nextProxyCall (fst re)}"
proof -
  have "proxy_accounted [] (fst (new_renderer_proxy batch timeout))"
    by (simp add: proxy_accounted_def new_renderer_proxy_def)
  from proxy_run_accounted [OF this] show ?thesis by (simp add: proxy_accounted_def Let_def)
qed

subsection \<open>Withheld acknowledgements\<close>

text \<open>The bridge's operations of a list, and the acknowledgements a renderer sends of its chunks.\<close>

definition bridge_run :: "bridge \<Rightarrow> bridge_op list \<Rightarrow> bridge \<times> bridge_effect list" where
  "bridge_run = run_steps bridge_step"

definition renderer_acks :: "jsnum \<Rightarrow> int list \<Rightarrow> renderer_proxy \<times> proxy_effect list" where
  "renderer_acks p sizes =
     run_steps (\<lambda>r n. proxy_account p n r) (fst (new_renderer_proxy None None)) sizes"

definition five_renderers :: "nat list" where
  "five_renderers = [1, 2, 3, 4, 5]"

definition chunk_sizes :: "int list" where
  "chunk_sizes = [65536, 65536, 65536, 65535]"

text \<open>
  The acknowledgements arrive while Pause is in force, and each is sent as the renderer's own
  accounting sends it.
\<close>

definition strand_history :: "bridge_op list" where
  "strand_history =
     replicate 5 BridgeRegister
     @ concat (map (\<lambda>n. map (\<lambda>q. BridgeAccount q (Num 7) n) five_renderers) chunk_sizes)
     @ concat (map (\<lambda>q. map (\<lambda>e. case e of IpcSendAck p n \<Rightarrow> BridgeAck q p n | _ \<Rightarrow> SubTask)
         (snd (renderer_acks (Num 7) chunk_sizes))) five_renderers)"

text \<open>
  Withheld acknowledgements strand a pane. With the default watermarks and batch size, five
  renderers receive the same quarter of a megabyte less a byte of one pane; the main process
  pauses the pane, and each renderer acknowledges what its accounting acknowledges. Then every
  renderer withholds one byte less than a batch and, as a paused pane sends no more, never
  sends it; their sum stays above the low watermark, so the pane is not continued while all
  five stay.
\<close>

theorem withheld_acks_strand_pane:
  "case create_bridge None None True of Inl e \<Rightarrow> False | Inr b0 \<Rightarrow>
     let (b, effs) = bridge_run b0 strand_history in
     FlowEffect (SendAction (Num 7) ActionPause) \<in> set effs
     \<and> FlowEffect (SendAction (Num 7) ActionContinue) \<notin> set effs
     \<and> map_of (pausedPanes (flowLedger b)) (Num 7) \<noteq> None
     \<and> pending_credit (Num 7) (fst (renderer_acks (Num 7) chunk_sizes)) = 65535
     \<and> total_outstanding (Num 7) (flowLedger b) = 5 * 65535
     \<and> 5 * 65535 > default_output_low_watermark"
  by code_simp

end
