(* ===== verification/Interest.thy ===== *)
theory Interest
  imports Sinks
begin

section \<open>Pane interest, idle suppression and query epochs\<close>

text \<open>
  \<open>PaneInterestTracker\<close> and \<open>TopologyEpochTracker\<close> of \<open>src/pane-output.ts\<close>, and
  \<open>src/idle-pane-suppressor.ts\<close>. The tracker's listener is always the suppressor, so the
  two are one state: which panes are interesting and which are paused. The actions sent to
  tmux are the effects.
\<close>

record interest =
  interestState :: "(jsnum \<times> bool) list"
  paused :: "jsnum list"

definition new_interest :: interest where
  "new_interest = \<lparr>interestState = [], paused = []\<rparr>"

type_synonym sent_action = "jsnum \<times> pane_action"

definition on_pane_became_interesting :: "jsnum \<Rightarrow> interest \<Rightarrow> interest \<times> sent_action list" where
  "on_pane_became_interesting p i =
     (i\<lparr>paused := set_delete p (paused i)\<rparr>, [(p, ActionContinue)])"

definition on_pane_became_idle :: "jsnum \<Rightarrow> interest \<Rightarrow> interest \<times> sent_action list" where
  "on_pane_became_idle p i = (i\<lparr>paused := set_add p (paused i)\<rparr>, [(p, ActionPause)])"

definition dispose_suppressor :: "interest \<Rightarrow> interest \<times> sent_action list" where
  "dispose_suppressor i =
     (i\<lparr>paused := []\<rparr>, map (\<lambda>p. (p, ActionContinue)) (paused i))"

definition is_interesting :: "registry \<Rightarrow> topology \<Rightarrow> jsnum \<Rightarrow> nat \<Rightarrow> bool" where
  "is_interesting r t p serverCount =
     (let admit = pane_attachment_count p r + serverCount
            + (case topology_get t p of
                 None \<Rightarrow> 0
               | Some meta \<Rightarrow>
                   window_attachment_count (pmWindow meta) r
                   + session_attachment_count (pmSession meta) r)
      in 0 < admit)"

definition next_state :: "registry \<Rightarrow> topology \<Rightarrow> (jsnum \<times> bool) list" where
  "next_state r t =
     (let serverCount = server_attachment_count r;
          add = (\<lambda>m p. AList.update p (is_interesting r t p serverCount) m)
      in foldl add (foldl add [] (pane_ids t)) (pane_scoped_pane_ids r))"

text \<open>The diff loop over the next map.\<close>

fun notify :: "(jsnum \<times> bool) list \<Rightarrow> (jsnum \<times> bool) list \<Rightarrow> interest \<Rightarrow> interest \<times> sent_action list" where
  "notify prev [] i = (i, [])"
| "notify prev ((p, interesting) # nxt) i =
     (if map_of prev p = Some interesting then notify prev nxt i
      else let (i1, a1) = (if interesting then on_pane_became_interesting p i
                           else on_pane_became_idle p i);
               (i2, a2) = notify prev nxt i1
           in (i2, a1 @ a2))"

definition recompute :: "registry \<Rightarrow> topology \<Rightarrow> interest \<Rightarrow> interest \<times> sent_action list" where
  "recompute r t i =
     (let nxt = next_state r t; (i', acts) = notify (interestState i) nxt i
      in (i'\<lparr>interestState := nxt\<rparr>, acts))"

subsection \<open>A pane is paused exactly while it is idle\<close>

text \<open>The panes the tracker follows.\<close>

definition universe :: "registry \<Rightarrow> topology \<Rightarrow> jsnum set" where
  "universe r t = set (pane_ids t) \<union> set (pane_scoped_pane_ids r)"

text \<open>Some live attachment's scope admits the pane.\<close>

definition watched :: "registry \<Rightarrow> topology \<Rightarrow> jsnum \<Rightarrow> bool" where
  "watched r t p \<longleftrightarrow>
     (\<exists>scope. get_bucket scope r \<noteq> [] \<and> scope_admits scope p (topology_get t p))"

definition interest_ok :: "interest \<Rightarrow> bool" where
  "interest_ok i \<longleftrightarrow>
     distinct (map fst (interestState i)) \<and>
     (\<forall>p b. map_of (interestState i) p = Some b \<longrightarrow> (p \<in> set (paused i) \<longleftrightarrow> \<not> b))"

lemma is_interesting_watched:
  "is_interesting r t p (server_attachment_count r) \<longleftrightarrow> watched r t p"
proof -
  have ex: "(\<exists>scope. P scope) \<longleftrightarrow> P ServerScope \<or> (\<exists>k. P (SessionScope k)) \<or> (\<exists>k. P (WindowScope k))
      \<or> (\<exists>k. P (PaneScope k))" for P
    by (metis pane_scope.exhaust)
  show ?thesis
    unfolding watched_def ex
    by (auto simp: is_interesting_def Let_def pane_attachment_count_def server_attachment_count_def
        window_attachment_count_def session_attachment_count_def split: option.splits)
qed

lemma map_of_fold_update:
  "map_of (foldl (\<lambda>m p. AList.update p (f p) m) m ps) =
     (\<lambda>q. if q \<in> set ps then Some (f q) else map_of m q)"
  by (induction ps arbitrary: m) (auto simp: fun_eq_iff)

lemma distinct_fold_update:
  "distinct (map fst m) \<Longrightarrow> distinct (map fst (foldl (\<lambda>m p. AList.update p (f p) m) m ps))"
  by (induction ps arbitrary: m) (simp_all add: distinct_update)

lemma next_state_map:
  "map_of (next_state r t) =
     (\<lambda>p. if p \<in> universe r t then Some (watched r t p) else None)"
  by (auto simp: next_state_def Let_def map_of_fold_update universe_def is_interesting_watched)

lemma next_state_distinct: "distinct (map fst (next_state r t))"
  by (simp add: next_state_def Let_def distinct_fold_update)

lemma notify_paused:
  assumes "distinct (map fst nxt)"
  shows "p \<in> set (paused (fst (notify prev nxt i))) \<longleftrightarrow>
    (case map_of nxt p of
       None \<Rightarrow> p \<in> set (paused i)
     | Some b \<Rightarrow> if map_of prev p = Some b then p \<in> set (paused i) else \<not> b)"
  using assms
proof (induction nxt arbitrary: i)
  case Nil
  then show ?case by simp
next
  case (Cons x nxt)
  obtain q b where x: "x = (q, b)" by (cases x)
  define i1 where "i1 = (if map_of prev q = Some b then i
    else if b then i\<lparr>paused := set_delete q (paused i)\<rparr> else i\<lparr>paused := set_add q (paused i)\<rparr>)"
  have step: "paused (fst (notify prev (x # nxt) i)) = paused (fst (notify prev nxt i1))"
    by (simp add: x i1_def Let_def split_beta on_pane_became_interesting_def
        on_pane_became_idle_def)
  have IH: "p \<in> set (paused (fst (notify prev nxt i1))) \<longleftrightarrow>
    (case map_of nxt p of
       None \<Rightarrow> p \<in> set (paused i1)
     | Some b \<Rightarrow> if map_of prev p = Some b then p \<in> set (paused i1) else \<not> b)"
    using Cons by simp
  show ?case
  proof (cases "p = q")
    case True
    then have "map_of nxt p = None" using Cons.prems x by (simp add: map_of_eq_None_iff)
    then show ?thesis unfolding step IH by (simp add: x True i1_def)
  next
    case False
    then have "p \<in> set (paused i1) \<longleftrightarrow> p \<in> set (paused i)" by (simp add: i1_def)
    then show ?thesis unfolding step IH using False by (simp add: x split: option.splits)
  qed
qed

text \<open>The transitions: panes whose interest changed or that are new to the universe.\<close>

lemma notify_actions:
  "snd (notify prev nxt i) =
     map (\<lambda>(p, b). (p, if b then ActionContinue else ActionPause))
       (filter (\<lambda>(p, b). map_of prev p \<noteq> Some b) nxt)"
  by (induction prev nxt i rule: notify.induct)
    (auto simp: Let_def split_beta on_pane_became_interesting_def on_pane_became_idle_def)

lemma recompute_ok: "interest_ok i \<Longrightarrow> interest_ok (fst (recompute r t i))"
  using notify_paused [OF next_state_distinct, of _ "interestState i" r t i]
  by (auto simp: interest_ok_def recompute_def Let_def split_beta next_state_distinct
      next_state_map split: if_splits)

text \<open>
  Idle suppression is exact. Whenever the attachments or the topology change and interest
  is recomputed, a pane the tracker follows is paused afterwards exactly if no live attachment
  admits it; exactly the panes whose interest changed, or that are newly followed, get an
  action; recomputing again sends nothing; and disposing continues exactly the paused panes.
\<close>

theorem suppression_exact:
  assumes "interest_ok i"
  shows "let (i', acts) = recompute r t i in
    interest_ok i' \<and>
    (\<forall>p. p \<in> universe r t \<longrightarrow> (p \<in> set (paused i') \<longleftrightarrow> \<not> watched r t p)) \<and>
    set acts = {(p, if watched r t p then ActionContinue else ActionPause) |p.
      p \<in> universe r t \<and> map_of (interestState i) p \<noteq> Some (watched r t p)} \<and>
    snd (recompute r t i') = [] \<and>
    snd (dispose_suppressor i') = map (\<lambda>p. (p, ActionContinue)) (paused i')"
proof -
  define i' where "i' = fst (recompute r t i)"
  have ok: "interest_ok i'" unfolding i'_def by (rule recompute_ok [OF assms])
  have st: "interestState i' = next_state r t"
    by (simp add: i'_def recompute_def Let_def split_beta)
  have acts: "snd (recompute r t i) =
      map (\<lambda>(p, b). (p, if b then ActionContinue else ActionPause))
       (filter (\<lambda>(p, b). map_of (interestState i) p \<noteq> Some b) (next_state r t))"
    for i by (simp add: recompute_def Let_def split_beta notify_actions)
  have mem: "(p, b) \<in> set (next_state r t) \<longleftrightarrow> p \<in> universe r t \<and> b = watched r t p" for p b
    using next_state_distinct [of r t] next_state_map [of r t]
    by (auto simp flip: map_of_eq_Some_iff split: if_splits)
  have "\<forall>p. p \<in> universe r t \<longrightarrow> (p \<in> set (paused i') \<longleftrightarrow> \<not> watched r t p)"
    using ok by (auto simp: interest_ok_def st next_state_map)
  moreover have "set (snd (recompute r t i)) =
      {(p, if watched r t p then ActionContinue else ActionPause) |p.
        p \<in> universe r t \<and> map_of (interestState i) p \<noteq> Some (watched r t p)}"
    unfolding acts by (auto simp: mem image_iff)
  moreover have "snd (recompute r t i') = []"
    unfolding acts st by (auto simp: filter_empty_conv mem next_state_map)
  ultimately show ?thesis
    using ok unfolding i'_def by (simp add: Let_def split_beta dispose_suppressor_def)
qed

theorem suppression_exact_witness:
  "interest_ok new_interest \<and>
   (let t = seed new_topology [\<lparr>pePane = Num 1, peWindow = Num 5, peSession = Num 0, peFloating = False\<rparr>,
                     \<lparr>pePane = Num 2, peWindow = Num 6, peSession = Num 0, peFloating = False\<rparr>];
        r = fst (attach 9 (WindowScope (Num 5)) new_registry)
    in recompute r t (fst (recompute r t new_interest)) = (fst (recompute r t new_interest), [])
       \<and> snd (recompute r t new_interest) = [(Num 1, ActionContinue), (Num 2, ActionPause)])"
proof -
  have ok: "interest_ok new_interest" by (simp add: interest_ok_def new_interest_def)
  let ?t = "seed new_topology [\<lparr>pePane = Num 1, peWindow = Num 5, peSession = Num 0, peFloating = False\<rparr>,
                     \<lparr>pePane = Num 2, peWindow = Num 6, peSession = Num 0, peFloating = False\<rparr>]"
  let ?r = "fst (attach 9 (WindowScope (Num 5)) new_registry)"
  have "snd (recompute ?r ?t (fst (recompute ?r ?t new_interest))) = []"
    using suppression_exact [OF ok, of ?r ?t] unfolding Let_def split_beta by blast
  moreover have "fst (recompute ?r ?t (fst (recompute ?r ?t new_interest))) = fst (recompute ?r ?t new_interest)"
    by code_simp
  moreover have "snd (recompute ?r ?t new_interest) = [(Num 1, ActionContinue), (Num 2, ActionPause)]"
    by code_simp
  ultimately show ?thesis using ok by (simp add: Let_def prod_eq_iff)
qed

subsection \<open>Query epochs\<close>

record epoch =
  bootstrapGen :: nat
  latestBootstrapStartGen :: nat
  windowGens :: "(jsnum \<times> nat) list"
  windowEpoch :: nat
  layoutsSinceBootstrap :: "(jsnum \<times> jsnum list) list"

definition new_epoch :: epoch where
  "new_epoch = \<lparr>bootstrapGen = 0, latestBootstrapStartGen = 0, windowGens = [], windowEpoch = 0,
     layoutsSinceBootstrap = []\<rparr>"

definition start_bootstrap :: "epoch \<Rightarrow> epoch \<times> nat" where
  "start_bootstrap e =
     (let gen = Suc (bootstrapGen e)
      in (e\<lparr>windowGens := [], layoutsSinceBootstrap := [], bootstrapGen := gen,
            latestBootstrapStartGen := gen\<rparr>, gen))"

definition is_bootstrap_current :: "nat \<Rightarrow> epoch \<Rightarrow> bool" where
  "is_bootstrap_current gen e \<longleftrightarrow> bootstrapGen e = gen"

definition is_latest_bootstrap :: "nat \<Rightarrow> epoch \<Rightarrow> bool" where
  "is_latest_bootstrap gen e \<longleftrightarrow> latestBootstrapStartGen e = gen"

definition record_layout :: "jsnum \<Rightarrow> jsnum list \<Rightarrow> epoch \<Rightarrow> epoch" where
  "record_layout w ps e = e\<lparr>layoutsSinceBootstrap := AList.update w ps (layoutsSinceBootstrap e)\<rparr>"

definition forget_layout :: "jsnum \<Rightarrow> epoch \<Rightarrow> epoch" where
  "forget_layout w e = e\<lparr>layoutsSinceBootstrap := AList.delete w (layoutsSinceBootstrap e)\<rparr>"

definition take_layouts :: "epoch \<Rightarrow> epoch \<times> (jsnum \<times> jsnum list) list" where
  "take_layouts e = (e\<lparr>layoutsSinceBootstrap := []\<rparr>, layoutsSinceBootstrap e)"

definition start_window_refresh :: "jsnum \<Rightarrow> epoch \<Rightarrow> epoch \<times> nat" where
  "start_window_refresh w e =
     (let gen = Suc (windowEpoch e)
      in (e\<lparr>windowEpoch := gen, windowGens := AList.update w gen (windowGens e)\<rparr>, gen))"

definition is_window_refresh_current :: "jsnum \<Rightarrow> nat \<Rightarrow> epoch \<Rightarrow> bool" where
  "is_window_refresh_current w gen e \<longleftrightarrow> map_of (windowGens e) w = Some gen"

definition invalidate_window :: "jsnum \<Rightarrow> epoch \<Rightarrow> epoch" where
  "invalidate_window w e =
     e\<lparr>bootstrapGen := Suc (bootstrapGen e),
       layoutsSinceBootstrap := AList.delete w (layoutsSinceBootstrap e),
       windowGens := AList.delete w (windowGens e)\<rparr>"

datatype epoch_op =
    StartBootstrap
  | StartRefresh jsnum
  | Invalidate jsnum
  | RecordLayout jsnum "jsnum list"
  | ForgetLayout jsnum
  | TakeLayouts

fun epoch_step :: "epoch \<Rightarrow> epoch_op \<Rightarrow> epoch \<times> nat list" where
  "epoch_step e StartBootstrap = (let (e', g) = start_bootstrap e in (e', [g]))"
| "epoch_step e (StartRefresh w) = (let (e', g) = start_window_refresh w e in (e', [g]))"
| "epoch_step e (Invalidate w) = (invalidate_window w e, [])"
| "epoch_step e (RecordLayout w ps) = (record_layout w ps e, [])"
| "epoch_step e (ForgetLayout w) = (forget_layout w e, [])"
| "epoch_step e TakeLayouts = (fst (take_layouts e), [])"

lemmas epoch_defs = start_bootstrap_def start_window_refresh_def invalidate_window_def
  record_layout_def forget_layout_def take_layouts_def Let_def

definition epoch_ok :: "epoch \<Rightarrow> bool" where
  "epoch_ok e \<longleftrightarrow> latestBootstrapStartGen e \<le> bootstrapGen e
     \<and> (\<forall>w g. map_of (windowGens e) w = Some g \<longrightarrow> g \<le> windowEpoch e)"

lemma epoch_step_ok: "epoch_ok e \<Longrightarrow> epoch_ok (fst (epoch_step e op))"
  by (cases op) (force simp: epoch_ok_def epoch_defs)+

interpretation epoch: invariant_steps epoch_step epoch_ok
  by unfold_locales (rule epoch_step_ok)

text \<open>A run of the tracker, as seen by one of its tokens.\<close>

lemma bootstrap_run:
  "g \<le> bootstrapGen e \<Longrightarrow>
   bootstrapGen (fst (run_steps epoch_step e ops)) = g \<longleftrightarrow>
     bootstrapGen e = g \<and> (\<forall>op\<in>set ops. op \<noteq> StartBootstrap \<and> (\<forall>w. op \<noteq> Invalidate w))"
proof (induction ops arbitrary: e)
  case Nil
  then show ?case by simp
next
  case (Cons op ops)
  have "g \<le> bootstrapGen (fst (epoch_step e op))"
    using Cons.prems by (cases op) (simp_all add: epoch_defs)
  from Cons.IH [OF this] show ?case
    using Cons.prems by (cases op) (auto simp: epoch_defs)
qed

lemma latest_run:
  "g \<le> latestBootstrapStartGen e \<Longrightarrow> epoch_ok e \<Longrightarrow>
   latestBootstrapStartGen (fst (run_steps epoch_step e ops)) = g \<longleftrightarrow>
     latestBootstrapStartGen e = g \<and> StartBootstrap \<notin> set ops"
proof (induction ops arbitrary: e)
  case Nil
  then show ?case by simp
next
  case (Cons op ops)
  have "g \<le> latestBootstrapStartGen (fst (epoch_step e op))"
    using Cons.prems by (cases op) (simp_all add: epoch_defs epoch_ok_def)
  from Cons.IH [OF this epoch_step_ok [OF Cons.prems(2)]] show ?case
    using Cons.prems by (cases op) (auto simp: epoch_defs epoch_ok_def)
qed

definition supersedes :: "jsnum \<Rightarrow> epoch_op \<Rightarrow> bool" where
  "supersedes w op \<longleftrightarrow> op = StartBootstrap \<or> op = StartRefresh w \<or> op = Invalidate w"

lemma refresh_run:
  "g \<le> windowEpoch e \<Longrightarrow>
   map_of (windowGens (fst (run_steps epoch_step e ops))) w = Some g \<longleftrightarrow>
     map_of (windowGens e) w = Some g \<and> (\<forall>op\<in>set ops. \<not> supersedes w op)"
proof (induction ops arbitrary: e)
  case Nil
  then show ?case by simp
next
  case (Cons op ops)
  have "g \<le> windowEpoch (fst (epoch_step e op))"
    using Cons.prems by (cases op) (simp_all add: epoch_defs)
  from Cons.IH [OF this] show ?case
    using Cons.prems by (cases op) (auto simp: epoch_defs supersedes_def)
qed

text \<open>
  A query's answer is applied exactly when nothing has superseded it. Whatever happened
  before the query and since: a bootstrap's token is current while no bootstrap started and no
  window's membership changed; it is the latest while no bootstrap started; a window refresh's
  token is current while no bootstrap started, no newer refresh of that window started and its
  membership did not change. Tokens never alias, also across the clearing of the table.
\<close>

theorem epoch_staleness:
  "let e = fst (run_steps epoch_step new_epoch before);
       (eb, gb) = start_bootstrap e; (ew, gw) = start_window_refresh w e;
       lb = fst (run_steps epoch_step eb ops); lw = fst (run_steps epoch_step ew ops) in
     (is_bootstrap_current gb lb \<longleftrightarrow>
        list_all (\<lambda>op. op \<noteq> StartBootstrap \<and> (\<forall>v. op \<noteq> Invalidate v)) ops) \<and>
     (is_latest_bootstrap gb lb \<longleftrightarrow> StartBootstrap \<notin> set ops) \<and>
     (is_window_refresh_current w gw lw \<longleftrightarrow> list_all (\<lambda>op. \<not> supersedes w op) ops)"
proof -
  define e where "e = fst (run_steps epoch_step new_epoch before)"
  have "epoch_ok new_epoch" by (simp add: epoch_ok_def new_epoch_def)
  then have ok: "epoch_ok e" unfolding e_def by (rule epoch.run_keeps)
  define eb where "eb = fst (start_bootstrap e)"
  define ew where "ew = fst (start_window_refresh w e)"
  have okb: "epoch_ok eb" using epoch_step_ok [OF ok, of StartBootstrap] by (simp add: eb_def split_beta)
  show ?thesis
    unfolding e_def [symmetric]
    using bootstrap_run [of "snd (start_bootstrap e)" eb ops]
      latest_run [OF _ okb, of "snd (start_bootstrap e)" ops]
      refresh_run [of "snd (start_window_refresh w e)" ew ops w]
    by (simp add: eb_def ew_def start_bootstrap_def start_window_refresh_def Let_def
        is_bootstrap_current_def is_latest_bootstrap_def is_window_refresh_current_def
        list_all_iff)
qed

end
