(* ===== verification/Router.thy ===== *)
theory Router
  imports Client Interest
begin

section \<open>The topology router\<close>

text \<open>
  \<open>src/topology-router.ts\<close>. A command runner is a number, its object identity: each
  connection brings its own. A topology query is an asynchronous call: \<open>queries\<close> lists those
  that were sent and have not settled, with what their frames captured, and \<open>Settle\<close> resumes
  one with the reply of its command. Calls on sinks, commands and the error report are the
  effects of a step; what a sink or the command runner calls back is an operation after it.
\<close>

definition held_bytes_limit :: nat where
  "held_bytes_limit = 4 * 1024 * 1024"

definition pane_list_format :: string where
  "pane_list_format = ''#{pane_id} #{window_id} #{session_id} #{pane_floating_flag}''"

datatype query = BootstrapQuery nat nat | RefreshQuery jsnum nat nat

datatype router_error =
    BootstrapFailed client_error
  | RefreshFailed jsnum client_error
  | HoldOverflow nat

datatype router_effect =
    SinkCall sink_effect
  | RunCommand nat string
  | ReportError router_error

record held_chunk =
  heldChunk :: chunk
  attachedBy :: nat

record router =
  sinks :: registry
  rTopology :: topology
  rEpoch :: epoch
  runCommand :: "nat option"
  queryRun :: "nat option"
  rInterest :: "interest option"
  held :: "held_chunk list"
  heldBytes :: nat
  refusedBytes :: nat
  inFlight :: nat
  queries :: "query list"

definition new_router :: "bool \<Rightarrow> router" where
  "new_router idlePaneSuppression =
     \<lparr>sinks = new_registry, rTopology = new_topology, rEpoch = new_epoch, runCommand = None,
      queryRun = None, rInterest = (if idlePaneSuppression then Some new_interest else None),
      held = [], heldBytes = 0, refusedBytes = 0, inFlight = 0, queries = []\<rparr>"

text \<open>tmux's answer to a refresh of a window that no longer exists.\<close>

definition is_window_gone :: "client_error \<Rightarrow> bool" where
  "is_window_gone err =
     (case err of
        TmuxCommandError resp \<Rightarrow>
          take (length (''can'' @ [QUOTE] @ ''t find window'')) (headline resp)
            = ''can'' @ [QUOTE] @ ''t find window''
      | _ \<Rightarrow> False)"

definition needs_topology :: "router \<Rightarrow> bool" where
  "needs_topology r \<longleftrightarrow> has_topology_dependent_sinks (sinks r) \<or> rInterest r \<noteq> None"

definition send_pane_actions :: "router \<Rightarrow> sent_action list \<Rightarrow> router_effect list" where
  "send_pane_actions r acts =
     (case runCommand r of
        None \<Rightarrow> []
      | Some run \<Rightarrow> map (\<lambda>(p, a). RunCommand run (refresh_client_pane_action p a)) acts)"

definition recompute_interest :: "router \<Rightarrow> router \<times> router_effect list" where
  "recompute_interest r =
     (case rInterest r of
        None \<Rightarrow> (r, [])
      | Some i \<Rightarrow>
          let (i', acts) = recompute (sinks r) (rTopology r) i
          in (r\<lparr>rInterest := Some i'\<rparr>, send_pane_actions r acts))"

text \<open>The part of \<open>bootstrap\<close> and of \<open>refreshWindow\<close> before their \<open>await\<close>.\<close>

definition bootstrap :: "router \<Rightarrow> router \<times> router_effect list" where
  "bootstrap r =
     (case queryRun r of
        None \<Rightarrow> (r, [])
      | Some run \<Rightarrow>
          let (e, gen) = start_bootstrap (rEpoch r)
          in (r\<lparr>rEpoch := e, inFlight := Suc (inFlight r),
                queries := queries r @ [BootstrapQuery run gen]\<rparr>,
              [RunCommand run (''list-panes -a -F '' @ [QUOTE] @ pane_list_format @ [QUOTE])]))"

definition refresh_window :: "jsnum \<Rightarrow> router \<Rightarrow> router \<times> router_effect list" where
  "refresh_window w r =
     (case queryRun r of
        None \<Rightarrow> (r, [])
      | Some run \<Rightarrow>
          let (e, gen) = start_window_refresh w (rEpoch r)
          in (r\<lparr>rEpoch := e, inFlight := Suc (inFlight r),
                queries := queries r @ [RefreshQuery w run gen]\<rparr>,
              [RunCommand run (''list-panes -t @'' @ num_str w @ '' -F '' @ [QUOTE]
                 @ pane_list_format @ [QUOTE])]))"

definition requery :: "contradiction \<Rightarrow> jsnum list \<Rightarrow> router \<Rightarrow> router \<times> router_effect list" where
  "requery c windows r =
     (if lostTrack c then bootstrap r
      else run_steps (\<lambda>r w. refresh_window w r) r (set_of_list (left c @ windows)))"

text \<open>
  Held output: the cap, and the replay at the end of every query. The replay loop stops when a
  replayed sink's write closes or replaces the transport; a sink's call back into the router
  is an operation of its own here, so the loop runs to its end.
\<close>

definition hold :: "chunk \<Rightarrow> router \<Rightarrow> router" where
  "hold payload r =
     (let size = length (chunkData payload) in
      if heldBytes r + size > held_bytes_limit then r\<lparr>refusedBytes := refusedBytes r + size\<rparr>
      else r\<lparr>heldBytes := heldBytes r + size,
             held := held r @ [\<lparr>heldChunk = payload, attachedBy = attach_seq (sinks r)\<rparr>]\<rparr>)"

definition release_one :: "router \<Rightarrow> held_chunk \<Rightarrow> router \<times> router_effect list" where
  "release_one r h =
     (case topology_get (rTopology r) (chunkPane (heldChunk h)) of
        Some meta \<Rightarrow>
          (r, map SinkCall (dispatch (heldChunk h) (Some meta) (Replay (attachedBy h)) (sinks r)))
      | None \<Rightarrow>
          if 0 < inFlight r then
            (r\<lparr>held := held r @ [h], heldBytes := heldBytes r + length (chunkData (heldChunk h))\<rparr>, [])
          else (r, []))"

definition release_held :: "router \<Rightarrow> router \<times> router_effect list" where
  "release_held r =
     (let pend = held r;
          report = (if 0 < refusedBytes r then [ReportError (HoldOverflow (refusedBytes r))] else []);
          r0 = r\<lparr>held := [], heldBytes := 0, refusedBytes := 0\<rparr>;
          (r1, effs) = run_steps release_one r0 pend
      in (r1, report @ effs))"

text \<open>The bodies of the two queries after their \<open>await\<close>, without the \<open>finally\<close>.\<close>

definition contradicted_by_layouts ::
    "topology \<Rightarrow> (jsnum \<times> jsnum list) list \<Rightarrow> topology \<times> contradiction" where
  "contradicted_by_layouts t layouts =
     foldl (\<lambda>(t, c) (w, panes).
        let (t', d) = unplace_contradicted t w panes
        in (t', \<lparr>left = foldl (\<lambda>s x. set_add x s) (left c) (left d),
                 lostTrack = (lostTrack c \<or> lostTrack d)\<rparr>))
      (t, \<lparr>left = [], lostTrack = False\<rparr>) layouts"

definition bootstrap_settled ::
    "nat \<Rightarrow> nat \<Rightarrow> client_error + string list \<Rightarrow> router \<Rightarrow> router \<times> router_effect list" where
  "bootstrap_settled run gen result r =
     (case result of
        Inr output \<Rightarrow>
          if \<not> is_bootstrap_current gen (rEpoch r) then
            (if queryRun r = Some run \<and> needs_topology r \<and> is_latest_bootstrap gen (rEpoch r)
             then bootstrap r else (r, []))
          else
            let t = seed (rTopology r) (parse_pane_list output);
                (e, layouts) = take_layouts (rEpoch r);
                (t', c) = contradicted_by_layouts t layouts;
                (r1, q) = requery c [] (r\<lparr>rTopology := t', rEpoch := e\<rparr>);
                (r2, acts) = recompute_interest r1
            in (r2, q @ acts)
      | Inl err \<Rightarrow>
          if queryRun r \<noteq> Some run then (r, [])
          else if \<not> is_latest_bootstrap gen (rEpoch r) then (r, [])
          else (r, [ReportError (BootstrapFailed err)]))"

definition refresh_settled ::
    "jsnum \<Rightarrow> nat \<Rightarrow> nat \<Rightarrow> client_error + string list \<Rightarrow> router \<Rightarrow> router \<times> router_effect list" where
  "refresh_settled w run gen result r =
     (if \<not> is_window_refresh_current w gen (rEpoch r) then (r, [])
      else case result of
        Inr output \<Rightarrow>
          let (t, c) = update_window (rTopology r) w (parse_pane_list output);
              (r1, q) = requery c [] (r\<lparr>rTopology := t\<rparr>);
              (r2, acts) = recompute_interest r1
          in (r2, q @ acts)
      | Inl err \<Rightarrow>
          let (r1, acts) = recompute_interest (r\<lparr>rTopology := remove_window (rTopology r) w\<rparr>) in
          if queryRun r1 \<noteq> Some run then (r1, acts)
          else if is_window_gone err then (r1, acts)
          else
            let (r2, q) = (if needs_topology r1 then bootstrap r1 else (r1, []))
            in (r2, acts @ q @ [ReportError (RefreshFailed w err)]))"

text \<open>The \<open>finally\<close> of both.\<close>

definition finish_query :: "router \<Rightarrow> router \<times> router_effect list" where
  "finish_query r = release_held (r\<lparr>inFlight := inFlight r - 1\<rparr>)"

definition settle_query ::
    "query \<Rightarrow> client_error + string list \<Rightarrow> router \<Rightarrow> router \<times> router_effect list" where
  "settle_query q result r =
     (let r0 = r\<lparr>queries := remove1 q (queries r)\<rparr>;
          (r1, effs) = (case q of
                          BootstrapQuery run gen \<Rightarrow> bootstrap_settled run gen result r0
                        | RefreshQuery w run gen \<Rightarrow> refresh_settled w run gen result r0);
          (r2, rel) = finish_query r1
      in (r2, effs @ rel))"

subsection \<open>The adapter's interface\<close>

definition on_transport_ready :: "nat \<Rightarrow> router \<Rightarrow> router \<times> router_effect list" where
  "on_transport_ready run r =
     (let r' = r\<lparr>runCommand := Some run, queryRun := Some run\<rparr>
      in if needs_topology r' then bootstrap r' else (r', []))"

definition on_transport_lost :: "nat \<Rightarrow> router \<Rightarrow> router" where
  "on_transport_lost run r =
     (if queryRun r \<noteq> Some run then r
      else r\<lparr>queryRun := None, rTopology := seed (rTopology r) []\<rparr>)"

definition on_transport_close :: "router \<Rightarrow> router \<times> router_effect list" where
  "on_transport_close r =
     (let r0 = r\<lparr>runCommand := None, queryRun := None\<rparr>;
          r1 = (case rInterest r0 of
                  None \<Rightarrow> r0
                | Some i \<Rightarrow> r0\<lparr>rInterest := Some (fst (dispose_suppressor i))\<rparr>);
          acts = (case rInterest r0 of
                    None \<Rightarrow> [] | Some i \<Rightarrow> send_pane_actions r0 (snd (dispose_suppressor i)));
          (s, ends) = end_all (sinks r1)
      in (r1\<lparr>held := [], heldBytes := 0, refusedBytes := 0, sinks := s\<rparr>, acts @ map SinkCall ends))"

definition attach_bytes_sink :: "nat \<Rightarrow> pane_scope \<Rightarrow> router \<Rightarrow> router \<times> router_effect list" where
  "attach_bytes_sink s scope r =
     (let r0 = r\<lparr>sinks := fst (attach s scope (sinks r))\<rparr>;
          (r1, q) = (if (case scope of SessionScope k \<Rightarrow> True | WindowScope k \<Rightarrow> True | _ \<Rightarrow> False)
                        \<and> queryRun r0 \<noteq> None
                     then bootstrap r0 else (r0, []));
          (r2, acts) = recompute_interest r1
      in (r2, q @ acts))"

definition dispose_bytes_sink ::
    "attachment \<Rightarrow> pane_scope \<Rightarrow> router \<Rightarrow> router \<times> router_effect list" where
  "dispose_bytes_sink a scope r =
     (let (s, ends) = dispose a scope (sinks r);
          (r1, acts) = recompute_interest (r\<lparr>sinks := s\<rparr>)
      in (r1, map SinkCall ends @ acts))"

definition dispatch_bytes :: "chunk \<Rightarrow> router \<Rightarrow> router \<times> router_effect list" where
  "dispatch_bytes payload r =
     (let meta = topology_get (rTopology r) (chunkPane payload);
          writes = map SinkCall (dispatch payload meta Live (sinks r))
      in (if meta = None \<and> has_topology_dependent_sinks (sinks r) \<and> 0 < inFlight r
          then hold payload r else r, writes))"

text \<open>The membership of a window changed.\<close>

definition window_changed :: "jsnum \<Rightarrow> router \<Rightarrow> router \<times> router_effect list" where
  "window_changed w r =
     (let (r1, acts) = recompute_interest
            (r\<lparr>rTopology := remove_window (rTopology r) w, rEpoch := invalidate_window w (rEpoch r)\<rparr>);
          (r2, q) = (if needs_topology r1 then refresh_window w r1 else (r1, []))
      in (r2, acts @ q))"

definition layout_changed :: "jsnum \<Rightarrow> window_layout \<Rightarrow> router \<Rightarrow> router \<times> router_effect list" where
  "layout_changed w lay r =
     (if \<not> needs_topology r then (r, [])
      else case lay of
        Parsed panes \<Rightarrow>
          let ids = map geoPaneId panes;
              (t, c) = unplace_contradicted (rTopology r) w ids
          in requery c [w] (r\<lparr>rEpoch := record_layout w ids (rEpoch r), rTopology := t\<rparr>)
      | Malformed reason \<Rightarrow> refresh_window w (r\<lparr>rEpoch := forget_layout w (rEpoch r)\<rparr>))"

definition handle_notification :: "tmux_message \<Rightarrow> router \<Rightarrow> router \<times> router_effect list" where
  "handle_notification msg r =
     (case msg of
        WindowAdd w \<Rightarrow> window_changed w r
      | UnlinkedWindowAdd w \<Rightarrow> window_changed w r
      | WindowClose w \<Rightarrow> window_changed w r
      | UnlinkedWindowClose w \<Rightarrow> window_changed w r
      | LayoutChange w l \<Rightarrow> layout_changed w (layout l) r
      | SessionChanged s name \<Rightarrow> (if needs_topology r then bootstrap r else (r, []))
      | SessionsChanged \<Rightarrow> (if needs_topology r then bootstrap r else (r, []))
      | _ \<Rightarrow> (r, []))"

datatype router_op =
    TransportReady nat
  | TransportLost nat
  | TransportClosed
  | AttachSink nat pane_scope
  | DisposeSink attachment pane_scope
  | DispatchBytes chunk
  | Notify tmux_message
  | Settle query "client_error + string list"

fun router_step :: "router \<Rightarrow> router_op \<Rightarrow> router \<times> router_effect list" where
  "router_step r (TransportReady run) = on_transport_ready run r"
| "router_step r (TransportLost run) = (on_transport_lost run r, [])"
| "router_step r TransportClosed = on_transport_close r"
| "router_step r (AttachSink s scope) = attach_bytes_sink s scope r"
| "router_step r (DisposeSink a scope) = dispose_bytes_sink a scope r"
| "router_step r (DispatchBytes payload) = dispatch_bytes payload r"
| "router_step r (Notify msg) = handle_notification msg r"
| "router_step r (Settle q result) =
     (if q \<in> set (queries r) then settle_query q result r else (r, []))"

subsection \<open>Invariant\<close>

definition chunk_size :: "held_chunk \<Rightarrow> nat" where
  "chunk_size h = length (chunkData (heldChunk h))"

text \<open>Every outstanding query's token was issued by the tracker.\<close>

definition query_issued :: "epoch \<Rightarrow> query \<Rightarrow> bool" where
  "query_issued e q =
     (case q of BootstrapQuery run gen \<Rightarrow> gen \<le> bootstrapGen e | RefreshQuery w run gen \<Rightarrow> gen \<le> windowEpoch e)"

text \<open>
  The hold is bounded and its size is tracked, and nothing is held unless a query is
  outstanding that may place it.
\<close>

definition hold_ok :: "router \<Rightarrow> bool" where
  "hold_ok r \<longleftrightarrow>
     heldBytes r = sum_list (map chunk_size (held r)) \<and> heldBytes r \<le> held_bytes_limit
     \<and> (held r = [] \<or> 0 < inFlight r)
     \<and> (\<forall>h\<in>set (held r). attachedBy h \<le> lastSeq (sinks r))"

definition parts_ok :: "router \<Rightarrow> bool" where
  "parts_ok r \<longleftrightarrow>
     registry_ok (sinks r) \<and> topology_ok (rTopology r) \<and> epoch_ok (rEpoch r)
     \<and> list_all (query_issued (rEpoch r)) (queries r)"

text \<open>While a settled query has not yet run its \<open>finally\<close> it is still counted in flight.\<close>

definition router_inv :: "nat \<Rightarrow> router \<Rightarrow> bool" where
  "router_inv settling r \<longleftrightarrow>
     parts_ok r \<and> hold_ok r \<and> inFlight r = length (queries r) + settling"

abbreviation router_ok :: "router \<Rightarrow> bool" where
  "router_ok \<equiv> router_inv 0"

lemmas router_inv_defs = router_inv_def parts_ok_def hold_ok_def

lemma new_router_ok: "router_ok (new_router b)"
  using new_registry_ok
  by (simp add: router_inv_defs new_router_def epoch_ok_def new_epoch_def)

lemma recompute_interest_fst:
  "fst (recompute_interest r) =
     r\<lparr>rInterest := map_option (\<lambda>i. fst (recompute (sinks r) (rTopology r) i)) (rInterest r)\<rparr>"
  by (cases "rInterest r") (simp_all add: recompute_interest_def split_beta)

lemma recompute_interest_inv:
  "router_inv d (fst (recompute_interest r)) \<longleftrightarrow> router_inv d r" if "router_inv d r"
  using that by (simp add: recompute_interest_fst router_inv_defs)

lemma query_issued_mono:
  "query_issued e q \<Longrightarrow> bootstrapGen e \<le> bootstrapGen e' \<Longrightarrow> windowEpoch e \<le> windowEpoch e' \<Longrightarrow>
   query_issued e' q"
  by (cases q) (simp_all add: query_issued_def)

lemma issued_mono:
  "list_all (query_issued e) qs \<Longrightarrow> bootstrapGen e \<le> bootstrapGen e' \<Longrightarrow>
   windowEpoch e \<le> windowEpoch e' \<Longrightarrow> list_all (query_issued e') qs"
  using query_issued_mono by (auto simp: list_all_iff)

text \<open>Every operation of the tracker keeps the invariant and ages the tokens.\<close>

lemma epoch_inv:
  assumes "router_inv d r"
  shows "router_inv d (r\<lparr>rEpoch := fst (epoch_step (rEpoch r) op)\<rparr>)"
proof -
  have "bootstrapGen (rEpoch r) \<le> bootstrapGen (fst (epoch_step (rEpoch r) op))"
    "windowEpoch (rEpoch r) \<le> windowEpoch (fst (epoch_step (rEpoch r) op))"
    by (cases op; simp add: epoch_defs)+
  note issued = issued_mono [OF _ this]
  have "epoch_ok (fst (epoch_step (rEpoch r) op))"
    using assms by (intro epoch_step_ok) (simp add: router_inv_defs)
  then show ?thesis using assms issued [of "queries r"] by (auto simp: router_inv_defs)
qed

lemma topology_inv:
  "router_inv d r \<Longrightarrow> topology_ok t \<Longrightarrow> router_inv d (r\<lparr>rTopology := t\<rparr>)"
  by (auto simp: router_inv_defs)

lemma epochs_inv [intro]:
  "router_inv d r \<Longrightarrow> router_inv d (r\<lparr>rEpoch := invalidate_window w (rEpoch r)\<rparr>)"
  "router_inv d r \<Longrightarrow> router_inv d (r\<lparr>rEpoch := record_layout w ps (rEpoch r)\<rparr>)"
  "router_inv d r \<Longrightarrow> router_inv d (r\<lparr>rEpoch := forget_layout w (rEpoch r)\<rparr>)"
  "router_inv d r \<Longrightarrow> router_inv d (r\<lparr>rEpoch := fst (take_layouts (rEpoch r))\<rparr>)"
  using epoch_inv [of d r "Invalidate w"] epoch_inv [of d r "RecordLayout w ps"]
    epoch_inv [of d r "ForgetLayout w"] epoch_inv [of d r TakeLayouts]
  by simp_all

lemma bootstrap_inv: "router_inv d r \<Longrightarrow> router_inv d (fst (bootstrap r))"
  using epoch_inv [of d r StartBootstrap]
  by (cases "queryRun r") (auto simp: bootstrap_def router_inv_defs epoch_defs query_issued_def)

lemma refresh_window_inv: "router_inv d r \<Longrightarrow> router_inv d (fst (refresh_window w r))"
  using epoch_inv [of d r "StartRefresh w"]
  by (cases "queryRun r") (auto simp: refresh_window_def router_inv_defs epoch_defs query_issued_def)

interpretation refreshes: invariant_steps "\<lambda>r w. refresh_window w r" "router_inv d"
  by unfold_locales (rule refresh_window_inv)

lemma requery_inv: "router_inv d r \<Longrightarrow> router_inv d (fst (requery c ws r))"
  by (simp add: requery_def bootstrap_inv refreshes.run_keeps)

lemma topology_ops_ok:
  "topology_ok t \<Longrightarrow> topology_ok (remove_window t w)"
  "topology_ok t \<Longrightarrow> topology_ok (fst (update_window t w es))"
  "topology_ok t \<Longrightarrow> topology_ok (fst (unplace_contradicted t w ps))"
  "topology_ok (seed t es)"
  using topology_step_ok [of t "RemoveWindow w"] topology_step_ok [of t "UpdateWindow w es"]
    topology_step_ok [of t "LayoutPanes w ps"] seed_correct(2) [of t es]
  by (simp_all add: split_beta)

lemma contradicted_ok:
  "topology_ok t \<Longrightarrow> topology_ok (fst (contradicted_by_layouts t layouts))"
proof -
  have "topology_ok t \<Longrightarrow> topology_ok (fst (foldl (\<lambda>(t, c) (w, panes).
        let (t', d) = unplace_contradicted t w panes
        in (t', \<lparr>left = foldl (\<lambda>s x. set_add x s) (left c) (left d),
                 lostTrack = (lostTrack c \<or> lostTrack d)\<rparr>)) (t, c) layouts))" for c
    by (induction layouts arbitrary: t c) (simp_all add: split_beta topology_ops_ok)
  then show "topology_ok t \<Longrightarrow> ?thesis" by (simp add: contradicted_by_layouts_def)
qed

subsection \<open>The replay at the end of a query\<close>

definition is_placed :: "router \<Rightarrow> held_chunk \<Rightarrow> bool" where
  "is_placed r h \<longleftrightarrow> topology_get (rTopology r) (chunkPane (heldChunk h)) \<noteq> None"

definition replay :: "router \<Rightarrow> held_chunk \<Rightarrow> router_effect list" where
  "replay r h =
     map SinkCall (dispatch (heldChunk h) (topology_get (rTopology r) (chunkPane (heldChunk h)))
       (Replay (attachedBy h)) (sinks r))"

text \<open>The chunks that wait on: unplaced, while another query is outstanding.\<close>

definition waiting :: "router \<Rightarrow> held_chunk list \<Rightarrow> held_chunk list" where
  "waiting r hs = (if 0 < inFlight r then filter (\<lambda>h. \<not> is_placed r h) hs else [])"

lemma waiting_simps [simp]:
  "waiting r [] = []"
  "waiting (r\<lparr>held := x\<rparr>) hs = waiting r hs"
  "waiting (r\<lparr>held := x, heldBytes := y\<rparr>) hs = waiting r hs"
  "waiting (r\<lparr>held := x, heldBytes := y, refusedBytes := z\<rparr>) hs = waiting r hs"
  "set (waiting r hs) \<subseteq> set hs"
  by (auto simp: waiting_def is_placed_def)

lemma placed_simps [simp]:
  "is_placed (r\<lparr>held := x, heldBytes := y\<rparr>) = is_placed r"
  "is_placed (r\<lparr>held := x, heldBytes := y, refusedBytes := z\<rparr>) = is_placed r"
  "replay (r\<lparr>held := x, heldBytes := y\<rparr>) = replay r"
  "replay (r\<lparr>held := x, heldBytes := y, refusedBytes := z\<rparr>) = replay r"
  by (simp_all add: is_placed_def replay_def fun_eq_iff)

lemma release_run:
  "run_steps release_one r hs =
     (r\<lparr>held := held r @ waiting r hs, heldBytes := heldBytes r + sum_list (map chunk_size (waiting r hs))\<rparr>,
      concat (map (replay r) (filter (is_placed r) hs)))"
proof (induction hs arbitrary: r)
  case Nil
  then show ?case by simp
next
  case (Cons h hs)
  then show ?case
    by (cases "topology_get (rTopology r) (chunkPane (heldChunk h))")
      (simp_all add: release_one_def is_placed_def replay_def waiting_def chunk_size_def prod_eq_iff)
qed

definition overflow_report :: "router \<Rightarrow> router_effect list" where
  "overflow_report r = (if 0 < refusedBytes r then [ReportError (HoldOverflow (refusedBytes r))] else [])"

lemma release_held_eq:
  "release_held r =
     (r\<lparr>held := waiting r (held r), heldBytes := sum_list (map chunk_size (waiting r (held r))),
        refusedBytes := 0\<rparr>,
      overflow_report r @ concat (map (replay r) (filter (is_placed r) (held r))))"
  by (simp add: release_held_def Let_def release_run overflow_report_def)

lemma waiting_size: "sum_list (map chunk_size (waiting r hs)) \<le> sum_list (map chunk_size hs)"
  by (auto simp: waiting_def intro: sum_list_filter_le_nat)

lemma finish_query_inv: "router_inv 1 r \<Longrightarrow> router_inv 0 (fst (finish_query r))"
proof -
  assume r: "router_inv 1 r"
  let ?r = "r\<lparr>inFlight := inFlight r - 1\<rparr>"
  have "hold_ok (fst (release_held ?r))"
    using r order_trans [OF waiting_size [of ?r "held r"]] waiting_simps(5) [of ?r "held r"]
    by (auto simp: release_held_eq router_inv_defs waiting_def)
  then show ?thesis using r
    by (auto simp: finish_query_def release_held_eq router_inv_def parts_ok_def)
qed

lemma hold_inv: "router_inv d r \<Longrightarrow> 0 < inFlight r \<Longrightarrow> router_inv d (hold payload r)"
  by (auto simp: router_inv_defs hold_def Let_def attach_seq_def chunk_size_def)

lemma bootstrap_settled_inv:
  assumes "router_inv d r"
  shows "router_inv d (fst (bootstrap_settled run gen result r))"
proof (cases result)
  case (Inl err)
  then show ?thesis using assms by (simp add: bootstrap_settled_def)
next
  case (Inr out)
  let ?t = "fst (contradicted_by_layouts (seed (rTopology r) (parse_pane_list out))
      (snd (take_layouts (rEpoch r))))"
  have "topology_ok ?t" by (rule contradicted_ok) (rule topology_ops_ok)
  from epochs_inv(4) [OF topology_inv [OF assms this]]
  have "router_inv d (r\<lparr>rTopology := ?t, rEpoch := fst (take_layouts (rEpoch r))\<rparr>)" by simp
  note requery_inv [OF this]
  then show ?thesis
    using Inr assms bootstrap_inv
    by (auto simp: bootstrap_settled_def Let_def split_beta recompute_interest_inv)
qed

lemma refresh_settled_inv:
  assumes "router_inv d r"
  shows "router_inv d (fst (refresh_settled w run gen result r))"
proof (cases result)
  case (Inl err)
  let ?r1 = "fst (recompute_interest (r\<lparr>rTopology := remove_window (rTopology r) w\<rparr>))"
  have "topology_ok (rTopology r)" using assms by (simp add: router_inv_defs)
  then have "router_inv d ?r1"
    using topology_inv [OF assms topology_ops_ok(1)] by (simp only: recompute_interest_inv)
  then have "router_inv d ?r1 \<and> router_inv d (fst (bootstrap ?r1))" using bootstrap_inv by simp
  then show ?thesis
    using assms unfolding refresh_settled_def Inl Let_def split_beta sum.case
    by (simp split: if_splits)
next
  case (Inr out)
  let ?t = "fst (update_window (rTopology r) w (parse_pane_list out))"
  have "topology_ok (rTopology r)" using assms by (simp add: router_inv_defs)
  from requery_inv [OF topology_inv [OF assms topology_ops_ok(2) [OF this]]] show ?thesis
    using Inr assms
    by (auto simp: refresh_settled_def Let_def split_beta recompute_interest_inv)
qed

lemma settle_query_inv:
  assumes "router_ok r" and "q \<in> set (queries r)"
  shows "router_ok (fst (settle_query q result r))"
proof -
  let ?r = "r\<lparr>queries := remove1 q (queries r)\<rparr>"
  have "length (queries r) = Suc (length (remove1 q (queries r)))"
    using assms(2) by (metis One_nat_def Suc_pred length_pos_if_in_set length_remove1)
  then have "router_inv 1 ?r"
    using assms(1) by (auto simp: router_inv_defs list_all_iff dest: notin_set_remove1)
  then show ?thesis
    using finish_query_inv bootstrap_settled_inv refresh_settled_inv
    by (cases q) (simp_all add: settle_query_def Let_def split_beta)
qed


lemma registry_inv:
  assumes "router_inv d r" and "registry_ok s" and "lastSeq (sinks r) \<le> lastSeq s"
  shows "router_inv d (r\<lparr>sinks := s\<rparr>)"
  using assms by (force simp: router_inv_defs)

lemma sinks_ops_ok:
  assumes "registry_ok s"
  shows "registry_ok (fst (attach n scope s))" "lastSeq s \<le> lastSeq (fst (attach n scope s))"
    "registry_ok (fst (dispose a scope s))" "lastSeq s \<le> lastSeq (fst (dispose a scope s))"
    "registry_ok (fst (end_all s))" "lastSeq s \<le> lastSeq (fst (end_all s))"
  using registry_step_law [OF assms, of "Attach n scope"] registry_step_law [OF assms, of "Dispose a scope"]
    registry_step_law [OF assms, of EndAll]
  by (simp_all add: life_law_def)

lemma parts_registry: "router_inv d r \<Longrightarrow> registry_ok (sinks r)"
  by (simp add: router_inv_defs)

lemma parts_topology: "router_inv d r \<Longrightarrow> topology_ok (rTopology r)"
  by (simp add: router_inv_defs)

lemma on_transport_close_inv: "router_ok r \<Longrightarrow> router_ok (fst (on_transport_close r))"
  using sinks_ops_ok(5,6) [of "sinks r"]
  by (auto simp: router_inv_defs on_transport_close_def Let_def split_beta held_bytes_limit_def
      split: option.splits)

lemma window_changed_inv: "router_inv d r \<Longrightarrow> router_inv d (fst (window_changed w r))"
proof -
  assume r: "router_inv d r"
  let ?r = "r\<lparr>rTopology := remove_window (rTopology r) w, rEpoch := invalidate_window w (rEpoch r)\<rparr>"
  have "router_inv d ?r"
    using epochs_inv(1) [OF topology_inv [OF r topology_ops_ok(1) [OF parts_topology [OF r]]], of w w]
    by simp
  then have i: "router_inv d (fst (recompute_interest ?r))" by (simp only: recompute_interest_inv)
  then show ?thesis
    using refresh_window_inv [OF i, of w] by (simp add: window_changed_def Let_def split_beta)
qed

lemma layout_changed_inv: "router_inv d r \<Longrightarrow> router_inv d (fst (layout_changed w lay r))"
proof (cases lay)
  case (Parsed panes)
  assume r: "router_inv d r"
  let ?t = "fst (unplace_contradicted (rTopology r) w (map geoPaneId panes))"
  have "router_inv d (r\<lparr>rEpoch := record_layout w (map geoPaneId panes) (rEpoch r), rTopology := ?t\<rparr>)"
    using topology_inv [OF epochs_inv(2) [OF r] topology_ops_ok(3) [OF parts_topology [OF r]]] .
  from requery_inv [OF this] show ?thesis
    using Parsed r by (simp add: layout_changed_def Let_def split_beta)
next
  case (Malformed reason)
  assume r: "router_inv d r"
  from refresh_window_inv [OF epochs_inv(3) [OF r]] show ?thesis
    using Malformed r by (simp add: layout_changed_def)
qed

lemma router_step_ok: "router_ok r \<Longrightarrow> router_ok (fst (router_step r op))"
proof (cases op)
  case (TransportReady run)
  assume r: "router_ok r"
  then have "router_ok (r\<lparr>runCommand := Some run, queryRun := Some run\<rparr>)"
    by (auto simp: router_inv_defs)
  with bootstrap_inv [OF this] show ?thesis
    using TransportReady by (simp add: on_transport_ready_def Let_def)
next
  case (TransportLost run)
  assume r: "router_ok r"
  then have "router_ok (r\<lparr>queryRun := None, rTopology := seed (rTopology r) []\<rparr>)"
    using topology_ops_ok(4) by (auto simp: router_inv_defs)
  then show ?thesis using TransportLost r by (simp add: on_transport_lost_def)
next
  case TransportClosed
  assume "router_ok r"
  then show ?thesis using TransportClosed on_transport_close_inv by simp
next
  case (AttachSink s scope)
  assume r: "router_ok r"
  have "router_ok (r\<lparr>sinks := fst (attach s scope (sinks r))\<rparr>)"
    using registry_inv [OF r] sinks_ops_ok(1,2) [OF parts_registry [OF r]] .
  note this bootstrap_inv [OF this]
  then show ?thesis
    using AttachSink
    by (simp add: attach_bytes_sink_def Let_def split_beta recompute_interest_inv split del: if_split)
      (simp add: recompute_interest_inv split: pane_scope.splits)
next
  case (DisposeSink a scope)
  assume r: "router_ok r"
  have "router_ok (r\<lparr>sinks := fst (dispose a scope (sinks r))\<rparr>)"
    using registry_inv [OF r] sinks_ops_ok(3,4) [OF parts_registry [OF r]] .
  then show ?thesis
    using DisposeSink by (simp add: dispose_bytes_sink_def Let_def split_beta recompute_interest_inv)
next
  case (DispatchBytes payload)
  assume r: "router_ok r"
  then show ?thesis using DispatchBytes hold_inv [OF r] by (simp add: dispatch_bytes_def Let_def)
next
  case (Notify msg)
  assume r: "router_ok r"
  then show ?thesis
    using Notify window_changed_inv [OF r] layout_changed_inv [OF r] bootstrap_inv [OF r]
    by (cases msg) (simp_all add: handle_notification_def)
next
  case (Settle q result)
  assume r: "router_ok r"
  then show ?thesis using Settle settle_query_inv [OF r] by simp
qed

interpretation router: invariant_steps router_step router_ok
  by unfold_locales (rule router_step_ok)

text \<open>
  The hold on early output is bounded and never orphaned. After any history of the router
  - connects, drops, closes, sinks attached and disposed, output, notifications and settling
  queries, in any order - every query sent and not settled is counted, the held bytes are
  tracked exactly and stay within the cap, and output is held only while some query is
  outstanding that can still place it.
\<close>

theorem hold_bounded:
  "let r = fst (run_steps router_step (new_router suppress) ops) in
     inFlight r = length (queries r)
     \<and> heldBytes r = sum_list (map (\<lambda>h. length (chunkData (heldChunk h))) (held r))
     \<and> heldBytes r \<le> 4 * 1024 * 1024
     \<and> (held r = [] \<or> 0 < inFlight r)"
proof -
  define r where "r = fst (run_steps router_step (new_router suppress) ops)"
  have "router_ok r" unfolding r_def by (rule router.run_keeps [OF new_router_ok])
  then show ?thesis
    by (auto simp: r_def [symmetric] Let_def router_inv_def hold_ok_def chunk_size_def [abs_def]
        held_bytes_limit_def)
qed


text \<open>
  The end of a query releases exactly the held output it placed. Chunks whose pane the
  topology now places are replayed in arrival order, each once, to precisely the live window
  and session attachments that admit the pane's place and existed when the chunk arrived; the
  others wait while another query is outstanding and are dropped otherwise; refused output is
  reported and the count reset.
\<close>

theorem release_exact:
  "let (r', effs) = finish_query r in
     effs = (if 0 < refusedBytes r then [ReportError (HoldOverflow (refusedBytes r))] else [])
            @ concat (map (replay r) (filter (is_placed r) (held r)))
     \<and> held r' = (if 1 < inFlight r then filter (\<lambda>h. \<not> is_placed r h) (held r) else [])
     \<and> refusedBytes r' = 0 \<and> inFlight r' = inFlight r - 1 \<and> rTopology r' = rTopology r
     \<and> (e \<in> set (replay r h) \<longleftrightarrow>
          (\<exists>a k scope. e = SinkCall (SinkWrite a (heldChunk h))
             \<and> (scope = WindowScope k \<or> scope = SessionScope k) \<and> a \<in> set (get_bucket scope (sinks r))
             \<and> scope_admits scope (chunkPane (heldChunk h)) (topology_get (rTopology r) (chunkPane (heldChunk h)))
             \<and> seq a \<le> attachedBy h))"
proof -
  have same: "is_placed (r\<lparr>inFlight := n\<rparr>) = is_placed r" "replay (r\<lparr>inFlight := n\<rparr>) = replay r"
    "overflow_report (r\<lparr>inFlight := n\<rparr>) = overflow_report r" for n
    by (simp_all add: is_placed_def replay_def overflow_report_def fun_eq_iff)
  have writes: "x \<in> set (dispatch m meta adm s) \<Longrightarrow> \<exists>a. x = SinkWrite a m" for x m meta adm s
    by (cases x) (auto simp: dispatch_def Let_def write_snapshot_def split: option.splits if_splits)
  have "e \<in> set (replay r h) \<longleftrightarrow>
      (\<exists>a k scope. e = SinkCall (SinkWrite a (heldChunk h))
         \<and> (scope = WindowScope k \<or> scope = SessionScope k) \<and> a \<in> set (get_bucket scope (sinks r))
         \<and> scope_admits scope (chunkPane (heldChunk h)) (topology_get (rTopology r) (chunkPane (heldChunk h)))
         \<and> seq a \<le> attachedBy h)" (is "_ \<longleftrightarrow> ?R")
  proof
    assume "e \<in> set (replay r h)"
    then obtain x where x: "e = SinkCall x" "x \<in> set (dispatch (heldChunk h)
        (topology_get (rTopology r) (chunkPane (heldChunk h))) (Replay (attachedBy h)) (sinks r))"
      by (auto simp: replay_def)
    with writes obtain a where "x = SinkWrite a (heldChunk h)" by blast
    then show ?R using x by (auto simp: dispatch_iff)
  next
    assume ?R
    then show "e \<in> set (replay r h)" by (force simp: replay_def dispatch_iff)
  qed
  then show ?thesis
    by (simp add: finish_query_def release_held_eq same overflow_report_def waiting_def)
qed

subsection \<open>Superseded queries\<close>

text \<open>The tracker ages: its state is reached by operations of its own.\<close>

definition ages :: "epoch \<Rightarrow> epoch \<Rightarrow> bool" where
  "ages e e' \<longleftrightarrow> (\<exists>ops. e' = fst (run_steps epoch_step e ops))"

lemma ages_refl [simp, intro]: "ages e e"
  unfolding ages_def by (rule exI [of _ "[]"]) simp

lemma ages_trans [trans]: "ages e e' \<Longrightarrow> ages e' e'' \<Longrightarrow> ages e e''"
  unfolding ages_def by (metis fst_run_append)

lemma ages_step: "ages e (fst (epoch_step e op))"
  unfolding ages_def by (rule exI [of _ "[op]"]) simp

lemma ages_ops [intro]:
  "ages e (fst (start_bootstrap e))" "ages e (fst (start_window_refresh w e))"
  "ages e (invalidate_window w e)" "ages e (record_layout w ps e)" "ages e (forget_layout w e)"
  "ages e (fst (take_layouts e))"
  using ages_step [of e StartBootstrap] ages_step [of e "StartRefresh w"] ages_step [of e "Invalidate w"]
    ages_step [of e "RecordLayout w ps"] ages_step [of e "ForgetLayout w"] ages_step [of e TakeLayouts]
  by (simp_all add: split_beta)

definition outdated :: "query \<Rightarrow> epoch \<Rightarrow> bool" where
  "outdated q e =
     (case q of BootstrapQuery run gen \<Rightarrow> gen < bootstrapGen e
      | RefreshQuery w run gen \<Rightarrow> gen \<le> windowEpoch e \<and> map_of (windowGens e) w \<noteq> Some gen)"

interpretation outdated: terminal_steps epoch_step "outdated q"
proof unfold_locales
  fix e op
  assume "outdated q e"
  then show "outdated q (fst (epoch_step e op))"
    by (cases op; cases q) (auto simp: outdated_def epoch_defs)
qed

lemma ages_outdated: "ages e e' \<Longrightarrow> outdated q e \<Longrightarrow> outdated q e'"
  by (auto simp: ages_def outdated.run_keeps)

lemma recompute_interest_same [simp]:
  "rEpoch (fst (recompute_interest r)) = rEpoch r" "rTopology (fst (recompute_interest r)) = rTopology r"
  "queryRun (fst (recompute_interest r)) = queryRun r" "runCommand (fst (recompute_interest r)) = runCommand r"
  by (simp_all add: recompute_interest_fst)

lemma bootstrap_ages [intro]: "ages (rEpoch r) (rEpoch (fst (bootstrap r)))"
  by (auto simp: bootstrap_def split_beta split: option.splits)

lemma refresh_window_ages [intro]: "ages (rEpoch r) (rEpoch (fst (refresh_window w r)))"
  by (auto simp: refresh_window_def split_beta split: option.splits)

lemma requery_ages: "ages (rEpoch r) (rEpoch (fst (requery c ws r)))"
proof -
  have "ages (rEpoch r) (rEpoch (fst (run_steps (\<lambda>r w. refresh_window w r) r ws)))" for ws
    by (induction ws arbitrary: r) (auto intro: ages_trans)
  then show ?thesis by (auto simp: requery_def)
qed

lemma finish_query_same [simp]:
  "rEpoch (fst (finish_query r)) = rEpoch r" "rTopology (fst (finish_query r)) = rTopology r"
  "queryRun (fst (finish_query r)) = queryRun r" "runCommand (fst (finish_query r)) = runCommand r"
  by (simp_all add: finish_query_def release_held_eq)


lemma bootstrap_settled_ages: "ages (rEpoch r) (rEpoch (fst (bootstrap_settled run gen result r)))"
proof -
  define r1 where "r1 t = r\<lparr>rTopology := t, rEpoch := fst (take_layouts (rEpoch r))\<rparr>" for t
  have "ages (rEpoch r) (rEpoch (r1 t))" for t by (simp add: r1_def ages_ops)
  then have "ages (rEpoch r) (rEpoch (fst (requery c ws (r1 t))))" for t c ws
    using requery_ages ages_trans by blast
  then show ?thesis
    using bootstrap_ages [of r]
    by (simp add: bootstrap_settled_def Let_def split_beta r1_def split: sum.splits)
qed

lemma refresh_settled_ages: "ages (rEpoch r) (rEpoch (fst (refresh_settled w run gen result r)))"
proof -
  define r1 where "r1 = fst (recompute_interest (r\<lparr>rTopology := remove_window (rTopology r) w\<rparr>))"
  have "ages (rEpoch r) (rEpoch (fst (requery c ws (r\<lparr>rTopology := t\<rparr>))))" for c ws t
    using requery_ages [of "r\<lparr>rTopology := t\<rparr>"] by simp
  moreover have "ages (rEpoch r) (rEpoch (fst (bootstrap r1)))"
    using bootstrap_ages [of r1] by (simp add: r1_def)
  moreover have "rEpoch r1 = rEpoch r" by (simp add: r1_def)
  ultimately show ?thesis
    by (simp add: refresh_settled_def Let_def split_beta r1_def [symmetric] split: sum.splits)
qed

lemma settle_query_ages: "ages (rEpoch r) (rEpoch (fst (settle_query q result r)))"
  using bootstrap_settled_ages [of "r\<lparr>queries := remove1 q (queries r)\<rparr>"]
    refresh_settled_ages [of "r\<lparr>queries := remove1 q (queries r)\<rparr>"]
  by (cases q) (simp_all add: settle_query_def Let_def split_beta)

lemma window_changed_ages: "ages (invalidate_window w (rEpoch r)) (rEpoch (fst (window_changed w r)))"
proof -
  define r1 where "r1 = fst (recompute_interest
    (r\<lparr>rTopology := remove_window (rTopology r) w, rEpoch := invalidate_window w (rEpoch r)\<rparr>))"
  have "rEpoch r1 = invalidate_window w (rEpoch r)" by (simp add: r1_def)
  then show ?thesis
    using refresh_window_ages [of r1 w]
    by (simp add: window_changed_def Let_def split_beta r1_def [symmetric])
qed

lemma layout_changed_ages: "ages (rEpoch r) (rEpoch (fst (layout_changed w lay r)))"
proof (cases lay)
  case (Parsed panes)
  let ?ids = "map geoPaneId panes"
  let ?r = "r\<lparr>rEpoch := record_layout w ?ids (rEpoch r),
      rTopology := fst (unplace_contradicted (rTopology r) w ?ids)\<rparr>"
  have "ages (rEpoch r) (rEpoch ?r)" by (simp add: ages_ops)
  from ages_trans [OF this requery_ages] show ?thesis
    by (simp add: layout_changed_def Parsed Let_def split_beta)
next
  case (Malformed reason)
  have "ages (rEpoch r) (rEpoch (r\<lparr>rEpoch := forget_layout w (rEpoch r)\<rparr>))" by (simp add: ages_ops)
  from ages_trans [OF this refresh_window_ages] show ?thesis
    by (simp add: layout_changed_def Malformed)
qed

lemma router_step_ages: "ages (rEpoch r) (rEpoch (fst (router_step r op)))"
proof (cases op)
  case (TransportReady run)
  show ?thesis
    using bootstrap_ages [of "r\<lparr>runCommand := Some run, queryRun := Some run\<rparr>"]
    by (simp add: TransportReady on_transport_ready_def Let_def)
next
  case (AttachSink s scope)
  show ?thesis
    using bootstrap_ages [of "r\<lparr>sinks := fst (attach s scope (sinks r))\<rparr>"]
    by (simp add: AttachSink attach_bytes_sink_def Let_def split_beta split: pane_scope.splits)
next
  case (Notify msg)
  have "ages (rEpoch r) (rEpoch (fst (window_changed w r)))" for w
    using ages_ops(3) window_changed_ages ages_trans by blast
  then show ?thesis
    using layout_changed_ages [of r] bootstrap_ages [of r]
    by (cases msg) (simp_all add: Notify handle_notification_def)
next
  case (Settle q result)
  then show ?thesis using settle_query_ages by simp
qed (auto simp: on_transport_lost_def on_transport_close_def dispose_bytes_sink_def dispatch_bytes_def
    hold_def Let_def split_beta split: option.splits)

lemma router_run_ages: "ages (rEpoch r) (rEpoch (fst (run_steps router_step r ops)))"
  by (induction ops arbitrary: r) (auto intro: ages_trans router_step_ages)

lemma settle_outdated:
  assumes "outdated q (rEpoch r)"
  shows "rTopology (fst (settle_query q result r)) = rTopology r"
proof -
  have b: "rTopology (fst (bootstrap r)) = rTopology r" for r
    by (simp add: bootstrap_def split_beta split: option.splits)
  show ?thesis
    using assms
    by (auto simp: settle_query_def Let_def split_beta outdated_def bootstrap_settled_def b
        refresh_settled_def is_bootstrap_current_def is_window_refresh_current_def
        split: query.splits sum.splits)
qed

text \<open>The window whose membership a notification says changed.\<close>

fun changed_window :: "tmux_message \<Rightarrow> jsnum option" where
  "changed_window (WindowAdd w) = Some w"
| "changed_window (UnlinkedWindowAdd w) = Some w"
| "changed_window (WindowClose w) = Some w"
| "changed_window (UnlinkedWindowClose w) = Some w"
| "changed_window msg = None"

text \<open>The queries whose answer covers a window: a listing of every pane, a refresh of that one.\<close>

fun covers :: "jsnum \<Rightarrow> query \<Rightarrow> bool" where
  "covers w (BootstrapQuery run gen) \<longleftrightarrow> True"
| "covers w (RefreshQuery v run gen) \<longleftrightarrow> v = w"

lemma invalidate_outdates:
  "query_issued e q \<Longrightarrow> covers w q \<Longrightarrow> outdated q (invalidate_window w e)"
  by (cases q) (auto simp: outdated_def query_issued_def invalidate_window_def)

text \<open>
  C8. An answer from before a membership change never reaches the topology. When tmux says a
  window was added or closed, every query then outstanding that covers the window - whatever
  connects, drops, notifications, other queries and sinks come in between - leaves the
  topology as it was when it settles, whether it brings a listing or an error.
\<close>

theorem stale_answer_ignored:
  assumes "changed_window msg = Some w"
    and "q \<in> set (queries (fst (run_steps router_step (new_router suppress) before)))"
    and "covers w q"
  shows "let r = fst (run_steps router_step (new_router suppress) (before @ Notify msg # after))
    in rTopology (fst (router_step r (Settle q result))) = rTopology r"
proof -
  define r0 where "r0 = fst (run_steps router_step (new_router suppress) before)"
  define r1 where "r1 = fst (router_step r0 (Notify msg))"
  define r where "r = fst (run_steps router_step r1 after)"
  have "router_ok r0" unfolding r0_def by (rule router.run_keeps [OF new_router_ok])
  then have "query_issued (rEpoch r0) q"
    using assms(2) by (auto simp: router_inv_defs list_all_iff r0_def)
  then have "outdated q (invalidate_window w (rEpoch r0))" using assms(3) by (rule invalidate_outdates)
  moreover have "ages (invalidate_window w (rEpoch r0)) (rEpoch r1)"
    using assms(1) window_changed_ages by (cases msg) (simp_all add: r1_def handle_notification_def)
  ultimately have "outdated q (rEpoch r)"
    using ages_outdated router_run_ages [of r1 after] by (auto simp: r_def)
  then have "rTopology (fst (settle_query q result r)) = rTopology r" by (rule settle_outdated)
  then show ?thesis by (simp add: r_def r1_def r0_def Let_def)
qed


theorem stale_answer_ignored_witness:
  "let before = [TransportReady 1, AttachSink 7 (WindowScope (Num 5))];
       reply = Settle (BootstrapQuery 1 1) (Inr [''%1 @5 $0 0''])
   in table (rTopology (fst (run_steps router_step (new_router False)
        (before @ Notify (WindowClose (Num 5)) # [reply])))) = []
      \<and> table (rTopology (fst (run_steps router_step (new_router False) (before @ [reply])))) \<noteq> []"
proof -
  let ?before = "[TransportReady 1, AttachSink 7 (WindowScope (Num 5))]"
  let ?reply = "Settle (BootstrapQuery 1 1) (Inr [''%1 @5 $0 0''])"
  have q: "BootstrapQuery 1 1 \<in> set (queries (fst (run_steps router_step (new_router False) ?before)))"
    by code_simp
  have "changed_window (WindowClose (Num 5)) = Some (Num 5)" "covers (Num 5) (BootstrapQuery 1 1)"
    by simp_all
  note stale_answer_ignored [OF this(1) q this(2), of "[]" "Inr [''%1 @5 $0 0'']"]
  moreover have "table (rTopology (fst (run_steps router_step (new_router False)
      (?before @ [Notify (WindowClose (Num 5))])))) = []" by code_simp
  moreover have "table (rTopology (fst (run_steps router_step (new_router False)
      (?before @ [?reply])))) \<noteq> []" by code_simp
  ultimately show ?thesis by (simp add: Let_def del: router_step.simps)
qed

subsection \<open>A closed router\<close>

definition disconnected :: "router \<Rightarrow> bool" where
  "disconnected r \<longleftrightarrow> runCommand r = None \<and> queryRun r = None"

fun is_command :: "router_effect \<Rightarrow> bool" where
  "is_command (RunCommand run cmd) \<longleftrightarrow> True"
| "is_command eff \<longleftrightarrow> False"

fun connects :: "router_op \<Rightarrow> bool" where
  "connects (TransportReady run) \<longleftrightarrow> True"
| "connects op \<longleftrightarrow> False"

text \<open>What a piece of the router does while disconnected: it stays so and runs nothing.\<close>

definition mute :: "router \<times> router_effect list \<Rightarrow> bool" where
  "mute res \<longleftrightarrow> disconnected (fst res) \<and> list_all (\<lambda>e. \<not> is_command e) (snd res)"

lemma sinks_not_commands: "list_all (\<lambda>e. \<not> is_command e) (map SinkCall effs)"
  by (induction effs) simp_all

lemma mute_parts:
  assumes "disconnected r"
  shows "mute (bootstrap r)" "mute (refresh_window w r)" "mute (recompute_interest r)"
  using assms by (simp_all add: mute_def disconnected_def bootstrap_def refresh_window_def
      recompute_interest_def send_pane_actions_def split_beta split: option.splits)

lemma mute_requery: "disconnected r \<Longrightarrow> mute (requery c ws r)"
proof -
  have "disconnected r \<Longrightarrow> mute (run_steps (\<lambda>r w. refresh_window w r) r ws)" for ws
    using mute_parts(2) by (induction ws arbitrary: r) (simp_all add: mute_def)
  then show "disconnected r \<Longrightarrow> ?thesis" using mute_parts(1) by (simp add: requery_def)
qed

lemma mute_finish: "disconnected r \<Longrightarrow> mute (finish_query r)"
  using sinks_not_commands
  by (auto simp: mute_def finish_query_def release_held_eq disconnected_def overflow_report_def
      replay_def list_all_iff)

lemma mute_append: "mute (r, xs) \<Longrightarrow> mute (r', ys) \<Longrightarrow> mute (r', xs @ ys)"
  by (simp add: mute_def)

lemma disconnected_simps [simp]:
  "disconnected (r\<lparr>sinks := s\<rparr>) = disconnected r" "disconnected (r\<lparr>rTopology := t\<rparr>) = disconnected r"
  "disconnected (r\<lparr>rEpoch := e\<rparr>) = disconnected r" "disconnected (r\<lparr>queries := qs\<rparr>) = disconnected r"
  by (simp_all add: disconnected_def)

lemma mute_two:
  "mute res \<Longrightarrow> (\<And>r. disconnected r \<Longrightarrow> mute (f r)) \<Longrightarrow>
   mute (let (r1, e1) = res; (r2, e2) = f r1 in (r2, e1 @ e2))"
  by (simp add: mute_def split_beta Let_def)

lemma mute_settled:
  assumes "disconnected r"
  shows "mute (bootstrap_settled run gen result r)" "mute (refresh_settled w run gen result r)"
proof -
  have same: "mute (r, [])" using assms by (simp add: mute_def)
  have two: "disconnected r' \<Longrightarrow> mute (let (r1, q) = requery c ws r'; (r2, acts) = recompute_interest r1
      in (r2, q @ acts))" for r' c ws
    by (rule mute_two) (simp_all add: mute_requery mute_parts)
  show "mute (bootstrap_settled run gen result r)"
    using assms same mute_parts(1) [OF assms] two
    by (auto simp: bootstrap_settled_def Let_def split_beta split: sum.splits) (simp_all add: disconnected_def)
  show "mute (refresh_settled w run gen result r)"
    using assms same two mute_parts(3) [of "r\<lparr>rTopology := remove_window (rTopology r) w\<rparr>"]
    by (auto simp: refresh_settled_def Let_def split_beta split: sum.splits)
      (simp_all add: mute_def disconnected_def)
qed


lemma mute_settle: "disconnected r \<Longrightarrow> mute (settle_query q result r)"
proof -
  assume r: "disconnected r"
  let ?r = "r\<lparr>queries := remove1 q (queries r)\<rparr>"
  have "mute (let (r1, e1) = (case q of
                          BootstrapQuery run gen \<Rightarrow> bootstrap_settled run gen result ?r
                        | RefreshQuery w run gen \<Rightarrow> refresh_settled w run gen result ?r);
                  (r2, e2) = finish_query r1 in (r2, e1 @ e2))"
    using r by (intro mute_two mute_finish) (cases q; simp add: mute_settled)
  then show ?thesis by (simp add: settle_query_def Let_def)
qed

lemma mute_sinks:
  "disconnected r \<Longrightarrow> mute (f r) \<Longrightarrow>
   mute (let (r1, acts) = f r in (r1, map SinkCall effs @ acts))"
  using sinks_not_commands by (simp add: mute_def split_beta Let_def)

lemma mute_notify: "disconnected r \<Longrightarrow> mute (handle_notification msg r)"
proof -
  assume r: "disconnected r"
  have same: "mute (r, [])" using r by (simp add: mute_def)
  have "mute (let (r1, acts) = recompute_interest
                (r\<lparr>rTopology := remove_window (rTopology r) w, rEpoch := invalidate_window w (rEpoch r)\<rparr>);
              (r2, q) = (if needs_topology r1 then refresh_window w r1 else (r1, []))
              in (r2, acts @ q))" for w
    by (rule mute_two) (use r mute_parts in \<open>simp_all add: mute_def\<close>)
  then have w: "mute (window_changed w r)" for w by (simp add: window_changed_def)
  have l: "mute (layout_changed w lay r)" for w lay
    using same r mute_requery mute_parts(2)
    by (cases lay) (simp_all add: layout_changed_def Let_def split_beta)
  show ?thesis
    using w l same mute_parts(1) [OF r] by (cases msg) (simp_all add: handle_notification_def)
qed

lemma mute_step:
  assumes r: "disconnected r" and "\<not> connects op"
  shows "mute (router_step r op)"
proof (cases op)
  case (TransportReady run)
  then show ?thesis using assms(2) by simp
next
  case (TransportLost run)
  then show ?thesis using r by (simp add: mute_def on_transport_lost_def disconnected_def)
next
  case TransportClosed
  then show ?thesis
    using sinks_not_commands
    by (simp add: mute_def on_transport_close_def disconnected_def Let_def split_beta send_pane_actions_def
        split: option.splits)
next
  case (AttachSink s scope)
  let ?r = "r\<lparr>sinks := fst (attach s scope (sinks r))\<rparr>"
  have "queryRun ?r = None" using r by (simp add: disconnected_def)
  then show ?thesis
    using mute_parts(3) [of ?r] r AttachSink by (simp add: attach_bytes_sink_def Let_def split_beta)
next
  case (DisposeSink a scope)
  let ?r = "r\<lparr>sinks := fst (dispose a scope (sinks r))\<rparr>"
  have "mute (let (r1, acts) = recompute_interest ?r in (r1, map SinkCall (snd (dispose a scope (sinks r))) @ acts))"
    by (rule mute_sinks) (use r mute_parts in simp_all)
  then show ?thesis using DisposeSink by (simp add: dispose_bytes_sink_def split_beta Let_def)
next
  case (DispatchBytes payload)
  then show ?thesis
    using r sinks_not_commands
    by (simp add: mute_def dispatch_bytes_def hold_def Let_def disconnected_def)
next
  case (Notify msg)
  then show ?thesis using mute_notify [OF r] by simp
next
  case (Settle q result)
  then show ?thesis using mute_settle [OF r] r by (simp add: mute_def)
qed

text \<open>
  C26. Closing the router is complete. After any history, the close ends every live attachment,
  each once, empties the hold and runs no command; and whatever happens later short of a new
  connection - attaching, disposing, output, notifications, queries that settle late - no
  command is run.
\<close>

theorem close_releases_router:
  "let r = fst (run_steps router_step (new_router suppress) before);
       (r', effs) = router_step r TransportClosed;
       (r'', later) = run_steps router_step r' (filter (\<lambda>op. \<not> connects op) after) in
     mset (filter (\<lambda>e. \<exists>a. e = SinkCall (SinkEnd a)) effs) =
       image_mset (\<lambda>a. SinkCall (SinkEnd a)) (live (sinks r))
     \<and> live (sinks r') = {#} \<and> held r' = [] \<and> heldBytes r' = 0
     \<and> list_all (\<lambda>e. \<not> is_command e) (effs @ later)"
proof -
  define r where "r = fst (run_steps router_step (new_router suppress) before)"
  define r' where "r' = fst (router_step r TransportClosed)"
  have close: "router_step r TransportClosed = (r', map SinkCall (snd (end_all (sinks r))))"
    by (simp add: r'_def on_transport_close_def Let_def split_beta send_pane_actions_def
        split: option.splits)
  have "disconnected r'" "live (sinks r') = {#}" "held r' = []" "heldBytes r' = 0"
    using end_all_live(1) [of "sinks r"]
    by (simp_all add: r'_def on_transport_close_def Let_def split_beta disconnected_def split: option.splits)
  moreover have "disconnected s \<Longrightarrow> \<forall>op\<in>set ops. \<not> connects op \<Longrightarrow> mute (run_steps router_step s ops)" for s ops
    using mute_step by (induction ops arbitrary: s) (simp_all add: mute_def)
  ultimately have later: "list_all (\<lambda>e. \<not> is_command e)
      (snd (run_steps router_step r' (filter (\<lambda>op. \<not> connects op) after)))"
    by (simp add: mute_def)
  have "mset (filter (\<lambda>e. \<exists>a. e = SinkCall (SinkEnd a)) (map (\<lambda>a. SinkCall (SinkEnd a)) xs)) =
      image_mset (\<lambda>a. SinkCall (SinkEnd a)) (mset xs)" for xs
    by (induction xs) simp_all
  moreover obtain xs where xs: "snd (end_all (sinks r)) = map SinkEnd xs"
    unfolding end_all_def Let_def snd_conv by blast
  moreover have "mset xs = live (sinks r)"
    using end_all_live(2) [of "sinks r"] by (simp add: xs)
  moreover have "map SinkCall (map SinkEnd xs) = map (\<lambda>a. SinkCall (SinkEnd a)) xs" by simp
  ultimately have "mset (filter (\<lambda>e. \<exists>a. e = SinkCall (SinkEnd a)) (map SinkCall (snd (end_all (sinks r))))) =
      image_mset (\<lambda>a. SinkCall (SinkEnd a)) (live (sinks r))"
    by metis
  then show ?thesis
    using later \<open>live (sinks r') = {#}\<close> \<open>held r' = []\<close> \<open>heldBytes r' = 0\<close> sinks_not_commands
    unfolding r_def [symmetric] close Let_def split_beta by (simp del: router_step.simps)
qed

end
