(* ===== verification/WsClient.thy ===== *)
theory WsClient
  imports Calls Coverage
begin

section \<open>The WebSocket bridge client\<close>

text \<open>
  \<open>src/connectors/websocket/client.ts\<close>, composed of the outbox (\<open>Calls\<close>), the reconnect
  controller and the heartbeat (\<open>Reconnect\<close>) and the frames (\<open>Frames\<close>) the way the class
  composes them. The calls on the topology router, the socket and the consumer's hooks are
  effects in call order; the router's own commands are calls of the client like any other.

  The listeners of a socket live until the connection is finalized, which aborts them and
  drops the socket together, so an event of a socket that is no longer attached never
  arrives. Of the socket the model keeps whether it is open and which frames it accepts. An
  \<open>Error\<close> object is a number. A promise is a number and what the client does when it settles:
  those continuations run as microtasks, right after the operation. Handlers that call back
  into the client do so as operations of their own.
\<close>

subsection \<open>State\<close>

datatype ws_origin = ByCaller | ByCallerEnable | ByReplay

type_synonym ws_promise = "nat \<times> ws_origin"

record ws_socket =
  socketOpen :: bool
  socketAccepts :: "client_frame \<Rightarrow> bool"

record ws_client =
  wsOutbox :: "ws_promise outbox"
  wsReconnect :: reconnect
  crossSessionLayoutEnables :: nat
  wsHeartbeat :: "string heartbeat option"
  optHeartbeatIntervalMs :: "int option"
  optRequestTimeoutMs :: int
  wsSocket :: "ws_socket option"
  nextCallId :: nat
  serverLimits :: "welcome_limits option"
  routerRun :: "nat option"
  nextRouterRun :: nat
  userRequestedClose :: bool
  wsState :: connection_state
  wsDraining :: bool
  hasReachedReadyOnce :: bool
  wsLastError :: "error_ref option"
  nextErrorRef :: nat
  wsNextPromise :: nat

datatype ws_effect =
    CallEffect "ws_promise outbox_effect"
  | RejectInvalid ws_promise string
  | SendRaw client_frame
  | OpenSocket
  | CloseSocket int
  | EmitState connection_state
  | EmitReconnected
  | EmitMessage event_message
  | ErrorHook error_ref call_error
  | DrainingHook json
  | ArmRetry rat
  | RouterReadyTo nat
  | RouterLost nat
  | RouterClosed
  | RouterBytesIn chunk
  | RouterNotified event_message

definition new_ws_client :: "backoff_schedule \<Rightarrow> int option \<Rightarrow> int \<Rightarrow> ws_client" where
  "new_ws_client sched interval timeout =
     \<lparr>wsOutbox = new_outbox, wsReconnect = new_reconnect sched, crossSessionLayoutEnables = 0,
      wsHeartbeat = None, optHeartbeatIntervalMs = interval, optRequestTimeoutMs = timeout,
      wsSocket = None, nextCallId = 0, serverLimits = None, routerRun = None, nextRouterRun = 0,
      userRequestedClose = False, wsState = Connecting, wsDraining = False,
      hasReachedReadyOnce = False, wsLastError = None, nextErrorRef = 0, wsNextPromise = 0\<rparr>"

definition followed_by :: "'s \<times> 'o list \<Rightarrow> ('s \<Rightarrow> 's \<times> 'o list) \<Rightarrow> 's \<times> 'o list" where
  "followed_by r f = (let (s1, o1) = r; (s2, o2) = f s1 in (s2, o1 @ o2))"

subsection \<open>State and errors\<close>

definition set_ws_state :: "connection_state \<Rightarrow> ws_client \<Rightarrow> ws_client \<times> ws_effect list" where
  "set_ws_state next w =
     (if same_connection_state (wsState w) next then (w, [])
      else
        let w1 = w\<lparr>wsState := next\<rparr> in
        if status next = ''ready'' then
          (if hasReachedReadyOnce w1 then (w1, [EmitState next, EmitReconnected])
           else (w1\<lparr>hasReachedReadyOnce := True\<rparr>, [EmitState next]))
        else (w1, [EmitState next]))"

definition emit_error :: "call_error \<Rightarrow> ws_client \<Rightarrow> ws_client \<times> ws_effect list" where
  "emit_error err w =
     (let ref = nextErrorRef w;
          w1 = w\<lparr>nextErrorRef := Suc ref, wsLastError := Some ref\<rparr>
      in followed_by (w1, [ErrorHook ref err]) (\<lambda>w.
           if status (wsState w) = ''reconnecting''
           then set_ws_state (Reconnecting (Num (int (attempts (wsReconnect w)))) (Some ref)) w
           else (w, [])))"

subsection \<open>Sending\<close>

definition transmit_frame :: "ws_client \<Rightarrow> client_frame \<Rightarrow> bool" where
  "transmit_frame w frame \<longleftrightarrow>
     status (wsState w) = ''ready'' \<and>
     (case wsSocket w of None \<Rightarrow> False | Some s \<Rightarrow> socketOpen s \<and> socketAccepts s frame)"

definition raw_send :: "client_frame \<Rightarrow> ws_client \<Rightarrow> ws_client \<times> ws_effect list" where
  "raw_send frame w =
     (case wsSocket w of
        None \<Rightarrow> (w, [])
      | Some s \<Rightarrow> if socketOpen s \<and> socketAccepts s frame then (w, [SendRaw frame]) else (w, []))"

definition on_outbox ::
    "(ws_promise outbox \<Rightarrow> ws_promise outbox \<times> ws_promise outbox_effect list) \<Rightarrow> ws_client \<Rightarrow>
     ws_client \<times> ws_effect list" where
  "on_outbox f w = (let (ob, effs) = f (wsOutbox w) in (w\<lparr>wsOutbox := ob\<rparr>, map CallEffect effs))"

definition next_id :: "ws_client \<Rightarrow> string" where
  "next_id w = ''r'' @ nat_str (Suc (nextCallId w))"

definition effective_timeout_ms :: "ws_client \<Rightarrow> int" where
  "effective_timeout_ms w =
     (case serverLimits w of
        None \<Rightarrow> optRequestTimeoutMs w
      | Some l \<Rightarrow> min_duration_ms (optRequestTimeoutMs w) (limitRequestTimeoutMs l))"

definition ws_call :: "ws_origin \<Rightarrow> string \<Rightarrow> json list \<Rightarrow> ws_client \<Rightarrow> ws_client \<times> ws_effect list" where
  "ws_call origin m args w =
     (let promise = (wsNextPromise w, origin);
          w0 = w\<lparr>wsNextPromise := Suc (wsNextPromise w)\<rparr>
      in if status (wsState w0) = ''closed'' \<or> userRequestedClose w0
         then (w0, [CallEffect (RejectCall promise (CodeError BRIDGE_CLOSED))])
         else if wsDraining w0 then (w0, [CallEffect (RejectCall promise (CodeError BRIDGE_CLOSED))])
         else
           let callId = next_id w0; w1 = w0\<lparr>nextCallId := Suc (nextCallId w0)\<rparr> in
           on_outbox (enqueue (transmit_frame w1) callId m (CallFrame callId m args)
             (effective_timeout_ms w1) promise) w1)"

subsection \<open>The proxied methods\<close>

definition ws_args :: "rpc_request \<Rightarrow> json list" where
  "ws_args req =
     (case req of
        RpcSplitWindow None \<Rightarrow> [json_split_options \<lparr>vertical = None, target = None\<rparr>]
      | _ \<Rightarrow> rpc_args req)"

definition ws_method :: "rpc_request \<Rightarrow> ws_client \<Rightarrow> ws_client \<times> ws_effect list" where
  "ws_method req w =
     (case req of
        RpcExecute command \<Rightarrow>
          (case invalid_command command of
             Some err \<Rightarrow> (w\<lparr>wsNextPromise := Suc (wsNextPromise w)\<rparr>,
                          [RejectInvalid (wsNextPromise w, ByCaller) command])
           | None \<Rightarrow> ws_call ByCaller (rpc_method req) (ws_args req) w)
      | RpcEnableCoverage \<Rightarrow> ws_call ByCallerEnable (rpc_method req) (ws_args req) w
      | RpcDisableCoverage \<Rightarrow>
          ws_call ByCaller (rpc_method req) (ws_args req)
            (w\<lparr>crossSessionLayoutEnables := crossSessionLayoutEnables w - 1\<rparr>)
      | _ \<Rightarrow> ws_call ByCaller (rpc_method req) (ws_args req) w)"

text \<open>\<open>replayCrossSessionLayoutEnables\<close>: the loop of \<open>n\<close> calls.\<close>

fun replay_enables :: "nat \<Rightarrow> ws_client \<Rightarrow> ws_client \<times> ws_effect list" where
  "replay_enables 0 w = (w, [])"
| "replay_enables (Suc n) w =
     followed_by (ws_call ByReplay ''enableCrossSessionLayoutChange'' [] w) (replay_enables n)"

subsection \<open>The end of a connection\<close>

fun decided :: "reconnect_effect list \<Rightarrow> decision option" where
  "decided [] = None"
| "decided (Decided d # es) = Some d"
| "decided (e # es) = decided es"

fun retry_effect :: "reconnect_effect \<Rightarrow> ws_effect list" where
  "retry_effect (ArmTimer d) = [ArmRetry d]"
| "retry_effect e = []"

definition after_decision :: "decision option \<Rightarrow> ws_client \<Rightarrow> ws_client \<times> ws_effect list" where
  "after_decision d w =
     (case d of
        Some Disabled \<Rightarrow>
          followed_by (w, [RouterClosed])
            (set_ws_state (Closed (if wsLastError w \<noteq> None then ReasonTransportError else ReasonExit)))
      | Some (Exhausted n) \<Rightarrow>
          followed_by (followed_by (emit_error (CodeError BRIDGE_CLOSED) w) (\<lambda>w. (w, [RouterClosed])))
            (set_ws_state (Closed ReasonTransportError))
      | Some (Scheduled n) \<Rightarrow> set_ws_state (Reconnecting (Num (int n)) (wsLastError w)) w
      | None \<Rightarrow> (w, []))"

text \<open>The part of \<open>finalizeConnection\<close> after the outbox is drained.\<close>

definition end_connection :: "rat \<Rightarrow> ws_client \<Rightarrow> ws_client \<times> ws_effect list" where
  "end_connection draw w2 =
     (let w3 = w2\<lparr>serverLimits := None, wsDraining := False\<rparr> in
      if userRequestedClose w3
      then followed_by (w3, [RouterClosed]) (set_ws_state (Closed ReasonDisposed))
      else
        let (c, effs) = schedule draw (wsReconnect w3) in
        followed_by (w3\<lparr>wsReconnect := c\<rparr>, concat (map retry_effect effs))
          (after_decision (decided effs)))"

definition finalize_connection :: "rat \<Rightarrow> call_error \<Rightarrow> ws_client \<Rightarrow> ws_client \<times> ws_effect list" where
  "finalize_connection draw err w =
     (if status (wsState w) = ''closed'' then (w, [])
      else
        let w1 = w\<lparr>wsHeartbeat := map_option heartbeat_stop (wsHeartbeat w), wsSocket := None\<rparr>;
            lost = (case routerRun w1 of None \<Rightarrow> [] | Some n \<Rightarrow> [RouterLost n])
        in followed_by (followed_by (w1\<lparr>routerRun := None\<rparr>, lost) (on_outbox (drain_outbox err)))
             (end_connection draw))"

subsection \<open>Opening and closing\<close>

text \<open>The socket the factory gives; None when it throws.\<close>

definition open_socket :: "rat \<Rightarrow> ws_socket option \<Rightarrow> ws_client \<Rightarrow> ws_client \<times> ws_effect list" where
  "open_socket draw made w =
     followed_by (set_ws_state Connecting w) (\<lambda>w.
       case made of
         None \<Rightarrow> finalize_connection draw (CodeError BRIDGE_INTERNAL) w
       | Some s \<Rightarrow> (w\<lparr>wsSocket := Some s\<rparr>, [OpenSocket]))"

definition ws_connect :: "rat \<Rightarrow> ws_socket option \<Rightarrow> ws_client \<Rightarrow> ws_client \<times> ws_effect list" where
  "ws_connect draw made w =
     (if wsSocket w \<noteq> None \<or> is_pending (wsReconnect w) then (w, [])
      else open_socket draw made
             (w\<lparr>userRequestedClose := False, wsReconnect := reset_episode (wsReconnect w), wsLastError := None\<rparr>))"

definition ws_close :: "rat \<Rightarrow> ws_client \<Rightarrow> ws_client \<times> ws_effect list" where
  "ws_close draw w =
     followed_by
       (followed_by
         (raw_send ByeFrame (w\<lparr>userRequestedClose := True, wsReconnect := cancel_retry (wsReconnect w)\<rparr>))
         (\<lambda>w. case wsSocket w of
                None \<Rightarrow> (w, [])
              | Some s \<Rightarrow> (w\<lparr>wsSocket := Some (s\<lparr>socketOpen := False\<rparr>)\<rparr>, [CloseSocket 1000])))
       (finalize_connection draw (CodeError BRIDGE_CLOSED))"

subsection \<open>Incoming frames\<close>

definition start_heartbeat :: "welcome_limits \<Rightarrow> ws_client \<Rightarrow> ws_client" where
  "start_heartbeat limits w =
     w\<lparr>wsHeartbeat := Some (heartbeat_start (new_heartbeat
         (case optHeartbeatIntervalMs w of None \<Rightarrow> limitHeartbeatIntervalMs limits | Some i \<Rightarrow> i)))\<rparr>"

definition on_welcome :: "welcome_limits \<Rightarrow> ws_client \<Rightarrow> ws_client \<times> ws_effect list" where
  "on_welcome limits w =
     followed_by (followed_by (followed_by
       (set_ws_state Ready
          (w\<lparr>serverLimits := Some limits, wsReconnect := reset_episode (wsReconnect w), wsLastError := None\<rparr>))
       (\<lambda>w. let w1 = start_heartbeat limits w in replay_enables (crossSessionLayoutEnables w1) w1))
       (\<lambda>w. on_outbox (flush_outbox (transmit_frame w)) w))
       (\<lambda>w. (w\<lparr>routerRun := Some (nextRouterRun w), nextRouterRun := Suc (nextRouterRun w)\<rparr>,
             [RouterReadyTo (nextRouterRun w)]))"

definition on_result :: "result_frame \<Rightarrow> ws_client \<Rightarrow> ws_client \<times> ws_effect list" where
  "on_result frame w =
     (let (ob, effs, violation) = settle_call frame (wsOutbox w) in
      followed_by (w\<lparr>wsOutbox := ob\<rparr>, map CallEffect effs)
        (\<lambda>w. case violation of None \<Rightarrow> (w, []) | Some e \<Rightarrow> emit_error e w))"

definition dispatch_event :: "event_message \<Rightarrow> ws_client \<Rightarrow> ws_client \<times> ws_effect list" where
  "dispatch_event ev w = (w, [RouterNotified ev, EmitMessage ev])"

definition handle_frame :: "server_frame \<Rightarrow> ws_client \<Rightarrow> ws_client \<times> ws_effect list" where
  "handle_frame frame w =
     (case frame of
        WelcomeFrame limits \<Rightarrow> on_welcome limits w
      | EventFrame ev \<Rightarrow>
          if is_cross_session_layout_message (eventType ev) then (w, [EmitMessage ev]) else dispatch_event ev w
      | ResultFrame r \<Rightarrow> on_result r w
      | PongFrame pingId \<Rightarrow> (w\<lparr>wsHeartbeat := map_option (on_pong pingId) (wsHeartbeat w)\<rparr>, [])
      | DrainingFrame deadline \<Rightarrow> (w\<lparr>wsDraining := True\<rparr>, [DrainingHook deadline])
      | FatalFrame e \<Rightarrow> emit_error (WireError e) w)"

definition on_text :: "json option \<Rightarrow> ws_client \<Rightarrow> ws_client \<times> ws_effect list" where
  "on_text raw w =
     (case parse_server_frame raw of
        Inl e \<Rightarrow> emit_error (CodeError BRIDGE_PROTOCOL_ERROR) w
      | Inr frame \<Rightarrow> handle_frame frame w)"

fun output_chunk :: "tmux_message \<Rightarrow> chunk option" where
  "output_chunk (Output m) = Some \<lparr>chunkPane = outPaneId m, chunkData = outData m\<rparr>"
| "output_chunk (ExtendedOutput m age) = Some \<lparr>chunkPane = outPaneId m, chunkData = outData m\<rparr>"
| "output_chunk m = None"

definition on_binary :: "byte list \<Rightarrow> ws_client \<Rightarrow> ws_client \<times> ws_effect list" where
  "on_binary buf w =
     (if \<not> is_pane_output_frame buf then emit_error (CodeError BRIDGE_PROTOCOL_ERROR) w
      else (case decode_pane_output buf of
              Inl e \<Rightarrow> emit_error (CodeError BRIDGE_PROTOCOL_ERROR) w
            | Inr m \<Rightarrow> (case output_chunk m of None \<Rightarrow> (w, []) | Some c \<Rightarrow> (w, [RouterBytesIn c]))))"

datatype ws_data = BinaryData "byte list" | TextData "json option" | OtherData

definition on_message :: "ws_data \<Rightarrow> ws_client \<Rightarrow> ws_client \<times> ws_effect list" where
  "on_message d w =
     (case d of
        BinaryData buf \<Rightarrow> on_binary buf w
      | TextData raw \<Rightarrow> on_text raw w
      | OtherData \<Rightarrow> emit_error (CodeError BRIDGE_PROTOCOL_ERROR) w)"

subsection \<open>Timers\<close>

definition ws_tick :: "ws_client \<Rightarrow> ws_client \<times> ws_effect list" where
  "ws_tick w =
     (case wsHeartbeat w of
        None \<Rightarrow> (w, [])
      | Some h \<Rightarrow>
          let pingId = next_id w; (h', effs) = heartbeat_tick (Some pingId) h in
          if PingSent \<in> set effs
          then raw_send (PingFrame pingId) (w\<lparr>wsHeartbeat := Some h', nextCallId := Suc (nextCallId w)\<rparr>)
          else (w, []))"

definition ws_deadline :: "ws_client \<Rightarrow> ws_client \<times> ws_effect list" where
  "ws_deadline w =
     (case wsHeartbeat w of
        None \<Rightarrow> (w, [])
      | Some h \<Rightarrow>
          let (h', effs) = heartbeat_deadline h; w1 = w\<lparr>wsHeartbeat := Some h'\<rparr> in
          if effs = [] then (w1, [])
          else (case wsSocket w1 of
                  None \<Rightarrow> (w1, [])
                | Some s \<Rightarrow> (w1\<lparr>wsSocket := Some (s\<lparr>socketOpen := False\<rparr>)\<rparr>, [CloseSocket 4000])))"

definition ws_retry :: "rat \<Rightarrow> ws_socket option \<Rightarrow> ws_client \<Rightarrow> ws_client \<times> ws_effect list" where
  "ws_retry draw made w =
     (let (c, effs) = timer_fires (wsReconnect w) in
      if effs = [] then (w, []) else open_socket draw made (w\<lparr>wsReconnect := c\<rparr>))"

subsection \<open>Operations\<close>

datatype ws_op =
    WsConnect rat "ws_socket option"
  | WsClose rat
  | WsMethod rpc_request
  | WsCallTimeout ws_promise
  | WsRetryTimer rat "ws_socket option"
  | WsTick
  | WsDeadline
  | WsSocketIs ws_socket
  | WsOpened
  | WsMessage ws_data
  | WsClosed rat
  | WsError

definition attached :: "(ws_client \<Rightarrow> ws_client \<times> ws_effect list) \<Rightarrow> ws_client \<Rightarrow> ws_client \<times> ws_effect list" where
  "attached f w = (if wsSocket w = None then (w, []) else f w)"

fun ws_operation :: "ws_op \<Rightarrow> ws_client \<Rightarrow> ws_client \<times> ws_effect list" where
  "ws_operation (WsConnect draw made) w = ws_connect draw made w"
| "ws_operation (WsClose draw) w = ws_close draw w"
| "ws_operation (WsMethod req) w = ws_method req w"
| "ws_operation (WsCallTimeout promise) w = on_outbox (call_timeout promise) w"
| "ws_operation (WsRetryTimer draw made) w = ws_retry draw made w"
| "ws_operation WsTick w = ws_tick w"
| "ws_operation WsDeadline w = ws_deadline w"
| "ws_operation (WsSocketIs s) w = attached (\<lambda>w. (w\<lparr>wsSocket := Some s\<rparr>, [])) w"
| "ws_operation WsOpened w = attached (raw_send HelloFrame) w"
| "ws_operation (WsMessage d) w = attached (on_message d) w"
| "ws_operation (WsClosed draw) w = attached (finalize_connection draw (CodeError BRIDGE_CLOSED)) w"
| "ws_operation WsError w = attached (emit_error (CodeError BRIDGE_INTERNAL)) w"

text \<open>
  The client's own continuations: a caller's enable that resolved is counted, a replay that
  was rejected is reported.
\<close>

fun as_bridge_error :: "call_error \<Rightarrow> call_error" where
  "as_bridge_error (TmuxError v) = CodeError BRIDGE_INTERNAL"
| "as_bridge_error e = e"

fun continuation :: "ws_effect \<Rightarrow> ws_client \<Rightarrow> ws_client \<times> ws_effect list" where
  "continuation (CallEffect (ResolveCall (n, ByCallerEnable) v)) w =
     (w\<lparr>crossSessionLayoutEnables := crossSessionLayoutEnables w + 1\<rparr>, [])"
| "continuation (CallEffect (RejectCall (n, ByReplay) e)) w = emit_error (as_bridge_error e) w"
| "continuation eff w = (w, [])"

fun continuations :: "ws_effect list \<Rightarrow> ws_client \<Rightarrow> ws_client \<times> ws_effect list" where
  "continuations [] w = (w, [])"
| "continuations (e # es) w = followed_by (continuation e w) (continuations es)"

definition ws_step :: "ws_client \<Rightarrow> ws_op \<Rightarrow> ws_client \<times> ws_effect list" where
  "ws_step w op =
     (let (w1, effs) = ws_operation op w; (w2, effs2) = continuations effs w1 in (w2, effs @ effs2))"


subsection \<open>Coverage across a reconnect\<close>

text \<open>The coverage calls the peer of the latest connection receives, in wire order.\<close>

fun coverage_calls :: "ws_effect list \<Rightarrow> cov_op list" where
  "coverage_calls [] = []"
| "coverage_calls (CallEffect (Transmit (CallFrame callId m args)) # es) =
     (if m = ''enableCrossSessionLayoutChange'' then CovEnable 1 0 # coverage_calls es
      else if m = ''disableCrossSessionLayoutChange'' then CovDisable 1 0 # coverage_calls es
      else coverage_calls es)"
| "coverage_calls (e # es) = coverage_calls es"

definition latest_connection :: "ws_effect list \<Rightarrow> ws_effect list" where
  "latest_connection effs = rev (takeWhile (\<lambda>e. case e of OpenSocket \<Rightarrow> False | _ \<Rightarrow> True) (rev effs))"

definition example_schedule :: backoff_schedule where
  "example_schedule = \<lparr>maxAttempts = Budget 3, initialDelayMs = 250, maxDelayMs = 10000, growth = 2, jitterMs = 0\<rparr>"

definition open_ws :: ws_socket where
  "open_ws = \<lparr>socketOpen = True, socketAccepts = (\<lambda>f. True)\<rparr>"

definition example_welcome :: ws_op where
  "example_welcome = WsMessage (TextData (Some (encode_server_frame (WelcomeFrame
     \<lparr>limitRequestTimeoutMs = 30000, limitHeartbeatIntervalMs = 0, limitMaxInflight = 64\<rparr>))))"

definition answered_null :: "string \<Rightarrow> ws_op" where
  "answered_null callId = WsMessage (TextData (Some (encode_server_frame (ResultFrame (ResultOk callId JNull)))))"

definition disable_during_outage :: "ws_op list" where
  "disable_during_outage =
     [WsConnect 0 (Some open_ws), WsOpened, example_welcome,
      WsMethod RpcEnableCoverage, answered_null ''r1'', WsMethod RpcEnableCoverage, answered_null ''r2'',
      WsClosed 0, WsMethod RpcDisableCoverage, WsRetryTimer 0 (Some open_ws), WsOpened, example_welcome]"

text \<open>
  A disable made during an outage drops the coverage that remains. The client lowers its
  count at once and replays the lower count on the next welcome, and then the queued disable
  goes out too: after two enables, a disconnect and one disable, the client counts one enable
  outstanding while the server's fresh peer is left with none.
\<close>

theorem outage_disable_drops_coverage:
  "let (w, effs) = run_steps ws_step (new_ws_client example_schedule None 30000) disable_during_outage in
     crossSessionLayoutEnables w = 1 \<and> wsState w = Ready
     \<and> coverage_calls (latest_connection effs) = [CovEnable 1 0, CovDisable 1 0]
     \<and> \<not> is_coverage_enabled 1 (fst (run_steps cov_step_fn new_cov_ledger
            (CovRegister 1 # coverage_calls (latest_connection effs))))"
  by code_simp


subsection \<open>Relations every operation keeps\<close>

text \<open>
  A relation between a state and what an operation makes of it holds of every operation as
  soon as it composes, holds of the changes that touch neither calls nor the announced state,
  and holds of the handful of primitives that do.
\<close>

fun plain :: "ws_effect \<Rightarrow> bool" where
  "plain (CallEffect e) = False"
| "plain (RejectInvalid q c) = False"
| "plain (EmitState s) = False"
| "plain e = True"

definition local_change :: "ws_client \<Rightarrow> ws_client \<Rightarrow> ws_effect list \<Rightarrow> bool" where
  "local_change w w' effs \<longleftrightarrow>
     wsOutbox w' = wsOutbox w \<and> wsState w' = wsState w \<and> wsNextPromise w' = wsNextPromise w
     \<and> nextCallId w \<le> nextCallId w' \<and> list_all plain effs"

lemma followed_by_eq: "followed_by r f = (fst (f (fst r)), snd r @ snd (f (fst r)))"
  by (simp add: followed_by_def case_prod_beta)

locale ws_relation =
  fixes R :: "ws_client \<Rightarrow> ws_client \<times> ws_effect list \<Rightarrow> bool"
  assumes chain: "R w r \<Longrightarrow> R (fst r) r' \<Longrightarrow> R w (fst r', snd r @ snd r')"
    and quiet: "local_change w w' effs \<Longrightarrow> R w (w', effs)"
    and state: "R w (set_ws_state s w)"
    and call: "R w (ws_call origin m args w)"
    and invalid: "R w (w\<lparr>wsNextPromise := Suc (wsNextPromise w)\<rparr>, [RejectInvalid (wsNextPromise w, origin) c])"
    and timeout: "R w (on_outbox (call_timeout q) w)"
    and flush: "R w (on_outbox (flush_outbox (transmit_frame w)) w)"
    and drain: "R w (on_outbox (drain_outbox err) w)"
    and settle: "R w (w\<lparr>wsOutbox := fst (settle_call frame (wsOutbox w))\<rparr>,
                      map CallEffect (fst (snd (settle_call frame (wsOutbox w)))))"
begin

lemma seq: "R w r \<Longrightarrow> (\<And>w'. R w' (f w')) \<Longrightarrow> R w (followed_by r f)"
  by (simp add: followed_by_eq chain)

lemma seq_at: "R w r \<Longrightarrow> R (fst r) (f (fst r)) \<Longrightarrow> R w (followed_by r f)"
  by (simp add: followed_by_eq chain)

lemma pre: "local_change w w' [] \<Longrightarrow> R w' r \<Longrightarrow> R w r"
  using chain [of w "(w', [])" r] quiet by simp

lemma same [intro, simp]: "R w (w, [])"
  by (rule quiet) (simp add: local_change_def)

lemma error [intro, simp]: "R w (emit_error err w)"
  unfolding emit_error_def Let_def
  by (rule seq, rule quiet) (simp_all add: local_change_def state)

lemma raw [intro, simp]: "R w (raw_send frame w)"
  by (cases "wsSocket w") (auto simp: raw_send_def local_change_def intro: quiet)

lemma plain_effect: "plain e \<Longrightarrow> R w (w, [e])"
  by (rule quiet) (simp add: local_change_def)

lemma decide: "R w (after_decision d w)"
  unfolding after_decision_def
  by (auto intro!: seq state plain_effect split: option.split decision.split)

lemma plain_retry: "list_all plain (concat (map retry_effect es))"
proof (induction es)
  case (Cons e es)
  then show ?case by (cases e) simp_all
qed simp

lemma ending: "R w (end_connection draw w)"
  unfolding end_connection_def Let_def
  by (auto intro!: seq quiet state decide plain_retry simp: local_change_def split: prod.split)

lemma finalize [intro, simp]: "R w (finalize_connection draw err w)"
proof -
  have "R w (w\<lparr>wsHeartbeat := map_option heartbeat_stop (wsHeartbeat w), wsSocket := None, routerRun := None\<rparr>,
      case routerRun w of None \<Rightarrow> [] | Some n \<Rightarrow> [RouterLost n])"
    by (rule quiet) (simp add: local_change_def split: option.split)
  then show ?thesis
    using seq [OF seq [OF _ drain] ending] by (simp add: finalize_connection_def Let_def)
qed

lemma open_it [intro, simp]: "R w (open_socket draw made w)"
  unfolding open_socket_def
  by (rule seq [OF state]) (auto simp: local_change_def intro: quiet split: option.split)

lemma replay [intro, simp]: "R w (replay_enables n w)"
  by (induction n arbitrary: w) (auto intro: seq call)

lemma welcomed [intro, simp]: "R w (on_welcome limits w)"
  unfolding on_welcome_def Let_def
  by (intro seq pre [OF _ state] pre [OF _ replay] flush quiet) (simp_all add: local_change_def start_heartbeat_def)

lemma result [intro, simp]: "R w (on_result frame w)"
  unfolding on_result_def case_prod_beta Let_def
  by (rule seq [OF settle]) (auto split: option.split)

lemma frame [intro, simp]: "R w (handle_frame f w)"
  by (cases f) (auto simp: handle_frame_def dispatch_event_def local_change_def intro: quiet)

lemma message [intro, simp]: "R w (on_message d w)"
  by (auto simp: on_message_def on_binary_def on_text_def local_change_def intro: quiet
      split: ws_data.split sum.split option.split)

lemma proxied: "R w (ws_method req w)"
  by (cases req) (auto simp: ws_method_def local_change_def intro: call invalid pre [OF _ call] split: option.split)

lemma operation: "R w (ws_operation op w)"
proof (cases op)
  case (WsConnect draw made)
  then show ?thesis by (auto simp: ws_connect_def local_change_def intro: pre [OF _ open_it])
next
  case (WsClose draw)
  have "R w' (case wsSocket w' of None \<Rightarrow> (w', [])
      | Some s \<Rightarrow> (w'\<lparr>wsSocket := Some (s\<lparr>socketOpen := False\<rparr>)\<rparr>, [CloseSocket 1000]))" for w'
    by (auto simp: local_change_def intro: quiet split: option.split)
  then show ?thesis
    unfolding WsClose ws_operation.simps ws_close_def
    by (intro seq pre [OF _ raw]) (simp_all add: local_change_def)
next
  case (WsMethod req)
  then show ?thesis by (simp add: proxied)
next
  case (WsCallTimeout q)
  then show ?thesis by (simp add: timeout)
next
  case (WsRetryTimer draw made)
  then show ?thesis
    by (auto simp: ws_retry_def local_change_def Let_def intro: pre [OF _ open_it] split: prod.split)
next
  case WsTick
  then show ?thesis
    by (auto simp: ws_tick_def local_change_def Let_def intro: pre [OF _ raw] split: option.split prod.split)
next
  case WsDeadline
  then show ?thesis
    by (auto simp: ws_deadline_def local_change_def Let_def intro: quiet split: option.split prod.split)
qed (auto simp: attached_def local_change_def intro: quiet)

lemma continued: "R w (continuations es w)"
proof (induction es arbitrary: w)
  case (Cons e es)
  have "R w (continuation e w)"
    by (cases "(e, w)" rule: continuation.cases) (auto simp: local_change_def intro: quiet)
  with Cons show ?case by (auto intro: seq)
qed simp

lemma step: "R w (ws_step w op)"
  using chain [OF operation [of w op] continued] by (simp add: ws_step_def case_prod_beta)

lemma run: "R w (run_steps ws_step w ops)"
proof (induction ops arbitrary: w)
  case (Cons op ops)
  have "run_steps ws_step w (op # ops) = (fst (run_steps ws_step (fst (ws_step w op)) ops),
      snd (ws_step w op) @ snd (run_steps ws_step (fst (ws_step w op)) ops))"
    by (simp add: prod_eq_iff)
  then show ?case using chain [OF step [of w op] Cons] by simp
qed simp

end


subsection \<open>Every call settles, and goes out only when the server listens\<close>

fun ws_settled :: "ws_effect list \<Rightarrow> nat list" where
  "ws_settled [] = []"
| "ws_settled (CallEffect e # es) =
     (case settled_promise e of None \<Rightarrow> ws_settled es | Some q \<Rightarrow> fst q # ws_settled es)"
| "ws_settled (RejectInvalid q c # es) = fst q # ws_settled es"
| "ws_settled (e # es) = ws_settled es"

definition ws_pending :: "ws_client \<Rightarrow> nat list" where
  "ws_pending w = map fst (promises (wsOutbox w))"

definition call_names :: "nat \<Rightarrow> string set" where
  "call_names n = (\<lambda>k. ''r'' @ nat_str k) ` {1..n}"

definition ws_inv :: "ws_client \<Rightarrow> bool" where
  "ws_inv w \<longleftrightarrow> outbox_inv (wsOutbox w) \<and> fst ` set (pendingCalls (wsOutbox w)) \<subseteq> call_names (nextCallId w)
     \<and> set (ws_pending w) \<subseteq> {..<wsNextPromise w}"

definition accounts :: "ws_client \<Rightarrow> ws_client \<times> ws_effect list \<Rightarrow> bool" where
  "accounts w r \<longleftrightarrow> (ws_inv w \<longrightarrow>
     ws_inv (fst r) \<and> wsNextPromise w \<le> wsNextPromise (fst r)
     \<and> mset (ws_pending w @ [wsNextPromise w..<wsNextPromise (fst r)]) =
       mset (ws_settled (snd r) @ ws_pending (fst r)))"

lemma ws_settled_append [simp]: "ws_settled (xs @ ys) = ws_settled xs @ ws_settled ys"
  by (induction xs rule: ws_settled.induct) (simp_all split: option.split)

lemma ws_settled_calls [simp]: "ws_settled (map CallEffect effs) = map fst (settled effs)"
  by (induction effs) (simp_all split: option.split)

lemma ws_settled_plain: "list_all plain effs \<Longrightarrow> ws_settled effs = []"
proof (induction effs)
  case (Cons e es)
  then show ?case by (cases e) simp_all
qed simp

lemma set_ws_state_keeps [simp]:
  "wsOutbox (fst (set_ws_state s w)) = wsOutbox w" "wsNextPromise (fst (set_ws_state s w)) = wsNextPromise w"
  "nextCallId (fst (set_ws_state s w)) = nextCallId w" "ws_settled (snd (set_ws_state s w)) = []"
  by (simp_all add: set_ws_state_def Let_def)

lemma accounts_chain:
  assumes "accounts w r" and "accounts (fst r) r'"
  shows "accounts w (fst r', snd r @ snd r')"
  unfolding accounts_def
proof
  assume "ws_inv w"
  then have r: "ws_inv (fst r)" "wsNextPromise w \<le> wsNextPromise (fst r)"
    "mset (ws_pending w @ [wsNextPromise w..<wsNextPromise (fst r)]) = mset (ws_settled (snd r) @ ws_pending (fst r))"
    using assms(1) by (simp_all add: accounts_def)
  then have r': "ws_inv (fst r')" "wsNextPromise (fst r) \<le> wsNextPromise (fst r')"
    "mset (ws_pending (fst r) @ [wsNextPromise (fst r)..<wsNextPromise (fst r')]) = mset (ws_settled (snd r') @ ws_pending (fst r'))"
    using assms(2) by (simp_all add: accounts_def)
  have "[wsNextPromise w..<wsNextPromise (fst r')] =
      [wsNextPromise w..<wsNextPromise (fst r)] @ [wsNextPromise (fst r)..<wsNextPromise (fst r')]"
    using r(2) r'(2) by (metis le_Suc_ex upt_add_eq_append)
  then have "mset (ws_pending w @ [wsNextPromise w..<wsNextPromise (fst r')]) =
      mset (ws_settled (snd r @ snd r') @ ws_pending (fst r'))"
    using mset_chain [OF r(3) [unfolded mset_append] r'(3) [unfolded mset_append]]
    by (simp only: mset_append ws_settled_append)
  then show "ws_inv (fst (fst r', snd r @ snd r')) \<and> wsNextPromise w \<le> wsNextPromise (fst (fst r', snd r @ snd r'))
     \<and> mset (ws_pending w @ [wsNextPromise w..<wsNextPromise (fst (fst r', snd r @ snd r'))]) =
       mset (ws_settled (snd (fst r', snd r @ snd r')) @ ws_pending (fst (fst r', snd r @ snd r')))"
    using r(2) r'(1,2) by simp
qed

text \<open>An operation of the outbox that takes no call in.\<close>

lemma accounts_outbox:
  assumes "enqueued op = None" and "outbox_step (wsOutbox w) op = (ob, effs)"
  shows "accounts w (w\<lparr>wsOutbox := ob\<rparr>, map CallEffect effs)"
  unfolding accounts_def
proof
  assume inv: "ws_inv w"
  have "balanced (wsOutbox w) op (ob, effs)"
    using outbox_step_balanced [of "wsOutbox w" op] inv assms by (simp add: ws_inv_def fresh_op_def)
  then have b: "outbox_inv ob" "mset (promises (wsOutbox w)) = mset (settled effs) + mset (promises ob)"
    "fst ` set (pendingCalls ob) \<subseteq> fst ` set (pendingCalls (wsOutbox w))"
    using assms(1) by (simp_all add: balanced_def added_def)
  have m: "mset (ws_pending w) = mset (map fst (settled effs)) + mset (map fst (promises ob))"
    using b(2) by (simp add: ws_pending_def flip: image_mset_union)
  then have "set (map fst (promises ob)) \<subseteq> set (ws_pending w)"
    by (metis mset_append mset_eq_setD set_append sup_ge2)
  then have "set (map fst (promises ob)) \<subseteq> {..<wsNextPromise w}"
    "fst ` set (pendingCalls ob) \<subseteq> call_names (nextCallId w)"
    using inv b(3) unfolding ws_inv_def by (meson order_trans)+
  then show "ws_inv (fst (w\<lparr>wsOutbox := ob\<rparr>, map CallEffect effs))
     \<and> wsNextPromise w \<le> wsNextPromise (fst (w\<lparr>wsOutbox := ob\<rparr>, map CallEffect effs))
     \<and> mset (ws_pending w @ [wsNextPromise w..<wsNextPromise (fst (w\<lparr>wsOutbox := ob\<rparr>, map CallEffect effs))]) =
       mset (ws_settled (snd (w\<lparr>wsOutbox := ob\<rparr>, map CallEffect effs)) @ ws_pending (fst (w\<lparr>wsOutbox := ob\<rparr>, map CallEffect effs)))"
    using b(1) m by (simp add: ws_inv_def ws_pending_def)
qed


lemma nat_str_inj: "nat_str a = nat_str b \<longleftrightarrow> a = b"
  by (metis digits_val_nat_str)

lemma next_id_fresh: "next_id w \<notin> call_names (nextCallId w)"
  by (auto simp: next_id_def call_names_def nat_str_inj)

lemma call_names_mono: "m \<le> n \<Longrightarrow> call_names m \<subseteq> call_names n"
  by (auto simp: call_names_def)

lemma next_id_name: "next_id w \<in> call_names (Suc (nextCallId w))"
  by (auto simp: next_id_def call_names_def)

lemma accounts_quiet: "local_change w w' effs \<Longrightarrow> accounts w (w', effs)"
  using call_names_mono [of "nextCallId w" "nextCallId w'"]
  by (auto simp: accounts_def local_change_def ws_inv_def ws_pending_def ws_settled_plain)

lemma accounts_refused:
  "ws_settled effs = [wsNextPromise w] \<Longrightarrow> accounts w (w\<lparr>wsNextPromise := Suc (wsNextPromise w)\<rparr>, effs)"
  by (auto simp: accounts_def ws_inv_def ws_pending_def less_Suc_eq)

lemma accounts_call: "accounts w (ws_call origin m args w)"
proof (cases "status (wsState w) = ''closed'' \<or> userRequestedClose w \<or> wsDraining w")
  case True
  then have "ws_call origin m args w = (w\<lparr>wsNextPromise := Suc (wsNextPromise w)\<rparr>,
      [CallEffect (RejectCall (wsNextPromise w, origin) (CodeError BRIDGE_CLOSED))])"
    by (auto simp: ws_call_def Let_def)
  then show ?thesis using accounts_refused by simp
next
  case False
  let ?n = "wsNextPromise w" and ?id = "next_id w"
  let ?w = "w\<lparr>wsNextPromise := Suc ?n, nextCallId := Suc (nextCallId w)\<rparr>"
  let ?op = "Enqueue (transmit_frame ?w) ?id m (CallFrame ?id m args) (effective_timeout_ms ?w) (?n, origin)"
  obtain ob effs where ob: "outbox_step (wsOutbox w) ?op = (ob, effs)" by fastforce
  have next_id: "next_id (w\<lparr>wsNextPromise := Suc ?n\<rparr>) = ?id" by (simp add: next_id_def)
  have eq: "ws_call origin m args w = (?w\<lparr>wsOutbox := ob\<rparr>, map CallEffect effs)"
    using False ob by (simp add: ws_call_def on_outbox_def next_id Let_def)
  show ?thesis
    unfolding accounts_def
  proof
    assume inv: "ws_inv w"
    have fresh: "?id \<notin> fst ` set (pendingCalls (wsOutbox w))" "(?n, origin) \<notin> set (promises (wsOutbox w))"
      using inv next_id_fresh [of w] by (auto simp: ws_inv_def ws_pending_def)
    have "balanced (wsOutbox w) ?op (outbox_step (wsOutbox w) ?op)"
      unfolding outbox_step.simps by (rule enqueue_balanced [OF _ fresh]) (use inv in \<open>simp add: ws_inv_def\<close>)
    then have "balanced (wsOutbox w) ?op (ob, effs)" unfolding ob .
    then have b: "outbox_inv ob" "mset (promises (wsOutbox w)) + {#(?n, origin)#} = mset (settled effs) + mset (promises ob)"
      "fst ` set (pendingCalls ob) \<subseteq> fst ` set (pendingCalls (wsOutbox w)) \<union> {?id}"
      by (simp_all add: balanced_def added_def)
    have m: "mset (ws_pending w) + {#?n#} = mset (map fst (settled effs)) + mset (map fst (promises ob))"
      using arg_cong [OF b(2), of "image_mset fst"] by (simp add: ws_pending_def)
    then have "set_mset (mset (map fst (promises ob))) \<subseteq> set_mset (mset (ws_pending w) + {#?n#})"
      by (metis set_mset_union sup_ge2)
    then have "set (map fst (promises ob)) \<subseteq> insert ?n (set (ws_pending w))"
      by (simp only: set_mset_mset set_mset_union set_mset_add_mset_insert set_mset_empty) auto
    also have "\<dots> \<subseteq> insert ?n {..<?n}"
      using inv unfolding ws_inv_def by (simp only: insert_mono)
    finally have p: "set (map fst (promises ob)) \<subseteq> {..<Suc ?n}"
      by (simp only: lessThan_Suc)
    have "fst ` set (pendingCalls (wsOutbox w)) \<subseteq> call_names (nextCallId w)"
      using inv by (simp only: ws_inv_def)
    then have "fst ` set (pendingCalls (wsOutbox w)) \<union> {?id} \<subseteq> call_names (Suc (nextCallId w))"
      using call_names_mono [of "nextCallId w" "Suc (nextCallId w)"] next_id_name [of w] by auto
    with b(3) have k: "fst ` set (pendingCalls ob) \<subseteq> call_names (Suc (nextCallId w))"
      by (rule order_trans)
    show "ws_inv (fst (ws_call origin m args w)) \<and> ?n \<le> wsNextPromise (fst (ws_call origin m args w))
      \<and> mset (ws_pending w @ [?n..<wsNextPromise (fst (ws_call origin m args w))]) =
        mset (ws_settled (snd (ws_call origin m args w)) @ ws_pending (fst (ws_call origin m args w)))"
      unfolding eq using b(1) p k m by (simp add: ws_inv_def ws_pending_def)
  qed
qed

interpretation accounts: ws_relation accounts
proof unfold_locales
  fix w w' :: ws_client and r r' :: "ws_client \<times> ws_effect list" and effs s origin m args c q err frame
  show "accounts w r \<Longrightarrow> accounts (fst r) r' \<Longrightarrow> accounts w (fst r', snd r @ snd r')"
    by (rule accounts_chain)
  show "local_change w w' effs \<Longrightarrow> accounts w (w', effs)" by (rule accounts_quiet)
  show "accounts w (set_ws_state s w)"
    by (simp add: accounts_def ws_inv_def ws_pending_def)
  show "accounts w (ws_call origin m args w)" by (rule accounts_call)
  show "accounts w (w\<lparr>wsNextPromise := Suc (wsNextPromise w)\<rparr>, [RejectInvalid (wsNextPromise w, origin) c])"
    by (rule accounts_refused) simp
  have on: "accounts w (on_outbox f w)"
    if "enqueued op = None" "outbox_step (wsOutbox w) op = f (wsOutbox w)" for f op
    using accounts_outbox [OF that(1), of w "fst (f (wsOutbox w))" "snd (f (wsOutbox w))"] that(2)
    by (simp add: on_outbox_def case_prod_beta)
  show "accounts w (on_outbox (call_timeout q) w)" by (rule on [of "CallTimeout q"]) simp_all
  show "accounts w (on_outbox (flush_outbox (transmit_frame w)) w)"
    by (rule on [of "FlushCalls (transmit_frame w)"]) simp_all
  show "accounts w (on_outbox (drain_outbox err) w)" by (rule on [of "DrainCalls err"]) simp_all
  show "accounts w (w\<lparr>wsOutbox := fst (settle_call frame (wsOutbox w))\<rparr>,
      map CallEffect (fst (snd (settle_call frame (wsOutbox w)))))"
    by (rule accounts_outbox [of "SettleCall frame"]) (simp_all add: case_prod_beta)
qed


text \<open>The reading of the effects by an observer who knows the announced states.\<close>

fun last_announced :: "bool \<Rightarrow> ws_effect list \<Rightarrow> bool" where
  "last_announced p [] = p"
| "last_announced p (EmitState s # es) = last_announced (status s = ''ready'') es"
| "last_announced p (e # es) = last_announced p es"

fun calls_when_ready :: "bool \<Rightarrow> ws_effect list \<Rightarrow> bool" where
  "calls_when_ready p [] = True"
| "calls_when_ready p (EmitState s # es) = calls_when_ready (status s = ''ready'') es"
| "calls_when_ready p (CallEffect (Transmit f) # es) = (p \<and> calls_when_ready p es)"
| "calls_when_ready p (e # es) = calls_when_ready p es"

definition listening :: "ws_client \<Rightarrow> ws_client \<times> ws_effect list \<Rightarrow> bool" where
  "listening w r \<longleftrightarrow>
     last_announced (status (wsState w) = ''ready'') (snd r) = (status (wsState (fst r)) = ''ready'')
     \<and> calls_when_ready (status (wsState w) = ''ready'') (snd r)"

lemma announced_append [simp]:
  "last_announced p (xs @ ys) = last_announced (last_announced p xs) ys"
  "calls_when_ready p (xs @ ys) = (calls_when_ready p xs \<and> calls_when_ready (last_announced p xs) ys)"
  by (induction p xs rule: calls_when_ready.induct) auto

lemma announced_plain: "list_all plain effs \<Longrightarrow> last_announced p effs = p \<and> calls_when_ready p effs"
proof (induction effs)
  case (Cons e es)
  then show ?case by (cases e) simp_all
qed simp

lemma announced_calls:
  "last_announced p (map CallEffect es) = p"
  "calls_when_ready p (map CallEffect es) = (p \<or> sent es = [])"
proof (induction es)
  case (Cons e es)
  { case 1 then show ?case using Cons by simp }
  { case 2 then show ?case using Cons by (cases e) auto }
qed simp_all

lemma status_set_ws_state [simp]: "status (wsState (fst (set_ws_state s w))) = status s"
  by (auto simp: set_ws_state_def same_connection_state_def Let_def split: if_splits)

lemma listening_outbox:
  "sent (snd (f (wsOutbox w))) = [] \<or> status (wsState w) = ''ready'' \<Longrightarrow> listening w (on_outbox f w)"
  by (auto simp: listening_def on_outbox_def case_prod_beta announced_calls)

lemma sent_transmit: "sent (snd (transmit (\<lambda>f. False) p)) = []"
  by (simp add: transmit_def)

lemma sent_flush: "(\<And>f. \<not> send f) \<Longrightarrow> sent (snd (flush_calls send ps)) = []"
  by (induction ps) (auto simp: transmit_def Let_def split: prod.splits)

lemma not_ready: "status (wsState w) \<noteq> ''ready'' \<Longrightarrow> \<not> transmit_frame w f"
  by (simp add: transmit_frame_def)

lemma sent_others:
  "sent (snd (call_timeout q ob)) = []" "sent (snd (drain_outbox err ob)) = []"
  "sent (fst (snd (settle_call frame ob))) = []"
  by (auto simp: call_timeout_def drain_outbox_def settle_call_def Let_def split: option.split result_frame.split)

interpretation listening: ws_relation listening
proof unfold_locales
  fix w w' :: ws_client and r r' :: "ws_client \<times> ws_effect list" and effs s origin m args c q err frame
  show "listening w r \<Longrightarrow> listening (fst r) r' \<Longrightarrow> listening w (fst r', snd r @ snd r')"
    by (simp add: listening_def)
  show "local_change w w' effs \<Longrightarrow> listening w (w', effs)"
    using announced_plain by (simp add: listening_def local_change_def)
  show "listening w (set_ws_state s w)"
    by (cases s; cases "wsState w") (auto simp: listening_def set_ws_state_def same_connection_state_def Let_def)
  show "listening w (ws_call origin m args w)"
  proof (cases "status (wsState w) = ''ready''")
    case True
    then show ?thesis
      by (auto simp: ws_call_def Let_def on_outbox_def listening_def case_prod_beta announced_calls)
  next
    case False
    then have "\<not> transmit_frame (w\<lparr>wsNextPromise := i, nextCallId := j\<rparr>) f" for i j f
      by (simp add: transmit_frame_def)
    then show ?thesis using False
      by (auto simp: ws_call_def Let_def on_outbox_def listening_def case_prod_beta announced_calls
          enqueue_def transmit_def)
  qed
  show "listening w (w\<lparr>wsNextPromise := Suc (wsNextPromise w)\<rparr>, [RejectInvalid (wsNextPromise w, origin) c])"
    by (simp add: listening_def)
  show "listening w (on_outbox (call_timeout q) w)" by (rule listening_outbox) (simp add: sent_others)
  show "listening w (on_outbox (flush_outbox (transmit_frame w)) w)"
    by (rule listening_outbox) (use sent_flush not_ready in \<open>auto simp: flush_outbox_def case_prod_beta\<close>)
  show "listening w (on_outbox (drain_outbox err) w)" by (rule listening_outbox) (simp add: sent_others)
  show "listening w (w\<lparr>wsOutbox := fst (settle_call frame (wsOutbox w))\<rparr>,
      map CallEffect (fst (snd (settle_call frame (wsOutbox w)))))"
    by (simp add: listening_def announced_calls sent_others)
qed


subsection \<open>The life cycle\<close>

text \<open>
  Closed means at rest: nothing pending, no socket, no retry armed. A socket and an armed
  retry exclude each other; ready has a socket; reconnecting has a retry armed.
\<close>

definition shape :: "ws_client \<Rightarrow> bool" where
  "shape w \<longleftrightarrow>
     (status (wsState w) = ''closed'' \<longrightarrow>
        wsOutbox w = new_outbox \<and> wsSocket w = None \<and> retryTimer (wsReconnect w) = None)
     \<and> (wsSocket w \<noteq> None \<longrightarrow> retryTimer (wsReconnect w) = None)
     \<and> (status (wsState w) = ''ready'' \<longrightarrow> wsSocket w \<noteq> None)
     \<and> (status (wsState w) = ''reconnecting'' \<longrightarrow> retryTimer (wsReconnect w) \<noteq> None)
     \<and> (userRequestedClose w \<longrightarrow> status (wsState w) = ''closed'')"

definition life :: "ws_client \<Rightarrow> bool" where
  "life w \<longleftrightarrow> ws_inv w \<and> shape w"

text \<open>A change that concerns neither the life cycle nor, once closed, the outbox.\<close>

definition same_shape :: "ws_client \<Rightarrow> ws_client \<Rightarrow> bool" where
  "same_shape w w' \<longleftrightarrow>
     status (wsState w') = status (wsState w) \<and> (wsSocket w' = None) = (wsSocket w = None)
     \<and> retryTimer (wsReconnect w') = retryTimer (wsReconnect w)
     \<and> userRequestedClose w' = userRequestedClose w
     \<and> (status (wsState w) = ''closed'' \<longrightarrow> wsOutbox w' = wsOutbox w)"

lemma shape_same: "shape w \<Longrightarrow> same_shape w w' \<Longrightarrow> shape w'"
  by (simp add: shape_def same_shape_def)

lemma same_shape_trans: "same_shape a b \<Longrightarrow> same_shape b c \<Longrightarrow> same_shape a c"
  by (simp add: same_shape_def)

lemma set_ws_state_more [simp]:
  "wsSocket (fst (set_ws_state s w)) = wsSocket w" "wsReconnect (fst (set_ws_state s w)) = wsReconnect w"
  "userRequestedClose (fst (set_ws_state s w)) = userRequestedClose w"
  "crossSessionLayoutEnables (fst (set_ws_state s w)) = crossSessionLayoutEnables w"
  by (simp_all add: set_ws_state_def Let_def)

lemma emit_error_more [simp]:
  "wsSocket (fst (emit_error e w)) = wsSocket w" "wsReconnect (fst (emit_error e w)) = wsReconnect w"
  "userRequestedClose (fst (emit_error e w)) = userRequestedClose w"
  "wsOutbox (fst (emit_error e w)) = wsOutbox w" "status (wsState (fst (emit_error e w))) = status (wsState w)"
  by (simp_all add: emit_error_def followed_by_eq Let_def)

lemma raw_send_state [simp]: "fst (raw_send f w) = w"
  by (simp add: raw_send_def split: option.split)

lemma on_outbox_more [simp]:
  "wsSocket (fst (on_outbox f w)) = wsSocket w" "wsReconnect (fst (on_outbox f w)) = wsReconnect w"
  "userRequestedClose (fst (on_outbox f w)) = userRequestedClose w" "wsState (fst (on_outbox f w)) = wsState w"
  "wsOutbox (fst (on_outbox f w)) = fst (f (wsOutbox w))"
  by (simp_all add: on_outbox_def case_prod_beta)

text \<open>How a connection ends: at rest and closed, or waiting for its next attempt.\<close>

definition connection_ended :: "ws_client \<Rightarrow> ws_client \<Rightarrow> bool" where
  "connection_ended w w' \<longleftrightarrow>
     wsOutbox w' = new_outbox \<and> wsSocket w' = None \<and> userRequestedClose w' = userRequestedClose w
     \<and> (status (wsState w') = ''closed'' \<and> retryTimer (wsReconnect w') = None
        \<or> status (wsState w') = ''reconnecting'' \<and> retryTimer (wsReconnect w') \<noteq> None \<and> \<not> userRequestedClose w)"

lemma end_connection_ended:
  assumes "wsOutbox w = new_outbox" and "wsSocket w = None" and "retryTimer (wsReconnect w) = None"
  shows "connection_ended w (fst (end_connection draw w))"
  using assms unfolding connection_ended_def end_connection_def
  by (auto simp: followed_by_eq schedule_def after_decision_def Let_def simp del: status_simps
      split: max_attempts.split)

lemma finalize_ended:
  assumes "ws_inv w" and "status (wsState w) \<noteq> ''closed''" and "retryTimer (wsReconnect w) = None"
  shows "connection_ended w (fst (finalize_connection draw err w))"
proof -
  let ?w = "w\<lparr>wsHeartbeat := map_option heartbeat_stop (wsHeartbeat w), wsSocket := None, routerRun := None\<rparr>"
  let ?v = "fst (on_outbox (drain_outbox err) ?w)"
  have "fst (finalize_connection draw err w) = fst (end_connection draw ?v)"
    using assms(2) by (simp add: finalize_connection_def followed_by_eq Let_def)
  moreover have v: "wsOutbox ?v = new_outbox" "wsSocket ?v = None" "retryTimer (wsReconnect ?v) = None"
    "userRequestedClose ?v = userRequestedClose w"
    using assms(1,3) by (simp_all add: ws_inv_def drain_empties)
  ultimately show ?thesis using end_connection_ended [OF v(1-3), of draw] v(4) by (simp add: connection_ended_def)
qed


lemma finalize_closed: "status (wsState w) = ''closed'' \<Longrightarrow> finalize_connection draw err w = (w, [])"
  by (simp add: finalize_connection_def)

lemma shape_ended: "connection_ended w w' \<Longrightarrow> shape w'"
  by (auto simp: connection_ended_def shape_def simp del: status_simps)

lemma same_error: "same_shape w (fst (emit_error e w))"
  by (simp add: same_shape_def)

lemma same_call: "same_shape w (fst (ws_call origin m args w))"
  by (simp add: ws_call_def same_shape_def Let_def del: status_simps)

lemma same_replay: "same_shape w (fst (replay_enables n w))"
proof (induction n arbitrary: w)
  case (Suc n)
  then show ?case
    using same_call same_shape_trans by (simp add: followed_by_eq) blast
qed (simp add: same_shape_def)

lemma same_flush: "status (wsState w) \<noteq> ''closed'' \<Longrightarrow> same_shape w (fst (on_outbox f w))"
  by (simp add: same_shape_def)

lemma open_shape:
  assumes "ws_inv w" and "wsSocket w = None" and "retryTimer (wsReconnect w) = None" and "\<not> userRequestedClose w"
  shows "shape (fst (open_socket draw made w))"
proof (cases made)
  case None
  have "ws_inv (fst (set_ws_state Connecting w))"
    using assms(1) accounts.state [of w Connecting] by (simp add: accounts_def)
  then have "connection_ended (fst (set_ws_state Connecting w)) (fst (finalize_connection draw (CodeError BRIDGE_INTERNAL) (fst (set_ws_state Connecting w))))"
    by (rule finalize_ended) (simp_all add: assms(3) del: status_simps)
  then show ?thesis using None shape_ended by (simp add: open_socket_def followed_by_eq)
next
  case (Some s)
  then show ?thesis
    using assms by (simp add: open_socket_def followed_by_eq shape_def del: status_simps)
qed

lemma welcome_shape:
  assumes "shape w" and "wsSocket w \<noteq> None"
  shows "shape (fst (on_welcome limits w))"
proof -
  let ?a = "fst (set_ws_state Ready
      (w\<lparr>serverLimits := Some limits, wsReconnect := reset_episode (wsReconnect w), wsLastError := None\<rparr>))"
  let ?b = "start_heartbeat limits ?a"
  let ?c = "fst (replay_enables (crossSessionLayoutEnables ?b) ?b)"
  have "shape ?a"
    using assms by (auto simp: shape_def reset_episode_def cancel_retry_def simp del: status_simps)
  then have "shape ?b" by (simp add: shape_def start_heartbeat_def)
  then have c: "shape ?c" using same_replay shape_same by blast
  have "status (wsState ?c) = status (wsState ?b)" using same_replay by (simp add: same_shape_def)
  then have "status (wsState ?c) \<noteq> ''closed''" by (simp add: start_heartbeat_def del: status_simps)
  then have "shape (fst (on_outbox (flush_outbox (transmit_frame ?c)) ?c))"
    using c same_flush shape_same by blast
  then show ?thesis by (simp add: on_welcome_def followed_by_eq Let_def shape_def)
qed

lemma message_shape:
  assumes "life w" and "wsSocket w \<noteq> None"
  shows "shape (fst (on_message d w))"
proof -
  have w: "shape w" "status (wsState w) \<noteq> ''closed''"
    using assms by (auto simp: life_def shape_def simp del: status_simps)
  have e: "shape (fst (emit_error err w))" for err
    using w(1) same_error shape_same by blast
  have res: "shape (fst (on_result frame w))" for frame
  proof -
    have "same_shape w (w\<lparr>wsOutbox := ob\<rparr>)" for ob using w(2) by (simp add: same_shape_def)
    then have "shape (w\<lparr>wsOutbox := ob\<rparr>)" for ob using w(1) shape_same by blast
    then show ?thesis
      by (auto simp: on_result_def followed_by_eq case_prod_beta Let_def shape_same [OF _ same_error]
          split: option.split)
  qed
  have f: "shape (fst (handle_frame frame w))" for frame
    using w(1) welcome_shape [OF w(1) assms(2)] res e
    by (auto simp: handle_frame_def dispatch_event_def shape_def simp del: status_simps split: server_frame.split)
  show ?thesis
    using w(1) e f by (auto simp: on_message_def on_binary_def on_text_def
        split: ws_data.split option.split sum.split)
qed


lemma timeout_new [simp]: "call_timeout q new_outbox = (new_outbox, [])"
  by (simp add: call_timeout_def new_outbox_def)

lemma close_shape:
  assumes "life w"
  shows "shape (fst (ws_close draw w)) \<and> status (wsState (fst (ws_close draw w))) = ''closed''"
proof -
  have w: "ws_inv w" "shape w" using assms by (simp_all add: life_def)
  let ?a = "w\<lparr>userRequestedClose := True, wsReconnect := cancel_retry (wsReconnect w)\<rparr>"
  let ?b = "fst (case wsSocket ?a of None \<Rightarrow> (?a, [])
      | Some s \<Rightarrow> (?a\<lparr>wsSocket := Some (s\<lparr>socketOpen := False\<rparr>)\<rparr>, [CloseSocket 1000]))"
  have eq: "fst (ws_close draw w) = fst (finalize_connection draw (CodeError BRIDGE_CLOSED) ?b)"
    by (cases "wsSocket w") (simp_all add: ws_close_def followed_by_eq)
  have b: "ws_inv ?b" "wsState ?b = wsState w" "retryTimer (wsReconnect ?b) = None" "wsOutbox ?b = wsOutbox w"
    "(wsSocket ?b = None) = (wsSocket w = None)" "userRequestedClose ?b"
    using w(1) by (auto simp: ws_inv_def ws_pending_def cancel_retry_def split: option.split)
  show ?thesis
  proof (cases "status (wsState w) = ''closed''")
    case True
    then show ?thesis
      unfolding eq using b w(2) by (simp add: finalize_closed shape_def del: status_simps)
  next
    case False
    then have "connection_ended ?b (fst (finalize_connection draw (CodeError BRIDGE_CLOSED) ?b))"
      using finalize_ended [OF b(1) _ b(3)] b(2) by simp
    then show ?thesis
      unfolding eq using b(6) shape_ended by (auto simp: connection_ended_def simp del: status_simps)
  qed
qed

lemma operation_shape:
  assumes "life w"
  shows "shape (fst (ws_operation op w))"
proof -
  have w: "ws_inv w" "shape w" using assms by (simp_all add: life_def)
  have same: "same_shape w w' \<Longrightarrow> shape w'" for w' using w(2) shape_same by blast
  show ?thesis
  proof (cases op)
    case (WsConnect draw made)
    show ?thesis
    proof (cases "wsSocket w \<noteq> None \<or> is_pending (wsReconnect w)")
      case True
      then show ?thesis using WsConnect w by (auto simp: ws_connect_def)
    next
      case False
      have "shape (fst (open_socket draw made
          (w\<lparr>userRequestedClose := False, wsReconnect := reset_episode (wsReconnect w), wsLastError := None\<rparr>)))"
        by (rule open_shape) (use w(1) False in
          \<open>auto simp: ws_inv_def ws_pending_def reset_episode_def cancel_retry_def\<close>)
      then show ?thesis using WsConnect False by (simp add: ws_connect_def)
    qed
  next
    case (WsClose draw)
    then show ?thesis using close_shape [OF assms] by simp
  next
    case (WsMethod req)
    have "same_shape w (fst (ws_method req w))"
      using same_call [of w] same_call [of "w\<lparr>crossSessionLayoutEnables := crossSessionLayoutEnables w - 1\<rparr>"]
      by (cases req) (auto simp: ws_method_def same_shape_def simp del: status_simps split: option.split)
    then show ?thesis using WsMethod same by simp
  next
    case (WsCallTimeout q)
    have "same_shape w (fst (on_outbox (call_timeout q) w))"
      using w(2) by (auto simp: same_shape_def shape_def simp del: status_simps)
    then show ?thesis using WsCallTimeout same by simp
  next
    case (WsRetryTimer draw made)
    show ?thesis
    proof (cases "retryTimer (wsReconnect w) = None")
      case True
      then show ?thesis using WsRetryTimer w by (simp add: ws_retry_def timer_fires_def)
    next
      case False
      then have "shape (fst (open_socket draw made (w\<lparr>wsReconnect := wsReconnect w\<lparr>retryTimer := None\<rparr>\<rparr>)))"
        by (intro open_shape) (use w in
          \<open>auto simp: ws_inv_def ws_pending_def shape_def simp del: status_simps\<close>)
      then show ?thesis using WsRetryTimer False by (auto simp: ws_retry_def timer_fires_def Let_def)
    qed
  next
    case (WsClosed draw)
    show ?thesis
    proof (cases "wsSocket w = None")
      case True
      then show ?thesis using WsClosed w by (simp add: attached_def)
    next
      case False
      then have "status (wsState w) \<noteq> ''closed''" "retryTimer (wsReconnect w) = None"
        using w(2) by (auto simp: shape_def simp del: status_simps)
      then show ?thesis
        using WsClosed False shape_ended [OF finalize_ended [OF w(1)]] by (auto simp: attached_def)
    qed
  next
    case (WsMessage d)
    then show ?thesis using w message_shape [OF assms] by (simp add: attached_def)
  next
    case WsTick
    have "same_shape w (fst (ws_tick w))"
      by (auto simp: ws_tick_def same_shape_def Let_def split: option.split prod.split)
    then show ?thesis using WsTick same by simp
  next
    case WsDeadline
    have "same_shape w (fst (ws_deadline w))"
      by (auto simp: ws_deadline_def same_shape_def Let_def split: option.split prod.split)
    then show ?thesis using WsDeadline same by simp
  qed (use w same_error same in \<open>auto simp: attached_def same_shape_def\<close>)
qed

lemma same_continuations: "same_shape w (fst (continuations es w))"
proof (induction es arbitrary: w)
  case (Cons e es)
  have "same_shape w (fst (continuation e w))"
    by (cases "(e, w)" rule: continuation.cases) (auto simp: same_error same_shape_def)
  then show ?case using Cons.IH same_shape_trans unfolding continuations.simps followed_by_eq fst_conv by blast
qed (simp add: same_shape_def)

lemma continuations_shape: "shape w \<Longrightarrow> shape (fst (continuations es w))"
  using same_continuations shape_same by blast

interpretation life: invariant_steps ws_step life
proof unfold_locales
  fix w op
  assume "life w"
  moreover then have "ws_inv (fst (ws_step w op))"
    using accounts.step [of w op] by (simp add: accounts_def life_def)
  ultimately show "life (fst (ws_step w op))"
    using continuations_shape [OF operation_shape] by (simp add: life_def ws_step_def case_prod_beta)
qed

lemma new_ws_life [simp]: "life (new_ws_client sched interval timeout)"
  by (simp add: life_def shape_def ws_inv_def new_ws_client_def ws_pending_def new_outbox_def
      outbox_inv_def promises_def new_reconnect_def)

text \<open>
  Closing a bridge client is complete. At whatever point of whatever history the consumer
  calls \<open>close\<close>, when it returns the client is closed and at rest: no call is pending and no
  call timer armed, no socket is attached and no retry will fire; and at every moment a socket
  and an armed retry exclude each other, so no two connections can be under way.
\<close>

theorem ws_close_complete:
  "let w = fst (run_steps ws_step (new_ws_client sched interval timeout) ops);
       w' = fst (ws_step w (WsClose draw)) in
     status (wsState w') = ''closed'' \<and> wsOutbox w' = new_outbox \<and> wsSocket w' = None
     \<and> \<not> is_pending (wsReconnect w') \<and> \<not> (wsSocket w \<noteq> None \<and> is_pending (wsReconnect w))"
proof -
  let ?w = "fst (run_steps ws_step (new_ws_client sched interval timeout) ops)"
  let ?c = "fst (ws_step ?w (WsClose draw))"
  have w: "life ?w" by (rule life.run_keeps) simp
  have "same_shape (fst (ws_close draw ?w)) ?c"
    using same_continuations by (simp add: ws_step_def case_prod_beta)
  then have "status (wsState ?c) = ''closed''"
    using close_shape [OF w, of draw] by (simp add: same_shape_def)
  moreover have "life ?c" using w by (rule life.step_keeps)
  ultimately show ?thesis
    using w by (auto simp: Let_def life_def shape_def is_pending_def simp del: status_simps)
qed

lemma ws_pending_empty: "wsOutbox w = new_outbox \<Longrightarrow> ws_pending w = []"
  by (simp add: ws_pending_def new_outbox_def promises_def)

lemma closed_settled: "life w \<Longrightarrow> status (wsState w) = ''closed'' \<Longrightarrow> ws_pending w = []"
  by (simp add: life_def shape_def ws_pending_empty del: status_simps)

lemma continuations_outbox: "wsOutbox (fst (continuations es w)) = wsOutbox w"
proof (induction es arbitrary: w)
  case (Cons e es)
  have "wsOutbox (fst (continuation e w)) = wsOutbox w"
    by (cases "(e, w)" rule: continuation.cases) simp_all
  then show ?case using Cons.IH unfolding continuations.simps followed_by_eq fst_conv by simp
qed simp

lemma dropped_settled:
  assumes "life w" and "wsSocket w \<noteq> None"
  shows "ws_pending (fst (ws_step w (WsClosed draw))) = []"
proof -
  have "status (wsState w) \<noteq> ''closed''" "retryTimer (wsReconnect w) = None"
    using assms by (auto simp: life_def shape_def simp del: status_simps)
  then have "wsOutbox (fst (finalize_connection draw err w)) = new_outbox" for err
    using finalize_ended [of w draw err] assms(1) by (simp add: life_def connection_ended_def)
  then show ?thesis
    using assms(2) by (auto simp: ws_step_def case_prod_beta continuations_outbox attached_def ws_pending_empty)
qed

text \<open>
  C14. The bridge client keeps its promises. Over any history of the client (connects, drops,
  retries, timeouts, frames of any content, calls at any moment), every call made is either
  settled, exactly once, or still pending; and the frame of a call leaves only while the
  announced connection state is ready, never between a socket's opening and its welcome. A
  closed client has no call pending, \<open>close\<close> at any moment closes it and leaves every call
  settled, and so does the loss of the socket for the calls made until then.
\<close>

theorem ws_calls_settle_once:
  "let (w, effs) = run_steps ws_step (new_ws_client sched interval timeout) ops;
       closed = fst (ws_step w (WsClose draw));
       dropped = fst (ws_step w (WsClosed draw)) in
     mset (ws_settled effs @ ws_pending w) = mset [0..<wsNextPromise w]
     \<and> distinct (ws_settled effs @ ws_pending w)
     \<and> calls_when_ready False effs
     \<and> \<not> (status (wsState w) = ''closed'' \<and> ws_pending w \<noteq> [])
     \<and> status (wsState closed) = ''closed'' \<and> ws_pending closed = []
     \<and> \<not> (wsSocket w \<noteq> None \<and> ws_pending dropped \<noteq> [])"
proof -
  let ?w = "new_ws_client sched interval timeout"
  obtain w effs where r: "run_steps ws_step ?w ops = (w, effs)" by fastforce
  have "ws_inv ?w" "ws_pending ?w = []" "wsNextPromise ?w = 0"
    by (simp_all add: ws_inv_def new_ws_client_def ws_pending_def new_outbox_def outbox_inv_def promises_def)
  then have m: "mset (ws_settled effs @ ws_pending w) = mset [0..<wsNextPromise w]"
    using accounts.run [of ?w ops] r by (simp add: accounts_def)
  then have "distinct (ws_settled effs @ ws_pending w)"
    by (metis distinct_upt mset_eq_imp_distinct_iff)
  moreover have "calls_when_ready False effs"
    using listening.run [of ?w ops] r by (simp add: listening_def new_ws_client_def)
  moreover have w: "life w" using life.run_keeps [OF new_ws_life, of sched interval timeout ops] r by simp
  moreover have "status (wsState (fst (ws_step w (WsClose draw)))) = ''closed''"
    using close_shape [OF w, of draw] same_continuations
    by (auto simp: ws_step_def case_prod_beta same_shape_def simp del: status_simps)
  ultimately show ?thesis
    using m r closed_settled closed_settled [OF life.step_keeps] dropped_settled [OF w, of draw]
    by (auto simp del: status_simps)
qed

end
