(* ===== verification/WsServer.thy ===== *)
theory WsServer
  imports Bridge Calls
begin

section \<open>The WebSocket server\<close>

text \<open>
  \<open>src/connectors/websocket/server.ts\<close> with \<open>handshake.ts\<close>: the server's end of one connection
  (class \<open>Connection\<close>) and the bridge over all of them. Everything asynchronous is an operation
  of the environment: a message, a timer, the socket's events, the settling of the hooks
  \<open>authenticate\<close>, \<open>createClient\<close> and \<open>authorize\<close> and of a dispatched call, and what the tmux
  client emits. A hook that is not given behaves as one that allows. Of the socket the model
  keeps what the code reads: whether it is open, what \<open>bufferedAmount\<close> says, whether \<open>send\<close>
  and \<open>ping\<close> succeed; \<open>close\<close> and \<open>terminate\<close> leave it not open, as WebSocket documents, and
  a socket never reopens. Message texts and the payloads of observability events are left
  out; an effect \<open>Observe\<close> happens only where the \<open>onEvent\<close> hook is given.
\<close>

subsection \<open>State\<close>

record server_socket =
  sockOpen :: bool
  sockSends :: bool
  sockPings :: bool
  sockBuffered :: "int option"

record resolved_defaults =
  defHeartbeatIntervalMs :: int
  defHeartbeatTimeoutMs :: int
  defRequestTimeoutMs :: int
  defHelloTimeoutMs :: int
  defMaxInflight :: int

record server_options =
  optHighWatermark :: "int option"
  optLowWatermark :: "int option"
  optRateLimit :: "rate_limit option"

definition resolve_defaults ::
    "option_value option \<Rightarrow> option_value option \<Rightarrow> option_value option \<Rightarrow> option_value option \<Rightarrow>
     option_error + resolved_defaults" where
  "resolve_defaults heartbeatInterval heartbeatTimeout requestTimeout maxInflight =
     and_then (parse_heartbeat_interval ''heartbeatIntervalMs'' (or_default heartbeatInterval 30000)) (\<lambda>interval.
     and_then (parse_duration_ms ''heartbeatTimeoutMs'' (or_default heartbeatTimeout 10000)) (\<lambda>timeout.
     and_then (parse_duration_ms ''requestTimeoutMs'' (or_default requestTimeout 30000)) (\<lambda>request.
     and_then (parse_duration_ms ''helloTimeoutMs'' (Finite 5000)) (\<lambda>hello.
     and_then (parse_positive_int ''maxInflight'' (or_default maxInflight 64)) (\<lambda>inflight.
       Inr \<lparr>defHeartbeatIntervalMs = interval, defHeartbeatTimeoutMs = timeout,
            defRequestTimeoutMs = request, defHelloTimeoutMs = hello, defMaxInflight = inflight\<rparr>)))))"

datatype conn_phase =
    PendingHello
  | Handshaking
  | RunningPhase peer
  | DrainingPhase peer int
  | ClosedPhase "peer option"

datatype hello_task = AwaitingAuth | AwaitingClient

record conn =
  phase :: conn_phase
  connBridge :: "bridge option"
  connFatal :: "bridge_error_code option"
  listening :: bool
  forwarding :: bool
  rateWindow :: "int list"
  connBeat :: "unit heartbeat"
  callPump :: call_pump
  helloDeadline :: bool
  helloTask :: "hello_task option"
  authorizing :: "(nat \<times> peer \<times> client_frame) list"
  dispatching :: "(nat \<times> string) list"
  nextTask :: nat
  connSocket :: server_socket
  connDefaults :: resolved_defaults
  connOptions :: server_options

text \<open>What goes out on the socket, and everything else the connection does.\<close>

datatype server_reply =
    ReplyOk rpc_response
  | ReplyTmuxError command_response
  | ReplyError bridge_error_code

datatype server_send =
    SendWelcome welcome_limits
  | SendReply string server_reply
  | SendPong string
  | SendDraining int
  | SendFatal bridge_error_code
  | SendEvent emitter_message
  | SendBytes "byte list"

datatype observation =
    ObsProtocolError
  | ObsHandshakeUnreported bridge_error_code
  | ObsOpened
  | ObsCall string string bool
  | ObsResult string "bridge_error_code option" int
  | ObsUpstreamClosed close_reason
  | ObsEventOut string
  | ObsClosed "bridge_error_code option"
  | ObsDisposeFailed

datatype server_effect =
    Send server_send
  | CloseWs int
  | TerminateWs
  | PingWs
  | RunAuthenticate
  | RunCreateClient
  | ObtainClient
  | RunAuthorize nat string "json list"
  | RunProgram nat "rpc_response program option"
  | FromBridge bridge_effect
  | ListenClient
  | UnlistenClient
  | AttachForwarder
  | DetachForwarder
  | DisposeClient
  | Observe observation
  | ConnectionDone

definition connection_closed :: "conn \<Rightarrow> bool" where
  "connection_closed c \<longleftrightarrow> (case phase c of ClosedPhase final \<Rightarrow> True | _ \<Rightarrow> False)"

definition is_tearing_down :: "conn \<Rightarrow> bool" where
  "is_tearing_down c \<longleftrightarrow> connection_closed c \<or> connFatal c \<noteq> None"

text \<open>The peer of a connection that is running or draining.\<close>

definition live_peer :: "conn \<Rightarrow> peer option" where
  "live_peer c = (case phase c of RunningPhase q \<Rightarrow> Some q | DrainingPhase q d \<Rightarrow> Some q | _ \<Rightarrow> None)"

definition new_conn :: "server_options \<Rightarrow> resolved_defaults \<Rightarrow> server_socket \<Rightarrow> conn" where
  "new_conn opts defaults s =
     \<lparr>phase = PendingHello, connBridge = None, connFatal = None, listening = False, forwarding = False,
      rateWindow = [], connBeat = new_heartbeat (defHeartbeatIntervalMs defaults), callPump = new_pump,
      helloDeadline = True, helloTask = None, authorizing = [], dispatching = [], nextTask = 0,
      connSocket = s, connDefaults = defaults, connOptions = opts\<rparr>"

subsection \<open>Sending\<close>

definition just_emit :: "server_effect list \<Rightarrow> conn \<Rightarrow> conn \<times> server_effect list" where
  "just_emit effs c = (c, effs)"

definition on_bridge :: "(bridge \<Rightarrow> bridge \<times> bridge_effect list) \<Rightarrow> conn \<Rightarrow> conn \<times> server_effect list" where
  "on_bridge f c =
     (case connBridge c of
        None \<Rightarrow> (c, [])
      | Some b \<Rightarrow> (let (b', effs) = f b in (c\<lparr>connBridge := Some b'\<rparr>, map FromBridge effs)))"

definition low_watermark :: "conn \<Rightarrow> int" where
  "low_watermark c =
     (case optLowWatermark (connOptions c) of None \<Rightarrow> default_output_low_watermark | Some n \<Rightarrow> n)"

definition maybe_flush_buffered :: "conn \<Rightarrow> conn \<times> server_effect list" where
  "maybe_flush_buffered c =
     (case live_peer c of
        None \<Rightarrow> (c, [])
      | Some q \<Rightarrow>
          (case sockBuffered (connSocket c) of
             None \<Rightarrow> (c, [])
           | Some buffered \<Rightarrow>
               if buffered > low_watermark c then (c, []) else on_bridge (clear_peer_outstanding q) c))"

definition ws_send :: "server_send \<Rightarrow> conn \<Rightarrow> conn \<times> server_effect list" where
  "ws_send payload c =
     (if \<not> sockOpen (connSocket c) then (c, [])
      else if \<not> sockSends (connSocket c) then (c, [])
      else before (just_emit [Send payload]) maybe_flush_buffered c)"

definition reply_error :: "string \<Rightarrow> bridge_error_code \<Rightarrow> conn \<Rightarrow> conn \<times> server_effect list" where
  "reply_error callId code = ws_send (SendReply callId (ReplyError code))"

definition not_open :: "conn \<Rightarrow> conn" where
  "not_open c = c\<lparr>connSocket := (connSocket c)\<lparr>sockOpen := False\<rparr>\<rparr>"

definition send_fatal :: "bridge_error_code \<Rightarrow> server_socket \<Rightarrow> server_effect list" where
  "send_fatal code s = (if sockOpen s \<and> sockSends s then [Send (SendFatal code)] else [])"

definition send_fatal_and_close :: "bridge_error_code \<Rightarrow> int \<Rightarrow> conn \<Rightarrow> conn \<times> server_effect list" where
  "send_fatal_and_close code wsCode c =
     (if connFatal c \<noteq> None then (c, [])
      else
        let c1 = not_open (c\<lparr>connFatal := Some code\<rparr>)
        in (c1\<lparr>connBeat := heartbeat_start (connBeat c1)\<rparr>,
            send_fatal code (connSocket c) @ [CloseWs wsCode]))"

definition close_for_upstream :: "close_reason \<Rightarrow> conn \<Rightarrow> conn \<times> server_effect list" where
  "close_for_upstream reason =
     before (just_emit [Observe (ObsUpstreamClosed reason)]) (send_fatal_and_close BRIDGE_CLOSED 1011)"

subsection \<open>The single cleanup path\<close>

definition stop_listening :: "conn \<Rightarrow> conn \<times> server_effect list" where
  "stop_listening c = (c\<lparr>listening := False\<rparr>, [UnlistenClient])"

definition detach_forwarder :: "conn \<Rightarrow> conn \<times> server_effect list" where
  "detach_forwarder c =
     (if forwarding c then (c\<lparr>forwarding := False\<rparr>, [DetachForwarder]) else (c, []))"

definition reject_tracked :: "conn \<Rightarrow> pump_effect \<Rightarrow> conn \<times> server_effect list" where
  "reject_tracked c e = (case e of PumpRejected callId \<Rightarrow> reply_error callId BRIDGE_CLOSED c | _ \<Rightarrow> (c, []))"

definition drain_pump :: "conn \<Rightarrow> conn \<times> server_effect list" where
  "drain_pump c =
     (let (pump, rejected) = pump_drain (callPump c) in run_steps reject_tracked (c\<lparr>callPump := pump\<rparr>) rejected)"

definition release_parts :: "peer option \<Rightarrow> conn \<Rightarrow> conn \<times> server_effect list" where
  "release_parts final =
     (case final of
        None \<Rightarrow> just_emit []
      | Some q \<Rightarrow>
          before stop_listening (before detach_forwarder (before (on_bridge (bridge_remove_peer q))
            (before (on_bridge bridge_dispose) (just_emit [DisposeClient])))))"

definition finalize :: "bridge_error_code option \<Rightarrow> conn \<Rightarrow> conn \<times> server_effect list" where
  "finalize reasonIfNoFatal c =
     (if connection_closed c then (c, [])
      else
        let fatal = (case connFatal c of Some code \<Rightarrow> Some code | None \<Rightarrow> reasonIfNoFatal);
            final = live_peer c
        in before drain_pump (before (release_parts final) (just_emit [Observe (ObsClosed fatal), ConnectionDone]))
             (c\<lparr>phase := ClosedPhase final, helloDeadline := False, connBeat := heartbeat_stop (connBeat c)\<rparr>))"

definition terminate_with :: "bridge_error_code \<Rightarrow> conn \<Rightarrow> conn \<times> server_effect list" where
  "terminate_with reasonIfNoFatal c =
     (if connection_closed c then (c, [])
      else before (\<lambda>c. (not_open c, [TerminateWs])) (finalize (Some reasonIfNoFatal)) c)"

definition terminate :: "conn \<Rightarrow> conn \<times> server_effect list" where
  "terminate = terminate_with BRIDGE_CLOSED"

definition on_pong_deadline :: "conn \<Rightarrow> conn \<times> server_effect list" where
  "on_pong_deadline c =
     (case connFatal c of
        None \<Rightarrow> send_fatal_and_close BRIDGE_CLOSED 1011 c
      | Some fatal \<Rightarrow> terminate_with fatal c)"

definition begin_drain :: "int \<Rightarrow> conn \<Rightarrow> conn \<times> server_effect list" where
  "begin_drain deadlineMs c =
     (case phase c of
        RunningPhase q \<Rightarrow> ws_send (SendDraining deadlineMs) (c\<lparr>phase := DrainingPhase q deadlineMs\<rparr>)
      | _ \<Rightarrow> (c, []))"

subsection \<open>Hello\<close>

datatype auth_result = AuthOk | AuthDenied "int option"

definition on_hello :: "conn \<Rightarrow> conn \<times> server_effect list" where
  "on_hello c =
     (if phase c \<noteq> PendingHello then send_fatal_and_close BRIDGE_PROTOCOL_ERROR 1011 c
      else (c\<lparr>phase := Handshaking, helloDeadline := False, helloTask := Some AwaitingAuth\<rparr>, [RunAuthenticate]))"

definition on_authenticated :: "auth_result \<Rightarrow> conn \<Rightarrow> conn \<times> server_effect list" where
  "on_authenticated res c0 =
     (if helloTask c0 \<noteq> Some AwaitingAuth then (c0, [])
      else
        let c = c0\<lparr>helloTask := None\<rparr> in
        if connection_closed c then (c, [])
        else case res of
          AuthDenied wsCode \<Rightarrow>
            if is_tearing_down c then (c, [Observe (ObsHandshakeUnreported BRIDGE_AUTH_DENIED)])
            else send_fatal_and_close BRIDGE_AUTH_DENIED (case wsCode of None \<Rightarrow> 4401 | Some n \<Rightarrow> n) c
        | AuthOk \<Rightarrow> (c\<lparr>helloTask := Some AwaitingClient\<rparr>, [RunCreateClient]))"

text \<open>What the handshake acquires, released in reverse when it does not finish.\<close>

datatype acquired = ClientAcquired | BridgeAcquired | ListenerAcquired | ForwarderAcquired

fun release_acquired :: "conn \<Rightarrow> acquired \<Rightarrow> conn \<times> server_effect list" where
  "release_acquired c ClientAcquired = (c, [DisposeClient])"
| "release_acquired c BridgeAcquired = on_bridge bridge_dispose c"
| "release_acquired c ListenerAcquired = stop_listening c"
| "release_acquired c ForwarderAcquired = detach_forwarder c"

definition unwind :: "acquired list \<Rightarrow> conn \<Rightarrow> conn \<times> server_effect list" where
  "unwind releases c = run_steps release_acquired c (rev releases)"

text \<open>
  \<open>createClient\<close> settles: it failed, or gave a client with a connection state, on which
  attaching the byte forwarder succeeds or throws.
\<close>

datatype client_result = CreateFailed | Created connection_state bool

definition welcome_of :: "resolved_defaults \<Rightarrow> welcome_limits" where
  "welcome_of d = \<lparr>limitRequestTimeoutMs = defRequestTimeoutMs d,
     limitHeartbeatIntervalMs = defHeartbeatIntervalMs d, limitMaxInflight = defMaxInflight d\<rparr>"

definition enter_running :: "peer \<Rightarrow> conn \<Rightarrow> conn \<times> server_effect list" where
  "enter_running q =
     before (\<lambda>c. (c\<lparr>phase := RunningPhase q\<rparr>, []))
       (before (\<lambda>c. ws_send (SendWelcome (welcome_of (connDefaults c))) c)
         (\<lambda>c. (c\<lparr>connBeat := heartbeat_start (connBeat c)\<rparr>, [Observe ObsOpened])))"

definition wire_client :: "bridge \<Rightarrow> peer \<Rightarrow> connection_state \<Rightarrow> bool \<Rightarrow> conn \<Rightarrow> conn \<times> server_effect list" where
  "wire_client b q upstream attaches c0 =
     before (\<lambda>c. (c\<lparr>connBridge := Some b, listening := True\<rparr>, [ListenClient]))
       (if \<not> attaches then
          before (unwind [ClientAcquired, BridgeAcquired, ListenerAcquired]) (send_fatal_and_close BRIDGE_INTERNAL 1011)
        else
          before (\<lambda>c. (c\<lparr>forwarding := True\<rparr>, [AttachForwarder]))
            (case upstream of
               Closed reason \<Rightarrow>
                 before (unwind [ClientAcquired, BridgeAcquired, ListenerAcquired, ForwarderAcquired])
                   (close_for_upstream reason)
             | _ \<Rightarrow> enter_running q)) c0"

definition on_client_created :: "client_result \<Rightarrow> conn \<Rightarrow> conn \<times> server_effect list" where
  "on_client_created res c0 =
     (if helloTask c0 \<noteq> Some AwaitingClient then (c0, [])
      else
        let c = c0\<lparr>helloTask := None\<rparr> in
        case res of
          CreateFailed \<Rightarrow>
            if is_tearing_down c then (c, [Observe (ObsHandshakeUnreported BRIDGE_INTERNAL)])
            else send_fatal_and_close BRIDGE_INTERNAL 1011 c
        | Created upstream attaches \<Rightarrow>
            before (just_emit [ObtainClient])
              (if is_tearing_down c then unwind [ClientAcquired]
               else case create_bridge (optHighWatermark (connOptions c)) (optLowWatermark (connOptions c)) False of
                 Inl e \<Rightarrow> before (unwind [ClientAcquired]) (send_fatal_and_close BRIDGE_INTERNAL 1011)
               | Inr b \<Rightarrow>
                   (case bridge_register_peer b of
                      Inl e \<Rightarrow>
                        before (\<lambda>c. (c\<lparr>connBridge := Some b\<rparr>, []))
                          (before (unwind [ClientAcquired, BridgeAcquired]) (send_fatal_and_close BRIDGE_INTERNAL 1011))
                    | Inr (b', q) \<Rightarrow> wire_client b' q upstream attaches)) c)"

subsection \<open>Calls\<close>

definition on_call :: "int \<Rightarrow> peer \<Rightarrow> string \<Rightarrow> string \<Rightarrow> json list \<Rightarrow> conn \<Rightarrow> conn \<times> server_effect list" where
  "on_call now q callId method args c =
     (if pump_full (nat (defMaxInflight (connDefaults c))) (callPump c)
      then reply_error callId BRIDGE_RATE_LIMITED c
      else
        let (window, admitted) = rate_check (optRateLimit (connOptions c)) (rateWindow c) now;
            c1 = c\<lparr>rateWindow := window\<rparr>
        in if admitted \<noteq> [True] then reply_error callId BRIDGE_RATE_LIMITED c1
           else (c1\<lparr>authorizing := authorizing c1 @ [(nextTask c1, q, CallFrame callId method args)],
                    nextTask := Suc (nextTask c1)\<rparr>,
                 [RunAuthorize (nextTask c1) method args]))"

definition route_call :: "int \<Rightarrow> string \<Rightarrow> string \<Rightarrow> json list \<Rightarrow> conn \<Rightarrow> conn \<times> server_effect list" where
  "route_call now callId method args c =
     (case phase c of
        DrainingPhase q d \<Rightarrow> reply_error callId BRIDGE_CLOSED c
      | RunningPhase q \<Rightarrow> on_call now q callId method args c
      | _ \<Rightarrow> (c, []))"

text \<open>The call the bridge or the client gets, and its settling.\<close>

fun dispatch_bridge_call :: "nat \<Rightarrow> peer \<Rightarrow> bridge_call \<Rightarrow> conn \<Rightarrow> conn \<times> server_effect list" where
  "dispatch_bridge_call task q (ToSubscribe name what fmt) = on_bridge (bridge_subscribe q name what fmt)"
| "dispatch_bridge_call task q (ToUnsubscribe name) = on_bridge (bridge_unsubscribe q name)"
| "dispatch_bridge_call task q ToEnableCoverage = on_bridge (bridge_enable_layout q task)"
| "dispatch_bridge_call task q ToDisableCoverage = on_bridge (bridge_disable_layout q task)"
| "dispatch_bridge_call task q (ToClient prog) = just_emit [RunProgram task prog]"

datatype authorize_result = Allow "json list option" | Deny

definition on_authorized :: "int \<Rightarrow> nat \<Rightarrow> authorize_result \<Rightarrow> conn \<Rightarrow> conn \<times> server_effect list" where
  "on_authorized now task res c0 =
     (case map_of (authorizing c0) task of
        Some (q, CallFrame callId method args) \<Rightarrow>
          before (just_emit [Observe (ObsCall callId method (res \<noteq> Deny))])
            (case res of
               Deny \<Rightarrow> reply_error callId BRIDGE_COMMAND_DENIED
             | Allow replaced \<Rightarrow>
                 let args' = (case replaced of None \<Rightarrow> args | Some xs \<Rightarrow> xs) in
                 (case parse_rpc_request (JObj [(''method'', JStr method), (''args'', JArr args')]) of
                    Inl code \<Rightarrow> reply_error callId (map_rpc_code code)
                  | Inr req \<Rightarrow>
                      before (\<lambda>c. (c\<lparr>callPump := pump_track callId now (callPump c),
                                    dispatching := dispatching c @ [(task, callId)]\<rparr>, []))
                        (dispatch_bridge_call task q (run_bridge_dispatch (Num now) req))))
            (c0\<lparr>authorizing := AList.delete task (authorizing c0)\<rparr>)
      | _ \<Rightarrow> (c0, []))"

definition encode_outcome :: "string \<Rightarrow> bridge_outcome \<Rightarrow> int \<Rightarrow> conn \<Rightarrow> conn \<times> server_effect list" where
  "encode_outcome callId outcome duration =
     (case outcome of
        OutcomeBridgeError code \<Rightarrow>
          before (reply_error callId code) (just_emit [Observe (ObsResult callId (Some code) duration)])
      | OutcomeTmuxError resp \<Rightarrow>
          before (ws_send (SendReply callId (ReplyTmuxError resp)))
            (just_emit [Observe (ObsResult callId (Some TMUX_ERROR) duration)])
      | OutcomeOk resp \<Rightarrow>
          before (ws_send (SendReply callId (ReplyOk resp))) (just_emit [Observe (ObsResult callId None duration)]))"

definition on_outcome ::
    "int \<Rightarrow> nat \<Rightarrow> dispatch_error + rpc_response \<Rightarrow> conn \<Rightarrow> conn \<times> server_effect list" where
  "on_outcome now task answer c0 =
     (case map_of (dispatching c0) task of
        None \<Rightarrow> (c0, [])
      | Some callId \<Rightarrow>
          let c = c0\<lparr>dispatching := AList.delete task (dispatching c0)\<rparr>;
              (pump, effs) = pump_complete callId (callPump c);
              c1 = c\<lparr>callPump := pump\<rparr>
          in case effs of
               [PumpCompleted i startedAt] \<Rightarrow>
                 encode_outcome callId (dispatch_bridge_request answer) (now - startedAt) c1
             | _ \<Rightarrow> (c1, []))"

definition on_call_timer :: "int \<Rightarrow> nat \<Rightarrow> conn \<Rightarrow> conn \<times> server_effect list" where
  "on_call_timer now timer c =
     (let (pump, effs) = pump_timer_fires timer (callPump c); c1 = c\<lparr>callPump := pump\<rparr> in
      case effs of
        [PumpTimeout callId startedAt] \<Rightarrow>
          before (reply_error callId BRIDGE_TIMEOUT)
            (just_emit [Observe (ObsResult callId (Some BRIDGE_TIMEOUT) (now - startedAt))]) c1
      | _ \<Rightarrow> (c1, []))"

subsection \<open>Incoming messages\<close>

datatype client_message = BinaryMessage | TextMessage "json option"

fun client_frame_handler :: "int \<Rightarrow> client_frame \<Rightarrow> conn \<Rightarrow> conn \<times> server_effect list" where
  "client_frame_handler now HelloFrame = on_hello"
| "client_frame_handler now (CallFrame callId method args) = route_call now callId method args"
| "client_frame_handler now (PingFrame callId) = ws_send (SendPong callId)"
| "client_frame_handler now ByeFrame = (\<lambda>c. (not_open c, [CloseWs 1000]))"

definition dispatch_frame :: "int \<Rightarrow> client_frame \<Rightarrow> conn \<Rightarrow> conn \<times> server_effect list" where
  "dispatch_frame now frame c =
     (if frame \<noteq> HelloFrame \<and> (phase c = PendingHello \<or> phase c = Handshaking)
      then send_fatal_and_close BRIDGE_PROTOCOL_ERROR 1011 c
      else client_frame_handler now frame c)"

definition on_frame :: "int \<Rightarrow> json option \<Rightarrow> conn \<Rightarrow> conn \<times> server_effect list" where
  "on_frame now raw =
     (case parse_client_frame raw of
        Inl e \<Rightarrow> before (just_emit [Observe ObsProtocolError]) (send_fatal_and_close BRIDGE_PROTOCOL_ERROR 1011)
      | Inr frame \<Rightarrow> dispatch_frame now frame)"

definition on_ws_message :: "int \<Rightarrow> client_message \<Rightarrow> conn \<Rightarrow> conn \<times> server_effect list" where
  "on_ws_message now m c =
     (if connection_closed c then (c, [])
      else case m of
        BinaryMessage \<Rightarrow> send_fatal_and_close BRIDGE_PROTOCOL_ERROR 1011 c
      | TextMessage raw \<Rightarrow> on_frame now raw c)"

subsection \<open>Events and output\<close>

definition on_wire_event :: "emitter_message \<Rightarrow> conn \<Rightarrow> conn \<times> server_effect list" where
  "on_wire_event ev c =
     (if \<not> sockOpen (connSocket c) then (c, [])
      else case (live_peer c, connBridge c) of
        (Some q, Some b) \<Rightarrow>
          if \<not> delivers_to q (route_event ev) b then (c, [])
          else before (ws_send (SendEvent ev)) (just_emit [Observe (ObsEventOut (event_type ev))]) c
      | _ \<Rightarrow> (c, []))"

definition on_upstream_event :: "emitter_message \<Rightarrow> conn \<Rightarrow> conn \<times> server_effect list" where
  "on_upstream_event ev =
     (case ev of
        ConnectionStateMessage (Closed reason) \<Rightarrow> close_for_upstream reason
      | _ \<Rightarrow> on_wire_event ev)"

definition on_byte_output :: "chunk \<Rightarrow> conn \<Rightarrow> conn \<times> server_effect list" where
  "on_byte_output msg c =
     (if \<not> sockOpen (connSocket c) then (c, [])
      else case live_peer c of
        None \<Rightarrow> (c, [])
      | Some q \<Rightarrow>
          let bytes = encode_pane_output msg in
          before (on_bridge (account_output q (chunkPane msg) (int (length bytes))))
            (before (ws_send (SendBytes bytes)) (just_emit [Observe (ObsEventOut ''output'')])) c)"

subsection \<open>Timers and the socket's events\<close>

definition on_heartbeat_tick :: "conn \<Rightarrow> conn \<times> server_effect list" where
  "on_heartbeat_tick c =
     (let (h, effs) = heartbeat_tick (if sockPings (connSocket c) then Some () else None) (connBeat c) in
      before (if TickHook \<in> set effs then maybe_flush_buffered else just_emit [])
        (\<lambda>c. (c\<lparr>connBeat := h\<rparr>, if PingSent \<in> set effs \<and> sockPings (connSocket c) then [PingWs] else [])) c)"

definition on_heartbeat_deadline :: "conn \<Rightarrow> conn \<times> server_effect list" where
  "on_heartbeat_deadline c =
     (let (h, effs) = heartbeat_deadline (connBeat c); c1 = c\<lparr>connBeat := h\<rparr> in
      if effs = [] then (c1, []) else on_pong_deadline c1)"

definition on_hello_timeout :: "conn \<Rightarrow> conn \<times> server_effect list" where
  "on_hello_timeout c =
     (if helloDeadline c then send_fatal_and_close BRIDGE_PROTOCOL_ERROR 1011 (c\<lparr>helloDeadline := False\<rparr>)
      else (c, []))"

datatype conn_op =
    MessageArrives int client_message
  | HelloTimeout
  | Authenticated auth_result
  | ClientCreated client_result
  | Authorized int nat authorize_result
  | Outcome int nat "dispatch_error + rpc_response"
  | CallTimer int nat
  | HeartbeatTick
  | HeartbeatDeadline
  | PongArrives
  | UpstreamEvent emitter_message
  | ByteOutput chunk
  | BridgeAnswer bridge_op
  | SocketIs server_socket
  | SocketClosed
  | SocketError
  | BeginDrain int
  | Terminate
  | DisposeFailed

fun conn_step :: "conn \<Rightarrow> conn_op \<Rightarrow> conn \<times> server_effect list" where
  "conn_step c (MessageArrives now m) = on_ws_message now m c"
| "conn_step c HelloTimeout = on_hello_timeout c"
| "conn_step c (Authenticated res) = on_authenticated res c"
| "conn_step c (ClientCreated res) = on_client_created res c"
| "conn_step c (Authorized now task res) = on_authorized now task res c"
| "conn_step c (Outcome now task answer) = on_outcome now task answer c"
| "conn_step c (CallTimer now timer) = on_call_timer now timer c"
| "conn_step c HeartbeatTick = on_heartbeat_tick c"
| "conn_step c HeartbeatDeadline = on_heartbeat_deadline c"
| "conn_step c PongArrives = (c\<lparr>connBeat := on_pong () (connBeat c)\<rparr>, [])"
| "conn_step c (UpstreamEvent ev) = (if listening c then on_upstream_event ev c else (c, []))"
| "conn_step c (ByteOutput msg) = (if forwarding c then on_byte_output msg c else (c, []))"
| "conn_step c (BridgeAnswer op) =
     (if answers_bridge op then on_bridge (\<lambda>b. bridge_step b op) c else (c, []))"
| "conn_step c (SocketIs s) = (c\<lparr>connSocket := s\<lparr>sockOpen := sockOpen (connSocket c) \<and> sockOpen s\<rparr>\<rparr>, [])"
| "conn_step c SocketClosed = finalize None c"
| "conn_step c SocketError = finalize (Some BRIDGE_INTERNAL) c"
| "conn_step c (BeginDrain deadlineMs) = begin_drain deadlineMs c"
| "conn_step c Terminate = terminate c"
| "conn_step c DisposeFailed = (c, [Observe ObsDisposeFailed])"

subsection \<open>A connection by example\<close>

definition example_defaults :: resolved_defaults where
  "example_defaults = \<lparr>defHeartbeatIntervalMs = 30000, defHeartbeatTimeoutMs = 10000,
     defRequestTimeoutMs = 30000, defHelloTimeoutMs = 5000, defMaxInflight = 1\<rparr>"

definition example_options :: server_options where
  "example_options = \<lparr>optHighWatermark = None, optLowWatermark = None, optRateLimit = None\<rparr>"

definition open_socket_view :: server_socket where
  "open_socket_view = \<lparr>sockOpen = True, sockSends = True, sockPings = True, sockBuffered = Some 0\<rparr>"

definition example_hello :: "conn_op list" where
  "example_hello = [MessageArrives 0 (TextMessage (Some (encode_client_frame HelloFrame))), Authenticated AuthOk,
     ClientCreated (Created Ready True)]"

definition list_panes_call :: "string \<Rightarrow> conn_op" where
  "list_panes_call i = MessageArrives 1 (TextMessage (Some (encode_client_frame (CallFrame i ''listPanes'' []))))"

definition tracked_calls :: "conn \<Rightarrow> string list" where
  "tracked_calls c = map fst (pumpInflight (callPump c))"

text \<open>What was sent, and how often an effect happened.\<close>

fun sent_on :: "server_effect \<Rightarrow> server_send option" where
  "sent_on (Send s) = Some s"
| "sent_on e = None"

definition sends :: "server_effect list \<Rightarrow> server_send list" where
  "sends effs = List.map_filter sent_on effs"

fun runs_program :: "server_effect \<Rightarrow> bool" where
  "runs_program (RunProgram task prog) = True"
| "runs_program e = False"

fun disposes :: "server_effect \<Rightarrow> bool" where
  "disposes DisposeClient = True"
| "disposes e = False"

text \<open>
  Two limits hold only as long as authorization is immediate. With a limit of one call in
  flight, two calls whose authorization is pending at the same time are both admitted, tracked
  and run: the limit is compared before the hook is awaited and the call counted after it. And
  a call whose authorization is pending when the socket closes is still run, on a client the
  connection has already disposed of.
\<close>

theorem pending_authorization_escapes:
  "let c0 = fst (run_steps conn_step (new_conn example_options example_defaults open_socket_view) example_hello);
       (c, effs) = run_steps conn_step c0
         [list_panes_call ''r1'', list_panes_call ''r2'', Authorized 2 0 (Allow None), Authorized 2 1 (Allow None)];
       (c', effs') = run_steps conn_step c0 [list_panes_call ''r1'', SocketClosed, Authorized 2 0 (Allow None)]
   in phase c0 = RunningPhase 1 \<and> defMaxInflight (connDefaults c) = 1
      \<and> tracked_calls c = [''r1'', ''r2''] \<and> length (filter runs_program effs) = 2
      \<and> connection_closed c' \<and> list_ex disposes effs' \<and> \<not> list_ex runs_program (takeWhile (\<lambda>e. \<not> disposes e) effs')
      \<and> list_ex runs_program effs'"
  by code_simp

subsection \<open>The bridge over all connections\<close>

record ws_bridge =
  connections :: "(nat \<times> conn) list"
  bridgeDraining :: bool
  nextConnection :: nat
  bridgeOptions :: server_options
  bridgeDefaults :: resolved_defaults

definition create_ws_bridge :: "server_options \<Rightarrow> resolved_defaults \<Rightarrow> ws_bridge" where
  "create_ws_bridge opts defaults =
     \<lparr>connections = [], bridgeDraining = False, nextConnection = 0, bridgeOptions = opts, bridgeDefaults = defaults\<rparr>"

text \<open>An effect on a connection has its number, one on a refused socket has none.\<close>

definition handle_connection ::
    "server_socket \<Rightarrow> ws_bridge \<Rightarrow> ws_bridge \<times> (nat option \<times> server_effect) list" where
  "handle_connection s b =
     (if bridgeDraining b
      then (b, map (Pair None) (send_fatal BRIDGE_CLOSED s @ [CloseWs 1001]))
      else (b\<lparr>connections := connections b @ [(nextConnection b, new_conn (bridgeOptions b) (bridgeDefaults b) s)],
              nextConnection := Suc (nextConnection b)\<rparr>, []))"

definition on_each ::
    "(conn \<Rightarrow> conn \<times> server_effect list) \<Rightarrow> ws_bridge \<Rightarrow> ws_bridge \<times> (nat option \<times> server_effect) list" where
  "on_each f b =
     (b\<lparr>connections := map (\<lambda>(i, c). (i, fst (f c))) (connections b)\<rparr>,
      concat (map (\<lambda>(i, c). map (Pair (Some i)) (snd (f c))) (connections b)))"

text \<open>\<open>shutdown\<close>, up to its wait, and after it.\<close>

definition begin_shutdown ::
    "option_value \<Rightarrow> int \<Rightarrow> ws_bridge \<Rightarrow> ws_bridge \<times> (nat option \<times> server_effect) list" where
  "begin_shutdown drainMs now b =
     (case parse_duration_ms ''drainMs'' drainMs of
        Inl e \<Rightarrow> (b, [])
      | Inr bound \<Rightarrow> on_each (begin_drain (now + bound)) (b\<lparr>bridgeDraining := True\<rparr>))"

definition end_shutdown :: "ws_bridge \<Rightarrow> ws_bridge \<times> (nat option \<times> server_effect) list" where
  "end_shutdown b = (if bridgeDraining b then on_each terminate b else (b, []))"

datatype ws_bridge_op =
    AcceptSocket server_socket
  | OnConnection nat conn_op
  | BeginShutdown option_value int
  | EndShutdown
  | ForgetClosed nat

fun ws_bridge_step :: "ws_bridge \<Rightarrow> ws_bridge_op \<Rightarrow> ws_bridge \<times> (nat option \<times> server_effect) list" where
  "ws_bridge_step b (AcceptSocket s) = handle_connection s b"
| "ws_bridge_step b (OnConnection i op) =
     (case map_of (connections b) i of
        None \<Rightarrow> (b, [])
      | Some c \<Rightarrow> (let (c', effs) = conn_step c op in
          (b\<lparr>connections := AList.update i c' (connections b)\<rparr>, map (Pair (Some i)) effs)))"
| "ws_bridge_step b (BeginShutdown drainMs now) = begin_shutdown drainMs now b"
| "ws_bridge_step b EndShutdown = end_shutdown b"
| "ws_bridge_step b (ForgetClosed i) =
     (case map_of (connections b) i of
        None \<Rightarrow> (b, [])
      | Some c \<Rightarrow> if connection_closed c then (b\<lparr>connections := AList.delete i (connections b)\<rparr>, []) else (b, []))"

end
