(* ===== verification/ServerSafety.thy ===== *)
theory ServerSafety
  imports WsServer
begin

section \<open>What the WebSocket server guarantees\<close>

text \<open>
  Invariants over the trace of a connection's effects: what it took it gives back, what it sends
  follows the protocol, and a call is answered at most once.
\<close>

subsection \<open>What sending leaves alone\<close>

lemma on_bridge_same [simp]:
  "phase (fst (on_bridge f c)) = phase c"
  "connFatal (fst (on_bridge f c)) = connFatal c"
  "listening (fst (on_bridge f c)) = listening c"
  "forwarding (fst (on_bridge f c)) = forwarding c"
  "rateWindow (fst (on_bridge f c)) = rateWindow c"
  "connBeat (fst (on_bridge f c)) = connBeat c"
  "callPump (fst (on_bridge f c)) = callPump c"
  "helloDeadline (fst (on_bridge f c)) = helloDeadline c"
  "helloTask (fst (on_bridge f c)) = helloTask c"
  "authorizing (fst (on_bridge f c)) = authorizing c"
  "dispatching (fst (on_bridge f c)) = dispatching c"
  "nextTask (fst (on_bridge f c)) = nextTask c"
  "connSocket (fst (on_bridge f c)) = connSocket c"
  "connDefaults (fst (on_bridge f c)) = connDefaults c"
  "connOptions (fst (on_bridge f c)) = connOptions c"
  by (simp_all add: on_bridge_def case_prod_beta split: option.split)

lemma flush_same [simp]:
  "phase (fst (maybe_flush_buffered c)) = phase c"
  "connFatal (fst (maybe_flush_buffered c)) = connFatal c"
  "listening (fst (maybe_flush_buffered c)) = listening c"
  "forwarding (fst (maybe_flush_buffered c)) = forwarding c"
  "rateWindow (fst (maybe_flush_buffered c)) = rateWindow c"
  "connBeat (fst (maybe_flush_buffered c)) = connBeat c"
  "callPump (fst (maybe_flush_buffered c)) = callPump c"
  "helloDeadline (fst (maybe_flush_buffered c)) = helloDeadline c"
  "helloTask (fst (maybe_flush_buffered c)) = helloTask c"
  "authorizing (fst (maybe_flush_buffered c)) = authorizing c"
  "dispatching (fst (maybe_flush_buffered c)) = dispatching c"
  "nextTask (fst (maybe_flush_buffered c)) = nextTask c"
  "connSocket (fst (maybe_flush_buffered c)) = connSocket c"
  "connDefaults (fst (maybe_flush_buffered c)) = connDefaults c"
  "connOptions (fst (maybe_flush_buffered c)) = connOptions c"
  by (simp_all add: maybe_flush_buffered_def split: option.split)

lemma ws_send_same [simp]:
  "phase (fst (ws_send s c)) = phase c"
  "connFatal (fst (ws_send s c)) = connFatal c"
  "listening (fst (ws_send s c)) = listening c"
  "forwarding (fst (ws_send s c)) = forwarding c"
  "rateWindow (fst (ws_send s c)) = rateWindow c"
  "connBeat (fst (ws_send s c)) = connBeat c"
  "callPump (fst (ws_send s c)) = callPump c"
  "helloDeadline (fst (ws_send s c)) = helloDeadline c"
  "helloTask (fst (ws_send s c)) = helloTask c"
  "authorizing (fst (ws_send s c)) = authorizing c"
  "dispatching (fst (ws_send s c)) = dispatching c"
  "nextTask (fst (ws_send s c)) = nextTask c"
  "connSocket (fst (ws_send s c)) = connSocket c"
  "connDefaults (fst (ws_send s c)) = connDefaults c"
  "connOptions (fst (ws_send s c)) = connOptions c"
  by (simp_all add: ws_send_def just_emit_def)

lemma reply_error_same [simp]:
  "phase (fst (reply_error i code c)) = phase c"
  "connFatal (fst (reply_error i code c)) = connFatal c"
  "listening (fst (reply_error i code c)) = listening c"
  "forwarding (fst (reply_error i code c)) = forwarding c"
  "rateWindow (fst (reply_error i code c)) = rateWindow c"
  "connBeat (fst (reply_error i code c)) = connBeat c"
  "callPump (fst (reply_error i code c)) = callPump c"
  "helloDeadline (fst (reply_error i code c)) = helloDeadline c"
  "helloTask (fst (reply_error i code c)) = helloTask c"
  "authorizing (fst (reply_error i code c)) = authorizing c"
  "dispatching (fst (reply_error i code c)) = dispatching c"
  "nextTask (fst (reply_error i code c)) = nextTask c"
  "connSocket (fst (reply_error i code c)) = connSocket c"
  "connDefaults (fst (reply_error i code c)) = connDefaults c"
  "connOptions (fst (reply_error i code c)) = connOptions c"
  by (simp_all add: reply_error_def)

lemma just_emit_simps [simp]: "fst (just_emit effs c) = c" "snd (just_emit effs c) = effs"
  by (simp_all add: just_emit_def)

text \<open>The effects that take or give back something the connection holds.\<close>

fun is_resource :: "server_effect \<Rightarrow> bool" where
  "is_resource ObtainClient = True"
| "is_resource DisposeClient = True"
| "is_resource ListenClient = True"
| "is_resource UnlistenClient = True"
| "is_resource AttachForwarder = True"
| "is_resource DetachForwarder = True"
| "is_resource ConnectionDone = True"
| "is_resource e = False"

abbreviation resources :: "server_effect list \<Rightarrow> server_effect list" where
  "resources effs \<equiv> filter is_resource effs"

lemma no_resources [simp]:
  "resources (snd (on_bridge f c)) = []"
  "resources (snd (maybe_flush_buffered c)) = []"
  "resources (snd (ws_send s c)) = []"
  "resources (snd (reply_error i code c)) = []"
proof -
  show b: "resources (snd (on_bridge f c)) = []" for f c
    by (auto simp: on_bridge_def case_prod_beta filter_empty_conv split: option.split)
  show m: "resources (snd (maybe_flush_buffered c)) = []" for c
    by (simp add: maybe_flush_buffered_def b split: option.split)
  show "resources (snd (ws_send s c)) = []" "resources (snd (reply_error i code c)) = []"
    by (simp_all add: reply_error_def ws_send_def m)
qed

lemma fatal_resources [simp]:
  "resources (snd (send_fatal_and_close code n c)) = []"
  "resources (snd (close_for_upstream reason c)) = []"
  by (auto simp: close_for_upstream_def send_fatal_and_close_def send_fatal_def Let_def)

lemma fatal_same [simp]:
  "phase (fst (send_fatal_and_close code n c)) = phase c"
  "listening (fst (send_fatal_and_close code n c)) = listening c"
  "forwarding (fst (send_fatal_and_close code n c)) = forwarding c"
  "helloTask (fst (send_fatal_and_close code n c)) = helloTask c"
  "helloDeadline (fst (send_fatal_and_close code n c)) = helloDeadline c"
  "phase (fst (close_for_upstream reason c)) = phase c"
  "listening (fst (close_for_upstream reason c)) = listening c"
  "forwarding (fst (close_for_upstream reason c)) = forwarding c"
  "helloTask (fst (close_for_upstream reason c)) = helloTask c"
  "helloDeadline (fst (close_for_upstream reason c)) = helloDeadline c"
  by (simp_all add: close_for_upstream_def send_fatal_and_close_def not_open_def Let_def)

subsection \<open>What a connection takes it gives back\<close>

text \<open>The ways a handshake can have ended without a running connection.\<close>

definition handshake_traces :: "server_effect list list" where
  "handshake_traces =
     [[], [ObtainClient, DisposeClient], [ObtainClient, ListenClient, UnlistenClient, DisposeClient],
      [ObtainClient, ListenClient, AttachForwarder, DetachForwarder, UnlistenClient, DisposeClient]]"

definition resource_trace :: "conn_phase \<Rightarrow> bool \<Rightarrow> server_effect list \<Rightarrow> bool" where
  "resource_trace p waiting rs \<longleftrightarrow>
     (case p of
        PendingHello \<Rightarrow> rs = [] \<and> \<not> waiting
      | Handshaking \<Rightarrow> if waiting then rs = [] else rs \<in> set handshake_traces
      | ClosedPhase None \<Rightarrow>
          if waiting then rs = [ConnectionDone]
          else rs \<in> set (map (\<lambda>h. h @ [ConnectionDone]) handshake_traces)
             \<or> rs = [ConnectionDone, ObtainClient, DisposeClient]
      | ClosedPhase (Some q) \<Rightarrow>
          rs = [ObtainClient, ListenClient, AttachForwarder,
                UnlistenClient, DetachForwarder, DisposeClient, ConnectionDone] \<and> \<not> waiting
      | _ \<Rightarrow> rs = [ObtainClient, ListenClient, AttachForwarder] \<and> \<not> waiting)"

text \<open>The connection's own timers are off; those of its calls are the call pump's.\<close>

definition at_rest :: "conn \<Rightarrow> bool" where
  "at_rest c \<longleftrightarrow> \<not> running (connBeat c) \<and> pingInflight (connBeat c) = None \<and> \<not> helloDeadline c"

definition resource_inv :: "server_effect list \<Rightarrow> conn \<Rightarrow> bool" where
  "resource_inv effs c \<longleftrightarrow>
     resource_trace (phase c) (helloTask c \<noteq> None) (resources effs)
     \<and> listening c = (live_peer c \<noteq> None) \<and> forwarding c = (live_peer c \<noteq> None)
     \<and> (connection_closed c \<longrightarrow> at_rest c) \<and> (helloDeadline c \<longrightarrow> phase c = PendingHello \<or> connection_closed c)"

lemma flags_cong:
  "phase c' = phase c \<Longrightarrow> live_peer c' = live_peer c"
  "phase c' = phase c \<Longrightarrow> connection_closed c' = connection_closed c"
  by (simp_all add: live_peer_def connection_closed_def)

text \<open>Operations that touch neither the phase nor a resource.\<close>

definition calm :: "conn \<Rightarrow> conn \<times> server_effect list \<Rightarrow> bool" where
  "calm c r \<longleftrightarrow> resources (snd r) = [] \<and> phase (fst r) = phase c \<and> listening (fst r) = listening c
     \<and> forwarding (fst r) = forwarding c \<and> helloTask (fst r) = helloTask c
     \<and> (helloDeadline (fst r) \<longrightarrow> helloDeadline c) \<and> (connection_closed c \<and> at_rest c \<longrightarrow> at_rest (fst r))"

lemma calm_inv:
  assumes "resource_inv effs c" and "calm c r"
  shows "resource_inv (effs @ snd r) (fst r)"
  using assms by (auto simp: resource_inv_def calm_def flags_cong [of "fst r" c])

lemma calm_before:
  assumes "calm c (f c)" and "\<And>c'. phase c' = phase c \<Longrightarrow> calm c' (g c')"
  shows "calm c (before f g c)"
  using assms(1) assms(2) [of "fst (f c)"] flags_cong(2) [of "fst (f c)" c] by (auto simp: calm_def)

lemma calm_simps [simp]:
  "calm c (c, [])"
  "calm c (just_emit [Observe ob] c)"
  "calm c (ws_send s c)"
  "calm c (reply_error i code c)"
  "calm c (on_bridge f c)"
  "calm c (maybe_flush_buffered c)"
  "calm c (just_emit [RunProgram task prog] c)"
  by (simp_all add: calm_def at_rest_def)

lemma calm_fatal: "\<not> connection_closed c \<Longrightarrow> calm c (send_fatal_and_close code n c)"
  by (simp add: calm_def)

lemma calm_upstream: "\<not> connection_closed c \<Longrightarrow> calm c (close_for_upstream reason c)"
  by (simp add: calm_def)

lemma same_step_simps [simp]:
  "phase (not_open c) = phase c" "listening (not_open c) = listening c" "forwarding (not_open c) = forwarding c"
  "helloTask (not_open c) = helloTask c" "helloDeadline (not_open c) = helloDeadline c"
  "connBeat (not_open c) = connBeat c" "callPump (not_open c) = callPump c" "connFatal (not_open c) = connFatal c"
  by (simp_all add: not_open_def)

text \<open>Fields that none of this reads.\<close>

lemma calm_fields:
  assumes "calm c' r" and "phase c' = phase c" "listening c' = listening c" "forwarding c' = forwarding c"
    "helloTask c' = helloTask c" "helloDeadline c' = helloDeadline c" "connBeat c' = connBeat c"
  shows "calm c r"
  using assms flags_cong(2) [of c' c] by (simp add: calm_def at_rest_def)

lemma calm_route: "calm c (route_call now i m args c)"
proof -
  have "calm c (reply_error i code (c\<lparr>rateWindow := w\<rparr>))" for code w
    by (rule calm_fields [where c' = "c\<lparr>rateWindow := w\<rparr>"]) simp_all
  then have "calm c (on_call now q i m args c)" for q
    by (simp add: on_call_def Let_def case_prod_beta calm_def at_rest_def)
  then show ?thesis by (simp add: route_call_def split: conn_phase.split)
qed

lemma calm_dispatch: "calm c (dispatch_bridge_call task q call c)"
  by (cases call) simp_all

lemma calm_authorized: "calm c (on_authorized now task res c)"
proof (cases "\<exists>q i m args. map_of (authorizing c) task = Some (q, CallFrame i m args)")
  case True
  then obtain q i m args where t: "map_of (authorizing c) task = Some (q, CallFrame i m args)" by blast
  let ?c = "c\<lparr>authorizing := AList.delete task (authorizing c)\<rparr>"
  have run: "calm c' (before (\<lambda>c. (c\<lparr>callPump := p c, dispatching := d c\<rparr>, [])) (dispatch_bridge_call task q call) c')" for c' p d call
    by (rule calm_before, simp add: calm_def at_rest_def connection_closed_def, rule calm_dispatch)
  have "calm ?c (on_authorized now task res c)"
    unfolding on_authorized_def t option.case prod.case client_frame.case
    by (rule calm_before) (simp_all add: run Let_def split: authorize_result.split sum.split)
  then show ?thesis by (rule calm_fields) simp_all
next
  case False
  then have "on_authorized now task res c = (c, [])"
    unfolding on_authorized_def by (auto simp del: map_of_eq_Some_iff split: option.split client_frame.split)
  then show ?thesis by simp
qed

lemma calm_encode: "calm c (encode_outcome i outcome d c)"
  unfolding encode_outcome_def by (cases outcome) (auto intro!: calm_before)

lemma calm_outcome: "calm c (on_outcome now task answer c)"
proof (cases "map_of (dispatching c) task")
  case (Some i)
  let ?c = "c\<lparr>dispatching := AList.delete task (dispatching c), callPump := fst (pump_complete i (callPump c))\<rparr>"
  have "calm ?c (on_outcome now task answer c)"
    using Some by (auto simp: on_outcome_def Let_def case_prod_beta calm_encode split: list.split pump_effect.split)
  then show ?thesis by (rule calm_fields) simp_all
qed (simp add: on_outcome_def)

lemma calm_call_timer: "calm c (on_call_timer now timer c)"
proof -
  let ?c = "c\<lparr>callPump := fst (pump_timer_fires timer (callPump c))\<rparr>"
  have "calm ?c (on_call_timer now timer c)"
    by (auto simp: on_call_timer_def Let_def case_prod_beta intro: calm_before split: list.split pump_effect.split)
  then show ?thesis by (rule calm_fields) simp_all
qed

lemma calm_events:
  "\<not> connection_closed c \<Longrightarrow> calm c (on_upstream_event ev c)"
  "calm c (on_byte_output msg c)"
  "calm c (on_wire_event ev c)"
proof -
  show w: "calm c (on_wire_event ev c)" for c
    by (auto simp: on_wire_event_def calm_def at_rest_def split: option.split)
  show "\<not> connection_closed c \<Longrightarrow> calm c (on_upstream_event ev c)"
    using w [of c] by (auto simp: on_upstream_event_def calm_upstream split: emitter_message.split connection_state.split)
  show "calm c (on_byte_output msg c)"
    by (auto simp: on_byte_output_def calm_def at_rest_def Let_def split: option.split)
qed

lemma calm_tick: "calm c (on_heartbeat_tick c)"
  by (auto simp: on_heartbeat_tick_def heartbeat_tick_def calm_def at_rest_def connection_closed_def Let_def)

text \<open>Cleaning up.\<close>

lemma drain_pump_simps [simp]:
  "resources (snd (drain_pump c)) = []"
  "phase (fst (drain_pump c)) = phase c" "listening (fst (drain_pump c)) = listening c"
  "forwarding (fst (drain_pump c)) = forwarding c" "helloTask (fst (drain_pump c)) = helloTask c"
  "helloDeadline (fst (drain_pump c)) = helloDeadline c" "connBeat (fst (drain_pump c)) = connBeat c"
proof -
  have one: "resources (snd (reject_tracked c e)) = []" "phase (fst (reject_tracked c e)) = phase c"
    "listening (fst (reject_tracked c e)) = listening c" "forwarding (fst (reject_tracked c e)) = forwarding c"
    "helloTask (fst (reject_tracked c e)) = helloTask c" "helloDeadline (fst (reject_tracked c e)) = helloDeadline c"
    "connBeat (fst (reject_tracked c e)) = connBeat c" for c e
    by (simp_all add: reject_tracked_def split: pump_effect.split)
  have "resources (snd (run_steps reject_tracked c es)) = []" "phase (fst (run_steps reject_tracked c es)) = phase c"
    "listening (fst (run_steps reject_tracked c es)) = listening c" "forwarding (fst (run_steps reject_tracked c es)) = forwarding c"
    "helloTask (fst (run_steps reject_tracked c es)) = helloTask c"
    "helloDeadline (fst (run_steps reject_tracked c es)) = helloDeadline c"
    "connBeat (fst (run_steps reject_tracked c es)) = connBeat c" for c es
    by (induction es arbitrary: c) (simp_all add: one)
  then show "resources (snd (drain_pump c)) = []"
    "phase (fst (drain_pump c)) = phase c" "listening (fst (drain_pump c)) = listening c"
    "forwarding (fst (drain_pump c)) = forwarding c" "helloTask (fst (drain_pump c)) = helloTask c"
    "helloDeadline (fst (drain_pump c)) = helloDeadline c" "connBeat (fst (drain_pump c)) = connBeat c"
    by (simp_all add: drain_pump_def case_prod_beta)
qed

lemma stop_simps [simp]:
  "fst (stop_listening c) = c\<lparr>listening := False\<rparr>" "snd (stop_listening c) = [UnlistenClient]"
  "fst (detach_forwarder c) = c\<lparr>forwarding := False\<rparr>"
  "snd (detach_forwarder c) = (if forwarding c then [DetachForwarder] else [])"
  by (simp_all add: stop_listening_def detach_forwarder_def)

lemma release_parts_simps [simp]:
  "phase (fst (release_parts p c)) = phase c" "helloTask (fst (release_parts p c)) = helloTask c"
  "helloDeadline (fst (release_parts p c)) = helloDeadline c" "connBeat (fst (release_parts p c)) = connBeat c"
  "listening (fst (release_parts p c)) = (p = None \<and> listening c)"
  "forwarding (fst (release_parts p c)) = (p = None \<and> forwarding c)"
  "resources (snd (release_parts p c)) =
     (if p = None then [] else if forwarding c then [UnlistenClient, DetachForwarder, DisposeClient]
      else [UnlistenClient, DisposeClient])"
  by (simp_all add: release_parts_def split: option.split)

lemma finalize_inv:
  assumes "resource_inv effs c"
  shows "resource_inv (effs @ snd (finalize reason c)) (fst (finalize reason c))"
proof (cases "connection_closed c")
  case True
  then show ?thesis using assms by (simp add: finalize_def)
next
  case False
  let ?r = "finalize reason c"
  have r: "phase (fst ?r) = ClosedPhase (live_peer c)" "helloTask (fst ?r) = helloTask c"
    "\<not> helloDeadline (fst ?r)" "connBeat (fst ?r) = heartbeat_stop (connBeat c)"
    "listening (fst ?r) = (live_peer c = None \<and> listening c)"
    "forwarding (fst ?r) = (live_peer c = None \<and> forwarding c)"
    "resources (snd ?r) = (if live_peer c = None then []
      else if forwarding c then [UnlistenClient, DetachForwarder, DisposeClient] else [UnlistenClient, DisposeClient])
      @ [ConnectionDone]"
    using False by (simp_all add: finalize_def Let_def)
  have "live_peer (fst ?r) = None" "connection_closed (fst ?r)" "at_rest (fst ?r)"
    by (simp_all add: live_peer_def connection_closed_def at_rest_def r heartbeat_stop_def)
  then show ?thesis
    using assms False
    by (cases "phase c") (auto simp: resource_inv_def r resource_trace_def live_peer_def connection_closed_def handshake_traces_def)
qed

lemma terminate_inv:
  assumes "resource_inv effs c"
  shows "resource_inv (effs @ snd (terminate_with reason c)) (fst (terminate_with reason c))"
proof (cases "connection_closed c")
  case False
  have "resource_inv (effs @ [TerminateWs]) (not_open c)"
    using calm_inv [OF assms, of "(not_open c, [TerminateWs])"] by (simp add: calm_def at_rest_def)
  from finalize_inv [OF this] show ?thesis using False by (simp add: terminate_with_def)
qed (simp add: terminate_with_def assms)

text \<open>The handshake.\<close>

lemma hello_inv:
  assumes "resource_inv effs c" and "\<not> connection_closed c"
  shows "resource_inv (effs @ snd (on_hello c)) (fst (on_hello c))"
proof (cases "phase c = PendingHello")
  case True
  then show ?thesis
    using assms by (auto simp: on_hello_def resource_inv_def resource_trace_def live_peer_def connection_closed_def handshake_traces_def)
next
  case False
  then show ?thesis using calm_inv [OF assms(1) calm_fatal [OF assms(2)]] by (simp add: on_hello_def)
qed

lemma authenticated_inv:
  assumes "resource_inv effs c"
  shows "resource_inv (effs @ snd (on_authenticated res c)) (fst (on_authenticated res c))"
proof (cases "helloTask c = Some AwaitingAuth")
  case True
  then have wait: "resource_inv effs (c\<lparr>helloTask := None\<rparr>)" "resource_inv effs (c\<lparr>helloTask := Some AwaitingClient\<rparr>)"
    using assms
    by (auto simp: resource_inv_def resource_trace_def live_peer_def connection_closed_def at_rest_def handshake_traces_def
        split: conn_phase.splits option.splits)
  have run: "resource_inv (effs @ [RunCreateClient]) (c\<lparr>helloTask := Some AwaitingClient\<rparr>)"
    using wait(2) by (simp add: resource_inv_def)
  show ?thesis
    using True wait(1) run calm_inv [OF wait(1) calm_fatal]
      calm_inv [OF wait(1), of "(c\<lparr>helloTask := None\<rparr>, [Observe (ObsHandshakeUnreported BRIDGE_AUTH_DENIED)])"]
    by (auto simp: on_authenticated_def Let_def calm_def split: auth_result.split)
qed (simp add: on_authenticated_def assms)

lemma unwind_simps [simp]:
  "unwind [] c = (c, [])"
  "fst (unwind (rs @ [r]) c) = fst (unwind rs (fst (release_acquired c r)))"
  "snd (unwind (rs @ [r]) c) = snd (release_acquired c r) @ snd (unwind rs (fst (release_acquired c r)))"
  by (simp_all add: unwind_def)

lemmas unwind_lists = unwind_def rev.simps append.simps

lemma on_bridge_dispose_same [simp]:
  "live_peer (fst (on_bridge f c)) = live_peer c" "connection_closed (fst (on_bridge f c)) = connection_closed c"
  by (rule flags_cong; simp)+

text \<open>What settling \<open>createClient\<close> does to phase and resources.\<close>

definition settled_hello :: "conn \<Rightarrow> conn \<times> server_effect list \<Rightarrow> bool" where
  "settled_hello c r \<longleftrightarrow> helloTask (fst r) = None \<and> (helloDeadline (fst r) \<longrightarrow> helloDeadline c) \<and>
     (if connection_closed c then phase (fst r) = phase c \<and> listening (fst r) = listening c \<and> forwarding (fst r) = forwarding c
        \<and> connBeat (fst r) = connBeat c \<and> resources (snd r) \<in> {[], [ObtainClient, DisposeClient]}
      else (phase (fst r) = phase c \<and> \<not> listening (fst r) \<and> \<not> forwarding (fst r) \<and> resources (snd r) \<in> set handshake_traces)
        \<or> ((\<exists>q. phase (fst r) = RunningPhase q) \<and> listening (fst r) \<and> forwarding (fst r)
           \<and> resources (snd r) = [ObtainClient, ListenClient, AttachForwarder]))"

lemma wire_client_settled:
  assumes "helloTask c = None" "\<not> connection_closed c" "\<not> forwarding c"
  shows "settled_hello c (before (just_emit [ObtainClient]) (wire_client b q upstream attaches) c)"
  using assms
  by (auto simp: settled_hello_def wire_client_def enter_running_def unwind_def handshake_traces_def
      split: connection_state.split)

lemma client_created_settled:
  assumes "helloTask c = Some AwaitingClient" "live_peer c = None" "\<not> listening c" "\<not> forwarding c"
  shows "settled_hello c (on_client_created res c)"
proof -
  let ?c = "c\<lparr>helloTask := None\<rparr>"
  have same: "connection_closed ?c = connection_closed c" "is_tearing_down ?c = is_tearing_down c"
    by (simp_all add: connection_closed_def is_tearing_down_def)
  have w: "settled_hello c (before (just_emit [ObtainClient]) (wire_client b q upstream attaches) ?c)"
    if "\<not> connection_closed c" for b q upstream attaches
    using wire_client_settled [of ?c b q upstream attaches] that assms by (simp add: settled_hello_def same)
  show ?thesis
  proof (cases res)
    case CreateFailed
    then show ?thesis
      using assms by (auto simp: on_client_created_def Let_def settled_hello_def handshake_traces_def same is_tearing_down_def)
  next
    case (Created upstream attaches)
    show ?thesis
    proof (cases "is_tearing_down c")
      case True
      then show ?thesis
        using Created assms by (auto simp: on_client_created_def Let_def settled_hello_def same unwind_def handshake_traces_def)
    next
      case False
      then have open': "\<not> connection_closed c" by (simp add: is_tearing_down_def)
      show ?thesis
      proof (cases "create_bridge (optHighWatermark (connOptions c)) (optLowWatermark (connOptions c)) False")
        case (Inl e)
        then show ?thesis
          using Created assms False open'
          by (auto simp: on_client_created_def Let_def settled_hello_def same unwind_def handshake_traces_def)
      next
        case bridge: (Inr b)
        show ?thesis
        proof (cases "bridge_register_peer b")
          case (Inl e)
          then show ?thesis
            using Created assms False open' bridge
            by (auto simp: on_client_created_def Let_def settled_hello_def same unwind_def handshake_traces_def)
        next
          case (Inr x)
          then show ?thesis
            using Created assms False bridge w [OF open', of "fst x" "snd x" upstream attaches]
            by (simp add: on_client_created_def Let_def same case_prod_beta)
        qed
      qed
    qed
  qed
qed

lemma client_created_inv:
  assumes "resource_inv effs c"
  shows "resource_inv (effs @ snd (on_client_created res c)) (fst (on_client_created res c))"
proof (cases "helloTask c = Some AwaitingClient")
  case True
  have dead: "live_peer c = None" using assms True
    by (auto simp: resource_inv_def resource_trace_def live_peer_def split: conn_phase.splits)
  have s: "settled_hello c (on_client_created res c)"
    by (rule client_created_settled) (use assms True dead in \<open>simp_all add: resource_inv_def\<close>)
  let ?c = "fst (on_client_created res c)" and ?e = "snd (on_client_created res c)"
  show ?thesis
  proof (cases "phase c")
    case Handshaking
    then show ?thesis
      using assms True s
      by (auto simp: resource_inv_def resource_trace_def settled_hello_def live_peer_def connection_closed_def)
  next
    case (ClosedPhase final)
    then show ?thesis
      using assms True s
      by (cases final) (auto simp: resource_inv_def resource_trace_def settled_hello_def live_peer_def connection_closed_def
          at_rest_def handshake_traces_def)
  qed (use assms True in \<open>auto simp: resource_inv_def resource_trace_def\<close>)
qed (simp add: on_client_created_def assms)

lemma drain_inv:
  assumes "resource_inv effs c"
  shows "resource_inv (effs @ snd (begin_drain d c)) (fst (begin_drain d c))"
proof (cases "phase c")
  case (RunningPhase q)
  then have "resource_inv effs (c\<lparr>phase := DrainingPhase q d\<rparr>)"
    using assms by (auto simp: resource_inv_def resource_trace_def live_peer_def connection_closed_def)
  then show ?thesis
    using calm_inv [OF _ calm_simps(3)] RunningPhase by (simp add: begin_drain_def)
qed (simp_all add: begin_drain_def assms)

lemma message_inv:
  assumes "resource_inv effs c"
  shows "resource_inv (effs @ snd (on_ws_message now m c)) (fst (on_ws_message now m c))"
proof (cases "connection_closed c")
  case False
  have hello: "resource_inv (effs @ snd (on_hello c)) (fst (on_hello c))" by (rule hello_inv [OF assms False])
  have fatal: "calm c (send_fatal_and_close code n c)" for code n by (rule calm_fatal [OF False])
  have bad: "calm c (before (just_emit [Observe ObsProtocolError]) (send_fatal_and_close BRIDGE_PROTOCOL_ERROR 1011) c)"
  proof (rule calm_before)
    fix c' :: conn assume "phase c' = phase c"
    then show "calm c' (send_fatal_and_close BRIDGE_PROTOCOL_ERROR 1011 c')"
      using calm_fatal flags_cong(2) False by metis
  qed simp
  have bye: "calm c (not_open c, [CloseWs 1000])" by (simp add: calm_def at_rest_def)
  have frame: "resource_inv (effs @ snd (dispatch_frame now f c)) (fst (dispatch_frame now f c))" for f
    using hello calm_inv [OF assms] fatal calm_route bye
    by (cases f) (simp_all add: dispatch_frame_def)
  show ?thesis
    using False calm_inv [OF assms fatal] calm_inv [OF assms bad] frame
    by (simp add: on_ws_message_def on_frame_def split: client_message.split sum.split)
qed (simp add: on_ws_message_def assms)

lemma deadline_inv:
  assumes "resource_inv effs c"
  shows "resource_inv (effs @ snd (on_heartbeat_deadline c)) (fst (on_heartbeat_deadline c))"
proof (cases "pingInflight (connBeat c) = None")
  case True
  have "calm c (c\<lparr>connBeat := connBeat c\<rparr>, [])" by (simp add: calm_def)
  then show ?thesis using True calm_inv [OF assms, of "(c, [])"] by (simp add: on_heartbeat_deadline_def heartbeat_deadline_def)
next
  case False
  let ?c = "c\<lparr>connBeat := (connBeat c)\<lparr>pingInflight := None\<rparr>\<rparr>"
  have "\<not> connection_closed c" using assms False by (auto simp: resource_inv_def at_rest_def)
  then have o: "\<not> connection_closed ?c" by (simp add: connection_closed_def)
  have inv: "resource_inv effs ?c"
    using calm_inv [OF assms, of "(?c, [])"] by (simp add: calm_def at_rest_def)
  show ?thesis
    using False calm_inv [OF inv calm_fatal [OF o]] terminate_inv [OF inv]
    by (auto simp: on_heartbeat_deadline_def heartbeat_deadline_def on_pong_deadline_def Let_def split: option.split)
qed

lemma resource_step:
  assumes "resource_inv effs c"
  shows "resource_inv (effs @ snd (conn_step c op)) (fst (conn_step c op))"
proof (cases op)
  case HelloTimeout
  show ?thesis
  proof (cases "helloDeadline c")
    case True
    then have "\<not> connection_closed c" using assms by (auto simp: resource_inv_def at_rest_def)
    then have "calm c (send_fatal_and_close BRIDGE_PROTOCOL_ERROR 1011 (c\<lparr>helloDeadline := False\<rparr>))"
      by (simp add: calm_def)
    then show ?thesis using calm_inv [OF assms] HelloTimeout True by (simp add: on_hello_timeout_def)
  qed (simp add: HelloTimeout on_hello_timeout_def assms)
next
  case (UpstreamEvent ev)
  have "listening c \<Longrightarrow> \<not> connection_closed c"
    using assms by (auto simp: resource_inv_def live_peer_def connection_closed_def split: conn_phase.splits)
  then show ?thesis using calm_inv [OF assms] calm_events(1) UpstreamEvent assms by simp
next
  case PongArrives
  have "calm c (c\<lparr>connBeat := on_pong () (connBeat c)\<rparr>, [])" by (simp add: calm_def at_rest_def on_pong_def)
  then show ?thesis using calm_inv [OF assms] PongArrives by fastforce
next
  case (SocketIs s)
  have "calm c (c\<lparr>connSocket := s\<lparr>sockOpen := sockOpen (connSocket c) \<and> sockOpen s\<rparr>\<rparr>, [])" by (simp add: calm_def at_rest_def)
  then show ?thesis using calm_inv [OF assms] SocketIs by fastforce
next
  case DisposeFailed
  have "calm c (c, [Observe ObsDisposeFailed])" by (simp add: calm_def)
  then show ?thesis using calm_inv [OF assms] DisposeFailed by fastforce
qed (use assms message_inv authenticated_inv client_created_inv drain_inv deadline_inv finalize_inv terminate_inv
      calm_inv [OF assms calm_authorized] calm_inv [OF assms calm_outcome] calm_inv [OF assms calm_call_timer]
      calm_inv [OF assms calm_tick] calm_inv [OF assms calm_events(2)] calm_inv [OF assms calm_simps(5)]
    in \<open>simp_all add: terminate_def\<close>)

lemma resource_run:
  "resource_inv effs c \<Longrightarrow> resource_inv (effs @ snd (run_steps conn_step c ops)) (fst (run_steps conn_step c ops))"
  by (induction ops arbitrary: effs c) (simp_all add: resource_step flip: append_assoc)

lemma new_conn_resources: "resource_inv [] (new_conn opts defaults s)"
  by (simp add: resource_inv_def resource_trace_def new_conn_def live_peer_def connection_closed_def)

lemma trace_marks:
  assumes "resource_trace (phase c) w rs"
  shows "length (filter disposes rs) \<le> 1 \<and> (connection_closed c \<longleftrightarrow> ConnectionDone \<in> set rs)"
  using assms
  by (auto simp: resource_trace_def handshake_traces_def connection_closed_def
      split: conn_phase.splits option.splits if_splits)

lemma closed_done: "resource_inv effs c \<Longrightarrow> connection_closed c \<longleftrightarrow> ConnectionDone \<in> set effs"
  using trace_marks [of c "helloTask c \<noteq> None" "resources effs"] by (simp add: resource_inv_def)

subsection \<open>The timers of the calls\<close>

text \<open>
  The authorizations that arm a timer which can outlive the connection: of a call that is allowed
  once the connection is closed, or whose id is in flight already, so that the older call's timer
  loses its entry.
\<close>

fun outlives :: "conn \<Rightarrow> conn_op \<Rightarrow> bool" where
  "outlives c (Authorized now task res) =
     (res \<noteq> Deny
      \<and> (case map_of (authorizing c) task of
           Some (q, CallFrame i m args) \<Rightarrow> connection_closed c \<or> i \<in> set (tracked_calls c)
         | _ \<Rightarrow> False))"
| "outlives c e = False"

fun outliving_calls :: "conn \<Rightarrow> conn_op list \<Rightarrow> nat" where
  "outliving_calls c [] = 0"
| "outliving_calls c (e # es) = (if outlives c e then 1 else 0) + outliving_calls (fst (conn_step c e)) es"

definition lingering :: "conn \<Rightarrow> nat" where
  "lingering c = card (stray_timers (callPump c))
     + (if connection_closed c then length (pumpInflight (callPump c)) else 0)"

definition pump_still :: "conn \<Rightarrow> conn \<times> server_effect list \<Rightarrow> bool" where
  "pump_still c r \<longleftrightarrow> callPump (fst r) = callPump c \<and> connection_closed (fst r) = connection_closed c"

lemma still_before:
  "pump_still c (f c) \<Longrightarrow> (\<And>c'. pump_still c' (g c')) \<Longrightarrow> pump_still c (before f g c)"
  by (simp add: pump_still_def)

lemma still_fields:
  "callPump (fst r) = callPump c \<Longrightarrow> phase (fst r) = phase c \<Longrightarrow> pump_still c r"
  using flags_cong(2) [of "fst r" c] by (simp add: pump_still_def)

lemma fatal_pump [simp]:
  "callPump (fst (send_fatal_and_close code n c)) = callPump c"
  "callPump (fst (close_for_upstream reason c)) = callPump c"
  by (simp_all add: close_for_upstream_def send_fatal_and_close_def not_open_def Let_def)

lemma still_simps [simp]:
  "pump_still c (c, [])" "pump_still c (just_emit es c)" "pump_still c (ws_send s c)"
  "pump_still c (reply_error i code c)" "pump_still c (on_bridge f c)" "pump_still c (maybe_flush_buffered c)"
  "pump_still c (send_fatal_and_close code n c)" "pump_still c (close_for_upstream reason c)"
  "pump_still c (stop_listening c)" "pump_still c (detach_forwarder c)"
  by (rule still_fields; simp)+

lemma still_unwind: "pump_still c (unwind rs c)"
proof -
  have one: "pump_still c (release_acquired c r)" for c r by (cases r) (simp_all add: still_fields)
  have "pump_still c (run_steps release_acquired c rs)" for rs c
    by (induction rs arbitrary: c) (use one in \<open>simp_all add: pump_still_def\<close>)
  then show ?thesis by (simp add: unwind_def)
qed

lemma still_hello: "\<not> connection_closed c \<Longrightarrow> pump_still c (on_hello c)"
  by (auto simp: on_hello_def pump_still_def connection_closed_def)

lemma still_authenticated: "pump_still c (on_authenticated res c)"
  by (rule still_fields) (auto simp: on_authenticated_def Let_def split: auth_result.split)

lemma still_created:
  assumes "helloTask c = Some AwaitingClient \<longrightarrow> live_peer c = None \<and> \<not> listening c \<and> \<not> forwarding c"
  shows "pump_still c (on_client_created res c)"
proof (cases "helloTask c = Some AwaitingClient")
  case True
  have "settled_hello c (on_client_created res c)"
    by (rule client_created_settled) (use assms True in simp_all)
  then have closed: "connection_closed (fst (on_client_created res c)) = connection_closed c"
    by (auto simp: settled_hello_def connection_closed_def split: if_splits)
  have enter: "callPump (fst (enter_running q c)) = callPump c" for q c
    by (simp add: enter_running_def)
  have un: "callPump (fst (unwind rs c)) = callPump c" for rs c
    using still_unwind [of c rs] by (simp add: pump_still_def)
  have wire: "callPump (fst (wire_client b q upstream attaches c)) = callPump c" for b q upstream attaches c
    by (simp add: wire_client_def enter un split: connection_state.split)
  have "callPump (fst (on_client_created res c)) = callPump c"
    using True by (auto simp: on_client_created_def Let_def un wire split: client_result.split sum.split)
  with closed show ?thesis by (simp add: pump_still_def)
qed (simp add: on_client_created_def)

lemma still_drain: "pump_still c (begin_drain d c)"
  by (cases "phase c") (simp_all add: begin_drain_def pump_still_def connection_closed_def)

lemma still_route: "pump_still c (route_call now i m args c)"
  by (rule still_fields) (auto simp: route_call_def on_call_def Let_def case_prod_beta split: conn_phase.split)

lemma still_dispatch: "pump_still c (dispatch_bridge_call task q call c)"
  by (cases call) simp_all

lemma still_message: "pump_still c (on_ws_message now m c)"
proof (cases "connection_closed c")
  case False
  have bye: "pump_still c (not_open c, es)" for es by (rule still_fields) simp_all
  have frame: "pump_still c (dispatch_frame now f c)" for f
    by (cases f) (simp_all add: dispatch_frame_def still_hello [OF False] still_route bye)
  show ?thesis
    using False frame by (auto simp: on_ws_message_def on_frame_def intro!: still_before
        split: client_message.split sum.split)
qed (simp add: on_ws_message_def)

lemma still_events:
  "pump_still c (on_upstream_event ev c)" "pump_still c (on_byte_output msg c)" "pump_still c (on_heartbeat_tick c)"
proof -
  have w: "pump_still c (on_wire_event ev c)"
    by (auto simp: on_wire_event_def intro!: still_before split: option.split)
  then show "pump_still c (on_upstream_event ev c)"
    by (auto simp: on_upstream_event_def split: emitter_message.split connection_state.split)
  show "pump_still c (on_byte_output msg c)"
    by (auto simp: on_byte_output_def Let_def intro!: still_before split: option.split)
  show "pump_still c (on_heartbeat_tick c)"
    by (rule still_fields) (simp_all add: on_heartbeat_tick_def Let_def case_prod_beta)
qed

text \<open>The cleanup drains the pump.\<close>

definition pump_emptied :: "conn \<Rightarrow> conn \<times> server_effect list \<Rightarrow> bool" where
  "pump_emptied c r \<longleftrightarrow> callPump (fst r) = fst (pump_drain (callPump c))"

lemma drained_pump: "callPump (fst (drain_pump c)) = fst (pump_drain (callPump c))"
proof -
  have "callPump (fst (reject_tracked c e)) = callPump c" for c e
    by (simp add: reject_tracked_def split: pump_effect.split)
  then have "callPump (fst (run_steps reject_tracked c es)) = callPump c" for c es
    by (induction es arbitrary: c) simp_all
  then show ?thesis by (simp add: drain_pump_def case_prod_beta)
qed

lemma finalize_pump: "pump_still c (finalize reason c) \<or> pump_emptied c (finalize reason c)"
proof (cases "connection_closed c")
  case False
  have "callPump (fst (release_parts p c)) = callPump c" for p c
    by (simp add: release_parts_def split: option.split)
  then show ?thesis using False by (simp add: finalize_def pump_emptied_def Let_def drained_pump)
qed (simp add: finalize_def)

lemma terminate_pump: "pump_still c (terminate_with reason c) \<or> pump_emptied c (terminate_with reason c)"
  using finalize_pump [of "not_open c" "Some reason"]
  by (auto simp: terminate_with_def pump_still_def pump_emptied_def connection_closed_def)

lemma deadline_pump: "pump_still c (on_heartbeat_deadline c) \<or> pump_emptied c (on_heartbeat_deadline c)"
proof -
  let ?c = "c\<lparr>connBeat := fst (heartbeat_deadline (connBeat c))\<rparr>"
  have same: "pump_still c r = pump_still ?c r" "pump_emptied c r = pump_emptied ?c r" for r
    by (simp_all add: pump_still_def pump_emptied_def connection_closed_def)
  show ?thesis unfolding same
    using terminate_pump [of ?c]
    by (auto simp: on_heartbeat_deadline_def on_pong_deadline_def Let_def case_prod_beta split: option.split)
qed

text \<open>One step.\<close>

lemma still_lingering: "pump_still c r \<Longrightarrow> lingering (fst r) = lingering c"
  by (simp add: pump_still_def lingering_def)

lemma emptied_lingering: "pump_emptied c r \<Longrightarrow> lingering (fst r) \<le> lingering c"
  by (simp add: pump_emptied_def lingering_def)

definition lingers :: "nat \<Rightarrow> conn \<Rightarrow> conn \<Rightarrow> bool" where
  "lingers k c c' \<longleftrightarrow> pump_keyed (callPump c') \<and> lingering c' \<le> lingering c + k"

lemma still_lingers: "pump_keyed (callPump c) \<Longrightarrow> pump_still c r \<Longrightarrow> lingers k c (fst r)"
  using still_lingering [of c r] by (simp add: lingers_def pump_still_def)

lemma emptied_lingers: "pump_keyed (callPump c) \<Longrightarrow> pump_emptied c r \<Longrightarrow> lingers k c (fst r)"
  using emptied_lingering [of c r] keyed_ops(4) [of "callPump c"] by (simp add: lingers_def pump_emptied_def)

lemma authorized_lingers:
  assumes "pump_keyed (callPump c)"
  shows "lingers (if outlives c (Authorized now task res) then 1 else 0) c (fst (on_authorized now task res c))"
proof -
  let ?r = "on_authorized now task res c"
  have p: "phase (fst ?r) = phase c" using calm_authorized [of c now task res] by (simp add: calm_def)
  have d: "callPump (fst (dispatch_bridge_call t q call c)) = callPump c" for t q call c
    using still_dispatch [of c t q call] by (simp add: pump_still_def)
  show ?thesis
  proof (cases "callPump (fst ?r) = callPump c")
    case True
    show ?thesis by (rule still_lingers [OF assms still_fields [OF True p]])
  next
    case False
    then obtain q i m args where t: "map_of (authorizing c) task = Some (q, CallFrame i m args)"
      unfolding on_authorized_def by (auto simp del: map_of_eq_Some_iff split: option.splits client_frame.splits)
    have "callPump (fst ?r) = callPump c \<or> callPump (fst ?r) = pump_track i now (callPump c)"
      unfolding on_authorized_def t option.case prod.case client_frame.case
      by (simp add: d Let_def split: authorize_result.split sum.split)
    with False have track: "callPump (fst ?r) = pump_track i now (callPump c)" by blast
    have allowed: "res \<noteq> Deny" using False by (auto simp: on_authorized_def t)
    have seen: "i \<in> set (tracked_calls c) \<longleftrightarrow> map_of (pumpInflight (callPump c)) i \<noteq> None"
      by (simp add: tracked_calls_def map_of_eq_None_iff)
    show ?thesis
      using track_timers [OF assms, of i now] keyed_ops(1) [OF assms, of i now] seen
      by (auto simp: lingers_def lingering_def track flags_cong(2) [OF p] t allowed split: if_splits)
  qed
qed

lemma outcome_lingers:
  assumes "pump_keyed (callPump c)"
  shows "lingers k c (fst (on_outcome now task answer c))" "lingers k c (fst (on_call_timer now timer c))"
proof -
  have enc: "callPump (fst (encode_outcome i out d c)) = callPump c" for i out d c
    by (cases out) (simp_all add: encode_outcome_def)
  have o: "callPump (fst (on_outcome now task answer c)) =
      (case map_of (dispatching c) task of None \<Rightarrow> callPump c | Some i \<Rightarrow> fst (pump_complete i (callPump c)))"
    by (auto simp: on_outcome_def Let_def case_prod_beta enc simp del: map_of_eq_Some_iff
        split: option.split list.split pump_effect.split)
  have t: "callPump (fst (on_call_timer now timer c)) = fst (pump_timer_fires timer (callPump c))"
    by (auto simp: on_call_timer_def Let_def case_prod_beta split: list.split pump_effect.split)
  have p: "connection_closed (fst (on_outcome now task answer c)) = connection_closed c"
    "connection_closed (fst (on_call_timer now timer c)) = connection_closed c"
    using calm_outcome [of c now task answer] calm_call_timer [of c now timer]
      flags_cong(2) [of "fst (on_outcome now task answer c)" c] flags_cong(2) [of "fst (on_call_timer now timer c)" c]
    by (simp_all add: calm_def)
  show "lingers k c (fst (on_outcome now task answer c))"
    using complete_timers [OF assms] keyed_ops(3) [OF assms] assms
    by (auto simp: lingers_def lingering_def o p add_mono trans_le_add1 split: option.split)
  show "lingers k c (fst (on_call_timer now timer c))"
    using fires_timers [OF assms] keyed_ops(2) [OF assms]
    by (auto simp: lingers_def lingering_def t p add_mono trans_le_add1)
qed

lemma step_lingers:
  assumes "resource_inv effs c" and "pump_keyed (callPump c)"
  shows "lingers (if outlives c e then 1 else 0) c (fst (conn_step c e))"
proof -
  note still = still_lingers [OF assms(2)] and emptied = emptied_lingers [OF assms(2)]
  have either: "lingers k c (fst r)" if "pump_still c r \<or> pump_emptied c r" for k r
    using that still emptied by blast
  show ?thesis
  proof (cases e)
    case (ClientCreated res)
    have "helloTask c = Some AwaitingClient \<longrightarrow> live_peer c = None \<and> \<not> listening c \<and> \<not> forwarding c"
      using assms(1) by (auto simp: resource_inv_def resource_trace_def live_peer_def split: conn_phase.splits)
    then show ?thesis using ClientCreated still [OF still_created] by simp
  next
    case HelloTimeout
    have "pump_still c (on_hello_timeout c)" by (rule still_fields) (simp_all add: on_hello_timeout_def)
    then show ?thesis using HelloTimeout still by simp
  next
    case PongArrives
    have "pump_still c (c\<lparr>connBeat := h\<rparr>, [])" for h by (rule still_fields) simp_all
    then show ?thesis using PongArrives still by fastforce
  next
    case (SocketIs s)
    have "pump_still c (c\<lparr>connSocket := x\<rparr>, [])" for x by (rule still_fields) simp_all
    then show ?thesis using SocketIs still by fastforce
  next
    case DisposeFailed
    then show ?thesis using still [OF still_simps(2)] by (simp add: just_emit_def)
  next
    case (Authorized now task res)
    then show ?thesis using authorized_lingers [OF assms(2), of now task res] by simp
  next
    case HeartbeatDeadline
    then show ?thesis using either [OF deadline_pump] by simp
  next
    case SocketClosed
    then show ?thesis using either [OF finalize_pump] by simp
  next
    case SocketError
    then show ?thesis using either [OF finalize_pump] by simp
  next
    case Terminate
    then show ?thesis using either [OF terminate_pump] by (simp add: terminate_def)
  qed (simp_all add: still still_message still_authenticated still_events still_drain outcome_lingers [OF assms(2)])
qed

lemma run_lingers:
  assumes "resource_inv effs c" and "pump_keyed (callPump c)"
  shows "lingers (outliving_calls c es) c (fst (run_steps conn_step c es))"
  using assms
proof (induction es arbitrary: effs c)
  case (Cons e es)
  have s: "lingers (if outlives c e then 1 else 0) c (fst (conn_step c e))" by (rule step_lingers [OF Cons.prems])
  then have "lingers (outliving_calls (fst (conn_step c e)) es) (fst (conn_step c e))
      (fst (run_steps conn_step (fst (conn_step c e)) es))"
    by (intro Cons.IH [OF resource_step [OF Cons.prems(1)]]) (simp add: lingers_def)
  with s show ?case by (simp add: lingers_def)
qed (simp add: lingers_def)

lemma closed_timers:
  assumes "connection_closed (fst (run_steps conn_step (new_conn opts defaults s) ops))"
  shows "card (live_timers (callPump (fst (run_steps conn_step (new_conn opts defaults s) ops))))
    \<le> outliving_calls (new_conn opts defaults s) ops"
proof -
  let ?c = "new_conn opts defaults s"
  have p: "pump_keyed (callPump ?c)" "lingering ?c = 0"
    by (simp_all add: new_conn_def lingering_def connection_closed_def)
  show ?thesis
    using run_lingers [OF new_conn_resources p(1), of ops] p(2) assms
      card_live [of "callPump (fst (run_steps conn_step ?c ops))"]
    by (simp add: lingers_def lingering_def)
qed

text \<open>
  C11. A connection gives back what it takes, once, in order. Over any history (frames of any
  content, hooks that resolve or fail at any time, timers, the socket failing at any point,
  the shutdown) the client it obtained, its listener and its byte forwarder are taken in that
  order and each released exactly once: by the cleanup of a connection that ran, or by the
  handshake itself, in reverse, when it fails midway or finds the connection already closed.
  A closed connection reports its end exactly once and hears nothing more; its heartbeat, its
  pong deadline and its hello deadline are off. The timers of its calls are cleared too, except
  those the cleanup cannot reach: at most one for each call that is allowed only after the end,
  and one for each call whose id was used while the same id was in flight.
\<close>

theorem connection_releases_everything:
  "let (c, effs) = run_steps conn_step (new_conn opts defaults s) ops in
     resource_trace (phase c) (helloTask c \<noteq> None) (resources effs)
     \<and> length (filter disposes effs) \<le> 1
     \<and> connection_closed c = (ConnectionDone \<in> set effs)
     \<and> \<not> (connection_closed c \<and> (listening c \<or> forwarding c))
     \<and> \<not> (connection_closed c \<and> \<not> at_rest c)
     \<and> \<not> (connection_closed c
          \<and> outliving_calls (new_conn opts defaults s) ops < card (live_timers (callPump c)))"
proof -
  let ?r = "run_steps conn_step (new_conn opts defaults s) ops"
  have inv: "resource_inv (snd ?r) (fst ?r)"
    using resource_run [OF new_conn_resources, of opts defaults s ops] by simp
  have t: "resource_trace (phase (fst ?r)) (helloTask (fst ?r) \<noteq> None) (resources (snd ?r))"
    using inv by (simp add: resource_inv_def)
  have "disposes e \<Longrightarrow> is_resource e" for e by (cases e) simp_all
  then have d: "filter disposes (resources es) = filter disposes es" for es
    by (auto intro: filter_cong)
  have m: "ConnectionDone \<in> set es \<longleftrightarrow> ConnectionDone \<in> set (resources es)" for es by auto
  have "length (filter disposes (snd ?r)) \<le> 1" "connection_closed (fst ?r) = (ConnectionDone \<in> set (snd ?r))"
    using trace_marks [OF t] unfolding d m [symmetric] by simp_all
  moreover have "live_peer (fst ?r) = None" if "connection_closed (fst ?r)"
    using that by (auto simp: live_peer_def connection_closed_def split: conn_phase.splits)
  moreover have "\<not> outliving_calls (new_conn opts defaults s) ops < card (live_timers (callPump (fst ?r)))"
    if "connection_closed (fst ?r)"
    using closed_timers [OF that] by simp
  ultimately show ?thesis using t inv by (auto simp: resource_inv_def Let_def split: prod.split)
qed

end
