(* ===== verification/ServerProtocol.thy ===== *)
theory ServerProtocol
  imports ServerSafety
begin

section \<open>What the WebSocket server says, and when\<close>

text \<open>
  The order of the frames a connection sends, and that each call gets at most one answer.
\<close>

subsection \<open>The protocol of a connection\<close>

fun is_fatal :: "server_send \<Rightarrow> bool" where
  "is_fatal (SendFatal code) = True"
| "is_fatal s = False"

fun is_welcome :: "server_send \<Rightarrow> bool" where
  "is_welcome (SendWelcome l) = True"
| "is_welcome s = False"

abbreviation regular :: "server_send \<Rightarrow> bool" where
  "regular s \<equiv> \<not> is_fatal s \<and> \<not> is_welcome s"

text \<open>A welcome first, then anything but a welcome; a fatal error only as the last frame.\<close>

fun follows_protocol :: "bool \<Rightarrow> server_send list \<Rightarrow> bool" where
  "follows_protocol welcomed [] = True"
| "follows_protocol welcomed (s # ss) =
     (if is_fatal s then ss = []
      else if is_welcome s then \<not> welcomed \<and> follows_protocol True ss
      else welcomed \<and> follows_protocol True ss)"

definition welcomed :: "server_send list \<Rightarrow> bool" where
  "welcomed ss \<longleftrightarrow> list_ex is_welcome ss"

definition busy :: "conn \<Rightarrow> bool" where
  "busy c \<longleftrightarrow> live_peer c \<noteq> None \<or> authorizing c \<noteq> [] \<or> dispatching c \<noteq> [] \<or> pumpInflight (callPump c) \<noteq> []"

definition early :: "conn \<Rightarrow> bool" where
  "early c \<longleftrightarrow> phase c = PendingHello \<or> phase c = Handshaking \<or> helloTask c \<noteq> None"

abbreviation socket_open :: "conn \<Rightarrow> bool" where
  "socket_open c \<equiv> sockOpen (connSocket c)"

definition speaks :: "bool \<Rightarrow> conn \<Rightarrow> conn \<times> server_effect list \<Rightarrow> bool" where
  "speaks b c r \<longleftrightarrow>
     (\<exists>ys zs. sends (snd r) = ys @ zs \<and> list_all regular ys \<and> (ys \<noteq> [] \<longrightarrow> b \<and> socket_open c)
        \<and> (zs = [] \<or> (\<exists>code. zs = [SendFatal code]) \<and> socket_open c \<and> \<not> socket_open (fst r)))
     \<and> (socket_open (fst r) \<longrightarrow> socket_open c)
     \<and> (sockSends (connSocket (fst r)) = sockSends (connSocket c))
     \<and> (busy (fst r) \<longrightarrow> b) \<and> (early (fst r) \<longrightarrow> early c)"

lemma sends_append [simp]: "sends (xs @ ys) = sends xs @ sends ys"
  by (simp add: sends_def map_filter_def)

lemma sends_Cons [simp]: "sends (e # es) = (case sent_on e of None \<Rightarrow> sends es | Some s \<Rightarrow> s # sends es)"
  by (simp add: sends_def map_filter_def split: option.split)

lemma sends_Nil [simp]: "sends [] = []"
  by (simp add: sends_def map_filter_def)

lemma speaks_before:
  assumes "speaks b c (f c)" and "\<And>c'. (busy c' \<longrightarrow> b) \<Longrightarrow> speaks b c' (g c')"
  shows "speaks b c (before f g c)"
proof -
  let ?c = "fst (f c)"
  obtain ys zs where f: "sends (snd (f c)) = ys @ zs" "list_all regular ys" "ys \<noteq> [] \<longrightarrow> b \<and> socket_open c"
      "zs = [] \<or> (\<exists>code. zs = [SendFatal code]) \<and> socket_open c \<and> \<not> socket_open ?c"
    using assms(1) by (auto simp: speaks_def)
  have "busy ?c \<longrightarrow> b" using assms(1) unfolding speaks_def by blast
  then have "speaks b ?c (g ?c)" by (rule assms(2))
  then obtain ys' zs' where g: "sends (snd (g ?c)) = ys' @ zs'" "list_all regular ys'" "ys' \<noteq> [] \<longrightarrow> b \<and> socket_open ?c"
      "zs' = [] \<or> (\<exists>code. zs' = [SendFatal code]) \<and> socket_open ?c \<and> \<not> socket_open (fst (g ?c))"
    and g': "socket_open (fst (g ?c)) \<longrightarrow> socket_open ?c" "sockSends (connSocket (fst (g ?c))) = sockSends (connSocket ?c)"
      "busy (fst (g ?c)) \<longrightarrow> b" "early (fst (g ?c)) \<longrightarrow> early ?c"
    by (auto simp: speaks_def)
  have open': "socket_open ?c \<longrightarrow> socket_open c" using assms(1) by (simp add: speaks_def)
  have "\<exists>us vs. (ys @ zs) @ ys' @ zs' = us @ vs \<and> list_all regular us \<and> (us \<noteq> [] \<longrightarrow> b \<and> socket_open c)
      \<and> (vs = [] \<or> (\<exists>code. vs = [SendFatal code]) \<and> socket_open c \<and> \<not> socket_open (fst (g ?c)))"
  proof (cases "zs = []")
    case True
    then show ?thesis using f g open' by (intro exI [of _ "ys @ ys'"] exI [of _ zs']) auto
  next
    case False
    then show ?thesis using f g g'(1) by (intro exI [of _ ys] exI [of _ zs]) auto
  qed
  then show ?thesis using assms(1) g' open' f(1) g(1) by (auto simp: speaks_def)
qed

lemma speaks_nothing:
  assumes "sends (snd r) = []" and "socket_open (fst r) \<longrightarrow> socket_open c"
    and "sockSends (connSocket (fst r)) = sockSends (connSocket c)" and "busy (fst r) \<longrightarrow> b" and "early (fst r) \<longrightarrow> early c"
  shows "speaks b c r"
  using assms by (auto simp: speaks_def)

lemma no_sends [simp]:
  "sends (snd (on_bridge f c)) = []"
  "sends (snd (maybe_flush_buffered c)) = []"
proof -
  have "sends (map FromBridge effs) = []" for effs by (induction effs) simp_all
  then show b: "sends (snd (on_bridge f c)) = []" for f
    by (simp add: on_bridge_def case_prod_beta split: option.split)
  show "sends (snd (maybe_flush_buffered c)) = []"
    by (simp add: maybe_flush_buffered_def b split: option.split)
qed

lemma busy_same [simp]:
  "busy (fst (on_bridge f c)) = busy c" "busy (fst (ws_send s c)) = busy c" "busy (fst (reply_error i code c)) = busy c"
  "busy (fst (maybe_flush_buffered c)) = busy c"
  "early (fst (on_bridge f c)) = early c" "early (fst (ws_send s c)) = early c" "early (fst (reply_error i code c)) = early c"
  "early (fst (maybe_flush_buffered c)) = early c"
  by (simp_all add: busy_def live_peer_def early_def)

lemma sends_ws_send:
  "sends (snd (ws_send s c)) = (if socket_open c \<and> sockSends (connSocket c) then [s] else [])"
  by (simp add: ws_send_def)

lemma speaks_quiet [simp]:
  "busy c \<longrightarrow> b \<Longrightarrow> speaks b c (on_bridge f c)"
  "busy c \<longrightarrow> b \<Longrightarrow> speaks b c (maybe_flush_buffered c)"
  "busy c \<longrightarrow> b \<Longrightarrow> speaks b c (c, [])"
  "busy c \<longrightarrow> b \<Longrightarrow> speaks b c (just_emit [Observe ob] c)"
  "busy c \<longrightarrow> b \<Longrightarrow> speaks b c (just_emit [RunProgram task prog] c)"
  by (auto intro: speaks_nothing)

lemma speaks_send: "regular s \<Longrightarrow> speaks True c (ws_send s c)"
  unfolding speaks_def sends_ws_send
  by (intro conjI exI [of _ "if socket_open c \<and> sockSends (connSocket c) then [s] else []"] exI [of _ "[]"]) simp_all

lemma speaks_reply [simp]: "speaks True c (reply_error i code c)"
  by (simp add: reply_error_def speaks_send)

lemma speaks_fatal [simp]: "busy c \<longrightarrow> b \<Longrightarrow> speaks b c (send_fatal_and_close code n c)"
proof -
  assume "busy c \<longrightarrow> b"
  then have "busy (fst (send_fatal_and_close code n c)) \<longrightarrow> b" "early (fst (send_fatal_and_close code n c)) = early c"
    by (auto simp: busy_def live_peer_def early_def send_fatal_and_close_def not_open_def Let_def)
  moreover have "sends (snd (send_fatal_and_close code n c)) =
      (if connFatal c = None \<and> socket_open c \<and> sockSends (connSocket c) then [SendFatal code] else [])"
    by (simp add: send_fatal_and_close_def send_fatal_def Let_def)
  moreover have "socket_open (fst (send_fatal_and_close code n c)) = (connFatal c \<noteq> None \<and> socket_open c)"
    "sockSends (connSocket (fst (send_fatal_and_close code n c))) = sockSends (connSocket c)"
    by (simp_all add: send_fatal_and_close_def not_open_def Let_def)
  ultimately show ?thesis
    unfolding speaks_def
    by (intro conjI exI [of _ "[]"] exI [of _ "sends (snd (send_fatal_and_close code n c))"]) auto
qed

subsection \<open>Every operation but the welcome\<close>

text \<open>A change of fields before or after that keeps what the protocol looks at.\<close>

definition weaker :: "conn \<Rightarrow> conn \<Rightarrow> bool" where
  "weaker c' c \<longleftrightarrow> (socket_open c' \<longrightarrow> socket_open c) \<and> sockSends (connSocket c') = sockSends (connSocket c)
     \<and> (early c' \<longrightarrow> early c)"

lemma speaks_weaker: "speaks b c' r \<Longrightarrow> weaker c' c \<Longrightarrow> speaks b c r"
  unfolding speaks_def weaker_def by (elim conjE exE, intro conjI, blast+)

lemma speaks_upstream [simp]: "busy c \<longrightarrow> b \<Longrightarrow> speaks b c (close_for_upstream reason c)"
  unfolding close_for_upstream_def by (rule speaks_before) simp_all

lemma speaks_pump: "busy c \<longrightarrow> b \<Longrightarrow> speaks b (c\<lparr>callPump := p\<rparr>) r \<Longrightarrow> speaks b c r"
  by (erule speaks_weaker) (auto simp: weaker_def early_def)

lemma speaks_rejects: "(es \<noteq> [] \<or> busy c \<longrightarrow> b) \<Longrightarrow> speaks b c (run_steps reject_tracked c es)"
proof (induction es arbitrary: c)
  case (Cons e es)
  then have b: b by simp
  have "speaks b c (reject_tracked c e)"
    using b by (simp add: reject_tracked_def split: pump_effect.split)
  from speaks_before [where f = "\<lambda>c. reject_tracked c e" and g = "\<lambda>c. run_steps reject_tracked c es", OF this] Cons.IH b show ?case
    by (simp add: run_steps.simps before_def)
qed simp

lemma speaks_drain_pump:
  assumes "busy c \<longrightarrow> b"
  shows "speaks b c (drain_pump c)"
proof -
  let ?p = "fst (pump_drain (callPump c))"
  have "snd (pump_drain (callPump c)) \<noteq> [] \<longrightarrow> busy c" "pumpInflight ?p = []"
    by (auto simp: pump_drain_def busy_def)
  then have "speaks b (c\<lparr>callPump := ?p\<rparr>) (drain_pump c)"
    using assms speaks_rejects [of "snd (pump_drain (callPump c))" "c\<lparr>callPump := ?p\<rparr>" b]
    by (auto simp: drain_pump_def case_prod_beta busy_def live_peer_def)
  then show ?thesis by (rule speaks_pump [OF assms])
qed

lemma speaks_release: "busy c \<longrightarrow> b \<Longrightarrow> speaks b c (release_parts p c)"
proof -
  have stop: "busy c \<longrightarrow> b \<Longrightarrow> speaks b c (stop_listening c)" "busy c \<longrightarrow> b \<Longrightarrow> speaks b c (detach_forwarder c)" for c
    by (rule speaks_nothing; simp add: busy_def live_peer_def early_def)+
  assume "busy c \<longrightarrow> b"
  then show ?thesis
    unfolding release_parts_def
    by (cases p) (simp_all add: speaks_nothing speaks_before stop)
qed

lemma speaks_finalize:
  assumes "busy c \<longrightarrow> b"
  shows "speaks b c (finalize reason c)"
proof (cases "connection_closed c")
  case False
  let ?c = "c\<lparr>phase := ClosedPhase (live_peer c), helloDeadline := False, connBeat := heartbeat_stop (connBeat c)\<rparr>"
  have "busy ?c \<longrightarrow> b" using assms by (simp add: busy_def live_peer_def)
  moreover have "speaks b c' (just_emit [Observe x, ConnectionDone] c')" if "busy c' \<longrightarrow> b" for c' x
    using that by (intro speaks_nothing) simp_all
  ultimately have "speaks b ?c (finalize reason c)"
    using False by (simp add: finalize_def Let_def speaks_before speaks_drain_pump speaks_release)
  then show ?thesis by (rule speaks_weaker) (auto simp: weaker_def early_def)
qed (simp add: finalize_def assms)

lemma speaks_terminate:
  assumes "busy c \<longrightarrow> b"
  shows "speaks b c (terminate_with reason c)"
proof (cases "connection_closed c")
  case False
  have "busy c \<longrightarrow> b \<Longrightarrow> speaks b c (not_open c, [TerminateWs])" for c
    by (rule speaks_nothing) (simp_all add: not_open_def busy_def live_peer_def early_def)
  then show ?thesis
    using False assms by (simp add: terminate_with_def speaks_before speaks_finalize)
qed (simp add: terminate_with_def assms)

lemma speaks_drain: "busy c \<longrightarrow> b \<Longrightarrow> speaks b c (begin_drain d c)"
proof (cases "phase c")
  case (RunningPhase q)
  assume "busy c \<longrightarrow> b"
  then have b by (simp add: busy_def live_peer_def RunningPhase)
  then have "speaks b (c\<lparr>phase := DrainingPhase q d\<rparr>) (begin_drain d c)"
    by (simp add: begin_drain_def RunningPhase speaks_send)
  then show ?thesis by (rule speaks_weaker) (auto simp: weaker_def early_def)
qed (simp_all add: begin_drain_def)

lemma speaks_hello: "busy c \<longrightarrow> b \<Longrightarrow> speaks b c (on_hello c)"
  by (auto simp: on_hello_def busy_def live_peer_def early_def intro: speaks_nothing)

lemma speaks_authenticated:
  assumes "busy c \<longrightarrow> b"
  shows "speaks b c (on_authenticated res c)"
proof (cases "helloTask c = Some AwaitingAuth")
  case True
  let ?c = "c\<lparr>helloTask := None\<rparr>"
  have busy: "busy ?c \<longrightarrow> b" using assms by (simp add: busy_def live_peer_def)
  have "speaks b c (?c\<lparr>helloTask := Some AwaitingClient\<rparr>, [RunCreateClient])"
    using assms True by (intro speaks_nothing) (simp_all add: busy_def live_peer_def early_def)
  moreover have "speaks b c (?c, [Observe ob])" for ob
    using assms True busy by (intro speaks_nothing) (simp_all add: early_def)
  moreover have "speaks b ?c r \<Longrightarrow> speaks b c r" for r
    by (rule speaks_weaker) (auto simp: weaker_def early_def)
  ultimately show ?thesis
    using True busy by (auto simp: on_authenticated_def Let_def intro: speaks_nothing split: auth_result.split)
qed (simp add: on_authenticated_def assms)

lemma weaker_fields [simp]:
  "weaker (c\<lparr>authorizing := a\<rparr>) c" "weaker (c\<lparr>dispatching := d\<rparr>) c" "weaker (c\<lparr>callPump := p\<rparr>) c"
  "weaker (c\<lparr>rateWindow := w\<rparr>) c" "weaker (c\<lparr>connBeat := h\<rparr>) c" "weaker (c\<lparr>helloDeadline := t\<rparr>) c"
  "weaker (c\<lparr>dispatching := d, callPump := p\<rparr>) c"
  by (auto simp: weaker_def early_def)

lemma speaks_route: "busy c \<longrightarrow> b \<Longrightarrow> speaks b c (route_call now i m args c)"
proof (cases "phase c")
  case (RunningPhase q)
  assume "busy c \<longrightarrow> b"
  then have b: b by (simp add: busy_def live_peer_def RunningPhase)
  have "speaks b c (reply_error i code (c\<lparr>rateWindow := w\<rparr>))" for code w
    by (rule speaks_weaker [where c' = "c\<lparr>rateWindow := w\<rparr>"]) (simp_all add: b)
  moreover have "speaks b c (c\<lparr>rateWindow := w, authorizing := a, nextTask := n\<rparr>, [RunAuthorize t x y])" for w a n t x y
    using b by (intro speaks_nothing) (simp_all add: early_def)
  ultimately show ?thesis
    using b by (simp add: route_call_def RunningPhase on_call_def Let_def case_prod_beta)
next
  case (DrainingPhase q d)
  assume "busy c \<longrightarrow> b"
  then have b by (simp add: busy_def live_peer_def DrainingPhase)
  then show ?thesis by (simp add: route_call_def DrainingPhase)
qed (simp_all add: route_call_def)

lemma speaks_dispatch: "speaks True c (dispatch_bridge_call task q call c)"
  by (cases call) simp_all

lemma speaks_authorized:
  assumes "busy c \<longrightarrow> b"
  shows "speaks b c (on_authorized now task res c)"
proof (cases "\<exists>q i m args. map_of (authorizing c) task = Some (q, CallFrame i m args)")
  case True
  then obtain q i m args where t: "map_of (authorizing c) task = Some (q, CallFrame i m args)" by blast
  then have "authorizing c \<noteq> []" by auto
  then have b: b using assms by (simp add: busy_def)
  let ?c = "c\<lparr>authorizing := AList.delete task (authorizing c)\<rparr>"
  have "speaks True c' (c'\<lparr>callPump := p, dispatching := d\<rparr>, [])" for c' p d
    by (rule speaks_nothing) (simp_all add: early_def)
  then have run: "speaks True c' (before (\<lambda>c. (c\<lparr>callPump := p c, dispatching := d c\<rparr>, [])) (dispatch_bridge_call task q call) c')"
    for c' p d call
    by (intro speaks_before) (simp_all add: speaks_dispatch)
  have "speaks True ?c (on_authorized now task res c)"
    unfolding on_authorized_def t option.case prod.case client_frame.case
    by (rule speaks_before) (simp_all add: run Let_def split: authorize_result.split sum.split)
  then have "speaks True c (on_authorized now task res c)" by (rule speaks_weaker) simp
  then show ?thesis using b by simp
next
  case False
  then have "on_authorized now task res c = (c, [])"
    unfolding on_authorized_def by (auto simp del: map_of_eq_Some_iff split: option.split client_frame.split)
  then show ?thesis using assms by simp
qed

lemma speaks_encode: "speaks True c (encode_outcome i outcome d c)"
  unfolding encode_outcome_def by (cases outcome) (auto intro!: speaks_before speaks_send)

lemma speaks_outcome:
  assumes "busy c \<longrightarrow> b"
  shows "speaks b c (on_outcome now task answer c)"
proof (cases "map_of (dispatching c) task")
  case (Some i)
  then have "dispatching c \<noteq> []" by auto
  then have b: b using assms by (simp add: busy_def)
  let ?c = "c\<lparr>dispatching := AList.delete task (dispatching c), callPump := fst (pump_complete i (callPump c))\<rparr>"
  have "speaks True ?c (on_outcome now task answer c)"
    using Some by (auto simp: on_outcome_def Let_def case_prod_beta speaks_encode split: list.split pump_effect.split)
  then have "speaks True c (on_outcome now task answer c)" by (rule speaks_weaker) simp
  then show ?thesis using b by simp
qed (simp add: on_outcome_def assms)

lemma speaks_call_timer:
  assumes "busy c \<longrightarrow> b"
  shows "speaks b c (on_call_timer now timer c)"
proof -
  let ?p = "fst (pump_timer_fires timer (callPump c))" and ?e = "snd (pump_timer_fires timer (callPump c))"
  let ?c = "c\<lparr>callPump := ?p\<rparr>"
  have p: "(?e \<noteq> [] \<longrightarrow> pumpInflight (callPump c) \<noteq> []) \<and> (pumpInflight ?p \<noteq> [] \<longrightarrow> pumpInflight (callPump c) \<noteq> [])"
    by (auto simp: pump_timer_fires_def Let_def split: option.split)
  then have "busy ?c \<longrightarrow> b" using assms by (auto simp: busy_def live_peer_def)
  moreover have "?e \<noteq> [] \<longrightarrow> b" using p assms by (auto simp: busy_def)
  then have "?e = [PumpTimeout i s] \<Longrightarrow> speaks b ?c (before (reply_error i BRIDGE_TIMEOUT)
      (just_emit [Observe (ObsResult i (Some BRIDGE_TIMEOUT) (now - s))]) ?c)" for i s
    by (intro speaks_before) simp_all
  ultimately have "speaks b ?c (on_call_timer now timer c)"
    by (simp add: on_call_timer_def Let_def case_prod_beta split: list.split pump_effect.split)
  then show ?thesis by (rule speaks_weaker) simp
qed

lemma speaks_events:
  assumes "busy c \<longrightarrow> b"
  shows "speaks b c (on_upstream_event ev c)" "speaks b c (on_byte_output msg c)"
proof -
  have w: "speaks b c (on_wire_event ev c)"
  proof (cases "live_peer c")
    case (Some q)
    then have b using assms by (simp add: busy_def)
    then show ?thesis by (auto simp: on_wire_event_def Some intro!: speaks_before speaks_send split: option.split)
  qed (simp add: on_wire_event_def assms)
  then show "speaks b c (on_upstream_event ev c)"
    using assms by (auto simp: on_upstream_event_def split: emitter_message.split connection_state.split)
  show "speaks b c (on_byte_output msg c)"
  proof (cases "live_peer c")
    case (Some q)
    then have b using assms by (simp add: busy_def)
    then show ?thesis by (auto simp: on_byte_output_def Some Let_def intro!: speaks_before speaks_send)
  qed (simp add: on_byte_output_def assms)
qed

lemma speaks_heartbeat:
  assumes "busy c \<longrightarrow> b"
  shows "speaks b c (on_heartbeat_tick c)" "speaks b c (on_heartbeat_deadline c)"
proof -
  have "busy c' \<longrightarrow> b \<Longrightarrow> speaks b c' (c'\<lparr>connBeat := h\<rparr>, if p then [PingWs] else [])" for c' h p
    by (rule speaks_nothing) (simp_all add: busy_def live_peer_def early_def)
  then show "speaks b c (on_heartbeat_tick c)"
    unfolding on_heartbeat_tick_def Let_def case_prod_beta by (intro speaks_before) (simp_all add: assms just_emit_def)
  let ?c = "c\<lparr>connBeat := fst (heartbeat_deadline (connBeat c))\<rparr>"
  have "busy ?c \<longrightarrow> b" using assms by (simp add: busy_def live_peer_def)
  then have "speaks b ?c (on_heartbeat_deadline c)"
    by (simp add: on_heartbeat_deadline_def on_pong_deadline_def Let_def case_prod_beta speaks_terminate split: option.split)
  then show "speaks b c (on_heartbeat_deadline c)" by (rule speaks_weaker) simp
qed

lemma speaks_message:
  assumes "busy c \<longrightarrow> b"
  shows "speaks b c (on_ws_message now m c)"
proof -
  have bad: "speaks b c (before (just_emit [Observe ObsProtocolError]) (send_fatal_and_close BRIDGE_PROTOCOL_ERROR 1011) c)"
    by (rule speaks_before) (simp_all add: assms)
  have bye: "speaks b c (not_open c, [CloseWs 1000])"
    by (rule speaks_nothing) (use assms in \<open>simp_all add: not_open_def busy_def live_peer_def early_def\<close>)
  have "speaks b c (dispatch_frame now f c)" if live: "\<not> connection_closed c" for f
  proof (cases "phase c = PendingHello \<or> phase c = Handshaking")
    case True
    then show ?thesis using assms speaks_hello by (cases f) (auto simp: dispatch_frame_def)
  next
    case False
    have "speaks b c (ws_send (SendPong i) c)" for i
    proof -
      have "busy c" using False live by (cases "phase c") (simp_all add: busy_def live_peer_def connection_closed_def)
      then show ?thesis using assms speaks_send [of "SendPong i" c] by simp
    qed
    then show ?thesis
      using assms False bye speaks_hello speaks_route
      by (cases f) (auto simp: dispatch_frame_def)
  qed
  then show ?thesis
    using assms bad by (simp add: on_ws_message_def on_frame_def split: client_message.split sum.split)
qed

text \<open>Settling \<open>createClient\<close> is the one place a welcome is sent.\<close>

definition greets :: "conn \<Rightarrow> conn \<times> server_effect list \<Rightarrow> bool" where
  "greets c r \<longleftrightarrow>
     speaks False c r
     \<or> (sockSends (connSocket (fst r)) = sockSends (connSocket c) \<and> socket_open (fst r) = socket_open c
        \<and> \<not> early (fst r)
        \<and> sends (snd r) = (if socket_open c \<and> sockSends (connSocket c)
             then [SendWelcome (welcome_of (connDefaults c))] else []))"

lemma busy_released [simp]:
  "busy (c\<lparr>listening := x\<rparr>) = busy c" "busy (c\<lparr>forwarding := x\<rparr>) = busy c" "busy (c\<lparr>connBridge := y\<rparr>) = busy c"
  "busy (c\<lparr>connBridge := y, listening := x\<rparr>) = busy c" "busy (c\<lparr>helloTask := z\<rparr>) = busy c"
  "early (c\<lparr>listening := x\<rparr>) = early c" "early (c\<lparr>forwarding := x\<rparr>) = early c" "early (c\<lparr>connBridge := y\<rparr>) = early c"
  "early (c\<lparr>connBridge := y, listening := x\<rparr>) = early c"
  by (simp_all add: busy_def live_peer_def early_def)

lemma speaks_unwind: "busy c \<longrightarrow> b \<Longrightarrow> speaks b c (unwind rs c)"
proof -
  have one: "busy c \<longrightarrow> b \<Longrightarrow> speaks b c (release_acquired c r)" for c r
    by (cases r) (simp_all add: speaks_nothing)
  have "busy c \<longrightarrow> b \<Longrightarrow> speaks b c (run_steps release_acquired c rs)" for c rs
  proof (induction rs arbitrary: c)
    case (Cons r rs)
    from speaks_before [where f = "\<lambda>c. release_acquired c r" and g = "\<lambda>c. run_steps release_acquired c rs", OF one [OF Cons.prems] Cons.IH]
    show ?case by (simp add: run_steps.simps before_def)
  qed simp
  then show "busy c \<longrightarrow> b \<Longrightarrow> speaks b c (unwind rs c)" by (simp add: unwind_def)
qed

lemma greets_wire:
  assumes "\<not> busy c" "helloTask c = None"
  shows "greets c (wire_client bridge q upstream attaches c)"
proof -
  let ?c = "c\<lparr>connBridge := Some bridge, listening := True\<rparr>"
  have listen: "speaks False c (c\<lparr>connBridge := Some bridge, listening := True\<rparr>, [ListenClient])"
    using assms by (intro speaks_nothing) simp_all
  have attach: "\<not> busy c \<Longrightarrow> speaks False c (c\<lparr>forwarding := True\<rparr>, [AttachForwarder])" for c
    by (intro speaks_nothing) simp_all
  have unwound: "\<not> busy c \<Longrightarrow> speaks False c (before (unwind rs) (send_fatal_and_close code n) c)"
    "\<not> busy c \<Longrightarrow> speaks False c (before (unwind rs) (close_for_upstream reason) c)" for c rs code n reason
    by (rule speaks_before; simp add: speaks_unwind)+
  show ?thesis
  proof (cases "attaches \<and> (\<forall>r. upstream \<noteq> Closed r)")
    case True
    then have w: "wire_client bridge q upstream attaches c =
        before (\<lambda>c. (c\<lparr>connBridge := Some bridge, listening := True\<rparr>, [ListenClient]))
          (before (\<lambda>c. (c\<lparr>forwarding := True\<rparr>, [AttachForwarder])) (enter_running q)) c"
      unfolding wire_client_def by (cases upstream) simp_all
    show ?thesis
      unfolding greets_def w by (rule disjI2) (simp add: enter_running_def sends_ws_send early_def assms)
  next
    case False
    have "speaks False c (wire_client bridge q upstream attaches c)"
      unfolding wire_client_def
      by (rule speaks_before, rule listen)
        (use False unwound attach in \<open>auto intro!: speaks_before speaks_unwind split: connection_state.split\<close>)
    then show ?thesis by (simp add: greets_def)
  qed
qed

lemma greets_created:
  assumes "\<not> busy c"
  shows "greets c (on_client_created res c)"
proof (cases "helloTask c = Some AwaitingClient")
  case True
  let ?c = "c\<lparr>helloTask := None\<rparr>"
  have outer: "speaks False ?c r \<Longrightarrow> speaks False c r" for r
    by (rule speaks_weaker) (auto simp: weaker_def early_def)
  have n: "\<not> busy ?c" using assms by simp
  have gets: "\<not> busy c \<Longrightarrow> speaks False c (just_emit [ObtainClient] c)" for c
    by (rule speaks_nothing) simp_all
  have unwound: "\<not> busy c \<Longrightarrow> speaks False c (before (unwind rs) (send_fatal_and_close code n) c)" for c rs code n
    by (rule speaks_before; simp add: speaks_unwind)
  have bridged: "\<not> busy c \<Longrightarrow> speaks False c (before (\<lambda>c. (c\<lparr>connBridge := Some b\<rparr>, []))
      (before (unwind rs) (send_fatal_and_close code n)) c)" for c b rs code n
    by (rule speaks_before) (simp_all add: speaks_nothing unwound)
  have wired: "greets c (before (just_emit [ObtainClient]) (wire_client b q upstream attaches) ?c)" for b q upstream attaches
  proof (cases "speaks False ?c (wire_client b q upstream attaches ?c)")
    case True
    then have "speaks False ?c (before (just_emit [ObtainClient]) (wire_client b q upstream attaches) ?c)"
      by (simp add: speaks_def)
    then show ?thesis unfolding greets_def by (intro disjI1 outer)
  next
    case False
    then show ?thesis using greets_wire [OF n, of b q upstream attaches] by (simp add: greets_def)
  qed
  have direct: "speaks False ?c r \<Longrightarrow> greets c r" for r unfolding greets_def by (intro disjI1 outer)
  have pair: "speaks False ?c (before (just_emit [ObtainClient]) f ?c)" if "\<And>c. \<not> busy c \<Longrightarrow> speaks False c (f c)" for f
    by (rule speaks_before) (use that n gets in simp_all)
  show ?thesis
  proof (cases res)
    case CreateFailed
    have "speaks False ?c (on_client_created res c)"
      using True n by (simp add: CreateFailed on_client_created_def Let_def speaks_nothing)
    then show ?thesis by (rule direct)
  next
    case (Created upstream attaches)
    note r = Created on_client_created_def Let_def
    show ?thesis
    proof (cases "is_tearing_down ?c")
      case tearing: True
      have "speaks False ?c (before (just_emit [ObtainClient]) (unwind [ClientAcquired]) ?c)"
        by (rule pair) (simp add: speaks_unwind)
      then show ?thesis using True tearing by (simp add: r direct)
    next
      case alive: False
      show ?thesis
      proof (cases "create_bridge (optHighWatermark (connOptions ?c)) (optLowWatermark (connOptions ?c)) False")
        case (Inl e)
        have "speaks False ?c (before (just_emit [ObtainClient])
            (before (unwind [ClientAcquired]) (send_fatal_and_close BRIDGE_INTERNAL 1011)) ?c)"
          by (rule pair) (rule unwound)
        then show ?thesis using True alive Inl by (simp add: r direct)
      next
        case bridge: (Inr b)
        show ?thesis
        proof (cases "bridge_register_peer b")
          case (Inl e)
          have "speaks False ?c (before (just_emit [ObtainClient]) (before (\<lambda>c. (c\<lparr>connBridge := Some b\<rparr>, []))
              (before (unwind [ClientAcquired, BridgeAcquired]) (send_fatal_and_close BRIDGE_INTERNAL 1011))) ?c)"
            by (rule pair) (rule bridged)
          then show ?thesis
            using True alive bridge Inl by (simp add: r direct)
        next
          case (Inr x)
          obtain b' q where x: "x = (b', q)" by (cases x)
          show ?thesis
            using True alive bridge Inr wired
            by (simp add: r x)
        qed
      qed
    qed
  qed
qed (simp add: on_client_created_def greets_def assms)

subsection \<open>The order of the frames\<close>

definition protocol_inv :: "server_effect list \<Rightarrow> conn \<Rightarrow> bool" where
  "protocol_inv effs c \<longleftrightarrow>
     follows_protocol False (sends effs)
     \<and> (list_ex is_fatal (sends effs) \<longrightarrow> \<not> socket_open c)
     \<and> (early c \<longrightarrow> \<not> welcomed (sends effs) \<and> \<not> busy c)
     \<and> (busy c \<longrightarrow> welcomed (sends effs) \<or> \<not> socket_open c)
     \<and> sockSends (connSocket c)"

lemma follows_append:
  assumes "follows_protocol w xs" and "\<not> list_ex is_fatal xs"
  shows "follows_protocol w (xs @ ys) = follows_protocol (w \<or> welcomed xs) ys"
  using assms by (induction xs arbitrary: w) (auto simp: welcomed_def)

lemma follows_regulars:
  "list_all regular ys \<Longrightarrow> zs = [] \<or> (\<exists>code. zs = [SendFatal code]) \<Longrightarrow> ys = [] \<or> w \<Longrightarrow> follows_protocol w (ys @ zs)"
  by (induction ys arbitrary: w) auto

lemma regular_marks:
  "list_all regular ys \<Longrightarrow> \<not> list_ex is_fatal ys \<and> \<not> welcomed ys"
  by (induction ys) (auto simp: welcomed_def)

lemma follows_unwelcomed:
  "follows_protocol False xs \<Longrightarrow> \<not> welcomed xs \<Longrightarrow> \<not> list_ex is_fatal xs \<Longrightarrow> xs = []"
  by (cases xs) (auto simp: welcomed_def split: if_splits)

lemma welcomed_append [simp]: "welcomed (xs @ ys) = (welcomed xs \<or> welcomed ys)"
  by (simp add: welcomed_def)

lemma speaks_inv:
  assumes inv: "protocol_inv effs c" and r: "speaks (busy c) c r"
  shows "protocol_inv (effs @ snd r) (fst r)"
proof -
  obtain ys zs where s: "sends (snd r) = ys @ zs" "list_all regular ys" "ys \<noteq> [] \<longrightarrow> busy c \<and> socket_open c"
      "zs = [] \<or> (\<exists>code. zs = [SendFatal code]) \<and> socket_open c \<and> \<not> socket_open (fst r)"
    using r unfolding speaks_def by blast
  have rest: "socket_open (fst r) \<longrightarrow> socket_open c" "sockSends (connSocket (fst r)) = sockSends (connSocket c)"
    "busy (fst r) \<longrightarrow> busy c" "early (fst r) \<longrightarrow> early c"
    using r by (simp_all add: speaks_def)
  have marks: "\<not> list_ex is_fatal ys" "\<not> welcomed ys" using regular_marks [OF s(2)] by simp_all
  have zs: "\<not> welcomed zs" "list_ex is_fatal zs \<longrightarrow> \<not> socket_open (fst r)" using s(4) by (auto simp: welcomed_def)
  have "follows_protocol False (sends effs @ ys @ zs)"
  proof (cases "ys @ zs = []")
    case False
    then have o: "socket_open c" using s(3,4) by auto
    then have "\<not> list_ex is_fatal (sends effs)" using inv by (auto simp: protocol_inv_def)
    moreover have "ys = [] \<or> welcomed (sends effs)" using s(3) inv o by (auto simp: protocol_inv_def)
    ultimately show ?thesis
      using inv s(2,4) by (auto simp: protocol_inv_def follows_append intro: follows_regulars)
  qed (use inv in \<open>simp add: protocol_inv_def\<close>)
  then show ?thesis
    using inv rest marks zs s(1) by (auto simp: protocol_inv_def)
qed

lemma greets_inv:
  assumes inv: "protocol_inv effs c" and "early c" and r: "greets c r"
  shows "protocol_inv (effs @ snd r) (fst r)"
proof -
  have idle: "\<not> busy c" "\<not> welcomed (sends effs)" using inv assms(2) by (simp_all add: protocol_inv_def)
  show ?thesis
  proof (cases "speaks False c r")
    case True
    then show ?thesis using speaks_inv [OF inv] idle by simp
  next
    case False
    then have g: "sockSends (connSocket (fst r)) = sockSends (connSocket c)" "socket_open (fst r) = socket_open c"
        "\<not> early (fst r)" "sends (snd r) = (if socket_open c \<and> sockSends (connSocket c)
             then [SendWelcome (welcome_of (connDefaults c))] else [])"
      using r by (simp_all add: greets_def)
    have "sends effs = []" if "socket_open c"
      using inv idle that follows_unwelcomed by (auto simp: protocol_inv_def)
    then show ?thesis
      using inv g by (auto simp: protocol_inv_def welcomed_def)
  qed
qed

text \<open>The socket's \<open>send\<close> does not throw.\<close>

fun send_works :: "conn_op \<Rightarrow> bool" where
  "send_works (SocketIs s) = sockSends s"
| "send_works op = True"

lemma protocol_step:
  assumes inv: "protocol_inv effs c" and op: "send_works op"
  shows "protocol_inv (effs @ snd (conn_step c op)) (fst (conn_step c op))"
proof (cases op)
  case (ClientCreated res)
  show ?thesis
  proof (cases "early c")
    case True
    then have "\<not> busy c" using inv by (simp add: protocol_inv_def)
    then show ?thesis using greets_inv [OF inv True greets_created] ClientCreated by simp
  next
    case False
    then have "on_client_created res c = (c, [])" by (simp add: on_client_created_def early_def)
    then show ?thesis using inv ClientCreated by simp
  qed
next
  case (SocketIs s)
  then show ?thesis
    using inv op by (auto simp: protocol_inv_def busy_def live_peer_def early_def)
next
  case HelloTimeout
  let ?c = "c\<lparr>helloDeadline := False\<rparr>"
  have "speaks (busy c) ?c (send_fatal_and_close BRIDGE_PROTOCOL_ERROR 1011 ?c)"
    by (rule speaks_fatal) (simp add: busy_def live_peer_def)
  then have "speaks (busy c) c (send_fatal_and_close BRIDGE_PROTOCOL_ERROR 1011 ?c)" by (rule speaks_weaker) simp
  then show ?thesis using inv speaks_inv [OF inv] HelloTimeout by (simp add: on_hello_timeout_def)
next
  case PongArrives
  have "speaks (busy c) c (c\<lparr>connBeat := on_pong () (connBeat c)\<rparr>, [])"
    by (rule speaks_nothing) (simp_all add: busy_def live_peer_def early_def)
  then show ?thesis using speaks_inv [OF inv] PongArrives by fastforce
next
  case DisposeFailed
  then show ?thesis using inv by (simp add: protocol_inv_def)
qed (use inv speaks_inv [OF inv] speaks_message speaks_authenticated speaks_authorized speaks_outcome speaks_call_timer
      speaks_heartbeat speaks_events speaks_finalize speaks_drain speaks_terminate
    in \<open>simp_all add: terminate_def\<close>)

lemma protocol_run:
  "protocol_inv effs c \<Longrightarrow> list_all send_works ops \<Longrightarrow>
   protocol_inv (effs @ snd (run_steps conn_step c ops)) (fst (run_steps conn_step c ops))"
  by (induction ops arbitrary: effs c) (simp_all add: protocol_step flip: append_assoc)

text \<open>
  C12. A connection speaks the protocol. Whatever arrives and whatever fails, the frames sent are
  one of two things: nothing but a fatal error, or a welcome and then frames other than a
  welcome. A fatal error is the last frame sent, and once one is sent the socket is closing, so
  no reply, event or pane output can follow it. The socket's \<open>send\<close> is taken not to throw
  while it is open.
\<close>

theorem server_speaks_protocol:
  assumes "list_all send_works ops" and "sockSends s"
  shows "let (c, effs) = run_steps conn_step (new_conn opts defaults s) ops in
     follows_protocol False (sends effs) \<and> \<not> (list_ex is_fatal (sends effs) \<and> socket_open c)"
proof -
  have "protocol_inv [] (new_conn opts defaults s)"
    using assms(2) by (simp add: protocol_inv_def new_conn_def busy_def live_peer_def early_def welcomed_def new_pump_def)
  from protocol_run [OF this assms(1)] show ?thesis
    by (simp add: case_prod_beta Let_def protocol_inv_def)
qed

theorem server_speaks_protocol_witness:
  "let (c, effs) = run_steps conn_step (new_conn example_options example_defaults open_socket_view)
         (example_hello @ [list_panes_call ''r1'', MessageArrives 2 BinaryMessage, SocketClosed]) in
     follows_protocol False (sends effs) \<and> \<not> (list_ex is_fatal (sends effs) \<and> socket_open c)"
  by (rule server_speaks_protocol) (simp_all add: example_hello_def list_panes_call_def open_socket_view_def)

end
