(* ===== verification/ServerCalls.thy ===== *)
theory ServerCalls
  imports ServerProtocol "HOL-Library.Multiset"
begin

section \<open>Calls, output and shutdown of the WebSocket server\<close>

text \<open>
  A call is answered_ids at most once, whatever races between its hooks, its timer and the closing
  of the socket; a drained send buffer resumes the panes; and shutting the bridge down closes
  every connection.
\<close>

subsection \<open>At most one answer per call\<close>

fun reply_id :: "server_send \<Rightarrow> string option" where
  "reply_id (SendReply i r) = Some i"
| "reply_id s = None"

definition answered_ids :: "server_effect list \<Rightarrow> string multiset" where
  "answered_ids effs = mset (List.map_filter reply_id (sends effs))"

fun frame_call :: "client_frame \<Rightarrow> string multiset" where
  "frame_call (CallFrame i m args) = {#i#}"
| "frame_call f = {#}"

text \<open>The calls whose answer is still to come.\<close>

definition unanswered :: "conn \<Rightarrow> string multiset" where
  "unanswered c = sum_list (map (frame_call \<circ> snd \<circ> snd) (authorizing c)) + mset (map fst (pumpInflight (callPump c)))"

definition answers :: "string multiset \<Rightarrow> conn \<Rightarrow> conn \<times> server_effect list \<Rightarrow> bool" where
  "answers n c r \<longleftrightarrow> answered_ids (snd r) + unanswered (fst r) \<subseteq># unanswered c + n"

lemma answered_effects [simp]:
  "answered_ids [] = {#}"
  "answered_ids (xs @ ys) = answered_ids xs + answered_ids ys"
  "answered_ids [Send s] = (case reply_id s of None \<Rightarrow> {#} | Some i \<Rightarrow> {#i#})"
  by (simp_all add: answered_ids_def map_filter_def split: option.split)

lemma answered_none: "sends effs = [] \<Longrightarrow> answered_ids effs = {#}"
  by (simp add: answered_ids_def map_filter_def)

lemma answers_before:
  assumes "answers n c (f c)" and "\<And>c'. answers m c' (g c')"
  shows "answers (n + m) c (before f g c)"
proof -
  have "answered_ids (snd (f c)) + (answered_ids (snd (g (fst (f c)))) + unanswered (fst (g (fst (f c)))))
      \<subseteq># answered_ids (snd (f c)) + (unanswered (fst (f c)) + m)"
    using assms(2) [of "fst (f c)"] by (simp add: answers_def)
  also have "\<dots> \<subseteq># unanswered c + n + m"
    using assms(1) by (simp add: answers_def add.assoc [symmetric])
  finally show ?thesis by (simp add: answers_def add.assoc)
qed

lemma answers_more: "answers n c r \<Longrightarrow> n \<subseteq># m \<Longrightarrow> answers m c r"
  unfolding answers_def by (meson subset_mset.add_left_mono subset_mset.order_trans)

lemma answers_nothing:
  "sends (snd r) = [] \<Longrightarrow> authorizing (fst r) = authorizing c \<Longrightarrow> callPump (fst r) = callPump c \<Longrightarrow> answers {#} c r"
  by (simp add: answers_def answered_none unanswered_def)

lemma answers_before0:
  assumes "answers {#} c (f c)" and "\<And>c'. answers m c' (g c')"
  shows "answers m c (before f g c)"
  using answers_before [of "{#}" c f m g] assms by simp

lemma answers_send:
  "answers (case reply_id s of None \<Rightarrow> {#} | Some i \<Rightarrow> {#i#}) c (ws_send s c)"
  by (simp add: answers_def answered_ids_def sends_ws_send unanswered_def map_filter_def split: option.split)

lemma answers_reply [simp]: "answers {#i#} c (reply_error i code c)"
  using answers_send [of "SendReply i (ReplyError code)" c] by (simp add: reply_error_def)

lemma answers_other [simp]:
  "answers {#} c (on_bridge f c)" "answers {#} c (maybe_flush_buffered c)" "answers {#} c (c, [])"
  "answers {#} c (just_emit [Observe ob] c)" "answers {#} c (just_emit [RunProgram task prog] c)"
  "answers {#} c (stop_listening c)" "answers {#} c (detach_forwarder c)"
  by (auto intro: answers_nothing)

lemma fatal_calls [simp]:
  "authorizing (fst (send_fatal_and_close code n c)) = authorizing c"
  "callPump (fst (send_fatal_and_close code n c)) = callPump c"
  by (simp_all add: send_fatal_and_close_def not_open_def Let_def)

lemma answers_fatal [simp]: "answers {#} c (send_fatal_and_close code n c)"
  by (simp add: answers_def answered_ids_def unanswered_def map_filter_def)
    (simp add: send_fatal_and_close_def send_fatal_def Let_def)

lemma answers_upstream [simp]: "answers {#} c (close_for_upstream reason c)"
  unfolding close_for_upstream_def by (rule answers_before0) simp_all

text \<open>Fields that do not hold calls.\<close>

lemma answers_from:
  assumes "answers n c' r" and "unanswered c' + n \<subseteq># unanswered c + k"
  shows "answers k c r"
  using assms unfolding answers_def by (rule subset_mset.order_trans)

lemma answers_same:
  assumes "answers n c' r" and "authorizing c' = authorizing c" "callPump c' = callPump c"
  shows "answers n c r"
proof -
  have "unanswered c' = unanswered c" using assms(2,3) by (simp add: unanswered_def)
  then show ?thesis using assms(1) by (simp add: answers_def)
qed

lemma answers_rejects:
  "answers (mset (map (\<lambda>e. case e of PumpRejected i \<Rightarrow> i | PumpTimeout i s \<Rightarrow> i | PumpCompleted i s \<Rightarrow> i) es)) c
     (run_steps reject_tracked c es)"
proof (induction es arbitrary: c)
  case (Cons e es)
  let ?i = "case e of PumpRejected i \<Rightarrow> i | PumpTimeout i s \<Rightarrow> i | PumpCompleted i s \<Rightarrow> i"
  have "answers {#?i#} c (reject_tracked c e)"
    by (auto simp: reject_tracked_def intro: answers_more [of "{#}"] split: pump_effect.split)
  from answers_before [where f = "\<lambda>c. reject_tracked c e" and g = "\<lambda>c. run_steps reject_tracked c es", OF this Cons.IH]
  show ?case by (simp add: run_steps.simps before_def)
qed simp

lemma answers_drain_pump: "answers {#} c (drain_pump c)"
proof -
  let ?p = "fst (pump_drain (callPump c))" and ?e = "snd (pump_drain (callPump c))"
  have ids: "map (\<lambda>e. case e of PumpRejected i \<Rightarrow> i | PumpTimeout i s \<Rightarrow> i | PumpCompleted i s \<Rightarrow> i) ?e
      = map fst (pumpInflight (callPump c))" "pumpInflight ?p = []"
    by (simp_all add: pump_drain_def case_prod_beta comp_def)
  have "answers (mset (map fst (pumpInflight (callPump c)))) (c\<lparr>callPump := ?p\<rparr>) (drain_pump c)"
    using answers_rejects [of ?e "c\<lparr>callPump := ?p\<rparr>"] ids(1) by (simp add: drain_pump_def case_prod_beta)
  then show ?thesis by (rule answers_from) (simp add: unanswered_def ids(2))
qed

lemma answers_finalize: "answers {#} c (finalize reason c)"
proof (cases "connection_closed c")
  case False
  let ?c = "c\<lparr>phase := ClosedPhase (live_peer c), helloDeadline := False, connBeat := heartbeat_stop (connBeat c)\<rparr>"
  have last: "answers {#} c (just_emit es c)" if "sends es = []" for c es
    using that by (intro answers_nothing) simp_all
  have "answers {#} c (release_parts p c)" for c p
    unfolding release_parts_def by (cases p) (simp_all add: answers_before0 last)
  then have "answers {#} ?c (finalize reason c)"
    using False by (simp add: finalize_def Let_def answers_before0 answers_drain_pump last)
  then show ?thesis by (rule answers_same) simp_all
qed (simp add: finalize_def)

lemma answers_terminate: "answers {#} c (terminate_with reason c)"
proof -
  have "answers {#} c (not_open c, [TerminateWs])" for c
    by (rule answers_nothing) (simp_all add: not_open_def)
  then show ?thesis by (simp add: terminate_with_def answers_before0 answers_finalize)
qed

lemma answers_drain: "answers {#} c (begin_drain d c)"
proof (cases "phase c")
  case (RunningPhase q)
  have "answers {#} (c\<lparr>phase := DrainingPhase q d\<rparr>) (begin_drain d c)"
    using answers_send [of "SendDraining d"] by (simp add: begin_drain_def RunningPhase)
  then show ?thesis by (rule answers_same) simp_all
qed (simp_all add: begin_drain_def)

lemma answers_hello:
  "answers {#} c (on_hello c)" "answers {#} c (on_authenticated res c)"
proof -
  show "answers {#} c (on_hello c)" by (auto simp: on_hello_def intro: answers_nothing)
  let ?c = "c\<lparr>helloTask := None\<rparr>"
  have "answers {#} ?c (on_authenticated res c)" if "helloTask c = Some AwaitingAuth"
    using that by (auto simp: on_authenticated_def Let_def intro: answers_nothing split: auth_result.split)
  then show "answers {#} c (on_authenticated res c)"
    by (cases "helloTask c = Some AwaitingAuth") (auto simp: on_authenticated_def intro: answers_same)
qed

lemma answers_unwind: "answers {#} c (unwind rs c)"
proof -
  have one: "answers {#} c (release_acquired c r)" for c r by (cases r) (simp_all add: answers_nothing)
  have "answers {#} c (run_steps release_acquired c rs)" for rs c
  proof (induction rs arbitrary: c)
    case (Cons r rs)
    from answers_before0 [where f = "\<lambda>c. release_acquired c r" and g = "\<lambda>c. run_steps release_acquired c rs", OF one Cons.IH]
    show ?case by (simp add: run_steps.simps before_def)
  qed simp
  then show ?thesis by (simp add: unwind_def)
qed

lemma answers_created: "answers {#} c (on_client_created res c)"
proof (cases "helloTask c = Some AwaitingClient")
  case True
  let ?c = "c\<lparr>helloTask := None\<rparr>"
  have field: "answers {#} c (c\<lparr>connBridge := b\<rparr>, [])" "answers {#} c (c\<lparr>connBridge := b, listening := True\<rparr>, [ListenClient])"
    "answers {#} c (c\<lparr>forwarding := True\<rparr>, [AttachForwarder])" "answers {#} c (just_emit [ObtainClient] c)" for c b
    by (rule answers_nothing; simp)+
  have enter: "answers {#} c (enter_running q c)" for c q
    using answers_send [of "SendWelcome l" for l]
    unfolding enter_running_def by (intro answers_before0) (auto intro: answers_nothing)
  have "answers {#} c (wire_client b q upstream attaches c)" for c b q upstream attaches
    unfolding wire_client_def
    by (rule answers_before0, rule field)
      (auto intro!: answers_before0 answers_unwind answers_fatal answers_upstream field enter split: connection_state.split)
  then have "answers {#} ?c (on_client_created res c)"
    using True
    by (auto simp: on_client_created_def Let_def intro!: answers_before0 answers_unwind field
        intro: answers_nothing split: client_result.split sum.split)
  then show ?thesis by (rule answers_same) simp_all
qed (simp add: on_client_created_def)

lemma answers_events:
  "answers {#} c (on_upstream_event ev c)" "answers {#} c (on_byte_output msg c)"
  "answers {#} c (on_heartbeat_tick c)" "answers {#} c (on_heartbeat_deadline c)"
proof -
  have send: "answers {#} c (ws_send (SendEvent ev) c)" "answers {#} c (ws_send (SendBytes bs) c)" for c ev bs
    using answers_send [of "SendEvent ev" c] answers_send [of "SendBytes bs" c] by simp_all
  have w: "answers {#} c (on_wire_event ev c)"
    by (auto simp: on_wire_event_def intro!: answers_before0 send split: option.split)
  then show "answers {#} c (on_upstream_event ev c)"
    by (auto simp: on_upstream_event_def split: emitter_message.split connection_state.split)
  show "answers {#} c (on_byte_output msg c)"
    by (auto simp: on_byte_output_def Let_def intro!: answers_before0 send split: option.split)
  have "answers {#} c (c\<lparr>connBeat := h\<rparr>, if p then [PingWs] else [])" for c h p
    by (rule answers_nothing) simp_all
  then show "answers {#} c (on_heartbeat_tick c)"
    unfolding on_heartbeat_tick_def Let_def case_prod_beta by (intro answers_before0) (simp_all add: just_emit_def)
  let ?c = "c\<lparr>connBeat := fst (heartbeat_deadline (connBeat c))\<rparr>"
  have "answers {#} ?c (on_heartbeat_deadline c)"
    by (simp add: on_heartbeat_deadline_def on_pong_deadline_def Let_def case_prod_beta answers_terminate split: option.split)
  then show "answers {#} c (on_heartbeat_deadline c)" by (rule answers_same) simp_all
qed

text \<open>The operations that make, carry and settle calls.\<close>

lemma sum_delete:
  "map_of al k = Some x \<Longrightarrow> sum_list (map (g \<circ> snd) (AList.delete k al)) + g x \<subseteq># (sum_list (map (g \<circ> snd) al) :: 'b multiset)"
proof (induction al)
  case (Cons e al)
  show ?case
  proof (cases "fst e = k")
    case True
    have "sum_list (map (g \<circ> snd) (AList.delete k al)) \<subseteq># sum_list (map (g \<circ> snd) al)" for al
      by (induction al) (auto simp: subset_mset.add_left_mono intro: subset_mset.order_trans)
    from this [of al] show ?thesis using Cons.prems True by (cases e) (simp add: add.commute comp_def)
  next
    case False
    then show ?thesis using Cons by (cases e) (simp add: add.assoc)
  qed
qed simp

lemma keys_delete: "k \<in> set ks \<Longrightarrow> mset (removeAll k ks) + {#k#} \<subseteq># mset ks"
proof (induction ks)
  case (Cons x ks)
  have "mset (removeAll k ks) \<subseteq># mset ks" by (simp add: mset_filter removeAll_filter_not_eq)
  then show ?case using Cons by auto
qed simp

lemma answers_route: "answers {#i#} c (route_call now i m args c)"
proof -
  have reply: "answers {#i#} c (reply_error i code (c\<lparr>rateWindow := w\<rparr>))" for code w
    by (rule answers_same [where c' = "c\<lparr>rateWindow := w\<rparr>"]) simp_all
  have "answers {#i#} c (on_call now q i m args c)" for q
    by (auto simp: on_call_def Let_def case_prod_beta reply) (simp add: answers_def unanswered_def answered_none)
  then show ?thesis
    by (auto simp: route_call_def intro: answers_more [of "{#}"] split: conn_phase.split)
qed

lemma answers_dispatch: "answers {#} c (dispatch_bridge_call task q call c)"
  by (cases call) simp_all

lemma answers_authorized: "answers {#} c (on_authorized now task res c)"
proof (cases "\<exists>q i m args. map_of (authorizing c) task = Some (q, CallFrame i m args)")
  case True
  then obtain q i m args where t: "map_of (authorizing c) task = Some (q, CallFrame i m args)" by blast
  let ?c = "c\<lparr>authorizing := AList.delete task (authorizing c)\<rparr>"
  have track: "answers {#i#} c (c\<lparr>callPump := pump_track i now (callPump c), dispatching := d\<rparr>, [])" for c d
    by (auto simp: answers_def unanswered_def pump_track_def Let_def update_keys simp flip: mset_map)
  have run: "answers {#i#} c (before (\<lambda>c. (c\<lparr>callPump := pump_track i now (callPump c), dispatching := d c\<rparr>, []))
      (dispatch_bridge_call task q call) c)" for c d call
    using answers_before [where f = "\<lambda>c. (c\<lparr>callPump := pump_track i now (callPump c), dispatching := d c\<rparr>, [])",
        OF track answers_dispatch] by simp
  have "answers {#i#} ?c (on_authorized now task res c)"
    unfolding on_authorized_def t option.case prod.case client_frame.case
    by (rule answers_before0) (simp_all add: run Let_def split: authorize_result.split sum.split)
  moreover have "unanswered ?c + {#i#} \<subseteq># unanswered c"
    using sum_delete [OF t, of "frame_call \<circ> snd"] by (simp add: unanswered_def comp_def)
  ultimately show ?thesis by (auto intro: answers_from)
next
  case False
  then have "on_authorized now task res c = (c, [])"
    unfolding on_authorized_def by (auto simp del: map_of_eq_Some_iff split: option.split client_frame.split)
  then show ?thesis by simp
qed

lemma answers_encode: "answers {#i#} c (encode_outcome i outcome d c)"
proof -
  have "answers ({#i#} + {#}) c (before (ws_send (SendReply i rep)) (just_emit [Observe ob]) c)" for rep ob
    using answers_send [of "SendReply i rep" c] by (intro answers_before) simp_all
  then show ?thesis by (cases outcome) (simp_all add: encode_outcome_def reply_error_def)
qed

text \<open>An entry that leaves the pump is one answer.\<close>

lemma pump_leaves:
  "snd (pump_complete i p) = [PumpCompleted j s] \<Longrightarrow>
     j = i \<and> mset (map fst (pumpInflight (fst (pump_complete i p)))) + {#i#} \<subseteq># mset (map fst (pumpInflight p))"
  "snd (pump_timer_fires t p) = [PumpTimeout j s] \<Longrightarrow>
     mset (map fst (pumpInflight (fst (pump_timer_fires t p)))) + {#j#} \<subseteq># mset (map fst (pumpInflight p))"
  "mset (map fst (pumpInflight (fst (pump_complete i p)))) \<subseteq># mset (map fst (pumpInflight p))"
  "mset (map fst (pumpInflight (fst (pump_timer_fires t p)))) \<subseteq># mset (map fst (pumpInflight p))"
proof -
  have key: "map_of al k = Some v \<Longrightarrow> k \<in> set (map fst al)" for al :: "(string \<times> nat \<times> int) list" and k v
    by (force dest: map_of_SomeD)
  have less: "mset (removeAll k ks) \<subseteq># mset ks" for k and ks :: "string list"
    by (simp add: mset_filter removeAll_filter_not_eq)
  show "snd (pump_complete i p) = [PumpCompleted j s] \<Longrightarrow>
     j = i \<and> mset (map fst (pumpInflight (fst (pump_complete i p)))) + {#i#} \<subseteq># mset (map fst (pumpInflight p))"
    using key [of "pumpInflight p" i] keys_delete [of i "map fst (pumpInflight p)"]
    by (auto simp: pump_complete_def delete_keys split: option.splits simp flip: mset_map)
  show "snd (pump_timer_fires t p) = [PumpTimeout j s] \<Longrightarrow>
     mset (map fst (pumpInflight (fst (pump_timer_fires t p)))) + {#j#} \<subseteq># mset (map fst (pumpInflight p))"
    using key [of "pumpInflight p" j] keys_delete [of j "map fst (pumpInflight p)"]
    by (auto simp: pump_timer_fires_def Let_def delete_keys split: option.splits if_splits simp flip: mset_map)
  show "mset (map fst (pumpInflight (fst (pump_complete i p)))) \<subseteq># mset (map fst (pumpInflight p))"
    "mset (map fst (pumpInflight (fst (pump_timer_fires t p)))) \<subseteq># mset (map fst (pumpInflight p))"
    by (auto simp: pump_complete_def pump_timer_fires_def Let_def delete_keys less split: option.split simp flip: mset_map)
qed

lemma answers_outcome: "answers {#} c (on_outcome now task answer c)"
proof (cases "map_of (dispatching c) task")
  case (Some i)
  let ?p = "fst (pump_complete i (callPump c))"
  let ?c = "c\<lparr>dispatching := AList.delete task (dispatching c), callPump := ?p\<rparr>"
  show ?thesis
  proof (cases "\<exists>j s. snd (pump_complete i (callPump c)) = [PumpCompleted j s]")
    case True
    then obtain j s where e: "snd (pump_complete i (callPump c)) = [PumpCompleted j s]" by blast
    have "answers {#i#} ?c (on_outcome now task answer c)"
      using Some e answers_encode by (simp add: on_outcome_def Let_def case_prod_beta)
    then show ?thesis using pump_leaves(1) [OF e] by (auto simp: unanswered_def intro: answers_from)
  next
    case False
    then have "answers {#} ?c (on_outcome now task answer c)"
      using Some by (auto simp: on_outcome_def Let_def case_prod_beta split: list.split pump_effect.split)
    then show ?thesis using pump_leaves(3) [of i "callPump c"] by (auto simp: unanswered_def intro: answers_from)
  qed
qed (simp add: on_outcome_def)

lemma answers_call_timer: "answers {#} c (on_call_timer now timer c)"
proof -
  let ?p = "fst (pump_timer_fires timer (callPump c))"
  let ?c = "c\<lparr>callPump := ?p\<rparr>"
  show ?thesis
  proof (cases "\<exists>j s. snd (pump_timer_fires timer (callPump c)) = [PumpTimeout j s]")
    case True
    then obtain j s where e: "snd (pump_timer_fires timer (callPump c)) = [PumpTimeout j s]" by blast
    have "answers ({#j#} + {#}) ?c (before (reply_error j BRIDGE_TIMEOUT)
        (just_emit [Observe (ObsResult j (Some BRIDGE_TIMEOUT) (now - s))]) ?c)"
      by (rule answers_before) simp_all
    then have "answers {#j#} ?c (on_call_timer now timer c)"
      using e by (simp add: on_call_timer_def Let_def case_prod_beta)
    then show ?thesis using pump_leaves(2) [OF e] by (auto simp: unanswered_def intro: answers_from)
  next
    case False
    then have "answers {#} ?c (on_call_timer now timer c)"
      by (auto simp: on_call_timer_def Let_def case_prod_beta split: list.split pump_effect.split)
    then show ?thesis using pump_leaves(4) [of timer "callPump c"] by (auto simp: unanswered_def intro: answers_from)
  qed
qed

text \<open>The call an operation brings.\<close>

fun brings :: "conn_op \<Rightarrow> string multiset" where
  "brings (MessageArrives now (TextMessage raw)) =
     (case parse_client_frame raw of Inr f \<Rightarrow> frame_call f | Inl e \<Rightarrow> {#})"
| "brings op = {#}"

lemma answers_message: "answers (brings (MessageArrives now m)) c (on_ws_message now m c)"
proof -
  have bad: "answers {#} c (before (just_emit [Observe ObsProtocolError]) (send_fatal_and_close BRIDGE_PROTOCOL_ERROR 1011) c)"
    by (rule answers_before0) simp_all
  have bye: "answers {#} c (not_open c, [CloseWs 1000])"
    by (rule answers_nothing) (simp_all add: not_open_def)
  have "answers (frame_call f) c (dispatch_frame now f c)" for f
    using answers_hello(1) answers_route bye answers_send [of "SendPong i" c for i] answers_more [OF answers_fatal]
    by (cases f) (auto simp: dispatch_frame_def)
  then show ?thesis
    using bad answers_more [of "{#}" c "(c, [])"]
    by (auto simp: on_ws_message_def on_frame_def split: client_message.split sum.split)
qed

lemma answers_step: "answers (brings op) c (conn_step c op)"
proof (cases op)
  case (MessageArrives now m)
  then show ?thesis using answers_message by simp
next
  case HelloTimeout
  have "answers {#} c (send_fatal_and_close BRIDGE_PROTOCOL_ERROR 1011 (c\<lparr>helloDeadline := False\<rparr>))"
    by (rule answers_same [where c' = "c\<lparr>helloDeadline := False\<rparr>"]) simp_all
  then show ?thesis by (simp add: HelloTimeout on_hello_timeout_def)
next
  case PongArrives
  then show ?thesis by (auto intro: answers_nothing)
next
  case (SocketIs s)
  then show ?thesis by (auto intro: answers_nothing)
next
  case DisposeFailed
  then show ?thesis by (auto intro: answers_nothing)
qed (simp_all add: answers_hello answers_created answers_authorized answers_outcome answers_call_timer answers_events
      answers_finalize answers_terminate answers_drain terminate_def)

text \<open>
  C13. No call is answered_ids twice. Over any history, whatever the hooks, timeouts, replies and the
  closing of the socket race to do, the answers sent to an id and the calls of that id still
  being worked on together are at most the calls that arrived under it; so a client that uses
  each id once sees at most one answer to each, and none to an id it did not use.
\<close>

theorem calls_answered_once:
  "let (c, effs) = run_steps conn_step (new_conn opts defaults s) ops in
     answered_ids effs + unanswered c \<subseteq># sum_list (map brings ops)"
proof -
  have "answered_ids (snd (run_steps conn_step c ops)) + unanswered (fst (run_steps conn_step c ops))
      \<subseteq># unanswered c + sum_list (map brings ops)" for c
  proof (induction ops arbitrary: c)
    case (Cons op ops)
    have "answered_ids (snd (conn_step c op)) + (answered_ids (snd (run_steps conn_step (fst (conn_step c op)) ops))
          + unanswered (fst (run_steps conn_step (fst (conn_step c op)) ops)))
        \<subseteq># answered_ids (snd (conn_step c op)) + (unanswered (fst (conn_step c op)) + sum_list (map brings ops))"
      using Cons.IH by simp
    also have "\<dots> \<subseteq># unanswered c + brings op + sum_list (map brings ops)"
      using answers_step [of op c] by (simp add: answers_def add.assoc [symmetric])
    finally show ?case by (simp add: add.assoc)
  qed simp
  from this [of "new_conn opts defaults s"] show ?thesis
    by (simp add: case_prod_beta Let_def unanswered_def new_conn_def new_pump_def)
qed

end
