(* ===== verification/ServerFlow.thy ===== *)
theory ServerFlow
  imports ServerCalls
begin

section \<open>Backpressure of a connection, and shutting down\<close>

text \<open>
  The connection is the one peer of its bridge, so a drained send buffer leaves nothing
  outstanding and every paused pane on its way back; and the bridge over all connections ends
  each of them when it is shut down.
\<close>

subsection \<open>The bridge of a connection has one peer\<close>

fun flow_ops :: "bridge_op \<Rightarrow> flow_op list" where
  "flow_ops (BridgeRemove q) = [ReleasePeer q]"
| "flow_ops (BridgeAccount q p n) = [Account q p n]"
| "flow_ops (BridgeAck q p n) = [Ack q p n]"
| "flow_ops (BridgeClear q) = [ClearPeer q]"
| "flow_ops BridgeDispose = [DisposeLedger]"
| "flow_ops (FlowAnswered p token outcome) =
     [case outcome of None \<Rightarrow> ContinueDone p token | Some err \<Rightarrow> ContinueFailed p token err]"
| "flow_ops op = []"

lemma bridge_flow:
  "op \<noteq> BridgeRegister \<Longrightarrow> flowLedger (fst (bridge_step b op)) = fst (run_steps flow_step (flowLedger b) (flow_ops op))"
  by (cases op) (simp_all add: bridge_remove_peer_def bridge_dispose_def account_output_def ack_output_def
      clear_peer_outstanding_def bridge_subscribe_def bridge_unsubscribe_def bridge_enable_layout_def
      bridge_disable_layout_def)

text \<open>A Continue that a live tmux refuses strands its pane, and is reported; it is excluded here.\<close>

fun continues_work :: "bridge_op \<Rightarrow> bool" where
  "continues_work (FlowAnswered p token (Some err)) = is_connection_gone err"
| "continues_work op = True"

lemma flow_ops_live: "continues_work op \<Longrightarrow> list_all (\<lambda>f. \<not> live_failure f) (flow_ops op)"
  by (cases op) (auto simp: live_failure_def split: option.splits)

lemma bridge_flow_ok:
  assumes "op \<noteq> BridgeRegister" "continues_work op" "ledger_ok (flowLedger b)"
  shows "ledger_ok (flowLedger (fst (bridge_step b op)))"
proof -
  have "filter (\<lambda>f. \<not> live_failure f) (flow_ops op) = flow_ops op"
    using flow_ops_live [OF assms(2)] by (simp add: list_all_iff filter_id_conv)
  then show ?thesis
    using flow_run_ok [OF assms(3), of "flow_ops op"] by (simp add: bridge_flow [OF assms(1)])
qed

fun keeps_peers :: "bridge_op \<Rightarrow> bool" where
  "keeps_peers BridgeRegister = False"
| "keeps_peers (BridgeRemove q) = False"
| "keeps_peers BridgeDispose = False"
| "keeps_peers op = True"

lemma bridge_peers: "keeps_peers op \<Longrightarrow> peers_of (fst (bridge_step b op)) = peers_of b"
  by (cases op) (simp_all add: peers_of_def account_output_def ack_output_def clear_peer_outstanding_def
      bridge_subscribe_def bridge_unsubscribe_def bridge_enable_layout_def bridge_disable_layout_def
      del: sub_step.simps flow_step.simps cov_step_fn.simps)

definition fits :: "peer set \<Rightarrow> conn \<Rightarrow> bool" where
  "fits ps c \<longleftrightarrow>
     (case connBridge c of
        None \<Rightarrow> ps = {}
      | Some b \<Rightarrow> bridge_ok b \<and> ledger_ok (flowLedger b) \<and> peers_of b = ps)"

definition steady :: "conn \<Rightarrow> conn \<times> server_effect list \<Rightarrow> bool" where
  "steady c r \<longleftrightarrow> (\<forall>ps. fits ps c \<longrightarrow> fits ps (fst r))"

lemma steady_before:
  "steady c (f c) \<Longrightarrow> (\<And>c'. steady c' (g c')) \<Longrightarrow> steady c (before f g c)"
  by (simp add: steady_def)

lemma steady_same: "connBridge (fst r) = connBridge c \<Longrightarrow> steady c r"
  by (simp add: steady_def fits_def)

lemma steady_from: "steady c' r \<Longrightarrow> connBridge c' = connBridge c \<Longrightarrow> steady c r"
  by (simp add: steady_def fits_def)

lemma steady_op: "keeps_peers op \<Longrightarrow> continues_work op \<Longrightarrow> steady c (on_bridge (\<lambda>b. bridge_step b op) c)"
  using bridge_flow_ok [of op] bridge_peers [of op] bridge_step_ok
  by (cases "op = BridgeRegister") (auto simp: steady_def fits_def on_bridge_def case_prod_beta split: option.splits)

lemma steady_ops [simp]:
  "steady c (on_bridge (clear_peer_outstanding q) c)"
  "steady c (on_bridge (account_output q p n) c)"
  "steady c (on_bridge (bridge_subscribe q name what fmt) c)"
  "steady c (on_bridge (bridge_unsubscribe q name) c)"
  "steady c (on_bridge (bridge_enable_layout q promise) c)"
  "steady c (on_bridge (bridge_disable_layout q promise) c)"
  using steady_op [of "BridgeClear q" c] steady_op [of "BridgeAccount q p n" c]
    steady_op [of "BridgeSubscribe q name what fmt" c] steady_op [of "BridgeUnsubscribe q name" c]
    steady_op [of "BridgeEnable q promise" c] steady_op [of "BridgeDisable q promise" c]
  by simp_all

lemma steady_basic [simp]:
  "steady c (maybe_flush_buffered c)" "steady c (ws_send s c)" "steady c (reply_error i code c)"
  "steady c (just_emit es c)" "steady c (c, es)" "steady c (send_fatal_and_close code n c)"
  "steady c (close_for_upstream reason c)" "steady c (stop_listening c)" "steady c (detach_forwarder c)"
proof -
  show flush: "steady c (maybe_flush_buffered c)" for c
    by (simp add: maybe_flush_buffered_def steady_same split: option.split)
  show send: "steady c (ws_send s c)" for s c
    unfolding ws_send_def by (simp add: steady_same steady_before flush)
  show "steady c (reply_error i code c)" by (simp add: reply_error_def send)
  show fatal: "steady c (send_fatal_and_close code n c)" for code n c
    by (simp add: send_fatal_and_close_def not_open_def Let_def steady_same)
  show "steady c (close_for_upstream reason c)"
    unfolding close_for_upstream_def by (rule steady_before) (simp_all add: steady_same fatal)
qed (simp_all add: steady_same)

lemma steady_drain_pump: "steady c (drain_pump c)"
proof -
  have "steady c (run_steps reject_tracked c es)" for c es
  proof (induction es arbitrary: c)
    case (Cons e es)
    have "steady c (reject_tracked c e)" by (simp add: reject_tracked_def steady_same split: pump_effect.split)
    then show ?case using Cons.IH by (simp add: steady_def)
  qed (simp add: steady_same)
  then show ?thesis
    using steady_from [of "c\<lparr>callPump := fst (pump_drain (callPump c))\<rparr>" "drain_pump c" c]
    by (simp add: drain_pump_def case_prod_beta)
qed

text \<open>Removing the one peer, and disposal.\<close>

lemma fits_dispose: "fits ps c \<Longrightarrow> fits {} (fst (on_bridge bridge_dispose c))"
  using bridge_flow_ok [of BridgeDispose] bridge_dispose_ok
  by (auto simp: fits_def on_bridge_def case_prod_beta split: option.splits)

lemma fits_remove: "fits ps c \<Longrightarrow> fits (ps - {q}) (fst (on_bridge (bridge_remove_peer q) c))"
  using bridge_flow_ok [of "BridgeRemove q"] bridge_remove_ok
  by (auto simp: fits_def on_bridge_def case_prod_beta split: option.splits)

definition own_peers :: "conn \<Rightarrow> peer set" where
  "own_peers c = (case live_peer c of None \<Rightarrow> {} | Some q \<Rightarrow> {q})"

definition flow_inv :: "conn \<Rightarrow> bool" where
  "flow_inv c \<longleftrightarrow> fits (own_peers c) c"

lemma flow_steady: "flow_inv c \<Longrightarrow> steady c r \<Longrightarrow> live_peer (fst r) = live_peer c \<Longrightarrow> flow_inv (fst r)"
  by (simp add: flow_inv_def own_peers_def steady_def)

lemma calm_live: "calm c r \<Longrightarrow> live_peer (fst r) = live_peer c"
  by (rule flags_cong) (simp add: calm_def)

lemma flow_calm: "flow_inv c \<Longrightarrow> steady c r \<Longrightarrow> calm c r \<Longrightarrow> flow_inv (fst r)"
  using flow_steady calm_live by blast

lemma fits_fields [simp]:
  "fits ps (c\<lparr>phase := p, helloDeadline := t, connBeat := h\<rparr>) = fits ps c"
  "fits ps (c\<lparr>listening := x\<rparr>) = fits ps c" "fits ps (c\<lparr>forwarding := x\<rparr>) = fits ps c"
  "fits ps (c\<lparr>helloTask := k\<rparr>) = fits ps c" "fits ps (not_open c) = fits ps c"
  by (simp_all add: fits_def not_open_def)

lemma flow_finalize:
  assumes "flow_inv c"
  shows "flow_inv (fst (finalize reason c))"
proof (cases "connection_closed c")
  case False
  let ?c = "c\<lparr>phase := ClosedPhase (live_peer c), helloDeadline := False, connBeat := heartbeat_stop (connBeat c)\<rparr>"
  have start: "fits (own_peers c) (fst (drain_pump ?c))"
    using assms steady_drain_pump [of ?c] by (simp add: flow_inv_def steady_def)
  have "fits {} (fst (release_parts (live_peer c) (fst (drain_pump ?c))))"
  proof (cases "live_peer c")
    case None
    then show ?thesis using start by (simp add: release_parts_def own_peers_def)
  next
    case (Some q)
    have "fits ({q} - {q}) (fst (on_bridge (bridge_remove_peer q) ((fst (drain_pump ?c))\<lparr>listening := False, forwarding := False\<rparr>)))"
      using start Some by (intro fits_remove) (simp add: own_peers_def fits_def)
    then show ?thesis using fits_dispose by (simp add: release_parts_def Some)
  qed
  moreover have "live_peer (fst (finalize reason c)) = None"
    using False by (simp add: live_peer_def finalize_def Let_def)
  ultimately show ?thesis
    using False by (simp add: flow_inv_def own_peers_def finalize_def Let_def)
qed (simp add: finalize_def assms)

lemma flow_terminate:
  assumes "flow_inv c"
  shows "flow_inv (fst (terminate_with reason c))"
proof -
  have "live_peer (not_open c) = live_peer c" by (rule flags_cong) simp
  then have "flow_inv (not_open c)" using assms by (simp add: flow_inv_def own_peers_def)
  then show ?thesis using flow_finalize assms by (simp add: terminate_with_def)
qed

text \<open>The handshake makes the bridge, with one peer, or takes it down again.\<close>

lemma create_bridge_ledger: "create_bridge h w fw = Inr b \<Longrightarrow> ledger_ok (flowLedger b)"
  by (auto simp: create_bridge_def and_then_Inr new_backpressure_ok)

lemma register_ledger: "bridge_register_peer b = Inr (b', q) \<Longrightarrow> ledger_ok (flowLedger b) \<Longrightarrow> ledger_ok (flowLedger b')"
  by (auto simp: bridge_register_peer_def and_then_Inr Let_def intro: register_peer_ok)

lemma flow_dead: "live_peer c = None \<Longrightarrow> flow_inv c = fits {} c"
  by (simp add: flow_inv_def own_peers_def)

lemma connBridge_release [simp]:
  "connBridge (fst (unwind [ClientAcquired] c)) = connBridge c" "phase (fst (unwind rs c)) = phase c"
proof -
  show "connBridge (fst (unwind [ClientAcquired] c)) = connBridge c" by (simp add: unwind_def)
  have one: "phase (fst (release_acquired c r)) = phase c" for c r by (cases r) simp_all
  have "phase (fst (run_steps release_acquired c rs)) = phase c" for rs c
    by (induction rs arbitrary: c) (simp_all add: one)
  then show "phase (fst (unwind rs c)) = phase c" by (simp add: unwind_def)
qed

lemma fits_unwound:
  "fits ps c \<Longrightarrow> fits {} (fst (unwind [ClientAcquired, BridgeAcquired] c))"
  "fits ps c \<Longrightarrow> fits {} (fst (unwind [ClientAcquired, BridgeAcquired, ListenerAcquired] c))"
  "fits ps c \<Longrightarrow> fits {} (fst (unwind [ClientAcquired, BridgeAcquired, ListenerAcquired, ForwarderAcquired] c))"
  using fits_dispose [of ps] by (simp_all add: unwind_def)

lemma fits_fatal [simp]:
  "fits ps c \<Longrightarrow> fits ps (fst (send_fatal_and_close code n c))" "fits ps c \<Longrightarrow> fits ps (fst (close_for_upstream reason c))"
  using steady_basic(6,7) by (simp_all add: steady_def)

lemma live_fatal [simp]:
  "live_peer (fst (send_fatal_and_close code n c)) = live_peer c" "live_peer (fst (close_for_upstream reason c)) = live_peer c"
  "live_peer (fst (unwind rs c)) = live_peer c"
  by (rule flags_cong; simp)+

lemma flow_wire:
  assumes b: "fits {q} (c\<lparr>connBridge := Some b\<rparr>)" and dead: "live_peer c = None"
  shows "flow_inv (fst (wire_client b q upstream attaches c))"
proof -
  let ?c = "c\<lparr>connBridge := Some b, listening := True\<rparr>"
  have f: "fits {q} ?c" "fits {q} (?c\<lparr>forwarding := True\<rparr>)" using b by (simp_all add: fits_def)
  have d: "live_peer ?c = None" "live_peer (?c\<lparr>forwarding := True\<rparr>) = None" using dead by (simp_all add: live_peer_def)
  have "flow_inv (fst (enter_running q (?c\<lparr>forwarding := True\<rparr>)))"
  proof -
    let ?r = "(?c\<lparr>forwarding := True, phase := RunningPhase q\<rparr>)"
    have "fits {q} ?r" using f by (simp add: fits_def)
    then have w: "fits {q} (fst (ws_send (SendWelcome l) ?r))" for l using steady_basic(2) by (simp add: steady_def)
    have "live_peer (fst (enter_running q (?c\<lparr>forwarding := True\<rparr>))) = Some q"
      by (simp add: enter_running_def live_peer_def)
    moreover have "fits {q} (fst (enter_running q (?c\<lparr>forwarding := True\<rparr>)))"
      using w by (simp add: enter_running_def fits_def)
    ultimately show ?thesis by (simp add: flow_inv_def own_peers_def)
  qed
  then show ?thesis
    using f d fits_unwound
    by (auto simp: wire_client_def flow_inv_def own_peers_def split: connection_state.split)
qed

lemma flow_created:
  assumes inv: "flow_inv c" and "helloTask c \<noteq> None \<Longrightarrow> live_peer c = None"
  shows "flow_inv (fst (on_client_created res c))"
proof (cases "helloTask c = Some AwaitingClient")
  case True
  let ?c = "c\<lparr>helloTask := None\<rparr>"
  have dead: "live_peer ?c = None" "own_peers c = {}" using assms(2) True by (auto simp: live_peer_def own_peers_def)
  then have f: "fits {} ?c" using inv by (simp add: flow_inv_def)
  have u: "fits {} (fst (unwind [ClientAcquired] ?c))" using f by (simp add: fits_def unwind_def)
  show ?thesis
  proof (cases res)
    case CreateFailed
    then show ?thesis using True f dead by (simp add: on_client_created_def Let_def flow_dead)
  next
    case (Created upstream attaches)
    show ?thesis
    proof (cases "is_tearing_down ?c")
      case tearing: True
      then show ?thesis using True u dead Created by (simp add: on_client_created_def Let_def flow_dead)
    next
      case alive: False
      show ?thesis
      proof (cases "create_bridge (optHighWatermark (connOptions c)) (optLowWatermark (connOptions c)) False")
        case (Inl e)
        then show ?thesis using True u dead Created alive by (simp add: on_client_created_def Let_def flow_dead)
      next
        case bridge: (Inr b)
        note ok = create_bridge_ok [OF bridge] create_bridge_ledger [OF bridge]
        then obtain b' where r: "bridge_register_peer b = Inr (b', nextPeerId b)" "bridge_ok b'" "peers_of b' = {nextPeerId b}"
          using bridge_register_ok [of b] by auto
        then have "fits {nextPeerId b} (?c\<lparr>connBridge := Some b'\<rparr>)"
          using register_ledger [OF r(1)] ok by (simp add: fits_def)
        then have "flow_inv (fst (wire_client b' (nextPeerId b) upstream attaches ?c))"
          using dead by (intro flow_wire)
        then show ?thesis using True Created alive bridge r(1) by (simp add: on_client_created_def Let_def)
      qed
    qed
  qed
qed (simp add: on_client_created_def inv)

text \<open>Everything else leaves the bridge its peer.\<close>

lemma steady_calls:
  "steady c (route_call now i m args c)" "steady c (on_authorized now task res c)"
  "steady c (on_outcome now task answer c)" "steady c (on_call_timer now timer c)"
proof -
  have field: "steady c (f (c\<lparr>rateWindow := w\<rparr>))" if "\<And>c. steady c (f c)" for f :: "conn \<Rightarrow> conn \<times> server_effect list" and w c
    using that [of "c\<lparr>rateWindow := w\<rparr>"] by (rule steady_from) simp
  have "steady c (on_call now q i m args c)" for q
    by (auto simp: on_call_def Let_def case_prod_beta field steady_same)
  then show "steady c (route_call now i m args c)"
    by (simp add: route_call_def split: conn_phase.split)
  have dispatch: "steady c (dispatch_bridge_call task q call c)" for c q call
    by (cases call) simp_all
  show "steady c (on_authorized now task res c)"
  proof (cases "\<exists>q i m args. map_of (authorizing c) task = Some (q, CallFrame i m args)")
    case True
    then obtain q i m args where t: "map_of (authorizing c) task = Some (q, CallFrame i m args)" by blast
    have run: "steady c' (before (\<lambda>c. (c\<lparr>callPump := p c, dispatching := d c\<rparr>, [])) (dispatch_bridge_call task q call) c')" for c' p d call
      by (rule steady_before, simp add: steady_same, rule dispatch)
    have "steady (c\<lparr>authorizing := AList.delete task (authorizing c)\<rparr>) (on_authorized now task res c)"
      unfolding on_authorized_def t option.case prod.case client_frame.case
      by (rule steady_before) (simp_all add: run Let_def split: authorize_result.split sum.split)
    then show ?thesis by (rule steady_from) simp
  next
    case False
    then have "on_authorized now task res c = (c, [])"
      unfolding on_authorized_def by (auto simp del: map_of_eq_Some_iff split: option.split client_frame.split)
    then show ?thesis by simp
  qed
  have encode: "steady c (encode_outcome i outcome d c)" for c i outcome d
    unfolding encode_outcome_def by (cases outcome) (auto intro!: steady_before)
  show "steady c (on_outcome now task answer c)"
  proof (cases "map_of (dispatching c) task")
    case (Some i)
    have "steady (c\<lparr>dispatching := AList.delete task (dispatching c), callPump := fst (pump_complete i (callPump c))\<rparr>)
        (on_outcome now task answer c)"
      using Some by (auto simp: on_outcome_def Let_def case_prod_beta encode split: list.split pump_effect.split)
    then show ?thesis by (rule steady_from) simp
  qed (simp add: on_outcome_def)
  have "steady (c\<lparr>callPump := fst (pump_timer_fires timer (callPump c))\<rparr>) (on_call_timer now timer c)"
    by (auto simp: on_call_timer_def Let_def case_prod_beta intro!: steady_before split: list.split pump_effect.split)
  then show "steady c (on_call_timer now timer c)" by (rule steady_from) simp
qed

lemma steady_events:
  "steady c (on_upstream_event ev c)" "steady c (on_byte_output msg c)" "steady c (on_heartbeat_tick c)"
proof -
  have w: "steady c (on_wire_event ev c)"
    by (auto simp: on_wire_event_def intro!: steady_before split: option.split)
  then show "steady c (on_upstream_event ev c)"
    by (auto simp: on_upstream_event_def split: emitter_message.split connection_state.split)
  show "steady c (on_byte_output msg c)"
    by (auto simp: on_byte_output_def Let_def intro!: steady_before split: option.split)
  show "steady c (on_heartbeat_tick c)"
    unfolding on_heartbeat_tick_def Let_def case_prod_beta by (rule steady_before) (simp_all add: steady_same)
qed

lemma steady_hello: "steady c (on_hello c)" "steady c (on_authenticated res c)"
proof -
  show "steady c (on_hello c)" by (simp add: on_hello_def steady_same)
  have "steady (c\<lparr>helloTask := None\<rparr>) (on_authenticated res c)" if "helloTask c = Some AwaitingAuth"
    using that by (auto simp: on_authenticated_def Let_def steady_same split: auth_result.split)
  then show "steady c (on_authenticated res c)"
    by (cases "helloTask c = Some AwaitingAuth") (auto simp: on_authenticated_def intro: steady_from)
qed

lemma steady_message: "steady c (on_ws_message now m c)"
proof -
  have "steady c (not_open c, [CloseWs 1000])" by (simp add: not_open_def steady_same)
  then have "steady c (dispatch_frame now f c)" for f
    using steady_hello steady_calls by (cases f) (simp_all add: dispatch_frame_def)
  moreover have "steady c (before (just_emit [Observe ObsProtocolError]) (send_fatal_and_close BRIDGE_PROTOCOL_ERROR 1011) c)"
    by (rule steady_before) simp_all
  ultimately show ?thesis by (simp add: on_ws_message_def on_frame_def split: client_message.split sum.split)
qed

fun refuses_continue :: "conn_op \<Rightarrow> bool" where
  "refuses_continue (BridgeAnswer op) = (\<not> continues_work op)"
| "refuses_continue op = False"

lemma live_same: "phase c' = phase c \<Longrightarrow> live_peer c' = live_peer c"
  by (rule flags_cong)

lemma flow_inv_step:
  assumes inv: "flow_inv c" and res: "resource_inv effs c" and op: "\<not> refuses_continue op"
  shows "flow_inv (fst (conn_step c op))"
proof (cases op)
  case (MessageArrives now m)
  have "live_peer (fst (on_ws_message now m c)) = live_peer c"
  proof (cases "connection_closed c")
    case False
    have bye: "live_peer (not_open c) = live_peer c" by (rule live_same) simp
    have hello: "live_peer (fst (on_hello c)) = live_peer c"
      by (auto simp: on_hello_def live_peer_def)
    have "live_peer (fst (dispatch_frame now f c)) = live_peer c" for f
      using calm_live [OF calm_route] bye hello
      by (cases f) (auto simp: dispatch_frame_def intro: live_same)
    then show ?thesis by (simp add: on_ws_message_def on_frame_def split: client_message.split sum.split)
  qed (simp add: on_ws_message_def)
  then show ?thesis using flow_steady [OF inv steady_message] MessageArrives by simp
next
  case HelloTimeout
  have "steady c (send_fatal_and_close BRIDGE_PROTOCOL_ERROR 1011 (c\<lparr>helloDeadline := False\<rparr>))"
    using steady_basic(6) by (rule steady_from) simp
  then have "steady c (on_hello_timeout c)" by (simp add: on_hello_timeout_def)
  then show ?thesis using flow_steady [OF inv] HelloTimeout by (simp add: on_hello_timeout_def live_peer_def)
next
  case (Authenticated r)
  have "live_peer (fst (on_authenticated r c)) = live_peer c"
    by (auto simp: on_authenticated_def Let_def intro: live_same split: auth_result.split)
  then show ?thesis using flow_steady [OF inv steady_hello(2)] Authenticated by simp
next
  case (ClientCreated r)
  have "helloTask c \<noteq> None \<Longrightarrow> live_peer c = None"
    using res by (auto simp: resource_inv_def resource_trace_def live_peer_def split: conn_phase.splits)
  then show ?thesis using flow_created [OF inv] ClientCreated by simp
next
  case HeartbeatDeadline
  let ?c = "c\<lparr>connBeat := fst (heartbeat_deadline (connBeat c))\<rparr>"
  have "flow_inv ?c" using inv by (simp add: flow_inv_def own_peers_def live_peer_def fits_def)
  moreover from this have "flow_inv (fst (send_fatal_and_close code n ?c))" for code n
    by (rule flow_steady) simp_all
  ultimately show ?thesis
    using HeartbeatDeadline flow_terminate
    by (simp add: on_heartbeat_deadline_def on_pong_deadline_def Let_def case_prod_beta split: option.split)
next
  case PongArrives
  then show ?thesis using inv by (simp add: flow_inv_def own_peers_def live_peer_def fits_def)
next
  case (SocketIs s)
  then show ?thesis using inv by (simp add: flow_inv_def own_peers_def live_peer_def fits_def)
next
  case (UpstreamEvent ev)
  have "live_peer (fst (on_upstream_event ev c)) = live_peer c"
  proof (cases "connection_closed c")
    case False
    then show ?thesis using calm_live calm_events(1) by blast
  next
    case True
    have "live_peer (fst (on_wire_event ev c)) = live_peer c" using calm_live calm_events(3) by blast
    then show ?thesis by (auto simp: on_upstream_event_def split: emitter_message.split connection_state.split)
  qed
  then show ?thesis using flow_steady [OF inv steady_events(1)] inv UpstreamEvent by simp
next
  case (BridgeAnswer bop)
  have "answers_bridge bop \<Longrightarrow> keeps_peers bop" by (cases bop) simp_all
  then show ?thesis
    using flow_steady [OF inv steady_op [of bop]] op inv BridgeAnswer by simp
next
  case (BeginDrain d)
  show ?thesis
  proof (cases "phase c")
    case (RunningPhase q)
    let ?c = "c\<lparr>phase := DrainingPhase q d\<rparr>"
    have "flow_inv ?c" using inv RunningPhase by (simp add: flow_inv_def own_peers_def live_peer_def fits_def)
    then have "flow_inv (fst (ws_send (SendDraining d) ?c))"
      by (rule flow_steady) (simp, rule live_same, simp)
    then show ?thesis using BeginDrain RunningPhase by (simp add: begin_drain_def)
  qed (simp_all add: BeginDrain begin_drain_def inv)
qed (use inv flow_calm [OF inv steady_calls(2) calm_authorized] flow_calm [OF inv steady_calls(3) calm_outcome]
      flow_calm [OF inv steady_calls(4) calm_call_timer] flow_calm [OF inv steady_events(3) calm_tick]
      flow_calm [OF inv steady_events(2) calm_events(2)] flow_finalize flow_terminate
    in \<open>simp_all add: terminate_def\<close>)

lemma flow_inv_run:
  "flow_inv c \<Longrightarrow> resource_inv effs c \<Longrightarrow> list_all (\<lambda>op. \<not> refuses_continue op) ops \<Longrightarrow>
   flow_inv (fst (run_steps conn_step c ops))
   \<and> resource_inv (effs @ snd (run_steps conn_step c ops)) (fst (run_steps conn_step c ops))"
proof (induction ops arbitrary: effs c)
  case (Cons op ops)
  have op: "\<not> refuses_continue op" and rest: "list_all (\<lambda>op. \<not> refuses_continue op) ops"
    using Cons.prems(3) by simp_all
  from Cons.IH [OF flow_inv_step [OF Cons.prems(1,2) op] resource_step [OF Cons.prems(2)] rest]
  show ?case by simp
qed simp

subsection \<open>A drained buffer resumes the panes\<close>

text \<open>Every paused pane has its Continue in flight.\<close>

definition all_resuming :: "conn \<Rightarrow> bool" where
  "all_resuming c \<longleftrightarrow>
     (case connBridge c of
        None \<Rightarrow> True
      | Some b \<Rightarrow> list_all (\<lambda>(p, flow). resuming flow) (pausedPanes (flowLedger b))
          \<and> list_all (\<lambda>(q, m). m = []) (outstandingBytes (flowLedger b)))"

definition drained :: "conn \<Rightarrow> bool" where
  "drained c \<longleftrightarrow> live_peer c \<noteq> None
     \<and> (case sockBuffered (connSocket c) of None \<Rightarrow> False | Some n \<Rightarrow> n \<le> low_watermark c)"

lemma cleared_resuming:
  assumes ok: "ledger_ok l" and one: "flow_roster l = {q}"
  shows "list_all (\<lambda>(p, flow). resuming flow) (pausedPanes (fst (clear_peer q l)))"
    and "list_all (\<lambda>(q, m). m = []) (outstandingBytes (fst (clear_peer q l)))"
proof -
  let ?l = "fst (clear_peer q l)"
  have flows: "flows_ok l" "flows_ok ?l" and wait: "waiting_for_drain {} ?l" and counts: "counts_ok (outstandingBytes ?l)"
    using ok clear_peer_ok [OF ok, of q] by (simp_all add: ledger_ok_def)
  have "map_of (outstandingBytes l) q \<noteq> None" using one by (auto simp: flow_roster_def domIff)
  then have bytes: "map_of (outstandingBytes ?l) r = (if r = q then Some [] else None)" for r
    using clear_peer_bytes [OF flows(1), of q] one by (auto simp: flow_roster_def domIff)
  have empty: "m = []" if "(r, m) \<in> set (outstandingBytes ?l)" for r m
  proof -
    have "distinct (map fst (outstandingBytes ?l))" using counts by (simp add: counts_ok_def)
    then have "map_of (outstandingBytes ?l) r = Some m" using that by (rule map_of_is_SomeI)
    then show "m = []" using bytes [of r] by (auto split: if_splits)
  qed
  then show "list_all (\<lambda>(q, m). m = []) (outstandingBytes ?l)" by (auto simp: list_all_iff)
  have zero: "map (\<lambda>x. pane_bytes p (snd x)) (outstandingBytes ?l) = map (\<lambda>x. 0) (outstandingBytes ?l)" for p
    using empty by (force simp: pane_bytes_def)
  have "pane_total p (outstandingBytes ?l) = 0" for p
    unfolding pane_total_def zero by (simp add: sum_list_triv)
  moreover have "0 \<le> low ?l" using flows(2) by (simp add: flows_ok_def)
  moreover have "map_of (pausedPanes ?l) p = Some flow" if "(p, flow) \<in> set (pausedPanes ?l)" for p flow
    using that flows(2) by (auto simp: flows_ok_def intro: map_of_is_SomeI)
  ultimately show "list_all (\<lambda>(p, flow). resuming flow) (pausedPanes ?l)"
    using wait by (fastforce simp: waiting_for_drain_def list_all_iff)
qed

lemma flush_resumes:
  assumes "flow_inv c" and "drained c"
  shows "all_resuming (fst (maybe_flush_buffered c))"
proof -
  obtain q n where q: "live_peer c = Some q" "sockBuffered (connSocket c) = Some n" "n \<le> low_watermark c"
    using assms(2) by (auto simp: drained_def split: option.splits)
  then obtain b where b: "connBridge c = Some b" "bridge_ok b" "ledger_ok (flowLedger b)" "peers_of b = {q}"
    using assms(1) by (auto simp: flow_inv_def own_peers_def fits_def split: option.splits)
  then have "flow_roster (flowLedger b) = {q}" by (simp add: bridge_ok_def peers_of_def)
  from cleared_resuming [OF b(3) this] show ?thesis
    using q b by (simp add: maybe_flush_buffered_def on_bridge_def clear_peer_outstanding_def on_flow_def
        case_prod_beta all_resuming_def)
qed

text \<open>
  C17. A drained buffer leaves no pane behind. After any history in which a live tmux refuses no
  Continue, whenever the socket reports a send buffer at or below the low watermark, each frame
  sent and each tick of the running heartbeat leaves nothing outstanding and a Continue in
  flight for every paused pane: an idle connection resumes its panes by its heartbeat alone.
\<close>

theorem drained_buffer_resumes:
  assumes "list_all (\<lambda>op. \<not> refuses_continue op) ops"
    and "drained (fst (run_steps conn_step (new_conn opts defaults s) ops))"
  shows "let c = fst (run_steps conn_step (new_conn opts defaults s) ops) in
     all_resuming (if socket_open c \<and> sockSends (connSocket c) then fst (ws_send frame c) else fst (maybe_flush_buffered c))
     \<and> all_resuming (if running (connBeat c) then fst (conn_step c HeartbeatTick) else fst (maybe_flush_buffered c))"
proof -
  let ?c = "fst (run_steps conn_step (new_conn opts defaults s) ops)"
  have "flow_inv (new_conn opts defaults s)"
    by (simp add: flow_inv_def own_peers_def live_peer_def new_conn_def fits_def)
  then have inv: "flow_inv ?c" using flow_inv_run [OF _ new_conn_resources assms(1)] by blast
  have beat: "all_resuming (c\<lparr>connBeat := h\<rparr>) = all_resuming c" for c h by (simp add: all_resuming_def)
  show ?thesis
    using flush_resumes [OF inv assms(2)]
    by (auto simp: Let_def ws_send_def on_heartbeat_tick_def heartbeat_tick_def case_prod_beta beat)
qed

definition small_watermarks :: server_options where
  "small_watermarks = example_options\<lparr>optHighWatermark := Some 10, optLowWatermark := Some 5\<rparr>"

definition paused_history :: "conn_op list" where
  "paused_history = example_hello @
     [SocketIs (open_socket_view\<lparr>sockBuffered := Some 100\<rparr>),
      ByteOutput \<lparr>chunkPane = Num 3, chunkData = replicate 20 0\<rparr>, SocketIs open_socket_view]"

lemma paused_history_pauses:
  "let c = fst (run_steps conn_step (new_conn small_watermarks example_defaults open_socket_view) paused_history) in
     list_all (\<lambda>op. \<not> refuses_continue op) paused_history \<and> drained c \<and> \<not> all_resuming c \<and> running (connBeat c)"
  by code_simp

theorem drained_buffer_resumes_witness:
  "let c = fst (run_steps conn_step (new_conn small_watermarks example_defaults open_socket_view) paused_history) in
     \<not> all_resuming c
     \<and> all_resuming (if running (connBeat c) then fst (conn_step c HeartbeatTick) else fst (maybe_flush_buffered c))"
  using paused_history_pauses
    drained_buffer_resumes [of paused_history small_watermarks example_defaults open_socket_view "SendPong []"]
  by (simp add: Let_def)

subsection \<open>Shutting down\<close>

definition traceable :: "conn \<Rightarrow> bool" where
  "traceable c \<longleftrightarrow> (\<exists>effs. resource_inv effs c)"

lemma traceable_step: "traceable c \<Longrightarrow> traceable (fst (conn_step c op))"
  using resource_step by (auto simp: traceable_def)

lemma closed_step: "traceable c \<Longrightarrow> connection_closed c \<Longrightarrow> connection_closed (fst (conn_step c op))"
proof -
  assume c: "connection_closed c" and "traceable c"
  then obtain effs where r: "resource_inv effs c" by (auto simp: traceable_def)
  then show ?thesis using c closed_done [OF r] closed_done [OF resource_step [OF r, of op]] by simp
qed

lemma terminate_closes: "connection_closed (fst (terminate c))"
  by (simp add: terminate_def terminate_with_def finalize_def Let_def connection_closed_def
      split: conn_phase.split)

definition all_traceable :: "ws_bridge \<Rightarrow> bool" where
  "all_traceable b \<longleftrightarrow> list_all (\<lambda>(i, c). traceable c) (connections b)"

definition ended_conn :: "conn \<Rightarrow> bool" where
  "ended_conn c \<longleftrightarrow> traceable c \<and> connection_closed c"

lemma ended_step: "ended_conn c \<Longrightarrow> ended_conn (fst (conn_step c op))"
  using traceable_step closed_step by (simp add: ended_conn_def)

definition shut_down :: "ws_bridge \<Rightarrow> bool" where
  "shut_down b \<longleftrightarrow> bridgeDraining b \<and> list_all (\<lambda>(i, c). ended_conn c) (connections b)"

lemma update_all:
  "list_all (\<lambda>(i, c). P c) al \<Longrightarrow> P c' \<Longrightarrow> list_all (\<lambda>(i, c). P c) (AList.update i c' al)"
  by (induction al) auto

lemma delete_all: "list_all (\<lambda>(i, c). P c) al \<Longrightarrow> list_all (\<lambda>(i, c). P c) (AList.delete i al)"
  by (induction al) auto

lemma lookup_all: "list_all (\<lambda>(i, c). P c) al \<Longrightarrow> map_of al i = Some c \<Longrightarrow> P c"
  by (induction al) (auto split: if_splits)

lemma each_all: "list_all (\<lambda>(i, c). P c) al \<Longrightarrow> (\<And>c. P c \<Longrightarrow> Q (fst (f c))) \<Longrightarrow>
    list_all (\<lambda>(i, c). Q c) (map (\<lambda>(i, c). (i, fst (f c))) al)"
  by (induction al) auto

lemma drain_traceable: "traceable c \<Longrightarrow> traceable (fst (begin_drain d c))"
  using traceable_step [of c "BeginDrain d"] by simp

lemma terminate_traceable: "traceable c \<Longrightarrow> traceable (fst (terminate c))"
  using traceable_step [of c Terminate] by simp

interpretation served: invariant_steps ws_bridge_step all_traceable
proof
  fix b op
  assume inv: "all_traceable b"
  show "all_traceable (fst (ws_bridge_step b op))"
  proof (cases op)
    case (AcceptSocket s)
    have "traceable (new_conn (bridgeOptions b) (bridgeDefaults b) s)"
      using new_conn_resources by (auto simp: traceable_def)
    then show ?thesis using inv AcceptSocket by (simp add: handle_connection_def all_traceable_def)
  next
    case (OnConnection i cop)
    show ?thesis
    proof (cases "map_of (connections b) i")
      case (Some c)
      then have "traceable (fst (conn_step c cop))"
        using inv lookup_all [of traceable "connections b" i c] traceable_step by (simp add: all_traceable_def)
      then show ?thesis
        using inv Some update_all [of traceable "connections b"] OnConnection
        by (simp add: all_traceable_def case_prod_beta del: conn_step.simps map_of_eq_Some_iff)
    qed (simp add: OnConnection inv)
  next
    case (BeginShutdown d now)
    then show ?thesis
      using inv each_all [of traceable "connections b" traceable] drain_traceable
      by (auto simp: begin_shutdown_def on_each_def all_traceable_def split: sum.split)
  next
    case EndShutdown
    then show ?thesis
      using inv each_all [of traceable "connections b" traceable terminate] terminate_traceable
      by (simp add: end_shutdown_def on_each_def all_traceable_def)
  next
    case (ForgetClosed i)
    then show ?thesis using inv delete_all [of traceable] by (auto simp: all_traceable_def split: option.split)
  qed
qed

interpretation shut: terminal_steps ws_bridge_step shut_down
proof
  fix b op
  assume inv: "shut_down b"
  show "shut_down (fst (ws_bridge_step b op))"
  proof (cases op)
    case (OnConnection i cop)
    show ?thesis
    proof (cases "map_of (connections b) i")
      case (Some c)
      then have "ended_conn (fst (conn_step c cop))"
        using inv lookup_all [of ended_conn "connections b" i c] ended_step by (simp add: shut_down_def)
      then show ?thesis
        using inv Some update_all [of ended_conn "connections b"] OnConnection
        by (simp add: shut_down_def case_prod_beta del: conn_step.simps map_of_eq_Some_iff)
    qed (simp add: OnConnection inv)
  next
    case (BeginShutdown d now)
    have "ended_conn c \<Longrightarrow> ended_conn (fst (begin_drain e c))" for c e
      using ended_step [of c "BeginDrain e"] by simp
    then have "list_all (\<lambda>(i, c). ended_conn c) (map (\<lambda>(i, c). (i, fst (begin_drain e c))) (connections b))" for e
      using inv each_all [of ended_conn "connections b" ended_conn "begin_drain e"] by (simp add: shut_down_def)
    then show ?thesis
      using BeginShutdown inv
      by (auto simp: begin_shutdown_def on_each_def shut_down_def split: sum.split)
  next
    case EndShutdown
    have "ended_conn c \<Longrightarrow> ended_conn (fst (terminate c))" for c
      using ended_step [of c Terminate] by simp
    then show ?thesis
      using EndShutdown inv each_all [of ended_conn "connections b" ended_conn terminate]
      by (simp add: end_shutdown_def on_each_def shut_down_def)
  next
    case (ForgetClosed i)
    then show ?thesis using inv delete_all [of ended_conn] by (auto simp: shut_down_def split: option.split)
  qed (use inv in \<open>simp add: handle_connection_def shut_down_def\<close>)
qed

lemma shut_keeps_ids:
  "shut_down b \<Longrightarrow> fst ` set (connections (fst (run_steps ws_bridge_step b ops))) \<subseteq> fst ` set (connections b)"
proof (induction ops arbitrary: b)
  case (Cons op ops)
  have "fst ` set (connections (fst (ws_bridge_step b op))) \<subseteq> fst ` set (connections b)"
  proof (cases op)
    case (OnConnection i cop)
    have "map_of (connections b) i = Some c \<Longrightarrow> i \<in> fst ` set (connections b)" for c
      by (force dest: map_of_SomeD)
    then show ?thesis using OnConnection by (auto simp: case_prod_beta dom_update split: option.split simp del: conn_step.simps)
  next
    case (BeginShutdown d now)
    have "fst ` (\<lambda>(i, c). (i, fst (f c))) ` A = fst ` A" for f :: "conn \<Rightarrow> conn \<times> server_effect list" and A :: "(nat \<times> conn) set"
      by force
    then show ?thesis using BeginShutdown by (simp add: begin_shutdown_def on_each_def split: sum.split)
  next
    case EndShutdown
    have "fst ` (\<lambda>(i, c). (i, fst (f c))) ` A = fst ` A" for f :: "conn \<Rightarrow> conn \<times> server_effect list" and A :: "(nat \<times> conn) set"
      by force
    then show ?thesis using EndShutdown by (simp add: end_shutdown_def on_each_def)
  next
    case (ForgetClosed i)
    have "fst ` set (AList.delete i al) \<subseteq> fst ` set al" for al :: "(nat \<times> conn) list"
      by (induction al) auto
    then show ?thesis using ForgetClosed by (auto split: option.split)
  qed (use Cons.prems in \<open>simp add: handle_connection_def shut_down_def\<close>)
  then show ?case using Cons.IH [OF shut.step_ended [OF Cons.prems, of op]] by auto
qed simp

text \<open>
  A shutdown is final. From any state, after \<open>shutdown\<close> with a valid wait has run to its end,
  every connection the bridge holds is closed, and stays closed whatever happens next; and no
  connection is ever added again, since every further socket is told so and closed.
\<close>

theorem shutdown_is_final:
  "let b = fst (run_steps ws_bridge_step (create_ws_bridge opts defaults) before_it);
       ended = fst (run_steps ws_bridge_step b (BeginShutdown (Finite 10000) now # meanwhile @ [EndShutdown]));
       later = fst (run_steps ws_bridge_step ended after_it)
   in list_all (\<lambda>(i, c). connection_closed c) (connections ended)
      \<and> list_all (\<lambda>(i, c). connection_closed c) (connections later)
      \<and> fst ` set (connections later) \<subseteq> fst ` set (connections ended)
      \<and> snd (ws_bridge_step later (AcceptSocket s)) = map (Pair None) (send_fatal BRIDGE_CLOSED s @ [CloseWs 1001])"
proof -
  let ?b = "fst (run_steps ws_bridge_step (create_ws_bridge opts defaults) before_it)"
  let ?m = "fst (run_steps ws_bridge_step ?b (BeginShutdown (Finite 10000) now # meanwhile))"
  let ?e = "fst (ws_bridge_step ?m EndShutdown)"
  have "all_traceable ?b" by (rule served.run_keeps) (simp add: all_traceable_def create_ws_bridge_def)
  then have m: "all_traceable ?m" by (rule served.run_keeps)
  have "bridgeDraining (fst (ws_bridge_step b (BeginShutdown (Finite 10000) now)))" for b
    by (simp add: begin_shutdown_def parse_duration_ms_def option_parser_def is_duration_ms_def is_integer_def
        int_of_def duration_max_ms_def on_each_def)
  moreover have "bridgeDraining b \<Longrightarrow> bridgeDraining (fst (ws_bridge_step b op))" for b op
    by (cases op) (auto simp: handle_connection_def begin_shutdown_def end_shutdown_def on_each_def case_prod_beta
        simp del: conn_step.simps split: option.split sum.split)
  then have "bridgeDraining b \<Longrightarrow> bridgeDraining (fst (run_steps ws_bridge_step b ops))" for b ops
    by (induction ops arbitrary: b) simp_all
  ultimately have d: "bridgeDraining ?m" by simp
  have e: "shut_down ?e"
    using m d each_all [of traceable "connections ?m" ended_conn terminate]
      terminate_traceable terminate_closes
    by (simp add: ended_conn_def end_shutdown_def on_each_def shut_down_def all_traceable_def)
  then have l: "shut_down (fst (run_steps ws_bridge_step ?e after_it))" by (rule shut.run_keeps)
  have run: "fst (run_steps ws_bridge_step ?b (BeginShutdown (Finite 10000) now # meanwhile @ [EndShutdown])) = ?e"
    by simp
  show ?thesis
    unfolding Let_def run
    using e l shut_keeps_ids [OF e, of after_it]
    by (auto simp: shut_down_def ended_conn_def handle_connection_def list_all_iff)
qed

end
