(* ===== verification/Keymap.thy ===== *)
theory Keymap
  imports Prelude
begin

section \<open>The keymap: chords, the engine and its binding to a client\<close>

text \<open>
  \<open>src/keymap/key-event.ts\<close>, \<open>engine.ts\<close>, \<open>bind.ts\<close>, \<open>actions.ts\<close> and
  \<open>default-keymap.ts\<close>: the chord notation, the two-mode state machine that reads key
  events, and the table from actions to tmux commands. The source compares states by
  reference: the root state is one shared object, and a prefix object is created only on
  the way out of root, so a reference changes exactly when the mode does.
\<close>

subsection \<open>Key events and chords\<close>

record key_event =
  key :: string
  ctrl :: bool
  alt :: bool
  shift :: bool
  meta :: bool

definition shift_is_implicit :: "string \<Rightarrow> bool" where
  "shift_is_implicit k \<longleftrightarrow>
     length k = 1 \<and>
     \<not> list_ex (\<lambda>c. (97 \<le> code_of c \<and> code_of c \<le> 122) \<or> is_digit c) k"

definition keys_equal :: "key_event \<Rightarrow> key_event \<Rightarrow> bool" where
  "keys_equal a b =
     (let shiftImplicit = shift_is_implicit (key a) \<or> shift_is_implicit (key b) in
      key a = key b \<and> ctrl a = ctrl b \<and> alt a = alt b \<and>
      (shiftImplicit \<or> shift a = shift b) \<and> meta a = meta b)"

definition KEY_ALIASES :: "(string \<times> string) list" where
  "KEY_ALIASES =
     [(''Up'', ''ArrowUp''), (''Down'', ''ArrowDown''), (''Left'', ''ArrowLeft''),
      (''Right'', ''ArrowRight''), (''PgUp'', ''PageUp''), (''PgDn'', ''PageDown''),
      (''Space'', '' ''), (''BSpace'', ''Backspace'')]"

definition key_name :: "string \<Rightarrow> string" where
  "key_name rest = (case map_of KEY_ALIASES rest of None \<Rightarrow> rest | Some k \<Rightarrow> k)"

text \<open>The loop of \<open>parseChord\<close>: peel one \<open>X-\<close> prefix per iteration.\<close>

fun peel_modifiers :: "key_event \<Rightarrow> string \<Rightarrow> key_event" where
  "peel_modifiers e (p # d # rest) =
     (if d \<noteq> CHR ''-'' then e\<lparr>key := key_name (p # d # rest)\<rparr>
      else if p = CHR ''C'' then peel_modifiers (e\<lparr>ctrl := True\<rparr>) rest
      else if p = CHR ''M'' then peel_modifiers (e\<lparr>alt := True\<rparr>) rest
      else if p = CHR ''S'' then peel_modifiers (e\<lparr>shift := True\<rparr>) rest
      else if p = CHR ''D'' then peel_modifiers (e\<lparr>meta := True\<rparr>) rest
      else e\<lparr>key := key_name (p # d # rest)\<rparr>)"
| "peel_modifiers e rest = e\<lparr>key := key_name rest\<rparr>"

definition parse_chord :: "string \<Rightarrow> key_event" where
  "parse_chord chord =
     peel_modifiers \<lparr>key = [], ctrl = False, alt = False, shift = False, meta = False\<rparr> chord"

subsection \<open>Actions\<close>

datatype orientation = Horizontal | Vertical

datatype direction = DirUp | DirDown | DirLeft | DirRight

datatype swap_direction = SwapNext | SwapPrevious

datatype action =
    NewWindow
  | NextWindow
  | PreviousWindow
  | LastWindow
  | SelectWindow jsnum
  | KillWindow
  | Split orientation
  | SelectPane direction
  | NextPane
  | KillPane
  | ZoomPane
  | BreakPane
  | SwapPane swap_direction
  | ResizePane direction jsnum
  | DetachClient
  | NextSession
  | PreviousSession
  | ChooseSession
  | CommandPrompt

subsection \<open>The engine\<close>

datatype keymap_state = RootMode | PrefixMode

record chord_binding =
  chord :: key_event
  bound_action :: action

record keymap =
  prefix_chord :: key_event
  bindings :: "chord_binding list"

record handle_result =
  result_state :: keymap_state
  result_actions :: "action list"
  handled :: bool

definition INITIAL_STATE :: keymap_state where
  "INITIAL_STATE = RootMode"

definition BARE_MODIFIER_KEYS :: "string list" where
  "BARE_MODIFIER_KEYS = [''Shift'', ''Control'', ''Alt'', ''Meta'']"

fun find_binding :: "key_event \<Rightarrow> chord_binding list \<Rightarrow> chord_binding option" where
  "find_binding event [] = None"
| "find_binding event (b # bs) =
     (if keys_equal (chord b) event then Some b else find_binding event bs)"

definition handle_key :: "key_event \<Rightarrow> keymap_state \<Rightarrow> keymap \<Rightarrow> handle_result" where
  "handle_key event state km =
     (let isBareModifier = key event \<in> set BARE_MODIFIER_KEYS;
          isPrefix = keys_equal event (prefix_chord km);
          matched = find_binding event (bindings km);
          inPrefixMode = state = PrefixMode;
          outcomes =
            [\<lparr>result_state = INITIAL_STATE,
              result_actions = (case matched of Some b \<Rightarrow> [bound_action b] | None \<Rightarrow> []),
              handled = True\<rparr>,
             \<lparr>result_state = INITIAL_STATE, result_actions = [], handled = True\<rparr>,
             \<lparr>result_state = PrefixMode, result_actions = [], handled = True\<rparr>,
             \<lparr>result_state = INITIAL_STATE, result_actions = [], handled = False\<rparr>,
             \<lparr>result_state = INITIAL_STATE, result_actions = [], handled = False\<rparr>,
             \<lparr>result_state = state, result_actions = [], handled = False\<rparr>];
          index =
            (if isBareModifier then 5
             else if inPrefixMode then
               (if matched \<noteq> None then 0 else if isPrefix then 4 else 1)
             else if isPrefix then 2 else 3)
      in outcomes ! index)"

subsection \<open>The binding layer\<close>

text \<open>
  A listener is the identity of its function. The effects of a key: listeners notified,
  then commands handed to the client, in order.
\<close>

datatype key_effect =
    NotifyState nat keymap_state
  | ExecuteCommand string
  | DetachCall

fun DIRECTION_FLAG :: "direction \<Rightarrow> string" where
  "DIRECTION_FLAG DirUp = ''U''"
| "DIRECTION_FLAG DirDown = ''D''"
| "DIRECTION_FLAG DirLeft = ''L''"
| "DIRECTION_FLAG DirRight = ''R''"

fun dispatch_action :: "action \<Rightarrow> key_effect" where
  "dispatch_action NewWindow = ExecuteCommand ''new-window''"
| "dispatch_action NextWindow = ExecuteCommand ''next-window''"
| "dispatch_action PreviousWindow = ExecuteCommand ''previous-window''"
| "dispatch_action LastWindow = ExecuteCommand ''last-window''"
| "dispatch_action (SelectWindow i) = ExecuteCommand (''select-window -t :'' @ num_str i)"
| "dispatch_action KillWindow = ExecuteCommand ''kill-window''"
| "dispatch_action (Split orient) =
     ExecuteCommand (''split-window -'' @ (if orient = Vertical then ''v'' else ''h''))"
| "dispatch_action (SelectPane d) = ExecuteCommand (''select-pane -'' @ DIRECTION_FLAG d)"
| "dispatch_action NextPane = ExecuteCommand ''select-pane -t :.+''"
| "dispatch_action KillPane = ExecuteCommand ''kill-pane''"
| "dispatch_action ZoomPane = ExecuteCommand ''resize-pane -Z''"
| "dispatch_action BreakPane = ExecuteCommand ''break-pane''"
| "dispatch_action (SwapPane d) =
     ExecuteCommand (''swap-pane -'' @ (if d = SwapNext then ''D'' else ''U''))"
| "dispatch_action (ResizePane d n) =
     ExecuteCommand (''resize-pane -'' @ DIRECTION_FLAG d @ '' '' @ num_str n)"
| "dispatch_action DetachClient = DetachCall"
| "dispatch_action NextSession = ExecuteCommand ''switch-client -n''"
| "dispatch_action PreviousSession = ExecuteCommand ''switch-client -p''"
| "dispatch_action ChooseSession = ExecuteCommand ''choose-tree -s''"
| "dispatch_action CommandPrompt = ExecuteCommand ''command-prompt''"

record keymap_binding =
  bound_keymap :: keymap
  key_state :: keymap_state
  state_listeners :: "nat list"

definition bind_keymap :: "keymap \<Rightarrow> keymap_binding" where
  "bind_keymap km = \<lparr>bound_keymap = km, key_state = INITIAL_STATE, state_listeners = []\<rparr>"

definition binding_handle_key ::
  "key_event \<Rightarrow> keymap_binding \<Rightarrow> keymap_binding \<times> key_effect list \<times> bool" where
  "binding_handle_key event b =
     (let prev = key_state b;
          result = handle_key event prev (bound_keymap b);
          state = result_state result
      in (b\<lparr>key_state := state\<rparr>,
          (if state \<noteq> prev then map (\<lambda>l. NotifyState l state) (state_listeners b) else []) @
          map dispatch_action (result_actions result),
          handled result))"

definition on_state_change :: "nat \<Rightarrow> keymap_binding \<Rightarrow> keymap_binding" where
  "on_state_change l b = b\<lparr>state_listeners := set_add l (state_listeners b)\<rparr>"

definition off_state_change :: "nat \<Rightarrow> keymap_binding \<Rightarrow> keymap_binding" where
  "off_state_change l b = b\<lparr>state_listeners := set_delete l (state_listeners b)\<rparr>"

subsection \<open>The default keymap\<close>

definition bind_chord :: "string \<Rightarrow> action \<Rightarrow> chord_binding" where
  "bind_chord c a = \<lparr>chord = parse_chord c, bound_action = a\<rparr>"

definition DEFAULT_BINDINGS :: "chord_binding list" where
  "DEFAULT_BINDINGS =
     [bind_chord ''c'' NewWindow, bind_chord ''n'' NextWindow, bind_chord ''p'' PreviousWindow,
      bind_chord ''l'' LastWindow, bind_chord ''&'' KillWindow] @
     map (\<lambda>i. bind_chord (nat_str i) (SelectWindow (Num (int i)))) [0..<10] @
     [bind_chord ''%'' (Split Horizontal), bind_chord [CHR 0x22] (Split Vertical),
      bind_chord ''o'' NextPane, bind_chord ''x'' KillPane, bind_chord ''z'' ZoomPane,
      bind_chord ''!'' BreakPane, bind_chord ''{'' (SwapPane SwapPrevious),
      bind_chord ''}'' (SwapPane SwapNext),
      bind_chord ''Up'' (SelectPane DirUp), bind_chord ''Down'' (SelectPane DirDown),
      bind_chord ''Left'' (SelectPane DirLeft), bind_chord ''Right'' (SelectPane DirRight),
      bind_chord ''C-Up'' (ResizePane DirUp (Num 5)), bind_chord ''C-Down'' (ResizePane DirDown (Num 5)),
      bind_chord ''C-Left'' (ResizePane DirLeft (Num 5)),
      bind_chord ''C-Right'' (ResizePane DirRight (Num 5)),
      bind_chord ''d'' DetachClient, bind_chord ''('' PreviousSession,
      bind_chord '')'' NextSession, bind_chord ''s'' ChooseSession,
      bind_chord '':'' CommandPrompt]"

definition default_tmux_keymap :: keymap where
  "default_tmux_keymap = \<lparr>prefix_chord = parse_chord ''C-b'', bindings = DEFAULT_BINDINGS\<rparr>"


subsection \<open>Chord notation\<close>

text \<open>The notation of a key event, and the events it can write.\<close>

definition chord_text :: "key_event \<Rightarrow> string" where
  "chord_text e =
     (if ctrl e then ''C-'' else []) @ (if alt e then ''M-'' else []) @
     (if shift e then ''S-'' else []) @ (if meta e then ''D-'' else []) @ key e"

definition plain_key :: "string \<Rightarrow> bool" where
  "plain_key k \<longleftrightarrow> key_name k = k \<and> (length k < 2 \<or> k ! 1 \<noteq> CHR ''-'')"

lemma peel_plain: "plain_key k \<Longrightarrow> peel_modifiers e k = e\<lparr>key := k\<rparr>"
  by (cases "(e, k)" rule: peel_modifiers.cases) (auto simp: plain_key_def)

lemma chord_roundtrip: "plain_key (key e) \<Longrightarrow> parse_chord (chord_text e) = e"
  by (cases e) (simp add: parse_chord_def chord_text_def peel_plain)

lemma keys_equal_equiv:
  "keys_equal a a" "keys_equal a b \<Longrightarrow> keys_equal b a"
  "keys_equal a b \<Longrightarrow> keys_equal b c \<Longrightarrow> keys_equal a c"
  by (auto simp: keys_equal_def Let_def)

subsection \<open>What a sequence of keys means\<close>

lemma find_binding_None:
  "find_binding e bs = None \<longleftrightarrow> list_all (\<lambda>b. \<not> keys_equal (chord b) e) bs"
  by (induction bs) auto

definition is_bare_modifier :: "key_event \<Rightarrow> bool" where
  "is_bare_modifier e \<longleftrightarrow> key e \<in> set BARE_MODIFIER_KEYS"

text \<open>The six rows of the contract of \<open>handleKey\<close>, as rewrite rules.\<close>

lemma handle_key_rows:
  "is_bare_modifier e \<Longrightarrow> handle_key e s km = \<lparr>result_state = s, result_actions = [], handled = False\<rparr>"
  "\<not> is_bare_modifier e \<Longrightarrow> keys_equal e (prefix_chord km) \<Longrightarrow>
     handle_key e RootMode km = \<lparr>result_state = PrefixMode, result_actions = [], handled = True\<rparr>"
  "\<not> is_bare_modifier e \<Longrightarrow> \<not> keys_equal e (prefix_chord km) \<Longrightarrow>
     handle_key e RootMode km = \<lparr>result_state = RootMode, result_actions = [], handled = False\<rparr>"
  "\<not> is_bare_modifier e \<Longrightarrow> find_binding e (bindings km) = Some b \<Longrightarrow>
     handle_key e PrefixMode km = \<lparr>result_state = RootMode, result_actions = [bound_action b], handled = True\<rparr>"
  "\<not> is_bare_modifier e \<Longrightarrow> find_binding e (bindings km) = None \<Longrightarrow>
     handle_key e PrefixMode km =
       \<lparr>result_state = RootMode, result_actions = [], handled = \<not> keys_equal e (prefix_chord km)\<rparr>"
  by (simp_all add: handle_key_def INITIAL_STATE_def is_bare_modifier_def Let_def)

datatype key_input = Key key_event | Listen nat | Unlisten nat

datatype key_output = Effect key_effect | Typed key_event

fun binding_step :: "keymap_binding \<Rightarrow> key_input \<Rightarrow> keymap_binding \<times> key_output list" where
  "binding_step b (Key e) =
     (let (b', effs, consumed) = binding_handle_key e b in
      (b', map Effect effs @ (if consumed then [] else [Typed e])))"
| "binding_step b (Listen l) = (on_state_change l b, [])"
| "binding_step b (Unlisten l) = (off_state_change l b, [])"

text \<open>
  The reading of a key sequence that needs no state: the modifiers that are pressed alone
  are skipped; the prefix takes the next key with it; any other key is typed.
\<close>

fun chords :: "keymap \<Rightarrow> key_event list \<Rightarrow> key_output list" where
  "chords km [] = []"
| "chords km [e] = (if keys_equal e (prefix_chord km) then [] else [Typed e])"
| "chords km (e # c # es) =
     (if keys_equal e (prefix_chord km) then
        (case find_binding c (bindings km) of
           Some b \<Rightarrow> [Effect (dispatch_action (bound_action b))]
         | None \<Rightarrow> if keys_equal c (prefix_chord km) then [Typed c] else []) @ chords km es
      else Typed e # chords km (c # es))"

fun pressed :: "key_input list \<Rightarrow> key_event list" where
  "pressed [] = []"
| "pressed (Key e # is) = (if is_bare_modifier e then pressed is else e # pressed is)"
| "pressed (i # is) = pressed is"

fun visible :: "key_output \<Rightarrow> bool" where
  "visible (Typed e) = (\<not> is_bare_modifier e)"
| "visible (Effect (NotifyState l s)) = False"
| "visible (Effect e) = True"

definition after_prefix :: "keymap \<Rightarrow> key_event list \<Rightarrow> key_output list" where
  "after_prefix km es = (case es of [] \<Rightarrow> [] | c # es' \<Rightarrow>
     (case find_binding c (bindings km) of
           Some b \<Rightarrow> [Effect (dispatch_action (bound_action b))]
         | None \<Rightarrow> if keys_equal c (prefix_chord km) then [Typed c] else []) @ chords km es')"

lemma chords_Cons:
  "chords km (e # es) =
     (if keys_equal e (prefix_chord km) then after_prefix km es else Typed e # chords km es)"
  by (cases es) (auto simp: after_prefix_def split: option.splits)

lemma visible_dispatch [simp]: "visible (Effect (dispatch_action a))"
  by (cases a) simp_all

lemma listeners_keep [simp]:
  "bound_keymap (on_state_change l b) = bound_keymap b" "key_state (on_state_change l b) = key_state b"
  "bound_keymap (off_state_change l b) = bound_keymap b" "key_state (off_state_change l b) = key_state b"
  by (simp_all add: on_state_change_def off_state_change_def)

lemma filter_notify [simp]: "filter visible (map (Effect \<circ> (\<lambda>l. NotifyState l s)) ls) = []"
  by (induction ls) simp_all

lemma chords_run:
  "filter visible (snd (run_steps binding_step b is)) =
     (if key_state b = RootMode then chords (bound_keymap b) (pressed is)
      else after_prefix (bound_keymap b) (pressed is))"
proof (induction "is" arbitrary: b)
  case Nil
  then show ?case by (simp add: after_prefix_def)
next
  case (Cons i "is")
  show ?case
  proof (cases i)
    case (Key e)
    show ?thesis
    proof (cases "is_bare_modifier e")
      case True
      then show ?thesis using Cons Key
        by (simp add: binding_handle_key_def handle_key_rows Let_def)
    next
      case False
      then show ?thesis using Cons Key
        by (cases "key_state b"; cases "find_binding e (bindings (bound_keymap b))";
            cases "keys_equal e (prefix_chord (bound_keymap b))")
          (simp_all add: binding_handle_key_def handle_key_rows Let_def chords_Cons after_prefix_def)
    qed
  qed (use Cons in simp_all)
qed

text \<open>
  The engine reads chords. Whatever keys are pressed and whatever listeners come and go
  in between, the commands executed and the keys left to the terminal are, in order, those
  of the stateless reading: a prefix and the next real key are one chord, which runs its
  first matching binding, types the key if it is the prefix itself, and is swallowed
  otherwise; a modifier pressed alone changes nothing.
\<close>

theorem keys_read_as_chords:
  "filter visible (snd (run_steps binding_step (bind_keymap km) is)) = chords km (pressed is)"
  by (simp add: chords_run bind_keymap_def INITIAL_STATE_def)

text \<open>No default binding is shadowed, and each is a chord the engine can reach.\<close>

lemma default_bindings_fire:
  "list_all (\<lambda>b. find_binding (chord b) (bindings default_tmux_keymap) = Some b
     \<and> \<not> is_bare_modifier (chord b) \<and> \<not> keys_equal (chord b) (prefix_chord default_tmux_keymap))
     DEFAULT_BINDINGS"
  by code_simp

end
