(* ===== verification/Spec2Isabelle.thy ===== *)
theory Spec2Isabelle
  imports Bisect Broadcast SessionTree ReseedScheduler XtermSink LineSink Chaos LayoutRelay ElectronRenderer Router Commands Subscriptions Reconnect WsClient ServerFlow Keymap
begin

text \<open>
  A verification library for tmux-control-mode-js, a TypeScript client of tmux's control mode.
  Paths below are relative to \<open>src/\<close> of the repository unless they say otherwise.

  \<^bold>\<open>The program.\<close> A transport delivers the bytes tmux prints; \<open>protocol/parser.ts\<close> turns them into
  messages and response blocks; \<open>client.ts\<close> correlates each response block with the command
  that asked for it and emits the rest as events; \<open>topology-router.ts\<close> with
  \<open>pane-output.ts\<close> keeps a table of panes and routes pane output to the sinks attached to it;
  \<open>commands/index.ts\<close> are the typed commands over any connection; \<open>cross-session-layout.ts\<close>
  relays layout changes of other sessions through a server hook. Connectors carry a client
  across a process boundary: \<open>connectors/bridge-connection.ts\<close> keeps, per remote peer, the
  bytes outstanding (\<open>backpressure-ledger.ts\<close>), the subscriptions (\<open>subscription-ledger.ts\<close>)
  and the layout coverage (\<open>cross-session-layout-ledger.ts\<close>); \<open>connectors/websocket/\<close> puts it
  behind a WebSocket, \<open>connectors/electron/\<close> behind Electron's IPC. \<open>keymap/\<close> reads chords.

  \<^bold>\<open>How it is modelled.\<close> Every class is a record and every method a function from the record and
  its arguments to the next record and the list of effects it causes, in order; the operations
  of the environment (a chunk, a timer, a settled promise, a microtask) are the constructors
  of an operation type, and a history of a component is a run (\<open>run_steps\<close> of \<open>Prelude\<close>) over
  a list of them. Anything asynchronous is split at its \<open>await\<close>: what is outstanding is part
  of the state, and its settling is an operation, so every interleaving is a history. Errors
  are values: \<open>Inl\<close> of a sum, or an effect that rejects the promise with its number. Strings are
  HOL strings, one character per byte, as the transport delivers them; JavaScript numbers are
  \<open>jsnum\<close> where the code may meet NaN, an infinity or a rounded literal, 32- and 8-bit words on
  the wire, and integers where the code only counts. Map and Set keep their insertion order.

  \<^bold>\<open>The theories, in dependency order.\<close>

  \<^item> \<open>Prelude\<close>: the JavaScript operations on strings and numbers, insertion-ordered maps and
    sets, runs of step functions, and the contracts \<open>invariant_steps\<close> (an invariant every
    operation keeps), \<open>terminal_steps\<close> (a state no operation leaves) and \<open>wire_codec\<close> (a decoder
    inverts its encoder). Nearly every component interprets one of them.
  \<^item> \<open>Codec\<close> (\<open>protocol/decode.ts\<close>, \<open>connectors/latin1.ts\<close>), \<open>Layout\<close> (\<open>protocol/layout.ts\<close>),
    \<open>Messages\<close> (\<open>protocol/types.ts\<close>), \<open>Parser\<close> (\<open>protocol/parser.ts\<close>), \<open>Serializer\<close>
    (\<open>protocol/serializer.ts\<close>), \<open>Encoder\<close> (\<open>protocol/encoder.ts\<close>): the wire. The parser of a
    stream is a refinement of the parser of its lines under any chunking; layouts are parsed
    exactly by the grammar \<open>cell_text\<close>; serialized messages and transcripts read back; no
    argument of a command changes the words tmux sees.
  \<^item> \<open>Emitter\<close> (\<open>emitter.ts\<close>, \<open>connection-state.ts\<close>) and \<open>Client\<close> (\<open>client.ts\<close>, \<open>errors.ts\<close>): command
    correlation and the life of a connection. \<open>client_counter\<close> is the contract of an event that
    happens at most once per connection.
  \<^item> \<open>Topology\<close>, \<open>Sinks\<close>, \<open>Interest\<close>, \<open>Records\<close> (the parts of \<open>pane-output.ts\<close>) and \<open>Router\<close>
    (\<open>topology-router.ts\<close>): the pane table as a fold of map operations, the sink registry, pane
    suppression, the listing parsers, and the router with its outstanding queries and held
    early output.
  \<^item> \<open>Commands\<close> (\<open>commands/index.ts\<close>, \<open>tmux-compat.ts\<close>, \<open>watch-server.ts\<close>): each command is a
    program over any connection.
  \<^item> \<open>Backpressure\<close>, \<open>Subscriptions\<close>, \<open>Coverage\<close>: the three ledgers of \<open>connectors/\<close>; \<open>Bridge\<close> is the
    facade over them, by the contract \<open>peer_ledger\<close> each of the three interprets. The coverage
    ledger is related to the references its calls leave on the client, by the client's contract;
    what the relay behind it makes of them is stated in \<open>LayoutRelay\<close>.
  \<^item> \<open>Rpc\<close> (\<open>connectors/rpc.ts\<close>, \<open>rpc-dispatch.ts\<close>, \<open>bridge-dispatch.ts\<close>): what crosses the trust
    boundary. \<open>Frames\<close> (\<open>connectors/websocket/protocol.ts\<close>): the frames of the WebSocket protocol.
  \<^item> \<open>Reconnect\<close> (limits, retry controller, heartbeat, rate limiter), \<open>Calls\<close> (outbox, call pump,
    close gate, line terminator), \<open>WsClient\<close> (\<open>connectors/websocket/client.ts\<close>, with \<open>ws_relation\<close>,
    the contract of a relation every operation of the client respects).
  \<^item> \<open>WsServer\<close> (\<open>connectors/websocket/server.ts\<close>, \<open>handshake.ts\<close>), and its properties:
    \<open>ServerSafety\<close> (what is taken is given back), \<open>ServerProtocol\<close> (the order of frames),
    \<open>ServerCalls\<close> (answers), \<open>ServerFlow\<close> (drained buffers, shutdown of all connections).
  \<^item> \<open>LayoutRelay\<close> (\<open>cross-session-layout.ts\<close>): commands, decoding, the relay and its steps. The
    hook's effect on the buffer is written out (\<open>hook_runs\<close>) to state that every layout change
    is fetched or counted as lost.
  \<^item> \<open>ElectronMain\<close> (\<open>connectors/electron/main.ts\<close>, \<open>sender-registry.ts\<close>, \<open>invoke-pipeline.ts\<close>, \<open>sink.ts\<close>)
    and \<open>ElectronRenderer\<close> (\<open>renderer.ts\<close>): many renderers on one bridge.
  \<^item> \<open>Keymap\<close> (\<open>keymap/\<close>): chords, the engine and its bindings.
  \<^item> \<open>LineSink\<close> (\<open>line-sink.ts\<close>): the shared decoder and partial line of a pane and its consumers.
  \<^item> \<open>Chaos\<close> (\<open>chaos/\<close>): the fault generator on 32-bit words, the corruptions of a chunk, the
    hand-advanced clock and the transport decorator.
  \<^item> \<open>SeedBuilder\<close>, \<open>PaneStream\<close>, \<open>ReseedScheduler\<close> (\<open>packages/pane-terminal/src/stream/\<close>) and \<open>XtermSink\<close>
    (\<open>packages/pane-terminal/src/xterm-sink/\<close>): the snapshot that restores a pane, the state
    machine of a stream, the sweep after a reconnect, and the sink with its first-resize gate.
  \<^item> \<open>Recordings\<close>, \<open>EscapeParse\<close>, \<open>Emulator\<close>, \<open>Bisect\<close>, \<open>Broadcast\<close>, \<open>SessionTree\<close> (engines of the example
    application, \<open>examples/web-multiplexer/web/\<close>): recorded sessions, the scrollback axis and lockstep
    playback; escape notation and the classification of bytes; a terminal emulator that knows
    which byte wrote each cell; the difference of two moments and the search for the byte that
    broke a screen; templates resolved per pane; the tree of sessions, windows and panes.

  \<^bold>\<open>Kinds of statements.\<close> Refinements relate the code to a simpler description (the parser of lines,
  the topology as map operations, the surface of a playback as a fresh reconstruction);
  invariants hold in every state a history reaches; liveness is stated of settled histories
  (every call answered once, everything taken released, every stream reseeded); round trips read
  back what is written; the error statements fix what a failing branch does, including
  the defects found, each exhibited by a theorem.

  \<^bold>\<open>Bounds.\<close> No definition carries fuel: every recursion is structural or has a measure, and a loop
  that could run forever is a \<open>partial_function\<close> into options whose result is proved to exist.
  Numeric literals are rounded to doubles where the code compares them beyond \<open>2 ^ 53\<close>. The hook
  buffer holds 4096 bytes, so 116 changes of at most 35 bytes fit between two polls. Draws of the
  fault generator are 32-bit, and scaled exactly for bounds up to \<open>2 ^ 21\<close>. Acknowledgements
  count whole bytes. The first-resize gate holds 4 MiB. Times, lengths and fractions of the
  display code are exact rationals, row counts that are not whole count as not reported.

  \<^bold>\<open>Not modelled.\<close> Module indexes (re-exports, \<open>chaos/index.ts\<close> among them) and the exhaustiveness
  helper have no behaviour; \<open>transport/spawn.ts\<close>, \<open>transport/sockets.ts\<close>, \<open>transport/types.ts\<close>, the platform streams of
  \<open>connectors/streams/\<close> and \<open>sinks/text-stream.ts\<close> are I/O of the platform, whose deliveries are the
  operations of the model; \<open>mock/\<close> and \<open>conformance/\<close> are test code; the adapters of \<open>pane-terminal\<close> to
  React and to plain pages, its recording sink and its benchmarks are glue. Of the example
  application the React views, the MobX stores, the servers and the electron shell are not
  modelled. The third-party terminal, the document and the timers are arguments or operations.
\<close>

end
